(* ===== verification/Prelude.thy ===== *)
theory Prelude
  imports Main "HOL-Library.Word"
begin

text \<open>
  The shared base of the development: the names of the C types the components use, the lemma
  collections the component theories fill, the option monad's helper facts (an operation that
  would touch memory it does not own returns \<open>None\<close>), C strings as byte lists, and the list
  facts several components need.
\<close>

subsection \<open>Machine types\<close>

type_synonym u8 = "8 word"
type_synonym u16 = "16 word"
type_synonym u32 = "32 word"
type_synonym u64 = "64 word"

text \<open>The largest value of \<open>size_t\<close> on the 64-bit targets, and the wrap-around of \<open>size_t\<close>
  subtraction written out on \<open>nat\<close>.\<close>

definition size_max :: nat where
  "size_max = 2 ^ 64 - 1"

definition size_sub :: "nat \<Rightarrow> nat \<Rightarrow> nat" where
  "size_sub a b = (if b \<le> a then a - b else a + (size_max + 1) - b)"

lemma size_sub_le [simp]: "b \<le> a \<Longrightarrow> size_sub a b = a - b"
  by (simp add: size_sub_def)

lemma size_sub_0_1 [simp]: "size_sub 0 (Suc 0) = size_max"
  by (simp add: size_sub_def size_max_def)

subsection \<open>Lemma collections\<close>

named_theorems ub_simps \<open>unfoldings of the operations that may touch memory\<close>
named_theorems abs_simps \<open>abstraction functions applied to operations\<close>
named_theorems inv_intros \<open>operations preserve their component's invariant\<close>

subsection \<open>Reads and writes of arrays\<close>

text \<open>An array access outside the allocated cells has no defined result.\<close>

definition array_get :: "'a list \<Rightarrow> nat \<Rightarrow> 'a option" where
  "array_get xs i = (if i < length xs then Some (xs ! i) else None)"

definition array_set :: "'a list \<Rightarrow> nat \<Rightarrow> 'a \<Rightarrow> 'a list option" where
  "array_set xs i v = (if i < length xs then Some (xs[i := v]) else None)"

lemma array_get_Some [simp]: "i < length xs \<Longrightarrow> array_get xs i = Some (xs ! i)"
  by (simp add: array_get_def)

lemma array_get_None [simp]: "\<not> i < length xs \<Longrightarrow> array_get xs i = None"
  by (simp add: array_get_def)

lemma array_set_Some [simp]: "i < length xs \<Longrightarrow> array_set xs i v = Some (xs[i := v])"
  by (simp add: array_set_def)

lemma array_set_None [simp]: "\<not> i < length xs \<Longrightarrow> array_set xs i v = None"
  by (simp add: array_set_def)

subsection \<open>Cyclic indices\<close>

text \<open>One conditional subtraction is the remainder, for an index below twice the modulus.\<close>

lemma mod_by_subtraction:
  fixes i c :: nat
  assumes "i < 2 * c"
  shows "(if c \<le> i then i - c else i) = i mod c"
  using assms by (auto simp: mod_if)

lemma mod_add_inj_le:
  fixes p i j c :: nat
  assumes "i \<le> j" "j < c" "(p + i) mod c = (p + j) mod c"
  shows "i = j"
proof -
  have "c dvd (p + j) - (p + i)"
    using assms(3) by (metis mod_eq_dvd_iff_nat add_le_mono1 add.commute assms(1))
  then have "c dvd j - i" by simp
  with assms(1,2) show ?thesis
    by (metis dvd_imp_le diff_is_0_eq leD le_antisym less_imp_diff_less neq0_conv)
qed

lemma mod_add_inj:
  fixes p i j c :: nat
  assumes "i < c" "j < c" "(p + i) mod c = (p + j) mod c"
  shows "i = j"
  using assms mod_add_inj_le [of i j c p] mod_add_inj_le [of j i c p] by (cases "i \<le> j") auto


subsection \<open>Sequences of partial operations\<close>

text \<open>An operation applied to each value of a list, or a number of times; undefined as soon as
  one application is.\<close>

fun fold_opt :: "('q \<Rightarrow> 'a \<Rightarrow> 'q option) \<Rightarrow> 'q \<Rightarrow> 'a list \<Rightarrow> 'q option" where
  "fold_opt f q [] = Some q"
| "fold_opt f q (x # xs) = (case f q x of None \<Rightarrow> None | Some q' \<Rightarrow> fold_opt f q' xs)"

fun iter_opt :: "('q \<Rightarrow> 'q option) \<Rightarrow> nat \<Rightarrow> 'q \<Rightarrow> 'q option" where
  "iter_opt f 0 q = Some q"
| "iter_opt f (Suc n) q = (case f q of None \<Rightarrow> None | Some q' \<Rightarrow> iter_opt f n q')"

lemma fold_opt_append:
  "fold_opt f q (xs @ ys) = (case fold_opt f q xs of None \<Rightarrow> None | Some q' \<Rightarrow> fold_opt f q' ys)"
  by (induction f q xs rule: fold_opt.induct) (auto split: option.splits)

text \<open>An invariant of the single operation is one of the sequence.\<close>

lemma fold_opt_invariant:
  assumes "\<And>q x. I q \<Longrightarrow> x \<in> set xs \<Longrightarrow> \<exists>q'. f q x = Some q' \<and> I q'" "I q"
  shows "\<exists>q'. fold_opt f q xs = Some q' \<and> I q'"
  using assms by (induction xs arbitrary: q) fastforce+

subsection \<open>Searching\<close>

lemma find_SomeD: "find P xs = Some x \<Longrightarrow> x \<in> set xs \<and> P x"
  by (induction xs) (auto split: if_splits)

subsection \<open>The non-null pointers of a list of cells\<close>

definition somes :: "'a option list \<Rightarrow> 'a list" where
  "somes xs = map the (filter (\<lambda>x. x \<noteq> None) xs)"

lemma somes_simps [simp]:
  "somes [] = []" "somes (None # xs) = somes xs" "somes (Some x # xs) = x # somes xs"
  "somes (xs @ ys) = somes xs @ somes ys" "somes (map Some zs) = zs" "somes (replicate n None) = []"
  by (simp_all add: somes_def comp_def)

subsection \<open>Growing a size by doubling\<close>

text \<open>
  The loop several buffers share: a \<^verbatim>\<open>size_t\<close> is doubled until it reaches what is required; when
  the doubling wraps, the required size itself is taken.
\<close>

function grow_size :: "nat \<Rightarrow> nat \<Rightarrow> nat" where
  "grow_size n required =
     (if n < required
      then (let tmp = (n * 2) mod 2 ^ 64 in if tmp \<le> n then required else grow_size tmp required)
      else n)"
  by pat_completeness auto
termination
  by (relation "measure (\<lambda>(n, required). required - n)") auto

declare grow_size.simps [simp del]

lemma grow_size_enough: "required \<le> grow_size n required"
proof (induction n required rule: grow_size.induct)
  case (1 n required)
  show ?case
  proof (cases "n < required \<and> n < (n * 2) mod 2 ^ 64")
    case True
    then show ?thesis using 1 by (subst grow_size.simps) (simp add: Let_def)
  qed (subst grow_size.simps, auto simp: Let_def)
qed

lemma grow_size_mono: "n \<le> grow_size n required"
proof (induction n required rule: grow_size.induct)
  case (1 n required)
  show ?case
  proof (cases "n < required \<and> n < (n * 2) mod 2 ^ 64")
    case True
    with 1 have "(n * 2) mod 2 ^ 64 \<le> grow_size ((n * 2) mod 2 ^ 64) required" by simp
    with True show ?thesis by (subst grow_size.simps) (simp add: Let_def)
  qed (subst grow_size.simps, auto simp: Let_def)
qed

text \<open>No more than twice what is required, unless the start was larger.\<close>

lemma grow_size_bound: "grow_size n required \<le> max n (2 * required)"
proof (induction n required rule: grow_size.induct)
  case (1 n required)
  show ?case
  proof (cases "n < required \<and> n < (n * 2) mod 2 ^ 64")
    case True
    with 1 have "grow_size ((n * 2) mod 2 ^ 64) required \<le> max ((n * 2) mod 2 ^ 64) (2 * required)" by simp
    moreover have "(n * 2) mod 2 ^ 64 \<le> 2 * required"
      by (rule order_trans [OF mod_less_eq_dividend]) (use True in simp)
    ultimately show ?thesis using True by (subst grow_size.simps) (simp add: Let_def)
  qed (subst grow_size.simps, auto simp: Let_def)
qed

subsection \<open>Allocation\<close>

text \<open>
  What the program relies on of \<^verbatim>\<open>realloc\<close>: a new block has the requested size and starts with the
  content of the old one, and no block is larger than half of the address space.
\<close>

definition realloc_ok :: "('b list \<Rightarrow> nat \<Rightarrow> 'b list option) \<Rightarrow> bool" where
  "realloc_ok realloc \<longleftrightarrow> (\<forall>old n new. realloc old n = Some new \<longrightarrow>
     length new = n \<and> n < 2 ^ 63 \<and> take (min (length old) n) new = take (min (length old) n) old)"

lemma realloc_okD:
  assumes "realloc_ok realloc" "realloc old n = Some new"
  shows "length new = n" "n < 2 ^ 63" "k \<le> length old \<Longrightarrow> k \<le> n \<Longrightarrow> take k new = take k old"
proof -
  have "take (min (length old) n) new = take (min (length old) n) old"
    using assms unfolding realloc_ok_def by blast
  then have "take k (take (min (length old) n) new) = take k (take (min (length old) n) old)" by simp
  then show "k \<le> length old \<Longrightarrow> k \<le> n \<Longrightarrow> take k new = take k old" by (simp add: min_def split: if_splits)
qed (use assms in \<open>auto simp: realloc_ok_def\<close>)

text \<open>An instance: the rest of the new block is zero.\<close>

definition realloc_zero :: "nat \<Rightarrow> 'b :: zero list \<Rightarrow> nat \<Rightarrow> 'b list option" where
  "realloc_zero limit old n =
     (if n < limit \<and> n < 2 ^ 63 then Some (take n old @ replicate (n - length old) 0) else None)"

lemma realloc_zero_ok: "realloc_ok (realloc_zero limit)"
  by (auto simp: realloc_ok_def realloc_zero_def min_def)

text \<open>\<^verbatim>\<open>memcpy\<close> into a block; a write that does not fit is undefined.\<close>

definition block_write :: "'b list \<Rightarrow> nat \<Rightarrow> 'b list \<Rightarrow> 'b list option" where
  "block_write block ofs bs =
     (if ofs + length bs \<le> length block
      then Some (take ofs block @ bs @ drop (ofs + length bs) block) else None)"

lemma block_write_take:
  "block_write block ofs bs = Some block' \<Longrightarrow>
     length block' = length block \<and> take (ofs + length bs) block' = take ofs block @ bs"
  by (cases bs) (auto simp: block_write_def min_def split: if_splits)

end
