(* ===== verification/Ringbuffer.thy ===== *)
theory Ringbuffer
  imports Prelude
begin

text \<open>
  The ring buffer of \<^verbatim>\<open>core/ringbuffer.c\<close>. The record is \<^verbatim>\<open>ringbuffer_t\<close>: \<open>entries\<close> is the
  \<^verbatim>\<open>calloc\<close>ed pointer array (a \<open>None\<close> cell is a \<open>NULL\<close> pointer, a \<open>NULL\<close> array has no cell),
  \<open>rb_free\<close> says whether a release function was registered, and \<open>released\<close> is the sequence of
  calls made to it, oldest first. An operation that would touch a cell outside the array, or
  through the \<open>NULL\<close> array, has no result (\<open>None\<close>). \<^verbatim>\<open>calloc\<close> and \<^verbatim>\<open>malloc\<close> may fail: their success
  is an argument.

  The abstract specification is a bounded queue of pointers; the locale \<open>bounded_queue\<close> states
  its contract and the model is an interpretation of it.
\<close>

record 'p ringbuffer =
  entries :: "'p option list"
  position :: nat
  rb_count :: nat
  capacity :: nat
  rb_free :: bool
  released :: "'p option list"

subsection \<open>Operations\<close>

definition ringbuffer_init :: "bool \<Rightarrow> nat \<Rightarrow> bool \<Rightarrow> 'p ringbuffer" where
  "ringbuffer_init calloc_ok cap free_func =
     (if cap > 0 \<and> calloc_ok
      then \<lparr>entries = replicate cap None, position = 0, rb_count = 0, capacity = cap,
            rb_free = free_func, released = []\<rparr>
      else \<lparr>entries = [], position = 0, rb_count = 0, capacity = 0,
            rb_free = free_func, released = []\<rparr>)"

definition ringbuffer_inc_tail :: "'p ringbuffer \<Rightarrow> 'p ringbuffer" where
  "ringbuffer_inc_tail rb =
     (let p = position rb + 1
      in rb\<lparr>position := (if p \<ge> capacity rb then 0 else p)\<rparr>)"

definition ringbuffer_free :: "'p ringbuffer \<Rightarrow> nat \<Rightarrow> 'p ringbuffer option" where
  "ringbuffer_free rb index =
     (let index = (if index \<ge> capacity rb then index - capacity rb else index)
      in case array_get (entries rb) index of
           None \<Rightarrow> None
         | Some e \<Rightarrow>
             Some (rb\<lparr>released := (if rb_free rb then released rb @ [e] else released rb),
                      entries := (entries rb)[index := None]\<rparr>))"

definition ringbuffer_set :: "'p ringbuffer \<Rightarrow> nat \<Rightarrow> 'p option \<Rightarrow> 'p ringbuffer option" where
  "ringbuffer_set rb index element =
     (let index = (if index \<ge> capacity rb then index - capacity rb else index)
      in case ringbuffer_free rb index of
           None \<Rightarrow> None
         | Some rb' \<Rightarrow> map_option (\<lambda>es. rb'\<lparr>entries := es\<rparr>)
                          (array_set (entries rb') index element))"

definition ringbuffer_push :: "'p ringbuffer \<Rightarrow> 'p option \<Rightarrow> 'p ringbuffer option" where
  "ringbuffer_push rb element =
     (case element of
        None \<Rightarrow> Some rb
      | Some _ \<Rightarrow>
          if rb_count rb < capacity rb
          then map_option (\<lambda>rb'. rb'\<lparr>rb_count := rb_count rb' + 1\<rparr>)
                 (ringbuffer_set rb (position rb + rb_count rb) element)
          else map_option ringbuffer_inc_tail (ringbuffer_set rb (position rb) element))"

definition ringbuffer_pop :: "'p ringbuffer \<Rightarrow> 'p ringbuffer option" where
  "ringbuffer_pop rb =
     (if rb_count rb > 0
      then (let rb1 = rb\<lparr>rb_count := rb_count rb - 1\<rparr>
            in map_option ringbuffer_inc_tail (ringbuffer_free rb1 (position rb1)))
      else Some rb)"

definition ringbuffer_element :: "'p ringbuffer \<Rightarrow> nat \<Rightarrow> 'p option option" where
  "ringbuffer_element rb index =
     (if index < rb_count rb
      then (let index = index + position rb;
                index = (if index \<ge> capacity rb then index - capacity rb else index)
            in array_get (entries rb) index)
      else Some None)"

definition ringbuffer_tail :: "'p ringbuffer \<Rightarrow> 'p option option" where
  "ringbuffer_tail rb = ringbuffer_element rb 0"

definition ringbuffer_head :: "'p ringbuffer \<Rightarrow> 'p option option" where
  "ringbuffer_head rb = ringbuffer_element rb (size_sub (rb_count rb) 1)"

text \<open>The \<^verbatim>\<open>while\<close> loops run while the count exceeds a bound, which every pop decreases.\<close>

lemma ringbuffer_free_count:
  "ringbuffer_free rb i = Some rb' \<Longrightarrow> rb_count rb' = rb_count rb \<and> capacity rb' = capacity rb"
  by (auto simp: ringbuffer_free_def Let_def split: option.splits)

lemma ringbuffer_pop_count:
  "ringbuffer_pop rb = Some rb' \<Longrightarrow> rb_count rb' = rb_count rb - 1"
  by (auto simp: ringbuffer_pop_def Let_def ringbuffer_inc_tail_def
           dest!: ringbuffer_free_count split: if_splits)

function ringbuffer_trim :: "nat \<Rightarrow> 'p ringbuffer \<Rightarrow> 'p ringbuffer option" where
  "ringbuffer_trim n rb =
     (if rb_count rb > n
      then (case ringbuffer_pop rb of None \<Rightarrow> None | Some rb' \<Rightarrow> ringbuffer_trim n rb')
      else Some rb)"
  by pat_completeness auto
termination
  by (relation "measure (\<lambda>(n, rb). rb_count rb)") (auto dest: ringbuffer_pop_count)

declare ringbuffer_trim.simps [simp del]

definition ringbuffer_clear :: "'p ringbuffer \<Rightarrow> 'p ringbuffer option" where
  "ringbuffer_clear rb = ringbuffer_trim 0 rb"

definition ringbuffer_done :: "'p ringbuffer \<Rightarrow> 'p ringbuffer option" where
  "ringbuffer_done rb =
     map_option (\<lambda>rb'. rb'\<lparr>capacity := 0, entries := []\<rparr>) (ringbuffer_clear rb)"

text \<open>The copy loop of the resize: cell \<open>i\<close> of the new array receives element \<open>i\<close>.\<close>

fun ringbuffer_copy_elements ::
  "'p ringbuffer \<Rightarrow> nat \<Rightarrow> 'p option list \<Rightarrow> 'p option list option" where
  "ringbuffer_copy_elements rb 0 new = Some new"
| "ringbuffer_copy_elements rb (Suc i) new =
     (case ringbuffer_copy_elements rb i new of
        None \<Rightarrow> None
      | Some new' \<Rightarrow> (case ringbuffer_element rb i of
                       None \<Rightarrow> None
                     | Some e \<Rightarrow> array_set new' i e))"

definition ringbuffer_resize :: "bool \<Rightarrow> 'p ringbuffer \<Rightarrow> nat \<Rightarrow> 'p ringbuffer option" where
  "ringbuffer_resize calloc_ok rb new_capacity =
     (if new_capacity > 0
      then (if \<not> calloc_ok then Some rb
            else case ringbuffer_trim new_capacity rb of
                   None \<Rightarrow> None
                 | Some rb' \<Rightarrow>
                     (case ringbuffer_copy_elements rb' (rb_count rb')
                             (replicate new_capacity None) of
                        None \<Rightarrow> None
                      | Some new \<Rightarrow> Some (rb'\<lparr>entries := new, position := 0\<rparr>)))
      else Some rb)"

text \<open>
  \<open>ringbuffer_push_copy\<close> stores the address of a fresh copy of the buffer's first \<open>size\<close> bytes.
  The heap maps the address of a live block to its contents; \<open>alloc\<close> is what \<^verbatim>\<open>malloc\<close> returns.
\<close>

definition ringbuffer_push_copy ::
  "'p option \<Rightarrow> ('p \<rightharpoonup> u8 list) \<Rightarrow> 'p ringbuffer \<Rightarrow> u8 list option \<Rightarrow> nat
   \<Rightarrow> (('p \<rightharpoonup> u8 list) \<times> 'p ringbuffer) option" where
  "ringbuffer_push_copy alloc heap rb buffer sz =
     (case buffer of
        None \<Rightarrow> Some (heap, rb)
      | Some bytes \<Rightarrow>
          if sz = 0 then Some (heap, rb)
          else (case alloc of
                  None \<Rightarrow> Some (heap, rb)
                | Some p \<Rightarrow>
                    if length bytes < sz then None
                    else map_option (\<lambda>rb'. (heap(p \<mapsto> take sz bytes), rb'))
                           (ringbuffer_push rb (Some p))))"

lemmas ringbuffer_defs =
  ringbuffer_inc_tail_def ringbuffer_free_def ringbuffer_set_def ringbuffer_push_def
  ringbuffer_pop_def ringbuffer_element_def Let_def

subsection \<open>Invariant and abstraction\<close>

text \<open>
  The cell of the \<open>i\<close>-th element, the content from tail to head, and the invariant: the array
  has at least \<open>capacity\<close> cells, the position is inside it, at most \<open>capacity\<close> elements are stored, and
  exactly the cells of the stored elements are not \<open>NULL\<close>.
\<close>

definition rb_cell :: "'p ringbuffer \<Rightarrow> nat \<Rightarrow> nat" where
  "rb_cell rb i = (position rb + i) mod capacity rb"

definition rb_list :: "'p ringbuffer \<Rightarrow> 'p list" where
  "rb_list rb = map (\<lambda>i. the (entries rb ! rb_cell rb i)) [0..<rb_count rb]"

definition rb_inv :: "'p ringbuffer \<Rightarrow> bool" where
  "rb_inv rb \<longleftrightarrow>
     0 < capacity rb \<and> capacity rb \<le> length (entries rb) \<and> position rb < capacity rb
     \<and> rb_count rb \<le> capacity rb
     \<and> (\<forall>i < capacity rb. (entries rb ! rb_cell rb i = None) \<longleftrightarrow> rb_count rb \<le> i)"

lemma length_rb_list [simp]: "length (rb_list rb) = rb_count rb"
  by (simp add: rb_list_def)

lemma nth_rb_list: "i < rb_count rb \<Longrightarrow> rb_list rb ! i = the (entries rb ! rb_cell rb i)"
  by (simp add: rb_list_def)


lemma rb_invD:
  assumes "rb_inv rb"
  shows "0 < capacity rb" "capacity rb \<le> length (entries rb)" "position rb < capacity rb"
    "rb_count rb \<le> capacity rb"
    "\<And>i. i < capacity rb \<Longrightarrow> (entries rb ! rb_cell rb i = None) \<longleftrightarrow> rb_count rb \<le> i"
  using assms by (auto simp: rb_inv_def)

lemma rb_cell_less: "0 < capacity rb \<Longrightarrow> rb_cell rb i < capacity rb"
  by (simp add: rb_cell_def)

lemma rb_cell_inj:
  "i < capacity rb \<Longrightarrow> j < capacity rb \<Longrightarrow> rb_cell rb i = rb_cell rb j \<longleftrightarrow> i = j"
  by (auto simp: rb_cell_def dest: mod_add_inj)

lemma rb_cell_eq_subtract:
  assumes "position rb < capacity rb" "i < capacity rb"
  shows "(if capacity rb \<le> position rb + i then position rb + i - capacity rb else position rb + i)
         = rb_cell rb i"
  using mod_by_subtraction [of "position rb + i" "capacity rb"] assms by (simp add: rb_cell_def)

lemma rb_cell_0: "position rb < capacity rb \<Longrightarrow> rb_cell rb 0 = position rb"
  by (simp add: rb_cell_def)

lemma rb_cell_wrap: "rb_cell rb (capacity rb) = rb_cell rb 0"
  by (simp add: rb_cell_def)

lemma nth_entries_cell:
  "rb_inv rb \<Longrightarrow> i < rb_count rb \<Longrightarrow> entries rb ! rb_cell rb i = Some (rb_list rb ! i)"
  using rb_invD(4,5) [of rb] by (fastforce simp: nth_rb_list)

text \<open>Reading: an element inside the count is the list's, any other index gives \<open>NULL\<close>.\<close>

lemma ringbuffer_element_eq:
  assumes "rb_inv rb"
  shows "ringbuffer_element rb i =
    Some (if i < rb_count rb then Some (rb_list rb ! i) else None)"
proof (cases "i < rb_count rb")
  case True
  with rb_invD [OF assms] have "i < capacity rb" by linarith
  then show ?thesis
    using True rb_invD [OF assms] rb_cell_eq_subtract [of rb i] nth_entries_cell [OF assms True]
      rb_cell_less [of rb i]
    by (simp add: ringbuffer_element_def Let_def add.commute [of i])
next
  case False
  then show ?thesis by (simp add: ringbuffer_element_def)
qed

text \<open>The element lists after a write at a cell and after moving the tail.\<close>

lemma inc_tail_simps [simp]:
  "entries (ringbuffer_inc_tail rb) = entries rb"
  "rb_count (ringbuffer_inc_tail rb) = rb_count rb"
  "capacity (ringbuffer_inc_tail rb) = capacity rb"
  "rb_free (ringbuffer_inc_tail rb) = rb_free rb"
  "released (ringbuffer_inc_tail rb) = released rb"
  by (simp_all add: ringbuffer_inc_tail_def Let_def)

lemma inc_tail_position:
  "position rb < capacity rb \<Longrightarrow> position (ringbuffer_inc_tail rb) = rb_cell rb 1"
  by (auto simp: ringbuffer_inc_tail_def Let_def rb_cell_def mod_if)

lemma inc_tail_cell:
  "position rb < capacity rb \<Longrightarrow> rb_cell (ringbuffer_inc_tail rb) i = rb_cell rb (Suc i)"
  by (simp add: inc_tail_position rb_cell_def mod_simps)

text \<open>Freeing and setting a cell, under the invariant's bounds.\<close>

lemma ringbuffer_free_cell:
  assumes "capacity rb \<le> length (entries rb)" "j < capacity rb"
  shows "ringbuffer_free rb j =
    Some (rb\<lparr>released := (if rb_free rb then released rb @ [entries rb ! j] else released rb),
             entries := (entries rb)[j := None]\<rparr>)"
  using assms by (simp add: ringbuffer_free_def Let_def)

lemma ringbuffer_set_cell:
  assumes "capacity rb \<le> length (entries rb)" "position rb < capacity rb" "i < capacity rb"
  shows "ringbuffer_set rb (position rb + i) e =
    (let j = rb_cell rb i
     in Some (rb\<lparr>released := (if rb_free rb then released rb @ [entries rb ! j] else released rb),
              entries := (entries rb)[j := e]\<rparr>))"
proof -
  have "rb_cell rb i < capacity rb" using assms by (intro rb_cell_less) simp
  then show ?thesis
    using assms rb_cell_eq_subtract [of rb i]
    by (simp add: ringbuffer_set_def Let_def ringbuffer_free_cell)
qed

subsection \<open>Initial state, push and pop\<close>

lemma ringbuffer_init_inv [inv_intros]: "0 < c \<Longrightarrow> rb_inv (ringbuffer_init True c f)"
  by (auto simp: ringbuffer_init_def rb_inv_def rb_cell_def)

lemma ringbuffer_init_list [abs_simps]: "rb_list (ringbuffer_init ok c f) = []"
  by (simp add: ringbuffer_init_def rb_list_def)

definition rb_spec_push :: "nat \<Rightarrow> 'p list \<Rightarrow> 'p \<Rightarrow> 'p list" where
  "rb_spec_push cap xs x = (if length xs < cap then xs @ [x] else tl xs @ [x])"

definition rb_evicted :: "'p ringbuffer \<Rightarrow> 'p option list" where
  "rb_evicted rb = (if \<not> rb_free rb then []
     else if rb_count rb < capacity rb then [None] else [Some (hd (rb_list rb))])"

lemma push_room:
  assumes inv: "rb_inv rb" and room: "rb_count rb < capacity rb"
  shows "\<exists>rb'. ringbuffer_push rb (Some x) = Some rb' \<and> rb_inv rb' \<and> rb_list rb' = rb_list rb @ [x]
           \<and> capacity rb' = capacity rb \<and> rb_free rb' = rb_free rb
           \<and> released rb' = released rb @ rb_evicted rb"
proof -
  note I = rb_invD [OF inv]
  let ?n = "rb_count rb" and ?j = "rb_cell rb (rb_count rb)"
  define rb' where "rb' = rb\<lparr>released := (if rb_free rb then released rb @ [entries rb ! ?j] else released rb),
              entries := (entries rb)[?j := Some x], rb_count := ?n + 1\<rparr>"
  have push: "ringbuffer_push rb (Some x) = Some rb'"
    using room I by (simp add: ringbuffer_push_def ringbuffer_set_cell Let_def rb'_def)
  have cell: "rb_cell rb' i = rb_cell rb i" for i by (simp add: rb_cell_def rb'_def)
  have ent: "entries rb' = (entries rb)[?j := Some x]" by (simp add: rb'_def)
  have jless: "?j < capacity rb" by (rule rb_cell_less [OF I(1)])
  have nth: "i < capacity rb \<Longrightarrow> entries rb' ! rb_cell rb' i = (if i = ?n then Some x else entries rb ! rb_cell rb i)" for i
    using jless rb_cell_inj [of ?n rb i] room I(2) by (auto simp: cell ent nth_list_update)
  have sels: "capacity rb' = capacity rb" "rb_count rb' = Suc ?n" "position rb' = position rb"
    "length (entries rb') = length (entries rb)" by (simp_all add: rb'_def)
  have "rb_inv rb'"
    using I room nth by (auto simp: rb_inv_def sels split: if_splits)
  moreover have "rb_list rb' = rb_list rb @ [x]"
  proof (rule nth_equalityI)
    show "length (rb_list rb') = length (rb_list rb @ [x])" by (simp add: rb'_def)
    fix i assume "i < length (rb_list rb')"
    then have i: "i < ?n + 1" by (simp add: rb'_def)
    then show "rb_list rb' ! i = (rb_list rb @ [x]) ! i"
      using nth [of i] room by (auto simp: nth_rb_list nth_append rb'_def)
  qed
  moreover have "released rb' = released rb @ rb_evicted rb"
    using I(5) [OF room] room by (simp add: rb'_def rb_evicted_def)
  ultimately show ?thesis using push by (simp add: rb'_def)
qed

lemma push_full:
  assumes inv: "rb_inv rb" and full: "\<not> rb_count rb < capacity rb"
  shows "\<exists>rb'. ringbuffer_push rb (Some x) = Some rb' \<and> rb_inv rb' \<and> rb_list rb' = tl (rb_list rb) @ [x]
           \<and> capacity rb' = capacity rb \<and> rb_free rb' = rb_free rb
           \<and> released rb' = released rb @ rb_evicted rb"
proof -
  note I = rb_invD [OF inv]
  let ?c = "capacity rb"
  have n: "rb_count rb = ?c" using full I(4) by simp
  define rb1 where "rb1 = rb\<lparr>released := (if rb_free rb then released rb @ [entries rb ! rb_cell rb 0] else released rb),
              entries := (entries rb)[rb_cell rb 0 := Some x]\<rparr>"
  define rb' where "rb' = ringbuffer_inc_tail rb1"
  have push: "ringbuffer_push rb (Some x) = Some rb'"
    using full I ringbuffer_set_cell [of rb 0 "Some x"]
    by (simp add: ringbuffer_push_def Let_def rb1_def rb'_def)
  have cell: "rb_cell rb' i = rb_cell rb (Suc i)" for i
    using I(3) inc_tail_cell [of rb1 i] by (simp add: rb'_def rb1_def rb_cell_def)
  have clen: "rb_cell rb 0 < length (entries rb)"
    using rb_cell_less [OF I(1), of 0] I(2) by linarith
  have ent: "entries rb' = (entries rb)[rb_cell rb 0 := Some x]" by (simp add: rb'_def rb1_def)
  have nth: "i < ?c \<Longrightarrow> entries rb' ! rb_cell rb' i = (if Suc i = ?c then Some x else entries rb ! rb_cell rb (Suc i))" for i
    using rb_cell_inj [of "Suc i" rb 0] clen I(1) rb_cell_wrap [of rb]
    by (cases "Suc i = ?c") (simp_all add: cell ent)
  have pos: "position rb' < ?c"
    using I inc_tail_position [of rb1] rb_cell_less [of rb1 1] by (simp add: rb'_def rb1_def)
  have "rb_inv rb'"
    using I pos nth n by (auto simp: rb_inv_def rb'_def rb1_def)
  moreover have "rb_list rb' = tl (rb_list rb) @ [x]"
  proof (rule nth_equalityI)
    show "length (rb_list rb') = length (tl (rb_list rb) @ [x])"
      using I(1) n by (simp add: rb'_def rb1_def)
    fix i assume "i < length (rb_list rb')"
    then have "i < ?c" by (simp add: rb'_def rb1_def n)
    then show "rb_list rb' ! i = (tl (rb_list rb) @ [x]) ! i"
      using nth [of i] n by (auto simp: nth_rb_list nth_append nth_tl rb'_def rb1_def)
  qed
  moreover have "released rb' = released rb @ rb_evicted rb"
    using full n I(1) nth_entries_cell [OF inv, of 0] hd_conv_nth [of "rb_list rb"]
    by (auto simp: rb'_def rb1_def rb_evicted_def rb_list_def)
  ultimately show ?thesis using push by (simp add: rb'_def rb1_def)
qed


lemma ringbuffer_push_spec:
  assumes "rb_inv rb"
  shows "\<exists>rb'. ringbuffer_push rb (Some x) = Some rb' \<and> rb_inv rb'
           \<and> rb_list rb' = rb_spec_push (capacity rb) (rb_list rb) x
           \<and> capacity rb' = capacity rb \<and> rb_free rb' = rb_free rb
           \<and> released rb' = released rb @ rb_evicted rb"
  using push_room [OF assms, of x] push_full [OF assms, of x]
  by (cases "rb_count rb < capacity rb") (auto simp: rb_spec_push_def)

lemma pop_nonempty:
  assumes inv: "rb_inv rb" and ne: "0 < rb_count rb"
  shows "\<exists>rb'. ringbuffer_pop rb = Some rb' \<and> rb_inv rb' \<and> rb_list rb' = tl (rb_list rb)
           \<and> capacity rb' = capacity rb \<and> rb_free rb' = rb_free rb
           \<and> released rb' = released rb @ (if rb_free rb then [Some (hd (rb_list rb))] else [])"
proof -
  note I = rb_invD [OF inv]
  let ?c = "capacity rb" and ?n = "rb_count rb"
  define rb1 where "rb1 = rb\<lparr>rb_count := ?n - 1,
      released := (if rb_free rb then released rb @ [entries rb ! rb_cell rb 0] else released rb),
      entries := (entries rb)[rb_cell rb 0 := None]\<rparr>"
  define rb' where "rb' = ringbuffer_inc_tail rb1"
  have pop: "ringbuffer_pop rb = Some rb'"
    using ne I ringbuffer_free_cell [of "rb\<lparr>rb_count := ?n - 1\<rparr>" "position rb"] rb_cell_0 [OF I(3)]
    by (simp add: ringbuffer_pop_def Let_def rb1_def rb'_def)
  have cell: "rb_cell rb' i = rb_cell rb (Suc i)" for i
    using I(3) inc_tail_cell [of rb1 i] by (simp add: rb'_def rb1_def rb_cell_def)
  have clen: "rb_cell rb 0 < length (entries rb)"
    using rb_cell_less [OF I(1), of 0] I(2) by linarith
  have ent: "entries rb' = (entries rb)[rb_cell rb 0 := None]" by (simp add: rb'_def rb1_def)
  have nth: "i < ?c \<Longrightarrow> entries rb' ! rb_cell rb' i = (if Suc i = ?c then None else entries rb ! rb_cell rb (Suc i))" for i
    using rb_cell_inj [of "Suc i" rb 0] clen I(1) rb_cell_wrap [of rb]
    by (cases "Suc i = ?c") (simp_all add: cell ent)
  have pos: "position rb' < ?c"
    using I inc_tail_position [of rb1] rb_cell_less [of rb1 1] by (simp add: rb'_def rb1_def)
  have "rb_inv rb'"
    using I pos nth ne by (auto simp: rb_inv_def rb'_def rb1_def)
  moreover have "rb_list rb' = tl (rb_list rb)"
  proof (rule nth_equalityI)
    show "length (rb_list rb') = length (tl (rb_list rb))"
      by (simp add: rb'_def rb1_def)
    fix i assume "i < length (rb_list rb')"
    then have "Suc i < ?n" by (simp add: rb'_def rb1_def)
    then show "rb_list rb' ! i = tl (rb_list rb) ! i"
      using nth [of i] I(4) by (simp add: nth_rb_list nth_tl rb'_def rb1_def)
  qed
  moreover have "released rb' = released rb @ (if rb_free rb then [Some (hd (rb_list rb))] else [])"
    using ne nth_entries_cell [OF inv, of 0] hd_conv_nth [of "rb_list rb"]
    by (auto simp: rb'_def rb1_def rb_list_def)
  ultimately show ?thesis using pop by (simp add: rb'_def rb1_def)
qed

lemma ringbuffer_pop_spec:
  assumes "rb_inv rb"
  shows "\<exists>rb'. ringbuffer_pop rb = Some rb' \<and> rb_inv rb' \<and> rb_list rb' = tl (rb_list rb)
           \<and> capacity rb' = capacity rb \<and> rb_free rb' = rb_free rb
           \<and> released rb' = released rb @
               (if rb_free rb then map Some (take 1 (rb_list rb)) else [])"
proof (cases "rb_count rb")
  case 0
  then have "rb_list rb = []" by (simp add: rb_list_def)
  with 0 assms show ?thesis by (simp add: ringbuffer_pop_def)
next
  case (Suc n)
  moreover have "rb_list rb \<noteq> []" using Suc by (simp flip: length_greater_0_conv)
  ultimately show ?thesis
    using pop_nonempty [OF assms] by (cases "rb_list rb") auto
qed

subsection \<open>The bounded queue contract\<close>

text \<open>
  What a client of a bounded queue relies on: pushing appends, dropping the oldest element when
  the queue is full, and popping removes the oldest. A client's use of it is a sequence of the two
  operations in any order; \<open>queue_spec\<close> is what one of them does to the content. The laws for
  sequences follow in the locale.
\<close>

datatype 'a queue_op = Enqueue 'a | Dequeue

fun queue_step ::
  "('q \<Rightarrow> 'a \<Rightarrow> 'q option) \<Rightarrow> ('q \<Rightarrow> 'q option) \<Rightarrow> 'q \<Rightarrow> 'a queue_op \<Rightarrow> 'q option" where
  "queue_step push pop q (Enqueue x) = push q x"
| "queue_step push pop q Dequeue = pop q"

fun queue_spec :: "nat \<Rightarrow> 'a list \<Rightarrow> 'a queue_op \<Rightarrow> 'a list" where
  "queue_spec cap xs (Enqueue x) = rb_spec_push cap xs x"
| "queue_spec cap xs Dequeue = tl xs"

definition enqueued :: "'a queue_op list \<Rightarrow> 'a list" where
  "enqueued ops = concat (map (\<lambda>op. case op of Enqueue x \<Rightarrow> [x] | Dequeue \<Rightarrow> []) ops)"

lemma enqueued_simps [simp]:
  "enqueued [] = []" "enqueued (Enqueue x # ops) = x # enqueued ops"
  "enqueued (Dequeue # ops) = enqueued ops"
  by (simp_all add: enqueued_def)

locale bounded_queue =
  fixes push :: "'q \<Rightarrow> 'a \<Rightarrow> 'q option"
    and pop :: "'q \<Rightarrow> 'q option"
    and content :: "'q \<Rightarrow> 'a list"
    and bound :: "'q \<Rightarrow> nat"
    and invar :: "'q \<Rightarrow> bool"
  assumes push_law: "invar q \<Longrightarrow> \<exists>q'. push q x = Some q' \<and> invar q' \<and> bound q' = bound q
            \<and> content q' = rb_spec_push (bound q) (content q) x"
    and pop_law: "invar q \<Longrightarrow> \<exists>q'. pop q = Some q' \<and> invar q' \<and> bound q' = bound q
            \<and> content q' = tl (content q)"
    and bound_pos: "invar q \<Longrightarrow> 0 < bound q"
    and content_bound: "invar q \<Longrightarrow> length (content q) \<le> bound q"
begin

lemma spec_push_drop:
  assumes "length xs \<le> b" "0 < b"
  shows "rb_spec_push b xs x = drop (length xs + 1 - b) (xs @ [x])"
  using assms by (cases xs) (auto simp: rb_spec_push_def Suc_diff_le)

lemma pushes_content:
  "invar q \<Longrightarrow> \<exists>q'. fold_opt push q xs = Some q' \<and> invar q' \<and> bound q' = bound q
      \<and> content q' = drop (length (content q) + length xs - bound q) (content q @ xs)"
proof (induction xs arbitrary: q)
  case Nil
  with content_bound show ?case by simp
next
  case (Cons x xs)
  from push_law [OF Cons.prems, of x] obtain q1 where q1: "push q x = Some q1" "invar q1"
    "bound q1 = bound q" "content q1 = rb_spec_push (bound q) (content q) x" by blast
  from Cons.IH [OF q1(2)] obtain q2 where q2: "fold_opt push q1 xs = Some q2" "invar q2" "bound q2 = bound q1"
    "content q2 = drop (length (content q1) + length xs - bound q1) (content q1 @ xs)" by blast
  note b = content_bound [OF Cons.prems] bound_pos [OF Cons.prems]
  let ?k = "length (content q) + 1 - bound q"
  have c1: "content q1 = drop ?k (content q @ [x])"
    using q1(4) spec_push_drop [OF b] by simp
  have "content q2 = drop (length (content q) + length (x # xs) - bound q) (content q @ x # xs)"
    using b by (cases "length (content q) < bound q") (auto simp: q2(4) c1 q1(3) Suc_diff_le)
  with q1 q2 show ?case by auto
qed

lemma ops_content:
  "invar q \<Longrightarrow> \<exists>q'. fold_opt (queue_step push pop) q ops = Some q' \<and> invar q' \<and> bound q' = bound q
      \<and> content q' = foldl (queue_spec (bound q)) (content q) ops"
proof (induction ops arbitrary: q)
  case Nil
  then show ?case by simp
next
  case (Cons op ops)
  obtain q1 where "queue_step push pop q op = Some q1" "invar q1" "bound q1 = bound q"
    "content q1 = queue_spec (bound q) (content q) op"
    using push_law [OF Cons.prems] pop_law [OF Cons.prems] by (cases op) fastforce+
  with Cons.IH [of q1] show ?case by simp
qed

end

interpretation rbq: bounded_queue "\<lambda>rb x. ringbuffer_push rb (Some x)" ringbuffer_pop rb_list capacity rb_inv
proof
  fix rb :: "'a ringbuffer" and x
  assume inv: "rb_inv rb"
  show "\<exists>q'. ringbuffer_push rb (Some x) = Some q' \<and> rb_inv q' \<and> capacity q' = capacity rb
      \<and> rb_list q' = rb_spec_push (capacity rb) (rb_list rb) x"
    using ringbuffer_push_spec [OF inv] by blast
  show "\<exists>q'. ringbuffer_pop rb = Some q' \<and> rb_inv q' \<and> capacity q' = capacity rb
      \<and> rb_list q' = tl (rb_list rb)"
    using ringbuffer_pop_spec [OF inv] by blast
  show "0 < capacity rb" and "length (rb_list rb) \<le> capacity rb"
    using rb_invD [OF inv] by simp_all
qed


subsection \<open>Clearing, destroying and resizing\<close>

lemma ringbuffer_trim_spec:
  "rb_inv rb \<Longrightarrow> \<exists>rb'. ringbuffer_trim n rb = Some rb' \<and> rb_inv rb'
     \<and> rb_list rb' = drop (rb_count rb - n) (rb_list rb)
     \<and> capacity rb' = capacity rb \<and> rb_free rb' = rb_free rb
     \<and> released rb' = released rb @
         (if rb_free rb then map Some (take (rb_count rb - n) (rb_list rb)) else [])"
proof (induction n rb rule: ringbuffer_trim.induct)
  case (1 n rb)
  show ?case
  proof (cases "rb_count rb > n")
    case False
    then show ?thesis using 1 by (simp add: ringbuffer_trim.simps)
  next
    case True
    obtain rb1 where rb1: "ringbuffer_pop rb = Some rb1" "rb_inv rb1" "rb_list rb1 = tl (rb_list rb)"
      "capacity rb1 = capacity rb" "rb_free rb1 = rb_free rb"
      "released rb1 = released rb @ (if rb_free rb then map Some (take 1 (rb_list rb)) else [])"
      using ringbuffer_pop_spec [OF "1.prems"] by blast
    have n1: "rb_count rb1 = rb_count rb - 1" using ringbuffer_pop_count [OF rb1(1)] .
    have ne: "rb_list rb \<noteq> []" using True by (metis length_rb_list list.size(3) not_less_zero)
    show ?thesis
      using "1.IH" [OF True rb1(1) rb1(2)] True rb1 n1 ne
      by (cases "rb_list rb") (auto simp: ringbuffer_trim.simps [of n rb] drop_Suc take_Suc
            Suc_diff_Suc [symmetric] Suc_diff_le dest: arg_cong [where f = length])
  qed
qed

lemma ringbuffer_copy_elements_eq:
  assumes "rb_inv rb" "k \<le> rb_count rb" "k \<le> length new"
  shows "ringbuffer_copy_elements rb k new = Some (map Some (take k (rb_list rb)) @ drop k new)"
  using assms(2,3)
proof (induction k)
  case 0
  then show ?case by simp
next
  case (Suc k)
  have "(map Some (take k (rb_list rb)) @ drop k new)[k := Some (rb_list rb ! k)]
      = map Some (take (Suc k) (rb_list rb)) @ drop (Suc k) new"
    using Suc.prems by (simp add: list_update_append take_Suc_conv_app_nth min_absorb2)
      (metis Cons_nth_drop_Suc Suc_le_lessD list_update_code(2))
  with Suc show ?case
    by (simp add: ringbuffer_element_eq [OF assms(1)] min_absorb2)
qed

text \<open>The resize never stores the new capacity: what it leaves behind, for any new capacity.\<close>

lemma ringbuffer_resize_eq:
  assumes inv: "rb_inv rb" and n: "0 < n"
  shows "\<exists>rb'. ringbuffer_resize True rb n = Some rb'
     \<and> entries rb' = map Some (drop (rb_count rb - n) (rb_list rb))
                        @ replicate (n - rb_count rb) None
     \<and> position rb' = 0 \<and> rb_count rb' = min n (rb_count rb)
     \<and> capacity rb' = capacity rb \<and> rb_free rb' = rb_free rb
     \<and> released rb' = released rb @
         (if rb_free rb then map Some (take (rb_count rb - n) (rb_list rb)) else [])"
proof -
  obtain rb1 where rb1: "ringbuffer_trim n rb = Some rb1" "rb_inv rb1"
     "rb_list rb1 = drop (rb_count rb - n) (rb_list rb)"
     "capacity rb1 = capacity rb" "rb_free rb1 = rb_free rb" "released rb1 = released rb @
         (if rb_free rb then map Some (take (rb_count rb - n) (rb_list rb)) else [])"
    using ringbuffer_trim_spec [OF inv] by blast
  have c1: "rb_count rb1 = min n (rb_count rb)"
    using arg_cong [OF rb1(3), of length] by auto
  have "ringbuffer_copy_elements rb1 (rb_count rb1) (replicate n None)
      = Some (map Some (rb_list rb1) @ replicate (n - rb_count rb) None)"
    using ringbuffer_copy_elements_eq [OF rb1(2), of "rb_count rb1" "replicate n None"] c1
    by (simp add: min_def split: if_splits)
  with rb1 c1 n show ?thesis by (simp add: ringbuffer_resize_def)
qed

lemma rb_list_at_0:
  assumes "position rb = 0" "rb_count rb \<le> capacity rb" "entries rb = map Some xs @ ys"
    "length xs = rb_count rb"
  shows "rb_list rb = xs"
proof (rule nth_equalityI)
  show "length (rb_list rb) = length xs" using assms by simp
  fix i assume "i < length (rb_list rb)"
  then have "i < rb_count rb" by simp
  then show "rb_list rb ! i = xs ! i"
    using assms by (simp add: nth_rb_list rb_cell_def nth_append)
qed


lemma released_push:
  "rb_inv rb \<Longrightarrow> rb_free rb \<Longrightarrow> ringbuffer_push rb (Some x) = Some rb'
   \<Longrightarrow> somes (released rb') @ rb_list rb' = somes (released rb) @ rb_list rb @ [x]"
  using ringbuffer_push_spec [of rb x] rb_invD(1,4) [of rb]
  by (cases "rb_list rb") (auto simp: rb_evicted_def rb_spec_push_def dest: arg_cong [where f = length])

lemma released_pop:
  "rb_inv rb \<Longrightarrow> rb_free rb \<Longrightarrow> ringbuffer_pop rb = Some rb'
   \<Longrightarrow> somes (released rb') @ rb_list rb' = somes (released rb) @ rb_list rb"
  using ringbuffer_pop_spec [of rb] by (cases "rb_list rb") auto

lemma released_ops:
  "rb_inv rb \<Longrightarrow> rb_free rb
   \<Longrightarrow> \<exists>rb'. fold_opt (queue_step (\<lambda>rb x. ringbuffer_push rb (Some x)) ringbuffer_pop) rb ops = Some rb'
        \<and> rb_inv rb' \<and> rb_free rb'
        \<and> somes (released rb') @ rb_list rb' = somes (released rb) @ rb_list rb @ enqueued ops"
proof (induction ops arbitrary: rb)
  case Nil
  then show ?case by simp
next
  case (Cons op ops)
  obtain rb1 where rb1: "queue_step (\<lambda>rb x. ringbuffer_push rb (Some x)) ringbuffer_pop rb op = Some rb1"
    "rb_inv rb1" "rb_free rb1"
    "somes (released rb1) @ rb_list rb1 = somes (released rb) @ rb_list rb @ enqueued [op]"
  proof (cases op)
    case (Enqueue x)
    obtain rb1 where "ringbuffer_push rb (Some x) = Some rb1" "rb_inv rb1" "rb_free rb1"
      using ringbuffer_push_spec [OF Cons.prems(1), of x] Cons.prems(2) by auto
    with that [of rb1] released_push [OF Cons.prems] Enqueue show ?thesis by simp
  next
    case Dequeue
    obtain rb1 where "ringbuffer_pop rb = Some rb1" "rb_inv rb1" "rb_free rb1"
      using ringbuffer_pop_spec [OF Cons.prems(1)] Cons.prems(2) by auto
    with that [of rb1] released_pop [OF Cons.prems] Dequeue show ?thesis by simp
  qed
  have "enqueued (op # ops) = enqueued [op] @ enqueued ops" by (simp add: enqueued_def)
  with Cons.IH [OF rb1(2,3)] rb1 show ?case by auto
qed

subsection \<open>Properties\<close>

text \<open>
  (C10) Pushing an element never fails on a well-formed buffer and refines the bounded queue: it
  appends, dropping the oldest element exactly when the buffer is full; the invariant and the
  capacity are kept, and the release function is called on what the cell held before.
\<close>

theorem ringbuffer_push_refines:
  assumes "rb_inv rb"
  shows "\<exists>rb'. ringbuffer_push rb (Some x) = Some rb' \<and> rb_inv rb'
     \<and> rb_list rb' = (if length (rb_list rb) < capacity rb then rb_list rb @ [x]
                        else tl (rb_list rb) @ [x])
     \<and> capacity rb' = capacity rb
     \<and> somes (released rb') = somes (released rb) @
         (if rb_free rb \<and> rb_count rb = capacity rb then [hd (rb_list rb)] else [])"
proof -
  have "rb_count rb \<le> capacity rb" using rb_invD(4) [OF assms] .
  then show ?thesis
    using ringbuffer_push_spec [OF assms, of x]
    by (auto simp: rb_spec_push_def rb_evicted_def not_less)
qed

theorem ringbuffer_push_refines_witness:
  "\<exists>rb'. ringbuffer_push (ringbuffer_init True 1 True) (Some (7::nat)) = Some rb' \<and> rb_inv rb' \<and> rb_list rb' = [7]"
  using ringbuffer_push_refines [OF ringbuffer_init_inv [of 1 True], of "7::nat"]
  by (auto simp: ringbuffer_init_def rb_list_def)

text \<open>
  (C25) First in, first out, for every sequence of pushes and pops in any order on a new buffer:
  no operation fails, and what the buffer then holds is what the bounded queue holds, where a push
  appends (and drops the oldest element when the buffer is full) and a pop removes the oldest.
  Reading at index \<open>i\<close> gives the \<open>i\<close>-th element counted from the oldest, and \<^verbatim>\<open>NULL\<close> for every index
  outside; the tail is the oldest and the head the newest element.
\<close>

theorem ringbuffer_fifo:
  fixes ops :: "'p queue_op list"
  assumes "0 < c"
  shows "\<exists>rb. fold_opt (queue_step (\<lambda>rb x. ringbuffer_push rb (Some x)) ringbuffer_pop)
             (ringbuffer_init True c f) ops = Some rb
     \<and> (let xs = foldl (queue_spec c) [] ops
        in rb_count rb = length xs \<and> length xs \<le> c
           \<and> (\<forall>i. ringbuffer_element rb i = Some (if i < length xs then Some (xs ! i) else None))
           \<and> ringbuffer_tail rb = Some (if xs = [] then None else Some (hd xs))
           \<and> ringbuffer_head rb = Some (if xs = [] then None else Some (last xs)))"
proof -
  let ?rb0 = "ringbuffer_init True c f :: 'p ringbuffer"
  have cap: "capacity ?rb0 = c" using assms by (simp add: ringbuffer_init_def)
  obtain rb where rb: "fold_opt (queue_step (\<lambda>rb x. ringbuffer_push rb (Some x)) ringbuffer_pop) ?rb0 ops = Some rb"
    "rb_inv rb" "capacity rb = c" "rb_list rb = foldl (queue_spec c) [] ops"
    using rbq.ops_content [OF ringbuffer_init_inv [OF assms], of f ops] cap
    by (auto simp: ringbuffer_init_list)
  have cnt: "rb_count rb = length (rb_list rb)" by simp
  have el: "ringbuffer_element rb i = Some (if i < length (rb_list rb) then Some (rb_list rb ! i) else None)" for i
    using ringbuffer_element_eq [OF rb(2)] by simp
  have "ringbuffer_head rb = Some (if rb_list rb = [] then None else Some (last (rb_list rb)))"
    by (cases "rb_list rb = []")
       (simp_all add: ringbuffer_head_def el cnt last_conv_nth size_sub_def Suc_le_eq del: length_rb_list)
  then show ?thesis
    using rb el cnt rb_invD(4) [OF rb(2)]
    by (simp add: ringbuffer_tail_def hd_conv_nth del: length_rb_list)
qed

theorem ringbuffer_fifo_witness:
  "\<exists>rb. fold_opt (queue_step (\<lambda>rb x. ringbuffer_push rb (Some x)) ringbuffer_pop)
       (ringbuffer_init True 2 True) [Enqueue 1, Enqueue 2, Dequeue, Enqueue 3, Enqueue (4 :: nat)] = Some rb
     \<and> ringbuffer_element rb 0 = Some (Some 3) \<and> ringbuffer_element rb 1 = Some (Some 4)
     \<and> ringbuffer_element rb 2 = Some None"
proof -
  have q: "foldl (queue_spec 2) [] [Enqueue 1, Enqueue 2, Dequeue, Enqueue 3, Enqueue (4 :: nat)] = [3, 4]"
    by (simp add: rb_spec_push_def)
  show ?thesis
    using ringbuffer_fifo [of 2 True "[Enqueue 1, Enqueue 2, Dequeue, Enqueue 3, Enqueue (4 :: nat)]"]
    unfolding q by (auto simp: Let_def)
qed

text \<open>
  (C24) Nothing leaks and nothing is released twice, whatever the order of pushes and pops: with a
  release function registered, a run of any such sequence on a new buffer and the destruction of
  the buffer after it have released exactly the pushed elements, each once, in the order they were
  pushed (every other call was on \<open>NULL\<close>), and the array is gone. At the time of the destruction
  the elements released before are exactly those that are no longer in the buffer.
\<close>

theorem ringbuffer_done_releases_all:
  fixes ops :: "'p queue_op list"
  assumes "0 < c"
  shows "\<exists>rb rb'. fold_opt (queue_step (\<lambda>rb x. ringbuffer_push rb (Some x)) ringbuffer_pop)
             (ringbuffer_init True c True) ops = Some rb
     \<and> somes (released rb) @ foldl (queue_spec c) [] ops = enqueued ops
     \<and> ringbuffer_done rb = Some rb'
     \<and> somes (released rb') = enqueued ops \<and> entries rb' = [] \<and> capacity rb' = 0 \<and> rb_count rb' = 0"
proof -
  let ?rb0 = "ringbuffer_init True c True :: 'p ringbuffer"
  have free: "rb_free ?rb0" and rel: "released ?rb0 = []" and cap: "capacity ?rb0 = c"
    using assms by (simp_all add: ringbuffer_init_def)
  obtain rb where rb: "fold_opt (queue_step (\<lambda>rb x. ringbuffer_push rb (Some x)) ringbuffer_pop) ?rb0 ops = Some rb"
    "rb_inv rb" "rb_free rb" "somes (released rb) @ rb_list rb = enqueued ops"
    using released_ops [OF ringbuffer_init_inv [OF assms] free, of ops] rel
    by (auto simp: ringbuffer_init_list)
  have content: "rb_list rb = foldl (queue_spec c) [] ops"
    using rbq.ops_content [OF ringbuffer_init_inv [OF assms], of True ops] cap rb(1)
    by (auto simp: ringbuffer_init_list)
  obtain rb1 where rb1: "ringbuffer_trim 0 rb = Some rb1" "rb_list rb1 = drop (rb_count rb) (rb_list rb)"
    "released rb1 = released rb @ map Some (take (rb_count rb) (rb_list rb))"
    using ringbuffer_trim_spec [OF rb(2), of 0] rb(3) by auto
  have "rb_count rb1 = 0" using arg_cong [OF rb1(2), of length] by simp
  moreover have "take (rb_count rb) (rb_list rb) = rb_list rb" by simp
  ultimately show ?thesis
    using rb rb1 content by (auto simp: ringbuffer_done_def ringbuffer_clear_def)
qed

theorem ringbuffer_done_releases_all_witness:
  "\<exists>rb rb'. fold_opt (queue_step (\<lambda>rb x. ringbuffer_push rb (Some x)) ringbuffer_pop)
       (ringbuffer_init True 2 True) [Enqueue 5, Dequeue, Enqueue 6, Enqueue 7, Enqueue (8 :: nat)] = Some rb
     \<and> ringbuffer_done rb = Some rb' \<and> somes (released rb') = [5, 6, 7, 8]"
  using ringbuffer_done_releases_all [of 2 "[Enqueue 5, Dequeue, Enqueue 6, Enqueue 7, Enqueue 8]"]
  by (auto simp: rb_spec_push_def)

text \<open>
  Resizing to at least the old capacity keeps the content and the invariant, but the
  capacity stays what it was: the buffer does not grow.
\<close>

theorem ringbuffer_resize_never_grows:
  assumes "rb_inv rb" and "capacity rb \<le> n"
  shows "\<exists>rb'. ringbuffer_resize True rb n = Some rb' \<and> rb_inv rb' \<and> rb_list rb' = rb_list rb
     \<and> capacity rb' = capacity rb \<and> released rb' = released rb"
proof -
  note I = rb_invD [OF assms(1)]
  obtain rb' where rb': "ringbuffer_resize True rb n = Some rb'"
    "entries rb' = map Some (rb_list rb) @ replicate (n - rb_count rb) None"
    "position rb' = 0" "rb_count rb' = rb_count rb" "capacity rb' = capacity rb" "released rb' = released rb"
    using ringbuffer_resize_eq [OF assms(1), of n] I assms(2) by (auto simp: min_def)
  have "rb_inv rb'"
    using I assms(2) rb' by (auto simp: rb_inv_def rb_cell_def nth_append)
  moreover have "rb_list rb' = rb_list rb"
    using rb_list_at_0 [OF rb'(3) _ rb'(2)] rb' I(4) by simp
  ultimately show ?thesis using rb' by blast
qed

theorem ringbuffer_resize_never_grows_witness:
  "\<exists>rb'. ringbuffer_resize True (ringbuffer_init True 1 True :: nat ringbuffer) 8 = Some rb'
     \<and> rb_inv rb' \<and> capacity rb' = 1"
  using ringbuffer_resize_never_grows [OF ringbuffer_init_inv [of 1 True], of 8]
  by (auto simp: ringbuffer_init_def)

text \<open>
  Shrinking keeps the newest elements and releases the others oldest first, but leaves the
  old capacity in place: once the smaller array is full, the next push writes behind it, which
  has no defined result. The same holds for a push into a buffer whose array was never allocated.
\<close>

theorem ringbuffer_shrink_then_push_undefined:
  assumes "rb_inv rb" and "0 < n" and "n \<le> rb_count rb" and "n < capacity rb"
  shows "\<exists>rb'. ringbuffer_resize True rb n = Some rb'
     \<and> rb_list rb' = drop (rb_count rb - n) (rb_list rb)
     \<and> capacity rb' = capacity rb \<and> length (entries rb') = n
     \<and> ringbuffer_push rb' (Some x) = None
     \<and> ringbuffer_push (ringbuffer_init ok 0 f) (Some x) = None"
proof -
  obtain rb' where rb': "ringbuffer_resize True rb n = Some rb'"
    "entries rb' = map Some (drop (rb_count rb - n) (rb_list rb))" "position rb' = 0"
    "rb_count rb' = n" "capacity rb' = capacity rb"
    using ringbuffer_resize_eq [OF assms(1,2)] assms(3) by (auto simp: min_def split: if_splits)
  have len: "length (entries rb') = n" using rb'(2) assms(3) by simp
  have "rb_list rb' = drop (rb_count rb - n) (rb_list rb)"
    using rb_list_at_0 [OF rb'(3), of _ "[]"] rb' assms(3,4) by simp
  moreover have "ringbuffer_push rb' (Some x) = None"
    using rb' len assms(4) by (simp add: ringbuffer_defs)
  moreover have "ringbuffer_push (ringbuffer_init ok 0 f) (Some x) = None"
    by (simp add: ringbuffer_init_def ringbuffer_defs)
  ultimately show ?thesis using rb' len by blast
qed

theorem ringbuffer_shrink_then_push_undefined_witness:
  "\<exists>rb rb'. fold_opt (\<lambda>rb x. ringbuffer_push rb (Some x)) (ringbuffer_init True 3 True) [1, 2 :: nat] = Some rb
     \<and> ringbuffer_resize True rb 1 = Some rb' \<and> rb_list rb' = [2] \<and> ringbuffer_push rb' (Some 9) = None"
proof -
  obtain rb where rb: "fold_opt (\<lambda>rb x. ringbuffer_push rb (Some x)) (ringbuffer_init True 3 True) [1, 2 :: nat] = Some rb"
    "rb_inv rb" "capacity rb = 3" "rb_list rb = [1, 2]"
    using rbq.pushes_content [OF ringbuffer_init_inv [of 3 True], of "[1, 2 :: nat]"]
    by (auto simp: ringbuffer_init_list) (auto simp: ringbuffer_init_def)
  have "rb_count rb = 2" using arg_cong [OF rb(4), of length] by simp
  then show ?thesis
    using ringbuffer_shrink_then_push_undefined [OF rb(2), of 1 9 True True] rb by auto
qed

end
