(* ===== verification/DList.thy ===== *)
theory DList
  imports Prelude
begin

text \<open>
  The list macros of \<^verbatim>\<open>core/list.h\<close>, on a heap of nodes: a node has the two link fields the
  macros need and a payload. Addresses are numbers, \<open>None\<close> is \<^verbatim>\<open>NULL\<close>. A macro that follows a
  pointer to memory that is not a live node has no result, and neither has one whose loop does
  not end (a cyclic chain): both are \<open>None\<close>.

  The relation \<open>dlist h head ps\<close> says that the nodes at the addresses \<open>ps\<close>, in this order, are
  the well-formed doubly linked list that starts at \<open>head\<close>; every macro is shown to do on \<open>ps\<close>
  what its comment promises, and the locale \<open>linked_list\<close> is the contract its client uses.
\<close>

record 'v dnode =
  prev :: "nat option"
  nxt :: "nat option"
  payload :: 'v

type_synonym 'v dheap = "nat \<Rightarrow> 'v dnode option"

subsection \<open>The macros\<close>

text \<open>\<^verbatim>\<open>LIST_ITERATE\<close>: the addresses the loop visits, in order. The loop variable starts at the
  head and follows \<open>next\<close>.\<close>

partial_function (option) LIST_ITERATE :: "'v dheap \<Rightarrow> nat option \<Rightarrow> nat list option" where
  "LIST_ITERATE h element =
     (case element of
        None \<Rightarrow> Some []
      | Some p \<Rightarrow> (case h p of
                    None \<Rightarrow> None
                  | Some n \<Rightarrow> Option.bind (LIST_ITERATE h (nxt n)) (\<lambda>ps. Some (p # ps))))"

partial_function (option) LIST_LAST :: "'v dheap \<Rightarrow> nat option \<Rightarrow> nat option option" where
  "LIST_LAST h element =
     (case element of
        None \<Rightarrow> Some None
      | Some p \<Rightarrow> (case h p of
                    None \<Rightarrow> None
                  | Some n \<Rightarrow> (if nxt n = None then Some (Some p) else LIST_LAST h (nxt n))))"

partial_function (option) list_backwards :: "'v dheap \<Rightarrow> nat option \<Rightarrow> nat list option" where
  "list_backwards h element =
     (case element of
        None \<Rightarrow> Some []
      | Some p \<Rightarrow> (case h p of
                    None \<Rightarrow> None
                  | Some n \<Rightarrow> Option.bind (list_backwards h (prev n)) (\<lambda>ps. Some (p # ps))))"

definition LIST_ITERATE_REVERSED :: "'v dheap \<Rightarrow> nat option \<Rightarrow> nat list option" where
  "LIST_ITERATE_REVERSED h head =
     (case LIST_LAST h head of None \<Rightarrow> None | Some element \<Rightarrow> list_backwards h element)"

text \<open>\<^verbatim>\<open>LIST_MATCH\<close> leaves the loop at the first node that satisfies the condition, which may
  read the node.\<close>

partial_function (option) LIST_MATCH ::
  "(nat \<Rightarrow> 'v dnode \<Rightarrow> bool) \<Rightarrow> 'v dheap \<Rightarrow> nat option \<Rightarrow> nat option option" where
  "LIST_MATCH condition h element =
     (case element of
        None \<Rightarrow> Some None
      | Some p \<Rightarrow> (case h p of
                    None \<Rightarrow> None
                  | Some n \<Rightarrow> (if condition p n then Some (Some p)
                               else LIST_MATCH condition h (nxt n))))"

definition LIST_FIND :: "nat \<Rightarrow> 'v dheap \<Rightarrow> nat option \<Rightarrow> nat option option" where
  "LIST_FIND v h head = LIST_MATCH (\<lambda>p n. p = v) h head"

definition LIST_COUNT :: "'v dheap \<Rightarrow> nat option \<Rightarrow> nat option" where
  "LIST_COUNT h head = map_option length (LIST_ITERATE h head)"

definition update_node :: "'v dheap \<Rightarrow> nat \<Rightarrow> ('v dnode \<Rightarrow> 'v dnode) \<Rightarrow> 'v dheap option" where
  "update_node h p f = (case h p of None \<Rightarrow> None | Some n \<Rightarrow> Some (h(p \<mapsto> f n)))"

definition LIST_APPEND :: "'v dheap \<Rightarrow> nat option \<Rightarrow> nat \<Rightarrow> ('v dheap \<times> nat option) option" where
  "LIST_APPEND h head element =
     (case LIST_LAST h head of
        None \<Rightarrow> None
      | Some list_last \<Rightarrow>
          (case update_node h element (\<lambda>n. n\<lparr>prev := list_last, nxt := None\<rparr>) of
             None \<Rightarrow> None
           | Some h1 \<Rightarrow>
               (case list_last of
                  Some l \<Rightarrow> map_option (\<lambda>h2. (h2, head)) (update_node h1 l (\<lambda>n. n\<lparr>nxt := Some element\<rparr>))
                | None \<Rightarrow> Some (h1, Some element))))"

definition LIST_DELETE :: "'v dheap \<Rightarrow> nat option \<Rightarrow> nat \<Rightarrow> ('v dheap \<times> nat option) option" where
  "LIST_DELETE h head element =
     (case h element of
        None \<Rightarrow> None
      | Some n \<Rightarrow>
          (case (case nxt n of
                   Some q \<Rightarrow> update_node h q (\<lambda>m. m\<lparr>prev := prev n\<rparr>)
                 | None \<Rightarrow> Some h) of
             None \<Rightarrow> None
           | Some h1 \<Rightarrow>
               (case prev n of
                  Some q \<Rightarrow> map_option (\<lambda>h2. (h2, head)) (update_node h1 q (\<lambda>m. m\<lparr>nxt := nxt n\<rparr>))
                | None \<Rightarrow> Some (h1, nxt n))))"

text \<open>One round of each loop: the equations of the partial functions, with a guard that keeps
  them from unfolding forever.\<close>

lemma loop_end [simp]:
  "LIST_ITERATE h None = Some []" "LIST_LAST h None = Some None"
  "list_backwards h None = Some []" "LIST_MATCH c h None = Some None"
  by (subst LIST_ITERATE.simps LIST_LAST.simps list_backwards.simps LIST_MATCH.simps, simp)+

lemma loop_step:
  assumes "h p = Some n"
  shows "LIST_ITERATE h (Some p) = Option.bind (LIST_ITERATE h (nxt n)) (\<lambda>ps. Some (p # ps))"
    and "LIST_LAST h (Some p) = (if nxt n = None then Some (Some p) else LIST_LAST h (nxt n))"
    and "list_backwards h (Some p) = Option.bind (list_backwards h (prev n)) (\<lambda>ps. Some (p # ps))"
    and "LIST_MATCH c h (Some p) = (if c p n then Some (Some p) else LIST_MATCH c h (nxt n))"
  by (subst LIST_ITERATE.simps LIST_LAST.simps list_backwards.simps LIST_MATCH.simps, simp add: assms)+

subsection \<open>Well-formed lists\<close>

text \<open>
  A segment: the nodes \<open>ps\<close> are linked in both directions, the first one is \<open>cur\<close> and points back
  to \<open>pr\<close>, the last one points on to \<open>nx\<close>.
\<close>

fun dseg :: "'v dheap \<Rightarrow> nat option \<Rightarrow> nat option \<Rightarrow> nat list \<Rightarrow> nat option \<Rightarrow> bool" where
  "dseg h pr cur [] nx \<longleftrightarrow> cur = nx"
| "dseg h pr cur (a # as) nx \<longleftrightarrow>
     cur = Some a \<and> (case h a of None \<Rightarrow> False
                       | Some n \<Rightarrow> prev n = pr \<and> dseg h (Some a) (nxt n) as nx)"

definition dlist :: "'v dheap \<Rightarrow> nat option \<Rightarrow> nat list \<Rightarrow> bool" where
  "dlist h head ps \<longleftrightarrow> distinct ps \<and> dseg h None head ps None"

definition payload_at :: "'v dheap \<Rightarrow> nat \<Rightarrow> 'v option" where
  "payload_at h p = map_option payload (h p)"

lemma payload_at_None: "payload_at h p = None \<longleftrightarrow> h p = None"
  by (simp add: payload_at_def)

lemma payload_at_Some [simp]: "h p = Some n \<Longrightarrow> payload_at h p = Some (payload n)"
  by (simp add: payload_at_def)

lemma payload_at_upd: "payload_at (h(p := x)) q = (if q = p then map_option payload x else payload_at h q)"
  by (simp add: payload_at_def)

lemma payload_at_the: "payload_at h p = Some v \<Longrightarrow> payload (the (h p)) = v"
  by (auto simp: payload_at_def)

lemma payload_at_dom: "(\<And>q. payload_at h' q = payload_at h q) \<Longrightarrow> dom h' = dom h"
  by (auto simp: payload_at_None [symmetric] dom_def simp del: not_None_eq)

definition last_or :: "nat option \<Rightarrow> nat list \<Rightarrow> nat option" where
  "last_or pr ps = (if ps = [] then pr else Some (last ps))"

lemma last_or_simps [simp]:
  "last_or pr [] = pr" "last_or pr (as @ [b]) = Some b" "last_or (Some a) as = Some (last (a # as))"
  by (auto simp: last_or_def)

lemma dseg_cong:
  "(\<And>p. p \<in> set ps \<Longrightarrow> h' p = h p) \<Longrightarrow> dseg h' pr cur ps nx = dseg h pr cur ps nx"
  by (induction ps arbitrary: pr cur) (auto split: option.splits)

lemma dseg_payload: "h p = Some n \<Longrightarrow> dseg (h(p \<mapsto> n\<lparr>payload := v\<rparr>)) pr cur ps nx = dseg h pr cur ps nx"
  by (induction ps arbitrary: pr cur) (auto split: option.splits)

lemma dseg_upd_other [simp]: "p \<notin> set ps \<Longrightarrow> dseg (h(p := n)) pr cur ps nx = dseg h pr cur ps nx"
  by (rule dseg_cong) auto

lemma dseg_live: "dseg h pr cur ps nx \<Longrightarrow> p \<in> set ps \<Longrightarrow> \<exists>n. h p = Some n"
  by (induction ps arbitrary: pr cur) (auto split: option.splits)

lemma dseg_append:
  "dseg h pr cur (as @ bs) nx \<longleftrightarrow> (\<exists>c. dseg h pr cur as c \<and> dseg h (last_or pr as) c bs nx)"
  by (induction as arbitrary: pr cur) (auto simp: last_or_def split: option.splits)

lemma dseg_snoc:
  "dseg h pr cur (as @ [b]) nx \<longleftrightarrow>
     (\<exists>n. h b = Some n \<and> prev n = last_or pr as \<and> nxt n = nx \<and> dseg h pr cur as (Some b))"
  by (auto simp: dseg_append split: option.splits)

lemma dseg_relink_last:
  assumes "dseg h pr cur (as @ [l]) nx" "distinct (as @ [l])"
  shows "\<exists>n. h l = Some n \<and> dseg (h(l \<mapsto> n\<lparr>nxt := nx'\<rparr>)) pr cur (as @ [l]) nx'"
  using assms by (auto simp: dseg_snoc)

lemma dseg_relink_first:
  assumes "dseg h pr cur (b # bs) nx" "b \<notin> set bs"
  shows "\<exists>n. h b = Some n \<and> dseg (h(b \<mapsto> n\<lparr>prev := pr'\<rparr>)) pr' cur (b # bs) nx"
  using assms by (auto split: option.splits)

lemma dseg_head: "dseg h pr cur ps nx \<Longrightarrow> cur = (if ps = [] then nx else Some (hd ps))"
  by (cases ps) auto

lemma LIST_ITERATE_dseg: "dseg h pr cur ps None \<Longrightarrow> LIST_ITERATE h cur = Some ps"
  by (induction ps arbitrary: pr cur) (auto simp: loop_step split: option.splits)

lemma LIST_LAST_dseg:
  "dseg h pr cur ps None \<Longrightarrow> LIST_LAST h cur = Some (last_or None ps)"
proof (induction ps arbitrary: pr cur)
  case Nil
  then show ?case by simp
next
  case (Cons a as)
  then obtain n where n: "cur = Some a" "h a = Some n" "dseg h (Some a) (nxt n) as None"
    by (auto split: option.splits)
  have "nxt n = None \<longleftrightarrow> as = []" using dseg_head [OF n(3)] by auto
  with Cons.IH [OF n(3)] n show ?case by (simp add: loop_step last_or_def)
qed

lemma LIST_MATCH_dseg:
  "dseg h pr cur ps None \<Longrightarrow> LIST_MATCH c h cur = Some (find (\<lambda>p. c p (the (h p))) ps)"
  by (induction ps arbitrary: pr cur) (auto simp: loop_step split: option.splits)

lemma list_backwards_dseg:
  "dseg h None cur ps nx \<Longrightarrow> list_backwards h (last_or None ps) = Some (rev ps)"
proof (induction ps arbitrary: nx rule: rev_induct)
  case Nil
  then show ?case by simp
next
  case (snoc b as)
  then obtain n where "h b = Some n" "prev n = last_or None as" "dseg h None cur as (Some b)"
    by (auto simp: dseg_snoc)
  with snoc.IH show ?case by (simp add: loop_step)
qed

subsection \<open>Appending and deleting\<close>

lemma LIST_APPEND_dlist:
  assumes d: "dlist h head ps" and e: "h e = Some n" "e \<notin> set ps"
  shows "\<exists>h' head'. LIST_APPEND h head e = Some (h', head') \<and> dlist h' head' (ps @ [e])
     \<and> (\<forall>p. payload_at h' p = payload_at h p)
     \<and> (\<forall>p. p \<notin> set (ps @ [e]) \<longrightarrow> h' p = h p)"
proof -
  from d have seg: "dseg h None head ps None" and dist: "distinct ps" by (auto simp: dlist_def)
  show ?thesis
  proof (cases ps rule: rev_cases)
    case Nil
    then show ?thesis
      using e LIST_LAST_dseg [OF seg] by (auto simp: LIST_APPEND_def update_node_def dlist_def payload_at_upd)
  next
    case (snoc as l)
    let ?h1 = "h(e \<mapsto> n\<lparr>prev := Some l, nxt := None\<rparr>)"
    have "dseg ?h1 None head (as @ [l]) None" using seg e(2) snoc by simp
    from dseg_relink_last [OF this, of "Some e"] dist snoc obtain m where
      m: "?h1 l = Some m" "dseg (?h1(l \<mapsto> m\<lparr>nxt := Some e\<rparr>)) None head (as @ [l]) (Some e)" by auto
    have "l \<noteq> e" using e(2) snoc by auto
    with m e snoc dist have r: "LIST_APPEND h head e = Some (?h1(l \<mapsto> m\<lparr>nxt := Some e\<rparr>), head)"
      "dlist (?h1(l \<mapsto> m\<lparr>nxt := Some e\<rparr>)) head (ps @ [e])"
      using LIST_LAST_dseg [OF seg]
      by (auto simp: LIST_APPEND_def update_node_def dlist_def last_or_def dseg_append [of _ _ _ "as @ [l]"] simp del: append_assoc)
    with m(1) e snoc \<open>l \<noteq> e\<close> show ?thesis by (auto simp: payload_at_upd)
  qed
qed

lemma LIST_DELETE_dlist:
  assumes d: "dlist h head ps" and e: "e \<in> set ps"
  shows "\<exists>h' head'. LIST_DELETE h head e = Some (h', head') \<and> dlist h' head' (remove1 e ps)
     \<and> (\<forall>p. payload_at h' p = payload_at h p)
     \<and> (\<forall>p. p \<notin> set ps \<longrightarrow> h' p = h p) \<and> h' e = h e"
proof -
  from e obtain as bs where ps: "ps = as @ e # bs" by (auto simp: in_set_conv_decomp)
  from d ps have seg: "dseg h None head (as @ e # bs) None" and dist: "distinct (as @ e # bs)"
    by (auto simp: dlist_def)
  from seg obtain n where n: "h e = Some n" "prev n = last_or None as"
    "dseg h None head as (Some e)" "dseg h (Some e) (nxt n) bs None"
    by (auto simp: dseg_append split: option.splits)
  have rem: "remove1 e ps = as @ bs" using ps dist by (simp add: remove1_append)
  have nx: "nxt n = (if bs = [] then None else Some (hd bs))" using dseg_head [OF n(4)] .
  obtain h1 where h1: "(case nxt n of Some q \<Rightarrow> update_node h q (\<lambda>m. m\<lparr>prev := prev n\<rparr>) | None \<Rightarrow> Some h) = Some h1"
    "dseg h1 (last_or None as) (nxt n) bs None" "\<forall>p. p \<notin> set bs \<longrightarrow> h1 p = h p"
    "\<forall>p. payload_at h1 p = payload_at h p"
  proof (cases bs)
    case Nil
    with that [of h] nx n show ?thesis by simp
  next
    case (Cons b bs')
    with dseg_relink_first [OF n(4) [unfolded Cons], of "last_or None as"] dist obtain m where
      "h b = Some m" "dseg (h(b \<mapsto> m\<lparr>prev := last_or None as\<rparr>)) (last_or None as) (nxt n) (b # bs') None"
      by auto
    with that [of "h(b \<mapsto> m\<lparr>prev := last_or None as\<rparr>)"] Cons nx n(2) show ?thesis
      by (auto simp: update_node_def payload_at_upd)
  qed
  have as1: "dseg h1 None head as (Some e)"
    by (subst dseg_cong [of as h1 h]) (use n(3) h1(3) dist in auto)
  show ?thesis
  proof (cases as rule: rev_cases)
    case Nil
    with h1 n rem dist ps show ?thesis
      by (auto simp: LIST_DELETE_def dlist_def)
  next
    case (snoc as' l)
    with dseg_relink_last [OF as1 [unfolded snoc], of "nxt n"] dist obtain m where
      m: "h1 l = Some m" "dseg (h1(l \<mapsto> m\<lparr>nxt := nxt n\<rparr>)) None head (as' @ [l]) (nxt n)" by auto
    have bs2: "dseg (h1(l \<mapsto> m\<lparr>nxt := nxt n\<rparr>)) (Some l) (nxt n) bs None"
      using h1(2) snoc dist by simp
    have "LIST_DELETE h head e = Some (h1(l \<mapsto> m\<lparr>nxt := nxt n\<rparr>), head)"
      using n h1(1) snoc m(1) by (simp add: LIST_DELETE_def update_node_def)
    moreover have "dlist (h1(l \<mapsto> m\<lparr>nxt := nxt n\<rparr>)) head (remove1 e ps)"
      using m(2) bs2 rem snoc dist by (auto simp: dlist_def dseg_append [of _ _ _ "as' @ [l]"] simp del: append_assoc)
    ultimately show ?thesis
      using m(1) h1(3,4) snoc ps dist by (auto simp: payload_at_upd)
  qed
qed


subsection \<open>Lists that own their nodes\<close>

text \<open>
  What a client does with the macros: allocate a node, fill in its payload and append it; find a
  node and delete it, then free it; visit every node. The state is the heap and the head pointer.
\<close>

type_synonym 'v dstate = "'v dheap \<times> nat option"

definition list_insert_new :: "'v dstate \<Rightarrow> nat \<Rightarrow> 'v \<Rightarrow> 'v dstate option" where
  "list_insert_new s p v =
     LIST_APPEND ((fst s)(p \<mapsto> \<lparr>prev = None, nxt = None, payload = v\<rparr>)) (snd s) p"

definition list_delete_free :: "'v dstate \<Rightarrow> nat \<Rightarrow> 'v dstate option" where
  "list_delete_free s p =
     map_option (\<lambda>(h, head). (h(p := None), head)) (LIST_DELETE (fst s) (snd s) p)"

definition list_visit :: "'v dstate \<Rightarrow> (nat \<times> 'v) list option" where
  "list_visit s =
     map_option (map (\<lambda>p. (p, payload (the (fst s p))))) (LIST_ITERATE (fst s) (snd s))"

definition dlist_of :: "'v dstate \<Rightarrow> (nat \<times> 'v) list \<Rightarrow> bool" where
  "dlist_of s kvs \<longleftrightarrow> dlist (fst s) (snd s) (map fst kvs)
     \<and> (\<forall>kv \<in> set kvs. payload_at (fst s) (fst kv) = Some (snd kv))"

lemma dlist_of_distinct: "dlist_of s kvs \<Longrightarrow> distinct (map fst kvs)"
  by (simp add: dlist_of_def dlist_def)

lemma dlist_of_live: "dlist_of s kvs \<Longrightarrow> p \<in> fst ` set kvs \<Longrightarrow> fst s p \<noteq> None"
  by (auto simp: dlist_of_def payload_at_def)

lemma dlist_of_empty [simp]: "dlist_of (h, None) []"
  by (simp add: dlist_of_def dlist_def)

lemma remove1_map_fst:
  "distinct (map fst kvs) \<Longrightarrow> remove1 p (map fst kvs) = map fst (filter (\<lambda>kv. fst kv \<noteq> p) kvs)"
proof (induction kvs)
  case (Cons kv kvs)
  have "filter (\<lambda>kv. fst kv \<noteq> p) kvs = kvs" if "p \<notin> fst ` set kvs"
    using that by (auto simp: filter_id_conv)
  with Cons show ?case by auto
qed simp

lemma list_insert_new_spec:
  assumes "dlist_of s kvs" "fst s p = None"
  shows "\<exists>s'. list_insert_new s p v = Some s' \<and> dlist_of s' (kvs @ [(p, v)])
     \<and> dom (fst s') = insert p (dom (fst s))"
proof -
  let ?h = "(fst s)(p \<mapsto> \<lparr>prev = None, nxt = None, payload = v\<rparr>)"
  have p: "p \<notin> set (map fst kvs)" using dlist_of_live [OF assms(1), of p] assms(2) by auto
  have "dlist ?h (snd s) (map fst kvs)"
    using assms(1) p by (simp add: dlist_of_def dlist_def)
  from LIST_APPEND_dlist [OF this, of p] p obtain h' head' where
    a: "LIST_APPEND ?h (snd s) p = Some (h', head')" "dlist h' head' (map fst kvs @ [p])"
      "\<And>q. payload_at h' q = payload_at ?h q" by auto
  have "dom h' = dom ?h" using a(3) by (rule payload_at_dom)
  moreover have "dlist_of (h', head') (kvs @ [(p, v)])"
    using assms(1) a p by (auto simp: dlist_of_def payload_at_upd image_iff)
  ultimately show ?thesis using a(1) by (simp add: list_insert_new_def)
qed

lemma list_delete_free_spec:
  assumes "dlist_of s kvs" "p \<in> fst ` set kvs"
  shows "\<exists>s'. list_delete_free s p = Some s' \<and> dlist_of s' (filter (\<lambda>kv. fst kv \<noteq> p) kvs)
     \<and> dom (fst s') = dom (fst s) - {p}"
proof -
  have dl: "dlist (fst s) (snd s) (map fst kvs)" using assms(1) by (simp add: dlist_of_def)
  from LIST_DELETE_dlist [OF dl, of p] assms(2) obtain h' head' where
    a: "LIST_DELETE (fst s) (snd s) p = Some (h', head')" "dlist h' head' (remove1 p (map fst kvs))"
      "\<And>q. payload_at h' q = payload_at (fst s) q" by auto
  have "dom h' = dom (fst s)" using a(3) by (rule payload_at_dom)
  moreover have "p \<notin> set (map fst (filter (\<lambda>kv. fst kv \<noteq> p) kvs))" by auto
  then have "dseg (h'(p := None)) None head' (map fst (filter (\<lambda>kv. fst kv \<noteq> p) kvs)) None"
    using a(2) remove1_map_fst [OF dlist_of_distinct [OF assms(1)], of p] by (simp add: dlist_def)
  then have "dlist_of (h'(p := None), head') (filter (\<lambda>kv. fst kv \<noteq> p) kvs)"
    using assms(1) a remove1_map_fst [OF dlist_of_distinct [OF assms(1)]]
    by (auto simp: dlist_of_def dlist_def payload_at_upd)
  ultimately show ?thesis using a(1) by (simp add: list_delete_free_def)
qed

lemma list_visit_spec:
  assumes "dlist_of s kvs"
  shows "list_visit s = Some kvs"
proof -
  have "map (\<lambda>p. (p, payload (the (fst s p)))) (map fst kvs) = kvs"
    using assms by (auto simp: dlist_of_def dest!: payload_at_the intro!: map_idI)
  moreover have "LIST_ITERATE (fst s) (snd s) = Some (map fst kvs)"
    using assms LIST_ITERATE_dseg by (auto simp: dlist_of_def dlist_def)
  ultimately show ?thesis by (simp add: list_visit_def)
qed

locale linked_list =
  fixes insert_new :: "'s \<Rightarrow> nat \<Rightarrow> 'v \<Rightarrow> 's option"
    and delete_free :: "'s \<Rightarrow> nat \<Rightarrow> 's option"
    and visit :: "'s \<Rightarrow> (nat \<times> 'v) list option"
    and allocated :: "'s \<Rightarrow> nat set"
    and repr :: "'s \<Rightarrow> (nat \<times> 'v) list \<Rightarrow> bool"
  assumes insert_law: "repr s kvs \<Longrightarrow> p \<notin> allocated s \<Longrightarrow>
      \<exists>s'. insert_new s p v = Some s' \<and> repr s' (kvs @ [(p, v)]) \<and> allocated s' = insert p (allocated s)"
    and delete_law: "repr s kvs \<Longrightarrow> p \<in> fst ` set kvs \<Longrightarrow>
      \<exists>s'. delete_free s p = Some s' \<and> repr s' (filter (\<lambda>kv. fst kv \<noteq> p) kvs)
         \<and> allocated s' = allocated s - {p}"
    and visit_law: "repr s kvs \<Longrightarrow> visit s = Some kvs"
    and repr_distinct: "repr s kvs \<Longrightarrow> distinct (map fst kvs)"
begin

lemma delete_front:
  assumes "repr s ((p, v) # kvs)"
  shows "\<exists>s'. delete_free s p = Some s' \<and> repr s' kvs \<and> allocated s' = allocated s - {p}"
proof -
  have "filter (\<lambda>kv. fst kv \<noteq> p) ((p, v) # kvs) = kvs"
    using repr_distinct [OF assms] by (auto simp: filter_id_conv)
  with delete_law [OF assms, of p] show ?thesis by simp
qed

lemma insert_all:
  "repr s kvs \<Longrightarrow> distinct (map fst new) \<Longrightarrow> fst ` set new \<inter> allocated s = {} \<Longrightarrow>
   \<exists>s'. fold_opt (\<lambda>s (p, v). insert_new s p v) s new = Some s' \<and> repr s' (kvs @ new)
      \<and> allocated s' = allocated s \<union> fst ` set new"
proof (induction new arbitrary: s kvs)
  case Nil
  then show ?case by simp
next
  case (Cons kv new)
  obtain p v where kv: "kv = (p, v)" by force
  with Cons.prems insert_law [OF Cons.prems(1), of p v] obtain s1 where
    s1: "insert_new s p v = Some s1" "repr s1 (kvs @ [(p, v)])" "allocated s1 = insert p (allocated s)" by auto
  with Cons.IH [OF s1(2)] Cons.prems kv show ?case by auto
qed

lemma delete_all:
  "repr s kvs \<Longrightarrow> \<exists>s'. fold_opt delete_free s (map fst kvs) = Some s' \<and> repr s' []
     \<and> allocated s' = allocated s - fst ` set kvs"
proof (induction kvs arbitrary: s)
  case Nil
  then show ?case by simp
next
  case (Cons kv kvs)
  obtain p v where kv: "kv = (p, v)" by force
  with delete_front [of s p v kvs] Cons.prems obtain s1 where
    s1: "delete_free s p = Some s1" "repr s1 kvs" "allocated s1 = allocated s - {p}" by auto
  with Cons.IH [OF s1(2)] kv show ?case by auto
qed

end

interpretation dll: linked_list list_insert_new list_delete_free list_visit "\<lambda>s. dom (fst s)" dlist_of
proof
  fix s :: "'a dstate" and kvs p v
  assume r: "dlist_of s kvs"
  show "distinct (map fst kvs)" by (rule dlist_of_distinct [OF r])
  show "list_visit s = Some kvs" by (rule list_visit_spec [OF r])
  show "\<exists>s'. list_insert_new s p v = Some s' \<and> dlist_of s' (kvs @ [(p, v)])
      \<and> dom (fst s') = insert p (dom (fst s))" if "p \<notin> dom (fst s)"
    using list_insert_new_spec [OF r, of p v] that by auto
  show "\<exists>s'. list_delete_free s p = Some s' \<and> dlist_of s' (filter (\<lambda>kv. fst kv \<noteq> p) kvs)
      \<and> dom (fst s') = dom (fst s) - {p}" if "p \<in> fst ` set kvs"
    using list_delete_free_spec [OF r that] .
qed

subsection \<open>Sequences of operations\<close>

text \<open>
  A client's use of the two macros that change a list, in any order: what one operation does to the
  heap and the head pointer, what it does to the list of addresses, and when it may be called (a
  node to append is live and not in the list, a node to delete is in the list).
\<close>

datatype list_op = ListAppend nat | ListDelete nat

fun list_step :: "'v dstate \<Rightarrow> list_op \<Rightarrow> 'v dstate option" where
  "list_step s (ListAppend e) = LIST_APPEND (fst s) (snd s) e"
| "list_step s (ListDelete e) = LIST_DELETE (fst s) (snd s) e"

fun list_spec :: "nat list \<Rightarrow> list_op \<Rightarrow> nat list" where
  "list_spec ps (ListAppend e) = ps @ [e]"
| "list_spec ps (ListDelete e) = remove1 e ps"

fun list_allowed :: "nat set \<Rightarrow> nat list \<Rightarrow> list_op list \<Rightarrow> bool" where
  "list_allowed live ps [] \<longleftrightarrow> True"
| "list_allowed live ps (ListAppend e # ops) \<longleftrightarrow>
     e \<in> live \<and> e \<notin> set ps \<and> list_allowed live (ps @ [e]) ops"
| "list_allowed live ps (ListDelete e # ops) \<longleftrightarrow>
     e \<in> set ps \<and> list_allowed live (remove1 e ps) ops"

definition appended :: "list_op list \<Rightarrow> nat set" where
  "appended ops = {e. ListAppend e \<in> set ops}"

lemma list_step_dlist:
  assumes "dlist (fst s) (snd s) ps" "list_allowed (dom (fst s)) ps (op # ops)"
  shows "\<exists>s'. list_step s op = Some s' \<and> dlist (fst s') (snd s') (list_spec ps op)
     \<and> (\<forall>p. payload_at (fst s') p = payload_at (fst s) p)
     \<and> (\<forall>p. p \<notin> set ps \<union> appended [op] \<longrightarrow> fst s' p = fst s p)
     \<and> list_allowed (dom (fst s')) (list_spec ps op) ops
     \<and> set (list_spec ps op) \<subseteq> set ps \<union> appended [op]"
proof (cases op)
  case (ListAppend e)
  with assms(2) obtain n where "fst s e = Some n" "e \<notin> set ps" by auto
  from LIST_APPEND_dlist [OF assms(1) this] obtain h' head' where
    1: "LIST_APPEND (fst s) (snd s) e = Some (h', head')" "dlist h' head' (ps @ [e])"
      "\<And>p. payload_at h' p = payload_at (fst s) p" "\<forall>p. p \<notin> set (ps @ [e]) \<longrightarrow> h' p = fst s p" by blast
  have "dom h' = dom (fst s)" using 1(3) by (rule payload_at_dom)
  with 1 ListAppend assms(2) show ?thesis by (auto simp: appended_def)
next
  case (ListDelete e)
  with assms(2) have "e \<in> set ps" by simp
  from LIST_DELETE_dlist [OF assms(1) this] obtain h' head' where
    1: "LIST_DELETE (fst s) (snd s) e = Some (h', head')" "dlist h' head' (remove1 e ps)"
      "\<And>p. payload_at h' p = payload_at (fst s) p" "\<forall>p. p \<notin> set ps \<longrightarrow> h' p = fst s p" by blast
  have "dom h' = dom (fst s)" using 1(3) by (rule payload_at_dom)
  with 1 ListDelete assms(2) show ?thesis by (auto simp: appended_def dest: subsetD [OF set_remove1_subset])
qed

lemma list_steps_dlist:
  "dlist (fst s) (snd s) ps \<Longrightarrow> list_allowed (dom (fst s)) ps ops
   \<Longrightarrow> \<exists>s'. fold_opt list_step s ops = Some s' \<and> dlist (fst s') (snd s') (foldl list_spec ps ops)
     \<and> (\<forall>p. payload_at (fst s') p = payload_at (fst s) p)
     \<and> (\<forall>p. p \<notin> set ps \<union> appended ops \<longrightarrow> fst s' p = fst s p)"
proof (induction ops arbitrary: s ps)
  case Nil
  then show ?case by simp
next
  case (Cons op ops)
  from list_step_dlist [OF Cons.prems] obtain s1 where
    1: "list_step s op = Some s1" "dlist (fst s1) (snd s1) (list_spec ps op)"
      "\<forall>p. payload_at (fst s1) p = payload_at (fst s) p"
      "\<forall>p. p \<notin> set ps \<union> appended [op] \<longrightarrow> fst s1 p = fst s p"
      "list_allowed (dom (fst s1)) (list_spec ps op) ops"
      "set (list_spec ps op) \<subseteq> set ps \<union> appended [op]" by blast
  from Cons.IH [OF 1(2,5)] obtain s2 where
    2: "fold_opt list_step s1 ops = Some s2" "dlist (fst s2) (snd s2) (foldl list_spec (list_spec ps op) ops)"
      "\<forall>p. payload_at (fst s2) p = payload_at (fst s1) p"
      "\<forall>p. p \<notin> set (list_spec ps op) \<union> appended ops \<longrightarrow> fst s2 p = fst s1 p" by blast
  have "appended (op # ops) = appended [op] \<union> appended ops" by (auto simp: appended_def)
  with 1(6) have "p \<notin> set ps \<union> appended (op # ops) \<Longrightarrow>
      p \<notin> set ps \<union> appended [op] \<and> p \<notin> set (list_spec ps op) \<union> appended ops" for p by blast
  then have "\<forall>p. p \<notin> set ps \<union> appended (op # ops) \<longrightarrow> fst s2 p = fst s p" using 1(4) 2(4) by simp
  with 1(1,3) 2(1-3) show ?case by simp
qed

subsection \<open>Properties\<close>

text \<open>
  (C13) Any sequence of appends and deletes, in any order: each append puts its node at the end and
  each delete takes out exactly its node, wherever it stands, so the list that remains is the one
  the operations describe. It is a well-formed list (iterating it forwards gives the addresses in
  order, iterating it in reverse gives the reversed ones, so both links are consistent), every
  payload is untouched, and so is every node that was neither in the list nor appended. No step
  follows a dangling pointer as long as appended nodes are live and not in the list, and deleted
  ones are in it.
\<close>

theorem list_append_delete_correct:
  assumes "dlist h head ps" and "list_allowed (dom h) ps ops"
  shows "\<exists>h' head'. fold_opt list_step (h, head) ops = Some (h', head')
     \<and> dlist h' head' (foldl list_spec ps ops)
     \<and> LIST_ITERATE h' head' = Some (foldl list_spec ps ops)
     \<and> LIST_ITERATE_REVERSED h' head' = Some (rev (foldl list_spec ps ops))
     \<and> (\<forall>p. payload_at h' p = payload_at h p)
     \<and> (\<forall>p. p \<notin> set ps \<union> appended ops \<longrightarrow> h' p = h p)"
proof -
  from list_steps_dlist [of "(h, head)" ps ops] assms obtain h' head' where
    1: "fold_opt list_step (h, head) ops = Some (h', head')" "dlist h' head' (foldl list_spec ps ops)"
      "\<forall>p. payload_at h' p = payload_at h p" "\<forall>p. p \<notin> set ps \<union> appended ops \<longrightarrow> h' p = h p" by auto
  then have seg: "dseg h' None head' (foldl list_spec ps ops) None" by (simp add: dlist_def)
  show ?thesis
    using 1 LIST_ITERATE_dseg [OF seg] LIST_LAST_dseg [OF seg] list_backwards_dseg [OF seg]
    by (simp add: LIST_ITERATE_REVERSED_def)
qed

theorem list_append_delete_correct_witness:
  "\<exists>h' head'. fold_opt list_step ([1 \<mapsto> \<lparr>prev = None, nxt = None, payload = CHR ''a''\<rparr>,
        2 \<mapsto> \<lparr>prev = None, nxt = None, payload = CHR ''b''\<rparr>], Some 1)
        [ListAppend 2, ListDelete 1, ListAppend 1, ListDelete 2] = Some (h', head')
     \<and> dlist h' head' [1] \<and> payload_at h' 2 = Some (CHR ''b'')"
proof -
  let ?h = "[1 \<mapsto> \<lparr>prev = None, nxt = None, payload = CHR ''a''\<rparr>,
        2 \<mapsto> \<lparr>prev = None, nxt = None, payload = CHR ''b''\<rparr>]"
  have "dlist ?h (Some 1) [1]" by (simp add: dlist_def)
  moreover have "list_allowed (dom ?h) [1] [ListAppend 2, ListDelete 1, ListAppend 1, ListDelete 2]" by simp
  moreover have "foldl list_spec [1] [ListAppend 2, ListDelete 1, ListAppend 1, ListDelete 2] = [1]" by simp
  moreover have "payload_at ?h 2 = Some (CHR ''b'')" by simp
  ultimately show ?thesis using list_append_delete_correct [of ?h "Some 1" "[1]"] by metis
qed

text \<open>
  The traversals see the list: forwards the nodes in order, backwards in reverse, the count
  is the length, a search gives the first node that satisfies the condition (or \<open>NULL\<close>).
\<close>

theorem list_traversals_correct:
  assumes "dlist h head ps"
  shows "LIST_ITERATE h head = Some ps \<and> LIST_ITERATE_REVERSED h head = Some (rev ps)
     \<and> LIST_COUNT h head = Some (length ps)
     \<and> LIST_MATCH c h head = Some (find (\<lambda>p. c p (the (h p))) ps)
     \<and> LIST_FIND q h head = Some (if q \<in> set ps then Some q else None)"
proof -
  have seg: "dseg h None head ps None" using assms by (simp add: dlist_def)
  have "find (\<lambda>p. p = q) ps = (if q \<in> set ps then Some q else None)"
    by (induction ps) auto
  then show ?thesis
    using LIST_ITERATE_dseg [OF seg] LIST_LAST_dseg [OF seg] list_backwards_dseg [OF seg]
      LIST_MATCH_dseg [OF seg]
    by (simp add: LIST_ITERATE_REVERSED_def LIST_COUNT_def LIST_FIND_def)
qed

theorem list_traversals_correct_witness:
  "LIST_ITERATE_REVERSED [1 \<mapsto> \<lparr>prev = None, nxt = Some 2, payload = ()\<rparr>,
      2 \<mapsto> \<lparr>prev = Some 1, nxt = None, payload = ()\<rparr>] (Some 1) = Some [2, 1]"
  using list_traversals_correct [of "[1 \<mapsto> \<lparr>prev = None, nxt = Some 2, payload = ()\<rparr>,
      2 \<mapsto> \<lparr>prev = Some 1, nxt = None, payload = ()\<rparr>]" "Some 1" "[1, 2]"]
  by (simp add: dlist_def)

end
