(* ===== verification/CString.thy ===== *)
theory CString
  imports Prelude "HOL-Library.Sublist"
begin

unbundle bit_operations_syntax

text \<open>
  C strings and the pieces of the C library the program's string code calls. A string is the list
  of its characters up to the terminating \<^verbatim>\<open>NUL\<close>; the character at the end of the list is that
  \<^verbatim>\<open>NUL\<close>. The functions are for any character width, since the program has \<^verbatim>\<open>char\<close> and
  \<^verbatim>\<open>wchar_t\<close> versions. The program never sets a locale, so \<^verbatim>\<open>tolower\<close> is the one of the C locale.
\<close>

type_synonym bytes = "u8 list"

definition char_at :: "'w::len word list \<Rightarrow> nat \<Rightarrow> 'w word" where
  "char_at s i = (if i < length s then s ! i else 0)"

definition no_nul :: "'w::len word list \<Rightarrow> bool" where
  "no_nul s \<longleftrightarrow> 0 \<notin> set s"

definition strlen :: "'w::len word list \<Rightarrow> nat" where
  "strlen s = length (takeWhile (\<lambda>c. c \<noteq> 0) s)"

text \<open>\<^verbatim>\<open>strncmp\<close>: the difference of the first unequal characters among the first \<open>n\<close>, as unsigned
  values; nothing is read behind the terminator.\<close>

fun strncmp :: "nat \<Rightarrow> 'w::len word list \<Rightarrow> 'w word list \<Rightarrow> int" where
  "strncmp 0 s t = 0"
| "strncmp (Suc n) s t =
     (if char_at s 0 \<noteq> char_at t 0 then uint (char_at s 0) - uint (char_at t 0)
      else if char_at s 0 = 0 then 0 else strncmp n (tl s) (tl t))"

definition strcmp :: "'w::len word list \<Rightarrow> 'w word list \<Rightarrow> int" where
  "strcmp s t = strncmp (Suc (max (length s) (length t))) s t"

definition tolower :: "'w::len word \<Rightarrow> 'w word" where
  "tolower c = (if 65 \<le> uint c \<and> uint c \<le> 90 then c + 32 else c)"

definition strncasecmp :: "nat \<Rightarrow> bytes \<Rightarrow> bytes \<Rightarrow> int" where
  "strncasecmp n s t = strncmp n (map tolower s) (map tolower t)"

definition strcasecmp :: "bytes \<Rightarrow> bytes \<Rightarrow> int" where
  "strcasecmp s t = strcmp (map tolower s) (map tolower t)"

text \<open>\<^verbatim>\<open>strstr\<close>, as the offset of the match, and string literals.\<close>

definition strstr :: "'w::len word list \<Rightarrow> 'w word list \<Rightarrow> nat option" where
  "strstr s t = find (\<lambda>i. take (length t) (drop i s) = t) [0..<Suc (length s)]"

definition c_str :: "string \<Rightarrow> bytes" where
  "c_str s = map of_char s"

subsection \<open>Facts\<close>

lemma char_at_simps [simp]:
  "char_at [] i = 0" "char_at (c # s) 0 = c" "char_at (c # s) (Suc i) = char_at s i"
  by (simp_all add: char_at_def)

lemma no_nul_simps [simp]:
  "no_nul []" "no_nul (c # s) \<longleftrightarrow> c \<noteq> 0 \<and> no_nul s" "no_nul (s @ t) \<longleftrightarrow> no_nul s \<and> no_nul t"
  by (auto simp: no_nul_def)

lemma no_nul_drop [intro]: "no_nul s \<Longrightarrow> no_nul (drop n s)"
  by (auto simp: no_nul_def dest: in_set_dropD)

lemma no_nul_take [intro]: "no_nul s \<Longrightarrow> no_nul (take n s)"
  by (auto simp: no_nul_def dest: in_set_takeD)

lemma strlen_no_nul [simp]: "no_nul s \<Longrightarrow> strlen s = length s"
  by (induction s) (auto simp: strlen_def)

lemma strncmp_0_iff:
  "no_nul s \<Longrightarrow> no_nul t \<Longrightarrow> strncmp n s t = 0 \<longleftrightarrow> take n s = take n t"
proof (induction n s t rule: strncmp.induct)
  case (2 n s t)
  then show ?case
    by (cases s; cases t) (auto simp: uint_0_iff word_uint_eq_iff [symmetric])
qed simp

lemma strcmp_0_iff: "no_nul s \<Longrightarrow> no_nul t \<Longrightarrow> strcmp s t = 0 \<longleftrightarrow> s = t"
  by (simp add: strcmp_def strncmp_0_iff del: strncmp.simps)

lemma uint_tolower:
  "7 \<le> LENGTH('w) \<Longrightarrow> uint (tolower (c :: 'w::len word))
     = (if 65 \<le> uint c \<and> uint c \<le> 90 then uint c + 32 else uint c)"
proof (cases "65 \<le> uint c \<and> uint c \<le> 90")
  case True
  assume w: "7 \<le> LENGTH('w)"
  then have le: "(2::int) ^ 7 \<le> 2 ^ LENGTH('w)" by (intro power_increasing) auto
  have lt: "(32::int) < 2 ^ LENGTH('w)" "uint c + 32 < 2 ^ LENGTH('w)"
    using True le by auto
  then have "(32::int) mod 2 ^ LENGTH('w) = 32" by (intro mod_pos_pos_trivial) simp_all
  then have u: "uint (32 :: 'w word) = 32" by (simp flip: uint_word_of_int)
  then have "uint (c + 32) = uint c + 32" using lt(2) uint_add_lem [of c 32] by simp
  then show ?thesis using True by (simp add: tolower_def)
next
  case False
  then show ?thesis by (auto simp: tolower_def)
qed

lemma tolower_0_iff [simp]: "7 \<le> LENGTH('w) \<Longrightarrow> tolower (c :: 'w::len word) = 0 \<longleftrightarrow> c = 0"
  using uint_tolower [of c] by (auto simp: uint_0_iff [symmetric] tolower_def split: if_splits)

lemma no_nul_tolower: "7 \<le> LENGTH('w) \<Longrightarrow> no_nul (map tolower (s :: 'w::len word list)) \<longleftrightarrow> no_nul s"
  by (induction s) auto

lemma strncasecmp_0_iff:
  "no_nul s \<Longrightarrow> no_nul t \<Longrightarrow>
   strncasecmp n s t = 0 \<longleftrightarrow> map tolower (take n s) = map tolower (take n t)"
  by (simp add: strncasecmp_def strncmp_0_iff no_nul_tolower take_map)

end
