(* ===== verification/StrUtils.thy ===== *)
theory StrUtils
  imports CString
begin

text \<open>
  The string utilities of \<^verbatim>\<open>core/strutils.c\<close> without the hash functions and the formatter, which
  have theories of their own. A \<^verbatim>\<open>NULL\<close> argument is \<open>None\<close>.
\<close>

subsection \<open>Prefixes, suffixes, equality\<close>

definition strew :: "bytes option \<Rightarrow> bytes option \<Rightarrow> bool" where
  "strew str what = (case (str, what) of
     (Some s, Some w) \<Rightarrow>
       (let lenstr = strlen s; lenwhat = strlen w
        in if lenwhat > lenstr then False
           else strncmp lenwhat (drop (lenstr - lenwhat) s) w = 0)
   | _ \<Rightarrow> False)"

definition wstrew :: "u32 list option \<Rightarrow> u32 list option \<Rightarrow> bool" where
  "wstrew str what = (case (str, what) of
     (Some s, Some w) \<Rightarrow>
       (let lenstr = strlen s; lenwhat = strlen w
        in if lenwhat > lenstr then False
           else strncmp lenwhat (drop (lenstr - lenwhat) s) w = 0)
   | _ \<Rightarrow> False)"

definition strsw :: "bytes option \<Rightarrow> bytes option \<Rightarrow> bool" where
  "strsw str what = (case (str, what) of
     (Some s, Some w) \<Rightarrow>
       (let lenwhat = strlen w
        in if lenwhat > strlen s then False else strncmp lenwhat s w = 0)
   | _ \<Rightarrow> False)"

text \<open>The loop compares the lower-case versions of the first \<open>n\<close> characters, from index \<open>i\<close>.\<close>

fun wstrsw_ic_loop :: "u32 list \<Rightarrow> u32 list \<Rightarrow> nat \<Rightarrow> nat \<Rightarrow> bool" where
  "wstrsw_ic_loop str what i 0 = True"
| "wstrsw_ic_loop str what i (Suc n) =
     (if tolower (char_at str i) \<noteq> tolower (char_at what i) then False
      else wstrsw_ic_loop str what (Suc i) n)"

definition wstrsw_ic :: "u32 list option \<Rightarrow> u32 list option \<Rightarrow> bool" where
  "wstrsw_ic str what = (case (str, what) of
     (Some s, Some w) \<Rightarrow>
       (let lenwhat = strlen w
        in if lenwhat > strlen s then False else wstrsw_ic_loop s w 0 lenwhat)
   | _ \<Rightarrow> False)"

definition streq :: "bytes option \<Rightarrow> bytes option \<Rightarrow> bool" where
  "streq str what = (case (str, what) of
     (Some s, Some w) \<Rightarrow>
       (let lenstr = strlen s
        in if lenstr \<noteq> strlen w then False else strncmp lenstr s w = 0)
   | _ \<Rightarrow> False)"

definition streq_ic :: "bytes option \<Rightarrow> bytes option \<Rightarrow> bool" where
  "streq_ic str what = (case (str, what) of
     (Some s, Some w) \<Rightarrow>
       (let lenstr = strlen s
        in if lenstr \<noteq> strlen w then False else strncasecmp lenstr s w = 0)
   | _ \<Rightarrow> False)"

subsection \<open>Case-insensitive substring search\<close>

text \<open>The inner loop runs until a terminator or a difference; the match is complete when it
  ends at the needle's terminator.\<close>

fun strstr_ic_match :: "bytes \<Rightarrow> bytes \<Rightarrow> bool" where
  "strstr_ic_match (h # hs) (n # ns) =
     (if h \<noteq> 0 \<and> n \<noteq> 0
      then (if tolower h \<noteq> tolower n then n = 0 else strstr_ic_match hs ns)
      else n = 0)"
| "strstr_ic_match [] n = (char_at n 0 = 0)"
| "strstr_ic_match h [] = True"

text \<open>The outer loop moves through the haystack; the result is the offset of the match.\<close>

fun strstr_ic_loop :: "bytes \<Rightarrow> nat \<Rightarrow> bytes \<Rightarrow> nat option" where
  "strstr_ic_loop [] ofs needle = None"
| "strstr_ic_loop (h # hs) ofs needle =
     (if h = 0 then None
      else if tolower h = tolower (char_at needle 0) \<and> strstr_ic_match (h # hs) needle then Some ofs
      else strstr_ic_loop hs (Suc ofs) needle)"

definition strstr_ic :: "bytes option \<Rightarrow> bytes option \<Rightarrow> nat option" where
  "strstr_ic haystack needle = (case (haystack, needle) of
     (Some h, Some n) \<Rightarrow> (if char_at n 0 = 0 then Some 0 else strstr_ic_loop h 0 n)
   | _ \<Rightarrow> None)"

subsection \<open>Trimming\<close>

definition NOTWHITE :: "u8 \<Rightarrow> bool" where
  "NOTWHITE c \<longleftrightarrow> c \<noteq> 9 \<and> c \<noteq> 32"

text \<open>The conversion of a \<^verbatim>\<open>size_t\<close> to \<^verbatim>\<open>int\<close>.\<close>

definition int_of_size :: "nat \<Rightarrow> int" where
  "int_of_size n = sint (word_of_nat n :: u32)"

text \<open>A read behind the string's terminator has no result.\<close>

fun rtrim_loop :: "bytes \<Rightarrow> nat \<Rightarrow> int option" where
  "rtrim_loop s 0 = Some 0"
| "rtrim_loop s (Suc n) =
     (case array_get (s @ [0]) n of
        None \<Rightarrow> None
      | Some c \<Rightarrow> if NOTWHITE c then Some (int n + 1) else rtrim_loop s n)"

definition rtrim_len :: "bytes \<Rightarrow> nat option \<Rightarrow> int option" where
  "rtrim_len s len =
     (let n = int_of_size (case len of Some l \<Rightarrow> l | None \<Rightarrow> strlen s)
      in if n \<le> 0 then Some n else rtrim_loop s (nat n))"

fun ltrim_loop :: "bytes \<Rightarrow> nat \<Rightarrow> nat \<Rightarrow> int option" where
  "ltrim_loop s result 0 = Some (int result)"
| "ltrim_loop s result (Suc k) =
     (case array_get (s @ [0]) result of
        None \<Rightarrow> None
      | Some c \<Rightarrow> if NOTWHITE c then Some (int result) else ltrim_loop s (Suc result) k)"

definition ltrim_ofs :: "bytes \<Rightarrow> nat option \<Rightarrow> int option" where
  "ltrim_ofs s len =
     (let n = int_of_size (case len of Some l \<Rightarrow> l | None \<Rightarrow> strlen s)
      in ltrim_loop s 0 (nat n))"

subsection \<open>Comparisons that accept NULL\<close>

text \<open>The pointer comparison \<^verbatim>\<open>a == b\<close> of two non-null pointers is an argument: equal pointers
  point to equal strings.\<close>

definition strcmp_safe :: "bool \<Rightarrow> bytes option \<Rightarrow> bytes option \<Rightarrow> int" where
  "strcmp_safe same_pointer a b = (case (a, b) of
     (None, None) \<Rightarrow> 0
   | (None, Some _) \<Rightarrow> -1
   | (Some _, None) \<Rightarrow> 1
   | (Some s, Some t) \<Rightarrow> if same_pointer then 0 else strcmp s t)"

definition strcasecmp_safe :: "bool \<Rightarrow> bytes option \<Rightarrow> bytes option \<Rightarrow> int" where
  "strcasecmp_safe same_pointer a b = (case (a, b) of
     (None, None) \<Rightarrow> 0
   | (None, Some _) \<Rightarrow> -1
   | (Some _, None) \<Rightarrow> 1
   | (Some s, Some t) \<Rightarrow> if same_pointer then 0 else strcasecmp s t)"

subsection \<open>Repeated characters and strings\<close>

text \<open>The result is the allocated block, its terminator included. The size is computed in \<^verbatim>\<open>int\<close>,
  whose overflow is undefined.\<close>

definition int_overflows :: "int \<Rightarrow> bool" where
  "int_overflows i \<longleftrightarrow> i < - (2 ^ 31) \<or> 2 ^ 31 \<le> i"

definition repeat_char :: "u8 \<Rightarrow> int \<Rightarrow> bytes option" where
  "repeat_char c n =
     (let n = (if n < 0 then 0 else n)
      in if int_overflows (n + 1) then None
         else let result = replicate (nat (n + 1)) 0
              in Some (if n > 0 then replicate (nat n) c @ drop (nat n) result else result))"

text \<open>\<^verbatim>\<open>strncpy\<close> to offset \<open>work\<close> of a block: \<open>len\<close> characters are written, zeros behind the
  source's end.\<close>

definition strncpy_at :: "bytes \<Rightarrow> nat \<Rightarrow> bytes \<Rightarrow> nat \<Rightarrow> bytes option" where
  "strncpy_at block work src len =
     (if work + len \<le> length block
      then Some (take work block @ take len (src @ replicate len 0) @ drop (work + len) block)
      else None)"

fun repeat_string_loop :: "bytes \<Rightarrow> nat \<Rightarrow> bytes \<Rightarrow> nat \<Rightarrow> nat \<Rightarrow> bytes option" where
  "repeat_string_loop str len result work 0 = Some result"
| "repeat_string_loop str len result work (Suc n) =
     (case strncpy_at result work str len of
        None \<Rightarrow> None
      | Some result' \<Rightarrow> repeat_string_loop str len result' (work + len) n)"

definition repeat_string :: "bytes \<Rightarrow> int \<Rightarrow> bytes option" where
  "repeat_string str n =
     (let n = (if n < 0 then 0 else n);
          len = int_of_size (strlen str)
      in if int_overflows (len * n + 1) then None
         else let result = replicate (nat (len * n + 1)) 0
              in if len > 0 then repeat_string_loop str (nat len) result 0 (nat n) else Some result)"

subsection \<open>Character tests and hexadecimal numbers\<close>

definition DEFAULT_ASCII_MINLEN :: int where
  "DEFAULT_ASCII_MINLEN = 2"

fun ascii_run :: "'w::len word list \<Rightarrow> int \<Rightarrow> int option" where
  "ascii_run [] len = Some len"
| "ascii_run (c # data) len =
     (if c = 0 then Some len
      else if uint c < 32 \<or> uint c > 127 then None
      else ascii_run data (len + 1))"

definition is_ascii :: "bytes \<Rightarrow> int \<Rightarrow> bool" where
  "is_ascii data min_len =
     (let min_len = (if min_len < 0 then DEFAULT_ASCII_MINLEN else min_len)
      in case ascii_run data 0 of None \<Rightarrow> False | Some len \<Rightarrow> len \<ge> min_len)"

text \<open>A wide character is signed on the Linux target, so a negative one is below 32.\<close>

fun utf16_run :: "u32 list \<Rightarrow> int \<Rightarrow> int option" where
  "utf16_run [] len = Some len"
| "utf16_run (c # data) len =
     (if c = 0 then Some len
      else if sint c < 32 \<or> sint c > 127 then None
      else utf16_run data (len + 1))"

definition is_utf16 :: "u32 list \<Rightarrow> int \<Rightarrow> bool" where
  "is_utf16 data min_len =
     (let min_len = (if min_len < 0 then DEFAULT_ASCII_MINLEN else min_len)
      in case utf16_run data 0 of None \<Rightarrow> False | Some len \<Rightarrow> len \<ge> min_len)"

text \<open>The sum is a 32-bit value that wraps; the result is its signed reading.\<close>

definition hextoi_char :: "u8 \<Rightarrow> u32 \<Rightarrow> u32" where
  "hextoi_char c acc =
     (let acc = (if 48 \<le> uint c \<and> uint c \<le> 57 then push_bit 4 acc + ucast c - 48 else acc);
          acc = (if 65 \<le> uint c \<and> uint c \<le> 70 then push_bit 4 acc + ucast c - 65 + 10 else acc)
      in if 97 \<le> uint c \<and> uint c \<le> 102 then push_bit 4 acc + ucast c - 97 + 10 else acc)"

fun hextoi_loop :: "bytes \<Rightarrow> u32 \<Rightarrow> u32" where
  "hextoi_loop [] acc = acc"
| "hextoi_loop (c # str) acc = (if c = 0 then acc else hextoi_loop str (hextoi_char c acc))"

definition hextoi :: "bytes option \<Rightarrow> int" where
  "hextoi str = (case str of None \<Rightarrow> 0 | Some s \<Rightarrow> sint (hextoi_loop s 0))"

subsection \<open>Lemmas\<close>

lemma strew_iff:
  "no_nul s \<Longrightarrow> no_nul w \<Longrightarrow> strew (Some s) (Some w) \<longleftrightarrow> suffix w s"
proof -
  assume n: "no_nul s" "no_nul w"
  have "suffix w s \<longleftrightarrow> length w \<le> length s \<and> drop (length s - length w) s = w"
    by (metis suffix_drop suffix_length_le suffix_take append_eq_conv_conj suffix_def
        append_take_drop_id diff_diff_cancel length_append length_drop add_diff_cancel_right')
  then show ?thesis using n by (auto simp: strew_def Let_def strncmp_0_iff no_nul_drop not_less)
qed

lemma wstrew_iff:
  "no_nul s \<Longrightarrow> no_nul w \<Longrightarrow> wstrew (Some s) (Some w) \<longleftrightarrow> suffix w s"
proof -
  assume n: "no_nul s" "no_nul w"
  have "suffix w s \<longleftrightarrow> length w \<le> length s \<and> drop (length s - length w) s = w"
    by (metis suffix_drop suffix_length_le suffix_take append_eq_conv_conj suffix_def
        append_take_drop_id diff_diff_cancel length_append length_drop add_diff_cancel_right')
  then show ?thesis using n by (auto simp: wstrew_def Let_def strncmp_0_iff no_nul_drop not_less)
qed

lemma prefix_take_iff: "prefix w s \<longleftrightarrow> length w \<le> length s \<and> take (length w) s = w"
  by (metis append_eq_conv_conj prefix_def prefix_length_le take_is_prefix)

lemma strsw_iff:
  "no_nul s \<Longrightarrow> no_nul w \<Longrightarrow> strsw (Some s) (Some w) \<longleftrightarrow> prefix w s"
  by (auto simp: strsw_def Let_def strncmp_0_iff prefix_take_iff not_less)

lemma streq_iff:
  "no_nul s \<Longrightarrow> no_nul w \<Longrightarrow> streq (Some s) (Some w) \<longleftrightarrow> s = w"
  by (auto simp: streq_def Let_def strncmp_0_iff)

lemma streq_ic_iff:
  "no_nul s \<Longrightarrow> no_nul w \<Longrightarrow> streq_ic (Some s) (Some w) \<longleftrightarrow> map tolower s = map tolower w"
  by (auto simp: streq_ic_def Let_def strncasecmp_0_iff dest: map_eq_imp_length_eq)

lemma wstrsw_ic_loop_iff:
  "i + n \<le> length str \<Longrightarrow> i + n \<le> length what \<Longrightarrow>
   wstrsw_ic_loop str what i n \<longleftrightarrow>
     map tolower (take n (drop i str)) = map tolower (take n (drop i what))"
proof (induction n arbitrary: i)
  case (Suc n)
  then have "drop i str = str ! i # drop (Suc i) str" "drop i what = what ! i # drop (Suc i) what"
    by (simp_all add: Cons_nth_drop_Suc)
  with Suc show ?case by (simp add: char_at_def)
qed simp

lemma wstrsw_ic_iff:
  "no_nul s \<Longrightarrow> no_nul w \<Longrightarrow> wstrsw_ic (Some s) (Some w) \<longleftrightarrow> prefix (map tolower w) (map tolower s)"
  by (auto simp: wstrsw_ic_def Let_def wstrsw_ic_loop_iff prefix_take_iff take_map not_less)


lemma strstr_ic_match_iff:
  "no_nul h \<Longrightarrow> no_nul n \<Longrightarrow> strstr_ic_match h n \<longleftrightarrow> prefix (map tolower n) (map tolower h)"
proof (induction h n rule: strstr_ic_match.induct)
  case (2 n)
  then show ?case by (cases n) auto
qed auto

text \<open>The first offset at which the needle matches, ignoring case.\<close>

definition matches_ic :: "bytes \<Rightarrow> bytes \<Rightarrow> nat \<Rightarrow> bool" where
  "matches_ic h n k \<longleftrightarrow> prefix (map tolower n) (map tolower (drop k h))"

lemma strstr_ic_loop_spec:
  "no_nul h \<Longrightarrow> no_nul n \<Longrightarrow> n \<noteq> [] \<Longrightarrow>
   (case strstr_ic_loop h ofs n of
      None \<Rightarrow> \<forall>k. \<not> matches_ic h n k
    | Some r \<Rightarrow> \<exists>k. r = ofs + k \<and> k < length h \<and> matches_ic h n k \<and> (\<forall>j < k. \<not> matches_ic h n j))"
proof (induction h arbitrary: ofs)
  case Nil
  then show ?case by (cases n) (auto simp: matches_ic_def)
next
  case (Cons c h)
  have here: "tolower c = tolower (char_at n 0) \<and> strstr_ic_match (c # h) n \<longleftrightarrow> matches_ic (c # h) n 0"
    using Cons.prems strstr_ic_match_iff [of "c # h" n] by (cases n) (auto simp: matches_ic_def)
  have later: "matches_ic (c # h) n (Suc k) = matches_ic h n k" for k
    by (simp add: matches_ic_def)
  show ?case
  proof (cases "matches_ic (c # h) n 0")
    case True
    then show ?thesis using here Cons.prems by auto
  next
    case False
    then have step: "strstr_ic_loop (c # h) ofs n = strstr_ic_loop h (Suc ofs) n"
      using here Cons.prems by auto
    have all: "(\<forall>k. \<not> matches_ic (c # h) n k) \<longleftrightarrow> (\<forall>k. \<not> matches_ic h n k)"
      using False later by (metis not0_implies_Suc)
    have ex: "(\<forall>j < Suc k. \<not> matches_ic (c # h) n j) \<longleftrightarrow> (\<forall>j < k. \<not> matches_ic h n j)" for k
      using False later by (metis Suc_less_eq less_Suc_eq_0_disj)
    have IH: "case strstr_ic_loop h (Suc ofs) n of
      None \<Rightarrow> \<forall>k. \<not> matches_ic h n k
    | Some r \<Rightarrow> \<exists>k. r = Suc ofs + k \<and> k < length h \<and> matches_ic h n k \<and> (\<forall>j < k. \<not> matches_ic h n j)"
      using Cons by simp
    show ?thesis
    proof (cases "strstr_ic_loop h (Suc ofs) n")
      case None
      with IH show ?thesis by (simp add: step all del: strstr_ic_loop.simps)
    next
      case (Some r)
      with IH obtain k where k: "r = Suc ofs + k" "k < length h" "matches_ic h n k"
        "\<forall>j < k. \<not> matches_ic h n j" by auto
      have "r = ofs + Suc k \<and> Suc k < length (c # h) \<and> matches_ic (c # h) n (Suc k)
        \<and> (\<forall>j < Suc k. \<not> matches_ic (c # h) n j)"
        using k by (simp only: ex later) simp
      with Some show ?thesis by (simp only: step option.case) blast
    qed
  qed
qed

lemma int_of_size_small: "n < 2 ^ 31 \<Longrightarrow> int_of_size n = int n"
  by (simp add: int_of_size_def signed_of_nat signed_take_bit_int_eq_self)

lemma rtrim_loop_eq:
  "n \<le> length s \<Longrightarrow> rtrim_loop s n =
     Some (int (length (dropWhile (\<lambda>c. \<not> NOTWHITE c) (rev (take n s)))))"
  by (induction n) (auto simp: nth_append take_Suc_conv_app_nth)

lemma ltrim_loop_eq:
  "r + k \<le> length s \<Longrightarrow> ltrim_loop s r k =
     Some (int (r + length (takeWhile (\<lambda>c. \<not> NOTWHITE c) (take k (drop r s)))))"
proof (induction k arbitrary: r)
  case (Suc k)
  then have "drop r s = s ! r # drop (Suc r) s" by (simp add: Cons_nth_drop_Suc)
  with Suc show ?case by (simp add: nth_append)
qed simp

lemma concat_replicate_comm: "concat (replicate m s) @ s = s @ concat (replicate m s)"
  by (induction m) auto

text \<open>\<open>repeat_string\<close> fills its block from the left; what is written is followed by zeros.\<close>

lemma repeat_string_loop_eq:
  "no_nul str \<Longrightarrow> repeat_string_loop str (length str)
      (concat (replicate m str) @ replicate (length str * n + 1) 0) (length str * m) n
   = Some (concat (replicate (m + n) str) @ [0])"
proof (induction n arbitrary: m)
  case 0
  then show ?case by simp
next
  case (Suc n)
  let ?l = "length str"
  have len: "length (concat (replicate m str)) = ?l * m"
    by (simp add: length_concat sum_list_replicate)
  have "strncpy_at (concat (replicate m str) @ replicate (?l * Suc n + 1) 0) (?l * m) str ?l
      = Some (concat (replicate (Suc m) str) @ replicate (?l * n + 1) 0)"
    by (simp add: strncpy_at_def len drop_replicate replicate_append_same [symmetric]
        flip: concat_append) (simp add: replicate_append_same concat_replicate_comm)
  with Suc.IH [of "Suc m"] Suc.prems show ?case
    by (simp add: add.commute)
qed


lemma ascii_run_eq:
  "ascii_run s k =
     (if \<forall>c \<in> set (takeWhile (\<lambda>c. c \<noteq> 0) s). 32 \<le> uint c \<and> uint c \<le> 127
      then Some (k + int (strlen s)) else None)"
  by (induction s k rule: ascii_run.induct) (auto simp: strlen_def)

lemma utf16_run_eq:
  "utf16_run s k =
     (if \<forall>c \<in> set (takeWhile (\<lambda>c. c \<noteq> 0) s). 32 \<le> sint c \<and> sint c \<le> 127
      then Some (k + int (strlen s)) else None)"
  by (induction s k rule: utf16_run.induct) (auto simp: strlen_def)

text \<open>The value of a hexadecimal digit, and the hexadecimal number a string of digits denotes.\<close>

definition hex_digit :: "u8 \<Rightarrow> nat option" where
  "hex_digit c =
     (if 48 \<le> uint c \<and> uint c \<le> 57 then Some (unat c - 48)
      else if 65 \<le> uint c \<and> uint c \<le> 70 then Some (unat c - 55)
      else if 97 \<le> uint c \<and> uint c \<le> 102 then Some (unat c - 87)
      else None)"

definition hex_value :: "nat list \<Rightarrow> nat" where
  "hex_value ds = foldl (\<lambda>v d. 16 * v + d) 0 ds"

lemma word_add_sub_const: "a + (k + b) - k = a + (b :: 'w::len word)"
  by (simp only: add.left_commute [of a] add_diff_cancel_left')

lemma word_add_sub_up:
  "a + (55 + b) - 65 + 10 = a + (b :: u32)" "a + (87 + b) - 97 + 10 = a + (b :: u32)"
proof -
  have "a + (55 + b) - 65 + 10 = a + b + (55 - 65 + 10)" by (simp only: algebra_simps)
  then show "a + (55 + b) - 65 + 10 = a + b" by simp
  have "a + (87 + b) - 97 + 10 = a + b + (87 - 97 + 10)" by (simp only: algebra_simps)
  then show "a + (87 + b) - 97 + 10 = a + b" by simp
qed

lemma hex_ranges:
  fixes n :: nat
  shows "48 \<le> n \<and> n \<le> 57 \<or> 65 \<le> n \<and> n \<le> 70 \<or> 97 \<le> n \<and> n \<le> 102
    \<or> (n < 48 \<or> 57 < n) \<and> (n < 65 \<or> 70 < n) \<and> (n < 97 \<or> 102 < n)"
  by linarith

lemma hextoi_char_eq:
  "hextoi_char c acc = (case hex_digit c of None \<Rightarrow> acc | Some d \<Rightarrow> 16 * acc + of_nat d)"
proof -
  have sh: "push_bit 4 acc = 16 * acc" by (simp add: push_bit_eq_mult)
  have uc: "(ucast c :: u32) = numeral k + of_nat (unat c - numeral k)" if "numeral k \<le> unat c" for k
  proof -
    have "(ucast c :: u32) = of_nat (unat c)" by simp
    also have "unat c = numeral k + (unat c - numeral k)" using that by simp
    finally show ?thesis by (metis of_nat_add of_nat_numeral)
  qed
  have d: "push_bit 4 acc + ucast c - 48 = 16 * acc + of_nat (unat c - 48)" if "48 \<le> unat c"
    unfolding sh by (subst uc [OF that]) (rule word_add_sub_const)
  have u: "push_bit 4 acc + ucast c - 65 + 10 = 16 * acc + of_nat (unat c - 55)" if "65 \<le> unat c"
  proof -
    have "55 \<le> unat c" using that by (rule order_trans [rotated]) simp
    then show ?thesis unfolding sh by (subst uc) (assumption, rule word_add_sub_up)
  qed
  have l: "push_bit 4 acc + ucast c - 97 + 10 = 16 * acc + of_nat (unat c - 87)" if "97 \<le> unat c"
  proof -
    have "87 \<le> unat c" using that by (rule order_trans [rotated]) simp
    then show ?thesis unfolding sh by (subst uc) (assumption, rule word_add_sub_up)
  qed
  define n where "n = unat c"
  have n: "uint c = int n" unfolding n_def by (rule uint_nat)
  consider "48 \<le> n" "n \<le> 57" | "65 \<le> n" "n \<le> 70" | "97 \<le> n" "n \<le> 102"
    | "n < 48 \<or> 57 < n" "n < 65 \<or> 70 < n" "n < 97 \<or> 102 < n"
    using hex_ranges [of n] by blast
  then show ?thesis
  proof cases
    case 1
    then have cond: "48 \<le> uint c" "uint c \<le> 57" "\<not> 65 \<le> uint c" "\<not> 97 \<le> uint c"
      by (simp_all add: n)
    have "hextoi_char c acc = push_bit 4 acc + ucast c - 48" "hex_digit c = Some (unat c - 48)"
      by (simp_all only: hextoi_char_def hex_digit_def Let_def cond simp_thms if_True if_False)
    moreover have "48 \<le> unat c" using 1 by (simp only: n_def)
    ultimately show ?thesis using d by (simp only: option.case)
  next
    case 2
    then have cond: "\<not> uint c \<le> 57" "65 \<le> uint c" "uint c \<le> 70" "\<not> 97 \<le> uint c"
      by (simp_all add: n)
    have "hextoi_char c acc = push_bit 4 acc + ucast c - 65 + 10" "hex_digit c = Some (unat c - 55)"
      by (simp_all only: hextoi_char_def hex_digit_def Let_def cond simp_thms if_True if_False)
    moreover have "65 \<le> unat c" using 2 by (simp only: n_def)
    ultimately show ?thesis using u by (simp only: option.case)
  next
    case 3
    then have cond: "\<not> uint c \<le> 57" "\<not> uint c \<le> 70" "97 \<le> uint c" "uint c \<le> 102"
      by (simp_all add: n)
    have "hextoi_char c acc = push_bit 4 acc + ucast c - 97 + 10" "hex_digit c = Some (unat c - 87)"
      by (simp_all only: hextoi_char_def hex_digit_def Let_def cond simp_thms if_True if_False)
    moreover have "97 \<le> unat c" using 3 by (simp only: n_def)
    ultimately show ?thesis using l by (simp only: option.case)
  next
    case 4
    then show ?thesis by (auto simp: hextoi_char_def hex_digit_def Let_def n)
  qed
qed

lemma hextoi_loop_eq:
  "no_nul s \<Longrightarrow> hextoi_loop s (of_nat v) =
     of_nat (foldl (\<lambda>v d. 16 * v + d) v (List.map_filter hex_digit s))"
proof (induction s arbitrary: v)
  case (Cons c s)
  show ?case
  proof (cases "hex_digit c")
    case None
    with Cons show ?thesis by (simp add: hextoi_char_eq map_filter_simps)
  next
    case (Some d)
    with Cons.IH [of "16 * v + d"] Cons.prems show ?thesis
      by (simp add: hextoi_char_eq map_filter_simps)
  qed
qed (simp add: map_filter_simps)

subsection \<open>Properties\<close>

text \<open>
  On C strings the tests decide what they are named after: suffix, prefix and equality, for
  the case-insensitive ones of the strings in lower case. A \<^verbatim>\<open>NULL\<close> argument gives \<^verbatim>\<open>false\<close>.
\<close>

theorem string_tests_correct:
  assumes "no_nul s" "no_nul w" "no_nul ws" "no_nul ww"
  shows "(strew (Some s) (Some w) \<longleftrightarrow> suffix w s)
    \<and> (wstrew (Some ws) (Some ww) \<longleftrightarrow> suffix ww ws)
    \<and> (strsw (Some s) (Some w) \<longleftrightarrow> prefix w s)
    \<and> (wstrsw_ic (Some ws) (Some ww) \<longleftrightarrow> prefix (map tolower ww) (map tolower ws))
    \<and> (streq (Some s) (Some w) \<longleftrightarrow> s = w)
    \<and> (streq_ic (Some s) (Some w) \<longleftrightarrow> map tolower s = map tolower w)
    \<and> \<not> strew None b \<and> \<not> strew a None \<and> \<not> strsw None b \<and> \<not> strsw a None
    \<and> \<not> streq None b \<and> \<not> streq a None \<and> \<not> streq_ic None b \<and> \<not> streq_ic a None"
proof -
  have "\<not> strew None b \<and> \<not> strew a None \<and> \<not> strsw None b \<and> \<not> strsw a None
    \<and> \<not> streq None b \<and> \<not> streq a None \<and> \<not> streq_ic None b \<and> \<not> streq_ic a None"
    by (auto simp: strew_def strsw_def streq_def streq_ic_def split: option.splits)
  with assms show ?thesis
    by (simp add: strew_iff wstrew_iff strsw_iff wstrsw_ic_iff streq_iff streq_ic_iff)
qed

theorem string_tests_correct_witness:
  "streq_ic (Some [72, 105]) (Some [104, 73]) \<and> \<not> strew (Some [72, 105]) (Some [72])"
  using string_tests_correct [of "[72, 105]" "[104, 73]" "[]" "[]"]
    string_tests_correct [of "[72, 105]" "[72]" "[]" "[]"]
  by (simp add: tolower_def suffix_def)

text \<open>
  (C26) The case-insensitive search returns the first offset at which the needle matches, and
  \<^verbatim>\<open>NULL\<close> exactly when there is none; the empty needle matches at the start.
\<close>

theorem strstr_ic_first_match:
  assumes "no_nul h" "no_nul n"
  shows "case strstr_ic (Some h) (Some n) of
      None \<Rightarrow> \<forall>k. \<not> prefix (map tolower n) (map tolower (drop k h))
    | Some r \<Rightarrow> r \<le> length h \<and> prefix (map tolower n) (map tolower (drop r h))
               \<and> (\<forall>j < r. \<not> prefix (map tolower n) (map tolower (drop j h)))"
proof (cases "n = []")
  case True
  then show ?thesis by (simp add: strstr_ic_def)
next
  case False
  with assms(2) have "char_at n 0 \<noteq> 0" by (cases n) auto
  then have "strstr_ic (Some h) (Some n) = strstr_ic_loop h 0 n" by (simp add: strstr_ic_def)
  then show ?thesis
    using strstr_ic_loop_spec [OF assms False, of 0]
    by (auto simp: matches_ic_def split: option.splits)
qed

theorem strstr_ic_first_match_witness:
  "strstr_ic (Some [120, 97, 66]) (Some [65, 98]) = Some 1
   \<and> prefix (map tolower [65, 98 :: u8]) (map tolower (drop 1 [120, 97, 66]))"
  using strstr_ic_first_match [of "[120, 97, 66]" "[65, 98]"]
  by (simp add: strstr_ic_def tolower_def)

text \<open>
  (C27) Trimming: the length \<open>rtrim_len\<close> returns cuts off exactly the trailing tabs and spaces,
  the offset \<open>ltrim_ofs\<close> returns skips exactly the leading ones, with and without an explicit
  length; nothing outside the string is read.
\<close>

theorem trim_correct:
  assumes "no_nul s" and "length s < 2 ^ 31" and "l \<le> length s"
  shows "rtrim_len s (Some l) = Some (int (length (dropWhile (\<lambda>c. \<not> NOTWHITE c) (rev (take l s)))))
    \<and> ltrim_ofs s (Some l) = Some (int (length (takeWhile (\<lambda>c. \<not> NOTWHITE c) (take l s))))
    \<and> rtrim_len s None = rtrim_len s (Some (length s))
    \<and> ltrim_ofs s None = ltrim_ofs s (Some (length s))"
proof (intro conjI)
  have l: "int_of_size l = int l" using assms by (intro int_of_size_small) simp
  show "rtrim_len s (Some l) = Some (int (length (dropWhile (\<lambda>c. \<not> NOTWHITE c) (rev (take l s)))))"
    using assms rtrim_loop_eq [of l s] by (simp add: rtrim_len_def Let_def l)
  show "ltrim_ofs s (Some l) = Some (int (length (takeWhile (\<lambda>c. \<not> NOTWHITE c) (take l s))))"
    using assms ltrim_loop_eq [of 0 l s] by (simp add: ltrim_ofs_def Let_def l)
qed (use assms(1) in \<open>simp_all add: rtrim_len_def ltrim_ofs_def\<close>)

theorem trim_correct_witness:
  "rtrim_len [32, 97, 9, 32] (Some 4) = Some 2 \<and> ltrim_ofs [32, 97, 9, 32] (Some 4) = Some 1"
  using trim_correct [of "[32, 97, 9, 32]" 4] by (simp add: NOTWHITE_def)

text \<open>
  \<open>repeat_string\<close> returns the string \<open>n\<close> times and a terminator, staying inside the block it
  allocated, and \<open>repeat_char\<close> the character \<open>n\<close> times; a negative count counts as zero. The only
  limit is the \<^verbatim>\<open>int\<close> the size is computed in.
\<close>

theorem repeat_correct:
  assumes "no_nul str" and "length str < 2 ^ 31"
  shows "repeat_string str n = (if int (length str) * max 0 n + 1 < 2 ^ 31
        then Some (concat (replicate (nat n) str) @ [0]) else None)
    \<and> repeat_char c n = (if max 0 n + 1 < 2 ^ 31 then Some (replicate (nat n) c @ [0]) else None)"
proof (intro conjI)
  have len: "int_of_size (length str) = int (length str)" using assms(2) by (rule int_of_size_small)
  have n: "(if n < 0 then 0 else n) = max 0 n" by simp
  obtain m where m: "max 0 n = int m" "nat n = m" by (cases n) auto
  have sz: "nat (int (length str) * int m + 1) = length str * m + 1"
    by (simp add: nat_add_distrib nat_mult_distrib)
  have pos: "\<not> int (length str) * int m + 1 < - (2 ^ 31)" by (simp add: not_less add_increasing)
  show "repeat_string str n = (if int (length str) * max 0 n + 1 < 2 ^ 31
        then Some (concat (replicate (nat n) str) @ [0]) else None)"
  proof (cases "str = []")
    case False
    then show ?thesis
      using repeat_string_loop_eq [OF assms(1), of 0 m] assms(1) pos
      unfolding repeat_string_def Let_def n m
      by (simp add: len sz int_overflows_def not_less)
  qed (simp add: repeat_string_def Let_def int_overflows_def int_of_size_def)
  show "repeat_char c n = (if max 0 n + 1 < 2 ^ 31 then Some (replicate (nat n) c @ [0]) else None)"
    unfolding repeat_char_def Let_def n
    by (auto simp: int_overflows_def drop_replicate nat_add_distrib replicate_append_same [symmetric]
        simp del: replicate_append_same)
qed

theorem repeat_correct_witness:
  "repeat_string [97, 98] 2 = Some [97, 98, 97, 98, 0] \<and> repeat_string [97, 98] (2 ^ 30) = None"
proof -
  have "replicate 2 x = [x, x]" for x :: bytes by (simp add: numeral_2_eq_2)
  then show ?thesis
    using repeat_correct [of "[97, 98]" 2] repeat_correct [of "[97, 98]" "2 ^ 30"] by simp
qed

text \<open>
  \<open>hextoi\<close> is the signed 32-bit reading of the hexadecimal number the digits of the string
  denote, most significant first, with every other character skipped.
\<close>

theorem hextoi_correct:
  assumes "no_nul s" and "v = hex_value (List.map_filter hex_digit s)"
  shows "hextoi (Some s) = sint (word_of_nat v :: u32)
    \<and> (v < 2 ^ 31 \<longrightarrow> hextoi (Some s) = int v)"
proof -
  have "hextoi (Some s) = sint (word_of_nat v :: u32)"
    using hextoi_loop_eq [OF assms(1), of 0] by (simp add: hextoi_def hex_value_def assms(2))
  moreover have "sint (word_of_nat v :: u32) = int v" if "v < 2 ^ 31"
    using int_of_size_small [OF that] by (simp add: int_of_size_def)
  ultimately show ?thesis by simp
qed

theorem hextoi_correct_witness:
  "hextoi (Some [48, 120, 49, 70]) = 31"
  using hextoi_correct [of "[48, 120, 49, 70]", OF _ refl]
  by (simp add: hex_value_def List.map_filter_def hex_digit_def)

end
