(* ===== verification/StrHash.thy ===== *)
theory StrHash
  imports CString
begin

unbundle bit_operations_syntax

text \<open>
  The hash functions of \<^verbatim>\<open>core/strutils.c\<close>. A hash is kept as the 32 bits of the \<^verbatim>\<open>int32_t\<close> (the
  arithmetic wraps, which is what the target machine computes); a \<^verbatim>\<open>char\<close> is sign-extended, a
  \<^verbatim>\<open>wchar_t\<close> has 32 bits. All functions share the loop
  \<^verbatim>\<open>for (i = 0; i < length; i += step)\<close>; a read outside the key has no result, and neither has a loop
  that does not end.
\<close>

subsection \<open>The hash functions\<close>

partial_function (option) hash_loop ::
  "('h \<Rightarrow> 'c \<Rightarrow> 'h) \<Rightarrow> 'c list \<Rightarrow> nat \<Rightarrow> nat \<Rightarrow> nat \<Rightarrow> 'h \<Rightarrow> 'h option" where
  "hash_loop f key len step i hash =
     (if i < len
      then (case array_get key i of
              None \<Rightarrow> None
            | Some c \<Rightarrow> hash_loop f key len step ((i + step) mod 2 ^ 64) (f hash c))
      else Some hash)"

definition hash_str_djb :: "bytes \<Rightarrow> nat \<Rightarrow> nat \<Rightarrow> u32 option" where
  "hash_str_djb key len step =
     hash_loop (\<lambda>hash c. (push_bit 5 hash + hash) + scast c) key len step 0 5381"

definition hash_wstr_djb :: "u32 list \<Rightarrow> nat \<Rightarrow> nat \<Rightarrow> u32 option" where
  "hash_wstr_djb key len step =
     hash_loop (\<lambda>hash c. (push_bit 5 hash + hash) + c) key len step 0 5381"

definition hash_str_sdbm :: "bytes \<Rightarrow> nat \<Rightarrow> nat \<Rightarrow> u32 option" where
  "hash_str_sdbm key len step =
     hash_loop (\<lambda>hash c. (push_bit 16 hash + push_bit 6 hash - hash) + scast c) key len step 0 0"

definition hash_wstr_sdbm :: "u32 list \<Rightarrow> nat \<Rightarrow> nat \<Rightarrow> u32 option" where
  "hash_wstr_sdbm key len step =
     hash_loop (\<lambda>hash c. (push_bit 16 hash + push_bit 6 hash - hash) + c) key len step 0 0"

text \<open>One round of the ELF hash, shared by the narrow and the wide function.\<close>

definition elf_round :: "u32 \<Rightarrow> u32 \<Rightarrow> u32" where
  "elf_round hash k =
     (let hash = push_bit 4 hash + k;
          top = hash AND 0xf0000000
      in if top \<noteq> 0
         then (let hash = hash XOR top in hash XOR drop_bit 24 top)
         else hash)"

definition hash_str_elf :: "bytes \<Rightarrow> nat \<Rightarrow> nat \<Rightarrow> u32 option" where
  "hash_str_elf key len step = hash_loop (\<lambda>hash c. elf_round hash (scast c)) key len step 0 0"

definition hash_wstr_elf :: "u32 list \<Rightarrow> nat \<Rightarrow> nat \<Rightarrow> u32 option" where
  "hash_wstr_elf key len step = hash_loop elf_round key len step 0 0"

definition hash_str_mulAdd :: "u32 \<Rightarrow> u32 \<Rightarrow> bytes \<Rightarrow> nat \<Rightarrow> nat \<Rightarrow> u32 option" where
  "hash_str_mulAdd init factor key len step =
     hash_loop (\<lambda>hash c. (hash * factor) + scast c) key len step 0 init"

definition hash_wstr_mulAdd :: "u32 \<Rightarrow> u32 \<Rightarrow> u32 list \<Rightarrow> nat \<Rightarrow> nat \<Rightarrow> u32 option" where
  "hash_wstr_mulAdd init factor key len step =
     hash_loop (\<lambda>hash c. (hash * factor) + c) key len step 0 init"

definition hash_str_mulXor :: "u32 \<Rightarrow> u32 \<Rightarrow> bytes \<Rightarrow> nat \<Rightarrow> nat \<Rightarrow> u32 option" where
  "hash_str_mulXor init factor key len step =
     hash_loop (\<lambda>hash c. (hash * factor) XOR scast c) key len step 0 init"

definition hash_wstr_mulXor :: "u32 \<Rightarrow> u32 \<Rightarrow> u32 list \<Rightarrow> nat \<Rightarrow> nat \<Rightarrow> u32 option" where
  "hash_wstr_mulXor init factor key len step =
     hash_loop (\<lambda>hash c. (hash * factor) XOR c) key len step 0 init"

definition hash_str_xorMul :: "u32 \<Rightarrow> u32 \<Rightarrow> bytes \<Rightarrow> nat \<Rightarrow> nat \<Rightarrow> u32 option" where
  "hash_str_xorMul init factor key len step =
     hash_loop (\<lambda>hash c. (hash XOR scast c) * factor) key len step 0 init"

definition hash_wstr_xorMul :: "u32 \<Rightarrow> u32 \<Rightarrow> u32 list \<Rightarrow> nat \<Rightarrow> nat \<Rightarrow> u32 option" where
  "hash_wstr_xorMul init factor key len step =
     hash_loop (\<lambda>hash c. (hash XOR c) * factor) key len step 0 init"

lemmas hash_defs = hash_str_djb_def hash_wstr_djb_def hash_str_sdbm_def hash_wstr_sdbm_def
  hash_str_elf_def hash_wstr_elf_def hash_str_mulAdd_def hash_wstr_mulAdd_def
  hash_str_mulXor_def hash_wstr_mulXor_def hash_str_xorMul_def hash_wstr_xorMul_def

subsection \<open>The characters a loop reads\<close>

text \<open>Every \<open>step\<close>-th element of a list, from the first.\<close>

function every :: "nat \<Rightarrow> 'c list \<Rightarrow> 'c list" where
  "every step [] = []"
| "every step (c # cs) = c # every step (drop (step - 1) cs)"
  by pat_completeness auto
termination by (relation "measure (length \<circ> snd)") auto

lemma every_1 [simp]: "every (Suc 0) cs = cs"
  by (induction cs) auto

lemma set_every: "set (every step cs) \<subseteq> set cs"
  by (induction step cs rule: every.induct) (auto dest: in_set_dropD)

lemma hash_loop_end: "\<not> i < len \<Longrightarrow> hash_loop f key len step i hash = Some hash"
  by (simp add: hash_loop.simps)

lemma hash_loop_next: "i < len \<Longrightarrow> i < length key \<Longrightarrow>
    hash_loop f key len step i hash = hash_loop f key len step ((i + step) mod 2 ^ 64) (f hash (key ! i))"
  by (simp add: hash_loop.simps)

lemma hash_loop_fold:
  assumes "0 < step" "len \<le> length key" "len + step \<le> 2 ^ 64"
  shows "hash_loop f key len step i hash = Some (fold (\<lambda>c h. f h c) (every step (drop i (take len key))) hash)"
proof (induction "len - i" arbitrary: i hash rule: less_induct)
  case less
  show ?case
  proof (cases "i < len")
    case True
    with assms have d: "drop i (take len key) = key ! i # drop (Suc i) (take len key)"
      by (subst Cons_nth_drop_Suc [symmetric]) auto
    have m: "(i + step) mod 2 ^ 64 = i + step" using True assms by simp
    have s: "Suc (i + (step - Suc 0)) = i + step" using assms by simp
    have "len - (i + step) < len - i" using True assms(1) by simp
    from less [OF this] True assms show ?thesis
      by (simp add: hash_loop_next m d s add.commute del: drop_take)
  qed (simp add: hash_loop_end)
qed

text \<open>With a step of zero the loop does not move.\<close>

lemma hash_loop_step_0:
  fixes f :: "'h \<Rightarrow> 'c \<Rightarrow> 'h"
  assumes "len \<le> length key" "i < len" "len \<le> 2 ^ 64"
  shows "hash_loop f key len 0 i hash = None"
proof -
  have "hash_loop f key len step i hash = Some r \<Longrightarrow>
      step = 0 \<longrightarrow> len \<le> length key \<longrightarrow> len \<le> 2 ^ 64 \<longrightarrow> \<not> i < len" for step r
    by (induct f key len step i hash r rule: hash_loop.raw_induct [rotated, consumes 1])
      (auto split: if_splits option.splits)
  with assms show ?thesis by (metis not_None_eq)
qed


subsection \<open>One round of the ELF hash\<close>

lemma bit_top_mask: "bit (0xf0000000 :: u32) n \<longleftrightarrow> 28 \<le> n \<and> n < 32"
proof -
  have "(0xf0000000 :: u32) = push_bit 28 (mask 4)" by (simp add: mask_eq_exp_minus_1)
  then show ?thesis by (simp only: bit_push_bit_iff bit_mask_iff) auto
qed

lemma elf_round_bound: "uint (elf_round h k) < 2 ^ 28"
proof -
  define x :: u32 where "x = push_bit 4 h + k"
  have r: "elf_round h k = (x XOR (x AND 0xf0000000)) XOR drop_bit 24 (x AND 0xf0000000)"
    unfolding elf_round_def Let_def x_def [symmetric]
    by (cases "x AND 0xf0000000 = 0") (simp_all only: if_True if_False not_True_eq_False not_False_eq_True
        xor.right_neutral drop_bit_of_0 simp_thms)
  have b: "bit (elf_round h k) n \<longleftrightarrow> n < 28 \<and> (bit x n \<noteq> (4 \<le> n \<and> n < 8 \<and> bit x (24 + n)))" for n
    unfolding r by (simp only: bit_xor_iff bit_and_iff bit_drop_bit_eq comp_def bit_top_mask)
      (auto dest: bit_imp_le_length)
  have "take_bit 28 (elf_round h k) = elf_round h k"
    by (rule bit_eqI) (simp add: bit_take_bit_iff b)
  then show ?thesis
    by (metis take_bit_int_less_exp unsigned_take_bit_eq)
qed

lemma fold_elf_bound: "uint h < 2 ^ 28 \<Longrightarrow> uint (fold (\<lambda>c h. elf_round h (g c)) cs h) < 2 ^ 28"
  by (induction cs arbitrary: h) (simp_all add: elf_round_bound [simplified])

lemma sint_of_small: "uint (h :: u32) < 2 ^ 31 \<Longrightarrow> sint h = uint h"
  unfolding sint_uint
  by (rule signed_take_bit_int_eq_self) (auto intro: order_trans [OF _ uint_ge_0])

subsection \<open>Properties\<close>

text \<open>
  Each hash is the fold of its round over every \<open>step\<close>-th character, from the first, of the
  \<open>len\<close> given ones; no character behind them is read. The DJB and sdbm hashes with their shifts are
  the multiplicative hash with factor 33 and 65599, so the wrap-around of the shifts loses nothing.
\<close>

theorem hashes_fold_characters:
  assumes "0 < step" "len + step \<le> 2 ^ 64" "len \<le> length key" "len \<le> length wkey"
  shows "hash_str_mulAdd i f key len step
      = Some (fold (\<lambda>c h. h * f + scast c) (every step (take len key)) i)
    \<and> hash_str_mulXor i f key len step
      = Some (fold (\<lambda>c h. (h * f) XOR scast c) (every step (take len key)) i)
    \<and> hash_str_xorMul i f key len step
      = Some (fold (\<lambda>c h. (h XOR scast c) * f) (every step (take len key)) i)
    \<and> hash_wstr_mulAdd i f wkey len step = Some (fold (\<lambda>c h. h * f + c) (every step (take len wkey)) i)
    \<and> hash_str_djb key len step = hash_str_mulAdd 5381 33 key len step
    \<and> hash_wstr_djb wkey len step = hash_wstr_mulAdd 5381 33 wkey len step
    \<and> hash_str_sdbm key len step = hash_str_mulAdd 0 65599 key len step
    \<and> hash_wstr_sdbm wkey len step = hash_wstr_mulAdd 0 65599 wkey len step"
proof -
  note fold = hash_loop_fold [OF assms(1,3,2), of _ 0] hash_loop_fold [OF assms(1,4,2), of _ 0]
  have djb: "push_bit 5 h + h = h * 33" for h :: u32 by (simp add: push_bit_eq_mult)
  have sdbm: "push_bit 16 h + push_bit 6 h - h = h * 65599" for h :: u32
    by (simp add: push_bit_eq_mult algebra_simps)
  show ?thesis by (simp add: hash_defs fold djb sdbm)
qed

theorem hashes_fold_characters_witness:
  "hash_str_djb [97, 255] 2 1 = Some ((5381 * 33 + 97) * 33 - 1)
   \<and> hash_str_mulXor 7 3 [97, 255] 2 2 = Some (21 XOR 97)"
  using hashes_fold_characters [of 1 2 "[97, 255]" "[0, 0]" 5381 33]
    hashes_fold_characters [of 2 2 "[97, 255]" "[0, 0]" 7 3]
  by simp

text \<open>
  The ELF hash always returns and keeps the top four bits of the hash zero, as its comments
  claim at the head and the end of its loop: the result fits 28 bits and is never negative, for
  any key, wide ones included.
\<close>

theorem elf_hash_28_bits:
  assumes "0 < step" "len + step \<le> 2 ^ 64" "len \<le> length key" "len \<le> length wkey"
  shows "(\<exists>h. hash_str_elf key len step = Some h \<and> uint h < 2 ^ 28 \<and> sint h = uint h)
    \<and> (\<exists>h. hash_wstr_elf wkey len step = Some h \<and> uint h < 2 ^ 28 \<and> sint h = uint h)"
  using fold_elf_bound [of 0 scast "every step (take len key)"]
    fold_elf_bound [of 0 "\<lambda>c. c" "every step (take len wkey)"]
  by (simp add: hash_defs hash_loop_fold [OF assms(1,3,2)] hash_loop_fold [OF assms(1,4,2)] sint_of_small)

theorem elf_hash_28_bits_witness:
  "\<exists>h. hash_str_elf [255, 255, 255] 3 1 = Some h \<and> uint h < 2 ^ 28 \<and> sint h = uint h"
  using elf_hash_28_bits [of 1 3 "[255, 255, 255]" "[0, 0, 0]"] by simp

text \<open>
  The functions do not guard their \<open>step\<close>: a step of zero never returns on a non-empty key,
  while on the empty key every step, zero included, returns the initial value.
\<close>

theorem hash_step_zero_diverges:
  assumes "0 < len" "len \<le> length key" "len \<le> 2 ^ 64"
  shows "hash_str_djb key len 0 = None \<and> hash_str_elf key len 0 = None \<and> hash_str_sdbm key len 0 = None
    \<and> hash_str_mulAdd i f key len 0 = None \<and> hash_str_mulXor i f key len 0 = None
    \<and> hash_str_xorMul i f key len 0 = None
    \<and> hash_str_mulAdd i f key 0 0 = Some i"
  using assms by (simp add: hash_defs hash_loop_step_0 hash_loop_end)

theorem hash_step_zero_diverges_witness: "hash_str_djb [97] 1 0 = None"
  using hash_step_zero_diverges [of 1 "[97]"] by simp

end
