(* ===== verification/StrFormat.thy ===== *)
theory StrFormat
  imports StrUtils
begin

text \<open>
  The string formatting functions at the end of \<^verbatim>\<open>core/strutils.c\<close>. \<^verbatim>\<open>vsnprintf\<close> is a parameter: for
  a format, an argument list and a buffer size it gives its return value and what it leaves in the
  buffer. \<open>alloc room\<close> says whether \<^verbatim>\<open>realloc\<close> can provide the size. An \<^verbatim>\<open>int\<close> overflow of the size, or
  printing into the \<^verbatim>\<open>NULL\<close> of a failed \<^verbatim>\<open>realloc\<close>, is undefined (\<open>None\<close>).
\<close>

subsection \<open>The functions\<close>

definition DEFAULT_FORMATMSG_SIZE :: int where
  "DEFAULT_FORMATMSG_SIZE = 512"

function format_loop :: "(int \<Rightarrow> bool) \<Rightarrow> (int \<Rightarrow> int \<times> bytes) \<Rightarrow> int \<Rightarrow> (int \<times> bytes) option" where
  "format_loop alloc vsnprintf room =
     (if int_overflows room \<or> \<not> alloc room then None
      else let (used, msg) = vsnprintf room in
        if used < 0 then format_loop alloc vsnprintf (room + DEFAULT_FORMATMSG_SIZE)
        else if used \<ge> room then format_loop alloc vsnprintf (used + 1)
        else Some (used, msg))"
  by pat_completeness auto
termination
  by (relation "measure (\<lambda>(_, _, room). nat (2 ^ 31 - room))")
    (auto simp: int_overflows_def DEFAULT_FORMATMSG_SIZE_def)

declare format_loop.simps [simp del]

text \<open>\<open>msg\<close> is the address to assign the string to; it is \<open>False\<close> for \<^verbatim>\<open>NULL\<close>.\<close>

definition vformatmsg_len ::
    "(int \<Rightarrow> bool) \<Rightarrow> ('f \<Rightarrow> 'v \<Rightarrow> int \<Rightarrow> int \<times> bytes) \<Rightarrow> bool \<Rightarrow> 'f \<Rightarrow> 'v \<Rightarrow> (int \<times> bytes option) option" where
  "vformatmsg_len alloc vsnprintf msg fmt ap =
     (if \<not> msg then Some (0, None)
      else map_option (\<lambda>(used, m). (used, Some m))
             (format_loop alloc (vsnprintf fmt ap) DEFAULT_FORMATMSG_SIZE))"

definition vformatmsg ::
    "(int \<Rightarrow> bool) \<Rightarrow> ('f \<Rightarrow> 'v \<Rightarrow> int \<Rightarrow> int \<times> bytes) \<Rightarrow> 'f \<Rightarrow> 'v \<Rightarrow> bytes option option" where
  "vformatmsg alloc vsnprintf fmt ap = map_option snd (vformatmsg_len alloc vsnprintf True fmt ap)"

definition formatmsg_len ::
    "(int \<Rightarrow> bool) \<Rightarrow> ('f \<Rightarrow> 'v \<Rightarrow> int \<Rightarrow> int \<times> bytes) \<Rightarrow> bool \<Rightarrow> 'f \<Rightarrow> 'v \<Rightarrow> (int \<times> bytes option) option" where
  "formatmsg_len alloc vsnprintf msg fmt ap =
     (let result = vformatmsg_len alloc vsnprintf msg fmt ap in result)"

definition formatmsg ::
    "(int \<Rightarrow> bool) \<Rightarrow> ('f \<Rightarrow> 'v \<Rightarrow> int \<Rightarrow> int \<times> bytes) \<Rightarrow> 'f \<Rightarrow> 'v \<Rightarrow> bytes option option" where
  "formatmsg alloc vsnprintf fmt ap = (let msg = vformatmsg alloc vsnprintf fmt ap in msg)"

subsection \<open>The two families of \<^verbatim>\<open>vsnprintf\<close>\<close>

text \<open>
  What the comments of the source say of \<^verbatim>\<open>vsnprintf\<close> when the complete output is \<open>out\<close>: with room
  for text and terminator both are written and the length is returned; otherwise a newer
  implementation returns the length all the same, an older one \<open>-1\<close>.
\<close>

locale vsnprintf_contract =
  fixes vsn :: "int \<Rightarrow> int \<times> bytes" and out :: bytes
  assumes fits: "int (length out) < room \<Longrightarrow> vsn room = (int (length out), out @ [0])"
    and truncated: "0 < room \<Longrightarrow> room \<le> int (length out) \<Longrightarrow> fst (vsn room) \<in> {int (length out), - 1}"
begin

lemma format_loop_returns:
  assumes "0 < room" and "int (length out) + 513 < 2 ^ 31" and "room \<le> int (length out) + 512"
    and "\<And>n. n \<le> int (length out) + 512 \<Longrightarrow> alloc n"
  shows "format_loop alloc vsn room = Some (int (length out), out @ [0])"
  using assms(1,3)
proof (induction "nat (int (length out) + 512 - room)" arbitrary: room rule: less_induct)
  case less
  have ov: "\<not> int_overflows room" using less.prems assms(2) by (simp add: int_overflows_def)
  show ?case
  proof (cases "int (length out) < room")
    case True
    then show ?thesis
      using less.prems assms(4) ov by (subst format_loop.simps) (simp add: fits)
  next
    case False
    obtain used m where v: "vsn room = (used, m)" by (cases "vsn room")
    with False truncated [of room] less.prems consider "used = int (length out)" | "used = - 1" by auto
    then show ?thesis
    proof cases
      case 1
      have "format_loop alloc vsn (int (length out) + 1) = Some (int (length out), out @ [0])"
        using less.hyps [of "int (length out) + 1"] False less.prems by simp
      with 1 v False less.prems assms(4) ov show ?thesis by (subst format_loop.simps) simp
    next
      case 2
      have "format_loop alloc vsn (room + 512) = Some (int (length out), out @ [0])"
        using less.hyps [of "room + 512"] False less.prems by simp
      with 2 v False less.prems assms(4) ov show ?thesis
        by (subst format_loop.simps) (simp add: DEFAULT_FORMATMSG_SIZE_def)
    qed
  qed
qed

end

definition vsnprintf_c99 :: "bytes \<Rightarrow> int \<Rightarrow> int \<times> bytes" where
  "vsnprintf_c99 out room = (int (length out), take (nat room - 1) out @ [0])"

definition vsnprintf_old :: "bytes \<Rightarrow> int \<Rightarrow> int \<times> bytes" where
  "vsnprintf_old out room =
     (if int (length out) < room then (int (length out), out @ [0]) else (-1, take (nat room) out))"

interpretation c99: vsnprintf_contract "vsnprintf_c99 out" out for out
  by unfold_locales (auto simp: vsnprintf_c99_def)

interpretation old: vsnprintf_contract "vsnprintf_old out" out for out
  by unfold_locales (auto simp: vsnprintf_old_def)

text \<open>A \<^verbatim>\<open>vsnprintf\<close> that reports an error for every size.\<close>

lemma format_loop_error:
  "(\<And>n. fst (vsn n) < 0) \<Longrightarrow> format_loop alloc vsn room = None"
proof (induction alloc vsn room rule: format_loop.induct)
  case (1 alloc vsn room)
  obtain used m where v: "vsn room = (used, m)" by (cases "vsn room")
  with 1(3) [of room] have "used < 0" by simp
  with 1 v show ?case by (subst format_loop.simps) simp
qed

subsection \<open>Properties\<close>

text \<open>
  (C28) With either family of \<^verbatim>\<open>vsnprintf\<close> the formatter returns the complete text with its
  terminator and its length, whatever the length, as long as the \<^verbatim>\<open>int\<close> size does not overflow and the
  memory can be had; without an address it returns zero and formats nothing.
\<close>

theorem formatmsg_complete:
  assumes contract: "vsnprintf fmt ap = vsnprintf_c99 t \<or> vsnprintf fmt ap = vsnprintf_old t"
    and "int (length t) + 513 < 2 ^ 31" and alloc: "\<forall>n \<le> max 512 (int (length t) + 512). alloc n"
  shows "vformatmsg_len alloc vsnprintf True fmt ap = Some (int (length t), Some (t @ [0]))
    \<and> formatmsg alloc vsnprintf fmt ap = Some (Some (t @ [0]))
    \<and> formatmsg_len alloc vsnprintf False fmt ap = Some (0, None)"
proof -
  have "format_loop alloc (vsnprintf fmt ap) 512 = Some (int (length t), t @ [0])"
    using contract
  proof
    assume "vsnprintf fmt ap = vsnprintf_c99 t"
    with assms(2,3) show ?thesis by (simp add: c99.format_loop_returns)
  next
    assume "vsnprintf fmt ap = vsnprintf_old t"
    with assms(2,3) show ?thesis by (simp add: old.format_loop_returns)
  qed
  then show ?thesis
    by (simp add: vformatmsg_len_def formatmsg_def vformatmsg_def formatmsg_len_def
        DEFAULT_FORMATMSG_SIZE_def)
qed

theorem formatmsg_complete_witness:
  "vformatmsg_len (\<lambda>_. True) (\<lambda>f a. vsnprintf_old [104, 105]) True () () = Some (2, Some [104, 105, 0])"
  using formatmsg_complete [of "\<lambda>f a. vsnprintf_old [104, 105]" "()" "()" "[104, 105]" "\<lambda>_. True"] by simp

text \<open>
  The loop takes every negative result for a truncation. When \<^verbatim>\<open>vsnprintf\<close> reports an error that
  does not go away with a larger buffer (an invalid wide character, say), it never returns a value:
  the size grows until it overflows or the memory is exhausted.
\<close>

theorem formatmsg_error_never_returns:
  assumes "\<forall>room. fst (vsnprintf fmt ap room) < 0"
  shows "vformatmsg_len alloc vsnprintf True fmt ap = None \<and> formatmsg alloc vsnprintf fmt ap = None"
  using format_loop_error [of "vsnprintf fmt ap" alloc DEFAULT_FORMATMSG_SIZE] assms
  by (simp add: vformatmsg_len_def formatmsg_def vformatmsg_def)

theorem formatmsg_error_never_returns_witness:
  "formatmsg (\<lambda>_. True) (\<lambda>f a room. (-1, [])) () () = None"
  using formatmsg_error_never_returns [of "\<lambda>f a room. (-1, [])" "()" "()"] by simp

end
