(* ===== verification/MsgpackPack.thy ===== *)
theory MsgpackPack
  imports CString
begin

unbundle bit_operations_syntax

text \<open>
  The serializer of \<^verbatim>\<open>msgpack-c\<close> the program packs its messages with: \<^verbatim>\<open>msgpack/pack.h\<close>,
  \<^verbatim>\<open>msgpack/pack_template.h\<close>, the byte order of \<^verbatim>\<open>msgpack/sysdep.h\<close>, and the wrappers of
  \<^verbatim>\<open>core/mpkutils.c\<close>. The target is little endian with \<^verbatim>\<open>short\<close>, \<^verbatim>\<open>int\<close>, \<^verbatim>\<open>long\<close> and \<^verbatim>\<open>long long\<close> of
  2, 4, 8 and 8 bytes and a signed \<^verbatim>\<open>char\<close>.
\<close>

subsection \<open>Big-endian bytes\<close>

text \<open>\<^verbatim>\<open>_msgpack_storeN\<close> writes a value in big-endian byte order, \<^verbatim>\<open>_msgpack_loadN\<close> reads it back;
  with fewer bytes than the value has, the read leaves the memory and has no result.\<close>

primrec be_store :: "nat \<Rightarrow> 'w::len word \<Rightarrow> bytes" where
  "be_store 0 w = []"
| "be_store (Suc n) w = ucast (drop_bit (8 * n) w) # be_store n w"

definition be_load :: "bytes \<Rightarrow> 'w::len word" where
  "be_load bs = foldl (\<lambda>a b. push_bit 8 a OR ucast b) 0 bs"

definition msgpack_store16 :: "u16 \<Rightarrow> bytes" where "msgpack_store16 num = be_store 2 num"
definition msgpack_store32 :: "u32 \<Rightarrow> bytes" where "msgpack_store32 num = be_store 4 num"
definition msgpack_store64 :: "u64 \<Rightarrow> bytes" where "msgpack_store64 num = be_store 8 num"

definition msgpack_load16 :: "bytes \<Rightarrow> u16 option" where
  "msgpack_load16 from = (if length from < 2 then None else Some (be_load (take 2 from)))"
definition msgpack_load32 :: "bytes \<Rightarrow> u32 option" where
  "msgpack_load32 from = (if length from < 4 then None else Some (be_load (take 4 from)))"
definition msgpack_load64 :: "bytes \<Rightarrow> u64 option" where
  "msgpack_load64 from = (if length from < 8 then None else Some (be_load (take 8 from)))"

lemma length_be_store [simp]: "length (be_store n w) = n"
  by (induction n) auto

lemma foldl_be_store:
  "8 * n \<le> LENGTH('w) \<Longrightarrow> foldl (\<lambda>a b. push_bit 8 a OR ucast b) (a :: 'w word) (be_store n w)
     = push_bit (8 * n) a OR take_bit (8 * n) (w :: 'w::len word)"
proof (induction n arbitrary: a)
  case (Suc n)
  have "push_bit (8 * n) (push_bit 8 a OR ucast (ucast (drop_bit (8 * n) w) :: u8)) OR take_bit (8 * n) w
      = push_bit (8 * Suc n) a OR take_bit (8 * Suc n) w"
    by (rule bit_eqI)
      (use Suc.prems in \<open>auto simp: bit_push_bit_iff bit_or_iff bit_take_bit_iff bit_ucast_iff bit_drop_bit_eq
        algebra_simps not_less\<close>)
  with Suc show ?case by simp
qed simp

lemma be_load_store [simp]:
  "be_load (be_store n w) = take_bit (8 * n) (w :: 'w::len word)" if "8 * n \<le> LENGTH('w)"
  using foldl_be_store [OF that, of 0 w] by (simp add: be_load_def)

lemma load_store [simp]:
  "msgpack_load16 (msgpack_store16 a @ rest) = Some a"
  "msgpack_load32 (msgpack_store32 b @ rest) = Some b"
  "msgpack_load64 (msgpack_store64 c @ rest) = Some c"
  by (simp_all add: msgpack_load16_def msgpack_load32_def msgpack_load64_def
      msgpack_store16_def msgpack_store32_def msgpack_store64_def take_bit_word_eq_self)

subsection \<open>The packer\<close>

text \<open>A write callback gives its return value and the new state of its data; \<open>None\<close> is undefined
  behaviour.\<close>

record 's msgpack_packer =
  pk_data :: 's
  pk_callback :: "'s \<Rightarrow> bytes \<Rightarrow> (int \<times> 's) option"

type_synonym 's packed = "(int \<times> 's msgpack_packer) option"

definition msgpack_packer_init :: "'s \<Rightarrow> ('s \<Rightarrow> bytes \<Rightarrow> (int \<times> 's) option) \<Rightarrow> 's msgpack_packer" where
  "msgpack_packer_init data callback = \<lparr> pk_data = data, pk_callback = callback \<rparr>"

definition msgpack_packer_new ::
    "bool \<Rightarrow> 's \<Rightarrow> ('s \<Rightarrow> bytes \<Rightarrow> (int \<times> 's) option) \<Rightarrow> 's msgpack_packer option" where
  "msgpack_packer_new calloc_ok data callback =
     (if \<not> calloc_ok then None else Some (msgpack_packer_init data callback))"

definition append_buffer :: "'s msgpack_packer \<Rightarrow> bytes \<Rightarrow> 's packed" where
  "append_buffer x buf =
     (case pk_callback x (pk_data x) buf of
        None \<Rightarrow> None
      | Some (ret, d) \<Rightarrow> Some (ret, x\<lparr>pk_data := d\<rparr>))"

text \<open>The next call of a sequence, which a negative result of the previous one ends.\<close>

definition and_then :: "'s packed \<Rightarrow> ('s msgpack_packer \<Rightarrow> 's packed) \<Rightarrow> 's packed" where
  "and_then r k = (case r of
     None \<Rightarrow> None
   | Some (ret, x) \<Rightarrow> if ret < 0 then Some (ret, x) else k x)"

subsection \<open>Integers\<close>

definition msgpack_pack_uint8 :: "'s msgpack_packer \<Rightarrow> u8 \<Rightarrow> 's packed" where
  "msgpack_pack_uint8 x d =
     (if d < 128 then append_buffer x [d]
      else append_buffer x [0xcc, d])"

definition msgpack_pack_uint16 :: "'s msgpack_packer \<Rightarrow> u16 \<Rightarrow> 's packed" where
  "msgpack_pack_uint16 x d =
     (if d < 128 then append_buffer x [ucast d]
      else if d < 256 then append_buffer x [0xcc, ucast d]
      else append_buffer x (0xcd # msgpack_store16 d))"

definition msgpack_pack_uint32 :: "'s msgpack_packer \<Rightarrow> u32 \<Rightarrow> 's packed" where
  "msgpack_pack_uint32 x d =
     (if d < 256
      then (if d < 128 then append_buffer x [ucast d]
            else append_buffer x [0xcc, ucast d])
      else if d < 65536 then append_buffer x (0xcd # msgpack_store16 (ucast d))
      else append_buffer x (0xce # msgpack_store32 d))"

definition msgpack_pack_uint64 :: "'s msgpack_packer \<Rightarrow> u64 \<Rightarrow> 's packed" where
  "msgpack_pack_uint64 x d =
     (if d < 256
      then (if d < 128 then append_buffer x [ucast d]
            else append_buffer x [0xcc, ucast d])
      else if d < 65536 then append_buffer x (0xcd # msgpack_store16 (ucast d))
      else if d < 4294967296 then append_buffer x (0xce # msgpack_store32 (ucast d))
      else append_buffer x (0xcf # msgpack_store64 d))"

definition msgpack_pack_int8 :: "'s msgpack_packer \<Rightarrow> u8 \<Rightarrow> 's packed" where
  "msgpack_pack_int8 x d =
     (if sint d < -32 then append_buffer x [0xd0, d]
      else append_buffer x [d])"

definition msgpack_pack_int16 :: "'s msgpack_packer \<Rightarrow> u16 \<Rightarrow> 's packed" where
  "msgpack_pack_int16 x d =
     (if sint d < -32
      then (if sint d < -128 then append_buffer x (0xd1 # msgpack_store16 d)
            else append_buffer x [0xd0, ucast d])
      else if sint d < 128 then append_buffer x [ucast d]
      else if sint d < 256 then append_buffer x [0xcc, ucast d]
      else append_buffer x (0xcd # msgpack_store16 d))"

definition msgpack_pack_int32 :: "'s msgpack_packer \<Rightarrow> u32 \<Rightarrow> 's packed" where
  "msgpack_pack_int32 x d =
     (if sint d < -32
      then (if sint d < -32768 then append_buffer x (0xd2 # msgpack_store32 d)
            else if sint d < -128 then append_buffer x (0xd1 # msgpack_store16 (ucast d))
            else append_buffer x [0xd0, ucast d])
      else if sint d < 128 then append_buffer x [ucast d]
      else if sint d < 256 then append_buffer x [0xcc, ucast d]
      else if sint d < 65536 then append_buffer x (0xcd # msgpack_store16 (ucast d))
      else append_buffer x (0xce # msgpack_store32 d))"

definition msgpack_pack_int64 :: "'s msgpack_packer \<Rightarrow> u64 \<Rightarrow> 's packed" where
  "msgpack_pack_int64 x d =
     (if sint d < -32
      then (if sint d < -32768
            then (if sint d < -2147483648 then append_buffer x (0xd3 # msgpack_store64 d)
                  else append_buffer x (0xd2 # msgpack_store32 (ucast d)))
            else (if sint d < -128 then append_buffer x (0xd1 # msgpack_store16 (ucast d))
                  else append_buffer x [0xd0, ucast d]))
      else if sint d < 128 then append_buffer x [ucast d]
      else if sint d < 65536
           then (if sint d < 256 then append_buffer x [0xcc, ucast d]
                 else append_buffer x (0xcd # msgpack_store16 (ucast d)))
           else (if sint d < 4294967296 then append_buffer x (0xce # msgpack_store32 (ucast d))
                 else append_buffer x (0xcf # msgpack_store64 d)))"

text \<open>The packers of the C integer types choose one of these by the size of the type.\<close>

definition msgpack_pack_char :: "'s msgpack_packer \<Rightarrow> u8 \<Rightarrow> 's packed" where
  "msgpack_pack_char x d = msgpack_pack_int8 x d"
definition msgpack_pack_signed_char :: "'s msgpack_packer \<Rightarrow> u8 \<Rightarrow> 's packed" where
  "msgpack_pack_signed_char x d = msgpack_pack_int8 x d"
definition msgpack_pack_unsigned_char :: "'s msgpack_packer \<Rightarrow> u8 \<Rightarrow> 's packed" where
  "msgpack_pack_unsigned_char x d = msgpack_pack_uint8 x d"
definition msgpack_pack_short :: "'s msgpack_packer \<Rightarrow> u16 \<Rightarrow> 's packed" where
  "msgpack_pack_short x d = msgpack_pack_int16 x d"
definition msgpack_pack_int :: "'s msgpack_packer \<Rightarrow> u32 \<Rightarrow> 's packed" where
  "msgpack_pack_int x d = msgpack_pack_int32 x d"
definition msgpack_pack_long :: "'s msgpack_packer \<Rightarrow> u64 \<Rightarrow> 's packed" where
  "msgpack_pack_long x d = msgpack_pack_int64 x d"
definition msgpack_pack_long_long :: "'s msgpack_packer \<Rightarrow> u64 \<Rightarrow> 's packed" where
  "msgpack_pack_long_long x d = msgpack_pack_int64 x d"
definition msgpack_pack_unsigned_short :: "'s msgpack_packer \<Rightarrow> u16 \<Rightarrow> 's packed" where
  "msgpack_pack_unsigned_short x d = msgpack_pack_uint16 x d"
definition msgpack_pack_unsigned_int :: "'s msgpack_packer \<Rightarrow> u32 \<Rightarrow> 's packed" where
  "msgpack_pack_unsigned_int x d = msgpack_pack_uint32 x d"
definition msgpack_pack_unsigned_long :: "'s msgpack_packer \<Rightarrow> u64 \<Rightarrow> 's packed" where
  "msgpack_pack_unsigned_long x d = msgpack_pack_uint64 x d"
definition msgpack_pack_unsigned_long_long :: "'s msgpack_packer \<Rightarrow> u64 \<Rightarrow> 's packed" where
  "msgpack_pack_unsigned_long_long x d = msgpack_pack_uint64 x d"

text \<open>The packers that keep the width.\<close>

definition msgpack_pack_fix_uint8 :: "'s msgpack_packer \<Rightarrow> u8 \<Rightarrow> 's packed" where
  "msgpack_pack_fix_uint8 x d = append_buffer x [0xcc, d]"
definition msgpack_pack_fix_uint16 :: "'s msgpack_packer \<Rightarrow> u16 \<Rightarrow> 's packed" where
  "msgpack_pack_fix_uint16 x d = append_buffer x (0xcd # msgpack_store16 d)"
definition msgpack_pack_fix_uint32 :: "'s msgpack_packer \<Rightarrow> u32 \<Rightarrow> 's packed" where
  "msgpack_pack_fix_uint32 x d = append_buffer x (0xce # msgpack_store32 d)"
definition msgpack_pack_fix_uint64 :: "'s msgpack_packer \<Rightarrow> u64 \<Rightarrow> 's packed" where
  "msgpack_pack_fix_uint64 x d = append_buffer x (0xcf # msgpack_store64 d)"
definition msgpack_pack_fix_int8 :: "'s msgpack_packer \<Rightarrow> u8 \<Rightarrow> 's packed" where
  "msgpack_pack_fix_int8 x d = append_buffer x [0xd0, d]"
definition msgpack_pack_fix_int16 :: "'s msgpack_packer \<Rightarrow> u16 \<Rightarrow> 's packed" where
  "msgpack_pack_fix_int16 x d = append_buffer x (0xd1 # msgpack_store16 d)"
definition msgpack_pack_fix_int32 :: "'s msgpack_packer \<Rightarrow> u32 \<Rightarrow> 's packed" where
  "msgpack_pack_fix_int32 x d = append_buffer x (0xd2 # msgpack_store32 d)"
definition msgpack_pack_fix_int64 :: "'s msgpack_packer \<Rightarrow> u64 \<Rightarrow> 's packed" where
  "msgpack_pack_fix_int64 x d = append_buffer x (0xd3 # msgpack_store64 d)"

subsection \<open>Floating point, nil and booleans\<close>

text \<open>A floating-point number is the bit pattern the union reads.\<close>

definition msgpack_pack_float :: "'s msgpack_packer \<Rightarrow> u32 \<Rightarrow> 's packed" where
  "msgpack_pack_float x d = append_buffer x (0xca # msgpack_store32 d)"
definition msgpack_pack_double :: "'s msgpack_packer \<Rightarrow> u64 \<Rightarrow> 's packed" where
  "msgpack_pack_double x d = append_buffer x (0xcb # msgpack_store64 d)"
definition msgpack_pack_nil :: "'s msgpack_packer \<Rightarrow> 's packed" where
  "msgpack_pack_nil x = append_buffer x [0xc0]"
definition msgpack_pack_true :: "'s msgpack_packer \<Rightarrow> 's packed" where
  "msgpack_pack_true x = append_buffer x [0xc3]"
definition msgpack_pack_false :: "'s msgpack_packer \<Rightarrow> 's packed" where
  "msgpack_pack_false x = append_buffer x [0xc2]"

subsection \<open>Headers of containers and strings\<close>

definition msgpack_pack_array :: "'s msgpack_packer \<Rightarrow> nat \<Rightarrow> 's packed" where
  "msgpack_pack_array x n =
     (if n < 16 then append_buffer x [0x90 OR word_of_nat n]
      else if n < 65536 then append_buffer x (0xdc # msgpack_store16 (word_of_nat n))
      else append_buffer x (0xdd # msgpack_store32 (word_of_nat n)))"

definition msgpack_pack_map :: "'s msgpack_packer \<Rightarrow> nat \<Rightarrow> 's packed" where
  "msgpack_pack_map x n =
     (if n < 16 then append_buffer x [0x80 OR word_of_nat n]
      else if n < 65536 then append_buffer x (0xde # msgpack_store16 (word_of_nat n))
      else append_buffer x (0xdf # msgpack_store32 (word_of_nat n)))"

definition msgpack_pack_str :: "'s msgpack_packer \<Rightarrow> nat \<Rightarrow> 's packed" where
  "msgpack_pack_str x l =
     (if l < 32 then append_buffer x [0xa0 OR word_of_nat l]
      else if l < 256 then append_buffer x [0xd9, word_of_nat l]
      else if l < 65536 then append_buffer x (0xda # msgpack_store16 (word_of_nat l))
      else append_buffer x (0xdb # msgpack_store32 (word_of_nat l)))"

definition msgpack_pack_v4raw :: "'s msgpack_packer \<Rightarrow> nat \<Rightarrow> 's packed" where
  "msgpack_pack_v4raw x l =
     (if l < 32 then append_buffer x [0xa0 OR word_of_nat l]
      else if l < 65536 then append_buffer x (0xda # msgpack_store16 (word_of_nat l))
      else append_buffer x (0xdb # msgpack_store32 (word_of_nat l)))"

definition msgpack_pack_bin :: "'s msgpack_packer \<Rightarrow> nat \<Rightarrow> 's packed" where
  "msgpack_pack_bin x l =
     (if l < 256 then append_buffer x [0xc4, word_of_nat l]
      else if l < 65536 then append_buffer x (0xc5 # msgpack_store16 (word_of_nat l))
      else append_buffer x (0xc6 # msgpack_store32 (word_of_nat l)))"

definition msgpack_pack_ext :: "'s msgpack_packer \<Rightarrow> nat \<Rightarrow> u8 \<Rightarrow> 's packed" where
  "msgpack_pack_ext x l ty =
     (if l = 1 then append_buffer x [0xd4, ty]
      else if l = 2 then append_buffer x [0xd5, ty]
      else if l = 4 then append_buffer x [0xd6, ty]
      else if l = 8 then append_buffer x [0xd7, ty]
      else if l = 16 then append_buffer x [0xd8, ty]
      else if l < 256 then append_buffer x [0xc7, word_of_nat l, ty]
      else if l < 65536 then append_buffer x (0xc8 # msgpack_store16 (word_of_nat l) @ [ty])
      else append_buffer x (0xc9 # msgpack_store32 (word_of_nat l) @ [ty]))"

text \<open>The bodies: \<open>l\<close> bytes from the given address; a read behind the memory is undefined.\<close>

definition pack_body :: "'s msgpack_packer \<Rightarrow> bytes \<Rightarrow> nat \<Rightarrow> 's packed" where
  "pack_body x b l = (if length b < l then None else append_buffer x (take l b))"

definition msgpack_pack_str_body :: "'s msgpack_packer \<Rightarrow> bytes \<Rightarrow> nat \<Rightarrow> 's packed" where
  "msgpack_pack_str_body x b l = pack_body x b l"
definition msgpack_pack_v4raw_body :: "'s msgpack_packer \<Rightarrow> bytes \<Rightarrow> nat \<Rightarrow> 's packed" where
  "msgpack_pack_v4raw_body x b l = pack_body x b l"
definition msgpack_pack_bin_body :: "'s msgpack_packer \<Rightarrow> bytes \<Rightarrow> nat \<Rightarrow> 's packed" where
  "msgpack_pack_bin_body x b l = pack_body x b l"
definition msgpack_pack_ext_body :: "'s msgpack_packer \<Rightarrow> bytes \<Rightarrow> nat \<Rightarrow> 's packed" where
  "msgpack_pack_ext_body x b l = pack_body x b l"

subsection \<open>Strings with a length (\<^verbatim>\<open>core/mpkutils.c\<close>)\<close>

text \<open>\<open>str\<close> is \<open>None\<close> for a \<^verbatim>\<open>NULL\<close> pointer.\<close>

definition msgpack_pack_lstring :: "'s msgpack_packer \<Rightarrow> bytes option \<Rightarrow> nat \<Rightarrow> 's packed" where
  "msgpack_pack_lstring pk str len =
     (let len = (case str of None \<Rightarrow> 0 | Some _ \<Rightarrow> len)
      in case msgpack_pack_str pk len of
           None \<Rightarrow> None
         | Some (result, pk') \<Rightarrow>
             if result < 0 \<or> len = 0 then Some (result, pk')
             else msgpack_pack_str_body pk' (the str) len)"

subsection \<open>Reference encoding of integers\<close>

text \<open>The \<open>n\<close> low bytes of an integer, the most significant first, and the shortest encoding of an
  integer in the MessagePack format.\<close>

primrec be_int :: "nat \<Rightarrow> int \<Rightarrow> bytes" where
  "be_int 0 v = []"
| "be_int (Suc n) v = word_of_int (v div 2 ^ (8 * n)) # be_int n v"

definition enc_int :: "int \<Rightarrow> bytes" where
  "enc_int v =
     (if - 32 \<le> v \<and> v < 128 then [word_of_int v]
      else if 0 \<le> v
      then (if v < 2 ^ 8 then 0xcc # be_int 1 v
            else if v < 2 ^ 16 then 0xcd # be_int 2 v
            else if v < 2 ^ 32 then 0xce # be_int 4 v
            else 0xcf # be_int 8 v)
      else (if - (2 ^ 7) \<le> v then 0xd0 # be_int 1 v
            else if - (2 ^ 15) \<le> v then 0xd1 # be_int 2 v
            else if - (2 ^ 31) \<le> v then 0xd2 # be_int 4 v
            else 0xd3 # be_int 8 v))"

lemma be_int_numeral [simp]: "be_int (numeral k) v
    = word_of_int (v div 2 ^ (8 * pred_numeral k)) # be_int (pred_numeral k) v"
  by (simp add: numeral_eq_Suc)

lemma length_be_int [simp]: "length (be_int n v) = n"
  by (induction n) auto

lemma be_int_Nil [simp]: "be_int n v = [] \<longleftrightarrow> n = 0"
  by (cases n) auto

lemma be_store_of_int:
  "8 * n \<le> LENGTH('w) \<Longrightarrow> be_store n (word_of_int v :: 'w::len word) = be_int n v"
proof (induction n)
  case (Suc n)
  have "ucast (drop_bit (8 * n) (word_of_int v :: 'w word)) = (word_of_int (v div 2 ^ (8 * n)) :: u8)"
    by (rule bit_eqI)
      (use Suc.prems in \<open>auto simp: bit_ucast_iff bit_drop_bit_eq bit_word_of_int_iff
        simp flip: drop_bit_eq_div\<close>)
  with Suc show ?case by simp
qed simp

lemma ucast_of_int: "LENGTH('b) \<le> LENGTH('a) \<Longrightarrow>
    (ucast (word_of_int v :: 'a::len word) :: 'b::len word) = word_of_int v"
  by (rule bit_eqI) (auto simp: bit_ucast_iff bit_word_of_int_iff)

lemma be_store_ucast:
  fixes w :: "'a::len word"
  assumes "8 * n \<le> LENGTH('b)" "LENGTH('b) \<le> LENGTH('a)" "word_of_int v = w"
  shows "be_store n (ucast w :: 'b::len word) = be_int n v"
  using assms(1,2) by (simp add: ucast_of_int be_store_of_int flip: assms(3))

lemma store_eq:
  assumes "word_of_int a = (d :: u16)" "word_of_int b = (e :: u32)" "word_of_int c = (g :: u64)"
  shows "be_store 2 d = be_int 2 a" "be_store 4 e = be_int 4 b" "be_store 8 g = be_int 8 c"
    "be_store 2 (ucast e :: u16) = be_int 2 b" "be_store 2 (ucast g :: u16) = be_int 2 c"
    "be_store 4 (ucast g :: u32) = be_int 4 c"
  using be_store_ucast [OF _ _ assms(1), of 2, where 'b = 16]
    be_store_ucast [OF _ _ assms(2), of 4, where 'b = 32] be_store_ucast [OF _ _ assms(3), of 8, where 'b = 64]
    be_store_ucast [OF _ _ assms(2), of 2, where 'b = 16] be_store_ucast [OF _ _ assms(3), of 2, where 'b = 16]
    be_store_ucast [OF _ _ assms(3), of 4, where 'b = 32]
  by simp_all

lemma word_sint_of_int: "word_of_int (sint w) = (w :: 'w::len word)"
  by simp

lemmas store_uint = store_eq [OF word_of_int_uint word_of_int_uint word_of_int_uint]
lemmas store_sint = store_eq [OF word_sint_of_int word_sint_of_int word_sint_of_int]

lemma ucast_u8_sint: "8 \<le> LENGTH('a) \<Longrightarrow> (ucast (w :: 'a::len word) :: u8) = word_of_int (sint w)"
  using ucast_of_int [of "sint w", where 'a = 'a and 'b = 8] by simp

lemmas store_defs = msgpack_store16_def msgpack_store32_def msgpack_store64_def

lemma be_int_1: "be_int 1 v = [word_of_int v]" by (simp)

lemma sint_ge_lt: "- (2 ^ (LENGTH('a) - 1)) \<le> sint (w :: 'a::len word)" "sint w < 2 ^ (LENGTH('a) - 1)"
  using sint_ge [of w] sint_lt [of w] by auto

lemma neg_le_uint [simp]: "- numeral k \<le> uint w"
  by (rule order_trans [OF _ uint_ge_0]) simp

lemma pack_uint_eq:
  "msgpack_pack_uint8 x a = append_buffer x (enc_int (uint a))"
  "msgpack_pack_uint16 x b = append_buffer x (enc_int (uint b))"
  "msgpack_pack_uint32 x c = append_buffer x (enc_int (uint c))"
  "msgpack_pack_uint64 x d = append_buffer x (enc_int (uint d))"
  subgoal using uint_lt2p [of a] by (simp add: msgpack_pack_uint8_def enc_int_def word_less_alt)
  subgoal using uint_lt2p [of b]
    by (simp add: msgpack_pack_uint16_def enc_int_def word_less_alt store_defs store_uint (1))
  subgoal using uint_lt2p [of c]
    by (simp add: msgpack_pack_uint32_def enc_int_def word_less_alt store_defs store_uint (2,4))
  subgoal using uint_lt2p [of d]
    by (simp add: msgpack_pack_uint64_def enc_int_def word_less_alt store_defs store_uint (3,5,6))
  done

lemma pack_int_eq:
  "msgpack_pack_int8 x a = append_buffer x (enc_int (sint a))"
  "msgpack_pack_int16 x b = append_buffer x (enc_int (sint b))"
  "msgpack_pack_int32 x c = append_buffer x (enc_int (sint c))"
  "msgpack_pack_int64 x d = append_buffer x (enc_int (sint d))"
  subgoal using sint_ge_lt [of a] by (auto simp: msgpack_pack_int8_def enc_int_def)
  subgoal using sint_ge_lt [of b]
    by (auto simp: msgpack_pack_int16_def enc_int_def store_defs store_sint (1) ucast_u8_sint)
  subgoal using sint_ge_lt [of c]
    by (auto simp: msgpack_pack_int32_def enc_int_def store_defs store_sint (2,4) ucast_u8_sint)
  subgoal using sint_ge_lt [of d]
    by (auto simp: msgpack_pack_int64_def enc_int_def store_defs store_sint (3,5,6) ucast_u8_sint)
  done

end
