(* ===== verification/MsgpackObject.thy ===== *)
theory MsgpackObject
  imports MsgpackPack
begin

unbundle bit_operations_syntax

text \<open>
  The dynamically typed objects of \<^verbatim>\<open>msgpack-c\<close>: \<^verbatim>\<open>msgpack/object.h\<close> and \<^verbatim>\<open>src/objectc.c\<close> with the
  recursive serializer, the comparison and the printer. A pointer with its size is a list, a
  floating-point number its bit pattern; an invalid type tag has no object, so that the branches of the
  functions for such a tag have no counterpart.
\<close>

subsection \<open>Objects\<close>

datatype msgpack_object =
    OBJECT_NIL
  | OBJECT_BOOLEAN bool
  | OBJECT_POSITIVE_INTEGER u64
  | OBJECT_NEGATIVE_INTEGER u64
  | OBJECT_FLOAT u64
  | OBJECT_STR bytes
  | OBJECT_ARRAY "msgpack_object list"
  | OBJECT_MAP "(msgpack_object \<times> msgpack_object) list"
  | OBJECT_BIN bytes
  | OBJECT_EXT u8 bytes

text \<open>The size fields have 32 bits, and a negative integer is negative.\<close>

fun object_ok :: "msgpack_object \<Rightarrow> bool" where
  "object_ok (OBJECT_NEGATIVE_INTEGER i) \<longleftrightarrow> sint i < 0"
| "object_ok (OBJECT_STR s) \<longleftrightarrow> length s < 2 ^ 32"
| "object_ok (OBJECT_BIN s) \<longleftrightarrow> length s < 2 ^ 32"
| "object_ok (OBJECT_EXT t s) \<longleftrightarrow> length s < 2 ^ 32"
| "object_ok (OBJECT_ARRAY os) \<longleftrightarrow> length os < 2 ^ 32 \<and> (\<forall>ob \<in> set os. object_ok ob)"
| "object_ok (OBJECT_MAP kvs) \<longleftrightarrow>
     length kvs < 2 ^ 32 \<and> (\<forall>kv \<in> set kvs. object_ok (fst kv) \<and> object_ok (snd kv))"
| "object_ok _ \<longleftrightarrow> True"

abbreviation size_pairs :: "(msgpack_object \<times> msgpack_object) list \<Rightarrow> nat" where
  "size_pairs kvs \<equiv> size_list (size_prod size size) kvs"

subsection \<open>Serialization\<close>

function msgpack_pack_object :: "'s msgpack_packer \<Rightarrow> msgpack_object \<Rightarrow> 's packed"
  and pack_elements :: "'s msgpack_packer \<Rightarrow> msgpack_object list \<Rightarrow> 's packed"
  and pack_pairs :: "'s msgpack_packer \<Rightarrow> (msgpack_object \<times> msgpack_object) list \<Rightarrow> 's packed" where
  "msgpack_pack_object pk d = (case d of
     OBJECT_NIL \<Rightarrow> msgpack_pack_nil pk
   | OBJECT_BOOLEAN b \<Rightarrow> if b then msgpack_pack_true pk else msgpack_pack_false pk
   | OBJECT_POSITIVE_INTEGER u \<Rightarrow> msgpack_pack_uint64 pk u
   | OBJECT_NEGATIVE_INTEGER i \<Rightarrow> msgpack_pack_int64 pk i
   | OBJECT_FLOAT f \<Rightarrow> msgpack_pack_double pk f
   | OBJECT_STR s \<Rightarrow>
       and_then (msgpack_pack_str pk (length s)) (\<lambda>pk. msgpack_pack_str_body pk s (length s))
   | OBJECT_BIN s \<Rightarrow>
       and_then (msgpack_pack_bin pk (length s)) (\<lambda>pk. msgpack_pack_bin_body pk s (length s))
   | OBJECT_EXT t s \<Rightarrow>
       and_then (msgpack_pack_ext pk (length s) t) (\<lambda>pk. msgpack_pack_ext_body pk s (length s))
   | OBJECT_ARRAY os \<Rightarrow>
       and_then (msgpack_pack_array pk (length os)) (\<lambda>pk. pack_elements pk os)
   | OBJECT_MAP kvs \<Rightarrow>
       and_then (msgpack_pack_map pk (length kvs)) (\<lambda>pk. pack_pairs pk kvs))"
| "pack_elements pk [] = Some (0, pk)"
| "pack_elements pk (ob # os) =
     and_then (msgpack_pack_object pk ob) (\<lambda>pk. pack_elements pk os)"
| "pack_pairs pk [] = Some (0, pk)"
| "pack_pairs pk ((k, v) # kvs) =
     and_then (msgpack_pack_object pk k) (\<lambda>pk.
       and_then (msgpack_pack_object pk v) (\<lambda>pk. pack_pairs pk kvs))"
  by pat_completeness auto
termination
  by (relation "measure (\<lambda>a. case a of
        Inl (_, d) \<Rightarrow> size d
      | Inr (Inl (_, os)) \<Rightarrow> size_list size os
      | Inr (Inr (_, kvs)) \<Rightarrow> size_pairs kvs)") auto

declare msgpack_pack_object.simps [simp del]

subsection \<open>Comparison\<close>

text \<open>The comparison of two \<^verbatim>\<open>double\<close> values: a NaN is different from everything, the two zeros are
  equal, and otherwise the bit patterns decide.\<close>

definition f64_nan :: "u64 \<Rightarrow> bool" where
  "f64_nan f \<longleftrightarrow> uint (f AND 0x7fffffffffffffff) > 0x7ff0000000000000"

definition f64_eq :: "u64 \<Rightarrow> u64 \<Rightarrow> bool" where
  "f64_eq x y \<longleftrightarrow> \<not> f64_nan x \<and> \<not> f64_nan y \<and>
     (x = y \<or> (x AND 0x7fffffffffffffff = 0 \<and> y AND 0x7fffffffffffffff = 0))"

definition memcmp_eq :: "bytes \<Rightarrow> bytes \<Rightarrow> nat \<Rightarrow> bool" where
  "memcmp_eq x y n \<longleftrightarrow> take n x = take n y"

function msgpack_object_equal :: "msgpack_object \<Rightarrow> msgpack_object \<Rightarrow> bool"
  and equal_elements :: "msgpack_object list \<Rightarrow> msgpack_object list \<Rightarrow> bool"
  and equal_pairs :: "(msgpack_object \<times> msgpack_object) list \<Rightarrow> (msgpack_object \<times> msgpack_object) list \<Rightarrow> bool"
  where
  "msgpack_object_equal x y = (case (x, y) of
     (OBJECT_NIL, OBJECT_NIL) \<Rightarrow> True
   | (OBJECT_BOOLEAN a, OBJECT_BOOLEAN b) \<Rightarrow> a = b
   | (OBJECT_POSITIVE_INTEGER a, OBJECT_POSITIVE_INTEGER b) \<Rightarrow> a = b
   | (OBJECT_NEGATIVE_INTEGER a, OBJECT_NEGATIVE_INTEGER b) \<Rightarrow> a = b
   | (OBJECT_FLOAT a, OBJECT_FLOAT b) \<Rightarrow> f64_eq a b
   | (OBJECT_STR a, OBJECT_STR b) \<Rightarrow> length a = length b \<and> memcmp_eq a b (length a)
   | (OBJECT_BIN a, OBJECT_BIN b) \<Rightarrow> length a = length b \<and> memcmp_eq a b (length a)
   | (OBJECT_EXT t a, OBJECT_EXT u b) \<Rightarrow> length a = length b \<and> t = u \<and> memcmp_eq a b (length a)
   | (OBJECT_ARRAY as, OBJECT_ARRAY bs) \<Rightarrow>
       if length as \<noteq> length bs then False else if length as = 0 then True else equal_elements as bs
   | (OBJECT_MAP as, OBJECT_MAP bs) \<Rightarrow>
       if length as \<noteq> length bs then False else if length as = 0 then True else equal_pairs as bs
   | _ \<Rightarrow> False)"
| "equal_elements (x # xs) (y # ys) =
     (if \<not> msgpack_object_equal x y then False else equal_elements xs ys)"
| "equal_elements [] ys = True"
| "equal_elements (x # xs) [] = True"
| "equal_pairs ((xk, xv) # xs) ((yk, yv) # ys) =
     (if \<not> msgpack_object_equal xk yk \<or> \<not> msgpack_object_equal xv yv then False else equal_pairs xs ys)"
| "equal_pairs [] ys = True"
| "equal_pairs (x # xs) [] = True"
  by pat_completeness auto
termination
  by (relation "measure (\<lambda>a. case a of
        Inl (x, _) \<Rightarrow> size x
      | Inr (Inl (xs, _)) \<Rightarrow> size_list size xs
      | Inr (Inr (xs, _)) \<Rightarrow> size_pairs xs)") auto

declare msgpack_object_equal.simps [simp del]

subsection \<open>Printing\<close>

text \<open>The decimal digits of \<^verbatim>\<open>PRIu64\<close> and \<^verbatim>\<open>PRIi64\<close>; the output of \<^verbatim>\<open>%f\<close> is a parameter.\<close>

fun print_nat :: "nat \<Rightarrow> bytes" where
  "print_nat n = (if n < 10 then [48 + word_of_nat n] else print_nat (n div 10) @ [48 + word_of_nat (n mod 10)])"

declare print_nat.simps [simp del]

definition print_int :: "int \<Rightarrow> bytes" where
  "print_int i = (if i < 0 then 45 # print_nat (nat (- i)) else print_nat (nat i))"

function msgpack_object_print :: "(u64 \<Rightarrow> bytes) \<Rightarrow> bytes \<Rightarrow> msgpack_object \<Rightarrow> bytes"
  and print_rest :: "(u64 \<Rightarrow> bytes) \<Rightarrow> bytes \<Rightarrow> msgpack_object list \<Rightarrow> bytes"
  and print_rest_pairs :: "(u64 \<Rightarrow> bytes) \<Rightarrow> bytes \<Rightarrow> (msgpack_object \<times> msgpack_object) list \<Rightarrow> bytes" where
  "msgpack_object_print fmt_f out ob = (case ob of
     OBJECT_NIL \<Rightarrow> out @ [110, 105, 108]
   | OBJECT_BOOLEAN b \<Rightarrow> out @ (if b then [116, 114, 117, 101] else [102, 97, 108, 115, 101])
   | OBJECT_POSITIVE_INTEGER u \<Rightarrow> out @ print_int (uint u)
   | OBJECT_NEGATIVE_INTEGER i \<Rightarrow> out @ print_int (sint i)
   | OBJECT_FLOAT f \<Rightarrow> out @ fmt_f f
   | OBJECT_STR s \<Rightarrow> out @ [34] @ s @ [34]
   | OBJECT_BIN s \<Rightarrow> out @ [34] @ s @ [34]
   | OBJECT_EXT t s \<Rightarrow> out @ [40, 101, 120, 116, 58, 32] @ print_int (sint t) @ [41] @ [34] @ s @ [34]
   | OBJECT_ARRAY os \<Rightarrow>
       (case os of
          [] \<Rightarrow> out @ [91] @ [93]
        | p # ps \<Rightarrow> print_rest fmt_f (msgpack_object_print fmt_f (out @ [91]) p) ps @ [93])
   | OBJECT_MAP kvs \<Rightarrow>
       (case kvs of
          [] \<Rightarrow> out @ [123] @ [125]
        | (k, v) # ps \<Rightarrow>
            print_rest_pairs fmt_f
              (msgpack_object_print fmt_f (msgpack_object_print fmt_f (out @ [123]) k @ [61, 62]) v) ps
            @ [125]))"
| "print_rest fmt_f out [] = out"
| "print_rest fmt_f out (p # ps) = print_rest fmt_f (msgpack_object_print fmt_f (out @ [44, 32]) p) ps"
| "print_rest_pairs fmt_f out [] = out"
| "print_rest_pairs fmt_f out ((k, v) # ps) =
     print_rest_pairs fmt_f
       (msgpack_object_print fmt_f (msgpack_object_print fmt_f (out @ [44, 32]) k @ [61, 62]) v) ps"
  by pat_completeness auto
termination
  by (relation "measure (\<lambda>a. case a of
        Inl (_, _, d) \<Rightarrow> size d
      | Inr (Inl (_, _, os)) \<Rightarrow> size_list size os
      | Inr (Inr (_, _, kvs)) \<Rightarrow> size_pairs kvs)") auto

declare msgpack_object_print.simps [simp del]

lemma print_prepend:
  "msgpack_object_print f (x @ out) ob = x @ msgpack_object_print f out ob"
  "print_rest f (x @ out) os = x @ print_rest f out os"
  "print_rest_pairs f (x @ out) kvs = x @ print_rest_pairs f out kvs"
proof (induction f out ob and f out os and f out kvs arbitrary: x and x and x
    rule: msgpack_object_print_print_rest_print_rest_pairs.induct)
  case (1 f out ob)
  show ?case
  proof (cases ob)
    case (OBJECT_ARRAY os)
    then show ?thesis using 1(1,2) by (cases os) (simp_all add: msgpack_object_print.simps [of f _ "OBJECT_ARRAY _"])
  next
    case (OBJECT_MAP kvs)
    then show ?thesis using 1(3,4,5)
      by (cases kvs) (auto simp add: msgpack_object_print.simps [of f _ "OBJECT_MAP _"])
  qed (simp_all add: msgpack_object_print.simps)
qed simp_all

lemma print_appends: "msgpack_object_print f out ob = out @ msgpack_object_print f [] ob"
  using print_prepend(1) [of f out "[]"] by simp
subsection \<open>The MessagePack encoding of an object\<close>

definition hdr_array :: "nat \<Rightarrow> bytes" where
  "hdr_array n = (if n < 16 then [0x90 + word_of_nat n]
     else if n < 2 ^ 16 then 0xdc # be_int 2 (int n) else 0xdd # be_int 4 (int n))"

definition hdr_map :: "nat \<Rightarrow> bytes" where
  "hdr_map n = (if n < 16 then [0x80 + word_of_nat n]
     else if n < 2 ^ 16 then 0xde # be_int 2 (int n) else 0xdf # be_int 4 (int n))"

definition hdr_str :: "nat \<Rightarrow> bytes" where
  "hdr_str n = (if n < 32 then [0xa0 + word_of_nat n]
     else if n < 2 ^ 8 then 0xd9 # be_int 1 (int n)
     else if n < 2 ^ 16 then 0xda # be_int 2 (int n) else 0xdb # be_int 4 (int n))"

definition hdr_bin :: "nat \<Rightarrow> bytes" where
  "hdr_bin n = (if n < 2 ^ 8 then 0xc4 # be_int 1 (int n)
     else if n < 2 ^ 16 then 0xc5 # be_int 2 (int n) else 0xc6 # be_int 4 (int n))"

definition hdr_ext :: "nat \<Rightarrow> u8 \<Rightarrow> bytes" where
  "hdr_ext n t = (if n = 1 then [0xd4, t] else if n = 2 then [0xd5, t] else if n = 4 then [0xd6, t]
     else if n = 8 then [0xd7, t] else if n = 16 then [0xd8, t]
     else if n < 2 ^ 8 then 0xc7 # be_int 1 (int n) @ [t]
     else if n < 2 ^ 16 then 0xc8 # be_int 2 (int n) @ [t] else 0xc9 # be_int 4 (int n) @ [t])"

function enc_obj :: "msgpack_object \<Rightarrow> bytes" where
  "enc_obj OBJECT_NIL = [0xc0]"
| "enc_obj (OBJECT_BOOLEAN b) = [if b then 0xc3 else 0xc2]"
| "enc_obj (OBJECT_POSITIVE_INTEGER u) = enc_int (uint u)"
| "enc_obj (OBJECT_NEGATIVE_INTEGER i) = enc_int (sint i)"
| "enc_obj (OBJECT_FLOAT f) = 0xcb # be_store 8 f"
| "enc_obj (OBJECT_STR s) = hdr_str (length s) @ s"
| "enc_obj (OBJECT_BIN s) = hdr_bin (length s) @ s"
| "enc_obj (OBJECT_EXT t s) = hdr_ext (length s) t @ s"
| "enc_obj (OBJECT_ARRAY os) = hdr_array (length os) @ concat (map enc_obj os)"
| "enc_obj (OBJECT_MAP kvs) = hdr_map (length kvs) @ concat (map (\<lambda>kv. enc_obj (fst kv) @ enc_obj (snd kv)) kvs)"
  by pat_completeness auto
termination
proof (relation "measure size"; clarsimp)
  show "ob \<in> set os \<Longrightarrow> size ob < Suc (size_list size os)" for ob and os :: "msgpack_object list"
    by (simp add: less_Suc_eq_le size_list_estimation')
  show "(k, v) \<in> set kvs \<Longrightarrow> size k < Suc (size_pairs kvs)"
    and "(k, v) \<in> set kvs \<Longrightarrow> size v < Suc (size_pairs kvs)" for k v kvs
    using size_list_estimation' [of "(k, v)" kvs _ "size_prod size size"]
    by (auto simp: less_Suc_eq_le)
qed

lemma or_small:
  "n < 16 \<Longrightarrow> (0x90 :: u8) OR word_of_nat n = 0x90 + word_of_nat n"
  "n < 16 \<Longrightarrow> (0x80 :: u8) OR word_of_nat n = 0x80 + word_of_nat n"
  "l < 32 \<Longrightarrow> (0xa0 :: u8) OR word_of_nat l = 0xa0 + word_of_nat l"
proof -
  have disj: "k + w = k OR w" if "k AND w = 0" for k w :: u8
  proof (rule disjunctive_add)
    fix n
    have "\<not> bit (k AND w) n" using that by simp
    then show "\<not> bit k n \<or> \<not> bit w n" by (simp add: bit_and_iff)
  qed
  have "\<forall>n<16. (0x90 :: u8) AND word_of_nat n = 0 \<and> (0x80 :: u8) AND word_of_nat n = 0"
    by (simp add: All_less_Suc numeral_eq_Suc)
  then show "n < 16 \<Longrightarrow> (0x90 :: u8) OR word_of_nat n = 0x90 + word_of_nat n"
    "n < 16 \<Longrightarrow> (0x80 :: u8) OR word_of_nat n = 0x80 + word_of_nat n" by (simp_all add: disj)
  have "\<forall>n<32. (0xa0 :: u8) AND word_of_nat n = 0"
    by (simp add: All_less_Suc numeral_eq_Suc)
  then show "l < 32 \<Longrightarrow> (0xa0 :: u8) OR word_of_nat l = 0xa0 + word_of_nat l" by (simp add: disj)
qed

lemma be_store_nat: "8 * n \<le> LENGTH('w) \<Longrightarrow> be_store n (word_of_nat v :: 'w::len word) = be_int n (int v)"
  using be_store_of_int [of n "int v", where 'w = 'w] by simp

lemma pack_header_eq:
  "msgpack_pack_array x n = append_buffer x (hdr_array n)"
  "msgpack_pack_map x n = append_buffer x (hdr_map n)"
  "msgpack_pack_str x n = append_buffer x (hdr_str n)"
  "msgpack_pack_bin x n = append_buffer x (hdr_bin n)"
  "msgpack_pack_ext x n t = append_buffer x (hdr_ext n t)"
  by (simp_all add: msgpack_pack_array_def msgpack_pack_map_def msgpack_pack_str_def msgpack_pack_bin_def
      msgpack_pack_ext_def hdr_array_def hdr_map_def hdr_str_def hdr_bin_def hdr_ext_def store_defs
      be_store_nat or_small)

end
