(* ===== verification/MsgpackSink.thy ===== *)
theory MsgpackSink
  imports MsgpackObject
begin

text \<open>
  What the serializer relies on: a sink is a buffer with a write operation that either appends the
  bytes it is given and returns zero, or keeps the content and returns a negative value. The
  serialization of an object is proved once for every sink; the buffers of \<^verbatim>\<open>msgpack-c\<close> are its
  instances.
\<close>

subsection \<open>What a packer call has written\<close>

text \<open>A call that succeeds has appended exactly the bytes; a call that fails has appended a prefix of them,
  and the sink has refused a piece that comes next.\<close>

definition packs ::
    "('s \<Rightarrow> bytes \<Rightarrow> (int \<times> 's) option) \<Rightarrow> ('s \<Rightarrow> bytes) \<Rightarrow> ('s \<Rightarrow> bool) \<Rightarrow>
     's msgpack_packer \<Rightarrow> bytes \<Rightarrow> 's packed \<Rightarrow> bool" where
  "packs wr content good x bs res \<longleftrightarrow>
     (\<exists>r x'. res = Some (r, x') \<and> pk_callback x' = wr \<and> good (pk_data x') \<and> r \<le> 0 \<and>
       (if r = 0 then content (pk_data x') = content (pk_data x) @ bs
        else \<exists>p b. prefix (p @ b) bs \<and> content (pk_data x') = content (pk_data x) @ p
          \<and> (\<exists>s. wr (pk_data x') b = Some (r, s))))"

lemma packs_and_then:
  assumes "packs wr content good x bs (f x)"
    and "\<And>x'. pk_callback x' = wr \<Longrightarrow> good (pk_data x') \<Longrightarrow> packs wr content good x' cs (g x')"
  shows "packs wr content good x (bs @ cs) (and_then (f x) g)"
proof -
  from assms(1) obtain r x' where r: "f x = Some (r, x')" "pk_callback x' = wr" "good (pk_data x')" "r \<le> 0"
    and c: "if r = 0 then content (pk_data x') = content (pk_data x) @ bs
      else \<exists>p b. prefix (p @ b) bs \<and> content (pk_data x') = content (pk_data x) @ p
        \<and> (\<exists>s. wr (pk_data x') b = Some (r, s))"
    unfolding packs_def by blast
  show ?thesis
  proof (cases "r = 0")
    case False
    with r c show ?thesis by (fastforce simp: packs_def and_then_def intro: prefix_prefix)
  next
    case True
    from assms(2) [OF r(2,3)] obtain q y where y: "g x' = Some (q, y)" "pk_callback y = wr" "good (pk_data y)" "q \<le> 0"
      and d: "if q = 0 then content (pk_data y) = content (pk_data x') @ cs
        else \<exists>p b. prefix (p @ b) cs \<and> content (pk_data y) = content (pk_data x') @ p
          \<and> (\<exists>s. wr (pk_data y) b = Some (q, s))"
      unfolding packs_def by blast
    have fg: "and_then (f x) g = Some (q, y)" using True r(1) y(1) by (simp add: and_then_def)
    have cx: "content (pk_data x') = content (pk_data x) @ bs" using True c by simp
    show ?thesis
    proof (cases "q = 0")
      case True
      with fg cx y d show ?thesis by (auto simp: packs_def)
    next
      case False
      with d obtain p b where p: "prefix (p @ b) cs" "content (pk_data y) = content (pk_data x') @ p"
        "\<exists>s. wr (pk_data y) b = Some (q, s)" by auto
      then have "prefix ((bs @ p) @ b) (bs @ cs)" by simp
      with fg cx y False p(2,3) show ?thesis
        unfolding packs_def by (intro exI [of _ q] exI [of _ y]) (auto intro!: exI [of _ "bs @ p"] exI [of _ b])
    qed
  qed
qed

lemma packs_nothing: "pk_callback x = wr \<Longrightarrow> good (pk_data x) \<Longrightarrow> packs wr content good x [] (Some (0, x))"
  by (simp add: packs_def)

lemma packsD:
  assumes "packs wr content good x bs res"
  obtains r x' where "res = Some (r, x')" "good (pk_data x')"
    "r = 0 \<and> content (pk_data x') = content (pk_data x) @ bs
     \<or> r < 0 \<and> (\<exists>p. prefix p bs \<and> content (pk_data x') = content (pk_data x) @ p)"
  using assms unfolding packs_def by (auto split: if_splits dest!: append_prefixD)

text \<open>A sink that takes every piece of the bytes takes them all.\<close>

lemma packs_all:
  assumes "packs wr content good x bs res"
    and "\<And>s p b. good s \<Longrightarrow> content s = content (pk_data x) @ p \<Longrightarrow> prefix (p @ b) bs \<Longrightarrow> \<exists>s'. wr s b = Some (0, s')"
  shows "\<exists>x'. res = Some (0, x') \<and> pk_callback x' = wr \<and> good (pk_data x') \<and> content (pk_data x') = content (pk_data x) @ bs"
proof -
  from assms(1) obtain r x' where r: "res = Some (r, x')" "pk_callback x' = wr" "good (pk_data x')"
    and c: "if r = 0 then content (pk_data x') = content (pk_data x) @ bs
      else \<exists>p b. prefix (p @ b) bs \<and> content (pk_data x') = content (pk_data x) @ p
        \<and> (\<exists>s. wr (pk_data x') b = Some (r, s))"
    unfolding packs_def by blast
  have "r = 0"
  proof (rule ccontr)
    assume "r \<noteq> 0"
    with c obtain p b s where "prefix (p @ b) bs" "content (pk_data x') = content (pk_data x) @ p"
      "wr (pk_data x') b = Some (r, s)" by auto
    with assms(2) [OF r(3), of p b] \<open>r \<noteq> 0\<close> show False by simp
  qed
  with r c show ?thesis by simp
qed

subsection \<open>Sinks\<close>

locale packet_sink =
  fixes wr :: "'s \<Rightarrow> bytes \<Rightarrow> (int \<times> 's) option"
    and content :: "'s \<Rightarrow> bytes"
    and good :: "'s \<Rightarrow> bool"
  assumes wr_law: "good s \<Longrightarrow> length b < 2 ^ 32 \<Longrightarrow>
    \<exists>r s'. wr s b = Some (r, s') \<and> good s' \<and> r \<le> 0
      \<and> content s' = (if r = 0 then content s @ b else content s) \<and> (r \<noteq> 0 \<longrightarrow> s' = s)"
begin

lemma append_buffer_packs:
  assumes "pk_callback x = wr" "good (pk_data x)" "length b < 2 ^ 32"
  shows "packs wr content good x b (append_buffer x b)"
proof -
  from wr_law [OF assms(2,3)] obtain r s' where r: "wr (pk_data x) b = Some (r, s')" "good s'" "r \<le> 0"
    "content s' = (if r = 0 then content (pk_data x) @ b else content (pk_data x))" "r \<noteq> 0 \<longrightarrow> s' = pk_data x" by blast
  then have a: "append_buffer x b = Some (r, x\<lparr>pk_data := s'\<rparr>)" using assms(1) by (simp add: append_buffer_def)
  show ?thesis
  proof (cases "r = 0")
    case True
    with r a assms(1) show ?thesis by (auto simp: packs_def)
  next
    case False
    with r a assms(1) show ?thesis
      unfolding packs_def by (intro exI [of _ r] exI [of _ "x\<lparr>pk_data := s'\<rparr>"]) (auto intro!: exI [of _ "[]"] exI [of _ b])
  qed
qed

lemma body_packs:
  assumes "pk_callback x = wr" "good (pk_data x)" "length b < 2 ^ 32"
  shows "packs wr content good x b (pack_body x b (length b))"
  using append_buffer_packs [OF assms] by (simp add: pack_body_def)

lemma pack_object_packs:
  "pk_callback x = wr \<Longrightarrow> good (pk_data x) \<Longrightarrow> object_ok ob
     \<Longrightarrow> packs wr content good x (enc_obj ob) (msgpack_pack_object x ob)"
  "pk_callback x = wr \<Longrightarrow> good (pk_data x) \<Longrightarrow> \<forall>ob \<in> set os. object_ok ob
     \<Longrightarrow> packs wr content good x (concat (map enc_obj os)) (pack_elements x os)"
  "pk_callback x = wr \<Longrightarrow> good (pk_data x) \<Longrightarrow> \<forall>kv \<in> set kvs. object_ok (fst kv) \<and> object_ok (snd kv)
     \<Longrightarrow> packs wr content good x (concat (map (\<lambda>kv. enc_obj (fst kv) @ enc_obj (snd kv)) kvs)) (pack_pairs x kvs)"
proof (induction x ob and x os and x kvs rule: msgpack_pack_object_pack_elements_pack_pairs.induct)
  case (1 pk d)
  note app = append_buffer_packs [OF 1(3,4)]
  note defs = msgpack_pack_object.simps pack_uint_eq pack_int_eq pack_header_eq
  show ?case
  proof (cases d)
    case (OBJECT_STR s)
    with 1 show ?thesis
      by (simp add: defs)
         (intro packs_and_then app; simp add: msgpack_pack_str_body_def body_packs hdr_str_def)
  next
    case (OBJECT_BIN s)
    with 1 show ?thesis
      by (simp add: defs)
         (intro packs_and_then app; simp add: msgpack_pack_bin_body_def body_packs hdr_bin_def)
  next
    case (OBJECT_EXT t s)
    with 1 show ?thesis
      by (simp add: defs)
         (intro packs_and_then app; simp add: msgpack_pack_ext_body_def body_packs hdr_ext_def)
  next
    case (OBJECT_ARRAY os)
    with 1 show ?thesis
      by (simp add: defs) (intro packs_and_then app; simp add: hdr_array_def)
  next
    case (OBJECT_MAP kvs)
    with 1 show ?thesis
      by (simp add: defs) (intro packs_and_then app; simp add: hdr_map_def)
  qed (use 1 in \<open>simp_all add: defs app enc_int_def msgpack_pack_nil_def msgpack_pack_true_def
        msgpack_pack_false_def msgpack_pack_double_def msgpack_store64_def\<close>)
next
  case (3 pk ob os)
  then show ?case by (auto intro!: packs_and_then)
next
  case (5 pk k v kvs)
  then show ?case by (auto intro!: packs_and_then)
qed (simp_all add: packs_nothing)

text \<open>A string with its length; a null pointer is the empty string.\<close>

lemma pack_lstring_packs:
  assumes "pk_callback x = wr" "good (pk_data x)" "length s < 2 ^ 32"
  shows "packs wr content good x (enc_obj (OBJECT_STR s)) (msgpack_pack_lstring x (Some s) (length s))"
    and "packs wr content good x (enc_obj (OBJECT_STR [])) (msgpack_pack_lstring x None n)"
proof -
  have "packs wr content good x (enc_obj (OBJECT_STR s)) (msgpack_pack_object x (OBJECT_STR s))"
    using assms by (intro pack_object_packs(1)) simp_all
  moreover have "msgpack_pack_object x (OBJECT_STR s) = msgpack_pack_lstring x (Some s) (length s)"
    if "s \<noteq> []" using that
    by (simp add: msgpack_pack_object.simps and_then_def msgpack_pack_lstring_def Let_def split: option.splits)
  moreover have "packs wr content good x (enc_obj (OBJECT_STR [])) (append_buffer x (hdr_str 0))"
    using assms append_buffer_packs [of x "hdr_str 0"] by (simp add: hdr_str_def)
  moreover have "msgpack_pack_lstring x (Some []) 0 = append_buffer x (hdr_str 0)" "msgpack_pack_lstring x None n = append_buffer x (hdr_str 0)"
    by (auto simp: msgpack_pack_lstring_def pack_header_eq Let_def split: option.splits)
  ultimately show "packs wr content good x (enc_obj (OBJECT_STR s)) (msgpack_pack_lstring x (Some s) (length s))"
    "packs wr content good x (enc_obj (OBJECT_STR [])) (msgpack_pack_lstring x None n)"
    by (cases "s = []"; simp)+
qed

end

end
