(* ===== verification/MsgpackBuffer.thy ===== *)
theory MsgpackBuffer
  imports MsgpackSink
begin

text \<open>
  The growing buffer of \<^verbatim>\<open>msgpack/sbuffer.h\<close>, into which log messages are packed. \<open>sb_data\<close> is the
  allocated block (empty for \<^verbatim>\<open>NULL\<close>), \<open>sb_alloc\<close> its size as the structure records it, \<open>sb_size\<close> how
  much of it is used. \<^verbatim>\<open>realloc\<close> is a parameter.
\<close>

subsection \<open>The buffer\<close>

record msgpack_sbuffer =
  sb_size :: nat
  sb_data :: bytes
  sb_alloc :: nat

definition MSGPACK_SBUFFER_INIT_SIZE :: nat where
  "MSGPACK_SBUFFER_INIT_SIZE = 8192"

definition msgpack_sbuffer_init :: msgpack_sbuffer where
  "msgpack_sbuffer_init = \<lparr> sb_size = 0, sb_data = [], sb_alloc = 0 \<rparr>"

definition msgpack_sbuffer_new :: "bool \<Rightarrow> msgpack_sbuffer option" where
  "msgpack_sbuffer_new calloc_ok = (if calloc_ok then Some msgpack_sbuffer_init else None)"

definition msgpack_sbuffer_write ::
    "(bytes \<Rightarrow> nat \<Rightarrow> bytes option) \<Rightarrow> msgpack_sbuffer \<Rightarrow> bytes \<Rightarrow> (int \<times> msgpack_sbuffer) option" where
  "msgpack_sbuffer_write realloc sbuf buf =
     (let len = length buf;
          store = (\<lambda>sbuf. case block_write (sb_data sbuf) (sb_size sbuf) buf of
                      None \<Rightarrow> None
                    | Some d \<Rightarrow> Some (0, sbuf\<lparr> sb_data := d, sb_size := (sb_size sbuf + len) mod 2 ^ 64 \<rparr>))
      in if size_sub (sb_alloc sbuf) (sb_size sbuf) < len
         then (let nsize = (if sb_alloc sbuf \<noteq> 0 then (sb_alloc sbuf * 2) mod 2 ^ 64
                            else MSGPACK_SBUFFER_INIT_SIZE);
                   nsize = grow_size nsize ((sb_size sbuf + len) mod 2 ^ 64)
               in case realloc (sb_data sbuf) nsize of
                    None \<Rightarrow> Some (- 1, sbuf)
                  | Some tmp \<Rightarrow> store (sbuf\<lparr> sb_data := tmp, sb_alloc := nsize \<rparr>))
         else store sbuf)"

definition msgpack_sbuffer_release :: "msgpack_sbuffer \<Rightarrow> bytes \<times> msgpack_sbuffer" where
  "msgpack_sbuffer_release sbuf = (sb_data sbuf, sbuf\<lparr> sb_size := 0, sb_data := [], sb_alloc := 0 \<rparr>)"

definition msgpack_sbuffer_clear :: "msgpack_sbuffer \<Rightarrow> msgpack_sbuffer" where
  "msgpack_sbuffer_clear sbuf = sbuf\<lparr> sb_size := 0 \<rparr>"

subsection \<open>Invariant and content\<close>

definition sb_content :: "msgpack_sbuffer \<Rightarrow> bytes" where
  "sb_content s = take (sb_size s) (sb_data s)"

definition sb_inv :: "msgpack_sbuffer \<Rightarrow> bool" where
  "sb_inv s \<longleftrightarrow> sb_size s \<le> sb_alloc s \<and> sb_alloc s = length (sb_data s) \<and> sb_alloc s < 2 ^ 63"

lemma sbuffer_init_inv [simp]: "sb_inv msgpack_sbuffer_init" "sb_content msgpack_sbuffer_init = []"
  by (simp_all add: sb_inv_def msgpack_sbuffer_init_def sb_content_def)

lemma sbuffer_write_law:
  assumes "realloc_ok realloc" "sb_inv s" "length b < 2 ^ 63"
  shows "\<exists>r s'. msgpack_sbuffer_write realloc s b = Some (r, s') \<and> sb_inv s' \<and> r \<le> 0
    \<and> sb_content s' = (if r = 0 then sb_content s @ b else sb_content s) \<and> (r \<noteq> 0 \<longrightarrow> s' = s)"
proof -
  have total: "(sb_size s + length b) mod 2 ^ 64 = sb_size s + length b"
    using assms(2,3) by (simp add: sb_inv_def)
  show ?thesis
  proof (cases "sb_alloc s - sb_size s < length b")
    case False
    with assms(2) have fits: "sb_size s + length b \<le> length (sb_data s)"
      unfolding sb_inv_def by linarith
    then show ?thesis
      using False assms(2) total
      by (simp add: msgpack_sbuffer_write_def Let_def sb_inv_def block_write_def sb_content_def)
  next
    case True
    define nsize where "nsize = grow_size (if sb_alloc s \<noteq> 0 then (sb_alloc s * 2) mod 2 ^ 64
      else MSGPACK_SBUFFER_INIT_SIZE) (sb_size s + length b)"
    have big: "sb_size s + length b \<le> nsize" unfolding nsize_def by (rule grow_size_enough)
    have sub: "size_sub (sb_alloc s) (sb_size s) = sb_alloc s - sb_size s"
      using assms(2) by (simp add: sb_inv_def)
    have w: "msgpack_sbuffer_write realloc s b = (case realloc (sb_data s) nsize of
        None \<Rightarrow> Some (- 1, s)
      | Some tmp \<Rightarrow> (case block_write tmp (sb_size s) b of
            None \<Rightarrow> None
          | Some d \<Rightarrow> Some (0, s\<lparr> sb_data := d, sb_alloc := nsize, sb_size := sb_size s + length b \<rparr>)))"
      using True unfolding msgpack_sbuffer_write_def Let_def total nsize_def [symmetric] sub
      by (simp add: total [simplified] split: option.split)
    show ?thesis
    proof (cases "realloc (sb_data s) nsize")
      case None
      with assms(2) show ?thesis by (simp add: w)
    next
      case (Some tmp)
      note tmp = realloc_okD [OF assms(1) Some]
      have "take (sb_size s) tmp = take (sb_size s) (sb_data s)"
        using assms(2) big by (intro tmp(3)) (auto simp: sb_inv_def)
      with Some big tmp(1,2) assms(2) show ?thesis
        by (simp add: w sb_inv_def block_write_def sb_content_def)
    qed
  qed
qed

subsection \<open>The buffer is a sink\<close>

interpretation sbuf: packet_sink "msgpack_sbuffer_write realloc" sb_content
    "\<lambda>s. realloc_ok realloc \<and> sb_inv s" for realloc
proof
  fix s :: msgpack_sbuffer and b :: bytes
  assume "realloc_ok realloc \<and> sb_inv s" and "length b < 2 ^ 32"
  then show "\<exists>r s'. msgpack_sbuffer_write realloc s b = Some (r, s') \<and> (realloc_ok realloc \<and> sb_inv s') \<and> r \<le> 0
    \<and> sb_content s' = (if r = 0 then sb_content s @ b else sb_content s) \<and> (r \<noteq> 0 \<longrightarrow> s' = s)"
    using sbuffer_write_law [of realloc s b] by auto
qed

abbreviation sbuffer_packer :: "(bytes \<Rightarrow> nat \<Rightarrow> bytes option) \<Rightarrow> msgpack_sbuffer \<Rightarrow> msgpack_sbuffer msgpack_packer"
  where "sbuffer_packer realloc s \<equiv> msgpack_packer_init s (msgpack_sbuffer_write realloc)"

subsection \<open>Enough memory\<close>

text \<open>As long as \<^verbatim>\<open>realloc\<close> provides every size up to a limit, a buffer takes everything that is less than
  half of it, since its block is at most twice its content.\<close>

definition realloc_enough :: "(bytes \<Rightarrow> nat \<Rightarrow> bytes option) \<Rightarrow> nat \<Rightarrow> bool" where
  "realloc_enough realloc limit \<longleftrightarrow>
     MSGPACK_SBUFFER_INIT_SIZE \<le> limit \<and> (\<forall>old n. n \<le> limit \<longrightarrow> realloc old n \<noteq> None)"

lemma realloc_zero_enough: "8192 \<le> l \<Longrightarrow> l < 2 ^ 63 \<Longrightarrow> realloc_enough (realloc_zero (Suc l)) l"
  by (auto simp: realloc_enough_def realloc_zero_def MSGPACK_SBUFFER_INIT_SIZE_def)

lemma sbuffer_write_succeeds:
  assumes "realloc_ok realloc" "sb_inv s" "realloc_enough realloc limit" "2 * (length (sb_content s) + length b) \<le> limit"
    and "limit < 2 ^ 64"
  shows "\<exists>s'. msgpack_sbuffer_write realloc s b = Some (0, s')"
proof -
  have len: "length (sb_content s) = sb_size s" using assms(2) by (simp add: sb_content_def sb_inv_def)
  have b32: "length b < 2 ^ 63" using assms(4,5) by simp
  from sbuffer_write_law [OF assms(1,2) b32] obtain r s' where
    w: "msgpack_sbuffer_write realloc s b = Some (r, s')" by blast
  show ?thesis
  proof (cases "size_sub (sb_alloc s) (sb_size s) < length b")
    case False
    with w show ?thesis by (auto simp: msgpack_sbuffer_write_def Let_def split: option.splits)
  next
    case True
    then have small: "sb_alloc s < sb_size s + length b" using assms(2) by (simp add: sb_inv_def)
    define n0 where "n0 = (if sb_alloc s \<noteq> 0 then (sb_alloc s * 2) mod 2 ^ 64 else MSGPACK_SBUFFER_INIT_SIZE)"
    have total: "(sb_size s + length b) mod 2 ^ 64 = sb_size s + length b" using assms(2) b32 by (simp add: sb_inv_def)
    have "n0 \<le> limit"
    proof (cases "sb_alloc s = 0")
      case False
      have "(sb_alloc s * 2) mod 2 ^ 64 \<le> sb_alloc s * 2" by (rule mod_less_eq_dividend)
      with False show ?thesis using small assms(4) len by (simp add: n0_def)
    qed (use assms(3) in \<open>simp add: n0_def realloc_enough_def\<close>)
    then have "grow_size n0 (sb_size s + length b) \<le> limit"
      using grow_size_bound [of n0 "sb_size s + length b"] assms(4) len by simp
    then obtain tmp where "realloc (sb_data s) (grow_size n0 (sb_size s + length b)) = Some tmp"
      using assms(3) by (auto simp: realloc_enough_def)
    with w True show ?thesis
      unfolding msgpack_sbuffer_write_def Let_def total n0_def [symmetric] by (auto split: option.splits)
  qed
qed

lemma sbuffer_packs_all:
  assumes "packs (msgpack_sbuffer_write realloc) sb_content (\<lambda>s. realloc_ok realloc \<and> sb_inv s) x bs res"
    and "realloc_enough realloc limit" "2 * (length (sb_content (pk_data x)) + length bs) \<le> limit" "limit < 2 ^ 64"
  shows "\<exists>x'. res = Some (0, x') \<and> pk_callback x' = msgpack_sbuffer_write realloc \<and> realloc_ok realloc \<and> sb_inv (pk_data x')
    \<and> sb_content (pk_data x') = sb_content (pk_data x) @ bs"
proof -
  have ok: "\<exists>s'. msgpack_sbuffer_write realloc s b = Some (0, s')"
    if g: "realloc_ok realloc \<and> sb_inv s" and c: "sb_content s = sb_content (pk_data x) @ p" and p: "prefix (p @ b) bs" for s p b
  proof (rule sbuffer_write_succeeds [OF _ _ assms(2) _ assms(4)])
    have "length p + length b \<le> length bs" using prefix_length_le [OF p] by simp
    then show "2 * (length (sb_content s) + length b) \<le> limit" using assms(3) c by simp
  qed (use g in auto)
  have "\<exists>x'. res = Some (0, x') \<and> pk_callback x' = msgpack_sbuffer_write realloc
    \<and> (realloc_ok realloc \<and> sb_inv (pk_data x')) \<and> sb_content (pk_data x') = sb_content (pk_data x) @ bs"
    by (rule packs_all [OF assms(1)]) (rule ok)
  then show ?thesis by blast
qed

lemma sbuffer_failure_refused:
  assumes "packs (msgpack_sbuffer_write realloc) sb_content (\<lambda>s. realloc_ok realloc \<and> sb_inv s) x bs (Some (r, y))"
    and "realloc_ok realloc" and "r \<noteq> 0"
  shows "\<exists>old n. n \<le> max MSGPACK_SBUFFER_INIT_SIZE (2 * (length (sb_content (pk_data x)) + length bs))
    \<and> realloc old n = None"
proof (rule ccontr)
  let ?l = "max MSGPACK_SBUFFER_INIT_SIZE (2 * (length (sb_content (pk_data x)) + length bs))"
  assume "\<not> ?thesis"
  then have e: "realloc_enough realloc ?l" by (auto simp: realloc_enough_def)
  then obtain b where "realloc [] ?l = Some b" by (auto simp: realloc_enough_def)
  from realloc_okD(2) [OF assms(2) this] have "?l < 2 ^ 64" by (rule less_le_trans) simp
  from sbuffer_packs_all [OF assms(1) e max.cobounded2 this] assms(3) show False by simp
qed

subsection \<open>Properties\<close>

text \<open>
  Writing to the buffer: while the buffer is well-formed a write never overruns its block. It
  either appends the bytes and returns zero, whatever growth that needs, or \<^verbatim>\<open>realloc\<close> fails, the
  result is negative and the buffer is as before; either way the buffer stays well-formed.
\<close>

theorem sbuffer_write_appends:
  assumes "realloc_ok realloc" "sb_inv s" "length b < 2 ^ 32"
  shows "\<exists>r s'. msgpack_sbuffer_write realloc s b = Some (r, s') \<and> sb_inv s' \<and> r \<in> {0, - 1}
    \<and> (r = 0 \<longrightarrow> sb_content s' = sb_content s @ b) \<and> (r = - 1 \<longrightarrow> s' = s)"
proof -
  have "length b < 2 ^ 63" using assms(3) by simp
  from sbuffer_write_law [OF assms(1,2) this] obtain r s' where
    r: "msgpack_sbuffer_write realloc s b = Some (r, s')" "sb_inv s'"
      "sb_content s' = (if r = 0 then sb_content s @ b else sb_content s)" by blast
  moreover have "r = 0 \<or> r = - 1 \<and> s' = s"
    using r(1) by (auto simp: msgpack_sbuffer_write_def Let_def split: if_splits option.splits)
  ultimately show ?thesis by auto
qed

theorem sbuffer_write_appends_witness:
  "\<exists>s'. msgpack_sbuffer_write (realloc_zero 9000) msgpack_sbuffer_init [1, 2] = Some (0, s')
    \<and> sb_content s' = [1, 2]"
proof -
  have grow: "grow_size 8192 (Suc (Suc 0)) = 8192" by (simp add: grow_size.simps)
  have "fst (the (msgpack_sbuffer_write (realloc_zero 9000) msgpack_sbuffer_init [1, 2])) = 0"
    by (simp add: msgpack_sbuffer_write_def msgpack_sbuffer_init_def Let_def realloc_zero_def
        MSGPACK_SBUFFER_INIT_SIZE_def grow block_write_def)
  then show ?thesis
    using sbuffer_write_appends [OF realloc_zero_ok [of 9000] sbuffer_init_inv(1), of "[1, 2]"] by auto
qed

text \<open>
  (C8) Serialization: packing an object into the buffer appends exactly the MessagePack encoding of
  the object and returns zero, unless the memory runs out. A result other than zero is negative,
  what was appended then is a prefix of the encoding, and it only occurs when \<^verbatim>\<open>realloc\<close> refuses a
  block no larger than the initial size or twice the content and the encoding. No branch overruns
  the buffer or reads behind a string.
\<close>

theorem pack_object_encodes:
  assumes "realloc_ok realloc" "sb_inv s" "object_ok ob"
  shows "\<exists>r pk. msgpack_pack_object (sbuffer_packer realloc s) ob = Some (r, pk) \<and> sb_inv (pk_data pk)
    \<and> (r = 0 \<and> sb_content (pk_data pk) = sb_content s @ enc_obj ob
       \<or> r < 0 \<and> (\<exists>p. prefix p (enc_obj ob) \<and> sb_content (pk_data pk) = sb_content s @ p)
         \<and> (\<exists>old n. n \<le> max 8192 (2 * (length (sb_content s) + length (enc_obj ob)))
              \<and> realloc old n = None))"
proof -
  let ?x = "sbuffer_packer realloc s"
  have p: "packs (msgpack_sbuffer_write realloc) sb_content (\<lambda>s. realloc_ok realloc \<and> sb_inv s)
      ?x (enc_obj ob) (msgpack_pack_object ?x ob)"
    using assms by (intro sbuf.pack_object_packs(1)) (simp_all add: msgpack_packer_init_def)
  then obtain r pk where r: "msgpack_pack_object ?x ob = Some (r, pk)" "sb_inv (pk_data pk)"
    "r = 0 \<and> sb_content (pk_data pk) = sb_content s @ enc_obj ob
     \<or> r < 0 \<and> (\<exists>p. prefix p (enc_obj ob) \<and> sb_content (pk_data pk) = sb_content s @ p)"
    by (rule packsD) (auto simp: msgpack_packer_init_def)
  have "\<exists>old n. n \<le> max 8192 (2 * (length (sb_content s) + length (enc_obj ob))) \<and> realloc old n = None"
    if "r < 0"
    using sbuffer_failure_refused [OF p [unfolded r(1)] assms(1)] that
    by (auto simp: msgpack_packer_init_def MSGPACK_SBUFFER_INIT_SIZE_def)
  with r show ?thesis by blast
qed

theorem pack_object_encodes_witness:
  "\<exists>pk. msgpack_pack_object (sbuffer_packer (realloc_zero 9000) msgpack_sbuffer_init)
      (OBJECT_ARRAY [OBJECT_POSITIVE_INTEGER 300, OBJECT_STR [104, 105]]) = Some (0, pk)
    \<and> sb_content (pk_data pk) = [0x92, 0xcd, 1, 44, 0xa2, 104, 105]"
proof -
  define ob where "ob = OBJECT_ARRAY [OBJECT_POSITIVE_INTEGER 300, OBJECT_STR [104, 105]]"
  have e: "enc_obj ob = [0x92, 0xcd, 1, 44, 0xa2, 104, 105]"
    by (simp add: ob_def hdr_array_def enc_int_def hdr_str_def)
  have m: "realloc_zero 9000 old n \<noteq> None" if "n \<le> 8192" for old :: bytes and n
    using that by (simp add: realloc_zero_def)
  have "object_ok ob" by (simp add: ob_def)
  from pack_object_encodes [OF realloc_zero_ok [of 9000] sbuffer_init_inv(1) this] m show ?thesis
    unfolding e ob_def [symmetric] by (auto simp del: not_None_eq)
qed

text \<open>
  (C29) All integer packers agree: whichever width and signedness a value comes in, the bytes are
  the shortest MessagePack encoding of its numeric value.
\<close>

theorem integer_packers_agree:
  "msgpack_pack_uint8 x a = append_buffer x (enc_int (uint a))
   \<and> msgpack_pack_uint16 x b = append_buffer x (enc_int (uint b))
   \<and> msgpack_pack_uint32 x c = append_buffer x (enc_int (uint c))
   \<and> msgpack_pack_uint64 x d = append_buffer x (enc_int (uint d))
   \<and> msgpack_pack_int8 x a = append_buffer x (enc_int (sint a))
   \<and> msgpack_pack_int16 x b = append_buffer x (enc_int (sint b))
   \<and> msgpack_pack_int32 x c = append_buffer x (enc_int (sint c))
   \<and> msgpack_pack_int64 x d = append_buffer x (enc_int (sint d))"
  by (simp only: pack_uint_eq pack_int_eq simp_thms)

end
