(* ===== verification/MsgpackUnpack.thy ===== *)
theory MsgpackUnpack
  imports MsgpackObject
begin

unbundle bit_operations_syntax

text \<open>
  The deserializer of \<^verbatim>\<open>msgpack-c\<close>: the callbacks of \<^verbatim>\<open>src/unpack.c\<close>, the states of
  \<^verbatim>\<open>msgpack/unpack_define.h\<close> and the state machine of \<^verbatim>\<open>msgpack/unpack_template.h\<close>, with the
  one-shot function \<^verbatim>\<open>msgpack_unpack\<close>. Positions are offsets into the data. The bytes a string
  object points to are its value; an object that points behind the data is undefined (\<open>None\<close>), as
  is a position that runs past the end. Whether the memory zone can provide a number of bytes is the
  parameter \<open>zalloc\<close>.
\<close>

subsection \<open>Callbacks\<close>

text \<open>A \<^verbatim>\<open>float\<close> is converted to a \<^verbatim>\<open>double\<close>: the exponent is rebiased, a subnormal number is
  normalized, a NaN becomes quiet.\<close>

fun bit_length :: "nat \<Rightarrow> nat" where
  "bit_length n = (if n = 0 then 0 else Suc (bit_length (n div 2)))"

declare bit_length.simps [simp del]

definition f64_of_f32 :: "u32 \<Rightarrow> u64" where
  "f64_of_f32 f =
     (let s = unat (drop_bit 31 f); e = unat (drop_bit 23 f AND 0xff); m = unat (f AND 0x7fffff);
          k = bit_length m - 1;
          (e', m') = (if e = 255 then (2047, if m = 0 then 0 else m * 2 ^ 29 + (if m < 2 ^ 22 then 2 ^ 51 else 0))
                      else if e \<noteq> 0 then (e + 896, m * 2 ^ 29)
                      else if m = 0 then (0, 0)
                      else (k + 874, (m - 2 ^ k) * 2 ^ (52 - k)))
      in word_of_nat (s * 2 ^ 63 + e' * 2 ^ 52 + m'))"

definition template_callback_root :: msgpack_object where
  "template_callback_root = OBJECT_NIL"
definition template_callback_uint8 :: "u8 \<Rightarrow> msgpack_object" where
  "template_callback_uint8 d = OBJECT_POSITIVE_INTEGER (ucast d)"
definition template_callback_uint16 :: "u16 \<Rightarrow> msgpack_object" where
  "template_callback_uint16 d = OBJECT_POSITIVE_INTEGER (ucast d)"
definition template_callback_uint32 :: "u32 \<Rightarrow> msgpack_object" where
  "template_callback_uint32 d = OBJECT_POSITIVE_INTEGER (ucast d)"
definition template_callback_uint64 :: "u64 \<Rightarrow> msgpack_object" where
  "template_callback_uint64 d = OBJECT_POSITIVE_INTEGER d"
definition template_callback_int8 :: "u8 \<Rightarrow> msgpack_object" where
  "template_callback_int8 d =
     (if sint d \<ge> 0 then OBJECT_POSITIVE_INTEGER (scast d) else OBJECT_NEGATIVE_INTEGER (scast d))"
definition template_callback_int16 :: "u16 \<Rightarrow> msgpack_object" where
  "template_callback_int16 d =
     (if sint d \<ge> 0 then OBJECT_POSITIVE_INTEGER (scast d) else OBJECT_NEGATIVE_INTEGER (scast d))"
definition template_callback_int32 :: "u32 \<Rightarrow> msgpack_object" where
  "template_callback_int32 d =
     (if sint d \<ge> 0 then OBJECT_POSITIVE_INTEGER (scast d) else OBJECT_NEGATIVE_INTEGER (scast d))"
definition template_callback_int64 :: "u64 \<Rightarrow> msgpack_object" where
  "template_callback_int64 d =
     (if sint d \<ge> 0 then OBJECT_POSITIVE_INTEGER d else OBJECT_NEGATIVE_INTEGER d)"
definition template_callback_float :: "u32 \<Rightarrow> msgpack_object" where
  "template_callback_float d = OBJECT_FLOAT (f64_of_f32 d)"
definition template_callback_double :: "u64 \<Rightarrow> msgpack_object" where
  "template_callback_double d = OBJECT_FLOAT d"
definition template_callback_nil :: msgpack_object where
  "template_callback_nil = OBJECT_NIL"
definition template_callback_true :: msgpack_object where
  "template_callback_true = OBJECT_BOOLEAN True"
definition template_callback_false :: msgpack_object where
  "template_callback_false = OBJECT_BOOLEAN False"

text \<open>A container starts empty; its array of \<open>n\<close> elements (of 24 bytes, or pairs of 48) comes from the
  zone. \<open>None\<close> is the result \<open>-1\<close>.\<close>

definition template_callback_array :: "(nat \<Rightarrow> bool) \<Rightarrow> nat \<Rightarrow> msgpack_object option" where
  "template_callback_array zalloc n = (if zalloc (n * 24) then Some (OBJECT_ARRAY []) else None)"
definition template_callback_map :: "(nat \<Rightarrow> bool) \<Rightarrow> nat \<Rightarrow> msgpack_object option" where
  "template_callback_map zalloc n = (if zalloc (n * 48) then Some (OBJECT_MAP []) else None)"

text \<open>Storing an item in something that is not the container is undefined.\<close>

definition template_callback_array_item :: "msgpack_object \<Rightarrow> msgpack_object \<Rightarrow> msgpack_object option" where
  "template_callback_array_item c ob =
     (case c of OBJECT_ARRAY os \<Rightarrow> Some (OBJECT_ARRAY (os @ [ob])) | _ \<Rightarrow> None)"
definition template_callback_map_item ::
    "msgpack_object \<Rightarrow> msgpack_object \<Rightarrow> msgpack_object \<Rightarrow> msgpack_object option" where
  "template_callback_map_item c k v =
     (case c of OBJECT_MAP kvs \<Rightarrow> Some (OBJECT_MAP (kvs @ [(k, v)])) | _ \<Rightarrow> None)"

text \<open>The objects that refer to \<open>l\<close> bytes of the data at offset \<open>p\<close>.\<close>

definition slice :: "bytes \<Rightarrow> nat \<Rightarrow> nat \<Rightarrow> bytes option" where
  "slice data p l = (if l = 0 then Some [] else if p + l \<le> length data then Some (take l (drop p data)) else None)"

definition template_callback_str :: "bytes \<Rightarrow> nat \<Rightarrow> u32 \<Rightarrow> msgpack_object option" where
  "template_callback_str b p l = map_option OBJECT_STR (slice b p (unat l))"
definition template_callback_bin :: "bytes \<Rightarrow> nat \<Rightarrow> u32 \<Rightarrow> msgpack_object option" where
  "template_callback_bin b p l = map_option OBJECT_BIN (slice b p (unat l))"
definition template_callback_ext :: "bytes \<Rightarrow> nat \<Rightarrow> u32 \<Rightarrow> msgpack_object option" where
  "template_callback_ext b p l =
     (case array_get b p of
        None \<Rightarrow> None
      | Some t \<Rightarrow> map_option (OBJECT_EXT t) (slice b (p + 1) (unat (l - 1))))"

subsection \<open>States and context\<close>

abbreviation (input) MSGPACK_CS_HEADER :: nat where "MSGPACK_CS_HEADER \<equiv> 0x00"
abbreviation (input) MSGPACK_CS_BIN_8 :: nat where "MSGPACK_CS_BIN_8 \<equiv> 0x04"
abbreviation (input) MSGPACK_CS_BIN_16 :: nat where "MSGPACK_CS_BIN_16 \<equiv> 0x05"
abbreviation (input) MSGPACK_CS_BIN_32 :: nat where "MSGPACK_CS_BIN_32 \<equiv> 0x06"
abbreviation (input) MSGPACK_CS_EXT_8 :: nat where "MSGPACK_CS_EXT_8 \<equiv> 0x07"
abbreviation (input) MSGPACK_CS_EXT_16 :: nat where "MSGPACK_CS_EXT_16 \<equiv> 0x08"
abbreviation (input) MSGPACK_CS_EXT_32 :: nat where "MSGPACK_CS_EXT_32 \<equiv> 0x09"
abbreviation (input) MSGPACK_CS_FLOAT :: nat where "MSGPACK_CS_FLOAT \<equiv> 0x0a"
abbreviation (input) MSGPACK_CS_DOUBLE :: nat where "MSGPACK_CS_DOUBLE \<equiv> 0x0b"
abbreviation (input) MSGPACK_CS_UINT_8 :: nat where "MSGPACK_CS_UINT_8 \<equiv> 0x0c"
abbreviation (input) MSGPACK_CS_UINT_16 :: nat where "MSGPACK_CS_UINT_16 \<equiv> 0x0d"
abbreviation (input) MSGPACK_CS_UINT_32 :: nat where "MSGPACK_CS_UINT_32 \<equiv> 0x0e"
abbreviation (input) MSGPACK_CS_UINT_64 :: nat where "MSGPACK_CS_UINT_64 \<equiv> 0x0f"
abbreviation (input) MSGPACK_CS_INT_8 :: nat where "MSGPACK_CS_INT_8 \<equiv> 0x10"
abbreviation (input) MSGPACK_CS_INT_16 :: nat where "MSGPACK_CS_INT_16 \<equiv> 0x11"
abbreviation (input) MSGPACK_CS_INT_32 :: nat where "MSGPACK_CS_INT_32 \<equiv> 0x12"
abbreviation (input) MSGPACK_CS_INT_64 :: nat where "MSGPACK_CS_INT_64 \<equiv> 0x13"
abbreviation (input) MSGPACK_CS_FIXEXT_1 :: nat where "MSGPACK_CS_FIXEXT_1 \<equiv> 0x14"
abbreviation (input) MSGPACK_CS_FIXEXT_2 :: nat where "MSGPACK_CS_FIXEXT_2 \<equiv> 0x15"
abbreviation (input) MSGPACK_CS_FIXEXT_4 :: nat where "MSGPACK_CS_FIXEXT_4 \<equiv> 0x16"
abbreviation (input) MSGPACK_CS_FIXEXT_8 :: nat where "MSGPACK_CS_FIXEXT_8 \<equiv> 0x17"
abbreviation (input) MSGPACK_CS_FIXEXT_16 :: nat where "MSGPACK_CS_FIXEXT_16 \<equiv> 0x18"
abbreviation (input) MSGPACK_CS_STR_8 :: nat where "MSGPACK_CS_STR_8 \<equiv> 0x19"
abbreviation (input) MSGPACK_CS_STR_16 :: nat where "MSGPACK_CS_STR_16 \<equiv> 0x1a"
abbreviation (input) MSGPACK_CS_STR_32 :: nat where "MSGPACK_CS_STR_32 \<equiv> 0x1b"
abbreviation (input) MSGPACK_CS_ARRAY_16 :: nat where "MSGPACK_CS_ARRAY_16 \<equiv> 0x1c"
abbreviation (input) MSGPACK_CS_ARRAY_32 :: nat where "MSGPACK_CS_ARRAY_32 \<equiv> 0x1d"
abbreviation (input) MSGPACK_CS_MAP_16 :: nat where "MSGPACK_CS_MAP_16 \<equiv> 0x1e"
abbreviation (input) MSGPACK_CS_MAP_32 :: nat where "MSGPACK_CS_MAP_32 \<equiv> 0x1f"
abbreviation (input) MSGPACK_ACS_STR_VALUE :: nat where "MSGPACK_ACS_STR_VALUE \<equiv> 0x20"
abbreviation (input) MSGPACK_ACS_BIN_VALUE :: nat where "MSGPACK_ACS_BIN_VALUE \<equiv> 0x21"
abbreviation (input) MSGPACK_ACS_EXT_VALUE :: nat where "MSGPACK_ACS_EXT_VALUE \<equiv> 0x22"

definition MSGPACK_EMBED_STACK_SIZE :: nat where
  "MSGPACK_EMBED_STACK_SIZE = 32"

datatype container_type = CT_ARRAY_ITEM | CT_MAP_KEY | CT_MAP_VALUE

record template_stack =
  st_obj :: msgpack_object
  st_count :: nat
  st_ct :: container_type
  st_map_key :: msgpack_object

text \<open>\<open>ctx_stack\<close> holds the frames in use, the innermost first, so \<^verbatim>\<open>top\<close> is its length; \<open>ctx_root\<close> is
  the object of the bottom frame while no frame is in use.\<close>

record template_context =
  ctx_referenced :: bool
  ctx_cs :: nat
  ctx_trail :: u32
  ctx_stack :: "template_stack list"
  ctx_root :: msgpack_object

definition template_init :: "template_context \<Rightarrow> template_context" where
  "template_init ctx = ctx\<lparr> ctx_cs := MSGPACK_CS_HEADER, ctx_trail := 0, ctx_stack := [],
     ctx_root := template_callback_root \<rparr>"

definition template_data :: "template_context \<Rightarrow> msgpack_object" where
  "template_data ctx = (if ctx_stack ctx = [] then ctx_root ctx else st_obj (last (ctx_stack ctx)))"

subsection \<open>Pushing a value\<close>

text \<open>Where a step goes: the labels \<^verbatim>\<open>_header_again\<close>, \<^verbatim>\<open>_finish\<close>, \<^verbatim>\<open>_failed\<close> and \<^verbatim>\<open>_out\<close>.\<close>

datatype label = Header_again | Finish | Failed | Out

type_synonym step = "(label \<times> template_context \<times> nat) option"

text \<open>The loop at \<^verbatim>\<open>_push\<close>: a value completes its container or waits for more; \<open>Inl\<close> is the finished
  root value, \<open>Inr\<close> the stack to go on with.\<close>

fun push_value :: "template_stack list \<Rightarrow> msgpack_object \<Rightarrow> (msgpack_object + template_stack list) option" where
  "push_value [] ob = Some (Inl ob)"
| "push_value (c # st) ob = (case st_ct c of
     CT_ARRAY_ITEM \<Rightarrow>
       (case template_callback_array_item (st_obj c) ob of
          None \<Rightarrow> None
        | Some cob \<Rightarrow>
            (let count = size_sub (st_count c) 1
             in if count = 0 then push_value st cob
                else Some (Inr (c\<lparr> st_obj := cob, st_count := count \<rparr> # st))))
   | CT_MAP_KEY \<Rightarrow> Some (Inr (c\<lparr> st_map_key := ob, st_ct := CT_MAP_VALUE \<rparr> # st))
   | CT_MAP_VALUE \<Rightarrow>
       (case template_callback_map_item (st_obj c) (st_map_key c) ob of
          None \<Rightarrow> None
        | Some cob \<Rightarrow>
            (let count = size_sub (st_count c) 1
             in if count = 0 then push_value st cob
                else Some (Inr (c\<lparr> st_obj := cob, st_count := count, st_ct := CT_MAP_KEY \<rparr> # st)))))"

definition push :: "template_context \<Rightarrow> nat \<Rightarrow> msgpack_object \<Rightarrow> step" where
  "push ctx p ob = (case push_value (ctx_stack ctx) ob of
     None \<Rightarrow> None
   | Some (Inl r) \<Rightarrow> Some (Finish, ctx\<lparr> ctx_stack := [], ctx_root := r \<rparr>, p + 1)
   | Some (Inr st) \<Rightarrow> Some (Header_again, ctx\<lparr> ctx_stack := st, ctx_cs := MSGPACK_CS_HEADER \<rparr>, p + 1))"

text \<open>The macro \<^verbatim>\<open>push_variable_value\<close> marks the data as referenced.\<close>

definition push_variable :: "template_context \<Rightarrow> nat \<Rightarrow> msgpack_object option \<Rightarrow> step" where
  "push_variable ctx p r = (case r of
     None \<Rightarrow> None
   | Some ob \<Rightarrow> push (ctx\<lparr> ctx_referenced := True \<rparr>) p ob)"

text \<open>The macro \<^verbatim>\<open>start_container\<close>; \<open>alloc\<close> is the result of its callback.\<close>

definition start_container ::
    "template_context \<Rightarrow> nat \<Rightarrow> msgpack_object option \<Rightarrow> nat \<Rightarrow> container_type \<Rightarrow> step" where
  "start_container ctx p alloc count ct =
     (if length (ctx_stack ctx) \<ge> MSGPACK_EMBED_STACK_SIZE then Some (Failed, ctx, p)
      else case alloc of
        None \<Rightarrow> Some (Failed, ctx, p)
      | Some ob \<Rightarrow>
          if count = 0 then push ctx p ob
          else Some (Header_again,
            ctx\<lparr> ctx_stack := \<lparr> st_obj = ob, st_count = count, st_ct = ct, st_map_key = OBJECT_NIL \<rparr> # ctx_stack ctx,
                 ctx_cs := MSGPACK_CS_HEADER \<rparr>, p + 1))"

subsection \<open>One step of the state machine\<close>

text \<open>The value labels: \<open>l\<close> bytes from offset \<open>n\<close>, with the last of them at \<open>p\<close>.\<close>

definition variable_value :: "bytes \<Rightarrow> template_context \<Rightarrow> nat \<Rightarrow> nat \<Rightarrow> nat \<Rightarrow> step" where
  "variable_value data ctx acs n p =
     (if acs = MSGPACK_ACS_STR_VALUE then push_variable ctx p (template_callback_str data n (ctx_trail ctx))
      else if acs = MSGPACK_ACS_BIN_VALUE then push_variable ctx p (template_callback_bin data n (ctx_trail ctx))
      else push_variable ctx p (template_callback_ext data n (ctx_trail ctx)))"

text \<open>The macro \<^verbatim>\<open>again_fixed_trail_if_zero\<close>: without a trail the value label is entered with the
  position \<open>n\<close> of before, otherwise the machine goes to the trail behind \<open>p\<close>.\<close>

definition again_value :: "bytes \<Rightarrow> template_context \<Rightarrow> nat \<Rightarrow> u32 \<Rightarrow> nat \<Rightarrow> nat \<Rightarrow> step" where
  "again_value data ctx acs trail_len n p =
     (let ctx = ctx\<lparr> ctx_trail := trail_len \<rparr>
      in if trail_len = 0 then variable_value data ctx acs n p
         else let ctx = ctx\<lparr> ctx_cs := acs \<rparr>; p = p + 1
              in if length data - p < unat trail_len then Some (Out, ctx, p)
                 else variable_value data ctx acs p (p + unat (trail_len - 1)))"

text \<open>The inner switch, with the trail from offset \<open>n\<close> to \<open>p\<close>. Every read of the trail is checked
  against the data: one that would leave it has no result.\<close>

definition trail_switch :: "bytes \<Rightarrow> (nat \<Rightarrow> bool) \<Rightarrow> template_context \<Rightarrow> nat \<Rightarrow> nat \<Rightarrow> step" where
  "trail_switch data zalloc ctx n p =
       (let cs = ctx_cs ctx; from = drop n data
        in if cs = MSGPACK_CS_FLOAT then Option.bind (msgpack_load32 from) (\<lambda>v. push ctx p (template_callback_float v))
           else if cs = MSGPACK_CS_DOUBLE then Option.bind (msgpack_load64 from) (\<lambda>v. push ctx p (template_callback_double v))
           else if cs = MSGPACK_CS_UINT_8 then Option.bind (array_get data n) (\<lambda>v. push ctx p (template_callback_uint8 v))
           else if cs = MSGPACK_CS_UINT_16 then Option.bind (msgpack_load16 from) (\<lambda>v. push ctx p (template_callback_uint16 v))
           else if cs = MSGPACK_CS_UINT_32 then Option.bind (msgpack_load32 from) (\<lambda>v. push ctx p (template_callback_uint32 v))
           else if cs = MSGPACK_CS_UINT_64 then Option.bind (msgpack_load64 from) (\<lambda>v. push ctx p (template_callback_uint64 v))
           else if cs = MSGPACK_CS_INT_8 then Option.bind (array_get data n) (\<lambda>v. push ctx p (template_callback_int8 v))
           else if cs = MSGPACK_CS_INT_16 then Option.bind (msgpack_load16 from) (\<lambda>v. push ctx p (template_callback_int16 v))
           else if cs = MSGPACK_CS_INT_32 then Option.bind (msgpack_load32 from) (\<lambda>v. push ctx p (template_callback_int32 v))
           else if cs = MSGPACK_CS_INT_64 then Option.bind (msgpack_load64 from) (\<lambda>v. push ctx p (template_callback_int64 v))
           else if cs = MSGPACK_CS_FIXEXT_1 then again_value data ctx MSGPACK_ACS_EXT_VALUE (1 + 1) n p
           else if cs = MSGPACK_CS_FIXEXT_2 then again_value data ctx MSGPACK_ACS_EXT_VALUE (2 + 1) n p
           else if cs = MSGPACK_CS_FIXEXT_4 then again_value data ctx MSGPACK_ACS_EXT_VALUE (4 + 1) n p
           else if cs = MSGPACK_CS_FIXEXT_8 then again_value data ctx MSGPACK_ACS_EXT_VALUE (8 + 1) n p
           else if cs = MSGPACK_CS_FIXEXT_16 then again_value data ctx MSGPACK_ACS_EXT_VALUE (16 + 1) n p
           else if cs = MSGPACK_CS_STR_8 then Option.bind (array_get data n) (\<lambda>v. again_value data ctx MSGPACK_ACS_STR_VALUE (ucast v) n p)
           else if cs = MSGPACK_CS_BIN_8 then Option.bind (array_get data n) (\<lambda>v. again_value data ctx MSGPACK_ACS_BIN_VALUE (ucast v) n p)
           else if cs = MSGPACK_CS_EXT_8 then Option.bind (array_get data n) (\<lambda>v. again_value data ctx MSGPACK_ACS_EXT_VALUE (ucast v + 1) n p)
           else if cs = MSGPACK_CS_STR_16
             then Option.bind (msgpack_load16 from) (\<lambda>v. again_value data ctx MSGPACK_ACS_STR_VALUE (ucast v) n p)
           else if cs = MSGPACK_CS_BIN_16
             then Option.bind (msgpack_load16 from) (\<lambda>v. again_value data ctx MSGPACK_ACS_BIN_VALUE (ucast v) n p)
           else if cs = MSGPACK_CS_EXT_16
             then Option.bind (msgpack_load16 from) (\<lambda>v. again_value data ctx MSGPACK_ACS_EXT_VALUE (ucast v + 1) n p)
           else if cs = MSGPACK_CS_STR_32 then Option.bind (msgpack_load32 from) (\<lambda>v. again_value data ctx MSGPACK_ACS_STR_VALUE v n p)
           else if cs = MSGPACK_CS_BIN_32 then Option.bind (msgpack_load32 from) (\<lambda>v. again_value data ctx MSGPACK_ACS_BIN_VALUE v n p)
           else if cs = MSGPACK_CS_EXT_32
             then Option.bind (msgpack_load32 from) (\<lambda>v. again_value data ctx MSGPACK_ACS_EXT_VALUE (v + 1) n p)
           else if cs = MSGPACK_ACS_STR_VALUE \<or> cs = MSGPACK_ACS_BIN_VALUE \<or> cs = MSGPACK_ACS_EXT_VALUE
             then variable_value data ctx cs n p
           else if cs = MSGPACK_CS_ARRAY_16
             then Option.bind (msgpack_load16 from) (\<lambda>v. let count = unat v
                   in start_container ctx p (template_callback_array zalloc count) count CT_ARRAY_ITEM)
           else if cs = MSGPACK_CS_ARRAY_32
             then Option.bind (msgpack_load32 from) (\<lambda>v. let count = unat v
                   in start_container ctx p (template_callback_array zalloc count) count CT_ARRAY_ITEM)
           else if cs = MSGPACK_CS_MAP_16
             then Option.bind (msgpack_load16 from) (\<lambda>v. let count = unat v
                   in start_container ctx p (template_callback_map zalloc count) count CT_MAP_KEY)
           else if cs = MSGPACK_CS_MAP_32
             then Option.bind (msgpack_load32 from) (\<lambda>v. let count = unat v
                   in start_container ctx p (template_callback_map zalloc count) count CT_MAP_KEY)
           else Some (Failed, ctx, p))"

text \<open>The \<^verbatim>\<open>default\<close> branch of the outer switch: once the trail is there, it is interpreted.\<close>

definition trail_step :: "bytes \<Rightarrow> (nat \<Rightarrow> bool) \<Rightarrow> template_context \<Rightarrow> nat \<Rightarrow> step" where
  "trail_step data zalloc ctx p =
     (if length data - p < unat (ctx_trail ctx) then Some (Out, ctx, p)
      else let n = p; p = p + unat (ctx_trail ctx - 1)
           in trail_switch data zalloc ctx n p)"

definition NEXT_CS :: "u8 \<Rightarrow> nat" where
  "NEXT_CS b = unat (b AND 0x1f)"

text \<open>The macro \<^verbatim>\<open>again_fixed_trail\<close>.\<close>

definition again_fixed_trail ::
    "bytes \<Rightarrow> (nat \<Rightarrow> bool) \<Rightarrow> template_context \<Rightarrow> nat \<Rightarrow> u32 \<Rightarrow> nat \<Rightarrow> step" where
  "again_fixed_trail data zalloc ctx cs trail_len p =
     trail_step data zalloc (ctx\<lparr> ctx_trail := trail_len, ctx_cs := cs \<rparr>) (p + 1)"

text \<open>The state \<^verbatim>\<open>MSGPACK_CS_HEADER\<close>.\<close>

definition header_step :: "bytes \<Rightarrow> (nat \<Rightarrow> bool) \<Rightarrow> template_context \<Rightarrow> nat \<Rightarrow> step" where
  "header_step data zalloc ctx p = (case array_get data p of
     None \<Rightarrow> None
   | Some b \<Rightarrow>
       if b \<le> 0x7f then push ctx p (template_callback_uint8 b)
       else if 0xe0 \<le> b then push ctx p (template_callback_int8 b)
       else if 0xc0 \<le> b \<and> b \<le> 0xdf then
         (if b = 0xc0 then push ctx p template_callback_nil
          else if b = 0xc2 then push ctx p template_callback_false
          else if b = 0xc3 then push ctx p template_callback_true
          else if 0xc4 \<le> b \<and> b \<le> 0xc6
            then again_fixed_trail data zalloc ctx (NEXT_CS b) (push_bit (unat (b AND 3)) 1) p
          else if 0xc7 \<le> b \<and> b \<le> 0xc9
            then again_fixed_trail data zalloc ctx (NEXT_CS b) (push_bit (unat ((b + 1) AND 3)) 1) p
          else if 0xca \<le> b \<and> b \<le> 0xd3
            then again_fixed_trail data zalloc ctx (NEXT_CS b) (push_bit (unat (b AND 3)) 1) p
          else if 0xd4 \<le> b \<and> b \<le> 0xd7
            then again_value data ctx MSGPACK_ACS_EXT_VALUE (push_bit (unat (b AND 3)) 1 + 1) 0 p
          else if b = 0xd8 then again_value data ctx MSGPACK_ACS_EXT_VALUE (16 + 1) 0 p
          else if 0xd9 \<le> b \<and> b \<le> 0xdb
            then again_fixed_trail data zalloc ctx (NEXT_CS b) (push_bit (unat (b AND 3) - 1) 1) p
          else if 0xdc \<le> b \<and> b \<le> 0xdf
            then again_fixed_trail data zalloc ctx (NEXT_CS b) (push_bit (unat (b AND 1)) 2) p
          else Some (Failed, ctx, p))
       else if 0xa0 \<le> b \<and> b \<le> 0xbf
         then again_value data ctx MSGPACK_ACS_STR_VALUE (ucast (b AND 0x1f)) 0 p
       else if 0x90 \<le> b \<and> b \<le> 0x9f
         then (let count = unat (b AND 0x0f)
               in start_container ctx p (template_callback_array zalloc count) count CT_ARRAY_ITEM)
       else (let count = unat (b AND 0x0f)
             in start_container ctx p (template_callback_map zalloc count) count CT_MAP_KEY))"

definition template_step :: "bytes \<Rightarrow> (nat \<Rightarrow> bool) \<Rightarrow> template_context \<Rightarrow> nat \<Rightarrow> step" where
  "template_step data zalloc ctx p =
     (if ctx_cs ctx = MSGPACK_CS_HEADER then header_step data zalloc ctx p
      else trail_step data zalloc ctx p)"

subsection \<open>The machine\<close>

text \<open>The loop \<^verbatim>\<open>do ... while(p != pe)\<close>; the result is the return value, the context and the
  position. A step always moves forward, and one that moves behind the end is undefined.\<close>

function template_loop :: "bytes \<Rightarrow> (nat \<Rightarrow> bool) \<Rightarrow> template_context \<Rightarrow> nat \<Rightarrow> (int \<times> template_context \<times> nat) option"
  where
  "template_loop data zalloc ctx p = (case template_step data zalloc ctx p of
     None \<Rightarrow> None
   | Some (Finish, ctx', p') \<Rightarrow> Some (1, ctx', p')
   | Some (Failed, ctx', p') \<Rightarrow> Some (- 1, ctx', p')
   | Some (Out, ctx', p') \<Rightarrow> Some (0, ctx', p')
   | Some (Header_again, ctx', p') \<Rightarrow>
       if p' = length data then Some (0, ctx', p')
       else if p < p' \<and> p' < length data then template_loop data zalloc ctx' p'
       else None)"
  by pat_completeness auto
termination by (relation "measure (\<lambda>(data, _, _, p). length data - p)") auto

declare template_loop.simps [simp del]

definition template_execute ::
    "(nat \<Rightarrow> bool) \<Rightarrow> template_context \<Rightarrow> bytes \<Rightarrow> nat \<Rightarrow> (int \<times> template_context \<times> nat) option" where
  "template_execute zalloc ctx data off =
     (if length data < off then None
      else if off = length data then Some (0, ctx, off)
      else template_loop data zalloc ctx off)"

subsection \<open>Unpacking in one go\<close>

datatype msgpack_unpack_return =
  UNPACK_SUCCESS | UNPACK_EXTRA_BYTES | UNPACK_CONTINUE | UNPACK_PARSE_ERROR | UNPACK_NOMEM_ERROR

definition fresh_context :: template_context where
  "fresh_context = (template_init \<lparr> ctx_referenced = False, ctx_cs = 0, ctx_trail = 0,
     ctx_stack = [], ctx_root = OBJECT_NIL \<rparr>)\<lparr> ctx_referenced := False \<rparr>"

text \<open>The result, the new value behind \<open>off\<close> and the object, if it is assigned.\<close>

definition msgpack_unpack ::
    "(nat \<Rightarrow> bool) \<Rightarrow> bytes \<Rightarrow> nat option \<Rightarrow>
     (msgpack_unpack_return \<times> nat option \<times> msgpack_object option) option" where
  "msgpack_unpack zalloc data off =
     (let noff = (case off of None \<Rightarrow> 0 | Some n \<Rightarrow> n)
      in if length data \<le> noff then Some (UNPACK_CONTINUE, off, None)
         else case template_execute zalloc fresh_context data noff of
           None \<Rightarrow> None
         | Some (e, ctx, noff') \<Rightarrow>
             if e < 0 then Some (UNPACK_PARSE_ERROR, off, None)
             else let off' = map_option (\<lambda>_. noff') off
                  in if e = 0 then Some (UNPACK_CONTINUE, off', None)
                     else if noff' < length data then Some (UNPACK_EXTRA_BYTES, off', Some (template_data ctx))
                     else Some (UNPACK_SUCCESS, off', Some (template_data ctx)))"

subsection \<open>What a header byte leads to\<close>

lemma header_codes:
  "array_get data p = Some 0xc0 \<Longrightarrow> header_step data z ctx p = push ctx p OBJECT_NIL"
  "array_get data p = Some 0xc2 \<Longrightarrow> header_step data z ctx p = push ctx p (OBJECT_BOOLEAN False)"
  "array_get data p = Some 0xc3 \<Longrightarrow> header_step data z ctx p = push ctx p (OBJECT_BOOLEAN True)"
  by (simp_all add: header_step_def template_callback_nil_def template_callback_true_def
      template_callback_false_def)

lemma header_trails:
  "array_get data p = Some 0xc4 \<Longrightarrow> header_step data z ctx p = again_fixed_trail data z ctx 4 1 p"
  "array_get data p = Some 0xc5 \<Longrightarrow> header_step data z ctx p = again_fixed_trail data z ctx 5 2 p"
  "array_get data p = Some 0xc6 \<Longrightarrow> header_step data z ctx p = again_fixed_trail data z ctx 6 4 p"
  "array_get data p = Some 0xc7 \<Longrightarrow> header_step data z ctx p = again_fixed_trail data z ctx 7 1 p"
  "array_get data p = Some 0xc8 \<Longrightarrow> header_step data z ctx p = again_fixed_trail data z ctx 8 2 p"
  "array_get data p = Some 0xc9 \<Longrightarrow> header_step data z ctx p = again_fixed_trail data z ctx 9 4 p"
  "array_get data p = Some 0xca \<Longrightarrow> header_step data z ctx p = again_fixed_trail data z ctx 10 4 p"
  "array_get data p = Some 0xcb \<Longrightarrow> header_step data z ctx p = again_fixed_trail data z ctx 11 8 p"
  "array_get data p = Some 0xcc \<Longrightarrow> header_step data z ctx p = again_fixed_trail data z ctx 12 1 p"
  "array_get data p = Some 0xcd \<Longrightarrow> header_step data z ctx p = again_fixed_trail data z ctx 13 2 p"
  "array_get data p = Some 0xce \<Longrightarrow> header_step data z ctx p = again_fixed_trail data z ctx 14 4 p"
  "array_get data p = Some 0xcf \<Longrightarrow> header_step data z ctx p = again_fixed_trail data z ctx 15 8 p"
  "array_get data p = Some 0xd0 \<Longrightarrow> header_step data z ctx p = again_fixed_trail data z ctx 16 1 p"
  "array_get data p = Some 0xd1 \<Longrightarrow> header_step data z ctx p = again_fixed_trail data z ctx 17 2 p"
  "array_get data p = Some 0xd2 \<Longrightarrow> header_step data z ctx p = again_fixed_trail data z ctx 18 4 p"
  "array_get data p = Some 0xd3 \<Longrightarrow> header_step data z ctx p = again_fixed_trail data z ctx 19 8 p"
  "array_get data p = Some 0xd9 \<Longrightarrow> header_step data z ctx p = again_fixed_trail data z ctx 25 1 p"
  "array_get data p = Some 0xda \<Longrightarrow> header_step data z ctx p = again_fixed_trail data z ctx 26 2 p"
  "array_get data p = Some 0xdb \<Longrightarrow> header_step data z ctx p = again_fixed_trail data z ctx 27 4 p"
  "array_get data p = Some 0xdc \<Longrightarrow> header_step data z ctx p = again_fixed_trail data z ctx 28 2 p"
  "array_get data p = Some 0xdd \<Longrightarrow> header_step data z ctx p = again_fixed_trail data z ctx 29 4 p"
  "array_get data p = Some 0xde \<Longrightarrow> header_step data z ctx p = again_fixed_trail data z ctx 30 2 p"
  "array_get data p = Some 0xdf \<Longrightarrow> header_step data z ctx p = again_fixed_trail data z ctx 31 4 p"
  by (simp_all add: header_step_def NEXT_CS_def)

lemma header_fixext:
  "array_get data p = Some 0xd4 \<Longrightarrow> header_step data z ctx p = again_value data ctx 0x22 2 0 p"
  "array_get data p = Some 0xd5 \<Longrightarrow> header_step data z ctx p = again_value data ctx 0x22 3 0 p"
  "array_get data p = Some 0xd6 \<Longrightarrow> header_step data z ctx p = again_value data ctx 0x22 5 0 p"
  "array_get data p = Some 0xd7 \<Longrightarrow> header_step data z ctx p = again_value data ctx 0x22 9 0 p"
  "array_get data p = Some 0xd8 \<Longrightarrow> header_step data z ctx p = again_value data ctx 0x22 17 0 p"
  by (simp_all add: header_step_def)

end
