(* ===== verification/MsgpackRoundtrip.thy ===== *)
theory MsgpackRoundtrip
  imports MsgpackUnpack
begin

unbundle bit_operations_syntax

text \<open>
  The deserializer reads what the serializer writes: the state machine of \<open>MsgpackUnpack\<close> run on the
  encoding of an object, wherever it stands in the data, finishes with that object right behind it.
\<close>

subsection \<open>Steps on known data\<close>

text \<open>The data has the trail \<open>bs\<close> behind the prefix \<open>pre\<close>.\<close>

lemma trail_at:
  fixes k :: u32
  assumes "data = pre @ bs @ rest" "unat k = length bs" "bs \<noteq> []"
  shows "\<not> length data - length pre < unat k" "drop (length pre) data = bs @ rest"
    "length pre + unat (k - 1) = length pre + length bs - 1"
proof -
  have "1 \<le> unat k" using assms(2,3) by (cases bs) auto
  then have "unat (k - 1) = unat k - 1"
    by (metis unat_1 unat_sub word_le_nat_alt)
  then show "length pre + unat (k - 1) = length pre + length bs - 1"
    using assms(2,3) by (cases bs) auto
qed (use assms in auto)

text \<open>A header byte followed by a trail of the right length.\<close>

lemma fixed_trail_eq:
  assumes "data = pre @ b # bs @ rest" "unat k = length bs" "bs \<noteq> []"
  shows "again_fixed_trail data z ctx cs k (length pre)
      = trail_switch data z (ctx\<lparr> ctx_trail := k, ctx_cs := cs \<rparr>) (Suc (length pre)) (length pre + length bs)"
proof -
  note at = trail_at [of data "pre @ [b]" bs rest k, simplified]
  have e: "Suc (length pre + unat (k - 1)) = length pre + length bs"
    using at(3) assms by (cases bs) auto
  show "again_fixed_trail data z ctx cs k (length pre)
      = trail_switch data z (ctx\<lparr> ctx_trail := k, ctx_cs := cs \<rparr>) (Suc (length pre)) (length pre + length bs)"
    using at(1) assms by (simp add: again_fixed_trail_def trail_step_def e)
qed

lemma drop_header: "data = pre @ b # bs \<Longrightarrow> drop (Suc (length pre)) data = bs"
  by simp

lemma get_header: "data = pre @ b # bs \<Longrightarrow> array_get data (Suc (length pre)) = array_get bs 0"
  by (simp add: array_get_def nth_append)

text \<open>What each state does with its trail.\<close>

lemma trail_switches:
  "ctx_cs ctx = 10 \<Longrightarrow> trail_switch data z ctx n p
     = Option.bind (msgpack_load32 (drop n data)) (\<lambda>v. push ctx p (template_callback_float v))"
  "ctx_cs ctx = 11 \<Longrightarrow> trail_switch data z ctx n p
     = Option.bind (msgpack_load64 (drop n data)) (\<lambda>v. push ctx p (template_callback_double v))"
  "ctx_cs ctx = 12 \<Longrightarrow> trail_switch data z ctx n p
     = Option.bind (array_get data n) (\<lambda>v. push ctx p (template_callback_uint8 v))"
  "ctx_cs ctx = 13 \<Longrightarrow> trail_switch data z ctx n p
     = Option.bind (msgpack_load16 (drop n data)) (\<lambda>v. push ctx p (template_callback_uint16 v))"
  "ctx_cs ctx = 14 \<Longrightarrow> trail_switch data z ctx n p
     = Option.bind (msgpack_load32 (drop n data)) (\<lambda>v. push ctx p (template_callback_uint32 v))"
  "ctx_cs ctx = 15 \<Longrightarrow> trail_switch data z ctx n p
     = Option.bind (msgpack_load64 (drop n data)) (\<lambda>v. push ctx p (template_callback_uint64 v))"
  "ctx_cs ctx = 16 \<Longrightarrow> trail_switch data z ctx n p
     = Option.bind (array_get data n) (\<lambda>v. push ctx p (template_callback_int8 v))"
  "ctx_cs ctx = 17 \<Longrightarrow> trail_switch data z ctx n p
     = Option.bind (msgpack_load16 (drop n data)) (\<lambda>v. push ctx p (template_callback_int16 v))"
  "ctx_cs ctx = 18 \<Longrightarrow> trail_switch data z ctx n p
     = Option.bind (msgpack_load32 (drop n data)) (\<lambda>v. push ctx p (template_callback_int32 v))"
  "ctx_cs ctx = 19 \<Longrightarrow> trail_switch data z ctx n p
     = Option.bind (msgpack_load64 (drop n data)) (\<lambda>v. push ctx p (template_callback_int64 v))"
  "ctx_cs ctx = 25 \<Longrightarrow> trail_switch data z ctx n p
     = Option.bind (array_get data n) (\<lambda>v. again_value data ctx 0x20 (ucast v) n p)"
  "ctx_cs ctx = 4 \<Longrightarrow> trail_switch data z ctx n p
     = Option.bind (array_get data n) (\<lambda>v. again_value data ctx 0x21 (ucast v) n p)"
  "ctx_cs ctx = 7 \<Longrightarrow> trail_switch data z ctx n p
     = Option.bind (array_get data n) (\<lambda>v. again_value data ctx 0x22 (ucast v + 1) n p)"
  "ctx_cs ctx = 26 \<Longrightarrow> trail_switch data z ctx n p
     = Option.bind (msgpack_load16 (drop n data)) (\<lambda>v. again_value data ctx 0x20 (ucast v) n p)"
  "ctx_cs ctx = 5 \<Longrightarrow> trail_switch data z ctx n p
     = Option.bind (msgpack_load16 (drop n data)) (\<lambda>v. again_value data ctx 0x21 (ucast v) n p)"
  "ctx_cs ctx = 8 \<Longrightarrow> trail_switch data z ctx n p
     = Option.bind (msgpack_load16 (drop n data)) (\<lambda>v. again_value data ctx 0x22 (ucast v + 1) n p)"
  "ctx_cs ctx = 27 \<Longrightarrow> trail_switch data z ctx n p
     = Option.bind (msgpack_load32 (drop n data)) (\<lambda>v. again_value data ctx 0x20 v n p)"
  "ctx_cs ctx = 6 \<Longrightarrow> trail_switch data z ctx n p
     = Option.bind (msgpack_load32 (drop n data)) (\<lambda>v. again_value data ctx 0x21 v n p)"
  "ctx_cs ctx = 9 \<Longrightarrow> trail_switch data z ctx n p
     = Option.bind (msgpack_load32 (drop n data)) (\<lambda>v. again_value data ctx 0x22 (v + 1) n p)"
  "ctx_cs ctx = 28 \<Longrightarrow> trail_switch data z ctx n p
     = Option.bind (msgpack_load16 (drop n data)) (\<lambda>v. start_container ctx p (template_callback_array z (unat v)) (unat v) CT_ARRAY_ITEM)"
  "ctx_cs ctx = 29 \<Longrightarrow> trail_switch data z ctx n p
     = Option.bind (msgpack_load32 (drop n data)) (\<lambda>v. start_container ctx p (template_callback_array z (unat v)) (unat v) CT_ARRAY_ITEM)"
  "ctx_cs ctx = 30 \<Longrightarrow> trail_switch data z ctx n p
     = Option.bind (msgpack_load16 (drop n data)) (\<lambda>v. start_container ctx p (template_callback_map z (unat v)) (unat v) CT_MAP_KEY)"
  "ctx_cs ctx = 31 \<Longrightarrow> trail_switch data z ctx n p
     = Option.bind (msgpack_load32 (drop n data)) (\<lambda>v. start_container ctx p (template_callback_map z (unat v)) (unat v) CT_MAP_KEY)"
  by (simp_all add: trail_switch_def Let_def)

lemma load_be_int [simp]:
  "msgpack_load16 (be_int 2 v @ rest) = Some (word_of_int v)"
  "msgpack_load32 (be_int 4 v @ rest) = Some (word_of_int v)"
  "msgpack_load64 (be_int 8 v @ rest) = Some (word_of_int v)"
  using load_store(1) [of "word_of_int v" rest] load_store(2) [of "word_of_int v" rest]
    load_store(3) [of "word_of_int v" rest]
    be_store_of_int [of 2 v, where 'w = 16] be_store_of_int [of 4 v, where 'w = 32]
    be_store_of_int [of 8 v, where 'w = 64]
  unfolding store_defs by simp_all

subsection \<open>Integers\<close>

definition obj_of_int :: "int \<Rightarrow> msgpack_object" where
  "obj_of_int v = (if 0 \<le> v then OBJECT_POSITIVE_INTEGER (word_of_int v)
     else OBJECT_NEGATIVE_INTEGER (word_of_int v))"

lemma ucast_word_of_int: "0 \<le> v \<Longrightarrow> v < 2 ^ LENGTH('a) \<Longrightarrow>
    (ucast (word_of_int v :: 'a::len word) :: 'b::len word) = word_of_int v"
  by (simp add: unsigned_of_int take_bit_int_eq_self)

lemma sint_word_of_int: "- (2 ^ (LENGTH('a) - 1)) \<le> v \<Longrightarrow> v < 2 ^ (LENGTH('a) - 1) \<Longrightarrow>
    sint (word_of_int v :: 'a::len word) = v"
  by (simp add: signed_of_int signed_take_bit_int_eq_self)

lemma scast_word_of_int: "- (2 ^ (LENGTH('a) - 1)) \<le> v \<Longrightarrow> v < 2 ^ (LENGTH('a) - 1) \<Longrightarrow>
    (scast (word_of_int v :: 'a::len word) :: 'b::len word) = word_of_int v"
  by (simp add: signed_of_int signed_take_bit_int_eq_self)

lemma callback_uint:
  "0 \<le> v \<Longrightarrow> v < 2 ^ 8 \<Longrightarrow> template_callback_uint8 (word_of_int v) = obj_of_int v"
  "0 \<le> v \<Longrightarrow> v < 2 ^ 16 \<Longrightarrow> template_callback_uint16 (word_of_int v) = obj_of_int v"
  "0 \<le> v \<Longrightarrow> v < 2 ^ 32 \<Longrightarrow> template_callback_uint32 (word_of_int v) = obj_of_int v"
  "0 \<le> v \<Longrightarrow> v < 2 ^ 64 \<Longrightarrow> template_callback_uint64 (word_of_int v) = obj_of_int v"
  by (simp_all add: template_callback_uint8_def template_callback_uint16_def template_callback_uint32_def
      template_callback_uint64_def obj_of_int_def ucast_word_of_int)

lemma callback_int:
  "- (2 ^ 7) \<le> v \<Longrightarrow> v < 0 \<Longrightarrow> template_callback_int8 (word_of_int v) = obj_of_int v"
  "- (2 ^ 15) \<le> v \<Longrightarrow> v < 0 \<Longrightarrow> template_callback_int16 (word_of_int v) = obj_of_int v"
  "- (2 ^ 31) \<le> v \<Longrightarrow> v < 0 \<Longrightarrow> template_callback_int32 (word_of_int v) = obj_of_int v"
  "- (2 ^ 63) \<le> v \<Longrightarrow> v < 0 \<Longrightarrow> template_callback_int64 (word_of_int v) = obj_of_int v"
  by (simp_all add: template_callback_int8_def template_callback_int16_def template_callback_int32_def
      template_callback_int64_def obj_of_int_def scast_word_of_int sint_word_of_int)

text \<open>What a step is after which \<open>ob\<close> is pushed, with its last byte before \<open>q\<close> and the same stack.\<close>

definition pushes :: "template_context \<Rightarrow> nat \<Rightarrow> msgpack_object \<Rightarrow> step \<Rightarrow> bool" where
  "pushes ctx q ob r \<longleftrightarrow> (\<exists>ctx'. ctx_stack ctx' = ctx_stack ctx \<and> r = push ctx' (q - 1) ob)"

lemma pushesI: "ctx_stack ctx' = ctx_stack ctx \<Longrightarrow> q' = q - 1 \<Longrightarrow> pushes ctx q ob (push ctx' q' ob)"
  by (auto simp: pushes_def)

lemma step_int:
  assumes "data = pre @ enc_int v @ rest" "ctx_cs ctx = 0" "- (2 ^ 63) \<le> v" "v < 2 ^ 64"
  shows "pushes ctx (length pre + length (enc_int v)) (obj_of_int v) (template_step data z ctx (length pre))"
proof -
  have hdr: "template_step data z ctx (length pre) = header_step data z ctx (length pre)"
    using assms(2) by (simp add: template_step_def)
  have get: "array_get data (length pre) = Some b" if "enc_int v = b # bs" for b bs
    using assms(1) that by simp
  consider (fixed) "- 32 \<le> v" "v < 128"
    | (u8) "128 \<le> v" "v < 2 ^ 8" | (u16) "2 ^ 8 \<le> v" "v < 2 ^ 16"
    | (u32) "2 ^ 16 \<le> v" "v < 2 ^ 32" | (u64) "2 ^ 32 \<le> v" "v < 2 ^ 64"
    | (i8) "- (2 ^ 7) \<le> v" "v < - 32" | (i16) "- (2 ^ 15) \<le> v" "v < - (2 ^ 7)"
    | (i32) "- (2 ^ 31) \<le> v" "v < - (2 ^ 15)" | (i64) "- (2 ^ 63) \<le> v" "v < - (2 ^ 31)"
    using assms(3,4) by (simp, arith)
  then show ?thesis
  proof cases
    case fixed
    have get: "array_get data (length pre) = Some (word_of_int v)"
      using fixed by (intro get) (simp add: enc_int_def)
    show ?thesis
    proof (cases "0 \<le> v")
      case True
      then have "(word_of_int v :: u8) \<le> 0x7f"
        using fixed by (simp add: word_le_def unsigned_of_int take_bit_int_eq_self)
      then show ?thesis
        using True fixed get by (auto simp: hdr header_step_def callback_uint enc_int_def intro!: pushesI)
    next
      case False
      have "uint (word_of_int v :: u8) = v + 256"
        using False fixed by (simp add: unsigned_of_int take_bit_eq_mod) (presburger)
      then have "\<not> (word_of_int v :: u8) \<le> 0x7f" "0xe0 \<le> (word_of_int v :: u8)"
        using False fixed by (simp_all add: word_le_def)
      then show ?thesis
        using False fixed get by (auto simp: hdr header_step_def callback_int enc_int_def intro!: pushesI)
    qed
  next
    case u8
    then have e: "enc_int v = 0xcc # be_int 1 v" by (simp add: enc_int_def)
    have d: "data = pre @ 0xcc # be_int 1 v @ rest" using assms(1) e by simp
    show ?thesis
      using u8
      by (simp add: e hdr header_trails(9) [OF get [OF e]] fixed_trail_eq [OF d] drop_header [OF d] get_header [OF d] trail_switches callback_uint pushesI del: be_int_numeral)
  next
    case u16
    then have e: "enc_int v = 0xcd # be_int 2 v" by (simp add: enc_int_def del: be_int_numeral)
    have d: "data = pre @ 0xcd # be_int 2 v @ rest" using assms(1) e by simp
    show ?thesis
      using u16
      by (simp add: e hdr header_trails(10) [OF get [OF e]] fixed_trail_eq [OF d] drop_header [OF d] get_header [OF d] trail_switches callback_uint pushesI del: be_int_numeral)
  next
    case u32
    then have e: "enc_int v = 0xce # be_int 4 v" by (simp add: enc_int_def del: be_int_numeral)
    have d: "data = pre @ 0xce # be_int 4 v @ rest" using assms(1) e by simp
    show ?thesis
      using u32
      by (simp add: e hdr header_trails(11) [OF get [OF e]] fixed_trail_eq [OF d] drop_header [OF d] get_header [OF d] trail_switches callback_uint pushesI del: be_int_numeral)
  next
    case u64
    then have e: "enc_int v = 0xcf # be_int 8 v" by (simp add: enc_int_def del: be_int_numeral)
    have d: "data = pre @ 0xcf # be_int 8 v @ rest" using assms(1) e by simp
    show ?thesis
      using u64
      by (simp add: e hdr header_trails(12) [OF get [OF e]] fixed_trail_eq [OF d] drop_header [OF d] get_header [OF d] trail_switches callback_uint pushesI del: be_int_numeral)
  next
    case i8
    then have e: "enc_int v = 0xd0 # be_int 1 v" by (simp add: enc_int_def)
    have d: "data = pre @ 0xd0 # be_int 1 v @ rest" using assms(1) e by simp
    show ?thesis
      using i8
      by (simp add: e hdr header_trails(13) [OF get [OF e]] fixed_trail_eq [OF d] drop_header [OF d] get_header [OF d] trail_switches callback_int pushesI del: be_int_numeral)
  next
    case i16
    then have e: "enc_int v = 0xd1 # be_int 2 v" by (simp add: enc_int_def del: be_int_numeral)
    have d: "data = pre @ 0xd1 # be_int 2 v @ rest" using assms(1) e by simp
    show ?thesis
      using i16
      by (simp add: e hdr header_trails(14) [OF get [OF e]] fixed_trail_eq [OF d] drop_header [OF d] get_header [OF d] trail_switches callback_int pushesI del: be_int_numeral)
  next
    case i32
    then have e: "enc_int v = 0xd2 # be_int 4 v" by (simp add: enc_int_def del: be_int_numeral)
    have d: "data = pre @ 0xd2 # be_int 4 v @ rest" using assms(1) e by simp
    show ?thesis
      using i32
      by (simp add: e hdr header_trails(15) [OF get [OF e]] fixed_trail_eq [OF d] drop_header [OF d] get_header [OF d] trail_switches callback_int pushesI del: be_int_numeral)
  next
    case i64
    then have e: "enc_int v = 0xd3 # be_int 8 v" by (simp add: enc_int_def del: be_int_numeral)
    have d: "data = pre @ 0xd3 # be_int 8 v @ rest" using assms(1) e by simp
    show ?thesis
      using i64
      by (simp add: e hdr header_trails(16) [OF get [OF e]] fixed_trail_eq [OF d] drop_header [OF d] get_header [OF d] trail_switches callback_int pushesI del: be_int_numeral)
  qed
qed

subsection \<open>Strings, binaries and extensions\<close>

lemma again_value_eq:
  assumes "data = pre @ bs @ rest" "pre \<noteq> []" "unat k = length bs"
  shows "again_value data ctx acs k n (length pre - 1) =
    (if bs = [] then variable_value data (ctx\<lparr> ctx_trail := k \<rparr>) acs n (length pre - 1)
     else variable_value data (ctx\<lparr> ctx_trail := k, ctx_cs := acs \<rparr>) acs (length pre) (length pre + length bs - 1))"
proof (cases "bs = []")
  case True
  with assms(3) have "k = 0" by (simp add: unat_eq_0)
  with True show ?thesis by (simp add: again_value_def Let_def)
next
  case False
  with assms(3) have "k \<noteq> 0" by auto
  with False trail_at [OF assms(1,3) False] assms(2) show ?thesis
    by (simp add: again_value_def Let_def)
qed

lemma slice_at: "data = pre @ bs @ rest \<Longrightarrow> l = length bs \<Longrightarrow> slice data (length pre) l = Some bs"
  by (auto simp: slice_def)

lemma slice_0 [simp]: "slice data n 0 = Some []"
  by (simp add: slice_def)

lemma str_value:
  assumes "data = pre @ bs @ rest" "pre \<noteq> []" "unat k = length bs"
  shows "pushes ctx (length pre + length bs) (OBJECT_STR bs) (again_value data ctx 0x20 k n (length pre - 1))"
    and "pushes ctx (length pre + length bs) (OBJECT_BIN bs) (again_value data ctx 0x21 k n (length pre - 1))"
  using slice_at [OF assms(1) refl] assms(3)
  by (auto simp: again_value_eq [OF assms(1-3), simplified] variable_value_def push_variable_def
      template_callback_str_def template_callback_bin_def intro!: pushesI)

lemma ext_value:
  assumes "data = pre @ (t # bs) @ rest" "pre \<noteq> []" "unat k = Suc (length bs)"
  shows "pushes ctx (length pre + Suc (length bs)) (OBJECT_EXT t bs)
      (again_value data ctx 0x22 k n (length pre - 1))"
proof -
  have k: "unat (k - 1) = length bs"
    using trail_at(3) [OF assms(1), of k] assms(3) by simp
  have "slice data (Suc (length pre)) (length bs) = Some bs"
    using slice_at [of data "pre @ [t]" bs rest] assms(1) by simp
  then have "template_callback_ext data (length pre) k = Some (OBJECT_EXT t bs)"
    using assms(1) by (simp add: template_callback_ext_def k)
  with assms show ?thesis
    using again_value_eq [of data pre "t # bs" rest k]
    by (auto simp: variable_value_def push_variable_def intro!: pushesI)
qed

lemma unat_byte: "m < 256 \<Longrightarrow> unat (word_of_nat m :: u8) = m"
  by (simp add: unsigned_of_nat take_bit_nat_eq_self)

lemma unat_and_mask: "unat ((w :: u8) AND 0x1f) = unat w mod 32" "unat ((w :: u8) AND 0x0f) = unat w mod 16"
proof -
  have "w AND 0x1f = take_bit 5 w" "w AND 0x0f = take_bit 4 w"
    by (simp_all add: take_bit_eq_mask mask_eq_exp_minus_1)
  then show "unat (w AND 0x1f) = unat w mod 32" "unat (w AND 0x0f) = unat w mod 16"
    by (simp_all only: unsigned_take_bit_eq) (simp_all add: take_bit_eq_mod)
qed

lemma fix_byte:
  assumes "n < 32"
  shows "unat (0xa0 + word_of_nat n :: u8) = 160 + n"
    "n < 16 \<Longrightarrow> unat (0x90 + word_of_nat n :: u8) = 144 + n"
    "n < 16 \<Longrightarrow> unat (0x80 + word_of_nat n :: u8) = 128 + n"
  using assms unat_byte [of "160 + n"] unat_byte [of "144 + n"] unat_byte [of "128 + n"] by simp_all

lemma step_header: "ctx_cs ctx = 0 \<Longrightarrow> template_step data z ctx p = header_step data z ctx p"
  by (simp add: template_step_def)

lemma unat_ucast_u8: "unat (ucast (w :: u8) :: u32) = unat w"
proof -
  have "unat w < 2 ^ 32" using unsigned_less [of w, where 'a = nat] by simp
  then have "take_bit 32 (unat w) = unat w" by (rule take_bit_nat_eq_self)
  then show ?thesis
    using unsigned_ucast_eq [of w, where 'a = nat and 'c = 32] by simp
qed

lemma unat_len: "n < 2 ^ LENGTH('w) \<Longrightarrow> unat (word_of_nat n :: 'w::len word) = n"
  by (simp add: unsigned_of_nat take_bit_nat_eq_self)

lemma ucast_len: "n < 2 ^ LENGTH('w) \<Longrightarrow> (ucast (word_of_nat n :: 'w::len word) :: u32) = word_of_nat n"
  by (simp add: unsigned_of_nat take_bit_nat_eq_self)

text \<open>A length that has a trail of its own is followed by the bytes.\<close>

lemma str_trail:
  assumes "data = pre @ (b # be_int m (int (length s))) @ s @ rest" "0 < m"
    "unat k = length s" "ctx_stack ctx' = ctx_stack ctx"
  shows "pushes ctx (length pre + Suc (m + length s)) (OBJECT_STR s)
      (again_value data ctx' 0x20 k n (length pre + m))"
    and "pushes ctx (length pre + Suc (m + length s)) (OBJECT_BIN s)
      (again_value data ctx' 0x21 k n (length pre + m))"
  using str_value [of data "pre @ b # be_int m (int (length s))" s rest k ctx' n] assms
  by (simp_all add: pushes_def add.assoc)

lemma var_step:
  assumes "data = pre @ b # be_int m v @ rest" "ctx_cs ctx = 0"
    and "header_step data z ctx (length pre) = again_fixed_trail data z ctx cs k (length pre)"
    and "unat k = m" "0 < m"
    and "\<And>c. trail_switch data z (ctx\<lparr> ctx_trail := k, ctx_cs := cs \<rparr>) (Suc (length pre)) c
      = again_value data (ctx\<lparr> ctx_trail := k, ctx_cs := cs \<rparr>) acs kk (Suc (length pre)) c"
  shows "template_step data z ctx (length pre)
    = again_value data (ctx\<lparr> ctx_trail := k, ctx_cs := cs \<rparr>) acs kk (Suc (length pre)) (length pre + m)"
  using fixed_trail_eq [OF assms(1)] assms(2-6) by (simp add: step_header)

lemma step_str:
  assumes "data = pre @ hdr_str (length s) @ s @ rest" "ctx_cs ctx = 0" "length s < 2 ^ 32"
  shows "pushes ctx (length pre + length (hdr_str (length s) @ s)) (OBJECT_STR s)
      (template_step data z ctx (length pre))"
proof -
  let ?n = "length s"
  have get: "array_get data (length pre) = Some b" if "hdr_str ?n = b # bs" for b bs
    using assms(1) that by simp
  consider (fixed) "?n < 32" | (s8) "32 \<le> ?n" "?n < 2 ^ 8" | (s16) "2 ^ 8 \<le> ?n" "?n < 2 ^ 16"
    | (s32) "2 ^ 16 \<le> ?n" "?n < 2 ^ 32"
    using assms(3) by linarith
  then show ?thesis
  proof cases
    case fixed
    then have h: "hdr_str ?n = [0xa0 + word_of_nat ?n]" by (simp add: hdr_str_def)
    note b = fix_byte(1) [OF fixed]
    have k: "unat (ucast ((0xa0 + word_of_nat ?n :: u8) AND 0x1f) :: u32) = ?n"
    proof -
      have "(160 + ?n) mod 32 = ?n" using fixed mod_mult_self4 [of 32 5 ?n] by simp
      then show ?thesis by (simp only: unat_ucast_u8 unat_and_mask b)
    qed
    have le: "\<not> 0xa0 + word_of_nat ?n \<le> (0x7f :: u8)" "\<not> 0xe0 \<le> (0xa0 + word_of_nat ?n :: u8)"
      "\<not> 0xc0 \<le> (0xa0 + word_of_nat ?n :: u8)" "0xa0 \<le> (0xa0 + word_of_nat ?n :: u8)"
      "0xa0 + word_of_nat ?n \<le> (0xbf :: u8)"
      using fixed unfolding word_le_nat_alt b by simp_all
    have "header_step data z ctx (length pre)
        = again_value data ctx 0x20 (ucast ((0xa0 + word_of_nat ?n :: u8) AND 0x1f)) 0 (length pre)"
      by (simp only: header_step_def get [OF h] le option.case if_True if_False simp_thms)
    then show ?thesis
      using str_value(1) [of data "pre @ hdr_str ?n" s rest _ ctx 0] assms k
      by (simp add: step_header h)
  next
    case s8
    then have h: "hdr_str ?n = 0xd9 # be_int 1 (int ?n)" by (simp add: hdr_str_def)
    have d: "data = pre @ 0xd9 # be_int 1 (int ?n) @ s @ rest" using assms(1) h by simp
    have "template_step data z ctx (length pre) = again_value data
        (ctx\<lparr> ctx_trail := 1, ctx_cs := 25 \<rparr>) 0x20 (word_of_nat ?n) (Suc (length pre)) (length pre + 1)"
      by (rule var_step [OF d assms(2) header_trails(17) [OF get [OF h]]])
        (use s8 in \<open>simp_all add: trail_switches drop_header [OF d] get_header [OF d] ucast_len\<close>)
    then show ?thesis
      using str_trail(1) [of data pre "0xd9" 1 s rest "word_of_nat ?n" "ctx\<lparr> ctx_trail := 1, ctx_cs := 25 \<rparr>" ctx "Suc (length pre)"] s8
      by (simp add: h d unat_len [of _, where 'w = 32, simplified])
  next
    case s16
    then have h: "hdr_str ?n = 0xda # be_int 2 (int ?n)" by (simp add: hdr_str_def del: be_int_numeral)
    have d: "data = pre @ 0xda # be_int 2 (int ?n) @ s @ rest" using assms(1) h by simp
    have "template_step data z ctx (length pre) = again_value data
        (ctx\<lparr> ctx_trail := 2, ctx_cs := 26 \<rparr>) 0x20 (word_of_nat ?n) (Suc (length pre)) (length pre + 2)"
      by (rule var_step [OF d assms(2) header_trails(18) [OF get [OF h]]])
        (use s16 in \<open>simp_all add: trail_switches drop_header [OF d] get_header [OF d] ucast_len del: be_int_numeral\<close>)
    then show ?thesis
      using str_trail(1) [of data pre "0xda" 2 s rest "word_of_nat ?n" "ctx\<lparr> ctx_trail := 2, ctx_cs := 26 \<rparr>" ctx "Suc (length pre)"] s16
      by (simp add: h d unat_len [of _, where 'w = 32, simplified] del: be_int_numeral)
  next
    case s32
    then have h: "hdr_str ?n = 0xdb # be_int 4 (int ?n)" by (simp add: hdr_str_def del: be_int_numeral)
    have d: "data = pre @ 0xdb # be_int 4 (int ?n) @ s @ rest" using assms(1) h by simp
    have "template_step data z ctx (length pre) = again_value data
        (ctx\<lparr> ctx_trail := 4, ctx_cs := 27 \<rparr>) 0x20 (word_of_nat ?n) (Suc (length pre)) (length pre + 4)"
      by (rule var_step [OF d assms(2) header_trails(19) [OF get [OF h]]])
        (use s32 in \<open>simp_all add: trail_switches drop_header [OF d] get_header [OF d] ucast_len del: be_int_numeral\<close>)
    then show ?thesis
      using str_trail(1) [of data pre "0xdb" 4 s rest "word_of_nat ?n" "ctx\<lparr> ctx_trail := 4, ctx_cs := 27 \<rparr>" ctx "Suc (length pre)"] s32
      by (simp add: h d unat_len [of _, where 'w = 32, simplified] del: be_int_numeral)
  qed
qed

lemma step_bin:
  assumes "data = pre @ hdr_bin (length s) @ s @ rest" "ctx_cs ctx = 0" "length s < 2 ^ 32"
  shows "pushes ctx (length pre + length (hdr_bin (length s) @ s)) (OBJECT_BIN s)
      (template_step data z ctx (length pre))"
proof -
  let ?n = "length s"
  have get: "array_get data (length pre) = Some b" if "hdr_bin ?n = b # bs" for b bs
    using assms(1) that by simp
  consider (s8) "?n < 2 ^ 8" | (s16) "2 ^ 8 \<le> ?n" "?n < 2 ^ 16" | (s32) "2 ^ 16 \<le> ?n" "?n < 2 ^ 32"
    using assms(3) by linarith
  then show ?thesis
  proof cases
    case s8
    then have h: "hdr_bin ?n = 0xc4 # be_int 1 (int ?n)" by (simp add: hdr_bin_def)
    have d: "data = pre @ 0xc4 # be_int 1 (int ?n) @ s @ rest" using assms(1) h by simp
    have "template_step data z ctx (length pre) = again_value data
        (ctx\<lparr> ctx_trail := 1, ctx_cs := 4 \<rparr>) 0x21 (word_of_nat ?n) (Suc (length pre)) (length pre + 1)"
      by (rule var_step [OF d assms(2) header_trails(1) [OF get [OF h]]])
        (use s8 in \<open>simp_all add: trail_switches drop_header [OF d] get_header [OF d] ucast_len\<close>)
    then show ?thesis
      using str_trail(2) [of data pre "0xc4" 1 s rest "word_of_nat ?n" "ctx\<lparr> ctx_trail := 1, ctx_cs := 4 \<rparr>" ctx "Suc (length pre)"] s8
      by (simp add: h d unat_len [of _, where 'w = 32, simplified])
  next
    case s16
    then have h: "hdr_bin ?n = 0xc5 # be_int 2 (int ?n)" by (simp add: hdr_bin_def del: be_int_numeral)
    have d: "data = pre @ 0xc5 # be_int 2 (int ?n) @ s @ rest" using assms(1) h by simp
    have "template_step data z ctx (length pre) = again_value data
        (ctx\<lparr> ctx_trail := 2, ctx_cs := 5 \<rparr>) 0x21 (word_of_nat ?n) (Suc (length pre)) (length pre + 2)"
      by (rule var_step [OF d assms(2) header_trails(2) [OF get [OF h]]])
        (use s16 in \<open>simp_all add: trail_switches drop_header [OF d] get_header [OF d] ucast_len del: be_int_numeral\<close>)
    then show ?thesis
      using str_trail(2) [of data pre "0xc5" 2 s rest "word_of_nat ?n" "ctx\<lparr> ctx_trail := 2, ctx_cs := 5 \<rparr>" ctx "Suc (length pre)"] s16
      by (simp add: h d unat_len [of _, where 'w = 32, simplified] del: be_int_numeral)
  next
    case s32
    then have h: "hdr_bin ?n = 0xc6 # be_int 4 (int ?n)" by (simp add: hdr_bin_def del: be_int_numeral)
    have d: "data = pre @ 0xc6 # be_int 4 (int ?n) @ s @ rest" using assms(1) h by simp
    have "template_step data z ctx (length pre) = again_value data
        (ctx\<lparr> ctx_trail := 4, ctx_cs := 6 \<rparr>) 0x21 (word_of_nat ?n) (Suc (length pre)) (length pre + 4)"
      by (rule var_step [OF d assms(2) header_trails(3) [OF get [OF h]]])
        (use s32 in \<open>simp_all add: trail_switches drop_header [OF d] get_header [OF d] ucast_len del: be_int_numeral\<close>)
    then show ?thesis
      using str_trail(2) [of data pre "0xc6" 4 s rest "word_of_nat ?n" "ctx\<lparr> ctx_trail := 4, ctx_cs := 6 \<rparr>" ctx "Suc (length pre)"] s32
      by (simp add: h d unat_len [of _, where 'w = 32, simplified] del: be_int_numeral)
  qed
qed

lemma ext_trail:
  assumes "data = pre @ (b # be_int m (int (length s))) @ t # s @ rest" "0 < m"
    "unat k = Suc (length s)" "ctx_stack ctx' = ctx_stack ctx"
  shows "pushes ctx (length pre + Suc (Suc (m + length s))) (OBJECT_EXT t s)
      (again_value data ctx' 0x22 k n (length pre + m))"
  using ext_value [of data "pre @ b # be_int m (int (length s))" t s rest k ctx' n] assms
  by (simp add: pushes_def add.assoc)

lemma unat_len_1: "n < 2 ^ 32 - 1 \<Longrightarrow> unat ((word_of_nat n :: u32) + 1) = Suc n"
proof -
  assume "n < 2 ^ 32 - 1"
  then have "unat (word_of_nat (Suc n) :: u32) = Suc n" by (intro unat_len) simp
  moreover have "(word_of_nat (Suc n) :: u32) = word_of_nat n + 1" by simp
  ultimately show ?thesis by (simp only:)
qed

lemma step_ext:
  assumes "data = pre @ hdr_ext (length s) t @ s @ rest" "ctx_cs ctx = 0" "length s < 2 ^ 32 - 1"
  shows "pushes ctx (length pre + length (hdr_ext (length s) t @ s)) (OBJECT_EXT t s)
      (template_step data z ctx (length pre))"
proof -
  let ?n = "length s"
  have get: "array_get data (length pre) = Some b" if "hdr_ext ?n t = b # bs" for b bs
    using assms(1) that by simp
  have fixed: "pushes ctx (length pre + length (hdr_ext ?n t @ s)) (OBJECT_EXT t s) (again_value data ctx 0x22 k 0 (length pre))"
    if "hdr_ext ?n t = [b, t]" "unat k = Suc ?n" for b k
    using ext_value [of data "pre @ [b]" t s rest k ctx 0] assms(1) that by simp
  consider (f) "?n \<in> {1, 2, 4, 8, 16}"
    | (s8) "?n \<notin> {1, 2, 4, 8, 16}" "?n < 2 ^ 8"
    | (s16) "2 ^ 8 \<le> ?n" "?n < 2 ^ 16" | (s32) "2 ^ 16 \<le> ?n" "?n < 2 ^ 32 - 1"
    using assms(3) by linarith
  then show ?thesis
  proof cases
    case f
    then consider "?n = 1" | "?n = 2" | "?n = 4" | "?n = 8" | "?n = 16" by blast
    then show ?thesis
    proof cases
      case 1
      then have h: "hdr_ext ?n t = [0xd4, t]" by (simp add: hdr_ext_def)
      show ?thesis unfolding step_header [OF assms(2)] header_fixext(1) [OF get [OF h]]
        using 1 by (intro fixed [OF h]) simp
    next
      case 2
      then have h: "hdr_ext ?n t = [0xd5, t]" by (simp add: hdr_ext_def)
      show ?thesis unfolding step_header [OF assms(2)] header_fixext(2) [OF get [OF h]]
        using 2 by (intro fixed [OF h]) simp
    next
      case 3
      then have h: "hdr_ext ?n t = [0xd6, t]" by (simp add: hdr_ext_def)
      show ?thesis unfolding step_header [OF assms(2)] header_fixext(3) [OF get [OF h]]
        using 3 by (intro fixed [OF h]) simp
    next
      case 4
      then have h: "hdr_ext ?n t = [0xd7, t]" by (simp add: hdr_ext_def)
      show ?thesis unfolding step_header [OF assms(2)] header_fixext(4) [OF get [OF h]]
        using 4 by (intro fixed [OF h]) simp
    next
      case 5
      then have h: "hdr_ext ?n t = [0xd8, t]" by (simp add: hdr_ext_def)
      show ?thesis unfolding step_header [OF assms(2)] header_fixext(5) [OF get [OF h]]
        using 5 by (intro fixed [OF h]) simp
    qed
  next
    case s8
    then have h: "hdr_ext ?n t = 0xc7 # be_int 1 (int ?n) @ [t]" by (simp add: hdr_ext_def)
    have d: "data = pre @ 0xc7 # be_int 1 (int ?n) @ t # s @ rest" using assms(1) h by simp
    have "template_step data z ctx (length pre) = again_value data
        (ctx\<lparr> ctx_trail := 1, ctx_cs := 7 \<rparr>) 0x22 (word_of_nat ?n + 1) (Suc (length pre)) (length pre + 1)"
      by (rule var_step [OF d assms(2) header_trails(4) [OF get [OF h]]])
        (use s8 in \<open>simp_all add: trail_switches drop_header [OF d] get_header [OF d] ucast_len\<close>)
    then show ?thesis
      using ext_trail [of data pre "0xc7" 1 s t rest "word_of_nat ?n + 1" "ctx\<lparr> ctx_trail := 1, ctx_cs := 7 \<rparr>" ctx "Suc (length pre)"] s8
      by (simp add: h d unat_len_1)
  next
    case s16
    then have h: "hdr_ext ?n t = 0xc8 # be_int 2 (int ?n) @ [t]" by (simp add: hdr_ext_def del: be_int_numeral)
    have d: "data = pre @ 0xc8 # be_int 2 (int ?n) @ t # s @ rest" using assms(1) h by simp
    have "template_step data z ctx (length pre) = again_value data
        (ctx\<lparr> ctx_trail := 2, ctx_cs := 8 \<rparr>) 0x22 (word_of_nat ?n + 1) (Suc (length pre)) (length pre + 2)"
      by (rule var_step [OF d assms(2) header_trails(5) [OF get [OF h]]])
        (use s16 in \<open>simp_all add: trail_switches drop_header [OF d] get_header [OF d] ucast_len del: be_int_numeral\<close>)
    then show ?thesis
      using ext_trail [of data pre "0xc8" 2 s t rest "word_of_nat ?n + 1" "ctx\<lparr> ctx_trail := 2, ctx_cs := 8 \<rparr>" ctx "Suc (length pre)"] s16
      by (simp add: h d unat_len_1 del: be_int_numeral)
  next
    case s32
    then have h: "hdr_ext ?n t = 0xc9 # be_int 4 (int ?n) @ [t]" by (simp add: hdr_ext_def del: be_int_numeral)
    have d: "data = pre @ 0xc9 # be_int 4 (int ?n) @ t # s @ rest" using assms(1) h by simp
    have "template_step data z ctx (length pre) = again_value data
        (ctx\<lparr> ctx_trail := 4, ctx_cs := 9 \<rparr>) 0x22 (word_of_nat ?n + 1) (Suc (length pre)) (length pre + 4)"
      by (rule var_step [OF d assms(2) header_trails(6) [OF get [OF h]]])
        (use s32 in \<open>simp_all add: trail_switches drop_header [OF d] get_header [OF d] ucast_len del: be_int_numeral\<close>)
    then show ?thesis
      using ext_trail [of data pre "0xc9" 4 s t rest "word_of_nat ?n + 1" "ctx\<lparr> ctx_trail := 4, ctx_cs := 9 \<rparr>" ctx "Suc (length pre)"] s32
      by (simp add: h d unat_len_1 del: be_int_numeral)
  qed
qed

subsection \<open>Containers\<close>

text \<open>A step that opens a container of \<open>n\<close> items, its header ending before \<open>q\<close>.\<close>

definition opens ::
    "template_context \<Rightarrow> nat \<Rightarrow> msgpack_object option \<Rightarrow> nat \<Rightarrow> container_type \<Rightarrow> step \<Rightarrow> bool" where
  "opens ctx q alloc n ct r \<longleftrightarrow> (\<exists>ctx' p. ctx_stack ctx' = ctx_stack ctx \<and> q = p + 1
     \<and> r = start_container ctx' p alloc n ct)"

lemma step_array:
  assumes "data = pre @ hdr_array n @ rest" "ctx_cs ctx = 0" "n < 2 ^ 32"
  shows "opens ctx (length pre + length (hdr_array n)) (template_callback_array z n) n CT_ARRAY_ITEM
      (template_step data z ctx (length pre))"
proof -
  have get: "array_get data (length pre) = Some b" if "hdr_array n = b # bs" for b bs
    using assms(1) that by simp
  consider (fixed) "n < 16" | (s16) "16 \<le> n" "n < 2 ^ 16" | (s32) "2 ^ 16 \<le> n" "n < 2 ^ 32"
    using assms(3) by linarith
  then show ?thesis
  proof cases
    case fixed
    then have h: "hdr_array n = [0x90 + word_of_nat n]" by (simp add: hdr_array_def)
    have "n < 32" using fixed by simp
    note b = fix_byte(2) [OF this fixed]
    have k: "unat ((0x90 + word_of_nat n :: u8) AND 0x0f) = n"
      using fixed mod_mult_self4 [of 16 9 n] by (simp add: unat_and_mask b)
    have le: "\<not> 0x90 + word_of_nat n \<le> (0x7f :: u8)" "\<not> 0xe0 \<le> (0x90 + word_of_nat n :: u8)" "\<not> 0xc0 \<le> (0x90 + word_of_nat n :: u8)"
      "\<not> 0xa0 \<le> (0x90 + word_of_nat n :: u8)" "0x90 \<le> (0x90 + word_of_nat n :: u8)" "0x90 + word_of_nat n \<le> (0x9f :: u8)"
      using fixed unfolding word_le_nat_alt b by simp_all
    have "header_step data z ctx (length pre)
        = start_container ctx (length pre) (template_callback_array z n) n CT_ARRAY_ITEM"
      by (simp only: header_step_def get [OF h] le option.case if_True if_False simp_thms Let_def k)
    then show ?thesis
      by (auto simp: opens_def step_header [OF assms(2)] h)
  next
    case s16
    then have h: "hdr_array n = 0xdc # be_int 2 (int n)" by (simp add: hdr_array_def del: be_int_numeral)
    have d: "data = pre @ 0xdc # be_int 2 (int n) @ rest" using assms(1) h by simp
    have "header_step data z ctx (length pre)
        = start_container (ctx\<lparr> ctx_trail := 2, ctx_cs := 28 \<rparr>) (length pre + 2)
            (template_callback_array z n) n CT_ARRAY_ITEM"
      using s16 by (simp add: header_trails(20) [OF get [OF h]] fixed_trail_eq [OF d] trail_switches
          drop_header [OF d] get_header [OF d] unat_len del: be_int_numeral)
    then show ?thesis
      unfolding opens_def step_header [OF assms(2)] h
      by (intro exI [of _ "ctx\<lparr> ctx_trail := 2, ctx_cs := 28 \<rparr>"] exI [of _ "length pre + 2"]) simp
  next
    case s32
    then have h: "hdr_array n = 0xdd # be_int 4 (int n)" by (simp add: hdr_array_def del: be_int_numeral)
    have d: "data = pre @ 0xdd # be_int 4 (int n) @ rest" using assms(1) h by simp
    have "header_step data z ctx (length pre)
        = start_container (ctx\<lparr> ctx_trail := 4, ctx_cs := 29 \<rparr>) (length pre + 4)
            (template_callback_array z n) n CT_ARRAY_ITEM"
      using s32 by (simp add: header_trails(21) [OF get [OF h]] fixed_trail_eq [OF d] trail_switches
          drop_header [OF d] get_header [OF d] unat_len del: be_int_numeral)
    then show ?thesis
      unfolding opens_def step_header [OF assms(2)] h
      by (intro exI [of _ "ctx\<lparr> ctx_trail := 4, ctx_cs := 29 \<rparr>"] exI [of _ "length pre + 4"]) simp
  qed
qed

lemma step_map:
  assumes "data = pre @ hdr_map n @ rest" "ctx_cs ctx = 0" "n < 2 ^ 32"
  shows "opens ctx (length pre + length (hdr_map n)) (template_callback_map z n) n CT_MAP_KEY
      (template_step data z ctx (length pre))"
proof -
  have get: "array_get data (length pre) = Some b" if "hdr_map n = b # bs" for b bs
    using assms(1) that by simp
  consider (fixed) "n < 16" | (s16) "16 \<le> n" "n < 2 ^ 16" | (s32) "2 ^ 16 \<le> n" "n < 2 ^ 32"
    using assms(3) by linarith
  then show ?thesis
  proof cases
    case fixed
    then have h: "hdr_map n = [0x80 + word_of_nat n]" by (simp add: hdr_map_def)
    have "n < 32" using fixed by simp
    note b = fix_byte(3) [OF this fixed]
    have k: "unat ((0x80 + word_of_nat n :: u8) AND 0x0f) = n"
      using fixed mod_mult_self4 [of 16 8 n] by (simp add: unat_and_mask b)
    have le: "\<not> 0x80 + word_of_nat n \<le> (0x7f :: u8)" "\<not> 0xe0 \<le> (0x80 + word_of_nat n :: u8)" "\<not> 0xc0 \<le> (0x80 + word_of_nat n :: u8)"
      "\<not> 0xa0 \<le> (0x80 + word_of_nat n :: u8)" "\<not> 0x90 \<le> (0x80 + word_of_nat n :: u8)"
      using fixed unfolding word_le_nat_alt b by simp_all
    have "header_step data z ctx (length pre)
        = start_container ctx (length pre) (template_callback_map z n) n CT_MAP_KEY"
      by (simp only: header_step_def get [OF h] le option.case if_True if_False simp_thms Let_def k)
    then show ?thesis
      by (auto simp: opens_def step_header [OF assms(2)] h)
  next
    case s16
    then have h: "hdr_map n = 0xde # be_int 2 (int n)" by (simp add: hdr_map_def del: be_int_numeral)
    have d: "data = pre @ 0xde # be_int 2 (int n) @ rest" using assms(1) h by simp
    have "header_step data z ctx (length pre)
        = start_container (ctx\<lparr> ctx_trail := 2, ctx_cs := 30 \<rparr>) (length pre + 2)
            (template_callback_map z n) n CT_MAP_KEY"
      using s16 by (simp add: header_trails(22) [OF get [OF h]] fixed_trail_eq [OF d] trail_switches
          drop_header [OF d] get_header [OF d] unat_len del: be_int_numeral)
    then show ?thesis
      unfolding opens_def step_header [OF assms(2)] h
      by (intro exI [of _ "ctx\<lparr> ctx_trail := 2, ctx_cs := 30 \<rparr>"] exI [of _ "length pre + 2"]) simp
  next
    case s32
    then have h: "hdr_map n = 0xdf # be_int 4 (int n)" by (simp add: hdr_map_def del: be_int_numeral)
    have d: "data = pre @ 0xdf # be_int 4 (int n) @ rest" using assms(1) h by simp
    have "header_step data z ctx (length pre)
        = start_container (ctx\<lparr> ctx_trail := 4, ctx_cs := 31 \<rparr>) (length pre + 4)
            (template_callback_map z n) n CT_MAP_KEY"
      using s32 by (simp add: header_trails(23) [OF get [OF h]] fixed_trail_eq [OF d] trail_switches
          drop_header [OF d] get_header [OF d] unat_len del: be_int_numeral)
    then show ?thesis
      unfolding opens_def step_header [OF assms(2)] h
      by (intro exI [of _ "ctx\<lparr> ctx_trail := 4, ctx_cs := 31 \<rparr>"] exI [of _ "length pre + 4"]) simp
  qed
qed

subsection \<open>Whole objects\<close>

text \<open>The limits of the machine: as many levels of containers as there are free frames, and an
  extension length that leaves room for the type byte in 32 bits.\<close>

fun fits :: "nat \<Rightarrow> msgpack_object \<Rightarrow> bool" where
  "fits k (OBJECT_EXT t s) \<longleftrightarrow> length s < 2 ^ 32 - 1"
| "fits k (OBJECT_ARRAY os) \<longleftrightarrow> 0 < k \<and> (\<forall>ob \<in> set os. fits (k - 1) ob)"
| "fits k (OBJECT_MAP kvs) \<longleftrightarrow> 0 < k \<and> (\<forall>kv \<in> set kvs. fits (k - 1) (fst kv) \<and> fits (k - 1) (snd kv))"
| "fits k _ \<longleftrightarrow> True"

text \<open>What the loop does with the outcome of a step.\<close>

definition after :: "bytes \<Rightarrow> (nat \<Rightarrow> bool) \<Rightarrow> step \<Rightarrow> (int \<times> template_context \<times> nat) option" where
  "after data z r = (case r of
     None \<Rightarrow> None
   | Some (Finish, ctx', p') \<Rightarrow> Some (1, ctx', p')
   | Some (Failed, ctx', p') \<Rightarrow> Some (- 1, ctx', p')
   | Some (Out, ctx', p') \<Rightarrow> Some (0, ctx', p')
   | Some (Header_again, ctx', p') \<Rightarrow>
       if p' = length data then Some (0, ctx', p')
       else if p' < length data then template_loop data z ctx' p' else None)"

lemma template_loop_after:
  assumes "\<And>ctx' p'. template_step data z ctx p = Some (Header_again, ctx', p') \<Longrightarrow> p < p'"
  shows "template_loop data z ctx p = after data z (template_step data z ctx p)"
  using assms unfolding after_def
  by (subst template_loop.simps) (auto split: option.split label.split)

lemma push_again: "push ctx q ob = Some (Header_again, ctx', p') \<Longrightarrow> p' = q + 1"
  by (auto simp: push_def split: option.splits sum.splits)

definition parses :: "bytes \<Rightarrow> (nat \<Rightarrow> bool) \<Rightarrow> template_context \<Rightarrow> nat \<Rightarrow> nat \<Rightarrow> template_stack list \<Rightarrow> msgpack_object \<Rightarrow> bool"
  where
  "parses data z ctx p q st ob \<longleftrightarrow> (\<exists>ctx'. ctx_stack ctx' = st
     \<and> template_loop data z ctx p = after data z (push ctx' (q - 1) ob))"

lemma pushes_parses:
  assumes "pushes ctx q ob (template_step data z ctx p)" "p < q"
  shows "parses data z ctx p q (ctx_stack ctx) ob"
proof -
  from assms(1) obtain ctx' where c: "ctx_stack ctx' = ctx_stack ctx"
    "template_step data z ctx p = push ctx' (q - 1) ob" by (auto simp: pushes_def)
  have "template_loop data z ctx p = after data z (template_step data z ctx p)"
    by (rule template_loop_after) (use c assms(2) push_again in \<open>fastforce\<close>)
  with c show ?thesis unfolding parses_def by auto
qed

lemma hdr_ne: "hdr_array n \<noteq> []" "hdr_map n \<noteq> []" "hdr_str n \<noteq> []" "hdr_bin n \<noteq> []" "hdr_ext n t \<noteq> []"
  by (simp_all add: hdr_array_def hdr_map_def hdr_str_def hdr_bin_def hdr_ext_def)

lemma enc_obj_ne: "enc_obj ob \<noteq> []"
  by (cases ob) (simp_all add: hdr_ne enc_int_def)

text \<open>The last item of a container, and an earlier one.\<close>

lemma push_last:
  assumes "ctx_stack ctx = c # st" "st_count c = 1"
  shows "st_ct c = CT_ARRAY_ITEM \<Longrightarrow> st_obj c = OBJECT_ARRAY os \<Longrightarrow>
      push ctx p ob = push (ctx\<lparr> ctx_stack := st \<rparr>) p (OBJECT_ARRAY (os @ [ob]))"
    and "st_ct c = CT_MAP_VALUE \<Longrightarrow> st_obj c = OBJECT_MAP kvs \<Longrightarrow>
      push ctx p ob = push (ctx\<lparr> ctx_stack := st \<rparr>) p (OBJECT_MAP (kvs @ [(st_map_key c, ob)]))"
  using assms by (simp_all add: push_def template_callback_array_item_def template_callback_map_item_def
      split: option.split sum.split)

lemma push_item:
  assumes "ctx_stack ctx = c # st"
  shows "st_ct c = CT_ARRAY_ITEM \<Longrightarrow> st_obj c = OBJECT_ARRAY os \<Longrightarrow> st_count c = Suc (Suc n) \<Longrightarrow>
      push ctx p ob = Some (Header_again, ctx\<lparr> ctx_stack := c\<lparr> st_obj := OBJECT_ARRAY (os @ [ob]),
        st_count := Suc n \<rparr> # st, ctx_cs := 0 \<rparr>, p + 1)"
    and "st_ct c = CT_MAP_KEY \<Longrightarrow>
      push ctx p ob = Some (Header_again, ctx\<lparr> ctx_stack := c\<lparr> st_map_key := ob, st_ct := CT_MAP_VALUE \<rparr> # st,
        ctx_cs := 0 \<rparr>, p + 1)"
    and "st_ct c = CT_MAP_VALUE \<Longrightarrow> st_obj c = OBJECT_MAP kvs \<Longrightarrow> st_count c = Suc (Suc n) \<Longrightarrow>
      push ctx p ob = Some (Header_again, ctx\<lparr> ctx_stack := c\<lparr> st_obj := OBJECT_MAP (kvs @ [(st_map_key c, ob)]),
        st_count := Suc n, st_ct := CT_MAP_KEY \<rparr> # st, ctx_cs := 0 \<rparr>, p + 1)"
  using assms by (simp_all add: push_def template_callback_array_item_def template_callback_map_item_def)

lemma after_again:
  assumes "p < length data"
  shows "after data z (Some (Header_again, ctx, p)) = template_loop data z ctx p"
  using assms by (simp add: after_def)

text \<open>An object is read wherever it stands, if every frame below it stays.\<close>

definition reads :: "(nat \<Rightarrow> bool) \<Rightarrow> nat \<Rightarrow> msgpack_object \<Rightarrow> bool" where
  "reads z k ob \<longleftrightarrow> (\<forall>data pre rest ctx. data = pre @ enc_obj ob @ rest \<longrightarrow> ctx_cs ctx = 0 \<longrightarrow>
     length (ctx_stack ctx) + k = 32 \<longrightarrow>
     parses data z ctx (length pre) (length pre + length (enc_obj ob)) (ctx_stack ctx) ob)"

lemma readsD: "reads z k ob \<Longrightarrow> data = pre @ enc_obj ob @ rest \<Longrightarrow> ctx_cs ctx = 0 \<Longrightarrow>
     length (ctx_stack ctx) + k = 32 \<Longrightarrow>
     parses data z ctx (length pre) (length pre + length (enc_obj ob)) (ctx_stack ctx) ob"
  unfolding reads_def by blast

lemma reads_elements:
  assumes "\<forall>ob \<in> set os. reads z k ob" "os \<noteq> []"
    and "data = pre @ concat (map enc_obj os) @ rest" "ctx_cs ctx = 0" "length st + Suc k = 32"
    and "ctx_stack ctx = \<lparr> st_obj = OBJECT_ARRAY items, st_count = length os, st_ct = CT_ARRAY_ITEM, st_map_key = mk \<rparr> # st"
  shows "parses data z ctx (length pre) (length pre + length (concat (map enc_obj os))) st (OBJECT_ARRAY (items @ os))"
  using assms
proof (induction os arbitrary: pre ctx items)
  case (Cons ob os)
  let ?p = "length pre + length (enc_obj ob)"
  from readsD [of z k ob data pre "concat (map enc_obj os) @ rest" ctx] Cons.prems
  obtain c1 where c1: "ctx_stack c1 = ctx_stack ctx"
    "template_loop data z ctx (length pre) = after data z (push c1 (?p - 1) ob)"
    by (auto simp: parses_def)
  show ?case
  proof (cases os)
    case Nil
    with Cons.prems c1 push_last(1) [of c1 _ st items "?p - 1" ob] show ?thesis
      unfolding parses_def by (intro exI [of _ "c1\<lparr> ctx_stack := st \<rparr>"]) simp
  next
    case (Cons ob' os')
    let ?c2 = "c1\<lparr> ctx_stack := \<lparr> st_obj = OBJECT_ARRAY (items @ [ob]), st_count = length os,
      st_ct = CT_ARRAY_ITEM, st_map_key = mk \<rparr> # st, ctx_cs := 0 \<rparr>"
    have "0 < length (enc_obj ob)" "0 < length (enc_obj ob')" using enc_obj_ne by auto
    then have q: "?p - 1 + 1 = ?p" "?p < length data"
      using Cons.prems(3) Cons by (auto simp: less_Suc_eq_le)
    have "push c1 (?p - 1) ob = Some (Header_again, ?c2, ?p)"
      using push_item(1) [of c1 _ st items "length os'" "?p - 1" ob] Cons.prems(6) Cons c1(1) q(1) by simp
    then have "template_loop data z ctx (length pre) = template_loop data z ?c2 ?p"
      using c1(2) after_again [OF q(2)] by simp
    moreover have "parses data z ?c2 (length (pre @ enc_obj ob))
        (length (pre @ enc_obj ob) + length (concat (map enc_obj os))) st (OBJECT_ARRAY ((items @ [ob]) @ os))"
      using Cons.prems Cons by (intro Cons.IH) auto
    ultimately show ?thesis by (simp add: parses_def add.assoc)
  qed
qed simp

lemma reads_pairs:
  assumes "\<forall>kv \<in> set kvs. reads z k (fst kv) \<and> reads z k (snd kv)" "kvs \<noteq> []"
    and "data = pre @ concat (map (\<lambda>kv. enc_obj (fst kv) @ enc_obj (snd kv)) kvs) @ rest"
    and "ctx_cs ctx = 0" "length st + Suc k = 32"
    and "ctx_stack ctx = \<lparr> st_obj = OBJECT_MAP items, st_count = length kvs, st_ct = CT_MAP_KEY, st_map_key = mk \<rparr> # st"
  shows "parses data z ctx (length pre)
      (length pre + length (concat (map (\<lambda>kv. enc_obj (fst kv) @ enc_obj (snd kv)) kvs))) st (OBJECT_MAP (items @ kvs))"
  using assms
proof (induction kvs arbitrary: pre ctx items mk)
  case (Cons kv kvs)
  obtain ky v where kv: "kv = (ky, v)" by (cases kv)
  let ?enc = "\<lambda>kvs. concat (map (\<lambda>kv. enc_obj (fst kv) @ enc_obj (snd kv)) kvs)"
  let ?pk = "length (pre @ enc_obj ky)" and ?pv = "length (pre @ enc_obj ky @ enc_obj v)"
  have ne: "0 < length (enc_obj ky)" "0 < length (enc_obj v)" using enc_obj_ne by auto
  from readsD [of z k ky data pre "enc_obj v @ ?enc kvs @ rest" ctx] Cons.prems
  obtain c1 where c1: "ctx_stack c1 = ctx_stack ctx"
    "template_loop data z ctx (length pre) = after data z (push c1 (?pk - 1) ky)"
    by (auto simp: parses_def kv)
  let ?c2 = "c1\<lparr> ctx_stack := \<lparr> st_obj = OBJECT_MAP items, st_count = length (kv # kvs),
      st_ct = CT_MAP_VALUE, st_map_key = ky \<rparr> # st, ctx_cs := 0 \<rparr>"
  have q: "?pk - 1 + 1 = ?pk" "?pk < length data" "?pv - 1 + 1 = ?pv" "kvs \<noteq> [] \<Longrightarrow> ?pv < length data"
    using Cons.prems(3) ne enc_obj_ne by (cases kvs; auto simp: kv less_Suc_eq_le)+
  have "push c1 (?pk - 1) ky = Some (Header_again, ?c2, ?pk)"
    using push_item(2) [of c1 _ st "?pk - 1" ky] Cons.prems(6) c1(1) q(1) by simp
  then have loop1: "template_loop data z ctx (length pre) = template_loop data z ?c2 ?pk"
    using c1(2) after_again [OF q(2)] by simp
  from readsD [of z k v data "pre @ enc_obj ky" "?enc kvs @ rest" ?c2] Cons.prems
  obtain c3 where c3: "ctx_stack c3 = ctx_stack ?c2"
    "template_loop data z ?c2 ?pk = after data z (push c3 (?pv - 1) v)"
    by (auto simp: parses_def kv add.assoc)
  show ?case
  proof (cases kvs)
    case Nil
    then have "push c3 (?pv - 1) v = push (c3\<lparr> ctx_stack := st \<rparr>) (?pv - 1) (OBJECT_MAP (items @ [kv]))"
      using push_last(2) [of c3 _ st items "?pv - 1" v] c3(1) by (simp add: kv)
    with Nil loop1 c3(2) show ?thesis
      unfolding parses_def by (intro exI [of _ "c3\<lparr> ctx_stack := st \<rparr>"]) (simp add: kv)
  next
    case (Cons kv' kvs')
    let ?c4 = "c3\<lparr> ctx_stack := \<lparr> st_obj = OBJECT_MAP (items @ [kv]), st_count = length kvs,
      st_ct = CT_MAP_KEY, st_map_key = ky \<rparr> # st, ctx_cs := 0 \<rparr>"
    have "push c3 (?pv - 1) v = Some (Header_again, ?c4, ?pv)"
      using push_item(3) [of c3 _ st items "length kvs'" "?pv - 1" v] Cons c3(1) q(3) by (simp add: kv)
    then have "template_loop data z ctx (length pre) = template_loop data z ?c4 ?pv"
      using loop1 c3(2) after_again [OF q(4)] Cons by simp
    moreover have "parses data z ?c4 ?pv (?pv + length (?enc kvs)) st (OBJECT_MAP ((items @ [kv]) @ kvs))"
      using Cons.prems Cons by (intro Cons.IH) (auto simp: kv)
    ultimately show ?thesis by (simp add: parses_def add.assoc kv)
  qed
qed simp

lemma start_container_cases:
  assumes "length (ctx_stack ctx) < 32"
  shows "start_container ctx p (Some ob) 0 ct = push ctx p ob"
    and "0 < n \<Longrightarrow> start_container ctx p (Some ob) n ct = Some (Header_again,
      ctx\<lparr> ctx_stack := \<lparr> st_obj = ob, st_count = n, st_ct = ct, st_map_key = OBJECT_NIL \<rparr> # ctx_stack ctx,
           ctx_cs := 0 \<rparr>, p + 1)"
  using assms by (simp_all add: start_container_def MSGPACK_EMBED_STACK_SIZE_def)

text \<open>A container whose items, if it has any, are read behind its header.\<close>

lemma reads_container:
  assumes "opens ctx (length pre + length h) (Some ob) n ct (template_step data z ctx (length pre))" "h \<noteq> []"
    and "length (ctx_stack ctx) < 32" "n = 0 \<Longrightarrow> r = ob \<and> body = []"
    and "data = pre @ h @ body @ rest" "0 < n \<Longrightarrow> body \<noteq> []"
    and items: "\<And>c. 0 < n \<Longrightarrow> ctx_cs c = 0 \<Longrightarrow>
      ctx_stack c = \<lparr> st_obj = ob, st_count = n, st_ct = ct, st_map_key = OBJECT_NIL \<rparr> # ctx_stack ctx \<Longrightarrow>
      parses data z c (length (pre @ h)) (length (pre @ h) + length body) (ctx_stack ctx) r"
  shows "parses data z ctx (length pre) (length pre + length (h @ body)) (ctx_stack ctx) r"
proof -
  from assms(1) obtain c p where c: "ctx_stack c = ctx_stack ctx" "length pre + length h = p + 1"
    "template_step data z ctx (length pre) = start_container c p (Some ob) n ct" by (auto simp: opens_def)
  have top: "length (ctx_stack c) < 32" using c(1) assms(3) by simp
  have p: "length pre < p + 1" using c(2) assms(2) by (cases h) auto
  show ?thesis
  proof (cases "n = 0")
    case True
    then have "pushes ctx (p + 1) ob (template_step data z ctx (length pre))"
      using c start_container_cases(1) [OF top] by (auto simp: pushes_def)
    from pushes_parses [OF this p] show ?thesis using assms(4) [OF True] c(2) by simp
  next
    case False
    let ?c = "c\<lparr> ctx_stack := \<lparr> st_obj = ob, st_count = n, st_ct = ct, st_map_key = OBJECT_NIL \<rparr> # ctx_stack ctx,
           ctx_cs := 0 \<rparr>"
    have s: "template_step data z ctx (length pre) = Some (Header_again, ?c, length (pre @ h))"
      using c start_container_cases(2) [OF top, of n p ob ct] False by simp
    have "length (pre @ h) < length data" using assms(5,6) False by simp
    then have "template_loop data z ctx (length pre) = template_loop data z ?c (length (pre @ h))"
      using template_loop_after [of data z ctx "length pre"] s assms(2) after_again by simp
    moreover have "parses data z ?c (length (pre @ h)) (length (pre @ h) + length body) (ctx_stack ctx) r"
      using False by (intro items) auto
    ultimately show ?thesis by (simp add: parses_def add.assoc)
  qed
qed

lemma step_double:
  assumes "data = pre @ (0xcb # be_store 8 f) @ rest" "ctx_cs ctx = 0"
  shows "pushes ctx (length pre + 9) (OBJECT_FLOAT f) (template_step data z ctx (length pre))"
proof -
  have d: "data = pre @ 0xcb # be_int 8 (uint f) @ rest" using assms(1) store_uint(3) [of f] by simp
  have get: "array_get data (length pre) = Some 0xcb" using d by simp
  show ?thesis
    by (simp add: step_header [OF assms(2)] header_trails(8) [OF get] fixed_trail_eq [OF d] drop_header [OF d] get_header [OF d]
        trail_switches template_callback_double_def pushesI del: be_int_numeral)
qed

lemma reads_byte:
  assumes "enc_obj ob = [b]"
    and "\<And>data p ctx. array_get data p = Some b \<Longrightarrow> header_step data z ctx p = push ctx p ob"
  shows "reads z k ob"
  unfolding reads_def
proof (intro allI impI)
  fix data pre rest and ctx :: template_context
  assume a: "data = pre @ enc_obj ob @ rest" "ctx_cs ctx = 0"
  then have "pushes ctx (length pre + length (enc_obj ob)) ob (template_step data z ctx (length pre))"
    using assms(2) [of data "length pre" ctx] by (simp add: assms(1) step_header pushesI)
  then show "parses data z ctx (length pre) (length pre + length (enc_obj ob)) (ctx_stack ctx) ob"
    by (rule pushes_parses) (simp add: assms(1))
qed

lemma reads_object:
  assumes "\<And>n. z n"
  shows "object_ok ob \<Longrightarrow> fits k ob \<Longrightarrow> reads z k ob"
proof (induction ob arbitrary: k)
  case OBJECT_NIL
  show ?case by (rule reads_byte [where b = "0xc0"]) (simp_all add: header_codes)
next
  case (OBJECT_BOOLEAN b)
  show ?case
    by (cases b; rule reads_byte [where b = "if b then 0xc3 else 0xc2"]) (simp_all add: header_codes)
next
  case (OBJECT_POSITIVE_INTEGER u)
  have o: "obj_of_int (uint u) = OBJECT_POSITIVE_INTEGER u" by (simp add: obj_of_int_def)
  have "uint u < 2 ^ 64" using uint_lt2p [of u] by simp
  moreover have "- (2 ^ 63) \<le> uint u" by (rule order_trans [OF _ uint_ge_0]) simp
  ultimately show ?case
    unfolding reads_def using step_int [of _ _ "uint u"] enc_obj_ne [of "OBJECT_POSITIVE_INTEGER u"]
    by (auto simp: o intro!: pushes_parses)
next
  case (OBJECT_NEGATIVE_INTEGER i)
  have o: "obj_of_int (sint i) = OBJECT_NEGATIVE_INTEGER i"
    using OBJECT_NEGATIVE_INTEGER.prems(1) by (simp add: obj_of_int_def)
  have "- (2 ^ 63) \<le> sint i" "sint i < 2 ^ 63" using sint_ge_lt [of i] by simp_all
  then have "sint i < 2 ^ 64" by simp
  with \<open>- (2 ^ 63) \<le> sint i\<close> show ?case
    unfolding reads_def using step_int [of _ _ "sint i"] enc_obj_ne [of "OBJECT_NEGATIVE_INTEGER i"]
    by (auto simp: o intro!: pushes_parses)
next
  case (OBJECT_FLOAT f)
  show ?case
    unfolding reads_def using step_double
    by (auto simp: enc_obj.simps simp del: be_store.simps intro!: pushes_parses)
next
  case (OBJECT_STR s)
  then show ?case
    unfolding reads_def using step_str [of _ _ s] hdr_ne(3) by (auto intro!: pushes_parses)
next
  case (OBJECT_BIN s)
  then show ?case
    unfolding reads_def using step_bin [of _ _ s] hdr_ne(4) by (auto intro!: pushes_parses)
next
  case (OBJECT_EXT t s)
  then show ?case
    unfolding reads_def using step_ext [of _ _ s t] hdr_ne(5) by (auto intro!: pushes_parses)
next
  case (OBJECT_ARRAY os)
  have IH: "\<forall>ob \<in> set os. reads z (k - 1) ob" and k: "0 < k" "length os < 2 ^ 32"
    using OBJECT_ARRAY by auto
  show ?case
    unfolding reads_def
  proof (intro allI impI)
    fix data pre rest and ctx :: template_context
    assume a: "data = pre @ enc_obj (OBJECT_ARRAY os) @ rest" "ctx_cs ctx = 0" "length (ctx_stack ctx) + k = 32"
    have d: "data = pre @ hdr_array (length os) @ concat (map enc_obj os) @ rest" using a(1) by simp
    have o: "opens ctx (length pre + length (hdr_array (length os))) (Some (OBJECT_ARRAY [])) (length os)
        CT_ARRAY_ITEM (template_step data z ctx (length pre))"
      using step_array [OF d a(2) k(2), of z] assms by (simp add: template_callback_array_def)
    have "parses data z ctx (length pre) (length pre + length (hdr_array (length os) @ concat (map enc_obj os)))
        (ctx_stack ctx) (OBJECT_ARRAY os)"
    proof (rule reads_container [OF o hdr_ne(1) _ _ d])
      show "length (ctx_stack ctx) < 32" using a(3) k(1) by simp
      show "0 < length os \<Longrightarrow> concat (map enc_obj os) \<noteq> []" using enc_obj_ne by (cases os) auto
      fix c :: template_context
      assume "0 < length os" "ctx_cs c = 0" "ctx_stack c = \<lparr> st_obj = OBJECT_ARRAY [], st_count = length os,
        st_ct = CT_ARRAY_ITEM, st_map_key = OBJECT_NIL \<rparr> # ctx_stack ctx"
      then show "parses data z c (length (pre @ hdr_array (length os)))
          (length (pre @ hdr_array (length os)) + length (concat (map enc_obj os))) (ctx_stack ctx) (OBJECT_ARRAY os)"
        using reads_elements [OF IH, of data "pre @ hdr_array (length os)" rest c "ctx_stack ctx" "[]"] d a(3) k(1)
        by simp
    qed simp
    then show "parses data z ctx (length pre) (length pre + length (enc_obj (OBJECT_ARRAY os))) (ctx_stack ctx)
        (OBJECT_ARRAY os)" by simp
  qed
next
  case (OBJECT_MAP kvs)
  have IH: "\<forall>kv \<in> set kvs. reads z (k - 1) (fst kv) \<and> reads z (k - 1) (snd kv)" and k: "0 < k" "length kvs < 2 ^ 32"
    using OBJECT_MAP by (auto simp: fsts.simps snds.simps)
  let ?enc = "concat (map (\<lambda>kv. enc_obj (fst kv) @ enc_obj (snd kv)) kvs)"
  show ?case
    unfolding reads_def
  proof (intro allI impI)
    fix data pre rest and ctx :: template_context
    assume a: "data = pre @ enc_obj (OBJECT_MAP kvs) @ rest" "ctx_cs ctx = 0" "length (ctx_stack ctx) + k = 32"
    have d: "data = pre @ hdr_map (length kvs) @ ?enc @ rest" using a(1) by simp
    have o: "opens ctx (length pre + length (hdr_map (length kvs))) (Some (OBJECT_MAP [])) (length kvs)
        CT_MAP_KEY (template_step data z ctx (length pre))"
      using step_map [OF d a(2) k(2), of z] assms by (simp add: template_callback_map_def)
    have "parses data z ctx (length pre) (length pre + length (hdr_map (length kvs) @ ?enc))
        (ctx_stack ctx) (OBJECT_MAP kvs)"
    proof (rule reads_container [OF o hdr_ne(2) _ _ d])
      show "length (ctx_stack ctx) < 32" using a(3) k(1) by simp
      show "0 < length kvs \<Longrightarrow> ?enc \<noteq> []" using enc_obj_ne by (cases kvs) auto
      fix c :: template_context
      assume "0 < length kvs" "ctx_cs c = 0" "ctx_stack c = \<lparr> st_obj = OBJECT_MAP [], st_count = length kvs,
        st_ct = CT_MAP_KEY, st_map_key = OBJECT_NIL \<rparr> # ctx_stack ctx"
      then show "parses data z c (length (pre @ hdr_map (length kvs)))
          (length (pre @ hdr_map (length kvs)) + length ?enc) (ctx_stack ctx) (OBJECT_MAP kvs)"
        using reads_pairs [OF IH, of data "pre @ hdr_map (length kvs)" rest c "ctx_stack ctx" "[]"] d a(3) k(1)
        by simp
    qed simp
    then show "parses data z ctx (length pre) (length pre + length (enc_obj (OBJECT_MAP kvs))) (ctx_stack ctx)
        (OBJECT_MAP kvs)" by simp
  qed
qed

subsection \<open>The one-shot function\<close>

lemma fresh_context_simps [simp]: "ctx_cs fresh_context = 0" "ctx_stack fresh_context = []"
  by (simp_all add: fresh_context_def template_init_def)

lemma execute_object:
  assumes "\<And>n. z n" "object_ok ob" "fits 32 ob" "data = pre @ enc_obj ob @ rest"
    and "ctx_cs ctx = 0" "ctx_stack ctx = []"
  obtains ctx' where "template_execute z ctx data (length pre) = Some (1, ctx', length pre + length (enc_obj ob))"
    "template_data ctx' = ob"
proof -
  have "reads z 32 ob" by (rule reads_object) (use assms in auto)
  from readsD [OF this assms(4,5)] assms(6)
  obtain c where c: "ctx_stack c = []"
    "template_loop data z ctx (length pre) = after data z (push c (length pre + length (enc_obj ob) - 1) ob)"
    by (auto simp: parses_def)
  have "0 < length (enc_obj ob)" using enc_obj_ne by auto
  with assms(4) have "length pre < length data" by simp
  then have "template_execute z ctx data (length pre)
      = Some (1, c\<lparr> ctx_stack := [], ctx_root := ob \<rparr>, length pre + length (enc_obj ob))"
    using c \<open>0 < length (enc_obj ob)\<close> by (simp add: template_execute_def push_def after_def)
  then show ?thesis by (rule that) (simp add: template_data_def)
qed

lemma unpack_encoded:
  assumes "\<forall>n. zalloc n" "object_ok ob" "fits 32 ob"
  shows "msgpack_unpack zalloc (enc_obj ob) None = Some (UNPACK_SUCCESS, None, Some ob)"
proof -
  obtain ctx' where "template_execute zalloc fresh_context (enc_obj ob) 0 = Some (1, ctx', length (enc_obj ob))" "template_data ctx' = ob"
    using execute_object [of zalloc ob "enc_obj ob" "[]" "[]" fresh_context] assms by auto
  then show ?thesis using enc_obj_ne [of ob] by (simp add: msgpack_unpack_def Let_def)
qed

subsection \<open>Properties\<close>

text \<open>
  (C6) Round trip: unpacking data in which the encoding of an object starts at the given offset
  returns that object and moves the offset right behind its last byte, whatever stands before and
  behind; what is behind is reported as extra bytes. The object may be of any kind, nested as deep
  as the machine has stack frames.
\<close>

theorem unpack_reads_encoding:
  assumes "\<forall>n. zalloc n" "object_ok ob" "fits 32 ob"
  shows "msgpack_unpack zalloc (pre @ enc_obj ob @ rest) (Some (length pre))
    = Some (if rest = [] then UNPACK_SUCCESS else UNPACK_EXTRA_BYTES,
        Some (length pre + length (enc_obj ob)), Some ob)"
proof -
  obtain ctx' where "template_execute zalloc fresh_context (pre @ enc_obj ob @ rest) (length pre)
      = Some (1, ctx', length pre + length (enc_obj ob))" "template_data ctx' = ob"
    using execute_object [of zalloc ob _ pre rest fresh_context] assms by auto
  then show ?thesis using enc_obj_ne [of ob] by (simp add: msgpack_unpack_def Let_def)
qed

theorem unpack_reads_encoding_witness:
  "msgpack_unpack (\<lambda>_. True) [0x2a, 0x92, 0xcd, 1, 44, 0xa2, 104, 105, 7] (Some 1)
    = Some (UNPACK_EXTRA_BYTES, Some 8, Some (OBJECT_ARRAY [OBJECT_POSITIVE_INTEGER 300, OBJECT_STR [104, 105]]))"
proof -
  have e: "enc_obj (OBJECT_ARRAY [OBJECT_POSITIVE_INTEGER 300, OBJECT_STR [104, 105]])
      = [0x92, 0xcd, 1, 44, 0xa2, 104, 105]"
    by (simp add: hdr_array_def enc_int_def hdr_str_def)
  show ?thesis
    using unpack_reads_encoding [of "\<lambda>_. True" "OBJECT_ARRAY [OBJECT_POSITIVE_INTEGER 300, OBJECT_STR [104, 105]]"
        "[0x2a]" "[7]", unfolded e]
    by simp
qed

text \<open>
  (C30) A 32-bit extension with the largest length is not rejected. The length of its body with the
  type byte wraps to zero, so the machine does not wait for any body: right behind the five bytes of
  the header it reports an extension object, whose type is the first length byte and whose body is
  the 4294967295 bytes from the second length byte on. Where the memory behind the header has fewer
  bytes, the object covers memory that is not there.
\<close>

theorem ext32_length_wraps:
  "msgpack_unpack zalloc (pre @ [0xc9, 0xff, 0xff, 0xff, 0xff] @ tail) (Some (length pre))
    = (if length tail < 2 ^ 32 - 4 then None
       else Some (UNPACK_EXTRA_BYTES, Some (length pre + 5),
              Some (OBJECT_EXT 0xff (take (2 ^ 32 - 1) ([0xff, 0xff, 0xff] @ tail)))))"
proof -
  let ?data = "pre @ [0xc9, 0xff, 0xff, 0xff, 0xff] @ tail" and ?c = "fresh_context\<lparr> ctx_trail := 4, ctx_cs := 9 \<rparr>"
  have d: "?data = pre @ 0xc9 # [0xff, 0xff, 0xff, 0xff] @ tail" by simp
  have load: "msgpack_load32 ([0xff, 0xff, 0xff, 0xff] @ tail) = Some (- 1)"
    by (simp add: msgpack_load32_def be_load_def)
  have four: "length pre + 4 = Suc (Suc (Suc (Suc (length pre))))" by simp
  have max: "unat (- 1 :: u32) = 4294967295"
    by (simp add: unsigned_minus_1_eq_mask mask_eq_exp_minus_1)
  have g: "array_get ?data (length pre) = Some 0xc9" "array_get ?data (Suc (length pre)) = Some 0xff"
    by (simp_all add: array_get_def nth_append)
  have "template_step ?data zalloc fresh_context (length pre)
      = trail_switch ?data zalloc ?c (Suc (length pre)) (length pre + 4)"
    unfolding step_header [OF fresh_context_simps(1)] header_trails(6) [OF g(1)]
    using fixed_trail_eq [OF d, of 4 zalloc fresh_context 9] by (simp add: four)
  also have "\<dots> = again_value ?data ?c 0x22 0 (Suc (length pre)) (length pre + 4)"
    using load by (simp add: trail_switches)
  also have "\<dots> = push_variable (?c\<lparr> ctx_trail := 0 \<rparr>) (length pre + 4)
      (map_option (OBJECT_EXT 0xff) (slice ?data (length pre + 2) 4294967295))"
    using g(2) max by (simp add: again_value_def variable_value_def template_callback_ext_def)
  also have "slice ?data (length pre + 2) 4294967295
      = (if length tail < 2 ^ 32 - 4 then None else Some (take (2 ^ 32 - 1) ([0xff, 0xff, 0xff] @ tail)))"
    by (simp add: slice_def)
  finally show ?thesis
    by (simp add: msgpack_unpack_def template_execute_def template_loop.simps push_variable_def push_def
        Let_def template_data_def)
qed

end
