(* ===== verification/MsgpackStream.thy ===== *)
theory MsgpackStream
  imports MsgpackRoundtrip
begin

unbundle bit_operations_syntax

text \<open>
  The deserializer on data that arrives in pieces: a run that ends for want of data continues, with
  the rest, as if all of it had been there from the start.
\<close>

subsection \<open>Consistent states\<close>

text \<open>How many bytes of trail a state waits for.\<close>

definition trail_bytes :: "nat \<Rightarrow> nat" where
  "trail_bytes cs = (if cs \<in> {4, 7, 12, 16, 25} then 1
     else if cs \<in> {5, 8, 13, 17, 26, 28, 30} then 2
     else if cs \<in> {6, 9, 10, 14, 18, 27, 29, 31} then 4 else 8)"

definition state_ok :: "template_context \<Rightarrow> bool" where
  "state_ok ctx \<longleftrightarrow> ctx_cs ctx = 0
     \<or> ctx_cs ctx \<in> {4..19} \<union> {25..31} \<and> unat (ctx_trail ctx) = trail_bytes (ctx_cs ctx)
     \<or> ctx_cs ctx \<in> {32, 33, 34} \<and> ctx_trail ctx \<noteq> 0"

lemma state_ok_fresh [simp]: "state_ok fresh_context"
  by (simp add: state_ok_def)

lemma push_state: "push ctx p ob = Some (l, c, p') \<Longrightarrow>
    p' = p + 1 \<and> (l = Finish \<or> l = Header_again \<and> ctx_cs c = 0)"
  by (auto simp: push_def split: option.splits sum.splits)

lemma push_variable_state: "push_variable ctx p r = Some (l, c, p') \<Longrightarrow>
    p' = p + 1 \<and> (l = Finish \<or> l = Header_again \<and> ctx_cs c = 0)"
  by (auto simp: push_variable_def dest: push_state split: option.splits)

lemma start_container_state: "start_container ctx p r n ct = Some (l, c, p') \<Longrightarrow>
    l = Failed \<and> p' = p \<or> p' = p + 1 \<and> (l = Finish \<or> l = Header_again \<and> ctx_cs c = 0)"
  by (auto simp: start_container_def dest!: push_state split: option.splits if_splits)

lemma variable_value_state: "variable_value data ctx acs n p = Some (l, c, p') \<Longrightarrow>
    p' = p + 1 \<and> (l = Finish \<or> l = Header_again \<and> ctx_cs c = 0)"
  by (auto simp: variable_value_def dest!: push_variable_state split: if_splits)

subsection \<open>More data does not change a step that had enough\<close>

lemma slice_append: "slice d n l = Some bs \<Longrightarrow> slice (d @ e) n l = Some bs"
  by (auto simp: slice_def split: if_splits)

lemma array_get_append: "array_get d i = Some x \<Longrightarrow> array_get (d @ e) i = Some x"
  by (auto simp: array_get_def nth_append split: if_splits)

lemma variable_value_append:
  assumes "variable_value d ctx acs n p = Some r"
  shows "variable_value (d @ e) ctx acs n p = Some r"
proof -
  have "template_callback_str d n l = Some ob \<Longrightarrow> template_callback_str (d @ e) n l = Some ob"
    "template_callback_bin d n l = Some ob \<Longrightarrow> template_callback_bin (d @ e) n l = Some ob"
    "template_callback_ext d n l = Some ob \<Longrightarrow> template_callback_ext (d @ e) n l = Some ob" for l ob
    using slice_append [of d n _ _ e] slice_append [of d "n + 1" _ _ e] array_get_append [of d n _ e]
    by (auto simp: template_callback_str_def template_callback_bin_def template_callback_ext_def
        split: option.splits)
  with assms show ?thesis
    by (auto simp: variable_value_def push_variable_def split: if_splits option.splits)
qed

text \<open>The outcome of a step on more data: the same, or, where the step stopped for want of data,
  the step from where it stopped.\<close>

definition continues :: "bytes \<Rightarrow> (nat \<Rightarrow> bool) \<Rightarrow> step \<Rightarrow> step \<Rightarrow> bool" where
  "continues d z r r' \<longleftrightarrow> (\<forall>l c p'. r = Some (l, c, p') \<longrightarrow>
     (if l = Out then r' = template_step d z c p' \<and> state_ok c else r' = r \<and> (l = Header_again \<longrightarrow> ctx_cs c = 0)))"

lemma continues_same: "(\<And>l c p'. r = Some (l, c, p') \<Longrightarrow> l \<noteq> Out \<and> (l = Header_again \<longrightarrow> ctx_cs c = 0) \<and> r' = r) \<Longrightarrow>
    continues d z r r'"
  by (auto simp: continues_def)

lemma continues_push: "continues d z (push ctx p ob) (push ctx p ob)"
  by (rule continues_same) (auto dest: push_state)

lemma continues_container: "continues d z (start_container ctx p r n ct) (start_container ctx p r n ct)"
  by (rule continues_same) (auto dest: start_container_state)

lemma continues_variable: "continues d' z (variable_value d ctx acs n p) (variable_value (d @ e) ctx acs n p)"
  by (rule continues_same) (auto dest: variable_value_state variable_value_append)

lemma step_acs:
  assumes "ctx_cs ctx \<in> {32, 33, 34}" "\<not> length d - p < unat (ctx_trail ctx)"
  shows "template_step d z ctx p = variable_value d ctx (ctx_cs ctx) p (p + unat (ctx_trail ctx - 1))"
  using assms by (auto simp: template_step_def trail_step_def trail_switch_def Let_def)

lemma continues_again:
  assumes "acs \<in> {32, 33, 34}"
  shows "continues (d @ e) z (again_value d ctx acs k n p) (again_value (d @ e) ctx acs k n p)"
proof (cases "k = 0")
  case True
  then show ?thesis by (simp add: again_value_def continues_variable)
next
  case False
  let ?c = "ctx\<lparr> ctx_trail := k, ctx_cs := acs \<rparr>"
  show ?thesis
  proof (cases "length d - (p + 1) < unat k")
    case True
    have "again_value (d @ e) ctx acs k n p = template_step (d @ e) z ?c (p + 1)"
    proof (cases "length (d @ e) - (p + 1) < unat k")
      case True
      then show ?thesis
        using False assms by (auto simp: again_value_def Let_def template_step_def trail_step_def)
    next
      case enough: False
      with step_acs [of ?c "d @ e" "p + 1" z] assms False show ?thesis
        by (simp add: again_value_def Let_def)
    qed
    with True False assms show ?thesis
      by (simp add: continues_def again_value_def Let_def state_ok_def)
  next
    case enough: False
    then have "\<not> length (d @ e) - (p + 1) < unat k" by simp
    with enough False show ?thesis
      by (simp add: again_value_def Let_def continues_variable)
  qed
qed

lemma load_append:
  "n + 1 \<le> length d \<Longrightarrow> array_get (d @ e) n = array_get d n"
  "n + 2 \<le> length d \<Longrightarrow> msgpack_load16 (drop n (d @ e)) = msgpack_load16 (drop n d)"
  "n + 4 \<le> length d \<Longrightarrow> msgpack_load32 (drop n (d @ e)) = msgpack_load32 (drop n d)"
  "n + 8 \<le> length d \<Longrightarrow> msgpack_load64 (drop n (d @ e)) = msgpack_load64 (drop n d)"
  by (simp_all add: msgpack_load16_def msgpack_load32_def msgpack_load64_def array_get_def nth_append)

lemma fixed_states:
  assumes "cs \<in> {4..19} \<union> {25..31}"
  shows "cs \<in> {4, 7, 12, 16, 25} \<and> trail_bytes cs = 1 \<or> cs \<in> {5, 8, 13, 17, 26, 28, 30} \<and> trail_bytes cs = 2
    \<or> cs \<in> {6, 9, 10, 14, 18, 27, 29, 31} \<and> trail_bytes cs = 4 \<or> cs \<in> {11, 15, 19} \<and> trail_bytes cs = 8"
proof -
  have "4 \<le> cs \<and> cs \<le> 19 \<or> 25 \<le> cs \<and> cs \<le> 31" using assms by auto
  then have "cs \<in> {4, 7, 12, 16, 25} \<or> cs \<in> {5, 8, 13, 17, 26, 28, 30}
    \<or> cs \<in> {6, 9, 10, 14, 18, 27, 29, 31} \<or> cs \<in> {11, 15, 19}"
    unfolding insert_iff empty_iff by presburger
  then show ?thesis by (elim disjE) (auto simp: trail_bytes_def)
qed

lemma continues_bind: "(\<And>v. continues d z (f v) (g v)) \<Longrightarrow> continues d z (Option.bind x f) (Option.bind x g)"
  by (cases x) (simp_all add: continues_def)

lemmas continues_intros = continues_push continues_container continues_again continues_variable continues_bind

lemma continues_switch_fixed:
  assumes "ctx_cs ctx \<in> {4..19} \<union> {25..31}" "n + trail_bytes (ctx_cs ctx) \<le> length d"
  shows "continues (d @ e) z (trail_switch d z ctx n p) (trail_switch (d @ e) z ctx n p)"
  using fixed_states [OF assms(1)]
proof (elim disjE)
  assume c: "ctx_cs ctx \<in> {4, 7, 12, 16, 25} \<and> trail_bytes (ctx_cs ctx) = 1"
  with assms(2) have "array_get (d @ e) n = array_get d n" by (intro load_append) simp
  then show ?thesis using c by (auto simp: trail_switches continues_intros)
next
  assume c: "ctx_cs ctx \<in> {5, 8, 13, 17, 26, 28, 30} \<and> trail_bytes (ctx_cs ctx) = 2"
  with assms(2) have "msgpack_load16 (drop n (d @ e)) = msgpack_load16 (drop n d)" by (intro load_append) simp
  then show ?thesis using c by (auto simp: trail_switches continues_intros)
next
  assume c: "ctx_cs ctx \<in> {6, 9, 10, 14, 18, 27, 29, 31} \<and> trail_bytes (ctx_cs ctx) = 4"
  with assms(2) have "msgpack_load32 (drop n (d @ e)) = msgpack_load32 (drop n d)" by (intro load_append) simp
  then show ?thesis using c by (auto simp: trail_switches continues_intros)
next
  assume c: "ctx_cs ctx \<in> {11, 15, 19} \<and> trail_bytes (ctx_cs ctx) = 8"
  with assms(2) have "msgpack_load64 (drop n (d @ e)) = msgpack_load64 (drop n d)" by (intro load_append) simp
  then show ?thesis using c by (auto simp: trail_switches continues_intros)
qed

lemma continues_trail:
  assumes "state_ok ctx" "ctx_cs ctx \<noteq> 0"
  shows "continues (d @ e) z (trail_step d z ctx p) (trail_step (d @ e) z ctx p)"
proof (cases "length d - p < unat (ctx_trail ctx)")
  case True
  then show ?thesis
    using assms by (auto simp: continues_def trail_step_def template_step_def)
next
  case False
  then have enough: "\<not> length (d @ e) - p < unat (ctx_trail ctx)" by simp
  have t: "trail_step (x :: bytes) z ctx p = trail_switch x z ctx p (p + unat (ctx_trail ctx - 1))"
    if "\<not> length x - p < unat (ctx_trail ctx)" for x
    using that by (simp add: trail_step_def Let_def)
  show ?thesis
  proof (cases "ctx_cs ctx \<in> {32, 33, 34}")
    case True
    then show ?thesis
      using step_acs [OF True False, of z] step_acs [OF True enough, of z] assms(2)
      by (simp add: template_step_def continues_variable)
  next
    case fixed: False
    with assms have f: "ctx_cs ctx \<in> {4..19} \<union> {25..31}" "unat (ctx_trail ctx) = trail_bytes (ctx_cs ctx)"
      by (auto simp: state_ok_def)
    have "0 < trail_bytes (ctx_cs ctx)" using fixed_states [OF f(1)] by auto
    then have "p + trail_bytes (ctx_cs ctx) \<le> length d" using False f(2) by linarith
    with continues_switch_fixed [OF f(1)] show ?thesis by (simp add: t [OF False] t [OF enough])
  qed
qed

lemma unat_masks:
  "unat ((b :: u8) AND 0x1f) = unat b mod 32" "unat (b AND 3) = unat b mod 4" "unat (b AND 1) = unat b mod 2"
proof -
  have "b AND 3 = take_bit 2 b" "b AND 1 = take_bit 1 b"
    by (simp_all add: take_bit_eq_mask mask_eq_exp_minus_1)
  then show "unat (b AND 3) = unat b mod 4" "unat (b AND 1) = unat b mod 2"
    by (simp_all only: unsigned_take_bit_eq) (simp_all add: take_bit_eq_mod)
qed (rule unat_and_mask)

lemma unat_byte_Suc: "unat (b :: u8) < 255 \<Longrightarrow> unat (b + 1) = unat b + 1"
  using unat_byte [of "unat b + 1"] by (simp add: add.commute)

text \<open>The trail length a header byte asks for is the one its state expects.\<close>

definition asks :: "u8 \<Rightarrow> u32 \<Rightarrow> bool" where
  "asks b k \<longleftrightarrow> NEXT_CS b \<noteq> 0 \<and> NEXT_CS b \<in> {4..19} \<union> {25..31} \<and> unat k = trail_bytes (NEXT_CS b)"

lemma asks_header:
  "0xc4 \<le> b \<Longrightarrow> b \<le> 0xc6 \<Longrightarrow> asks b (push_bit (unat (b AND 3)) 1)"
  "0xc7 \<le> b \<Longrightarrow> b \<le> 0xc9 \<Longrightarrow> asks b (push_bit (unat ((b + 1) AND 3)) 1)"
  "0xca \<le> b \<Longrightarrow> b \<le> 0xd3 \<Longrightarrow> asks b (push_bit (unat (b AND 3)) 1)"
  "0xd9 \<le> b \<Longrightarrow> b \<le> 0xdb \<Longrightarrow> asks b (push_bit (unat (b AND 3) - 1) 1)"
  "0xdc \<le> b \<Longrightarrow> b \<le> 0xdf \<Longrightarrow> asks b (push_bit (unat (b AND 1)) 2)"
proof -
  note simps = asks_def NEXT_CS_def unat_masks trail_bytes_def
  show "asks b (push_bit (unat (b AND 3)) 1)" if "0xc4 \<le> b" "b \<le> 0xc6"
  proof -
    have "unat b = 196 \<or> unat b = 197 \<or> unat b = 198" using that unfolding word_le_nat_alt by simp arith
    then show ?thesis by (elim disjE; simp add: simps)
  qed
  show "asks b (push_bit (unat ((b + 1) AND 3)) 1)" if "0xc7 \<le> b" "b \<le> 0xc9"
  proof -
    have u: "unat b = 199 \<or> unat b = 200 \<or> unat b = 201" using that unfolding word_le_nat_alt by simp arith
    then have "unat (b + 1) = unat b + 1" by (intro unat_byte_Suc) auto
    with u show ?thesis by (elim disjE; simp add: simps)
  qed
  show "asks b (push_bit (unat (b AND 3)) 1)" if "0xca \<le> b" "b \<le> 0xd3"
  proof -
    have "unat b = 202 \<or> unat b = 203 \<or> unat b = 204 \<or> unat b = 205 \<or> unat b = 206 \<or> unat b = 207
      \<or> unat b = 208 \<or> unat b = 209 \<or> unat b = 210 \<or> unat b = 211"
      using that unfolding word_le_nat_alt by simp arith
    then show ?thesis by (elim disjE; simp add: simps)
  qed
  show "asks b (push_bit (unat (b AND 3) - 1) 1)" if "0xd9 \<le> b" "b \<le> 0xdb"
  proof -
    have "unat b = 217 \<or> unat b = 218 \<or> unat b = 219" using that unfolding word_le_nat_alt by simp arith
    then show ?thesis by (elim disjE; simp add: simps)
  qed
  show "asks b (push_bit (unat (b AND 1)) 2)" if "0xdc \<le> b" "b \<le> 0xdf"
  proof -
    have "unat b = 220 \<or> unat b = 221 \<or> unat b = 222 \<or> unat b = 223"
      using that unfolding word_le_nat_alt by simp arith
    then show ?thesis by (elim disjE; simp add: simps)
  qed
qed

lemma continues_fixed_trail:
  assumes "asks b k"
  shows "continues (d @ e) z (again_fixed_trail d z ctx (NEXT_CS b) k p) (again_fixed_trail (d @ e) z ctx (NEXT_CS b) k p)"
  unfolding again_fixed_trail_def
  by (rule continues_trail) (use assms in \<open>auto simp: asks_def state_ok_def\<close>)

lemma continues_if:
  "(c \<Longrightarrow> continues d z a a') \<Longrightarrow> (\<not> c \<Longrightarrow> continues d z b b') \<Longrightarrow>
    continues d z (if c then a else b) (if c then a' else b')"
  by simp

lemma continues_failed: "continues d z (Some (Failed, ctx, p)) (Some (Failed, ctx, p))"
  by (simp add: continues_def)

lemma continues_header:
  "continues (d @ e) z (header_step d z ctx p) (header_step (d @ e) z ctx p)"
proof (cases "array_get d p")
  case None
  then show ?thesis by (simp add: header_step_def continues_def)
next
  case (Some b)
  note more = array_get_append [OF Some, of e]
  show ?thesis
    unfolding header_step_def Some more option.case Let_def
    by (intro continues_if continues_push continues_container continues_again continues_fixed_trail
        continues_failed; ((elim conjE, (rule asks_header; assumption)) | simp))
qed

lemma continues_step:
  "state_ok ctx \<Longrightarrow> continues (d @ e) z (template_step d z ctx p) (template_step (d @ e) z ctx p)"
  using continues_header continues_trail by (cases "ctx_cs ctx = 0") (simp_all add: template_step_def)

subsection \<open>Resuming\<close>

lemma trail_switch_forward:
  "trail_switch d z ctx n p = Some (Header_again, c, p') \<Longrightarrow> p < p'"
  unfolding trail_switch_def Let_def again_value_def
  by (auto dest!: push_state start_container_state variable_value_state split: if_splits bind_splits)

lemma again_value_forward:
  "again_value d ctx acs k n p = Some (Header_again, c, p') \<Longrightarrow> p < p'"
  by (auto simp: again_value_def Let_def dest!: variable_value_state split: if_splits)

lemma trail_step_forward: "trail_step d z ctx p = Some (Header_again, c, p') \<Longrightarrow> p < p'"
  by (auto simp: trail_step_def dest!: trail_switch_forward split: if_splits)

lemma header_step_forward: "header_step d z ctx p = Some (Header_again, c, p') \<Longrightarrow> p < p'"
  unfolding header_step_def again_fixed_trail_def Let_def
  by (auto dest!: push_state start_container_state trail_step_forward again_value_forward
      split: if_splits option.splits)

lemma template_step_forward: "template_step d z ctx p = Some (Header_again, c, p') \<Longrightarrow> p < p'"
  by (auto simp: template_step_def dest: header_step_forward trail_step_forward split: if_splits)

lemma template_loop_eq: "template_loop d z ctx p = after d z (template_step d z ctx p)"
  by (rule template_loop_after) (rule template_step_forward)

text \<open>A step that stops for want of data stops inside the data.\<close>

lemma again_value_out: "again_value d ctx acs k n p = Some (Out, c, p') \<Longrightarrow> p' = p + 1"
  by (auto simp: again_value_def Let_def dest!: variable_value_state split: if_splits)

lemma trail_switch_out: "trail_switch d z ctx n p = Some (Out, c, p') \<Longrightarrow> p' = p + 1"
  unfolding trail_switch_def Let_def
  by (auto dest!: push_state start_container_state variable_value_state again_value_out split: if_splits bind_splits)

lemma trail_step_out:
  assumes "trail_step d z ctx p = Some (Out, c, p')" "p \<le> length d" "ctx_trail ctx \<noteq> 0"
  shows "p' \<le> length d"
proof (cases "length d - p < unat (ctx_trail ctx)")
  case False
  with assms(1) have "p' = p + unat (ctx_trail ctx - 1) + 1"
    by (auto simp: trail_step_def dest!: trail_switch_out)
  moreover have "unat (ctx_trail ctx - 1) + 1 = unat (ctx_trail ctx)"
    using unat_minus_one [OF assms(3)] assms(3) by (simp add: unat_gt_0 Suc_leI)
  ultimately show ?thesis using False assms(2) by linarith
qed (use assms in \<open>auto simp: trail_step_def\<close>)

lemma asks_nonzero: "asks b k \<Longrightarrow> k \<noteq> 0"
  by (auto simp: asks_def trail_bytes_def split: if_splits)

lemma fixed_trail_out:
  assumes "again_fixed_trail d z ctx (NEXT_CS b) k p = Some (Out, c, p')" "p < length d" "asks b k"
  shows "p' \<le> length d"
proof (rule trail_step_out [OF assms(1) [unfolded again_fixed_trail_def]])
  show "p + 1 \<le> length d" using assms(2) by linarith
  show "ctx_trail (ctx\<lparr>ctx_trail := k, ctx_cs := NEXT_CS b\<rparr>) \<noteq> 0" using asks_nonzero [OF assms(3)] by simp
qed

text \<open>The two facts about the outcome of a header in one predicate, so that it follows the cases.\<close>

definition out_within :: "bytes \<Rightarrow> step \<Rightarrow> bool" where
  "out_within d r \<longleftrightarrow> (\<forall>c p'. r = Some (Out, c, p') \<longrightarrow> p' \<le> length d)"

lemma out_within_if: "(c \<Longrightarrow> out_within d a) \<Longrightarrow> (\<not> c \<Longrightarrow> out_within d b) \<Longrightarrow> out_within d (if c then a else b)"
  by simp

lemma out_within_steps:
  "out_within d (push ctx p ob)" "out_within d (start_container ctx p r n ct)" "out_within d (Some (Failed, ctx, p))"
  by (auto simp: out_within_def dest: push_state start_container_state)

lemma out_within_again: "p < length d \<Longrightarrow> out_within d (again_value d ctx acs k n p)"
  by (auto simp: out_within_def dest: again_value_out)

lemma out_within_trail: "p < length d \<Longrightarrow> asks b k \<Longrightarrow> out_within d (again_fixed_trail d z ctx (NEXT_CS b) k p)"
  by (auto simp: out_within_def intro: fixed_trail_out)

lemma header_step_out:
  assumes "header_step d z ctx p = Some (Out, c, p')" "p < length d"
  shows "p' \<le> length d"
proof -
  have "out_within d (header_step d z ctx p)"
  proof (cases "array_get d p")
    case (Some b)
    show ?thesis
      unfolding header_step_def Some option.case Let_def
      by (intro out_within_if out_within_steps out_within_again out_within_trail assms(2);
          ((elim conjE, (rule asks_header; assumption)) | simp))
  qed (simp add: header_step_def out_within_def)
  with assms(1) show ?thesis by (simp add: out_within_def)
qed

lemma template_step_out:
  assumes "template_step d z ctx p = Some (Out, c, p')" "p < length d" "state_ok ctx"
  shows "p' \<le> length d"
proof (cases "ctx_cs ctx = 0")
  case True
  with assms show ?thesis by (auto simp: template_step_def intro: header_step_out)
next
  case False
  with assms(3) fixed_states [of "ctx_cs ctx"] have "ctx_trail ctx \<noteq> 0" by (auto simp: state_ok_def)
  with False assms show ?thesis by (auto simp: template_step_def intro: trail_step_out)
qed

text \<open>Where a run stops for want of data.\<close>

lemma loop_resume:
  assumes "template_loop d z ctx p = Some (0, c, q)" "state_ok ctx" "p < length d"
  shows "template_loop (d @ e) z ctx p = (if q = length (d @ e) then Some (0, c, q) else template_loop (d @ e) z c q)
    \<and> state_ok c \<and> q \<le> length d"
  using assms
proof (induction d z ctx p arbitrary: c q rule: template_loop.induct)
  case (1 d z ctx p)
  note step = continues_step [OF 1(3), of d e z p, unfolded continues_def]
  from 1(2) obtain l ctx' p' where s: "template_step d z ctx p = Some (l, ctx', p')"
    by (auto simp: template_loop_eq after_def split: option.splits)
  show ?case
  proof (cases l)
    case Header_again
    with step s have more: "template_step (d @ e) z ctx p = Some (Header_again, ctx', p')" "ctx_cs ctx' = 0"
      by auto
    then have ok: "state_ok ctx'" by (simp add: state_ok_def)
    have fw: "p < p'" using template_step_forward s Header_again by blast
    show ?thesis
    proof (cases "p' = length d")
      case True
      with 1(2) s Header_again more ok show ?thesis
        by (cases "e = []") (simp_all add: template_loop_eq after_def)
    next
      case False
      with 1(2) s Header_again have l: "p' < length d" "template_loop d z ctx' p' = Some (0, c, q)"
        by (auto simp: template_loop_eq [of d z ctx p] after_def split: if_splits)
      have "template_loop (d @ e) z ctx p = template_loop (d @ e) z ctx' p'"
        using more l(1) by (simp add: template_loop_eq [of _ z ctx p] after_def)
      with 1(1) [OF s _ _ _ False _ l(2) ok l(1)] Header_again fw l(1) show ?thesis by simp
    qed
  next
    case Out
    with 1(2) s have cq: "ctx' = c" "p' = q" by (simp_all add: template_loop_eq after_def)
    from step s Out have more: "template_step (d @ e) z ctx p = template_step (d @ e) z ctx' p'" "state_ok ctx'"
      by auto
    have "template_loop (d @ e) z ctx p = template_loop (d @ e) z c q"
      using more(1) cq by (simp add: template_loop_eq)
    moreover have "q \<le> length d" using template_step_out [OF _ 1(4,3)] s Out cq by blast
    ultimately show ?thesis
      using more(2) cq 1(2) by (cases "e = []") auto
  qed (use 1(2) s in \<open>simp_all add: template_loop_eq after_def\<close>)
qed

lemma execute_resume:
  assumes "template_execute z ctx d off = Some (0, c, q)" "state_ok ctx"
  shows "template_execute z ctx (d @ e) off = template_execute z c (d @ e) q \<and> state_ok c \<and> q \<le> length d"
proof (cases "off < length d")
  case True
  with assms(1) have "template_loop d z ctx off = Some (0, c, q)" by (simp add: template_execute_def)
  from loop_resume [OF this assms(2) True, of e] True show ?thesis
    by (auto simp: template_execute_def)
qed (use assms in \<open>auto simp: template_execute_def split: if_splits\<close>)

text \<open>(C5) Data may arrive in pieces. When a run of the state machine over a first piece ends with the
  result 0, for want of data, at offset \<open>q\<close>, then the run over all the data is the run that continues
  from the saved context at \<open>q\<close>: no byte is read twice or skipped and no other state is needed. The
  saved context is again a consistent one, and \<open>q\<close> is within the first piece.\<close>

theorem unpack_resumes:
  assumes "template_execute z ctx d off = Some (0, c, q)" "state_ok ctx"
  shows "template_execute z ctx (d @ e) off = template_execute z c (d @ e) q \<and> state_ok c \<and> q \<le> length d"
  by (rule execute_resume [OF assms])

text \<open>The two first bytes of the array \<open>[1, 2]\<close>.\<close>

lemma unpack_resumes_witness:
  "\<exists>c q. template_execute (\<lambda>_. True) fresh_context [0x92, 1] 0 = Some (0, c, q)
     \<and> template_execute (\<lambda>_. True) fresh_context ([0x92, 1] @ [2]) 0 = template_execute (\<lambda>_. True) c ([0x92, 1] @ [2]) q"
proof -
  have "template_execute (\<lambda>_. True) fresh_context [0x92, 1] 0 =
    Some (0, fresh_context\<lparr> ctx_stack := [\<lparr> st_obj = OBJECT_ARRAY [OBJECT_POSITIVE_INTEGER 1], st_count = 1, st_ct = CT_ARRAY_ITEM, st_map_key = OBJECT_NIL \<rparr>] \<rparr>, 2)"
    by code_simp
  from unpack_resumes [OF this state_ok_fresh, of "[2]"] this show ?thesis by blast
qed

end
