(* ===== verification/MsgpackZone.thy ===== *)
theory MsgpackZone
  imports Prelude
begin

text \<open>
  The memory zones of MessagePack (\<^verbatim>\<open>zone.c\<close>, \<^verbatim>\<open>zone.h\<close>): regions are cut from chunks and freed all at once,
  after the finalizers that were registered have run. Memory is the map of the live blocks, from their
  address to their size. \<open>malloc\<close> is a parameter: for the live blocks and a size it gives the address of
  a new block, or nothing. Freeing a block that is not live has no result (\<open>None\<close>). The linked chunks
  are the list of their addresses, newest first. The finalizer array is a block of its own, which
  \<open>realloc\<close> moves: for the blocks that are live without the old one it gives the address of the new one,
  or nothing. The record keeps its address (\<open>None\<close> for \<^verbatim>\<open>NULL\<close>), its room and its entries; an access to an entry
  outside a live block of that room has no result. The finalizers that run are recorded.
\<close>

subsection \<open>Blocks\<close>

type_synonym blocks = "nat \<Rightarrow> nat option"
type_synonym allocator = "blocks \<Rightarrow> nat \<Rightarrow> nat option"

definition new_block :: "allocator \<Rightarrow> blocks \<Rightarrow> nat \<Rightarrow> (nat \<times> blocks) option" where
  "new_block malloc live n = map_option (\<lambda>a. (a, live(a \<mapsto> n mod 2 ^ 64))) (malloc live (n mod 2 ^ 64))"

definition realloc_block :: "allocator \<Rightarrow> blocks \<Rightarrow> nat option \<Rightarrow> nat \<Rightarrow> (nat \<times> blocks) option option" where
  "realloc_block realloc live old n = (case old of
     None \<Rightarrow> Some (new_block realloc live n)
   | Some a \<Rightarrow> if live a = None then None else Some (new_block realloc (live(a := None)) n))"

definition free_block :: "blocks \<Rightarrow> nat \<Rightarrow> blocks option" where
  "free_block live a = (if live a = None then None else Some (live(a := None)))"

subsection \<open>Zones\<close>

type_synonym finalizer = "nat \<times> nat"

record msgpack_zone =
  z_free :: nat
  z_ptr :: nat
  z_chunks :: "nat list"
  z_array :: "nat option"
  z_finalizers :: "finalizer list"
  z_finalizer_room :: nat
  z_chunk_size :: nat

definition sizeof_chunk :: nat where "sizeof_chunk = 8"
definition sizeof_zone :: nat where "sizeof_zone = 56"
definition sizeof_finalizer :: nat where "sizeof_finalizer = 16"
definition MSGPACK_ZONE_ALIGN :: nat where "MSGPACK_ZONE_ALIGN = 8"
definition MSGPACK_ZONE_CHUNK_SIZE :: nat where "MSGPACK_ZONE_CHUNK_SIZE = 8192"

definition init_chunk_list :: "allocator \<Rightarrow> blocks \<Rightarrow> nat \<Rightarrow> ((nat \<times> nat \<times> nat list) \<times> blocks) option" where
  "init_chunk_list malloc live chunk_size =
     map_option (\<lambda>(chunk, live). ((chunk_size, chunk + sizeof_chunk, [chunk]), live))
       (new_block malloc live (sizeof_chunk + chunk_size))"

definition msgpack_zone_init :: "allocator \<Rightarrow> blocks \<Rightarrow> nat \<Rightarrow> msgpack_zone option \<times> blocks" where
  "msgpack_zone_init malloc live chunk_size = (case init_chunk_list malloc live chunk_size of
     None \<Rightarrow> (None, live)
   | Some ((free, ptr, chunks), live) \<Rightarrow> (Some \<lparr> z_free = free, z_ptr = ptr, z_chunks = chunks,
       z_array = None, z_finalizers = [], z_finalizer_room = 0, z_chunk_size = chunk_size \<rparr>, live))"

definition msgpack_zone_malloc_expand ::
    "allocator \<Rightarrow> blocks \<Rightarrow> msgpack_zone \<Rightarrow> nat \<Rightarrow> nat option \<times> msgpack_zone \<times> blocks" where
  "msgpack_zone_malloc_expand malloc live zone n =
     (let sz = grow_size (z_chunk_size zone) n
      in case new_block malloc live (sizeof_chunk + sz) of
           None \<Rightarrow> (None, zone, live)
         | Some (chunk, live) \<Rightarrow> let ptr = chunk + sizeof_chunk
             in (Some ptr, zone\<lparr> z_chunks := chunk # z_chunks zone, z_free := size_sub sz n, z_ptr := ptr + n \<rparr>, live))"

definition msgpack_zone_malloc_no_align ::
    "allocator \<Rightarrow> blocks \<Rightarrow> msgpack_zone \<Rightarrow> nat \<Rightarrow> nat option \<times> msgpack_zone \<times> blocks" where
  "msgpack_zone_malloc_no_align malloc live zone n =
     (if z_free zone < n then msgpack_zone_malloc_expand malloc live zone n
      else (Some (z_ptr zone), zone\<lparr> z_free := z_free zone - n, z_ptr := z_ptr zone + n \<rparr>, live))"

definition msgpack_zone_malloc ::
    "allocator \<Rightarrow> blocks \<Rightarrow> msgpack_zone \<Rightarrow> nat \<Rightarrow> nat option \<times> msgpack_zone \<times> blocks" where
  "msgpack_zone_malloc malloc live zone n =
     (let aligned = (z_ptr zone + (MSGPACK_ZONE_ALIGN - 1)) mod 2 ^ 64 div MSGPACK_ZONE_ALIGN * MSGPACK_ZONE_ALIGN;
          adjusted_size = (n + size_sub aligned (z_ptr zone)) mod 2 ^ 64
      in if adjusted_size \<le> z_free zone
         then (Some aligned, zone\<lparr> z_free := z_free zone - adjusted_size, z_ptr := z_ptr zone + adjusted_size \<rparr>, live)
         else let (ptr, zone, live) =
             msgpack_zone_malloc_expand malloc live zone ((n + (MSGPACK_ZONE_ALIGN - 1)) mod 2 ^ 64)
           in (map_option (\<lambda>p. p div MSGPACK_ZONE_ALIGN * MSGPACK_ZONE_ALIGN) ptr, zone, live))"

text \<open>An entry can be accessed where the array is a live block that is large enough.\<close>

definition has_entry :: "blocks \<Rightarrow> nat option \<Rightarrow> nat \<Rightarrow> bool" where
  "has_entry live array i = (case array of
     None \<Rightarrow> False
   | Some a \<Rightarrow> (case live a of None \<Rightarrow> False | Some m \<Rightarrow> sizeof_finalizer * (i + 1) \<le> m))"

definition msgpack_zone_push_finalizer_expand ::
    "allocator \<Rightarrow> blocks \<Rightarrow> msgpack_zone \<Rightarrow> nat \<Rightarrow> nat \<Rightarrow> (bool \<times> msgpack_zone \<times> blocks) option" where
  "msgpack_zone_push_finalizer_expand realloc live zone func data =
     (let nused = z_finalizer_room zone;
          nnext = (if nused = 0 then (if sizeof_finalizer < 72 div 2 then 72 div sizeof_finalizer else 8) else nused * 2)
      in case realloc_block realloc live (z_array zone) (sizeof_finalizer * nnext) of
           None \<Rightarrow> None
         | Some None \<Rightarrow> Some (False, zone, live)
         | Some (Some (tmp, live)) \<Rightarrow>
             if has_entry live (Some tmp) nused
             then Some (True, zone\<lparr> z_array := Some tmp, z_finalizer_room := nnext,
                 z_finalizers := take nused (z_finalizers zone) @ [(func, data)] \<rparr>, live)
             else None)"

definition msgpack_zone_push_finalizer ::
    "allocator \<Rightarrow> blocks \<Rightarrow> msgpack_zone \<Rightarrow> nat \<Rightarrow> nat \<Rightarrow> (bool \<times> msgpack_zone \<times> blocks) option" where
  "msgpack_zone_push_finalizer realloc live zone func data =
     (if length (z_finalizers zone) = z_finalizer_room zone
      then msgpack_zone_push_finalizer_expand realloc live zone func data
      else if has_entry live (z_array zone) (length (z_finalizers zone))
      then Some (True, zone\<lparr> z_finalizers := z_finalizers zone @ [(func, data)] \<rparr>, live)
      else None)"

text \<open>The calls, in order; the loop reads every entry.\<close>

definition call_finalizer_array :: "blocks \<Rightarrow> msgpack_zone \<Rightarrow> finalizer list option" where
  "call_finalizer_array live zone =
     (if z_finalizers zone = [] \<or> has_entry live (z_array zone) (length (z_finalizers zone) - 1)
      then Some (rev (z_finalizers zone)) else None)"

definition destroy_finalizer_array :: "blocks \<Rightarrow> msgpack_zone \<Rightarrow> (finalizer list \<times> blocks) option" where
  "destroy_finalizer_array live zone = Option.bind (call_finalizer_array live zone) (\<lambda>calls.
     map_option (\<lambda>live. (calls, live))
       (case z_array zone of None \<Rightarrow> Some live | Some a \<Rightarrow> free_block live a))"

definition clear_finalizer_array :: "blocks \<Rightarrow> msgpack_zone \<Rightarrow> (finalizer list \<times> msgpack_zone) option" where
  "clear_finalizer_array live zone =
     map_option (\<lambda>calls. (calls, zone\<lparr> z_finalizers := [] \<rparr>)) (call_finalizer_array live zone)"

definition msgpack_zone_is_empty :: "msgpack_zone \<Rightarrow> bool" where
  "msgpack_zone_is_empty zone \<longleftrightarrow>
     z_free zone = z_chunk_size zone \<and> tl (z_chunks zone) = [] \<and> z_finalizers zone = []"

fun destroy_chunk_list :: "blocks \<Rightarrow> nat list \<Rightarrow> blocks option" where
  "destroy_chunk_list live [] = None"
| "destroy_chunk_list live [c] = free_block live c"
| "destroy_chunk_list live (c # n # cs) = Option.bind (free_block live c) (\<lambda>live. destroy_chunk_list live (n # cs))"

fun clear_chunks :: "blocks \<Rightarrow> nat list \<Rightarrow> (nat \<times> blocks) option" where
  "clear_chunks live [] = None"
| "clear_chunks live [c] = Some (c, live)"
| "clear_chunks live (c # n # cs) = Option.bind (free_block live c) (\<lambda>live. clear_chunks live (n # cs))"

definition clear_chunk_list :: "blocks \<Rightarrow> msgpack_zone \<Rightarrow> nat \<Rightarrow> (msgpack_zone \<times> blocks) option" where
  "clear_chunk_list live zone chunk_size =
     map_option (\<lambda>(c, live). (zone\<lparr> z_chunks := [c], z_free := chunk_size, z_ptr := c + sizeof_chunk \<rparr>, live))
       (clear_chunks live (z_chunks zone))"

definition msgpack_zone_destroy :: "blocks \<Rightarrow> msgpack_zone \<Rightarrow> (finalizer list \<times> blocks) option" where
  "msgpack_zone_destroy live zone = Option.bind (destroy_finalizer_array live zone) (\<lambda>(calls, live).
     map_option (\<lambda>live. (calls, live)) (destroy_chunk_list live (z_chunks zone)))"

definition msgpack_zone_clear :: "blocks \<Rightarrow> msgpack_zone \<Rightarrow> (finalizer list \<times> msgpack_zone \<times> blocks) option" where
  "msgpack_zone_clear live zone = Option.bind (clear_finalizer_array live zone) (\<lambda>(calls, zone).
     map_option (\<lambda>(zone, live). (calls, zone, live)) (clear_chunk_list live zone (z_chunk_size zone)))"

definition msgpack_zone_new :: "allocator \<Rightarrow> blocks \<Rightarrow> nat \<Rightarrow> ((nat \<times> msgpack_zone) option \<times> blocks) option" where
  "msgpack_zone_new malloc live chunk_size = (case new_block malloc live sizeof_zone of
     None \<Rightarrow> Some (None, live)
   | Some (a, live) \<Rightarrow> (case init_chunk_list malloc live chunk_size of
       None \<Rightarrow> map_option (\<lambda>live. (None, live)) (free_block live a)
     | Some ((free, ptr, chunks), live) \<Rightarrow> Some (Some (a, \<lparr> z_free = free, z_ptr = ptr, z_chunks = chunks,
         z_array = None, z_finalizers = [], z_finalizer_room = 0, z_chunk_size = chunk_size \<rparr>), live)))"

definition msgpack_zone_free :: "blocks \<Rightarrow> (nat \<times> msgpack_zone) option \<Rightarrow> (finalizer list \<times> blocks) option" where
  "msgpack_zone_free live zone = (case zone of
     None \<Rightarrow> Some ([], live)
   | Some (a, z) \<Rightarrow> Option.bind (msgpack_zone_destroy live z) (\<lambda>(calls, live).
       map_option (\<lambda>live. (calls, live)) (free_block live a)))"

definition msgpack_zone_swap :: "msgpack_zone \<Rightarrow> msgpack_zone \<Rightarrow> msgpack_zone \<times> msgpack_zone" where
  "msgpack_zone_swap a b = (let tmp = a; a = b; b = tmp in (a, b))"

subsection \<open>What the allocator promises\<close>

text \<open>A block that is given out is aligned, inside the address space and apart from every live block.\<close>

definition apart :: "nat \<times> nat \<Rightarrow> nat \<times> nat \<Rightarrow> bool" where
  "apart r s \<longleftrightarrow> fst r + snd r \<le> fst s \<or> fst s + snd s \<le> fst r"

definition malloc_ok :: "allocator \<Rightarrow> bool" where
  "malloc_ok malloc \<longleftrightarrow> (\<forall>live n a. malloc live n = Some a \<longrightarrow> a mod 16 = 0 \<and> 0 < a \<and> a + n < 2 ^ 64 \<and> live a = None
     \<and> (\<forall>b m. live b = Some m \<longrightarrow> apart (a, n) (b, m)))"

text \<open>\<^verbatim>\<open>realloc\<close> gives such a block too, and none of half the address space.\<close>

definition array_realloc_ok :: "allocator \<Rightarrow> bool" where
  "array_realloc_ok realloc \<longleftrightarrow> malloc_ok realloc \<and> (\<forall>live n a. realloc live n = Some a \<longrightarrow> n < 2 ^ 63)"

definition live_ok :: "blocks \<Rightarrow> bool" where
  "live_ok live \<longleftrightarrow> (\<forall>a n. live a = Some n \<longrightarrow> a mod 16 = 0 \<and> a + n < 2 ^ 64)
     \<and> (\<forall>a n b m. live a = Some n \<and> live b = Some m \<and> a \<noteq> b \<longrightarrow> apart (a, n) (b, m))"

lemma new_block_ok:
  assumes "malloc_ok malloc" "live_ok live" "new_block malloc live n = Some (a, live')" "n < 2 ^ 64"
  shows "live' = live(a \<mapsto> n)" "live a = None" "live_ok live'" "a mod 16 = 0" "a + n < 2 ^ 64" "0 < a"
    "\<And>b m. live b = Some m \<Longrightarrow> apart (a, n) (b, m)"
proof -
  from assms(3,4) have m: "malloc live n = Some a" "live' = live(a \<mapsto> n)" by (auto simp: new_block_def)
  with assms(1) show "live' = live(a \<mapsto> n)" "live a = None" "a mod 16 = 0" "a + n < 2 ^ 64" "0 < a"
    "\<And>b m. live b = Some m \<Longrightarrow> apart (a, n) (b, m)" by (auto simp: malloc_ok_def)
  then show "live_ok live'" using assms(2) unfolding live_ok_def by (auto simp: apart_def)
qed

subsection \<open>What a zone keeps\<close>

text \<open>Where a region may lie: in the data of a chunk, and in the newest chunk below the pointer.\<close>

definition inside :: "blocks \<Rightarrow> msgpack_zone \<Rightarrow> nat \<Rightarrow> nat \<times> nat \<Rightarrow> bool" where
  "inside live z c r \<longleftrightarrow> c + sizeof_chunk \<le> fst r
     \<and> fst r + snd r \<le> (if c = hd (z_chunks z) then z_ptr z else c + the (live c))"

text \<open>The finalizer array is a live block apart from the chunks that has exactly its room, or there is none.\<close>

definition array_ok :: "blocks \<Rightarrow> msgpack_zone \<Rightarrow> bool" where
  "array_ok live z \<longleftrightarrow> length (z_finalizers z) \<le> z_finalizer_room z \<and> (case z_array z of
     None \<Rightarrow> z_finalizer_room z = 0
   | Some a \<Rightarrow> a \<notin> set (z_chunks z) \<and> 0 < z_finalizer_room z \<and> sizeof_finalizer * z_finalizer_room z < 2 ^ 63
       \<and> live a = Some (sizeof_finalizer * z_finalizer_room z))"

definition zone_ok :: "blocks \<Rightarrow> msgpack_zone \<Rightarrow> (nat \<times> nat) list \<Rightarrow> bool" where
  "zone_ok live z used \<longleftrightarrow> live_ok live \<and> z_chunks z \<noteq> [] \<and> distinct (z_chunks z) \<and> set (z_chunks z) \<subseteq> dom live
     \<and> z_ptr z + z_free z = hd (z_chunks z) + the (live (hd (z_chunks z)))
     \<and> hd (z_chunks z) + sizeof_chunk \<le> z_ptr z
     \<and> live (last (z_chunks z)) = Some (sizeof_chunk + z_chunk_size z)
     \<and> z_chunk_size z < 2 ^ 62 \<and> array_ok live z
     \<and> (\<forall>r \<in> set used. \<exists>c \<in> set (z_chunks z). inside live z c r) \<and> sorted_wrt apart used"

text \<open>What the zone does not own.\<close>

definition others :: "blocks \<Rightarrow> msgpack_zone \<Rightarrow> blocks" where
  "others live z = live |` (- (set (z_chunks z) \<union> set_option (z_array z)))"

lemma array_ok_simps [simp]:
  "array_ok live (z\<lparr> z_free := f \<rparr>) = array_ok live z" "array_ok live (z\<lparr> z_ptr := p \<rparr>) = array_ok live z"
  by (simp_all add: array_ok_def split: option.split)

lemma array_entry: "array_ok live z \<Longrightarrow> i < z_finalizer_room z \<Longrightarrow> has_entry live (z_array z) i"
  by (auto simp: array_ok_def has_entry_def sizeof_finalizer_def split: option.splits)

lemma inside_block:
  assumes "zone_ok live z used" "c \<in> set (z_chunks z)" "inside live z c r"
  shows "\<exists>m. live c = Some m \<and> c \<le> fst r \<and> fst r + snd r \<le> c + m"
proof -
  from assms(1,2) obtain m where m: "live c = Some m" by (auto simp: zone_ok_def)
  have "z_ptr z \<le> hd (z_chunks z) + the (live (hd (z_chunks z)))" using assms(1) by (simp add: zone_ok_def)
  with assms(3) m show ?thesis by (auto simp: inside_def split: if_splits)
qed

text \<open>Cutting a region from the newest chunk.\<close>

lemma zone_cut:
  assumes "zone_ok live z used" "k + n \<le> z_free z"
  shows "zone_ok live (z\<lparr> z_free := z_free z - (k + n), z_ptr := z_ptr z + (k + n) \<rparr>) ((z_ptr z + k, n) # used)"
proof -
  let ?z = "z\<lparr> z_free := z_free z - (k + n), z_ptr := z_ptr z + (k + n) \<rparr>" and ?c = "hd (z_chunks z)"
  have z: "live_ok live" "z_chunks z \<noteq> []" "distinct (z_chunks z)" "set (z_chunks z) \<subseteq> dom live"
    "z_ptr z + z_free z = ?c + the (live ?c)" "?c + sizeof_chunk \<le> z_ptr z"
    and used: "\<forall>r \<in> set used. \<exists>c \<in> set (z_chunks z). inside live z c r" "sorted_wrt apart used"
    using assms(1) by (simp_all add: zone_ok_def)
  have c: "?c \<in> set (z_chunks z)" using z(2) by simp
  have keep: "inside live ?z c r" if "inside live z c r" for c r using that by (auto simp: inside_def split: if_splits)
  have "apart (z_ptr z + k, n) r" if r: "r \<in> set used" for r
  proof -
    from used(1) r obtain c where c': "c \<in> set (z_chunks z)" "inside live z c r" by blast
    show ?thesis
    proof (cases "c = ?c")
      case True
      with c'(2) show ?thesis by (simp add: inside_def apart_def)
    next
      case False
      from inside_block [OF assms(1) c'] obtain m where m: "live c = Some m" "c \<le> fst r" "fst r + snd r \<le> c + m" by blast
      from c z(4) obtain mc where mc: "live ?c = Some mc" by auto
      have "apart (?c, mc) (c, m)" using z(1) mc m(1) False by (auto simp: live_ok_def)
      with m mc z(5,6) assms(2) show ?thesis by (auto simp: apart_def)
    qed
  qed
  moreover have "inside live ?z ?c (z_ptr z + k, n)" using z(6) by (simp add: inside_def)
  ultimately show ?thesis
    using assms z used keep c unfolding zone_ok_def by fastforce
qed

lemma zone_expand:
  assumes "malloc_ok malloc" "zone_ok live z used" "n < 2 ^ 62" "k \<le> n"
  shows "case msgpack_zone_malloc_expand malloc live z n of
      (None, z', live') \<Rightarrow> z' = z \<and> live' = live
    | (Some a, z', live') \<Rightarrow> a mod 8 = 0 \<and> zone_ok live' z' ((a, k) # used) \<and> others live' z' = others live z
        \<and> z_finalizers z' = z_finalizers z \<and> z_finalizer_room z' = z_finalizer_room z"
proof (cases "new_block malloc live (sizeof_chunk + grow_size (z_chunk_size z) n)")
  case None
  then show ?thesis by (simp add: msgpack_zone_malloc_expand_def Let_def)
next
  case (Some b)
  obtain c live' where b: "b = (c, live')" by force
  let ?sz = "grow_size (z_chunk_size z) n"
  let ?z = "z\<lparr> z_chunks := c # z_chunks z, z_free := size_sub ?sz n, z_ptr := c + sizeof_chunk + n \<rparr>"
  have z: "live_ok live" "z_chunks z \<noteq> []" "distinct (z_chunks z)" "set (z_chunks z) \<subseteq> dom live"
    "z_ptr z + z_free z = hd (z_chunks z) + the (live (hd (z_chunks z)))"
    "live (last (z_chunks z)) = Some (sizeof_chunk + z_chunk_size z)" "z_chunk_size z < 2 ^ 62"
    "array_ok live z"
    and used: "\<forall>r \<in> set used. \<exists>c \<in> set (z_chunks z). inside live z c r" "sorted_wrt apart used"
    using assms(2) by (simp_all add: zone_ok_def)
  have sz: "n \<le> ?sz" "?sz \<le> max (z_chunk_size z) (2 * n)" by (rule grow_size_enough, rule grow_size_bound)
  then have "sizeof_chunk + ?sz < 2 ^ 64" using assms(3) z(7) by (simp add: sizeof_chunk_def max_def split: if_splits)
  note new = new_block_ok [OF assms(1) z(1) Some [unfolded b] this]
  have c: "c \<notin> set (z_chunks z)" using new(2) z(4) by auto
  have array: "array_ok live' ?z" using z(8) new(1,2) by (auto simp: array_ok_def split: option.splits)
  have sub: "size_sub ?sz n = ?sz - n" using sz(1) by simp
  have old: "\<exists>c' \<in> set (c # z_chunks z). inside live' ?z c' r" "apart (c + sizeof_chunk, k) r" if r: "r \<in> set used" for r
  proof -
    from used(1) r obtain c' where c': "c' \<in> set (z_chunks z)" "inside live z c' r" by blast
    from inside_block [OF assms(2) c'] obtain m where m: "live c' = Some m" "c' \<le> fst r" "fst r + snd r \<le> c' + m" by blast
    have "c' \<noteq> c" using c c'(1) by auto
    with c' m new(1) have "inside live' ?z c' r" by (simp add: inside_def)
    with c'(1) show "\<exists>c' \<in> set (c # z_chunks z). inside live' ?z c' r" by auto
    from new(7) [OF m(1)] m sz(1) assms(4) show "apart (c + sizeof_chunk, k) r" by (auto simp: apart_def)
  qed
  have "inside live' ?z c (c + sizeof_chunk, k)" using assms(4) by (simp add: inside_def)
  moreover have "last (c # z_chunks z) = last (z_chunks z)" "last (z_chunks z) \<noteq> c" using z(2) c by auto
  ultimately have ok: "zone_ok live' ?z ((c + sizeof_chunk, k) # used)"
    using z new old used c sz(1) array unfolding zone_ok_def by (auto simp: sub sizeof_chunk_def)
  have "others live' ?z = others live z"
    using c new(1,2) z(8) by (auto simp: others_def array_ok_def restrict_map_def fun_eq_iff split: option.splits)
  moreover have "(c + sizeof_chunk) mod 8 = 0" using new(4) by (simp add: sizeof_chunk_def) presburger
  ultimately show ?thesis
    using Some ok by (simp add: msgpack_zone_malloc_expand_def Let_def b)
qed

lemma zone_malloc_step:
  assumes "malloc_ok malloc" "zone_ok live z used" "n < 2 ^ 61"
  shows "case msgpack_zone_malloc malloc live z n of
      (None, z', live') \<Rightarrow> z' = z \<and> live' = live
    | (Some a, z', live') \<Rightarrow> a mod 8 = 0 \<and> zone_ok live' z' ((a, n) # used) \<and> others live' z' = others live z
        \<and> z_finalizers z' = z_finalizers z \<and> z_finalizer_room z' = z_finalizer_room z"
proof -
  let ?p = "z_ptr z"
  let ?al = "(?p + 7) mod 2 ^ 64 div 8 * 8"
  let ?adj = "(n + size_sub ?al ?p) mod 2 ^ 64"
  have "hd (z_chunks z) \<in> dom live" using assms(2) by (cases "z_chunks z") (auto simp: zone_ok_def)
  then have lim: "?p + z_free z < 2 ^ 64" using assms(2) by (auto simp: zone_ok_def live_ok_def)
  show ?thesis
  proof (cases "?adj \<le> z_free z")
    case True
    have small: "?p + 7 < 2 ^ 64"
    proof (rule ccontr)
      assume "\<not> ?thesis"
      then have "(?p + 7) mod 2 ^ 64 = ?p + 7 - 2 ^ 64" using lim by (simp add: mod_if [of "?p + 7"])
      then have "?al = 0" using lim by simp
      moreover from this have "size_sub ?al ?p = 2 ^ 64 - ?p"
        using lim \<open>\<not> ?p + 7 < 2 ^ 64\<close> by (simp add: size_sub_def size_max_def)
      moreover have "(n + (2 ^ 64 - ?p)) mod 2 ^ 64 = n + (2 ^ 64 - ?p)"
        using assms(3) \<open>\<not> ?p + 7 < 2 ^ 64\<close> by simp
      ultimately show False using True lim by simp
    qed
    then have al: "?al = (?p + 7) div 8 * 8" by simp
    obtain x where x0: "x = (?p + 7) div 8 * 8" by simp
    have x: "?al = x" by (simp only: al x0)
    have le: "?p \<le> x" "x mod 8 = 0" "x \<le> ?p + 7" unfolding x0 by presburger+
    have "size_sub x ?p = x - ?p" "n + (x - ?p) < 2 ^ 64" using assms(3) le by simp_all
    then have adj: "?adj = (x - ?p) + n" "?p + (x - ?p) = x"
      using le(1) unfolding x by (simp_all only: mod_less le_add_diff_inverse add.commute)
    with zone_cut [OF assms(2), of "x - ?p" n] True x le(2) show ?thesis
      unfolding msgpack_zone_malloc_def Let_def MSGPACK_ZONE_ALIGN_def by (simp add: others_def)
  next
    case False
    have "(n + 7) mod 2 ^ 64 = n + 7" "n + 7 < 2 ^ 62" using assms(3) by simp_all
    with zone_expand [OF assms(1,2), of "n + 7" n] False show ?thesis
      by (auto simp: msgpack_zone_malloc_def Let_def MSGPACK_ZONE_ALIGN_def split: prod.splits option.splits)
  qed
qed

lemma zone_malloc_no_align_step:
  assumes "malloc_ok malloc" "zone_ok live z used" "n < 2 ^ 62"
  shows "case msgpack_zone_malloc_no_align malloc live z n of
      (None, z', live') \<Rightarrow> z' = z \<and> live' = live
    | (Some a, z', live') \<Rightarrow> zone_ok live' z' ((a, n) # used) \<and> others live' z' = others live z
        \<and> z_finalizers z' = z_finalizers z \<and> z_finalizer_room z' = z_finalizer_room z"
proof (cases "z_free z < n")
  case True
  with zone_expand [OF assms order_refl] show ?thesis
    by (auto simp: msgpack_zone_malloc_no_align_def split: prod.splits option.splits)
next
  case False
  with zone_cut [OF assms(2), of 0 n] show ?thesis by (simp add: msgpack_zone_malloc_no_align_def others_def)
qed

text \<open>A new finalizer array, or a new entry of the old one.\<close>

lemma zone_ok_finalizers:
  assumes "zone_ok live z used" "live_ok live'" "\<And>c. c \<in> set (z_chunks z) \<Longrightarrow> live' c = live c"
    and "array_ok live' (z\<lparr> z_array := ar, z_finalizer_room := room, z_finalizers := fs \<rparr>)"
  shows "zone_ok live' (z\<lparr> z_array := ar, z_finalizer_room := room, z_finalizers := fs \<rparr>) used"
proof -
  let ?z = "z\<lparr> z_array := ar, z_finalizer_room := room, z_finalizers := fs \<rparr>"
  have c: "z_chunks z \<noteq> []" using assms(1) by (simp add: zone_ok_def)
  have "live' (hd (z_chunks z)) = live (hd (z_chunks z))" "live' (last (z_chunks z)) = live (last (z_chunks z))"
    using assms(3) c by simp_all
  moreover have "inside live' ?z c r = inside live z c r" if "c \<in> set (z_chunks z)" for c r
    using assms(3) [OF that] by (simp add: inside_def)
  moreover have "set (z_chunks z) \<subseteq> dom live'" using assms(1,3) by (fastforce simp: zone_ok_def)
  ultimately show ?thesis using assms(1,2,4) by (simp add: zone_ok_def)
qed

lemma live_ok_delete: "live_ok live \<Longrightarrow> live_ok (live(a := None))"
  by (auto simp: live_ok_def)

text \<open>What a refusal means: \<^verbatim>\<open>realloc\<close> has no block of at most \<open>limit\<close> bytes beside blocks of the heap.\<close>

definition refuses :: "allocator \<Rightarrow> blocks \<Rightarrow> nat \<Rightarrow> bool" where
  "refuses realloc live limit \<longleftrightarrow> (\<exists>l n. l \<subseteq>\<^sub>m live \<and> n \<le> limit \<and> realloc l n = None)"

lemma refuses_mono: "refuses realloc live n \<Longrightarrow> n \<le> m \<Longrightarrow> refuses realloc live m"
  unfolding refuses_def by (meson order_trans)

text \<open>The heap without the old array, on which \<^verbatim>\<open>realloc\<close> chooses the place of the new one.\<close>

definition without_array :: "blocks \<Rightarrow> msgpack_zone \<Rightarrow> blocks" where
  "without_array live z = (case z_array z of None \<Rightarrow> live | Some a \<Rightarrow> live(a := None))"

lemma without_array_facts:
  assumes "zone_ok live z used"
  shows "live_ok (without_array live z)" "without_array live z \<subseteq>\<^sub>m live"
    "\<And>c. c \<in> set (z_chunks z) \<Longrightarrow> without_array live z c = live c"
    "without_array live z |` (- set (z_chunks z)) = others live z"
    "realloc_block realloc live (z_array z) n = Some (new_block realloc (without_array live z) n)"
proof -
  have z: "live_ok live" "array_ok live z" using assms by (simp_all add: zone_ok_def)
  show "live_ok (without_array live z)"
    using z(1) live_ok_delete by (simp add: without_array_def split: option.split)
  show "without_array live z \<subseteq>\<^sub>m live"
    by (auto simp: without_array_def map_le_def split: option.split)
  show "without_array live z c = live c" if "c \<in> set (z_chunks z)" for c
    using z(2) that by (auto simp: without_array_def array_ok_def split: option.split)
  show "without_array live z |` (- set (z_chunks z)) = others live z"
    by (auto simp: without_array_def others_def restrict_map_def fun_eq_iff split: option.split)
  show "realloc_block realloc live (z_array z) n = Some (new_block realloc (without_array live z) n)"
    using z(2) by (auto simp: realloc_block_def without_array_def array_ok_def split: option.splits)
qed

lemma expand_finalizers:
  assumes "array_realloc_ok realloc" "zone_ok live z used" "length (z_finalizers z) = z_finalizer_room z"
  defines "room \<equiv> if z_finalizer_room z = 0 then 4 else z_finalizer_room z * 2"
  shows "\<exists>ok z' live'. msgpack_zone_push_finalizer_expand realloc live z f d = Some (ok, z', live')
    \<and> (if ok then zone_ok live' z' used \<and> others live' z' = others live z \<and> z_finalizers z' = z_finalizers z @ [(f, d)]
         \<and> z_finalizer_room z' = room
       else z' = z \<and> live' = live \<and> refuses realloc live (sizeof_finalizer * room))"
proof -
  let ?base = "without_array live z" and ?n = "sizeof_finalizer * room"
  note base = without_array_facts [OF assms(2)]
  have array: "array_ok live z" using assms(2) by (simp add: zone_ok_def)
  have room: "z_finalizer_room z < room" by (simp add: room_def)
  have small: "?n < 2 ^ 64"
    using array by (auto simp: array_ok_def room_def sizeof_finalizer_def split: option.splits)
  have expand: "msgpack_zone_push_finalizer_expand realloc live z f d = (case new_block realloc ?base ?n of
      None \<Rightarrow> Some (False, z, live)
    | Some (tmp, live) \<Rightarrow> if has_entry live (Some tmp) (z_finalizer_room z)
        then Some (True, z\<lparr> z_array := Some tmp, z_finalizer_room := room, z_finalizers := z_finalizers z @ [(f, d)] \<rparr>, live)
        else None)"
    using assms(3)
    by (cases "z_finalizer_room z = 0")
      (simp_all add: msgpack_zone_push_finalizer_expand_def base(5) room_def sizeof_finalizer_def Let_def split: option.split)
  show ?thesis
  proof (cases "new_block realloc ?base ?n")
    case None
    with small have "realloc ?base ?n = None" by (simp add: new_block_def)
    with base(2) have "refuses realloc live ?n" by (auto simp: refuses_def)
    with None show ?thesis by (intro exI [of _ False] exI [of _ z] exI [of _ live]) (simp add: expand)
  next
    case (Some r)
    then obtain b live' where r: "new_block realloc ?base ?n = Some (b, live')" by (cases r) auto
    from assms(1) have ok: "malloc_ok realloc" by (simp add: array_realloc_ok_def)
    note new = new_block_ok [OF ok base(1) r small]
    have n63: "?n < 2 ^ 63" using r small assms(1) by (auto simp: new_block_def array_realloc_ok_def)
    have bc: "b \<notin> set (z_chunks z)" using new(2) base(3) assms(2) by (fastforce simp: zone_ok_def)
    let ?z = "z\<lparr> z_array := Some b, z_finalizer_room := room, z_finalizers := z_finalizers z @ [(f, d)] \<rparr>"
    have entry: "has_entry live' (Some b) (z_finalizer_room z)"
      using new(1) room by (simp add: has_entry_def sizeof_finalizer_def)
    have "array_ok live' ?z" using bc new(1) n63 room assms(3) by (simp add: array_ok_def)
    then have "zone_ok live' ?z used"
      by (intro zone_ok_finalizers [OF assms(2) new(3)]) (use new(1) bc base(3) in auto)
    moreover have "others live' ?z = ?base |` (- set (z_chunks z))"
      using new(1,2) by (auto simp: others_def restrict_map_def fun_eq_iff)
    then have "others live' ?z = others live z" by (simp add: base(4))
    ultimately show ?thesis
      using r entry by (intro exI [of _ True] exI [of _ ?z] exI [of _ live']) (simp add: expand)
  qed
qed

lemma push_finalizer_step:
  assumes "array_realloc_ok realloc" "zone_ok live z used"
    and k: "z_finalizer_room z \<le> 4 * k" "length (z_finalizers z) \<le> k"
  shows "\<exists>ok z' live'. msgpack_zone_push_finalizer realloc live z f d = Some (ok, z', live')
    \<and> zone_ok live' z' used \<and> others live' z' = others live z
    \<and> z_finalizers z' = z_finalizers z @ (if ok then [(f, d)] else [])
    \<and> z_finalizer_room z' \<le> 4 * Suc k \<and> (ok \<or> refuses realloc live (64 * Suc k))"
proof (cases "length (z_finalizers z) = z_finalizer_room z")
  case True
  let ?room = "if z_finalizer_room z = 0 then 4 else z_finalizer_room z * 2"
  have room: "?room \<le> 4 * Suc k" using k True by simp
  from expand_finalizers [OF assms(1,2) True, of f d] obtain ok z' live' where
    e: "msgpack_zone_push_finalizer_expand realloc live z f d = Some (ok, z', live')"
      "if ok then zone_ok live' z' used \<and> others live' z' = others live z \<and> z_finalizers z' = z_finalizers z @ [(f, d)]
         \<and> z_finalizer_room z' = ?room
       else z' = z \<and> live' = live \<and> refuses realloc live (sizeof_finalizer * ?room)" by blast
  have "refuses realloc live (64 * Suc k)" if "refuses realloc live (sizeof_finalizer * ?room)"
    by (rule refuses_mono [OF that]) (use room in \<open>simp add: sizeof_finalizer_def\<close>)
  moreover have "z_finalizer_room z \<le> 4 * Suc k" using k(1) by simp
  ultimately show ?thesis using e True assms(2) room
    by (intro exI [of _ ok] exI [of _ z'] exI [of _ live'])
      (cases ok; simp add: msgpack_zone_push_finalizer_def del: mult_Suc_right)
next
  case False
  have array: "array_ok live z" using assms(2) by (simp add: zone_ok_def)
  with False have less: "length (z_finalizers z) < z_finalizer_room z" by (simp add: array_ok_def)
  let ?z = "z\<lparr> z_finalizers := z_finalizers z @ [(f, d)] \<rparr>"
  have same: "z\<lparr> z_array := z_array z, z_finalizer_room := z_finalizer_room z, z_finalizers := z_finalizers z @ [(f, d)] \<rparr> = ?z"
    by simp
  have "array_ok live ?z" using array less by (simp add: array_ok_def split: option.splits)
  then have "zone_ok live ?z used"
    using zone_ok_finalizers [OF assms(2), where live' = live and ar = "z_array z" and room = "z_finalizer_room z"
          and fs = "z_finalizers z @ [(f, d)]"] assms(2)
    by (simp add: zone_ok_def)
  with False array_entry [OF array less] k(1) show ?thesis
    by (intro exI [of _ True] exI [of _ ?z] exI [of _ live]) (simp add: msgpack_zone_push_finalizer_def others_def)
qed

lemma clear_chunks_spec:
  "cs \<noteq> [] \<Longrightarrow> distinct cs \<Longrightarrow> set cs \<subseteq> dom live \<Longrightarrow>
     clear_chunks live cs = Some (last cs, live |` (- (set cs - {last cs})))"
proof (induction live cs rule: clear_chunks.induct)
  case (3 live c n cs)
  have free: "free_block live c = Some (live(c := None))" and sub: "set (n # cs) \<subseteq> dom (live(c := None))"
    using 3(3,4) by (auto simp: free_block_def)
  have "clear_chunks (live(c := None)) (n # cs) = Some (last (n # cs), (live(c := None)) |` (- (set (n # cs) - {last (n # cs)})))"
    by (rule 3(1) [OF free _ _ sub]) (use 3(3) in simp_all)
  moreover have "last (n # cs) \<noteq> c" using 3(3) by (metis distinct.simps(2) last_in_set list.distinct(1))
  then have "(live(c := None)) |` (- (set (n # cs) - {last (n # cs)})) = live |` (- (set (c # n # cs) - {last (c # n # cs)}))"
    by (auto simp: restrict_map_def fun_eq_iff)
  ultimately show ?case by (simp add: free)
qed (auto simp: restrict_map_def)

lemma destroy_chunks_spec:
  "cs \<noteq> [] \<Longrightarrow> distinct cs \<Longrightarrow> set cs \<subseteq> dom live \<Longrightarrow> destroy_chunk_list live cs = Some (live |` (- set cs))"
proof (induction live cs rule: destroy_chunk_list.induct)
  case (2 live c)
  then show ?case by (auto simp: free_block_def restrict_map_def fun_eq_iff)
next
  case (3 live c n cs)
  have free: "free_block live c = Some (live(c := None))" and sub: "set (n # cs) \<subseteq> dom (live(c := None))"
    using 3(3,4) by (auto simp: free_block_def)
  have "destroy_chunk_list (live(c := None)) (n # cs) = Some ((live(c := None)) |` (- set (n # cs)))"
    by (rule 3(1) [OF free _ _ sub]) (use 3(3) in simp_all)
  moreover have "(live(c := None)) |` (- set (n # cs)) = live |` (- set (c # n # cs))"
    by (auto simp: restrict_map_def fun_eq_iff)
  ultimately show ?case by (simp add: free)
qed simp

lemma calls_finalizers:
  assumes "array_ok live z"
  shows "call_finalizer_array live z = Some (rev (z_finalizers z))"
proof (cases "z_finalizers z = []")
  case False
  then have "length (z_finalizers z) - 1 < z_finalizer_room z"
    using assms by (cases "z_finalizers z") (auto simp: array_ok_def)
  from array_entry [OF assms this] show ?thesis by (simp add: call_finalizer_array_def)
qed (simp add: call_finalizer_array_def)

lemma clear_step:
  assumes "zone_ok live z used"
  shows "\<exists>z' live'. msgpack_zone_clear live z = Some (rev (z_finalizers z), z', live') \<and> zone_ok live' z' []
     \<and> others live' z' = others live z \<and> z_finalizers z' = [] \<and> z_finalizer_room z' = z_finalizer_room z
     \<and> msgpack_zone_is_empty z'"
proof -
  let ?cs = "z_chunks z" and ?c = "last (z_chunks z)"
  let ?live = "live |` (- (set ?cs - {?c}))"
  let ?z = "z\<lparr> z_finalizers := [], z_chunks := [?c], z_free := z_chunk_size z, z_ptr := ?c + sizeof_chunk \<rparr>"
  have z: "live_ok live" "?cs \<noteq> []" "distinct ?cs" "set ?cs \<subseteq> dom live"
    "live ?c = Some (sizeof_chunk + z_chunk_size z)" "z_chunk_size z < 2 ^ 62" "array_ok live z"
    using assms by (simp_all add: zone_ok_def)
  have c: "?c \<in> set ?cs" using z(2) by simp
  have clear: "msgpack_zone_clear live z = Some (rev (z_finalizers z), ?z, ?live)"
    using clear_chunks_spec [OF z(2-4)]
    by (simp add: msgpack_zone_clear_def clear_chunk_list_def clear_finalizer_array_def calls_finalizers [OF z(7)])
  have "live_ok ?live" using z(1) by (auto simp: live_ok_def restrict_map_def split: if_splits)
  moreover have "array_ok ?live ?z" using z(7) c by (auto simp: array_ok_def restrict_map_def split: option.splits)
  ultimately have "zone_ok ?live ?z []" using z(4,5,6) by (auto simp: zone_ok_def restrict_map_def)
  moreover have "others ?live ?z = others live z"
    using c z(7) by (auto simp: others_def array_ok_def restrict_map_def fun_eq_iff split: option.splits)
  moreover have "msgpack_zone_is_empty ?z" by (simp add: msgpack_zone_is_empty_def)
  ultimately show ?thesis using clear by (intro exI [of _ ?z] exI [of _ ?live]) simp
qed

lemma destroy_step:
  assumes "zone_ok live z used"
  shows "msgpack_zone_destroy live z = Some (rev (z_finalizers z), others live z)"
proof -
  have z: "z_chunks z \<noteq> []" "distinct (z_chunks z)" "set (z_chunks z) \<subseteq> dom live" "array_ok live z"
    using assms by (simp_all add: zone_ok_def)
  have "destroy_finalizer_array live z = Some (rev (z_finalizers z), without_array live z)"
    using z(4) by (auto simp: destroy_finalizer_array_def calls_finalizers without_array_def free_block_def array_ok_def
        split: option.split)
  moreover have "set (z_chunks z) \<subseteq> dom (without_array live z)"
    using z(3) without_array_facts(3) [OF assms] by fastforce
  from destroy_chunks_spec [OF z(1,2) this]
  have "destroy_chunk_list (without_array live z) (z_chunks z) = Some (others live z)"
    by (simp add: without_array_facts(4) [OF assms])
  ultimately show ?thesis by (simp add: msgpack_zone_destroy_def)
qed

lemma init_chunk_list_ok:
  assumes "malloc_ok malloc" "live_ok live" "cs < 2 ^ 62"
    "init_chunk_list malloc live cs = Some ((free, ptr, chunks), live')"
  defines "z \<equiv> \<lparr> z_free = free, z_ptr = ptr, z_chunks = chunks, z_array = None, z_finalizers = [], z_finalizer_room = 0, z_chunk_size = cs \<rparr>"
  shows "zone_ok live' z []" "others live' z = live"
proof -
  from assms(4) obtain c where c: "new_block malloc live (sizeof_chunk + cs) = Some (c, live')"
    "free = cs" "ptr = c + sizeof_chunk" "chunks = [c]" by (auto simp: init_chunk_list_def)
  have "sizeof_chunk + cs < 2 ^ 64" using assms(3) by (simp add: sizeof_chunk_def)
  note new = new_block_ok [OF assms(1,2) c(1) this]
  show "zone_ok live' z []" using new(1,3) assms(3) c(2-) by (simp add: zone_ok_def array_ok_def z_def)
  show "others live' z = live" using new(1,2) c(2-) by (auto simp: others_def z_def restrict_map_def fun_eq_iff)
qed

subsection \<open>Runs\<close>

text \<open>
  What the users of a zone do with it. A run keeps the regions given out since the zone was last cleared
  (whether aligned, with address and size), the calls of finalizers so far, and for every finalizer pushed
  whether that succeeded and the heap it was pushed on.
\<close>

datatype zone_op = ZMalloc nat | ZMallocNoAlign nat | ZFinalizer nat nat | ZClear

type_synonym zone_state =
  "blocks \<times> msgpack_zone \<times> (bool \<times> nat \<times> nat) list \<times> finalizer list \<times> (bool \<times> blocks) list"

fun zone_step :: "allocator \<Rightarrow> allocator \<Rightarrow> zone_op \<Rightarrow> zone_state \<Rightarrow> zone_state option" where
  "zone_step malloc realloc (ZMalloc n) (live, z, used, calls, pushes) =
     (let (r, z, live) = msgpack_zone_malloc malloc live z n
      in Some (live, z, (case r of None \<Rightarrow> used | Some a \<Rightarrow> (True, a, n) # used), calls, pushes))"
| "zone_step malloc realloc (ZMallocNoAlign n) (live, z, used, calls, pushes) =
     (let (r, z, live) = msgpack_zone_malloc_no_align malloc live z n
      in Some (live, z, (case r of None \<Rightarrow> used | Some a \<Rightarrow> (False, a, n) # used), calls, pushes))"
| "zone_step malloc realloc (ZFinalizer f d) (live, z, used, calls, pushes) =
     map_option (\<lambda>(ok, z', live'). (live', z', used, calls, pushes @ [(ok, live)]))
       (msgpack_zone_push_finalizer realloc live z f d)"
| "zone_step malloc realloc ZClear (live, z, used, calls, pushes) =
     map_option (\<lambda>(cs, z, live). (live, z, [], calls @ cs, pushes)) (msgpack_zone_clear live z)"

fun zone_run :: "allocator \<Rightarrow> allocator \<Rightarrow> zone_op list \<Rightarrow> zone_state \<Rightarrow> zone_state option" where
  "zone_run malloc realloc [] s = Some s"
| "zone_run malloc realloc (op # ops) s =
     Option.bind (zone_step malloc realloc op s) (zone_run malloc realloc ops)"

text \<open>Requests within the sizes that do not overflow a 64-bit size.\<close>

fun small_op :: "zone_op \<Rightarrow> bool" where
  "small_op (ZMalloc n) \<longleftrightarrow> n < 2 ^ 61"
| "small_op (ZMallocNoAlign n) \<longleftrightarrow> n < 2 ^ 61"
| "small_op op \<longleftrightarrow> True"

definition zone_inv :: "allocator \<Rightarrow> blocks \<Rightarrow> zone_state \<Rightarrow> bool" where
  "zone_inv realloc base s \<longleftrightarrow> (case s of (live, z, used, calls, pushes) \<Rightarrow>
     zone_ok live z (map snd used) \<and> others live z = base \<and> (\<forall>(al, a, n) \<in> set used. al \<longrightarrow> a mod 8 = 0)
     \<and> z_finalizer_room z \<le> 4 * length pushes \<and> length (z_finalizers z) \<le> length pushes
     \<and> (\<forall>(ok, l) \<in> set pushes. ok \<or> refuses realloc l (64 * length pushes)))"

text \<open>The finalizers a run has to call, from the operations and the results of the pushes: those
  registered before a clear at that clear, the rest at the end, each group in reverse.\<close>

fun calls_of :: "finalizer list \<Rightarrow> zone_op list \<Rightarrow> bool list \<Rightarrow> finalizer list" where
  "calls_of reg (ZFinalizer f d # ops) (ok # oks) = calls_of (if ok then reg @ [(f, d)] else reg) ops oks"
| "calls_of reg (ZClear # ops) oks = rev reg @ calls_of [] ops oks"
| "calls_of reg (op # ops) oks = calls_of reg ops oks"
| "calls_of reg [] oks = rev reg"

definition count_pushes :: "zone_op list \<Rightarrow> nat" where
  "count_pushes ops = length (filter (\<lambda>op. case op of ZFinalizer f d \<Rightarrow> True | _ \<Rightarrow> False) ops)"

text \<open>One step keeps the invariant and records the result of a push; what remains to be called stays the same.\<close>

lemma zone_step_ok:
  assumes "malloc_ok malloc" "array_realloc_ok realloc" "zone_inv realloc base (live, z, used, calls, pushes)" "small_op op"
  shows "\<exists>live' z' used' calls' new. zone_step malloc realloc op (live, z, used, calls, pushes)
      = Some (live', z', used', calls', pushes @ new)
    \<and> zone_inv realloc base (live', z', used', calls', pushes @ new) \<and> length new = count_pushes [op]
    \<and> (\<forall>ops oks. calls @ calls_of (z_finalizers z) (op # ops) (map fst new @ oks)
        = calls' @ calls_of (z_finalizers z') ops oks)"
proof -
  have z: "zone_ok live z (map snd used)" and k: "z_finalizer_room z \<le> 4 * length pushes" "length (z_finalizers z) \<le> length pushes"
    and i: "others live z = base" "\<forall>(al, a, n) \<in> set used. al \<longrightarrow> a mod 8 = 0"
      "\<forall>(ok, l) \<in> set pushes. ok \<or> refuses realloc l (64 * length pushes)"
    using assms(3) by (simp_all add: zone_inv_def)
  show ?thesis
  proof (cases op)
    case (ZMalloc n)
    obtain r z' live' where m: "msgpack_zone_malloc malloc live z n = (r, z', live')" by (metis prod.exhaust)
    from zone_malloc_step [OF assms(1) z, of n] assms(4) ZMalloc m i k z
    have "zone_inv realloc base (live', z', (case r of None \<Rightarrow> used | Some a \<Rightarrow> (True, a, n) # used), calls, pushes)
        \<and> z_finalizers z' = z_finalizers z"
      by (cases r) (simp_all add: zone_inv_def)
    with m ZMalloc show ?thesis by (simp add: count_pushes_def)
  next
    case (ZMallocNoAlign n)
    obtain r z' live' where m: "msgpack_zone_malloc_no_align malloc live z n = (r, z', live')" by (metis prod.exhaust)
    from zone_malloc_no_align_step [OF assms(1) z, of n] assms(4) ZMallocNoAlign m i k z
    have "zone_inv realloc base (live', z', (case r of None \<Rightarrow> used | Some a \<Rightarrow> (False, a, n) # used), calls, pushes)
        \<and> z_finalizers z' = z_finalizers z"
      by (cases r) (simp_all add: zone_inv_def)
    with m ZMallocNoAlign show ?thesis by (simp add: count_pushes_def)
  next
    case (ZFinalizer f d)
    from push_finalizer_step [OF assms(2) z k, of f d] obtain ok z' live' where
      p: "msgpack_zone_push_finalizer realloc live z f d = Some (ok, z', live')"
        "zone_ok live' z' (map snd used)" "others live' z' = others live z"
        "z_finalizers z' = z_finalizers z @ (if ok then [(f, d)] else [])"
        "z_finalizer_room z' \<le> 4 * Suc (length pushes)" "ok \<or> refuses realloc live (64 * Suc (length pushes))" by blast
    have "\<forall>(ok, l) \<in> set pushes. ok \<or> refuses realloc l (64 * Suc (length pushes))"
      using i(3) refuses_mono [of realloc _ "64 * length pushes" "64 * Suc (length pushes)"] by fastforce
    with p i(1,2) k have "zone_inv realloc base (live', z', used, calls, pushes @ [(ok, live)])"
      by (auto simp: zone_inv_def)
    with p(1,4) ZFinalizer show ?thesis
      by (intro exI [of _ live'] exI [of _ z'] exI [of _ used] exI [of _ calls] exI [of _ "[(ok, live)]"])
        (simp add: count_pushes_def)
  next
    case ZClear
    from clear_step [OF z] obtain z' live' where
      c: "msgpack_zone_clear live z = Some (rev (z_finalizers z), z', live')" "zone_ok live' z' []"
        "others live' z' = others live z" "z_finalizers z' = []" "z_finalizer_room z' = z_finalizer_room z" by blast
    with i k have "zone_inv realloc base (live', z', [], calls @ rev (z_finalizers z), pushes)"
      by (simp add: zone_inv_def)
    with c ZClear show ?thesis by (intro exI [of _ live'] exI [of _ z']) (simp add: count_pushes_def)
  qed
qed

lemma zone_run_ok:
  assumes "malloc_ok malloc" "array_realloc_ok realloc"
    "zone_inv realloc base (live, z, used, calls, pushes)" "list_all small_op ops"
  shows "\<exists>live' z' used' calls' new. zone_run malloc realloc ops (live, z, used, calls, pushes)
      = Some (live', z', used', calls', pushes @ new)
    \<and> zone_inv realloc base (live', z', used', calls', pushes @ new) \<and> length new = count_pushes ops
    \<and> calls @ calls_of (z_finalizers z) ops (map fst new) = calls' @ rev (z_finalizers z')"
  using assms(3,4)
proof (induction ops arbitrary: live z used calls pushes)
  case Nil
  then show ?case by (simp add: count_pushes_def)
next
  case (Cons op ops)
  from Cons.prems have op: "small_op op" "list_all small_op ops" by simp_all
  from zone_step_ok [OF assms(1,2) Cons.prems(1) op(1)] obtain l z1 u c n1
    where s: "zone_step malloc realloc op (live, z, used, calls, pushes) = Some (l, z1, u, c, pushes @ n1)"
      "zone_inv realloc base (l, z1, u, c, pushes @ n1)" "length n1 = count_pushes [op]"
      "\<forall>ops oks. calls @ calls_of (z_finalizers z) (op # ops) (map fst n1 @ oks) = c @ calls_of (z_finalizers z1) ops oks"
    by blast
  from Cons.IH [OF s(2) op(2)] obtain l2 z2 u2 c2 n2
    where r: "zone_run malloc realloc ops (l, z1, u, c, pushes @ n1) = Some (l2, z2, u2, c2, (pushes @ n1) @ n2)"
      "zone_inv realloc base (l2, z2, u2, c2, (pushes @ n1) @ n2)" "length n2 = count_pushes ops"
      "c @ calls_of (z_finalizers z1) ops (map fst n2) = c2 @ rev (z_finalizers z2)" by blast
  have "count_pushes (op # ops) = count_pushes [op] + count_pushes ops" by (simp add: count_pushes_def)
  with s(3) r(3) have "length (n1 @ n2) = count_pushes (op # ops)" by simp
  moreover have "calls @ calls_of (z_finalizers z) (op # ops) (map fst (n1 @ n2)) = c2 @ rev (z_finalizers z2)"
    using s(4) r(4) by simp
  moreover have "zone_run malloc realloc (op # ops) (live, z, used, calls, pushes) = Some (l2, z2, u2, c2, pushes @ n1 @ n2)"
    using s(1) r(1) by simp
  moreover have "zone_inv realloc base (l2, z2, u2, c2, pushes @ n1 @ n2)" using r(2) by simp
  ultimately show ?case
    by (intro exI [of _ l2] exI [of _ z2] exI [of _ u2] exI [of _ c2] exI [of _ "n1 @ n2"]) simp
qed

subsection \<open>Properties\<close>

text \<open>An allocator with room for two blocks, for the witnesses.\<close>

definition two_blocks :: allocator where
  "two_blocks live n = (if 4096 \<le> n then None
     else if live = Map.empty then Some 4096
     else case live 4096 of None \<Rightarrow> None
       | Some m \<Rightarrow> if m \<le> 4096 \<and> live = [4096 \<mapsto> m] then Some 8192 else None)"

lemma two_blocks_ok: "malloc_ok two_blocks"
proof -
  have "a mod 16 = 0 \<and> 0 < a \<and> a + n < 2 ^ 64 \<and> live a = None \<and> (\<forall>b m. live b = Some m \<longrightarrow> apart (a, n) (b, m))"
    if "two_blocks live n = Some a" for live n a
  proof -
    from that consider "n < 4096" "live = Map.empty" "a = 4096"
      | m where "n < 4096" "m \<le> 4096" "live = [4096 \<mapsto> m]" "a = 8192"
      by (auto simp: two_blocks_def split: if_splits option.splits)
    then show ?thesis by cases (auto simp: apart_def split: if_splits)
  qed
  then show ?thesis unfolding malloc_ok_def by blast
qed

text \<open>And one with room for a block behind those, for the finalizer array.\<close>

definition high_block :: allocator where
  "high_block live n = (if n < 4096 \<and> live 65536 = None \<and> (\<forall>b m. live b = Some m \<longrightarrow> b + m \<le> 65536)
     then Some 65536 else None)"

lemma high_block_ok: "array_realloc_ok high_block"
  by (auto simp: array_realloc_ok_def malloc_ok_def high_block_def apart_def split: if_splits)

text \<open>
  (C22) A zone never gives out the same memory twice. After any sequence of aligned and unaligned
  requests, finalizers and clears on a zone that was set up, the regions handed out since the last clear
  are pairwise disjoint, the aligned ones start at a multiple of eight, and each lies in the data part of
  a chunk that is still allocated; no request makes the zone touch a block that is not its own (its own
  are its chunks and its finalizer array).
\<close>

theorem zone_allocations_disjoint:
  assumes "malloc_ok malloc" "array_realloc_ok realloc" "live_ok live" "chunk_size < 2 ^ 62" "list_all small_op ops"
    "msgpack_zone_init malloc live chunk_size = (Some z, live1)"
  shows "\<exists>live' z' used calls pushes. zone_run malloc realloc ops (live1, z, [], [], []) = Some (live', z', used, calls, pushes)
     \<and> sorted_wrt apart (map snd used)
     \<and> (\<forall>(al, a, n) \<in> set used. (al \<longrightarrow> a mod 8 = 0)
          \<and> (\<exists>c \<in> set (z_chunks z'). \<exists>m. live' c = Some m \<and> c + sizeof_chunk \<le> a \<and> a + n \<le> c + m))
     \<and> others live' z' = live"
proof -
  from assms(6) obtain free ptr chunks where i: "init_chunk_list malloc live chunk_size = Some ((free, ptr, chunks), live1)"
    and z: "z = \<lparr> z_free = free, z_ptr = ptr, z_chunks = chunks, z_array = None, z_finalizers = [], z_finalizer_room = 0,
      z_chunk_size = chunk_size \<rparr>"
    by (auto simp: msgpack_zone_init_def split: option.splits prod.splits)
  have "zone_inv realloc live (live1, z, [], [], [])"
    using init_chunk_list_ok [OF assms(1,3,4) i] by (simp add: zone_inv_def z)
  from zone_run_ok [OF assms(1,2) this assms(5)] obtain live' z' used calls pushes
    where r: "zone_run malloc realloc ops (live1, z, [], [], []) = Some (live', z', used, calls, pushes)"
      "zone_inv realloc live (live', z', used, calls, pushes)" unfolding append_Nil by blast
  then have ok: "zone_ok live' z' (map snd used)" by (simp add: zone_inv_def)
  have "\<exists>c \<in> set (z_chunks z'). \<exists>m. live' c = Some m \<and> c + sizeof_chunk \<le> a \<and> a + n \<le> c + m"
    if u: "(al, a, n) \<in> set used" for al a n
  proof -
    have "(a, n) \<in> set (map snd used)" using u by force
    with ok obtain c where c: "c \<in> set (z_chunks z')" "inside live' z' c (a, n)" unfolding zone_ok_def by blast
    with inside_block [OF ok c] show ?thesis by (auto simp: inside_def)
  qed
  with r ok show ?thesis by (auto simp: zone_inv_def zone_ok_def)
qed

lemma zone_allocations_disjoint_witness:
  "\<exists>live' z' used calls pushes. zone_run two_blocks high_block [ZMallocNoAlign 3, ZMalloc 5, ZFinalizer 7 9, ZMalloc 100]
       (snd (msgpack_zone_init two_blocks Map.empty 64), the (fst (msgpack_zone_init two_blocks Map.empty 64)), [], [], [])
       = Some (live', z', used, calls, pushes)
     \<and> sorted_wrt apart (map snd used)
     \<and> (\<forall>(al, a, n) \<in> set used. (al \<longrightarrow> a mod 8 = 0)
          \<and> (\<exists>c \<in> set (z_chunks z'). \<exists>m. live' c = Some m \<and> c + sizeof_chunk \<le> a \<and> a + n \<le> c + m))
     \<and> others live' z' = Map.empty"
proof -
  have i: "msgpack_zone_init two_blocks Map.empty 64
      = (Some \<lparr> z_free = 64, z_ptr = 4104, z_chunks = [4096], z_array = None, z_finalizers = [], z_finalizer_room = 0,
           z_chunk_size = 64 \<rparr>, [4096 \<mapsto> 72])"
    by (simp add: msgpack_zone_init_def init_chunk_list_def new_block_def two_blocks_def sizeof_chunk_def)
  show ?thesis
    unfolding i fst_conv snd_conv option.sel
    by (rule zone_allocations_disjoint [OF two_blocks_ok high_block_ok _ _ _ i]) (simp_all add: live_ok_def)
qed

text \<open>
  (C36) The memory of a zone lives as long as the zone. Making a zone either fails and leaves memory as it
  was, or gives a zone with which any sequence of requests, finalizers and clears runs; the finalizer
  array, a block of its own that moves as it grows, is live whenever an entry is written or a finalizer is
  called. Freeing the zone afterwards never frees a block that is not allocated and gives back exactly the
  blocks that were live before the zone was made, the finalizer array included. Every finalizer whose
  registration succeeded has then been called exactly once, and no other: those registered before a clear
  at that clear, the rest at the end, each group in the reverse order of registration. A registration only
  fails where \<^verbatim>\<open>realloc\<close> has no block for it beside those of the heap, and such a block has at most 64 bytes
  for each finalizer pushed.
\<close>

theorem zone_lifetime:
  assumes "malloc_ok malloc" "array_realloc_ok realloc" "live_ok live" "chunk_size < 2 ^ 62" "list_all small_op ops"
  shows "case msgpack_zone_new malloc live chunk_size of
      None \<Rightarrow> False
    | Some (None, live1) \<Rightarrow> live1 = live
    | Some (Some (a, z), live1) \<Rightarrow> (\<exists>live' z' used calls pushes calls2.
        zone_run malloc realloc ops (live1, z, [], [], []) = Some (live', z', used, calls, pushes)
        \<and> msgpack_zone_free live' (Some (a, z')) = Some (calls2, live)
        \<and> length pushes = count_pushes ops \<and> calls @ calls2 = calls_of [] ops (map fst pushes)
        \<and> (\<forall>(ok, l) \<in> set pushes. ok \<or> refuses realloc l (64 * length pushes)))"
proof (cases "new_block malloc live sizeof_zone")
  case None
  then show ?thesis by (simp add: msgpack_zone_new_def)
next
  case (Some b)
  then obtain a live0 where b: "new_block malloc live sizeof_zone = Some (a, live0)" by (cases b) simp
  have "sizeof_zone < 2 ^ 64" by (simp add: sizeof_zone_def)
  note new = new_block_ok [OF assms(1,3) b this]
  have free: "free_block live0 a = Some live"
    using new(1,2) by (auto simp: free_block_def)
  show ?thesis
  proof (cases "init_chunk_list malloc live0 chunk_size")
    case None
    then show ?thesis by (simp add: msgpack_zone_new_def b free)
  next
    case (Some r)
    then obtain f p cs live1 where i: "init_chunk_list malloc live0 chunk_size = Some ((f, p, cs), live1)"
      by (cases r) auto
    let ?z = "\<lparr> z_free = f, z_ptr = p, z_chunks = cs, z_array = None, z_finalizers = [], z_finalizer_room = 0,
      z_chunk_size = chunk_size \<rparr>"
    have "zone_inv realloc live0 (live1, ?z, [], [], [])"
      using init_chunk_list_ok [OF assms(1) new(3) assms(4) i] by (simp add: zone_inv_def)
    from zone_run_ok [OF assms(1,2) this assms(5)] obtain live' z' used calls pushes
      where run: "zone_run malloc realloc ops (live1, ?z, [], [], []) = Some (live', z', used, calls, pushes)"
        and inv: "zone_inv realloc live0 (live', z', used, calls, pushes)"
        and c: "length pushes = count_pushes ops" "calls_of [] ops (map fst pushes) = calls @ rev (z_finalizers z')"
      unfolding append_Nil msgpack_zone.select_convs by blast
    from inv have "msgpack_zone_destroy live' z' = Some (rev (z_finalizers z'), live0)"
      using destroy_step [of live' z' "map snd used"] by (simp add: zone_inv_def)
    with free have "msgpack_zone_free live' (Some (a, z')) = Some (rev (z_finalizers z'), live)"
      by (simp add: msgpack_zone_free_def)
    with run c inv show ?thesis by (simp add: msgpack_zone_new_def b i zone_inv_def)
  qed
qed

lemma zone_lifetime_witness:
  "case msgpack_zone_new two_blocks Map.empty 64 of
      None \<Rightarrow> False
    | Some (None, live1) \<Rightarrow> live1 = Map.empty
    | Some (Some (a, z), live1) \<Rightarrow> (\<exists>live' z' used calls pushes calls2.
        zone_run two_blocks high_block [ZFinalizer 1 2, ZMalloc 5, ZFinalizer 3 4, ZClear, ZFinalizer 5 6] (live1, z, [], [], [])
          = Some (live', z', used, calls, pushes)
        \<and> msgpack_zone_free live' (Some (a, z')) = Some (calls2, Map.empty)
        \<and> length pushes = count_pushes [ZFinalizer 1 2, ZMalloc 5, ZFinalizer 3 4, ZClear, ZFinalizer 5 6]
        \<and> calls @ calls2 = calls_of [] [ZFinalizer 1 2, ZMalloc 5, ZFinalizer 3 4, ZClear, ZFinalizer 5 6] (map fst pushes)
        \<and> (\<forall>(ok, l) \<in> set pushes. ok \<or> refuses high_block l (64 * length pushes)))"
  by (rule zone_lifetime [OF two_blocks_ok high_block_ok]) (simp_all add: live_ok_def)

end
