(* ===== verification/MsgpackSafety.thy ===== *)
theory MsgpackSafety
  imports MsgpackStream
begin

unbundle bit_operations_syntax

text \<open>
  The deserializer on arbitrary data: the types of its stack frames are kept, no step gets stuck or leaves the
  data, except where the length of a 32-bit extension wraps; a run that ended ignores what follows, and a run
  depends neither on where in the block its data starts nor on the flag for references.
\<close>

subsection \<open>Typed frames\<close>

text \<open>A frame that waits for array items holds an array, one that waits for a key or a value a map, and it
  waits for at least one item.\<close>

definition frame_ok :: "template_stack \<Rightarrow> bool" where
  "frame_ok f \<longleftrightarrow> 0 < st_count f \<and> (case st_ct f of
     CT_ARRAY_ITEM \<Rightarrow> (\<exists>os. st_obj f = OBJECT_ARRAY os)
   | _ \<Rightarrow> (\<exists>kvs. st_obj f = OBJECT_MAP kvs))"

definition frames_ok :: "template_context \<Rightarrow> bool" where
  "frames_ok ctx \<longleftrightarrow> list_all frame_ok (ctx_stack ctx) \<and> length (ctx_stack ctx) \<le> MSGPACK_EMBED_STACK_SIZE"

lemma frames_ok_simps [simp]:
  "frames_ok (ctx\<lparr> ctx_cs := cs \<rparr>) = frames_ok ctx" "frames_ok (ctx\<lparr> ctx_trail := t \<rparr>) = frames_ok ctx"
  "frames_ok (ctx\<lparr> ctx_referenced := r \<rparr>) = frames_ok ctx" "frames_ok (template_init ctx)" "frames_ok fresh_context"
  by (simp_all add: frames_ok_def template_init_def)

lemma push_value_ok:
  assumes "list_all frame_ok st"
  shows "\<exists>r. push_value st ob = Some r \<and> (\<forall>st'. r = Inr st' \<longrightarrow> list_all frame_ok st' \<and> length st' \<le> length st)"
  using assms
proof (induction st ob rule: push_value.induct)
  case (2 c st ob)
  show ?case
  proof (cases "st_ct c")
    case CT_ARRAY_ITEM
    with 2(3) obtain os where c: "st_obj c = OBJECT_ARRAY os" "0 < st_count c" by (auto simp: frame_ok_def)
    then have s: "size_sub (st_count c) 1 = st_count c - 1" by simp
    show ?thesis
    proof (cases "st_count c - 1 = 0")
      case True
      with 2(1) [OF CT_ARRAY_ITEM] c s 2(3) CT_ARRAY_ITEM show ?thesis
        by (fastforce simp: template_callback_array_item_def)
    next
      case False
      with c s 2(3) CT_ARRAY_ITEM show ?thesis by (simp add: template_callback_array_item_def frame_ok_def)
    qed
  next
    case CT_MAP_KEY
    with 2(3) show ?thesis by (simp add: frame_ok_def)
  next
    case CT_MAP_VALUE
    with 2(3) obtain kvs where c: "st_obj c = OBJECT_MAP kvs" "0 < st_count c" by (auto simp: frame_ok_def)
    then have s: "size_sub (st_count c) 1 = st_count c - 1" by simp
    show ?thesis
    proof (cases "st_count c - 1 = 0")
      case True
      with 2(2) [OF CT_MAP_VALUE] c s 2(3) CT_MAP_VALUE show ?thesis
        by (fastforce simp: template_callback_map_item_def)
    next
      case False
      with c s 2(3) CT_MAP_VALUE show ?thesis by (simp add: template_callback_map_item_def frame_ok_def)
    qed
  qed
qed simp

text \<open>A step that has a result, keeps the frames typed and does not leave the data.\<close>

definition good :: "bytes \<Rightarrow> step \<Rightarrow> bool" where
  "good d r \<longleftrightarrow> (\<exists>l c p'. r = Some (l, c, p') \<and> frames_ok c \<and> p' \<le> length d)"

lemma good_push: "frames_ok ctx \<Longrightarrow> p < length d \<Longrightarrow> good d (push ctx p ob)"
  using push_value_ok [of "ctx_stack ctx" ob]
  by (auto simp: good_def push_def frames_ok_def split: sum.splits)

lemma good_container:
  assumes "frames_ok ctx" "p < length d" "\<And>ob. r = Some ob \<Longrightarrow> frame_ok \<lparr> st_obj = ob, st_count = 1, st_ct = ct, st_map_key = OBJECT_NIL \<rparr>"
  shows "good d (start_container ctx p r n ct)"
proof (cases "length (ctx_stack ctx) \<ge> MSGPACK_EMBED_STACK_SIZE \<or> r = None")
  case True
  with assms(1,2) show ?thesis by (auto simp: good_def start_container_def split: option.splits)
next
  case False
  then obtain ob where r: "r = Some ob" "length (ctx_stack ctx) < MSGPACK_EMBED_STACK_SIZE" by auto
  with assms(3) have "n \<noteq> 0 \<Longrightarrow> frame_ok \<lparr> st_obj = ob, st_count = n, st_ct = ct, st_map_key = OBJECT_NIL \<rparr>"
    by (cases ct) (auto simp: frame_ok_def)
  with r assms(1,2) good_push [OF assms(1,2)] show ?thesis
    by (auto simp: good_def start_container_def frames_ok_def)
qed

lemma good_array: "frames_ok ctx \<Longrightarrow> p < length d \<Longrightarrow> good d (start_container ctx p (template_callback_array z k) n CT_ARRAY_ITEM)"
  by (rule good_container) (auto simp: template_callback_array_def frame_ok_def split: if_splits)

lemma good_map: "frames_ok ctx \<Longrightarrow> p < length d \<Longrightarrow> good d (start_container ctx p (template_callback_map z k) n CT_MAP_KEY)"
  by (rule good_container) (auto simp: template_callback_map_def frame_ok_def split: if_splits)

lemma good_variable:
  assumes "frames_ok ctx" "p < length d" "unat (ctx_trail ctx) = 0 \<and> acs \<in> {32, 33} \<or> unat (ctx_trail ctx) \<noteq> 0 \<and> n + unat (ctx_trail ctx) \<le> length d"
  shows "good d (variable_value d ctx acs n p)"
proof -
  let ?l = "ctx_trail ctx"
  have var: "good d (push_variable ctx p (Some ob))" for ob
    unfolding push_variable_def option.case by (rule good_push) (use assms in simp_all)
  have "slice d n (unat ?l) \<noteq> None" using assms(3) by (auto simp: slice_def)
  moreover have "array_get d n \<noteq> None \<and> slice d (n + 1) (unat (?l - 1)) \<noteq> None" if "unat ?l \<noteq> 0"
  proof -
    have "?l \<noteq> 0" using that by auto
    then have "unat (?l - 1) = unat ?l - 1" by (simp add: unat_minus_one)
    with assms(3) that show ?thesis by (auto simp: slice_def array_get_def)
  qed
  ultimately show ?thesis
    using assms(3) var
    by (auto simp: variable_value_def template_callback_str_def template_callback_bin_def template_callback_ext_def)
qed

lemma good_again:
  assumes "frames_ok ctx" "p < length d" "k \<noteq> 0 \<or> acs \<in> {32, 33}" "acs \<in> {32, 33, 34}"
  shows "good d (again_value d ctx acs k n p)"
proof (cases "k = 0")
  case True
  with assms show ?thesis by (auto simp: again_value_def intro!: good_variable)
next
  case False
  then have k: "unat k \<noteq> 0" "unat (k - 1) = unat k - 1" by (simp_all add: unat_eq_0 unat_minus_one)
  show ?thesis
  proof (cases "length d - (p + 1) < unat k")
    case True
    with False assms(1,2) show ?thesis by (simp add: again_value_def good_def Let_def)
  next
    case enough: False
    have "good d (variable_value d (ctx\<lparr> ctx_trail := k, ctx_cs := acs \<rparr>) acs (p + 1) (p + 1 + unat (k - 1)))"
      by (rule good_variable) (use enough k assms(1,2) in auto)
    with False enough show ?thesis by (simp add: again_value_def Let_def)
  qed
qed

lemma small_trail: "(ucast (b :: u8) + 1 :: u32) \<noteq> 0" "(ucast (h :: u16) + 1 :: u32) \<noteq> 0"
proof -
  have "unat (ucast b + 1 :: u32) = unat b + 1" "unat (ucast h + 1 :: u32) = unat h + 1"
    using unsigned_less [of b, where ?'a = nat] unsigned_less [of h, where ?'a = nat]
    by (simp_all add: unat_word_ariths unsigned_ucast_eq take_bit_eq_mod)
  then show "(ucast b + 1 :: u32) \<noteq> 0" "(ucast h + 1 :: u32) \<noteq> 0"
    by (metis Suc_eq_plus1 nat.distinct(1) unsigned_0)+
qed

lemma minus_1_plus: "(w :: u32) + 1 = 0 \<longleftrightarrow> w = 0xffffffff"
proof -
  have "(0xffffffff :: u32) = - 1" by simp
  then show ?thesis by (simp only: add_eq_0_iff2)
qed

text \<open>A 32-bit extension header with the largest length.\<close>

definition ext32_max :: "bytes \<Rightarrow> nat \<Rightarrow> bool" where
  "ext32_max d p \<longleftrightarrow> array_get d p = Some 0xc9 \<and> p + 5 \<le> length d \<and> msgpack_load32 (drop (p + 1) d) = Some 0xffffffff"

lemma load_within:
  "n + 1 \<le> length d \<Longrightarrow> \<exists>v. array_get d n = Some v"
  "n + 2 \<le> length d \<Longrightarrow> \<exists>v. msgpack_load16 (drop n d) = Some v"
  "n + 4 \<le> length d \<Longrightarrow> \<exists>v. msgpack_load32 (drop n d) = Some v"
  "n + 8 \<le> length d \<Longrightarrow> \<exists>v. msgpack_load64 (drop n d) = Some v"
  by (auto simp: msgpack_load16_def msgpack_load32_def msgpack_load64_def array_get_def)

text \<open>With the trail inside the data every read of the switch has a result.\<close>

lemma good_switch_fixed:
  assumes "ctx_cs ctx \<in> {4..19} \<union> {25..31}" "p < length d" "frames_ok ctx"
    "\<not> (ctx_cs ctx = 9 \<and> msgpack_load32 (drop n d) = Some 0xffffffff)"
    and trail: "n + trail_bytes (ctx_cs ctx) \<le> length d"
  shows "good d (trail_switch d z ctx n p)"
proof -
  have nz: "ctx_cs ctx = 9 \<Longrightarrow> msgpack_load32 (drop n d) = Some v \<Longrightarrow> v + 1 \<noteq> 0" for v
    using assms(4) by (simp add: minus_1_plus)
  note goods = good_push good_array good_map good_again [where acs = 32] good_again [where acs = 33] good_again [where acs = 34]
  from fixed_states [OF assms(1)] show ?thesis
  proof (elim disjE)
    assume c: "ctx_cs ctx \<in> {4, 7, 12, 16, 25} \<and> trail_bytes (ctx_cs ctx) = 1"
    with load_within(1) [of n d] trail obtain v where "array_get d n = Some v" by auto
    with c assms(2,3) show ?thesis by (auto simp: trail_switches goods small_trail)
  next
    assume c: "ctx_cs ctx \<in> {5, 8, 13, 17, 26, 28, 30} \<and> trail_bytes (ctx_cs ctx) = 2"
    with load_within(2) [of n d] trail obtain v where "msgpack_load16 (drop n d) = Some v" by auto
    with c assms(2,3) show ?thesis by (auto simp: trail_switches goods small_trail)
  next
    assume c: "ctx_cs ctx \<in> {6, 9, 10, 14, 18, 27, 29, 31} \<and> trail_bytes (ctx_cs ctx) = 4"
    with load_within(3) [of n d] trail obtain v where "msgpack_load32 (drop n d) = Some v" by auto
    with c assms(2,3) nz show ?thesis by (auto simp: trail_switches goods)
  next
    assume c: "ctx_cs ctx \<in> {11, 15, 19} \<and> trail_bytes (ctx_cs ctx) = 8"
    with load_within(4) [of n d] trail obtain v where "msgpack_load64 (drop n d) = Some v" by auto
    with c assms(2,3) show ?thesis by (auto simp: trail_switches goods)
  qed
qed

lemma good_fixed_trail:
  assumes "asks b k" "p < length d" "frames_ok ctx" "\<not> (NEXT_CS b = 9 \<and> p + 5 \<le> length d \<and> msgpack_load32 (drop (p + 1) d) = Some 0xffffffff)"
  shows "good d (again_fixed_trail d z ctx (NEXT_CS b) k p)"
proof (cases "length d - (p + 1) < unat k")
  case True
  with assms(2,3) show ?thesis by (simp add: again_fixed_trail_def trail_step_def good_def)
next
  case False
  have k: "0 < unat k" using fixed_states [of "NEXT_CS b"] assms(1) by (auto simp: asks_def)
  then have "k \<noteq> 0" by auto
  with False k assms(2) have "p + 1 + unat (k - 1) < length d" by (simp add: unat_minus_one)
  moreover have "NEXT_CS b = 9 \<Longrightarrow> p + 5 \<le> length d" using False assms(1) by (simp add: asks_def trail_bytes_def)
  moreover have "p + 1 + trail_bytes (NEXT_CS b) \<le> length d" using False k assms(1) by (simp add: asks_def)
  ultimately show ?thesis using False good_switch_fixed [of "ctx\<lparr> ctx_trail := k, ctx_cs := NEXT_CS b \<rparr>" "p + 1 + unat (k - 1)" d "p + 1" z] assms
    by (simp add: again_fixed_trail_def trail_step_def asks_def Let_def)
qed

lemma good_if: "(c \<Longrightarrow> good d a) \<Longrightarrow> (\<not> c \<Longrightarrow> good d b) \<Longrightarrow> good d (if c then a else b)"
  by simp

lemma good_failed: "frames_ok ctx \<Longrightarrow> p < length d \<Longrightarrow> good d (Some (Failed, ctx, p))"
  by (simp add: good_def)

lemma next_cs_9: "NEXT_CS b = 9 \<Longrightarrow> 0xc0 \<le> b \<and> b \<le> 0xdf \<Longrightarrow> b = 0xc9"
  unfolding NEXT_CS_def unat_masks word_le_nat_alt word_unat_eq_iff by simp presburger

lemma fixext_trail: "push_bit (unat ((b :: u8) AND 3)) 1 + 1 \<noteq> (0 :: u32)"
proof -
  have "unat (b AND 3) = 0 \<or> unat (b AND 3) = 1 \<or> unat (b AND 3) = 2 \<or> unat (b AND 3) = 3" unfolding unat_masks by arith
  then show ?thesis by (elim disjE; simp)
qed

lemma good_header:
  assumes "p < length d" "frames_ok ctx" "\<not> ext32_max d p"
  shows "good d (header_step d z ctx p)"
proof -
  from assms(1) obtain b where b: "array_get d p = Some b" by (auto simp: array_get_def)
  have nw: "\<not> (NEXT_CS b = 9 \<and> p + 5 \<le> length d \<and> msgpack_load32 (drop (p + 1) d) = Some 0xffffffff)" if "0xc0 \<le> b \<and> b \<le> 0xdf"
    using next_cs_9 [OF _ that] assms(3) b by (auto simp: ext32_max_def)
  show ?thesis
    unfolding header_step_def b option.case Let_def
    by (intro good_if good_push good_array good_map good_again good_fixed_trail good_failed assms(1,2);
        ((elim conjE, (rule asks_header; assumption)) | rule nw | rule disjI1, rule fixext_trail | simp))
qed

text \<open>Where the length wraps the machine reads behind the data, unless there are four gigabytes of it.\<close>

lemma ext32_max_header:
  assumes "ext32_max d p" "length d < 2 ^ 32"
  shows "header_step d z ctx p = None"
proof -
  let ?c = "ctx\<lparr> ctx_trail := 4, ctx_cs := 9 \<rparr>"
  have h: "array_get d p = Some 0xc9" "p + 5 \<le> length d" "msgpack_load32 (drop (Suc p) d) = Some (- 1)"
    using assms(1) by (simp_all add: ext32_max_def)
  have "header_step d z ctx p = trail_switch d z ?c (p + 1) (4 + p)"
  proof -
    have "\<not> length d - Suc p < 4" using h(2) by simp
    with h(1) show ?thesis by (simp add: header_trails again_fixed_trail_def trail_step_def)
  qed
  also have "\<dots> = again_value d ?c 0x22 0 (p + 1) (4 + p)"
    using h(3) by (simp add: trail_switches)
  also have "\<dots> = None"
    using assms(2) h(2) unsigned_minus_1_eq_mask [where 'b = 32 and 'a = nat]
    by (simp add: again_value_def variable_value_def push_variable_def template_callback_ext_def slice_def
        Let_def mask_eq_exp_minus_1 split: option.splits)
  finally show ?thesis .
qed

lemma header_again: "header_step d z ctx p = Some (Header_again, c, p') \<Longrightarrow> ctx_cs c = 0"
  using continues_header [of d "[]" z ctx p] by (auto simp: continues_def)

text \<open>The machine does not get stuck and does not leave the data.\<close>

lemma loop_total:
  assumes "p < length d" "frames_ok ctx" "ctx_cs ctx = 0" "\<And>q. \<not> ext32_max d q"
  shows "\<exists>r c q. template_loop d z ctx p = Some (r, c, q) \<and> frames_ok c \<and> q \<le> length d"
  using assms
proof (induction d z ctx p rule: template_loop.induct)
  case (1 d z ctx p)
  have s: "template_step d z ctx p = header_step d z ctx p" using 1(4) by (simp add: template_step_def)
  from good_header [OF 1(2,3,5)] obtain l c p' where h: "header_step d z ctx p = Some (l, c, p')" "frames_ok c" "p' \<le> length d"
    unfolding good_def by blast
  show ?case
  proof (cases l)
    case Header_again
    with h have fw: "p < p'" "ctx_cs c = 0" using header_step_forward header_again by blast+
    show ?thesis
    proof (cases "p' = length d")
      case True
      with h Header_again s show ?thesis by (simp add: template_loop_eq after_def)
    next
      case False
      with h(3) have "p' < length d" by simp
      moreover have "template_step d z ctx p = Some (Header_again, c, p')" using s h(1) Header_again by simp
      ultimately show ?thesis using 1(1) [OF _ refl refl refl False _ _ h(2) fw(2) 1(5)] fw
        by (simp add: template_loop_eq [of d z ctx p] after_def)
    qed
  qed (use h s in \<open>simp_all add: template_loop_eq after_def\<close>)
qed

lemma loop_prefix:
  assumes "template_loop (d @ e) z ctx p \<noteq> None" "p < length d" "frames_ok ctx" "ctx_cs ctx = 0" "length (d @ e) < 2 ^ 32"
  shows "\<exists>r c q. template_loop d z ctx p = Some (r, c, q) \<and> frames_ok c \<and> q \<le> length d"
  using assms
proof (induction d z ctx p rule: template_loop.induct)
  case (1 d z ctx p)
  have s: "template_step x z ctx p = header_step x z ctx p" for x using 1(5) by (simp add: template_step_def)
  have "\<not> ext32_max d p"
  proof
    assume "ext32_max d p"
    then have "ext32_max (d @ e) p"
      using load_append(3) [of "p + 1" d e] array_get_append [of d p _ e] by (simp add: ext32_max_def del: drop_append)
    with ext32_max_header 1(2,6) s show False by (simp add: template_loop_eq after_def)
  qed
  from good_header [OF 1(3,4) this] obtain l c p' where h: "header_step d z ctx p = Some (l, c, p')" "frames_ok c" "p' \<le> length d"
    unfolding good_def by blast
  show ?case
  proof (cases l)
    case Header_again
    with h have fw: "p < p'" "ctx_cs c = 0" using header_step_forward header_again by blast+
    from continues_header [of d e z ctx p] h Header_again have more: "header_step (d @ e) z ctx p = Some (Header_again, c, p')"
      by (simp add: continues_def)
    show ?thesis
    proof (cases "p' = length d")
      case True
      with h Header_again s show ?thesis by (simp add: template_loop_eq after_def)
    next
      case False
      with h(3) have "p' < length d" by simp
      moreover from this have "template_loop (d @ e) z c p' \<noteq> None"
        using 1(2) more s by (simp add: template_loop_eq [of _ z ctx p] after_def)
      moreover have "template_step d z ctx p = Some (Header_again, c, p')" using s h(1) Header_again by simp
      ultimately show ?thesis using 1(1) [OF _ refl refl refl False _ _ _ h(2) fw(2) 1(6)] fw
        by (simp add: template_loop_eq [of d z ctx p] after_def)
    qed
  qed (use h s in \<open>simp_all add: template_loop_eq after_def\<close>)
qed

text \<open>A run that ended keeps its result when more data follows.\<close>

lemma loop_ended:
  assumes "template_loop d z ctx p = Some (r, c, q)" "r \<noteq> 0" "state_ok ctx" "p < length d"
  shows "template_loop (d @ e) z ctx p = Some (r, c, q)"
  using assms
proof (induction d z ctx p rule: template_loop.induct)
  case (1 d z ctx p)
  note step = continues_step [OF 1(4), of d e z p, unfolded continues_def]
  from 1(2) obtain l ctx' p' where s: "template_step d z ctx p = Some (l, ctx', p')"
    by (auto simp: template_loop_eq after_def split: option.splits)
  show ?case
  proof (cases l)
    case Header_again
    with step s have more: "template_step (d @ e) z ctx p = Some (Header_again, ctx', p')" "ctx_cs ctx' = 0" by auto
    then have ok: "state_ok ctx'" by (simp add: state_ok_def)
    have fw: "p < p'" using template_step_forward s Header_again by blast
    have "p' \<noteq> length d" using 1(2,3) s Header_again by (auto simp: template_loop_eq after_def)
    moreover from this 1(2) s Header_again have "p' < length d" "template_loop d z ctx' p' = Some (r, c, q)"
      by (auto simp: template_loop_eq [of d z ctx p] after_def split: if_splits)
    ultimately show ?thesis
      using 1(1) [OF s _ _ _ _ _ _ 1(3) ok] Header_again fw more(1) by (simp add: template_loop_eq [of _ z ctx p] after_def)
  qed (use 1(2,3) s step in \<open>auto simp: template_loop_eq after_def\<close>)
qed

subsection \<open>Position independence\<close>

text \<open>A result with its position moved by \<open>k\<close>.\<close>

definition moved :: "nat \<Rightarrow> ('l \<times> template_context \<times> nat) option \<Rightarrow> ('l \<times> template_context \<times> nat) option" where
  "moved k r = map_option (\<lambda>(l, c, p). (l, c, k + p)) r"

lemma moved_simps [simp]:
  "moved k None = None" "moved k (Some (l, c, p)) = Some (l, c, k + p)"
  "(moved k r = None) = (r = None)"
  by (simp_all add: moved_def)

lemma moved_push: "push ctx (k + p) ob = moved k (push ctx p ob)"
  by (simp add: push_def split: option.splits sum.splits)

lemma moved_container: "start_container ctx (k + p) r n ct = moved k (start_container ctx p r n ct)"
  by (simp add: start_container_def moved_push split: option.splits)

lemma moved_if: "(c \<Longrightarrow> a' = moved k a) \<Longrightarrow> (\<not> c \<Longrightarrow> b' = moved k b) \<Longrightarrow> (if c then a' else b') = moved k (if c then a else b)"
  by simp

lemma slice_moved: "slice (pre @ d) (length pre + n) l = slice d n l"
  by (simp add: slice_def)

lemma array_get_moved: "array_get (pre @ d) (length pre + n) = array_get d n"
  by (simp add: array_get_def)

lemma moved_variable:
  "variable_value (pre @ d) ctx acs (length pre + n) (length pre + p) = moved (length pre) (variable_value d ctx acs n p)"
proof -
  have "push_variable ctx (length pre + p) r = moved (length pre) (push_variable ctx p r)" for r
    by (cases r) (simp_all add: push_variable_def moved_push)
  moreover have "template_callback_ext (pre @ d) (length pre + n) l = template_callback_ext d n l" for l
    using slice_moved [of pre d "n + 1"] by (simp add: template_callback_ext_def array_get_moved split: option.splits)
  ultimately show ?thesis
    by (simp add: variable_value_def template_callback_str_def template_callback_bin_def slice_moved)
qed

lemma moved_again:
  assumes "n' = length pre + n \<or> t \<noteq> 0 \<or> acs \<in> {32, 33}"
  shows "again_value (pre @ d) ctx acs t n' (length pre + p) = moved (length pre) (again_value d ctx acs t n p)"
proof (cases "t = 0")
  case True
  have "variable_value (pre @ d) (ctx\<lparr> ctx_trail := 0 \<rparr>) acs n' (length pre + p)
      = variable_value (pre @ d) (ctx\<lparr> ctx_trail := 0 \<rparr>) acs (length pre + n) (length pre + p)"
    using assms True by (auto simp: variable_value_def template_callback_str_def template_callback_bin_def slice_def)
  with True show ?thesis by (simp add: again_value_def moved_variable)
next
  case False
  then show ?thesis
    using moved_variable [of pre d _ acs "p + 1" "p + 1 + unat (t - 1)"] by (simp add: again_value_def Let_def add.assoc)
qed

lemma moved_bind: "(\<And>v. g v = moved k (f v)) \<Longrightarrow> Option.bind x g = moved k (Option.bind x f)"
  by (cases x) simp_all

lemmas moved_intros = moved_if moved_bind moved_push moved_container moved_again moved_variable

lemma moved_failed: "Some (Failed, ctx, k + p) = moved k (Some (Failed, ctx, p))"
  by simp

lemma moved_trail:
  "trail_step (pre @ d) z ctx (length pre + p) = moved (length pre) (trail_step d z ctx p)"
proof -
  have d: "drop (length pre + n) (pre @ d) = drop n d" for n by simp
  have "trail_switch (pre @ d) z ctx (length pre + n) (length pre + q) = moved (length pre) (trail_switch d z ctx n q)" for n q
    unfolding trail_switch_def Let_def d array_get_moved by (intro moved_intros moved_failed disjI1 refl)
  then show ?thesis by (simp add: trail_step_def Let_def add.assoc)
qed

lemma moved_fixed_trail:
  "again_fixed_trail (pre @ d) z ctx cs t (length pre + p) = moved (length pre) (again_fixed_trail d z ctx cs t p)"
  using moved_trail [of pre d z _ "p + 1"] by (simp add: again_fixed_trail_def)

lemma moved_header: "header_step (pre @ d) z ctx (length pre + p) = moved (length pre) (header_step d z ctx p)"
proof (cases "array_get d p")
  case None
  then show ?thesis by (simp add: header_step_def array_get_moved)
next
  case (Some b)
  then show ?thesis
    unfolding header_step_def array_get_moved Some option.case Let_def
    by (intro moved_intros moved_fixed_trail moved_failed) ((rule disjI2, rule disjI1, rule fixext_trail) | simp)+
qed

lemma moved_loop: "template_loop (pre @ d) z ctx (length pre + p) = moved (length pre) (template_loop d z ctx p)"
proof (induction d z ctx p rule: template_loop.induct)
  case (1 d z ctx p)
  have s: "template_step (pre @ d) z ctx (length pre + p) = moved (length pre) (template_step d z ctx p)"
    by (simp add: template_step_def moved_header moved_trail)
  show ?case
  proof (cases "template_step d z ctx p")
    case None
    with s show ?thesis by (simp add: template_loop_eq after_def)
  next
    case (Some r)
    obtain l c p' where r: "r = (l, c, p')" by (cases r)
    show ?thesis
      using s Some r 1 [OF Some [unfolded r] refl] template_step_forward [of d z ctx p c p']
      by (cases l) (simp_all add: template_loop_eq [of _ z ctx] after_def)
  qed
qed

lemma moved_execute: "template_execute z ctx (pre @ d) (length pre + p) = moved (length pre) (template_execute z ctx d p)"
  by (simp add: template_execute_def moved_loop)

subsection \<open>The flag for references\<close>

text \<open>The flag is only written by the machine: runs from contexts that differ in it differ in nothing else.\<close>

definition with_ref :: "bool \<Rightarrow> template_context \<Rightarrow> template_context" where
  "with_ref b ctx = ctx\<lparr> ctx_referenced := b \<rparr>"

definition unref :: "('l \<times> template_context \<times> nat) option \<Rightarrow> ('l \<times> template_context \<times> nat) option" where
  "unref r = map_option (\<lambda>(l, c, p). (l, with_ref False c, p)) r"

lemma with_ref_simps [simp]:
  "(with_ref b ctx)\<lparr> ctx_trail := t \<rparr> = with_ref b (ctx\<lparr> ctx_trail := t \<rparr>)"
  "(with_ref b ctx)\<lparr> ctx_cs := cs \<rparr> = with_ref b (ctx\<lparr> ctx_cs := cs \<rparr>)"
  "(with_ref b ctx)\<lparr> ctx_stack := st \<rparr> = with_ref b (ctx\<lparr> ctx_stack := st \<rparr>)"
  "(with_ref b ctx)\<lparr> ctx_root := r \<rparr> = with_ref b (ctx\<lparr> ctx_root := r \<rparr>)"
  "ctx_cs (with_ref b ctx) = ctx_cs ctx" "ctx_trail (with_ref b ctx) = ctx_trail ctx"
  "ctx_stack (with_ref b ctx) = ctx_stack ctx" "ctx_root (with_ref b ctx) = ctx_root ctx"
  "with_ref b (with_ref b' ctx) = with_ref b ctx" "ctx_referenced (with_ref b ctx) = b"
  "template_data (with_ref b ctx) = template_data ctx" "state_ok (with_ref b ctx) = state_ok ctx"
  "frames_ok (with_ref b ctx) = frames_ok ctx"
  by (simp_all add: with_ref_def template_data_def state_ok_def)

lemma unref_simps [simp]:
  "unref None = None" "unref (Some (l, c, p)) = Some (l, with_ref False c, p)" "unref (moved k r) = moved k (unref r)"
  "unref r = None \<longleftrightarrow> r = None"
  by (auto simp: unref_def moved_def map_option.compositionality comp_def split_def)

lemma unref_push: "unref (push (with_ref b ctx) p ob) = unref (push ctx p ob)"
  by (simp add: push_def split: option.splits sum.splits)

lemma unref_container: "unref (start_container (with_ref b ctx) p r n ct) = unref (start_container ctx p r n ct)"
  by (simp add: start_container_def unref_push split: option.splits)

lemma unref_if: "(c \<Longrightarrow> unref a' = unref a) \<Longrightarrow> (\<not> c \<Longrightarrow> unref b' = unref b) \<Longrightarrow> unref (if c then a' else b') = unref (if c then a else b)"
  by simp

lemma unref_variable: "unref (variable_value d (with_ref b ctx) acs n p) = unref (variable_value d ctx acs n p)"
proof -
  have "push_variable (with_ref b ctx) p r = push_variable ctx p r" for r
    by (simp add: push_variable_def with_ref_def split: option.splits)
  then show ?thesis by (simp add: variable_value_def)
qed

lemma unref_again: "unref (again_value d (with_ref b ctx) acs t n p) = unref (again_value d ctx acs t n p)"
  by (simp add: again_value_def Let_def unref_variable)

lemma unref_failed: "unref (Some (Failed, with_ref b ctx, p)) = unref (Some (Failed, ctx, p))"
  by simp

lemma unref_bind: "(\<And>v. unref (g v) = unref (f v)) \<Longrightarrow> unref (Option.bind x g) = unref (Option.bind x f)"
  by (cases x) simp_all

lemmas unref_intros = unref_if unref_bind unref_push unref_container unref_again unref_variable unref_failed

lemma unref_trail: "unref (trail_step d z (with_ref b ctx) p) = unref (trail_step d z ctx p)"
proof -
  have "unref (trail_switch d z (with_ref b ctx) n q) = unref (trail_switch d z ctx n q)" for n q
    unfolding trail_switch_def Let_def with_ref_simps by (intro unref_intros)
  then show ?thesis by (simp add: trail_step_def Let_def)
qed

lemma unref_fixed_trail: "unref (again_fixed_trail d z (with_ref b ctx) cs t p) = unref (again_fixed_trail d z ctx cs t p)"
  by (simp add: again_fixed_trail_def unref_trail)

lemma unref_header: "unref (header_step d z (with_ref b ctx) p) = unref (header_step d z ctx p)"
proof (cases "array_get d p")
  case (Some byte)
  then show ?thesis
    unfolding header_step_def Some option.case Let_def by (intro unref_intros unref_fixed_trail)
qed (simp add: header_step_def)

lemma unref_cases: "unref r' = Some (l, with_ref False c, p) \<Longrightarrow> \<exists>b. r' = Some (l, with_ref b c, p)"
proof -
  assume a: "unref r' = Some (l, with_ref False c, p)"
  then obtain c' where r: "r' = Some (l, c', p)" "with_ref False c' = with_ref False c"
    by (auto simp: unref_def)
  then have "c' = with_ref (ctx_referenced c') c" by (metis with_ref_simps(9) with_ref_def template_context.surjective template_context.update_convs(1))
  with r(1) show ?thesis by blast
qed

lemma unref_loop: "unref (template_loop d z (with_ref b ctx) p) = unref (template_loop d z ctx p)"
proof (induction d z ctx p arbitrary: b rule: template_loop.induct)
  case (1 d z ctx p)
  have s: "unref (template_step d z (with_ref b ctx) p) = unref (template_step d z ctx p)"
    by (simp add: template_step_def unref_header unref_trail)
  show ?case
  proof (cases "template_step d z ctx p")
    case None
    with s show ?thesis by (simp add: template_loop_eq after_def)
  next
    case (Some r)
    obtain l c p' where r: "r = (l, c, p')" by (cases r)
    from s Some r obtain b' where "template_step d z (with_ref b ctx) p = Some (l, with_ref b' c, p')"
      using unref_cases by force
    then show ?thesis
      using Some r 1 [OF Some [unfolded r] refl] template_step_forward [of d z ctx p c p']
      by (cases l) (simp_all add: template_loop_eq [of _ z ctx] template_loop_eq [of _ z "with_ref b ctx"] after_def)
  qed
qed

lemma unref_execute: "unref (template_execute z (with_ref b ctx) d off) = unref (template_execute z ctx d off)"
  by (simp add: template_execute_def unref_loop)

text \<open>The machine does not move backwards, keeps the flag, and moves forward when it sets it.\<close>

definition ahead :: "template_context \<Rightarrow> nat \<Rightarrow> template_context \<Rightarrow> nat \<Rightarrow> bool" where
  "ahead ctx p c q \<longleftrightarrow> p \<le> q \<and> (ctx_referenced ctx \<longrightarrow> ctx_referenced c) \<and> (ctx_referenced c \<longrightarrow> ctx_referenced ctx \<or> p < q)"

definition forward :: "template_context \<Rightarrow> nat \<Rightarrow> ('l \<times> template_context \<times> nat) option \<Rightarrow> bool" where
  "forward ctx p r \<longleftrightarrow> (\<forall>l c q. r = Some (l, c, q) \<longrightarrow> ahead ctx p c q)"

lemma ahead_trans: "ahead ctx p c q \<Longrightarrow> ahead c q c' q' \<Longrightarrow> ahead ctx p c' q'"
  unfolding ahead_def by auto

lemma ahead_same: "p \<le> q \<Longrightarrow> ctx_referenced c = ctx_referenced ctx \<Longrightarrow> ahead ctx p c q"
  by (simp add: ahead_def)

lemma forward_after: "ahead ctx p c q \<Longrightarrow> forward c q r \<Longrightarrow> forward ctx p r"
  unfolding forward_def using ahead_trans by blast

lemma forward_Some: "ahead ctx p c q \<Longrightarrow> forward ctx p (Some (l, c, q))"
  by (simp add: forward_def)

lemma forward_push: "p \<le> q \<Longrightarrow> forward ctx p (push ctx q ob)"
  by (auto simp: forward_def ahead_def push_def split: option.splits sum.splits)

lemma forward_container: "p \<le> q \<Longrightarrow> forward ctx p (start_container ctx q r n ct)"
  using forward_push [of p q ctx] by (auto simp: forward_def ahead_def start_container_def split: option.splits)

lemma forward_if: "forward ctx p a \<Longrightarrow> forward ctx p b \<Longrightarrow> forward ctx p (if c then a else b)"
  by simp

lemma forward_variable: "p \<le> q \<Longrightarrow> forward ctx p (variable_value d ctx acs n q)"
proof -
  assume q: "p \<le> q"
  have "forward ctx p (push (ctx\<lparr> ctx_referenced := True \<rparr>) q ob)" for ob
    using q by (auto simp: forward_def ahead_def push_def split: option.splits sum.splits)
  then show ?thesis by (auto simp: variable_value_def push_variable_def forward_def split: option.splits)
qed

lemma forward_again: "p \<le> q \<Longrightarrow> forward ctx p (again_value d ctx acs t n q)"
  unfolding again_value_def Let_def
  by (intro forward_if forward_Some forward_after [OF ahead_same forward_variable]) (auto simp: ahead_def)

lemma forward_failed: "p \<le> q \<Longrightarrow> forward ctx p (Some (l, ctx, q))"
  by (intro forward_Some ahead_same) simp_all

lemma forward_bind: "(\<And>v. forward ctx p (f v)) \<Longrightarrow> forward ctx p (Option.bind x f)"
  by (cases x) (simp_all add: forward_def)

lemmas forward_intros = forward_if forward_bind forward_push forward_container forward_again forward_variable forward_failed

lemma forward_trail: "p \<le> q \<Longrightarrow> forward ctx p (trail_step d z ctx q)"
proof -
  assume q: "p \<le> q"
  have "forward ctx p (trail_switch d z ctx n q')" if "p \<le> q'" for n q'
    unfolding trail_switch_def Let_def by (intro forward_intros that)
  then show ?thesis unfolding trail_step_def Let_def using q by (intro forward_intros) simp_all
qed

lemma forward_header: "forward ctx p (header_step d z ctx p)"
proof (cases "array_get d p")
  case (Some byte)
  have t: "forward ctx p (again_fixed_trail d z ctx cs t p)" for cs t
    unfolding again_fixed_trail_def by (rule forward_after [OF ahead_same forward_trail [OF order_refl]]) simp_all
  show ?thesis
    unfolding header_step_def Some option.case Let_def by (intro forward_intros t order_refl)
qed (simp add: header_step_def forward_def)

lemma forward_loop: "forward ctx p (template_loop d z ctx p)"
proof (induction d z ctx p rule: template_loop.induct)
  case (1 d z ctx p)
  have s: "forward ctx p (template_step d z ctx p)"
    by (simp add: template_step_def forward_header forward_trail)
  show ?case
  proof (cases "template_step d z ctx p")
    case None
    then show ?thesis by (simp add: template_loop_eq after_def forward_def)
  next
    case (Some r)
    obtain l c p' where r: "r = (l, c, p')" by (cases r)
    with s Some have a: "ahead ctx p c p'" by (simp add: forward_def)
    show ?thesis
    proof (cases "l = Header_again \<and> p' \<noteq> length d \<and> p < p' \<and> p' < length d")
      case True
      with 1 [OF Some [unfolded r] refl _ refl] have "forward c p' (template_loop d z c p')" by blast
      with a have "forward ctx p (template_loop d z c p')" by (rule forward_after)
      with Some r True show ?thesis by (simp add: template_loop_eq [of d z ctx] after_def)
    next
      case False
      with Some r a template_step_forward [of d z ctx p c p'] show ?thesis
        by (cases l) (auto simp: template_loop_eq after_def forward_def)
    qed
  qed
qed

lemma forward_execute: "template_execute z ctx d off = Some (r, c, q) \<Longrightarrow> ahead ctx off c q"
  using forward_loop [of ctx off d z] by (auto simp: template_execute_def forward_def ahead_def split: if_splits)

text \<open>A run ends within the data, and unless it has finished a value its context is consistent.\<close>

definition stays :: "bytes \<Rightarrow> step \<Rightarrow> bool" where
  "stays d r \<longleftrightarrow> (\<forall>l c p'. r = Some (l, c, p') \<longrightarrow> p' \<le> length d \<and> (l \<noteq> Finish \<longrightarrow> state_ok c))"

lemma stays_push: "p < length d \<Longrightarrow> stays d (push ctx p ob)"
  by (auto simp: stays_def push_def state_ok_def split: option.splits sum.splits)

lemma stays_container: "p < length d \<Longrightarrow> state_ok ctx \<Longrightarrow> stays d (start_container ctx p r n ct)"
  using stays_push [of p d ctx] by (auto simp: stays_def start_container_def state_ok_def split: option.splits if_splits)

lemma stays_if: "(c \<Longrightarrow> stays d a) \<Longrightarrow> (\<not> c \<Longrightarrow> stays d b) \<Longrightarrow> stays d (if c then a else b)"
  by simp

lemma stays_variable: "p < length d \<Longrightarrow> stays d (variable_value d ctx acs n p)"
  using stays_push [of p d "ctx\<lparr> ctx_referenced := True \<rparr>"]
  by (auto simp: variable_value_def push_variable_def stays_def split: option.splits)

lemma stays_again: "p < length d \<Longrightarrow> acs \<in> {32, 33, 34} \<Longrightarrow> stays d (again_value d ctx acs t n p)"
proof -
  assume p: "p < length d" "acs \<in> {32, 33, 34}"
  show ?thesis
  proof (cases "t = 0")
    case True
    then show ?thesis using stays_variable [OF p(1)] by (simp add: again_value_def)
  next
    case False
    then have t: "unat (t - 1) < unat t" by (simp add: unat_minus_one unat_gt_0)
    show ?thesis
    proof (cases "length d - (p + 1) < unat t")
      case True
      with p False show ?thesis by (auto simp: again_value_def Let_def stays_def state_ok_def)
    next
      case enough: False
      with t have "p + 1 + unat (t - 1) < length d" by linarith
      with False enough show ?thesis using stays_variable by (simp add: again_value_def Let_def)
    qed
  qed
qed

lemma stays_failed: "p \<le> length d \<Longrightarrow> state_ok ctx \<Longrightarrow> stays d (Some (Failed, ctx, p))"
  by (simp add: stays_def)

lemma stays_bind: "(\<And>v. stays d (f v)) \<Longrightarrow> stays d (Option.bind x f)"
  by (cases x) (simp_all add: stays_def)

lemmas stays_intros = stays_if stays_bind stays_push stays_container stays_again stays_variable stays_failed

lemma stays_trail: "p \<le> length d \<Longrightarrow> state_ok ctx \<Longrightarrow> ctx_cs ctx \<noteq> 0 \<Longrightarrow> stays d (trail_step d z ctx p)"
proof -
  assume p: "p \<le> length d" "state_ok ctx" "ctx_cs ctx \<noteq> 0"
  then have t: "unat (ctx_trail ctx) \<noteq> 0" using fixed_states [of "ctx_cs ctx"] by (auto simp: state_ok_def unat_eq_0)
  then have t': "unat (ctx_trail ctx - 1) = unat (ctx_trail ctx) - 1" by (metis unat_eq_0 unat_minus_one)
  have "stays d (trail_switch d z ctx n q)" if "q < length d" for n q
    unfolding trail_switch_def Let_def
    by (intro stays_intros that less_imp_le [OF that] p(2)) simp_all
  from this [of "p + unat (ctx_trail ctx - 1)" p] p t t' show ?thesis
    by (simp add: trail_step_def Let_def stays_failed) (auto simp: stays_def)
qed

lemma stays_fixed_trail: "p < length d \<Longrightarrow> asks b k \<Longrightarrow> stays d (again_fixed_trail d z ctx (NEXT_CS b) k p)"
  unfolding again_fixed_trail_def by (rule stays_trail) (auto simp: asks_def state_ok_def)

lemma stays_header:
  assumes "p < length d" "ctx_cs ctx = 0"
  shows "stays d (header_step d z ctx p)"
proof (cases "array_get d p")
  case (Some b)
  have ok: "state_ok ctx" using assms(2) by (simp add: state_ok_def)
  show ?thesis
    unfolding header_step_def Some option.case Let_def
    by (intro stays_intros stays_fixed_trail assms(1) ok less_imp_le [OF assms(1)];
        ((elim conjE, (rule asks_header; assumption)) | simp))
qed (simp add: header_step_def stays_def)

lemma stays_loop:
  assumes "template_loop d z ctx p = Some (r, c, q)" "state_ok ctx" "p < length d"
  shows "q \<le> length d \<and> (r \<noteq> 1 \<longrightarrow> state_ok c)"
  using assms
proof (induction d z ctx p rule: template_loop.induct)
  case (1 d z ctx p)
  have f: "stays d (template_step d z ctx p)"
    using 1(3,4) stays_header stays_trail by (simp add: template_step_def)
  from 1(2) obtain l ctx' p' where s: "template_step d z ctx p = Some (l, ctx', p')"
    by (auto simp: template_loop_eq after_def split: option.splits)
  show ?case
  proof (cases l)
    case Header_again
    show ?thesis
    proof (cases "p' = length d")
      case True
      with 1(2) s f Header_again show ?thesis by (auto simp: template_loop_eq after_def stays_def)
    next
      case False
      with 1(2) s Header_again have "p < p' \<and> p' < length d" "template_loop d z ctx' p' = Some (r, c, q)"
        by (auto dest: template_step_forward simp: template_loop_eq [of d z ctx p] after_def split: if_splits)
      moreover have "state_ok ctx'" using f s Header_again by (simp add: stays_def)
      ultimately show ?thesis using 1(1) [OF s refl Header_again refl False] by blast
    qed
  qed (use 1(2) s f in \<open>auto simp: template_loop_eq after_def stays_def\<close>)
qed

lemma execute_stays:
  assumes "template_execute z ctx d off = Some (r, c, q)" "state_ok ctx"
  shows "q \<le> length d \<and> off \<le> q \<and> (r \<noteq> 1 \<longrightarrow> state_ok c)"
  using assms stays_loop [of d z ctx off r c q] forward_execute [OF assms(1)]
  by (auto simp: template_execute_def ahead_def split: if_splits)

lemma execute_total:
  assumes "off \<le> length data" "\<And>q. \<not> ext32_max data q"
  shows "\<exists>r c q. template_execute z fresh_context data off = Some (r, c, q) \<and> frames_ok c \<and> q \<le> length data"
proof (cases "off = length data")
  case False
  with assms(1) have "off < length data" by simp
  from loop_total [OF this frames_ok_simps(5) _ assms(2)] False assms(1) show ?thesis
    by (simp add: template_execute_def)
qed (simp add: template_execute_def)

subsection \<open>Properties\<close>

text \<open>
  (C21) Type safety of the deserializer on arbitrary data, also truncated or malicious. If no extension header
  of the data has the length \<^verbatim>\<open>0xffffffff\<close>, then the machine never gets stuck: it returns a result at an offset
  within the data, without reading behind the end, storing an item in an object that is not the container it
  belongs to or using more than the 32 frames, and in every frame it saves, one that waits for array items holds
  an array and one that waits for a key or a value a map. The one-shot function returns an object exactly when
  it reports success or extra bytes.
\<close>

theorem unpack_well_typed:
  assumes "off \<le> length data" "\<forall>p. \<not> ext32_max data p"
  shows "(\<exists>r c q. template_execute zalloc fresh_context data off = Some (r, c, q) \<and> frames_ok c \<and> q \<le> length data)
    \<and> (\<exists>ret off' ob. msgpack_unpack zalloc data (Some off) = Some (ret, off', ob)
        \<and> (ob \<noteq> None \<longleftrightarrow> ret = UNPACK_SUCCESS \<or> ret = UNPACK_EXTRA_BYTES))"
proof -
  from execute_total [of off data zalloc] assms obtain r c q
    where e: "template_execute zalloc fresh_context data off = Some (r, c, q)" "frames_ok c" "q \<le> length data" by blast
  then show ?thesis by (simp add: msgpack_unpack_def Let_def)
qed

text \<open>A map of two entries that ends within an extension.\<close>

lemma unpack_well_typed_witness:
  "(\<exists>r c q. template_execute (\<lambda>_. True) fresh_context [0x82, 1, 0xc9, 0, 0, 0, 2, 5] 0 = Some (r, c, q)
      \<and> frames_ok c \<and> q \<le> length [0x82 :: u8, 1, 0xc9, 0, 0, 0, 2, 5])
    \<and> (\<exists>ret off' ob. msgpack_unpack (\<lambda>_. True) [0x82, 1, 0xc9, 0, 0, 0, 2, 5] (Some 0) = Some (ret, off', ob)
        \<and> (ob \<noteq> None \<longleftrightarrow> ret = UNPACK_SUCCESS \<or> ret = UNPACK_EXTRA_BYTES))"
proof (rule unpack_well_typed)
  have "\<not> ext32_max [0x82, 1, 0xc9, 0, 0, 0, 2, 5] p" for p
  proof (cases "p = 2")
    case True
    then show ?thesis by (simp add: ext32_max_def array_get_def msgpack_load32_def be_load_def)
  next
    case False
    show ?thesis
    proof
      assume "ext32_max [0x82, 1, 0xc9, 0, 0, 0, 2, 5] p"
      then have "p = 0 \<or> p = 1 \<or> p = 3" "array_get [0x82, 1, 0xc9, 0, 0, 0, 2, 5] p = Some (0xc9 :: u8)"
        using False by (auto simp: ext32_max_def)
      then show False by (elim disjE) (simp_all add: array_get_def)
    qed
  qed
  then show "\<forall>p. \<not> ext32_max [0x82, 1, 0xc9, 0, 0, 0, 2, 5] p" by blast
qed simp

end
