(* ===== verification/MsgpackResume.thy ===== *)
theory MsgpackResume
  imports MsgpackSafety
begin

text \<open>
  A run of the state machine that resumes in the middle of a value, from a context that an earlier run left
  behind: it has a result too, unless the header of a 32-bit extension with the largest length is in the data.
  Such a header may be cut, so that the context only knows that the state is the one for such a header; it is
  then the last byte consumed before.
\<close>

subsection \<open>The header that was consumed\<close>

definition at_ext32 :: "bytes \<Rightarrow> template_context \<Rightarrow> nat \<Rightarrow> bool" where
  "at_ext32 d ctx p \<longleftrightarrow> (ctx_cs ctx = 9 \<longrightarrow> 0 < p \<and> array_get d (p - 1) = Some 0xc9)"

lemma at_ext32_other: "ctx_cs ctx \<noteq> 9 \<Longrightarrow> at_ext32 d ctx p"
  by (simp add: at_ext32_def)

definition tracks :: "bytes \<Rightarrow> step \<Rightarrow> bool" where
  "tracks d r \<longleftrightarrow> (\<forall>l c p'. r = Some (l, c, p') \<longrightarrow> l \<noteq> Finish \<longrightarrow> at_ext32 d c p')"

lemma tracks_push: "tracks d (push ctx p ob)"
  by (auto simp: tracks_def push_def at_ext32_def split: option.splits sum.splits)

lemma tracks_container: "ctx_cs ctx \<noteq> 9 \<Longrightarrow> tracks d (start_container ctx p r n ct)"
  using tracks_push [of d ctx] by (auto simp: tracks_def start_container_def at_ext32_def split: option.splits if_splits)

lemma tracks_if: "(c \<Longrightarrow> tracks d a) \<Longrightarrow> (\<not> c \<Longrightarrow> tracks d b) \<Longrightarrow> tracks d (if c then a else b)"
  by simp

lemma tracks_bind: "(\<And>v. tracks d (f v)) \<Longrightarrow> tracks d (Option.bind x f)"
  by (cases x) (simp_all add: tracks_def)

lemma tracks_variable: "tracks d (variable_value e ctx acs n p)"
  using tracks_push [of d "ctx\<lparr> ctx_referenced := True \<rparr>" p]
  by (auto simp: variable_value_def push_variable_def tracks_def split: option.splits)

lemma tracks_again: "acs \<noteq> 9 \<Longrightarrow> tracks d (again_value e ctx acs t n p)"
  unfolding again_value_def Let_def
  by (intro tracks_if tracks_variable) (simp add: tracks_def at_ext32_def)

lemma tracks_failed: "ctx_cs ctx \<noteq> 9 \<Longrightarrow> tracks d (Some (Failed, ctx, p))"
  by (simp add: tracks_def at_ext32_def)

lemmas tracks_intros = tracks_if tracks_bind tracks_push tracks_container tracks_again tracks_variable tracks_failed

lemma tracks_trail:
  assumes "at_ext32 d ctx p"
  shows "tracks d (trail_step d z ctx p)"
proof -
  have "tracks d (trail_switch d z ctx n q)" for n q
    unfolding trail_switch_def Let_def by (intro tracks_intros) simp_all
  then show ?thesis using assms by (simp add: trail_step_def Let_def) (simp add: tracks_def)
qed

lemma tracks_fixed_trail:
  assumes "array_get d p = Some b" "0xc0 \<le> b \<and> b \<le> 0xdf"
  shows "tracks d (again_fixed_trail d z ctx (NEXT_CS b) k p)"
  unfolding again_fixed_trail_def
  by (rule tracks_trail) (use assms next_cs_9 [OF _ assms(2)] in \<open>auto simp: at_ext32_def\<close>)

lemma tracks_header:
  assumes "ctx_cs ctx = 0"
  shows "tracks d (header_step d z ctx p)"
proof (cases "array_get d p")
  case (Some b)
  have ne: "ctx_cs ctx \<noteq> 9" using assms by simp
  show ?thesis
    unfolding header_step_def Some option.case Let_def
    by (intro tracks_intros tracks_fixed_trail [OF Some] ne) simp_all
qed (simp add: header_step_def tracks_def)

lemma tracks_step: "at_ext32 d ctx p \<Longrightarrow> tracks d (template_step d z ctx p)"
  using tracks_header tracks_trail by (simp add: template_step_def)

lemma loop_tracks:
  assumes "template_loop d z ctx p = Some (r, c, q)" "at_ext32 d ctx p" "r \<noteq> 1"
  shows "at_ext32 d c q"
  using assms
proof (induction d z ctx p rule: template_loop.induct)
  case (1 d z ctx p)
  have t: "tracks d (template_step d z ctx p)" using 1(3) by (rule tracks_step)
  from 1(2) obtain l ctx' p' where s: "template_step d z ctx p = Some (l, ctx', p')"
    by (auto simp: template_loop_eq after_def split: option.splits)
  show ?case
  proof (cases "l = Header_again \<and> p' \<noteq> length d")
    case True
    with 1(2) s have "p < p' \<and> p' < length d" "template_loop d z ctx' p' = Some (r, c, q)"
      by (auto dest: template_step_forward simp: template_loop_eq [of d z ctx p] after_def split: if_splits)
    moreover have "at_ext32 d ctx' p'" using t s True by (simp add: tracks_def)
    ultimately show ?thesis using 1(1) [OF s refl _ refl] True 1(4) by blast
  next
    case False
    with 1(2,4) s t show ?thesis by (cases l) (auto simp: template_loop_eq after_def tracks_def)
  qed
qed

subsection \<open>Runs from any context\<close>

lemma good_trail:
  assumes "p \<le> length d" "state_ok ctx" "ctx_cs ctx \<noteq> 0" "frames_ok ctx" "at_ext32 d ctx p" "\<And>q. \<not> ext32_max d q"
  shows "good d (trail_step d z ctx p)"
proof (cases "length d - p < unat (ctx_trail ctx)")
  case True
  with assms(1,4) show ?thesis by (simp add: trail_step_def good_def)
next
  case False
  have nz: "unat (ctx_trail ctx) \<noteq> 0" using assms(2,3) fixed_states [of "ctx_cs ctx"] by (auto simp: state_ok_def unat_eq_0)
  then have "unat (ctx_trail ctx - 1) = unat (ctx_trail ctx) - 1" by (metis unat_eq_0 unat_minus_one)
  with nz have t: "unat (ctx_trail ctx - 1) = unat (ctx_trail ctx) - 1" "0 < unat (ctx_trail ctx)" by simp_all
  let ?q = "p + unat (ctx_trail ctx - 1)"
  have q: "?q < length d" "p + unat (ctx_trail ctx) \<le> length d" using False t assms(1) by linarith+
  have step: "trail_step d z ctx p = trail_switch d z ctx p ?q" using False by (simp add: trail_step_def Let_def)
  show ?thesis
  proof (cases "ctx_cs ctx \<in> {32, 33, 34}")
    case True
    then have "trail_switch d z ctx p ?q = variable_value d ctx (ctx_cs ctx) p ?q"
      by (auto simp: trail_switch_def Let_def)
    moreover have "good d (variable_value d ctx (ctx_cs ctx) p ?q)"
      by (rule good_variable) (use assms(4) q t in auto)
    ultimately show ?thesis by (simp add: step)
  next
    case no: False
    with assms(2,3) have fixed: "ctx_cs ctx \<in> {4..19} \<union> {25..31}" "unat (ctx_trail ctx) = trail_bytes (ctx_cs ctx)"
      by (auto simp: state_ok_def)
    have "\<not> (ctx_cs ctx = 9 \<and> msgpack_load32 (drop p d) = Some 0xffffffff)"
    proof
      assume c: "ctx_cs ctx = 9 \<and> msgpack_load32 (drop p d) = Some 0xffffffff"
      with assms(5) have "0 < p" "array_get d (p - 1) = Some 0xc9" by (simp_all add: at_ext32_def)
      moreover have "p + 4 \<le> length d" using q(2) fixed(2) c by (simp add: trail_bytes_def)
      ultimately have "ext32_max d (p - 1)" using c by (simp add: ext32_max_def)
      with assms(6) show False by blast
    qed
    from good_switch_fixed [OF fixed(1) q(1) assms(4) this] q(2) fixed(2) show ?thesis by (simp add: step)
  qed
qed

lemma loop_total_resumed:
  assumes "p < length d" "state_ok ctx" "frames_ok ctx" "at_ext32 d ctx p" "\<And>q. \<not> ext32_max d q"
  shows "\<exists>r c q. template_loop d z ctx p = Some (r, c, q) \<and> frames_ok c"
proof (cases "ctx_cs ctx = 0")
  case True
  with loop_total [OF assms(1,3) _ assms(5)] show ?thesis by blast
next
  case False
  from good_trail [OF less_imp_le [OF assms(1)] assms(2) False assms(3,4,5), of z] obtain l c p' where
    g: "trail_step d z ctx p = Some (l, c, p')" "frames_ok c" "p' \<le> length d" unfolding good_def by blast
  have s: "template_step d z ctx p = Some (l, c, p')" using False g(1) by (simp add: template_step_def)
  show ?thesis
  proof (cases l)
    case Header_again
    have "ctx_cs c = 0" using continues_step [OF assms(2), of d "[]" z p] s Header_again by (simp add: continues_def)
    moreover have "p < p'" using template_step_forward s Header_again by blast
    ultimately show ?thesis
      using loop_total [OF _ g(2) _ assms(5), of p' z] g(2,3) s Header_again
      by (cases "p' = length d") (auto simp: template_loop_eq [of d z ctx p] after_def)
  qed (use g(2) s in \<open>simp_all add: template_loop_eq after_def\<close>)
qed

text \<open>The data \<open>d\<close> follows the data \<open>past\<close> that was consumed before.\<close>

lemma execute_total_resumed:
  assumes "state_ok ctx" "frames_ok ctx" "at_ext32 (past @ d) ctx (length past)" "\<And>q. \<not> ext32_max (past @ d) q"
  shows "\<exists>r c q. template_execute z ctx d 0 = Some (r, c, q) \<and> frames_ok c
    \<and> (r \<noteq> 1 \<longrightarrow> at_ext32 (past @ d) c (length past + q))"
proof -
  have m: "template_execute z ctx (past @ d) (length past) = moved (length past) (template_execute z ctx d 0)"
    using moved_execute [of z ctx past d 0] by simp
  have "\<exists>r c q. template_execute z ctx (past @ d) (length past) = Some (r, c, q) \<and> frames_ok c
    \<and> (r \<noteq> 1 \<longrightarrow> at_ext32 (past @ d) c q)"
  proof (cases "d = []")
    case True
    with assms(2,3) show ?thesis by (simp add: template_execute_def)
  next
    case False
    then have l: "length past < length (past @ d)" by simp
    from loop_total_resumed [OF l assms(1,2,3,4), of z] obtain r c q where
      e: "template_loop (past @ d) z ctx (length past) = Some (r, c, q)" "frames_ok c" by blast
    with loop_tracks [OF e(1) assms(3)] False show ?thesis by (simp add: template_execute_def)
  qed
  then show ?thesis unfolding m by (auto simp: moved_def)
qed

end
