(* ===== verification/MsgpackUnpacker.thy ===== *)
theory MsgpackUnpacker
  imports MsgpackResume "HOL-Library.Multiset"
begin

text \<open>
  The streaming deserializer of \<^verbatim>\<open>msgpack-c\<close> (\<^verbatim>\<open>src/unpack.c\<close>, \<^verbatim>\<open>msgpack/unpack.h\<close>): a buffer that is
  filled by the caller and consumed by the state machine, shared by counting references with the zones of
  the objects that point into it. Memory has the buffers by address, each with its reference count and the
  bytes of its block (the count occupies the first four), and the zones by address, each with the buffers its
  finalizers give back. Using a buffer or a zone that is not there is undefined (\<open>None\<close>).
\<close>

subsection \<open>Memory\<close>

record unp_buffer =
  b_count :: u32
  b_bytes :: bytes

record unp_memory =
  m_bufs :: "nat \<Rightarrow> unp_buffer option"
  m_zones :: "nat \<Rightarrow> nat list option"

text \<open>
  The environment: \<open>ue_realloc\<close> gives the bytes of a new block (\<^verbatim>\<open>malloc\<close> for an empty old one) or fails,
  \<open>ue_addr\<close> its address, if there is room; \<open>ue_zone\<close> is the address of a new zone, if there is one; \<open>ue_push\<close> says whether a zone
  can take one more finalizer; \<open>ue_ctx\<close> and \<open>ue_self\<close> whether the context and the structure can be allocated;
  \<open>ue_zalloc\<close> which sizes the zone can provide to the state machine.
\<close>

record unp_env =
  ue_realloc :: "bytes \<Rightarrow> nat \<Rightarrow> bytes option"
  ue_addr :: "(nat \<Rightarrow> unp_buffer option) \<Rightarrow> nat option"
  ue_zone :: "(nat \<Rightarrow> nat list option) \<Rightarrow> nat option"
  ue_push :: "nat list \<Rightarrow> bool"
  ue_ctx :: bool
  ue_self :: bool
  ue_zalloc :: "nat \<Rightarrow> bool"

definition unp_alloc :: "unp_env \<Rightarrow> (nat \<Rightarrow> unp_buffer option) \<Rightarrow> bytes \<Rightarrow> nat \<Rightarrow> (nat \<times> bytes) option" where
  "unp_alloc env bufs old n = (case ue_addr env bufs of
     None \<Rightarrow> None
   | Some a \<Rightarrow> map_option (\<lambda>bytes. (a, bytes)) (ue_realloc env old n))"

definition COUNTER_SIZE :: nat where "COUNTER_SIZE = 4"

definition decr_count :: "nat \<Rightarrow> unp_memory \<Rightarrow> unp_memory option" where
  "decr_count a m = (case m_bufs m a of
     None \<Rightarrow> None
   | Some b \<Rightarrow> let n = b_count b - 1
       in if n = 0 then Some (m\<lparr> m_bufs := (m_bufs m)(a := None) \<rparr>)
          else Some (m\<lparr> m_bufs := (m_bufs m)(a \<mapsto> b\<lparr> b_count := n \<rparr>) \<rparr>))"

definition incr_count :: "nat \<Rightarrow> unp_memory \<Rightarrow> unp_memory option" where
  "incr_count a m = (case m_bufs m a of
     None \<Rightarrow> None
   | Some b \<Rightarrow> Some (m\<lparr> m_bufs := (m_bufs m)(a \<mapsto> b\<lparr> b_count := b_count b + 1 \<rparr>) \<rparr>))"

definition get_count :: "nat \<Rightarrow> unp_memory \<Rightarrow> u32 option" where
  "get_count a m = map_option b_count (m_bufs m a)"

text \<open>The zone as far as the deserializer uses it: creating it, registering \<^verbatim>\<open>decr_count\<close> for a buffer, and
  running the finalizers, the last one first, when it is freed or cleared.\<close>

definition unp_zone_new :: "unp_env \<Rightarrow> unp_memory \<Rightarrow> nat option \<times> unp_memory" where
  "unp_zone_new env m = (case ue_zone env (m_zones m) of
     None \<Rightarrow> (None, m)
   | Some z \<Rightarrow> (Some z, m\<lparr> m_zones := (m_zones m)(z \<mapsto> []) \<rparr>))"

definition unp_push_finalizer :: "unp_env \<Rightarrow> unp_memory \<Rightarrow> nat \<Rightarrow> nat \<Rightarrow> (bool \<times> unp_memory) option" where
  "unp_push_finalizer env m z a = (case m_zones m z of
     None \<Rightarrow> None
   | Some fins \<Rightarrow> if \<not> ue_push env fins then Some (False, m)
       else Some (True, m\<lparr> m_zones := (m_zones m)(z \<mapsto> fins @ [a]) \<rparr>))"

definition unp_zone_free :: "unp_memory \<Rightarrow> nat \<Rightarrow> unp_memory option" where
  "unp_zone_free m z = (case m_zones m z of
     None \<Rightarrow> None
   | Some fins \<Rightarrow> map_option (\<lambda>m. m\<lparr> m_zones := (m_zones m)(z := None) \<rparr>) (fold_opt (\<lambda>m a. decr_count a m) m (rev fins)))"

definition unp_zone_clear :: "unp_memory \<Rightarrow> nat \<Rightarrow> unp_memory option" where
  "unp_zone_clear m z = (case m_zones m z of
     None \<Rightarrow> None
   | Some fins \<Rightarrow> map_option (\<lambda>m. m\<lparr> m_zones := (m_zones m)(z \<mapsto> []) \<rparr>) (fold_opt (\<lambda>m a. decr_count a m) m (rev fins)))"

subsection \<open>The unpacker\<close>

record msgpack_unpacker =
  mp_buffer :: nat
  mp_used :: nat
  mp_free :: nat
  mp_off :: nat
  mp_parsed :: nat
  mp_z :: nat
  mp_initial :: nat
  mp_ctx :: template_context

abbreviation CTX_REFERENCED :: "msgpack_unpacker \<Rightarrow> bool" where
  "CTX_REFERENCED mpac \<equiv> ctx_referenced (mp_ctx mpac)"

definition set_referenced :: "bool \<Rightarrow> msgpack_unpacker \<Rightarrow> msgpack_unpacker" where
  "set_referenced r mpac = mpac\<lparr> mp_ctx := (mp_ctx mpac)\<lparr> ctx_referenced := r \<rparr> \<rparr>"

definition msgpack_unpacker_init :: "unp_env \<Rightarrow> unp_memory \<Rightarrow> nat \<Rightarrow> msgpack_unpacker option \<times> unp_memory" where
  "msgpack_unpacker_init env m initial_buffer_size =
     (let n = max initial_buffer_size COUNTER_SIZE
      in case unp_alloc env (m_bufs m) [] n of
           None \<Rightarrow> (None, m)
         | Some (buffer, bytes) \<Rightarrow>
             if \<not> ue_ctx env then (None, m)
             else case unp_zone_new env m of
               (None, m) \<Rightarrow> (None, m)
             | (Some z, m) \<Rightarrow>
                 (Some \<lparr> mp_buffer = buffer, mp_used = COUNTER_SIZE, mp_free = size_sub n COUNTER_SIZE,
                       mp_off = COUNTER_SIZE, mp_parsed = 0, mp_z = z, mp_initial = n, mp_ctx = fresh_context \<rparr>,
                     m\<lparr> m_bufs := (m_bufs m)(buffer \<mapsto> \<lparr> b_count = 1, b_bytes = bytes \<rparr>) \<rparr>))"

definition msgpack_unpacker_new :: "unp_env \<Rightarrow> unp_memory \<Rightarrow> nat \<Rightarrow> msgpack_unpacker option \<times> unp_memory" where
  "msgpack_unpacker_new env m n = (if \<not> ue_self env then (None, m) else msgpack_unpacker_init env m n)"

definition msgpack_unpacker_destroy :: "unp_memory \<Rightarrow> msgpack_unpacker \<Rightarrow> unp_memory option" where
  "msgpack_unpacker_destroy m mpac = Option.bind (unp_zone_free m (mp_z mpac)) (decr_count (mp_buffer mpac))"

text \<open>The branch of \<^verbatim>\<open>msgpack_unpacker_expand_buffer\<close> in which nothing of the buffer is parsed: it grows.\<close>

definition expand_in_place :: "unp_env \<Rightarrow> unp_memory \<Rightarrow> msgpack_unpacker \<Rightarrow> nat \<Rightarrow> (bool \<times> unp_memory \<times> msgpack_unpacker) option" where
  "expand_in_place env m mpac sz = (case m_bufs m (mp_buffer mpac) of
     None \<Rightarrow> None
   | Some b \<Rightarrow>
       let next_size = grow_size ((mp_used mpac + mp_free mpac) * 2 mod 2 ^ 64) ((sz + mp_used mpac) mod 2 ^ 64);
           bufs = (m_bufs m)(mp_buffer mpac := None)
       in case unp_alloc env bufs (b_bytes b) next_size of
            None \<Rightarrow> Some (False, m, mpac)
          | Some (a, tmp) \<Rightarrow> Some (True, m\<lparr> m_bufs := bufs(a \<mapsto> b\<lparr> b_bytes := tmp \<rparr>) \<rparr>,
                       mpac\<lparr> mp_buffer := a, mp_free := size_sub next_size (mp_used mpac) \<rparr>))"

text \<open>The other branch: the bytes that are not parsed move to a new buffer; the old one goes to the zone if
  objects point into it, and is released otherwise.\<close>

definition expand_to_new :: "unp_env \<Rightarrow> unp_memory \<Rightarrow> msgpack_unpacker \<Rightarrow> nat \<Rightarrow> (bool \<times> unp_memory \<times> msgpack_unpacker) option" where
  "expand_to_new env m mpac sz = (case m_bufs m (mp_buffer mpac) of
     None \<Rightarrow> None
   | Some b \<Rightarrow>
       let not_parsed = size_sub (mp_used mpac) (mp_off mpac);
           next_size = grow_size (mp_initial mpac) ((sz + not_parsed + COUNTER_SIZE) mod 2 ^ 64)
       in case unp_alloc env (m_bufs m) [] next_size of
            None \<Rightarrow> Some (False, m, mpac)
          | Some (a, tmp) \<Rightarrow>
              if length (b_bytes b) < mp_off mpac + not_parsed then None
              else case block_write tmp COUNTER_SIZE (take not_parsed (drop (mp_off mpac) (b_bytes b))) of
                None \<Rightarrow> None
              | Some tmp \<Rightarrow>
                  let m' = m\<lparr> m_bufs := (m_bufs m)(a \<mapsto> \<lparr> b_count = 1, b_bytes = tmp \<rparr>) \<rparr>;
                      shift = (\<lambda>mpac. mpac\<lparr> mp_buffer := a, mp_used := not_parsed + COUNTER_SIZE,
                        mp_free := size_sub next_size (not_parsed + COUNTER_SIZE), mp_off := COUNTER_SIZE \<rparr>)
                  in if CTX_REFERENCED mpac
                     then case unp_push_finalizer env m' (mp_z mpac) (mp_buffer mpac) of
                         None \<Rightarrow> None
                       | Some (False, m') \<Rightarrow> Some (False, m'\<lparr> m_bufs := (m_bufs m')(a := None) \<rparr>, mpac)
                       | Some (True, m') \<Rightarrow> Some (True, m', shift (set_referenced False mpac))
                     else map_option (\<lambda>m'. (True, m', shift mpac)) (decr_count (mp_buffer mpac) m'))"

definition msgpack_unpacker_expand_buffer ::
    "unp_env \<Rightarrow> unp_memory \<Rightarrow> msgpack_unpacker \<Rightarrow> nat \<Rightarrow> (bool \<times> unp_memory \<times> msgpack_unpacker) option" where
  "msgpack_unpacker_expand_buffer env m mpac sz = (case get_count (mp_buffer mpac) m of
     None \<Rightarrow> None
   | Some cnt \<Rightarrow>
       let rewind = (mp_used mpac = mp_off mpac \<and> cnt = 1 \<and> \<not> CTX_REFERENCED mpac);
           mpac = (if rewind
             then mpac\<lparr> mp_free := (mp_free mpac + size_sub (mp_used mpac) COUNTER_SIZE) mod 2 ^ 64,
                        mp_used := COUNTER_SIZE, mp_off := COUNTER_SIZE \<rparr>
             else mpac)
       in if rewind \<and> sz \<le> mp_free mpac then Some (True, m, mpac)
          else if mp_off mpac = COUNTER_SIZE then expand_in_place env m mpac sz
          else expand_to_new env m mpac sz)"

definition msgpack_unpacker_reserve_buffer ::
    "unp_env \<Rightarrow> unp_memory \<Rightarrow> msgpack_unpacker \<Rightarrow> nat \<Rightarrow> (bool \<times> unp_memory \<times> msgpack_unpacker) option" where
  "msgpack_unpacker_reserve_buffer env m mpac sz =
     (if sz \<le> mp_free mpac then Some (True, m, mpac) else msgpack_unpacker_expand_buffer env m mpac sz)"

text \<open>The free space: the address of the buffer and the offset in it, and its size.\<close>

definition msgpack_unpacker_buffer :: "msgpack_unpacker \<Rightarrow> nat \<times> nat" where
  "msgpack_unpacker_buffer mpac = (mp_buffer mpac, mp_used mpac)"

definition msgpack_unpacker_buffer_capacity :: "msgpack_unpacker \<Rightarrow> nat" where
  "msgpack_unpacker_buffer_capacity mpac = mp_free mpac"

definition msgpack_unpacker_buffer_consumed :: "msgpack_unpacker \<Rightarrow> nat \<Rightarrow> msgpack_unpacker" where
  "msgpack_unpacker_buffer_consumed mpac sz =
     mpac\<lparr> mp_used := (mp_used mpac + sz) mod 2 ^ 64, mp_free := size_sub (mp_free mpac) sz \<rparr>"

definition msgpack_unpacker_message_size :: "msgpack_unpacker \<Rightarrow> nat" where
  "msgpack_unpacker_message_size mpac = (size_sub (mp_parsed mpac) (mp_off mpac) + mp_used mpac) mod 2 ^ 64"

definition msgpack_unpacker_parsed_size :: "msgpack_unpacker \<Rightarrow> nat" where
  "msgpack_unpacker_parsed_size mpac = mp_parsed mpac"

subsection \<open>Objects\<close>

record msgpack_unpacked =
  ud_zone :: "nat option"
  ud_data :: msgpack_object

definition msgpack_unpacked_init :: msgpack_unpacked where
  "msgpack_unpacked_init = \<lparr> ud_zone = None, ud_data = OBJECT_NIL \<rparr>"

definition msgpack_unpacked_destroy :: "unp_memory \<Rightarrow> msgpack_unpacked \<Rightarrow> (unp_memory \<times> msgpack_unpacked) option" where
  "msgpack_unpacked_destroy m result = (case ud_zone result of
     None \<Rightarrow> Some (m, result)
   | Some z \<Rightarrow> map_option (\<lambda>m. (m, msgpack_unpacked_init)) (unp_zone_free m z))"

definition msgpack_unpacked_release_zone :: "msgpack_unpacked \<Rightarrow> nat option \<times> msgpack_unpacked" where
  "msgpack_unpacked_release_zone result = (ud_zone result, result\<lparr> ud_zone := None \<rparr>)"

definition msgpack_unpacker_execute :: "unp_env \<Rightarrow> unp_memory \<Rightarrow> msgpack_unpacker \<Rightarrow> (int \<times> msgpack_unpacker) option" where
  "msgpack_unpacker_execute env m mpac = (case m_bufs m (mp_buffer mpac) of
     None \<Rightarrow> None
   | Some b \<Rightarrow> if length (b_bytes b) < mp_used mpac then None
       else case template_execute (ue_zalloc env) (mp_ctx mpac) (take (mp_used mpac) (b_bytes b)) (mp_off mpac) of
         None \<Rightarrow> None
       | Some (ret, ctx, off) \<Rightarrow> Some (ret, mpac\<lparr> mp_ctx := ctx, mp_off := off,
           mp_parsed := (if mp_off mpac < off then (mp_parsed mpac + (off - mp_off mpac)) mod 2 ^ 64 else mp_parsed mpac) \<rparr>))"

definition msgpack_unpacker_data :: "msgpack_unpacker \<Rightarrow> msgpack_object" where
  "msgpack_unpacker_data mpac = template_data (mp_ctx mpac)"

definition msgpack_unpacker_flush_zone :: "unp_env \<Rightarrow> unp_memory \<Rightarrow> msgpack_unpacker \<Rightarrow> (bool \<times> unp_memory \<times> msgpack_unpacker) option" where
  "msgpack_unpacker_flush_zone env m mpac =
     (if CTX_REFERENCED mpac
      then case unp_push_finalizer env m (mp_z mpac) (mp_buffer mpac) of
          None \<Rightarrow> None
        | Some (False, m) \<Rightarrow> Some (False, m, mpac)
        | Some (True, m) \<Rightarrow> map_option (\<lambda>m. (True, m, set_referenced False mpac)) (incr_count (mp_buffer mpac) m)
      else Some (True, m, mpac))"

definition msgpack_unpacker_release_zone ::
    "unp_env \<Rightarrow> unp_memory \<Rightarrow> msgpack_unpacker \<Rightarrow> (nat option \<times> unp_memory \<times> msgpack_unpacker) option" where
  "msgpack_unpacker_release_zone env m mpac = (case msgpack_unpacker_flush_zone env m mpac of
     None \<Rightarrow> None
   | Some (False, m, mpac) \<Rightarrow> Some (None, m, mpac)
   | Some (True, m, mpac) \<Rightarrow> (case unp_zone_new env m of
       (None, m) \<Rightarrow> Some (None, m, mpac)
     | (Some r, m) \<Rightarrow> Some (Some (mp_z mpac), m, mpac\<lparr> mp_z := r \<rparr>)))"

definition msgpack_unpacker_reset_zone :: "unp_memory \<Rightarrow> msgpack_unpacker \<Rightarrow> unp_memory option" where
  "msgpack_unpacker_reset_zone m mpac = unp_zone_clear m (mp_z mpac)"

definition msgpack_unpacker_reset :: "msgpack_unpacker \<Rightarrow> msgpack_unpacker" where
  "msgpack_unpacker_reset mpac = mpac\<lparr> mp_ctx := template_init (mp_ctx mpac), mp_parsed := 0 \<rparr>"

definition msgpack_unpacker_next ::
    "unp_env \<Rightarrow> unp_memory \<Rightarrow> msgpack_unpacker \<Rightarrow> msgpack_unpacked \<Rightarrow>
     (msgpack_unpack_return \<times> unp_memory \<times> msgpack_unpacker \<times> msgpack_unpacked) option" where
  "msgpack_unpacker_next env m mpac result = (case msgpack_unpacked_destroy m result of
     None \<Rightarrow> None
   | Some (m, result) \<Rightarrow> (case msgpack_unpacker_execute env m mpac of
       None \<Rightarrow> None
     | Some (ret, mpac) \<Rightarrow>
         if ret < 0 then Some (UNPACK_PARSE_ERROR, m, mpac, \<lparr> ud_zone = None, ud_data = OBJECT_NIL \<rparr>)
         else if ret = 0 then Some (UNPACK_CONTINUE, m, mpac, result)
         else case msgpack_unpacker_release_zone env m mpac of
           None \<Rightarrow> None
         | Some (zone, m, mpac) \<Rightarrow>
             Some (UNPACK_SUCCESS, m, msgpack_unpacker_reset mpac,
               \<lparr> ud_zone = zone, ud_data = msgpack_unpacker_data mpac \<rparr>)))"

text \<open>The function for data that is already in memory; \<open>off\<close> is \<^verbatim>\<open>NULL\<close> or the offset, and the result its new value.\<close>

definition msgpack_unpack_next ::
    "unp_env \<Rightarrow> unp_memory \<Rightarrow> msgpack_unpacked \<Rightarrow> bytes \<Rightarrow> nat option \<Rightarrow>
     (msgpack_unpack_return \<times> unp_memory \<times> msgpack_unpacked \<times> nat option) option" where
  "msgpack_unpack_next env m result data off = (case msgpack_unpacked_destroy m result of
     None \<Rightarrow> None
   | Some (m, result) \<Rightarrow>
       let noff = (case off of None \<Rightarrow> 0 | Some n \<Rightarrow> n)
       in if length data \<le> noff then Some (UNPACK_CONTINUE, m, result, off)
          else case (case ud_zone result of None \<Rightarrow> unp_zone_new env m | Some z \<Rightarrow> (Some z, m)) of
            (None, m) \<Rightarrow> Some (UNPACK_NOMEM_ERROR, m, result, off)
          | (Some z, m) \<Rightarrow>
              let result = result\<lparr> ud_zone := Some z \<rparr>
              in case template_execute (ue_zalloc env) fresh_context data noff of
                None \<Rightarrow> None
              | Some (e, ctx, noff) \<Rightarrow>
                  if e < 0 then map_option (\<lambda>m. (UNPACK_PARSE_ERROR, m, result\<lparr> ud_zone := None \<rparr>, off)) (unp_zone_free m z)
                  else if e = 0 then Some (UNPACK_CONTINUE, m, result, off)
                  else Some (UNPACK_SUCCESS, m, result\<lparr> ud_data := template_data ctx \<rparr>, map_option (\<lambda>_. noff) off))"

subsection \<open>References\<close>

text \<open>The references that the finalizers of all zones hold, and a memory whose counts are the references \<open>R\<close>.\<close>

definition zone_refs :: "(nat \<Rightarrow> nat list option) \<Rightarrow> nat multiset" where
  "zone_refs Z = (\<Sum>z \<in> dom Z. mset (the (Z z)))"

definition counted :: "(nat \<Rightarrow> unp_buffer option) \<Rightarrow> nat multiset \<Rightarrow> bool" where
  "counted bufs R \<longleftrightarrow> (\<forall>a. case bufs a of
     None \<Rightarrow> count R a = 0
   | Some b \<Rightarrow> unat (b_count b) = count R a \<and> 0 < count R a)"

lemma zone_refs_empty [simp]: "zone_refs Map.empty = {#}"
  by (simp add: zone_refs_def)

lemma zone_refs_new: "finite (dom Z) \<Longrightarrow> Z z = None \<Longrightarrow> zone_refs (Z(z \<mapsto> g)) = mset g + zone_refs Z"
  unfolding zone_refs_def dom_fun_upd
  by (auto simp: domIff intro!: sum.cong)

lemma zone_refs_del: "finite (dom Z) \<Longrightarrow> Z z = Some f \<Longrightarrow> zone_refs Z = mset f + zone_refs (Z(z := None))"
  using zone_refs_new [of "Z(z := None)" z f] by (simp add: map_upd_triv)

lemma zone_refs_upd: "finite (dom Z) \<Longrightarrow> Z z = Some f \<Longrightarrow> mset f + zone_refs (Z(z \<mapsto> g)) = mset g + zone_refs Z"
  using zone_refs_del [of Z z f] zone_refs_del [of "Z(z \<mapsto> g)" z g] by simp

lemma zone_refs_member: "finite (dom Z) \<Longrightarrow> Z z = Some f \<Longrightarrow> a \<in> set f \<Longrightarrow> a \<in># zone_refs Z"
  by (simp add: zone_refs_del)

lemma counted_live: "counted bufs R \<Longrightarrow> a \<in># R \<longleftrightarrow> bufs a \<noteq> None"
  by (auto simp: counted_def count_greater_zero_iff [symmetric] simp del: count_greater_zero_iff dest!: spec [of _ a] split: option.splits)

lemma counted_dom: "counted bufs R \<Longrightarrow> dom bufs = set_mset R"
  using counted_live [of bufs R] by auto

lemma counted_upd:
  assumes "counted bufs R" "\<And>x. x \<noteq> a \<Longrightarrow> count R' x = count R x"
    "case v of None \<Rightarrow> count R' a = 0 | Some b \<Rightarrow> unat (b_count b) = count R' a \<and> 0 < count R' a"
  shows "counted (bufs(a := v)) R'"
  unfolding counted_def
proof
  fix x
  show "case (bufs(a := v)) x of None \<Rightarrow> count R' x = 0 | Some b \<Rightarrow> unat (b_count b) = count R' x \<and> 0 < count R' x"
    using assms(1) [unfolded counted_def, THEN spec, of x] assms(2) [of x] assms(3)
    by (cases "x = a") (simp_all only: fun_upd_same fun_upd_other not_False_eq_True)
qed

lemma counted_at: "counted bufs R \<Longrightarrow> bufs a = Some b \<Longrightarrow> unat (b_count b) = count R a"
  by (auto simp: counted_def dest: spec [of _ a])

lemma counted_new:
  assumes "counted bufs R" "bufs a = None"
  shows "counted (bufs(a \<mapsto> \<lparr> b_count = 1, b_bytes = bs \<rparr>)) (add_mset a R)"
proof -
  have "count R a = 0" using assms by (auto simp: counted_def dest: spec [of _ a])
  then show ?thesis by (intro counted_upd [OF assms(1)]) simp_all
qed

lemma counted_bytes: "counted bufs R \<Longrightarrow> bufs a = Some b \<Longrightarrow> counted (bufs(a \<mapsto> b\<lparr> b_bytes := bs \<rparr>)) R"
  using counted_live [of bufs R a] counted_at [of bufs R a b] by (intro counted_upd) auto

text \<open>What a buffer holds.\<close>

definition held :: "unp_memory \<Rightarrow> nat \<Rightarrow> bytes option" where
  "held m a = map_option b_bytes (m_bufs m a)"

lemma decr_count_spec:
  assumes "counted (m_bufs m) (add_mset a R)"
  shows "\<exists>m'. decr_count a m = Some m' \<and> counted (m_bufs m') R \<and> m_zones m' = m_zones m
    \<and> (\<forall>x \<in># R. held m' x = held m x)"
proof -
  obtain b where b: "m_bufs m a = Some b" using counted_live [OF assms, of a] by auto
  with assms have n: "unat (b_count b) = Suc (count R a)" using counted_at by fastforce
  then have "b_count b \<noteq> 0" by auto
  then have u: "unat (b_count b - 1) = count R a" using n by (simp add: unat_minus_one)
  show ?thesis
  proof (cases "b_count b - 1 = 0")
    case True
    with u have "count R a = 0" by (metis unat_eq_0)
    then have "counted ((m_bufs m)(a := None)) R" by (intro counted_upd [OF assms]) simp_all
    with True b \<open>count R a = 0\<close> show ?thesis by (auto simp: decr_count_def held_def count_eq_zero_iff)
  next
    case False
    with u have "0 < count R a" by (metis gr0I unat_eq_0)
    with u have "counted ((m_bufs m)(a \<mapsto> b\<lparr> b_count := b_count b - 1 \<rparr>)) R" by (intro counted_upd [OF assms]) simp_all
    with False b show ?thesis by (simp add: decr_count_def held_def Let_def)
  qed
qed

lemma decr_counts_spec:
  "counted (m_bufs m) (mset as + R) \<Longrightarrow>
     \<exists>m'. fold_opt (\<lambda>m a. decr_count a m) m as = Some m' \<and> counted (m_bufs m') R \<and> m_zones m' = m_zones m
       \<and> (\<forall>x \<in># R. held m' x = held m x)"
proof (induction as arbitrary: m)
  case (Cons a as)
  then obtain m1 where m1: "decr_count a m = Some m1" "counted (m_bufs m1) (mset as + R)" "m_zones m1 = m_zones m"
    "\<forall>x \<in># mset as + R. held m1 x = held m x"
    using decr_count_spec [of m a "mset as + R"] by auto
  from Cons.IH [OF m1(2)] m1 show ?case by auto
qed simp

lemma incr_count_spec:
  assumes "counted (m_bufs m) R" "a \<in># R" "size R < 2 ^ 32 - 1"
  shows "\<exists>m'. incr_count a m = Some m' \<and> counted (m_bufs m') (add_mset a R) \<and> m_zones m' = m_zones m
    \<and> held m' = held m"
proof -
  obtain b where b: "m_bufs m a = Some b" using counted_live assms(1,2) by blast
  with assms(1) have n: "unat (b_count b) = count R a" by (rule counted_at)
  also have "\<dots> < 2 ^ 32 - 1" using assms(3) count_le_size [of R a] by simp
  finally have "unat (b_count b + 1) = Suc (count R a)" using n by (simp add: unat_word_ariths)
  then have "counted ((m_bufs m)(a \<mapsto> b\<lparr> b_count := b_count b + 1 \<rparr>)) (add_mset a R)"
    by (intro counted_upd [OF assms(1)]) simp_all
  with b show ?thesis by (auto simp: incr_count_def held_def fun_eq_iff)
qed

lemma zone_free_spec:
  assumes "counted (m_bufs m) (R + zone_refs (m_zones m))" "finite (dom (m_zones m))" "m_zones m z \<noteq> None"
  shows "\<exists>m'. unp_zone_free m z = Some m' \<and> m_zones m' = (m_zones m)(z := None)
    \<and> counted (m_bufs m') (R + zone_refs (m_zones m')) \<and> (\<forall>x \<in># R + zone_refs (m_zones m'). held m' x = held m x)"
proof -
  obtain fins where f: "m_zones m z = Some fins" using assms(3) by auto
  let ?R = "R + zone_refs ((m_zones m)(z := None))"
  have "counted (m_bufs m) (mset (rev fins) + ?R)"
    using assms(1) zone_refs_del [OF assms(2) f] by (simp add: ac_simps)
  from decr_counts_spec [OF this] obtain m' where "fold_opt (\<lambda>m a. decr_count a m) m (rev fins) = Some m'"
    "counted (m_bufs m') ?R" "m_zones m' = m_zones m" "\<forall>x \<in># ?R. held m' x = held m x" by blast
  with f show ?thesis by (simp add: unp_zone_free_def held_def)
qed

lemma push_finalizer_spec:
  assumes "finite (dom (m_zones m))" "m_zones m z = Some fins"
  shows "(\<exists>m'. unp_push_finalizer env m z a = Some (True, m') \<and> m_bufs m' = m_bufs m \<and> m_zones m' = (m_zones m)(z \<mapsto> fins @ [a])
      \<and> zone_refs (m_zones m') = add_mset a (zone_refs (m_zones m)))
    \<or> unp_push_finalizer env m z a = Some (False, m)"
  using zone_refs_upd [OF assms, of "fins @ [a]"] assms(2)
  by (auto simp: unp_push_finalizer_def)

subsection \<open>Invariant\<close>

text \<open>What the deserializer relies on: \<^verbatim>\<open>realloc\<close> keeps the content, and new blocks and zones do not lie where
  there is one already.\<close>

definition env_ok :: "unp_env \<Rightarrow> bool" where
  "env_ok env \<longleftrightarrow> realloc_ok (ue_realloc env) \<and> (\<forall>bufs a. ue_addr env bufs = Some a \<longrightarrow> bufs a = None)
     \<and> (\<forall>Z z. ue_zone env Z = Some z \<longrightarrow> Z z = None)"

definition unp_ok :: "unp_memory \<Rightarrow> msgpack_unpacker \<Rightarrow> bool" where
  "unp_ok m u \<longleftrightarrow> finite (dom (m_zones m)) \<and> counted (m_bufs m) (add_mset (mp_buffer u) (zone_refs (m_zones m)))
     \<and> m_zones m (mp_z u) \<noteq> None \<and> (\<exists>bs. held m (mp_buffer u) = Some bs \<and> length bs = mp_used u + mp_free u)
     \<and> COUNTER_SIZE \<le> mp_off u \<and> mp_off u \<le> mp_used u \<and> mp_used u + mp_free u < 2 ^ 63
     \<and> COUNTER_SIZE \<le> mp_initial u \<and> mp_initial u < 2 ^ 63
     \<and> (CTX_REFERENCED u \<or> mp_buffer u \<in># zone_refs (m_zones m) \<longrightarrow> COUNTER_SIZE < mp_off u) \<and> state_ok (mp_ctx u)"

lemma env_okD:
  assumes "env_ok env"
  shows "ue_zone env Z = Some z \<Longrightarrow> Z z = None" "unp_alloc env bufs old n = Some (a, tmp) \<Longrightarrow> bufs a = None"
    "unp_alloc env bufs old n = Some (a, tmp) \<Longrightarrow> length tmp = n \<and> n < 2 ^ 63"
    "unp_alloc env bufs old n = Some (a, tmp) \<Longrightarrow> k \<le> length old \<Longrightarrow> k \<le> n \<Longrightarrow> take k tmp = take k old"
  using assms realloc_okD [of "ue_realloc env" old n tmp]
  by (auto simp: env_ok_def unp_alloc_def split: option.splits)

text \<open>An environment in which nothing fails.\<close>

definition plenty :: "unp_env \<Rightarrow> bool" where
  "plenty env \<longleftrightarrow> (\<forall>old n. n < 2 ^ 62 \<longrightarrow> ue_realloc env old n \<noteq> None)
     \<and> (\<forall>bufs. finite (dom bufs) \<longrightarrow> ue_addr env bufs \<noteq> None)
     \<and> (\<forall>Z. finite (dom Z) \<longrightarrow> ue_zone env Z \<noteq> None) \<and> (\<forall>fins. ue_push env fins) \<and> (\<forall>n. ue_zalloc env n) \<and> ue_ctx env"

lemma plenty_alloc: "plenty env \<Longrightarrow> finite (dom bufs) \<Longrightarrow> n < 2 ^ 62 \<Longrightarrow> unp_alloc env bufs old n \<noteq> None"
  by (auto simp: plenty_def unp_alloc_def split: option.splits)

text \<open>The bytes that are not consumed yet.\<close>

definition unp_pending :: "unp_memory \<Rightarrow> msgpack_unpacker \<Rightarrow> bytes" where
  "unp_pending m u = drop (mp_off u) (take (mp_used u) (the (held m (mp_buffer u))))"

text \<open>
  What the objects of each zone need: buffers, with the bytes they had when the objects were made. They are
  covered when each of these buffers is released by a finalizer of the zone, or is the current one and marked as
  referenced, still has these bytes, and will not be written there.
\<close>

type_synonym needs = "nat \<Rightarrow> (nat \<times> bytes) set"

definition covered :: "unp_memory \<Rightarrow> msgpack_unpacker \<Rightarrow> needs \<Rightarrow> bool" where
  "covered m u needs \<longleftrightarrow> (\<forall>z a bs. (a, bs) \<in> needs z \<longrightarrow>
     (\<exists>fins. m_zones m z = Some fins \<and> (a \<in> set fins \<or> z = mp_z u \<and> a = mp_buffer u \<and> CTX_REFERENCED u))
     \<and> (\<exists>cs. held m a = Some cs \<and> take (length bs) cs = bs)
     \<and> (a = mp_buffer u \<longrightarrow> length bs \<le> mp_off u))"

definition kept :: "unp_memory \<Rightarrow> msgpack_unpacker \<Rightarrow> bytes \<Rightarrow> unp_memory \<Rightarrow> msgpack_unpacker \<Rightarrow> bool" where
  "kept m u bs m' u' \<longleftrightarrow> unp_ok m' u' \<and> unp_pending m' u' = unp_pending m u @ bs \<and> mp_z u' = mp_z u \<and> mp_initial u' = mp_initial u
     \<and> dom (m_zones m') = dom (m_zones m) \<and> with_ref False (mp_ctx u') = with_ref False (mp_ctx u)
     \<and> size (zone_refs (m_zones m')) \<le> Suc (size (zone_refs (m_zones m)))
     \<and> (\<forall>needs. covered m u needs \<longrightarrow> covered m' u' needs)"

lemma kept_refl: "unp_ok m u \<Longrightarrow> kept m u [] m u"
  by (simp add: kept_def)

lemma unp_okD:
  assumes "unp_ok m u"
  shows "finite (dom (m_zones m))" "counted (m_bufs m) (add_mset (mp_buffer u) (zone_refs (m_zones m)))"
    "m_zones m (mp_z u) \<noteq> None" "COUNTER_SIZE \<le> mp_off u" "mp_off u \<le> mp_used u" "mp_used u + mp_free u < 2 ^ 63"
    "COUNTER_SIZE \<le> mp_initial u" "mp_initial u < 2 ^ 63" "finite (dom (m_bufs m))"
    "CTX_REFERENCED u \<or> mp_buffer u \<in># zone_refs (m_zones m) \<Longrightarrow> COUNTER_SIZE < mp_off u" "state_ok (mp_ctx u)"
  using assms counted_dom [of "m_bufs m"] by (auto simp: unp_ok_def)

lemma unp_ok_buffer:
  assumes "unp_ok m u"
  obtains b where "m_bufs m (mp_buffer u) = Some b" "length (b_bytes b) = mp_used u + mp_free u"
    "held m (mp_buffer u) = Some (b_bytes b)"
  using assms by (auto simp: unp_ok_def held_def)

text \<open>Nothing needs a buffer of which nothing is consumed, or that only the unpacker refers to.\<close>

lemma needs_not_current:
  assumes "unp_ok m u" "covered m u needs" "(a, bs) \<in> needs z" "\<not> CTX_REFERENCED u" "mp_buffer u \<notin># zone_refs (m_zones m)"
  shows "a \<noteq> mp_buffer u"
proof
  assume "a = mp_buffer u"
  with assms(2-4) obtain fins where "m_zones m z = Some fins" "mp_buffer u \<in> set fins"
    unfolding covered_def by blast
  with zone_refs_member unp_okD(1) [OF assms(1)] assms(5) show False by blast
qed

lemma expand_in_place_spec:
  assumes "env_ok env" "unp_ok m u" "mp_off u = COUNTER_SIZE" "mp_free u < sz" "sz < 2 ^ 62"
  shows "\<exists>r m' u'. expand_in_place env m u sz = Some (r, m', u') \<and> kept m u [] m' u' \<and> (r \<longrightarrow> sz \<le> mp_free u')
    \<and> (plenty env \<and> length (unp_pending m u) + sz < 2 ^ 60 \<longrightarrow> r)"
proof -
  from unp_ok_buffer [OF assms(2)] obtain b
    where b: "m_bufs m (mp_buffer u) = Some b" "length (b_bytes b) = mp_used u + mp_free u"
      "held m (mp_buffer u) = Some (b_bytes b)" .
  note u = unp_okD [OF assms(2)]
  let ?R = "zone_refs (m_zones m)"
  have free: "\<not> CTX_REFERENCED u" "mp_buffer u \<notin># ?R" using u(10) assms(3) by auto
  have small: "(mp_used u + mp_free u) * 2 mod 2 ^ 64 = (mp_used u + mp_free u) * 2"
    "(sz + mp_used u) mod 2 ^ 64 = sz + mp_used u" using u(6) assms(5) by simp_all
  let ?n = "grow_size ((mp_used u + mp_free u) * 2) (sz + mp_used u)"
  let ?bufs = "(m_bufs m)(mp_buffer u := None)"
  have fin: "finite (dom ?bufs)" by (rule finite_subset [OF _ u(9)]) (auto split: if_splits)
  have eq: "expand_in_place env m u sz = (case unp_alloc env ?bufs (b_bytes b) ?n of
      None \<Rightarrow> Some (False, m, u)
    | Some (a, tmp) \<Rightarrow> Some (True, m\<lparr> m_bufs := ?bufs(a \<mapsto> b\<lparr> b_bytes := tmp \<rparr>) \<rparr>, u\<lparr> mp_buffer := a, mp_free := size_sub ?n (mp_used u) \<rparr>))"
    unfolding expand_in_place_def b(1) option.case small Let_def ..
  have nx: "sz + mp_used u \<le> ?n" by (rule grow_size_enough)
  show ?thesis
  proof (cases "unp_alloc env ?bufs (b_bytes b) ?n")
    case None
    have len: "length (unp_pending m u) = mp_used u - COUNTER_SIZE" using b assms(3) by (simp add: unp_pending_def)
    have "?n \<le> max ((mp_used u + mp_free u) * 2) (2 * (sz + mp_used u))" by (rule grow_size_bound)
    then have "?n \<le> 2 * (sz + mp_used u)" using assms(4) by simp
    then have "\<not> (length (unp_pending m u) + sz < 2 ^ 60) \<or> ?n < 2 ^ 62" unfolding len COUNTER_SIZE_def by auto
    with None have "\<not> (plenty env \<and> length (unp_pending m u) + sz < 2 ^ 60)" using plenty_alloc fin by blast
    with None kept_refl [OF assms(2)] show ?thesis unfolding eq by auto
  next
    case (Some r)
    then obtain a tmp where Some: "unp_alloc env ?bufs (b_bytes b) ?n = Some (a, tmp)" by (cases r) simp
    have tmp: "length tmp = ?n" "?n < 2 ^ 63" "take (mp_used u) tmp = take (mp_used u) (b_bytes b)"
      using env_okD(3,4) [OF assms(1) Some] b(2) nx by simp_all
    have fresh: "?bufs a = None" by (rule env_okD(2) [OF assms(1) Some])
    have cnt: "count ?R (mp_buffer u) = 0" using free(2) by (simp add: count_eq_zero_iff)
    have bufs: "counted ?bufs ?R" by (rule counted_upd [OF u(2)]) (simp_all add: cnt)
    have "count ?R a = 0" using bufs fresh by (auto simp: counted_def dest: spec [of _ a])
    then have c: "counted (?bufs(a \<mapsto> b\<lparr> b_bytes := tmp \<rparr>)) (add_mset a ?R)"
      by (intro counted_upd [OF bufs]) (use counted_at [OF u(2) b(1)] cnt in simp_all)
    have na: "a \<notin># ?R" using \<open>count ?R a = 0\<close> by (simp add: count_eq_zero_iff)
    let ?m = "m\<lparr> m_bufs := ?bufs(a \<mapsto> b\<lparr> b_bytes := tmp \<rparr>) \<rparr>"
    let ?u = "u\<lparr> mp_buffer := a, mp_free := ?n - mp_used u \<rparr>"
    have h: "held ?m a = Some tmp" by (simp add: held_def)
    have ok: "unp_ok ?m ?u" using u c nx tmp(1,2) h free(1) na by (simp add: unp_ok_def)
    have pend: "unp_pending ?m ?u = unp_pending m u" using b(3) h tmp(3) by (simp add: unp_pending_def)
    have "covered ?m ?u needs" if cov: "covered m u needs" for needs
      unfolding covered_def
    proof (intro allI impI)
      fix z x bs assume x: "(x, bs) \<in> needs z"
      from needs_not_current [OF assms(2) cov x free] have ne: "x \<noteq> mp_buffer u" .
      from cov [unfolded covered_def, rule_format, OF x] ne obtain fins cs
        where f: "m_zones m z = Some fins" "x \<in> set fins" "held m x = Some cs" "take (length bs) cs = bs" by blast
      then have "x \<in># ?R" using zone_refs_member u(1) by blast
      then have "x \<noteq> a" using na by auto
      with ne have "held ?m x = held m x" by (simp add: held_def)
      with f \<open>x \<noteq> a\<close> show "(\<exists>fins. m_zones ?m z = Some fins \<and> (x \<in> set fins \<or> z = mp_z ?u \<and> x = mp_buffer ?u \<and> CTX_REFERENCED ?u))
        \<and> (\<exists>cs. held ?m x = Some cs \<and> take (length bs) cs = bs) \<and> (x = mp_buffer ?u \<longrightarrow> length bs \<le> mp_off ?u)"
        by simp
    qed
    then have "kept m u [] ?m ?u" using ok pend by (simp add: kept_def)
    moreover have "sz \<le> ?n - mp_used u" "size_sub ?n (mp_used u) = ?n - mp_used u" using nx by simp_all
    ultimately show ?thesis unfolding eq Some option.case prod.case by auto
  qed
qed

lemma expand_to_new_spec:
  assumes "env_ok env" "unp_ok m u" "sz < 2 ^ 62"
  shows "\<exists>r m' u'. expand_to_new env m u sz = Some (r, m', u') \<and> kept m u [] m' u' \<and> (r \<longrightarrow> sz \<le> mp_free u')
    \<and> (plenty env \<and> length (unp_pending m u) + sz < 2 ^ 60 \<and> mp_initial u < 2 ^ 62 \<longrightarrow> r)"
proof -
  from unp_ok_buffer [OF assms(2)] obtain b
    where b: "m_bufs m (mp_buffer u) = Some b" "length (b_bytes b) = mp_used u + mp_free u"
      "held m (mp_buffer u) = Some (b_bytes b)" .
  note u = unp_okD [OF assms(2)]
  let ?R = "zone_refs (m_zones m)" and ?k = "mp_used u - mp_off u"
  let ?n = "grow_size (mp_initial u) (sz + ?k + COUNTER_SIZE)"
  let ?p = "unp_pending m u"
  have k: "size_sub (mp_used u) (mp_off u) = ?k" "(sz + ?k + COUNTER_SIZE) mod 2 ^ 64 = sz + ?k + COUNTER_SIZE"
    using u(5,6) assms(3) by (simp_all add: COUNTER_SIZE_def)
  have p: "take ?k (drop (mp_off u) (b_bytes b)) = ?p" "length ?p = ?k"
    using b u(5) by (simp_all add: unp_pending_def drop_take)
  have nx: "sz + ?k + COUNTER_SIZE \<le> ?n" by (rule grow_size_enough)
  have fits: "\<not> length (b_bytes b) < mp_off u + ?k" using b(2) u(5) by simp
  show ?thesis
  proof (cases "unp_alloc env (m_bufs m) [] ?n")
    case None
    have "?n \<le> max (mp_initial u) (2 * (sz + ?k + COUNTER_SIZE))" by (rule grow_size_bound)
    then have "\<not> (length ?p + sz < 2 ^ 60 \<and> mp_initial u < 2 ^ 62) \<or> ?n < 2 ^ 62" unfolding p(2) COUNTER_SIZE_def by auto
    with None have "\<not> (plenty env \<and> length ?p + sz < 2 ^ 60 \<and> mp_initial u < 2 ^ 62)" using plenty_alloc u(9) by blast
    moreover have "expand_to_new env m u sz = Some (False, m, u)"
      unfolding expand_to_new_def b(1) option.case k Let_def None ..
    ultimately show ?thesis using kept_refl [OF assms(2)] by auto
  next
    case (Some r)
    then obtain a tmp0 where Some: "unp_alloc env (m_bufs m) [] ?n = Some (a, tmp0)" by (cases r) simp
    have tmp0: "length tmp0 = ?n" "?n < 2 ^ 63" using env_okD(3) [OF assms(1) Some] by simp_all
    define tmp where "tmp = take COUNTER_SIZE tmp0 @ ?p @ drop (COUNTER_SIZE + ?k) tmp0"
    have w: "block_write tmp0 COUNTER_SIZE ?p = Some tmp" using nx tmp0(1) p(2) by (simp add: block_write_def tmp_def)
    have tmp: "length tmp = ?n" "drop COUNTER_SIZE (take (COUNTER_SIZE + ?k) tmp) = ?p"
      using nx tmp0(1) p(2) by (simp_all add: tmp_def)
    let ?m = "m\<lparr> m_bufs := (m_bufs m)(a \<mapsto> \<lparr> b_count = 1, b_bytes = tmp \<rparr>) \<rparr>"
    let ?to = "\<lambda>u. u\<lparr> mp_buffer := a, mp_used := ?k + COUNTER_SIZE, mp_free := size_sub ?n (?k + COUNTER_SIZE), mp_off := COUNTER_SIZE \<rparr>"
    have fresh: "m_bufs m a = None" by (rule env_okD(2) [OF assms(1) Some])
    have notin: "a \<notin># add_mset (mp_buffer u) ?R" using counted_live [OF u(2), of a] fresh by blast
    have c: "counted (m_bufs ?m) (add_mset a (add_mset (mp_buffer u) ?R))"
      using counted_new [OF u(2) fresh, of tmp] by simp
    have eq: "expand_to_new env m u sz = (if CTX_REFERENCED u
        then case unp_push_finalizer env ?m (mp_z u) (mp_buffer u) of
            None \<Rightarrow> None
          | Some (False, m') \<Rightarrow> Some (False, m'\<lparr> m_bufs := (m_bufs m')(a := None) \<rparr>, u)
          | Some (True, m') \<Rightarrow> Some (True, m', ?to (set_referenced False u))
        else map_option (\<lambda>m'. (True, m', ?to u)) (decr_count (mp_buffer u) ?m))"
      unfolding expand_to_new_def b(1) option.case k Let_def Some prod.case if_not_P [OF fits] p(1) w ..
    have room: "sz \<le> ?n - (?k + COUNTER_SIZE)" "size_sub ?n (?k + COUNTER_SIZE) = ?n - (?k + COUNTER_SIZE)" using nx by simp_all
    have ok: "unp_ok m' (?to v) \<and> unp_pending m' (?to v) = ?p"
      if "finite (dom (m_zones m'))" "counted (m_bufs m') (add_mset a (zone_refs (m_zones m')))" "m_zones m' (mp_z v) \<noteq> None"
        "held m' a = Some tmp" "a \<notin># zone_refs (m_zones m')" "\<not> CTX_REFERENCED v" "mp_initial v = mp_initial u"
        "state_ok (mp_ctx v)" for m' v
      using that u(7,8) tmp nx tmp0(2) by (simp add: unp_ok_def unp_pending_def room(2) add.commute)
    have cov: "covered m' (?to v) needs"
      if cm: "covered m u needs" and z: "mp_z v = mp_z u" "\<not> CTX_REFERENCED v"
        and h: "\<And>x. x \<in># zone_refs (m_zones m') \<Longrightarrow> held m' x = held m x" "finite (dom (m_zones m'))"
        and fr: "a \<notin># zone_refs (m_zones m')"
        and f: "\<And>zz x fins. m_zones m zz = Some fins \<Longrightarrow> x \<in> set fins \<or> zz = mp_z u \<and> x = mp_buffer u \<and> CTX_REFERENCED u \<Longrightarrow>
          \<exists>fins'. m_zones m' zz = Some fins' \<and> x \<in> set fins'" for m' v needs
      unfolding covered_def
    proof (intro allI impI)
      fix zz x bs assume x: "(x, bs) \<in> needs zz"
      with cm obtain fins cs where "m_zones m zz = Some fins" "x \<in> set fins \<or> zz = mp_z u \<and> x = mp_buffer u \<and> CTX_REFERENCED u"
        "held m x = Some cs" "take (length bs) cs = bs" unfolding covered_def by blast
      moreover from f [OF this(1,2)] obtain fins' where fins': "m_zones m' zz = Some fins'" "x \<in> set fins'" by blast
      then have "x \<in># zone_refs (m_zones m')" using zone_refs_member h(2) by blast
      with fr have "x \<noteq> a" "held m' x = held m x" using h(1) by auto
      ultimately show "(\<exists>fins. m_zones m' zz = Some fins \<and> (x \<in> set fins \<or> zz = mp_z (?to v) \<and> x = mp_buffer (?to v) \<and> CTX_REFERENCED (?to v)))
        \<and> (\<exists>cs. held m' x = Some cs \<and> take (length bs) cs = bs) \<and> (x = mp_buffer (?to v) \<longrightarrow> length bs \<le> mp_off (?to v))"
        using fins' by simp
    qed
    show ?thesis
    proof (cases "CTX_REFERENCED u")
      case False
      have "counted (m_bufs ?m) (add_mset (mp_buffer u) (add_mset a ?R))" using c by (simp add: add_mset_commute)
      from decr_count_spec [OF this] obtain m' where m': "decr_count (mp_buffer u) ?m = Some m'"
        "counted (m_bufs m') (add_mset a ?R)" "m_zones m' = m_zones m" "\<forall>x \<in># add_mset a ?R. held m' x = held ?m x" by auto
      have h: "held m' a = Some tmp" "\<And>x. x \<in># ?R \<Longrightarrow> held m' x = held m x"
        using m'(4) notin by (auto simp: held_def)
      have k: "unp_ok m' (?to u) \<and> unp_pending m' (?to u) = ?p"
        by (rule ok) (use u(1,3,11) m'(2,3) h(1) notin False in simp_all)
      moreover have "covered m' (?to u) needs" if "covered m u needs" for needs
        by (rule cov [OF that refl False]) (use h(2) m'(3) u(1) notin False in auto)
      ultimately have "kept m u [] m' (?to u)" by (simp add: kept_def m'(3))
      moreover have "expand_to_new env m u sz = Some (True, m', ?to u)" using False by (simp add: eq m'(1))
      moreover have "sz \<le> mp_free (?to u)" using room by simp
      ultimately show ?thesis by blast
    next
      case True
      obtain fins where fins: "m_zones ?m (mp_z u) = Some fins" using u(3) by auto
      have fin: "finite (dom (m_zones ?m))" using u(1) by simp
      from push_finalizer_spec [OF fin fins, of env "mp_buffer u"] show ?thesis
      proof (elim disjE exE conjE)
        fix m' assume m': "unp_push_finalizer env ?m (mp_z u) (mp_buffer u) = Some (True, m')" "m_bufs m' = m_bufs ?m"
          "m_zones m' = (m_zones ?m)(mp_z u \<mapsto> fins @ [mp_buffer u])" "zone_refs (m_zones m') = add_mset (mp_buffer u) (zone_refs (m_zones ?m))"
        let ?v = "set_referenced False u"
        have h: "held m' a = Some tmp" "\<And>x. x \<noteq> a \<Longrightarrow> held m' x = held m x" by (auto simp: held_def m'(2))
        have hz: "held m' x = held m x" if "x \<in># zone_refs (m_zones m')" for x
          by (rule h(2)) (use that m'(4) notin in auto)
        have v: "\<not> CTX_REFERENCED ?v" "mp_z ?v = mp_z u" "mp_initial ?v = mp_initial u" "state_ok (mp_ctx ?v)"
          using u(11) by (simp_all add: set_referenced_def state_ok_def)
        have "unp_ok m' (?to ?v) \<and> unp_pending m' (?to ?v) = ?p"
          by (rule ok) (use u(1,11) c m' h(1) notin v in simp_all)
        moreover have "covered m' (?to ?v) needs" if "covered m u needs" for needs
          by (rule cov [OF that v(2,1)]) (use hz m'(3,4) u(1) notin fins in \<open>auto split: if_splits\<close>)
        moreover have "with_ref False (mp_ctx (?to ?v)) = with_ref False (mp_ctx u)" by (simp add: set_referenced_def with_ref_def)
        moreover have "dom (m_zones m') = dom (m_zones m)" using fins by (auto simp: m'(3))
        ultimately have "kept m u [] m' (?to ?v)" using v by (simp add: kept_def m'(4))
        moreover have "expand_to_new env m u sz = Some (True, m', ?to ?v)" using True by (simp add: eq m'(1))
        moreover have "sz \<le> mp_free (?to ?v)" using room by simp
        ultimately show ?thesis by blast
      next
        assume no: "unp_push_finalizer env ?m (mp_z u) (mp_buffer u) = Some (False, ?m)"
        then have "\<not> plenty env" using fins by (auto simp: unp_push_finalizer_def plenty_def split: if_splits)
        moreover have "?m\<lparr> m_bufs := (m_bufs ?m)(a := None) \<rparr> = m" using fresh by (cases m) (simp add: fun_upd_idem)
        ultimately show ?thesis using True kept_refl [OF assms(2)]
          by (intro exI [of _ False] exI [of _ m] exI [of _ u]) (simp add: eq no)
      qed
    qed
  qed
qed

lemma kept_trans:
  assumes "kept m u bs m1 u1" "kept m1 u1 cs m2 u2" "zone_refs (m_zones m1) = zone_refs (m_zones m)"
  shows "kept m u (bs @ cs) m2 u2"
  using assms by (simp add: kept_def)

text \<open>A buffer that is consumed and to which nothing else refers starts again from the front.\<close>

lemma rewind_kept:
  assumes "unp_ok m u" "mp_used u = mp_off u" "get_count (mp_buffer u) m = Some 1" "\<not> CTX_REFERENCED u"
  defines "u' \<equiv> u\<lparr> mp_free := (mp_free u + size_sub (mp_used u) COUNTER_SIZE) mod 2 ^ 64, mp_used := COUNTER_SIZE, mp_off := COUNTER_SIZE \<rparr>"
  shows "kept m u [] m u'" "mp_off u' = COUNTER_SIZE"
proof -
  from unp_ok_buffer [OF assms(1)] obtain b
    where b: "m_bufs m (mp_buffer u) = Some b" "length (b_bytes b) = mp_used u + mp_free u"
      "held m (mp_buffer u) = Some (b_bytes b)" .
  note u = unp_okD [OF assms(1)]
  let ?R = "zone_refs (m_zones m)"
  have free: "mp_free u' = mp_free u + mp_used u - COUNTER_SIZE" using u(4-6) by (simp add: u'_def)
  have "unat (b_count b) = 1" using assms(3) b(1) by (simp add: get_count_def)
  then have "count ?R (mp_buffer u) = 0" using counted_at [OF u(2) b(1)] by simp
  then have no: "mp_buffer u \<notin># ?R" by (simp add: count_eq_zero_iff)
  have "unp_ok m u'" using u b(2,3) free no assms(4) by (simp add: unp_ok_def) (simp add: u'_def)
  moreover have "unp_pending m u' = unp_pending m u" using assms(2) b by (simp add: unp_pending_def u'_def)
  moreover have "covered m u' needs" if cov: "covered m u needs" for needs
    unfolding covered_def
  proof (intro allI impI)
    fix z x bs assume x: "(x, bs) \<in> needs z"
    from needs_not_current [OF assms(1) cov x assms(4) no] have "x \<noteq> mp_buffer u" .
    with cov [unfolded covered_def, rule_format, OF x]
    show "(\<exists>fins. m_zones m z = Some fins \<and> (x \<in> set fins \<or> z = mp_z u' \<and> x = mp_buffer u' \<and> CTX_REFERENCED u'))
      \<and> (\<exists>cs. held m x = Some cs \<and> take (length bs) cs = bs) \<and> (x = mp_buffer u' \<longrightarrow> length bs \<le> mp_off u')"
      by (simp add: u'_def)
  qed
  ultimately show "kept m u [] m u'" by (simp add: kept_def u'_def)
qed (simp add: u'_def)

lemma reserve_spec:
  assumes "env_ok env" "unp_ok m u" "sz < 2 ^ 62"
  shows "\<exists>r m' u'. msgpack_unpacker_reserve_buffer env m u sz = Some (r, m', u') \<and> kept m u [] m' u' \<and> (r \<longrightarrow> sz \<le> mp_free u')
    \<and> (plenty env \<and> length (unp_pending m u) + sz < 2 ^ 60 \<and> mp_initial u < 2 ^ 62 \<longrightarrow> r)"
proof (cases "sz \<le> mp_free u")
  case True
  with kept_refl [OF assms(2)] show ?thesis
    by (intro exI [of _ True] exI [of _ m] exI [of _ u]) (simp add: msgpack_unpacker_reserve_buffer_def)
next
  case False
  from unp_ok_buffer [OF assms(2)] obtain b where b: "m_bufs m (mp_buffer u) = Some b" .
  let ?P = "\<lambda>v. (\<exists>r m' u'. v = Some (r, m', u') \<and> kept m u [] m' u' \<and> (r \<longrightarrow> sz \<le> mp_free u')
    \<and> (plenty env \<and> length (unp_pending m u) + sz < 2 ^ 60 \<and> mp_initial u < 2 ^ 62 \<longrightarrow> r))"
  have grow: "?P (if mp_off v = COUNTER_SIZE then expand_in_place env m v sz else expand_to_new env m v sz)"
    if v: "kept m u [] m v" "mp_free v < sz" for v
  proof -
    have ok: "unp_ok m v" "unp_pending m v = unp_pending m u" "mp_initial v = mp_initial u" using v(1) by (simp_all add: kept_def)
    show ?thesis
    proof (cases "mp_off v = COUNTER_SIZE")
      case True
      from expand_in_place_spec [OF assms(1) ok(1) True v(2) assms(3)] True ok kept_trans [OF v(1)] show ?thesis by auto
    next
      case False
      from expand_to_new_spec [OF assms(1) ok(1) assms(3)] False ok kept_trans [OF v(1)] show ?thesis by auto
    qed
  qed
  let ?rewind = "mp_used u = mp_off u \<and> b_count b = 1 \<and> \<not> CTX_REFERENCED u"
  have "?P (msgpack_unpacker_expand_buffer env m u sz)"
  proof (cases ?rewind)
    case True
    let ?u = "u\<lparr> mp_free := (mp_free u + size_sub (mp_used u) COUNTER_SIZE) mod 2 ^ 64, mp_used := COUNTER_SIZE, mp_off := COUNTER_SIZE \<rparr>"
    have "kept m u [] m ?u" by (rule rewind_kept(1) [OF assms(2)]) (use True b in \<open>simp_all add: get_count_def\<close>)
    with grow [of ?u] True b show ?thesis
      by (cases "sz \<le> mp_free ?u") (auto simp: msgpack_unpacker_expand_buffer_def get_count_def Let_def)
  next
    case no: False
    have g: "get_count (mp_buffer u) m = Some (b_count b)" using b by (simp add: get_count_def)
    have "?rewind = False" using no by blast
    then have "msgpack_unpacker_expand_buffer env m u sz
        = (if mp_off u = COUNTER_SIZE then expand_in_place env m u sz else expand_to_new env m u sz)"
      by (simp only: msgpack_unpacker_expand_buffer_def g option.case Let_def simp_thms if_False)
    with grow [OF kept_refl [OF assms(2)]] False show ?thesis by simp
  qed
  with False show ?thesis by (simp add: msgpack_unpacker_reserve_buffer_def)
qed

subsection \<open>Filling the buffer\<close>

text \<open>How a client feeds data, as the documentation asks for: reserve, write to the free space, report it.\<close>

definition unp_feed :: "unp_env \<Rightarrow> unp_memory \<Rightarrow> msgpack_unpacker \<Rightarrow> bytes \<Rightarrow> (bool \<times> unp_memory \<times> msgpack_unpacker) option" where
  "unp_feed env m mpac bs = (case msgpack_unpacker_reserve_buffer env m mpac (length bs) of
     None \<Rightarrow> None
   | Some (False, m, mpac) \<Rightarrow> Some (False, m, mpac)
   | Some (True, m, mpac) \<Rightarrow> (case msgpack_unpacker_buffer mpac of (a, ofs) \<Rightarrow> (case m_bufs m a of
       None \<Rightarrow> None
     | Some b \<Rightarrow> map_option (\<lambda>bytes. (True, m\<lparr> m_bufs := (m_bufs m)(a \<mapsto> b\<lparr> b_bytes := bytes \<rparr>) \<rparr>,
           msgpack_unpacker_buffer_consumed mpac (length bs))) (block_write (b_bytes b) ofs bs))))"

lemma feed_spec:
  assumes "env_ok env" "unp_ok m u" "length bs < 2 ^ 62"
  shows "\<exists>r m' u'. unp_feed env m u bs = Some (r, m', u') \<and> kept m u (if r then bs else []) m' u'
    \<and> (plenty env \<and> length (unp_pending m u) + length bs < 2 ^ 60 \<and> mp_initial u < 2 ^ 62 \<longrightarrow> r)"
proof -
  from reserve_spec [OF assms] obtain r m1 u1
    where r: "msgpack_unpacker_reserve_buffer env m u (length bs) = Some (r, m1, u1)" "kept m u [] m1 u1" "r \<longrightarrow> length bs \<le> mp_free u1"
      "plenty env \<and> length (unp_pending m u) + length bs < 2 ^ 60 \<and> mp_initial u < 2 ^ 62 \<longrightarrow> r" by blast
  have ok: "unp_ok m1 u1" using r(2) by (simp add: kept_def)
  note u = unp_okD [OF ok]
  from unp_ok_buffer [OF ok] obtain b
    where b: "m_bufs m1 (mp_buffer u1) = Some b" "length (b_bytes b) = mp_used u1 + mp_free u1"
      "held m1 (mp_buffer u1) = Some (b_bytes b)" .
  show ?thesis
  proof (cases r)
    case False
    with r show ?thesis by (auto simp: unp_feed_def)
  next
    case True
    define bytes where "bytes = take (mp_used u1) (b_bytes b) @ bs @ drop (mp_used u1 + length bs) (b_bytes b)"
    have w: "block_write (b_bytes b) (mp_used u1) bs = Some bytes" using True r(3) b(2) by (simp add: block_write_def bytes_def)
    let ?m = "m1\<lparr> m_bufs := (m_bufs m1)(mp_buffer u1 \<mapsto> b\<lparr> b_bytes := bytes \<rparr>) \<rparr>"
    let ?u = "msgpack_unpacker_buffer_consumed u1 (length bs)"
    have v: "mp_used ?u = mp_used u1 + length bs" "mp_free ?u = mp_free u1 - length bs"
      using u(6) True r(3) by (simp_all add: msgpack_unpacker_buffer_consumed_def)
    have same: "mp_buffer ?u = mp_buffer u1" "mp_off ?u = mp_off u1" "mp_z ?u = mp_z u1" "mp_ctx ?u = mp_ctx u1" "mp_initial ?u = mp_initial u1"
      by (simp_all add: msgpack_unpacker_buffer_consumed_def)
    have len: "length bytes = mp_used u1 + mp_free u1" using True r(3) b(2) by (simp add: bytes_def)
    have h: "held ?m x = (if x = mp_buffer u1 then Some bytes else held m1 x)" for x by (simp add: held_def)
    have "unp_ok ?m ?u"
      using u counted_bytes [OF u(2) b(1)] True r(3) len h by (simp add: unp_ok_def v same)
    moreover have "unp_pending ?m ?u = unp_pending m1 u1 @ bs"
      using b u(5) h by (simp add: unp_pending_def v same bytes_def)
    moreover have "covered ?m ?u needs" if cov: "covered m1 u1 needs" for needs
      unfolding covered_def
    proof (intro allI impI)
      fix z x ns assume "(x, ns) \<in> needs z"
      note c = cov [unfolded covered_def, rule_format, OF this]
      have "\<exists>cs. held ?m x = Some cs \<and> take (length ns) cs = ns"
      proof (cases "x = mp_buffer u1")
        case True
        with c b(3) have "take (length ns) (b_bytes b) = ns" "length ns \<le> mp_used u1" using u(5) by auto
        then have "take (length ns) bytes = ns" using b(2) by (simp add: bytes_def)
        with True h show ?thesis by simp
      next
        case False
        with c h show ?thesis by simp
      qed
      with c show "(\<exists>fins. m_zones ?m z = Some fins \<and> (x \<in> set fins \<or> z = mp_z ?u \<and> x = mp_buffer ?u \<and> CTX_REFERENCED ?u))
        \<and> (\<exists>cs. held ?m x = Some cs \<and> take (length ns) cs = ns) \<and> (x = mp_buffer ?u \<longrightarrow> length ns \<le> mp_off ?u)"
        by (simp add: same)
    qed
    ultimately have "kept m u bs ?m ?u" using r(2) by (simp add: kept_def same)
    moreover have "unp_feed env m u bs = Some (True, ?m, ?u)"
      using r(1) True b(1) w by (simp add: unp_feed_def msgpack_unpacker_buffer_def)
    ultimately show ?thesis using True by auto
  qed
qed

subsection \<open>Releasing the zone\<close>

lemma flush_spec:
  assumes "unp_ok m u" "size (zone_refs (m_zones m)) < 2 ^ 32 - 2"
  shows "\<exists>r m' u'. msgpack_unpacker_flush_zone env m u = Some (r, m', u') \<and> kept m u [] m' u' \<and> (r \<longrightarrow> \<not> CTX_REFERENCED u')
    \<and> (plenty env \<longrightarrow> r)"
proof (cases "CTX_REFERENCED u")
  case False
  with kept_refl [OF assms(1)] show ?thesis
    by (intro exI [of _ True] exI [of _ m] exI [of _ u]) (simp add: msgpack_unpacker_flush_zone_def)
next
  case True
  note u = unp_okD [OF assms(1)]
  from unp_ok_buffer [OF assms(1)] obtain b
    where b: "m_bufs m (mp_buffer u) = Some b" "length (b_bytes b) = mp_used u + mp_free u"
      "held m (mp_buffer u) = Some (b_bytes b)" .
  obtain fins where fins: "m_zones m (mp_z u) = Some fins" using u(3) by auto
  let ?R = "zone_refs (m_zones m)" and ?u = "set_referenced False u"
  from push_finalizer_spec [OF u(1) fins, of env "mp_buffer u"] show ?thesis
  proof (elim disjE exE conjE)
    fix m1 assume m1: "unp_push_finalizer env m (mp_z u) (mp_buffer u) = Some (True, m1)" "m_bufs m1 = m_bufs m"
      "m_zones m1 = (m_zones m)(mp_z u \<mapsto> fins @ [mp_buffer u])" "zone_refs (m_zones m1) = add_mset (mp_buffer u) ?R"
    have "counted (m_bufs m1) (add_mset (mp_buffer u) ?R)" "size (add_mset (mp_buffer u) ?R) < 2 ^ 32 - 1"
      using u(2) m1(2) assms(2) by simp_all
    from incr_count_spec [OF this(1) _ this(2), of "mp_buffer u"] obtain m2
      where m2: "incr_count (mp_buffer u) m1 = Some m2" "counted (m_bufs m2) (add_mset (mp_buffer u) (add_mset (mp_buffer u) ?R))"
        "m_zones m2 = m_zones m1" "held m2 = held m1" by auto
    have h: "held m2 = held m" by (simp add: m2(4) held_def fun_eq_iff m1(2))
    have zr: "zone_refs (m_zones m2) = add_mset (mp_buffer u) ?R" using m1(4) m2(3) by simp
    have ok: "unp_ok m2 ?u"
      using u m2(2) b(2,3) h True unfolding unp_ok_def zr by (simp add: m2(3) m1(3) set_referenced_def state_ok_def)
    have pend: "unp_pending m2 ?u = unp_pending m u" by (simp add: unp_pending_def h set_referenced_def)
    have "covered m2 ?u needs" if cov: "covered m u needs" for needs
      unfolding covered_def
    proof (intro allI impI)
      fix z x bs assume "(x, bs) \<in> needs z"
      note c = cov [unfolded covered_def, rule_format, OF this]
      then obtain fs where fs: "m_zones m z = Some fs" "x \<in> set fs \<or> z = mp_z u \<and> x = mp_buffer u" by blast
      then have "\<exists>fs'. m_zones m2 z = Some fs' \<and> x \<in> set fs'" using fins by (auto simp: m2(3) m1(3))
      with c show "(\<exists>fins. m_zones m2 z = Some fins \<and> (x \<in> set fins \<or> z = mp_z ?u \<and> x = mp_buffer ?u \<and> CTX_REFERENCED ?u))
        \<and> (\<exists>cs. held m2 x = Some cs \<and> take (length bs) cs = bs) \<and> (x = mp_buffer ?u \<longrightarrow> length bs \<le> mp_off ?u)"
        by (auto simp: h set_referenced_def)
    qed
    moreover have "dom (m_zones m2) = dom (m_zones m)" using fins by (auto simp: m2(3) m1(3))
    ultimately have "kept m u [] m2 ?u"
      using ok pend zr by (simp add: kept_def) (simp add: set_referenced_def with_ref_def)
    moreover have "msgpack_unpacker_flush_zone env m u = Some (True, m2, ?u)"
      using True m1(1) m2(1) by (simp add: msgpack_unpacker_flush_zone_def)
    ultimately show ?thesis by (auto simp: set_referenced_def)
  next
    assume no: "unp_push_finalizer env m (mp_z u) (mp_buffer u) = Some (False, m)"
    then have "\<not> plenty env" using fins by (auto simp: unp_push_finalizer_def plenty_def split: if_splits)
    with True no kept_refl [OF assms(1)] show ?thesis
      by (intro exI [of _ False] exI [of _ m] exI [of _ u]) (simp add: msgpack_unpacker_flush_zone_def)
  qed
qed

text \<open>The zone that is handed out holds every buffer its objects need.\<close>

lemma release_spec:
  assumes "env_ok env" "unp_ok m u" "size (zone_refs (m_zones m)) < 2 ^ 32 - 2"
  shows "\<exists>zo m' u'. msgpack_unpacker_release_zone env m u = Some (zo, m', u') \<and> unp_ok m' u' \<and> unp_pending m' u' = unp_pending m u
    \<and> mp_initial u' = mp_initial u \<and> with_ref False (mp_ctx u') = with_ref False (mp_ctx u)
    \<and> size (zone_refs (m_zones m')) \<le> Suc (size (zone_refs (m_zones m))) \<and> (\<forall>needs. covered m u needs \<longrightarrow> covered m' u' needs)
    \<and> (case zo of None \<Rightarrow> mp_z u' = mp_z u \<and> dom (m_zones m') = dom (m_zones m)
        | Some z \<Rightarrow> z = mp_z u \<and> m_zones m (mp_z u') = None \<and> dom (m_zones m') = insert (mp_z u') (dom (m_zones m)))
    \<and> (plenty env \<longrightarrow> zo \<noteq> None)"
proof -
  from flush_spec [OF assms(2,3), of env] obtain r m1 u1 where f: "msgpack_unpacker_flush_zone env m u = Some (r, m1, u1)"
    "kept m u [] m1 u1" "r \<longrightarrow> \<not> CTX_REFERENCED u1" "plenty env \<longrightarrow> r" by blast
  note k = f(2) [unfolded kept_def]
  show ?thesis
  proof (cases "r \<and> ue_zone env (m_zones m1) \<noteq> None")
    case False
    have "\<not> plenty env"
    proof
      assume "plenty env"
      moreover have "finite (dom (m_zones m1))" using k unp_okD(1) by blast
      ultimately show False using False f(4) by (auto simp: plenty_def)
    qed
    moreover have "msgpack_unpacker_release_zone env m u = Some (None, m1, u1)"
      using f(1) False by (cases r) (auto simp: msgpack_unpacker_release_zone_def unp_zone_new_def)
    ultimately show ?thesis using k by simp
  next
    case True
    then obtain z where r: "\<not> CTX_REFERENCED u1" "ue_zone env (m_zones m1) = Some z" "r" using f(3) by auto
    have new: "m_zones m1 z = None" using env_okD(1) [OF assms(1) r(2)] .
    let ?m = "m1\<lparr> m_zones := (m_zones m1)(z \<mapsto> []) \<rparr>" and ?u = "u1\<lparr> mp_z := z \<rparr>"
    have ok1: "unp_ok m1 u1" using k by blast
    note u = unp_okD [OF ok1]
    have h: "held ?m = held m1" by (simp add: held_def fun_eq_iff)
    have zr: "zone_refs (m_zones ?m) = zone_refs (m_zones m1)" using zone_refs_new [OF u(1) new, of "[]"] by simp
    have "unp_ok ?m ?u" using u ok1 unfolding unp_ok_def zr h by simp
    moreover have "unp_pending ?m ?u = unp_pending m1 u1" by (simp add: unp_pending_def h)
    moreover have "covered ?m ?u needs" if "covered m u needs" for needs
    proof -
      have "covered m1 u1 needs" using k that by blast
      then show ?thesis using r(1) new unfolding covered_def h by fastforce
    qed
    moreover have "msgpack_unpacker_release_zone env m u = Some (Some (mp_z u1), ?m, ?u)"
      using f(1) r by (simp add: msgpack_unpacker_release_zone_def unp_zone_new_def)
    moreover have "m_zones m z = None" using new k by (metis domIff)
    ultimately show ?thesis using k zr by simp
  qed
qed

subsection \<open>Running the machine\<close>

text \<open>The references an object of the current zone may hold after a run.\<close>

definition note_needs :: "unp_memory \<Rightarrow> msgpack_unpacker \<Rightarrow> needs \<Rightarrow> needs" where
  "note_needs m u needs = (if CTX_REFERENCED u
     then needs(mp_z u := insert (mp_buffer u, take (mp_off u) (the (held m (mp_buffer u)))) (needs (mp_z u))) else needs)"

lemma pending_split:
  assumes "unp_ok m u" "m_bufs m (mp_buffer u) = Some b"
  shows "take (mp_used u) (b_bytes b) = take (mp_off u) (b_bytes b) @ unp_pending m u"
    "length (take (mp_off u) (b_bytes b)) = mp_off u" "length (unp_pending m u) = mp_used u - mp_off u"
proof -
  have l: "length (b_bytes b) = mp_used u + mp_free u" "held m (mp_buffer u) = Some (b_bytes b)"
    using assms by (auto simp: unp_ok_def held_def)
  note u = unp_okD [OF assms(1)]
  show "take (mp_used u) (b_bytes b) = take (mp_off u) (b_bytes b) @ unp_pending m u"
    using u(5) l append_take_drop_id [of "mp_off u" "take (mp_used u) (b_bytes b)"]
    by (simp add: unp_pending_def min_absorb1 del: append_take_drop_id)
  show "length (take (mp_off u) (b_bytes b)) = mp_off u" using u(5) l by simp
  show "length (unp_pending m u) = mp_used u - mp_off u" using l by (simp add: unp_pending_def)
qed

text \<open>The unpacker after a run, with the context reset where a value was finished.\<close>

definition settled :: "int \<Rightarrow> msgpack_unpacker \<Rightarrow> msgpack_unpacker" where
  "settled ret u = (if ret = 1 then msgpack_unpacker_reset u else u)"

lemma execute_spec:
  assumes "unp_ok m u"
  shows "case template_execute (ue_zalloc env) (mp_ctx u) (unp_pending m u) 0 of
      None \<Rightarrow> msgpack_unpacker_execute env m u = None
    | Some (ret, c, k) \<Rightarrow> \<exists>u'. msgpack_unpacker_execute env m u = Some (ret, u') \<and> mp_ctx u' = c \<and> mp_z u' = mp_z u
        \<and> mp_initial u' = mp_initial u \<and> mp_buffer u' = mp_buffer u \<and> k \<le> length (unp_pending m u)
        \<and> unp_ok m (settled ret u') \<and> unp_pending m (settled ret u') = drop k (unp_pending m u)
        \<and> (\<forall>needs. covered m u needs \<longrightarrow> covered m (settled ret u') (note_needs m u' needs))"
proof -
  from unp_ok_buffer [OF assms] obtain b
    where b: "m_bufs m (mp_buffer u) = Some b" "length (b_bytes b) = mp_used u + mp_free u"
      "held m (mp_buffer u) = Some (b_bytes b)" .
  note u = unp_okD [OF assms] and p = pending_split [OF assms b(1)]
  let ?z = "ue_zalloc env"
  have e: "template_execute ?z (mp_ctx u) (take (mp_used u) (b_bytes b)) (mp_off u)
      = moved (mp_off u) (template_execute ?z (mp_ctx u) (unp_pending m u) 0)"
    using moved_execute [of ?z "mp_ctx u" "take (mp_off u) (b_bytes b)" "unp_pending m u" 0] p by simp
  have used: "\<not> length (b_bytes b) < mp_used u" using b(2) by simp
  show ?thesis
  proof (cases "template_execute ?z (mp_ctx u) (unp_pending m u) 0")
    case None
    with e used b(1) show ?thesis by (simp add: msgpack_unpacker_execute_def)
  next
    case (Some r)
    then obtain ret c k where r: "template_execute ?z (mp_ctx u) (unp_pending m u) 0 = Some (ret, c, k)" by (cases r) simp
    have k: "k \<le> length (unp_pending m u)" "ret \<noteq> 1 \<Longrightarrow> state_ok c" using execute_stays [OF r u(11)] by blast+
    have a: "ahead (mp_ctx u) 0 c k" using forward_execute [OF r] .
    let ?u = "u\<lparr> mp_ctx := c, mp_off := mp_off u + k, mp_parsed := (if mp_off u < mp_off u + k
      then (mp_parsed u + (mp_off u + k - mp_off u)) mod 2 ^ 64 else mp_parsed u) \<rparr>"
    have ex: "msgpack_unpacker_execute env m u = Some (ret, ?u)"
      unfolding msgpack_unpacker_execute_def b(1) option.case if_not_P [OF used] e r by simp
    have s: "mp_buffer (settled ret ?u) = mp_buffer u" "mp_used (settled ret ?u) = mp_used u" "mp_free (settled ret ?u) = mp_free u"
      "mp_off (settled ret ?u) = mp_off u + k" "mp_z (settled ret ?u) = mp_z u" "mp_initial (settled ret ?u) = mp_initial u"
      "ctx_referenced (mp_ctx (settled ret ?u)) = ctx_referenced c" "state_ok (mp_ctx (settled ret ?u))"
      using k(2) by (simp_all add: settled_def msgpack_unpacker_reset_def template_init_def) (simp add: state_ok_def)
    have "mp_off u + k \<le> mp_used u" using k(1) p(3) u(5) by simp
    moreover have "ctx_referenced c \<or> mp_buffer u \<in># zone_refs (m_zones m) \<Longrightarrow> COUNTER_SIZE < mp_off u + k"
      using u(4,10) a by (auto simp: ahead_def)
    ultimately have ok: "unp_ok m (settled ret ?u)"
      using u b(2,3) s(8) unfolding unp_ok_def s(1-7) by simp
    have pend: "unp_pending m (settled ret ?u) = drop k (unp_pending m u)"
      unfolding unp_pending_def s by (simp add: add.commute)
    have len: "length (take (mp_off u + k) (b_bytes b)) = mp_off u + k"
      using \<open>mp_off u + k \<le> mp_used u\<close> b(2) by simp
    have "covered m (settled ret ?u) (note_needs m ?u needs)" if cov: "covered m u needs" for needs
      unfolding covered_def s
    proof (intro allI impI)
      fix z x bs assume x: "(x, bs) \<in> note_needs m ?u needs z"
      show "(\<exists>fins. m_zones m z = Some fins \<and> (x \<in> set fins \<or> z = mp_z u \<and> x = mp_buffer u \<and> ctx_referenced c))
        \<and> (\<exists>cs. held m x = Some cs \<and> take (length bs) cs = bs) \<and> (x = mp_buffer u \<longrightarrow> length bs \<le> mp_off u + k)"
      proof (cases "(x, bs) \<in> needs z")
        case True
        from cov [unfolded covered_def, rule_format, OF True] a show ?thesis by (auto simp: ahead_def)
      next
        case False
        with x have "ctx_referenced c" "z = mp_z u" "x = mp_buffer u" "bs = take (mp_off u + k) (b_bytes b)"
          by (auto simp: note_needs_def b(3) split: if_splits)
        with u(3) b(3) len show ?thesis by auto
      qed
    qed
    moreover have "mp_ctx ?u = c" "mp_z ?u = mp_z u" "mp_initial ?u = mp_initial u" "mp_buffer ?u = mp_buffer u" by simp_all
    ultimately show ?thesis using ex ok pend k(1) unfolding r option.case prod.case by blast
  qed
qed

lemma loop_returns: "template_loop d z ctx p = Some (r, c, q) \<Longrightarrow> r \<in> {- 1, 0, 1}"
proof (induction d z ctx p rule: template_loop.induct)
  case (1 d z ctx p)
  from 1(2) obtain l ctx' p' where s: "template_step d z ctx p = Some (l, ctx', p')"
    by (auto simp: template_loop_eq after_def split: option.splits)
  show ?case
  proof (cases "l = Header_again \<and> p' \<noteq> length d")
    case True
    with 1(2) s have "p < p' \<and> p' < length d" "template_loop d z ctx' p' = Some (r, c, q)"
      by (auto dest: template_step_forward simp: template_loop_eq [of d z ctx p] after_def split: if_splits)
    with 1(1) [OF s refl _ refl] True show ?thesis by blast
  next
    case False
    with 1(2) s show ?thesis by (cases l) (auto simp: template_loop_eq after_def)
  qed
qed

lemma execute_returns: "template_execute z ctx d off = Some (r, c, q) \<Longrightarrow> r \<in> {- 1, 0, 1}"
  using loop_returns [of d z ctx off r c q] by (auto simp: template_execute_def split: if_splits)

subsection \<open>The state of a client\<close>

text \<open>
  A client has the memory, the unpacker, the result of the last call, the zones it took over from results, and
  knows what the objects of each zone need.
\<close>

type_synonym unp_state = "unp_memory \<times> msgpack_unpacker \<times> msgpack_unpacked \<times> nat list \<times> needs"

definition owned :: "msgpack_unpacker \<Rightarrow> msgpack_unpacked \<Rightarrow> nat list \<Rightarrow> nat list" where
  "owned u res ks = mp_z u # (case ud_zone res of None \<Rightarrow> [] | Some z \<Rightarrow> [z]) @ ks"

definition unp_inv :: "nat \<Rightarrow> unp_state \<Rightarrow> bool" where
  "unp_inv k s \<longleftrightarrow> (case s of (m, u, res, ks, needs) \<Rightarrow>
     unp_ok m u \<and> covered m u needs \<and> distinct (owned u res ks) \<and> dom (m_zones m) = set (owned u res ks)
     \<and> size (zone_refs (m_zones m)) \<le> k)"

definition forget :: "msgpack_unpacked \<Rightarrow> needs \<Rightarrow> needs" where
  "forget res needs = (case ud_zone res of None \<Rightarrow> needs | Some z \<Rightarrow> needs(z := {}))"

text \<open>Freeing a zone other than the current one.\<close>

lemma free_other_zone:
  assumes "unp_ok m u" "m_zones m z \<noteq> None" "z \<noteq> mp_z u"
  shows "\<exists>m'. unp_zone_free m z = Some m' \<and> unp_ok m' u \<and> unp_pending m' u = unp_pending m u \<and> m_zones m' = (m_zones m)(z := None)
    \<and> size (zone_refs (m_zones m')) \<le> size (zone_refs (m_zones m)) \<and> (\<forall>needs. covered m u needs \<longrightarrow> covered m' u (needs(z := {})))"
proof -
  note u = unp_okD [OF assms(1)]
  obtain fins where f: "m_zones m z = Some fins" using assms(2) by auto
  have "counted (m_bufs m) ({#mp_buffer u#} + zone_refs (m_zones m))" using u(2) by simp
  from zone_free_spec [OF this u(1) assms(2)] obtain m' where m': "unp_zone_free m z = Some m'" "m_zones m' = (m_zones m)(z := None)"
    "counted (m_bufs m') ({#mp_buffer u#} + zone_refs (m_zones m'))"
    "\<forall>x \<in># {#mp_buffer u#} + zone_refs (m_zones m'). held m' x = held m x" by blast
  have zr: "zone_refs (m_zones m) = mset fins + zone_refs (m_zones m')" using zone_refs_del [OF u(1) f] m'(2) by simp
  have h: "held m' (mp_buffer u) = held m (mp_buffer u)" using m'(4) by simp
  have fin: "finite (dom (m_zones m'))" unfolding m'(2) by (rule finite_subset [OF _ u(1)]) (auto split: if_splits)
  have "unp_ok m' u" using assms(1,3) u m'(3) h fin zr unfolding unp_ok_def by (simp add: m'(2))
  moreover have "covered m' u (needs(z := {}))" if cov: "covered m u needs" for needs
    unfolding covered_def
  proof (intro allI impI)
    fix zz x bs assume "(x, bs) \<in> (needs(z := {})) zz"
    then have x: "(x, bs) \<in> needs zz" "zz \<noteq> z" by (auto split: if_splits)
    note c = cov [unfolded covered_def, rule_format, OF x(1)]
    then obtain fs where fs: "m_zones m' zz = Some fs" "x \<in> set fs \<or> zz = mp_z u \<and> x = mp_buffer u \<and> CTX_REFERENCED u"
      using x(2) by (auto simp: m'(2))
    then have "x \<in># {#mp_buffer u#} + zone_refs (m_zones m')" using zone_refs_member [OF fin fs(1)] by auto
    then have "held m' x = held m x" using m'(4) by blast
    with fs c show "(\<exists>fins. m_zones m' zz = Some fins \<and> (x \<in> set fins \<or> zz = mp_z u \<and> x = mp_buffer u \<and> CTX_REFERENCED u))
      \<and> (\<exists>cs. held m' x = Some cs \<and> take (length bs) cs = bs) \<and> (x = mp_buffer u \<longrightarrow> length bs \<le> mp_off u)" by simp
  qed
  ultimately show ?thesis using m'(1,2) h zr by (intro exI [of _ m']) (simp add: unp_pending_def)
qed

lemma destroy_result_spec:
  assumes "unp_inv k (m, u, res, ks, needs)"
  shows "\<exists>m'. msgpack_unpacked_destroy m res = Some (m', res\<lparr> ud_zone := None, ud_data := (if ud_zone res = None then ud_data res else OBJECT_NIL) \<rparr>)
    \<and> unp_inv k (m', u, res\<lparr> ud_zone := None, ud_data := (if ud_zone res = None then ud_data res else OBJECT_NIL) \<rparr>, ks, forget res needs)
    \<and> unp_pending m' u = unp_pending m u"
proof (cases "ud_zone res")
  case None
  with assms show ?thesis by (simp add: msgpack_unpacked_destroy_def unp_inv_def owned_def forget_def)
next
  case (Some z)
  from assms Some have i: "unp_ok m u" "covered m u needs" "distinct (mp_z u # z # ks)" "dom (m_zones m) = set (mp_z u # z # ks)"
    "size (zone_refs (m_zones m)) \<le> k" by (simp_all add: unp_inv_def owned_def)
  have "z \<in> dom (m_zones m)" unfolding i(4) by simp
  then have "m_zones m z \<noteq> None" "z \<noteq> mp_z u" using i(3) by auto
  from free_other_zone [OF i(1) this] obtain m' where m': "unp_zone_free m z = Some m'" "unp_ok m' u" "unp_pending m' u = unp_pending m u"
    "m_zones m' = (m_zones m)(z := None)" "size (zone_refs (m_zones m')) \<le> size (zone_refs (m_zones m))"
    "\<forall>needs. covered m u needs \<longrightarrow> covered m' u (needs(z := {}))" by blast
  have "dom (m_zones m') = set (mp_z u # ks)" using i(3,4) by (auto simp: m'(4))
  with m' i Some show ?thesis
    by (auto simp: msgpack_unpacked_destroy_def msgpack_unpacked_init_def unp_inv_def owned_def forget_def)
qed

lemma release_reset:
  "msgpack_unpacker_release_zone env m (msgpack_unpacker_reset u)
     = map_option (\<lambda>(zo, m, u). (zo, m, msgpack_unpacker_reset u)) (msgpack_unpacker_release_zone env m u)"
proof -
  have s: "set_referenced False (msgpack_unpacker_reset u) = msgpack_unpacker_reset (set_referenced False u)"
    by (cases u, cases "mp_ctx u") (simp add: set_referenced_def msgpack_unpacker_reset_def template_init_def)
  have f: "CTX_REFERENCED (msgpack_unpacker_reset u) = CTX_REFERENCED u" "mp_z (msgpack_unpacker_reset u) = mp_z u"
    "mp_buffer (msgpack_unpacker_reset u) = mp_buffer u"
    by (simp_all add: msgpack_unpacker_reset_def template_init_def)
  have "msgpack_unpacker_flush_zone env m (msgpack_unpacker_reset u)
      = map_option (\<lambda>(r, m, u). (r, m, msgpack_unpacker_reset u)) (msgpack_unpacker_flush_zone env m u)"
    by (auto simp: msgpack_unpacker_flush_zone_def s f option.map_comp comp_def split: option.splits bool.splits)
  then show ?thesis
    by (auto simp: msgpack_unpacker_release_zone_def msgpack_unpacker_reset_def split: option.splits bool.splits prod.splits)
qed

text \<open>A call of \<^verbatim>\<open>msgpack_unpacker_next\<close>.\<close>

definition next_code :: "int \<Rightarrow> msgpack_unpack_return" where
  "next_code ret = (if ret < 0 then UNPACK_PARSE_ERROR else if ret = 0 then UNPACK_CONTINUE else UNPACK_SUCCESS)"

lemma next_spec:
  assumes "env_ok env" "unp_inv k (m, u, res, ks, needs)" "k < 2 ^ 32 - 2"
  shows "case template_execute (ue_zalloc env) (mp_ctx u) (unp_pending m u) 0 of
      None \<Rightarrow> msgpack_unpacker_next env m u res = None
    | Some (ret, c, q) \<Rightarrow> \<exists>m1 r1 u1 m' u' res'. msgpack_unpacked_destroy m res = Some (m1, r1) \<and> msgpack_unpacker_execute env m1 u = Some (ret, u1)
        \<and> msgpack_unpacker_next env m u res = Some (next_code ret, m', u', res')
        \<and> unp_inv (Suc k) (m', u', res', ks, note_needs m1 u1 (forget res needs))
        \<and> unp_pending m' u' = drop q (unp_pending m u) \<and> mp_initial u' = mp_initial u
        \<and> with_ref False (mp_ctx u') = with_ref False (if ret = 1 then template_init c else c)
        \<and> (ret = 1 \<longrightarrow> ud_data res' = template_data c)"
proof -
  from destroy_result_spec [OF assms(2)] obtain m1 r1 where d: "msgpack_unpacked_destroy m res = Some (m1, r1)"
    "unp_inv k (m1, u, r1, ks, forget res needs)" "unp_pending m1 u = unp_pending m u" "ud_zone r1 = None" by auto
  let ?needs = "forget res needs"
  have i: "unp_ok m1 u" "covered m1 u ?needs" "distinct (mp_z u # ks)" "dom (m_zones m1) = set (mp_z u # ks)"
    "size (zone_refs (m_zones m1)) \<le> k" using d(2,4) by (simp_all add: unp_inv_def owned_def)
  note e = execute_spec [OF i(1), of env, unfolded d(3)]
  show ?thesis
  proof (cases "template_execute (ue_zalloc env) (mp_ctx u) (unp_pending m u) 0")
    case None
    with e d(1) show ?thesis by (simp add: msgpack_unpacker_next_def)
  next
    case (Some r)
    then obtain ret c q where r: "template_execute (ue_zalloc env) (mp_ctx u) (unp_pending m u) 0 = Some (ret, c, q)" by (cases r) simp
    with e obtain u1 where u1: "msgpack_unpacker_execute env m1 u = Some (ret, u1)" "mp_ctx u1 = c" "mp_z u1 = mp_z u"
      "mp_initial u1 = mp_initial u" "unp_ok m1 (settled ret u1)" "unp_pending m1 (settled ret u1) = drop q (unp_pending m u)"
      "covered m1 (settled ret u1) (note_needs m1 u1 ?needs)" using i(2) by auto
    show ?thesis
    proof (cases "ret = 1")
      case False
      with execute_returns [OF r] have ret: "ret = 0 \<or> ret = - 1" by auto
      then obtain res' where "msgpack_unpacker_next env m u res = Some (next_code ret, m1, u1, res')" "ud_zone res' = None"
        using d(1,4) u1(1) by (auto simp: msgpack_unpacker_next_def next_code_def)
      moreover from this have "unp_inv (Suc k) (m1, u1, res', ks, note_needs m1 u1 ?needs)"
        using False u1 i by (simp add: unp_inv_def owned_def settled_def)
      ultimately show ?thesis using d(1) u1 False by (simp add: r settled_def)
    next
      case True
      let ?v = "msgpack_unpacker_reset u1"
      have v: "unp_ok m1 ?v" "unp_pending m1 ?v = drop q (unp_pending m u)" "covered m1 ?v (note_needs m1 u1 ?needs)"
        using u1(5-7) True by (simp_all add: settled_def)
      have small: "size (zone_refs (m_zones m1)) < 2 ^ 32 - 2" using i(5) assms(3) by simp
      from release_spec [OF assms(1) v(1) small] obtain zo m' v' where rel: "msgpack_unpacker_release_zone env m1 ?v = Some (zo, m', v')"
        "unp_ok m' v'" "unp_pending m' v' = drop q (unp_pending m u)" "mp_initial v' = mp_initial ?v"
        "with_ref False (mp_ctx v') = with_ref False (mp_ctx ?v)" "size (zone_refs (m_zones m')) \<le> Suc (size (zone_refs (m_zones m1)))"
        "covered m' v' (note_needs m1 u1 ?needs)"
        "case zo of None \<Rightarrow> mp_z v' = mp_z ?v \<and> dom (m_zones m') = dom (m_zones m1)
          | Some z \<Rightarrow> z = mp_z ?v \<and> m_zones m1 (mp_z v') = None \<and> dom (m_zones m') = insert (mp_z v') (dom (m_zones m1))"
        using v(2,3) by auto
      from rel(1) obtain u2 where u2: "msgpack_unpacker_release_zone env m1 u1 = Some (zo, m', u2)" "v' = msgpack_unpacker_reset u2"
        by (auto simp: release_reset)
      have data: "template_data (mp_ctx u2) = template_data c"
      proof -
        have "unp_ok m1 u \<Longrightarrow> with_ref False (mp_ctx u2) = with_ref False (mp_ctx u1)"
          using u2(1) by (auto simp: msgpack_unpacker_release_zone_def msgpack_unpacker_flush_zone_def set_referenced_def with_ref_def
              split: if_splits option.splits bool.splits prod.splits)
        then have "template_data (with_ref False (mp_ctx u2)) = template_data (with_ref False (mp_ctx u1))" using i(1) by simp
        then show ?thesis using u1(2) by simp
      qed
      let ?res = "\<lparr> ud_zone = zo, ud_data = template_data (mp_ctx u2) \<rparr>"
      have "msgpack_unpacker_next env m u res = Some (next_code ret, m', v', ?res)"
        using d(1) u1(1) u2 True by (simp add: msgpack_unpacker_next_def next_code_def msgpack_unpacker_data_def)
      moreover have "unp_inv (Suc k) (m', v', ?res, ks, note_needs m1 u1 ?needs)"
      proof -
        have z: "mp_z ?v = mp_z u" using u1(3) by (simp add: msgpack_unpacker_reset_def)
        have "distinct (owned v' ?res ks) \<and> dom (m_zones m') = set (owned v' ?res ks)"
        proof (cases zo)
          case None
          with rel(8) i(3,4) z show ?thesis by (simp add: owned_def)
        next
          case (Some z0)
          with rel(8) z have "z0 = mp_z u" "mp_z v' \<notin> dom (m_zones m1)" "dom (m_zones m') = insert (mp_z v') (dom (m_zones m1))" by auto
          with i(3,4) Some show ?thesis by (simp add: owned_def)
        qed
        with rel i(5) show ?thesis by (simp add: unp_inv_def)
      qed
      moreover have "mp_ctx ?v = template_init c" "mp_initial ?v = mp_initial u"
        using u1(2,4) by (simp_all add: msgpack_unpacker_reset_def)
      ultimately show ?thesis using d(1) u1(1) rel(3-5) data True unfolding r option.case prod.case by auto
    qed
  qed
qed

subsection \<open>What a client does\<close>

datatype unp_op = UReserve nat | UFeed bytes | UNext | UKeep | UDrop nat | UDestroy

fun unp_step :: "unp_env \<Rightarrow> unp_state \<Rightarrow> unp_op \<Rightarrow> unp_state option" where
  "unp_step env (m, u, res, ks, needs) (UReserve n) =
     map_option (\<lambda>(_, m, u). (m, u, res, ks, needs)) (msgpack_unpacker_reserve_buffer env m u n)"
| "unp_step env (m, u, res, ks, needs) (UFeed bs) =
     map_option (\<lambda>(_, m, u). (m, u, res, ks, needs)) (unp_feed env m u bs)"
| "unp_step env (m, u, res, ks, needs) UNext =
     Option.bind (msgpack_unpacked_destroy m res) (\<lambda>(m1, _).
     Option.bind (msgpack_unpacker_execute env m1 u) (\<lambda>(_, u1).
       map_option (\<lambda>(_, m, u, res'). (m, u, res', ks, note_needs m1 u1 (forget res needs)))
         (msgpack_unpacker_next env m u res)))"
| "unp_step env (m, u, res, ks, needs) UKeep =
     (let (zone, res) = msgpack_unpacked_release_zone res
      in Some (m, u, res, (case zone of None \<Rightarrow> ks | Some z \<Rightarrow> z # ks), needs))"
| "unp_step env (m, u, res, ks, needs) (UDrop i) =
     (if i < length ks
      then map_option (\<lambda>m. (m, u, res, take i ks @ drop (Suc i) ks, needs(ks ! i := {}))) (unp_zone_free m (ks ! i))
      else Some (m, u, res, ks, needs))"
| "unp_step env (m, u, res, ks, needs) UDestroy =
     map_option (\<lambda>(m, res'). (m, u, res', ks, forget res needs)) (msgpack_unpacked_destroy m res)"

definition unp_run :: "unp_env \<Rightarrow> unp_op list \<Rightarrow> unp_state \<Rightarrow> unp_state option" where
  "unp_run env ops s = fold_opt (unp_step env) s ops"

text \<open>In the end a client frees its zones and the unpacker.\<close>

definition unp_finish :: "unp_state \<Rightarrow> unp_memory option" where
  "unp_finish s = (case s of (m, u, res, ks, needs) \<Rightarrow>
     Option.bind (msgpack_unpacked_destroy m res) (\<lambda>(m, _).
     Option.bind (fold_opt unp_zone_free m ks) (\<lambda>m. msgpack_unpacker_destroy m u)))"

fun small_unp :: "unp_op \<Rightarrow> bool" where
  "small_unp (UReserve n) \<longleftrightarrow> n < 2 ^ 62"
| "small_unp (UFeed bs) \<longleftrightarrow> length bs < 2 ^ 62"
| "small_unp _ \<longleftrightarrow> True"

lemma kept_inv:
  assumes "unp_inv k (m, u, res, ks, needs)" "kept m u bs m' u'"
  shows "unp_inv (Suc k) (m', u', res, ks, needs)"
  using assms by (auto simp: unp_inv_def kept_def owned_def)

lemma unp_inv_mono: "unp_inv k s \<Longrightarrow> unp_inv (Suc k) s"
  by (auto simp: unp_inv_def split: prod.splits)

lemma unp_step_spec:
  assumes "env_ok env" "unp_inv k s" "k < 2 ^ 32 - 2" "small_unp op"
  shows "case unp_step env s op of
      Some s' \<Rightarrow> unp_inv (Suc k) s'
    | None \<Rightarrow> op = UNext \<and> template_execute (ue_zalloc env) (mp_ctx (fst (snd s))) (unp_pending (fst s) (fst (snd s))) 0 = None"
proof -
  obtain m u res ks needs where s: "s = (m, u, res, ks, needs)" by (cases s) auto
  have i: "unp_inv k (m, u, res, ks, needs)" using assms(2) s by simp
  then have ok: "unp_ok m u" "covered m u needs" "distinct (owned u res ks)" "dom (m_zones m) = set (owned u res ks)"
    "size (zone_refs (m_zones m)) \<le> k" by (simp_all add: unp_inv_def)
  show ?thesis
  proof (cases op)
    case (UReserve n)
    with reserve_spec [OF assms(1) ok(1), of n] assms(4) kept_inv [OF i] show ?thesis by (auto simp: s)
  next
    case (UFeed bs)
    with feed_spec [OF assms(1) ok(1), of bs] assms(4) kept_inv [OF i] show ?thesis by (auto simp: s)
  next
    case UNext
    show ?thesis
    proof (cases "template_execute (ue_zalloc env) (mp_ctx u) (unp_pending m u) 0")
      case None
      with next_spec [OF assms(1) i assms(3)] UNext show ?thesis by (auto simp: s split: option.splits Option.bind_splits prod.splits)
    next
      case (Some r)
      with next_spec [OF assms(1) i assms(3)] UNext show ?thesis by (cases r) (auto simp: s)
    qed
  next
    case UKeep
    have "distinct (owned u (snd (msgpack_unpacked_release_zone res)) (case ud_zone res of None \<Rightarrow> ks | Some z \<Rightarrow> z # ks))
      \<and> set (owned u (snd (msgpack_unpacked_release_zone res)) (case ud_zone res of None \<Rightarrow> ks | Some z \<Rightarrow> z # ks)) = set (owned u res ks)"
      using ok(3) by (auto simp: owned_def msgpack_unpacked_release_zone_def split: option.splits)
    with ok UKeep show ?thesis by (simp add: s msgpack_unpacked_release_zone_def unp_inv_def)
  next
    case (UDrop j)
    show ?thesis
    proof (cases "j < length ks")
      case True
      let ?z = "ks ! j" and ?ks = "take j ks @ drop (Suc j) ks"
      have "ks = take j ks @ ?z # drop (Suc j) ks" using True by (rule id_take_nth_drop)
      then have eq: "mset ks = add_mset ?z (mset ?ks)" by (metis mset_append mset.simps(2) union_mset_add_mset_right)
      have "mset (owned u res ks) = add_mset ?z (mset (owned u res ?ks))"
        by (cases "ud_zone res") (simp_all add: owned_def eq add_mset_commute)
      then have "mset (owned u res ks) = mset (?z # owned u res ?ks)" by simp
      then have d: "distinct (?z # owned u res ?ks)" "set (owned u res ks) = set (?z # owned u res ?ks)"
        using ok(3) mset_eq_imp_distinct_iff mset_eq_setD by blast+
      then have "?z \<in> dom (m_zones m)" unfolding ok(4) by simp
      then have "m_zones m ?z \<noteq> None" "?z \<noteq> mp_z u" using d(1) by (auto simp: owned_def)
      from free_other_zone [OF ok(1) this] obtain m' where m': "unp_zone_free m ?z = Some m'" "unp_ok m' u"
        "m_zones m' = (m_zones m)(?z := None)" "size (zone_refs (m_zones m')) \<le> size (zone_refs (m_zones m))"
        "covered m' u (needs(?z := {}))" using ok(2) by blast
      have "dom (m_zones m') = set (owned u res ?ks)" using d ok(4) by (auto simp: m'(3))
      then have "unp_inv (Suc k) (m', u, res, ?ks, needs(?z := {}))" using m' d ok(5) by (simp add: unp_inv_def)
      with True m'(1) UDrop show ?thesis by (simp add: s)
    next
      case False
      with UDrop unp_inv_mono [OF i] show ?thesis by (simp add: s)
    qed
  next
    case UDestroy
    from destroy_result_spec [OF i] unp_inv_mono UDestroy show ?thesis by (auto simp: s)
  qed
qed

text \<open>
  The data the unpacker has taken so far: what it consumed and what is pending. The pieces a run takes are a
  selection of the ones it is fed, since feeding fails when there is no memory.
\<close>

definition stream_ok :: "bytes \<Rightarrow> unp_state \<Rightarrow> bool" where
  "stream_ok seen s \<longleftrightarrow> (case s of (m, u, res, ks, needs) \<Rightarrow>
     frames_ok (mp_ctx u) \<and> (\<exists>past. seen = past @ unp_pending m u \<and> at_ext32 seen (mp_ctx u) (length past)))"

definition fed :: "unp_op list \<Rightarrow> bytes list" where
  "fed ops = concat (map (\<lambda>op. case op of UFeed bs \<Rightarrow> [bs] | _ \<Rightarrow> []) ops)"

lemma fed_Cons: "fed (op # ops) = (case op of UFeed bs \<Rightarrow> [bs] | _ \<Rightarrow> []) @ fed ops"
  by (simp add: fed_def)

lemma no_pieces: "[] \<in> set (subseqs xs)"
  by (induction xs) (auto simp: Let_def)

lemma at_ext32_more: "at_ext32 d ctx p \<Longrightarrow> at_ext32 (d @ e) ctx p"
  using array_get_append [of d "p - 1" _ e] by (auto simp: at_ext32_def)

lemma same_context:
  assumes "with_ref False c' = with_ref False c"
  shows "frames_ok c' = frames_ok c" "at_ext32 d c' p = at_ext32 d c p"
proof -
  have "frames_ok (with_ref False c') = frames_ok (with_ref False c)" "ctx_cs (with_ref False c') = ctx_cs (with_ref False c)"
    by (simp_all only: assms)
  then show "frames_ok c' = frames_ok c" "at_ext32 d c' p = at_ext32 d c p" by (simp_all add: at_ext32_def)
qed

lemma stream_kept:
  assumes "stream_ok seen (m, u, res, ks, needs)" "kept m u bs m' u'"
  shows "stream_ok (seen @ bs) (m', u', res', ks', needs')"
proof -
  from assms(1) obtain past where past: "frames_ok (mp_ctx u)" "seen = past @ unp_pending m u" "at_ext32 seen (mp_ctx u) (length past)"
    unfolding stream_ok_def prod.case by blast
  have k: "unp_pending m' u' = unp_pending m u @ bs" "with_ref False (mp_ctx u') = with_ref False (mp_ctx u)"
    using assms(2) by (simp_all add: kept_def)
  have "frames_ok (mp_ctx u')" "at_ext32 (seen @ bs) (mp_ctx u') (length past)"
    using past(1) at_ext32_more [OF past(3)] same_context [OF k(2)] by simp_all
  moreover have "seen @ bs = past @ unp_pending m' u'" unfolding past(2) k(1) by (rule append_assoc)
  ultimately show ?thesis unfolding stream_ok_def prod.case by blast
qed

lemma unp_next_stream:
  assumes "env_ok env" "unp_inv k (m, u, res, ks, needs)" "k < 2 ^ 32 - 2" "stream_ok seen (m, u, res, ks, needs)"
    and "\<And>q. \<not> ext32_max seen q"
  shows "\<exists>s'. unp_step env (m, u, res, ks, needs) UNext = Some s' \<and> stream_ok seen s'"
proof -
  have "unp_ok m u" using assms(2) by (simp add: unp_inv_def)
  note ok = unp_okD(11) [OF this]
  from assms(4) obtain past where past: "frames_ok (mp_ctx u)" "seen = past @ unp_pending m u" "at_ext32 seen (mp_ctx u) (length past)"
    by (auto simp: stream_ok_def)
  from execute_total_resumed [OF ok past(1) past(3) [unfolded past(2)] assms(5) [unfolded past(2)]] obtain ret c q where
    e: "template_execute (ue_zalloc env) (mp_ctx u) (unp_pending m u) 0 = Some (ret, c, q)" "frames_ok c"
      "ret \<noteq> 1 \<longrightarrow> at_ext32 seen c (length past + q)" unfolding past(2) [symmetric] by blast
  from next_spec [OF assms(1-3), of] obtain m1 r1 u1 m' u' res' where
    n: "msgpack_unpacked_destroy m res = Some (m1, r1)" "msgpack_unpacker_execute env m1 u = Some (ret, u1)"
      "msgpack_unpacker_next env m u res = Some (next_code ret, m', u', res')"
      "unp_pending m' u' = drop q (unp_pending m u)"
      "with_ref False (mp_ctx u') = with_ref False (if ret = 1 then template_init c else c)"
    unfolding e(1) option.case prod.case by blast
  have q: "q \<le> length (unp_pending m u)" using execute_stays [OF e(1) ok] by blast
  have "at_ext32 seen (if ret = 1 then template_init c else c) (length past + q)"
    using e(3) by (simp add: at_ext32_def template_init_def)
  then have "at_ext32 seen (mp_ctx u') (length (past @ take q (unp_pending m u)))"
    using q same_context(2) [OF n(5)] by (simp add: min_absorb2)
  moreover have "frames_ok (mp_ctx u')" using e(2) same_context(1) [OF n(5)] by simp
  moreover have "seen = (past @ take q (unp_pending m u)) @ unp_pending m' u'" by (simp add: past(2) n(4))
  ultimately have "stream_ok seen (m', u', res', ks, note_needs m1 u1 (forget res needs))"
    unfolding stream_ok_def prod.case by blast
  with n(1-3) show ?thesis by simp
qed

lemma unp_step_stream:
  assumes "env_ok env" "unp_inv k s" "k < 2 ^ 32 - 2" "small_unp op" "stream_ok seen s" "\<And>q. \<not> ext32_max seen q"
  shows "\<exists>s'. unp_step env s op = Some s' \<and> (stream_ok seen s' \<or> (\<exists>bs. op = UFeed bs \<and> stream_ok (seen @ bs) s'))"
proof -
  obtain m u res ks needs where s: "s = (m, u, res, ks, needs)" by (cases s) auto
  have i: "unp_inv k (m, u, res, ks, needs)" and st: "stream_ok seen (m, u, res, ks, needs)" using assms(2,5) s by simp_all
  then have ok: "unp_ok m u" "distinct (owned u res ks)" "dom (m_zones m) = set (owned u res ks)" by (simp_all add: unp_inv_def)
  show ?thesis
  proof (cases op)
    case (UReserve n)
    then have "n < 2 ^ 62" using assms(4) by simp
    from reserve_spec [OF assms(1) ok(1) this] obtain r m' u' where
      r: "msgpack_unpacker_reserve_buffer env m u n = Some (r, m', u')" "kept m u [] m' u'" by blast
    with stream_kept [OF st r(2)] UReserve show ?thesis by (simp add: s)
  next
    case (UFeed bs)
    then have "length bs < 2 ^ 62" using assms(4) by simp
    from feed_spec [OF assms(1) ok(1) this] obtain r m' u' where
      f: "unp_feed env m u bs = Some (r, m', u')" "kept m u (if r then bs else []) m' u'" by blast
    with stream_kept [OF st f(2)] UFeed show ?thesis by (cases r) (simp_all add: s)
  next
    case UNext
    with unp_next_stream [OF assms(1) i assms(3) st assms(6)] show ?thesis unfolding s by blast
  next
    case UKeep
    with st show ?thesis by (simp add: s stream_ok_def msgpack_unpacked_release_zone_def)
  next
    case (UDrop j)
    show ?thesis
    proof (cases "j < length ks")
      case True
      then have "ks ! j \<in> set ks" by simp
      then have "ks ! j \<in> dom (m_zones m)" "ks ! j \<noteq> mp_z u" using ok(2) unfolding ok(3) by (auto simp: owned_def)
      then have "m_zones m (ks ! j) \<noteq> None" "ks ! j \<noteq> mp_z u" by auto
      from free_other_zone [OF ok(1) this] obtain m' where "unp_zone_free m (ks ! j) = Some m'" "unp_pending m' u = unp_pending m u" by blast
      with True st UDrop show ?thesis by (simp add: s stream_ok_def)
    qed (use st UDrop in \<open>simp add: s\<close>)
  next
    case UDestroy
    from destroy_result_spec [OF i] obtain m' r' where "msgpack_unpacked_destroy m res = Some (m', r')" "unp_pending m' u = unp_pending m u"
      by blast
    with st UDestroy show ?thesis by (simp add: s stream_ok_def)
  qed
qed

text \<open>A run: as far as it is defined it keeps the invariant, and only \<^verbatim>\<open>msgpack_unpacker_next\<close> can be undefined.\<close>

lemma unp_run_inv:
  assumes "env_ok env" "unp_inv k s" "k + length ops < 2 ^ 32 - 2" "list_all small_unp ops"
  shows "case unp_run env ops s of None \<Rightarrow> UNext \<in> set ops | Some s' \<Rightarrow> unp_inv (k + length ops) s'"
  using assms(2-)
proof (induction ops arbitrary: k s)
  case Nil
  then show ?case by (simp add: unp_run_def)
next
  case (Cons op ops)
  have "k < 2 ^ 32 - 2" "small_unp op" using Cons.prems by simp_all
  note step = unp_step_spec [OF assms(1) Cons.prems(1) this]
  show ?case
  proof (cases "unp_step env s op")
    case None
    with step show ?thesis by (simp add: unp_run_def)
  next
    case (Some s1)
    with step have "unp_inv (Suc k) s1" by simp
    from Cons.IH [OF this] Cons.prems Some show ?thesis by (auto simp: unp_run_def split: option.splits)
  qed
qed

text \<open>A run is defined when no selection of the pieces it is fed has the header with the largest length.\<close>

lemma unp_run_stream:
  assumes "env_ok env" "unp_inv k s" "stream_ok seen s" "k + length ops < 2 ^ 32 - 2" "list_all small_unp ops"
    "\<And>fs q. fs \<in> set (subseqs (fed ops)) \<Longrightarrow> \<not> ext32_max (seen @ concat fs) q"
  shows "\<exists>s'. unp_run env ops s = Some s' \<and> (\<exists>fs \<in> set (subseqs (fed ops)). stream_ok (seen @ concat fs) s')"
  using assms(2-)
proof (induction ops arbitrary: k s seen)
  case Nil
  then show ?case by (simp add: unp_run_def fed_def)
next
  case (Cons op ops)
  have "k < 2 ^ 32 - 2" "small_unp op" using Cons.prems by simp_all
  note small = this
  have "\<not> ext32_max seen q" for q using Cons.prems(5) [OF no_pieces, of q] by simp
  from unp_step_stream [OF assms(1) Cons.prems(1) small Cons.prems(2) this] obtain s1 where
    s1: "unp_step env s op = Some s1" "stream_ok seen s1 \<or> (\<exists>bs. op = UFeed bs \<and> stream_ok (seen @ bs) s1)" by blast
  have inv: "unp_inv (Suc k) s1" using unp_step_spec [OF assms(1) Cons.prems(1) small] s1(1) by simp
  have rest: "Suc k + length ops < 2 ^ 32 - 2" "list_all small_unp ops" using Cons.prems(3,4) by simp_all
  have run: "unp_run env (op # ops) s = unp_run env ops s1" using s1(1) by (simp add: unp_run_def)
  have tail: "fs \<in> set (subseqs (fed (op # ops)))" if "fs \<in> set (subseqs (fed ops))" for fs
    using that by (cases op) (auto simp: fed_Cons Let_def)
  show ?case
  proof (cases "stream_ok seen s1")
    case True
    from Cons.IH [OF inv True rest] Cons.prems(5) tail show ?thesis unfolding run by blast
  next
    case False
    with s1(2) obtain bs where bs: "op = UFeed bs" "stream_ok (seen @ bs) s1" by blast
    have more: "bs # fs \<in> set (subseqs (fed (op # ops)))" if "fs \<in> set (subseqs (fed ops))" for fs
      using that by (simp add: bs(1) fed_Cons Let_def)
    have "\<not> ext32_max ((seen @ bs) @ concat fs) q" if "fs \<in> set (subseqs (fed ops))" for fs q
      using Cons.prems(5) [OF more [OF that], of q] by simp
    from Cons.IH [OF inv bs(2) rest this] obtain s' fs where
      "unp_run env ops s1 = Some s'" "fs \<in> set (subseqs (fed ops))" "stream_ok ((seen @ bs) @ concat fs) s'" by blast
    with more [of fs] show ?thesis unfolding run by (intro exI [of _ s'] conjI bexI [of _ "bs # fs"]) simp_all
  qed
qed

lemma free_kept_zones:
  assumes "unp_ok m u" "distinct (mp_z u # ks)" "dom (m_zones m) = set (mp_z u # ks)"
  shows "\<exists>m'. fold_opt unp_zone_free m ks = Some m' \<and> unp_ok m' u \<and> dom (m_zones m') = {mp_z u}"
  using assms
proof (induction ks arbitrary: m)
  case (Cons z ks)
  have "z \<in> dom (m_zones m)" unfolding Cons.prems(3) by simp
  then have "m_zones m z \<noteq> None" "z \<noteq> mp_z u" using Cons.prems(2) by auto
  from free_other_zone [OF Cons.prems(1) this] obtain m' where m': "unp_zone_free m z = Some m'" "unp_ok m' u"
    "m_zones m' = (m_zones m)(z := None)" by blast
  have "dom (m_zones m') = set (mp_z u # ks)" using Cons.prems(2,3) by (auto simp: m'(3))
  from Cons.IH [OF m'(2) _ this] Cons.prems(2) m'(1) show ?case by simp
qed simp

lemma finish_spec:
  assumes "unp_inv k s"
  shows "\<exists>m. unp_finish s = Some m \<and> m_bufs m = Map.empty \<and> m_zones m = Map.empty"
proof -
  obtain m u res ks needs where s: "s = (m, u, res, ks, needs)" by (cases s) auto
  from destroy_result_spec [OF assms [unfolded s]] obtain m1 r1 where d: "msgpack_unpacked_destroy m res = Some (m1, r1)"
    "unp_inv k (m1, u, r1, ks, forget res needs)" "ud_zone r1 = None" by auto
  then have i: "unp_ok m1 u" "distinct (mp_z u # ks)" "dom (m_zones m1) = set (mp_z u # ks)" by (simp_all add: unp_inv_def owned_def)
  from free_kept_zones [OF this] obtain m2 where m2: "fold_opt unp_zone_free m1 ks = Some m2" "unp_ok m2 u" "dom (m_zones m2) = {mp_z u}" by blast
  note u = unp_okD [OF m2(2)]
  have "counted (m_bufs m2) ({#mp_buffer u#} + zone_refs (m_zones m2))" using u(2) by simp
  from zone_free_spec [OF this u(1,3)] obtain m3 where m3: "unp_zone_free m2 (mp_z u) = Some m3"
    "m_zones m3 = (m_zones m2)(mp_z u := None)" "counted (m_bufs m3) ({#mp_buffer u#} + zone_refs (m_zones m3))" by blast
  have "dom (m_zones m3) = {}" using m2(3) by (auto simp: m3(2))
  then have e: "m_zones m3 = Map.empty" by simp
  then have "counted (m_bufs m3) (add_mset (mp_buffer u) {#})" using m3(3) by simp
  from decr_count_spec [OF this] obtain m4 where m4: "decr_count (mp_buffer u) m3 = Some m4" "counted (m_bufs m4) {#}" "m_zones m4 = Map.empty"
    using e by auto
  have "dom (m_bufs m4) = {}" using counted_dom [OF m4(2)] by simp
  then have "m_bufs m4 = Map.empty" by simp
  with d(1) m2(1) m3(1) m4 show ?thesis by (simp add: s unp_finish_def msgpack_unpacker_destroy_def)
qed

text \<open>Nothing is allocated before the unpacker is made.\<close>

definition no_memory :: unp_memory where
  "no_memory = \<lparr> m_bufs = Map.empty, m_zones = Map.empty \<rparr>"

lemma init_spec:
  assumes "env_ok env" "n < 2 ^ 63" "msgpack_unpacker_init env no_memory n = (Some u, m)"
  shows "unp_inv 0 (m, u, msgpack_unpacked_init, [], \<lambda>_. {}) \<and> unp_pending m u = [] \<and> mp_ctx u = fresh_context
    \<and> mp_initial u = max n COUNTER_SIZE"
proof -
  let ?n = "max n COUNTER_SIZE"
  from assms(3) obtain a bytes z where a: "unp_alloc env Map.empty [] ?n = Some (a, bytes)" "ue_zone env Map.empty = Some z"
    and u: "u = \<lparr> mp_buffer = a, mp_used = COUNTER_SIZE, mp_free = size_sub ?n COUNTER_SIZE, mp_off = COUNTER_SIZE, mp_parsed = 0,
      mp_z = z, mp_initial = ?n, mp_ctx = fresh_context \<rparr>"
    and m: "m = \<lparr> m_bufs = [a \<mapsto> \<lparr> b_count = 1, b_bytes = bytes \<rparr>], m_zones = [z \<mapsto> []] \<rparr>"
    by (auto simp: msgpack_unpacker_init_def no_memory_def unp_zone_new_def Let_def split: option.splits if_splits)
  have "length bytes = ?n \<and> ?n < 2 ^ 63" by (rule env_okD(3) [OF assms(1) a(1)])
  moreover have "zone_refs [z \<mapsto> []] = {#}" by (simp add: zone_refs_def)
  moreover have "counted [a \<mapsto> \<lparr> b_count = 1, b_bytes = bytes \<rparr>] {#a#}" by (simp add: counted_def)
  moreover have "\<not> ctx_referenced fresh_context" by (simp add: fresh_context_def template_init_def)
  ultimately have "unp_ok m u" by (simp add: unp_ok_def u m held_def COUNTER_SIZE_def)
  then show ?thesis
    by (simp add: unp_inv_def covered_def owned_def msgpack_unpacked_init_def u m \<open>zone_refs [z \<mapsto> []] = {#}\<close> unp_pending_def held_def)
qed

subsection \<open>Properties\<close>

text \<open>
  (C4) Memory safety of the streaming deserializer. Let a client reserve, feed any bytes, ask for objects, take over
  and free the zones of results in any order, with allocations that may fail at any time. Either every call is
  defined, or the bytes that were fed contain the header of a 32-bit extension with the length \<^verbatim>\<open>0xffffffff\<close>
  (whole or cut into several pieces), and it was \<^verbatim>\<open>msgpack_unpacker_next\<close> that ran into it. Wherever the run
  gets, every buffer that an object of a zone still held points into is allocated and its bytes are the ones the
  object was made from, so that no object is left dangling by growing, moving, rewinding or releasing a buffer and
  none is overwritten by new data; and freeing what the client holds releases every buffer and zone exactly once.
\<close>

theorem unpacker_memory_safe:
  assumes "env_ok env" "n < 2 ^ 62" "msgpack_unpacker_init env no_memory n = (Some u, m)" "list_all small_unp ops"
    "length ops < 2 ^ 32 - 3"
  shows "case unp_run env ops (m, u, msgpack_unpacked_init, [], \<lambda>_. {}) of
      None \<Rightarrow> UNext \<in> set ops \<and> (\<exists>fs \<in> set (subseqs (fed ops)). \<exists>q. ext32_max (concat fs) q)
    | Some (m', u', res, ks, needs) \<Rightarrow>
        (\<forall>z a bs. (a, bs) \<in> needs z \<longrightarrow> (\<exists>b. m_bufs m' a = Some b \<and> take (length bs) (b_bytes b) = bs))
      \<and> (\<exists>m2. unp_finish (m', u', res, ks, needs) = Some m2 \<and> m_bufs m2 = Map.empty \<and> m_zones m2 = Map.empty)
      \<and> (\<forall>op. small_unp op \<longrightarrow> unp_step env (m', u', res, ks, needs) op = None \<longrightarrow>
           op = UNext \<and> (\<exists>fs \<in> set (subseqs (fed ops)). \<exists>q. ext32_max (concat fs) q))"
proof -
  let ?s = "(m, u, msgpack_unpacked_init, [], \<lambda>_. {})"
  have "n < 2 ^ 63" using assms(2) by simp
  with init_spec [OF assms(1) _ assms(3)] have inv: "unp_inv 0 ?s" and "unp_pending m u = []" "mp_ctx u = fresh_context" by auto
  then have st: "stream_ok [] ?s" by (simp add: stream_ok_def at_ext32_def)
  have len: "0 + length ops < 2 ^ 32 - 2" using assms(5) by simp
  let ?max = "\<exists>fs \<in> set (subseqs (fed ops)). \<exists>q. ext32_max (concat fs) q"
  note run = unp_run_inv [OF assms(1) inv len assms(4)]
  have stream: "\<exists>s'. unp_run env ops ?s = Some s' \<and> (\<exists>fs \<in> set (subseqs (fed ops)). stream_ok (concat fs) s')" if "\<not> ?max"
    using unp_run_stream [OF assms(1) inv st len assms(4)] that unfolding append_Nil by blast
  show ?thesis
  proof (cases "unp_run env ops ?s")
    case None
    with run stream show ?thesis by (simp split: option.splits) blast
  next
    case (Some s')
    obtain m' u' res ks needs where s': "s' = (m', u', res, ks, needs)" by (cases s') auto
    have i: "unp_inv (length ops) (m', u', res, ks, needs)" using run unfolding Some s' by simp
    then have "covered m' u' needs" by (simp add: unp_inv_def)
    then have safe: "\<forall>z a bs. (a, bs) \<in> needs z \<longrightarrow> (\<exists>b. m_bufs m' a = Some b \<and> take (length bs) (b_bytes b) = bs)"
      by (fastforce simp: covered_def held_def)
    have k: "length ops < 2 ^ 32 - 2" using assms(5) by simp
    have step: "op = UNext \<and> ?max" if "small_unp op" "unp_step env (m', u', res, ks, needs) op = None" for op
    proof
      show "op = UNext" using unp_step_spec [OF assms(1) i k that(1)] that(2) by simp
      show ?max
      proof (rule ccontr)
        assume no: "\<not> ?max"
        with stream Some s' obtain fs where fs: "fs \<in> set (subseqs (fed ops))" "stream_ok (concat fs) (m', u', res, ks, needs)" by auto
        have "\<not> ext32_max (concat fs) q" for q using no fs(1) by blast
        from unp_step_stream [OF assms(1) i k that(1) fs(2) this] that(2) show False by simp
      qed
    qed
    from safe finish_spec [OF i] step show ?thesis unfolding Some s' option.case prod.case by blast
  qed
qed

definition slot_env :: unp_env where
  "slot_env = \<lparr> ue_realloc = realloc_zero 4096, ue_addr = (\<lambda>bufs. find (\<lambda>a. bufs a = None) [0, 1]),
     ue_zone = (\<lambda>Z. find (\<lambda>z. Z z = None) [0, 1]), ue_push = (\<lambda>_. True), ue_ctx = True, ue_self = True, ue_zalloc = (\<lambda>_. True) \<rparr>"

lemma unpacker_memory_safe_witness:
  "\<exists>m' u' res ks needs m2. unp_run slot_env [UFeed [0xa1, 97], UNext, UKeep]
      (snd (msgpack_unpacker_init slot_env no_memory 8), the (fst (msgpack_unpacker_init slot_env no_memory 8)), msgpack_unpacked_init, [], \<lambda>_. {})
      = Some (m', u', res, ks, needs)
    \<and> (\<forall>z a bs. (a, bs) \<in> needs z \<longrightarrow> (\<exists>b. m_bufs m' a = Some b \<and> take (length bs) (b_bytes b) = bs))
    \<and> unp_finish (m', u', res, ks, needs) = Some m2 \<and> m_bufs m2 = Map.empty \<and> m_zones m2 = Map.empty"
proof -
  let ?i = "msgpack_unpacker_init slot_env no_memory 8" and ?ops = "[UFeed [0xa1, 97], UNext, UKeep]"
  have ok: "env_ok slot_env" by (auto simp: env_ok_def slot_env_def realloc_zero_ok split: if_splits)
  note alloc = unp_alloc_def slot_env_def realloc_zero_def COUNTER_SIZE_def unp_zone_new_def no_memory_def msgpack_unpacker_init_def
  have "fst ?i \<noteq> None" by (simp add: alloc)
  then have i: "?i = (Some (the (fst ?i)), snd ?i)" by (cases ?i) auto
  have e: "template_execute (\<lambda>_. True) fresh_context [0, 0, 0, 0, 0xa1, 97] 4
    = Some (1, fresh_context\<lparr> ctx_referenced := True, ctx_cs := 32, ctx_trail := 1, ctx_root := OBJECT_STR [97] \<rparr>, 6)" by code_simp
  have zeros: "replicate 4 (0 :: u8) = [0, 0, 0, 0]" by (simp add: numeral_eq_Suc)
  have "unp_run slot_env ?ops (snd ?i, the (fst ?i), msgpack_unpacked_init, [], \<lambda>_. {}) \<noteq> None"
    by (simp add: alloc zeros e unp_run_def unp_feed_def msgpack_unpacker_reserve_buffer_def msgpack_unpacker_buffer_def block_write_def
        msgpack_unpacker_buffer_consumed_def msgpack_unpacked_destroy_def msgpack_unpacked_init_def msgpack_unpacker_execute_def
        msgpack_unpacker_next_def msgpack_unpacker_release_zone_def msgpack_unpacker_flush_zone_def unp_push_finalizer_def incr_count_def
        set_referenced_def msgpack_unpacker_reset_def msgpack_unpacked_release_zone_def)
  then obtain m' u' res ks needs
    where r: "unp_run slot_env ?ops (snd ?i, the (fst ?i), msgpack_unpacked_init, [], \<lambda>_. {}) = Some (m', u', res, ks, needs)" by auto
  have "8 < (2 :: nat) ^ 62" "list_all small_unp ?ops" "length ?ops < 2 ^ 32 - 3" by simp_all
  from unpacker_memory_safe [OF ok this(1) i this(2,3), unfolded r option.case prod.case] r show ?thesis by auto
qed

end
