(* ===== verification/MsgpackDelivery.thy ===== *)
theory MsgpackDelivery
  imports MsgpackUnpacker
begin

text \<open>
  The streaming deserializer as its clients use it: a stream of encoded objects that is fed in pieces comes out as
  the objects, each as soon as it is complete.
\<close>

subsection \<open>Delivering a stream\<close>

text \<open>A client that asks for objects until there is none complete, and one that does so for every piece it feeds.
  Every object takes at least one byte, so that the bytes at hand bound the calls.\<close>

fun unp_drain :: "unp_env \<Rightarrow> nat \<Rightarrow> unp_memory \<times> msgpack_unpacker \<times> msgpack_unpacked \<Rightarrow>
    (msgpack_object list \<times> unp_memory \<times> msgpack_unpacker \<times> msgpack_unpacked) option" where
  "unp_drain env 0 s = None"
| "unp_drain env (Suc n) (m, u, res) = (case msgpack_unpacker_next env m u res of
     Some (UNPACK_SUCCESS, m, u, res) \<Rightarrow> map_option (\<lambda>(obs, s). (ud_data res # obs, s)) (unp_drain env n (m, u, res))
   | Some (UNPACK_CONTINUE, m, u, res) \<Rightarrow> Some ([], m, u, res)
   | _ \<Rightarrow> None)"

fun unp_receive :: "unp_env \<Rightarrow> bytes list \<Rightarrow> unp_memory \<times> msgpack_unpacker \<times> msgpack_unpacked \<Rightarrow>
    (msgpack_object list \<times> unp_memory \<times> msgpack_unpacker \<times> msgpack_unpacked) option" where
  "unp_receive env [] s = Some ([], s)"
| "unp_receive env (bs # bss) (m, u, res) = (case unp_feed env m u bs of
     Some (True, m, u) \<Rightarrow> Option.bind (unp_drain env (Suc (mp_used u - mp_off u)) (m, u, res)) (\<lambda>(obs, s).
       map_option (\<lambda>(obs', s). (obs @ obs', s)) (unp_receive env bss s))
   | _ \<Rightarrow> None)"

text \<open>
  The context has consumed the bytes \<open>seen\<close> of the current value: whatever follows, the run from it is the run of
  a fresh context over these bytes and what follows.
\<close>

definition mid_value :: "(nat \<Rightarrow> bool) \<Rightarrow> template_context \<Rightarrow> bytes \<Rightarrow> bytes \<Rightarrow> bool" where
  "mid_value z ctx seen pend \<longleftrightarrow> (\<forall>e. unref (template_execute z fresh_context (seen @ pend @ e) 0)
     = moved (length seen) (unref (template_execute z ctx (pend @ e) 0)))"

lemma mid_value_start:
  assumes "with_ref False ctx = with_ref False fresh_context"
  shows "mid_value z ctx [] pend"
proof -
  have "unref (template_execute z ctx d 0) = unref (template_execute z fresh_context d 0)" for d
    using unref_execute [of z False ctx d 0] unref_execute [of z False fresh_context d 0] assms by simp
  moreover have "moved 0 r = r" for r :: "(int \<times> template_context \<times> nat) option"
    by (cases r) auto
  ultimately show ?thesis by (simp add: mid_value_def)
qed

lemma mid_value_feed: "mid_value z ctx seen pend \<Longrightarrow> mid_value z ctx seen (pend @ bs)"
  by (simp add: mid_value_def)

lemma mid_value_cong:
  assumes "mid_value z ctx seen pend" "with_ref False ctx' = with_ref False ctx"
  shows "mid_value z ctx' seen pend"
proof -
  have "unref (template_execute z ctx' d 0) = unref (template_execute z ctx d 0)" for d
    using unref_execute [of z False ctx' d 0] unref_execute [of z False ctx d 0] assms(2) by simp
  with assms(1) show ?thesis by (simp add: mid_value_def)
qed

lemma moved_moved: "moved j (moved k r) = moved (j + k) r"
  by (cases r) (auto simp: moved_def add.assoc)

lemma mid_value_continue:
  assumes "mid_value z ctx seen pend" "template_execute z ctx pend 0 = Some (0, c, k)" "state_ok ctx"
  shows "mid_value z c (seen @ take k pend) (drop k pend) \<and> k \<le> length pend"
proof -
  have r: "template_execute z ctx (pend @ e) 0 = template_execute z c (pend @ e) k" "k \<le> length pend" for e
    using execute_resume [OF assms(2,3), of e] by simp_all
  have "template_execute z c (pend @ e) k = moved k (template_execute z c (drop k pend @ e) 0)" for e
    using moved_execute [of z c "take k pend" "drop k pend @ e" 0] r(2) append_take_drop_id [of k pend]
    by (simp add: min_absorb2 del: append_take_drop_id) (metis append.assoc append_take_drop_id)
  with assms(1) r show ?thesis
    by (simp add: mid_value_def moved_moved min_absorb2) (metis append.assoc append_take_drop_id)
qed

definition unpackable :: "msgpack_object \<Rightarrow> bool" where
  "unpackable ob \<longleftrightarrow> object_ok ob \<and> fits 32 ob \<and> length (enc_obj ob) < 2 ^ 32"

lemma run_unpackable:
  assumes "unpackable ob" "\<forall>n. z n"
  shows "\<exists>c. template_execute z fresh_context (enc_obj ob @ rest) 0 = Some (1, c, length (enc_obj ob)) \<and> template_data c = ob"
  using execute_object [of z ob "enc_obj ob @ rest" "[]" rest fresh_context] assms by (auto simp: unpackable_def)

text \<open>A part of an encoding that is not all of it leaves the machine waiting.\<close>

definition incomplete :: "bytes \<Rightarrow> bool" where
  "incomplete d \<longleftrightarrow> (\<exists>ob e. unpackable ob \<and> e \<noteq> [] \<and> enc_obj ob = d @ e)"

lemma run_incomplete:
  assumes "incomplete d" "\<forall>n. z n"
  shows "\<exists>c q. template_execute z fresh_context d 0 = Some (0, c, q)"
proof (cases "d = []")
  case True
  then show ?thesis by (simp add: template_execute_def)
next
  case False
  from assms(1) obtain ob e where o: "unpackable ob" "e \<noteq> []" "enc_obj ob = d @ e" by (auto simp: incomplete_def)
  from run_unpackable [OF o(1) assms(2), of "[]"] o(3) False obtain c
    where full: "template_loop (d @ e) z fresh_context 0 = Some (1, c, length (d @ e))"
    by (auto simp: template_execute_def split: if_splits)
  have "length (d @ e) < 2 ^ 32" using o(1,3) by (simp add: unpackable_def)
  with loop_prefix [of d e z fresh_context 0] full False obtain r c' q where p: "template_loop d z fresh_context 0 = Some (r, c', q)" "q \<le> length d"
    by (auto simp: fresh_context_def template_init_def frames_ok_def)
  have "r = 0"
  proof (rule ccontr)
    assume "r \<noteq> 0"
    with loop_ended [OF p(1) this state_ok_fresh, of e] False full have "q = length (d @ e)" by simp
    with p(2) o(2) show False by simp
  qed
  with p False show ?thesis by (simp add: template_execute_def)
qed

lemma incomplete_prefix: "incomplete (d @ e) \<Longrightarrow> incomplete d"
  unfolding incomplete_def by (metis append.assoc append_is_Nil_conv)

lemma not_incomplete:
  assumes "unpackable ob"
  shows "\<not> incomplete (enc_obj ob @ rest)"
proof
  assume "incomplete (enc_obj ob @ rest)"
  from run_incomplete [OF this, of "\<lambda>_. True"] run_unpackable [OF assms, of "\<lambda>_. True" rest] show False by auto
qed

text \<open>Where the bytes seen so far end in a stream of values.\<close>

lemma stream_split:
  assumes "d @ e = concat (map enc_obj obs) @ part" "\<forall>ob \<in> set obs. unpackable ob" "incomplete part"
  shows "\<exists>done todo rest. obs = done @ todo \<and> d = concat (map enc_obj done) @ rest \<and> incomplete rest
    \<and> rest @ e = concat (map enc_obj todo) @ part"
  using assms
proof (induction obs arbitrary: d)
  case Nil
  then have "incomplete d" using incomplete_prefix [of d e] by simp
  with Nil show ?case by (intro exI [of _ "[]"] exI [of _ d]) simp
next
  case (Cons ob obs)
  show ?case
  proof (cases "length d < length (enc_obj ob)")
    case True
    with Cons.prems(1) have "take (length d) (enc_obj ob) = d"
      by (auto simp: append_eq_append_conv_if split: if_splits)
    then have "enc_obj ob = d @ drop (length d) (enc_obj ob)" by (metis append_take_drop_id)
    then have "incomplete d" using True Cons.prems(2) unfolding incomplete_def by (metis drop_eq_Nil list.set_intros(1) not_le)
    with Cons.prems(1) show ?thesis by (intro exI [of _ "[]"] exI [of _ "ob # obs"] exI [of _ d]) simp
  next
    case False
    let ?n = "length (enc_obj ob)"
    have "take ?n d = enc_obj ob" "drop ?n d @ e = concat (map enc_obj obs) @ part"
      using arg_cong [OF Cons.prems(1), of "take ?n"] arg_cong [OF Cons.prems(1), of "drop ?n"] False by simp_all
    then obtain d' where d': "d = enc_obj ob @ d'" "d' @ e = concat (map enc_obj obs) @ part" by (metis append_take_drop_id)
    from Cons.IH [OF d'(2)] Cons.prems(2,3) obtain dn todo rest
      where "obs = dn @ todo" "d' = concat (map enc_obj dn) @ rest" "incomplete rest" "rest @ e = concat (map enc_obj todo) @ part" by auto
    with d'(1) show ?thesis by (intro exI [of _ "ob # dn"] exI [of _ todo] exI [of _ rest]) simp
  qed
qed

lemma drain_spec:
  assumes "env_ok env" "plenty env" "unp_inv k (m, u, res, ks, needs)" "mid_value (ue_zalloc env) (mp_ctx u) seen (unp_pending m u)"
    "seen @ unp_pending m u = concat (map enc_obj obs) @ part" "\<forall>ob \<in> set obs. unpackable ob" "incomplete part"
    "k + length obs < 2 ^ 32 - 3" "obs \<noteq> [] \<longrightarrow> length seen < length (enc_obj (hd obs))" "length obs < n"
  shows "\<exists>m' u' res' seen' needs'. unp_drain env n (m, u, res) = Some (obs, m', u', res')
    \<and> unp_inv (Suc (k + length obs)) (m', u', res', ks, needs') \<and> mid_value (ue_zalloc env) (mp_ctx u') seen' (unp_pending m' u')
    \<and> seen' @ unp_pending m' u' = part \<and> mp_initial u' = mp_initial u"
  using assms(3-)
proof (induction obs arbitrary: k m u res needs seen n)
  case Nil
  let ?z = "ue_zalloc env" and ?p = "unp_pending m u"
  have z: "\<forall>n. ?z n" using assms(2) by (simp add: plenty_def)
  from run_incomplete [OF Nil.prems(5) z] Nil.prems(3) obtain c q where "template_execute ?z fresh_context (seen @ ?p) 0 = Some (0, c, q)" by auto
  with Nil.prems(2) [unfolded mid_value_def, THEN spec, of "[]"] obtain c' q' where e: "template_execute ?z (mp_ctx u) ?p 0 = Some (0, c', q')"
    by (cases "template_execute ?z (mp_ctx u) ?p 0") (auto simp: unref_def moved_def)
  have k: "k < 2 ^ 32 - 2" using Nil.prems(6) by simp
  from next_spec [OF assms(1) Nil.prems(1) k] e obtain m1 u1 m' u' res' where nx: "msgpack_unpacker_next env m u res = Some (UNPACK_CONTINUE, m', u', res')"
    "unp_inv (Suc k) (m', u', res', ks, note_needs m1 u1 (forget res needs))" "unp_pending m' u' = drop q' ?p" "mp_initial u' = mp_initial u"
    "with_ref False (mp_ctx u') = with_ref False c'" by (auto simp: next_code_def)
  have "state_ok (mp_ctx u)" using Nil.prems(1) by (simp add: unp_inv_def unp_ok_def)
  from mid_value_continue [OF Nil.prems(2) e this] have mv: "mid_value ?z (mp_ctx u') (seen @ take q' ?p) (unp_pending m' u')"
    unfolding nx(3) using mid_value_cong [OF _ nx(5)] by blast
  moreover have "(seen @ take q' ?p) @ unp_pending m' u' = part" using Nil.prems(3) by (simp add: nx(3))
  moreover obtain n' where "n = Suc n'" using Nil.prems(8) by (cases n) simp_all
  ultimately show ?case using nx(1,2,4) by (intro exI [of _ m'] exI [of _ u'] exI [of _ res'] exI [of _ "seen @ take q' ?p"]) auto
next
  case (Cons ob obs)
  let ?z = "ue_zalloc env" and ?p = "unp_pending m u"
  have z: "\<forall>n. ?z n" using assms(2) by (simp add: plenty_def)
  have ob: "unpackable ob" "\<forall>ob \<in> set obs. unpackable ob" using Cons.prems(4) by simp_all
  have len: "length seen < length (enc_obj ob)" using Cons.prems(7) by simp
  let ?rest = "concat (map enc_obj obs) @ part"
  have st: "seen @ ?p = enc_obj ob @ ?rest" using Cons.prems(3) by simp
  from run_unpackable [OF ob(1) z, of ?rest] obtain c where c: "template_execute ?z fresh_context (seen @ ?p) 0 = Some (1, c, length (enc_obj ob))"
    "template_data c = ob" unfolding st by blast
  with Cons.prems(2) [unfolded mid_value_def, THEN spec, of "[]"] obtain c' q where e: "template_execute ?z (mp_ctx u) ?p 0 = Some (1, c', q)"
    "length seen + q = length (enc_obj ob)" "with_ref False c' = with_ref False c"
    by (cases "template_execute ?z (mp_ctx u) ?p 0") (auto simp: unref_def moved_def)
  have data: "template_data c' = ob" using e(3) c(2) with_ref_simps(11) by metis
  have k: "k < 2 ^ 32 - 2" using Cons.prems(6) by simp
  from next_spec [OF assms(1) Cons.prems(1) k] e(1) obtain m1 u1 m' u' res' where nx: "msgpack_unpacker_next env m u res = Some (UNPACK_SUCCESS, m', u', res')"
    "unp_inv (Suc k) (m', u', res', ks, note_needs m1 u1 (forget res needs))" "unp_pending m' u' = drop q ?p" "mp_initial u' = mp_initial u"
    "with_ref False (mp_ctx u') = with_ref False (template_init c')" "ud_data res' = ob" using data by (auto simp: next_code_def)
  have "drop (length (enc_obj ob)) (seen @ ?p) = ?rest" unfolding st by simp
  then have p': "[] @ unp_pending m' u' = ?rest" unfolding nx(3) e(2) [symmetric] by simp
  have "with_ref False (template_init c') = with_ref False fresh_context" by (simp add: template_init_def fresh_context_def with_ref_def)
  then have mv: "mid_value ?z (mp_ctx u') [] (unp_pending m' u')" by (intro mid_value_start) (simp add: nx(5))
  obtain n' where n: "n = Suc n'" "length obs < n'" using Cons.prems(8) by (cases n) simp_all
  have "obs \<noteq> [] \<longrightarrow> length [] < length (enc_obj (hd obs))" using enc_obj_ne by auto
  moreover have "Suc k + length obs < 2 ^ 32 - 3" using Cons.prems(6) by simp
  ultimately obtain m2 u2 res2 seen2 needs2 where "unp_drain env n' (m', u', res') = Some (obs, m2, u2, res2)"
    "unp_inv (Suc (Suc k + length obs)) (m2, u2, res2, ks, needs2)" "mid_value ?z (mp_ctx u2) seen2 (unp_pending m2 u2)"
    "seen2 @ unp_pending m2 u2 = part" "mp_initial u2 = mp_initial u'"
    using Cons.IH [OF nx(2) mv p' ob(2) Cons.prems(5) _ _ n(2)] by blast
  then show ?case using nx(1,4,6) n(1) by (intro exI [of _ m2] exI [of _ u2] exI [of _ res2] exI [of _ seen2] exI [of _ needs2]) simp
qed

lemma objects_le_bytes: "length obs \<le> length (concat (map enc_obj obs))"
proof (induction obs)
  case (Cons ob obs)
  have "1 \<le> length (enc_obj ob)" using enc_obj_ne [of ob] by (simp add: Suc_leI)
  with Cons show ?case unfolding list.map concat.simps length_append list.size by linarith
qed simp

lemma incomplete_before:
  assumes "incomplete part" "part @ bs = concat (map enc_obj (ob # obs)) @ rest" "unpackable ob"
  shows "length part < length (enc_obj ob)"
proof (rule ccontr)
  let ?n = "length (enc_obj ob)"
  assume "\<not> ?thesis"
  then have "take ?n part = enc_obj ob" using arg_cong [OF assms(2), of "take ?n"] by simp
  then have "part = enc_obj ob @ drop ?n part" by (metis append_take_drop_id)
  with not_incomplete [OF assms(3)] assms(1) show False by metis
qed

lemma receive_spec:
  assumes "env_ok env" "plenty env" "unp_inv k (m, u, res, ks, needs)" "mid_value (ue_zalloc env) (mp_ctx u) seen (unp_pending m u)"
    "incomplete (seen @ unp_pending m u)" "(seen @ unp_pending m u) @ concat bss = concat (map enc_obj obs) @ part"
    "\<forall>ob \<in> set obs. unpackable ob" "incomplete part" "k + 2 * length bss + length obs < 2 ^ 32 - 3"
    "length (seen @ unp_pending m u) + length (concat bss) < 2 ^ 60" "mp_initial u < 2 ^ 62"
  shows "\<exists>s. unp_receive env bss (m, u, res) = Some (obs, s)"
  using assms(3-)
proof (induction bss arbitrary: k m u res needs seen obs)
  case Nil
  have "obs = []"
  proof (cases obs)
    case (Cons ob os)
    with Nil.prems(3,4,5) not_incomplete [of ob "concat (map enc_obj os) @ part"] show ?thesis by simp
  qed
  then show ?case by simp
next
  case (Cons bs bss)
  let ?z = "ue_zalloc env"
  have ok: "unp_ok m u" using Cons.prems(1) by (simp add: unp_inv_def)
  have "length bs < 2 ^ 62" "length (unp_pending m u) + length bs < 2 ^ 60" using Cons.prems(8) by simp_all
  with feed_spec [OF assms(1) ok, of bs] assms(2) Cons.prems(9) obtain m1 u1
    where f: "unp_feed env m u bs = Some (True, m1, u1)" "kept m u bs m1 u1" by auto
  have i1: "unp_inv (Suc k) (m1, u1, res, ks, needs)" by (rule kept_inv [OF Cons.prems(1) f(2)])
  have k1: "unp_pending m1 u1 = unp_pending m u @ bs" "mp_initial u1 = mp_initial u" "with_ref False (mp_ctx u1) = with_ref False (mp_ctx u)"
    "unp_ok m1 u1" using f(2) by (simp_all add: kept_def)
  have mv: "mid_value ?z (mp_ctx u1) seen (unp_pending m1 u1)"
    unfolding k1(1) by (rule mid_value_cong [OF mid_value_feed [OF Cons.prems(2)] k1(3)])
  have "(seen @ unp_pending m1 u1) @ concat bss = concat (map enc_obj obs) @ part" using Cons.prems(4) by (simp add: k1(1))
  from stream_split [OF this Cons.prems(5,6)] obtain dn todo rest where sp: "obs = dn @ todo" "seen @ unp_pending m1 u1 = concat (map enc_obj dn) @ rest"
    "incomplete rest" "rest @ concat bss = concat (map enc_obj todo) @ part" by blast
  have fst: "dn \<noteq> [] \<longrightarrow> length seen < length (enc_obj (hd dn))"
  proof
    assume "dn \<noteq> []"
    then obtain ob os where d: "dn = ob # os" by (cases dn) auto
    with sp(2) have "(seen @ unp_pending m u) @ bs = concat (map enc_obj (ob # os)) @ rest" by (simp add: k1(1))
    from incomplete_before [OF Cons.prems(3) this] Cons.prems(5) sp(1) d show "length seen < length (enc_obj (hd dn))" by simp
  qed
  have enough: "length dn < Suc (mp_used u1 - mp_off u1)"
  proof -
    from unp_ok_buffer [OF k1(4)] obtain b where "m_bufs m1 (mp_buffer u1) = Some b" .
    from pending_split(3) [OF k1(4) this] have l: "length (unp_pending m1 u1) = mp_used u1 - mp_off u1" .
    show ?thesis
    proof (cases dn)
      case (Cons ob os)
      have "length seen + length (unp_pending m1 u1) = length (enc_obj ob) + length (concat (map enc_obj os)) + length rest"
        using arg_cong [OF sp(2), of length] unfolding Cons length_append list.map concat.simps .
      with fst objects_le_bytes [of os] Cons have "length dn \<le> length (unp_pending m1 u1)" by simp
      with l show ?thesis by simp
    qed simp
  qed
  have "\<forall>ob \<in> set dn. unpackable ob" "Suc k + length dn < 2 ^ 32 - 3" using Cons.prems(5,7) sp(1) by simp_all
  from drain_spec [OF assms(1,2) i1 mv sp(2) this(1) sp(3) this(2) fst enough] obtain m2 u2 res2 seen2 needs2
    where d: "unp_drain env (Suc (mp_used u1 - mp_off u1)) (m1, u1, res) = Some (dn, m2, u2, res2)"
      "unp_inv (Suc (Suc k + length dn)) (m2, u2, res2, ks, needs2)" "mid_value ?z (mp_ctx u2) seen2 (unp_pending m2 u2)"
      "seen2 @ unp_pending m2 u2 = rest" "mp_initial u2 = mp_initial u1" by blast
  have "length rest \<le> length (seen @ unp_pending m1 u1)" unfolding sp(2) by simp
  then have len: "length rest + length (concat bss) < 2 ^ 60" using Cons.prems(8) by (simp add: k1(1))
  have "\<exists>s. unp_receive env bss (m2, u2, res2) = Some (todo, s)"
    by (rule Cons.IH [OF d(2,3)]) (use sp d(4,5) k1(2) Cons.prems(5-7,9) len in auto)
  with f(1) d(1) sp(1) show ?case by (auto simp del: unp_drain.simps)
qed

subsection \<open>Properties\<close>

text \<open>The environment of the witnesses: everything succeeds, blocks and zones get the first free address.\<close>

definition free_env :: unp_env where
  "free_env = \<lparr> ue_realloc = realloc_zero (2 ^ 62),
     ue_addr = (\<lambda>bufs. if finite (dom bufs) then Some (LEAST a. bufs a = None) else None),
     ue_zone = (\<lambda>Z. if finite (dom Z) then Some (LEAST z. Z z = None) else None),
     ue_push = (\<lambda>_. True), ue_ctx = True, ue_self = True, ue_zalloc = (\<lambda>_. True) \<rparr>"

lemma free_address:
  assumes "finite (dom (f :: nat \<Rightarrow> 'b option))"
  shows "f (LEAST a. f a = None) = None"
proof -
  obtain a where "f a = None" using ex_new_if_finite [OF infinite_UNIV_nat assms] by auto
  then show ?thesis by (rule LeastI [where P = "\<lambda>a. f a = None"])
qed

lemma free_env_ok: "env_ok free_env" "plenty free_env"
proof -
  have "ue_realloc free_env = realloc_zero (2 ^ 62)" by (simp add: free_env_def)
  moreover have "bufs a = None" if "ue_addr free_env bufs = Some a" for bufs a
    using that free_address [of bufs] by (simp add: free_env_def split: if_splits)
  moreover have "Z z = None" if "ue_zone free_env Z = Some z" for Z z
    using that free_address [of Z] by (simp add: free_env_def split: if_splits)
  ultimately show "env_ok free_env" unfolding env_ok_def using realloc_zero_ok by metis
  show "plenty free_env" by (simp add: plenty_def free_env_def realloc_zero_def)
qed

text \<open>
  (C2) The streaming deserializer delivers. However a stream of encoded objects is cut into pieces, down to single
  bytes and across headers and strings, a client that feeds the pieces and asks for objects after each one
  receives all objects whose last byte it has fed, in order and each exactly once, and keeps the rest of the
  stream for the next piece. Growing, moving and rewinding the buffer and giving its zones away in between loses
  and repeats nothing, and no call hangs or fails while memory lasts.
\<close>

theorem stream_delivered:
  assumes "env_ok env" "plenty env" "n < 2 ^ 62" "msgpack_unpacker_init env no_memory n = (Some u, m)"
    "concat pieces = concat (map enc_obj obs) @ part" "\<forall>ob \<in> set obs. unpackable ob" "incomplete part"
    "2 * length pieces + length obs < 2 ^ 32 - 3" "length (concat pieces) < 2 ^ 60"
  shows "\<exists>s. unp_receive env pieces (m, u, msgpack_unpacked_init) = Some (obs, s)"
proof -
  have "n < 2 ^ 63" using assms(3) by simp
  from init_spec [OF assms(1) this assms(4)] have i: "unp_inv 0 (m, u, msgpack_unpacked_init, [], \<lambda>_. {})"
    "unp_pending m u = []" "mp_ctx u = fresh_context" "mp_initial u = max n COUNTER_SIZE" by simp_all
  have "mid_value (ue_zalloc env) (mp_ctx u) [] (unp_pending m u)" by (rule mid_value_start) (simp add: i(3))
  moreover have "incomplete []" using incomplete_prefix [of "[]" part] assms(7) by simp
  ultimately show ?thesis
    using receive_spec [OF assms(1,2) i(1), of "[]" pieces obs part] assms(3,5-) i(2,4) by (simp add: COUNTER_SIZE_def)
qed

lemma stream_delivered_witness:
  "\<exists>s. unp_receive free_env [[0x92, 1], [0xa2], [104], [105, 7]]
     (snd (msgpack_unpacker_init free_env no_memory 64), the (fst (msgpack_unpacker_init free_env no_memory 64)), msgpack_unpacked_init)
     = Some ([OBJECT_ARRAY [OBJECT_POSITIVE_INTEGER 1, OBJECT_STR [104, 105]], OBJECT_POSITIVE_INTEGER 7], s)"
proof -
  let ?i = "msgpack_unpacker_init free_env no_memory 64"
  have "fst ?i \<noteq> None"
    by (simp add: msgpack_unpacker_init_def unp_alloc_def free_env_def no_memory_def unp_zone_new_def realloc_zero_def COUNTER_SIZE_def)
  then have i: "?i = (Some (the (fst ?i)), snd ?i)" by (cases ?i) auto
  have inc: "incomplete []" unfolding incomplete_def by (intro exI [of _ OBJECT_NIL] exI [of _ "[0xc0]"]) (simp add: unpackable_def)
  show ?thesis
    by (rule stream_delivered [OF free_env_ok _ i, where part = "[]"])
      (simp_all add: inc unpackable_def hdr_array_def hdr_str_def enc_int_def)
qed

end
