(* ===== verification/Uthash.thy ===== *)
theory Uthash
  imports DList CString
begin

unbundle bit_operations_syntax

text \<open>
  The hash table of \<^verbatim>\<open>core/uthash.h\<close>, which the logging system keeps its checkpoints in: Jenkins'
  hash, lookup, insertion with bucket expansion, deletion, and the iteration over all elements.

  An element is linked into two lists: the list of all elements in insertion order (fields
  \<^verbatim>\<open>prev\<close>, \<^verbatim>\<open>next\<close>) and the chain of its bucket (\<^verbatim>\<open>hh_prev\<close>, \<^verbatim>\<open>hh_next\<close>). The heap is split by
  these fields: \<open>ut_app\<close> has the first pair of links and the user's value of each element, \<open>ut_chain\<close>
  the second pair and the key, its length and its hash; an element is live when it is in both.
  An element and the hash handle inside it have the same address here (\<^verbatim>\<open>ELMT_FROM_HH\<close>, the offset
  \<^verbatim>\<open>hho\<close>). An access to memory that is not live, an array access out of range and a division by zero
  have no result (\<open>None\<close>); \<^verbatim>\<open>uthash_fatal\<close>, which ends the process when \<^verbatim>\<open>malloc\<close> fails, has none either.
\<close>

subsection \<open>Jenkins' hash\<close>

definition HASH_JEN_MIX :: "u32 \<Rightarrow> u32 \<Rightarrow> u32 \<Rightarrow> u32 \<times> u32 \<times> u32" where
  "HASH_JEN_MIX a b c =
     (let a = (a - b - c) XOR drop_bit 13 c;
          b = (b - c - a) XOR push_bit 8 a;
          c = (c - a - b) XOR drop_bit 13 b;
          a = (a - b - c) XOR drop_bit 12 c;
          b = (b - c - a) XOR push_bit 16 a;
          c = (c - a - b) XOR drop_bit 5 b;
          a = (a - b - c) XOR drop_bit 3 c;
          b = (b - c - a) XOR push_bit 10 a;
          c = (c - a - b) XOR drop_bit 15 b
      in (a, b, c))"

definition key_byte :: "bytes \<Rightarrow> nat \<Rightarrow> u32" where
  "key_byte key i = ucast (char_at key i)"

definition key_word :: "bytes \<Rightarrow> nat \<Rightarrow> u32" where
  "key_word key i = key_byte key i + push_bit 8 (key_byte key (i + 1)) + push_bit 16 (key_byte key (i + 2))
     + push_bit 24 (key_byte key (i + 3))"

text \<open>The loop over 12 bytes at a time; the result has the rest of the key and its length.\<close>

function jen_loop :: "bytes \<Rightarrow> u32 \<Rightarrow> u32 \<times> u32 \<times> u32 \<Rightarrow> bytes \<times> u32 \<times> u32 \<times> u32 \<times> u32" where
  "jen_loop key k (i, j, hashv) =
     (if 12 \<le> k
      then jen_loop (drop 12 key) (k - 12) (HASH_JEN_MIX (i + key_word key 0) (j + key_word key 4) (hashv + key_word key 8))
      else (key, k, i, j, hashv))"
  by pat_completeness auto
termination
proof (relation "measure (\<lambda>(key, k, _). unat k)")
  fix k :: u32
  assume "12 \<le> k"
  then show "((x, k - 12, y), (key, k, z)) \<in> measure (\<lambda>(key, k, _). unat k)" for x :: bytes and y key z
    by (simp add: unat_sub word_le_nat_alt)
qed simp

declare jen_loop.simps [simp del]

definition HASH_JEN :: "bytes \<Rightarrow> u32 \<Rightarrow> u32" where
  "HASH_JEN key keylen =
     (let (key, k, i, j, hashv) = jen_loop key keylen (0x9e3779b9, 0x9e3779b9, 0xfeedbeef);
          hashv = hashv + keylen;
          hashv = (if 11 \<le> k then hashv + push_bit 24 (key_byte key 10) else hashv);
          hashv = (if 10 \<le> k then hashv + push_bit 16 (key_byte key 9) else hashv);
          hashv = (if 9 \<le> k then hashv + push_bit 8 (key_byte key 8) else hashv);
          j = (if 8 \<le> k then j + push_bit 24 (key_byte key 7) else j);
          j = (if 7 \<le> k then j + push_bit 16 (key_byte key 6) else j);
          j = (if 6 \<le> k then j + push_bit 8 (key_byte key 5) else j);
          j = (if 5 \<le> k then j + key_byte key 4 else j);
          i = (if 4 \<le> k then i + push_bit 24 (key_byte key 3) else i);
          i = (if 3 \<le> k then i + push_bit 16 (key_byte key 2) else i);
          i = (if 2 \<le> k then i + push_bit 8 (key_byte key 1) else i);
          i = (if 1 \<le> k then i + key_byte key 0 else i)
      in snd (snd (HASH_JEN_MIX i j hashv)))"

subsection \<open>The structures\<close>

text \<open>The fields of \<^verbatim>\<open>UT_hash_handle\<close> that are not links.\<close>

record handle_key =
  hh_key :: bytes
  hh_keylen :: u32
  hh_hashv :: u32

record UT_hash_bucket =
  hh_head :: "nat option"
  bkt_count :: u32
  expand_mult :: u32

record UT_hash_table =
  tbl_buckets :: "UT_hash_bucket list"
  tbl_num_buckets :: u32
  tbl_log2_num_buckets :: u32
  tbl_num_items :: u32
  tbl_tail :: "nat option"
  tbl_ideal_chain_maxlen :: u32
  tbl_nonideal_items :: u32
  tbl_ineff_expands :: u32
  tbl_noexpand :: u32

text \<open>\<open>ut_head\<close> is the user's head pointer, \<open>ut_tbl\<close> the table the \<^verbatim>\<open>tbl\<close> fields point to.\<close>

record 'v uthash =
  ut_app :: "'v dheap"
  ut_chain :: "handle_key dheap"
  ut_head :: "nat option"
  ut_tbl :: "UT_hash_table option"

definition HASH_INITIAL_NUM_BUCKETS :: u32 where "HASH_INITIAL_NUM_BUCKETS = 32"
definition HASH_INITIAL_NUM_BUCKETS_LOG2 :: u32 where "HASH_INITIAL_NUM_BUCKETS_LOG2 = 5"
definition HASH_BKT_CAPACITY_THRESH :: u32 where "HASH_BKT_CAPACITY_THRESH = 10"

text \<open>\<^verbatim>\<open>sizeof\<close> of the two structures on a 64-bit target.\<close>

definition sizeof_UT_hash_table :: nat where "sizeof_UT_hash_table = 64"
definition sizeof_UT_hash_bucket :: nat where "sizeof_UT_hash_bucket = 16"

definition empty_bucket :: UT_hash_bucket where
  "empty_bucket = \<lparr> hh_head = None, bkt_count = 0, expand_mult = 0 \<rparr>"

definition HASH_TO_BKT :: "u32 \<Rightarrow> u32 \<Rightarrow> nat" where
  "HASH_TO_BKT hashv num_bkts = unat (hashv AND (num_bkts - 1))"

text \<open>The table as every macro reaches it, through the element the head points to.\<close>

definition head_tbl :: "'v uthash \<Rightarrow> nat \<Rightarrow> UT_hash_table option" where
  "head_tbl s p = (if ut_app s p = None then None else ut_tbl s)"

subsection \<open>Lookup\<close>

definition HASH_KEYCMP :: "bytes \<Rightarrow> bytes \<Rightarrow> u32 \<Rightarrow> bool" where
  "HASH_KEYCMP a b len \<longleftrightarrow> take (unat len) a = take (unat len) b"

definition HASH_FIND_IN_BKT :: "handle_key dheap \<Rightarrow> UT_hash_bucket \<Rightarrow> bytes \<Rightarrow> u32 \<Rightarrow> nat option option" where
  "HASH_FIND_IN_BKT chain bkt keyptr keylen =
     LIST_MATCH (\<lambda>p n. hh_keylen (payload n) = keylen \<and> HASH_KEYCMP (hh_key (payload n)) keyptr keylen)
       chain (hh_head bkt)"

definition HASH_FIND :: "'v uthash \<Rightarrow> bytes \<Rightarrow> u32 \<Rightarrow> nat option option" where
  "HASH_FIND s keyptr keylen = (case ut_head s of
     None \<Rightarrow> Some None
   | Some p \<Rightarrow> (case head_tbl s p of
       None \<Rightarrow> None
     | Some tbl \<Rightarrow> (case array_get (tbl_buckets tbl) (HASH_TO_BKT (HASH_JEN keyptr keylen) (tbl_num_buckets tbl)) of
         None \<Rightarrow> None
       | Some bkt \<Rightarrow> HASH_FIND_IN_BKT (ut_chain s) bkt keyptr keylen)))"

definition HASH_FIND_STR :: "'v uthash \<Rightarrow> bytes \<Rightarrow> nat option option" where
  "HASH_FIND_STR s findstr = HASH_FIND s findstr (word_of_nat (strlen findstr))"

subsection \<open>Insertion\<close>

definition HASH_MAKE_TABLE :: "(nat \<Rightarrow> bool) \<Rightarrow> nat \<Rightarrow> UT_hash_table option" where
  "HASH_MAKE_TABLE malloc head =
     (if malloc sizeof_UT_hash_table \<and> malloc (unat HASH_INITIAL_NUM_BUCKETS * sizeof_UT_hash_bucket)
      then Some \<lparr> tbl_buckets = replicate (unat HASH_INITIAL_NUM_BUCKETS) empty_bucket,
             tbl_num_buckets = HASH_INITIAL_NUM_BUCKETS, tbl_log2_num_buckets = HASH_INITIAL_NUM_BUCKETS_LOG2,
             tbl_num_items = 0, tbl_tail = Some head, tbl_ideal_chain_maxlen = 0, tbl_nonideal_items = 0,
             tbl_ineff_expands = 0, tbl_noexpand = 0 \<rparr>
      else None)"

text \<open>The inner loop of the expansion: the elements of an old chain, from \<open>thh\<close> on, go to the front of
  their new buckets. The state has the links, the new buckets and \<^verbatim>\<open>nonideal_items\<close>; the sizes are the number of new
  buckets and \<^verbatim>\<open>ideal_chain_maxlen\<close>.\<close>

record expansion =
  ex_chain :: "handle_key dheap"
  ex_bkts :: "UT_hash_bucket list"
  ex_nonideal :: u32

definition expand_bucket :: "u32 \<Rightarrow> UT_hash_bucket \<Rightarrow> u32 \<Rightarrow> (UT_hash_bucket \<times> u32) option" where
  "expand_bucket maxlen bkt nonideal =
     (let bkt = bkt\<lparr> bkt_count := bkt_count bkt + 1 \<rparr>
      in if maxlen < bkt_count bkt
         then if maxlen = 0 then None
              else Some (bkt\<lparr> expand_mult := bkt_count bkt div maxlen \<rparr>, nonideal + 1)
         else Some (bkt, nonideal))"

definition link_front :: "handle_key dheap \<Rightarrow> nat option \<Rightarrow> nat \<Rightarrow> handle_key dheap option" where
  "link_front chain head thh =
     Option.bind (update_node chain thh (\<lambda>n. n\<lparr> prev := None, nxt := head \<rparr>)) (\<lambda>chain.
       case head of None \<Rightarrow> Some chain | Some q \<Rightarrow> update_node chain q (\<lambda>n. n\<lparr> prev := Some thh \<rparr>))"

definition expand_element :: "u32 \<Rightarrow> u32 \<Rightarrow> expansion \<Rightarrow> nat \<Rightarrow> u32 \<Rightarrow> expansion option" where
  "expand_element num_bkts maxlen st thh hashv =
     (let b = HASH_TO_BKT hashv num_bkts
      in Option.bind (array_get (ex_bkts st) b) (\<lambda>bkt.
         Option.bind (expand_bucket maxlen bkt (ex_nonideal st)) (\<lambda>(bkt, nonideal).
         Option.bind (link_front (ex_chain st) (hh_head bkt) thh) (\<lambda>chain.
           Some \<lparr> ex_chain = chain, ex_bkts = (ex_bkts st)[b := bkt\<lparr> hh_head := Some thh \<rparr>],
             ex_nonideal = nonideal \<rparr>))))"

partial_function (option) expand_chain :: "u32 \<times> u32 \<Rightarrow> expansion \<Rightarrow> nat option \<Rightarrow> expansion option" where
  "expand_chain sizes st thh =
     (case thh of
        None \<Rightarrow> Some st
      | Some p \<Rightarrow> (case ex_chain st p of
          None \<Rightarrow> None
        | Some n \<Rightarrow> Option.bind (expand_element (fst sizes) (snd sizes) st p (hh_hashv (payload n)))
            (\<lambda>st. expand_chain sizes st (nxt n))))"

definition HASH_EXPAND_BUCKETS ::
    "(nat \<Rightarrow> bool) \<Rightarrow> handle_key dheap \<Rightarrow> UT_hash_table \<Rightarrow> (handle_key dheap \<times> UT_hash_table) option" where
  "HASH_EXPAND_BUCKETS malloc chain tbl =
     (if \<not> malloc (2 * unat (tbl_num_buckets tbl) * sizeof_UT_hash_bucket) then None
      else let new = replicate (2 * unat (tbl_num_buckets tbl)) empty_bucket;
               maxlen = drop_bit (unat (tbl_log2_num_buckets tbl + 1)) (tbl_num_items tbl)
                 + (if tbl_num_items tbl AND (tbl_num_buckets tbl * 2 - 1) \<noteq> 0 then 1 else 0)
           in case fold_opt (\<lambda>st i. Option.bind (array_get (tbl_buckets tbl) i)
                       (\<lambda>bkt. expand_chain (tbl_num_buckets tbl * 2, maxlen) st (hh_head bkt)))
                     \<lparr> ex_chain = chain, ex_bkts = new, ex_nonideal = 0 \<rparr> [0..<unat (tbl_num_buckets tbl)] of
                None \<Rightarrow> None
              | Some st \<Rightarrow>
                  let ineff = (if drop_bit 1 (tbl_num_items tbl) < ex_nonideal st then tbl_ineff_expands tbl + 1 else 0)
                  in Some (ex_chain st, tbl\<lparr> tbl_buckets := ex_bkts st, tbl_num_buckets := tbl_num_buckets tbl * 2,
                       tbl_log2_num_buckets := tbl_log2_num_buckets tbl + 1, tbl_ideal_chain_maxlen := maxlen,
                       tbl_nonideal_items := ex_nonideal st, tbl_ineff_expands := ineff,
                       tbl_noexpand := (if 1 < ineff then 1 else tbl_noexpand tbl) \<rparr>))"

definition HASH_ADD_TO_BKT ::
    "(nat \<Rightarrow> bool) \<Rightarrow> handle_key dheap \<Rightarrow> UT_hash_table \<Rightarrow> nat \<Rightarrow> nat \<Rightarrow> (handle_key dheap \<times> UT_hash_table) option"
  where
  "HASH_ADD_TO_BKT malloc chain tbl b addhh =
     Option.bind (array_get (tbl_buckets tbl) b) (\<lambda>bkt.
     let bkt = bkt\<lparr> bkt_count := bkt_count bkt + 1 \<rparr>
     in Option.bind (link_front chain (hh_head bkt) addhh) (\<lambda>chain.
        let tbl = tbl\<lparr> tbl_buckets := (tbl_buckets tbl)[b := bkt\<lparr> hh_head := Some addhh \<rparr>] \<rparr>
        in if (expand_mult bkt + 1) * HASH_BKT_CAPACITY_THRESH \<le> bkt_count bkt \<and> tbl_noexpand tbl \<noteq> 1
           then HASH_EXPAND_BUCKETS malloc chain tbl
           else Some (chain, tbl)))"

definition HASH_APPEND_LIST :: "'v uthash \<Rightarrow> nat \<Rightarrow> UT_hash_table \<Rightarrow> ('v dheap \<times> UT_hash_table) option" where
  "HASH_APPEND_LIST s add tbl =
     Option.bind (update_node (ut_app s) add (\<lambda>n. n\<lparr> nxt := None, prev := tbl_tail tbl \<rparr>)) (\<lambda>app.
     Option.bind (tbl_tail tbl) (\<lambda>t.
     Option.bind (update_node app t (\<lambda>n. n\<lparr> nxt := Some add \<rparr>)) (\<lambda>app.
       Some (app, tbl\<lparr> tbl_tail := Some add \<rparr>))))"

definition HASH_ADD_KEYPTR :: "(nat \<Rightarrow> bool) \<Rightarrow> 'v uthash \<Rightarrow> bytes \<Rightarrow> u32 \<Rightarrow> nat \<Rightarrow> 'v uthash option" where
  "HASH_ADD_KEYPTR malloc s keyptr keylen add =
     (let hashv = HASH_JEN keyptr keylen
      in Option.bind (update_node (ut_chain s) add (\<lambda>n. n\<lparr> payload :=
              \<lparr> hh_key = keyptr, hh_keylen = keylen, hh_hashv = hashv \<rparr> \<rparr>)) (\<lambda>chain.
         Option.bind (case ut_head s of
             None \<Rightarrow>
               Option.bind (update_node (ut_app s) add (\<lambda>n. n\<lparr> nxt := None, prev := None \<rparr>)) (\<lambda>app.
               Option.bind (HASH_MAKE_TABLE malloc add) (\<lambda>tbl. Some (app, Some add, tbl)))
           | Some p \<Rightarrow>
               Option.bind (head_tbl s p) (\<lambda>tbl.
               Option.bind (HASH_APPEND_LIST s add tbl) (\<lambda>(app, tbl). Some (app, Some p, tbl)))) (\<lambda>(app, head, tbl).
         let tbl = tbl\<lparr> tbl_num_items := tbl_num_items tbl + 1 \<rparr>
         in Option.bind (HASH_ADD_TO_BKT malloc chain tbl (HASH_TO_BKT hashv (tbl_num_buckets tbl)) add)
           (\<lambda>(chain, tbl). Some \<lparr> ut_app = app, ut_chain = chain, ut_head = head, ut_tbl = Some tbl \<rparr>))))"

subsection \<open>Deletion and iteration\<close>

definition HASH_DEL_IN_BKT :: "handle_key dheap \<Rightarrow> UT_hash_bucket \<Rightarrow> nat \<Rightarrow> (handle_key dheap \<times> UT_hash_bucket) option" where
  "HASH_DEL_IN_BKT chain bkt del =
     (case chain del of
        None \<Rightarrow> None
      | Some d \<Rightarrow>
          let bkt = bkt\<lparr> bkt_count := bkt_count bkt - 1 \<rparr>;
              bkt = (if hh_head bkt = Some del then bkt\<lparr> hh_head := nxt d \<rparr> else bkt)
          in Option.bind (case prev d of None \<Rightarrow> Some chain
                | Some q \<Rightarrow> update_node chain q (\<lambda>n. n\<lparr> nxt := nxt d \<rparr>)) (\<lambda>chain.
             Option.bind (case nxt d of None \<Rightarrow> Some chain
                | Some q \<Rightarrow> update_node chain q (\<lambda>n. n\<lparr> prev := prev d \<rparr>)) (\<lambda>chain.
             Some (chain, bkt))))"

definition HASH_DELETE :: "'v uthash \<Rightarrow> nat \<Rightarrow> 'v uthash option" where
  "HASH_DELETE s del =
     (case (ut_head s, ut_app s del, ut_chain s del) of
        (Some p, Some d, Some c) \<Rightarrow>
          Option.bind (head_tbl s p) (\<lambda>tbl.
          if prev d = None \<and> nxt d = None then Some (s\<lparr> ut_head := None, ut_tbl := None \<rparr>)
          else
            let tbl = (if tbl_tail tbl = Some del then tbl\<lparr> tbl_tail := prev d \<rparr> else tbl)
            in Option.bind (case prev d of
                   Some q \<Rightarrow> map_option (\<lambda>app. (app, Some p)) (update_node (ut_app s) q (\<lambda>n. n\<lparr> nxt := nxt d \<rparr>))
                 | None \<Rightarrow> Some (ut_app s, nxt d)) (\<lambda>(app, head).
               Option.bind (case nxt d of
                   Some q \<Rightarrow> update_node app q (\<lambda>n. n\<lparr> prev := prev d \<rparr>)
                 | None \<Rightarrow> Some app) (\<lambda>app.
               let b = HASH_TO_BKT (hh_hashv (payload c)) (tbl_num_buckets tbl)
               in Option.bind (array_get (tbl_buckets tbl) b) (\<lambda>bkt.
                  Option.bind (HASH_DEL_IN_BKT (ut_chain s) bkt del) (\<lambda>(chain, bkt).
                  Some \<lparr> ut_app = app, ut_chain = chain, ut_head = head,
                    ut_tbl = Some (tbl\<lparr> tbl_buckets := (tbl_buckets tbl)[b := bkt],
                      tbl_num_items := tbl_num_items tbl - 1 \<rparr>) \<rparr>)))))
      | _ \<Rightarrow> None)"

text \<open>\<^verbatim>\<open>HASH_ITER\<close> with a body that may free the element it is called for: the successor is read
  before the body runs.\<close>

definition app_next :: "'v uthash \<Rightarrow> nat option \<Rightarrow> nat option option" where
  "app_next s el = (case el of None \<Rightarrow> Some None | Some p \<Rightarrow> map_option nxt (ut_app s p))"

partial_function (option) hash_iter ::
    "('v uthash \<Rightarrow> nat \<Rightarrow> 'v uthash option) \<Rightarrow> 'v uthash \<Rightarrow> nat option \<times> nat option \<Rightarrow> 'v uthash option" where
  "hash_iter body s el_tmp =
     (case fst el_tmp of
        None \<Rightarrow> Some s
      | Some p \<Rightarrow> Option.bind (body s p) (\<lambda>s. Option.bind (app_next s (snd el_tmp)) (\<lambda>tmp.
          hash_iter body s (snd el_tmp, tmp))))"

definition HASH_ITER :: "('v uthash \<Rightarrow> nat \<Rightarrow> 'v uthash option) \<Rightarrow> 'v uthash \<Rightarrow> 'v uthash option" where
  "HASH_ITER body s = Option.bind (app_next s (ut_head s)) (\<lambda>tmp. hash_iter body s (ut_head s, tmp))"

definition HASH_COUNT :: "'v uthash \<Rightarrow> u32 option" where
  "HASH_COUNT s = (case ut_head s of None \<Rightarrow> Some 0 | Some p \<Rightarrow> map_option tbl_num_items (head_tbl s p))"

definition HASH_CLEAR :: "'v uthash \<Rightarrow> 'v uthash option" where
  "HASH_CLEAR s = (case ut_head s of None \<Rightarrow> Some s
     | Some p \<Rightarrow> map_option (\<lambda>_. s\<lparr> ut_head := None, ut_tbl := None \<rparr>) (head_tbl s p))"

subsection \<open>Bucket chains\<close>

text \<open>The buckets \<open>bs\<close> hold the chains of elements \<open>B\<close>, and every element is in the bucket its hash selects.\<close>

definition chains :: "handle_key dheap \<Rightarrow> UT_hash_bucket list \<Rightarrow> nat list list \<Rightarrow> bool" where
  "chains c bs B \<longleftrightarrow> length B = length bs \<and> distinct (concat B)
     \<and> (\<forall>i < length bs. dseg c None (hh_head (bs ! i)) (B ! i) None
          \<and> bkt_count (bs ! i) = word_of_nat (length (B ! i)))"

definition placed :: "handle_key dheap \<Rightarrow> nat list list \<Rightarrow> bool" where
  "placed c B \<longleftrightarrow> (\<forall>i < length B. \<forall>p \<in> set (B ! i).
     \<exists>k. payload_at c p = Some k \<and> unat (hh_hashv k) mod length B = i)"

lemma HASH_TO_BKT_mod:
  assumes "unat num = 2 ^ k" "k < 32"
  shows "HASH_TO_BKT h num = unat h mod 2 ^ k"
proof -
  have "num = word_of_nat (unat num)" by simp
  then have "num = 2 ^ k" by (simp only: assms(1) of_nat_power of_nat_numeral)
  then have "num - 1 = mask k" by (simp add: mask_eq_exp_minus_1)
  then show ?thesis
    by (simp add: HASH_TO_BKT_def take_bit_eq_mask [symmetric] unsigned_take_bit_eq)
       (simp add: take_bit_eq_mod)
qed

lemma link_front_spec:
  assumes "dseg c None head ps None" "c p = Some n" "distinct (p # ps)"
  shows "\<exists>c'. link_front c head p = Some c' \<and> dseg c' None (Some p) (p # ps) None
    \<and> (\<forall>q. payload_at c' q = payload_at c q) \<and> (\<forall>q. q \<notin> set (p # ps) \<longrightarrow> c' q = c q)"
proof (cases ps)
  case Nil
  with assms show ?thesis
    by (auto simp: link_front_def update_node_def payload_at_upd)
next
  case (Cons b bs)
  let ?c = "c(p \<mapsto> n\<lparr>prev := None, nxt := head\<rparr>)"
  have "dseg ?c None head (b # bs) None" using assms Cons by (subst dseg_upd_other) auto
  from dseg_relink_first [OF this, of "Some p"] assms Cons obtain m where
    m: "?c b = Some m" "dseg (?c(b \<mapsto> m\<lparr>prev := Some p\<rparr>)) (Some p) head (b # bs) None" by auto
  with assms Cons show ?thesis
    by (intro exI [of _ "?c(b \<mapsto> m\<lparr>prev := Some p\<rparr>)"])
       (auto simp: link_front_def update_node_def payload_at_upd split: option.splits if_splits)
qed

lemma concat_update:
  assumes "b < length B"
  shows "set (concat (B[b := p # B ! b])) = insert p (set (concat B))"
    and "distinct (concat B) \<Longrightarrow> p \<notin> set (concat B) \<Longrightarrow> distinct (concat (B[b := p # B ! b]))"
proof -
  have B: "concat B = concat (take b B) @ B ! b @ concat (drop (Suc b) B)"
    by (subst id_take_nth_drop [OF assms]) simp
  have B': "concat (B[b := p # B ! b]) = concat (take b B) @ p # B ! b @ concat (drop (Suc b) B)"
    using assms by (simp add: upd_conv_take_nth_drop)
  show "set (concat (B[b := p # B ! b])) = insert p (set (concat B))" by (subst B, subst B') auto
  show "distinct (concat B) \<Longrightarrow> p \<notin> set (concat B) \<Longrightarrow> distinct (concat (B[b := p # B ! b]))"
    unfolding B B' by auto
qed

lemma concat_nth_disjoint:
  assumes "distinct (concat B)" "i < length B" "j < length B" "i \<noteq> j" "p \<in> set (B ! i)"
  shows "p \<notin> set (B ! j)"
proof
  assume j: "p \<in> set (B ! j)"
  have less: False if "a < b" "b < length B" "p \<in> set (B ! a)" "p \<in> set (B ! b)" for a b
  proof -
    have "concat B = concat (take b B) @ B ! b @ concat (drop (Suc b) B)"
      by (subst id_take_nth_drop [OF that(2)]) simp
    with assms(1) have "set (concat (take b B)) \<inter> set (B ! b) = {}" by auto
    moreover have "B ! a \<in> set (take b B)" using that by (auto simp: in_set_conv_nth intro!: exI [of _ a])
    ultimately show False using that by auto
  qed
  show False using less [of i j] less [of j i] assms j by (cases "i < j") auto
qed

lemma chains_push:
  assumes "chains c bs B" "b < length bs" "p \<notin> set (concat B)"
    and "dseg c' None (Some p) (p # B ! b) None" "\<And>q. q \<notin> set (p # B ! b) \<Longrightarrow> c' q = c q"
    and "hh_head bk = Some p" "bkt_count bk = bkt_count (bs ! b) + 1"
  shows "chains c' (bs[b := bk]) (B[b := p # B ! b])"
proof -
  from assms(1) have len: "length B = length bs" and dist: "distinct (concat B)" by (auto simp: chains_def)
  have "dseg c' None (hh_head (bs ! i)) (B ! i) None" if "i < length bs" "i \<noteq> b" for i
  proof (subst dseg_cong [of _ c' c])
    fix q assume "q \<in> set (B ! i)"
    then have "q \<notin> set (B ! b)" "q \<noteq> p"
      using concat_nth_disjoint [OF dist, of i b] that assms(2,3) len by auto
    then show "c' q = c q" using assms(5) by simp
  qed (use assms(1) that in \<open>auto simp: chains_def\<close>)
  then show ?thesis
    using assms concat_update [of b B p] len dist by (auto simp: chains_def nth_list_update)
qed

lemma placed_cong: "(\<And>q. payload_at c' q = payload_at c q) \<Longrightarrow> placed c' B = placed c B"
  by (simp add: placed_def)

lemma placed_push:
  assumes "placed c B" "b < length B" "payload_at c p = Some k" "unat (hh_hashv k) mod length B = b"
  shows "placed c (B[b := p # B ! b])"
  using assms by (auto simp: placed_def nth_list_update)

subsection \<open>Expansion\<close>

text \<open>A chain followed through \<^verbatim>\<open>hh_next\<close> only: what the expansion loop needs of the old chains, whose
  backward links it has already overwritten.\<close>

fun sseg :: "'v dheap \<Rightarrow> nat option \<Rightarrow> nat list \<Rightarrow> bool" where
  "sseg h cur [] \<longleftrightarrow> cur = None"
| "sseg h cur (a # as) \<longleftrightarrow> cur = Some a \<and> (case h a of None \<Rightarrow> False | Some n \<Rightarrow> sseg h (nxt n) as)"

lemma sseg_dseg: "dseg h pr cur ps None \<Longrightarrow> sseg h cur ps"
  by (induction ps arbitrary: pr cur) (auto split: option.splits)

lemma sseg_cong: "(\<And>p. p \<in> set ps \<Longrightarrow> h' p = h p) \<Longrightarrow> sseg h' cur ps = sseg h cur ps"
  by (induction ps arbitrary: cur) (auto split: option.splits)

lemma expand_chain_simps:
  "expand_chain sz st None = Some st"
  "ex_chain st p = Some n \<Longrightarrow> expand_chain sz st (Some p) =
     Option.bind (expand_element (fst sz) (snd sz) st p (hh_hashv (payload n))) (\<lambda>st. expand_chain sz st (nxt n))"
  by (subst expand_chain.simps, simp)+

text \<open>What is known of the state of an expansion to \<open>2 ^ k\<close> buckets: the elements \<open>B\<close> are in place. Links
  of elements that are not in place yet (\<open>rest\<close>) are those of before.\<close>

definition expanding :: "nat \<Rightarrow> handle_key dheap \<Rightarrow> expansion \<Rightarrow> nat list list \<Rightarrow> bool" where
  "expanding k c st B \<longleftrightarrow> length B = 2 ^ k \<and> chains (ex_chain st) (ex_bkts st) B \<and> placed c B
     \<and> (\<forall>q. payload_at (ex_chain st) q = payload_at c q) \<and> (\<forall>q. q \<notin> set (concat B) \<longrightarrow> ex_chain st q = c q)"

lemma expand_bucket_spec:
  assumes "maxlen \<noteq> 0"
  shows "\<exists>bk n'. expand_bucket maxlen bkt n = Some (bk, n') \<and> hh_head bk = hh_head bkt
    \<and> bkt_count bk = bkt_count bkt + 1"
  using assms by (simp add: expand_bucket_def Let_def)

lemma expand_element_spec:
  assumes "expanding k c st B" "k < 32" "unat num = 2 ^ k" "maxlen \<noteq> 0"
    and "c p = Some n" "p \<notin> set (concat B)"
  shows "\<exists>st' B'. expand_element num maxlen st p (hh_hashv (payload n)) = Some st' \<and> expanding k c st' B'
    \<and> set (concat B') = insert p (set (concat B))"
proof -
  define b where "b = unat (hh_hashv (payload n)) mod 2 ^ k"
  have e: "length B = 2 ^ k" "chains (ex_chain st) (ex_bkts st) B" "placed c B"
    "\<And>q. payload_at (ex_chain st) q = payload_at c q" "\<And>q. q \<notin> set (concat B) \<Longrightarrow> ex_chain st q = c q"
    using assms(1) by (auto simp: expanding_def)
  have b_less: "b < 2 ^ k" by (simp add: b_def)
  have b: "HASH_TO_BKT (hh_hashv (payload n)) num = b" "b < length (ex_bkts st)"
    using HASH_TO_BKT_mod [OF assms(3,2)] e(1,2) b_less by (auto simp: b_def chains_def)
  obtain bk n' where bk: "expand_bucket maxlen (ex_bkts st ! b) (ex_nonideal st) = Some (bk, n')"
    "hh_head bk = hh_head (ex_bkts st ! b)" "bkt_count bk = bkt_count (ex_bkts st ! b) + 1"
    using expand_bucket_spec [OF assms(4)] by blast
  have seg: "dseg (ex_chain st) None (hh_head bk) (B ! b) None" using e(2) b(2) bk(2) by (simp add: chains_def)
  have "B ! b \<in> set B" using e(2) b(2) by (simp add: chains_def)
  then have "distinct (B ! b)" "set (B ! b) \<subseteq> set (concat B)"
    using e(2) by (auto simp: chains_def distinct_concat_iff)
  with assms(6) have dist: "distinct (p # B ! b)" and sub: "set (p # B ! b) \<subseteq> insert p (set (concat B))" by auto
  have "ex_chain st p = Some n" using e(5) assms(5,6) by simp
  from link_front_spec [OF seg this dist] obtain c' where
    c': "link_front (ex_chain st) (hh_head bk) p = Some c'" "dseg c' None (Some p) (p # B ! b) None"
      "\<And>q. payload_at c' q = payload_at (ex_chain st) q" "\<And>q. q \<notin> set (p # B ! b) \<Longrightarrow> c' q = ex_chain st q"
    by blast
  let ?bk = "bk\<lparr>hh_head := Some p\<rparr>"
  let ?st = "\<lparr>ex_chain = c', ex_bkts = (ex_bkts st)[b := ?bk], ex_nonideal = n'\<rparr>"
  let ?B = "B[b := p # B ! b]"
  have set: "set (concat ?B) = insert p (set (concat B))" using b(2) e(2) by (intro concat_update) (simp add: chains_def)
  have "chains c' ((ex_bkts st)[b := ?bk]) ?B"
    using e(2) b(2) assms(6) c'(2,4) bk(3) by (intro chains_push) auto
  moreover have "placed c ?B"
    using e(1,2,3) b assms(5) by (intro placed_push) (auto simp: chains_def b_def)
  moreover have "c' q = c q" if "q \<notin> set (concat ?B)" for q
  proof -
    have "q \<notin> set (concat B)" "q \<notin> set (p # B ! b)" using that sub unfolding set by blast+
    then show ?thesis using e(5) c'(4) by metis
  qed
  ultimately have "expanding k c ?st ?B"
    using e(1,4) c'(3) unfolding expanding_def by (simp only: expansion.simps length_list_update) blast
  moreover have "expand_element num maxlen st p (hh_hashv (payload n)) = Some ?st"
    using b(2) by (simp add: expand_element_def Let_def b(1) bk(1) c'(1))
  ultimately show ?thesis using set by blast
qed

lemma expand_chain_spec:
  assumes "k < 32" "unat num = 2 ^ k" "maxlen \<noteq> 0"
  shows "sseg c thh ps \<Longrightarrow> distinct ps \<Longrightarrow> set ps \<inter> set (concat B) = {} \<Longrightarrow> expanding k c st B \<Longrightarrow>
    \<exists>st' B'. expand_chain (num, maxlen) st thh = Some st' \<and> expanding k c st' B'
      \<and> set (concat B') = set ps \<union> set (concat B)"
proof (induction ps arbitrary: thh st B)
  case Nil
  then show ?case by (auto simp: expand_chain_simps)
next
  case (Cons p ps)
  from Cons.prems(1) obtain n where n: "thh = Some p" "c p = Some n" "sseg c (nxt n) ps"
    by (auto split: option.splits)
  have p: "p \<notin> set (concat B)" using Cons.prems(3) by auto
  with Cons.prems(4) n(2) have live: "ex_chain st p = Some n" by (auto simp: expanding_def)
  from expand_element_spec [OF Cons.prems(4) assms n(2) p] obtain st1 B1 where
    1: "expand_element num maxlen st p (hh_hashv (payload n)) = Some st1" "expanding k c st1 B1"
      "set (concat B1) = insert p (set (concat B))" by blast
  have "set ps \<inter> set (concat B1) = {}" using Cons.prems(2,3) 1(3) by auto
  from Cons.IH [OF n(3) _ this 1(2)] Cons.prems(2) obtain st2 B2 where
    2: "expand_chain (num, maxlen) st1 (nxt n) = Some st2" "expanding k c st2 B2"
      "set (concat B2) = set ps \<union> set (concat B1)" by auto
  have "expand_chain (num, maxlen) st thh = Some st2"
    using n(1) 1(1) 2(1) by (simp add: expand_chain_simps(2) [OF live])
  with 1(3) 2 show ?case by auto
qed

lemma expand_buckets_loop:
  assumes "k < 32" "unat num = 2 ^ k" "maxlen \<noteq> 0"
    and "\<And>i. i < length bs \<Longrightarrow> sseg c (hh_head (bs ! i)) (A ! i)"
  shows "\<forall>i \<in> set is. i < length bs \<Longrightarrow> distinct (concat (map ((!) A) is)) \<Longrightarrow>
    set (concat (map ((!) A) is)) \<inter> set (concat B) = {} \<Longrightarrow> expanding k c st B \<Longrightarrow>
    \<exists>st' B'. fold_opt (\<lambda>st i. Option.bind (array_get bs i) (\<lambda>bkt. expand_chain (num, maxlen) st (hh_head bkt))) st is
        = Some st' \<and> expanding k c st' B' \<and> set (concat B') = set (concat (map ((!) A) is)) \<union> set (concat B)"
proof (induction "is" arbitrary: st B)
  case Nil
  then show ?case by auto
next
  case (Cons i "is")
  then have i: "i < length bs" by simp
  from Cons.prems(2,3) have "distinct (A ! i)" "set (A ! i) \<inter> set (concat B) = {}" by auto
  from expand_chain_spec [OF assms(1-3) assms(4) [OF i] this Cons.prems(4)] obtain st1 B1 where
    1: "expand_chain (num, maxlen) st (hh_head (bs ! i)) = Some st1" "expanding k c st1 B1"
      "set (concat B1) = set (A ! i) \<union> set (concat B)" by blast
  have "set (concat (map ((!) A) is)) \<inter> set (concat B1) = {}" using Cons.prems(2,3) 1(3) by auto
  from Cons.IH [OF _ _ this 1(2)] Cons.prems(1,2) obtain st2 B2 where
    2: "fold_opt (\<lambda>st i. Option.bind (array_get bs i) (\<lambda>bkt. expand_chain (num, maxlen) st (hh_head bkt))) st1 is
        = Some st2" "expanding k c st2 B2" "set (concat B2) = set (concat (map ((!) A) is)) \<union> set (concat B1)"
    by auto
  with 1 i show ?case by (intro exI [of _ st2] exI [of _ B2]) auto
qed

subsection \<open>Tables\<close>

text \<open>A consistent table over the elements \<open>ps\<close>.\<close>

definition tbl_ok :: "handle_key dheap \<Rightarrow> UT_hash_table \<Rightarrow> nat set \<Rightarrow> bool" where
  "tbl_ok c t ps \<longleftrightarrow> (\<exists>k B. k < 31 \<and> unat (tbl_log2_num_buckets t) = k \<and> unat (tbl_num_buckets t) = 2 ^ k
     \<and> length B = 2 ^ k \<and> chains c (tbl_buckets t) B \<and> placed c B \<and> set (concat B) = ps)"

lemma tbl_ok_fields [simp]:
  "tbl_ok c (t\<lparr>tbl_tail := x\<rparr>) ps = tbl_ok c t ps" "tbl_ok c (t\<lparr>tbl_num_items := y\<rparr>) ps = tbl_ok c t ps"
  by (simp_all add: tbl_ok_def)

text \<open>The program never gets a block of 32 GiB; the next expansion finds its memory.\<close>

definition malloc_bounded :: "(nat \<Rightarrow> bool) \<Rightarrow> bool" where
  "malloc_bounded malloc \<longleftrightarrow> (\<forall>n \<ge> 2 ^ 35. \<not> malloc n)"

definition expand_request :: "UT_hash_table \<Rightarrow> nat" where
  "expand_request t = 2 * unat (tbl_num_buckets t) * sizeof_UT_hash_bucket"

text \<open>The number of elements is at most \<open>maxlen\<close> times the number of buckets; it is zero only for an
  empty table, so the division of the expansion is never one by zero.\<close>

lemma maxlen_nonzero:
  fixes n num :: u32
  assumes "n \<noteq> 0" "unat num = 2 ^ k" "k < 31" "unat l = k"
  shows "drop_bit (unat (l + 1 :: u32)) n + (if n AND (num * 2 - 1) \<noteq> 0 then 1 else 0) \<noteq> 0"
proof -
  have l: "unat (l + 1) = k + 1" using assms(3,4) by (simp add: unat_add_lem [THEN iffD1])
  have "num = word_of_nat (unat num)" by simp
  then have "num * 2 = 2 ^ (k + 1)" by (simp only: assms(2) of_nat_power of_nat_numeral) simp
  then have m: "num * 2 - 1 = mask (k + 1)" by (simp add: mask_eq_exp_minus_1)
  show ?thesis
  proof (cases "n AND (num * 2 - 1) = 0")
    case True
    then have "take_bit (k + 1) n = 0" by (simp add: m take_bit_eq_mask)
    then have "drop_bit (k + 1) n \<noteq> 0"
      using assms(1) bits_ident [of "k + 1" n] by auto
    with True l show ?thesis by simp
  next
    case False
    have "unat (drop_bit (k + 1) n) = unat n div 2 ^ (k + 1)" by (subst unat_drop_bit_eq) (rule drop_bit_eq_div)
    also have "\<dots> \<le> unat n div 2" by (intro div_le_mono2) auto
    also have "\<dots> < 2 ^ 31" using unsigned_less [of n, where ?'a = nat] by simp
    finally have "unat (drop_bit (k + 1) n + 1) = unat (drop_bit (k + 1) n) + 1"
      by (simp add: unat_add_lem [THEN iffD1])
    then have "drop_bit (k + 1) n + 1 \<noteq> 0" by (metis add_eq_0_iff_both_eq_0 one_neq_zero unsigned_0)
    with False l show ?thesis by simp
  qed
qed

lemma expanding_start: "expanding k c \<lparr> ex_chain = c, ex_bkts = replicate (2 ^ k) empty_bucket, ex_nonideal = 0 \<rparr> (replicate (2 ^ k) [])"
  by (auto simp: expanding_def chains_def placed_def empty_bucket_def)

lemma HASH_EXPAND_BUCKETS_spec:
  assumes "tbl_ok c t ps" "tbl_num_items t \<noteq> 0" "malloc_bounded malloc" "malloc (expand_request t)"
  shows "\<exists>c' t'. HASH_EXPAND_BUCKETS malloc c t = Some (c', t') \<and> tbl_ok c' t' ps
    \<and> tbl_num_items t' = tbl_num_items t \<and> tbl_tail t' = tbl_tail t
    \<and> (\<forall>q. payload_at c' q = payload_at c q) \<and> (\<forall>q. q \<notin> ps \<longrightarrow> c' q = c q)"
proof -
  from assms(1) obtain k A where k: "k < 31" "unat (tbl_log2_num_buckets t) = k" "unat (tbl_num_buckets t) = 2 ^ k"
    and A: "length A = 2 ^ k" "chains c (tbl_buckets t) A" "placed c A" "set (concat A) = ps"
    by (auto simp: tbl_ok_def)
  have "\<not> (2 ^ 35 \<le> expand_request t)" using assms(3,4) by (auto simp: malloc_bounded_def)
  then have "(2::nat) ^ k < 2 ^ 30" by (simp add: expand_request_def k sizeof_UT_hash_bucket_def)
  then have k30: "k < 30" by (rule power_less_imp_less_exp [rotated]) simp
  define n2 where "n2 = tbl_num_buckets t * 2"
  have n2: "unat n2 = 2 ^ (k + 1)"
  proof -
    have "unat (tbl_num_buckets t) * unat (2 :: u32) < 2 ^ LENGTH(32)" using \<open>(2::nat) ^ k < 2 ^ 30\<close> k(3) by simp
    then show ?thesis using unat_mult_lem [of "tbl_num_buckets t" 2] k(3) by (simp add: n2_def)
  qed
  define maxlen where "maxlen = drop_bit (unat (tbl_log2_num_buckets t + 1)) (tbl_num_items t)
    + (if tbl_num_items t AND (n2 - 1) \<noteq> 0 then 1 else 0)"
  have maxlen: "maxlen \<noteq> 0"
    using maxlen_nonzero [OF assms(2) k(3) k(1) k(2)] by (simp add: maxlen_def n2_def)
  have len: "length (tbl_buckets t) = 2 ^ k" using A by (simp add: chains_def)
  have old: "map ((!) A) [0..<2 ^ k] = A" by (simp add: A(1) [symmetric] map_nth)
  define st0 where "st0 = \<lparr> ex_chain = c, ex_bkts = replicate (2 * 2 ^ k) empty_bucket, ex_nonideal = 0 \<rparr>"
  have st0: "expanding (k + 1) c st0 (replicate (2 ^ (k + 1)) [])"
    using expanding_start [of "k + 1" c] by (simp add: st0_def)
  have "\<exists>st' B'. fold_opt (\<lambda>st i. Option.bind (array_get (tbl_buckets t) i)
        (\<lambda>bkt. expand_chain (n2, maxlen) st (hh_head bkt))) st0 [0..<2 ^ k] = Some st'
      \<and> expanding (k + 1) c st' B' \<and> set (concat B') = set (concat (map ((!) A) [0..<2 ^ k])) \<union> set (concat (replicate (2 ^ (k + 1)) []))"
  proof (rule expand_buckets_loop [where c = c])
    show "sseg c (hh_head (tbl_buckets t ! i)) (A ! i)" if "i < length (tbl_buckets t)" for i
      using A(2) that by (auto simp: chains_def intro: sseg_dseg)
    show "distinct (concat (map ((!) A) [0..<2 ^ k]))" unfolding old using A(2) by (simp add: chains_def)
  qed (use k30 n2 maxlen len st0 in auto)
  then obtain st' B' where
    loop: "fold_opt (\<lambda>st i. Option.bind (array_get (tbl_buckets t) i)
        (\<lambda>bkt. expand_chain (n2, maxlen) st (hh_head bkt))) st0 [0..<2 ^ k] = Some st'"
      "expanding (k + 1) c st' B'" "set (concat B') = ps"
    unfolding old using A(4) by auto
  define ineff where "ineff = (if drop_bit 1 (tbl_num_items t) < ex_nonideal st' then tbl_ineff_expands t + 1 else 0)"
  let ?t = "t\<lparr> tbl_buckets := ex_bkts st', tbl_num_buckets := n2, tbl_log2_num_buckets := tbl_log2_num_buckets t + 1,
    tbl_ideal_chain_maxlen := maxlen, tbl_nonideal_items := ex_nonideal st', tbl_ineff_expands := ineff,
    tbl_noexpand := (if 1 < ineff then 1 else tbl_noexpand t) \<rparr>"
  have res: "HASH_EXPAND_BUCKETS malloc c t = Some (ex_chain st', ?t)"
    using assms(4) loop(1) k(3)
    by (simp add: HASH_EXPAND_BUCKETS_def expand_request_def Let_def n2_def [symmetric] maxlen_def [symmetric]
        st0_def [symmetric] ineff_def)
  have e: "length B' = 2 ^ (k + 1)" "chains (ex_chain st') (ex_bkts st') B'" "placed c B'"
    "\<And>q. payload_at (ex_chain st') q = payload_at c q" "\<And>q. q \<notin> ps \<Longrightarrow> ex_chain st' q = c q"
    using loop(2,3) by (auto simp: expanding_def)
  have "unat (tbl_log2_num_buckets t + 1) = k + 1" using k(2) k30 by (simp add: unat_add_lem [THEN iffD1])
  then have "tbl_ok (ex_chain st') ?t ps"
    using e(1,2,3) placed_cong [of "ex_chain st'" c B', OF e(4)] loop(3) n2 k30
    unfolding tbl_ok_def by (intro exI [of _ "k + 1"] exI [of _ B']) simp
  with res e(4,5) show ?thesis by (intro exI [of _ "ex_chain st'"] exI [of _ ?t]) simp
qed

text \<open>Pushing an element on the chain of its bucket.\<close>

lemma bucket_push:
  assumes "tbl_ok c t ps" "p \<notin> ps" "c p = Some n" "b = HASH_TO_BKT (hh_hashv (payload n)) (tbl_num_buckets t)"
  shows "\<exists>bkt c'. array_get (tbl_buckets t) b = Some bkt \<and> link_front c (hh_head bkt) p = Some c'
    \<and> tbl_ok c' (t\<lparr>tbl_buckets := (tbl_buckets t)[b := bkt\<lparr>bkt_count := bkt_count bkt + 1, hh_head := Some p\<rparr>]\<rparr>) (insert p ps)
    \<and> (\<forall>q. payload_at c' q = payload_at c q) \<and> (\<forall>q. q \<notin> insert p ps \<longrightarrow> c' q = c q)"
proof -
  from assms(1) obtain k B where k: "k < 31" "unat (tbl_log2_num_buckets t) = k" "unat (tbl_num_buckets t) = 2 ^ k"
    and B: "length B = 2 ^ k" "chains c (tbl_buckets t) B" "placed c B" "set (concat B) = ps"
    by (auto simp: tbl_ok_def)
  have b: "b = unat (hh_hashv (payload n)) mod 2 ^ k" using assms(4) HASH_TO_BKT_mod [OF k(3)] k(1) by simp
  then have "b < 2 ^ k" by simp
  with B have bl: "b < length (tbl_buckets t)" "b < length B" by (auto simp: chains_def)
  define bkt where "bkt = tbl_buckets t ! b"
  have seg: "dseg c None (hh_head bkt) (B ! b) None" using B(2) bl by (simp add: chains_def bkt_def)
  have "B ! b \<in> set B" using bl by simp
  then have "distinct (B ! b)" and sub: "set (B ! b) \<subseteq> ps"
    using B(2,4) by (auto simp: chains_def distinct_concat_iff)
  then have "distinct (p # B ! b)" using assms(2) by auto
  from link_front_spec [OF seg assms(3) this] obtain c' where
    c': "link_front c (hh_head bkt) p = Some c'" "dseg c' None (Some p) (p # B ! b) None"
      "\<And>q. payload_at c' q = payload_at c q" "\<And>q. q \<notin> set (p # B ! b) \<Longrightarrow> c' q = c q" by blast
  let ?bk = "bkt\<lparr>bkt_count := bkt_count bkt + 1, hh_head := Some p\<rparr>"
  let ?B = "B[b := p # B ! b]"
  have "chains c' ((tbl_buckets t)[b := ?bk]) ?B"
    using B(2,4) bl assms(2) c'(2,4) by (intro chains_push) (auto simp: bkt_def)
  moreover have "placed c' ?B"
    using placed_push [OF B(3) bl(2), of p "payload n"] assms(3) b B(1) by (simp add: placed_cong [OF c'(3)])
  moreover have "set (concat ?B) = insert p ps" using concat_update(1) [OF bl(2)] B(4) by simp
  ultimately have "tbl_ok c' (t\<lparr>tbl_buckets := (tbl_buckets t)[b := ?bk]\<rparr>) (insert p ps)"
    using k B(1) unfolding tbl_ok_def by (intro exI [of _ k] exI [of _ ?B]) simp
  moreover have "c' q = c q" if "q \<notin> insert p ps" for q using that sub by (intro c'(4)) auto
  ultimately show ?thesis
    using bl c'(1,3) by (intro exI [of _ bkt] exI [of _ c']) (simp add: bkt_def)
qed

lemma HASH_ADD_TO_BKT_spec:
  assumes "tbl_ok c t ps" "p \<notin> ps" "c p = Some n" "b = HASH_TO_BKT (hh_hashv (payload n)) (tbl_num_buckets t)"
    and "tbl_num_items t \<noteq> 0" "malloc_bounded malloc" "malloc (expand_request t)"
  shows "\<exists>c' t'. HASH_ADD_TO_BKT malloc c t b p = Some (c', t') \<and> tbl_ok c' t' (insert p ps)
    \<and> tbl_num_items t' = tbl_num_items t \<and> tbl_tail t' = tbl_tail t
    \<and> (\<forall>q. payload_at c' q = payload_at c q) \<and> (\<forall>q. q \<notin> insert p ps \<longrightarrow> c' q = c q)"
proof -
  from bucket_push [OF assms(1-4)] obtain bkt c1 where
    1: "array_get (tbl_buckets t) b = Some bkt" "link_front c (hh_head bkt) p = Some c1"
      "tbl_ok c1 (t\<lparr>tbl_buckets := (tbl_buckets t)[b := bkt\<lparr>bkt_count := bkt_count bkt + 1, hh_head := Some p\<rparr>]\<rparr>) (insert p ps)"
      "\<And>q. payload_at c1 q = payload_at c q" "\<And>q. q \<notin> insert p ps \<Longrightarrow> c1 q = c q" by blast
  let ?t = "t\<lparr>tbl_buckets := (tbl_buckets t)[b := bkt\<lparr>bkt_count := bkt_count bkt + 1, hh_head := Some p\<rparr>]\<rparr>"
  have r: "expand_request ?t = expand_request t" by (simp add: expand_request_def)
  from HASH_EXPAND_BUCKETS_spec [OF 1(3) _ assms(6), unfolded r] assms(5,7) obtain c2 t2 where
    "HASH_EXPAND_BUCKETS malloc c1 ?t = Some (c2, t2)" "tbl_ok c2 t2 (insert p ps)"
    "tbl_num_items t2 = tbl_num_items t" "tbl_tail t2 = tbl_tail t"
    "\<forall>q. payload_at c2 q = payload_at c1 q" "\<forall>q. q \<notin> insert p ps \<longrightarrow> c2 q = c1 q" by auto
  with 1 show ?thesis
    by (cases "(expand_mult bkt + 1) * HASH_BKT_CAPACITY_THRESH \<le> bkt_count bkt + 1 \<and> tbl_noexpand t \<noteq> 1")
       (simp_all add: HASH_ADD_TO_BKT_def Let_def)
qed

subsection \<open>The table as a list of entries\<close>

definition key_of :: "bytes \<Rightarrow> handle_key" where
  "key_of k = \<lparr> hh_key = k, hh_keylen = word_of_nat (length k), hh_hashv = HASH_JEN k (word_of_nat (length k)) \<rparr>"

text \<open>The entries in insertion order: address, key and value.\<close>

type_synonym 'v entries = "(nat \<times> bytes \<times> 'v) list"

definition entry_ok :: "'v uthash \<Rightarrow> nat \<times> bytes \<times> 'v \<Rightarrow> bool" where
  "entry_ok s e \<longleftrightarrow> length (fst (snd e)) < 2 ^ 32 \<and> payload_at (ut_app s) (fst e) = Some (snd (snd e))
     \<and> payload_at (ut_chain s) (fst e) = Some (key_of (fst (snd e)))"

definition table_of :: "'v uthash \<Rightarrow> nat list \<Rightarrow> bool" where
  "table_of s ps \<longleftrightarrow> (ps \<noteq> [] \<longrightarrow> (\<exists>t. ut_tbl s = Some t \<and> tbl_ok (ut_chain s) t (set ps)
     \<and> tbl_num_items t = word_of_nat (length ps) \<and> tbl_tail t = Some (last ps)))"

definition hash_of :: "'v uthash \<Rightarrow> 'v entries \<Rightarrow> bool" where
  "hash_of s es \<longleftrightarrow> distinct (map (fst \<circ> snd) es) \<and> (\<forall>e \<in> set es. entry_ok s e)
     \<and> dlist (ut_app s) (ut_head s) (map fst es) \<and> table_of s (map fst es)"

lemma hash_of_empty: "ut_head s = None \<Longrightarrow> hash_of s []"
  by (simp add: hash_of_def table_of_def dlist_def)

lemma hash_of_live: "hash_of s es \<Longrightarrow> e \<in> set es \<Longrightarrow> ut_app s (fst e) \<noteq> None \<and> ut_chain s (fst e) \<noteq> None"
  by (auto simp: hash_of_def entry_ok_def payload_at_def)

lemma hash_of_head:
  assumes "hash_of s (e # es)"
  obtains t where "ut_head s = Some (fst e)" "head_tbl s (fst e) = Some t" "ut_tbl s = Some t"
    "tbl_ok (ut_chain s) t (fst ` set (e # es))" "tbl_num_items t = word_of_nat (length (e # es))"
    "tbl_tail t = Some (last (map fst (e # es)))"
proof -
  from assms have "dseg (ut_app s) None (ut_head s) (map fst (e # es)) None" by (simp add: hash_of_def dlist_def)
  then have "ut_head s = Some (fst e)" by (auto dest: dseg_head)
  moreover from assms obtain t where t: "ut_tbl s = Some t" "tbl_ok (ut_chain s) t (set (map fst (e # es)))"
    "tbl_num_items t = word_of_nat (length (map fst (e # es)))" "tbl_tail t = Some (last (map fst (e # es)))"
    by (auto simp: hash_of_def table_of_def)
  moreover have "head_tbl s (fst e) = Some t"
    using hash_of_live [OF assms, of e] t(1) by (simp add: head_tbl_def)
  ultimately show ?thesis by (intro that) simp_all
qed

subsection \<open>Lookup and insertion on the list of entries\<close>

lemma find_unique: "p \<in> set ps \<Longrightarrow> P p \<Longrightarrow> (\<And>q. q \<in> set ps \<Longrightarrow> P q \<Longrightarrow> q = p) \<Longrightarrow> find P ps = Some p"
proof (induction ps)
  case (Cons a ps)
  show ?case
  proof (cases "P a")
    case True
    with Cons.prems(3) [of a] show ?thesis by simp
  next
    case False
    with Cons.prems(1,2) have "p \<in> set ps" by auto
    then have "find P ps = Some p" using Cons.prems(2,3) by (rule Cons.IH) simp
    with False show ?thesis by simp
  qed
qed simp

lemma find_none: "(\<And>q. q \<in> set ps \<Longrightarrow> \<not> P q) \<Longrightarrow> find P ps = None"
  by (auto simp: find_None_iff)

lemma key_match:
  assumes "length k < 2 ^ 32" "length k' < 2 ^ 32"
  shows "hh_keylen (key_of k') = word_of_nat (length k) \<and> HASH_KEYCMP (hh_key (key_of k')) k (word_of_nat (length k))
    \<longleftrightarrow> k' = k"
proof -
  have u: "unat (word_of_nat (length k) :: u32) = length k" "unat (word_of_nat (length k') :: u32) = length k'"
    using assms by (simp_all add: unat_of_nat)
  show ?thesis
  proof
    assume m: "hh_keylen (key_of k') = word_of_nat (length k) \<and> HASH_KEYCMP (hh_key (key_of k')) k (word_of_nat (length k))"
    then have "length k' = length k" using u by (simp add: key_of_def)
    with m u show "k' = k" by (simp add: key_of_def HASH_KEYCMP_def)
  qed (simp add: key_of_def HASH_KEYCMP_def)
qed

lemma HASH_FIND_spec:
  assumes "hash_of s es" "length k < 2 ^ 32"
  shows "HASH_FIND s k (word_of_nat (length k)) = Some (map_option fst (find (\<lambda>e. fst (snd e) = k) es))"
proof (cases es)
  case Nil
  with assms(1) show ?thesis by (simp add: hash_of_def dlist_def HASH_FIND_def)
next
  case (Cons e0 es')
  from assms(1) [unfolded Cons] obtain t where t: "ut_head s = Some (fst e0)" "head_tbl s (fst e0) = Some t"
    "tbl_ok (ut_chain s) t (fst ` set es)"
    by (rule hash_of_head) (auto simp: Cons)
  then obtain j B where j: "j < 31" "unat (tbl_num_buckets t) = 2 ^ j"
    and B: "length B = 2 ^ j" "chains (ut_chain s) (tbl_buckets t) B" "placed (ut_chain s) B" "set (concat B) = fst ` set es"
    by (auto simp: tbl_ok_def)
  define h where "h = HASH_JEN k (word_of_nat (length k))"
  define b where "b = unat h mod 2 ^ j"
  have b: "HASH_TO_BKT h (tbl_num_buckets t) = b" using HASH_TO_BKT_mod [OF j(2)] j(1) by (simp add: b_def)
  have "b < 2 ^ j" by (simp add: b_def)
  with B have bl: "b < length (tbl_buckets t)" "b < length B" by (auto simp: chains_def)
  define P where "P = (\<lambda>(p :: nat) (n :: handle_key dnode). hh_keylen (payload n) = word_of_nat (length k) \<and> HASH_KEYCMP (hh_key (payload n)) k (word_of_nat (length k)))"
  have seg: "dseg (ut_chain s) None (hh_head (tbl_buckets t ! b)) (B ! b) None" using B(2) bl by (simp add: chains_def)
  have "HASH_FIND s k (word_of_nat (length k)) = Some (find (\<lambda>p. P p (the (ut_chain s p))) (B ! b))"
    using t(1,2) bl(1) LIST_MATCH_dseg [OF seg, of P]
    by (simp add: HASH_FIND_def HASH_FIND_IN_BKT_def h_def [symmetric] b P_def)
  moreover have "B ! b \<in> set B" using bl by simp
  then have sub: "set (B ! b) \<subseteq> fst ` set es" using B(4) by auto
  have P: "P p (the (ut_chain s p)) \<longleftrightarrow> fst (snd e) = k" if "e \<in> set es" "fst e = p" for e p
  proof -
    from assms(1) that have "payload (the (ut_chain s p)) = key_of (fst (snd e))" "length (fst (snd e)) < 2 ^ 32"
      by (auto simp: hash_of_def entry_ok_def dest!: payload_at_the)
    then show ?thesis using key_match [OF assms(2)] by (simp add: P_def)
  qed
  have uniq: "e = e'" if "e \<in> set es" "e' \<in> set es" "fst (snd e) = fst (snd e')" for e e'
    using assms(1) that by (auto simp: hash_of_def distinct_map inj_on_def)
  have "find (\<lambda>p. P p (the (ut_chain s p))) (B ! b) = map_option fst (find (\<lambda>e. fst (snd e) = k) es)"
  proof (cases "\<exists>e \<in> set es. fst (snd e) = k")
    case False
    then have "find (\<lambda>e. fst (snd e) = k) es = None" by (auto intro: find_none)
    moreover have "find (\<lambda>p. P p (the (ut_chain s p))) (B ! b) = None"
      using False sub P by (intro find_none) blast
    ultimately show ?thesis by simp
  next
    case True
    then obtain e where e: "e \<in> set es" "fst (snd e) = k" by blast
    then have "fst e \<in> set (concat B)" using B(4) by blast
    then obtain ys where "ys \<in> set B" "fst e \<in> set ys" by auto
    then obtain i where i: "i < length B" "fst e \<in> set (B ! i)" by (metis in_set_conv_nth)
    from B(3) i obtain ky where "payload_at (ut_chain s) (fst e) = Some ky" "unat (hh_hashv ky) mod length B = i"
      by (auto simp: placed_def)
    moreover have "payload_at (ut_chain s) (fst e) = Some (key_of k)"
      using assms(1) e by (auto simp: hash_of_def entry_ok_def)
    ultimately have "i = b" using B(1) by (auto simp: b_def h_def key_of_def)
    then have "find (\<lambda>p. P p (the (ut_chain s p))) (B ! b) = Some (fst e)"
      using i(2) P [OF e(1) refl] e sub P uniq by (intro find_unique) blast+
    moreover have "find (\<lambda>e. fst (snd e) = k) es = Some e"
    proof (rule find_unique [of e])
      show "q = e" if "q \<in> set es" "fst (snd q) = k" for q using uniq [OF that(1) e(1)] that(2) e(2) by simp
    qed (rule e)+
    ultimately show ?thesis by simp
  qed
  ultimately show ?thesis by simp
qed

text \<open>Appending through the tail pointer is \<^verbatim>\<open>LIST_APPEND\<close>.\<close>

lemma HASH_APPEND_LIST_eq:
  assumes "dlist (ut_app s) head ps" "ps \<noteq> []" "tbl_tail t = Some (last ps)"
  shows "HASH_APPEND_LIST s p t = map_option (\<lambda>r. (fst r, t\<lparr>tbl_tail := Some p\<rparr>)) (LIST_APPEND (ut_app s) head p)"
proof -
  have "LIST_LAST (ut_app s) head = Some (Some (last ps))"
    using LIST_LAST_dseg [of "ut_app s" None head ps] assms(1,2) by (simp add: dlist_def last_or_def)
  then show ?thesis
    using assms(3) by (auto simp: HASH_APPEND_LIST_def LIST_APPEND_def update_node_def split: option.splits)
qed

definition memory_for_add :: "(nat \<Rightarrow> bool) \<Rightarrow> 'v uthash \<Rightarrow> bool" where
  "memory_for_add malloc s \<longleftrightarrow> malloc_bounded malloc
     \<and> (case ut_head s of
          None \<Rightarrow> malloc sizeof_UT_hash_table \<and> malloc (32 * sizeof_UT_hash_bucket) \<and> malloc (64 * sizeof_UT_hash_bucket)
        | Some _ \<Rightarrow> (case ut_tbl s of None \<Rightarrow> False | Some t \<Rightarrow> malloc (expand_request t)))"

lemma tbl_ok_cong:
  assumes "tbl_ok c t ps" "\<And>q. q \<in> ps \<Longrightarrow> c' q = c q"
  shows "tbl_ok c' t ps"
proof -
  from assms(1) obtain k B where k: "k < 31" "unat (tbl_log2_num_buckets t) = k" "unat (tbl_num_buckets t) = 2 ^ k"
    "length B = 2 ^ k" "chains c (tbl_buckets t) B" "placed c B" "set (concat B) = ps"
    by (auto simp: tbl_ok_def)
  have same: "c' q = c q" if "i < length B" "q \<in> set (B ! i)" for i q
    using that k(7) by (intro assms(2)) auto
  have "chains c' (tbl_buckets t) B"
    unfolding chains_def
  proof (intro conjI allI impI)
    fix i assume i: "i < length (tbl_buckets t)"
    then have "i < length B" using k(5) by (simp add: chains_def)
    then have "dseg c' None (hh_head (tbl_buckets t ! i)) (B ! i) None
      = dseg c None (hh_head (tbl_buckets t ! i)) (B ! i) None"
      by (intro dseg_cong same)
    with k(5) i show "dseg c' None (hh_head (tbl_buckets t ! i)) (B ! i) None"
      "bkt_count (tbl_buckets t ! i) = word_of_nat (length (B ! i))" by (simp_all add: chains_def)
  qed (use k(5) in \<open>simp_all add: chains_def\<close>)
  moreover have "placed c' B" using k(6) same by (simp add: placed_def payload_at_def)
  ultimately show ?thesis using k unfolding tbl_ok_def by blast
qed

lemma HASH_ADD_KEYPTR_spec:
  assumes "hash_of s es" "length k < 2 ^ 32" "k \<notin> fst ` snd ` set es" "p \<notin> fst ` set es"
    and "payload_at (ut_app s) p = Some v" "ut_chain s p \<noteq> None" "length es < 2 ^ 32 - 1" "memory_for_add malloc s"
  shows "\<exists>s'. HASH_ADD_KEYPTR malloc s k (word_of_nat (length k)) p = Some s' \<and> hash_of s' (es @ [(p, k, v)])
    \<and> (\<forall>q. payload_at (ut_app s') q = payload_at (ut_app s) q)
    \<and> (\<forall>q. q \<noteq> p \<longrightarrow> payload_at (ut_chain s') q = payload_at (ut_chain s) q)
    \<and> dom (ut_app s') = dom (ut_app s) \<and> dom (ut_chain s') = dom (ut_chain s)"
proof -
  from assms(6) obtain n where n: "ut_chain s p = Some n" by blast
  define c1 where "c1 = (ut_chain s)(p \<mapsto> n\<lparr>payload := key_of k\<rparr>)"
  have p1: "c1 p = Some (n\<lparr>payload := key_of k\<rparr>)" by (simp add: c1_def)
  have upd: "update_node (ut_chain s) p (\<lambda>n. n\<lparr>payload := \<lparr>hh_key = k, hh_keylen = word_of_nat (length k),
      hh_hashv = HASH_JEN k (word_of_nat (length k))\<rparr>\<rparr>) = Some c1"
    using n by (simp add: update_node_def c1_def key_of_def)
  have dl: "dlist (ut_app s) (ut_head s) (map fst es)" using assms(1) by (simp add: hash_of_def)
  obtain m where m: "ut_app s p = Some m" "payload m = v" using assms(5) by (auto simp: payload_at_def)
  from LIST_APPEND_dlist [OF dl m(1)] assms(4) obtain app' head' where
    app: "LIST_APPEND (ut_app s) (ut_head s) p = Some (app', head')" "dlist app' head' (map fst es @ [p])"
      "\<And>q. payload_at app' q = payload_at (ut_app s) q" by auto
  text \<open>The list and the table, before the bucket is changed.\<close>
  have "\<exists>t. (case ut_head s of
             None \<Rightarrow>
               Option.bind (update_node (ut_app s) p (\<lambda>n. n\<lparr> nxt := None, prev := None \<rparr>)) (\<lambda>app.
               Option.bind (HASH_MAKE_TABLE malloc p) (\<lambda>tbl. Some (app, Some p, tbl)))
           | Some h \<Rightarrow>
               Option.bind (head_tbl s h) (\<lambda>tbl.
               Option.bind (HASH_APPEND_LIST s p tbl) (\<lambda>(app, tbl). Some (app, Some h, tbl)))) = Some (app', head', t)
      \<and> tbl_ok c1 t (fst ` set es) \<and> tbl_num_items t = word_of_nat (length es) \<and> tbl_tail t = Some p
      \<and> malloc (expand_request t)"
  proof (cases es)
    case Nil
    then have h: "ut_head s = None" using dl by (simp add: dlist_def)
    let ?t = "\<lparr> tbl_buckets = replicate 32 empty_bucket,
             tbl_num_buckets = 32, tbl_log2_num_buckets = 5,
             tbl_num_items = 0, tbl_tail = Some p, tbl_ideal_chain_maxlen = 0, tbl_nonideal_items = 0,
             tbl_ineff_expands = 0, tbl_noexpand = 0 \<rparr>"
    have "tbl_ok c1 ?t {}"
      unfolding tbl_ok_def
      by (intro exI [of _ 5] exI [of _ "replicate 32 []"]) (auto simp: chains_def placed_def empty_bucket_def)
    with h app(1) m assms(8) Nil show ?thesis
      by (intro exI [of _ ?t])
         (auto simp: LIST_APPEND_def update_node_def HASH_MAKE_TABLE_def memory_for_add_def expand_request_def
           HASH_INITIAL_NUM_BUCKETS_def HASH_INITIAL_NUM_BUCKETS_LOG2_def)
  next
    case (Cons e0 es')
    from assms(1) [unfolded Cons] obtain t where t: "ut_head s = Some (fst e0)" "head_tbl s (fst e0) = Some t" "ut_tbl s = Some t"
      "tbl_ok (ut_chain s) t (fst ` set es)" "tbl_num_items t = word_of_nat (length es)" "tbl_tail t = Some (last (map fst es))"
      by (rule hash_of_head) (auto simp: Cons)
    have "head' = Some (fst e0)" using app(2) Cons by (auto simp: dlist_def)
    moreover have "tbl_ok c1 (t\<lparr>tbl_tail := Some p\<rparr>) (fst ` set es)"
      unfolding tbl_ok_fields by (rule tbl_ok_cong [OF t(4)]) (use assms(4) in \<open>auto simp: c1_def\<close>)
    ultimately show ?thesis
      using t HASH_APPEND_LIST_eq [OF dl _ t(6)] Cons app(1) assms(8)
      by (intro exI [of _ "t\<lparr>tbl_tail := Some p\<rparr>"]) (auto simp: memory_for_add_def expand_request_def)
  qed
  then obtain t where t: "(case ut_head s of
             None \<Rightarrow>
               Option.bind (update_node (ut_app s) p (\<lambda>n. n\<lparr> nxt := None, prev := None \<rparr>)) (\<lambda>app.
               Option.bind (HASH_MAKE_TABLE malloc p) (\<lambda>tbl. Some (app, Some p, tbl)))
           | Some h \<Rightarrow>
               Option.bind (head_tbl s h) (\<lambda>tbl.
               Option.bind (HASH_APPEND_LIST s p tbl) (\<lambda>(app, tbl). Some (app, Some h, tbl)))) = Some (app', head', t)"
      "tbl_ok c1 t (fst ` set es)" "tbl_num_items t = word_of_nat (length es)" "tbl_tail t = Some p"
      "malloc (expand_request t)" by blast
  let ?t = "t\<lparr>tbl_num_items := tbl_num_items t + 1\<rparr>"
  have items: "tbl_num_items ?t = word_of_nat (Suc (length es))" using t(3) by simp
  have "tbl_num_items ?t \<noteq> 0"
    using assms(7) unfolding items by (simp add: word_of_nat_eq_0_iff del: of_nat_Suc) (auto dest: dvd_imp_le)
  moreover have "tbl_ok c1 ?t (fst ` set es)" using t(2) by simp
  moreover have "malloc_bounded malloc" using assms(8) by (simp add: memory_for_add_def)
  moreover have "malloc (expand_request ?t)" using t(5) by (simp add: expand_request_def)
  ultimately have "\<exists>c' t'. HASH_ADD_TO_BKT malloc c1 ?t (HASH_TO_BKT (hh_hashv (key_of k)) (tbl_num_buckets t)) p = Some (c', t')
    \<and> tbl_ok c' t' (insert p (fst ` set es)) \<and> tbl_num_items t' = tbl_num_items ?t \<and> tbl_tail t' = tbl_tail ?t
    \<and> (\<forall>q. payload_at c' q = payload_at c1 q) \<and> (\<forall>q. q \<notin> insert p (fst ` set es) \<longrightarrow> c' q = c1 q)"
    using p1 assms(4) by (intro HASH_ADD_TO_BKT_spec) auto
  then obtain c' t' where c': "HASH_ADD_TO_BKT malloc c1 ?t (HASH_TO_BKT (hh_hashv (key_of k)) (tbl_num_buckets t)) p = Some (c', t')"
    "tbl_ok c' t' (insert p (fst ` set es))" "tbl_num_items t' = word_of_nat (Suc (length es))" "tbl_tail t' = Some p"
    "\<And>q. payload_at c' q = payload_at c1 q" using t(4) items by auto
  let ?s = "\<lparr> ut_app = app', ut_chain = c', ut_head = head', ut_tbl = Some t' \<rparr>"
  have "HASH_ADD_KEYPTR malloc s k (word_of_nat (length k)) p = Some ?s"
    unfolding HASH_ADD_KEYPTR_def Let_def upd t(1) using c'(1) by (simp add: key_of_def)
  moreover have "hash_of ?s (es @ [(p, k, v)])"
  proof -
    have "entry_ok ?s (p, k, v)"
      using app(3) c'(5) assms(2,5) by (simp add: entry_ok_def c1_def payload_at_upd)
    moreover have "entry_ok ?s e" if "e \<in> set es" for e
    proof -
      have "fst e \<noteq> p" using that assms(4) by auto
      then show ?thesis
        using assms(1) that app(3) c'(5) by (simp add: hash_of_def entry_ok_def c1_def payload_at_upd)
    qed
    moreover have "distinct (map (fst \<circ> snd) (es @ [(p, k, v)]))"
      using assms(1,3) by (auto simp: hash_of_def image_iff)
    moreover have "table_of ?s (map fst (es @ [(p, k, v)]))" using c'(2-4) by (simp add: table_of_def)
    ultimately show ?thesis using app(2) by (auto simp: hash_of_def)
  qed
  moreover have "dom app' = dom (ut_app s)" using app(3) by (rule payload_at_dom)
  moreover have "dom c' = dom c1" using c'(5) by (rule payload_at_dom)
  then have "dom c' = dom (ut_chain s)" using n by (auto simp: c1_def)
  ultimately show ?thesis using app(3) c'(5) by (auto simp: c1_def payload_at_upd)
qed

subsection \<open>Deletion on the list of entries\<close>

lemma dlist_links:
  assumes "dlist h head ps" "e \<in> set ps" "h e = Some d"
  obtains as bs where "ps = as @ e # bs" "prev d = last_or None as" "nxt d = (if bs = [] then None else Some (hd bs))"
    "head = Some (hd ps)"
proof -
  from assms(2) obtain as bs where ps: "ps = as @ e # bs" by (auto simp: in_set_conv_decomp)
  from assms(1) ps have seg: "dseg h None head (as @ e # bs) None" by (simp add: dlist_def)
  with assms(3) have d: "prev d = last_or None as" "dseg h (Some e) (nxt d) bs None"
    by (auto simp: dseg_append)
  have "nxt d = (if bs = [] then None else Some (hd bs))" using dseg_head [OF d(2)] .
  moreover have "head = Some (hd ps)" using dseg_head [OF seg] ps by simp
  ultimately show ?thesis using that ps d(1) by blast
qed

text \<open>Taking an element out is \<^verbatim>\<open>LIST_DELETE\<close>, with the two neighbours changed in the other order.\<close>

lemma unlink_eq:
  assumes "dlist h head ps" "e \<in> set ps" "h e = Some d"
  shows "Option.bind (case prev d of None \<Rightarrow> Some h | Some q \<Rightarrow> update_node h q (\<lambda>n. n\<lparr>nxt := nxt d\<rparr>))
      (\<lambda>h. case nxt d of None \<Rightarrow> Some h | Some q \<Rightarrow> update_node h q (\<lambda>n. n\<lparr>prev := prev d\<rparr>))
    = map_option fst (LIST_DELETE h head e)"
    and "prev d = None \<longleftrightarrow> head = Some e" and "nxt d = None \<longleftrightarrow> last ps = e"
    and "map_option snd (LIST_DELETE h head e) = Some (if prev d = None then nxt d else head)"
    and "ps \<noteq> [e] \<Longrightarrow> last ps = e \<Longrightarrow> prev d = Some (last (remove1 e ps))"
    and "last ps \<noteq> e \<Longrightarrow> last (remove1 e ps) = last ps"
    and "prev d = None \<Longrightarrow> nxt d = None \<Longrightarrow> ps = [e]"
proof -
  from assms obtain as bs where ps: "ps = as @ e # bs" and l: "prev d = last_or None as"
    "nxt d = (if bs = [] then None else Some (hd bs))" "head = Some (hd ps)" by (rule dlist_links)
  have dist: "distinct (as @ e # bs)" using assms(1) ps by (simp add: dlist_def)
  have ne: "q1 \<noteq> q2" if "prev d = Some q1" "nxt d = Some q2" for q1 q2
    using that l dist by (auto simp: last_or_def split: if_splits) (metis disjoint_iff hd_in_set last_in_set)+
  have live: "h q \<noteq> None" if "q \<in> set ps" for q using dseg_live that assms(1) by (fastforce simp: dlist_def)
  have sub: "q \<in> set ps" if "prev d = Some q \<or> nxt d = Some q" for q
    using that l ps by (auto simp: last_or_def split: if_splits)
  show "Option.bind (case prev d of None \<Rightarrow> Some h | Some q \<Rightarrow> update_node h q (\<lambda>n. n\<lparr>nxt := nxt d\<rparr>))
      (\<lambda>h. case nxt d of None \<Rightarrow> Some h | Some q \<Rightarrow> update_node h q (\<lambda>n. n\<lparr>prev := prev d\<rparr>))
    = map_option fst (LIST_DELETE h head e)"
    using assms(3) ne sub live
    by (cases "prev d"; cases "nxt d") (auto simp: LIST_DELETE_def update_node_def fun_upd_twist split: option.splits)
  show "prev d = None \<longleftrightarrow> head = Some e" using l ps dist by (cases as) (auto simp: last_or_def)
  show "nxt d = None \<longleftrightarrow> last ps = e" using l ps dist by (cases bs rule: rev_cases) auto
  obtain h' head' where "LIST_DELETE h head e = Some (h', head')"
    using LIST_DELETE_dlist [OF assms(1,2)] by blast
  then show "map_option snd (LIST_DELETE h head e) = Some (if prev d = None then nxt d else head)"
    using assms(3) by (auto simp: LIST_DELETE_def split: option.splits)
  have rem: "remove1 e ps = as @ bs" using ps dist by (simp add: remove1_append)
  show "prev d = Some (last (remove1 e ps))" if "ps \<noteq> [e]" "last ps = e"
    using that l(1) ps dist rem by (cases bs rule: rev_cases) (auto simp: last_or_def)
  show "last (remove1 e ps) = last ps" if "last ps \<noteq> e"
    using that ps rem by (cases bs rule: rev_cases) auto
  show "ps = [e]" if "prev d = None" "nxt d = None"
    using that l(1,2) ps by (auto simp: last_or_def split: if_splits)
qed

lemma concat_update_sub:
  assumes "b < length B" "distinct (concat B)"
  shows "set (concat (B[b := remove1 p (B ! b)])) = set (concat B) - (if p \<in> set (B ! b) then {p} else {})"
    and "distinct (concat (B[b := remove1 p (B ! b)]))"
proof -
  have B: "concat B = concat (take b B) @ B ! b @ concat (drop (Suc b) B)"
    by (subst id_take_nth_drop [OF assms(1)]) simp
  have B': "concat (B[b := remove1 p (B ! b)]) = concat (take b B) @ remove1 p (B ! b) @ concat (drop (Suc b) B)"
    using assms by (simp add: upd_conv_take_nth_drop)
  note d = assms(2) [unfolded B]
  have r: "set (remove1 p (B ! b)) = set (B ! b) - {p}" using d by (simp add: set_remove1_eq)
  show "set (concat (B[b := remove1 p (B ! b)])) = set (concat B) - (if p \<in> set (B ! b) then {p} else {})"
    using d unfolding B B' set_append r by auto
  show "distinct (concat (B[b := remove1 p (B ! b)]))"
    using d unfolding B' by (auto simp: distinct_remove1 dest: in_set_remove1)
qed

lemma HASH_DEL_IN_BKT_spec:
  assumes "dlist c (hh_head bkt) ps" "p \<in> set ps" "bkt_count bkt = word_of_nat (length ps)"
  shows "\<exists>c' bkt'. HASH_DEL_IN_BKT c bkt p = Some (c', bkt') \<and> dlist c' (hh_head bkt') (remove1 p ps)
    \<and> bkt_count bkt' = word_of_nat (length (remove1 p ps))
    \<and> (\<forall>q. payload_at c' q = payload_at c q) \<and> (\<forall>q. q \<notin> set ps \<longrightarrow> c' q = c q)"
proof -
  obtain d where d: "c p = Some d" using dseg_live assms(1,2) by (fastforce simp: dlist_def)
  note u = unlink_eq [OF assms(1,2) d]
  from LIST_DELETE_dlist [OF assms(1,2)] obtain c' head' where
    l: "LIST_DELETE c (hh_head bkt) p = Some (c', head')" "dlist c' head' (remove1 p ps)"
      "\<forall>q. payload_at c' q = payload_at c q" "\<forall>q. q \<notin> set ps \<longrightarrow> c' q = c q" by blast
  have head: "head' = (if hh_head bkt = Some p then nxt d else hh_head bkt)" using u(2,4) l(1) by auto
  let ?bkt = "if hh_head bkt = Some p then bkt\<lparr>bkt_count := bkt_count bkt - 1, hh_head := nxt d\<rparr>
    else bkt\<lparr>bkt_count := bkt_count bkt - 1\<rparr>"
  from u(1) l(1) obtain c1 where c1: "(case prev d of None \<Rightarrow> Some c | Some q \<Rightarrow> update_node c q (\<lambda>n. n\<lparr>nxt := nxt d\<rparr>)) = Some c1"
    "(case nxt d of None \<Rightarrow> Some c1 | Some q \<Rightarrow> update_node c1 q (\<lambda>n. n\<lparr>prev := prev d\<rparr>)) = Some c'"
    by (auto simp: bind_eq_Some_conv)
  have "HASH_DEL_IN_BKT c bkt p = Some (c', ?bkt)"
    unfolding HASH_DEL_IN_BKT_def d option.case Let_def c1(1) bind.bind_lunit c1(2) by simp
  moreover have "hh_head ?bkt = head'" using head by simp
  moreover have "bkt_count ?bkt = word_of_nat (length (remove1 p ps))"
    using assms(2,3) by (cases "length ps") (auto simp: length_remove1)
  ultimately show ?thesis using l by auto
qed

lemma table_delete:
  assumes "tbl_ok c t ps" "p \<in> ps" "c p = Some n" "b = HASH_TO_BKT (hh_hashv (payload n)) (tbl_num_buckets t)"
  shows "\<exists>bkt c' bkt'. array_get (tbl_buckets t) b = Some bkt \<and> HASH_DEL_IN_BKT c bkt p = Some (c', bkt')
    \<and> tbl_ok c' (t\<lparr>tbl_buckets := (tbl_buckets t)[b := bkt']\<rparr>) (ps - {p})
    \<and> (\<forall>q. payload_at c' q = payload_at c q) \<and> (\<forall>q. q \<notin> ps \<longrightarrow> c' q = c q)"
proof -
  from assms(1) obtain k B where k: "k < 31" "unat (tbl_log2_num_buckets t) = k" "unat (tbl_num_buckets t) = 2 ^ k"
    and B: "length B = 2 ^ k" "chains c (tbl_buckets t) B" "placed c B" "set (concat B) = ps"
    by (auto simp: tbl_ok_def)
  have b: "b = unat (hh_hashv (payload n)) mod 2 ^ k" using assms(4) HASH_TO_BKT_mod [OF k(3)] k(1) by simp
  then have "b < 2 ^ k" by simp
  with B have bl: "b < length (tbl_buckets t)" "b < length B" by (auto simp: chains_def)
  define bkt where "bkt = tbl_buckets t ! b"
  from assms(2) B(4) obtain ys where "ys \<in> set B" "p \<in> set ys" by auto
  then obtain i where i: "i < length B" "p \<in> set (B ! i)" by (metis in_set_conv_nth)
  with B(3) assms(3) have "i = b" using B(1) b by (fastforce simp: placed_def)
  with i have pb: "p \<in> set (B ! b)" by simp
  have Bb: "B ! b \<in> set B" using bl by simp
  then have sub: "set (B ! b) \<subseteq> ps" using B(4) by auto
  have dist: "distinct (concat B)" using B(2) by (simp add: chains_def)
  then have dl: "dlist c (hh_head bkt) (B ! b)" and cnt: "bkt_count bkt = word_of_nat (length (B ! b))"
    using B(2) bl Bb by (auto simp: chains_def bkt_def dlist_def distinct_concat_iff)
  from HASH_DEL_IN_BKT_spec [OF dl pb cnt] obtain c' bkt' where
    c': "HASH_DEL_IN_BKT c bkt p = Some (c', bkt')" "dlist c' (hh_head bkt') (remove1 p (B ! b))"
      "bkt_count bkt' = word_of_nat (length (remove1 p (B ! b)))"
      "\<And>q. payload_at c' q = payload_at c q" "\<And>q. q \<notin> set (B ! b) \<Longrightarrow> c' q = c q" by blast
  let ?B = "B[b := remove1 p (B ! b)]"
  have "dseg c' None (hh_head (tbl_buckets t ! i)) (B ! i) None" if "i < length (tbl_buckets t)" "i \<noteq> b" for i
  proof (subst dseg_cong [of _ c' c])
    fix q assume "q \<in> set (B ! i)"
    then have "q \<notin> set (B ! b)" using concat_nth_disjoint [OF dist, of i b] that bl B(2) by (auto simp: chains_def)
    then show "c' q = c q" by (rule c'(5))
  qed (use B(2) that in \<open>auto simp: chains_def\<close>)
  then have "chains c' ((tbl_buckets t)[b := bkt']) ?B"
    using B(2) bl c'(2,3) concat_update_sub(2) [OF bl(2) dist, of p]
    by (auto simp: chains_def nth_list_update dlist_def)
  moreover have "set (?B ! i) \<subseteq> set (B ! i)" if "i < length B" for i
    using that set_remove1_subset [of p "B ! b"] by (cases "i = b") auto
  then have "placed c' ?B" using B(3) by (simp add: placed_def c'(4)) blast
  moreover have "set (concat ?B) = ps - {p}" using concat_update_sub(1) [OF bl(2) dist, of p] pb B(4) by simp
  ultimately have "tbl_ok c' (t\<lparr>tbl_buckets := (tbl_buckets t)[b := bkt']\<rparr>) (ps - {p})"
    using k B(1) unfolding tbl_ok_def by (intro exI [of _ k] exI [of _ ?B]) simp
  moreover have "c' q = c q" if "q \<notin> ps" for q using that sub by (intro c'(5)) auto
  ultimately show ?thesis
    using bl c'(1,4) by (intro exI [of _ bkt] exI [of _ c'] exI [of _ bkt']) (simp add: bkt_def)
qed

lemma HASH_DELETE_spec:
  assumes "hash_of s es" "e \<in> set es"
  shows "\<exists>s'. HASH_DELETE s (fst e) = Some s' \<and> hash_of s' (filter (\<lambda>x. fst x \<noteq> fst e) es)
    \<and> (\<forall>q. payload_at (ut_app s') q = payload_at (ut_app s) q) \<and> (\<forall>q. payload_at (ut_chain s') q = payload_at (ut_chain s) q)"
proof -
  let ?p = "fst e" and ?ps = "map fst es" and ?es = "filter (\<lambda>x. fst x \<noteq> fst e) es"
  have dl: "dlist (ut_app s) (ut_head s) ?ps" using assms(1) by (simp add: hash_of_def)
  have p: "?p \<in> set ?ps" using assms(2) by simp
  have rem: "remove1 ?p ?ps = map fst ?es" using dl by (intro remove1_map_fst) (simp add: dlist_def)
  obtain d n where d: "ut_app s ?p = Some d" and n: "ut_chain s ?p = Some n"
    using hash_of_live [OF assms] by blast
  note u = unlink_eq [OF dl p d]
  from assms(2) obtain e0 es' where es: "es = e0 # es'" by (cases es) auto
  from assms(1) [unfolded es] obtain t where t: "ut_head s = Some (fst e0)" "head_tbl s (fst e0) = Some t"
    "tbl_ok (ut_chain s) t (fst ` set es)" "tbl_num_items t = word_of_nat (length es)" "tbl_tail t = Some (last ?ps)"
    by (rule hash_of_head) (auto simp: es)
  have dist: "distinct (map (fst \<circ> snd) ?es)" using assms(1) by (simp add: hash_of_def distinct_map_filter)
  show ?thesis
  proof (cases "prev d = None \<and> nxt d = None")
    case True
    then have "?es = []" using u(7) rem by simp
    then have "hash_of (s\<lparr>ut_head := None, ut_tbl := None\<rparr>) ?es" by (simp add: hash_of_empty)
    then show ?thesis using True t(1,2) d n by (simp add: HASH_DELETE_def)
  next
    case False
    have single: "?ps \<noteq> [?p]"
    proof
      assume one: "?ps = [?p]"
      then have "last ?ps = ?p" "ut_head s = Some ?p" using t(1) es by auto
      with u(2,3) False show False by simp
    qed
    from LIST_DELETE_dlist [OF dl p] obtain app' head' where
      l: "LIST_DELETE (ut_app s) (ut_head s) ?p = Some (app', head')" "dlist app' head' (map fst ?es)"
        "\<And>q. payload_at app' q = payload_at (ut_app s) q" unfolding rem by blast
    have head: "head' = (if prev d = None then nxt d else ut_head s)" using u(4) l(1) by simp
    from u(1) l(1) obtain a1 where a1: "(case prev d of None \<Rightarrow> Some (ut_app s) | Some q \<Rightarrow> update_node (ut_app s) q (\<lambda>n. n\<lparr>nxt := nxt d\<rparr>)) = Some a1"
      "(case nxt d of None \<Rightarrow> Some a1 | Some q \<Rightarrow> update_node a1 q (\<lambda>n. n\<lparr>prev := prev d\<rparr>)) = Some app'"
      by (auto simp: bind_eq_Some_conv)
    have first: "(case prev d of
                   Some q \<Rightarrow> map_option (\<lambda>app. (app, Some (fst e0))) (update_node (ut_app s) q (\<lambda>n. n\<lparr> nxt := nxt d \<rparr>))
                 | None \<Rightarrow> Some (ut_app s, nxt d)) = Some (a1, head')"
      using a1(1) head t(1) by (cases "prev d") auto
    define t1 where "t1 = (if tbl_tail t = Some ?p then t\<lparr>tbl_tail := prev d\<rparr> else t)"
    have t1: "tbl_ok (ut_chain s) t1 (fst ` set es)" "tbl_num_items t1 = tbl_num_items t"
      using t(3) by (simp_all add: t1_def)
    have tail: "tbl_tail t1 = Some (last (map fst ?es))"
      using u(5) [OF single] u(6) t(5) by (auto simp: t1_def rem)
    have "?p \<in> fst ` set es" using assms(2) by simp
    from table_delete [OF t1(1) this n refl] obtain bkt c' bkt' where
      b: "array_get (tbl_buckets t1) (HASH_TO_BKT (hh_hashv (payload n)) (tbl_num_buckets t1)) = Some bkt"
        "HASH_DEL_IN_BKT (ut_chain s) bkt ?p = Some (c', bkt')"
        "tbl_ok c' (t1\<lparr>tbl_buckets := (tbl_buckets t1)[HASH_TO_BKT (hh_hashv (payload n)) (tbl_num_buckets t1) := bkt']\<rparr>) (fst ` set es - {?p})"
        "\<And>q. payload_at c' q = payload_at (ut_chain s) q" by blast
    let ?t = "t1\<lparr> tbl_buckets := (tbl_buckets t1)[HASH_TO_BKT (hh_hashv (payload n)) (tbl_num_buckets t1) := bkt'],
      tbl_num_items := tbl_num_items t1 - 1 \<rparr>"
    let ?s = "\<lparr> ut_app = app', ut_chain = c', ut_head = head', ut_tbl = Some ?t \<rparr>"
    have "HASH_DELETE s ?p = Some ?s"
      unfolding HASH_DELETE_def t(1) d n option.case prod.case t(2) bind.bind_lunit if_not_P [OF False] Let_def
        t1_def [symmetric] first a1(2) b(1,2) by simp
    moreover have "hash_of ?s ?es"
    proof -
      have "set (map fst ?es) = fst ` set es - {?p}" by auto
      moreover have "length (map fst ?es) = length es - 1" using rem p by (metis length_map length_remove1)
      then have "tbl_num_items t1 - 1 = word_of_nat (length (map fst ?es))"
        using t(4) t1(2) es by simp
      ultimately have "table_of ?s (map fst ?es)" using b(3) tail by (simp add: table_of_def)
      moreover have "entry_ok ?s x" if "x \<in> set ?es" for x
        using assms(1) that l(3) b(4) by (simp add: hash_of_def entry_ok_def)
      ultimately show ?thesis using dist l(2) by (simp add: hash_of_def)
    qed
    ultimately show ?thesis using l(3) b(4) by simp
  qed
qed

subsection \<open>Iterating with a body that frees\<close>

definition free_element :: "'v uthash \<Rightarrow> nat \<Rightarrow> 'v uthash option" where
  "free_element s p = (if ut_app s p = None then None
     else Some (s\<lparr> ut_app := (ut_app s)(p := None), ut_chain := (ut_chain s)(p := None) \<rparr>))"

lemma hash_iter_simps:
  "hash_iter body s (None, tmp) = Some s"
  "hash_iter body s (Some p, tmp) =
     Option.bind (body s p) (\<lambda>s. Option.bind (app_next s tmp) (\<lambda>tmp'. hash_iter body s (tmp, tmp')))"
  by (subst hash_iter.simps, simp)+

lemma hash_iter_free:
  "sseg (ut_app s) cur ps \<Longrightarrow> distinct ps \<Longrightarrow> app_next s cur = Some tmp \<Longrightarrow>
    hash_iter free_element s (cur, tmp) =
      Some (s\<lparr> ut_app := ut_app s |` (- set ps), ut_chain := ut_chain s |` (- set ps) \<rparr>)"
proof (induction ps arbitrary: s cur tmp)
  case Nil
  then show ?case by (simp add: hash_iter_simps)
next
  case (Cons p ps)
  then obtain n where n: "cur = Some p" "ut_app s p = Some n" "sseg (ut_app s) (nxt n) ps"
    by (auto split: option.splits)
  with Cons.prems(3) have tmp: "tmp = nxt n" by (simp add: app_next_def)
  let ?s = "s\<lparr> ut_app := (ut_app s)(p := None), ut_chain := (ut_chain s)(p := None) \<rparr>"
  have seg: "sseg (ut_app ?s) tmp ps" using n(3) Cons.prems(2) tmp by (subst sseg_cong [of ps _ "ut_app s"]) auto
  then obtain tmp' where tmp': "app_next ?s tmp = Some tmp'"
    by (cases ps) (auto simp: app_next_def split: option.splits)
  have eq: "?s\<lparr> ut_app := ut_app ?s |` (- set ps), ut_chain := ut_chain ?s |` (- set ps) \<rparr>
      = s\<lparr> ut_app := ut_app s |` (- set (p # ps)), ut_chain := ut_chain s |` (- set (p # ps)) \<rparr>"
    by (intro uthash.equality) (auto simp: restrict_map_def)
  have "hash_iter free_element ?s (tmp, tmp') = Some (?s\<lparr> ut_app := ut_app ?s |` (- set ps), ut_chain := ut_chain ?s |` (- set ps) \<rparr>)"
    using Cons.prems(2) by (intro Cons.IH [OF seg _ tmp']) simp
  moreover have "free_element s p = Some ?s" using n(2) by (simp add: free_element_def)
  ultimately show ?case
    unfolding n(1) hash_iter_simps eq by (simp only: tmp' bind.bind_lunit)
qed

lemma HASH_ITER_free:
  assumes "hash_of s es"
  shows "HASH_ITER free_element s = Some (s\<lparr> ut_app := ut_app s |` (- fst ` set es), ut_chain := ut_chain s |` (- fst ` set es) \<rparr>)"
proof -
  have "dlist (ut_app s) (ut_head s) (map fst es)" using assms by (simp add: hash_of_def)
  then have seg: "sseg (ut_app s) (ut_head s) (map fst es)" "distinct (map fst es)"
    by (auto simp: dlist_def intro: sseg_dseg)
  then obtain tmp where "app_next s (ut_head s) = Some tmp"
    by (cases es) (auto simp: app_next_def split: option.splits)
  with hash_iter_free [OF seg] show ?thesis by (simp add: HASH_ITER_def)
qed

subsection \<open>Tables that own their elements\<close>

definition hash_insert_new :: "(nat \<Rightarrow> bool) \<Rightarrow> 'v uthash \<Rightarrow> nat \<Rightarrow> bytes \<Rightarrow> 'v \<Rightarrow> 'v uthash option" where
  "hash_insert_new malloc s p k v =
     HASH_ADD_KEYPTR malloc
       (s\<lparr> ut_app := (ut_app s)(p \<mapsto> \<lparr> prev = None, nxt = None, payload = v \<rparr>),
           ut_chain := (ut_chain s)(p \<mapsto> \<lparr> prev = None, nxt = None,
             payload = \<lparr> hh_key = [], hh_keylen = 0, hh_hashv = 0 \<rparr> \<rparr>) \<rparr>)
       k (word_of_nat (length k)) p"

definition hash_delete_free :: "'v uthash \<Rightarrow> nat \<Rightarrow> 'v uthash option" where
  "hash_delete_free s p = Option.bind (HASH_DELETE s p) (\<lambda>s. free_element s p)"

definition hash_lookup :: "'v uthash \<Rightarrow> bytes \<Rightarrow> nat option option" where
  "hash_lookup s k = HASH_FIND s k (word_of_nat (length k))"

text \<open>Changing the heap outside the table.\<close>

lemma hash_of_cong:
  assumes "hash_of s es" "ut_head s' = ut_head s" "ut_tbl s' = ut_tbl s"
    and "\<And>p. p \<in> fst ` set es \<Longrightarrow> ut_app s' p = ut_app s p \<and> ut_chain s' p = ut_chain s p"
  shows "hash_of s' es"
proof -
  have "dlist (ut_app s') (ut_head s') (map fst es)"
    using assms(1,2,4) dseg_cong [of "map fst es" "ut_app s'" "ut_app s"] by (simp add: hash_of_def dlist_def)
  moreover have "entry_ok s' e" if "e \<in> set es" for e
    using assms(1) assms(4) [of "fst e"] that by (simp add: hash_of_def entry_ok_def payload_at_def)
  moreover have "tbl_ok (ut_chain s') t (set (map fst es))" if "tbl_ok (ut_chain s) t (set (map fst es))" for t
    by (rule tbl_ok_cong [OF that]) (use assms(4) in simp)
  then have "table_of s' (map fst es)" using assms(1,3) by (auto simp: hash_of_def table_of_def)
  ultimately show ?thesis using assms(1) by (simp add: hash_of_def)
qed

lemma hash_insert_new_spec:
  assumes "hash_of s es" "length k < 2 ^ 32" "k \<notin> fst ` snd ` set es" "p \<notin> dom (ut_app s)"
    and "length es < 2 ^ 32 - 1" "memory_for_add malloc s"
  shows "\<exists>s'. hash_insert_new malloc s p k v = Some s' \<and> hash_of s' (es @ [(p, k, v)])
    \<and> dom (ut_app s') = insert p (dom (ut_app s))"
proof -
  let ?s = "s\<lparr> ut_app := (ut_app s)(p \<mapsto> \<lparr> prev = None, nxt = None, payload = v \<rparr>),
           ut_chain := (ut_chain s)(p \<mapsto> \<lparr> prev = None, nxt = None,
             payload = \<lparr> hh_key = [], hh_keylen = 0, hh_hashv = 0 \<rparr> \<rparr>) \<rparr>"
  have p: "p \<notin> fst ` set es" using hash_of_live [OF assms(1)] assms(4) by auto
  have h: "hash_of ?s es" by (rule hash_of_cong [OF assms(1)]) (use p in auto)
  have "memory_for_add malloc ?s" using assms(6) by (simp add: memory_for_add_def split: option.splits)
  from HASH_ADD_KEYPTR_spec [OF h assms(2,3) p _ _ assms(5) this, of v] show ?thesis
    by (auto simp: hash_insert_new_def)
qed

lemma hash_delete_free_spec:
  assumes "hash_of s es" "e \<in> set es"
  shows "\<exists>s'. hash_delete_free s (fst e) = Some s' \<and> hash_of s' (filter (\<lambda>x. fst x \<noteq> fst e) es)
    \<and> dom (ut_app s') = dom (ut_app s) - {fst e}"
proof -
  from HASH_DELETE_spec [OF assms] obtain s1 where
    1: "HASH_DELETE s (fst e) = Some s1" "hash_of s1 (filter (\<lambda>x. fst x \<noteq> fst e) es)"
      "\<And>q. payload_at (ut_app s1) q = payload_at (ut_app s) q" by blast
  have "dom (ut_app s1) = dom (ut_app s)" using 1(3) by (rule payload_at_dom)
  moreover from this have "ut_app s1 (fst e) \<noteq> None" using hash_of_live [OF assms] by auto
  moreover have "hash_of (s1\<lparr>ut_app := (ut_app s1)(fst e := None), ut_chain := (ut_chain s1)(fst e := None)\<rparr>)
      (filter (\<lambda>x. fst x \<noteq> fst e) es)"
    by (rule hash_of_cong [OF 1(2)]) auto
  ultimately show ?thesis using 1(1) by (simp add: hash_delete_free_def free_element_def)
qed

text \<open>Changing the value of an element.\<close>

lemma hash_of_set_value:
  assumes "hash_of s es" "(p, k, v) \<in> set es" "ut_app s p = Some n"
  shows "hash_of (s\<lparr> ut_app := (ut_app s)(p \<mapsto> n\<lparr>payload := v'\<rparr>) \<rparr>) (map (\<lambda>e. if fst e = p then (p, k, v') else e) es)"
proof -
  let ?s = "s\<lparr> ut_app := (ut_app s)(p \<mapsto> n\<lparr>payload := v'\<rparr>) \<rparr>" and ?f = "\<lambda>e. if fst e = p then (p, k, v') else e"
  have inj: "inj_on fst (set es)" using assms(1) by (simp add: hash_of_def dlist_def distinct_map)
  have same: "e = (p, k, v)" if "e \<in> set es" "fst e = p" for e
    using inj_onD [OF inj _ that(1) assms(2)] that(2) by simp
  have fst: "map fst (map ?f es) = map fst es" by (auto simp: comp_def)
  have keys: "map (fst \<circ> snd) (map ?f es) = map (fst \<circ> snd) es" using same by fastforce
  have ok: "entry_ok ?s (?f e)" if "e \<in> set es" for e
  proof (cases "fst e = p")
    case True
    with same [OF that] have e: "e = (p, k, v)" by simp
    from assms(1) that have "entry_ok s e" by (simp add: hash_of_def)
    then show ?thesis by (simp add: e entry_ok_def payload_at_upd)
  qed (use assms(1) that in \<open>simp add: hash_of_def entry_ok_def payload_at_upd\<close>)
  have "\<forall>e \<in> set (map ?f es). entry_ok ?s e" unfolding set_map ball_simps by (intro ballI ok)
  moreover have "dlist (ut_app ?s) (ut_head ?s) (map fst es)"
    using assms(1,3) by (simp add: hash_of_def dlist_def dseg_payload)
  moreover have "table_of ?s (map fst es)" using assms(1) by (simp add: hash_of_def table_of_def)
  ultimately show ?thesis
    using assms(1) unfolding hash_of_def keys fst by blast
qed

text \<open>The contract: a table keyed by byte strings that refers to elements by address.\<close>

locale keyed_table =
  fixes insert_new :: "'s \<Rightarrow> nat \<Rightarrow> bytes \<Rightarrow> 'v \<Rightarrow> 's option"
    and delete_free :: "'s \<Rightarrow> nat \<Rightarrow> 's option"
    and lookup :: "'s \<Rightarrow> bytes \<Rightarrow> nat option option"
    and allocated :: "'s \<Rightarrow> nat set"
    and room :: "'s \<Rightarrow> bool"
    and repr :: "'s \<Rightarrow> 'v entries \<Rightarrow> bool"
  assumes insert_law: "repr s es \<Longrightarrow> length k < 2 ^ 32 \<Longrightarrow> k \<notin> fst ` snd ` set es \<Longrightarrow> p \<notin> allocated s \<Longrightarrow>
      length es < 2 ^ 32 - 1 \<Longrightarrow> room s \<Longrightarrow>
      \<exists>s'. insert_new s p k v = Some s' \<and> repr s' (es @ [(p, k, v)]) \<and> allocated s' = insert p (allocated s)"
    and delete_law: "repr s es \<Longrightarrow> e \<in> set es \<Longrightarrow>
      \<exists>s'. delete_free s (fst e) = Some s' \<and> repr s' (filter (\<lambda>x. fst x \<noteq> fst e) es)
        \<and> allocated s' = allocated s - {fst e}"
    and lookup_law: "repr s es \<Longrightarrow> length k < 2 ^ 32 \<Longrightarrow>
      lookup s k = Some (map_option fst (find (\<lambda>e. fst (snd e) = k) es))"
    and repr_distinct: "repr s es \<Longrightarrow> distinct (map fst es) \<and> distinct (map (fst \<circ> snd) es)"
begin

lemma find_snoc: "find P (xs @ [x]) = (case find P xs of Some y \<Rightarrow> Some y | None \<Rightarrow> if P x then Some x else None)"
  by (induction xs) auto

text \<open>After an insertion the key is found at the new element, every other key where it was.\<close>

lemma insert_lookup:
  assumes "repr s es" "length k < 2 ^ 32" "k \<notin> fst ` snd ` set es" "p \<notin> allocated s" "length es < 2 ^ 32 - 1" "room s"
  shows "\<exists>s'. insert_new s p k v = Some s' \<and> repr s' (es @ [(p, k, v)]) \<and> allocated s' = insert p (allocated s)
    \<and> lookup s' k = Some (Some p) \<and> (\<forall>k'. k' \<noteq> k \<longrightarrow> length k' < 2 ^ 32 \<longrightarrow> lookup s' k' = lookup s k')"
proof -
  from insert_law [OF assms] obtain s' where
    s': "insert_new s p k v = Some s'" "repr s' (es @ [(p, k, v)])" "allocated s' = insert p (allocated s)" by blast
  have "find (\<lambda>e. fst (snd e) = k) es = None" using assms(3) by (auto simp: find_None_iff image_iff)
  with s' lookup_law [OF s'(2)] lookup_law [OF assms(1)] assms(2) show ?thesis
    by (auto simp: find_snoc split: option.splits)
qed

text \<open>After a deletion the key is not found, every other key where it was.\<close>

lemma delete_lookup:
  assumes "repr s es" "(p, k, v) \<in> set es" "length k < 2 ^ 32"
  shows "\<exists>s'. delete_free s p = Some s' \<and> repr s' (filter (\<lambda>x. fst x \<noteq> p) es) \<and> allocated s' = allocated s - {p}
    \<and> lookup s' k = Some None \<and> (\<forall>k'. k' \<noteq> k \<longrightarrow> length k' < 2 ^ 32 \<longrightarrow> lookup s' k' = lookup s k')"
proof -
  from delete_law [OF assms(1,2)] obtain s' where
    s': "delete_free s p = Some s'" "repr s' (filter (\<lambda>x. fst x \<noteq> p) es)" "allocated s' = allocated s - {p}" by auto
  note d = repr_distinct [OF assms(1)]
  have inj: "inj_on fst (set es)" "inj_on (fst \<circ> snd) (set es)" using d by (simp_all add: distinct_map)
  have same: "fst e = p \<longleftrightarrow> fst (snd e) = k" if "e \<in> set es" for e
  proof
    assume "fst e = p"
    with inj_onD [OF inj(1) _ that assms(2)] have "e = (p, k, v)" by simp
    then show "fst (snd e) = k" by simp
  next
    assume "fst (snd e) = k"
    with inj_onD [OF inj(2) _ that assms(2)] have "e = (p, k, v)" by simp
    then show "fst e = p" by simp
  qed
  have "find (\<lambda>e. fst (snd e) = k') (filter (\<lambda>x. fst x \<noteq> p) es) = (if k' = k then None else find (\<lambda>e. fst (snd e) = k') es)" for k'
    using same by (induction es) auto
  with s' lookup_law [OF s'(2)] lookup_law [OF assms(1)] assms(3) show ?thesis by auto
qed

end

interpretation uth: keyed_table "hash_insert_new malloc" hash_delete_free hash_lookup "\<lambda>s. dom (ut_app s)"
    "memory_for_add malloc" hash_of for malloc
proof
  fix s :: "'a uthash" and es :: "'a entries" and k p v e
  assume r: "hash_of s es"
  show "distinct (map fst es) \<and> distinct (map (fst \<circ> snd) es)" using r by (simp add: hash_of_def dlist_def)
  show "hash_lookup s k = Some (map_option fst (find (\<lambda>e. fst (snd e) = k) es))" if "length k < 2 ^ 32"
    unfolding hash_lookup_def by (rule HASH_FIND_spec [OF r that])
  show "\<exists>s'. hash_delete_free s (fst e) = Some s' \<and> hash_of s' (filter (\<lambda>x. fst x \<noteq> fst e) es)
      \<and> dom (ut_app s') = dom (ut_app s) - {fst e}" if "e \<in> set es"
    by (rule hash_delete_free_spec [OF r that])
  show "\<exists>s'. hash_insert_new malloc s p k v = Some s' \<and> hash_of s' (es @ [(p, k, v)])
      \<and> dom (ut_app s') = insert p (dom (ut_app s))"
    if "length k < 2 ^ 32" "k \<notin> fst ` snd ` set es" "p \<notin> dom (ut_app s)" "length es < 2 ^ 32 - 1" "memory_for_add malloc s"
    by (rule hash_insert_new_spec [OF r that])
qed

lemma HASH_COUNT_spec: "hash_of s es \<Longrightarrow> HASH_COUNT s = Some (word_of_nat (length es))"
proof (cases es)
  case (Cons e0 es')
  assume "hash_of s es"
  then show ?thesis unfolding Cons by (rule hash_of_head) (simp add: HASH_COUNT_def)
qed (simp add: hash_of_def dlist_def HASH_COUNT_def)

lemma HASH_CLEAR_spec:
  assumes "hash_of s es"
  shows "\<exists>s'. HASH_CLEAR s = Some s' \<and> hash_of s' [] \<and> ut_app s' = ut_app s"
proof (cases es)
  case Nil
  with assms show ?thesis by (simp add: HASH_CLEAR_def hash_of_def dlist_def)
next
  case (Cons e0 es')
  from assms [unfolded Cons] obtain t where "ut_head s = Some (fst e0)" "head_tbl s (fst e0) = Some t"
    by (rule hash_of_head)
  then show ?thesis by (simp add: HASH_CLEAR_def hash_of_empty)
qed

definition empty_hash :: "'v uthash" where
  "empty_hash = \<lparr> ut_app = Map.empty, ut_chain = Map.empty, ut_head = None, ut_tbl = None \<rparr>"

definition malloc_16g :: "nat \<Rightarrow> bool" where
  "malloc_16g n \<longleftrightarrow> n < 2 ^ 34"

lemma malloc_16g_ok: "memory_for_add malloc_16g empty_hash"
  by (simp add: memory_for_add_def malloc_bounded_def malloc_16g_def empty_hash_def sizeof_UT_hash_table_def
      sizeof_UT_hash_bucket_def)

subsection \<open>Properties\<close>

text \<open>
  (C9) Insertion into the hash table: after a new element has been added under a key that is not in the
  table, whatever expansion of the buckets that takes, the table holds the old elements and behind
  them the new one; looking up the key gives the new element, looking up any other key gives what it
  gave before, and the count has gone up by one.
\<close>

theorem hash_insert_correct:
  assumes "hash_of s es" "length k < 2 ^ 32" "k \<notin> fst ` snd ` set es" "p \<notin> dom (ut_app s)"
    and "length es < 2 ^ 32 - 1" "memory_for_add malloc s"
  shows "\<exists>s'. hash_insert_new malloc s p k v = Some s' \<and> hash_of s' (es @ [(p, k, v)])
    \<and> hash_lookup s' k = Some (Some p)
    \<and> (\<forall>k'. k' \<noteq> k \<longrightarrow> length k' < 2 ^ 32 \<longrightarrow> hash_lookup s' k' = hash_lookup s k')
    \<and> HASH_COUNT s' = Some (word_of_nat (Suc (length es)))"
proof -
  from uth.insert_lookup [OF assms, of v] obtain s' where
    s': "hash_insert_new malloc s p k v = Some s'" "hash_of s' (es @ [(p, k, v)])" "hash_lookup s' k = Some (Some p)"
      "\<forall>k'. k' \<noteq> k \<longrightarrow> length k' < 2 ^ 32 \<longrightarrow> hash_lookup s' k' = hash_lookup s k'" by blast
  from HASH_COUNT_spec [OF s'(2)] have "HASH_COUNT s' = Some (word_of_nat (Suc (length es)))" by simp
  with s' show ?thesis by blast
qed

lemma hash_insert_correct_witness:
  "\<exists>s'. hash_insert_new malloc_16g empty_hash 7 [65, 66] (3 :: nat) = Some s' \<and> hash_of s' [(7, [65, 66], 3)]
    \<and> hash_lookup s' [65, 66] = Some (Some 7)"
  using hash_insert_correct [of empty_hash "[]" "[65, 66]" 7 malloc_16g "3 :: nat"] malloc_16g_ok
  by (auto simp: hash_of_empty empty_hash_def)

text \<open>
  (C12) Deletion from the hash table: any element, the first, the last or the only one, can be deleted
  and freed; its key is then not found, every other key is found where it was, and exactly that
  element is no longer allocated.
\<close>

theorem hash_delete_correct:
  assumes "hash_of s es" "(p, k, v) \<in> set es" "length k < 2 ^ 32"
  shows "\<exists>s'. hash_delete_free s p = Some s' \<and> hash_of s' (filter (\<lambda>x. fst x \<noteq> p) es)
    \<and> dom (ut_app s') = dom (ut_app s) - {p} \<and> hash_lookup s' k = Some None
    \<and> (\<forall>k'. k' \<noteq> k \<longrightarrow> length k' < 2 ^ 32 \<longrightarrow> hash_lookup s' k' = hash_lookup s k')"
  by (rule uth.delete_lookup [OF assms])

lemma hash_delete_correct_witness:
  "\<exists>s s'. hash_of s [(7, [65, 66], 3 :: nat)] \<and> hash_delete_free s 7 = Some s' \<and> hash_lookup s' [65, 66] = Some None"
proof -
  obtain s where s: "hash_of s [(7, [65, 66], 3 :: nat)]"
    using uth.insert_law [of empty_hash "[]" "[65, 66]" 7 malloc_16g "3 :: nat"] malloc_16g_ok
    by (auto simp: hash_of_empty empty_hash_def)
  from hash_delete_correct [OF this, of 7 "[65, 66]" 3] s show ?thesis by auto
qed

text \<open>
  (C31) Expansion: doubling the buckets of a consistent table keeps it consistent, with the same
  elements, and every element stands in the bucket that its hash selects among twice as many. No
  step of the redistribution divides by zero or follows a broken link.
\<close>

theorem hash_expansion_keeps_elements:
  assumes "tbl_ok c t ps" "tbl_num_items t \<noteq> 0" "malloc_bounded malloc" "malloc (expand_request t)"
  shows "\<exists>c' t'. HASH_EXPAND_BUCKETS malloc c t = Some (c', t') \<and> tbl_ok c' t' ps
    \<and> tbl_num_buckets t' = tbl_num_buckets t * 2 \<and> tbl_num_items t' = tbl_num_items t
    \<and> (\<forall>q. payload_at c' q = payload_at c q) \<and> (\<forall>q. q \<notin> ps \<longrightarrow> c' q = c q)"
proof -
  from HASH_EXPAND_BUCKETS_spec [OF assms] obtain c' t' where
    1: "HASH_EXPAND_BUCKETS malloc c t = Some (c', t')" "tbl_ok c' t' ps" "tbl_num_items t' = tbl_num_items t"
      "\<forall>q. payload_at c' q = payload_at c q" "\<forall>q. q \<notin> ps \<longrightarrow> c' q = c q" by blast
  moreover have "tbl_num_buckets t' = tbl_num_buckets t * 2"
    using 1(1) by (auto simp: HASH_EXPAND_BUCKETS_def Let_def split: if_splits option.splits)
  ultimately show ?thesis by blast
qed

definition one_element :: "handle_key dheap" where
  "one_element = [7 \<mapsto> \<lparr> prev = None, nxt = None, payload = \<lparr> hh_key = [], hh_keylen = 0, hh_hashv = 0 \<rparr> \<rparr>]"

definition one_element_table :: UT_hash_table where
  "one_element_table = \<lparr> tbl_buckets = \<lparr> hh_head = Some 7, bkt_count = 1, expand_mult = 0 \<rparr> # replicate 31 empty_bucket,
     tbl_num_buckets = 32, tbl_log2_num_buckets = 5, tbl_num_items = 1, tbl_tail = Some 7,
     tbl_ideal_chain_maxlen = 0, tbl_nonideal_items = 0, tbl_ineff_expands = 0, tbl_noexpand = 0 \<rparr>"

lemma one_element_ok: "tbl_ok one_element one_element_table {7}"
proof -
  have "chains one_element (tbl_buckets one_element_table) ([7] # replicate 31 [])"
    by (auto simp: chains_def one_element_def one_element_table_def empty_bucket_def nth_Cons')
  moreover have "placed one_element ([7] # replicate 31 [])"
    by (auto simp: placed_def one_element_def nth_Cons' split: if_splits)
  ultimately show ?thesis
    unfolding tbl_ok_def by (intro exI [of _ 5] exI [of _ "[7] # replicate 31 []"]) (simp add: one_element_table_def)
qed

lemma hash_expansion_keeps_elements_witness:
  "\<exists>c' t'. HASH_EXPAND_BUCKETS malloc_16g one_element one_element_table = Some (c', t') \<and> tbl_ok c' t' {7}
     \<and> tbl_num_buckets t' = 64"
proof -
  have n: "tbl_num_buckets one_element_table = 32" "tbl_num_items one_element_table \<noteq> 0"
    by (simp_all add: one_element_table_def)
  have m: "malloc_bounded malloc_16g" "malloc_16g (expand_request one_element_table)"
    by (simp_all add: malloc_bounded_def malloc_16g_def expand_request_def n sizeof_UT_hash_bucket_def)
  from hash_expansion_keeps_elements [OF one_element_ok n(2) m] n(1) show ?thesis by auto
qed

end
