(* ===== verification/Log.thy ===== *)
theory Log
  imports MsgpackBuffer MsgpackUnpack Uthash StrFormat
begin

text \<open>
  The logging system of \<^verbatim>\<open>core/log.c\<close>: log messages are serialized into a growing buffer and handed to
  the registered backends. Its state has the variables of the file: the indentation, the hash table
  of the checkpoints (each with its pass count), the serial number, the threshold, the list of the
  backends and the cached process id. A backend's functions are known by their addresses; what they
  are called with is recorded in \<open>log_calls\<close>, in order. They are assumed not to call back into the
  logging system.

  What the functions take from the system is in the record \<open>log_env\<close>: the memory management, the
  process id and the time. A null pointer that is followed, and memory that is used after it was
  freed, have no result (\<open>None\<close>).
\<close>

subsection \<open>Types\<close>

type_synonym LOG_LEVEL = u32

abbreviation (input) LOG_LEVEL_EXTRADEBUG :: LOG_LEVEL where "LOG_LEVEL_EXTRADEBUG \<equiv> 0"
abbreviation (input) LOG_LEVEL_DEBUG :: LOG_LEVEL where "LOG_LEVEL_DEBUG \<equiv> 1"
abbreviation (input) LOG_LEVEL_VERBOSE :: LOG_LEVEL where "LOG_LEVEL_VERBOSE \<equiv> 2"
abbreviation (input) LOG_LEVEL_INFO :: LOG_LEVEL where "LOG_LEVEL_INFO \<equiv> 3"
abbreviation (input) LOG_LEVEL_WARNING :: LOG_LEVEL where "LOG_LEVEL_WARNING \<equiv> 4"
abbreviation (input) LOG_LEVEL_ERROR :: LOG_LEVEL where "LOG_LEVEL_ERROR \<equiv> 5"
abbreviation (input) LOG_LEVEL_FATAL :: LOG_LEVEL where "LOG_LEVEL_FATAL \<equiv> 6"
abbreviation (input) LOG_LEVEL_ENTER :: LOG_LEVEL where "LOG_LEVEL_ENTER \<equiv> 7"
abbreviation (input) LOG_LEVEL_LEAVE :: LOG_LEVEL where "LOG_LEVEL_LEAVE \<equiv> 8"
abbreviation (input) LOG_LEVEL_PAUSE :: LOG_LEVEL where "LOG_LEVEL_PAUSE \<equiv> 9"
abbreviation (input) LOG_LEVEL_RESUME :: LOG_LEVEL where "LOG_LEVEL_RESUME \<equiv> 10"
abbreviation (input) LOG_LEVEL_SEPARATOR :: LOG_LEVEL where "LOG_LEVEL_SEPARATOR \<equiv> 11"
abbreviation (input) LOG_LEVEL_CLEAR :: LOG_LEVEL where "LOG_LEVEL_CLEAR \<equiv> 12"
abbreviation (input) LOG_LEVEL_CHECKPOINT :: LOG_LEVEL where "LOG_LEVEL_CHECKPOINT \<equiv> 13"
abbreviation (input) LOG_LEVEL_SCRATCHPAD :: LOG_LEVEL where "LOG_LEVEL_SCRATCHPAD \<equiv> 14"

datatype LOG_NOTIFY = LOG_NOTIFY_SETLEVEL | LOG_NOTIFY_SHUTDOWN

record backend_list_t =
  bk_callback :: nat
  bk_notify :: "nat option"
  bk_userptr :: "nat option"

datatype log_call =
    Deliver nat bytes LOG_LEVEL "nat option"
  | Notify nat LOG_NOTIFY "nat option"

record log_env =
  env_realloc :: "bytes \<Rightarrow> nat \<Rightarrow> bytes option"
  env_malloc :: "nat \<Rightarrow> bool"
  env_new :: "nat set \<Rightarrow> nat option"
  env_getpid :: u32
  env_timestamp :: u64

record log_state =
  indent_level :: u32
  checkpoints :: "u32 uthash"
  serial :: u32
  global_threshold :: LOG_LEVEL
  log_backends :: "backend_list_t dstate"
  log_PID :: u32
  log_calls :: "log_call list"

definition log_start :: "bool \<Rightarrow> log_state" where
  "log_start debug = \<lparr> indent_level = 0, checkpoints = empty_hash, serial = 0,
     global_threshold = (if debug then LOG_LEVEL_EXTRADEBUG else LOG_LEVEL_INFO),
     log_backends = (Map.empty, None), log_PID = 0, log_calls = [] \<rparr>"

subsection \<open>Checkpoints\<close>

text \<open>A new entry comes from \<^verbatim>\<open>calloc\<close> and its key from \<^verbatim>\<open>strdup\<close>; neither result is tested.\<close>

definition checkpoint_pass_count :: "log_env \<Rightarrow> u32 uthash \<Rightarrow> bytes \<Rightarrow> (u32 \<times> u32 uthash) option" where
  "checkpoint_pass_count env ck checkpoint_id =
     Option.bind (HASH_FIND_STR ck checkpoint_id) (\<lambda>entry.
     Option.bind (case entry of
         Some p \<Rightarrow> Some (p, ck)
       | None \<Rightarrow> Option.bind (env_new env (dom (ut_app ck))) (\<lambda>p.
           if \<not> env_malloc env (strlen checkpoint_id + 1) then None
           else map_option (\<lambda>ck. (p, ck))
             (hash_insert_new (env_malloc env) ck p (take (strlen checkpoint_id) checkpoint_id) 0))) (\<lambda>(p, ck).
     Option.bind (ut_app ck p) (\<lambda>n.
       let count = payload n + 1
       in Some (count, ck\<lparr> ut_app := (ut_app ck)(p \<mapsto> n\<lparr> payload := count \<rparr>) \<rparr>))))"

definition clear_checkpoints :: "log_state \<Rightarrow> log_state option" where
  "clear_checkpoints st = map_option (\<lambda>ck. st\<lparr> checkpoints := ck \<rparr>) (HASH_ITER free_element (checkpoints st))"

subsection \<open>Backends\<close>

definition log_backend_notify :: "log_state \<Rightarrow> backend_list_t \<Rightarrow> LOG_NOTIFY \<Rightarrow> log_state" where
  "log_backend_notify st entry reason = (case bk_notify entry of
     None \<Rightarrow> st
   | Some f \<Rightarrow> st\<lparr> log_calls := log_calls st @ [Notify f reason (bk_userptr entry)] \<rparr>)"

definition log_register_backend ::
    "log_env \<Rightarrow> log_state \<Rightarrow> nat \<Rightarrow> nat option \<Rightarrow> nat option \<Rightarrow> log_state option" where
  "log_register_backend env st callback notify userptr =
     Option.bind (env_new env (dom (fst (log_backends st)))) (\<lambda>p.
     map_option (\<lambda>l. st\<lparr> log_backends := l \<rparr>)
       (list_insert_new (log_backends st) p \<lparr> bk_callback = callback, bk_notify = notify, bk_userptr = userptr \<rparr>))"

definition log_unregister_backend :: "log_state \<Rightarrow> nat \<Rightarrow> nat option \<Rightarrow> log_state option" where
  "log_unregister_backend st callback userptr =
     Option.bind (LIST_MATCH (\<lambda>p n. bk_userptr (payload n) = userptr \<and> bk_callback (payload n) = callback)
         (fst (log_backends st)) (snd (log_backends st))) (\<lambda>entry.
     Option.bind (case entry of
         Some p \<Rightarrow> Some (Some p)
       | None \<Rightarrow> LIST_MATCH (\<lambda>p n. bk_callback (payload n) = callback) (fst (log_backends st)) (snd (log_backends st))) (\<lambda>entry.
     case entry of
       None \<Rightarrow> Some st
     | Some p \<Rightarrow> Option.bind (fst (log_backends st) p) (\<lambda>n.
         let st = log_backend_notify st (payload n) LOG_NOTIFY_SHUTDOWN
         in map_option (\<lambda>l. st\<lparr> log_backends := l \<rparr>) (list_delete_free (log_backends st) p))))"

partial_function (option) shutdown_loop :: "log_state \<Rightarrow> nat option \<Rightarrow> log_state option" where
  "shutdown_loop st entry = (case entry of
     None \<Rightarrow> Some st
   | Some p \<Rightarrow> Option.bind (fst (log_backends st) p) (\<lambda>n.
       Option.bind (log_unregister_backend st (bk_callback (payload n)) (bk_userptr (payload n))) (\<lambda>st.
       shutdown_loop st (nxt n))))"

definition log_shutdown :: "log_state \<Rightarrow> log_state option" where
  "log_shutdown st = Option.bind (clear_checkpoints st) (\<lambda>st. shutdown_loop st (snd (log_backends st)))"

definition log_reset :: "log_state \<Rightarrow> bool \<Rightarrow> log_state option" where
  "log_reset st with_checkpoints =
     (let st = st\<lparr> indent_level := 0 \<rparr>
      in if with_checkpoints then clear_checkpoints st else Some st)"

definition log_set_threshold :: "log_state \<Rightarrow> LOG_LEVEL \<Rightarrow> log_state" where
  "log_set_threshold st threshold = st\<lparr> global_threshold := threshold \<rparr>"

subsection \<open>Messages\<close>

text \<open>The next packer call; the result of the previous one is not looked at.\<close>

definition then_pack :: "'s packed \<Rightarrow> ('s msgpack_packer \<Rightarrow> 'x option) \<Rightarrow> 'x option" where
  "then_pack r k = (case r of None \<Rightarrow> None | Some (_, pk) \<Rightarrow> k pk)"

definition msgpack_pack_string :: "'s msgpack_packer \<Rightarrow> bytes option \<Rightarrow> 's packed" where
  "msgpack_pack_string pk s = msgpack_pack_lstring pk s (case s of None \<Rightarrow> 0 | Some s \<Rightarrow> strlen s)"

text \<open>The length as an \<^verbatim>\<open>int\<close>, then passed as a \<^verbatim>\<open>size_t\<close>.\<close>

definition msg_length :: "bytes option \<Rightarrow> int \<Rightarrow> nat" where
  "msg_length msg len =
     (let len = (if len < 0 then (case msg of None \<Rightarrow> 0 | Some s \<Rightarrow> sint (word_of_nat (strlen s) :: u32)) else len)
      in nat (len mod 2 ^ 64))"

definition sbuffer_log_level ::
    "log_env \<Rightarrow> log_state \<Rightarrow> msgpack_sbuffer \<Rightarrow> msgpack_object option \<Rightarrow> LOG_LEVEL \<Rightarrow> u32 \<Rightarrow> bytes option \<Rightarrow>
     bytes option \<Rightarrow> int \<Rightarrow> (msgpack_sbuffer \<times> log_state) option" where
  "sbuffer_log_level env st sbuffer attachment level pid origin msg len =
     (let pk = msgpack_packer_init sbuffer (msgpack_sbuffer_write (env_realloc env)) in
      then_pack (msgpack_pack_array pk 8) (\<lambda>pk.
      then_pack (msgpack_pack_int pk level) (\<lambda>pk.
      let st = (if level = LOG_LEVEL_LEAVE \<and> 0 < indent_level st
                then st\<lparr> indent_level := indent_level st - 1 \<rparr> else st) in
      then_pack (msgpack_pack_uint32 pk (indent_level st)) (\<lambda>pk.
      let st = (if level = LOG_LEVEL_ENTER then st\<lparr> indent_level := indent_level st + 1 \<rparr> else st) in
      then_pack (msgpack_pack_double pk (env_timestamp env)) (\<lambda>pk.
      then_pack (if pid \<noteq> 0 then msgpack_pack_uint32 pk pid else msgpack_pack_nil pk) (\<lambda>pk.
      then_pack (msgpack_pack_string pk origin) (\<lambda>pk.
      then_pack (msgpack_pack_lstring pk msg (msg_length msg len)) (\<lambda>pk.
      Option.bind (if level = LOG_LEVEL_CHECKPOINT
          then (case msg of
              None \<Rightarrow> Some (attachment, st)
            | Some ckid \<Rightarrow> map_option (\<lambda>(n, ck). (Some (OBJECT_POSITIVE_INTEGER (ucast n)), st\<lparr> checkpoints := ck \<rparr>))
                (checkpoint_pass_count env (checkpoints st) ckid))
          else Some (attachment, st)) (\<lambda>(attachment, st).
      then_pack (case attachment of Some ob \<Rightarrow> msgpack_pack_object pk ob | None \<Rightarrow> msgpack_pack_nil pk) (\<lambda>pk.
      let st = st\<lparr> serial := serial st + 1 \<rparr> in
      then_pack (msgpack_pack_uint32 pk (serial st)) (\<lambda>pk.
      Some (pk_data pk, st))))))))))))"

definition sbuffer_log_send :: "log_state \<Rightarrow> msgpack_sbuffer \<Rightarrow> LOG_LEVEL \<Rightarrow> log_state option" where
  "sbuffer_log_send st sbuffer level =
     map_option (\<lambda>bks. st\<lparr> log_calls := log_calls st @
         map (\<lambda>(p, b). Deliver (bk_callback b) (sb_content sbuffer) level (bk_userptr b)) bks \<rparr>)
       (list_visit (log_backends st))"

definition attach_log_level ::
    "log_env \<Rightarrow> log_state \<Rightarrow> msgpack_object option \<Rightarrow> LOG_LEVEL \<Rightarrow> bytes option \<Rightarrow> bytes option \<Rightarrow> int \<Rightarrow> log_state option"
  where
  "attach_log_level env st attachment level origin msg len =
     (if level < global_threshold st then Some st
      else let st = (if log_PID st = 0 then st\<lparr> log_PID := env_getpid env \<rparr> else st) in
        Option.bind (sbuffer_log_level env st msgpack_sbuffer_init attachment level (log_PID st) origin msg len)
          (\<lambda>(sbuf, st). sbuffer_log_send st sbuf level))"

definition attach_log_level_ap ::
    "log_env \<Rightarrow> (int \<Rightarrow> bool) \<Rightarrow> ('f \<Rightarrow> 'v \<Rightarrow> int \<Rightarrow> int \<times> bytes) \<Rightarrow> log_state \<Rightarrow> msgpack_object option \<Rightarrow> LOG_LEVEL \<Rightarrow>
     bytes option \<Rightarrow> 'f \<Rightarrow> 'v \<Rightarrow> log_state option" where
  "attach_log_level_ap env alloc vsnprintf st attachment level origin fmt ap =
     Option.bind (vformatmsg_len alloc vsnprintf True fmt ap) (\<lambda>(len, msg).
       attach_log_level env st attachment level origin msg len)"

definition attach_log_level_fmt ::
    "log_env \<Rightarrow> (int \<Rightarrow> bool) \<Rightarrow> ('f \<Rightarrow> 'v \<Rightarrow> int \<Rightarrow> int \<times> bytes) \<Rightarrow> log_state \<Rightarrow> msgpack_object option \<Rightarrow> LOG_LEVEL \<Rightarrow>
     bytes option \<Rightarrow> 'f \<Rightarrow> 'v \<Rightarrow> log_state option" where
  "attach_log_level_fmt env alloc vsnprintf st attachment level origin fmt ap =
     attach_log_level_ap env alloc vsnprintf st attachment level origin fmt ap"

text \<open>\<^verbatim>\<open>msgpack_object_from_lstring\<close>, with the pointer and its length as the value.\<close>

definition msgpack_object_from_lstring :: "bytes option \<Rightarrow> nat \<Rightarrow> msgpack_object option" where
  "msgpack_object_from_lstring str len = (case str of
     Some s \<Rightarrow> map_option OBJECT_STR (slice s 0 (unat (word_of_nat len :: u32)))
   | None \<Rightarrow> Some OBJECT_NIL)"

definition log_scratch :: "log_env \<Rightarrow> log_state \<Rightarrow> bytes option \<Rightarrow> bytes option \<Rightarrow> bytes option \<Rightarrow> log_state option" where
  "log_scratch env st origin key value =
     Option.bind (msgpack_object_from_lstring value (case value of None \<Rightarrow> 0 | Some s \<Rightarrow> strlen s)) (\<lambda>attachment.
       attach_log_level env st (Some attachment) LOG_LEVEL_SCRATCHPAD origin key (- 1))"

definition log_level_string :: "LOG_LEVEL \<Rightarrow> bytes" where
  "log_level_string level =
     (let level_strings = map (map (\<lambda>c. of_char c)) [''XBG'', ''DBG'', ''VER'', ''INF'', ''WRN'', ''ERR'', ''FTL'',
        ''IN '', ''OUT'', ''PAU'', ''RES'', ''SEP'', ''CLR'', ''CHK'', ''PAD'']
      in if unat level < length level_strings then level_strings ! unat level else map (\<lambda>c. of_char c) ''???'')"

subsection \<open>What a message is\<close>

text \<open>The indentation a message shows, and the one it leaves behind.\<close>

definition indent_shown :: "LOG_LEVEL \<Rightarrow> u32 \<Rightarrow> u32" where
  "indent_shown level i = (if level = LOG_LEVEL_LEAVE \<and> 0 < i then i - 1 else i)"

definition indent_after :: "LOG_LEVEL \<Rightarrow> u32 \<Rightarrow> u32" where
  "indent_after level i = (if level = LOG_LEVEL_ENTER then indent_shown level i + 1 else indent_shown level i)"

definition number :: "u32 \<Rightarrow> msgpack_object" where
  "number n = OBJECT_POSITIVE_INTEGER (ucast n)"

definition text_of :: "bytes option \<Rightarrow> bytes" where
  "text_of s = (case s of None \<Rightarrow> [] | Some s \<Rightarrow> s)"

text \<open>The array of eight elements.\<close>

definition log_object ::
    "LOG_LEVEL \<Rightarrow> u32 \<Rightarrow> u64 \<Rightarrow> u32 \<Rightarrow> bytes option \<Rightarrow> bytes option \<Rightarrow> msgpack_object option \<Rightarrow> u32 \<Rightarrow> msgpack_object" where
  "log_object level indent timestamp pid origin msg attachment ser = OBJECT_ARRAY
     [number level, number indent, OBJECT_FLOAT timestamp, if pid \<noteq> 0 then number pid else OBJECT_NIL,
      OBJECT_STR (text_of origin), OBJECT_STR (text_of msg),
      case attachment of None \<Rightarrow> OBJECT_NIL | Some ob \<Rightarrow> ob, number ser]"

text \<open>A text argument: a C string of less than 2 GiB, or none.\<close>

definition text_ok :: "bytes option \<Rightarrow> bool" where
  "text_ok s \<longleftrightarrow> no_nul (text_of s) \<and> length (text_of s) < 2 ^ 31"

lemma text_ok_Some: "text_ok (Some s) \<longleftrightarrow> no_nul s \<and> length s < 2 ^ 31" "text_ok None"
  by (simp_all add: text_ok_def text_of_def)

subsection \<open>The calls of the serializer succeed\<close>

abbreviation log_sink :: "log_env \<Rightarrow> msgpack_sbuffer \<Rightarrow> bytes \<Rightarrow> (int \<times> msgpack_sbuffer) option" where
  "log_sink env \<equiv> msgpack_sbuffer_write (env_realloc env)"

abbreviation log_packs :: "log_env \<Rightarrow> msgpack_sbuffer msgpack_packer \<Rightarrow> bytes \<Rightarrow> msgpack_sbuffer packed \<Rightarrow> bool" where
  "log_packs env \<equiv> packs (log_sink env) sb_content (\<lambda>s. realloc_ok (env_realloc env) \<and> sb_inv s)"

definition good_packer :: "log_env \<Rightarrow> msgpack_sbuffer msgpack_packer \<Rightarrow> bool" where
  "good_packer env pk \<longleftrightarrow> pk_callback pk = log_sink env \<and> realloc_ok (env_realloc env) \<and> sb_inv (pk_data pk)"

lemma enc_int_short: "length (enc_int i) < 2 ^ 32"
  by (simp add: enc_int_def)

lemma enc_number: "enc_obj (number n) = enc_int (uint n)"
proof -
  have "uint n < 2 ^ 64" using unsigned_less [of n, where ?'a = int] by simp
  then have "take_bit 64 (uint n) = uint n" by (simp add: take_bit_int_eq_self_iff)
  then show ?thesis by (simp add: number_def unsigned_ucast_eq)
qed

lemma number_packs: "good_packer env pk \<Longrightarrow> log_packs env pk (enc_obj (number n)) (msgpack_pack_uint32 pk n)"
  using sbuf.append_buffer_packs [of pk "env_realloc env" "enc_int (uint n)"]
  by (simp add: good_packer_def pack_uint_eq enc_number enc_int_short [simplified])

lemma level_packs:
  assumes "good_packer env pk" "level < 2 ^ 31"
  shows "log_packs env pk (enc_obj (number level)) (msgpack_pack_int pk level)"
proof -
  have "sint level = uint level"
    using assms(2) by (simp add: sint_uint signed_take_bit_int_eq_self_iff word_less_def)
  then show ?thesis
    using sbuf.append_buffer_packs [of pk "env_realloc env" "enc_int (uint level)"] assms(1)
    by (simp add: good_packer_def msgpack_pack_int_def pack_int_eq enc_number enc_int_short [simplified])
qed

lemma object_packs:
  "good_packer env pk \<Longrightarrow> object_ok ob \<Longrightarrow> log_packs env pk (enc_obj ob) (msgpack_pack_object pk ob)"
  by (rule sbuf.pack_object_packs(1)) (simp_all add: good_packer_def)

lemma simple_packs:
  assumes "good_packer env pk"
  shows "log_packs env pk (enc_obj OBJECT_NIL) (msgpack_pack_nil pk)"
    and "log_packs env pk (enc_obj (OBJECT_FLOAT f)) (msgpack_pack_double pk f)"
    and "log_packs env pk (hdr_array 8) (msgpack_pack_array pk 8)"
proof -
  show "log_packs env pk (enc_obj OBJECT_NIL) (msgpack_pack_nil pk)"
    "log_packs env pk (enc_obj (OBJECT_FLOAT f)) (msgpack_pack_double pk f)"
    using object_packs [OF assms, of OBJECT_NIL] object_packs [OF assms, of "OBJECT_FLOAT f"]
    by (simp_all add: msgpack_pack_object.simps)
  show "log_packs env pk (hdr_array 8) (msgpack_pack_array pk 8)"
    using assms sbuf.append_buffer_packs [of pk "env_realloc env" "hdr_array 8"]
    by (simp add: good_packer_def pack_header_eq hdr_array_def)
qed

lemma string_packs:
  assumes "good_packer env pk" "text_ok s"
  shows "log_packs env pk (enc_obj (OBJECT_STR (text_of s))) (msgpack_pack_string pk s)"
    and "len = - 1 \<or> len = int (length (text_of s)) \<Longrightarrow>
      log_packs env pk (enc_obj (OBJECT_STR (text_of s))) (msgpack_pack_lstring pk s (msg_length s len))"
proof -
  have n: "log_packs env pk (enc_obj (OBJECT_STR [])) (msgpack_pack_lstring pk None n)" for n
    by (rule sbuf.pack_lstring_packs(2) [where s = "[]"]) (use assms(1) in \<open>auto simp: good_packer_def\<close>)
  have p: "log_packs env pk (enc_obj (OBJECT_STR t)) (msgpack_pack_lstring pk (Some t) (length t))" if "length t < 2 ^ 31" for t
    by (rule sbuf.pack_lstring_packs(1)) (use assms(1) that in \<open>auto simp: good_packer_def\<close>)
  show "log_packs env pk (enc_obj (OBJECT_STR (text_of s))) (msgpack_pack_string pk s)"
    using n p assms(2) by (cases s) (auto simp: msgpack_pack_string_def text_of_def text_ok_def)
  have l: "msg_length (Some t) len = length t" if "len = - 1 \<or> len = int (length t)" "no_nul t" "length t < 2 ^ 31" for t
  proof -
    have "sint (word_of_nat (length t) :: u32) = int (length t)"
      using that(3) by (simp add: signed_of_nat signed_take_bit_int_eq_self_iff)
    then show ?thesis using that by (auto simp: msg_length_def)
  qed
  show "log_packs env pk (enc_obj (OBJECT_STR (text_of s))) (msgpack_pack_lstring pk s (msg_length s len))"
    if "len = - 1 \<or> len = int (length (text_of s))"
    using n p l that assms(2) by (cases s) (auto simp: text_of_def text_ok_def)
qed

text \<open>What a part of the serializer delivers: the buffer with the complete content, and the state.\<close>

definition delivers :: "bytes \<Rightarrow> log_state \<Rightarrow> (msgpack_sbuffer \<times> log_state) option \<Rightarrow> bool" where
  "delivers full st res \<longleftrightarrow> (\<exists>sb. res = Some (sb, st) \<and> sb_content sb = full)"

definition log_memory :: "log_env \<Rightarrow> bytes \<Rightarrow> bool" where
  "log_memory env full \<longleftrightarrow> (\<exists>limit. realloc_enough (env_realloc env) limit \<and> limit < 2 ^ 64 \<and> 2 * length full \<le> limit)"

lemma then_pack_delivers:
  assumes "log_packs env pk bs r" "log_memory env full" "full = sb_content (pk_data pk) @ bs @ rest"
    and "\<And>pk'. good_packer env pk' \<Longrightarrow> full = sb_content (pk_data pk') @ rest \<Longrightarrow> delivers full st (k pk')"
  shows "delivers full st (then_pack r k)"
proof -
  from assms(2) obtain limit where l: "realloc_enough (env_realloc env) limit" "limit < 2 ^ 64" "2 * length full \<le> limit"
    by (auto simp: log_memory_def)
  then have "2 * (length (sb_content (pk_data pk)) + length bs) \<le> limit" using assms(3) by simp
  from sbuffer_packs_all [OF assms(1) l(1) this l(2)] obtain pk' where
    "r = Some (0, pk')" "good_packer env pk'" "sb_content (pk_data pk') = sb_content (pk_data pk) @ bs"
    by (auto simp: good_packer_def)
  with assms(3,4) show ?thesis by (simp add: then_pack_def)
qed

lemma enc_log_object:
  "enc_obj (log_object level i ts pid origin msg att ser) =
     hdr_array 8 @ enc_obj (number level) @ enc_obj (number i) @ enc_obj (OBJECT_FLOAT ts)
     @ enc_obj (if pid \<noteq> 0 then number pid else OBJECT_NIL) @ enc_obj (OBJECT_STR (text_of origin))
     @ enc_obj (OBJECT_STR (text_of msg)) @ enc_obj (case att of None \<Rightarrow> OBJECT_NIL | Some ob \<Rightarrow> ob) @ enc_obj (number ser)"
  by (simp add: log_object_def numeral_eq_Suc del: enc_obj.simps(1,3,5,6))

text \<open>The steps of the serializer that change the state.\<close>

definition attach_step ::
    "log_env \<Rightarrow> log_state \<Rightarrow> msgpack_object option \<Rightarrow> LOG_LEVEL \<Rightarrow> bytes option \<Rightarrow> (msgpack_object option \<times> log_state) option"
  where
  "attach_step env st attachment level msg =
     (if level = LOG_LEVEL_CHECKPOINT
      then (case msg of
          None \<Rightarrow> Some (attachment, st)
        | Some ckid \<Rightarrow> map_option (\<lambda>(n, ck). (Some (OBJECT_POSITIVE_INTEGER (ucast n)), st\<lparr> checkpoints := ck \<rparr>))
            (checkpoint_pass_count env (checkpoints st) ckid))
      else Some (attachment, st))"

lemma sbuffer_log_level_spec:
  assumes "realloc_ok (env_realloc env)" "level < 2 ^ 31" "text_ok origin" "text_ok msg"
    and len: "len = - 1 \<or> len = int (length (text_of msg))"
    and att: "attach_step env (st\<lparr> indent_level := indent_after level (indent_level st) \<rparr>) attachment level msg
       = Some (att, st')" "\<forall>ob. att = Some ob \<longrightarrow> object_ok ob"
    and full: "full = enc_obj (log_object level (indent_shown level (indent_level st)) (env_timestamp env) pid origin msg att (serial st' + 1))"
      "log_memory env full"
  shows "delivers full (st'\<lparr> serial := serial st' + 1 \<rparr>)
    (sbuffer_log_level env st msgpack_sbuffer_init attachment level pid origin msg len)"
proof -
  have i1: "(if level = LOG_LEVEL_LEAVE \<and> 0 < indent_level st then st\<lparr> indent_level := indent_level st - 1 \<rparr> else st)
      = st\<lparr> indent_level := indent_shown level (indent_level st) \<rparr>" by (simp add: indent_shown_def)
  have i2: "(if level = LOG_LEVEL_ENTER then st\<lparr> indent_level := i, indent_level := i + 1 \<rparr> else st\<lparr> indent_level := i \<rparr>)
      = st\<lparr> indent_level := indent_after level (indent_level st) \<rparr>"
    if "i = indent_shown level (indent_level st)" for i
    using that by (simp add: indent_after_def)
  have obj: "object_ok (case att of None \<Rightarrow> OBJECT_NIL | Some ob \<Rightarrow> ob)" using att(2) by (simp split: option.split)
  note full' = full(1) [unfolded enc_log_object]
  have g0: "good_packer env (msgpack_packer_init msgpack_sbuffer_init (log_sink env))"
    using assms(1) by (simp add: good_packer_def msgpack_packer_init_def)
  have i3: "indent_level (st\<lparr> indent_level := x \<rparr>) = x" for x by simp
  have i4: "serial (s\<lparr> serial := x \<rparr>) = x" for s :: log_state and x by simp
  have start: "full = sb_content (pk_data (msgpack_packer_init msgpack_sbuffer_init (log_sink env))) @ hdr_array 8 @
      enc_obj (number level) @ enc_obj (number (indent_shown level (indent_level st))) @ enc_obj (OBJECT_FLOAT (env_timestamp env))
      @ enc_obj (if pid \<noteq> 0 then number pid else OBJECT_NIL) @ enc_obj (OBJECT_STR (text_of origin))
      @ enc_obj (OBJECT_STR (text_of msg)) @ enc_obj (case att of None \<Rightarrow> OBJECT_NIL | Some ob \<Rightarrow> ob)
      @ enc_obj (number (serial st' + 1)) @ []"
    using full' by (simp add: msgpack_packer_init_def)
  have pid: "log_packs env pk (enc_obj (if pid \<noteq> 0 then number pid else OBJECT_NIL))
      (if pid \<noteq> 0 then msgpack_pack_uint32 pk pid else msgpack_pack_nil pk)" if "good_packer env pk" for pk
    using that by (simp add: number_packs simple_packs del: enc_obj.simps)
  have ob: "log_packs env pk (enc_obj (case att of None \<Rightarrow> OBJECT_NIL | Some ob \<Rightarrow> ob))
      (case att of None \<Rightarrow> msgpack_pack_nil pk | Some ob \<Rightarrow> msgpack_pack_object pk ob)" if "good_packer env pk" for pk
    using that obj by (cases att) (simp_all add: object_packs simple_packs del: enc_obj.simps)
  have last: "delivers full s (Some (pk_data pk, s))" if "full = sb_content (pk_data pk) @ []" for pk s
    using that by (simp add: delivers_def)
  note step = then_pack_delivers [OF _ full(2)]
  note steps = step [OF level_packs [OF _ assms(2)]] step [OF number_packs] step [OF simple_packs(2)] step [OF pid]
    step [OF string_packs(1) [OF _ assms(3)]] step [OF string_packs(2) [OF _ assms(4) len]]
  show ?thesis
    unfolding sbuffer_log_level_def Let_def i1 i3 i2 [OF refl] attach_step_def [symmetric]
    apply (rule step [OF simple_packs(3) [OF g0]], rule start)
    apply (rule steps(1), assumption+)
    apply (rule steps(2), assumption+)
    apply (rule steps(3), assumption+)
    apply (rule steps(4), assumption+)
    apply (rule steps(5), assumption+)
    apply (rule steps(6), assumption+)
    apply (unfold att(1) bind.bind_lunit prod.case i4)
    apply (rule step [OF ob], assumption+)
    apply (rule step [OF number_packs], assumption+)
    apply (rule last, assumption)
    done
qed

subsection \<open>Checkpoints count their passes\<close>

definition passes :: "u32 entries \<Rightarrow> bytes \<Rightarrow> u32" where
  "passes es k = (case find (\<lambda>e. fst (snd e) = k) es of None \<Rightarrow> 0 | Some e \<Rightarrow> snd (snd e))"

lemma passes_set_value:
  assumes "hash_of s es" "(p, k, v) \<in> set es"
  shows "passes (map (\<lambda>e. if fst e = p then (p, k, v') else e) es) k' = (if k' = k then v' else passes es k')"
proof -
  let ?f = "\<lambda>e. if fst e = p then (p, k, v') else e"
  have inj: "inj_on fst (set es)" "inj_on (fst \<circ> snd) (set es)"
    using assms(1) by (simp_all add: hash_of_def dlist_def distinct_map)
  have f: "?f e = (if fst (snd e) = k then (p, k, v') else e)" if "e \<in> set es" for e
    using inj_onD [OF inj(1) _ that assms(2)] inj_onD [OF inj(2) _ that assms(2)] by fastforce
  have "find (\<lambda>e. fst (snd e) = k') (map ?f xs) = map_option ?f (find (\<lambda>e. fst (snd e) = k') xs)" if "set xs \<subseteq> set es" for xs
    using that f by (induction xs) auto
  moreover have "e \<in> set es \<and> fst (snd e) = k'" if "find (\<lambda>e. fst (snd e) = k') es = Some e" for e
    using that by (auto simp: find_Some_iff)
  moreover have "find (\<lambda>e. fst (snd e) = k) es \<noteq> None" using assms(2) unfolding find_None_iff by auto
  ultimately show ?thesis
    using f by (auto simp: passes_def split: option.split)
qed

lemma passes_snoc_new: "k \<notin> fst ` snd ` set es \<Longrightarrow> passes (es @ [(p, k, 0)]) k' = passes es k'"
  by (cases "find (\<lambda>e. fst (snd e) = k') es") (simp_all add: passes_def uth.find_snoc)

definition env_fresh :: "log_env \<Rightarrow> bool" where
  "env_fresh env \<longleftrightarrow> (\<forall>A p. env_new env A = Some p \<longrightarrow> p \<notin> A)"

text \<open>The memory a checkpoint needs: the entry, its key and the table.\<close>

definition checkpoint_memory :: "log_env \<Rightarrow> u32 uthash \<Rightarrow> bytes \<Rightarrow> bool" where
  "checkpoint_memory env ck k \<longleftrightarrow> env_fresh env \<and> env_new env (dom (ut_app ck)) \<noteq> None
     \<and> env_malloc env (length k + 1) \<and> memory_for_add (env_malloc env) ck"

lemma checkpoint_pass_count_spec:
  assumes "hash_of ck es" "no_nul k" "length k < 2 ^ 31" "length es < 2 ^ 32 - 1" "checkpoint_memory env ck k"
  shows "\<exists>ck' es'. checkpoint_pass_count env ck k = Some (passes es k + 1, ck') \<and> hash_of ck' es'
    \<and> (\<forall>k'. passes es' k' = (if k' = k then passes es k + 1 else passes es k')) \<and> fst ` snd ` set es' = insert k (fst ` snd ` set es)
    \<and> length es' \<le> Suc (length es)"
proof -
  have k32: "length k < 2 ^ 32" using assms(3) by simp
  have look: "HASH_FIND_STR ck k = Some (map_option fst (find (\<lambda>e. fst (snd e) = k) es))"
    using uth.lookup_law [OF assms(1) k32] assms(2) by (simp add: HASH_FIND_STR_def hash_lookup_def)
  have "\<exists>p ck1 es1. (case map_option fst (find (\<lambda>e. fst (snd e) = k) es) of
         Some p \<Rightarrow> Some (p, ck)
       | None \<Rightarrow> Option.bind (env_new env (dom (ut_app ck))) (\<lambda>p.
           if \<not> env_malloc env (strlen k + 1) then None
           else map_option (\<lambda>ck. (p, ck)) (hash_insert_new (env_malloc env) ck p (take (strlen k) k) 0))) = Some (p, ck1)
      \<and> hash_of ck1 es1 \<and> (p, k, passes es k) \<in> set es1 \<and> (\<forall>k'. passes es1 k' = passes es k')
      \<and> fst ` snd ` set es1 = insert k (fst ` snd ` set es) \<and> length es1 \<le> Suc (length es)"
  proof (cases "find (\<lambda>e. fst (snd e) = k) es")
    case (Some e)
    then have "e \<in> set es" "fst (snd e) = k" by (auto simp: find_Some_iff)
    then have "(fst e, k, passes es k) \<in> set es" using Some by (cases e) (auto simp: passes_def)
    with assms(1) Some show ?thesis by (intro exI [of _ "fst e"] exI [of _ ck] exI [of _ es]) (force simp: insert_absorb image_iff)
  next
    case None
    then have new: "k \<notin> fst ` snd ` set es" by (auto simp: find_None_iff)
    from assms(5) obtain p where p: "env_new env (dom (ut_app ck)) = Some p" "p \<notin> dom (ut_app ck)"
      and mem: "env_malloc env (length k + 1)" "memory_for_add (env_malloc env) ck"
      unfolding checkpoint_memory_def env_fresh_def by blast
    from uth.insert_law [OF assms(1) k32 new p(2) assms(4) mem(2), of 0] obtain ck1 where
      "hash_insert_new (env_malloc env) ck p k 0 = Some ck1" "hash_of ck1 (es @ [(p, k, 0)])" by blast
    moreover have "passes es k = 0" using None by (simp add: passes_def)
    ultimately show ?thesis
      using None p(1) mem(1) assms(2) passes_snoc_new [OF new]
      by (intro exI [of _ p] exI [of _ ck1] exI [of _ "es @ [(p, k, 0)]"]) simp
  qed
  then obtain p ck1 es1 where 1: "(case map_option fst (find (\<lambda>e. fst (snd e) = k) es) of
         Some p \<Rightarrow> Some (p, ck)
       | None \<Rightarrow> Option.bind (env_new env (dom (ut_app ck))) (\<lambda>p.
           if \<not> env_malloc env (strlen k + 1) then None
           else map_option (\<lambda>ck. (p, ck)) (hash_insert_new (env_malloc env) ck p (take (strlen k) k) 0))) = Some (p, ck1)"
    "hash_of ck1 es1" "(p, k, passes es k) \<in> set es1" "\<And>k'. passes es1 k' = passes es k'"
    "fst ` snd ` set es1 = insert k (fst ` snd ` set es)" "length es1 \<le> Suc (length es)" by blast
  from hash_of_live [OF 1(2,3)] obtain n where n: "ut_app ck1 p = Some n" by auto
  from 1(2,3) n have pay: "payload n = passes es k" by (auto simp: hash_of_def entry_ok_def payload_at_def)
  let ?es = "map (\<lambda>e. if fst e = p then (p, k, passes es k + 1) else e) es1"
  let ?ck = "ck1\<lparr> ut_app := (ut_app ck1)(p \<mapsto> n\<lparr> payload := passes es k + 1 \<rparr>) \<rparr>"
  have count: "checkpoint_pass_count env ck k = Some (passes es k + 1, ?ck)"
    unfolding checkpoint_pass_count_def look bind.bind_lunit 1(1) prod.case n Let_def pay ..
  have repr: "hash_of ?ck ?es" by (rule hash_of_set_value [OF 1(2,3) n])
  have pass: "passes ?es k' = (if k' = k then passes es k + 1 else passes es k')" for k'
    using passes_set_value [OF 1(2,3)] 1(4) by simp
  have "map (fst \<circ> snd) ?es = map (fst \<circ> snd) es1"
  proof -
    have "inj_on fst (set es1)" using 1(2) by (simp add: hash_of_def dlist_def distinct_map)
    have key: "fst (snd e) = k" if "e \<in> set es1" "fst e = p" for e
      using inj_onD [OF \<open>inj_on fst (set es1)\<close> _ that(1) 1(3)] that(2) by simp
    show ?thesis
      unfolding map_map map_eq_conv
    proof
      fix e assume "e \<in> set es1"
      then show "(fst \<circ> snd \<circ> (\<lambda>e. if fst e = p then (p, k, passes es k + 1) else e)) e = (fst \<circ> snd) e"
        using key [of e] by (cases "fst e = p") simp_all
    qed
  qed
  then have keys: "fst ` snd ` set ?es = fst ` snd ` set es1" by (simp only: set_map [symmetric] map_map comp_assoc)
  show ?thesis
  proof (intro exI conjI allI)
    show "length ?es \<le> Suc (length es)" using 1(6) by simp
    show "fst ` snd ` set ?es = insert k (fst ` snd ` set es)" using keys 1(5) by (rule trans)
  qed (rule count repr pass)+
qed

subsection \<open>The state as lists\<close>

text \<open>The checkpoints as the entries of the hash table, the backends as a list of addresses and entries.\<close>

definition log_repr :: "log_state \<Rightarrow> u32 entries \<Rightarrow> (nat \<times> backend_list_t) list \<Rightarrow> bool" where
  "log_repr st es bks \<longleftrightarrow> hash_of (checkpoints st) es \<and> dlist_of (log_backends st) bks"

lemma log_repr_simps [simp]:
  "log_repr (st\<lparr> indent_level := i \<rparr>) es bks = log_repr st es bks"
  "log_repr (st\<lparr> serial := i \<rparr>) es bks = log_repr st es bks"
  "log_repr (st\<lparr> log_PID := i \<rparr>) es bks = log_repr st es bks"
  "log_repr (st\<lparr> log_calls := c \<rparr>) es bks = log_repr st es bks"
  "log_repr (st\<lparr> checkpoints := ck \<rparr>) es bks \<longleftrightarrow> hash_of ck es \<and> dlist_of (log_backends st) bks"
  by (simp_all add: log_repr_def)

definition deliveries :: "bytes \<Rightarrow> LOG_LEVEL \<Rightarrow> (nat \<times> backend_list_t) list \<Rightarrow> log_call list" where
  "deliveries content level bks = map (\<lambda>(p, b). Deliver (bk_callback b) content level (bk_userptr b)) bks"

definition process_id :: "log_env \<Rightarrow> log_state \<Rightarrow> u32" where
  "process_id env st = (if log_PID st = 0 then env_getpid env else log_PID st)"

lemma attach_log_level_spec:
  assumes "realloc_ok (env_realloc env)" "dlist_of (log_backends st') bks" "\<not> level < global_threshold st"
    and "level < 2 ^ 31" "text_ok origin" "text_ok msg" "len = - 1 \<or> len = int (length (text_of msg))"
    and att: "attach_step env (st\<lparr> log_PID := process_id env st, indent_level := indent_after level (indent_level st) \<rparr>)
        attachment level msg = Some (att, st')" "\<forall>ob. att = Some ob \<longrightarrow> object_ok ob"
    and full: "full = enc_obj (log_object level (indent_shown level (indent_level st)) (env_timestamp env)
        (process_id env st) origin msg att (serial st' + 1))" "log_memory env full"
  shows "attach_log_level env st attachment level origin msg len =
    Some (st'\<lparr> serial := serial st' + 1, log_calls := log_calls st' @ deliveries full level bks \<rparr>)"
proof -
  let ?st = "st\<lparr> log_PID := process_id env st \<rparr>"
  have pid: "(if log_PID st = 0 then st\<lparr> log_PID := env_getpid env \<rparr> else st) = ?st" by (simp add: process_id_def)
  have "delivers full (st'\<lparr> serial := serial st' + 1 \<rparr>)
      (sbuffer_log_level env ?st msgpack_sbuffer_init attachment level (process_id env st) origin msg len)"
    by (rule sbuffer_log_level_spec [OF assms(1,4-7) _ att(2) _ full(2)]) (use att(1) full(1) in simp_all)
  then obtain sb where sb: "sbuffer_log_level env ?st msgpack_sbuffer_init attachment level (process_id env st) origin msg len
      = Some (sb, st'\<lparr> serial := serial st' + 1 \<rparr>)" "sb_content sb = full" by (auto simp: delivers_def)
  have "list_visit (log_backends st') = Some bks" by (rule dll.visit_law [OF assms(2)])
  then show ?thesis
    using assms(3) sb by (simp add: attach_log_level_def pid sbuffer_log_send_def deliveries_def)
qed

subsection \<open>Backends come and go\<close>

definition notifications :: "backend_list_t \<Rightarrow> log_call list" where
  "notifications b = (case bk_notify b of None \<Rightarrow> [] | Some f \<Rightarrow> [Notify f LOG_NOTIFY_SHUTDOWN (bk_userptr b)])"

text \<open>The entry an unregistration picks: the first with both the function and the user pointer, else the
  first with the function.\<close>

definition pick :: "(nat \<times> backend_list_t) list \<Rightarrow> nat \<Rightarrow> nat option \<Rightarrow> (nat \<times> backend_list_t) option" where
  "pick bks callback userptr =
     (case find (\<lambda>(p, b). bk_userptr b = userptr \<and> bk_callback b = callback) bks of
        Some e \<Rightarrow> Some e
      | None \<Rightarrow> find (\<lambda>(p, b). bk_callback b = callback) bks)"

lemma match_backends:
  assumes "dlist_of s bks"
  shows "LIST_MATCH (\<lambda>p n. Q (payload n)) (fst s) (snd s) = Some (map_option fst (find (\<lambda>(p, b). Q b) bks))"
proof -
  have "LIST_MATCH (\<lambda>p n. Q (payload n)) (fst s) (snd s) = Some (find (\<lambda>p. Q (payload (the (fst s p)))) (map fst bks))"
    using assms by (intro LIST_MATCH_dseg) (auto simp: dlist_of_def dlist_def)
  moreover have "find (\<lambda>p. Q (payload (the (fst s p)))) (map fst xs) = map_option fst (find (\<lambda>(p, b). Q b) xs)"
    if "set xs \<subseteq> set bks" for xs
    using that
  proof (induction xs)
    case (Cons x xs)
    then have "payload_at (fst s) (fst x) = Some (snd x)" using assms by (auto simp: dlist_of_def)
    then have "payload (the (fst s (fst x))) = snd x" by (rule payload_at_the)
    with Cons show ?case by (auto split: prod.split)
  qed simp
  ultimately show ?thesis by simp
qed

lemma log_register_backend_spec:
  assumes "log_repr st es bks" "env_new env (dom (fst (log_backends st))) = Some p" "env_fresh env"
  shows "\<exists>l. log_register_backend env st callback notify userptr = Some (st\<lparr> log_backends := l \<rparr>)
    \<and> log_repr (st\<lparr> log_backends := l \<rparr>) es (bks @ [(p, \<lparr> bk_callback = callback, bk_notify = notify, bk_userptr = userptr \<rparr>)])"
proof -
  have "p \<notin> dom (fst (log_backends st))" using assms(2,3) by (auto simp: env_fresh_def)
  from dll.insert_law [OF assms(1) [unfolded log_repr_def, THEN conjunct2] this] assms show ?thesis
    by (fastforce simp: log_register_backend_def log_repr_def)
qed

lemma log_unregister_backend_spec:
  assumes d: "dlist_of (log_backends st) bks"
  shows "case pick bks callback userptr of
      None \<Rightarrow> log_unregister_backend st callback userptr = Some st
    | Some (p, b) \<Rightarrow> \<exists>l. log_unregister_backend st callback userptr =
          Some (st\<lparr> log_calls := log_calls st @ notifications b, log_backends := l \<rparr>)
        \<and> dlist_of l (filter (\<lambda>e. fst e \<noteq> p) bks) \<and> dom (fst l) = dom (fst (log_backends st)) - {p}"
proof -
  have u: "log_unregister_backend st callback userptr =
     (case map_option fst (pick bks callback userptr) of
       None \<Rightarrow> Some st
     | Some p \<Rightarrow> Option.bind (fst (log_backends st) p) (\<lambda>n.
         let st = log_backend_notify st (payload n) LOG_NOTIFY_SHUTDOWN
         in map_option (\<lambda>l. st\<lparr> log_backends := l \<rparr>) (list_delete_free (log_backends st) p)))"
    using match_backends [OF d, of "\<lambda>b. bk_userptr b = userptr \<and> bk_callback b = callback"]
      match_backends [OF d, of "\<lambda>b. bk_callback b = callback"]
    by (simp add: log_unregister_backend_def pick_def split: option.split)
  show ?thesis
  proof (cases "pick bks callback userptr")
    case (Some e)
    obtain p b where e: "e = (p, b)" by force
    have "(p, b) \<in> set bks" using Some unfolding e by (auto simp: pick_def dest: find_SomeD split: option.splits)
    then have mem: "p \<in> fst ` set bks" and pay: "payload_at (fst (log_backends st)) p = Some b"
      using d by (force simp: dlist_of_def)+
    from pay obtain n where n: "fst (log_backends st) p = Some n" "payload n = b" by (auto simp: payload_at_def)
    have note_: "log_backend_notify st b LOG_NOTIFY_SHUTDOWN = st\<lparr> log_calls := log_calls st @ notifications b \<rparr>"
      by (simp add: log_backend_notify_def notifications_def split: option.split)
    from dll.delete_law [OF d mem] obtain l where l: "list_delete_free (log_backends st) p = Some l"
      "dlist_of l (filter (\<lambda>e. fst e \<noteq> p) bks)" "dom (fst l) = dom (fst (log_backends st)) - {p}" by blast
    have "log_unregister_backend st callback userptr = Some (st\<lparr> log_calls := log_calls st @ notifications b, log_backends := l \<rparr>)"
      using l(1) n by (simp add: u Some e note_ Let_def)
    with l(2,3) show ?thesis unfolding Some e option.case prod.case by blast
  qed (simp add: u)
qed

lemma pick_head: "pick ((p, b) # bks) (bk_callback b) (bk_userptr b) = Some (p, b)"
  by (simp add: pick_def)

lemma shutdown_loop_simps:
  "shutdown_loop st None = Some st"
  "shutdown_loop st (Some p) = Option.bind (fst (log_backends st) p) (\<lambda>n.
     Option.bind (log_unregister_backend st (bk_callback (payload n)) (bk_userptr (payload n))) (\<lambda>st. shutdown_loop st (nxt n)))"
  by (subst shutdown_loop.simps, simp)+

lemma shutdown_loop_spec:
  "dlist_of (log_backends st) bks \<Longrightarrow> \<exists>l. shutdown_loop st (snd (log_backends st)) =
      Some (st\<lparr> log_calls := log_calls st @ concat (map (notifications \<circ> snd) bks), log_backends := l \<rparr>)
    \<and> dlist_of l [] \<and> dom (fst l) = dom (fst (log_backends st)) - fst ` set bks"
proof (induction bks arbitrary: st)
  case Nil
  then have "snd (log_backends st) = None" by (simp add: dlist_of_def dlist_def)
  with Nil show ?case by (intro exI [of _ "log_backends st"]) (simp add: shutdown_loop_simps)
next
  case (Cons e bks)
  obtain p b where e: "e = (p, b)" by force
  have d: "dlist_of (log_backends st) ((p, b) # bks)" using Cons.prems by (simp add: e)
  then have dl: "dlist (fst (log_backends st)) (snd (log_backends st)) (p # map fst bks)" by (simp add: dlist_of_def)
  then have head: "snd (log_backends st) = Some p" by (simp add: dlist_def)
  from dl obtain n where n: "fst (log_backends st) p = Some n" by (auto simp: dlist_def split: option.splits)
  with d have pay: "payload n = b" by (simp add: dlist_of_def)
  have nx: "nxt n = (if map fst bks = [] then None else Some (hd (map fst bks)))"
    using dl n by (auto simp: dlist_def dest: dseg_head)
  have keep: "filter (\<lambda>e. fst e \<noteq> p) ((p, b) # bks) = bks"
    using dlist_of_distinct [OF d] by (auto simp: filter_id_conv)
  from log_unregister_backend_spec [OF d, of "bk_callback b" "bk_userptr b", unfolded e pick_head] keep
  obtain l where l: "log_unregister_backend st (bk_callback b) (bk_userptr b) =
      Some (st\<lparr> log_calls := log_calls st @ notifications b, log_backends := l \<rparr>)"
    "dlist_of l bks" "dom (fst l) = dom (fst (log_backends st)) - {p}" by auto
  let ?st = "st\<lparr> log_calls := log_calls st @ notifications b, log_backends := l \<rparr>"
  have r: "dlist_of (log_backends ?st) bks" using l(2) by simp
  have nx': "snd (log_backends ?st) = nxt n" using l(2) nx by (auto simp: dlist_of_def dlist_def dest: dseg_head)
  from Cons.IH [OF r, unfolded nx'] obtain l2 where
    l2: "shutdown_loop ?st (nxt n) = Some (?st\<lparr> log_calls := log_calls ?st @ concat (map (notifications \<circ> snd) bks), log_backends := l2 \<rparr>)"
      "dlist_of l2 []" "dom (fst l2) = dom (fst (log_backends ?st)) - fst ` set bks" by blast
  have "shutdown_loop st (snd (log_backends st)) =
      Some (st\<lparr> log_calls := log_calls st @ concat (map (notifications \<circ> snd) (e # bks)), log_backends := l2 \<rparr>)"
    unfolding head shutdown_loop_simps n bind.bind_lunit pay l(1) l2(1) by (simp add: e)
  moreover have "dom (fst l2) = dom (fst (log_backends st)) - fst ` set (e # bks)" using l2(3) l(3) by (auto simp: e)
  ultimately show ?case using l2(2) by blast
qed

lemma then_pack_None: "(\<And>pk. k pk = None) \<Longrightarrow> then_pack r k = None"
  by (simp add: then_pack_def split: option.split)

lemma clear_checkpoints_spec:
  assumes "hash_of (checkpoints st) es"
  shows "clear_checkpoints st = Some (st\<lparr> checkpoints := (checkpoints st)\<lparr> ut_app := ut_app (checkpoints st) |` (- fst ` set es),
    ut_chain := ut_chain (checkpoints st) |` (- fst ` set es) \<rparr> \<rparr>)"
  using HASH_ITER_free [OF assms] by (simp add: clear_checkpoints_def)

text \<open>A table whose first element was freed: every operation goes through it.\<close>

lemma dangling_head:
  assumes "ut_head ck = Some p" "ut_app ck p = None"
  shows "HASH_FIND_STR ck k = None" "HASH_ITER body ck = None"
  using assms by (simp_all add: HASH_FIND_STR_def HASH_FIND_def head_tbl_def HASH_ITER_def app_next_def)

subsection \<open>An environment\<close>

definition test_env :: log_env where
  "test_env = \<lparr> env_realloc = realloc_zero 16385, env_malloc = malloc_16g,
     env_new = (\<lambda>A. if 1 \<in> A then None else Some 1), env_getpid = 42, env_timestamp = 0x3ff0000000000000 \<rparr>"

lemma test_env_ok:
  "realloc_ok (env_realloc test_env)" "env_fresh test_env" "2 * length full \<le> 16384 \<Longrightarrow> log_memory test_env full"
proof -
  show "realloc_ok (env_realloc test_env)" by (simp add: test_env_def realloc_zero_ok)
  show "env_fresh test_env" by (simp add: test_env_def env_fresh_def)
  have "realloc_enough (realloc_zero (Suc 16384)) 16384" by (rule realloc_zero_enough) simp_all
  then show "2 * length full \<le> 16384 \<Longrightarrow> log_memory test_env full"
    unfolding log_memory_def by (intro exI [of _ 16384]) (simp add: test_env_def)
qed

lemma log_start_repr: "log_repr (log_start debug) [] []"
  by (simp add: log_repr_def log_start_def hash_of_empty empty_hash_def)

definition a_backend :: backend_list_t where
  "a_backend = \<lparr> bk_callback = 100, bk_notify = Some 200, bk_userptr = Some 5 \<rparr>"

lemma one_backend:
  obtains st where "log_register_backend test_env (log_start True) 100 (Some 200) (Some 5) = Some st"
    "log_repr st [] [(1, a_backend)]" "indent_level st = 0" "serial st = 0" "log_PID st = 0" "global_threshold st = 0"
    "log_calls st = []" "checkpoints st = empty_hash"
proof -
  have "env_new test_env (dom (fst (log_backends (log_start True)))) = Some 1" by (simp add: test_env_def log_start_def)
  from log_register_backend_spec [OF log_start_repr this test_env_ok(2), of 100 "Some 200" "Some 5"] that show ?thesis
    by (auto simp: a_backend_def log_start_def)
qed

subsection \<open>Properties\<close>

text \<open>
  (C7) Sending a message. A message below the threshold changes nothing. Otherwise exactly one buffer is
  made, and every registered backend gets it, once, in the order of registration: the buffer holds
  the MessagePack encoding of the array of level, indentation, time, process id, origin, text,
  attachment and serial number. The serial number goes up by one, and the indentation follows the
  messages that enter and leave a scope, without going below zero.
\<close>

theorem log_message_delivered:
  assumes "realloc_ok (env_realloc env)" "log_repr st es bks" "level < 15" "level \<noteq> LOG_LEVEL_CHECKPOINT"
    and "text_ok origin" "text_ok msg" "len = - 1 \<or> len = int (length (text_of msg))"
    and "\<forall>ob. attachment = Some ob \<longrightarrow> object_ok ob"
    and "full = enc_obj (log_object level (indent_shown level (indent_level st)) (env_timestamp env)
        (process_id env st) origin msg attachment (serial st + 1))" "log_memory env full"
  shows "attach_log_level env st attachment level origin msg len =
    (if level < global_threshold st then Some st
     else Some (st\<lparr> log_PID := process_id env st, indent_level := indent_after level (indent_level st),
       serial := serial st + 1, log_calls := log_calls st @ deliveries full level bks \<rparr>))"
proof (cases "level < global_threshold st")
  case False
  let ?st = "st\<lparr> log_PID := process_id env st, indent_level := indent_after level (indent_level st) \<rparr>"
  have "dlist_of (log_backends ?st) bks" using assms(2) by (simp add: log_repr_def)
  moreover have "attach_step env ?st attachment level msg = Some (attachment, ?st)"
    using assms(4) by (simp add: attach_step_def)
  moreover have "level < 2 ^ 31" using assms(3) by (simp add: word_less_nat_alt)
  ultimately have "attach_log_level env st attachment level origin msg len =
      Some (?st\<lparr> serial := serial ?st + 1, log_calls := log_calls ?st @ deliveries full level bks \<rparr>)"
    by (intro attach_log_level_spec) (use assms False in auto)
  with False show ?thesis by simp
qed (simp add: attach_log_level_def)

lemma log_message_delivered_witness:
  "\<exists>st st'. log_register_backend test_env (log_start True) 100 (Some 200) (Some 5) = Some st
    \<and> attach_log_level test_env st None LOG_LEVEL_ENTER (Some [109]) (Some [104, 105]) (- 1) = Some st'
    \<and> log_calls st' = [Deliver 100 [0x98, 7, 0, 0xcb, 0x3f, 0xf0, 0, 0, 0, 0, 0, 0, 42, 0xa1, 109, 0xa2, 104, 105, 0xc0, 1] 7 (Some 5)]
    \<and> indent_level st' = 1"
proof -
  obtain st where st: "log_register_backend test_env (log_start True) 100 (Some 200) (Some 5) = Some st"
    "log_repr st [] [(1, a_backend)]" "indent_level st = 0" "serial st = 0" "log_PID st = 0" "global_threshold st = 0"
    "log_calls st = []" by (rule one_backend)
  have pid: "process_id test_env st = 42" by (simp add: process_id_def st test_env_def)
  have full: "enc_obj (log_object 7 (indent_shown 7 (indent_level st)) (env_timestamp test_env) (process_id test_env st)
      (Some [109]) (Some [104, 105]) None (serial st + 1))
    = [0x98, 7, 0, 0xcb, 0x3f, 0xf0, 0, 0, 0, 0, 0, 0, 42, 0xa1, 109, 0xa2, 104, 105, 0xc0, 1]"
    unfolding st pid by (simp add: indent_shown_def test_env_def) code_simp
  have "attach_log_level test_env st None 7 (Some [109]) (Some [104, 105]) (- 1) =
    (if 7 < global_threshold st then Some st
     else Some (st\<lparr> log_PID := process_id test_env st, indent_level := indent_after 7 (indent_level st),
       serial := serial st + 1, log_calls := log_calls st @ deliveries
         [0x98, 7, 0, 0xcb, 0x3f, 0xf0, 0, 0, 0, 0, 0, 0, 42, 0xa1, 109, 0xa2, 104, 105, 0xc0, 1] 7 [(1, a_backend)] \<rparr>))"
    by (rule log_message_delivered [OF test_env_ok(1) st(2) _ _ _ _ _ _ full [symmetric]])
       (simp_all add: text_ok_Some test_env_ok(3))
  with st show ?thesis
    by (simp add: deliveries_def a_backend_def indent_after_def indent_shown_def)
qed

text \<open>
  (C11) Checkpoints. A message of the level for checkpoints carries, as its attachment, how often its text was
  passed, this time included, and the count is kept in the hash table: the next one is higher by one,
  and no other checkpoint's count changes.
\<close>

theorem checkpoint_counts_passes:
  assumes "realloc_ok (env_realloc env)" "log_repr st es bks" "global_threshold st \<le> LOG_LEVEL_CHECKPOINT"
    and "text_ok origin" "no_nul k" "length k < 2 ^ 31" "length es < 2 ^ 32 - 1"
    and "checkpoint_memory env (checkpoints st) k"
    and "full = enc_obj (log_object LOG_LEVEL_CHECKPOINT (indent_level st) (env_timestamp env) (process_id env st) origin
        (Some k) (Some (OBJECT_POSITIVE_INTEGER (ucast (passes es k + 1)))) (serial st + 1))" "log_memory env full"
  shows "\<exists>ck es'. attach_log_level env st attachment LOG_LEVEL_CHECKPOINT origin (Some k) (- 1) =
      Some (st\<lparr> log_PID := process_id env st, checkpoints := ck, serial := serial st + 1,
        log_calls := log_calls st @ deliveries full LOG_LEVEL_CHECKPOINT bks \<rparr>)
    \<and> hash_of ck es' \<and> passes es' = (passes es)(k := passes es k + 1)"
proof -
  have repr: "hash_of (checkpoints st) es" "dlist_of (log_backends st) bks" using assms(2) by (simp_all add: log_repr_def)
  from checkpoint_pass_count_spec [OF repr(1) assms(5,6,7,8)] obtain ck es' where
    ck: "checkpoint_pass_count env (checkpoints st) k = Some (passes es k + 1, ck)" "hash_of ck es'"
      "\<And>k'. passes es' k' = (if k' = k then passes es k + 1 else passes es k')" by blast
  let ?st = "st\<lparr> log_PID := process_id env st, indent_level := indent_after LOG_LEVEL_CHECKPOINT (indent_level st) \<rparr>"
  let ?att = "Some (OBJECT_POSITIVE_INTEGER (ucast (passes es k + 1)))"
  let ?st' = "?st\<lparr> checkpoints := ck \<rparr>"
  have ind: "indent_after LOG_LEVEL_CHECKPOINT (indent_level st) = indent_level st"
    "indent_shown LOG_LEVEL_CHECKPOINT (indent_level st) = indent_level st"
    by (simp_all add: indent_after_def indent_shown_def)
  have "attach_step env ?st attachment LOG_LEVEL_CHECKPOINT (Some k) = Some (?att, ?st')"
    by (simp add: attach_step_def ck(1))
  then have "attach_log_level env st attachment LOG_LEVEL_CHECKPOINT origin (Some k) (- 1) =
      Some (?st'\<lparr> serial := serial ?st' + 1, log_calls := log_calls ?st' @ deliveries full LOG_LEVEL_CHECKPOINT bks \<rparr>)"
    by (intro attach_log_level_spec) (use assms repr in \<open>auto simp: ind text_ok_Some\<close>)
  then have "attach_log_level env st attachment LOG_LEVEL_CHECKPOINT origin (Some k) (- 1) =
      Some (st\<lparr> log_PID := process_id env st, checkpoints := ck, serial := serial st + 1,
        log_calls := log_calls st @ deliveries full LOG_LEVEL_CHECKPOINT bks \<rparr>)"
    by (simp add: ind)
  moreover have "passes es' = (passes es)(k := passes es k + 1)" using ck(3) by auto
  ultimately show ?thesis using ck(2) by blast
qed

lemma test_checkpoint_memory: "checkpoint_memory test_env (checkpoints (log_start True)) [99]"
  unfolding checkpoint_memory_def
  using malloc_16g_ok test_env_ok(2) by (simp add: test_env_def log_start_def malloc_16g_def empty_hash_def)

lemma checkpoint_counts_passes_witness:
  "\<exists>st'. attach_log_level test_env (log_start True) None LOG_LEVEL_CHECKPOINT None (Some [99]) (- 1) = Some st'
    \<and> serial st' = 1 \<and> (\<exists>es. hash_of (checkpoints st') es \<and> passes es [99] = 1)"
proof -
  let ?full = "enc_obj (log_object LOG_LEVEL_CHECKPOINT 0 0x3ff0000000000000 42 None (Some [99]) (Some (OBJECT_POSITIVE_INTEGER 1)) 1)"
  have start: "passes [] [99] = 0" "indent_level (log_start True) = 0" "serial (log_start True) = 0"
    "global_threshold (log_start True) = 0" "log_PID (log_start True) = 0"
    by (simp_all add: passes_def log_start_def)
  have full: "?full = enc_obj (log_object LOG_LEVEL_CHECKPOINT (indent_level (log_start True)) (env_timestamp test_env)
      (process_id test_env (log_start True)) None (Some [99]) (Some (OBJECT_POSITIVE_INTEGER (ucast (passes [] [99] + 1))))
      (serial (log_start True) + 1))"
    unfolding start process_id_def by (simp add: test_env_def del: enc_obj.simps)
  have enough: "log_memory test_env ?full" by (rule test_env_ok(3)) code_simp
  have "\<exists>ck es'. attach_log_level test_env (log_start True) None LOG_LEVEL_CHECKPOINT None (Some [99]) (- 1) =
      Some ((log_start True)\<lparr> log_PID := process_id test_env (log_start True), checkpoints := ck,
        serial := serial (log_start True) + 1, log_calls := log_calls (log_start True) @ deliveries ?full LOG_LEVEL_CHECKPOINT [] \<rparr>)
      \<and> hash_of ck es' \<and> passes es' = (passes [])([99] := passes [] [99] + 1)"
    by (rule checkpoint_counts_passes [OF test_env_ok(1) log_start_repr _ _ _ _ _ test_checkpoint_memory full enough])
       (simp_all add: start text_ok_def text_of_def no_nul_def)
  then obtain ck es' where r: "attach_log_level test_env (log_start True) None LOG_LEVEL_CHECKPOINT None (Some [99]) (- 1) =
      Some ((log_start True)\<lparr> log_PID := process_id test_env (log_start True), checkpoints := ck, serial := 0 + 1,
        log_calls := log_calls (log_start True) @ deliveries ?full LOG_LEVEL_CHECKPOINT [] \<rparr>)"
    "hash_of ck es'" "passes es' = (passes [])([99] := 0 + 1)" unfolding start by blast
  have "passes es' [99] = 1" by (simp add: r(3))
  with r(1,2) show ?thesis by auto
qed

text \<open>
  (C14) Backends. Registering a backend appends it; unregistering takes out the entry that matches function and
  user pointer, or else the first one with the function, and notifies just that one before; with no
  match nothing happens. The backends not concerned keep their order and their entries.
\<close>

theorem register_unregister_correct:
  assumes "log_repr st es bks" "env_fresh env" "env_new env (dom (fst (log_backends st))) = Some p"
  shows "(\<exists>st'. log_register_backend env st callback notify userptr = Some st'
      \<and> log_repr st' es (bks @ [(p, \<lparr> bk_callback = callback, bk_notify = notify, bk_userptr = userptr \<rparr>)])
      \<and> log_calls st' = log_calls st)
    \<and> (\<exists>st'. log_unregister_backend st callback userptr = Some st' \<and> (case pick bks callback userptr of
        None \<Rightarrow> st' = st
      | Some (q, b) \<Rightarrow> log_repr st' es (filter (\<lambda>e. fst e \<noteq> q) bks) \<and> log_calls st' = log_calls st @ notifications b
          \<and> dom (fst (log_backends st')) = dom (fst (log_backends st)) - {q}))" (is "?reg \<and> ?unreg")
proof
  from log_register_backend_spec [OF assms(1,3,2), of callback notify userptr] show ?reg by fastforce
  have "dlist_of (log_backends st) bks" using assms(1) by (simp add: log_repr_def)
  from log_unregister_backend_spec [OF this, of callback userptr] show ?unreg
    using assms(1) by (fastforce simp: log_repr_def split: option.splits)
qed

lemma register_unregister_correct_witness:
  "\<exists>st st'. log_register_backend test_env (log_start True) 100 (Some 200) (Some 5) = Some st
    \<and> log_unregister_backend st 100 None = Some st' \<and> log_repr st' [] [] \<and> log_calls st' = [Notify 200 LOG_NOTIFY_SHUTDOWN (Some 5)]"
proof -
  obtain st where st: "log_register_backend test_env (log_start True) 100 (Some 200) (Some 5) = Some st"
    "log_repr st [] [(1, a_backend)]" "log_calls st = []" by (rule one_backend)
  let ?env = "test_env\<lparr> env_new := (\<lambda>A. if A = dom (fst (log_backends st)) \<and> 2 \<notin> A then Some 2 else None) \<rparr>"
  have "dom (fst (log_backends st)) = {1}"
    using st(1) by (auto simp: log_register_backend_def log_start_def test_env_def list_insert_new_def LIST_APPEND_def update_node_def
        split: if_splits)
  then have new: "env_new ?env (dom (fst (log_backends st))) = Some 2" "env_fresh ?env" by (auto simp: env_fresh_def)
  have "pick [(1, a_backend)] 100 None = Some (1, a_backend)" by (simp add: pick_def a_backend_def)
  with register_unregister_correct [OF st(2) new(2,1), where callback = 100 and userptr = None and notify = None] st show ?thesis
    by (auto simp: notifications_def a_backend_def)
qed

text \<open>
  Shutting down. Every backend still registered is notified once, in the order of registration, then
  taken out of the list and freed, and every checkpoint is freed: no backend and no checkpoint stays
  allocated.
\<close>

theorem shutdown_notifies_all:
  assumes "log_repr st es bks"
  shows "\<exists>l. log_shutdown st = Some (st\<lparr> checkpoints := (checkpoints st)\<lparr> ut_app := ut_app (checkpoints st) |` (- fst ` set es),
        ut_chain := ut_chain (checkpoints st) |` (- fst ` set es) \<rparr>,
      log_calls := log_calls st @ concat (map (notifications \<circ> snd) bks), log_backends := l \<rparr>)
    \<and> dlist_of l [] \<and> dom (fst l) = dom (fst (log_backends st)) - fst ` set bks"
proof -
  let ?st = "st\<lparr> checkpoints := (checkpoints st)\<lparr> ut_app := ut_app (checkpoints st) |` (- fst ` set es),
        ut_chain := ut_chain (checkpoints st) |` (- fst ` set es) \<rparr> \<rparr>"
  have h: "hash_of (checkpoints st) es" and d: "dlist_of (log_backends ?st) bks" using assms by (simp_all add: log_repr_def)
  have "log_shutdown st = shutdown_loop ?st (snd (log_backends ?st))"
    by (simp add: log_shutdown_def clear_checkpoints_spec [OF h])
  with shutdown_loop_spec [OF d] show ?thesis by fastforce
qed

lemma shutdown_notifies_all_witness:
  "\<exists>st st'. log_register_backend test_env (log_start True) 100 (Some 200) (Some 5) = Some st \<and> log_shutdown st = Some st'
    \<and> log_calls st' = [Notify 200 LOG_NOTIFY_SHUTDOWN (Some 5)] \<and> dlist_of (log_backends st') []"
proof -
  obtain st where st: "log_register_backend test_env (log_start True) 100 (Some 200) (Some 5) = Some st"
    "log_repr st [] [(1, a_backend)]" "log_calls st = []" by (rule one_backend)
  from shutdown_notifies_all [OF st(2)] st show ?thesis
    by (fastforce simp: notifications_def a_backend_def)
qed

text \<open>
  (C32) After a reset with checkpoints, or a shutdown, the table's pointer still leads to the freed entries: the
  reset itself succeeds, but with at least one checkpoint recorded before, the next reset with
  checkpoints, the shutdown and the next checkpoint message all use freed memory.
\<close>

theorem reset_leaves_dangling_checkpoints:
  assumes "log_repr st es bks" "es \<noteq> []"
  shows "\<exists>st'. log_reset st True = Some st' \<and> log_reset st' True = None \<and> log_shutdown st' = None
    \<and> (\<forall>env attachment origin k len. global_threshold st \<le> LOG_LEVEL_CHECKPOINT \<longrightarrow>
         attach_log_level env st' attachment LOG_LEVEL_CHECKPOINT origin (Some k) len = None)"
proof -
  let ?st = "st\<lparr> indent_level := 0 \<rparr>"
  have h: "hash_of (checkpoints ?st) es" using assms(1) by (simp add: log_repr_def)
  obtain st' where st': "clear_checkpoints ?st = Some st'"
    "st' = ?st\<lparr> checkpoints := (checkpoints st)\<lparr> ut_app := ut_app (checkpoints st) |` (- fst ` set es),
      ut_chain := ut_chain (checkpoints st) |` (- fst ` set es) \<rparr> \<rparr>"
    using clear_checkpoints_spec [OF h] by simp
  have "ut_head (checkpoints st) = Some (hd (map fst es))"
    using h assms(2) by (auto simp: hash_of_def dlist_def dest: dseg_head)
  moreover have "hd (map fst es) \<in> fst ` set es" using assms(2) by (cases es) auto
  ultimately have d: "ut_head (checkpoints st') = Some (hd (map fst es))" "ut_app (checkpoints st') (hd (map fst es)) = None"
    by (simp_all add: st'(2))
  have clear: "clear_checkpoints s = None" if "checkpoints s = checkpoints st'" for s
    using that dangling_head(2) [OF d] by (simp add: clear_checkpoints_def)
  have count: "checkpoint_pass_count env (checkpoints s) k = None" if "checkpoints s = checkpoints st'" for env k s
    using that dangling_head(1) [OF d] by (simp add: checkpoint_pass_count_def)
  have "log_reset st True = Some st'" "log_reset st' True = None" "log_shutdown st' = None"
    using st'(1) clear by (simp_all add: log_reset_def log_shutdown_def)
  moreover have "attach_log_level env st' attachment LOG_LEVEL_CHECKPOINT origin (Some k) len = None"
    if "global_threshold st \<le> LOG_LEVEL_CHECKPOINT" for env attachment origin k len
  proof -
    have "\<not> LOG_LEVEL_CHECKPOINT < global_threshold st'" using that st'(2) by (simp add: not_less)
    moreover have "sbuffer_log_level env s sb attachment LOG_LEVEL_CHECKPOINT pid origin (Some k) len = None"
      if "checkpoints s = checkpoints st'" for s sb pid
      unfolding sbuffer_log_level_def Let_def
      by (intro then_pack_None) (simp add: count that)
    ultimately show ?thesis by (simp add: attach_log_level_def Let_def)
  qed
  ultimately show ?thesis by blast
qed

lemma reset_leaves_dangling_checkpoints_witness:
  "\<exists>st st' ck. checkpoint_pass_count test_env empty_hash [99] = Some (1, ck) \<and> st = (log_start True)\<lparr> checkpoints := ck \<rparr>
    \<and> log_reset st True = Some st' \<and> log_reset st' True = None"
proof -
  have "hash_of (checkpoints (log_start True)) ([] :: u32 entries)" using log_start_repr by (simp add: log_repr_def)
  from checkpoint_pass_count_spec [OF this _ _ _ test_checkpoint_memory] obtain ck es where
    ck: "checkpoint_pass_count test_env empty_hash [99] = Some (1, ck)" "hash_of ck es" "fst ` snd ` set es = {[99]}"
    by (auto simp: no_nul_def passes_def log_start_def)
  have "log_repr ((log_start True)\<lparr> checkpoints := ck \<rparr>) es []"
    using ck(2) log_start_repr [of True] by (simp add: log_repr_def)
  from reset_leaves_dangling_checkpoints [OF this] ck(1,3) show ?thesis by force
qed

end
