(* ===== verification/Timing.thy ===== *)
theory Timing
  imports MsgpackObject
begin

text \<open>
  The formatting of time stamps in \<^verbatim>\<open>core/timing.c\<close>. A time stamp is a \<^verbatim>\<open>double\<close>, given by its bits; its
  magnitude is the exact fraction \<open>f64_parts\<close>. Of the C library the function uses, in the C locale:
  the conversion to \<^verbatim>\<open>time_t\<close>, \<^verbatim>\<open>gmtime\<close>, \<^verbatim>\<open>localtime\<close> (over the offset \<open>tz\<close> of the local time zone at
  a given time), \<^verbatim>\<open>strftime\<close> with the conversions the program's formats have, and \<^verbatim>\<open>snprintf\<close> of
  \<^verbatim>\<open>fmod(timestamp, 1.)\<close> with \<^verbatim>\<open>%.3f\<close>, which rounds to nearest even. Another conversion, a value that
  \<^verbatim>\<open>time_t\<close> or \<^verbatim>\<open>struct tm\<close> cannot hold, and a buffer that is too short have no result (\<open>None\<close>).
\<close>

subsection \<open>Double precision numbers\<close>

type_synonym f64 = u64

definition f64_exponent :: "f64 \<Rightarrow> nat" where
  "f64_exponent b = unat (take_bit 11 (drop_bit 52 b))"

definition f64_finite :: "f64 \<Rightarrow> bool" where
  "f64_finite b \<longleftrightarrow> f64_exponent b < 2047"

definition f64_negative :: "f64 \<Rightarrow> bool" where
  "f64_negative b \<longleftrightarrow> 2 ^ 63 \<le> unat b"

text \<open>The magnitude as numerator and denominator.\<close>

definition f64_parts :: "f64 \<Rightarrow> nat \<times> nat" where
  "f64_parts b =
     (let frac = unat (take_bit 52 b); e = f64_exponent b;
          mant = (if e = 0 then frac else frac + 2 ^ 52); scale = max e 1
      in if 1075 \<le> scale then (mant * 2 ^ (scale - 1075), 1) else (mant, 2 ^ (1075 - scale)))"

definition f64_positive :: "f64 \<Rightarrow> bool" where
  "f64_positive b \<longleftrightarrow> 0 < unat b \<and> unat b \<le> 0x7ff0000000000000"

definition f64_to_time_t :: "f64 \<Rightarrow> int option" where
  "f64_to_time_t b =
     (let (m, d) = f64_parts b; v = (if f64_negative b then - int (m div d) else int (m div d))
      in if f64_finite b \<and> - (2 ^ 63) \<le> v \<and> v < 2 ^ 63 then Some v else None)"

definition round_half_even :: "nat \<Rightarrow> nat \<Rightarrow> nat" where
  "round_half_even n d =
     (let q = n div d; r = n mod d
      in if d < 2 * r \<or> 2 * r = d \<and> odd q then q + 1 else q)"

text \<open>\<^verbatim>\<open>fmod(timestamp, 1.)\<close> in thousandths, as \<^verbatim>\<open>%.3f\<close> rounds it.\<close>

definition frac_thousandths :: "f64 \<Rightarrow> nat" where
  "frac_thousandths b = (let (m, d) = f64_parts b in round_half_even (1000 * (m mod d)) d)"

subsection \<open>Calendar time\<close>

record tm =
  tm_year :: int
  tm_mon :: int
  tm_mday :: int
  tm_hour :: int
  tm_min :: int
  tm_sec :: int

definition gmtime :: "int \<Rightarrow> tm option" where
  "gmtime t =
     (let days = t div 86400; secs = t mod 86400;
          z = days + 719468; era = z div 146097; doe = z mod 146097;
          yoe = (doe - doe div 1460 + doe div 36524 - doe div 146096) div 365;
          doy = doe - (365 * yoe + yoe div 4 - yoe div 100);
          mp = (5 * doy + 2) div 153;
          month = (if mp < 10 then mp + 3 else mp - 9);
          year = yoe + 400 * era + (if month \<le> 2 then 1 else 0)
      in if - (2 ^ 31) \<le> year - 1900 \<and> year - 1900 < 2 ^ 31
         then Some \<lparr> tm_year = year - 1900, tm_mon = month - 1, tm_mday = doy - (153 * mp + 2) div 5 + 1,
           tm_hour = secs div 3600, tm_min = secs div 60 mod 60, tm_sec = secs mod 60 \<rparr>
         else None)"

definition localtime :: "(int \<Rightarrow> int) \<Rightarrow> int \<Rightarrow> tm option" where
  "localtime tz t = gmtime (t + tz t)"

definition digit :: "int \<Rightarrow> u8" where
  "digit i = word_of_int (48 + i)"

definition two_digits :: "int \<Rightarrow> bytes" where
  "two_digits i = [digit (i div 10 mod 10), digit (i mod 10)]"

fun strftime :: "bytes \<Rightarrow> tm \<Rightarrow> bytes option" where
  "strftime (c # cs) t =
     (if c = 37
      then (case cs of
          [] \<Rightarrow> None
        | k # rest \<Rightarrow> Option.bind
            (if k = 89 then Some (print_int (tm_year t + 1900))
             else if k = 109 then Some (two_digits (tm_mon t + 1))
             else if k = 100 then Some (two_digits (tm_mday t))
             else if k = 72 then Some (two_digits (tm_hour t))
             else if k = 77 then Some (two_digits (tm_min t))
             else if k = 83 then Some (two_digits (tm_sec t))
             else if k = 37 then Some [37] else None)
            (\<lambda>s. map_option ((@) s) (strftime rest t)))
      else map_option ((#) c) (strftime cs t))"
| "strftime [] t = Some []"

definition print_fixed3 :: "bool \<Rightarrow> nat \<Rightarrow> bytes" where
  "print_fixed3 negative n =
     (if negative then [45] else []) @ print_nat (n div 1000) @ [46]
     @ [digit (int n div 100 mod 10), digit (int n div 10 mod 10), digit (int n mod 10)]"

subsection \<open>The function\<close>

text \<open>\<^verbatim>\<open>strncpy(dest, src, 4)\<close> onto the characters from offset \<open>q\<close> of a string.\<close>

definition strncpy4 :: "bytes \<Rightarrow> nat \<Rightarrow> bytes \<Rightarrow> bytes" where
  "strncpy4 s q src = take q s @ take 4 (src @ replicate 4 0) @ drop (q + 4) s"

definition format_timestamp :: "(int \<Rightarrow> int) \<Rightarrow> nat \<Rightarrow> bytes \<Rightarrow> f64 \<Rightarrow> bool \<Rightarrow> (nat \<times> bytes) option" where
  "format_timestamp tz len format timestamp local =
     Option.bind (f64_to_time_t timestamp) (\<lambda>t.
     Option.bind (if local then localtime tz t else gmtime t) (\<lambda>tm.
     Option.bind (strftime format tm) (\<lambda>buffer.
     if len \<le> length buffer then None
     else let result = length buffer in
       Some (result, case strstr buffer (c_str ''.qqq'') of
           None \<Rightarrow> buffer
         | Some qfmt \<Rightarrow>
             let msecs = take 5 (print_fixed3 (f64_negative timestamp) (frac_thousandths timestamp))
             in strncpy4 buffer qfmt (drop 1 msecs)))))"

subsection \<open>Rounding\<close>

lemma round_half_even_near:
  assumes "0 < d"
  shows "2 * \<bar>int (round_half_even n d * d) - int n\<bar> \<le> int d"
proof -
  have n: "int n = int (n div d) * int d + int (n mod d)" by (metis div_mult_mod_eq of_nat_add of_nat_mult)
  have "n mod d < d" using assms by simp
  moreover have "int (round_half_even n d * d) - int n =
      (if d < 2 * (n mod d) \<or> 2 * (n mod d) = d \<and> odd (n div d) then int d - int (n mod d) else - int (n mod d))"
    unfolding n by (simp add: round_half_even_def Let_def algebra_simps)
  ultimately show ?thesis by (simp split: if_split)
qed

lemma round_half_even_le:
  assumes "0 < d" "2 * n < (2 * k + 1) * d"
  shows "round_half_even n d \<le> k"
proof (rule ccontr)
  have twice: "2 * \<bar>x\<bar> \<le> y \<Longrightarrow> 2 * x \<le> y" for x y :: int by linarith
  have above: "x \<le> y \<Longrightarrow> 2 * (y - n) \<le> z \<Longrightarrow> 2 * x \<le> z + 2 * n" for x y z n :: int by arith
  assume "\<not> ?thesis"
  then have "(k + 1) * d \<le> round_half_even n d * d" by (intro mult_right_mono) simp_all
  then have "int ((k + 1) * d) \<le> int (round_half_even n d * d)" by (simp only: of_nat_le_iff)
  moreover have "2 * (int (round_half_even n d * d) - int n) \<le> int d" using twice [OF round_half_even_near [OF assms(1), of n]] .
  ultimately have "2 * int ((k + 1) * d) \<le> int d + 2 * int n" by (rule above)
  then have "2 * ((k + 1) * d) \<le> d + 2 * n" by linarith
  with assms(2) show False by (simp add: algebra_simps)
qed

lemma round_half_even_top:
  assumes "0 < d" "n < k * d" "(2 * k - 1) * d \<le> 2 * n" "even k"
  shows "round_half_even n d = k"
proof -
  have k: "0 < k" using assms(2) by (cases k) simp_all
  have up: "n < (k - 1) * d + d" using assms(2) k by (simp add: algebra_simps flip: mult_Suc)
  have "2 * ((k - 1) * d) + d \<le> 2 * n" using assms(3) k by (cases k) (simp_all add: algebra_simps)
  then have lo: "(k - 1) * d \<le> n" "d \<le> 2 * (n - (k - 1) * d)" by simp_all
  have "n div d = k - 1"
    using lo(1) up assms(1) by (intro div_nat_eqI) (simp_all add: mult.commute algebra_simps)
  moreover from this have "n mod d = n - (k - 1) * d" by (metis minus_div_mult_eq_mod)
  moreover have "odd (k - 1)" using assms(4) k by simp
  ultimately show ?thesis using lo(2) k by (auto simp: round_half_even_def Let_def)
qed

subsection \<open>Properties\<close>

lemma f64_parts_pos: "f64_parts b = (m, d) \<Longrightarrow> 0 < d"
  by (auto simp: f64_parts_def Let_def split: if_splits)

definition three_digits :: "nat \<Rightarrow> bytes" where
  "three_digits n = [digit (int n div 100 mod 10), digit (int n div 10 mod 10), digit (int n mod 10)]"

lemma three_digits_1000: "three_digits 1000 = three_digits 0"
  by (simp add: three_digits_def)

lemma fixed3_digits: "n \<le> 1000 \<Longrightarrow> drop 1 (take 5 (print_fixed3 False n)) = 46 # three_digits n"
proof -
  assume "n \<le> 1000"
  then have "n div 1000 = 0 \<or> n div 1000 = 1" by linarith
  moreover have "print_nat 0 = [48]" "print_nat 1 = [49]" by (subst print_nat.simps, simp)+
  ultimately show ?thesis by (auto simp: print_fixed3_def three_digits_def)
qed

definition clock :: "tm \<Rightarrow> nat \<Rightarrow> bytes" where
  "clock t ms = two_digits (tm_hour t) @ [58] @ two_digits (tm_min t) @ [58] @ two_digits (tm_sec t) @ [46] @ three_digits ms @ [32]"

lemma strftime_clock:
  "strftime (c_str ''%H:%M:%S.qqq '') t =
     Some (two_digits (tm_hour t) @ [58] @ two_digits (tm_min t) @ [58] @ two_digits (tm_sec t) @ [46, 113, 113, 113, 32])"
  by (simp add: c_str_def of_char_def two_digits_def)

lemma strstr_clock:
  "strstr (two_digits h @ [58] @ two_digits mi @ [58] @ two_digits s @ [46, 113, 113, 113, 32]) (c_str ''.qqq'') = Some 8"
  by (simp add: c_str_def of_char_def two_digits_def strstr_def upt_rec)

lemma format_clock:
  assumes "\<not> f64_negative ts" "f64_to_time_t ts = Some t" "(if local then localtime tz t else gmtime t) = Some tm"
    and "13 < len" "frac_thousandths ts \<le> 1000"
  shows "format_timestamp tz len (c_str ''%H:%M:%S.qqq '') ts local = Some (13, clock tm (frac_thousandths ts))"
proof -
  have neg: "f64_negative ts = False" using assms(1) by simp
  show ?thesis
    using assms(4)
    unfolding format_timestamp_def assms(2) bind.bind_lunit assms(3) strftime_clock strstr_clock Let_def option.case neg
      fixed3_digits [OF assms(5)]
    by (simp add: strncpy4_def clock_def two_digits_def three_digits_def)
qed

text \<open>
  (C20) A time stamp that is not negative, in the format of the log: hours, minutes and seconds are those of the
  second the time stamp falls in, and the milliseconds are its fraction, to the nearest one, unless
  the fraction is at least 0.9995. There the rounding is carried into nothing: the text has the
  milliseconds 000 of the same second, almost a second early.
\<close>

theorem timestamp_accuracy:
  assumes "\<not> f64_negative ts" "f64_to_time_t ts = Some t" "f64_parts ts = (m, d)"
    and "(if local then localtime tz t else gmtime t) = Some tm" "13 < len"
  shows "t = int (m div d) \<and> (\<exists>ms<1000. format_timestamp tz len (c_str ''%H:%M:%S.qqq '') ts local = Some (13, clock tm ms)
    \<and> (if 2000 * (m mod d) < 1999 * d then 2 * \<bar>int (ms * d) - int (1000 * (m mod d))\<bar> \<le> int d else ms = 0))"
proof
  show "t = int (m div d)" using assms(1-3) by (simp add: f64_to_time_t_def split: if_splits)
  have d: "0 < d" by (rule f64_parts_pos [OF assms(3)])
  let ?n = "round_half_even (1000 * (m mod d)) d"
  have n: "frac_thousandths ts = ?n" by (simp add: frac_thousandths_def assms(3))
  show "\<exists>ms<1000. format_timestamp tz len (c_str ''%H:%M:%S.qqq '') ts local = Some (13, clock tm ms)
    \<and> (if 2000 * (m mod d) < 1999 * d then 2 * \<bar>int (ms * d) - int (1000 * (m mod d))\<bar> \<le> int d else ms = 0)"
  proof (cases "2000 * (m mod d) < 1999 * d")
    case True
    then have "?n \<le> 999" using d by (intro round_half_even_le) simp_all
    with True show ?thesis
      using format_clock [OF assms(1,2,4,5)] round_half_even_near [OF d, of "1000 * (m mod d)"] n
      by (intro exI [of _ ?n]) simp
  next
    case False
    have "m mod d < d" using d by simp
    with False have "?n = 1000" using d by (intro round_half_even_top) simp_all
    with False show ?thesis
      using format_clock [OF assms(1,2,4,5)] n by (intro exI [of _ 0]) (simp add: clock_def three_digits_1000)
  qed
qed

lemma timestamp_accuracy_witness:
  "\<exists>ms. format_timestamp (\<lambda>_. 0) 16 (c_str ''%H:%M:%S.qqq '') 0x3feffcb923a29c78 True
    = Some (13, clock \<lparr> tm_year = 70, tm_mon = 0, tm_mday = 1, tm_hour = 0, tm_min = 0, tm_sec = 0 \<rparr> ms) \<and> ms = 0"
proof -
  have e: "f64_exponent 0x3feffcb923a29c78 = 1022"
    by (simp add: f64_exponent_def unsigned_take_bit_eq unsigned_drop_bit_eq drop_bit_eq_div take_bit_eq_mod)
  have fr: "unat (take_bit 52 (0x3feffcb923a29c78 :: 64 word)) = 4499996747668600"
    by (simp add: unsigned_take_bit_eq take_bit_eq_mod)
  have p: "f64_parts 0x3feffcb923a29c78 = (9003596375039096, 2 ^ 53)"
    by (simp add: f64_parts_def e fr Let_def)
  have n: "\<not> f64_negative 0x3feffcb923a29c78" by (simp add: f64_negative_def)
  have t: "f64_to_time_t 0x3feffcb923a29c78 = Some 0"
    unfolding f64_to_time_t_def p by (simp add: n f64_finite_def e)
  have l: "(if True then localtime (\<lambda>_. 0) 0 else gmtime 0)
      = Some \<lparr> tm_year = 70, tm_mon = 0, tm_mday = 1, tm_hour = 0, tm_min = 0, tm_sec = 0 \<rparr>"
    by code_simp
  from timestamp_accuracy [OF n t p l, of 16] show ?thesis by auto
qed

end
