(* ===== verification/LogStdio.thy ===== *)
theory LogStdio
  imports Log Timing MsgpackRoundtrip
begin

text \<open>
  The logging backend for text output, \<^verbatim>\<open>core/logstdio.c\<close>, on top of the logging system, the
  deserializer and the time stamps. A stream is known by its address; \<open>open_streams\<close> are those that
  are open and \<open>written\<close> is what was written to each since it was opened. Writing does not fail. A
  stream that is not open, a \<^verbatim>\<open>union\<close> member that was not stored, and an array element that is not
  there have no result (\<open>None\<close>).

  The addresses of the backend's two functions lead from the recorded calls of the logging system
  back to their models (\<open>run_calls\<close>), so that a message can be followed from the log call to the
  text on the stream.
\<close>

subsection \<open>Streams and objects\<close>

record stdio_env =
  se_tz :: "int \<Rightarrow> int"
  se_double :: "u64 \<Rightarrow> bytes"
  se_zalloc :: "nat \<Rightarrow> bool"
  se_fopen :: "bytes \<Rightarrow> nat option"

record stdio_state =
  open_streams :: "nat set"
  written :: "nat \<Rightarrow> bytes"

definition STDOUT :: nat where "STDOUT = 1"
definition STDERR :: nat where "STDERR = 2"

definition LOG_STDIO_CALLBACK :: nat where "LOG_STDIO_CALLBACK = 4096"
definition LOG_STDIO_NOTIFY :: nat where "LOG_STDIO_NOTIFY = 4112"

text \<open>The members of the \<^verbatim>\<open>union\<close>: integers of either sign and doubles share their 64 bits, strings and
  binary data their layout.\<close>

definition via_u64 :: "msgpack_object \<Rightarrow> u64 option" where
  "via_u64 ob = (case ob of
     OBJECT_POSITIVE_INTEGER u \<Rightarrow> Some u | OBJECT_NEGATIVE_INTEGER i \<Rightarrow> Some (ucast i) | OBJECT_FLOAT f \<Rightarrow> Some f | _ \<Rightarrow> None)"

definition via_f64 :: "msgpack_object \<Rightarrow> u64 option" where
  "via_f64 ob = via_u64 ob"

definition via_str :: "msgpack_object \<Rightarrow> bytes option" where
  "via_str ob = (case ob of OBJECT_STR s \<Rightarrow> Some s | OBJECT_BIN s \<Rightarrow> Some s | _ \<Rightarrow> None)"

definition MEMBER :: "msgpack_object \<Rightarrow> nat \<Rightarrow> msgpack_object option" where
  "MEMBER msg n = (case msg of OBJECT_ARRAY os \<Rightarrow> array_get os n | _ \<Rightarrow> None)"

text \<open>The number of bytes and the stream afterwards.\<close>

definition msgpack_object_str_fwrite :: "bytes \<Rightarrow> bytes \<Rightarrow> nat \<times> bytes" where
  "msgpack_object_str_fwrite str stream = (if 0 < length str then (length str, stream @ str) else (0, stream))"

fun print_hex :: "nat \<Rightarrow> bytes" where
  "print_hex n =
     (let d = n mod 16; c = (if d < 10 then 48 + word_of_nat d else 55 + word_of_nat d)
      in if n < 16 then [c] else print_hex (n div 16) @ [c])"

declare print_hex.simps [simp del]

subsection \<open>The text of a message\<close>

definition log_text :: "stdio_env \<Rightarrow> bytes \<Rightarrow> msgpack_object \<Rightarrow> bytes option" where
  "log_text env stream msg =
     Option.bind (MEMBER msg 3) (\<lambda>m3.
     Option.bind (if m3 \<noteq> OBJECT_NIL
         then map_option (\<lambda>u. stream @ c_str ''PID 0x'' @ print_hex (unat (ucast u :: u32)) @ [32]) (via_u64 m3)
         else Some stream) (\<lambda>stream.
     Option.bind (MEMBER msg 0) (\<lambda>m0.
     Option.bind (via_u64 m0) (\<lambda>u.
     let level = ucast u :: LOG_LEVEL;
         stream = stream @ [91] @ log_level_string level @ c_str ''] '' in
     Option.bind (MEMBER msg 2) (\<lambda>m2.
     Option.bind (via_f64 m2) (\<lambda>timestamp.
     Option.bind (if f64_positive timestamp
         then map_option (\<lambda>(_, time_str). stream @ take (strlen time_str) time_str)
           (format_timestamp (se_tz env) 16 (c_str ''%H:%M:%S.qqq '') timestamp True)
         else Some stream) (\<lambda>stream.
     Option.bind (MEMBER msg 4) (\<lambda>m4.
     Option.bind (via_str m4) (\<lambda>origin.
     let (n, stream) = msgpack_object_str_fwrite origin stream;
         stream = (if n \<noteq> 0 then stream @ c_str '': '' else stream) in
     Option.bind
       (if level = LOG_LEVEL_SEPARATOR then Some (stream @ c_str ''----------------------------------------'')
        else if level = LOG_LEVEL_CHECKPOINT then
          Option.bind (MEMBER msg 5) (\<lambda>m5. Option.bind (via_str m5) (\<lambda>s.
          Option.bind (MEMBER msg 6) (\<lambda>m6.
          let stream = snd (msgpack_object_str_fwrite s (stream @ c_str ''Check point '' @ [39])) @ [39, 32, 35]
          in Some (msgpack_object_print (se_double env) stream m6))))
        else if level = LOG_LEVEL_SCRATCHPAD then
          Option.bind (MEMBER msg 5) (\<lambda>m5. Option.bind (via_str m5) (\<lambda>key.
          let stream = snd (msgpack_object_str_fwrite key stream) @ c_str '' <- '' in
          Option.bind (MEMBER msg 6) (\<lambda>m6. Option.bind (via_str m6) (\<lambda>value.
          Some (snd (msgpack_object_str_fwrite value stream))))))
        else
          Option.bind (MEMBER msg 5) (\<lambda>m5. Option.bind (via_str m5) (\<lambda>s.
          let stream = snd (msgpack_object_str_fwrite s stream) in
          Option.bind (MEMBER msg 6) (\<lambda>m6.
          Some (if m6 \<noteq> OBJECT_NIL then msgpack_object_print (se_double env) (stream @ [10, 9]) m6 else stream)))))
       (\<lambda>stream. Some (stream @ [10])))))))))))"

text \<open>The result of \<^verbatim>\<open>msgpack_unpack\<close> is not looked at; without an object its memory is read all the same.\<close>

definition log_text_sbuffer :: "stdio_env \<Rightarrow> bytes \<Rightarrow> bytes \<Rightarrow> bytes option" where
  "log_text_sbuffer env stream msg =
     Option.bind (msgpack_unpack (se_zalloc env) msg None) (\<lambda>(_, _, deserialized).
     Option.bind deserialized (log_text env stream))"

definition log_stdio_callback :: "stdio_env \<Rightarrow> stdio_state \<Rightarrow> bytes \<Rightarrow> LOG_LEVEL \<Rightarrow> nat option \<Rightarrow> stdio_state option" where
  "log_stdio_callback env fs logmsg level userptr = (case userptr of
     None \<Rightarrow> Some fs
   | Some f \<Rightarrow> if f \<in> open_streams fs
       then map_option (\<lambda>out. fs\<lparr> written := (written fs)(f := out) \<rparr>) (log_text_sbuffer env (written fs f) logmsg)
       else None)"

definition log_stdio_notify :: "stdio_state \<Rightarrow> LOG_NOTIFY \<Rightarrow> nat option \<Rightarrow> stdio_state option" where
  "log_stdio_notify fs reason userptr =
     (if reason = LOG_NOTIFY_SHUTDOWN
      then (case userptr of
          None \<Rightarrow> Some fs
        | Some f \<Rightarrow> if f \<noteq> STDOUT \<and> f \<noteq> STDERR
            then if f \<in> open_streams fs then Some (fs\<lparr> open_streams := open_streams fs - {f} \<rparr>) else None
            else Some fs)
      else Some fs)"

definition log_stdio :: "log_env \<Rightarrow> stdio_env \<Rightarrow> log_state \<Rightarrow> stdio_state \<Rightarrow> bytes \<Rightarrow> (log_state \<times> stdio_state) option" where
  "log_stdio lenv env st fs filename =
     (let (stream, fs) =
        (if strcasecmp filename (c_str ''stdout'') = 0 then (Some STDOUT, fs)
         else if strcasecmp filename (c_str ''stderr'') = 0 then (Some STDERR, fs)
         else case se_fopen env filename of
             None \<Rightarrow> (None, fs)
           | Some f \<Rightarrow> (Some f, fs\<lparr> open_streams := insert f (open_streams fs), written := (written fs)(f := []) \<rparr>))
      in map_option (\<lambda>st. (st, fs)) (log_register_backend lenv st LOG_STDIO_CALLBACK (Some LOG_STDIO_NOTIFY) stream))"

subsection \<open>Running the recorded calls\<close>

definition run_call :: "stdio_env \<Rightarrow> log_call \<Rightarrow> stdio_state \<Rightarrow> stdio_state option" where
  "run_call env call fs = (case call of
     Deliver f content level userptr \<Rightarrow>
       if f = LOG_STDIO_CALLBACK then log_stdio_callback env fs content level userptr else Some fs
   | Notify f reason userptr \<Rightarrow> if f = LOG_STDIO_NOTIFY then log_stdio_notify fs reason userptr else Some fs)"

fun run_calls :: "stdio_env \<Rightarrow> log_call list \<Rightarrow> stdio_state \<Rightarrow> stdio_state option" where
  "run_calls env [] fs = Some fs"
| "run_calls env (c # cs) fs = Option.bind (run_call env c fs) (run_calls env cs)"

subsection \<open>The line a message should give\<close>

definition time_ok :: "stdio_env \<Rightarrow> f64 \<Rightarrow> bool" where
  "time_ok env ts \<longleftrightarrow> (f64_positive ts \<longrightarrow> (\<exists>t tm. f64_to_time_t ts = Some t \<and> localtime (se_tz env) t = Some tm))"

definition time_text :: "stdio_env \<Rightarrow> f64 \<Rightarrow> bytes" where
  "time_text env ts =
     (if f64_positive ts then clock (the (localtime (se_tz env) (the (f64_to_time_t ts)))) (frac_thousandths ts) else [])"

definition message_text :: "stdio_env \<Rightarrow> LOG_LEVEL \<Rightarrow> bytes option \<Rightarrow> msgpack_object option \<Rightarrow> bytes" where
  "message_text env level msg attachment =
     (let print = msgpack_object_print (se_double env) []
      in if level = LOG_LEVEL_SEPARATOR then replicate 40 45
         else if level = LOG_LEVEL_CHECKPOINT then c_str ''Check point '' @ [39] @ text_of msg @ [39, 32, 35] @
           print (case attachment of None \<Rightarrow> OBJECT_NIL | Some ob \<Rightarrow> ob)
         else if level = LOG_LEVEL_SCRATCHPAD then text_of msg @ c_str '' <- '' @ (case attachment of Some (OBJECT_STR s) \<Rightarrow> s | _ \<Rightarrow> [])
         else text_of msg @ (case attachment of None \<Rightarrow> [] | Some ob \<Rightarrow> if ob = OBJECT_NIL then [] else [10, 9] @ print ob))"

definition log_line :: "stdio_env \<Rightarrow> LOG_LEVEL \<Rightarrow> f64 \<Rightarrow> u32 \<Rightarrow> bytes option \<Rightarrow> bytes option \<Rightarrow> msgpack_object option \<Rightarrow> bytes" where
  "log_line env level ts pid origin msg attachment =
     (if pid = 0 then [] else c_str ''PID 0x'' @ print_hex (unat pid) @ [32])
     @ [91] @ log_level_string level @ c_str ''] '' @ time_text env ts
     @ (if text_of origin = [] then [] else text_of origin @ c_str '': '')
     @ message_text env level msg attachment @ [10]"

definition attachment_ok :: "LOG_LEVEL \<Rightarrow> msgpack_object option \<Rightarrow> bool" where
  "attachment_ok level attachment \<longleftrightarrow> (\<forall>ob. attachment = Some ob \<longrightarrow> object_ok ob \<and> fits 31 ob)
     \<and> (level = LOG_LEVEL_SCRATCHPAD \<longrightarrow> (\<exists>s. attachment = Some (OBJECT_STR s)))"

lemma digit_ne_0: "digit (i mod 10) \<noteq> 0"
proof -
  have "(48 + i mod 10) mod 256 = 48 + i mod 10"
    by (rule mod_pos_pos_trivial) (use pos_mod_bound [of 10 i] in simp_all)
  then have "uint (digit (i mod 10)) \<noteq> 0"
    unfolding digit_def uint_word_of_int using pos_mod_sign [of 10 i] by simp
  then show ?thesis by (metis uint_0_iff)
qed

lemma strlen_clock: "strlen (clock tm ms) = 13"
  by (simp add: strlen_def clock_def two_digits_def three_digits_def digit_ne_0)

lemma frac_thousandths_le: "frac_thousandths b \<le> 1000"
proof -
  obtain m d where p: "f64_parts b = (m, d)" by force
  have d: "0 < d" by (rule f64_parts_pos [OF p])
  then have "m mod d < d" by simp
  then have "2 * (1000 * (m mod d)) < (2 * 1000 + 1) * d" by simp
  from round_half_even_le [OF d this] show ?thesis by (simp add: frac_thousandths_def p)
qed

lemma time_stamp_text:
  assumes "time_ok env ts"
  shows "(if f64_positive ts
         then map_option (\<lambda>(_, time_str). stream @ take (strlen time_str) time_str)
           (format_timestamp (se_tz env) 16 (c_str ''%H:%M:%S.qqq '') ts True)
         else Some stream) = Some (stream @ time_text env ts)"
proof (cases "f64_positive ts")
  case True
  with assms obtain t tm where t: "f64_to_time_t ts = Some t" "localtime (se_tz env) t = Some tm" by (auto simp: time_ok_def)
  have neg: "\<not> f64_negative ts" using True by (simp add: f64_positive_def f64_negative_def)
  have len: "length (clock tm ms) = 13" for ms by (simp add: clock_def two_digits_def three_digits_def)
  have "format_timestamp (se_tz env) 16 (c_str ''%H:%M:%S.qqq '') ts True = Some (13, clock tm (frac_thousandths ts))"
    by (rule format_clock [OF neg t(1)]) (simp_all add: t frac_thousandths_le)
  with True show ?thesis by (simp add: time_text_def t strlen_clock len)
qed (simp add: time_text_def)

lemma MEMBER_log_object:
  "MEMBER (log_object level i ts pid origin msg att ser) 0 = Some (number level)"
  "MEMBER (log_object level i ts pid origin msg att ser) 2 = Some (OBJECT_FLOAT ts)"
  "MEMBER (log_object level i ts pid origin msg att ser) 3 = Some (if pid \<noteq> 0 then number pid else OBJECT_NIL)"
  "MEMBER (log_object level i ts pid origin msg att ser) 4 = Some (OBJECT_STR (text_of origin))"
  "MEMBER (log_object level i ts pid origin msg att ser) 5 = Some (OBJECT_STR (text_of msg))"
  "MEMBER (log_object level i ts pid origin msg att ser) 6 = Some (case att of None \<Rightarrow> OBJECT_NIL | Some ob \<Rightarrow> ob)"
  by (simp_all add: MEMBER_def log_object_def)

lemma via_simps [simp]:
  "via_u64 (number n) = Some (ucast n)" "via_f64 (OBJECT_FLOAT f) = Some f" "via_str (OBJECT_STR s) = Some s"
  "number n \<noteq> OBJECT_NIL"
  by (simp_all add: via_u64_def via_f64_def via_str_def number_def)

lemma ucast_back: "ucast (ucast n :: u64) = (n :: u32)"
  by (rule bit_word_eqI) (auto simp: bit_simps dest: bit_imp_le_length)

lemma str_fwrite: "msgpack_object_str_fwrite s out = (length s, out @ s)"
  by (simp add: msgpack_object_str_fwrite_def)

lemma dashes: "c_str ''----------------------------------------'' = replicate 40 45"
  by (simp add: c_str_def of_char_def numeral_eq_Suc)

lemma log_text_line:
  assumes "time_ok env ts" "level = LOG_LEVEL_SCRATCHPAD \<longrightarrow> (\<exists>s. att = Some (OBJECT_STR s))"
  shows "log_text env out (log_object level i ts pid origin msg att ser) = Some (out @ log_line env level ts pid origin msg att)"
proof -
  have pid: "(if (if pid \<noteq> 0 then number pid else OBJECT_NIL) \<noteq> OBJECT_NIL
         then map_option (\<lambda>u. out @ c_str ''PID 0x'' @ print_hex (unat (ucast u :: u32)) @ [32]) (via_u64 (if pid \<noteq> 0 then number pid else OBJECT_NIL))
         else Some out) = Some (out @ (if pid = 0 then [] else c_str ''PID 0x'' @ print_hex (unat pid) @ [32]))"
    by (simp add: ucast_back)
  show ?thesis
    unfolding log_text_def MEMBER_log_object bind.bind_lunit pid via_simps(1-3) Let_def ucast_back time_stamp_text [OF assms(1)]
      str_fwrite prod.case snd_conv
    using assms(2)
    by (auto simp: log_line_def message_text_def dashes print_appends [where out = "_ @ _"] print_appends [where out = "_ # _"] split: option.split)
qed


lemma log_object_ok:
  assumes "text_ok origin" "text_ok msg" "\<forall>ob. att = Some ob \<longrightarrow> object_ok ob \<and> fits 31 ob"
  shows "object_ok (log_object level i ts pid origin msg att ser)" "fits 32 (log_object level i ts pid origin msg att ser)"
  using assms by (auto simp: log_object_def number_def text_ok_def split: option.split)

lemma log_text_sbuffer_line:
  assumes "\<forall>n. se_zalloc env n" "time_ok env ts" "text_ok origin" "text_ok msg" "attachment_ok level att"
  shows "log_text_sbuffer env out (enc_obj (log_object level i ts pid origin msg att ser))
    = Some (out @ log_line env level ts pid origin msg att)"
proof -
  have "msgpack_unpack (se_zalloc env) (enc_obj (log_object level i ts pid origin msg att ser)) None
      = Some (UNPACK_SUCCESS, None, Some (log_object level i ts pid origin msg att ser))"
    by (rule unpack_encoded [OF assms(1) log_object_ok [OF assms(3,4)]]) (use assms(5) in \<open>auto simp: attachment_ok_def\<close>)
  then show ?thesis
    using assms(2,5) by (simp add: log_text_sbuffer_def log_text_line attachment_ok_def)
qed

lemma run_deliveries:
  assumes "\<And>out. log_text_sbuffer env out content = Some (out @ line)"
    and "\<forall>(p, b) \<in> set bks. bk_callback b = LOG_STDIO_CALLBACK \<and> (\<forall>f. bk_userptr b = Some f \<longrightarrow> f \<in> open_streams fs)"
  shows "run_calls env (deliveries content level bks) fs = Some (fs\<lparr> written := \<lambda>f. written fs f
    @ concat (map (\<lambda>(p, b). if bk_userptr b = Some f then line else []) bks) \<rparr>)"
  using assms(2)
proof (induction bks arbitrary: fs)
  case (Cons e bks)
  obtain p b where e: "e = (p, b)" by force
  let ?fs = "fs\<lparr> written := \<lambda>f. written fs f @ (if bk_userptr b = Some f then line else []) \<rparr>"
  have cb: "bk_callback b = LOG_STDIO_CALLBACK" and op: "\<forall>f. bk_userptr b = Some f \<longrightarrow> f \<in> open_streams fs"
    using Cons.prems by (auto simp: e)
  have "log_stdio_callback env fs content level (bk_userptr b) = Some ?fs"
    using op by (cases "bk_userptr b") (auto simp: log_stdio_callback_def assms(1) fun_eq_iff intro!: stdio_state.equality)
  then have "run_calls env (deliveries content level (e # bks)) fs = run_calls env (deliveries content level bks) ?fs"
    by (simp add: deliveries_def e run_call_def cb)
  moreover have "\<forall>(p, b) \<in> set bks. bk_callback b = LOG_STDIO_CALLBACK \<and> (\<forall>f. bk_userptr b = Some f \<longrightarrow> f \<in> open_streams ?fs)"
    using Cons.prems by auto
  ultimately show ?case using Cons.IH [of ?fs] by (simp add: e)
qed (simp add: deliveries_def)

lemma log_text_scratch_nil:
  assumes "time_ok env ts"
  shows "log_text env out (log_object LOG_LEVEL_SCRATCHPAD i ts pid origin msg (Some OBJECT_NIL) ser) = None"
proof -
  have nil: "via_str OBJECT_NIL = None" by (simp add: via_str_def)
  show ?thesis
    unfolding log_text_def MEMBER_log_object bind.bind_lunit via_simps(1-3) Let_def ucast_back time_stamp_text [OF assms]
      str_fwrite prod.case snd_conv option.case nil
    by (simp add: ucast_back bind_eq_None_conv)
qed

lemma notifications_close:
  assumes "\<forall>(p, b) \<in> set bks. bk_notify b = Some LOG_STDIO_NOTIFY \<and> (\<forall>f. bk_userptr b = Some f \<longrightarrow> f \<in> open_streams fs)"
    and "distinct (filter (\<lambda>u. u \<notin> {None, Some STDOUT, Some STDERR}) (map (\<lambda>e. bk_userptr (snd e)) bks))"
  shows "run_calls senv (concat (map (notifications \<circ> snd) bks)) fs =
    Some (fs\<lparr> open_streams := open_streams fs - {f. f \<noteq> STDOUT \<and> f \<noteq> STDERR \<and> Some f \<in> bk_userptr ` snd ` set bks} \<rparr>)"
  using assms
proof (induction bks arbitrary: fs)
  case (Cons e bks)
  obtain p b where e: "e = (p, b)" by force
  have n: "bk_notify b = Some LOG_STDIO_NOTIFY" using Cons.prems(1) by (simp add: e)
  let ?closed = "{f. f \<noteq> STDOUT \<and> f \<noteq> STDERR \<and> bk_userptr b = Some f}"
  let ?fs = "fs\<lparr> open_streams := open_streams fs - ?closed \<rparr>"
  have "log_stdio_notify fs LOG_NOTIFY_SHUTDOWN (bk_userptr b) = Some ?fs"
    using Cons.prems(1) by (cases "bk_userptr b") (auto simp: log_stdio_notify_def e intro!: stdio_state.equality)
  then have run: "run_calls senv (concat (map (notifications \<circ> snd) (e # bks))) fs =
      run_calls senv (concat (map (notifications \<circ> snd) bks)) ?fs"
    by (simp add: e notifications_def n run_call_def)
  have "f \<in> open_streams ?fs" if "(q, c) \<in> set bks" "bk_userptr c = Some f" for q c f
  proof -
    have "f \<in> open_streams fs" using Cons.prems(1) that by auto
    moreover have "f \<notin> ?closed"
    proof
      assume "f \<in> ?closed"
      then have "bk_userptr b = Some f" "Some f \<notin> {None, Some STDOUT, Some STDERR}" by auto
      moreover have "Some f \<in> set (map (\<lambda>e. bk_userptr (snd e)) bks)" using that by force
      ultimately show False using Cons.prems(2) by (simp add: e)
    qed
    ultimately show ?thesis by simp
  qed
  moreover have "bk_notify c = Some LOG_STDIO_NOTIFY" if "(q, c) \<in> set bks" for q c using Cons.prems(1) that by auto
  moreover have "distinct (filter (\<lambda>u. u \<notin> {None, Some STDOUT, Some STDERR}) (map (\<lambda>e. bk_userptr (snd e)) bks))"
    using Cons.prems(2) by (simp split: if_splits)
  ultimately have "run_calls senv (concat (map (notifications \<circ> snd) bks)) ?fs = Some (?fs\<lparr> open_streams := open_streams ?fs
      - {f. f \<noteq> STDOUT \<and> f \<noteq> STDERR \<and> Some f \<in> bk_userptr ` snd ` set bks} \<rparr>)"
    by (intro Cons.IH) auto
  moreover have "open_streams ?fs - {f. f \<noteq> STDOUT \<and> f \<noteq> STDERR \<and> Some f \<in> bk_userptr ` snd ` set bks}
      = open_streams fs - {f. f \<noteq> STDOUT \<and> f \<noteq> STDERR \<and> Some f \<in> bk_userptr ` snd ` set (e # bks)}"
    by (auto simp: e)
  ultimately show ?case unfolding run by simp
qed simp

subsection \<open>An instance\<close>

definition test_stdio :: stdio_env where
  "test_stdio = \<lparr> se_tz = (\<lambda>_. 0), se_double = (\<lambda>_. []), se_zalloc = (\<lambda>_. True), se_fopen = (\<lambda>_. Some 7) \<rparr>"

definition test_streams :: stdio_state where
  "test_streams = \<lparr> open_streams = {STDOUT, STDERR}, written = (\<lambda>_. []) \<rparr>"

definition stdio_backend :: backend_list_t where
  "stdio_backend = \<lparr> bk_callback = LOG_STDIO_CALLBACK, bk_notify = Some LOG_STDIO_NOTIFY, bk_userptr = Some 7 \<rparr>"

lemma test_time:
  "f64_to_time_t 0x3ff0000000000000 = Some 1" "frac_thousandths 0x3ff0000000000000 = 0"
  "localtime (\<lambda>_. 0) 1 = Some \<lparr> tm_year = 70, tm_mon = 0, tm_mday = 1, tm_hour = 0, tm_min = 0, tm_sec = 1 \<rparr>"
proof -
  have e: "f64_exponent 0x3ff0000000000000 = 1023"
    by (simp add: f64_exponent_def unsigned_take_bit_eq unsigned_drop_bit_eq drop_bit_eq_div take_bit_eq_mod)
  have p: "f64_parts 0x3ff0000000000000 = (2 ^ 52, 2 ^ 52)"
    by (simp add: f64_parts_def e unsigned_take_bit_eq take_bit_eq_mod Let_def)
  show "f64_to_time_t 0x3ff0000000000000 = Some 1"
    unfolding f64_to_time_t_def p by (simp add: f64_finite_def e f64_negative_def)
  show "frac_thousandths 0x3ff0000000000000 = 0" by (simp add: frac_thousandths_def p round_half_even_def)
  show "localtime (\<lambda>_. 0) 1 = Some \<lparr> tm_year = 70, tm_mon = 0, tm_mday = 1, tm_hour = 0, tm_min = 0, tm_sec = 1 \<rparr>"
    by code_simp
qed

lemma test_time_ok: "time_ok test_stdio (env_timestamp test_env)"
  unfolding time_ok_def using test_time(1,3) by (simp add: test_stdio_def test_env_def)

lemma stdio_started:
  obtains st fs where "log_stdio test_env test_stdio (log_start True) test_streams [97] = Some (st, fs)"
    "log_repr st [] [(1, stdio_backend)]" "indent_level st = 0" "serial st = 0" "process_id test_env st = 42"
    "global_threshold st = 0" "log_calls st = []" "open_streams fs = {1, 2, 7}" "written fs = (\<lambda>_. [])"
proof -
  have "env_new test_env (dom (fst (log_backends (log_start True)))) = Some 1" by (simp add: test_env_def log_start_def)
  from log_register_backend_spec [OF log_start_repr this test_env_ok(2), of LOG_STDIO_CALLBACK "Some LOG_STDIO_NOTIFY" "Some 7"]
  obtain l where l: "log_register_backend test_env (log_start True) LOG_STDIO_CALLBACK (Some LOG_STDIO_NOTIFY) (Some 7)
      = Some ((log_start True)\<lparr> log_backends := l \<rparr>)"
    "log_repr ((log_start True)\<lparr> log_backends := l \<rparr>) [] [(1, stdio_backend)]" by (auto simp: stdio_backend_def)
  have n: "strcasecmp [97] (c_str ''stdout'') \<noteq> 0" "strcasecmp [97] (c_str ''stderr'') \<noteq> 0" by code_simp+
  have "log_stdio test_env test_stdio (log_start True) test_streams [97] = Some ((log_start True)\<lparr> log_backends := l \<rparr>,
      test_streams\<lparr> open_streams := {1, 2, 7}, written := (\<lambda>_. []) \<rparr>)"
    using l(1) n by (auto simp: log_stdio_def test_stdio_def test_streams_def STDOUT_def STDERR_def)
  from that [OF this l(2)] show ?thesis by (simp add: log_start_def process_id_def test_env_def)
qed

subsection \<open>Properties\<close>

text \<open>
  (C1) From the log call to the text: a message at or above the threshold, with every registered backend one of
  this file with an open stream or none, reaches each stream as one complete line: process id, level, time,
  origin, text and attachment. What the serializer wrote is what the deserializer reads, and nothing
  else is written.
\<close>

theorem message_reaches_streams:
  assumes "realloc_ok (env_realloc env)" "log_repr st es bks" "level < 15" "level \<noteq> LOG_LEVEL_CHECKPOINT"
    and "global_threshold st \<le> level" "text_ok origin" "text_ok msg" "len = - 1 \<or> len = int (length (text_of msg))"
    and "attachment_ok level attachment"
    and "log_memory env (enc_obj (log_object level (indent_shown level (indent_level st)) (env_timestamp env)
        (process_id env st) origin msg attachment (serial st + 1)))"
    and "\<forall>n. se_zalloc senv n" "time_ok senv (env_timestamp env)"
    and "\<forall>(p, b) \<in> set bks. bk_callback b = LOG_STDIO_CALLBACK \<and> (\<forall>f. bk_userptr b = Some f \<longrightarrow> f \<in> open_streams fs)"
  shows "\<exists>st' calls. attach_log_level env st attachment level origin msg len = Some st' \<and> log_calls st' = log_calls st @ calls
    \<and> run_calls senv calls fs = Some (fs\<lparr> written := \<lambda>f. written fs f @ concat (map (\<lambda>(p, b). if bk_userptr b = Some f
        then log_line senv level (env_timestamp env) (process_id env st) origin msg attachment else []) bks) \<rparr>)"
proof -
  let ?st = "st\<lparr> log_PID := process_id env st, indent_level := indent_after level (indent_level st) \<rparr>"
  let ?content = "enc_obj (log_object level (indent_shown level (indent_level st)) (env_timestamp env)
        (process_id env st) origin msg attachment (serial st + 1))"
  have "dlist_of (log_backends ?st) bks" using assms(2) by (simp add: log_repr_def)
  moreover have "attach_step env ?st attachment level msg = Some (attachment, ?st)"
    using assms(4) by (simp add: attach_step_def)
  moreover have "level < 2 ^ 31" using assms(3) by (simp add: word_less_nat_alt)
  moreover have "\<forall>ob. attachment = Some ob \<longrightarrow> object_ok ob" using assms(9) by (simp add: attachment_ok_def)
  ultimately have "attach_log_level env st attachment level origin msg len =
      Some (?st\<lparr> serial := serial ?st + 1, log_calls := log_calls ?st @ deliveries ?content level bks \<rparr>)"
    by (intro attach_log_level_spec) (use assms in auto)
  moreover have "run_calls senv (deliveries ?content level bks) fs = Some (fs\<lparr> written := \<lambda>f. written fs f @ concat (map (\<lambda>(p, b).
      if bk_userptr b = Some f then log_line senv level (env_timestamp env) (process_id env st) origin msg attachment else []) bks) \<rparr>)"
    by (rule run_deliveries [OF log_text_sbuffer_line assms(13)]) (use assms in auto)
  ultimately show ?thesis by fastforce
qed

lemma message_reaches_streams_witness:
  "\<exists>st fs st' fs'. log_stdio test_env test_stdio (log_start True) test_streams [97] = Some (st, fs)
    \<and> attach_log_level test_env st None LOG_LEVEL_ENTER (Some [109]) (Some [104, 105]) (- 1) = Some st'
    \<and> run_calls test_stdio (log_calls st') fs = Some fs'
    \<and> written fs' 7 = c_str ''PID 0x2A [IN ] 00:00:01.000 m: hi'' @ [10] \<and> written fs' STDOUT = []"
proof -
  obtain st fs where st: "log_stdio test_env test_stdio (log_start True) test_streams [97] = Some (st, fs)"
    "log_repr st [] [(1, stdio_backend)]" "indent_level st = 0" "serial st = 0" "process_id test_env st = 42"
    "global_threshold st = 0" "log_calls st = []" "open_streams fs = {1, 2, 7}" "written fs = (\<lambda>_. [])"
    by (rule stdio_started)
  have time: "time_text test_stdio 0x3ff0000000000000 = c_str ''00:00:01.000 ''"
    using test_time by (simp add: time_text_def f64_positive_def test_stdio_def clock_def two_digits_def three_digits_def
        digit_def c_str_def of_char_def)
  have line: "log_line test_stdio LOG_LEVEL_ENTER (env_timestamp test_env) 42 (Some [109]) (Some [104, 105]) None
      = c_str ''PID 0x2A [IN ] 00:00:01.000 m: hi'' @ [10]"
    by (simp add: log_line_def test_env_def time message_text_def text_of_def print_hex.simps [of 42] print_hex.simps [of 2]
        c_str_def of_char_def log_level_string_def)
  have "log_memory test_env (enc_obj (log_object 7 (indent_shown 7 (indent_level st)) (env_timestamp test_env)
        (process_id test_env st) (Some [109]) (Some [104, 105]) None (serial st + 1)))"
    unfolding st by (rule test_env_ok(3)) (simp add: indent_shown_def test_env_def, code_simp)
  from message_reaches_streams [OF test_env_ok(1) st(2) _ _ _ _ _ _ _ this, of "- 1" test_stdio fs] test_time_ok st line
  show ?thesis
    by (fastforce simp: text_ok_Some attachment_ok_def test_stdio_def stdio_backend_def STDOUT_def)
qed

text \<open>
  (C33) The end of the streams: on shutdown every file that a backend of this file writes to is closed, once, and
  the standard streams stay open, as do the files of others.
\<close>

theorem shutdown_closes_files:
  assumes "log_repr st es bks"
    and "\<forall>(p, b) \<in> set bks. bk_notify b = Some LOG_STDIO_NOTIFY \<and> (\<forall>f. bk_userptr b = Some f \<longrightarrow> f \<in> open_streams fs)"
    and "distinct (filter (\<lambda>u. u \<notin> {None, Some STDOUT, Some STDERR}) (map (\<lambda>e. bk_userptr (snd e)) bks))"
  shows "\<exists>st' calls. log_shutdown st = Some st' \<and> log_calls st' = log_calls st @ calls \<and> run_calls senv calls fs =
    Some (fs\<lparr> open_streams := open_streams fs - {f. f \<noteq> STDOUT \<and> f \<noteq> STDERR \<and> Some f \<in> bk_userptr ` snd ` set bks} \<rparr>)"
proof -
  have h: "hash_of (checkpoints st) es" and d: "dlist_of (log_backends st) bks" using assms(1) by (simp_all add: log_repr_def)
  let ?st = "st\<lparr> checkpoints := (checkpoints st)\<lparr> ut_app := ut_app (checkpoints st) |` (- fst ` set es),
      ut_chain := ut_chain (checkpoints st) |` (- fst ` set es) \<rparr> \<rparr>"
  have "log_shutdown st = shutdown_loop ?st (snd (log_backends ?st))"
    by (simp add: log_shutdown_def clear_checkpoints_spec [OF h])
  moreover have "dlist_of (log_backends ?st) bks" using d by simp
  ultimately obtain st' where "log_shutdown st = Some st'" "log_calls st' = log_calls st @ concat (map (notifications \<circ> snd) bks)"
    using shutdown_loop_spec [of ?st bks] by auto
  with notifications_close [OF assms(2,3)] show ?thesis by blast
qed

lemma shutdown_closes_files_witness:
  "\<exists>st fs st' fs'. log_stdio test_env test_stdio (log_start True) test_streams [97] = Some (st, fs)
    \<and> log_shutdown st = Some st' \<and> run_calls test_stdio (log_calls st') fs = Some fs' \<and> open_streams fs' = {STDOUT, STDERR}"
proof -
  obtain st fs where st: "log_stdio test_env test_stdio (log_start True) test_streams [97] = Some (st, fs)"
    "log_repr st [] [(1, stdio_backend)]" "log_calls st = []" "open_streams fs = {1, 2, 7}" by (rule stdio_started)
  have "{1, 2, 7} - {f. f \<noteq> STDOUT \<and> f \<noteq> STDERR \<and> f = 7} = {STDOUT, STDERR}" by (auto simp: STDOUT_def STDERR_def)
  with shutdown_closes_files [OF st(2), of fs test_stdio] st show ?thesis by (fastforce simp: stdio_backend_def)
qed

text \<open>
  A scratch message without a value: the attachment is the nil object, and a text backend with an open
  stream then takes a string out of it, which was never stored.
\<close>

theorem scratch_without_value_undefined:
  assumes "realloc_ok (env_realloc env)" "log_repr st es ((p, b) # bks)" "global_threshold st \<le> LOG_LEVEL_SCRATCHPAD"
    and "text_ok origin" "text_ok key"
    and "log_memory env (enc_obj (log_object LOG_LEVEL_SCRATCHPAD (indent_level st) (env_timestamp env)
        (process_id env st) origin key (Some OBJECT_NIL) (serial st + 1)))"
    and "\<forall>n. se_zalloc senv n" "time_ok senv (env_timestamp env)"
    and "bk_callback b = LOG_STDIO_CALLBACK" "bk_userptr b = Some f" "f \<in> open_streams fs"
  shows "\<exists>st' calls. log_scratch env st origin key None = Some st' \<and> log_calls st' = log_calls st @ calls
    \<and> run_calls senv calls fs = None"
proof -
  let ?st = "st\<lparr> log_PID := process_id env st, indent_level := indent_level st \<rparr>"
  let ?ob = "log_object LOG_LEVEL_SCRATCHPAD (indent_level st) (env_timestamp env) (process_id env st) origin key
      (Some OBJECT_NIL) (serial st + 1)"
  have ind: "indent_shown LOG_LEVEL_SCRATCHPAD i = i" "indent_after LOG_LEVEL_SCRATCHPAD i = i" for i
    by (simp_all add: indent_shown_def indent_after_def)
  have "dlist_of (log_backends ?st) ((p, b) # bks)" using assms(2) by (simp add: log_repr_def)
  moreover have "attach_step env ?st (Some OBJECT_NIL) LOG_LEVEL_SCRATCHPAD key = Some (Some OBJECT_NIL, ?st)"
    by (simp add: attach_step_def)
  ultimately have "attach_log_level env st (Some OBJECT_NIL) LOG_LEVEL_SCRATCHPAD origin key (- 1) =
      Some (?st\<lparr> serial := serial ?st + 1, log_calls := log_calls ?st @ deliveries (enc_obj ?ob) LOG_LEVEL_SCRATCHPAD ((p, b) # bks) \<rparr>)"
    by (intro attach_log_level_spec) (use assms ind in auto)
  then have "log_scratch env st origin key None =
      Some (?st\<lparr> serial := serial ?st + 1, log_calls := log_calls ?st @ deliveries (enc_obj ?ob) LOG_LEVEL_SCRATCHPAD ((p, b) # bks) \<rparr>)"
    by (simp add: log_scratch_def msgpack_object_from_lstring_def)
  moreover have "run_calls senv (deliveries (enc_obj ?ob) LOG_LEVEL_SCRATCHPAD ((p, b) # bks)) fs = None"
  proof -
    have "msgpack_unpack (se_zalloc senv) (enc_obj ?ob) None = Some (UNPACK_SUCCESS, None, Some ?ob)"
      by (rule unpack_encoded [OF assms(7) log_object_ok [OF assms(4,5)]]) auto
    then have "log_text_sbuffer senv out (enc_obj ?ob) = None" for out
      by (simp add: log_text_sbuffer_def log_text_scratch_nil [OF assms(8)])
    then show ?thesis by (simp add: deliveries_def run_call_def assms(9-11) log_stdio_callback_def)
  qed
  ultimately show ?thesis by fastforce
qed

lemma scratch_without_value_undefined_witness:
  "\<exists>st fs st'. log_stdio test_env test_stdio (log_start True) test_streams [97] = Some (st, fs)
    \<and> log_scratch test_env st None (Some [107]) None = Some st' \<and> run_calls test_stdio (log_calls st') fs = None"
proof -
  obtain st fs where st: "log_stdio test_env test_stdio (log_start True) test_streams [97] = Some (st, fs)"
    "log_repr st [] [(1, stdio_backend)]" "indent_level st = 0" "serial st = 0" "process_id test_env st = 42"
    "global_threshold st = 0" "log_calls st = []" "open_streams fs = {1, 2, 7}" by (rule stdio_started)
  have "log_memory test_env (enc_obj (log_object LOG_LEVEL_SCRATCHPAD (indent_level st) (env_timestamp test_env)
        (process_id test_env st) None (Some [107]) (Some OBJECT_NIL) (serial st + 1)))"
    unfolding st by (rule test_env_ok(3)) (simp add: test_env_def, code_simp)
  from scratch_without_value_undefined [OF test_env_ok(1) st(2) _ _ _ this _ test_time_ok] st show ?thesis
    by (fastforce simp: text_ok_Some test_stdio_def stdio_backend_def)
qed

end
