(* ===== verification/Utils.thy ===== *)
theory Utils
  imports Log
begin

text \<open>
  The portable utilities of \<^verbatim>\<open>core/utils.c\<close> and the lookup of compiled-in resources in \<^verbatim>\<open>core/symbols.c\<close>.
  Memory behind a pointer is the list of the bytes that may be read there; a read or write outside it
  has no result (\<open>None\<close>). The decompressor is a parameter: given what may be read and the length it is
  told, it returns the decompressed data or nothing. The debug messages of the functions are left
  out; an error message is the reason the function failed.
\<close>

subsection \<open>Hex dumps\<close>

definition ISPRINT :: "u8 \<Rightarrow> bool" where
  "ISPRINT c \<longleftrightarrow> 32 \<le> c \<and> c \<noteq> 127"

text \<open>\<^verbatim>\<open>sprintf(p, "%02x ", b)\<close> with its terminator.\<close>

definition hex_digit :: "u8 \<Rightarrow> u8" where
  "hex_digit d = (if d < 10 then 48 + d else 87 + d)"

definition sprintf_02x :: "u8 \<Rightarrow> bytes" where
  "sprintf_02x b = [hex_digit (drop_bit 4 b), hex_digit (b AND 15), 32, 0]"

text \<open>The inner loop: the buffers \<^verbatim>\<open>hex\<close> and \<^verbatim>\<open>txt\<close> with the offsets of \<^verbatim>\<open>p\<close> and \<^verbatim>\<open>c\<close>.\<close>

record dump_row =
  row_hex :: bytes
  row_p :: nat
  row_txt :: bytes
  row_c :: nat

definition hexdump_byte :: "bytes \<Rightarrow> nat \<Rightarrow> dump_row \<Rightarrow> dump_row option" where
  "hexdump_byte addr i r =
     Option.bind (array_get addr i) (\<lambda>b.
     Option.bind (block_write (row_hex r) (row_p r) (sprintf_02x b)) (\<lambda>hex.
     Option.bind (block_write (row_txt r) (row_c r) [if ISPRINT b then b else 46]) (\<lambda>txt.
       Some (r\<lparr> row_hex := hex, row_p := row_p r + 3, row_txt := txt, row_c := row_c r + 1 \<rparr>))))"

function hexdump_row :: "bytes \<Rightarrow> nat \<Rightarrow> nat \<Rightarrow> dump_row \<Rightarrow> dump_row option" where
  "hexdump_row addr len i r =
     Option.bind (hexdump_byte addr i r) (\<lambda>r.
       if (i + 1) mod 16 \<noteq> 0 \<and> i + 1 < len then hexdump_row addr len (i + 1) r else Some r)"
  by pat_completeness auto
termination by (relation "measure (\<lambda>(addr, len, i, r). len - i)") auto

declare hexdump_row.simps [simp del]

text \<open>What the message of a row is given: the address, the offset and the two strings.\<close>

type_synonym dump_args = "nat \<times> nat \<times> bytes \<times> bytes"

definition hexdump_args :: "bytes \<Rightarrow> nat \<Rightarrow> nat \<Rightarrow> nat \<Rightarrow> (bytes \<times> bytes) \<Rightarrow> dump_args option" where
  "hexdump_args addr base len n bufs =
     Option.bind (hexdump_row addr len n \<lparr> row_hex = fst bufs, row_p = 0, row_txt = snd bufs, row_c = 0 \<rparr>) (\<lambda>r.
     Option.bind (block_write (row_txt r) (row_c r) [0]) (\<lambda>txt.
       Some (base + n, n, take (strlen (row_hex r)) (row_hex r), take (strlen txt) txt)))"

definition dump_format :: bytes where
  "dump_format = c_str ''0x%08X [%04X] %-48s- %s''"

function hexdump_loop ::
    "log_env \<Rightarrow> (int \<Rightarrow> bool) \<Rightarrow> (bytes \<Rightarrow> dump_args \<Rightarrow> int \<Rightarrow> int \<times> bytes) \<Rightarrow> bytes \<Rightarrow> nat \<Rightarrow> nat \<Rightarrow> nat \<Rightarrow>
     log_state \<Rightarrow> log_state option" where
  "hexdump_loop env alloc vsnprintf addr base len n st =
     (if n < len
      then Option.bind (hexdump_args addr base len n (replicate 49 0, replicate 17 0)) (\<lambda>args.
           Option.bind (attach_log_level_fmt env alloc vsnprintf st None LOG_LEVEL_INFO (Some (c_str ''hexdump'')) dump_format args)
             (hexdump_loop env alloc vsnprintf addr base len (n + 16)))
      else Some st)"
  by pat_completeness auto
termination by (relation "measure (\<lambda>(env, alloc, vs, addr, base, len, n, st). len - n)") auto

declare hexdump_loop.simps [simp del]

definition hexdump ::
    "log_env \<Rightarrow> (int \<Rightarrow> bool) \<Rightarrow> (bytes \<Rightarrow> dump_args \<Rightarrow> int \<Rightarrow> int \<times> bytes) \<Rightarrow> log_state \<Rightarrow> bytes \<Rightarrow> nat \<Rightarrow> nat \<Rightarrow>
     log_state option" where
  "hexdump env alloc vsnprintf st addr base len = hexdump_loop env alloc vsnprintf addr base len 0 st"

subsection \<open>Gzip headers\<close>

definition is_gzipped :: "bytes option \<Rightarrow> bool option" where
  "is_gzipped data = (case data of
     None \<Rightarrow> Some False
   | Some d \<Rightarrow> Option.bind (array_get d 0) (\<lambda>a.
       if a \<noteq> 31 then Some False else map_option (\<lambda>b. b = 0x8b) (array_get d 1)))"

datatype gzip_error = No_size_pointer | No_signature | Bad_method | Bad_flags | Bad_filename | Inflate_failed

text \<open>The length of the C string at an offset; it must end inside the memory.\<close>

definition strlen_at :: "bytes \<Rightarrow> nat \<Rightarrow> nat option" where
  "strlen_at d ofs = (let n = strlen (drop ofs d) in if ofs + n < length d then Some n else None)"

type_synonym inflater = "bytes \<Rightarrow> nat \<Rightarrow> bytes option"

definition gzip_decompress :: "inflater \<Rightarrow> bytes option \<Rightarrow> nat \<Rightarrow> bool \<Rightarrow> (gzip_error + bytes) option" where
  "gzip_decompress inflate data len decompressed_size =
     (if \<not> decompressed_size then Some (Inl No_size_pointer)
      else Option.bind (is_gzipped data) (\<lambda>gz.
      if \<not> gz then Some (Inl No_signature)
      else Option.bind data (\<lambda>d.
           Option.bind (array_get d 2) (\<lambda>method.
           if method \<noteq> 8 then Some (Inl Bad_method)
           else Option.bind (array_get d 3) (\<lambda>flags.
           if flags AND NOT 9 \<noteq> 0 then Some (Inl Bad_flags)
           else
             let go = (\<lambda>offset.
               let len = size_sub len offset
               in if length d < offset + len then None
                  else Some (case inflate (drop offset d) len of None \<Rightarrow> Inl Inflate_failed | Some r \<Rightarrow> Inr r))
             in if flags AND 8 \<noteq> 0
                then Option.bind (strlen_at d 10) (\<lambda>n.
                  let len_name = sint (word_of_nat n :: u32)
                  in if len_name \<le> 0 then Some (Inl Bad_filename) else go (10 + nat (len_name + 1)))
                else go 10)))))"

subsection \<open>The directory of the library\<close>

definition PATH_MAX :: nat where "PATH_MAX = 4096"

fun dll_dir_trim :: "bytes \<Rightarrow> nat \<Rightarrow> bytes" where
  "dll_dir_trim dir 0 = dir"
| "dll_dir_trim dir (Suc t) =
     (if char_at dir t = 47 \<or> char_at dir t = 92 then dir else dll_dir_trim (dir[t := 0]) t)"

text \<open>The static buffer \<^verbatim>\<open>DLL_DIR\<close> before and after; what is returned is the string in it.\<close>

definition get_dll_dir :: "bytes \<Rightarrow> bytes \<Rightarrow> bytes option" where
  "get_dll_dir dll_path dir =
     Option.bind (array_get dir 0) (\<lambda>c.
     if c = 0
     then Option.bind (block_write dir 0 (take PATH_MAX (take (strlen dll_path) dll_path) @ [0])) (\<lambda>dir.
            Some (dll_dir_trim dir (strlen dir)))
     else Some dir)"

text \<open>The offset into the path that is returned.\<close>

definition strip_pwd :: "bytes \<Rightarrow> bytes \<Rightarrow> nat" where
  "strip_pwd pwd pathname = (let len = strlen pwd in if strncmp len pathname pwd = 0 then len else 0)"

subsection \<open>Compiled-in resources\<close>

definition symbol_char :: "u8 \<Rightarrow> u8" where
  "symbol_char c =
     (if 97 \<le> c \<and> c \<le> 122 then c else if 65 \<le> c \<and> c \<le> 90 then c else if 48 \<le> c \<and> c \<le> 57 then c else 95)"

fun symbol_pattern :: "bytes \<Rightarrow> nat \<Rightarrow> bytes" where
  "symbol_pattern pattern 0 = pattern"
| "symbol_pattern pattern (Suc i) = symbol_pattern (pattern[i := symbol_char (char_at pattern i)]) i"

definition snprintf_s :: "nat \<Rightarrow> bytes \<Rightarrow> bytes" where
  "snprintf_s room s = take (room - 1) s"

text \<open>The data, its length, and what the caller's buffer receives. \<open>dlsym\<close> gives the addresses of the
  symbols.\<close>

definition getBinarySymbol ::
    "(bytes \<Rightarrow> nat option) \<Rightarrow> bytes \<Rightarrow> bytes \<Rightarrow> bool \<Rightarrow> nat option \<Rightarrow> (nat option \<times> nat \<times> bytes option) option" where
  "getBinarySymbol dlsym pwd path len buffer =
     (if \<not> len then Some (None, 0, None)
      else let name = drop (strip_pwd pwd path) path in
        if PATH_MAX \<le> length name then None
        else let pattern = symbol_pattern name (length name);
                 end_symbol = dlsym (snprintf_s (PATH_MAX + 32) (pattern @ c_str ''_binary_obj_data_end''));
                 temp = snprintf_s (PATH_MAX + 32) (pattern @ c_str ''_binary_obj_data_start'');
                 data = dlsym temp;
                 (len, out) = (case (data, end_symbol) of
                     (Some a, Some b) \<Rightarrow> (size_sub b a, Option.bind buffer (\<lambda>room. if room = 0 then None else Some (snprintf_s room temp)))
                   | _ \<Rightarrow> (0, None))
             in Some (if 0 < len then data else None, len, out))"

datatype lua_result = Push_string bytes | No_result | Lua_error

text \<open>\<open>memory\<close> gives the bytes that may be read from an address.\<close>

definition dll_getBinarySymbol_C ::
    "(bytes \<Rightarrow> nat option) \<Rightarrow> (nat \<Rightarrow> bytes) \<Rightarrow> inflater \<Rightarrow> bytes \<Rightarrow> bytes \<Rightarrow> lua_result option" where
  "dll_getBinarySymbol_C dlsym memory inflate pwd name =
     Option.bind (getBinarySymbol dlsym pwd name True None) (\<lambda>(data, len, _).
     case data of
       None \<Rightarrow> Some No_result
     | Some a \<Rightarrow> Option.bind (is_gzipped (Some (memory a))) (\<lambda>gz.
         if \<not> gz then map_option Push_string (slice (memory a) 0 len)
         else map_option (\<lambda>r. case r of Inl _ \<Rightarrow> Lua_error | Inr s \<Rightarrow> Push_string s)
           (gzip_decompress inflate (Some (memory a)) len True)))"

text \<open>\<open>loadbuffer\<close> stands for \<^verbatim>\<open>luaL_loadbuffer\<close>: it is given the text and the name of the chunk; a Lua
  error is \<open>None\<close> in the inner option.\<close>

definition load_decompressed_buffer ::
    "inflater \<Rightarrow> (bytes \<Rightarrow> bytes \<Rightarrow> 'r) \<Rightarrow> bytes \<Rightarrow> bytes \<Rightarrow> nat \<Rightarrow> bytes \<Rightarrow> 'r option option" where
  "load_decompressed_buffer inflate loadbuffer pwd data len name =
     (let chunkname = snprintf_s PATH_MAX (61 # drop (strip_pwd pwd name) name)
      in Option.bind (is_gzipped (Some data)) (\<lambda>gz.
         if \<not> gz then map_option (\<lambda>text. Some (loadbuffer text chunkname)) (slice data 0 len)
         else map_option (\<lambda>r. case r of Inl _ \<Rightarrow> None | Inr s \<Rightarrow> Some (loadbuffer s chunkname))
           (gzip_decompress inflate (Some data) len True)))"

subsection \<open>What a hex dump shows\<close>

definition hex_text :: "bytes \<Rightarrow> bytes" where
  "hex_text row = concat (map (\<lambda>b. butlast (sprintf_02x b)) row)"

definition txt_text :: "bytes \<Rightarrow> bytes" where
  "txt_text row = map (\<lambda>b. if ISPRINT b then b else 46) row"

lemma length_hex_text [simp]: "length (hex_text row) = 3 * length row"
  by (induction row) (simp_all add: hex_text_def sprintf_02x_def)

lemma hex_text_snoc: "hex_text (row @ [b]) = hex_text row @ [hex_digit (drop_bit 4 b), hex_digit (b AND 15), 32]"
  by (simp add: hex_text_def sprintf_02x_def)

lemma hex_digit_ne: "d < 16 \<Longrightarrow> hex_digit d \<noteq> 0"
proof -
  assume "d < 16"
  then have "uint (hex_digit d) \<noteq> 0"
    by (auto simp: hex_digit_def word_less_def uint_plus_if'; use uint_ge_0 [of d] in linarith)
  then show ?thesis by (metis uint_0_iff)
qed

lemma nibbles: "drop_bit 4 (b :: u8) < 16" "b AND 15 < 16"
proof -
  have "unat b < 256" by (rule unsigned_less [of b, where ?'a = nat, simplified])
  moreover have "unat (drop_bit 4 b) = unat b div 16" by (simp only: unat_drop_bit_eq) (simp add: drop_bit_eq_div)
  ultimately show "drop_bit 4 b < 16" by (simp add: word_less_nat_alt less_mult_imp_div_less)
  have "b AND 15 \<le> 15" by (rule word_and_le1)
  then show "b AND 15 < 16" by (simp add: word_le_nat_alt word_less_nat_alt)
qed

lemma hex_text_no_nul: "no_nul (hex_text row)"
  by (induction row) (simp_all add: hex_text_def sprintf_02x_def hex_digit_ne nibbles)

lemma txt_text_no_nul: "no_nul (txt_text row)"
  by (auto simp: no_nul_def txt_text_def ISPRINT_def)

definition row_done :: "bytes \<Rightarrow> dump_row \<Rightarrow> bool" where
  "row_done row r \<longleftrightarrow> length (row_hex r) = 49 \<and> length (row_txt r) = 17 \<and> row_p r = 3 * length row \<and> row_c r = length row
     \<and> take (3 * length row) (row_hex r) = hex_text row \<and> take (length row) (row_txt r) = txt_text row
     \<and> (row \<noteq> [] \<longrightarrow> row_hex r ! (3 * length row) = 0)"

lemma hexdump_byte_done:
  assumes "row_done row r" "length row < 16" "i < length addr"
  shows "\<exists>r'. hexdump_byte addr i r = Some r' \<and> row_done (row @ [addr ! i]) r'"
proof -
  let ?n = "length row" and ?b = "addr ! i"
  have r: "length (row_hex r) = 49" "length (row_txt r) = 17" "row_p r = 3 * ?n" "row_c r = ?n"
    "take (3 * ?n) (row_hex r) = hex_text row" "take ?n (row_txt r) = txt_text row"
    using assms(1) by (simp_all add: row_done_def)
  have len: "length (sprintf_02x ?b) = 4" by (simp add: sprintf_02x_def)
  have "block_write (row_hex r) (3 * ?n) (sprintf_02x ?b) =
      Some (hex_text row @ sprintf_02x ?b @ drop (3 * ?n + 4) (row_hex r))"
    using assms(2) r len by (simp add: block_write_def)
  moreover have "block_write (row_txt r) ?n [if ISPRINT ?b then ?b else 46] =
      Some (txt_text row @ [if ISPRINT ?b then ?b else 46] @ drop (?n + 1) (row_txt r))"
    using assms(2) r by (simp add: block_write_def)
  ultimately show ?thesis
    using assms(2,3) r
    by (simp add: hexdump_byte_def row_done_def hex_text_snoc sprintf_02x_def txt_text_def nth_append)
qed

lemma hexdump_row_done:
  assumes "len \<le> length addr" "i < len" "row_done row r" "length row = i mod 16"
  shows "\<exists>r'. hexdump_row addr len i r = Some r' \<and> row_done (row @ take (16 - length row) (drop i (take len addr))) r'"
  using assms
proof (induction addr len i r arbitrary: row rule: hexdump_row.induct)
  case (1 addr len i r)
  have "i mod 16 < 16" by simp
  then have lt: "length row < 16" "i < length addr" using 1(2,3,5) by (simp, linarith)
  from hexdump_byte_done [OF 1(4) lt] obtain r' where
    r': "hexdump_byte addr i r = Some r'" "row_done (row @ [addr ! i]) r'" by blast
  have split: "drop i (take len addr) = addr ! i # drop (Suc i) (take len addr)"
    using Cons_nth_drop_Suc [of i "take len addr"] 1(2,3) by simp
  show ?case
  proof (cases "(i + 1) mod 16 \<noteq> 0 \<and> i + 1 < len")
    case True
    then have m: "length (row @ [addr ! i]) = (i + 1) mod 16" using 1(5) by (simp add: mod_Suc split: if_splits)
    from 1(1) [OF r'(1) True 1(2) _ r'(2) m] True obtain r2 where
      "hexdump_row addr len (i + 1) r' = Some r2"
      "row_done ((row @ [addr ! i]) @ take (16 - length (row @ [addr ! i])) (drop (i + 1) (take len addr))) r2" by auto
    moreover have "take (16 - length row) (addr ! i # drop (Suc i) (take len addr))
        = addr ! i # take (15 - length row) (drop (Suc i) (take len addr))"
    proof -
      have "16 - length row = Suc (15 - length row)" using lt(1) by simp
      then show ?thesis by (simp only: take_Suc_Cons)
    qed
    ultimately show ?thesis
      using True r'(1) by (subst hexdump_row.simps) (simp add: split)
  next
    case False
    have "16 - length row = 1 \<or> drop (Suc i) (take len addr) = []"
    proof (cases "i + 1 < len")
      case True
      with False have "Suc i mod 16 = 0" by simp
      then have "i mod 16 = 15" by (simp add: mod_Suc split: if_splits)
      with 1(5) show ?thesis by simp
    qed simp
    then have "take (16 - length row) (addr ! i # drop (Suc i) (take len addr)) = [addr ! i]"
      using 1(5) \<open>i mod 16 < 16\<close> by (auto simp: take_Cons')
    moreover have "hexdump_row addr len i r = Some r'"
      by (subst hexdump_row.simps) (use False r'(1) in auto)
    ultimately show ?thesis using r'(2) by (simp add: split)
  qed
qed

definition dump_row_args :: "bytes \<Rightarrow> nat \<Rightarrow> nat \<Rightarrow> nat \<Rightarrow> dump_args" where
  "dump_row_args addr base len n = (let row = take 16 (drop n (take len addr)) in (base + n, n, hex_text row, txt_text row))"

lemma strlen_prefix:
  assumes "take k s = t" "no_nul t" "k < length s" "s ! k = 0"
  shows "take (strlen s) s = t"
proof -
  have "s = t @ 0 # drop (Suc k) s"
    using assms(1,3,4) by (metis id_take_nth_drop)
  then have "takeWhile (\<lambda>c. c \<noteq> 0) s = t"
    using assms(2) by (metis (mono_tags, lifting) append_Nil2 no_nul_def takeWhile.simps(2) takeWhile_append2)
  then show ?thesis unfolding strlen_def by (metis takeWhile_eq_take)
qed

lemma hexdump_args_row:
  assumes "len \<le> length addr" "n < len" "n mod 16 = 0" "length hex = 49" "length txt = 17"
  shows "hexdump_args addr base len n (hex, txt) = Some (dump_row_args addr base len n)"
proof -
  let ?row = "take 16 (drop n (take len addr))"
  have "row_done [] \<lparr> row_hex = hex, row_p = 0, row_txt = txt, row_c = 0 \<rparr>"
    using assms(4,5) by (simp add: row_done_def hex_text_def txt_text_def)
  from hexdump_row_done [OF assms(1,2) this] assms(3) obtain r where
    r: "hexdump_row addr len n \<lparr> row_hex = hex, row_p = 0, row_txt = txt, row_c = 0 \<rparr> = Some r" "row_done ?row r"
    by auto
  have ne: "?row \<noteq> []" and le: "length ?row \<le> 16" using assms(1,2) by auto
  have d: "length (row_hex r) = 49" "length (row_txt r) = 17" "row_c r = length ?row"
    "take (3 * length ?row) (row_hex r) = hex_text ?row" "take (length ?row) (row_txt r) = txt_text ?row"
    "row_hex r ! (3 * length ?row) = 0"
    using r(2) ne unfolding row_done_def by blast+
  have h: "take (strlen (row_hex r)) (row_hex r) = hex_text ?row"
    by (rule strlen_prefix [OF d(4) hex_text_no_nul _ d(6)]) (use d(1) le in linarith)
  obtain t where t: "block_write (row_txt r) (row_c r) [0] = Some t" "t = txt_text ?row @ 0 # drop (Suc (length ?row)) (row_txt r)"
    using d(2,3,5) le by (simp add: block_write_def del: length_take)
  have len: "length (txt_text ?row) = length ?row" by (simp add: txt_text_def)
  have "take (strlen t) t = txt_text ?row"
    by (rule strlen_prefix [OF _ txt_text_no_nul, of "length ?row"]) (simp_all add: t(2) len [symmetric] nth_append del: length_take)
  then show ?thesis
    unfolding hexdump_args_def fst_conv snd_conv r(1) bind.bind_lunit t(1) h by (simp add: dump_row_args_def Let_def)
qed


fun send_rows ::
    "log_env \<Rightarrow> (int \<Rightarrow> bool) \<Rightarrow> (bytes \<Rightarrow> dump_args \<Rightarrow> int \<Rightarrow> int \<times> bytes) \<Rightarrow> dump_args list \<Rightarrow> log_state \<Rightarrow> log_state option" where
  "send_rows env alloc vs [] st = Some st"
| "send_rows env alloc vs (a # as) st =
     Option.bind (attach_log_level_fmt env alloc vs st None LOG_LEVEL_INFO (Some (c_str ''hexdump'')) dump_format a)
       (send_rows env alloc vs as)"

definition dump_rows :: "bytes \<Rightarrow> nat \<Rightarrow> nat \<Rightarrow> nat \<Rightarrow> dump_args list" where
  "dump_rows addr base len n = map (\<lambda>k. dump_row_args addr base len (n + 16 * k)) [0..<(len - n + 15) div 16]"

lemma dump_rows_step:
  assumes "n < len"
  shows "dump_rows addr base len n = dump_row_args addr base len n # dump_rows addr base len (n + 16)"
proof -
  have step: "0 < m \<Longrightarrow> (m + 15) div 16 = Suc ((m - 16 + 15) div 16)" for m :: nat
  proof (cases "16 \<le> m")
    case True
    then obtain k where "m = k + 16" by (metis le_add_diff_inverse2)
    then show ?thesis by simp
  next
    case False
    assume "0 < m"
    with False have "(m + 15) div 16 = 1" by (intro div_nat_eqI) simp_all
    with False show ?thesis by simp
  qed
  have "(len - n + 15) div 16 = Suc ((len - (n + 16) + 15) div 16)"
    using step [of "len - n"] assms by (simp only: diff_diff_left zero_less_diff)
  moreover have "map (\<lambda>k. f (n + 16 * k)) [0..<Suc l] = f n # map (\<lambda>k. f (n + 16 + 16 * k)) [0..<l]" for l and f :: "nat \<Rightarrow> dump_args"
    by (simp only: upt_conv_Cons [OF zero_less_Suc] map_Suc_upt [symmetric] list.map map_map comp_def mult_Suc_right add.assoc mult_0_right add_0_right)
  ultimately show ?thesis by (simp only: dump_rows_def)
qed

lemma hexdump_loop_rows:
  "len \<le> length addr \<Longrightarrow> n mod 16 = 0 \<Longrightarrow>
     hexdump_loop env alloc vs addr base len n st = send_rows env alloc vs (dump_rows addr base len n) st"
proof (induction env alloc vs addr base len n st rule: hexdump_loop.induct)
  case (1 env alloc vs addr base len n st)
  show ?case
  proof (cases "n < len")
    case True
    have a: "hexdump_args addr base len n (replicate 49 0, replicate 17 0) = Some (dump_row_args addr base len n)"
      by (rule hexdump_args_row) (use 1(2,3) True in simp_all)
    have "hexdump_loop env alloc vs addr base len (n + 16) st' = send_rows env alloc vs (dump_rows addr base len (n + 16)) st'"
      if "attach_log_level_fmt env alloc vs st None 3 (Some (c_str ''hexdump'')) dump_format (dump_row_args addr base len n) = Some st'" for st'
      by (rule 1(1) [OF True a that]) (use 1(2,3) in simp_all)
    then show ?thesis
      using True by (subst hexdump_loop.simps) (simp add: a dump_rows_step bind_eq_Some_conv cong: option.case_cong split: bind_split)
  qed (subst hexdump_loop.simps, simp add: dump_rows_def)
qed


lemma dump_rows_texts:
  assumes "n mod 16 = 0"
  shows "concat (map (\<lambda>(_, _, h, _). h) (dump_rows addr base len n)) = hex_text (drop n (take len addr))"
    and "concat (map (\<lambda>(_, _, _, t). t) (dump_rows addr base len n)) = txt_text (drop n (take len addr))"
proof -
  have app: "hex_text (xs @ ys) = hex_text xs @ hex_text ys" "txt_text (xs @ ys) = txt_text xs @ txt_text ys" for xs ys
    by (simp_all add: hex_text_def txt_text_def)
  have cut: "drop n (take len addr) = take 16 (drop n (take len addr)) @ drop (n + 16) (take len addr)" for n
    by (metis append_take_drop_id drop_drop add.commute)
  have "concat (map (\<lambda>(_, _, h, _). h) (dump_rows addr base len n)) = hex_text (drop n (take len addr))
    \<and> concat (map (\<lambda>(_, _, _, t). t) (dump_rows addr base len n)) = txt_text (drop n (take len addr))"
    using assms
  proof (induction "len - n" arbitrary: n rule: less_induct)
    case less
    show ?case
    proof (cases "n < len")
      case True
      then have "concat (map (\<lambda>(_, _, h, _). h) (dump_rows addr base len (n + 16))) = hex_text (drop (n + 16) (take len addr))
        \<and> concat (map (\<lambda>(_, _, _, t). t) (dump_rows addr base len (n + 16))) = txt_text (drop (n + 16) (take len addr))"
        by (intro less(1)) (use less(2) in simp_all)
      then show ?thesis
        unfolding dump_rows_step [OF True] by (subst (1 2) cut) (simp add: dump_row_args_def Let_def app)
    qed (simp add: dump_rows_def hex_text_def txt_text_def)
  qed
  then show "concat (map (\<lambda>(_, _, h, _). h) (dump_rows addr base len n)) = hex_text (drop n (take len addr))"
    "concat (map (\<lambda>(_, _, _, t). t) (dump_rows addr base len n)) = txt_text (drop n (take len addr))" by blast+
qed

subsection \<open>Gzip members\<close>

definition gzip_header :: "u8 \<Rightarrow> bytes \<Rightarrow> bytes option \<Rightarrow> bytes" where
  "gzip_header flags rest name = [31, 0x8b, 8, flags] @ rest @ (case name of None \<Rightarrow> [] | Some s \<Rightarrow> s @ [0])"

definition header_ok :: "u8 \<Rightarrow> bytes \<Rightarrow> bytes option \<Rightarrow> bool" where
  "header_ok flags rest name \<longleftrightarrow> length rest = 6 \<and> (case name of
      None \<Rightarrow> flags \<in> {0, 1}
    | Some s \<Rightarrow> flags \<in> {8, 9} \<and> s \<noteq> [] \<and> no_nul s \<and> length s < 2 ^ 31)"

lemma is_gzipped_header: "is_gzipped (Some (gzip_header flags rest name @ behind)) = Some True"
  by (simp add: is_gzipped_def gzip_header_def)

lemma gzip_decompress_member:
  assumes "header_ok flags rest name" "length (gzip_header flags rest name @ body) < 2 ^ 64"
  shows "gzip_decompress inflate (Some (gzip_header flags rest name @ body @ behind)) (length (gzip_header flags rest name @ body)) True
    = Some (case inflate (body @ behind) (length body) of None \<Rightarrow> Inl Inflate_failed | Some r \<Rightarrow> Inr r)"
proof -
  let ?d = "gzip_header flags rest name @ body @ behind"
  have d: "array_get ?d 2 = Some 8" "array_get ?d 3 = Some flags" by (simp_all add: gzip_header_def)
  show ?thesis
  proof (cases name)
    case None
    with assms(1) have h: "length rest = 6" "flags AND NOT 9 = 0" "flags AND 8 = 0" by (auto simp: header_ok_def)
    then have "drop 10 ?d = body @ behind" "length (gzip_header flags rest name) = 10" by (simp_all add: gzip_header_def None)
    then show ?thesis using h(2,3) by (simp add: gzip_decompress_def is_gzipped_header d Let_def)
  next
    case (Some s)
    with assms(1) have h: "length rest = 6" "flags AND NOT 9 = 0" "flags AND 8 \<noteq> 0" and s: "s \<noteq> []" "no_nul s" "length s < 2 ^ 31"
      by (auto simp: header_ok_def)
    have dr: "drop 10 ?d = s @ 0 # body @ behind" using h(1) by (simp add: gzip_header_def Some)
    have len: "length (gzip_header flags rest name) = 11 + length s" using h(1) by (simp add: gzip_header_def Some)
    have "strlen (s @ 0 # body @ behind) = length s"
      using s(2) unfolding strlen_def no_nul_def by (subst takeWhile_append2) auto
    then have n: "strlen_at ?d 10 = Some (length s)" unfolding strlen_at_def dr by (simp add: len Let_def)
    have i: "sint (word_of_nat (length s) :: u32) = int (length s)"
      using s(3) by (simp add: signed_of_nat signed_take_bit_int_eq_self_iff)
    have "drop (11 + length s) ?d = drop (1 + length s) (drop 10 ?d)"
      unfolding drop_drop by (rule arg_cong [where f = "\<lambda>n. drop n _"]) simp
    also have "\<dots> = body @ behind" unfolding dr by simp
    finally have "drop (11 + length s) ?d = body @ behind" .
    moreover have "0 < length s" using s(1) by simp
    moreover have "10 + nat (int (length s) + 1) = 11 + length s" by simp
    ultimately show ?thesis
      using h(2,3) len by (simp add: gzip_decompress_def is_gzipped_header d n i Let_def)
  qed
qed


subsection \<open>Directories and symbols\<close>

lemma dll_dir_trim_spec:
  assumes "\<forall>c \<in> set fname. c \<noteq> 47 \<and> c \<noteq> 92" "sep = 47 \<or> sep = 92"
  shows "dll_dir_trim (p @ [sep] @ fname @ rest) (length p + 1 + length fname) = p @ [sep] @ replicate (length fname) 0 @ rest"
  using assms(1)
proof (induction fname arbitrary: rest rule: rev_induct)
  case Nil
  then show ?case using assms(2) by (auto simp: char_at_def nth_append)
next
  case (snoc c fname)
  have "char_at (p @ [sep] @ (fname @ [c]) @ rest) (length p + 1 + length fname) = c"
    by (simp add: char_at_def nth_append)
  moreover have "(p @ [sep] @ (fname @ [c]) @ rest)[length p + 1 + length fname := 0] = p @ [sep] @ fname @ 0 # rest"
    by (simp add: list_update_append)
  moreover have "dll_dir_trim (p @ [sep] @ fname @ 0 # rest) (length p + 1 + length fname) = p @ [sep] @ replicate (length fname) 0 @ 0 # rest"
    using snoc by simp
  ultimately show ?case
    using snoc.prems by (simp add: replicate_append_same)
qed


lemma strlen_nul: "no_nul s \<Longrightarrow> strlen (s @ 0 # r) = length s"
  unfolding strlen_def no_nul_def by (subst takeWhile_append2) auto

lemma strncmp_prefix: "no_nul p \<Longrightarrow> no_nul s \<Longrightarrow> (strncmp (length p) s p = 0) = (take (length p) s = p)"
  by (simp add: strncmp_0_iff)

text \<open>The name of a symbol: letters and digits stay, every other character becomes an underscore.\<close>

definition symbol_name :: "bytes \<Rightarrow> string \<Rightarrow> bytes" where
  "symbol_name name ending = map (\<lambda>c. if c \<in> {97..122} \<union> {65..90} \<union> {48..57} then c else 95) name @ c_str ending"

lemma symbol_name_eq: "symbol_name name ending = map symbol_char name @ c_str ending"
  by (auto simp: symbol_name_def symbol_char_def)

lemma symbol_pattern_map: "i \<le> length s \<Longrightarrow> symbol_pattern s i = map symbol_char (take i s) @ drop i s"
proof (induction i arbitrary: s)
  case (Suc i)
  then have "drop i s = s ! i # drop (Suc i) s" "take (Suc i) s = take i s @ [s ! i]"
    by (simp_all add: Cons_nth_drop_Suc take_Suc_conv_app_nth)
  moreover have "drop i (s[i := c]) = c # drop (Suc i) s" for c
    using Suc.prems by (simp add: drop_update_swap Cons_nth_drop_Suc [symmetric] nth_list_update)
  ultimately show ?case using Suc by (simp add: char_at_def)
qed simp

lemma binary_symbol_found:
  assumes "no_nul pwd" "no_nul name" "length name < PATH_MAX" "\<forall>s a. dlsym s = Some a \<longrightarrow> a < 2 ^ 64"
    and "find_data = dlsym (symbol_name name ''_binary_obj_data_start'')" "find_end = dlsym (symbol_name name ''_binary_obj_data_end'')"
  shows "getBinarySymbol dlsym pwd (pwd @ name) True buffer = Some (case (find_data, find_end) of
      (Some a, Some b) \<Rightarrow> (if b = a then None else Some a, size_sub b a,
        Option.bind buffer (\<lambda>room. if room = 0 then None else Some (take (room - 1) (symbol_name name ''_binary_obj_data_start''))))
    | _ \<Rightarrow> (None, 0, None))"
proof -
  have "strip_pwd pwd (pwd @ name) = length pwd"
    using strncmp_prefix [OF assms(1), of "pwd @ name"] assms(1,2) by (simp add: strip_pwd_def strlen_no_nul [OF assms(1)] Let_def)
  then have n: "drop (strip_pwd pwd (pwd @ name)) (pwd @ name) = name" by simp
  have p: "symbol_pattern name (length name) = map symbol_char name" by (simp add: symbol_pattern_map)
  have fit: "snprintf_s (PATH_MAX + 32) (map symbol_char name @ c_str ''_binary_obj_data_end'') = symbol_name name ''_binary_obj_data_end''"
    "snprintf_s (PATH_MAX + 32) (map symbol_char name @ c_str ''_binary_obj_data_start'') = symbol_name name ''_binary_obj_data_start''"
    using assms(3) by (simp_all add: snprintf_s_def symbol_name_eq c_str_def)
  have sub: "size_sub b a = 0 \<longleftrightarrow> b = a" if "find_data = Some a" for a b
  proof -
    have "a < 2 ^ 64" using assms(4,5) that by simp
    then show ?thesis by (auto simp: size_sub_def size_max_def)
  qed
  show ?thesis
    using assms(3)
    unfolding getBinarySymbol_def n Let_def p fit assms(5,6) [symmetric]
    unfolding snprintf_s_def
    by (auto simp: sub split: option.split)
qed

subsection \<open>Properties\<close>

text \<open>
  The hex dump: for memory of the given length one message is sent for each 16 bytes, in order, the last one
  for what is left; together the rows show every byte once, as two hex digits and as a character or a
  dot, and the row buffers are never overrun.
\<close>

theorem hexdump_shows_all:
  assumes "len \<le> length addr"
  shows "hexdump env alloc vs st addr base len = send_rows env alloc vs (dump_rows addr base len 0) st
    \<and> concat (map (\<lambda>(_, _, h, _). h) (dump_rows addr base len 0)) = hex_text (take len addr)
    \<and> concat (map (\<lambda>(_, _, _, t). t) (dump_rows addr base len 0)) = txt_text (take len addr)
    \<and> length (dump_rows addr base len 0) = (len + 15) div 16"
  using assms by (simp add: hexdump_def hexdump_loop_rows dump_rows_texts [of 0, simplified]) (simp add: dump_rows_def)

lemma hexdump_shows_all_witness:
  "concat (map (\<lambda>(_, _, h, _). h) (dump_rows [72, 0] 16 2 0)) = c_str ''48 00 ''
    \<and> concat (map (\<lambda>(_, _, _, t). t) (dump_rows [72, 0] 16 2 0)) = c_str ''H.''"
proof -
  have "hex_text [72, 0] = c_str ''48 00 ''" "txt_text [72, 0] = c_str ''H.''" by code_simp+
  with hexdump_shows_all [of 2 "[72, 0]" undefined "\<lambda>_. True" "\<lambda>_ _ _. (0, [])" undefined 16] show ?thesis by simp
qed

text \<open>
  (C34) Resources: the name of a script below the library's directory is turned into the names of its two symbols,
  and Lua receives what lies between them: plain text as it is, and the member behind a gzip header, with or
  without a file name, through the decompressor, or an error when that fails.
\<close>

theorem resource_delivered:
  assumes "no_nul pwd" "no_nul name" "length name < PATH_MAX" "\<forall>s a. dlsym s = Some a \<longrightarrow> a < 2 ^ 64"
    and "dlsym (symbol_name name ''_binary_obj_data_start'') = Some a"
    and "dlsym (symbol_name name ''_binary_obj_data_end'') = Some (a + length data)"
    and "memory a = data @ behind" "data \<noteq> []"
  shows "(is_gzipped (Some (data @ behind)) = Some False \<longrightarrow>
      dll_getBinarySymbol_C dlsym memory inflate pwd (pwd @ name) = Some (Push_string data))
    \<and> (\<forall>flags rest fname body. header_ok flags rest fname \<and> data = gzip_header flags rest fname @ body \<longrightarrow>
      dll_getBinarySymbol_C dlsym memory inflate pwd (pwd @ name) =
        Some (case inflate (body @ behind) (length body) of None \<Rightarrow> Lua_error | Some s \<Rightarrow> Push_string s))"
proof -
  have "a + length data < 2 ^ 64" using assms(4,6) by blast
  then have len: "length data < 2 ^ 64" by simp
  obtain out where "getBinarySymbol dlsym pwd (pwd @ name) True None = Some (Some a, length data, out)"
    using binary_symbol_found [OF assms(1-4) refl refl, of None] assms(5,6,8) by simp
  then have get: "dll_getBinarySymbol_C dlsym memory inflate pwd (pwd @ name) =
      Option.bind (is_gzipped (Some (data @ behind))) (\<lambda>gz.
         if \<not> gz then map_option Push_string (slice (data @ behind) 0 (length data))
         else map_option (\<lambda>r. case r of Inl _ \<Rightarrow> Lua_error | Inr s \<Rightarrow> Push_string s)
           (gzip_decompress inflate (Some (data @ behind)) (length data) True))"
    unfolding dll_getBinarySymbol_C_def assms(7) by (simp only: bind.bind_lunit prod.case option.case assms(7))
  have "slice (data @ behind) 0 (length data) = Some data" by (simp add: slice_def)
  moreover have "dll_getBinarySymbol_C dlsym memory inflate pwd (pwd @ name) =
        Some (case inflate (body @ behind) (length body) of None \<Rightarrow> Lua_error | Some s \<Rightarrow> Push_string s)"
    if h: "header_ok flags rest fname" and d: "data = gzip_header flags rest fname @ body" for flags rest fname body
    using gzip_decompress_member [OF h len [unfolded d], of inflate behind] is_gzipped_header [of flags rest fname "body @ behind"]
    unfolding get d append_assoc by (simp split: option.split)
  ultimately show ?thesis by (simp add: get)
qed

lemma resource_delivered_witness:
  "dll_getBinarySymbol_C (\<lambda>s. if s = symbol_name [97, 46, 98] ''_binary_obj_data_start'' then Some 100
       else if s = symbol_name [97, 46, 98] ''_binary_obj_data_end'' then Some 102 else None)
     (\<lambda>_. [114, 115, 0]) (\<lambda>_ _. None) [47] ([47] @ [97, 46, 98]) = Some (Push_string [114, 115])"
proof -
  let ?sym = "\<lambda>s. if s = symbol_name [97, 46, 98] ''_binary_obj_data_start'' then Some 100
       else if s = symbol_name [97, 46, 98] ''_binary_obj_data_end'' then Some 102 else None :: nat option"
  have "symbol_name [97, 46, 98] ''_binary_obj_data_end'' \<noteq> symbol_name [97, 46, 98] ''_binary_obj_data_start''"
    by (simp add: symbol_name_eq c_str_def of_char_def)
  moreover have "is_gzipped (Some ([114, 115] @ [0])) = Some False" by (simp add: is_gzipped_def)
  ultimately show ?thesis
    using resource_delivered [of "[47]" "[97, 46, 98]" ?sym 100 "[114, 115]" "\<lambda>_. [114, 115, 0]" "[0]" "\<lambda>_ _. None"]
    by (simp add: PATH_MAX_def)
qed

text \<open>
  Short gzip data: with a valid header start but a length below the 10 bytes of a header, the length that
  is left wraps around, and the decompressor is told to read far more than there is.
\<close>

theorem gzip_short_input_wraps:
  assumes "len < 10" "4 \<le> length d" "length d < 2 ^ 64 - 10" "d ! 0 = 31" "d ! 1 = 0x8b" "d ! 2 = 8" "d ! 3 \<in> {0, 1}"
  shows "gzip_decompress inflate (Some d) len True = None"
proof -
  have "is_gzipped (Some d) = Some True" proof -
    have "0 < length d" "1 < length d" using assms(2) by linarith+
    then show ?thesis using assms(4,5) by (simp add: is_gzipped_def)
  qed
  moreover have "array_get d 2 = Some 8" "array_get d 3 = Some (d ! 3)" using assms(2,6) by simp_all
  moreover have "d ! 3 AND NOT 9 = 0" "d ! 3 AND 8 = 0" using assms(7) by auto
  moreover have "length d < 10 + size_sub len 10" using assms(1,3) by (simp add: size_sub_def size_max_def)
  ultimately show ?thesis by (simp add: gzip_decompress_def Let_def)
qed

lemma gzip_short_input_wraps_witness: "gzip_decompress (\<lambda>_ _. Some []) (Some [31, 0x8b, 8, 0]) 4 True = None"
  by (rule gzip_short_input_wraps) simp_all

text \<open>
  The directory of the library: everything up to the last path separator, of either kind, of the library's
  path. It is computed once, and stripping it from the path leaves the file name.
\<close>

theorem dll_dir_correct:
  assumes "path = p @ [sep] @ fname" "sep = 47 \<or> sep = 92" "\<forall>c \<in> set fname. c \<noteq> 47 \<and> c \<noteq> 92" "no_nul path" "length path < PATH_MAX"
  shows "\<exists>dir. get_dll_dir path (replicate PATH_MAX 0) = Some dir \<and> take (strlen dir) dir = p @ [sep]
    \<and> get_dll_dir path' dir = Some dir \<and> drop (strip_pwd (take (strlen dir) dir) path) path = fname"
proof -
  have nn: "no_nul (p @ [sep])" "no_nul fname" using assms(1,4) by (simp_all add: no_nul_def)
  have len: "strlen path = length path" by (rule strlen_no_nul [OF assms(4)])
  have w: "block_write (replicate PATH_MAX 0) 0 (take PATH_MAX (take (strlen path) path) @ [0]) =
      Some (p @ [sep] @ fname @ 0 # replicate (PATH_MAX - Suc (length path)) 0)"
  proof -
    have "take PATH_MAX (take (strlen path) path) = p @ [sep] @ fname" using assms(5) len unfolding assms(1) [symmetric] by simp
    moreover have "length (p @ [sep] @ fname) + 1 \<le> PATH_MAX" using assms(5) unfolding assms(1) by simp
    moreover have "length path = length (p @ [sep] @ fname)" unfolding assms(1) ..
    ultimately show ?thesis by (simp add: block_write_def)
  qed
  have sl: "strlen (p @ [sep] @ fname @ 0 # r) = length p + 1 + length fname" for r
    using strlen_nul [OF assms(4), of r] by (simp add: assms(1))
  let ?dir = "p @ [sep] @ replicate (length fname) 0 @ 0 # replicate (PATH_MAX - Suc (length path)) 0"
  have get: "get_dll_dir path (replicate PATH_MAX 0) = Some ?dir"
  proof -
    have "array_get (replicate PATH_MAX 0) 0 = Some (0 :: u8)" by (simp add: PATH_MAX_def)
    then show ?thesis
      unfolding get_dll_dir_def bind.bind_lunit w sl dll_dir_trim_spec [OF assms(3,2)] by simp
  qed
  have "?dir = (p @ [sep]) @ 0 # (replicate (length fname) 0 @ replicate (PATH_MAX - Suc (length path)) 0)"
    by (simp add: replicate_app_Cons_same)
  then have "strlen ?dir = length (p @ [sep])"
    using strlen_nul [OF nn(1)] by (simp only:)
  then have str: "take (strlen ?dir) ?dir = p @ [sep]" by simp
  have first: "array_get ?dir 0 = Some (hd (p @ [sep]))" by (cases p) simp_all
  have "hd (p @ [sep]) \<noteq> 0" using nn(1) by (cases p) simp_all
  then have again: "get_dll_dir path' ?dir = Some ?dir" unfolding get_dll_dir_def first by simp
  have "strip_pwd (p @ [sep]) path = length (p @ [sep])"
    using strncmp_prefix [OF nn(1) assms(4)] by (simp add: strip_pwd_def strlen_no_nul [OF nn(1)] assms(1) Let_def)
  then have "drop (strip_pwd (p @ [sep]) path) path = fname" by (simp add: assms(1))
  with get str again show ?thesis by (intro exI [of _ ?dir]) simp
qed

lemma dll_dir_correct_witness:
  "\<exists>dir. get_dll_dir [47, 97, 47, 98] (replicate PATH_MAX 0) = Some dir \<and> take (strlen dir) dir = [47, 97, 47]"
  using dll_dir_correct [of "[47, 97, 47, 98]" "[47, 97]" 47 "[98]"] by (simp add: PATH_MAX_def) blast

end
