(* ===== verification/Processes.thy ===== *)
theory Processes
  imports Utils
begin

text \<open>
  The process functions for Linux, \<^verbatim>\<open>core/linux/processes.c\<close>. What they ask the system for is in the
  record \<open>system\<close>: the target of a symbolic link, the content of a file, the entries of \<^verbatim>\<open>/proc\<close>, memory and
  the own process id. Of the C library, \<^verbatim>\<open>atoi\<close> and the conversions of \<^verbatim>\<open>fscanf\<close> the code uses are modelled on
  byte strings. \<^verbatim>\<open>readlink\<close> stores as much of the target as fits, without a terminator, and fails for a buffer without room. The results are what is
  pushed to the Lua stack.
\<close>

subsection \<open>The system and the C library\<close>

record linux =
  sys_link :: "bytes \<Rightarrow> bytes option"
  sys_read :: "bytes \<Rightarrow> bytes option"
  sys_proc :: "(u8 \<times> bytes) list option"
  sys_realloc :: "bytes \<Rightarrow> nat \<Rightarrow> bytes option"
  sys_getpid :: int
  sys_errno :: int

definition isspace :: "u8 \<Rightarrow> bool" where
  "isspace c \<longleftrightarrow> c = 32 \<or> 9 \<le> c \<and> c \<le> 13"

definition isdigit :: "u8 \<Rightarrow> bool" where
  "isdigit c \<longleftrightarrow> 48 \<le> c \<and> c \<le> 57"

definition digits_value :: "bytes \<Rightarrow> int" where
  "digits_value ds = fold (\<lambda>d v. 10 * v + (uint d - 48)) ds 0"

text \<open>A value that is no \<^verbatim>\<open>int\<close> is undefined.\<close>

definition atoi :: "bytes \<Rightarrow> int option" where
  "atoi s =
     (let s = dropWhile isspace s; negative = (char_at s 0 = 45);
          s = (if char_at s 0 = 45 \<or> char_at s 0 = 43 then tl s else s);
          v = digits_value (takeWhile isdigit s); v = (if negative then - v else v)
      in if int_overflows v then None else Some v)"

text \<open>\<^verbatim>\<open>fscanf(stat, "%*u (%ms", &result)\<close>: the string that is assigned, if the conversion is reached.\<close>

definition scan_stat_name :: "bytes \<Rightarrow> bytes option" where
  "scan_stat_name s =
     (let s = dropWhile isspace s;
          s = (if char_at s 0 = 45 \<or> char_at s 0 = 43 then tl s else s)
      in if takeWhile isdigit s = [] then None
         else let s = dropWhile isspace (dropWhile isdigit s)
           in if char_at s 0 \<noteq> 40 then None
              else let name = takeWhile (\<lambda>c. \<not> isspace c) (dropWhile isspace (tl s))
                in if name = [] then None else Some name)"

subsection \<open>The functions\<close>

abbreviation (input) DT_DIR :: u8 where "DT_DIR \<equiv> 4"

fun pid_entries :: "(u8 \<times> bytes) list \<Rightarrow> int list option" where
  "pid_entries [] = Some []"
| "pid_entries ((d_type, d_name) # es) =
     (if d_type AND DT_DIR \<noteq> 0
      then Option.bind (atoi d_name) (\<lambda>pid.
           map_option (\<lambda>ps. if pid \<noteq> 0 then pid # ps else ps) (pid_entries es))
      else pid_entries es)"

text \<open>The table of process ids, or nothing if the directory cannot be opened.\<close>

definition process_get_pids_C :: "linux \<Rightarrow> int list option option" where
  "process_get_pids_C sys = (case sys_proc sys of
     None \<Rightarrow> Some None
   | Some es \<Rightarrow> map_option Some (pid_entries es))"

definition fmt_pid_prefix :: "nat \<Rightarrow> int \<Rightarrow> bytes option \<Rightarrow> bytes" where
  "fmt_pid_prefix room pid ending =
     (let pid = print_nat (unat (word_of_int pid :: u32))
      in snprintf_s room (case ending of
           Some s \<Rightarrow> c_str ''/proc/'' @ pid @ [47] @ s
         | None \<Rightarrow> c_str ''/proc/'' @ pid @ [47]))"

text \<open>The count of bytes and the block afterwards.\<close>

definition readlink :: "linux \<Rightarrow> bytes \<Rightarrow> bytes \<Rightarrow> nat \<Rightarrow> (int \<times> bytes) option" where
  "readlink sys path block room = (case sys_link sys path of
     None \<Rightarrow> Some (- 1, block)
   | Some t \<Rightarrow> if room = 0 then Some (- 1, block)
       else map_option (\<lambda>b. (int (min room (length t)), b)) (block_write block 0 (take room t)))"

text \<open>The loop with its own memory: the block and what \<^verbatim>\<open>readlink\<close> returned, or nothing.\<close>

partial_function (option) readlink_loop :: "linux \<times> bytes \<Rightarrow> bytes \<Rightarrow> nat \<Rightarrow> (bytes \<times> nat \<times> nat) option option" where
  "readlink_loop call result room =
     (case sys_realloc (fst call) result room of
        None \<Rightarrow> Some None
      | Some result \<Rightarrow> Option.bind (readlink (fst call) (snd call) result room) (\<lambda>(rc, result).
          if rc < 0 then Some None
          else if nat rc < room then Some (Some (result, nat rc, room))
          else readlink_loop call result ((room * 2) mod 2 ^ 64)))"

text \<open>The block that is returned, or \<^verbatim>\<open>NULL\<close>.\<close>

definition get_pid_exe :: "linux \<Rightarrow> int \<Rightarrow> bytes option \<Rightarrow> nat \<Rightarrow> bytes option option" where
  "get_pid_exe sys pid buffer room =
     (let pid = (if pid = 0 then sys_getpid sys else pid);
          proc = fmt_pid_prefix 32 pid (Some (c_str ''exe''));
          finish = (\<lambda>(result, rc, room). if rc < room then map_option Some (array_set result rc 0) else Some (Some result))
      in case buffer of
           Some result \<Rightarrow> Option.bind (readlink sys proc result room) (\<lambda>(rc, result).
             if rc < 0 then Some None else finish (result, nat rc, room))
         | None \<Rightarrow> Option.bind (readlink_loop (sys, proc) [] 128) (\<lambda>r. case r of
             None \<Rightarrow> Some None
           | Some r \<Rightarrow> finish r))"

text \<open>Without a conversion the result pointer stays \<^verbatim>\<open>NULL\<close>, and \<^verbatim>\<open>strlen\<close> follows it.\<close>

definition get_pid_stat_name :: "linux \<Rightarrow> int \<Rightarrow> bytes option option" where
  "get_pid_stat_name sys pid =
     (let proc = fmt_pid_prefix 32 pid (Some (c_str ''stat''))
      in case sys_read sys proc of
           None \<Rightarrow> Some None
         | Some content \<Rightarrow> Option.bind (scan_stat_name content) (\<lambda>result. Some (Some (butlast result))))"

datatype module_result = Module_path bytes | System_error int | No_link "bytes option"

text \<open>\<open>stack\<close> is what is in the local array \<^verbatim>\<open>path\<close> before.\<close>

definition process_get_module_name_C :: "linux \<Rightarrow> bytes \<Rightarrow> int \<Rightarrow> module_result option" where
  "process_get_module_name_C sys stack pid =
     Option.bind (get_pid_exe sys pid (Some stack) PATH_MAX) (\<lambda>result.
     case result of
       None \<Rightarrow> let err = sys_errno sys
         in if err \<noteq> 2 then Some (System_error err) else map_option No_link (get_pid_stat_name sys pid)
     | Some path \<Rightarrow> if 0 \<in> set path then Some (Module_path (take (strlen path) path)) else None)"

subsection \<open>Names of executables\<close>

definition link_path :: "linux \<Rightarrow> int \<Rightarrow> bytes" where
  "link_path sys pid = fmt_pid_prefix 32 (if pid = 0 then sys_getpid sys else pid) (Some (c_str ''exe''))"

lemma string_in_block: "no_nul t \<Longrightarrow> take (strlen (t @ 0 # r)) (t @ 0 # r) = t"
  by (simp add: strlen_nul)

lemma readlink_loop_step:
  assumes "sys_link sys path = Some t" "sys_realloc sys b room = Some block" "length block = room" "0 < room"
  shows "readlink_loop (sys, path) b room =
     (if length t < room then Some (Some (t @ drop (length t) block, length t, room))
      else readlink_loop (sys, path) (take room t) ((room * 2) mod 2 ^ 64))"
proof -
  have "readlink sys path block room = Some (int (min room (length t)), take room t @ drop (min room (length t)) block)"
    using assms(1,3,4) by (simp add: readlink_def block_write_def min.commute)
  then show ?thesis
    using assms by (subst readlink_loop.simps) (auto simp: min_def)
qed

lemma readlink_loop_complete:
  assumes "sys_link sys path = Some t" "length t < 2 ^ 62" "0 < room" "room \<le> max 128 (2 * length t)"
    and "\<And>b n. n \<le> max 128 (2 * length t) \<Longrightarrow> \<exists>block. sys_realloc sys b n = Some block \<and> length block = n"
  shows "\<exists>block n. readlink_loop (sys, path) b room = Some (Some (t @ block, length t, n)) \<and> length t < n \<and> length (t @ block) = n"
  using assms(3,4)
proof (induction "length t - room" arbitrary: room b rule: less_induct)
  case less
  from assms(5) [OF less(3), of b] obtain block where b: "sys_realloc sys b room = Some block" "length block = room" by blast
  note step = readlink_loop_step [OF assms(1) b less(2)]
  show ?case
  proof (cases "length t < room")
    case True
    with step b(2) show ?thesis by auto
  next
    case False
    then have small: "(room * 2) mod 2 ^ 64 = room * 2" using assms(2) by simp
    show ?thesis
    proof (cases "length t = room")
      case eq: True
      then have "room * 2 \<le> max 128 (2 * length t)" by simp
      from assms(5) [OF this, of "take room t"] obtain block2 where
        b2: "sys_realloc sys (take room t) (room * 2) = Some block2" "length block2 = room * 2" by blast
      have "0 < room * 2" using less(2) by simp
      from readlink_loop_step [OF assms(1) b2 this] eq less(2) b2(2) show ?thesis
        using step False small by auto
    next
      case neq: False
      with False have "length t - room * 2 < length t - room" using less(2) by simp
      from less(1) [OF this, of "take room t"] False less(2) show ?thesis unfolding step small by simp
    qed
  qed
qed

definition test_linux :: linux where
  "test_linux = \<lparr> sys_link = (\<lambda>p. if p = c_str ''/proc/7/exe'' then Some [47, 98] else None),
     sys_read = (\<lambda>p. if p = c_str ''/proc/7/stat'' then Some (c_str ''7 (a b) S 1'') else None), sys_proc = None,
     sys_realloc = (\<lambda>b n. Some (replicate n 0)), sys_getpid = 7, sys_errno = 2 \<rparr>"

lemma pid_path_7: "fmt_pid_prefix 32 7 (Some s) = take 31 (c_str ''/proc/7/'' @ s)"
proof -
  have "print_nat 7 = [55]" by (subst print_nat.simps) simp
  then show ?thesis by (simp add: fmt_pid_prefix_def snprintf_s_def c_str_def of_char_def)
qed

text \<open>
  (C35) The path of an executable: with memory of its own the function returns the complete target of the link,
  however long, as a C string; with the caller's buffer it does so if the target and a terminator fit, and
  otherwise fills the buffer without a terminator. A buffer without room gives a failure.
\<close>

theorem exe_path_complete:
  assumes "sys_link sys (link_path sys pid) = Some t" "no_nul t" "length t < 2 ^ 62"
    and "\<forall>b n. n \<le> max 128 (2 * length t) \<longrightarrow> (\<exists>block. sys_realloc sys b n = Some block \<and> length block = n)"
  shows "(\<exists>block. get_pid_exe sys pid None n = Some (Some block) \<and> 0 \<in> set block \<and> take (strlen block) block = t)
    \<and> get_pid_exe sys pid (Some buffer) (length buffer) = Some (if buffer = [] then None else Some
        (if length t < length buffer then t @ 0 # drop (length t + 1) buffer else take (length buffer) t))"
proof
  have mem: "\<And>b n. n \<le> max 128 (2 * length t) \<Longrightarrow> \<exists>block. sys_realloc sys b n = Some block \<and> length block = n"
    using assms(4) by blast
  have "0 < (128 :: nat)" "128 \<le> max 128 (2 * length t)" by simp_all
  from readlink_loop_complete [OF assms(1,3) this mem, of "[]"] obtain block m where
    l: "readlink_loop (sys, link_path sys pid) [] 128 = Some (Some (t @ block, length t, m))" "length t < m" "length (t @ block) = m"
    by blast
  obtain b bs where "block = b # bs" using l(2,3) by (cases block) auto
  then have "get_pid_exe sys pid None n = Some (Some (t @ 0 # bs))"
    using l by (simp add: get_pid_exe_def link_path_def [symmetric] Let_def)
  then show "\<exists>block. get_pid_exe sys pid None n = Some (Some block) \<and> 0 \<in> set block \<and> take (strlen block) block = t"
    using string_in_block [OF assms(2)] by auto
  have "readlink sys (link_path sys pid) buffer (length buffer) =
      Some (if buffer = [] then - 1 else int (min (length buffer) (length t)), take (length buffer) t @ drop (length t) buffer)"
    using assms(1) by (simp add: readlink_def block_write_def min_def)
  moreover have "(t @ drop (length t) buffer)[length t := 0] = t @ 0 # drop (length t + 1) buffer" if "length t < length buffer"
    using that by (simp add: list_update_append Cons_nth_drop_Suc [symmetric])
  ultimately show "get_pid_exe sys pid (Some buffer) (length buffer) = Some (if buffer = [] then None else Some
        (if length t < length buffer then t @ 0 # drop (length t + 1) buffer else take (length buffer) t))"
    by (simp add: get_pid_exe_def link_path_def [symmetric] Let_def min_def)
qed

lemma exe_path_complete_witness:
  "\<exists>block. get_pid_exe test_linux 0 None 0 = Some (Some block) \<and> take (strlen block) block = [47, 98]"
proof -
  have "sys_link test_linux (link_path test_linux 0) = Some [47, 98]"
    by (simp add: link_path_def test_linux_def pid_path_7 c_str_def)
  from exe_path_complete [OF this, of 0 "[]"] show ?thesis by (simp add: test_linux_def) blast
qed

lemma scan_stat_name_word:
  assumes "ds \<noteq> []" "\<forall>d \<in> set ds. isdigit d" "word \<noteq> []" "\<forall>d \<in> set word. \<not> isspace d" "isspace c"
  shows "scan_stat_name (ds @ [32, 40] @ word @ c # rest) = Some word"
proof -
  obtain d ds' where ds: "ds = d # ds'" using assms(1) by (cases ds) auto
  have d: "isdigit d" using assms(2) ds by simp
  then have "\<not> isspace d" "d \<noteq> 45" "d \<noteq> 43" by (auto simp: isdigit_def isspace_def word_le_nat_alt)
  then have s: "dropWhile isspace (ds @ x) = ds @ x" "char_at (ds @ x) 0 \<noteq> 45" "char_at (ds @ x) 0 \<noteq> 43" for x
    by (simp_all add: ds)
  have "\<not> isdigit 32" by (simp add: isdigit_def)
  then have "takeWhile isdigit (ds @ [32, 40] @ x) = ds" "dropWhile isdigit (ds @ [32, 40] @ x) = [32, 40] @ x" for x
    using assms(2) by (simp_all add: takeWhile_append2 dropWhile_append2)
  moreover have "dropWhile isspace ([32, 40] @ x) = 40 # x" for x by (simp add: isspace_def)
  moreover obtain w ws where w: "word = w # ws" using assms(3) by (cases word) auto
  then have "dropWhile isspace (word @ c # rest) = word @ c # rest" using assms(4) by simp
  moreover have "takeWhile (\<lambda>c. \<not> isspace c) (word @ c # rest) = word"
    using assms(4,5) by (simp add: takeWhile_append2)
  ultimately show ?thesis using assms(1,3) by (simp add: scan_stat_name_def Let_def s)
qed

text \<open>
  The name of a process without a link comes out of its status line right if it has no white space; of a
  name with white space only the first word is read, and its last letter is cut off in place of the
  parenthesis that is not there.
\<close>

theorem stat_name_first_word:
  assumes "sys_read sys (fmt_pid_prefix 32 pid (Some (c_str ''stat''))) = Some (ds @ [32, 40] @ word @ c # rest)"
    and "ds \<noteq> []" "\<forall>d \<in> set ds. isdigit d" "word \<noteq> []" "\<forall>d \<in> set word. \<not> isspace d"
  shows "(isspace c \<longrightarrow> get_pid_stat_name sys pid = Some (Some (butlast word)))
    \<and> (c = 41 \<and> rest \<noteq> [] \<and> isspace (hd rest) \<longrightarrow> get_pid_stat_name sys pid = Some (Some word))"
proof (intro conjI impI)
  assume "isspace c"
  with scan_stat_name_word [OF assms(2-5)] show "get_pid_stat_name sys pid = Some (Some (butlast word))"
    by (simp add: get_pid_stat_name_def assms(1) Let_def)
next
  assume c: "c = 41 \<and> rest \<noteq> [] \<and> isspace (hd rest)"
  then obtain r rest' where rest: "rest = r # rest'" "isspace r" by (cases rest) auto
  have "\<forall>d \<in> set (word @ [c]). \<not> isspace d" "word @ [c] \<noteq> []" using assms(5) c by (auto simp: isspace_def)
  from scan_stat_name_word [OF assms(2,3) this(2,1) rest(2)] show "get_pid_stat_name sys pid = Some (Some word)"
    by (simp add: get_pid_stat_name_def assms(1) rest(1) Let_def)
qed

lemma stat_name_first_word_witness:
  "get_pid_stat_name test_linux 7 = Some (Some [])"
proof -
  have "sys_read test_linux (fmt_pid_prefix 32 7 (Some (c_str ''stat''))) = Some ([55] @ [32, 40] @ [97] @ 32 # c_str ''b) S 1'')"
    by (simp add: test_linux_def pid_path_7 c_str_def of_char_def)
  from stat_name_first_word [OF this] show ?thesis by (simp add: isdigit_def isspace_def)
qed

end
