(* ===== verification/LuaState.thy ===== *)
theory LuaState
  imports CString Complex_Main
begin

text \<open>
  The part of the C interface of Lua that the program uses, as \<^verbatim>\<open>luajit/src/lj_api.c\<close> implements it on the
  64-bit target: values, the stack of the running C function, and the functions that read, write and call.
  A table is its slots in the order of traversal; where the implementation puts a new key and how it then
  rearranges the others (\<^verbatim>\<open>lj_tab_newkey\<close>) is a parameter, as are metamethods, the functions of the Lua program
  and the conversions between strings and numbers. Memory and stack space for Lua are taken as sufficient.
\<close>

subsection \<open>Values and state\<close>

text \<open>A number is a double: a finite one by its value, an infinity by its sign.\<close>

datatype lua_number = Fin rat | Inf bool | NaN

datatype lua_value = VNil | VBool bool | VNum lua_number | VStr bytes | VLight nat
  | VTable nat | VFunc nat | VUser nat | VCData nat | VThread nat

datatype lua_tag = LUA_TNONE | LUA_TNIL | LUA_TBOOLEAN | LUA_TLIGHTUSERDATA | LUA_TNUMBER | LUA_TSTRING
  | LUA_TTABLE | LUA_TFUNCTION | LUA_TUSERDATA | LUA_TTHREAD | LUA_TCDATA

type_synonym lua_slots = "(lua_value \<times> lua_value) list"

record lua_table =
  t_slots :: lua_slots
  t_meta :: "nat option"

text \<open>A closure of a C function has the function, by its name, and the upvalues.\<close>

datatype lua_closure = CClosure string "lua_value list" | LuaClosure

text \<open>The stack is the frame of the running C function, its top first; \<open>ls_reports\<close> are the messages
  sent to the log of the program.\<close>

record lua_state =
  ls_stack :: "lua_value list"
  ls_upvalues :: "lua_value list"
  ls_globals :: nat
  ls_registry :: nat
  ls_tables :: "nat \<Rightarrow> lua_table option"
  ls_funcs :: "nat \<Rightarrow> lua_closure option"
  ls_reports :: "bytes list"

text \<open>
  An operation takes the state and gives a result or a Lua error (\<open>Inl\<close>, the error value), which leaves every
  C function up to the next protected call; \<open>None\<close> is undefined behaviour or a call that does not return.
\<close>

type_synonym 'a lua = "lua_state \<Rightarrow> ((lua_value + 'a) \<times> lua_state) option"

definition lret :: "'a \<Rightarrow> 'a lua" where
  "lret x = (\<lambda>L. Some (Inr x, L))"

definition lthrow :: "lua_value \<Rightarrow> 'a lua" where
  "lthrow e = (\<lambda>L. Some (Inl e, L))"

definition lundef :: "'a lua" where
  "lundef = (\<lambda>L. None)"

definition lbind :: "'a lua \<Rightarrow> ('a \<Rightarrow> 'b lua) \<Rightarrow> 'b lua" where
  "lbind m f = (\<lambda>L. case m L of
     None \<Rightarrow> None
   | Some (Inl e, L) \<Rightarrow> Some (Inl e, L)
   | Some (Inr x, L) \<Rightarrow> f x L)"

definition lthen :: "'a lua \<Rightarrow> 'b lua \<Rightarrow> 'b lua" where
  "lthen m k = lbind m (\<lambda>_. k)"

text \<open>
  The parameters: \<open>le_new\<close> the address of a new object; \<open>le_newkey\<close> the slots after a slot for a new key was made;
  \<open>le_len\<close> the length of a table (\<^verbatim>\<open>lj_tab_len\<close>); \<open>le_scan\<close> and \<open>le_show\<close> the conversions of strings and numbers;
  \<open>le_rnd\<close> the rounding to a double; \<open>le_string\<close>, \<open>le_user\<close> and \<open>le_cdata\<close> the addresses of the data of a string, a
  userdata and a cdata (dereferenced as the patched \<^verbatim>\<open>cdata_topointer\<close> does); \<open>le_userlen\<close> the length of a
  userdata; \<open>le_self\<close> the address of the Lua state; \<open>le_call\<close> a call of a function; \<open>le_index\<close>, \<open>le_newindex\<close>, \<open>le_equal\<close> and \<open>le_concat\<close> the operations where a metamethod decides;
  \<open>le_load\<close> the compilation of a chunk, given its text and name: the status, and the function or the error message;
  \<open>le_where\<close> the position that is put before an error message and \<open>le_argerror\<close> the message for a bad argument.
\<close>

record lua_env =
  le_new :: "lua_state \<Rightarrow> nat"
  le_newkey :: "lua_slots \<Rightarrow> lua_value \<Rightarrow> lua_slots"
  le_len :: "lua_slots \<Rightarrow> nat"
  le_scan :: "bytes \<Rightarrow> lua_number option"
  le_show :: "lua_number \<Rightarrow> bytes"
  le_rnd :: "rat \<Rightarrow> rat"
  le_string :: "bytes \<Rightarrow> nat"
  le_user :: "nat \<Rightarrow> nat"
  le_userlen :: "nat \<Rightarrow> nat"
  le_cdata :: "nat \<Rightarrow> nat"
  le_self :: nat
  le_call :: "lua_value \<Rightarrow> lua_value list \<Rightarrow> lua_value list lua"
  le_index :: "lua_value \<Rightarrow> lua_value \<Rightarrow> lua_value lua"
  le_newindex :: "lua_value \<Rightarrow> lua_value \<Rightarrow> lua_value \<Rightarrow> unit lua"
  le_equal :: "lua_value \<Rightarrow> lua_value \<Rightarrow> bool lua"
  le_concat :: "lua_value list \<Rightarrow> lua_value lua"
  le_where :: "lua_state \<Rightarrow> bytes"
  le_load :: "bytes \<Rightarrow> bytes \<Rightarrow> (int \<times> lua_value) lua"
  le_argerror :: "int \<Rightarrow> string \<Rightarrow> lua_state \<Rightarrow> lua_value"

subsection \<open>Errors\<close>

definition lj_err_msg :: "lua_env \<Rightarrow> bytes \<Rightarrow> 'a lua" where
  "lj_err_msg env msg = (\<lambda>L. lthrow (VStr (le_where env L @ msg)) L)"

text \<open>The arguments of a formatted message, and the formats that Lua knows.\<close>

datatype fmt_arg = FStr "bytes option" | FInt int | FNum lua_number | FPtr nat

definition hex_char :: "nat \<Rightarrow> u8" where
  "hex_char d = of_nat (if d < 10 then 48 + d else 87 + d)"

fun hex_low :: "nat \<Rightarrow> nat \<Rightarrow> bytes" where
  "hex_low 0 p = []"
| "hex_low (Suc n) p = hex_low n (p div 16) @ [hex_char (p mod 16)]"

definition fmt_pointer :: "nat \<Rightarrow> bytes" where
  "fmt_pointer p = (if p = 0 then c_str ''NULL''
     else let hi = p div 2 ^ 32
       in c_str ''0x'' @ hex_low (8 + (if hi = 0 then 0 else if hi < 2 ^ 8 then 2 else if hi < 2 ^ 16 then 4
            else if hi < 2 ^ 24 then 6 else 8)) p)"

fun decimal :: "nat \<Rightarrow> bytes" where
  "decimal n = (if n < 10 then [of_nat (48 + n)] else decimal (n div 10) @ [of_nat (48 + n mod 10)])"

declare decimal.simps [simp del]

definition lj_str_bufint :: "int \<Rightarrow> bytes" where
  "lj_str_bufint k = (if k < 0 then 45 # decimal (nat (- k)) else decimal (nat k))"

fun lj_str_pushvf :: "lua_env \<Rightarrow> bytes \<Rightarrow> fmt_arg list \<Rightarrow> bytes option" where
  "lj_str_pushvf env [] args = Some []"
| "lj_str_pushvf env (c # s) args =
     (if c \<noteq> 37 then map_option ((#) c) (lj_str_pushvf env s args)
      else case s of
        [] \<Rightarrow> None
      | d # s' \<Rightarrow>
          if d = 115 then (case args of
              FStr None # args \<Rightarrow> map_option ((@) (c_str ''(null)'')) (lj_str_pushvf env s' args)
            | FStr (Some str) # args \<Rightarrow> map_option ((@) str) (lj_str_pushvf env s' args)
            | _ \<Rightarrow> None)
          else if d = 99 then (case args of
              FInt i # args \<Rightarrow> map_option ((#) (of_int i)) (lj_str_pushvf env s' args) | _ \<Rightarrow> None)
          else if d = 100 then (case args of
              FInt i # args \<Rightarrow> map_option ((@) (lj_str_bufint i)) (lj_str_pushvf env s' args) | _ \<Rightarrow> None)
          else if d = 102 then (case args of
              FNum n # args \<Rightarrow> map_option ((@) (le_show env n)) (lj_str_pushvf env s' args) | _ \<Rightarrow> None)
          else if d = 112 then (case args of
              FPtr p # args \<Rightarrow> map_option ((@) (fmt_pointer p)) (lj_str_pushvf env s' args) | _ \<Rightarrow> None)
          else if d = 37 then map_option ((#) 37) (lj_str_pushvf env s' args)
          else map_option ((@) [37, d]) (lj_str_pushvf env s' args))"

definition luaL_error :: "lua_env \<Rightarrow> bytes \<Rightarrow> fmt_arg list \<Rightarrow> 'a lua" where
  "luaL_error env fmt args = (\<lambda>L. case lj_str_pushvf env fmt args of
     None \<Rightarrow> None | Some msg \<Rightarrow> lj_err_msg env msg L)"

subsection \<open>Indices\<close>

abbreviation LUA_REGISTRYINDEX :: int where "LUA_REGISTRYINDEX \<equiv> - 10000"
abbreviation LUA_ENVIRONINDEX :: int where "LUA_ENVIRONINDEX \<equiv> - 10001"
abbreviation LUA_GLOBALSINDEX :: int where "LUA_GLOBALSINDEX \<equiv> - 10002"

definition lua_upvalueindex :: "int \<Rightarrow> int" where
  "lua_upvalueindex i = LUA_GLOBALSINDEX - i"

text \<open>Where an index leads: a slot of the stack, counted from its top, an upvalue, a table that is no slot, or nowhere.
  An index below the stack is undefined. The environment of the functions is not used by the program.\<close>

datatype lua_slot = SStack nat | SUpvalue nat | STable nat | SNone

definition index2adr :: "int \<Rightarrow> lua_state \<Rightarrow> lua_slot option" where
  "index2adr idx L =
     (if 0 < idx then Some (if nat idx \<le> length (ls_stack L) then SStack (length (ls_stack L) - nat idx) else SNone)
      else if LUA_REGISTRYINDEX < idx
        then (if idx \<noteq> 0 \<and> nat (- idx) \<le> length (ls_stack L) then Some (SStack (nat (- idx) - 1)) else None)
      else if idx = LUA_GLOBALSINDEX then Some (STable (ls_globals L))
      else if idx = LUA_REGISTRYINDEX then Some (STable (ls_registry L))
      else if idx = LUA_ENVIRONINDEX then None
      else let i = nat (LUA_GLOBALSINDEX - idx)
        in Some (if i \<le> length (ls_upvalues L) then SUpvalue (i - 1) else SNone))"

definition stkindex2adr :: "int \<Rightarrow> lua_state \<Rightarrow> lua_slot option" where
  "stkindex2adr idx L =
     (if 0 < idx then Some (if nat idx \<le> length (ls_stack L) then SStack (length (ls_stack L) - nat idx) else SNone)
      else if idx \<noteq> 0 \<and> nat (- idx) \<le> length (ls_stack L) then Some (SStack (nat (- idx) - 1)) else None)"

definition slot_value :: "lua_state \<Rightarrow> lua_slot \<Rightarrow> lua_value" where
  "slot_value L s = (case s of
     SStack i \<Rightarrow> ls_stack L ! i | SUpvalue i \<Rightarrow> ls_upvalues L ! i | STable a \<Rightarrow> VTable a | SNone \<Rightarrow> VNil)"

definition slot_store :: "lua_slot \<Rightarrow> lua_value \<Rightarrow> lua_state \<Rightarrow> lua_state" where
  "slot_store s v L = (case s of
     SStack i \<Rightarrow> L\<lparr> ls_stack := (ls_stack L)[i := v] \<rparr>
   | SUpvalue i \<Rightarrow> L\<lparr> ls_upvalues := (ls_upvalues L)[i := v] \<rparr>
   | _ \<Rightarrow> L)"

text \<open>The value at an index; there is none behind the top.\<close>

definition lua_at :: "int \<Rightarrow> lua_value lua" where
  "lua_at idx = (\<lambda>L. case index2adr idx L of None \<Rightarrow> None | Some s \<Rightarrow> lret (slot_value L s) L)"

definition lua_push :: "lua_value \<Rightarrow> unit lua" where
  "lua_push v = (\<lambda>L. lret () (L\<lparr> ls_stack := v # ls_stack L \<rparr>))"

subsection \<open>Stack manipulation\<close>

definition lua_gettop :: "int lua" where
  "lua_gettop = (\<lambda>L. lret (int (length (ls_stack L))) L)"

definition lua_settop :: "int \<Rightarrow> unit lua" where
  "lua_settop idx = (\<lambda>L. let n = length (ls_stack L)
     in if 0 \<le> idx then lret () (L\<lparr> ls_stack := replicate (nat idx - n) VNil @ drop (n - nat idx) (ls_stack L) \<rparr>)
        else if nat (- (idx + 1)) \<le> n then lret () (L\<lparr> ls_stack := drop (nat (- (idx + 1))) (ls_stack L) \<rparr>)
        else None)"

definition lua_pop :: "int \<Rightarrow> unit lua" where
  "lua_pop n = lua_settop (- n - 1)"

definition lua_remove :: "int \<Rightarrow> unit lua" where
  "lua_remove idx = (\<lambda>L. case stkindex2adr idx L of
     Some (SStack k) \<Rightarrow> lret () (L\<lparr> ls_stack := take k (ls_stack L) @ drop (Suc k) (ls_stack L) \<rparr>)
   | _ \<Rightarrow> None)"

definition lua_insert :: "int \<Rightarrow> unit lua" where
  "lua_insert idx = (\<lambda>L. case stkindex2adr idx L of
     Some (SStack k) \<Rightarrow> lret () (L\<lparr> ls_stack :=
       take k (tl (ls_stack L)) @ hd (ls_stack L) # drop (Suc k) (ls_stack L) \<rparr>)
   | _ \<Rightarrow> None)"

definition lua_replace :: "int \<Rightarrow> unit lua" where
  "lua_replace idx = (\<lambda>L. case ls_stack L of
     [] \<Rightarrow> None
   | v # _ \<Rightarrow>
       if idx = LUA_GLOBALSINDEX
       then (case v of VTable a \<Rightarrow> lret () (L\<lparr> ls_globals := a, ls_stack := tl (ls_stack L) \<rparr>) | _ \<Rightarrow> None)
       else case index2adr idx L of
         Some (SStack k) \<Rightarrow> lret () (L\<lparr> ls_stack := tl ((ls_stack L)[k := v]) \<rparr>)
       | Some (SUpvalue i) \<Rightarrow> lret () (L\<lparr> ls_upvalues := (ls_upvalues L)[i := v], ls_stack := tl (ls_stack L) \<rparr>)
       | _ \<Rightarrow> None)"

definition lua_pushvalue :: "int \<Rightarrow> unit lua" where
  "lua_pushvalue idx = lbind (lua_at idx) lua_push"

subsection \<open>Tables\<close>

text \<open>
  A slot may be left with \<open>nil\<close>; the traversal skips it. A key is looked up by equality, where a string is its
  content. \<open>nil\<close> and NaN are never keys.
\<close>

definition lj_tab_get :: "lua_slots \<Rightarrow> lua_value \<Rightarrow> lua_value" where
  "lj_tab_get slots key = (case map_of slots key of None \<Rightarrow> VNil | Some v \<Rightarrow> v)"

definition lj_tab_store :: "lua_slots \<Rightarrow> lua_value \<Rightarrow> lua_value \<Rightarrow> lua_slots" where
  "lj_tab_store slots key v = map (\<lambda>(k, w). (k, if k = key then v else w)) slots"

definition lj_tab_set :: "lua_env \<Rightarrow> lua_slots \<Rightarrow> lua_value \<Rightarrow> lua_value \<Rightarrow> lua_slots" where
  "lj_tab_set env slots key v =
     lj_tab_store (if key \<in> fst ` set slots then slots else le_newkey env slots key) key v"

definition slot_live :: "lua_value \<times> lua_value \<Rightarrow> bool" where
  "slot_live s \<longleftrightarrow> snd s \<noteq> VNil"

text \<open>The slot after a key, \<open>None\<close> when the key is none of the table.\<close>

definition lj_tab_next :: "lua_slots \<Rightarrow> lua_value \<Rightarrow> (lua_value \<times> lua_value) option option" where
  "lj_tab_next slots key =
     (if key = VNil then Some (find slot_live slots)
      else if key \<in> fst ` set slots then Some (find slot_live (tl (dropWhile (\<lambda>s. fst s \<noteq> key) slots)))
      else None)"

definition lua_table_at :: "nat \<Rightarrow> lua_table lua" where
  "lua_table_at a = (\<lambda>L. case ls_tables L a of None \<Rightarrow> None | Some t \<Rightarrow> lret t L)"

definition lua_table_slots :: "nat \<Rightarrow> lua_slots lua" where
  "lua_table_slots a = (\<lambda>L. case ls_tables L a of None \<Rightarrow> None | Some t \<Rightarrow> lret (t_slots t) L)"

text \<open>Writing a key of a table, past metamethods.\<close>

definition lua_table_write :: "lua_env \<Rightarrow> nat \<Rightarrow> lua_value \<Rightarrow> lua_value \<Rightarrow> unit lua" where
  "lua_table_write env a key v = (\<lambda>L. case ls_tables L a of
     None \<Rightarrow> None
   | Some t \<Rightarrow>
       if key = VNil then lj_err_msg env (c_str ''table index is nil'') L
       else if key = VNum NaN then lj_err_msg env (c_str ''table index is NaN'') L
       else lret () (L\<lparr> ls_tables := (ls_tables L)(a \<mapsto> t\<lparr> t_slots := lj_tab_set env (t_slots t) key v \<rparr>) \<rparr>))"

text \<open>Reading and writing where a metamethod may decide: a field that is missing in a table with a
  metatable, and values that are no tables.\<close>

definition lj_meta_tget :: "lua_env \<Rightarrow> lua_value \<Rightarrow> lua_value \<Rightarrow> lua_value lua" where
  "lj_meta_tget env ob key = (case ob of
     VTable a \<Rightarrow> lbind (lua_table_at a) (\<lambda>t. let v = lj_tab_get (t_slots t) key
       in if v \<noteq> VNil \<or> t_meta t = None then lret v else le_index env ob key)
   | _ \<Rightarrow> le_index env ob key)"

definition lj_meta_tset :: "lua_env \<Rightarrow> lua_value \<Rightarrow> lua_value \<Rightarrow> lua_value \<Rightarrow> unit lua" where
  "lj_meta_tset env ob key v = (case ob of
     VTable a \<Rightarrow> lbind (lua_table_at a) (\<lambda>t.
       if lj_tab_get (t_slots t) key \<noteq> VNil \<or> t_meta t = None then lua_table_write env a key v
       else le_newindex env ob key v)
   | _ \<Rightarrow> le_newindex env ob key v)"

text \<open>The table at an index where the C interface requires one.\<close>

definition lua_raw_table :: "int \<Rightarrow> nat lua" where
  "lua_raw_table idx = lbind (lua_at idx) (\<lambda>v. case v of VTable a \<Rightarrow> lret a | _ \<Rightarrow> lundef)"

text \<open>An index that leads to a value, as \<^verbatim>\<open>api_checkvalidindex\<close> requires.\<close>

definition lua_valid_at :: "int \<Rightarrow> lua_value lua" where
  "lua_valid_at idx = (\<lambda>L. case index2adr idx L of
     None \<Rightarrow> None | Some s \<Rightarrow> if s = SNone then None else lret (slot_value L s) L)"

text \<open>Taking values off the stack.\<close>

definition lua_take :: "lua_value lua" where
  "lua_take = (\<lambda>L. case ls_stack L of [] \<Rightarrow> None | v # xs \<Rightarrow> lret v (L\<lparr> ls_stack := xs \<rparr>))"

definition lua_rawget :: "int \<Rightarrow> unit lua" where
  "lua_rawget idx = lbind (lua_raw_table idx) (\<lambda>a. lbind lua_take (\<lambda>key. lbind (lua_table_slots a) (\<lambda>slots.
     lua_push (lj_tab_get slots key))))"

definition lua_rawgeti :: "int \<Rightarrow> int \<Rightarrow> unit lua" where
  "lua_rawgeti idx n = lbind (lua_raw_table idx) (\<lambda>a. lbind (lua_table_slots a) (\<lambda>slots.
     lua_push (lj_tab_get slots (VNum (Fin (of_int n))))))"

definition lua_rawset :: "lua_env \<Rightarrow> int \<Rightarrow> unit lua" where
  "lua_rawset env idx = lbind (lua_raw_table idx) (\<lambda>a. lbind lua_take (\<lambda>v. lbind lua_take (\<lambda>key.
     lua_table_write env a key v)))"

definition lua_rawseti :: "lua_env \<Rightarrow> int \<Rightarrow> int \<Rightarrow> unit lua" where
  "lua_rawseti env idx n = lbind (lua_raw_table idx) (\<lambda>a. lbind lua_take (\<lambda>v.
     lua_table_write env a (VNum (Fin (of_int n))) v))"

definition lua_getfield :: "lua_env \<Rightarrow> int \<Rightarrow> bytes \<Rightarrow> unit lua" where
  "lua_getfield env idx k = lbind (lua_valid_at idx) (\<lambda>t. lbind (lj_meta_tget env t (VStr k)) lua_push)"

definition lua_setfield :: "lua_env \<Rightarrow> int \<Rightarrow> bytes \<Rightarrow> unit lua" where
  "lua_setfield env idx k = lbind (lua_valid_at idx) (\<lambda>t. lbind lua_take (\<lambda>v. lj_meta_tset env t (VStr k) v))"

definition lua_settable :: "lua_env \<Rightarrow> int \<Rightarrow> unit lua" where
  "lua_settable env idx = lbind (lua_valid_at idx) (\<lambda>t. lbind lua_take (\<lambda>v. lbind lua_take (\<lambda>key.
     lj_meta_tset env t key v)))"

abbreviation lua_getglobal :: "lua_env \<Rightarrow> bytes \<Rightarrow> unit lua" where
  "lua_getglobal env k \<equiv> lua_getfield env LUA_GLOBALSINDEX k"

abbreviation lua_setglobal :: "lua_env \<Rightarrow> bytes \<Rightarrow> unit lua" where
  "lua_setglobal env k \<equiv> lua_setfield env LUA_GLOBALSINDEX k"

text \<open>The next entry of a traversal: the key on the stack is replaced by the next key and its value, or
  taken off at the end.\<close>

definition lua_next :: "lua_env \<Rightarrow> int \<Rightarrow> bool lua" where
  "lua_next env idx = lbind (lua_raw_table idx) (\<lambda>a. lbind lua_take (\<lambda>key. lbind (lua_table_slots a) (\<lambda>slots.
     case lj_tab_next slots key of
       None \<Rightarrow> lj_err_msg env (c_str ''invalid key to '' @ [39] @ c_str ''next'' @ [39])
     | Some None \<Rightarrow> lret False
     | Some (Some (k, v)) \<Rightarrow> lthen (lua_push k) (lthen (lua_push v) (lret True)))))"

subsection \<open>Reading the stack\<close>

definition value_tag :: "lua_value \<Rightarrow> lua_tag" where
  "value_tag v = (case v of VNil \<Rightarrow> LUA_TNIL | VBool _ \<Rightarrow> LUA_TBOOLEAN | VNum _ \<Rightarrow> LUA_TNUMBER | VStr _ \<Rightarrow> LUA_TSTRING
     | VLight _ \<Rightarrow> LUA_TLIGHTUSERDATA | VTable _ \<Rightarrow> LUA_TTABLE | VFunc _ \<Rightarrow> LUA_TFUNCTION | VUser _ \<Rightarrow> LUA_TUSERDATA
     | VCData _ \<Rightarrow> LUA_TCDATA | VThread _ \<Rightarrow> LUA_TTHREAD)"

definition lua_type :: "int \<Rightarrow> lua_tag lua" where
  "lua_type idx = (\<lambda>L. case index2adr idx L of
     None \<Rightarrow> None
   | Some s \<Rightarrow> lret (if s = SNone then LUA_TNONE else value_tag (slot_value L s)) L)"

definition lua_typename :: "lua_tag \<Rightarrow> string" where
  "lua_typename t = (case t of LUA_TNONE \<Rightarrow> ''no value'' | LUA_TNIL \<Rightarrow> ''nil'' | LUA_TBOOLEAN \<Rightarrow> ''boolean''
     | LUA_TLIGHTUSERDATA \<Rightarrow> ''userdata'' | LUA_TNUMBER \<Rightarrow> ''number'' | LUA_TSTRING \<Rightarrow> ''string'' | LUA_TTABLE \<Rightarrow> ''table''
     | LUA_TFUNCTION \<Rightarrow> ''function'' | LUA_TUSERDATA \<Rightarrow> ''userdata'' | LUA_TTHREAD \<Rightarrow> ''thread'' | LUA_TCDATA \<Rightarrow> ''cdata'')"

definition lua_isnoneornil :: "int \<Rightarrow> bool lua" where
  "lua_isnoneornil idx = lbind (lua_type idx) (\<lambda>t. lret (t = LUA_TNONE \<or> t = LUA_TNIL))"

definition luaL_checktype :: "lua_env \<Rightarrow> int \<Rightarrow> lua_tag \<Rightarrow> unit lua" where
  "luaL_checktype env idx tt = lbind (lua_type idx) (\<lambda>t.
     if t = tt then lret () else (\<lambda>L. lthrow (le_argerror env idx (lua_typename tt) L) L))"

definition value_number :: "lua_env \<Rightarrow> lua_value \<Rightarrow> lua_number option" where
  "value_number env v = (case v of VNum n \<Rightarrow> Some n | VStr s \<Rightarrow> le_scan env s | _ \<Rightarrow> None)"

definition lua_isnumber :: "lua_env \<Rightarrow> int \<Rightarrow> bool lua" where
  "lua_isnumber env idx = lbind (lua_at idx) (\<lambda>v. lret (value_number env v \<noteq> None))"

definition lua_tonumber :: "lua_env \<Rightarrow> int \<Rightarrow> lua_number lua" where
  "lua_tonumber env idx = lbind (lua_at idx) (\<lambda>v. lret (case value_number env v of None \<Rightarrow> Fin 0 | Some n \<Rightarrow> n))"

text \<open>The conversion of a double to an integer type drops the fraction; out of range it is undefined.\<close>

definition truncate_rat :: "rat \<Rightarrow> int" where
  "truncate_rat q = (if 0 \<le> q then \<lfloor>q\<rfloor> else \<lceil>q\<rceil>)"

definition double_to_int :: "nat \<Rightarrow> lua_number \<Rightarrow> int option" where
  "double_to_int bits n = (case n of
     Fin q \<Rightarrow> let i = truncate_rat q in if - (2 ^ (bits - 1)) \<le> i \<and> i < 2 ^ (bits - 1) then Some i else None
   | _ \<Rightarrow> None)"

definition lua_tointeger :: "lua_env \<Rightarrow> int \<Rightarrow> int lua" where
  "lua_tointeger env idx = lbind (lua_at idx) (\<lambda>v. case value_number env v of
     None \<Rightarrow> lret 0
   | Some n \<Rightarrow> (case double_to_int 64 n of None \<Rightarrow> lundef | Some i \<Rightarrow> lret i))"

definition lua_toboolean :: "int \<Rightarrow> bool lua" where
  "lua_toboolean idx = lbind (lua_at idx) (\<lambda>v. lret (v \<noteq> VNil \<and> v \<noteq> VBool False))"

text \<open>A number becomes a string where it stands.\<close>

definition lua_tolstring :: "lua_env \<Rightarrow> int \<Rightarrow> bytes option lua" where
  "lua_tolstring env idx = (\<lambda>L. case index2adr idx L of
     None \<Rightarrow> None
   | Some s \<Rightarrow> (case slot_value L s of
       VStr str \<Rightarrow> lret (Some str) L
     | VNum n \<Rightarrow> lret (Some (le_show env n)) (slot_store s (VStr (le_show env n)) L)
     | _ \<Rightarrow> lret None L))"

text \<open>A string that is read as a C string ends at its first \<^verbatim>\<open>NUL\<close>.\<close>

definition c_string :: "bytes \<Rightarrow> bytes" where
  "c_string s = take (strlen s) s"

definition lua_tostring :: "lua_env \<Rightarrow> int \<Rightarrow> bytes option lua" where
  "lua_tostring env idx = lbind (lua_tolstring env idx) (\<lambda>s. lret (map_option c_string s))"

definition luaL_checklstring :: "lua_env \<Rightarrow> int \<Rightarrow> bytes lua" where
  "luaL_checklstring env idx = lbind (lua_tolstring env idx) (\<lambda>s. case s of
     Some s \<Rightarrow> lret s
   | None \<Rightarrow> (\<lambda>L. lthrow (le_argerror env idx (lua_typename LUA_TSTRING) L) L))"

definition luaL_checkstring :: "lua_env \<Rightarrow> int \<Rightarrow> bytes lua" where
  "luaL_checkstring env idx = lbind (luaL_checklstring env idx) (\<lambda>s. lret (c_string s))"

definition lua_isstring :: "int \<Rightarrow> bool lua" where
  "lua_isstring idx = lbind (lua_at idx) (\<lambda>v. lret (value_tag v = LUA_TSTRING \<or> value_tag v = LUA_TNUMBER))"

definition lua_objlen :: "lua_env \<Rightarrow> int \<Rightarrow> nat lua" where
  "lua_objlen env idx = (\<lambda>L. case index2adr idx L of
     None \<Rightarrow> None
   | Some s \<Rightarrow> (case slot_value L s of
       VStr str \<Rightarrow> lret (length str) L
     | VTable a \<Rightarrow> lbind (lua_table_slots a) (\<lambda>slots. lret (le_len env slots)) L
     | VNum n \<Rightarrow> lret (length (le_show env n)) (slot_store s (VStr (le_show env n)) L)
     | VUser a \<Rightarrow> lret (le_userlen env a) L
     | _ \<Rightarrow> lret 0 L))"

definition lua_touserdata :: "lua_env \<Rightarrow> int \<Rightarrow> nat lua" where
  "lua_touserdata env idx = lbind (lua_at idx) (\<lambda>v. lret (case v of VUser a \<Rightarrow> le_user env a | VLight p \<Rightarrow> p | _ \<Rightarrow> 0))"

text \<open>A string is an object whose header of 16 bytes precedes its characters.\<close>

definition lua_topointer :: "lua_env \<Rightarrow> int \<Rightarrow> nat lua" where
  "lua_topointer env idx = lbind (lua_at idx) (\<lambda>v. case v of
     VUser a \<Rightarrow> lret (le_user env a) | VLight p \<Rightarrow> lret p | VCData a \<Rightarrow> lret (le_cdata env a)
   | VTable a \<Rightarrow> lret a | VFunc a \<Rightarrow> lret a | VThread a \<Rightarrow> lret a | VStr s \<Rightarrow> lret (le_string env s - 16) | _ \<Rightarrow> lret 0)"

text \<open>\<^verbatim>\<open>lua_equal\<close>; tables and userdata that are not the same object may have a metamethod.\<close>

definition lua_equal :: "lua_env \<Rightarrow> int \<Rightarrow> int \<Rightarrow> bool lua" where
  "lua_equal env idx1 idx2 = lbind (lua_type idx1) (\<lambda>t1. lbind (lua_type idx2) (\<lambda>t2.
     lbind (lua_at idx1) (\<lambda>v1. lbind (lua_at idx2) (\<lambda>v2.
       if t1 = LUA_TNONE \<or> t2 = LUA_TNONE then lret False
       else case (v1, v2) of
         (VTable a, VTable b) \<Rightarrow> if a = b then lret True else le_equal env v1 v2
       | (VUser a, VUser b) \<Rightarrow> if a = b then lret True else le_equal env v1 v2
       | (VNum NaN, VNum NaN) \<Rightarrow> lret False
       | _ \<Rightarrow> lret (v1 = v2)))))"

subsection \<open>Pushing values\<close>

abbreviation lua_pushnil :: "unit lua" where "lua_pushnil \<equiv> lua_push VNil"
abbreviation lua_pushboolean :: "bool \<Rightarrow> unit lua" where "lua_pushboolean b \<equiv> lua_push (VBool b)"
abbreviation lua_pushnumber :: "lua_number \<Rightarrow> unit lua" where "lua_pushnumber n \<equiv> lua_push (VNum n)"
abbreviation lua_pushlstring :: "bytes \<Rightarrow> unit lua" where "lua_pushlstring s \<equiv> lua_push (VStr s)"

definition lua_pushinteger :: "lua_env \<Rightarrow> int \<Rightarrow> unit lua" where
  "lua_pushinteger env i = lua_push (VNum (Fin (le_rnd env (of_int i))))"

definition lua_pushstring :: "bytes option \<Rightarrow> unit lua" where
  "lua_pushstring s = (case s of None \<Rightarrow> lua_push VNil | Some s \<Rightarrow> lua_push (VStr s))"

text \<open>Light userdata have 47 bits.\<close>

definition lua_pushlightuserdata :: "lua_env \<Rightarrow> nat \<Rightarrow> unit lua" where
  "lua_pushlightuserdata env p =
     (if p div 2 ^ 47 = 0 then lua_push (VLight p) else lj_err_msg env (c_str ''bad light userdata pointer''))"

definition lua_createtable :: "lua_env \<Rightarrow> int \<Rightarrow> int \<Rightarrow> unit lua" where
  "lua_createtable env narray nrec = (\<lambda>L. let a = le_new env L
     in lua_push (VTable a) (L\<lparr> ls_tables := (ls_tables L)(a \<mapsto> \<lparr> t_slots = [], t_meta = None \<rparr>) \<rparr>))"

abbreviation lua_newtable :: "lua_env \<Rightarrow> unit lua" where
  "lua_newtable env \<equiv> lua_createtable env 0 0"

definition lua_pushcclosure :: "lua_env \<Rightarrow> string \<Rightarrow> int \<Rightarrow> unit lua" where
  "lua_pushcclosure env f n = (\<lambda>L. let a = le_new env L
     in if length (ls_stack L) < nat n then None
        else lua_push (VFunc a) (L\<lparr> ls_funcs := (ls_funcs L)(a \<mapsto> CClosure f (rev (take (nat n) (ls_stack L)))),
                                    ls_stack := drop (nat n) (ls_stack L) \<rparr>))"

abbreviation lua_pushcfunction :: "lua_env \<Rightarrow> string \<Rightarrow> unit lua" where
  "lua_pushcfunction env f \<equiv> lua_pushcclosure env f 0"

definition value_text :: "lua_env \<Rightarrow> lua_value \<Rightarrow> bytes option" where
  "value_text env v = (case v of VStr s \<Rightarrow> Some s | VNum n \<Rightarrow> Some (le_show env n) | _ \<Rightarrow> None)"

text \<open>Concatenation of the \<open>n\<close> values on top; if one is neither string nor number a metamethod decides.\<close>

definition lua_concat :: "lua_env \<Rightarrow> int \<Rightarrow> unit lua" where
  "lua_concat env n = (\<lambda>L. let k = nat n; vs = rev (take k (ls_stack L)); L' = L\<lparr> ls_stack := drop k (ls_stack L) \<rparr>
     in if n < 0 \<or> length (ls_stack L) < k then None
        else if k = 0 then lua_push (VStr []) L
        else if k = 1 then lret () L
        else if \<forall>v \<in> set vs. value_text env v \<noteq> None
          then lua_push (VStr (concat (map (the \<circ> value_text env) vs))) L'
          else lbind (le_concat env vs) lua_push L')"

subsection \<open>Calls and references\<close>

text \<open>The results a caller asked for; \<^verbatim>\<open>LUA_MULTRET\<close> are all.\<close>

definition adjust_results :: "int \<Rightarrow> lua_value list \<Rightarrow> lua_value list" where
  "adjust_results nresults rs =
     (if nresults < 0 then rs else take (nat nresults) (rs @ replicate (nat nresults - length rs) VNil))"

text \<open>The frame of the caller is as before when the call is over.\<close>

definition caller_frame :: "lua_state \<Rightarrow> lua_value list \<Rightarrow> lua_state \<Rightarrow> lua_state" where
  "caller_frame L xs L' = L'\<lparr> ls_stack := xs, ls_upvalues := ls_upvalues L \<rparr>"

definition lua_call :: "lua_env \<Rightarrow> int \<Rightarrow> int \<Rightarrow> unit lua" where
  "lua_call env nargs nresults = (\<lambda>L. let n = nat nargs; xs = drop (Suc n) (ls_stack L)
     in if length (ls_stack L) \<le> n then None
        else case le_call env (ls_stack L ! n) (rev (take n (ls_stack L))) L of
          None \<Rightarrow> None
        | Some (Inl e, L') \<Rightarrow> lthrow e (caller_frame L xs L')
        | Some (Inr rs, L') \<Rightarrow> lret () (caller_frame L (rev (adjust_results nresults rs) @ xs) L'))"

text \<open>A protected call gives the status: 0, \<^verbatim>\<open>LUA_ERRRUN\<close>, or \<^verbatim>\<open>LUA_ERRERR\<close> when the message handler fails.\<close>

definition lua_pcall :: "lua_env \<Rightarrow> int \<Rightarrow> int \<Rightarrow> int \<Rightarrow> int lua" where
  "lua_pcall env nargs nresults errfunc = (\<lambda>L. let n = nat nargs; xs = drop (Suc n) (ls_stack L)
     in if length (ls_stack L) \<le> n then None
        else case (if errfunc = 0 then Some None else case stkindex2adr errfunc L of
              Some (SStack k) \<Rightarrow> Some (Some (ls_stack L ! k)) | _ \<Rightarrow> None) of
          None \<Rightarrow> None
        | Some handler \<Rightarrow> (case le_call env (ls_stack L ! n) (rev (take n (ls_stack L))) L of
            None \<Rightarrow> None
          | Some (Inr rs, L') \<Rightarrow> lret 0 (caller_frame L (rev (adjust_results nresults rs) @ xs) L')
          | Some (Inl e, L') \<Rightarrow> (case handler of
              None \<Rightarrow> lret 2 (caller_frame L (e # xs) L')
            | Some h \<Rightarrow> (case le_call env h [e] L' of
                None \<Rightarrow> None
              | Some (Inr rs, L') \<Rightarrow> lret 2 (caller_frame L (rev (adjust_results 1 rs) @ xs) L')
              | Some (Inl e, L') \<Rightarrow> lret 5 (caller_frame L (e # xs) L')))))"

definition lua_error :: "'a lua" where
  "lua_error = lbind (lua_at (- 1)) lthrow"

abbreviation LUA_NOREF :: int where "LUA_NOREF \<equiv> - 2"
abbreviation LUA_REFNIL :: int where "LUA_REFNIL \<equiv> - 1"

text \<open>Conversion of an integer to \<^verbatim>\<open>int\<close>.\<close>

definition int32 :: "int \<Rightarrow> int" where
  "int32 i = sint (word_of_int i :: 32 word)"

definition luaL_ref :: "lua_env \<Rightarrow> int \<Rightarrow> int lua" where
  "luaL_ref env t = lbind lua_gettop (\<lambda>top. let t = (if 0 < t \<or> t \<le> LUA_REGISTRYINDEX then t else top + t + 1) in
     lbind (lua_type (- 1)) (\<lambda>tag.
     if tag = LUA_TNIL then lthen (lua_pop 1) (lret LUA_REFNIL)
     else lthen (lua_rawgeti t 0) (lbind (lua_tointeger env (- 1)) (\<lambda>n. let ref = int32 n in
       lthen (lua_pop 1) (
       if ref \<noteq> 0
       then lthen (lua_rawgeti t ref) (lthen (lua_rawseti env t 0) (lthen (lua_rawseti env t ref) (lret ref)))
       else lbind (lua_objlen env t) (\<lambda>len. let ref = int32 (int len) + 1 in
         lthen (lua_rawseti env t ref) (lret ref)))))))"

subsection \<open>Running operations\<close>

named_theorems lua_simps \<open>operations on a state whose stack is written out\<close>

lemma lua_run [lua_simps]:
  "lret x L = Some (Inr x, L)"
  "lthrow e L = Some (Inl e, L)"
  "lundef L = None"
  "lua_push v L = Some (Inr (), L\<lparr> ls_stack := v # ls_stack L \<rparr>)"
  "lua_gettop L = Some (Inr (int (length (ls_stack L))), L)"
  by (simp_all add: lret_def lthrow_def lundef_def lua_push_def lua_gettop_def)

lemma lbind_run [lua_simps]:
  "lbind m f L = (case m L of None \<Rightarrow> None | Some r \<Rightarrow> (case r of (Inl e, L) \<Rightarrow> Some (Inl e, L) | (Inr x, L) \<Rightarrow> f x L))"
  "lthen m k L = (case m L of None \<Rightarrow> None | Some r \<Rightarrow> (case r of (Inl e, L) \<Rightarrow> Some (Inl e, L) | (Inr x, L) \<Rightarrow> k L))"
  by (simp_all add: lthen_def lbind_def)

text \<open>The value at an index counted from the base of the frame.\<close>

definition from_base :: "lua_value list \<Rightarrow> int \<Rightarrow> lua_value" where
  "from_base xs i = xs ! (length xs - nat i)"

lemma from_base_simps [simp]:
  "0 < i \<Longrightarrow> i \<le> int (length xs) \<Longrightarrow> from_base (x # xs) i = from_base xs i"
  "from_base (x # xs) (int (length xs) + 1) = x"
  "from_base (x # xs) (1 + int (length xs)) = x"
  by (auto simp: from_base_def Suc_diff_le nat_add_distrib nat_le_iff)

lemma index_top:
  "ls_stack L = x # xs \<Longrightarrow> index2adr (- 1) L = Some (SStack 0)"
  "ls_stack L = x # y # xs \<Longrightarrow> index2adr (- 2) L = Some (SStack 1)"
  "ls_stack L = x # y # z # xs \<Longrightarrow> index2adr (- 3) L = Some (SStack 2)"
  "ls_stack L = x # y # z # w # xs \<Longrightarrow> index2adr (- 4) L = Some (SStack 3)"
  by (simp_all add: index2adr_def)

lemma index_base:
  "0 < i \<Longrightarrow> i \<le> int (length (ls_stack L)) \<Longrightarrow> index2adr i L = Some (SStack (length (ls_stack L) - nat i))"
  by (simp add: index2adr_def nat_le_iff)

lemma index_pseudo:
  "index2adr LUA_GLOBALSINDEX L = Some (STable (ls_globals L))" "index2adr LUA_REGISTRYINDEX L = Some (STable (ls_registry L))"
  by (simp_all add: index2adr_def)

lemma lua_at_run [lua_simps]:
  "ls_stack L = x # xs \<Longrightarrow> lua_at (- 1) L = Some (Inr x, L)"
  "ls_stack L = x # y # xs \<Longrightarrow> lua_at (- 2) L = Some (Inr y, L)"
  "ls_stack L = x # y # z # xs \<Longrightarrow> lua_at (- 3) L = Some (Inr z, L)"
  "ls_stack L = x # y # z # w # xs \<Longrightarrow> lua_at (- 4) L = Some (Inr w, L)"
  "0 < i \<Longrightarrow> i \<le> int (length (ls_stack L)) \<Longrightarrow> lua_at i L = Some (Inr (from_base (ls_stack L) i), L)"
  "lua_at LUA_GLOBALSINDEX L = Some (Inr (VTable (ls_globals L)), L)"
  "lua_at LUA_REGISTRYINDEX L = Some (Inr (VTable (ls_registry L)), L)"
  by (simp_all add: lua_at_def index_top index_base index_pseudo slot_value_def lret_def from_base_def)

lemma lua_valid_at_run [lua_simps]:
  "ls_stack L = x # xs \<Longrightarrow> lua_valid_at (- 1) L = Some (Inr x, L)"
  "ls_stack L = x # y # xs \<Longrightarrow> lua_valid_at (- 2) L = Some (Inr y, L)"
  "ls_stack L = x # y # z # xs \<Longrightarrow> lua_valid_at (- 3) L = Some (Inr z, L)"
  "0 < i \<Longrightarrow> i \<le> int (length (ls_stack L)) \<Longrightarrow> lua_valid_at i L = Some (Inr (from_base (ls_stack L) i), L)"
  "lua_valid_at LUA_GLOBALSINDEX L = Some (Inr (VTable (ls_globals L)), L)"
  "lua_valid_at LUA_REGISTRYINDEX L = Some (Inr (VTable (ls_registry L)), L)"
  by (simp_all add: lua_valid_at_def index_top index_base index_pseudo slot_value_def lret_def from_base_def)

lemma lua_type_run [lua_simps]:
  "ls_stack L = x # xs \<Longrightarrow> lua_type (- 1) L = Some (Inr (value_tag x), L)"
  "ls_stack L = x # y # xs \<Longrightarrow> lua_type (- 2) L = Some (Inr (value_tag y), L)"
  "ls_stack L = x # y # z # xs \<Longrightarrow> lua_type (- 3) L = Some (Inr (value_tag z), L)"
  "0 < i \<Longrightarrow> i \<le> int (length (ls_stack L)) \<Longrightarrow> lua_type i L = Some (Inr (value_tag (from_base (ls_stack L) i)), L)"
  by (simp_all add: lua_type_def index_top index_base slot_value_def lret_def from_base_def)

lemma lua_stack_run [lua_simps]:
  "ls_stack L = x # xs \<Longrightarrow> lua_pop 1 L = Some (Inr (), L\<lparr> ls_stack := xs \<rparr>)"
  "ls_stack L = x # y # xs \<Longrightarrow> lua_pop 2 L = Some (Inr (), L\<lparr> ls_stack := xs \<rparr>)"
  "ls_stack L = x # xs \<Longrightarrow> lua_take L = Some (Inr x, L\<lparr> ls_stack := xs \<rparr>)"
  "ls_stack L = x # y # xs \<Longrightarrow> lua_remove (- 2) L = Some (Inr (), L\<lparr> ls_stack := x # xs \<rparr>)"
  "ls_stack L = x # y # xs \<Longrightarrow> lua_insert (- 2) L = Some (Inr (), L\<lparr> ls_stack := y # x # xs \<rparr>)"
  "ls_stack L = x # y # xs \<Longrightarrow> lua_replace (- 2) L = Some (Inr (), L\<lparr> ls_stack := x # xs \<rparr>)"
  "lua_pushvalue i L = (case lua_at i L of None \<Rightarrow> None | Some r \<Rightarrow> (case r of (Inl e, L) \<Rightarrow> Some (Inl e, L) | (Inr x, L) \<Rightarrow> lua_push x L))"
  by (simp_all add: lua_pop_def lua_settop_def lua_take_def lua_remove_def lua_insert_def lua_replace_def stkindex2adr_def index_top
      lret_def lua_pushvalue_def lbind_def nat_diff_distrib)

text \<open>A positive or a negative index of a value on the stack.\<close>

definition abs_idx :: "int \<Rightarrow> nat \<Rightarrow> int" where
  "abs_idx i n = (if i < 0 then i + int n + 1 else i)"

definition on_stack :: "int \<Rightarrow> lua_value list \<Rightarrow> bool" where
  "on_stack i xs \<longleftrightarrow> 0 < abs_idx i (length xs) \<and> abs_idx i (length xs) \<le> int (length xs)"

text \<open>What is at an absolute index is still there when values are pushed.\<close>

lemma on_stackD:
  "on_stack i xs \<Longrightarrow> 0 < abs_idx i (length xs)" "on_stack i xs \<Longrightarrow> abs_idx i (length xs) \<le> int (length xs)"
  by (simp_all add: on_stack_def)

subsection \<open>Tables as maps\<close>

text \<open>What the implementation of tables guarantees: a new object has an address of its own, and making a slot
  for a new key changes no entry.\<close>

definition tab_map :: "lua_slots \<Rightarrow> lua_value \<Rightarrow> lua_value option" where
  "tab_map slots k = (case map_of slots k of None \<Rightarrow> None | Some v \<Rightarrow> if v = VNil then None else Some v)"

definition tab_wf :: "lua_slots \<Rightarrow> bool" where
  "tab_wf slots \<longleftrightarrow> distinct (map fst slots) \<and> VNil \<notin> fst ` set slots \<and> VNum NaN \<notin> fst ` set slots"

definition newkey_ok :: "(lua_slots \<Rightarrow> lua_value \<Rightarrow> lua_slots) \<Rightarrow> bool" where
  "newkey_ok newkey \<longleftrightarrow> (\<forall>slots k. tab_wf slots \<longrightarrow> k \<notin> fst ` set slots \<longrightarrow> k \<noteq> VNil \<longrightarrow> k \<noteq> VNum NaN \<longrightarrow>
     tab_wf (newkey slots k) \<and> k \<in> fst ` set (newkey slots k) \<and> tab_map (newkey slots k) = tab_map slots)"

definition heap_finite :: "lua_state \<Rightarrow> bool" where
  "heap_finite L \<longleftrightarrow> finite (dom (ls_tables L)) \<and> finite (dom (ls_funcs L))"

definition lua_env_ok :: "lua_env \<Rightarrow> bool" where
  "lua_env_ok env \<longleftrightarrow> newkey_ok (le_newkey env)
     \<and> (\<forall>L. heap_finite L \<longrightarrow> ls_tables L (le_new env L) = None \<and> ls_funcs L (le_new env L) = None)
     \<and> (\<forall>i. \<bar>i\<bar> \<le> 2 ^ 53 \<longrightarrow> le_rnd env (of_int i) = of_int i)"

lemma lua_env_okD:
  assumes "lua_env_ok env"
  shows "heap_finite L \<Longrightarrow> ls_tables L (le_new env L) = None" "heap_finite L \<Longrightarrow> ls_funcs L (le_new env L) = None" "\<bar>i\<bar> \<le> 2 ^ 53 \<Longrightarrow> le_rnd env (of_int i) = of_int i"
    "tab_wf slots \<Longrightarrow> k \<notin> fst ` set slots \<Longrightarrow> k \<noteq> VNil \<Longrightarrow> k \<noteq> VNum NaN \<Longrightarrow>
      tab_wf (le_newkey env slots k) \<and> k \<in> fst ` set (le_newkey env slots k) \<and> tab_map (le_newkey env slots k) = tab_map slots"
  using assms unfolding lua_env_ok_def newkey_ok_def by blast+

lemma tab_get_map: "lj_tab_get slots k = (case tab_map slots k of None \<Rightarrow> VNil | Some v \<Rightarrow> v)"
  by (simp add: lj_tab_get_def tab_map_def split: option.split)

lemma tab_map_VNil [simp]: "tab_map slots k \<noteq> Some VNil"
  by (simp add: tab_map_def split: option.split)

lemma tab_map_Nil [simp]: "tab_map [] = Map.empty"
  by (simp add: tab_map_def fun_eq_iff)

lemma tab_wf_Nil [simp]: "tab_wf []"
  by (simp add: tab_wf_def)

lemma tab_store_simps [simp]:
  "lj_tab_store [] key v = []"
  "lj_tab_store (s # slots) key v = (fst s, if fst s = key then v else snd s) # lj_tab_store slots key v"
  by (simp_all add: lj_tab_store_def split: prod.split)

lemma tab_store_keys: "map fst (lj_tab_store slots key v) = map fst slots"
  by (induction slots) simp_all

lemma tab_store_map_of:
  "map_of (lj_tab_store slots key v) k = (if k = key \<and> key \<in> fst ` set slots then Some v else map_of slots k)"
proof (induction slots)
  case (Cons s slots)
  then show ?case by (cases s, cases "k = key", cases "key = fst s") (simp_all del: map_of_eq_None_iff)
qed simp

lemma tab_set_spec:
  assumes "lua_env_ok env" "tab_wf slots" "key \<noteq> VNil" "key \<noteq> VNum NaN"
  shows "tab_wf (lj_tab_set env slots key v)
    \<and> tab_map (lj_tab_set env slots key v) = (tab_map slots)(key := if v = VNil then None else Some v)"
proof -
  obtain sl where sl: "tab_wf sl" "key \<in> fst ` set sl" "tab_map sl = tab_map slots" "lj_tab_set env slots key v = lj_tab_store sl key v"
    using lua_env_okD(4) [OF assms(1,2) _ assms(3,4)] assms(2) by (cases "key \<in> fst ` set slots") (auto simp: lj_tab_set_def)
  have keys: "fst ` set (lj_tab_store sl key v) = fst ` set sl" using tab_store_keys [of sl key v] by (metis list.set_map)
  have "tab_map (lj_tab_store sl key v) k = ((tab_map slots)(key := if v = VNil then None else Some v)) k" for k
    using sl(2) by (auto simp: sl(3) [symmetric] tab_map_def tab_store_map_of)
  then have "tab_map (lj_tab_store sl key v) = (tab_map slots)(key := if v = VNil then None else Some v)" by (rule ext)
  then show ?thesis using sl(1) by (simp add: sl(4) tab_wf_def tab_store_keys keys)
qed

subsection \<open>Traversal\<close>

text \<open>The entries of a table in the order of traversal, and where a traversal stands: at a key (or, with
  \<open>nil\<close>, before the first) with these entries to come.\<close>

definition tab_entries :: "lua_slots \<Rightarrow> (lua_value \<times> lua_value) list" where
  "tab_entries slots = filter slot_live slots"

definition at_key :: "lua_slots \<Rightarrow> lua_value \<Rightarrow> (lua_value \<times> lua_value) list \<Rightarrow> bool" where
  "at_key slots key todo \<longleftrightarrow> tab_wf slots \<and> (\<exists>rest. todo = filter slot_live rest \<and>
     (key = VNil \<and> rest = slots \<or> (\<exists>pre v. slots = pre @ (key, v) # rest)))"

lemma at_key_start [simp]: "tab_wf slots \<Longrightarrow> at_key slots VNil (tab_entries slots)"
  by (auto simp: at_key_def tab_entries_def)

lemma find_filter: "find P xs = (case filter P xs of [] \<Rightarrow> None | x # _ \<Rightarrow> Some x)"
  by (induction xs) auto

lemma dropWhile_key: "distinct (map fst (pre @ (key, v) # rest)) \<Longrightarrow> dropWhile (\<lambda>s. fst s \<noteq> key) (pre @ (key, v) # rest) = (key, v) # rest"
  by (induction pre) (auto simp: rev_image_eqI)

lemma at_key_next:
  assumes "at_key slots key todo"
  shows "lj_tab_next slots key = Some (case todo of [] \<Rightarrow> None | s # _ \<Rightarrow> Some s)"
proof -
  from assms obtain rest where r: "tab_wf slots" "todo = filter slot_live rest"
    "key = VNil \<and> rest = slots \<or> (\<exists>pre v. slots = pre @ (key, v) # rest)" unfolding at_key_def by blast
  from r(3) show ?thesis
  proof
    assume "key = VNil \<and> rest = slots"
    then show ?thesis by (simp add: lj_tab_next_def find_filter r(2))
  next
    assume "\<exists>pre v. slots = pre @ (key, v) # rest"
    then obtain pre v where s: "slots = pre @ (key, v) # rest" by blast
    then have "key \<noteq> VNil" "key \<in> fst ` set slots" using r(1) by (auto simp: tab_wf_def)
    moreover have "dropWhile (\<lambda>s. fst s \<noteq> key) slots = (key, v) # rest"
      unfolding s by (rule dropWhile_key) (use r(1) in \<open>simp add: tab_wf_def s\<close>)
    ultimately show ?thesis by (simp add: lj_tab_next_def find_filter r(2))
  qed
qed

lemma at_key_step:
  assumes "at_key slots key ((k, v) # todo)"
  shows "at_key slots k todo"
proof -
  from assms obtain rest where r: "tab_wf slots" "(k, v) # todo = filter slot_live rest"
    "key = VNil \<and> rest = slots \<or> (\<exists>pre v. slots = pre @ (key, v) # rest)" unfolding at_key_def by blast
  from r(2) [symmetric] obtain us vs where "rest = us @ (k, v) # vs" "todo = filter slot_live vs"
    by (auto simp: filter_eq_Cons_iff)
  moreover from this r(3) have "\<exists>pre v. slots = pre @ (k, v) # vs" by (metis append.assoc append_Cons)
  ultimately show ?thesis using r(1) by (auto simp: at_key_def)
qed

lemma at_key_entries: "at_key slots key todo \<Longrightarrow> set todo \<subseteq> set (tab_entries slots)"
  by (auto simp: at_key_def tab_entries_def)

lemma tab_entries_map:
  assumes "tab_wf slots"
  shows "map_of (tab_entries slots) = tab_map slots" "distinct (map fst (tab_entries slots))"
proof -
  have "distinct (map fst slots)" using assms by (simp add: tab_wf_def)
  moreover from this have "map_of (filter slot_live slots) k = tab_map slots k" for k
  proof (induction slots)
    case (Cons s slots)
    then have "s = (k, VNil) \<Longrightarrow> map_of slots k = None" by (auto simp: map_of_eq_None_iff)
    with Cons show ?case by (cases s) (auto simp: tab_map_def slot_live_def)
  qed (simp add: tab_map_def)
  ultimately show "map_of (tab_entries slots) = tab_map slots" "distinct (map fst (tab_entries slots))"
    by (simp_all add: tab_entries_def fun_eq_iff distinct_map_filter)
qed

lemma lua_next_run [lua_simps]:
  assumes "ls_stack L = key # xs" "0 < idx" "idx \<le> int (length xs)" "from_base xs idx = VTable a" "ls_tables L a = Some t"
    "at_key (t_slots t) key todo"
  shows "lua_next env idx L = (case todo of
      [] \<Rightarrow> Some (Inr False, L\<lparr> ls_stack := xs \<rparr>)
    | (k, v) # _ \<Rightarrow> Some (Inr True, L\<lparr> ls_stack := v # k # xs \<rparr>))"
  using assms(1-5) at_key_next [OF assms(6)]
  by (cases todo) (auto simp: lua_next_def lua_raw_table_def lua_table_slots_def lua_simps)

subsection \<open>Running on tables and frames\<close>

text \<open>Updates of the stack come first.\<close>

lemma stack_first [simp]:
  "ls_stack_update f (ls_tables_update g L) = ls_tables_update g (ls_stack_update f L)"
  "ls_stack_update f (ls_funcs_update h L) = ls_funcs_update h (ls_stack_update f L)"
  "ls_stack_update f (ls_reports_update k L) = ls_reports_update k (ls_stack_update f L)"
  "ls_stack_update f (ls_upvalues_update u L) = ls_upvalues_update u (ls_stack_update f L)"
  by simp_all

lemma value_tag_simps [simp]:
  "value_tag VNil = LUA_TNIL" "value_tag (VBool b) = LUA_TBOOLEAN" "value_tag (VNum n) = LUA_TNUMBER" "value_tag (VStr s) = LUA_TSTRING"
  "value_tag (VLight p) = LUA_TLIGHTUSERDATA" "value_tag (VTable a) = LUA_TTABLE" "value_tag (VFunc a) = LUA_TFUNCTION"
  "value_tag (VUser a) = LUA_TUSERDATA" "value_tag (VCData a) = LUA_TCDATA" "value_tag (VThread a) = LUA_TTHREAD"
  by (simp_all add: value_tag_def)

lemma checktype_run [lua_simps]:
  assumes "0 < i" "i \<le> int (length (ls_stack L))"
  shows "luaL_checktype env i tt L = (if value_tag (from_base (ls_stack L) i) = tt then Some (Inr (), L)
    else Some (Inl (le_argerror env i (lua_typename tt) L), L))"
  using assms by (simp add: luaL_checktype_def lua_simps)

lemma table_write_run [lua_simps]:
  "ls_tables L a = Some t \<Longrightarrow> key \<noteq> VNil \<Longrightarrow> key \<noteq> VNum NaN \<Longrightarrow> lua_table_write env a key v L =
     Some (Inr (), L\<lparr> ls_tables := (ls_tables L)(a \<mapsto> t\<lparr> t_slots := lj_tab_set env (t_slots t) key v \<rparr>) \<rparr>)"
  by (simp add: lua_table_write_def lua_simps)

lemma raw_run [lua_simps]:
  "lua_rawseti env i n L = (case lua_raw_table i L of None \<Rightarrow> None | Some r \<Rightarrow> (case r of (Inl e, L) \<Rightarrow> Some (Inl e, L) | (Inr a, L) \<Rightarrow>
     lbind lua_take (\<lambda>v. lua_table_write env a (VNum (Fin (of_int n))) v) L))"
  "lua_raw_table i L = (case lua_at i L of None \<Rightarrow> None | Some r \<Rightarrow> (case r of (Inl e, L) \<Rightarrow> Some (Inl e, L) | (Inr v, L) \<Rightarrow>
     (case v of VTable a \<Rightarrow> Some (Inr a, L) | _ \<Rightarrow> None)))"
  by (simp_all add: lua_rawseti_def lua_raw_table_def lbind_def lret_def lundef_def split: option.split sum.split lua_value.split)

text \<open>A sequence of values written to a table under consecutive integers.\<close>

definition int_key :: "int \<Rightarrow> lua_value" where
  "int_key i = VNum (Fin (of_int i))"

lemma int_key_simps [simp]: "int_key i = int_key j \<longleftrightarrow> i = j" "int_key i \<noteq> VNil" "int_key i \<noteq> VNum NaN"
  by (simp_all add: int_key_def)

lemma int_key_simps2 [simp]: "VNil \<noteq> int_key i" "VNum NaN \<noteq> int_key i" by (metis int_key_simps(2), metis int_key_simps(3))

fun put_values :: "int \<Rightarrow> lua_value list \<Rightarrow> (lua_value \<Rightarrow> lua_value option) \<Rightarrow> lua_value \<Rightarrow> lua_value option" where
  "put_values i [] m = m"
| "put_values i (v # vs) m = put_values (i + 1) vs (m(int_key i := if v = VNil then None else Some v))"

lemma put_values_other: "k \<notin> int_key ` {i..<i + int (length vs)} \<Longrightarrow> put_values i vs m k = m k"
proof (induction vs arbitrary: i m)
  case (Cons v vs)
  then have "k \<noteq> int_key i" "k \<notin> int_key ` {i + 1..<i + 1 + int (length vs)}" by auto
  with Cons.IH show ?case by simp
qed simp

lemma put_values_nth: "j < length vs \<Longrightarrow> put_values i vs m (int_key (i + int j)) = (if vs ! j = VNil then None else Some (vs ! j))"
proof (induction vs arbitrary: i j m)
  case (Cons v vs)
  show ?case
  proof (cases j)
    case 0
    then show ?thesis by (simp add: put_values_other image_iff)
  next
    case (Suc j')
    then show ?thesis using Cons.IH [of j' "i + 1"] Cons.prems by (simp add: algebra_simps)
  qed
qed simp

lemma put_values_array:
  assumes "VNil \<notin> set vs"
  shows "\<forall>j < length vs. put_values i vs Map.empty (int_key (i + int j)) = Some (vs ! j)"
    "dom (put_values i vs Map.empty) = int_key ` {i..<i + int (length vs)}"
proof -
  show n: "\<forall>j < length vs. put_values i vs Map.empty (int_key (i + int j)) = Some (vs ! j)"
    using assms by (metis nth_mem put_values_nth)
  have "int_key k \<in> dom (put_values i vs Map.empty)" if "k \<in> {i..<i + int (length vs)}" for k
  proof -
    have "nat (k - i) < length vs" "i + int (nat (k - i)) = k" using that by auto
    with n show ?thesis by (metis domI)
  qed
  moreover have "k \<in> int_key ` {i..<i + int (length vs)}" if "k \<in> dom (put_values i vs Map.empty)" for k
    by (rule ccontr) (use that put_values_other [of k i vs Map.empty] in \<open>simp add: dom_def\<close>)
  ultimately show "dom (put_values i vs Map.empty) = int_key ` {i..<i + int (length vs)}" by blast
qed

lemma raw_run2 [lua_simps]:
  "lua_rawset env i L = (case lua_raw_table i L of None \<Rightarrow> None | Some r \<Rightarrow> (case r of (Inl e, L) \<Rightarrow> Some (Inl e, L) | (Inr a, L) \<Rightarrow>
     lbind lua_take (\<lambda>v. lbind lua_take (\<lambda>key. lua_table_write env a key v)) L))"
  "lua_rawget i L = (case lua_raw_table i L of None \<Rightarrow> None | Some r \<Rightarrow> (case r of (Inl e, L) \<Rightarrow> Some (Inl e, L) | (Inr a, L) \<Rightarrow>
     lbind lua_take (\<lambda>key. lbind (lua_table_slots a) (\<lambda>slots. lua_push (lj_tab_get slots key))) L))"
  "lua_rawgeti i n L = (case lua_raw_table i L of None \<Rightarrow> None | Some r \<Rightarrow> (case r of (Inl e, L) \<Rightarrow> Some (Inl e, L) | (Inr a, L) \<Rightarrow>
     lbind (lua_table_slots a) (\<lambda>slots. lua_push (lj_tab_get slots (VNum (Fin (of_int n))))) L))"
  "ls_tables L a = Some t \<Longrightarrow> lua_table_slots a L = Some (Inr (t_slots t), L)"
  "ls_tables L a = Some t \<Longrightarrow> lua_table_at a L = Some (Inr t, L)"
  by (simp_all add: lua_rawset_def lua_rawget_def lua_rawgeti_def lua_table_slots_def lua_table_at_def lbind_def lret_def split: option.split sum.split)

text \<open>Indexing a table that has no metatable is raw.\<close>

lemma meta_run [lua_simps]:
  "ls_tables L a = Some t \<Longrightarrow> t_meta t = None \<Longrightarrow> lj_meta_tget env (VTable a) key L = Some (Inr (lj_tab_get (t_slots t) key), L)"
  "ls_tables L a = Some t \<Longrightarrow> t_meta t = None \<Longrightarrow> lj_meta_tset env (VTable a) key v L = lua_table_write env a key v L"
  by (simp_all add: lj_meta_tget_def lj_meta_tset_def lua_simps Let_def)

lemma field_run [lua_simps]:
  "lua_getfield env i k L = lbind (lua_valid_at i) (\<lambda>t. lbind (lj_meta_tget env t (VStr k)) lua_push) L"
  "lua_setfield env i k L = lbind (lua_valid_at i) (\<lambda>t. lbind lua_take (\<lambda>v. lj_meta_tset env t (VStr k) v)) L"
  "lua_settable env i L = lbind (lua_valid_at i) (\<lambda>t. lbind lua_take (\<lambda>v. lbind lua_take (\<lambda>key. lj_meta_tset env t key v))) L"
  by (simp_all add: lua_getfield_def lua_setfield_def lua_settable_def)

lemma pushinteger_run [lua_simps]:
  "lua_env_ok env \<Longrightarrow> \<bar>i\<bar> \<le> 2 ^ 53 \<Longrightarrow> lua_pushinteger env i L = Some (Inr (), L\<lparr> ls_stack := int_key i # ls_stack L \<rparr>)"
  by (simp add: lua_pushinteger_def lua_env_okD(3) int_key_def lua_simps)

lemma int32_id: "- (2 ^ 31) \<le> i \<Longrightarrow> i < 2 ^ 31 \<Longrightarrow> int32 i = i"
  by (simp add: int32_def sint_sbintrunc' signed_take_bit_int_eq_self)

lemma truncate_int [simp]: "truncate_rat (of_int i) = i"
  by (simp add: truncate_rat_def)

lemma abs_idx_pos [simp]: "0 < i \<Longrightarrow> abs_idx i n = i"
  by (simp add: abs_idx_def)

lemma same_tables: "ls_tables L b = Some t \<Longrightarrow> ls_tables_update (\<lambda>_. (ls_tables L)(b \<mapsto> t)) L = L"
  by (cases L) (simp add: fun_upd_idem)

lemma from_base_append [simp]: "0 < i \<Longrightarrow> i \<le> int (length xs) \<Longrightarrow> from_base (ys @ xs) i = from_base xs i"
  by (induction ys) simp_all

lemma value_tag_eq [simp]:
  "(value_tag v = LUA_TNIL) = (v = VNil)" "(value_tag v = LUA_TTABLE) = (\<exists>a. v = VTable a)" "(value_tag v = LUA_TFUNCTION) = (\<exists>a. v = VFunc a)"
  "value_tag v \<noteq> LUA_TNONE"
  by (cases v; simp)+

lemma stack_reset: "ls_stack L = xs \<Longrightarrow> L\<lparr> ls_stack := xs \<rparr> = L"
  by (cases L) simp

text \<open>The call of a C function: it gets a frame of its own and returns the values on top.\<close>

definition run_cfunction :: "int lua \<Rightarrow> lua_value list \<Rightarrow> lua_value list \<Rightarrow> lua_value list lua" where
  "run_cfunction body ups args = (\<lambda>L. lbind body (\<lambda>n L. lret (rev (take (nat n) (ls_stack L))) L) (L\<lparr> ls_stack := rev args, ls_upvalues := ups \<rparr>))"

lemma insert_frame:
  assumes "ls_stack L = v # ys @ zs" "i = int (length zs) + 1"
  shows "lua_insert i L = Some (Inr (), L\<lparr> ls_stack := ys @ v # zs \<rparr>)"
  using assms by (simp add: lua_insert_def stkindex2adr_def lret_def nat_add_distrib)

lemma remove_frame:
  assumes "ls_stack L = ys @ v # zs" "i = int (length zs) + 1"
  shows "lua_remove i L = Some (Inr (), L\<lparr> ls_stack := ys @ zs \<rparr>)"
  using assms by (simp add: lua_remove_def stkindex2adr_def lret_def nat_add_distrib)

definition tab_of :: "lua_state \<Rightarrow> nat \<Rightarrow> lua_value \<Rightarrow> lua_value option" where
  "tab_of L a = tab_map (t_slots (the (ls_tables L a)))"

text \<open>A table without metatable.\<close>

definition raw_at :: "lua_state \<Rightarrow> nat \<Rightarrow> bool" where
  "raw_at L a \<longleftrightarrow> (\<exists>t. ls_tables L a = Some t \<and> t_meta t = None \<and> tab_wf (t_slots t))"

lemma raw_get_run:
  "raw_at L a \<Longrightarrow> lj_meta_tget env (VTable a) key L = Some (Inr (case tab_of L a key of None \<Rightarrow> VNil | Some v \<Rightarrow> v), L)"
  by (auto simp: raw_at_def tab_of_def lua_simps tab_get_map)

text \<open>Writing to such a table: it is the only one that changes.\<close>

lemma raw_set_run:
  assumes "lua_env_ok env" "raw_at L a" "key \<noteq> VNil" "key \<noteq> VNum NaN" "v \<noteq> VNil"
  shows "\<exists>T. lj_meta_tset env (VTable a) key v L = Some (Inr (), L\<lparr> ls_tables := T \<rparr>)
    \<and> (\<forall>L'. ls_tables L' = T \<longrightarrow> tab_of L' a = (tab_of L a)(key \<mapsto> v) \<and> raw_at L' a)
    \<and> (\<forall>c. c \<noteq> a \<longrightarrow> T c = ls_tables L c)"
proof -
  from assms(2) obtain t where t: "ls_tables L a = Some t" "t_meta t = None" "tab_wf (t_slots t)" unfolding raw_at_def by blast
  let ?sl = "lj_tab_set env (t_slots t) key v"
  have sp: "tab_wf ?sl" "tab_map ?sl = (tab_map (t_slots t))(key \<mapsto> v)" using tab_set_spec [OF assms(1) t(3) assms(3,4), of v] assms(5) by simp_all
  have "lj_meta_tset env (VTable a) key v L = Some (Inr (), L\<lparr> ls_tables := (ls_tables L)(a \<mapsto> t\<lparr> t_slots := ?sl \<rparr>) \<rparr>)"
    using t(1,2) assms(3,4) by (simp add: lua_simps)
  then show ?thesis using t sp by (intro exI [of _ "(ls_tables L)(a \<mapsto> t\<lparr> t_slots := ?sl \<rparr>)"]) (simp add: tab_of_def raw_at_def)
qed

subsection \<open>An instance of the parameters\<close>

text \<open>An implementation that puts new keys last and has no metamethods, conversions and chunks; its functions
  tell whether an argument is a string.\<close>

definition plain_lua :: lua_env where
  "plain_lua = \<lparr> le_new = (\<lambda>L. LEAST a. ls_tables L a = None \<and> ls_funcs L a = None),
     le_newkey = (\<lambda>slots k. slots @ [(k, VNil)]), le_len = length, le_scan = (\<lambda>_. None), le_show = (\<lambda>_. []),
     le_rnd = (\<lambda>q. q), le_string = (\<lambda>_. 4096), le_user = (\<lambda>a. a), le_userlen = (\<lambda>_. 0), le_cdata = (\<lambda>a. a), le_self = 64,
     le_call = (\<lambda>f args. lret [VBool (list_ex (\<lambda>v. value_tag v = LUA_TSTRING) args)]),
     le_index = (\<lambda>ob key. lundef), le_newindex = (\<lambda>ob key v. lundef), le_equal = (\<lambda>v w. lundef), le_concat = (\<lambda>vs. lundef),
     le_where = (\<lambda>L. []), le_load = (\<lambda>text name. lundef), le_argerror = (\<lambda>i msg L. VStr (c_str msg)) \<rparr>"

lemma plain_lua_ok: "lua_env_ok plain_lua"
proof -
  have "ls_tables L (le_new plain_lua L) = None \<and> ls_funcs L (le_new plain_lua L) = None" if "heap_finite L" for L
  proof -
    have "finite (dom (ls_tables L) \<union> dom (ls_funcs L))" using that by (simp add: heap_finite_def)
    then obtain a where "a \<notin> dom (ls_tables L) \<union> dom (ls_funcs L)" using ex_new_if_finite infinite_UNIV_nat by blast
    then have "ls_tables L a = None \<and> ls_funcs L a = None" by blast
    then show ?thesis unfolding plain_lua_def by (simp, rule LeastI [where P = "\<lambda>a. ls_tables L a = None \<and> ls_funcs L a = None"])
  qed
  moreover have "tab_map (slots @ [(k, VNil)]) = tab_map slots" for slots k
    by (auto simp: tab_map_def fun_eq_iff map_add_def split: option.split)
  ultimately show ?thesis by (auto simp: lua_env_ok_def newkey_ok_def tab_wf_def plain_lua_def)
qed

text \<open>A state with the globals \<^verbatim>\<open>package\<close> and \<^verbatim>\<open>work\<close>, and the table \<^verbatim>\<open>package.loaded\<close>.\<close>

definition some_table :: "lua_slots \<Rightarrow> lua_table" where
  "some_table slots = \<lparr> t_slots = slots, t_meta = None \<rparr>"

definition sample_state :: "lua_value list \<Rightarrow> lua_slots \<Rightarrow> lua_state" where
  "sample_state xs slots = \<lparr> ls_stack = xs, ls_upvalues = [], ls_globals = 1, ls_registry = 2,
     ls_tables = [1 \<mapsto> some_table [(VStr (c_str ''package''), VTable 3), (VStr (c_str ''work''), VFunc 9)], 2 \<mapsto> some_table [],
       3 \<mapsto> some_table [(VStr (c_str ''loaded''), VTable 4)], 4 \<mapsto> some_table [], 5 \<mapsto> some_table slots],
     ls_funcs = [9 \<mapsto> LuaClosure], ls_reports = [] \<rparr>"

lemma sample_finite: "heap_finite (sample_state xs slots)"
  by (simp add: heap_finite_def sample_state_def)

lemma sample_from_base [simp]: "from_base [x] 1 = x" "from_base [x, y] 1 = y" "from_base [x, y] 2 = x"
  "from_base [x, y, z] 1 = z" "from_base [x, y, z] 2 = y" "from_base [x, y, z] 3 = x"
  by (simp_all add: from_base_def)

end
