(* ===== verification/LuaUtils.thy ===== *)
theory LuaUtils
  imports LuaState Utils
begin

text \<open>
  The helper functions for Lua of \<^verbatim>\<open>core/luautils.c\<close> (and the macros of \<^verbatim>\<open>luahelpers.h\<close>) that look up and call
  functions, convert numbers, pointers and strings, and set up modules. A report is a message the program
  logs with \<^verbatim>\<open>error\<close>, \<^verbatim>\<open>warn\<close> or \<^verbatim>\<open>debug\<close>. A pointer is its address, 0 for \<^verbatim>\<open>NULL\<close>.
\<close>

subsection \<open>Indices and reports\<close>

definition LUA_CHECKIDX :: "lua_env \<Rightarrow> string \<Rightarrow> int \<Rightarrow> unit lua" where
  "LUA_CHECKIDX env func idx =
     (if idx = 0
      then luaL_error env (c_str ''%s() Lua state %p, error: zero is not an acceptable stack index!'')
        [FStr (Some (c_str func)), FPtr (le_self env)]
      else lret ())"

definition LUA_ABSIDX :: "int \<Rightarrow> int lua" where
  "LUA_ABSIDX idx = (if idx < 0 then lbind lua_gettop (\<lambda>top. lret (idx + top + 1)) else lret idx)"

definition LUA_CHKABSIDX :: "lua_env \<Rightarrow> string \<Rightarrow> int \<Rightarrow> int lua" where
  "LUA_CHKABSIDX env func idx = lthen (LUA_CHECKIDX env func idx) (LUA_ABSIDX idx)"

text \<open>A message without arguments is itself the format: a per cent sign that is not doubled asks for an
  argument that is not there.\<close>

fun plain_format :: "bytes \<Rightarrow> bytes option" where
  "plain_format [] = Some []"
| "plain_format [c] = (if c = 37 then None else Some [c])"
| "plain_format (c # d # s) =
     (if c \<noteq> 37 then map_option ((#) c) (plain_format (d # s))
      else if d = 37 then map_option ((#) 37) (plain_format s) else None)"

definition lua_report :: "bytes \<Rightarrow> unit lua" where
  "lua_report msg = (\<lambda>L. lret () (L\<lparr> ls_reports := ls_reports L @ [msg] \<rparr>))"

definition lua_report_format :: "bytes \<Rightarrow> unit lua" where
  "lua_report_format fmt = (case plain_format fmt of None \<Rightarrow> lundef | Some msg \<Rightarrow> lua_report msg)"

definition quoted :: "bytes \<Rightarrow> bytes" where
  "quoted s = [39] @ s @ [39]"

text \<open>\<^verbatim>\<open>%p\<close> of the C library on Linux.\<close>

fun hex_digits :: "nat \<Rightarrow> bytes" where
  "hex_digits n = (if n < 16 then [hex_char n] else hex_digits (n div 16) @ [hex_char (n mod 16)])"

declare hex_digits.simps [simp del]

definition printf_pointer :: "nat \<Rightarrow> bytes" where
  "printf_pointer p = (if p = 0 then c_str ''(nil)'' else c_str ''0x'' @ hex_digits p)"

subsection \<open>Functions\<close>

text \<open>What happens when a function is not found: a Lua error or a report, with the message as format.\<close>

definition getfunction_failed :: "lua_env \<Rightarrow> bool \<Rightarrow> bytes \<Rightarrow> int \<Rightarrow> bool lua" where
  "getfunction_failed env propagate msg n =
     (let err = snprintf_s 256 msg
      in lthen (if propagate then luaL_error env err [] else lua_report_format err)
        (lthen (lua_pop n) (lret False)))"

definition luautils_getfunction :: "lua_env \<Rightarrow> bytes option \<Rightarrow> bytes \<Rightarrow> bool \<Rightarrow> bool lua" where
  "luautils_getfunction env modname function propagate = (case modname of
     Some modname \<Rightarrow>
       lthen (lua_getglobal env modname) (
       lbind (lua_type (- 1)) (\<lambda>t.
       if t \<noteq> LUA_TTABLE
       then getfunction_failed env propagate (c_str ''luautils_getfunction() module '' @ quoted modname @ c_str '' not found'') 1
       else lthen (lua_getfield env (- 1) function) (
         lbind (lua_type (- 1)) (\<lambda>t.
         if t \<noteq> LUA_TFUNCTION
         then getfunction_failed env propagate
           (c_str ''luautils_getfunction() function '' @ quoted (modname @ [46] @ function) @ c_str '' not found'') 2
         else lthen (lua_remove (- 2)) (lret True)))))
   | None \<Rightarrow>
       lthen (lua_getglobal env function) (
       lbind (lua_type (- 1)) (\<lambda>t.
       if t \<noteq> LUA_TFUNCTION
       then getfunction_failed env propagate
         (c_str ''luautils_getfunction() global function '' @ quoted function @ c_str '' not found'') 1
       else lret True)))"

definition luautils_getfuncref :: "lua_env \<Rightarrow> bytes option \<Rightarrow> bytes \<Rightarrow> int lua" where
  "luautils_getfuncref env modname function =
     lbind (luautils_getfunction env modname function False) (\<lambda>found.
     if found then luaL_ref env LUA_REGISTRYINDEX else lret LUA_NOREF)"

text \<open>Without an exception handler (there is none on Linux) the guarded call is the protected call.\<close>

definition lua_guarded_pcall :: "lua_env \<Rightarrow> int \<Rightarrow> int \<Rightarrow> int \<Rightarrow> int lua" where
  "lua_guarded_pcall env nargs nresults errfunc = lua_pcall env nargs nresults errfunc"

definition cpcall_errfunc :: "lua_env \<Rightarrow> int lua" where
  "cpcall_errfunc env =
     lthen (lua_pushvalue (lua_upvalueindex 1)) (
     lthen (lua_pushlstring (c_str ''() error: '')) (
     lthen (lua_pushvalue 1) (
     lthen (lua_concat env 3) (
     lret 1))))"

definition luautils_cpcall :: "lua_env \<Rightarrow> string \<Rightarrow> bytes \<Rightarrow> int \<Rightarrow> bool lua" where
  "luautils_cpcall env func fname nargs =
     lthen (lua_pushstring (Some fname)) (
     lthen (lua_pushcclosure env ''cpcall_errfunc'' 1) (
     lbind lua_gettop (\<lambda>top. let errfunc = top - nargs in
     if errfunc \<le> 0
     then luaL_error env (c_str ''%s(%p,'' @ quoted (c_str ''%s'') @ c_str '',%d) invalid stack index for error handler, check your nargs'')
       [FStr (Some (c_str ''luautils_cpcall'')), FPtr (le_self env), FStr (Some fname), FInt nargs]
     else
       lthen (lua_insert errfunc) (
       lthen (lua_pushcfunction env func) (
       lthen (lua_insert (errfunc + 1)) (
       lbind (lua_guarded_pcall env nargs (- 1) errfunc) (\<lambda>result.
       if result \<noteq> 0
       then lbind (lua_tostring env (- 1)) (\<lambda>msg. case msg of
           None \<Rightarrow> lundef
         | Some msg \<Rightarrow>
             lthen (lua_report (c_str ''luautils_cpcall() intercepted Lua error '' @ lj_str_bufint result @ c_str '', '' @ quoted msg))
               (lret True))
       else lthen (lua_remove errfunc) (lret False))))))))"

text \<open>\<^verbatim>\<open>luaL_dostring\<close> is \<^verbatim>\<open>luaL_loadstring\<close> followed by a protected call if it succeeds.\<close>

definition luaL_loadbuffer :: "lua_env \<Rightarrow> bytes \<Rightarrow> bytes \<Rightarrow> int lua" where
  "luaL_loadbuffer env text name = lbind (le_load env text name) (\<lambda>(status, v). lthen (lua_push v) (lret status))"

definition luautils_dostring :: "lua_env \<Rightarrow> bytes \<Rightarrow> bool lua" where
  "luautils_dostring env str =
     lbind (luaL_loadbuffer env str str) (\<lambda>status.
     lbind (if status \<noteq> 0 then lret status else lua_pcall env 0 (- 1) 0) (\<lambda>status.
     if status = 0 then lret True
     else lbind (lua_tostring env (- 1)) (\<lambda>msg. case msg of
         None \<Rightarrow> lundef
       | Some msg \<Rightarrow> lthen (lua_report (c_str ''luautils_dostring('' @ printf_pointer (le_self env) @ c_str '', '' @ str @ c_str '') error: '' @ msg))
           (lret False))))"

subsection \<open>Numbers and pointers\<close>

definition number_greater :: "lua_number \<Rightarrow> rat \<Rightarrow> bool" where
  "number_greater n q = (case n of Fin x \<Rightarrow> q < x | Inf pos \<Rightarrow> pos | NaN \<Rightarrow> False)"

definition number_minus :: "lua_env \<Rightarrow> lua_number \<Rightarrow> rat \<Rightarrow> lua_number" where
  "number_minus env n q = (case n of Fin x \<Rightarrow> Fin (le_rnd env (x - q)) | _ \<Rightarrow> n)"

definition luautils_toint32 :: "lua_env \<Rightarrow> int \<Rightarrow> int lua" where
  "luautils_toint32 env idx = lbind (lua_tonumber env idx) (\<lambda>n.
     let n = (if number_greater n 2147483647 then number_minus env n 4294967296 else n)
     in case double_to_int 32 n of None \<Rightarrow> lundef | Some i \<Rightarrow> lret i)"

definition double_to_uint :: "nat \<Rightarrow> lua_number \<Rightarrow> int option" where
  "double_to_uint bits n = (case n of
     Fin q \<Rightarrow> let i = truncate_rat q in if 0 \<le> i \<and> i < 2 ^ bits then Some i else None
   | _ \<Rightarrow> None)"

definition luautils_asuint32 :: "lua_env \<Rightarrow> int \<Rightarrow> int lua" where
  "luautils_asuint32 env idx = lbind (lua_tonumber env idx) (\<lambda>n.
     case double_to_uint 32 n of None \<Rightarrow> lundef | Some i \<Rightarrow> lret i)"

definition luautils_stackclean :: "int \<Rightarrow> unit lua" where
  "luautils_stackclean basepointer = (if 0 \<le> basepointer then lua_settop basepointer else lret ())"

definition luautils_pushptr :: "lua_env \<Rightarrow> nat \<Rightarrow> unit lua" where
  "luautils_pushptr env ptr = (if ptr \<noteq> 0 then lua_pushlightuserdata env ptr else lua_pushnil)"

text \<open>A number as \<^verbatim>\<open>uintptr_t\<close>, and pushed as a double.\<close>

definition uintptr :: "int \<Rightarrow> int" where
  "uintptr i = i mod 2 ^ 64"

definition luautils_pushptrnum :: "lua_env \<Rightarrow> int \<Rightarrow> unit lua" where
  "luautils_pushptrnum env i = lua_pushnumber (Fin (le_rnd env (of_int (uintptr i))))"

text \<open>The bytes of a wide string with its terminator, where \<^verbatim>\<open>wchar_t\<close> has 32 bits.\<close>

definition wide_bytes :: "u32 list \<Rightarrow> bytes" where
  "wide_bytes s = concat (map (\<lambda>c. [ucast c, ucast (drop_bit 8 c), ucast (drop_bit 16 c), ucast (drop_bit 24 c)]) (s @ [0]))"

definition luautils_pushwstring :: "lua_env \<Rightarrow> u32 list option \<Rightarrow> int \<Rightarrow> unit lua" where
  "luautils_pushwstring env s len = (case s of
     None \<Rightarrow> lua_pushnil
   | Some s \<Rightarrow> let len = (if len < 0 then int (strlen s) else len)
       in if 0 < len
          then lthen (luautils_getfunction env None (c_str ''wchar2char'') True) (
            lthen (if nat (len + len) \<le> length (wide_bytes s) then lua_pushlstring (take (nat (len + len)) (wide_bytes s)) else lundef)
              (lua_call env 1 1))
          else lua_pushlstring [])"

text \<open>The pointer a value stands for, if any; an integer is sign-extended.\<close>

definition luautils_isptr :: "lua_env \<Rightarrow> int \<Rightarrow> nat option lua" where
  "luautils_isptr env idx =
     lthen (LUA_CHECKIDX env ''luautils_isptr'' idx) (
     lbind (lua_type idx) (\<lambda>t. case t of
       LUA_TNUMBER \<Rightarrow> lbind (luautils_toint32 env idx) (\<lambda>i. lret (Some (nat (uintptr i))))
     | LUA_TUSERDATA \<Rightarrow> lbind (lua_touserdata env idx) (\<lambda>p. lret (Some p))
     | LUA_TLIGHTUSERDATA \<Rightarrow> lbind (lua_touserdata env idx) (\<lambda>p. lret (Some p))
     | LUA_TSTRING \<Rightarrow> lbind (lua_tolstring env idx) (\<lambda>s. lret (map_option (le_string env) s))
     | LUA_TCDATA \<Rightarrow> lbind (lua_topointer env idx) (\<lambda>p. lret (Some p))
     | LUA_TFUNCTION \<Rightarrow> lbind (lua_topointer env idx) (\<lambda>p. lret (Some p))
     | _ \<Rightarrow> lret None))"

definition luautils_toptr :: "lua_env \<Rightarrow> int \<Rightarrow> nat lua" where
  "luautils_toptr env idx =
     lthen (LUA_CHECKIDX env ''luautils_toptr'' idx) (
     lbind (luautils_isptr env idx) (\<lambda>result. case result of
       Some p \<Rightarrow> lret p
     | None \<Rightarrow> lua_topointer env idx))"

definition luautils_checkptr :: "lua_env \<Rightarrow> int \<Rightarrow> nat lua" where
  "luautils_checkptr env idx =
     lthen (LUA_CHECKIDX env ''luautils_checkptr'' idx) (
     lbind (luautils_isptr env idx) (\<lambda>result. case result of
       Some p \<Rightarrow> lret p
     | None \<Rightarrow> lbind (lua_type idx) (\<lambda>t.
         luaL_error env (c_str ''Supplied argument type '' @ quoted (c_str ''%s'') @ c_str '' was not convertible to a C pointer'')
           [FStr (Some (c_str (lua_typename t)))])))"

definition luautils_tocpu :: "lua_env \<Rightarrow> int \<Rightarrow> nat lua" where
  "luautils_tocpu env idx =
     lthen (LUA_CHECKIDX env ''luautils_tocpu'' idx) (
     lbind (lua_type idx) (\<lambda>t. case t of
       LUA_TBOOLEAN \<Rightarrow> lbind (lua_toboolean idx) (\<lambda>b. lret (of_bool b))
     | LUA_TSTRING \<Rightarrow> lbind (lua_tolstring env idx) (\<lambda>s. lret (case s of None \<Rightarrow> 0 | Some s \<Rightarrow> le_string env s))
     | _ \<Rightarrow> luautils_toptr env idx))"

text \<open>The address and the length of a buffer; without a place for the length there is no address.\<close>

definition lua_getBuffer :: "lua_env \<Rightarrow> int \<Rightarrow> bool \<Rightarrow> (nat \<times> nat option) lua" where
  "lua_getBuffer env idx len =
     lthen (LUA_CHECKIDX env ''lua_getBuffer'' idx) (
     if \<not> len then lthen (lua_report (c_str ''lua_getBuffer(): you must pass a len pointer!'')) (lret (0, None))
     else lbind (lua_isnumber env (idx + 1)) (\<lambda>num.
       if \<not> num
       then lbind (lua_tolstring env idx) (\<lambda>s. lret (case s of None \<Rightarrow> (0, Some 0) | Some s \<Rightarrow> (le_string env s, Some (length s))))
       else lbind (lua_tointeger env (idx + 1)) (\<lambda>n.
         lbind (luautils_checkptr env idx) (\<lambda>p. lret (p, Some (nat (uintptr n)))))))"

definition luautils_ptrtonumber :: "lua_env \<Rightarrow> int \<Rightarrow> int \<Rightarrow> bool \<Rightarrow> unit lua" where
  "luautils_ptrtonumber env idx ofs nil_is_zero =
     lbind (lua_type idx) (\<lambda>t.
       if t = LUA_TNIL \<or> t = LUA_TNONE then (if nil_is_zero then lua_pushinteger env 0 else lua_pushnil)
       else if t = LUA_TNUMBER
       then lbind (luautils_toint32 env idx) (\<lambda>result.
         luautils_pushptrnum env (if result \<noteq> 0 then result + ofs else result))
       else lbind (luautils_isptr env idx) (\<lambda>result. case result of
         Some p \<Rightarrow>
           if p = 0 then (if nil_is_zero then lua_pushinteger env 0 else lua_pushnil)
           else luautils_pushptrnum env (int p + ofs)
       | None \<Rightarrow> luaL_error env (c_str ''ptr value of type '' @ quoted (c_str ''%s'') @ c_str '' not convertible to a number'')
           [FStr (Some (c_str (lua_typename t)))]))"

text \<open>\<open>printf_ptr\<close> is \<^verbatim>\<open>snprintf\<close> of a pointer with a format.\<close>

definition luautils_ptrtostring :: "lua_env \<Rightarrow> (bytes \<Rightarrow> nat \<Rightarrow> bytes) \<Rightarrow> int \<Rightarrow> int \<Rightarrow> unit lua" where
  "luautils_ptrtostring env printf_ptr idx format =
     lbind (if format \<noteq> 0 then lua_tostring env format else lret None) (\<lambda>fmt.
     lbind (lua_isnoneornil idx) (\<lambda>none.
     lbind (if none then lret 0
            else lbind (luautils_isptr env idx) (\<lambda>result. case result of
                Some p \<Rightarrow> lret p
              | None \<Rightarrow> luaL_error env (c_str ''ptr value not convertible to a string'') [])) (\<lambda>p.
     if p \<noteq> 0 \<or> fmt \<noteq> None
     then lua_pushstring (Some (snprintf_s 20 (printf_ptr (case fmt of None \<Rightarrow> c_str ''%p'' | Some f \<Rightarrow> f) p)))
     else lua_pushlstring (c_str ''<NULL>''))))"

definition luautils_equal :: "lua_env \<Rightarrow> int \<Rightarrow> int \<Rightarrow> bool lua" where
  "luautils_equal env index1 index2 =
     lbind (lua_type index1) (\<lambda>t1. lbind (lua_type index2) (\<lambda>t2.
     if t1 \<noteq> LUA_TCDATA \<and> t2 \<noteq> LUA_TCDATA then lua_equal env index1 index2
     else if t1 = LUA_TNONE \<or> t1 = LUA_TNIL then lret False
     else if t2 = LUA_TNONE \<or> t2 = LUA_TNIL then lret False
     else lbind (luautils_checkptr env index1) (\<lambda>ptr1.
       lbind (luautils_checkptr env index2) (\<lambda>ptr2. lret (ptr1 = ptr2)))))"

definition luautils_isEmpty :: "lua_env \<Rightarrow> int \<Rightarrow> bool lua" where
  "luautils_isEmpty env idx =
     lthen (LUA_CHECKIDX env ''luautils_isEmpty'' idx) (
     lbind (lua_isnoneornil idx) (\<lambda>none.
     if none then lret True
     else lbind (lua_type idx) (\<lambda>t. case t of
         LUA_TSTRING \<Rightarrow> lbind (lua_objlen env idx) (\<lambda>n. lret (n = 0))
       | LUA_TTABLE \<Rightarrow>
           lbind (LUA_ABSIDX idx) (\<lambda>idx.
           lthen lua_pushnil (
           lbind (lua_next env idx) (\<lambda>more.
           if more then lthen (lua_pop 2) (lret False) else lret True)))
       | LUA_TLIGHTUSERDATA \<Rightarrow> lbind (lua_touserdata env idx) (\<lambda>p. lret (p = 0))
       | LUA_TUSERDATA \<Rightarrow> lbind (lua_touserdata env idx) (\<lambda>p. lret (p = 0))
       | LUA_TCDATA \<Rightarrow> lbind (lua_topointer env idx) (\<lambda>p. lret (p = 0))
       | _ \<Rightarrow> lret False)))"

subsection \<open>Scripts and modules\<close>

text \<open>\<open>pwd\<close> is the directory of the library.\<close>

definition luautils_dofile :: "lua_env \<Rightarrow> bytes option \<Rightarrow> bytes \<Rightarrow> bool \<Rightarrow> int lua" where
  "luautils_dofile env pwd filename stacktrace =
     lbind (if stacktrace then lthen (lua_pushcfunction env ''luaStackTrace_C'') lua_gettop else lret 0) (\<lambda>error_handler.
     lthen (lua_pushcfunction env ''symbol_dofile_C'') (
     lthen (lua_pushstring pwd) (
     lthen (lua_pushstring (Some filename)) (
     lthen (lua_concat env 2) (
     lbind (lua_pcall env 1 (- 1) error_handler) (\<lambda>status.
     lthen (if stacktrace then lua_remove error_handler else lret ()) (
     lret status)))))))"

definition libopen :: "lua_env \<Rightarrow> string \<Rightarrow> bytes \<Rightarrow> int \<Rightarrow> int \<Rightarrow> unit lua" where
  "libopen env func fname expect_args pop_args =
     lbind lua_gettop (\<lambda>top.
     lbind (luautils_cpcall env func fname 0) (\<lambda>failed.
     if failed then lua_error
     else lbind lua_gettop (\<lambda>now.
       lthen (if 0 \<le> expect_args \<and> now \<noteq> top + expect_args
              then luaL_error env (c_str ''%s('' @ quoted (c_str ''%s'') @ c_str '') stack misaligned: expected %d, got %d'')
                [FStr (Some (c_str ''libopen'')), FStr (Some fname), FInt (top + expect_args), FInt now]
              else lret ())
         (if 0 < pop_args then luautils_stackclean (now - pop_args) else lret ()))))"

definition luautils_require :: "lua_env \<Rightarrow> bytes \<Rightarrow> bool lua" where
  "luautils_require env module_name =
     lbind (luautils_getfunction env None (c_str ''require'') False) (\<lambda>found.
     if found
     then lthen (lua_pushstring (Some module_name)) (
       lbind (lua_pcall env 1 1 0) (\<lambda>status.
       if status = 0 then lret True
       else lbind (lua_tostring env (- 1)) (\<lambda>msg. case msg of
           None \<Rightarrow> lundef
         | Some msg \<Rightarrow> lthen (lua_report (c_str ''luautils_require('' @ printf_pointer (le_self env) @ [44] @ quoted module_name @ c_str '') error: '' @ msg))
             (lret False))))
     else lthen (lua_report (c_str ''luautils_require('' @ printf_pointer (le_self env) @ [44] @ quoted module_name @
              c_str ''): '' @ [34] @ c_str ''require'' @ [34] @ c_str '' function not found!''))
         (lret False))"

text \<open>Storing to \<^verbatim>\<open>package.loaded\<close>, which is on top, with a warning when an entry is overwritten.\<close>

definition store_loaded :: "lua_env \<Rightarrow> int \<Rightarrow> bytes \<Rightarrow> unit lua" where
  "store_loaded env index name =
     lthen (lua_getfield env (- 1) name) (
     lbind (lua_type (- 1)) (\<lambda>t.
     lthen (if t \<noteq> LUA_TNIL
            then lua_report (c_str ''luautils_setloaded('' @ printf_pointer (le_self env) @ [44] @ lj_str_bufint index @ [44] @
              quoted name @ c_str '') about to overwrite existing entry!'')
            else lret ()) (
     lthen (lua_pop 1) (
     lthen (lua_pushvalue index) (
     lua_setfield env (- 2) name)))))"

definition luautils_setloaded :: "lua_env \<Rightarrow> int \<Rightarrow> bytes \<Rightarrow> unit lua" where
  "luautils_setloaded env index name =
     lbind (LUA_CHKABSIDX env ''luautils_setloaded'' index) (\<lambda>index.
     lthen (lua_getglobal env (c_str ''package'')) (
     lbind (lua_type (- 1)) (\<lambda>t.
     lthen (if t = LUA_TTABLE
            then lthen (lua_getfield env (- 1) (c_str ''loaded'')) (
              lbind (lua_type (- 1)) (\<lambda>t.
              lthen (if t = LUA_TTABLE then store_loaded env index name else lret ())
                (lua_pop 1)))
            else lret ())
       (lua_pop 1))))"

definition luautils_cmodule :: "lua_env \<Rightarrow> bytes \<Rightarrow> unit lua" where
  "luautils_cmodule env module_name =
     lthen (lua_newtable env) (
     lthen (lua_pushvalue (- 1)) (
     lthen (lua_setglobal env module_name) (
     lthen (luautils_setloaded env (- 1) module_name) (
     lthen (lua_pushvalue (- 1)) (
     lthen (lua_setfield env (- 2) (c_str ''_M'')) (
     lthen (lua_pushstring (Some module_name)) (
     lua_setfield env (- 2) (c_str ''_NAME''))))))))"

subsection \<open>Running the helpers\<close>

lemma abs_run [lua_simps]:
  "LUA_ABSIDX idx L = Some (Inr (abs_idx idx (length (ls_stack L))), L)"
  "idx \<noteq> 0 \<Longrightarrow> LUA_CHECKIDX env f idx L = Some (Inr (), L)"
  "idx \<noteq> 0 \<Longrightarrow> LUA_CHKABSIDX env f idx L = Some (Inr (abs_idx idx (length (ls_stack L))), L)"
  by (simp_all add: LUA_ABSIDX_def LUA_CHECKIDX_def LUA_CHKABSIDX_def abs_idx_def lua_simps)

subsection \<open>Functions\<close>

lemma plain_format_id: "37 \<notin> set s \<Longrightarrow> plain_format s = Some s"
  by (induction s rule: plain_format.induct) auto

lemma plain_pushvf: "37 \<notin> set s \<Longrightarrow> lj_str_pushvf env s args = Some s"
  by (induction s) auto

text \<open>What a name leads to when tables have no metatables.\<close>

definition lookup_function :: "lua_state \<Rightarrow> bytes option \<Rightarrow> bytes \<Rightarrow> lua_value" where
  "lookup_function L modname fname = (case modname of
     None \<Rightarrow> lj_tab_get (t_slots (the (ls_tables L (ls_globals L)))) (VStr fname)
   | Some m \<Rightarrow> (case lj_tab_get (t_slots (the (ls_tables L (ls_globals L)))) (VStr m) of
       VTable a \<Rightarrow> lj_tab_get (t_slots (the (ls_tables L a))) (VStr fname)
     | _ \<Rightarrow> VNil))"

definition raw_tables :: "lua_state \<Rightarrow> bool" where
  "raw_tables L \<longleftrightarrow> (\<exists>g. ls_tables L (ls_globals L) = Some g \<and> t_meta g = None \<and>
     (\<forall>k a. lj_tab_get (t_slots g) k = VTable a \<longrightarrow> (\<exists>t. ls_tables L a = Some t \<and> t_meta t = None)))"

lemma getfunction_failed_run:
  assumes "37 \<notin> set msg" "lua_pop n L = Some (Inr (), L1)" "ls_reports L1 = ls_reports L"
    "\<And>rs. lua_pop n (L\<lparr> ls_reports := rs \<rparr>) = Some (Inr (), L1\<lparr> ls_reports := rs \<rparr>)"
  shows "getfunction_failed env propagate msg n L = Some (if propagate then (Inl (VStr (le_where env L @ snprintf_s 256 msg)), L)
    else (Inr False, L1\<lparr> ls_reports := ls_reports L @ [snprintf_s 256 msg] \<rparr>))"
proof -
  have p: "37 \<notin> set (snprintf_s 256 msg)" using assms(1) by (auto simp: snprintf_s_def dest: in_set_takeD)
  show ?thesis
    using plain_format_id [OF p] plain_pushvf [OF p, of env "[]"] assms(4)
    by (simp add: getfunction_failed_def luaL_error_def lj_err_msg_def lua_report_format_def lua_report_def lua_simps Let_def)
qed

lemma getfunction_texts:
  "37 \<notin> set (c_str ''luautils_getfunction() module '')" "37 \<notin> set (c_str '' not found'')"
  "37 \<notin> set (c_str ''luautils_getfunction() function '')" "37 \<notin> set (c_str ''luautils_getfunction() global function '')"
  by (simp_all add: c_str_def)

text \<open>
  Looking up a function. For names without a per cent sign, in tables without metatables, the function that the
  global, or the field of the global table, holds is pushed and nothing else changes. In every other case
  (no such module, no table, no such field, a value that is no function) nothing stays on the stack: the
  failure is an error with the position and a message, or one report and \<open>False\<close>.
\<close>

theorem getfunction_correct:
  assumes "raw_tables L" "37 \<notin> set fname" "\<forall>m. modname = Some m \<longrightarrow> 37 \<notin> set m" "f = lookup_function L modname fname"
  shows "if \<exists>a. f = VFunc a
    then luautils_getfunction env modname fname propagate L = Some (Inr True, L\<lparr> ls_stack := f # ls_stack L \<rparr>)
    else \<exists>msg. if propagate then \<exists>L'. luautils_getfunction env modname fname propagate L = Some (Inl (VStr (le_where env L' @ msg)), L')
      else luautils_getfunction env modname fname propagate L = Some (Inr False, L\<lparr> ls_reports := ls_reports L @ [msg] \<rparr>)"
proof -
  from assms(1) obtain g where g: "ls_tables L (ls_globals L) = Some g" "t_meta g = None"
    "\<And>k a. lj_tab_get (t_slots g) k = VTable a \<Longrightarrow> \<exists>t. ls_tables L a = Some t \<and> t_meta t = None" unfolding raw_tables_def by blast
  let ?s = "ls_stack L"
  have fail: "getfunction_failed env propagate msg n (L\<lparr> ls_stack := st \<rparr>) = Some (if propagate then (Inl (VStr (le_where env (L\<lparr> ls_stack := st \<rparr>) @ snprintf_s 256 msg)), L\<lparr> ls_stack := st \<rparr>)
    else (Inr False, L\<lparr> ls_reports := ls_reports L @ [snprintf_s 256 msg] \<rparr>))"
    if "37 \<notin> set msg" "n = 1 \<and> st = [a] @ ?s \<or> n = 2 \<and> st = [a, b] @ ?s" for msg n st a b
  proof -
    have "lua_pop n (L\<lparr> ls_stack := st, ls_reports := rs \<rparr>) = Some (Inr (), L\<lparr> ls_reports := rs \<rparr>)" for rs
      using that(2) stack_reset [of L ?s] by (auto simp: lua_simps)
    moreover have "lua_pop n (L\<lparr> ls_stack := st \<rparr>) = Some (Inr (), L)"
      using that(2) stack_reset [of L ?s] by (auto simp: lua_simps)
    ultimately show ?thesis using getfunction_failed_run [OF that(1), of n "L\<lparr> ls_stack := st \<rparr>" L env propagate] by simp
  qed
  show ?thesis
  proof (cases modname)
    case None
    let ?v = "lj_tab_get (t_slots g) (VStr fname)"
    let ?msg = "c_str ''luautils_getfunction() global function '' @ quoted fname @ c_str '' not found''"
    have f: "f = ?v" using assms(4) None g(1) by (simp add: lookup_function_def)
    have "37 \<notin> set ?msg" using assms(2) getfunction_texts by (simp add: quoted_def)
    from fail [OF this, of 1 "?v # ?s" ?v] show ?thesis
      using g None f by (auto simp: luautils_getfunction_def lua_simps)
  next
    case (Some m)
    let ?v = "lj_tab_get (t_slots g) (VStr m)"
    show ?thesis
    proof (cases "\<exists>a. ?v = VTable a")
      case False
      let ?msg = "c_str ''luautils_getfunction() module '' @ quoted m @ c_str '' not found''"
      have f: "f = VNil" using assms(4) Some g(1) False by (simp add: lookup_function_def split: lua_value.split)
      have "37 \<notin> set ?msg" using assms(3) Some getfunction_texts by (simp add: quoted_def)
      from fail [OF this, of 1 "?v # ?s" ?v] show ?thesis
        using g Some f False by (auto simp: luautils_getfunction_def lua_simps)
    next
      case True
      then obtain a t where t: "?v = VTable a" "ls_tables L a = Some t" "t_meta t = None" using g(3) by blast
      let ?w = "lj_tab_get (t_slots t) (VStr fname)"
      let ?msg = "c_str ''luautils_getfunction() function '' @ quoted (m @ [46] @ fname) @ c_str '' not found''"
      have f: "f = ?w" using assms(4) Some g(1) t by (simp add: lookup_function_def)
      have "37 \<notin> set ?msg" using assms(2,3) Some getfunction_texts by (simp add: quoted_def)
      from fail [OF this, of 2 "?w # ?v # ?s" ?w ?v] show ?thesis
        using g Some f t by (auto simp: luautils_getfunction_def lua_simps)
    qed
  qed
qed

lemma sample_raw_tables: "raw_tables (sample_state xs slots)"
  by (simp add: raw_tables_def sample_state_def some_table_def lj_tab_get_def)

lemma getfunction_correct_witness:
  "luautils_getfunction plain_lua None (c_str ''work'') True (sample_state [] []) = Some (Inr True, sample_state [VFunc 9] [])"
  using getfunction_correct [OF sample_raw_tables, of "c_str ''work''" None _ "[]" "[]" plain_lua True]
  by (simp add: lookup_function_def sample_state_def some_table_def lj_tab_get_def c_str_def)

lemma format_prefix:
  "37 \<notin> set p \<Longrightarrow> lj_str_pushvf env (p @ s) args = map_option ((@) p) (lj_str_pushvf env s args)"
  "37 \<notin> set p \<Longrightarrow> d \<noteq> 37 \<Longrightarrow> plain_format (p @ 37 # d # s) = None"
proof (induction p)
  case (Cons c p)
  { case 1
    with Cons.IH(1) show ?case by (simp add: option.map_comp comp_def)
  }
  { case 2
    with Cons.IH(2) show ?case by (cases p) simp_all
  }
next
  case Nil
  { case 1
    show ?case by (cases "lj_str_pushvf env s args") simp_all
  }
  { case 2
    then show ?case by simp
  }
qed

lemma take_format: "length p + 2 \<le> n \<Longrightarrow> \<exists>rest. take n (p @ x # y # s) = p @ x # y # rest"
  by (intro exI [of _ "take (n - length p - 2) s"]) (simp add: take_Cons' numeral_2_eq_2)

text \<open>
  The message about a missing function is used as a format. If no global has a name that ends in a conversion such
  as \<^verbatim>\<open>%s\<close>, the lookup has undefined behaviour, as an error and as a report alike: an argument is read that
  was never passed.
\<close>

theorem missing_name_as_format:
  assumes "raw_tables L" "lookup_function L None (pre @ [37, d]) = VNil" "37 \<notin> set pre" "length pre < 200" "d \<in> {100, 115, 112, 99}"
  shows "luautils_getfunction env None (pre @ [37, d]) propagate L = None"
proof -
  from assms(1) obtain g where g: "ls_tables L (ls_globals L) = Some g" "t_meta g = None" unfolding raw_tables_def by blast
  let ?name = "pre @ [37, d]" and ?p = "c_str ''luautils_getfunction() global function '' @ 39 # pre"
  have v: "lj_tab_get (t_slots g) (VStr ?name) = VNil" using assms(2) g(1) by (simp add: lookup_function_def)
  have "length ?p + 2 \<le> 255" using assms(4) by (simp add: c_str_def)
  then obtain rest where err: "snprintf_s 256 (c_str ''luautils_getfunction() global function '' @ quoted ?name @ c_str '' not found'') = ?p @ 37 # d # rest"
    using take_format [of ?p 255 37 d "39 # c_str '' not found''"] by (auto simp: snprintf_s_def quoted_def simp del: length_append)
  have p: "37 \<notin> set ?p" using assms(3) getfunction_texts(4) by simp
  have d: "d \<noteq> 37" using assms(5) by auto
  have "lj_str_pushvf env (?p @ 37 # d # rest) [] = None" unfolding format_prefix(1) [OF p] using assms(5) by auto
  moreover have "plain_format (?p @ 37 # d # rest) = None" by (rule format_prefix(2) [OF p d])
  ultimately have "getfunction_failed env propagate (c_str ''luautils_getfunction() global function '' @ quoted ?name @ c_str '' not found'') 1 L' = None" for L'
    unfolding getfunction_failed_def Let_def err by (simp add: luaL_error_def lua_report_format_def lua_simps)
  then show ?thesis using g v by (simp add: luautils_getfunction_def lua_simps)
qed

lemma missing_name_as_format_witness:
  "luautils_getfunction plain_lua None (c_str ''do'' @ [37, 115]) False (sample_state [] []) = None"
  using missing_name_as_format [OF sample_raw_tables, of "[]" "[]" "c_str ''do''" 115 plain_lua False]
  by (simp add: lookup_function_def sample_state_def some_table_def lj_tab_get_def c_str_def)

subsection \<open>Pointers as numbers\<close>

lemma toint32_run:
  assumes "lua_env_ok env" "ls_stack L = int_key p # xs" "\<bar>p\<bar> \<le> 2 ^ 52" "q = (if 2 ^ 31 \<le> p then p - 2 ^ 32 else p)"
  shows "luautils_toint32 env (- 1) L = (if - (2 ^ 31) \<le> q \<and> q < 2 ^ 31 then Some (Inr q, L) else None)"
proof -
  have num: "value_number env (int_key p) = Some (Fin (of_int p))" by (simp add: int_key_def value_number_def)
  have gt: "number_greater (Fin (of_int p)) 2147483647 \<longleftrightarrow> 2 ^ 31 \<le> p"
  proof -
    have "(2147483647 :: rat) < of_int p \<longleftrightarrow> of_int 2147483647 < (of_int p :: rat)" by simp
    also have "\<dots> \<longleftrightarrow> 2147483647 < p" by (rule of_int_less_iff)
    also have "\<dots> \<longleftrightarrow> 2 ^ 31 \<le> p" by (simp, presburger)
    finally show ?thesis by (simp add: number_greater_def)
  qed
  have "\<bar>p - 2 ^ 32\<bar> \<le> 2 ^ 53" using assms(3) by simp
  then have "le_rnd env (of_int (p - 2 ^ 32)) = of_int (p - 2 ^ 32)" by (rule lua_env_okD(3) [OF assms(1)])
  then have minus: "number_minus env (Fin (of_int p)) 4294967296 = Fin (of_int (p - 2 ^ 32))" by (simp add: number_minus_def)
  have q: "(if number_greater (Fin (of_int p)) 2147483647 then number_minus env (Fin (of_int p)) 4294967296 else Fin (of_int p)) = Fin (of_int q)"
    unfolding gt minus using assms(4) by simp
  have "luautils_toint32 env (- 1) L = (case double_to_int 32 (Fin (of_int q)) of None \<Rightarrow> None | Some i \<Rightarrow> Some (Inr i, L))"
    using assms(2) num q by (simp add: luautils_toint32_def lua_tonumber_def lua_simps Let_def split: option.split)
  then show ?thesis by (simp add: double_to_int_def Let_def)
qed

text \<open>
  (C39) Pointers as numbers. A pointer that is pushed as a number is read back unchanged below 2 GB only: up to
  4 GB it comes back sign-extended, in the 2 GB above that with its upper half cut off, and beyond the conversion is
  undefined.
\<close>

theorem pointer_from_number:
  assumes "lua_env_ok env" "0 \<le> p" "p \<le> 2 ^ 52"
  shows "Option.bind (luautils_pushptrnum env p L) (\<lambda>(_, L). luautils_isptr env (- 1) L) =
    (if p < 2 ^ 31 then Some (Inr (Some (nat p)), L\<lparr> ls_stack := int_key p # ls_stack L \<rparr>)
     else if p < 2 ^ 32 then Some (Inr (Some (nat (2 ^ 64 - 2 ^ 32 + p))), L\<lparr> ls_stack := int_key p # ls_stack L \<rparr>)
     else if p < 2 ^ 32 + 2 ^ 31 then Some (Inr (Some (nat (p - 2 ^ 32))), L\<lparr> ls_stack := int_key p # ls_stack L \<rparr>)
     else None)"
proof -
  let ?L = "L\<lparr> ls_stack := int_key p # ls_stack L \<rparr>"
  define q where "q = (if 2 ^ 31 \<le> p then p - 2 ^ 32 else p)"
  have "uintptr p = p" using assms(2,3) by (simp add: uintptr_def)
  then have push: "luautils_pushptrnum env p L = Some (Inr (), ?L)"
    using lua_env_okD(3) [OF assms(1), of p] assms(2,3) by (simp add: luautils_pushptrnum_def lua_simps int_key_def)
  have "value_tag (int_key p) = LUA_TNUMBER" by (simp add: int_key_def)
  then have "luautils_isptr env (- 1) ?L = (if - (2 ^ 31) \<le> q \<and> q < 2 ^ 31 then Some (Inr (Some (nat (uintptr q))), ?L) else None)"
    using toint32_run [OF assms(1), of ?L p "ls_stack L" q] assms(2,3) q_def by (simp add: luautils_isptr_def lua_simps)
  moreover have "uintptr q = (if 0 \<le> q then q else 2 ^ 64 + q)" if "- (2 ^ 31) \<le> q" "q < 2 ^ 31"
  proof (cases "0 \<le> q")
    case False
    then have "q mod 2 ^ 64 = (q + 2 ^ 64) mod 2 ^ 64" by simp
    also have "\<dots> = q + 2 ^ 64" by (rule mod_pos_pos_trivial) (use False that in simp_all)
    finally show ?thesis using False by (simp add: uintptr_def)
  qed (use that in \<open>simp add: uintptr_def\<close>)
  ultimately show ?thesis using push assms(2,3) by (auto simp: q_def)
qed

lemma pointer_from_number_witness:
  "Option.bind (luautils_pushptrnum plain_lua (2 ^ 31) (sample_state [] [])) (\<lambda>(_, L). luautils_isptr plain_lua (- 1) L)
    = Some (Inr (Some (nat (2 ^ 64 - 2 ^ 31))), sample_state [int_key (2 ^ 31)] [])"
  using pointer_from_number [OF plain_lua_ok, of "2 ^ 31" "sample_state [] []"] by (simp add: sample_state_def)


text \<open>
  A number that stands for a pointer between 2 GB and 4 GB is not taken as an unsigned 32-bit value, as the comment in the code
  says: what is pushed has the upper 32 bits set.
\<close>

theorem number_not_unsigned:
  assumes "lua_env_ok env" "ls_stack L = int_key p # xs" "2 ^ 31 \<le> p" "p < 2 ^ 32"
  shows "luautils_ptrtonumber env (- 1) 0 nil_is_zero L =
    Some (Inr (), L\<lparr> ls_stack := VNum (Fin (le_rnd env (of_int (2 ^ 64 - 2 ^ 32 + p)))) # int_key p # xs \<rparr>)"
proof -
  have "luautils_toint32 env (- 1) L = Some (Inr (p - 2 ^ 32), L)" using toint32_run [OF assms(1,2) _ refl] assms(3,4) by simp
  moreover have "uintptr (p - 2 ^ 32) = 2 ^ 64 - 2 ^ 32 + p"
  proof -
    have "(p - 2 ^ 32) mod 2 ^ 64 = (p - 2 ^ 32 + 2 ^ 64) mod 2 ^ 64" by (rule mod_add_self2 [symmetric])
    also have "\<dots> = p - 2 ^ 32 + 2 ^ 64" by (rule mod_pos_pos_trivial) (use assms(3,4) in simp_all)
    finally show ?thesis by (simp add: uintptr_def)
  qed
  moreover have "value_tag (int_key p) = LUA_TNUMBER" by (simp add: int_key_def)
  ultimately show ?thesis
    using assms(2,4) by (simp add: luautils_ptrtonumber_def luautils_pushptrnum_def lua_simps)
qed

lemma number_not_unsigned_witness:
  "luautils_ptrtonumber plain_lua (- 1) 0 False (sample_state [int_key (2 ^ 32 - 1)] [])
    = Some (Inr (), sample_state [VNum (Fin (of_int (2 ^ 64 - 1))), int_key (2 ^ 32 - 1)] [])"
  using number_not_unsigned [OF plain_lua_ok, of "sample_state [int_key (2 ^ 32 - 1)] []" "2 ^ 32 - 1" "[]" False]
  by (simp add: sample_state_def plain_lua_def)

subsection \<open>Protected calls\<close>

definition runs_errfunc :: "lua_env \<Rightarrow> bool" where
  "runs_errfunc env \<longleftrightarrow> (\<forall>h ups args L. ls_funcs L h = Some (CClosure ''cpcall_errfunc'' ups) \<longrightarrow>
     le_call env (VFunc h) args L = run_cfunction (cpcall_errfunc env) ups args L)"

lemma cpcall_errfunc_run:
  "run_cfunction (cpcall_errfunc env) [VStr name] [VStr msg] L =
    Some (Inr [VStr (name @ c_str ''() error: '' @ msg)], L\<lparr> ls_stack := [VStr (name @ c_str ''() error: '' @ msg), VStr msg], ls_upvalues := [VStr name] \<rparr>)"
proof -
  have up: "lua_at (lua_upvalueindex 1) L = Some (Inr (VStr name), L)" if "ls_upvalues L = [VStr name]" for L
    using that by (simp add: lua_at_def index2adr_def lua_upvalueindex_def slot_value_def lret_def)
  have base: "from_base [a, b, VStr msg] 1 = VStr msg" for a b by (simp add: from_base_def)
  have cat: "lua_concat env 3 L = Some (Inr (), L\<lparr> ls_stack := VStr (s1 @ s2 @ s3) # ys \<rparr>)"
    if "ls_stack L = VStr s3 # VStr s2 # VStr s1 # ys" for L s1 s2 s3 ys
    using that by (simp add: lua_concat_def value_text_def lua_simps numeral_3_eq_3 Let_def)
  show ?thesis by (simp add: run_cfunction_def cpcall_errfunc_def lua_simps up base cat)
qed

text \<open>
  (C19) The protected call of a C function. It runs a closure of the function on exactly the arguments on top of the
  stack. If it returns, its results take the place of the arguments. If it raises a string, the call reports once and
  leaves the message, prefixed with the name of the function, on top; the error handler stays on the stack
  below it.
\<close>

theorem cpcall_correct:
  assumes "runs_errfunc env" "ls_stack L = rev args @ xs" "nargs = int (length args)" "lua_env_ok env" "heap_finite L"
  shows "\<exists>h b L1. ls_stack L1 = rev args @ VFunc b # VFunc h # xs \<and> ls_funcs L1 b = Some (CClosure func []) \<and>
    ls_funcs L1 h = Some (CClosure ''cpcall_errfunc'' [VStr fname]) \<and> ls_reports L1 = ls_reports L \<and>
    (\<forall>rs L2. le_call env (VFunc b) args L1 = Some (Inr rs, L2) \<longrightarrow>
      luautils_cpcall env func fname nargs L = Some (Inr False, L2\<lparr> ls_stack := rev rs @ xs, ls_upvalues := ls_upvalues L \<rparr>)) \<and>
    (\<forall>msg L2. le_call env (VFunc b) args L1 = Some (Inl (VStr msg), L2) \<and> ls_funcs L2 h = Some (CClosure ''cpcall_errfunc'' [VStr fname]) \<longrightarrow>
      (\<exists>L3. luautils_cpcall env func fname nargs L = Some (Inr True, L3) \<and> length (ls_reports L3) = Suc (length (ls_reports L2)) \<and>
        ls_stack L3 = VStr (fname @ c_str ''() error: '' @ msg) # VFunc h # xs))"
proof -
  obtain h where h: "le_new env (L\<lparr> ls_stack := VStr fname # rev args @ xs \<rparr>) = h" by simp
  let ?F = "(ls_funcs L)(h \<mapsto> CClosure ''cpcall_errfunc'' [VStr fname])"
  obtain b where b: "le_new env (L\<lparr> ls_stack := rev args @ VFunc h # xs, ls_funcs := ?F \<rparr>) = b" by simp
  let ?L1 = "L\<lparr> ls_stack := rev args @ VFunc b # VFunc h # xs, ls_funcs := ?F(b \<mapsto> CClosure func []) \<rparr>"
  have hb: "h \<noteq> b"
    using lua_env_okD(2) [OF assms(4), of "L\<lparr> ls_stack := rev args @ VFunc h # xs, ls_funcs := ?F \<rparr>"] assms(5) by (auto simp: b heap_finite_def)
  have e: "int (length args + length xs) + 1 - nargs = 1 + int (length xs)" using assms(3) by simp
  have i1: "lua_insert (1 + int (length xs)) (L\<lparr> ls_stack := VFunc h # rev args @ xs, ls_funcs := ?F \<rparr>)
    = Some (Inr (), L\<lparr> ls_stack := rev args @ VFunc h # xs, ls_funcs := ?F \<rparr>)"
    by (subst insert_frame [where ys = "rev args" and zs = xs]) simp_all
  have i2: "lua_insert (2 + int (length xs)) (L\<lparr> ls_stack := VFunc b # rev args @ VFunc h # xs, ls_funcs := ?F(b \<mapsto> CClosure func []) \<rparr>)
    = Some (Inr (), ?L1)"
    by (subst insert_frame [where ys = "rev args" and zs = "VFunc h # xs"]) simp_all
  have start: "luautils_cpcall env func fname nargs L = lbind (lua_guarded_pcall env nargs (- 1) (1 + int (length xs))) (\<lambda>result.
       if result \<noteq> 0
       then lbind (lua_tostring env (- 1)) (\<lambda>msg. case msg of
           None \<Rightarrow> lundef
         | Some msg \<Rightarrow>
             lthen (lua_report (c_str ''luautils_cpcall() intercepted Lua error '' @ lj_str_bufint result @ c_str '', '' @ quoted msg))
               (lret True))
       else lthen (lua_remove (1 + int (length xs))) (lret False)) ?L1"
    using assms(2,3)
    by (simp add: luautils_cpcall_def lua_pushstring_def lua_pushcclosure_def lua_simps Let_def h b i1 i2) (simp split: option.split sum.split)
  have call: "lua_guarded_pcall env nargs (- 1) (1 + int (length xs)) ?L1 = (case le_call env (VFunc b) args ?L1 of
      None \<Rightarrow> None
    | Some (Inr rs, L2) \<Rightarrow> Some (Inr 0, L2\<lparr> ls_stack := rev rs @ VFunc h # xs, ls_upvalues := ls_upvalues L \<rparr>)
    | Some (Inl e, L2) \<Rightarrow> (case le_call env (VFunc h) [e] L2 of
        None \<Rightarrow> None
      | Some (Inr rs, L3) \<Rightarrow> Some (Inr 2, L3\<lparr> ls_stack := rev (adjust_results 1 rs) @ VFunc h # xs, ls_upvalues := ls_upvalues L \<rparr>)
      | Some (Inl e, L3) \<Rightarrow> Some (Inr 5, L3\<lparr> ls_stack := e # VFunc h # xs, ls_upvalues := ls_upvalues L \<rparr>)))"
    using assms(3)
    by (simp add: lua_guarded_pcall_def lua_pcall_def stkindex2adr_def lua_simps caller_frame_def adjust_results_def nat_add_distrib nth_append Let_def
        split: option.split sum.split prod.split)
  have ok: "luautils_cpcall env func fname nargs L = Some (Inr False, L2\<lparr> ls_stack := rev rs @ xs, ls_upvalues := ls_upvalues L \<rparr>)"
    if "le_call env (VFunc b) args ?L1 = Some (Inr rs, L2)" for rs L2
  proof -
    have "lua_remove (1 + int (length xs)) (L2\<lparr> ls_stack := rev rs @ VFunc h # xs, ls_upvalues := ls_upvalues L \<rparr>)
      = Some (Inr (), L2\<lparr> ls_stack := rev rs @ xs, ls_upvalues := ls_upvalues L \<rparr>)"
      by (subst remove_frame [where ys = "rev rs" and zs = xs]) simp_all
    then show ?thesis unfolding start by (simp add: lbind_run call that) (simp add: lua_simps)
  qed
  have failed: "\<exists>L3. luautils_cpcall env func fname nargs L = Some (Inr True, L3) \<and> length (ls_reports L3) = Suc (length (ls_reports L2)) \<and>
      ls_stack L3 = VStr (fname @ c_str ''() error: '' @ msg) # VFunc h # xs"
    if c: "le_call env (VFunc b) args ?L1 = Some (Inl (VStr msg), L2)" "ls_funcs L2 h = Some (CClosure ''cpcall_errfunc'' [VStr fname])" for msg L2
  proof -
    let ?m = "fname @ c_str ''() error: '' @ msg"
    have "le_call env (VFunc h) [VStr msg] L2 = Some (Inr [VStr ?m], L2\<lparr> ls_stack := [VStr ?m, VStr msg], ls_upvalues := [VStr fname] \<rparr>)"
      using assms(1) c(2) cpcall_errfunc_run by (simp add: runs_errfunc_def)
    then have p: "lua_guarded_pcall env nargs (- 1) (1 + int (length xs)) ?L1 = Some (Inr 2, L2\<lparr> ls_stack := VStr ?m # VFunc h # xs, ls_upvalues := ls_upvalues L \<rparr>)"
      by (simp add: call c(1) adjust_results_def)
    have s: "lua_tostring env (- 1) (L2\<lparr> ls_stack := VStr ?m # VFunc h # xs, ls_upvalues := ls_upvalues L \<rparr>)
      = Some (Inr (Some (c_string ?m)), L2\<lparr> ls_stack := VStr ?m # VFunc h # xs, ls_upvalues := ls_upvalues L \<rparr>)"
      by (simp add: lua_tostring_def lua_tolstring_def index_top slot_value_def lua_simps)
    show ?thesis unfolding start by (simp add: lbind_run p) (simp add: lbind_run s lua_report_def lua_run)
  qed
  show ?thesis by (intro exI [of _ h] exI [of _ b] exI [of _ ?L1]) (use ok failed hb in auto)
qed

text \<open>Functions that run the error handler as it is, and otherwise raise their argument as an error.\<close>

definition raising_lua :: lua_env where
  "raising_lua = plain_lua\<lparr> le_call := (\<lambda>f args L. case f of
     VFunc h \<Rightarrow> (case ls_funcs L h of
         Some (CClosure name ups) \<Rightarrow>
           if name = ''cpcall_errfunc'' then run_cfunction (cpcall_errfunc plain_lua) ups args L
           else if args = [] then lret [VBool True] L else lthrow (hd args) L
       | _ \<Rightarrow> lret [] L)
   | _ \<Rightarrow> lundef L) \<rparr>"

lemma raising_lua_ok: "lua_env_ok raising_lua" "runs_errfunc raising_lua"
proof -
  show "lua_env_ok raising_lua" using plain_lua_ok by (simp add: lua_env_ok_def raising_lua_def)
  have same: "le_show raising_lua = le_show plain_lua" "le_concat raising_lua = le_concat plain_lua" by (simp_all add: raising_lua_def)
  then have "value_text raising_lua = value_text plain_lua" by (intro ext) (simp only: value_text_def)
  with same have "cpcall_errfunc raising_lua = cpcall_errfunc plain_lua" by (simp only: cpcall_errfunc_def lua_concat_def)
  then show "runs_errfunc raising_lua" by (simp add: runs_errfunc_def) (simp add: raising_lua_def)
qed

lemma cpcall_correct_witness:
  "\<exists>L h. luautils_cpcall raising_lua ''handler'' (c_str ''work'') 1 (sample_state [VStr (c_str ''bad'')] []) = Some (Inr True, L)
    \<and> ls_stack L = [VStr (c_str ''work() error: bad''), VFunc h] \<and> length (ls_reports L) = 1"
proof -
  have L: "ls_stack (sample_state [VStr (c_str ''bad'')] []) = rev [VStr (c_str ''bad'')] @ []" by (simp add: sample_state_def)
  from cpcall_correct [OF raising_lua_ok(2) L _ raising_lua_ok(1) sample_finite, of 1 "''handler''" "c_str ''work''"] obtain h b L1 where
    s: "ls_funcs L1 b = Some (CClosure ''handler'' [])" "ls_funcs L1 h = Some (CClosure ''cpcall_errfunc'' [VStr (c_str ''work'')])" "ls_reports L1 = []"
    and run: "\<And>msg L2. le_call raising_lua (VFunc b) [VStr (c_str ''bad'')] L1 = Some (Inl (VStr msg), L2) \<and>
        ls_funcs L2 h = Some (CClosure ''cpcall_errfunc'' [VStr (c_str ''work'')]) \<Longrightarrow>
      (\<exists>L3. luautils_cpcall raising_lua ''handler'' (c_str ''work'') 1 (sample_state [VStr (c_str ''bad'')] []) = Some (Inr True, L3) \<and>
        length (ls_reports L3) = Suc (length (ls_reports L2)) \<and> ls_stack L3 = [VStr (c_str ''work'' @ c_str ''() error: '' @ msg), VFunc h])"
    by (auto simp: sample_state_def)
  have "le_call raising_lua (VFunc b) [VStr (c_str ''bad'')] L1 = Some (Inl (VStr (c_str ''bad'')), L1)"
    by (simp add: raising_lua_def s(1) lthrow_def)
  with run [of "c_str ''bad''" L1] s(2,3) show ?thesis by (auto simp: c_str_def)
qed


subsection \<open>Modules\<close>

lemma setloaded_spec:
  assumes env: "lua_env_ok env" and tabs: "raw_at L (ls_globals L)" "tab_of L (ls_globals L) (VStr (c_str ''package'')) = Some (VTable p)"
    "raw_at L p" "tab_of L p (VStr (c_str ''loaded'')) = Some (VTable l)" "raw_at L l"
    and v: "ls_stack L = v # xs" "v \<noteq> VNil"
  shows "\<exists>T rs. luautils_setloaded env (- 1) name L = Some (Inr (), L\<lparr> ls_tables := T, ls_reports := rs \<rparr>)
    \<and> (\<forall>L'. ls_tables L' = T \<longrightarrow> tab_of L' l = (tab_of L l)(VStr name \<mapsto> v) \<and> raw_at L' l)
    \<and> (\<forall>c. c \<noteq> l \<longrightarrow> T c = ls_tables L c)"
proof -
  let ?old = "case tab_of L l (VStr name) of None \<Rightarrow> VNil | Some w \<Rightarrow> w"
  let ?msg = "c_str ''luautils_setloaded('' @ printf_pointer (le_self env) @ [44] @ lj_str_bufint (int (length xs) + 1) @ [44] @
    quoted name @ c_str '') about to overwrite existing entry!''"
  obtain rs where rs: "(if ?old = VNil then ls_reports L else ls_reports L @ [?msg]) = rs" by simp
  let ?L = "L\<lparr> ls_stack := VTable l # VTable p # v # xs, ls_reports := rs \<rparr>"
  have raw: "raw_at ?L l" using tabs(5) by (simp add: raw_at_def)
  have tabL: "tab_of ?L l = tab_of L l" by (simp add: tab_of_def)
  have get: "lj_meta_tget env (VTable a) key (L\<lparr> ls_stack := st \<rparr>) = Some (Inr (case tab_of L a key of None \<Rightarrow> VNil | Some v \<Rightarrow> v), L\<lparr> ls_stack := st \<rparr>)"
    if "raw_at L a" for a key st
    using raw_get_run [of "L\<lparr> ls_stack := st \<rparr>" a env key] that by (simp add: raw_at_def tab_of_def)
  obtain T where T: "lj_meta_tset env (VTable l) (VStr name) v ?L = Some (Inr (), ?L\<lparr> ls_tables := T \<rparr>)"
    "\<forall>L'. ls_tables L' = T \<longrightarrow> tab_of L' l = (tab_of L l)(VStr name \<mapsto> v) \<and> raw_at L' l" "\<forall>c. c \<noteq> l \<longrightarrow> T c = ls_tables L c"
    using raw_set_run [OF env raw, of "VStr name" v] v(2) by (auto simp: tabL)
  have store: "store_loaded env (int (length xs) + 1) name (L\<lparr> ls_stack := VTable l # VTable p # v # xs \<rparr>) = Some (Inr (), ?L\<lparr> ls_tables := T \<rparr>)"
    using T(1) get [OF tabs(5)] rs by (cases "tab_of L l (VStr name)") (auto simp: store_loaded_def lua_simps lua_report_def tab_of_def)
  have "luautils_setloaded env (- 1) name L = Some (Inr (), L\<lparr> ls_tables := T, ls_reports := rs \<rparr>)"
    using v tabs stack_reset [OF v(1)] get [OF tabs(1)] get [OF tabs(3)] store raw_get_run [OF tabs(1)]
    unfolding luautils_setloaded_def
    by (simp add: lua_simps abs_idx_def)
  with T(2,3) show ?thesis by blast
qed


text \<open>
  Creating a module. The new table is left on top of the stack, is the global of that name and the entry of
  \<^verbatim>\<open>package.loaded\<close>, and has just the fields \<^verbatim>\<open>_M\<close> (itself) and \<^verbatim>\<open>_NAME\<close>. All other
  tables and all other entries stay the same.
\<close>

theorem cmodule_correct:
  assumes "lua_env_ok env" "heap_finite L" "g = ls_globals L" "raw_at L g" "tab_of L g (VStr (c_str ''package'')) = Some (VTable p)"
    "raw_at L p" "tab_of L p (VStr (c_str ''loaded'')) = Some (VTable l)" "raw_at L l" "distinct [g, p, l]"
    "name \<noteq> c_str ''package''" "r = le_new env L"
  shows "\<exists>L'. luautils_cmodule env name L = Some (Inr (), L')
    \<and> ls_stack L' = VTable r # ls_stack L
    \<and> tab_of L' g = (tab_of L g)(VStr name \<mapsto> VTable r)
    \<and> tab_of L' l = (tab_of L l)(VStr name \<mapsto> VTable r)
    \<and> tab_of L' r = [VStr (c_str ''_M'') \<mapsto> VTable r, VStr (c_str ''_NAME'') \<mapsto> VStr name]
    \<and> (\<forall>c. c \<notin> {g, l, r} \<longrightarrow> ls_tables L' c = ls_tables L c)"
proof -
  let ?xs = "ls_stack L"
  have fresh: "ls_tables L r = None" using lua_env_okD(1) [OF assms(1,2)] assms(11) by simp
  have ne: "r \<noteq> g" "r \<noteq> p" "r \<noteq> l" using fresh assms(4,6,8) by (auto simp: raw_at_def)
  let ?L1 = "L\<lparr> ls_stack := VTable r # ?xs, ls_tables := (ls_tables L)(r \<mapsto> \<lparr> t_slots = [], t_meta = None \<rparr>) \<rparr>"
  have L1: "raw_at ?L1 g" "raw_at ?L1 p" "raw_at ?L1 l" "raw_at ?L1 r" "tab_of ?L1 g = tab_of L g" "tab_of ?L1 p = tab_of L p" "tab_of ?L1 l = tab_of L l" "tab_of ?L1 r = Map.empty"
    using assms(4,6,8) ne by (simp_all add: raw_at_def tab_of_def)
  obtain T2 where T2: "lj_meta_tset env (VTable g) (VStr name) (VTable r) ?L1 = Some (Inr (), ?L1\<lparr> ls_tables := T2 \<rparr>)"
    "\<forall>L'. ls_tables L' = T2 \<longrightarrow> tab_of L' g = (tab_of ?L1 g)(VStr name \<mapsto> VTable r) \<and> raw_at L' g" "\<forall>c. c \<noteq> g \<longrightarrow> T2 c = ls_tables ?L1 c"
    using raw_set_run [OF assms(1) L1(1), of "VStr name" "VTable r"] by blast
  let ?L2 = "?L1\<lparr> ls_tables := T2 \<rparr>"
  have keep: "raw_at ?L2 c = raw_at ?L1 c \<and> tab_of ?L2 c = tab_of ?L1 c" if "c \<noteq> g" for c
    using T2(3) that by (simp add: raw_at_def tab_of_def)
  have g2: "tab_of ?L2 g = (tab_of L g)(VStr name \<mapsto> VTable r)" "raw_at ?L2 g" using T2(2) L1(5) by simp_all
  have L2: "ls_globals ?L2 = g" "raw_at ?L2 p" "raw_at ?L2 l" "raw_at ?L2 r"
    "tab_of ?L2 g (VStr (c_str ''package'')) = Some (VTable p)" "tab_of ?L2 p (VStr (c_str ''loaded'')) = Some (VTable l)"
  proof -
    show "ls_globals ?L2 = g" using assms(3) by simp
    have d: "p \<noteq> g" "l \<noteq> g" using assms(9) by auto
    show "raw_at ?L2 p" "raw_at ?L2 l" "raw_at ?L2 r" using keep [OF d(1)] keep [OF d(2)] keep [OF ne(1)] L1 by blast+
    show "tab_of ?L2 g (VStr (c_str ''package'')) = Some (VTable p)" unfolding g2(1) using assms(5,10) by simp
    show "tab_of ?L2 p (VStr (c_str ''loaded'')) = Some (VTable l)" using keep [OF d(1)] L1(6) assms(7) by simp
  qed
  have st2: "ls_stack ?L2 = VTable r # ?xs" by simp
  obtain T3 rs where T3: "luautils_setloaded env (- 1) name ?L2 = Some (Inr (), ?L2\<lparr> ls_tables := T3, ls_reports := rs \<rparr>)"
    "\<forall>L'. ls_tables L' = T3 \<longrightarrow> tab_of L' l = (tab_of ?L2 l)(VStr name \<mapsto> VTable r) \<and> raw_at L' l" "\<forall>c. c \<noteq> l \<longrightarrow> T3 c = ls_tables ?L2 c"
    using setloaded_spec [OF assms(1) _ _ L2(2) L2(6) L2(3) st2, of name] g2(2) L2(1,5) by auto
  let ?L3 = "?L2\<lparr> ls_stack := VTable r # ?xs, ls_tables := T3, ls_reports := rs \<rparr>"
  have r3: "raw_at ?L3 r" "tab_of ?L3 r = Map.empty"
    using T3(3) L2(4) keep [of r] L1(8) ne by (simp_all add: raw_at_def tab_of_def)
  obtain T4 where T4: "lj_meta_tset env (VTable r) (VStr (c_str ''_M'')) (VTable r) ?L3 = Some (Inr (), ?L3\<lparr> ls_tables := T4 \<rparr>)"
    "\<forall>L'. ls_tables L' = T4 \<longrightarrow> tab_of L' r = (tab_of ?L3 r)(VStr (c_str ''_M'') \<mapsto> VTable r) \<and> raw_at L' r" "\<forall>c. c \<noteq> r \<longrightarrow> T4 c = T3 c"
    using raw_set_run [OF assms(1) r3(1), of "VStr (c_str ''_M'')" "VTable r"] by auto
  let ?L4 = "?L3\<lparr> ls_tables := T4 \<rparr>"
  have r4: "raw_at ?L4 r" "tab_of ?L4 r = [VStr (c_str ''_M'') \<mapsto> VTable r]" using T4(2) r3(2) by simp_all
  obtain T5 where T5: "lj_meta_tset env (VTable r) (VStr (c_str ''_NAME'')) (VStr name) ?L4 = Some (Inr (), ?L4\<lparr> ls_tables := T5 \<rparr>)"
    "\<forall>L'. ls_tables L' = T5 \<longrightarrow> tab_of L' r = (tab_of ?L4 r)(VStr (c_str ''_NAME'') \<mapsto> VStr name) \<and> raw_at L' r" "\<forall>c. c \<noteq> r \<longrightarrow> T5 c = T4 c"
    using raw_set_run [OF assms(1) r4(1), of "VStr (c_str ''_NAME'')" "VStr name"] by auto
  let ?L5 = "?L4\<lparr> ls_tables := T5 \<rparr>"
  have "luautils_cmodule env name L = Some (Inr (), ?L5)"
    using T2(1) T3(1) T4(1) T5(1) assms(3,11)
    by (simp add: luautils_cmodule_def lua_simps lua_createtable_def lua_pushstring_def Let_def)
  moreover have "tab_of ?L5 g = (tab_of L g)(VStr name \<mapsto> VTable r)"
    using T5(3) T4(3) T3(3) ne assms(9) g2(1) by (simp add: tab_of_def)
  moreover have "tab_of ?L5 l = (tab_of L l)(VStr name \<mapsto> VTable r)"
  proof -
    have "tab_of ?L5 l = tab_of ?L3 l" using T5(3) T4(3) ne by (simp add: tab_of_def)
    also have "\<dots> = (tab_of L l)(VStr name \<mapsto> VTable r)" using T3(2) keep [of l] L1(7) assms(9) by simp
    finally show ?thesis .
  qed
  moreover have "tab_of ?L5 r = [VStr (c_str ''_M'') \<mapsto> VTable r, VStr (c_str ''_NAME'') \<mapsto> VStr name]" using T5(2) r4(2) by simp
  moreover have "ls_tables ?L5 c = ls_tables L c" if "c \<notin> {g, l, r}" for c
    using T5(3) T4(3) T3(3) T2(3) that by simp
  ultimately show ?thesis by (intro exI [of _ ?L5]) simp
qed

lemma cmodule_correct_witness:
  "\<exists>L. luautils_cmodule plain_lua (c_str ''kv'') (sample_state [] []) = Some (Inr (), L) \<and> tab_of L 4 (VStr (c_str ''kv'')) = Some (hd (ls_stack L))
    \<and> ls_tables L 5 = Some (some_table [])"
proof -
  let ?L = "sample_state [] []"
  have L: "raw_at ?L 1" "raw_at ?L 3" "raw_at ?L 4" "tab_of ?L 1 (VStr (c_str ''package'')) = Some (VTable 3)"
    "tab_of ?L 3 (VStr (c_str ''loaded'')) = Some (VTable 4)" "1 = ls_globals ?L" "ls_tables ?L 5 = Some (some_table [])"
    by (simp_all add: raw_at_def tab_of_def sample_state_def some_table_def tab_wf_def tab_map_def c_str_def)
  have "c_str ''kv'' \<noteq> c_str ''package''" by (simp add: c_str_def)
  moreover have "le_new plain_lua ?L \<noteq> 5" using lua_env_okD(1) [OF plain_lua_ok sample_finite, of "[]" "[]"] L(7) by auto
  ultimately show ?thesis
    using cmodule_correct [OF plain_lua_ok sample_finite L(6,1,4,2,5,3), of "c_str ''kv''"] L(7) by fastforce
qed

end
