(* ===== verification/LuaTables.thy ===== *)
theory LuaTables
  imports LuaUtils
begin

text \<open>
  The table functions of \<^verbatim>\<open>core/luautils.c\<close>. Their loops run over a table that the program or a filter could
  change, so they are partial functions; the results show that they return.
\<close>

subsection \<open>Loops in the interface\<close>

lemma lbind_bind:
  "lbind m f L = Option.bind (m L) (\<lambda>r. case r of (Inl e, L) \<Rightarrow> Some (Inl e, L) | (Inr x, L) \<Rightarrow> f x L)"
  by (simp add: lbind_def bind_split split: option.split)

lemma lbind_mono [partial_function_mono]:
  assumes "\<And>L. mono_option (\<lambda>g. m g L)" "\<And>x L. mono_option (\<lambda>g. f g x L)"
  shows "mono_option (\<lambda>g. lbind (m g) (f g) L)"
proof -
  have "mono_option (\<lambda>g. case r of (Inl e, L) \<Rightarrow> Some (Inl e, L) | (Inr x, L) \<Rightarrow> f g x L)" for r
  proof (cases r)
    case (Pair s L)
    then show ?thesis using assms(2) by (cases s) (simp_all add: option.const_mono)
  qed
  then show ?thesis unfolding lbind_bind by (intro bind_mono assms(1))
qed

lemma lthen_mono [partial_function_mono]:
  assumes "\<And>L. mono_option (\<lambda>g. m g L)" "\<And>L. mono_option (\<lambda>g. k g L)"
  shows "mono_option (\<lambda>g. lthen (m g) (k g) L)"
  unfolding lthen_def by (rule lbind_mono) (use assms in auto)

lemma if_lua_mono [partial_function_mono]:
  assumes "mono_option (\<lambda>g. m g L)" "mono_option (\<lambda>g. k g L)"
  shows "mono_option (\<lambda>g. (if c then m g else k g) L)"
  using assms by (cases c) simp_all

text \<open>\<^verbatim>\<open>++\<close> on an \<^verbatim>\<open>int\<close>.\<close>

definition int_inc :: "int \<Rightarrow> int lua" where
  "int_inc n = (if n + 1 < 2 ^ 31 then lret (n + 1) else lundef)"

subsection \<open>Keys\<close>

text \<open>Whether the filter wants the key on top; without a filter every key is used.\<close>

definition filter_key :: "lua_env \<Rightarrow> int \<Rightarrow> bool lua" where
  "filter_key env flt =
     (if flt \<noteq> 0
      then lthen (lua_pushvalue flt) (
        lthen (lua_pushvalue (- 2)) (
        lthen (lua_call env 1 1) (
        lbind (lua_toboolean (- 1)) (\<lambda>use_key.
        lthen (lua_pop 1) (lret use_key)))))
      else lret True)"

partial_function (option) table_keys_loop :: "lua_env \<times> int \<times> int \<times> int \<Rightarrow> int \<Rightarrow> int lua" where
  "table_keys_loop p count L = (case p of (env, table, flt, result) \<Rightarrow>
     lbind (lua_next env table) (\<lambda>more.
     if \<not> more then lret count
     else lthen (lua_pop 1) (
       lbind (filter_key env flt) (\<lambda>use_key.
       lbind (if use_key
              then lthen (lua_pushvalue (- 1)) (
                lbind (int_inc count) (\<lambda>count.
                lthen (lua_rawseti env result count) (lret count)))
              else lret count)
         (table_keys_loop p)))) L)"

definition luautils_table_keys :: "lua_env \<Rightarrow> int \<Rightarrow> int \<Rightarrow> int lua" where
  "luautils_table_keys env table flt =
     lbind (LUA_ABSIDX table) (\<lambda>table.
     lthen (luaL_checktype env table LUA_TTABLE) (
     lbind (if flt \<noteq> 0
            then lbind (LUA_ABSIDX flt) (\<lambda>flt. lthen (luaL_checktype env flt LUA_TFUNCTION) (lret flt))
            else lret flt) (\<lambda>flt.
     lthen (lua_newtable env) (
     lbind lua_gettop (\<lambda>result.
     lthen lua_pushnil (
     table_keys_loop (env, table, flt, result) 0))))))"

partial_function (option) table_keyof_loop :: "lua_env \<times> int \<Rightarrow> bool lua" where
  "table_keyof_loop p L = (case p of (env, table) \<Rightarrow>
     lbind (lua_next env table) (\<lambda>more.
     if \<not> more then lthen (lua_pop 1) (lthen lua_pushnil (lret False))
     else lbind (luautils_equal env (- 1) (- 3)) (\<lambda>match.
       if match then lthen (lua_pop 1) (lthen (lua_replace (- 2)) (lret True))
       else lthen (lua_pop 1) (table_keyof_loop p))) L)"

definition luautils_table_keyof :: "lua_env \<Rightarrow> int \<Rightarrow> bool lua" where
  "luautils_table_keyof env table =
     lbind (LUA_ABSIDX table) (\<lambda>table.
     lthen (luaL_checktype env table LUA_TTABLE) (
     lthen lua_pushnil (
     lbind (lua_type (- 2)) (\<lambda>t.
     if t = LUA_TNIL then lret False else table_keyof_loop (env, table)))))"

subsection \<open>Counting\<close>

text \<open>The highest index so far, with the key on top taken into account.\<close>

definition count_key :: "lua_env \<Rightarrow> int option \<Rightarrow> int option lua" where
  "count_key env maxn = (case maxn of
     None \<Rightarrow> lret None
   | Some n \<Rightarrow> lbind (lua_isnumber env (- 1)) (\<lambda>num.
       if num then lbind (lua_tointeger env (- 1)) (\<lambda>i. lret (Some (max n (int32 i)))) else lret (Some n)))"

partial_function (option) table_count_loop :: "lua_env \<times> int \<Rightarrow> nat \<times> int option \<Rightarrow> (nat \<times> int option) lua" where
  "table_count_loop p c L = (case p of (env, idx) \<Rightarrow> (case c of (count, maxn) \<Rightarrow>
     lbind (lua_next env idx) (\<lambda>more.
     if \<not> more then lret (count, maxn)
     else lthen (lua_pop 1) (
       lbind (count_key env maxn)
         (\<lambda>maxn. table_count_loop p ((count + 1) mod 2 ^ 64, maxn)))) L))"

text \<open>\<open>maxn\<close> tells whether there is a place for the highest index.\<close>

definition luautils_table_count :: "lua_env \<Rightarrow> int \<Rightarrow> bool \<Rightarrow> (nat \<times> int option) lua" where
  "luautils_table_count env idx maxn =
     lbind (LUA_CHKABSIDX env ''luautils_table_count'' idx) (\<lambda>idx.
     let start = (0, if maxn then Some 0 else None) in
     lbind (lua_type idx) (\<lambda>t.
     if t = LUA_TTABLE then lthen lua_pushnil (table_count_loop (env, idx) start) else lret start))"

partial_function (option) issequential_loop :: "lua_env \<times> int \<Rightarrow> int \<Rightarrow> (bool \<times> int) lua" where
  "issequential_loop p sq L = (case p of (env, idx) \<Rightarrow>
     lbind (lua_next env idx) (\<lambda>more.
     if \<not> more then lret (True, sq)
     else lbind (int_inc sq) (\<lambda>sq.
       lthen (lua_rawgeti idx sq) (
       lbind (lua_type (- 1)) (\<lambda>t.
       lthen (lua_pop 2) (
       if t \<noteq> LUA_TNIL then issequential_loop p sq else lret (False, sq)))))) L)"

definition luautils_table_issequential :: "lua_env \<Rightarrow> int \<Rightarrow> bool lua" where
  "luautils_table_issequential env idx =
     lbind (LUA_CHKABSIDX env ''luautils_table_issequential'' idx) (\<lambda>idx.
     lthen (luaL_checktype env idx LUA_TTABLE) (
     lthen lua_pushnil (
     lbind (issequential_loop (env, idx) 0) (\<lambda>(result, sq).
     lthen (if \<not> result then lua_pop 1 else lret ()) (
     lret (result \<and> 0 < sq))))))"

subsection \<open>Adding to tables\<close>

definition luautils_table_append :: "lua_env \<Rightarrow> int \<Rightarrow> int \<Rightarrow> int \<Rightarrow> unit lua" where
  "luautils_table_append env idx pos pop =
     lbind (LUA_CHKABSIDX env ''luautils_table_append'' idx) (\<lambda>idx.
     lthen (luaL_checktype env idx LUA_TTABLE) (
     lbind (if pos < 1
            then lbind (luautils_table_count env idx True) (\<lambda>(_, maxn). int_inc (the maxn))
            else lret pos) (\<lambda>pos.
     lthen (lua_pushinteger env pos) (
     lthen (lua_pushvalue (- 2)) (
     lthen (lua_settable env idx) (
     if 0 < pop then lua_pop pop else lret ()))))))"

partial_function (option) merge_fields_loop :: "lua_env \<times> int \<times> int \<Rightarrow> unit lua" where
  "merge_fields_loop p L = (case p of (env, index, dest) \<Rightarrow>
     lbind (lua_next env index) (\<lambda>more.
     if \<not> more then lret ()
     else lthen (lua_pushvalue (- 2)) (
       lthen (lua_insert (- 2)) (
       lthen (lua_settable env dest) (
       merge_fields_loop p)))) L)"

partial_function (option) table_merge_loop :: "lua_env \<times> int \<times> int \<Rightarrow> int \<Rightarrow> unit lua" where
  "table_merge_loop p index L = (case p of (env, to, dest) \<Rightarrow>
     (if to < index then lret ()
      else lbind (lua_type index) (\<lambda>t.
        lthen (if t = LUA_TNIL then lret ()
               else if t = LUA_TTABLE then lthen lua_pushnil (merge_fields_loop (env, index, dest))
               else (\<lambda>L. lthrow (le_argerror env index ''table or nil'' L) L)) (
        lbind (int_inc index) (table_merge_loop p)))) L)"

definition luautils_table_merge :: "lua_env \<Rightarrow> int \<Rightarrow> int \<Rightarrow> int \<Rightarrow> unit lua" where
  "luautils_table_merge env from to dest =
     lbind (LUA_CHKABSIDX env ''luautils_table_merge'' dest) (\<lambda>dest.
     lthen (luaL_checktype env dest LUA_TTABLE) (
     lbind (LUA_CHKABSIDX env ''luautils_table_merge'' from) (\<lambda>from.
     lbind (LUA_CHKABSIDX env ''luautils_table_merge'' to) (\<lambda>to.
     table_merge_loop (env, to, dest) from))))"

subsection \<open>Packing and unpacking\<close>

partial_function (option) xpack_loop :: "lua_env \<times> int \<Rightarrow> int \<times> int \<Rightarrow> int lua" where
  "xpack_loop p c L = (case p of (env, to) \<Rightarrow> (case c of (index, count) \<Rightarrow>
     (if to < index then lret count
      else lbind (int_inc count) (\<lambda>count.
        lthen (lua_pushinteger env count) (
        lthen (lua_pushvalue index) (
        lthen (lua_rawset env (- 3)) (
        lbind (int_inc index) (\<lambda>index. xpack_loop p (index, count))))))) L))"

text \<open>The size for which room is made in advance takes the indices in the wrong order; a size below one makes none.\<close>

definition luautils_xpack :: "lua_env \<Rightarrow> int \<Rightarrow> int \<Rightarrow> int lua" where
  "luautils_xpack env from to =
     lbind (LUA_CHKABSIDX env ''luautils_xpack'' from) (\<lambda>from.
     lbind (LUA_ABSIDX to) (\<lambda>to.
     lthen (lua_createtable env (if from \<le> to then from - to + 2 else 1) 0) (
     lbind (xpack_loop (env, to) (from, 0)) (\<lambda>count.
     lthen (lua_pushinteger env 0) (
     lthen (lua_pushinteger env count) (
     lthen (lua_rawset env (- 3)) (
     lret count)))))))"

partial_function (option) xunpack_loop :: "lua_env \<times> int \<times> int \<Rightarrow> int \<times> int \<Rightarrow> int lua" where
  "xunpack_loop p c L = (case p of (env, table, to) \<Rightarrow> (case c of (index, count) \<Rightarrow>
     (if to < index then lret count
      else lbind (int_inc count) (\<lambda>count.
        lthen (lua_pushinteger env index) (
        lthen (lua_rawget table) (
        lbind (int_inc index) (\<lambda>index. xunpack_loop p (index, count)))))) L))"

definition luautils_xunpack :: "lua_env \<Rightarrow> int \<Rightarrow> int \<Rightarrow> int \<Rightarrow> int lua" where
  "luautils_xunpack env table from to =
     lbind (if lua_upvalueindex 0 \<le> table then LUA_CHKABSIDX env ''luautils_xunpack'' table else lret table) (\<lambda>table.
     let from = max 1 from in
     lbind (if to < 1
            then lthen (lua_pushinteger env 0) (
              lthen (lua_rawget table) (
              lbind (lua_isnumber env (- 1)) (\<lambda>num.
              lbind (if num
                     then lbind (lua_tointeger env (- 1)) (\<lambda>i. let to = int32 i in
                       lthen (if to < 0
                              then lua_report (c_str ''luautils_xunpack('' @ printf_pointer (le_self env) @ [44] @ lj_str_bufint table @
                                c_str '') retrieved invalid '' @ quoted (c_str ''to'') @ [32] @ lj_str_bufint to @ c_str '' from key 0'')
                              else lret ())
                         (lret to))
                     else lbind (lua_objlen env table) (\<lambda>n. lret (int32 (int n)))) (\<lambda>to.
              lthen (lua_pop 1) (lret to)))))
            else lret to) (\<lambda>to.
     xunpack_loop (env, table, to) (from, 0)))"

subsection \<open>Properties of the loops\<close>

lemma keys_loop_spec:
  assumes env: "lua_env_ok env" and tab: "0 < i" "i \<le> int (length xs)" "from_base xs i = VTable a" "ls_tables L a = Some t" "a \<noteq> r"
    and flt: "\<And>L k. ls_stack L = k # VTable r # xs \<Longrightarrow> filter_key env flt L = Some (Inr (want k), L)"
    and "at_key (t_slots t) key todo" "tab_wf slots" "count + int (length todo) < 2 ^ 31"
  shows "\<exists>slots'. table_keys_loop (env, i, flt, 1 + int (length xs)) count
        (L\<lparr> ls_stack := key # VTable r # xs, ls_tables := (ls_tables L)(r \<mapsto> \<lparr> t_slots = slots, t_meta = None \<rparr>) \<rparr>)
      = Some (Inr (count + int (length (filter want (map fst todo)))),
          L\<lparr> ls_stack := VTable r # xs, ls_tables := (ls_tables L)(r \<mapsto> \<lparr> t_slots = slots', t_meta = None \<rparr>) \<rparr>)
    \<and> tab_wf slots' \<and> tab_map slots' = put_values (count + 1) (filter want (map fst todo)) (tab_map slots)"
  using assms(8-10)
proof (induction todo arbitrary: key slots count)
  case Nil
  show ?case
    by (intro exI [of _ slots], subst table_keys_loop.simps) (use Nil tab in \<open>simp add: lua_simps lua_next_run [OF _ _ _ _ _ Nil(1)]\<close>)
next
  case (Cons s todo)
  obtain k v where s: "s = (k, v)" by (cases s)
  note at = at_key_step [OF Cons.prems(1) [unfolded s]]
  let ?L = "\<lambda>st sl. L\<lparr> ls_stack := st, ls_tables := (ls_tables L)(r \<mapsto> \<lparr> t_slots = sl, t_meta = None \<rparr>) \<rparr>"
  have nx: "lua_next env i (?L (key # VTable r # xs) slots) = Some (Inr True, ?L (v # k # VTable r # xs) slots)"
    using lua_next_run [OF _ _ _ _ _ Cons.prems(1) [unfolded s]] tab by simp
  show ?case
  proof (cases "want k")
    case False
    have "table_keys_loop (env, i, flt, 1 + int (length xs)) count (?L (key # VTable r # xs) slots)
      = table_keys_loop (env, i, flt, 1 + int (length xs)) count (?L (k # VTable r # xs) slots)"
      by (subst table_keys_loop.simps) (simp add: lua_simps nx flt False)
    moreover have "filter want (map fst (s # todo)) = filter want (map fst todo)" using False by (simp add: s)
    moreover have "count + int (length todo) < 2 ^ 31" using Cons.prems(3) by simp
    ultimately show ?thesis using Cons.IH [OF at Cons.prems(2)] by presburger
  next
    case True
    let ?slots = "lj_tab_set env slots (int_key (count + 1)) k"
    have "count + 1 < 2 ^ 31" using Cons.prems(3) by simp
    then have step: "table_keys_loop (env, i, flt, 1 + int (length xs)) count (?L (key # VTable r # xs) slots)
      = table_keys_loop (env, i, flt, 1 + int (length xs)) (count + 1) (?L (k # VTable r # xs) ?slots)"
      by (subst table_keys_loop.simps) (simp add: lua_simps nx flt True int_inc_def int_key_def)
    have sp: "tab_wf ?slots" "tab_map ?slots = (tab_map slots)(int_key (count + 1) := if k = VNil then None else Some k)"
      using tab_set_spec [OF env Cons.prems(2), of "int_key (count + 1)" k] by simp_all
    have "(count + 1) + int (length todo) < 2 ^ 31" using Cons.prems(3) by simp
    from Cons.IH [OF at sp(1) this] obtain slots' where
      "table_keys_loop (env, i, flt, 1 + int (length xs)) (count + 1) (?L (k # VTable r # xs) ?slots)
        = Some (Inr (count + 1 + int (length (filter want (map fst todo)))), ?L (VTable r # xs) slots')" "tab_wf slots'"
      "tab_map slots' = put_values (count + 1 + 1) (filter want (map fst todo)) (tab_map ?slots)" by blast
    moreover have "count + 1 + int (length (filter want (map fst todo))) = count + int (length (filter want (map fst (s # todo))))"
      using True by (simp add: s)
    moreover have "put_values (count + 1 + 1) (filter want (map fst todo)) (tab_map ?slots)
      = put_values (count + 1) (filter want (map fst (s # todo))) (tab_map slots)" unfolding sp(2) using True by (simp add: s)
    ultimately show ?thesis unfolding step by metis
  qed
qed

definition truth :: "lua_value list \<Rightarrow> bool" where
  "truth rs \<longleftrightarrow> (case rs of [] \<Rightarrow> False | v # _ \<Rightarrow> v \<noteq> VNil \<and> v \<noteq> VBool False)"

text \<open>A filter: none, or a function on the stack that decides each key and changes nothing.\<close>

definition good_filter :: "lua_env \<Rightarrow> lua_value list \<Rightarrow> int \<Rightarrow> (lua_value \<Rightarrow> bool) \<Rightarrow> bool" where
  "good_filter env xs flt want \<longleftrightarrow> (flt = 0 \<and> want = (\<lambda>_. True)) \<or> (flt \<noteq> 0 \<and> on_stack flt xs \<and>
     (\<exists>f. from_base xs (abs_idx flt (length xs)) = VFunc f \<and>
       (\<forall>k L. \<exists>rs. le_call env (VFunc f) [k] L = Some (Inr rs, L) \<and> truth rs = want k)))"

lemma filter_key_run:
  assumes "good_filter env xs flt want" "ls_stack L = k # VTable r # xs"
  shows "filter_key env (if flt = 0 then 0 else abs_idx flt (length xs)) L = Some (Inr (want k), L)"
proof (cases "flt = 0")
  case False
  with assms(1) obtain f where f: "on_stack flt xs" "from_base xs (abs_idx flt (length xs)) = VFunc f"
    "\<And>k L. \<exists>rs. le_call env (VFunc f) [k] L = Some (Inr rs, L) \<and> truth rs = want k" unfolding good_filter_def by blast
  note o = on_stackD [OF f(1)]
  obtain rs where rs: "le_call env (VFunc f) [k] (L\<lparr> ls_stack := k # VFunc f # k # VTable r # xs \<rparr>)
    = Some (Inr rs, L\<lparr> ls_stack := k # VFunc f # k # VTable r # xs \<rparr>)" "truth rs = want k" using f(3) by blast
  have "lua_call env 1 1 (L\<lparr> ls_stack := k # VFunc f # k # VTable r # xs \<rparr>)
    = Some (Inr (), L\<lparr> ls_stack := (case rs of [] \<Rightarrow> VNil | v # _ \<Rightarrow> v) # k # VTable r # xs \<rparr>)"
    using rs(1) by (cases rs) (simp_all add: lua_call_def caller_frame_def adjust_results_def lua_simps)
  then show ?thesis
    using o f(2) rs(2) assms(2) False
    by (cases rs) (simp_all add: filter_key_def lua_simps lua_toboolean_def truth_def)
qed (use assms in \<open>simp add: filter_key_def good_filter_def lua_simps\<close>)

text \<open>
  Collecting keys. For a filter that decides and changes nothing, or none, the function returns: the new
  table on top of the stack is an array of exactly the keys of live entries that pass the filter, in the order of the traversal,
  their number is the result, and nothing else in the state changes.
\<close>

theorem table_keys_correct:
  assumes "lua_env_ok env" "ls_stack L = xs" "on_stack table xs" "from_base xs (abs_idx table (length xs)) = VTable a"
    "ls_tables L a = Some t" "tab_wf (t_slots t)" "good_filter env xs flt want"
    and "heap_finite L" "keys = filter want (map fst (tab_entries (t_slots t)))" "length (tab_entries (t_slots t)) < 2 ^ 31"
  shows "\<exists>t'. luautils_table_keys env table flt L =
      Some (Inr (int (length keys)), L\<lparr> ls_stack := VTable (le_new env L) # xs, ls_tables := (ls_tables L)(le_new env L \<mapsto> t') \<rparr>)
    \<and> (\<forall>j < length keys. tab_map (t_slots t') (int_key (1 + int j)) = Some (keys ! j))
    \<and> dom (tab_map (t_slots t')) = int_key ` {1..int (length keys)}"
proof -
  let ?r = "le_new env L"
  note o = on_stackD [OF assms(3)]
  have L: "L\<lparr> ls_stack := xs \<rparr> = L" using assms(2) by (cases L) simp
  have ar: "a \<noteq> ?r" using lua_env_okD(1) [OF assms(1,8)] assms(5) by auto
  have lt: "luaL_checktype env (abs_idx table (length xs)) LUA_TTABLE L = Some (Inr (), L)"
    using o assms(2,4) by (simp add: lua_simps)
  have lf: "luaL_checktype env (abs_idx flt (length xs)) LUA_TFUNCTION L = Some (Inr (), L)"
    if "flt \<noteq> 0"
  proof -
    from assms(7) that obtain f where f: "on_stack flt xs" "from_base xs (abs_idx flt (length xs)) = VFunc f" unfolding good_filter_def by blast
    from f(2) on_stackD [OF f(1)] assms(2) show ?thesis by (simp add: lua_simps)
  qed
  let ?flt = "if flt = 0 then 0 else abs_idx flt (length xs)"
  have start: "luautils_table_keys env table flt L = table_keys_loop (env, abs_idx table (length xs), ?flt, 1 + int (length xs)) 0
      (L\<lparr> ls_stack := VNil # VTable ?r # xs, ls_tables := (ls_tables L)(?r \<mapsto> \<lparr> t_slots = [], t_meta = None \<rparr>) \<rparr>)"
    using lt lf assms(2)
    by (cases "flt = 0") (simp_all add: luautils_table_keys_def lua_createtable_def lua_simps Let_def)
  have len: "0 + int (length (tab_entries (t_slots t))) < 2 ^ 31" using assms(10) by simp
  have fl: "filter_key env ?flt L = Some (Inr (want k), L)" if "ls_stack L = k # VTable ?r # xs" for L k
    by (rule filter_key_run [OF assms(7) that])
  from keys_loop_spec [where want = want, OF assms(1) o assms(4,5) ar fl at_key_start [OF assms(6)] tab_wf_Nil len]
  obtain slots' where "table_keys_loop (env, abs_idx table (length xs), ?flt, 1 + int (length xs)) 0
      (L\<lparr> ls_stack := VNil # VTable ?r # xs, ls_tables := (ls_tables L)(?r \<mapsto> \<lparr> t_slots = [], t_meta = None \<rparr>) \<rparr>)
    = Some (Inr (0 + int (length keys)), L\<lparr> ls_stack := VTable ?r # xs, ls_tables := (ls_tables L)(?r \<mapsto> \<lparr> t_slots = slots', t_meta = None \<rparr>) \<rparr>)"
    "tab_map slots' = put_values (0 + 1) keys (tab_map [])"
    unfolding assms(9) [symmetric] by blast
  moreover have "VNil \<notin> set keys"
    using assms(6,9) by (auto simp: tab_wf_def tab_entries_def)
  moreover have "{1..<1 + int (length keys)} = {1..int (length keys)}" by auto
  ultimately show ?thesis
    using put_values_array [of keys 1] by (intro exI [of _ "\<lparr> t_slots = slots', t_meta = None \<rparr>"]) (simp add: start)
qed

lemma table_keys_correct_witness:
  "\<exists>t. luautils_table_keys plain_lua 1 (- 1) (sample_state [VFunc 9, VTable 5] [(VStr [120], VBool True), (int_key 1, VBool False), (VStr [121], VNil)])
      = Some (Inr 1, (sample_state [VTable (le_new plain_lua (sample_state [VFunc 9, VTable 5] [(VStr [120], VBool True), (int_key 1, VBool False), (VStr [121], VNil)])),
          VFunc 9, VTable 5] [(VStr [120], VBool True), (int_key 1, VBool False), (VStr [121], VNil)])
        \<lparr> ls_tables := (ls_tables (sample_state [] [(VStr [120], VBool True), (int_key 1, VBool False), (VStr [121], VNil)]))
          (le_new plain_lua (sample_state [VFunc 9, VTable 5] [(VStr [120], VBool True), (int_key 1, VBool False), (VStr [121], VNil)]) \<mapsto> t) \<rparr>)
    \<and> tab_map (t_slots t) (int_key 1) = Some (VStr [120])"
proof -
  let ?sl = "[(VStr [120], VBool True), (int_key 1, VBool False), (VStr [121], VNil)]" and ?xs = "[VFunc 9, VTable 5]"
  let ?want = "\<lambda>k. value_tag k = LUA_TSTRING"
  have f: "good_filter plain_lua ?xs (- 1) ?want"
    by (simp add: good_filter_def on_stack_def abs_idx_def plain_lua_def truth_def lret_def)
  have s: "ls_stack (sample_state ?xs ?sl) = ?xs" "on_stack 1 ?xs" "from_base ?xs (abs_idx 1 (length ?xs)) = VTable 5"
    "ls_tables (sample_state ?xs ?sl) 5 = Some (some_table ?sl)" "tab_wf (t_slots (some_table ?sl))" "length (tab_entries (t_slots (some_table ?sl))) < 2 ^ 31"
    "filter ?want (map fst (tab_entries (t_slots (some_table ?sl)))) = [VStr [120]]"
    by (simp_all add: sample_state_def some_table_def on_stack_def tab_wf_def tab_entries_def slot_live_def int_key_def)
  show ?thesis
    using table_keys_correct [OF plain_lua_ok s(1-5) f sample_finite refl s(6)] unfolding s(7) by (auto simp: sample_state_def)
qed

subsection \<open>Counting\<close>

text \<open>The index a key counts for: of a number, or of a string that reads as one, the integer part, as an \<^verbatim>\<open>int\<close>.\<close>

definition key_index :: "lua_env \<Rightarrow> lua_value \<Rightarrow> int option" where
  "key_index env k = (case value_number env k of None \<Rightarrow> None | Some n \<Rightarrow> map_option int32 (double_to_int 64 n))"

definition key_in_range :: "lua_env \<Rightarrow> lua_value \<Rightarrow> bool" where
  "key_in_range env k \<longleftrightarrow> (value_number env k \<noteq> None \<longrightarrow> key_index env k \<noteq> None)"

definition highest :: "lua_env \<Rightarrow> lua_value list \<Rightarrow> int \<Rightarrow> int" where
  "highest env ks n = fold (\<lambda>k m. case key_index env k of None \<Rightarrow> m | Some i \<Rightarrow> max m i) ks n"

lemma count_key_run:
  assumes "key_in_range env k" "ls_stack L = k # xs"
  shows "count_key env mx L
    = Some (Inr (map_option (highest env [k]) mx), L)"
  using assms
  by (cases mx; cases "value_number env k")
    (auto simp: count_key_def lua_isnumber_def lua_tointeger_def key_in_range_def key_index_def highest_def lua_simps split: option.splits)

lemma count_loop_spec:
  assumes tab: "0 < i" "i \<le> int (length xs)" "from_base xs i = VTable a" "ls_tables L a = Some t"
    and "at_key (t_slots t) key todo" "mx \<noteq> None \<Longrightarrow> \<forall>k \<in> set (map fst todo). key_in_range env k"
  shows "table_count_loop (env, i) (c mod 2 ^ 64, mx) (L\<lparr> ls_stack := key # xs \<rparr>)
    = Some (Inr ((c + length todo) mod 2 ^ 64, map_option (highest env (map fst todo)) mx), L\<lparr> ls_stack := xs \<rparr>)"
  using assms(5,6)
proof (induction todo arbitrary: key c mx)
  case Nil
  have "highest env [] = (\<lambda>n. n)" by (simp add: highest_def fun_eq_iff)
  then show ?case
    by (subst table_count_loop.simps) (use Nil tab in \<open>simp add: lua_simps lua_next_run [OF _ _ _ _ _ Nil(1)] option.map_ident\<close>)
next
  case (Cons s todo)
  obtain k v where s: "s = (k, v)" by (cases s)
  note at = at_key_step [OF Cons.prems(1) [unfolded s]]
  have nx: "lua_next env i (L\<lparr> ls_stack := key # xs \<rparr>) = Some (Inr True, L\<lparr> ls_stack := v # k # xs \<rparr>)"
    using lua_next_run [OF _ _ _ _ _ Cons.prems(1) [unfolded s]] tab by simp
  have ck: "count_key env mx (L\<lparr> ls_stack := k # xs \<rparr>)
    = Some (Inr (map_option (highest env [k]) mx), L\<lparr> ls_stack := k # xs \<rparr>)"
  proof (cases mx)
    case (Some n)
    then have "key_in_range env k" using Cons.prems(2) by (simp add: s)
    then show ?thesis by (rule count_key_run) simp
  qed (simp add: count_key_def lua_simps)
  have "table_count_loop (env, i) (c mod 2 ^ 64, mx) (L\<lparr> ls_stack := key # xs \<rparr>)
    = table_count_loop (env, i) (Suc c mod 2 ^ 64, map_option (highest env [k]) mx) (L\<lparr> ls_stack := k # xs \<rparr>)"
    by (subst table_count_loop.simps) (simp add: lua_simps nx ck mod_simps)
  also have "\<dots> = Some (Inr ((Suc c + length todo) mod 2 ^ 64, map_option (highest env (map fst todo)) (map_option (highest env [k]) mx)), L\<lparr> ls_stack := xs \<rparr>)"
    by (rule Cons.IH [OF at]) (use Cons.prems(2) in \<open>auto simp: s\<close>)
  finally show ?case by (simp add: s option.map_comp comp_def highest_def)
qed


lemma issequential_loop_spec:
  assumes tab: "0 < i" "i \<le> int (length xs)" "from_base xs i = VTable a" "ls_tables L a = Some t"
    and "at_key (t_slots t) key todo" "0 \<le> sq" "sq + int (length todo) < 2 ^ 31"
  shows "if \<forall>j \<in> {sq + 1..sq + int (length todo)}. int_key j \<in> dom (tab_map (t_slots t))
    then issequential_loop (env, i) sq (L\<lparr> ls_stack := key # xs \<rparr>) = Some (Inr (True, sq + int (length todo)), L\<lparr> ls_stack := xs \<rparr>)
    else \<exists>k j. issequential_loop (env, i) sq (L\<lparr> ls_stack := key # xs \<rparr>) = Some (Inr (False, j), L\<lparr> ls_stack := k # xs \<rparr>)"
  using assms(5-7)
proof (induction todo arbitrary: key sq)
  case Nil
  then show ?case
    by (subst issequential_loop.simps) (use tab in \<open>simp add: lua_simps lua_next_run [OF _ _ _ _ _ Nil(1)]\<close>)
next
  case (Cons s todo)
  obtain k v where s: "s = (k, v)" by (cases s)
  note at = at_key_step [OF Cons.prems(1) [unfolded s]]
  have nx: "lua_next env i (L\<lparr> ls_stack := key # xs \<rparr>) = Some (Inr True, L\<lparr> ls_stack := v # k # xs \<rparr>)"
    using lua_next_run [OF _ _ _ _ _ Cons.prems(1) [unfolded s]] tab by simp
  have lt: "sq + 1 < 2 ^ 31" using Cons.prems(3) by simp
  have get: "(lj_tab_get (t_slots t) (int_key (sq + 1)) = VNil) = (int_key (sq + 1) \<notin> dom (tab_map (t_slots t)))"
    by (auto simp: tab_get_map split: option.splits)
  have tag: "(value_tag w = LUA_TNIL) = (w = VNil)" for w by (cases w) simp_all
  have step: "issequential_loop (env, i) sq (L\<lparr> ls_stack := key # xs \<rparr>) = (if int_key (sq + 1) \<in> dom (tab_map (t_slots t))
      then issequential_loop (env, i) (sq + 1) (L\<lparr> ls_stack := k # xs \<rparr>) else Some (Inr (False, sq + 1), L\<lparr> ls_stack := k # xs \<rparr>))"
    by (subst issequential_loop.simps)
      (use lt tab get [unfolded int_key_def] in \<open>simp add: lua_simps nx int_inc_def tag int_key_def add.commute\<close>)
  have set: "{sq + 1..sq + int (length (s # todo))} = insert (sq + 1) {sq + 1 + 1..sq + 1 + int (length todo)}" by auto
  show ?case
  proof (cases "int_key (sq + 1) \<in> dom (tab_map (t_slots t))")
    case True
    have "sq + 1 + int (length todo) < 2 ^ 31" using Cons.prems(3) by simp
    with Cons.IH [OF at, of "sq + 1"] Cons.prems(2) True show ?thesis unfolding step set by (simp add: add.assoc)
  qed (use set step in auto)
qed

text \<open>As many entries as consecutive indices that are all there: these are all keys.\<close>

lemma keys_consecutive:
  assumes "finite D" "card D = n"
  shows "(\<forall>j \<in> {1..int n}. int_key j \<in> D) \<longleftrightarrow> D = int_key ` {1..int n}"
proof
  assume "\<forall>j \<in> {1..int n}. int_key j \<in> D"
  then have "int_key ` {1..int n} \<subseteq> D" by auto
  moreover have "card (int_key ` {1..int n}) = n" by (subst card_image) (auto simp: inj_on_def)
  ultimately show "D = int_key ` {1..int n}" using card_subset_eq [OF assms(1)] assms(2) by metis
qed auto

text \<open>
  (C38) Whether a table is an array. The test with one pass over the table and a counter says true exactly
  if the keys are the integers from one to some \<open>n\<close> above zero, wherever the traversal finds them, and
  leaves the state, stack included, as it was.
\<close>

theorem table_issequential_correct:
  assumes "ls_stack L = xs" "on_stack idx xs" "idx \<noteq> 0" "from_base xs (abs_idx idx (length xs)) = VTable a"
    "ls_tables L a = Some t" "tab_wf (t_slots t)" "length (tab_entries (t_slots t)) < 2 ^ 31"
  shows "luautils_table_issequential env idx L = Some (Inr (\<exists>n > 0. dom (tab_map (t_slots t)) = int_key ` {1..int n}), L)"
proof -
  let ?i = "abs_idx idx (length xs)" and ?n = "length (tab_entries (t_slots t))" and ?D = "dom (tab_map (t_slots t))"
  note o = on_stackD [OF assms(2)]
  have L: "L\<lparr> ls_stack := xs \<rparr> = L" using assms(1) by (cases L) simp
  have "card (set (map fst (tab_entries (t_slots t)))) = ?n" using distinct_card [OF tab_entries_map(2) [OF assms(6)]] by simp
  moreover have D: "?D = set (map fst (tab_entries (t_slots t)))" using tab_entries_map(1) [OF assms(6)] by (metis dom_map_of_conv_image_fst list.set_map)
  ultimately have card: "card ?D = ?n" "finite ?D" by simp_all
  have start: "luautils_table_issequential env idx L = lbind (issequential_loop (env, ?i) 0) (\<lambda>(result, sq).
     lthen (if \<not> result then lua_pop 1 else lret ()) (lret (result \<and> 0 < sq))) (L\<lparr> ls_stack := VNil # xs \<rparr>)"
    using assms(1,3,4) o by (simp add: luautils_table_issequential_def lua_simps)
  have "0 + int ?n < 2 ^ 31" using assms(7) by simp
  from issequential_loop_spec [OF o assms(4,5) at_key_start [OF assms(6)] order_refl this, of env]
  have loop: "if ?D = int_key ` {1..int ?n}
    then issequential_loop (env, ?i) 0 (L\<lparr> ls_stack := VNil # xs \<rparr>) = Some (Inr (True, int ?n), L\<lparr> ls_stack := xs \<rparr>)
    else \<exists>k j. issequential_loop (env, ?i) 0 (L\<lparr> ls_stack := VNil # xs \<rparr>) = Some (Inr (False, j), L\<lparr> ls_stack := k # xs \<rparr>)"
    using keys_consecutive [OF card(2,1)] by simp
  have iff: "(\<exists>n > 0. ?D = int_key ` {1..int n}) \<longleftrightarrow> ?D = int_key ` {1..int ?n} \<and> 0 < ?n"
  proof
    assume "\<exists>n > 0. ?D = int_key ` {1..int n}"
    then obtain n :: nat where n: "0 < n" "?D = int_key ` {1..int n}" by blast
    then have "card ?D = n" by (simp add: card_image inj_on_def)
    with n card show "?D = int_key ` {1..int ?n} \<and> 0 < ?n" by simp
  qed auto
  show ?thesis
  proof (cases "?D = int_key ` {1..int ?n}")
    case True
    with loop have "issequential_loop (env, ?i) 0 (L\<lparr> ls_stack := VNil # xs \<rparr>) = Some (Inr (True, int ?n), L\<lparr> ls_stack := xs \<rparr>)" by simp
    then show ?thesis unfolding start iff using True L by (simp add: lua_simps)
  next
    case False
    with loop obtain k j where "issequential_loop (env, ?i) 0 (L\<lparr> ls_stack := VNil # xs \<rparr>) = Some (Inr (False, j), L\<lparr> ls_stack := k # xs \<rparr>)" by auto
    then show ?thesis unfolding start iff using False L by (simp add: lua_simps)
  qed
qed

lemma table_issequential_correct_witness:
  "luautils_table_issequential plain_lua (- 1) (sample_state [VTable 5] [(int_key 2, VNil), (int_key 1, VBool True)])
    = Some (Inr True, sample_state [VTable 5] [(int_key 2, VNil), (int_key 1, VBool True)])"
proof -
  let ?sl = "[(int_key 2, VNil), (int_key 1, VBool True)]"
  have s: "ls_stack (sample_state [VTable 5] ?sl) = [VTable 5]" "on_stack (- 1) [VTable 5]" "(- 1 :: int) \<noteq> 0" "from_base [VTable 5] (abs_idx (- 1) (length [VTable 5])) = VTable 5"
    "ls_tables (sample_state [VTable 5] ?sl) 5 = Some (some_table ?sl)" "tab_wf (t_slots (some_table ?sl))" "length (tab_entries (t_slots (some_table ?sl))) < 2 ^ 31"
    by (simp_all add: sample_state_def some_table_def on_stack_def abs_idx_def tab_wf_def tab_entries_def slot_live_def)
  have "dom (tab_map (t_slots (some_table ?sl))) = {int_key 1}"
    by (auto simp: tab_map_def some_table_def split: if_splits)
  then have "\<exists>n > 0. dom (tab_map (t_slots (some_table ?sl))) = int_key ` {1..int n}" by (intro exI [of _ 1]) simp
  with table_issequential_correct [OF s] show ?thesis by simp
qed

lemma key_index_int: "\<bar>i\<bar> < 2 ^ 31 \<Longrightarrow> key_index env (int_key i) = Some i"
  by (auto simp add: key_index_def int_key_def value_number_def double_to_int_def Let_def int32_id)

lemma highest_Cons:
  "highest env (l # ks) n = highest env ks (case key_index env l of None \<Rightarrow> n | Some i \<Rightarrow> max n i)"
  by (simp add: highest_def)

lemma highest_ge: "n \<le> highest env ks n"
proof (induction ks arbitrary: n)
  case (Cons l ks)
  have "n \<le> (case key_index env l of None \<Rightarrow> n | Some i \<Rightarrow> max n i)" by (simp split: option.split)
  with Cons.IH show ?case unfolding highest_Cons by (meson order_trans)
qed (simp add: highest_def)

lemma highest_upper: "k \<in> set ks \<Longrightarrow> key_index env k = Some i \<Longrightarrow> i \<le> highest env ks n"
proof (induction ks arbitrary: n)
  case (Cons l ks)
  show ?case
  proof (cases "k = l")
    case True
    then have "i \<le> (case key_index env l of None \<Rightarrow> n | Some i \<Rightarrow> max n i)" using Cons.prems(2) by simp
    with highest_ge show ?thesis unfolding highest_Cons by (meson order_trans)
  qed (use Cons in \<open>simp add: highest_Cons\<close>)
qed simp

lemma table_count_run:
  assumes "ls_stack L = xs" "0 < i" "i \<le> int (length xs)" "from_base xs i = VTable a" "ls_tables L a = Some t" "tab_wf (t_slots t)"
    and "keys = map fst (tab_entries (t_slots t))" "maxn \<Longrightarrow> \<forall>k \<in> set keys. key_in_range env k"
  shows "luautils_table_count env i maxn L =
    Some (Inr (length keys mod 2 ^ 64, if maxn then Some (highest env keys 0) else None), L)"
proof -
  have L: "L\<lparr> ls_stack := xs \<rparr> = L" using assms(1) by (cases L) simp
  let ?m = "if maxn then Some 0 else None"
  have "table_count_loop (env, i) (0 mod 2 ^ 64, ?m) (L\<lparr> ls_stack := VNil # xs \<rparr>)
    = Some (Inr ((0 + length (tab_entries (t_slots t))) mod 2 ^ 64, map_option (highest env keys) ?m), L\<lparr> ls_stack := xs \<rparr>)"
    unfolding assms(7) by (rule count_loop_spec [OF assms(2-5) at_key_start [OF assms(6)]]) (use assms(7,8) in \<open>auto split: if_splits\<close>)
  then show ?thesis
    using assms(1-4,7) L by (simp add: luautils_table_count_def lua_simps Let_def split: if_splits)
qed

text \<open>
  Appending. Without a position the value on top goes to the index after the highest, where strings that read as numbers
  and the integer parts of fractions count too; with a position it goes there. Everything else in the table stays, and no
  entry with an integer key is overwritten when no position is given.
\<close>

theorem table_append_correct:
  assumes "lua_env_ok env" "ls_stack L = v # xs" "on_stack idx (v # xs)" "idx \<noteq> 0" "from_base (v # xs) (abs_idx idx (Suc (length xs))) = VTable a"
    "ls_tables L a = Some t" "tab_wf (t_slots t)" "t_meta t = None" "\<forall>k \<in> dom (tab_map (t_slots t)). key_in_range env k"
    and "n = (if pos < 1 then highest env (map fst (tab_entries (t_slots t))) 0 + 1 else pos)" "n < 2 ^ 31" "v \<noteq> VNil"
  shows "(\<exists>slots. luautils_table_append env idx pos 1 L =
      Some (Inr (), L\<lparr> ls_stack := xs, ls_tables := (ls_tables L)(a \<mapsto> t\<lparr> t_slots := slots \<rparr>) \<rparr>)
      \<and> tab_map slots = (tab_map (t_slots t))(int_key n \<mapsto> v))
    \<and> (pos < 1 \<longrightarrow> (\<forall>i. int_key i \<in> dom (tab_map (t_slots t)) \<longrightarrow> \<bar>i\<bar> < 2 ^ 31 \<longrightarrow> i < n))"
proof -
  let ?xs = "v # xs" and ?i = "abs_idx idx (Suc (length xs))" and ?keys = "map fst (tab_entries (t_slots t))"
  have o: "0 < ?i" "?i \<le> int (length ?xs)" using on_stackD [OF assms(3)] by simp_all
  have dom: "set ?keys = dom (tab_map (t_slots t))"
    using tab_entries_map(1) [OF assms(7)] by (metis dom_map_of_conv_image_fst list.set_map)
  have cnt: "luautils_table_count env ?i True L = Some (Inr (length ?keys mod 2 ^ 64, Some (highest env ?keys 0)), L)"
    using table_count_run [OF assms(2) o assms(5-7) refl, of True env] assms(9) unfolding dom by simp
  have n: "0 < n" using assms(10) highest_ge [of 0 env ?keys] by (simp split: if_splits)
  have pos: "(if pos < 1 then lbind (luautils_table_count env ?i True) (\<lambda>(_, maxn). int_inc (the maxn)) else lret pos) L = Some (Inr n, L)"
    using assms(10,11) cnt by (cases "pos < 1") (simp_all add: lua_simps int_inc_def)
  let ?slots = "lj_tab_set env (t_slots t) (int_key n) v"
  have "luautils_table_append env idx pos 1 L = Some (Inr (), L\<lparr> ls_stack := xs, ls_tables := (ls_tables L)(a \<mapsto> t\<lparr> t_slots := ?slots \<rparr>) \<rparr>)"
    using assms(1,2,4-6,8,11) o n pos unfolding luautils_table_append_def
    by (simp add: lua_simps)
  moreover have "tab_map ?slots = (tab_map (t_slots t))(int_key n \<mapsto> v)"
    using tab_set_spec [OF assms(1,7), of "int_key n" v] assms(12) by simp
  moreover have "i < n" if "pos < 1" "int_key i \<in> dom (tab_map (t_slots t))" "\<bar>i\<bar> < 2 ^ 31" for i
    using highest_upper [of "int_key i" ?keys env i 0] key_index_int [OF that(3)] that(1,2) dom assms(10) by simp
  ultimately show ?thesis by blast
qed

lemma table_append_correct_witness:
  "\<exists>t. luautils_table_append plain_lua 1 0 1 (sample_state [VBool True, VTable 5] [(int_key 3, VBool False)])
      = Some (Inr (), (sample_state [VTable 5] [(int_key 3, VBool False)])
          \<lparr> ls_tables := (ls_tables (sample_state [] [(int_key 3, VBool False)]))(5 \<mapsto> t) \<rparr>)
    \<and> tab_map (t_slots t) (int_key 4) = Some (VBool True)"
proof -
  let ?sl = "[(int_key 3, VBool False)]" and ?v = "VBool True"
  have s: "ls_stack (sample_state [?v, VTable 5] ?sl) = [?v, VTable 5]" "on_stack 1 [?v, VTable 5]" "(1 :: int) \<noteq> 0"
    "from_base [?v, VTable 5] (abs_idx 1 (Suc (length [VTable 5]))) = VTable 5" "ls_tables (sample_state [?v, VTable 5] ?sl) 5 = Some (some_table ?sl)"
    "tab_wf (t_slots (some_table ?sl))" "t_meta (some_table ?sl) = None"
    by (simp_all add: sample_state_def some_table_def on_stack_def tab_wf_def)
  have ix: "key_index plain_lua (int_key 3) = Some 3"
    using int32_id [of 3] by (simp add: key_index_def value_number_def double_to_int_def int_key_def truncate_rat_def)
  have r: "\<forall>k \<in> dom (tab_map (t_slots (some_table ?sl))). key_in_range plain_lua k"
    by (auto simp: tab_map_def some_table_def key_in_range_def ix split: if_splits)
  have n: "highest plain_lua (map fst (tab_entries (t_slots (some_table ?sl)))) 0 = 3"
    by (simp add: highest_def tab_entries_def some_table_def slot_live_def ix)
  show ?thesis
    using table_append_correct [OF plain_lua_ok s r refl, of 0] n by (auto simp: sample_state_def)
qed


subsection \<open>Merging\<close>

lemma at_key_distinct:
  assumes "at_key slots key todo"
  shows "distinct (map fst todo)" "\<forall>(k, v) \<in> set todo. v \<noteq> VNil \<and> k \<noteq> VNil \<and> k \<noteq> VNum NaN"
proof -
  from assms obtain rest pre where r: "tab_wf slots" "todo = filter slot_live rest" "slots = pre @ rest"
    unfolding at_key_def by (metis append.left_neutral append.assoc append_Cons)
  then show "distinct (map fst todo)" by (simp add: distinct_map_filter tab_wf_def)
  show "\<forall>(k, v) \<in> set todo. v \<noteq> VNil \<and> k \<noteq> VNil \<and> k \<noteq> VNum NaN"
    using r by (force simp: tab_wf_def slot_live_def)
qed

lemma merge_fields_spec:
  assumes tab: "0 < i" "i \<le> int (length xs)" "from_base xs i = VTable a" "a \<noteq> b" and env: "lua_env_ok env"
    and dest: "0 < d" "d \<le> int (length xs)" "from_base xs d = VTable b" "t_meta td = None"
    and "at_key (t_slots t) key todo" "ls_tables L a = Some t" "ls_tables L b = Some (td\<lparr> t_slots := sl \<rparr>)" "tab_wf sl"
  shows "\<exists>sl'. merge_fields_loop (env, i, d) (L\<lparr> ls_stack := key # xs \<rparr>)
      = Some (Inr (), L\<lparr> ls_stack := xs, ls_tables := (ls_tables L)(b \<mapsto> td\<lparr> t_slots := sl' \<rparr>) \<rparr>)
    \<and> tab_wf sl' \<and> tab_map sl' = tab_map sl ++ map_of todo"
  using assms(10-13)
proof (induction todo arbitrary: key L sl)
  case Nil
  have "merge_fields_loop (env, i, d) (L\<lparr> ls_stack := key # xs \<rparr>) = Some (Inr (), L\<lparr> ls_stack := xs \<rparr>)"
    by (subst merge_fields_loop.simps) (use Nil tab in \<open>simp add: lua_simps lua_next_run [OF _ _ _ _ _ Nil(1)]\<close>)
  moreover have "L\<lparr> ls_stack := xs, ls_tables := (ls_tables L)(b \<mapsto> td\<lparr> t_slots := sl \<rparr>) \<rparr> = L\<lparr> ls_stack := xs \<rparr>"
    using same_tables [of "L\<lparr> ls_stack := xs \<rparr>" b] Nil.prems(3) by simp
  moreover have "tab_map sl ++ map_of [] = tab_map sl" by simp
  ultimately show ?case using Nil.prems(4) by metis
next
  case (Cons s todo)
  obtain k v where s: "s = (k, v)" by (cases s)
  note at = at_key_step [OF Cons.prems(1) [unfolded s]]
  have kv: "k \<noteq> VNil" "k \<noteq> VNum NaN" "v \<noteq> VNil" "k \<notin> fst ` set todo"
    using at_key_distinct [OF Cons.prems(1)] by (auto simp: s)
  have nx: "lua_next env i (L\<lparr> ls_stack := key # xs \<rparr>) = Some (Inr True, L\<lparr> ls_stack := v # k # xs \<rparr>)"
    using lua_next_run [OF _ _ _ _ _ Cons.prems(1) [unfolded s]] tab Cons.prems(2) by simp
  let ?sl = "lj_tab_set env sl k v"
  let ?L = "L\<lparr> ls_tables := (ls_tables L)(b \<mapsto> td\<lparr> t_slots := ?sl \<rparr>) \<rparr>"
  have step: "merge_fields_loop (env, i, d) (L\<lparr> ls_stack := key # xs \<rparr>) = merge_fields_loop (env, i, d) (?L\<lparr> ls_stack := k # xs \<rparr>)"
    by (subst merge_fields_loop.simps) (use dest Cons.prems(3) kv in \<open>simp add: lua_simps nx\<close>)
  have sp: "tab_wf ?sl" "tab_map ?sl = (tab_map sl)(k \<mapsto> v)" using tab_set_spec [OF env Cons.prems(4) kv(1,2), of v] kv(3) by simp_all
  have "ls_tables ?L a = Some t" "ls_tables ?L b = Some (td\<lparr> t_slots := ?sl \<rparr>)" using Cons.prems(2) tab(4) by simp_all
  from Cons.IH [OF at this sp(1)] obtain sl' where
    "merge_fields_loop (env, i, d) (?L\<lparr> ls_stack := k # xs \<rparr>) = Some (Inr (), ?L\<lparr> ls_stack := xs, ls_tables := (ls_tables ?L)(b \<mapsto> td\<lparr> t_slots := sl' \<rparr>) \<rparr>)"
    "tab_wf sl'" "tab_map sl' = tab_map ?sl ++ map_of todo" by blast
  moreover have "tab_map ?sl ++ map_of todo = tab_map sl ++ map_of (s # todo)"
  proof -
    have "map_of todo k = None" using kv(4) by (simp add: map_of_eq_None_iff)
    then show ?thesis unfolding sp(2) by (auto simp: s map_add_def fun_eq_iff split: option.split)
  qed
  moreover have "?L\<lparr> ls_stack := xs, ls_tables := (ls_tables ?L)(b \<mapsto> td\<lparr> t_slots := sl' \<rparr>) \<rparr>
    = L\<lparr> ls_stack := xs, ls_tables := (ls_tables L)(b \<mapsto> td\<lparr> t_slots := sl' \<rparr>) \<rparr>" by simp
  ultimately show ?case unfolding step by metis
qed

text \<open>The map that results from merging tables, later ones first to be found.\<close>

fun merged :: "(nat \<Rightarrow> lua_table option) \<Rightarrow> lua_value list \<Rightarrow> (lua_value \<Rightarrow> lua_value option) \<Rightarrow> lua_value \<Rightarrow> lua_value option" where
  "merged T [] m = m"
| "merged T (VTable a # vs) m = merged T vs (m ++ (case T a of None \<Rightarrow> Map.empty | Some t \<Rightarrow> tab_map (t_slots t)))"
| "merged T (_ # vs) m = merged T vs m"

lemma merge_loop_spec:
  assumes env: "lua_env_ok env" and dest: "0 < d" "d \<le> int (length xs)" "from_base xs d = VTable b" "t_meta td = None"
    and to: "to \<le> int (length xs)" "int (length xs) < 2 ^ 31 - 1"
    and "0 < fr" "fr \<le> to + 1" "ls_tables L b = Some (td\<lparr> t_slots := sl \<rparr>)" "tab_wf sl"
    and "\<forall>j \<in> {fr..to}. from_base xs j = VNil \<or> (\<exists>a t. from_base xs j = VTable a \<and> a \<noteq> b \<and> ls_tables L a = Some t \<and> tab_wf (t_slots t))"
  shows "\<exists>sl'. table_merge_loop (env, to, d) fr (L\<lparr> ls_stack := xs \<rparr>)
      = Some (Inr (), L\<lparr> ls_stack := xs, ls_tables := (ls_tables L)(b \<mapsto> td\<lparr> t_slots := sl' \<rparr>) \<rparr>)
    \<and> tab_map sl' = merged (\<lambda>a. if a = b then None else ls_tables L a) (map (from_base xs) [fr..to]) (tab_map sl)"
  using assms(8-12)
proof (induction "nat (to + 1 - fr)" arbitrary: fr L sl)
  case 0
  then have "to < fr" by simp
  then have "table_merge_loop (env, to, d) fr (L\<lparr> ls_stack := xs \<rparr>) = Some (Inr (), L\<lparr> ls_stack := xs \<rparr>)"
    by (subst table_merge_loop.simps) (simp add: lua_simps)
  moreover have "L\<lparr> ls_stack := xs, ls_tables := (ls_tables L)(b \<mapsto> td\<lparr> t_slots := sl \<rparr>) \<rparr> = L\<lparr> ls_stack := xs \<rparr>"
    using same_tables [of "L\<lparr> ls_stack := xs \<rparr>" b] 0(4) by simp
  moreover have "[fr..to] = []" using \<open>to < fr\<close> by simp
  ultimately show ?case by (metis list.map(1) merged.simps(1))
next
  case (Suc n)
  then have le: "fr \<le> to" "fr + 1 < 2 ^ 31" using to by simp_all
  have rng: "0 < fr" "fr \<le> int (length xs)" using Suc.prems(1) le to by simp_all
  have fr: "fr \<in> {fr..to}" using le by simp
  have list: "[fr..to] = fr # [fr + 1..to]" using le by (simp add: upto_rec1)
  let ?T = "\<lambda>L a. if a = b then None else ls_tables L a"
  let ?up = "\<lambda>sl. L\<lparr> ls_tables := (ls_tables L)(b \<mapsto> td\<lparr> t_slots := sl \<rparr>) \<rparr>"
  have "\<exists>sl1. table_merge_loop (env, to, d) fr (L\<lparr> ls_stack := xs \<rparr>) = table_merge_loop (env, to, d) (fr + 1) ((?up sl1)\<lparr> ls_stack := xs \<rparr>)
      \<and> tab_wf sl1 \<and> tab_map sl1 = merged (?T L) [from_base xs fr] (tab_map sl)"
    using Suc.prems(5) [rule_format, OF fr]
  proof (elim disjE exE conjE)
    assume v: "from_base xs fr = VNil"
    have "table_merge_loop (env, to, d) fr (L\<lparr> ls_stack := xs \<rparr>) = table_merge_loop (env, to, d) (fr + 1) (L\<lparr> ls_stack := xs \<rparr>)"
      by (subst table_merge_loop.simps) (use rng le v in \<open>simp add: lua_simps int_inc_def\<close>)
    then show ?thesis using same_tables [OF Suc.prems(3)] Suc.prems(4) v by (metis merged.simps(1,3))
  next
    fix a t
    assume v: "from_base xs fr = VTable a" "a \<noteq> b" "ls_tables L a = Some t" "tab_wf (t_slots t)"
    from merge_fields_spec [OF rng v(1,2) env dest at_key_start [OF v(4)] v(3) Suc.prems(3,4)]
    obtain sl1 where f: "merge_fields_loop (env, fr, d) (L\<lparr> ls_stack := VNil # xs \<rparr>) = Some (Inr (), (?up sl1)\<lparr> ls_stack := xs \<rparr>)"
      "tab_wf sl1" "tab_map sl1 = tab_map sl ++ map_of (tab_entries (t_slots t))" by auto
    have "table_merge_loop (env, to, d) fr (L\<lparr> ls_stack := xs \<rparr>) = table_merge_loop (env, to, d) (fr + 1) ((?up sl1)\<lparr> ls_stack := xs \<rparr>)"
      by (subst table_merge_loop.simps) (use rng le v(1) f(1) in \<open>simp add: lua_simps int_inc_def\<close>)
    moreover have "tab_map sl1 = merged (?T L) [from_base xs fr] (tab_map sl)"
      using v(1-3) f(3) tab_entries_map(1) [OF v(4)] by simp
    ultimately show ?thesis using f(2) by blast
  qed
  then obtain sl1 where sl1: "table_merge_loop (env, to, d) fr (L\<lparr> ls_stack := xs \<rparr>) = table_merge_loop (env, to, d) (fr + 1) ((?up sl1)\<lparr> ls_stack := xs \<rparr>)"
    "tab_wf sl1" "tab_map sl1 = merged (?T L) [from_base xs fr] (tab_map sl)" by blast
  have "ls_tables (?up sl1) b = Some (td\<lparr> t_slots := sl1 \<rparr>)" by simp
  moreover have "\<forall>j \<in> {fr + 1..to}. from_base xs j = VNil \<or> (\<exists>a t. from_base xs j = VTable a \<and> a \<noteq> b \<and> ls_tables (?up sl1) a = Some t \<and> tab_wf (t_slots t))"
  proof
    fix j
    assume "j \<in> {fr + 1..to}"
    with Suc.prems(5) [rule_format, of j]
    show "from_base xs j = VNil \<or> (\<exists>a t. from_base xs j = VTable a \<and> a \<noteq> b \<and> ls_tables (?up sl1) a = Some t \<and> tab_wf (t_slots t))" by fastforce
  qed
  moreover have "n = nat (to + 1 - (fr + 1))" "0 < fr + 1" "fr + 1 \<le> to + 1" using Suc.hyps(2) le rng by simp_all
  ultimately obtain sl' where "table_merge_loop (env, to, d) (fr + 1) ((?up sl1)\<lparr> ls_stack := xs \<rparr>)
      = Some (Inr (), (?up sl1)\<lparr> ls_stack := xs, ls_tables := (ls_tables (?up sl1))(b \<mapsto> td\<lparr> t_slots := sl' \<rparr>) \<rparr>)"
    "tab_map sl' = merged (?T (?up sl1)) (map (from_base xs) [fr + 1..to]) (tab_map sl1)"
    using Suc.hyps(1) [of "fr + 1" "?up sl1" sl1] sl1(2) by blast
  moreover have "?T (?up sl1) = ?T L" by (simp add: fun_eq_iff)
  moreover have "merged T (v # vs) m = merged T vs (merged T [v] m)" for T v vs m by (cases v) simp_all
  moreover have "(?up sl1)\<lparr> ls_stack := xs, ls_tables := (ls_tables (?up sl1))(b \<mapsto> td\<lparr> t_slots := sl' \<rparr>) \<rparr>
    = L\<lparr> ls_stack := xs, ls_tables := (ls_tables L)(b \<mapsto> td\<lparr> t_slots := sl' \<rparr>) \<rparr>" by simp
  ultimately show ?case unfolding sl1(1) list list.map sl1(3) by metis
qed

text \<open>
  (C18) Merging tables. The table at the destination is, as a map, updated with every table in the range of indices, one
  after the other, so that later ones override; \<open>nil\<close> is skipped. No other table, and nothing on the stack, changes.
\<close>

theorem table_merge_correct:
  assumes "lua_env_ok env" "ls_stack L = xs" "int (length xs) < 2 ^ 31 - 1" "dest \<noteq> 0" "on_stack dest xs"
    "from_base xs (abs_idx dest (length xs)) = VTable b" "ls_tables L b = Some td" "t_meta td = None" "tab_wf (t_slots td)"
    and "fr \<noteq> 0" "to \<noteq> 0" "f = abs_idx fr (length xs)" "t = abs_idx to (length xs)" "0 < f" "f \<le> t + 1" "t \<le> int (length xs)"
    and "\<forall>j \<in> {f..t}. from_base xs j = VNil \<or> (\<exists>a ta. from_base xs j = VTable a \<and> a \<noteq> b \<and> ls_tables L a = Some ta \<and> tab_wf (t_slots ta))"
  shows "\<exists>slots. luautils_table_merge env fr to dest L = Some (Inr (), L\<lparr> ls_tables := (ls_tables L)(b \<mapsto> td\<lparr> t_slots := slots \<rparr>) \<rparr>)
    \<and> tab_map slots = merged (\<lambda>a. if a = b then None else ls_tables L a) (map (from_base xs) [f..t]) (tab_map (t_slots td))"
proof -
  note o = on_stackD [OF assms(5)]
  have L: "L\<lparr> ls_stack := xs \<rparr> = L" using assms(2) by (cases L) simp
  have "luautils_table_merge env fr to dest L = table_merge_loop (env, t, abs_idx dest (length xs)) f L"
    using assms(2,4,6,10-13) o by (simp add: luautils_table_merge_def lua_simps)
  moreover have "td\<lparr> t_slots := t_slots td \<rparr> = td" by simp
  ultimately show ?thesis
    using merge_loop_spec [OF assms(1) o assms(6,8,16,3,14,15) _ assms(9,17)] assms(7) L by simp
qed

lemma table_merge_correct_witness:
  "\<exists>t. luautils_table_merge plain_lua 2 (- 1) 1 (sample_state [VTable 4, VNil, VTable 3] [])
      = Some (Inr (), (sample_state [VTable 4, VNil, VTable 3] []) \<lparr> ls_tables := (ls_tables (sample_state [] []))(3 \<mapsto> t) \<rparr>)
    \<and> tab_map (t_slots t) (VStr (c_str ''loaded'')) = Some (VTable 4)"
proof -
  let ?xs = "[VTable 4, VNil, VTable 3]"
  let ?td = "some_table [(VStr (c_str ''loaded''), VTable 4)]"
  have s: "ls_stack (sample_state ?xs []) = ?xs" "int (length ?xs) < 2 ^ 31 - 1" "(1 :: int) \<noteq> 0" "on_stack 1 ?xs"
    "from_base ?xs (abs_idx 1 (length ?xs)) = VTable 3" "ls_tables (sample_state ?xs []) 3 = Some ?td" "t_meta ?td = None" "tab_wf (t_slots ?td)"
    "(2 :: int) \<noteq> 0" "(- 1 :: int) \<noteq> 0" "2 = abs_idx 2 (length ?xs)" "3 = abs_idx (- 1) (length ?xs)" "(0 :: int) < 2" "(2 :: int) \<le> 3 + 1" "3 \<le> int (length ?xs)"
    by (simp_all add: sample_state_def some_table_def on_stack_def tab_wf_def abs_idx_def)
  have "{2..3 :: int} = {2, 3}" by auto
  then have v: "\<forall>j \<in> {2..3}. from_base ?xs j = VNil \<or> (\<exists>a ta. from_base ?xs j = VTable a \<and> a \<noteq> 3 \<and> ls_tables (sample_state ?xs []) a = Some ta \<and> tab_wf (t_slots ta))"
    by (simp add: sample_state_def some_table_def tab_wf_def)
  have vals: "map (from_base ?xs) [2..3] = [VNil, VTable 4]" by (simp add: upto_rec1)
  from table_merge_correct [OF plain_lua_ok s v] obtain slots where
    "luautils_table_merge plain_lua 2 (- 1) 1 (sample_state ?xs [])
      = Some (Inr (), (sample_state ?xs []) \<lparr> ls_tables := (ls_tables (sample_state ?xs []))(3 \<mapsto> ?td\<lparr> t_slots := slots \<rparr>) \<rparr>)"
    "tab_map slots = merged (\<lambda>a. if a = 3 then None else ls_tables (sample_state ?xs []) a) [VNil, VTable 4] (tab_map (t_slots ?td))"
    unfolding vals by blast
  moreover have "ls_tables (sample_state ?xs []) 4 = Some (some_table [])" "ls_tables (sample_state ?xs []) = ls_tables (sample_state [] [])"
    by (simp_all add: sample_state_def)
  ultimately show ?thesis by (intro exI [of _ "?td\<lparr> t_slots := slots \<rparr>"]) (simp add: some_table_def tab_map_def)
qed


subsection \<open>Packing\<close>

lemma xpack_loop_spec:
  assumes env: "lua_env_ok env" and to: "to \<le> int (length xs)" "int (length xs) < 2 ^ 31 - 1"
    and "0 < fr" "fr \<le> to + 1" "0 \<le> count" "count < fr" "ls_tables L r = Some (t\<lparr> t_slots := sl \<rparr>)" "tab_wf sl"
  shows "\<exists>sl'. xpack_loop (env, to) (fr, count) (L\<lparr> ls_stack := VTable r # xs \<rparr>)
      = Some (Inr (count + (to + 1 - fr)), L\<lparr> ls_stack := VTable r # xs, ls_tables := (ls_tables L)(r \<mapsto> t\<lparr> t_slots := sl' \<rparr>) \<rparr>)
    \<and> tab_wf sl' \<and> tab_map sl' = put_values (count + 1) (map (from_base xs) [fr..to]) (tab_map sl)"
  using assms(4-9)
proof (induction "nat (to + 1 - fr)" arbitrary: fr count L sl)
  case 0
  then have fr: "fr = to + 1" by simp
  then have "xpack_loop (env, to) (fr, count) (L\<lparr> ls_stack := VTable r # xs \<rparr>) = Some (Inr count, L\<lparr> ls_stack := VTable r # xs \<rparr>)"
    by (subst xpack_loop.simps) (simp add: lua_simps)
  moreover have "L\<lparr> ls_stack := VTable r # xs, ls_tables := (ls_tables L)(r \<mapsto> t\<lparr> t_slots := sl \<rparr>) \<rparr> = L\<lparr> ls_stack := VTable r # xs \<rparr>"
    using same_tables [of "L\<lparr> ls_stack := VTable r # xs \<rparr>" r] 0 by simp
  moreover have "[fr..to] = []" "count + (to + 1 - fr) = count" using fr by simp_all
  ultimately show ?case using 0(7) by (metis list.map(1) put_values.simps(1))
next
  case (Suc n)
  then have le: "fr \<le> to" "fr + 1 < 2 ^ 31" "count + 1 < 2 ^ 31" "\<bar>count + 1\<bar> \<le> 2 ^ 53" using to by simp_all
  have rng: "0 < fr" "fr \<le> int (length xs)" using Suc.prems(1) le to by simp_all
  have list: "[fr..to] = fr # [fr + 1..to]" using le by (simp add: upto_rec1)
  let ?v = "from_base xs fr"
  let ?sl = "lj_tab_set env sl (int_key (count + 1)) ?v"
  let ?L = "L\<lparr> ls_tables := (ls_tables L)(r \<mapsto> t\<lparr> t_slots := ?sl \<rparr>) \<rparr>"
  have step: "xpack_loop (env, to) (fr, count) (L\<lparr> ls_stack := VTable r # xs \<rparr>) = xpack_loop (env, to) (fr + 1, count + 1) (?L\<lparr> ls_stack := VTable r # xs \<rparr>)"
    by (subst xpack_loop.simps) (use rng le Suc.prems(5) env in \<open>simp add: lua_simps int_inc_def\<close>)
  have sp: "tab_wf ?sl" "tab_map ?sl = (tab_map sl)(int_key (count + 1) := if ?v = VNil then None else Some ?v)"
    using tab_set_spec [OF env Suc.prems(6), of "int_key (count + 1)" ?v] by simp_all
  have "n = nat (to + 1 - (fr + 1))" "0 < fr + 1" "fr + 1 \<le> to + 1" "0 \<le> count + 1" "count + 1 < fr + 1"
    "ls_tables ?L r = Some (t\<lparr> t_slots := ?sl \<rparr>)" using Suc.hyps(2) Suc.prems le by simp_all
  from Suc.hyps(1) [OF this sp(1)] obtain sl' where
    "xpack_loop (env, to) (fr + 1, count + 1) (?L\<lparr> ls_stack := VTable r # xs \<rparr>)
      = Some (Inr (count + 1 + (to + 1 - (fr + 1))), ?L\<lparr> ls_stack := VTable r # xs, ls_tables := (ls_tables ?L)(r \<mapsto> t\<lparr> t_slots := sl' \<rparr>) \<rparr>)"
    "tab_wf sl'" "tab_map sl' = put_values (count + 1 + 1) (map (from_base xs) [fr + 1..to]) (tab_map ?sl)" by blast
  moreover have "?L\<lparr> ls_stack := VTable r # xs, ls_tables := (ls_tables ?L)(r \<mapsto> t\<lparr> t_slots := sl' \<rparr>) \<rparr>
    = L\<lparr> ls_stack := VTable r # xs, ls_tables := (ls_tables L)(r \<mapsto> t\<lparr> t_slots := sl' \<rparr>) \<rparr>" by simp
  moreover have "count + 1 + (to + 1 - (fr + 1)) = count + (to + 1 - fr)" by simp
  ultimately show ?case unfolding step list list.map put_values.simps sp(2) [symmetric] by metis
qed

lemma xunpack_loop_spec:
  assumes "lua_env_ok env" "0 < i" "i \<le> int (length xs)" "from_base xs i = VTable a" "ls_tables L a = Some t" "to < 2 ^ 31 - 1"
    and "0 < fr" "fr \<le> to + 1" "0 \<le> count" "count < fr"
  shows "xunpack_loop (env, i, to) (fr, count) (L\<lparr> ls_stack := ys @ xs \<rparr>)
    = Some (Inr (count + (to + 1 - fr)), L\<lparr> ls_stack := rev (map (\<lambda>j. lj_tab_get (t_slots t) (int_key j)) [fr..to]) @ ys @ xs \<rparr>)"
  using assms(7-10)
proof (induction "nat (to + 1 - fr)" arbitrary: fr count ys)
  case 0
  then have "fr = to + 1" by simp
  then show ?case by (subst xunpack_loop.simps) (simp add: lua_simps)
next
  case (Suc n)
  then have le: "fr \<le> to" "fr + 1 < 2 ^ 31" "count + 1 < 2 ^ 31" "\<bar>fr\<bar> \<le> 2 ^ 53" using assms(6) by simp_all
  have list: "[fr..to] = fr # [fr + 1..to]" using le by (simp add: upto_rec1)
  have rng: "i \<le> int (length ys) + int (length xs)" "i \<le> 1 + (int (length ys) + int (length xs))" using assms(3) by simp_all
  let ?v = "lj_tab_get (t_slots t) (int_key fr)"
  have at: "from_base (int_key fr # ys @ xs) i = VTable a" using from_base_append [OF assms(2,3), of "int_key fr # ys"] assms(4) by simp
  have step: "xunpack_loop (env, i, to) (fr, count) (L\<lparr> ls_stack := ys @ xs \<rparr>)
    = xunpack_loop (env, i, to) (fr + 1, count + 1) (L\<lparr> ls_stack := (?v # ys) @ xs \<rparr>)"
    by (subst xunpack_loop.simps) (use assms(1,2,5) le rng at in \<open>simp add: lua_simps int_inc_def\<close>)
  have "n = nat (to + 1 - (fr + 1))" "0 < fr + 1" "fr + 1 \<le> to + 1" "0 \<le> count + 1" "count + 1 < fr + 1"
    using Suc.hyps(2) Suc.prems le by simp_all
  from Suc.hyps(1) [OF this, of "?v # ys"] show ?case unfolding step list by simp
qed

text \<open>
  (C17) Unpacking inverts packing. Values on the stack, \<open>nil\<close> among them and at the end included, come back in the same order and
  number when the packed table is unpacked with the number of elements it stores under zero, and the stack below stays.
\<close>

theorem xpack_xunpack:
  assumes "lua_env_ok env" "ls_stack L = xs" "int (length xs) < 2 ^ 31 - 1" "fr \<noteq> 0"
    and "f = abs_idx fr (length xs)" "t = abs_idx to (length xs)" "0 < f" "f \<le> t + 1" "t \<le> int (length xs)"
    and "vals = map (from_base xs) [f..t]" "r = le_new env L"
  shows "\<exists>tab. let L' = L\<lparr> ls_stack := VTable r # xs, ls_tables := (ls_tables L)(r \<mapsto> tab) \<rparr> in
      luautils_xpack env fr to L = Some (Inr (int (length vals)), L')
    \<and> luautils_xunpack env (- 1) 1 0 L' = Some (Inr (int (length vals)), L'\<lparr> ls_stack := rev vals @ VTable r # xs \<rparr>)"
proof -
  obtain n where nn: "n = t + 1 - f" by simp
  let ?t0 = "\<lparr> t_slots = [], t_meta = None \<rparr>"
  let ?L0 = "L\<lparr> ls_tables := (ls_tables L)(r \<mapsto> ?t0) \<rparr>"
  have n: "int (length vals) = n" "0 \<le> n" "n < 2 ^ 31 - 1" using assms(3,7-10) by (simp_all add: nn)
  have "ls_tables ?L0 r = Some (?t0\<lparr> t_slots := [] \<rparr>)" by simp
  from xpack_loop_spec [OF assms(1,9,3,7,8) order_refl assms(7) this tab_wf_Nil] obtain sl where
    loop: "xpack_loop (env, t) (f, 0) (?L0\<lparr> ls_stack := VTable r # xs \<rparr>)
      = Some (Inr n, ?L0\<lparr> ls_stack := VTable r # xs, ls_tables := (ls_tables ?L0)(r \<mapsto> ?t0\<lparr> t_slots := sl \<rparr>) \<rparr>)"
    and sl: "tab_wf sl" "tab_map sl = put_values 1 vals Map.empty" unfolding assms(10) by (auto simp: nn)
  let ?sl = "lj_tab_set env sl (int_key 0) (int_key n)"
  let ?L = "L\<lparr> ls_stack := VTable r # xs, ls_tables := (ls_tables L)(r \<mapsto> ?t0\<lparr> t_slots := ?sl \<rparr>) \<rparr>"
  have m: "tab_map ?sl = (put_values 1 vals Map.empty)(int_key 0 \<mapsto> int_key n)"
    using tab_set_spec [OF assms(1) sl(1), of "int_key 0" "int_key n"] sl(2) by simp
  have "luautils_xpack env fr to L = Some (Inr n, ?L)"
    using assms(1,2,4-6,11) loop n by (simp add: luautils_xpack_def lua_simps lua_createtable_def Let_def)
  moreover have "luautils_xunpack env (- 1) 1 0 ?L = Some (Inr n, ?L\<lparr> ls_stack := rev vals @ VTable r # xs \<rparr>)"
  proof -
    have get0: "lj_tab_get ?sl (int_key 0) = int_key n" by (simp add: tab_get_map m)
    have getj: "lj_tab_get ?sl (int_key j) = from_base xs (f + j - 1)" if "j \<in> {1..n}" for j
    proof -
      from that n(1) have j: "nat (j - 1) < length vals" "1 + int (nat (j - 1)) = j" "j \<noteq> 0" by auto
      have "vals ! nat (j - 1) = from_base xs (f + j - 1)" using that j(1) assms(8) by (simp add: assms(10) nn algebra_simps)
      with put_values_nth [OF j(1), of 1 Map.empty] j(2,3) show ?thesis by (simp add: tab_get_map m)
    qed
    have "map (\<lambda>j. lj_tab_get ?sl (int_key j)) [1..n] = map (\<lambda>j. from_base xs (f + j - 1)) [1..n]" using getj by simp
    also have "\<dots> = vals" unfolding assms(10) by (rule nth_equalityI) (use assms(8) in \<open>auto simp: nn algebra_simps\<close>)
    finally have vals: "map (\<lambda>j. lj_tab_get ?sl (int_key j)) [1..n] = vals" .
    have loop: "xunpack_loop (env, 1 + int (length xs), n) (1, 0) ?L
      = Some (Inr n, ?L\<lparr> ls_stack := rev vals @ VTable r # xs \<rparr>)"
      using xunpack_loop_spec [of env "1 + int (length xs)" "VTable r # xs" r ?L "?t0\<lparr> t_slots := ?sl \<rparr>" n 1 0 "[]"] assms(1) n(2,3) vals by simp
    have num: "value_number env (int_key n) = Some (Fin (of_int n))" by (simp add: int_key_def value_number_def)
    show ?thesis
      using loop assms(1) get0 n(2,3) num int32_id [of n]
      by (simp add: luautils_xunpack_def lua_upvalueindex_def lua_simps abs_idx_def lua_isnumber_def lua_tointeger_def double_to_int_def Let_def
          add.commute [of 1])
  qed
  ultimately show ?thesis using n(1) by (intro exI [of _ "?t0\<lparr> t_slots := ?sl \<rparr>"]) (simp add: Let_def)
qed

lemma xpack_xunpack_witness:
  "\<exists>tab. let L = (sample_state [VTable (le_new plain_lua (sample_state [VNil, VBool True] [])), VNil, VBool True] [])
        \<lparr> ls_tables := (ls_tables (sample_state [] []))(le_new plain_lua (sample_state [VNil, VBool True] []) \<mapsto> tab) \<rparr> in
      luautils_xpack plain_lua 1 (- 1) (sample_state [VNil, VBool True] []) = Some (Inr 2, L)
    \<and> luautils_xunpack plain_lua (- 1) 1 0 L = Some (Inr 2, L\<lparr> ls_stack := VNil # VBool True # ls_stack L \<rparr>)"
proof -
  let ?xs = "[VNil, VBool True]"
  have s: "ls_stack (sample_state ?xs []) = ?xs" "int (length ?xs) < 2 ^ 31 - 1" "(1 :: int) \<noteq> 0"
    "1 = abs_idx 1 (length ?xs)" "2 = abs_idx (- 1) (length ?xs)" "(0 :: int) < 1" "(1 :: int) \<le> 2 + 1" "2 \<le> int (length ?xs)"
    "[VBool True, VNil] = map (from_base ?xs) [1..2]"
    by (simp_all add: sample_state_def abs_idx_def upto_rec1)
  show ?thesis using xpack_xunpack [OF plain_lua_ok s refl] by (simp add: sample_state_def Let_def)
qed


subsection \<open>Looking for a value\<close>

text \<open>Values that are compared without metamethods and conversions.\<close>

definition plain_value :: "lua_value \<Rightarrow> bool" where
  "plain_value v = (case v of VTable _ \<Rightarrow> False | VUser _ \<Rightarrow> False | VCData _ \<Rightarrow> False | VNum n \<Rightarrow> n \<noteq> NaN | _ \<Rightarrow> True)"

lemma equal_run:
  assumes "plain_value v" "\<forall>a. w \<noteq> VCData a" "ls_stack L = w # k # v # xs"
  shows "luautils_equal env (- 1) (- 3) L = Some (Inr (w = v), L)"
  using assms
  by (cases v; cases w)
    (auto simp: luautils_equal_def lua_equal_def plain_value_def lua_simps split: lua_number.splits)

lemma keyof_loop_spec:
  assumes tab: "0 < i" "i \<le> int (length xs)" "from_base xs i = VTable a" "ls_tables L a = Some t"
    and "plain_value v" "at_key (t_slots t) key todo" "\<forall>(k, w) \<in> set todo. \<forall>c. w \<noteq> VCData c"
  shows "table_keyof_loop (env, i) (L\<lparr> ls_stack := key # v # xs \<rparr>) = Some (case find (\<lambda>s. snd s = v) todo of
      None \<Rightarrow> (Inr False, L\<lparr> ls_stack := VNil # xs \<rparr>)
    | Some s \<Rightarrow> (Inr True, L\<lparr> ls_stack := fst s # xs \<rparr>))"
  using assms(6,7)
proof (induction todo arbitrary: key)
  case Nil
  then show ?case
    by (subst table_keyof_loop.simps) (use tab in \<open>simp add: lua_simps lua_next_run [OF _ _ _ _ _ Nil(1)]\<close>)
next
  case (Cons s todo)
  obtain k w where s: "s = (k, w)" by (cases s)
  note at = at_key_step [OF Cons.prems(1) [unfolded s]]
  have nx: "lua_next env i (L\<lparr> ls_stack := key # v # xs \<rparr>) = Some (Inr True, L\<lparr> ls_stack := w # k # v # xs \<rparr>)"
    using lua_next_run [OF _ _ _ _ _ Cons.prems(1) [unfolded s]] tab by simp
  have "\<forall>a. w \<noteq> VCData a" using Cons.prems(2) by (simp add: s)
  then have eq: "luautils_equal env (- 1) (- 3) (L\<lparr> ls_stack := w # k # v # xs \<rparr>) = Some (Inr (w = v), L\<lparr> ls_stack := w # k # v # xs \<rparr>)"
    by (rule equal_run [OF assms(5)]) simp
  have "table_keyof_loop (env, i) (L\<lparr> ls_stack := key # v # xs \<rparr>) = (if w = v then Some (Inr True, L\<lparr> ls_stack := k # xs \<rparr>)
      else table_keyof_loop (env, i) (L\<lparr> ls_stack := k # v # xs \<rparr>))"
    by (subst table_keyof_loop.simps) (simp add: lua_simps nx eq)
  with Cons.IH [OF at] Cons.prems(2) show ?case by (simp add: s)
qed

text \<open>
  Looking for a value. The first key in the order of traversal whose value equals the one on top takes its place; if there is
  none, \<open>nil\<close> does. For \<open>nil\<close> itself the value stays and another \<open>nil\<close> is pushed: the stack grows by one.
\<close>

theorem table_keyof_correct:
  assumes "ls_stack L = v # xs" "abs_idx idx (Suc (length xs)) = i" "0 < i" "i \<le> int (length xs)" "from_base xs i = VTable a" "ls_tables L a = Some t" "tab_wf (t_slots t)"
    and "plain_value v" "\<forall>(k, w) \<in> set (tab_entries (t_slots t)). \<forall>c. w \<noteq> VCData c"
  shows "luautils_table_keyof env idx L = Some (if v = VNil then (Inr False, L\<lparr> ls_stack := VNil # VNil # xs \<rparr>)
    else case find (\<lambda>s. snd s = v) (tab_entries (t_slots t)) of
      None \<Rightarrow> (Inr False, L\<lparr> ls_stack := VNil # xs \<rparr>)
    | Some s \<Rightarrow> (Inr True, L\<lparr> ls_stack := fst s # xs \<rparr>))"
proof -
  have tag: "(value_tag v = LUA_TNIL) = (v = VNil)" by (cases v) simp_all
  have "luautils_table_keyof env idx L = (if v = VNil then Some (Inr False, L\<lparr> ls_stack := VNil # VNil # xs \<rparr>)
    else table_keyof_loop (env, i) (L\<lparr> ls_stack := VNil # v # xs \<rparr>))"
    using assms(1-5) tag by (simp add: luautils_table_keyof_def lua_simps)
  then show ?thesis using keyof_loop_spec [OF assms(3-6,8) at_key_start [OF assms(7)] assms(9)] by simp
qed

lemma table_keyof_correct_witness:
  "luautils_table_keyof plain_lua 1 (sample_state [VBool True, VTable 5] [(VStr [120], VNil), (VStr [121], VBool True)])
    = Some (Inr True, sample_state [VStr [121], VTable 5] [(VStr [120], VNil), (VStr [121], VBool True)])"
proof -
  let ?sl = "[(VStr [120], VNil), (VStr [121], VBool True)]" and ?v = "VBool True"
  have s: "ls_stack (sample_state [?v, VTable 5] ?sl) = ?v # [VTable 5]" "abs_idx 1 (Suc (length [VTable 5])) = 1" "(0 :: int) < 1" "1 \<le> int (length [VTable 5])"
    "from_base [VTable 5] 1 = VTable 5" "ls_tables (sample_state [?v, VTable 5] ?sl) 5 = Some (some_table ?sl)" "tab_wf (t_slots (some_table ?sl))"
    "plain_value ?v" "\<forall>(k, w) \<in> set (tab_entries (t_slots (some_table ?sl))). \<forall>c. w \<noteq> VCData c"
    by (simp_all add: sample_state_def some_table_def tab_wf_def plain_value_def tab_entries_def)
  show ?thesis using table_keyof_correct [OF s] by (simp add: some_table_def tab_entries_def slot_live_def) (simp add: sample_state_def)
qed

end
