(* ===== verification/LuaFields.thy ===== *)
theory LuaFields
  imports LuaUtils
begin

text \<open>
  The macros of \<^verbatim>\<open>core/luahelpers.h\<close> that register functions and set globals, and those of
  \<^verbatim>\<open>core/luautils_kv.inc\<close> that set a field of the table on top of the stack. A C function is its name;
  \<open>printf_ptr\<close> is \<^verbatim>\<open>snprintf\<close> of a pointer with a format.
\<close>

subsection \<open>Globals\<close>

definition LREG_NAME :: "lua_env \<Rightarrow> string \<Rightarrow> bytes \<Rightarrow> unit lua" where
  "LREG_NAME env func name = lthen (lua_pushcfunction env func) (lua_setglobal env name)"

definition LREG :: "lua_env \<Rightarrow> string \<Rightarrow> unit lua" where
  "LREG env func = LREG_NAME env func (c_str func)"

definition lua_setglobal_int :: "lua_env \<Rightarrow> bytes \<Rightarrow> int \<Rightarrow> unit lua" where
  "lua_setglobal_int env name v = lthen (lua_pushinteger env v) (lua_setglobal env name)"

definition LENUM :: "lua_env \<Rightarrow> string \<Rightarrow> int \<Rightarrow> unit lua" where
  "LENUM env name v = lua_setglobal_int env (c_str name) v"

definition lua_setglobal_str :: "lua_env \<Rightarrow> bytes \<Rightarrow> bytes option \<Rightarrow> unit lua" where
  "lua_setglobal_str env name v = lthen (lua_pushstring v) (lua_setglobal env name)"

definition lua_setglobal_ptr :: "lua_env \<Rightarrow> bytes \<Rightarrow> nat \<Rightarrow> unit lua" where
  "lua_setglobal_ptr env name p = lthen (lua_pushlightuserdata env p) (lua_setglobal env name)"

definition luaL_error_fname :: "lua_env \<Rightarrow> string \<Rightarrow> bytes \<Rightarrow> fmt_arg list \<Rightarrow> 'a lua" where
  "luaL_error_fname env func fmt args =
     lthen (lua_pushstring (Some (c_str func))) (
     case lj_str_pushvf env (c_str ''() '' @ fmt) args of
       None \<Rightarrow> lundef
     | Some msg \<Rightarrow> lthen (lua_push (VStr msg)) (
         lthen (lua_concat env 2) lua_error))"

subsection \<open>String keys\<close>

definition lua_table_kv_str_nil :: "lua_env \<Rightarrow> bytes \<Rightarrow> unit lua" where
  "lua_table_kv_str_nil env key = lthen (lua_pushstring (Some key)) (lthen lua_pushnil (lua_rawset env (- 3)))"

definition lua_table_kv_str_ptr :: "lua_env \<Rightarrow> bytes \<Rightarrow> nat \<Rightarrow> unit lua" where
  "lua_table_kv_str_ptr env key p =
     lthen (lua_pushstring (Some key)) (lthen (lua_pushlightuserdata env p) (lua_rawset env (- 3)))"

definition lua_table_kv_str_str :: "lua_env \<Rightarrow> bytes \<Rightarrow> bytes option \<Rightarrow> unit lua" where
  "lua_table_kv_str_str env key v =
     lthen (lua_pushstring (Some key)) (
     lthen (if v \<noteq> None then lua_pushstring v else lua_pushnil) (lua_rawset env (- 3)))"

definition lua_table_kv_str_wstr :: "lua_env \<Rightarrow> bytes \<Rightarrow> u32 list option \<Rightarrow> unit lua" where
  "lua_table_kv_str_wstr env key v =
     lthen (lua_pushstring (Some key)) (lthen (luautils_pushwstring env v (- 1)) (lua_rawset env (- 3)))"

definition lua_table_kv_str_int :: "lua_env \<Rightarrow> bytes \<Rightarrow> int \<Rightarrow> unit lua" where
  "lua_table_kv_str_int env key v =
     lthen (lua_pushstring (Some key)) (lthen (lua_pushinteger env v) (lua_rawset env (- 3)))"

definition lua_table_kv_str_float :: "lua_env \<Rightarrow> bytes \<Rightarrow> lua_number \<Rightarrow> unit lua" where
  "lua_table_kv_str_float env key v =
     lthen (lua_pushstring (Some key)) (lthen (lua_pushnumber v) (lua_rawset env (- 3)))"

definition lua_table_kv_str_bool :: "lua_env \<Rightarrow> bytes \<Rightarrow> bool \<Rightarrow> unit lua" where
  "lua_table_kv_str_bool env key v =
     lthen (lua_pushstring (Some key)) (lthen (lua_pushboolean v) (lua_rawset env (- 3)))"

definition lua_table_kv_str_cfunc :: "lua_env \<Rightarrow> bytes \<Rightarrow> string \<Rightarrow> unit lua" where
  "lua_table_kv_str_cfunc env key func =
     lthen (lua_pushstring (Some key)) (lthen (lua_pushcfunction env func) (lua_rawset env (- 3)))"

subsection \<open>Wide string and integer keys\<close>

definition lua_table_kv_wstr_int :: "lua_env \<Rightarrow> u32 list option \<Rightarrow> int \<Rightarrow> unit lua" where
  "lua_table_kv_wstr_int env key v =
     lthen (luautils_pushwstring env key (- 1)) (lthen (lua_pushinteger env v) (lua_rawset env (- 3)))"

definition lua_table_kv_wstr_wstr :: "lua_env \<Rightarrow> u32 list option \<Rightarrow> u32 list option \<Rightarrow> unit lua" where
  "lua_table_kv_wstr_wstr env key v =
     lthen (luautils_pushwstring env key (- 1)) (lthen (luautils_pushwstring env v (- 1)) (lua_rawset env (- 3)))"

definition lua_table_kv_int_ptr :: "lua_env \<Rightarrow> int \<Rightarrow> nat \<Rightarrow> unit lua" where
  "lua_table_kv_int_ptr env key p =
     lthen (lua_pushinteger env key) (lthen (luautils_pushptr env p) (lua_rawset env (- 3)))"

definition lua_table_kv_int_wstr :: "lua_env \<Rightarrow> int \<Rightarrow> u32 list option \<Rightarrow> unit lua" where
  "lua_table_kv_int_wstr env key v =
     lthen (lua_pushinteger env key) (lthen (luautils_pushwstring env v (- 1)) (lua_rawset env (- 3)))"

definition lua_table_kv_int_str :: "lua_env \<Rightarrow> int \<Rightarrow> bytes option \<Rightarrow> unit lua" where
  "lua_table_kv_int_str env key v =
     lthen (lua_pushinteger env key) (lthen (lua_pushstring v) (lua_rawset env (- 3)))"

definition lua_table_kv_int_int :: "lua_env \<Rightarrow> int \<Rightarrow> int \<Rightarrow> unit lua" where
  "lua_table_kv_int_int env key v =
     lthen (lua_pushinteger env key) (lthen (lua_pushinteger env v) (lua_rawset env (- 3)))"

subsection \<open>Pointers\<close>

definition lua_table_kv_addr :: "lua_env \<Rightarrow> (bytes \<Rightarrow> nat \<Rightarrow> bytes) \<Rightarrow> nat \<Rightarrow> unit lua" where
  "lua_table_kv_addr env printf_ptr p =
     lua_table_kv_str_str env (c_str ''addr'') (Some (snprintf_s 24 (printf_ptr (c_str ''%p'') p)))"

definition lua_table_kv_ptr :: "lua_env \<Rightarrow> nat \<Rightarrow> unit lua" where
  "lua_table_kv_ptr env p = lua_table_kv_str_ptr env (c_str ''ptr'') p"

definition lua_table_kv_struct :: "lua_env \<Rightarrow> nat \<Rightarrow> bytes \<Rightarrow> unit lua" where
  "lua_table_kv_struct env p type = lua_table_kv_str_str env (c_str ''struct'')
     (Some (snprintf_s 256 (type @ c_str '' @ '' @ printf_pointer p)))"

subsection \<open>Fields that are set\<close>

lemma rawset_top:
  assumes "lua_env_ok env" "ls_tables L a = Some t" "tab_wf (t_slots t)" "key \<noteq> VNil" "key \<noteq> VNum NaN" "ls_stack L = v # key # VTable a # xs"
  shows "\<exists>slots. lua_rawset env (- 3) L = Some (Inr (), L\<lparr> ls_stack := VTable a # xs, ls_tables := (ls_tables L)(a \<mapsto> t\<lparr> t_slots := slots \<rparr>) \<rparr>)
    \<and> tab_wf slots \<and> tab_map slots = (tab_map (t_slots t))(key := if v = VNil then None else Some v)"
  by (intro exI [of _ "lj_tab_set env (t_slots t) key v"]) (use assms tab_set_spec [OF assms(1,3-5), of v] in \<open>simp add: lua_simps\<close>)

text \<open>The value of a field a macro sets, if the conversion needs no function of Lua.\<close>

datatype field = Field_nil | Field_ptr nat | Field_str "bytes option" | Field_int int | Field_float lua_number | Field_bool bool

definition set_field :: "lua_env \<Rightarrow> bytes \<Rightarrow> field \<Rightarrow> unit lua" where
  "set_field env key f = (case f of Field_nil \<Rightarrow> lua_table_kv_str_nil env key | Field_ptr p \<Rightarrow> lua_table_kv_str_ptr env key p
     | Field_str s \<Rightarrow> lua_table_kv_str_str env key s | Field_int i \<Rightarrow> lua_table_kv_str_int env key i
     | Field_float x \<Rightarrow> lua_table_kv_str_float env key x | Field_bool b \<Rightarrow> lua_table_kv_str_bool env key b)"

definition field_value :: "lua_env \<Rightarrow> field \<Rightarrow> lua_value" where
  "field_value env f = (case f of Field_nil \<Rightarrow> VNil | Field_ptr p \<Rightarrow> VLight p | Field_str s \<Rightarrow> (case s of None \<Rightarrow> VNil | Some s \<Rightarrow> VStr s)
     | Field_int i \<Rightarrow> VNum (Fin (le_rnd env (of_int i))) | Field_float x \<Rightarrow> VNum x | Field_bool b \<Rightarrow> VBool b)"

fun set_fields :: "lua_env \<Rightarrow> (bytes \<times> field) list \<Rightarrow> unit lua" where
  "set_fields env [] = lret ()"
| "set_fields env ((key, f) # fs) = lthen (set_field env key f) (set_fields env fs)"

lemma set_field_push:
  assumes "\<And>p. f = Field_ptr p \<Longrightarrow> p < 2 ^ 47"
  shows "set_field env key f L = lua_rawset env (- 3) (L\<lparr> ls_stack := field_value env f # VStr key # ls_stack L \<rparr>)"
proof (cases f)
  case (Field_ptr p)
  then have "p div 2 ^ 47 = 0" using assms by simp
  then show ?thesis using Field_ptr
    by (simp add: set_field_def field_value_def lua_table_kv_str_ptr_def lua_pushlightuserdata_def lua_pushstring_def lbind_run(2) lua_run)
next
  case (Field_str s)
  then show ?thesis by (cases s)
    (simp_all add: set_field_def field_value_def lua_table_kv_str_str_def lua_pushstring_def lbind_run(2) lua_run)
qed (simp_all add: set_field_def field_value_def lua_table_kv_str_nil_def lua_table_kv_str_int_def lua_table_kv_str_float_def
    lua_table_kv_str_bool_def lua_pushinteger_def lua_pushstring_def lbind_run(2) lua_run)

definition field_ok :: "bytes \<times> field \<Rightarrow> bool" where
  "field_ok kf \<longleftrightarrow> (case snd kf of Field_ptr p \<Rightarrow> p < 2 ^ 47 | _ \<Rightarrow> True)"

text \<open>The map of a table after some fields were set, one after the other.\<close>

fun with_fields :: "lua_env \<Rightarrow> (bytes \<times> field) list \<Rightarrow> (lua_value \<Rightarrow> lua_value option) \<Rightarrow> lua_value \<Rightarrow> lua_value option" where
  "with_fields env [] m = m"
| "with_fields env ((key, f) # fs) m = with_fields env fs (m(VStr key := if field_value env f = VNil then None else Some (field_value env f)))"

text \<open>
  Setting fields. Any sequence of the macros for string keys leaves the stack as it is and changes, of all tables, just the one
  on top: as a map it is updated field by field, so that the last value of a key stays and \<open>nil\<close>, or a string that is
  \<^verbatim>\<open>NULL\<close>, removes the field.
\<close>

theorem set_fields_correct:
  assumes "lua_env_ok env" "ls_tables L a = Some t" "tab_wf (t_slots t)" "ls_stack L = VTable a # xs" "list_all field_ok fs"
  shows "\<exists>slots. set_fields env fs L = Some (Inr (), L\<lparr> ls_tables := (ls_tables L)(a \<mapsto> t\<lparr> t_slots := slots \<rparr>) \<rparr>)
    \<and> tab_map slots = with_fields env fs (tab_map (t_slots t))"
  using assms(2-5)
proof (induction fs arbitrary: L t)
  case Nil
  then have "(ls_tables L)(a \<mapsto> t\<lparr> t_slots := t_slots t \<rparr>) = ls_tables L" by (simp add: fun_upd_idem)
  then show ?case by (intro exI [of _ "t_slots t"]) (simp add: lua_run del: fun_upd_apply)
next
  case (Cons kf fs)
  obtain key f where kf: "kf = (key, f)" by (cases kf)
  let ?L = "L\<lparr> ls_stack := field_value env f # VStr key # VTable a # xs \<rparr>"
  have "p < 2 ^ 47" if "f = Field_ptr p" for p using Cons.prems(4) that by (simp add: kf field_ok_def)
  then have push: "set_field env key f L = lua_rawset env (- 3) ?L" using set_field_push Cons.prems(3) by metis
  have "ls_tables ?L a = Some t" "ls_stack ?L = field_value env f # VStr key # VTable a # xs" using Cons.prems(1) by simp_all
  from rawset_top [OF assms(1) this(1) Cons.prems(2) _ _ this(2)] obtain sl where
    set: "set_field env key f L = Some (Inr (), L\<lparr> ls_tables := (ls_tables L)(a \<mapsto> t\<lparr> t_slots := sl \<rparr>) \<rparr>)"
    and sl: "tab_wf sl" "tab_map sl = (tab_map (t_slots t))(VStr key := if field_value env f = VNil then None else Some (field_value env f))"
    using stack_reset [OF Cons.prems(3)] unfolding push by auto
  let ?L' = "L\<lparr> ls_tables := (ls_tables L)(a \<mapsto> t\<lparr> t_slots := sl \<rparr>) \<rparr>"
  have "ls_tables ?L' a = Some (t\<lparr> t_slots := sl \<rparr>)" "tab_wf (t_slots (t\<lparr> t_slots := sl \<rparr>))" "ls_stack ?L' = VTable a # xs" "list_all field_ok fs"
    using sl(1) Cons.prems(3,4) by simp_all
  note ih = Cons.IH [OF this]
  have rec: "(t\<lparr> t_slots := sl \<rparr>)\<lparr> t_slots := x \<rparr> = t\<lparr> t_slots := x \<rparr>" "t_slots (t\<lparr> t_slots := sl \<rparr>) = sl" for x by simp_all
  have wf: "with_fields env fs (tab_map sl) = with_fields env (kf # fs) (tab_map (t_slots t))" by (simp only: kf with_fields.simps sl(2))
  from ih [unfolded rec wf] obtain slots where run: "set_fields env fs ?L' = Some (Inr (), ?L'\<lparr> ls_tables := (ls_tables ?L')(a \<mapsto> t\<lparr> t_slots := slots \<rparr>) \<rparr>)"
    and m: "tab_map slots = with_fields env (kf # fs) (tab_map (t_slots t))" by blast
  have "set_fields env (kf # fs) L = set_fields env fs ?L'" by (simp only: kf set_fields.simps lbind_run(2) set option.case sum.case prod.case)
  also have "\<dots> = Some (Inr (), L\<lparr> ls_tables := (ls_tables L)(a \<mapsto> t\<lparr> t_slots := slots \<rparr>) \<rparr>)" unfolding run by simp
  finally show ?case using m by blast
qed

lemma set_fields_correct_witness:
  "\<exists>t. set_fields plain_lua [([107], Field_int 7), ([108], Field_bool True), ([107], Field_str None)] (sample_state [VTable 5] [])
      = Some (Inr (), (sample_state [VTable 5] []) \<lparr> ls_tables := (ls_tables (sample_state [] []))(5 \<mapsto> t) \<rparr>)
    \<and> tab_map (t_slots t) = [VStr [108] \<mapsto> VBool True]"
proof -
  have s: "ls_tables (sample_state [VTable 5] []) 5 = Some (some_table [])" "tab_wf (t_slots (some_table []))" "ls_stack (sample_state [VTable 5] []) = [VTable 5]"
    "list_all field_ok [([107], Field_int 7), ([108], Field_bool True), ([107], Field_str None)]"
    by (simp_all add: sample_state_def some_table_def field_ok_def)
  have w: "with_fields plain_lua [([107], Field_int 7), ([108], Field_bool True), ([107], Field_str None)] (tab_map (t_slots (some_table [])))
    = [VStr [108] \<mapsto> VBool True]"
    by (auto simp: field_value_def some_table_def fun_eq_iff)
  show ?thesis using set_fields_correct [OF plain_lua_ok s] unfolding w by (auto simp: sample_state_def)
qed

end
