(* ===== verification/LuaSymbols.thy ===== *)
theory LuaSymbols
  imports LuaFields
begin

text \<open>
  The Lua side of \<^verbatim>\<open>core/symbols.c\<close>: the replacement of \<^verbatim>\<open>dofile\<close> that falls back to scripts that are compiled
  in, the loader for \<^verbatim>\<open>require\<close>, and their registration, without the output of debug builds.
  Running a script from C (\<^verbatim>\<open>luautils_dofile\<close>) is composed with them here.
\<close>

subsection \<open>Functions\<close>

text \<open>What the functions read: the symbols and the memory of the library, the decompressor, the directory of the
  library, and which files exist.\<close>

record resource_env =
  re_dlsym :: "bytes \<Rightarrow> nat option"
  re_memory :: "nat \<Rightarrow> bytes"
  re_inflate :: inflater
  re_pwd :: bytes
  re_exists :: "bytes \<Rightarrow> bool"

definition lua_option :: "'a option \<Rightarrow> 'a lua" where
  "lua_option x = (case x of None \<Rightarrow> lundef | Some x \<Rightarrow> lret x)"

definition load_resource :: "lua_env \<Rightarrow> resource_env \<Rightarrow> nat \<Rightarrow> nat \<Rightarrow> bytes \<Rightarrow> int lua" where
  "load_resource env re data len name =
     lbind (lua_option (load_decompressed_buffer (re_inflate re) (luaL_loadbuffer env) (re_pwd re) (re_memory re data) len name)) (\<lambda>r.
     case r of
       Some load \<Rightarrow> load
     | None \<Rightarrow> luaL_error env (c_str ''%s(%s): decompression of gzipped resource FAILED'')
         [FStr (Some (c_str ''load_decompressed_buffer'')), FStr (Some name)])"

definition symbol_dofile_C :: "lua_env \<Rightarrow> resource_env \<Rightarrow> int lua" where
  "symbol_dofile_C env re =
     lbind lua_gettop (\<lambda>basepointer.
     lbind (luaL_checkstring env 1) (\<lambda>filename.
     lbind (lua_option (getBinarySymbol (re_dlsym re) (re_pwd re) filename True (Some (PATH_MAX + 32)))) (\<lambda>(data, len, symbolname).
     if data = None \<or> re_exists re filename
     then lthen (lua_getglobal env (c_str ''dofile_backup'')) (
       lthen (lua_pushstring (Some filename)) (
       lbind (lua_pcall env 1 (- 1) 0) (\<lambda>status.
       if status \<noteq> 0 then lua_error else lbind lua_gettop (\<lambda>top. lret (top - basepointer)))))
     else lbind (load_resource env re (the data) len filename) (\<lambda>status.
       if status \<noteq> 0 then lua_error
       else lbind (lua_pcall env 0 (- 1) 0) (\<lambda>status.
         if status \<noteq> 0 then lua_error else lbind lua_gettop (\<lambda>top. lret (top - basepointer)))))))"

text \<open>\<^verbatim>\<open>formatmsg\<close> returns the complete message.\<close>

definition dll_symbolLoader_C :: "lua_env \<Rightarrow> resource_env \<Rightarrow> int lua" where
  "dll_symbolLoader_C env re =
     lbind (luaL_checkstring env 1) (\<lambda>name. let filename = snprintf_s PATH_MAX (name @ c_str ''.lua'') in
     lbind (lua_option (getBinarySymbol (re_dlsym re) (re_pwd re) filename True None)) (\<lambda>(data, len, _).
     case data of
       None \<Rightarrow> lthen (lua_pushstring (Some ([10, 9] @ c_str ''dll_symbolLoader_C(): no resource found for '' @ quoted filename)))
         (lret 1)
     | Some data \<Rightarrow> lbind (load_resource env re data len filename) (\<lambda>status.
         if status \<noteq> 0 then lua_error else lret 1)))"

subsection \<open>Registration\<close>

definition register_package_loader :: "lua_env \<Rightarrow> int \<Rightarrow> unit lua" where
  "register_package_loader env pos =
     lthen (luautils_getfunction env (Some (c_str ''table'')) (c_str ''insert'') True) (
     lthen (lua_getglobal env (c_str ''package'')) (
     lbind (lua_type (- 1)) (\<lambda>t.
     if t = LUA_TTABLE
     then lthen (lua_getfield env (- 1) (c_str ''loaders'')) (
       lbind (lua_type (- 1)) (\<lambda>t.
       lthen (if t = LUA_TNIL
              then lthen (lua_pop 1) (lua_getfield env (- 1) (c_str ''searchers''))
              else lret ()) (
       lthen (lua_replace (- 2)) (
       lthen (if 0 < pos
              then lthen (lua_pushinteger env pos) (lthen (lua_pushvalue (- 4)) (lua_call env 3 0))
              else lthen (lua_pushvalue (- 3)) (lua_call env 2 0))
         (lua_pop 1)))))
     else luaL_error_fname env ''register_package_loader''
       (c_str ''failed to retrieve global '' @ quoted (c_str ''package'') @ c_str '' table!'') [])))"

definition luaopen_symbols :: "lua_env \<Rightarrow> int lua" where
  "luaopen_symbols env =
     lthen (LREG env ''dll_getBinarySymbol_C'') (
     lthen (lua_getglobal env (c_str ''dofile'')) (
     lthen (lua_setglobal env (c_str ''dofile_backup'')) (
     lthen (lua_pushcfunction env ''symbol_dofile_C'') (
     lthen (lua_setglobal env (c_str ''dofile'')) (
     lthen (lua_pushcfunction env ''dll_symbolLoader_C'') (
     lthen (register_package_loader env 0) (
     lret 0)))))))"

subsection \<open>Resources as text\<close>

text \<open>The text of a resource: the data as they are, or what the decompressor makes of a gzip member.\<close>

definition resource_text :: "inflater \<Rightarrow> bytes \<Rightarrow> bytes \<Rightarrow> bytes \<Rightarrow> bool" where
  "resource_text inflate data behind text \<longleftrightarrow>
     is_gzipped (Some (data @ behind)) = Some False \<and> text = data
     \<or> (\<exists>flags rest fname body. header_ok flags rest fname \<and> data = gzip_header flags rest fname @ body \<and> inflate (body @ behind) (length body) = Some text)"

definition has_resource :: "resource_env \<Rightarrow> bytes \<Rightarrow> nat \<Rightarrow> nat \<Rightarrow> bytes \<Rightarrow> bool" where
  "has_resource re name a len text \<longleftrightarrow> no_nul (re_pwd re) \<and> no_nul name \<and> length (re_pwd re @ name) < PATH_MAX - 1
     \<and> (\<forall>s b. re_dlsym re s = Some b \<longrightarrow> b < 2 ^ 64)
     \<and> re_dlsym re (symbol_name name ''_binary_obj_data_start'') = Some a
     \<and> re_dlsym re (symbol_name name ''_binary_obj_data_end'') = Some (a + len)
     \<and> (\<exists>data behind. data \<noteq> [] \<and> length data = len \<and> re_memory re a = data @ behind \<and> resource_text (re_inflate re) data behind text)"

lemma resource_found:
  assumes "has_resource re name a len text"
  shows "\<exists>out. getBinarySymbol (re_dlsym re) (re_pwd re) (re_pwd re @ name) True buffer = Some (Some a, len, out)"
proof -
  have r: "no_nul (re_pwd re)" "no_nul name" "length name < PATH_MAX" "\<forall>s b. re_dlsym re s = Some b \<longrightarrow> b < 2 ^ 64" "0 < len"
    "re_dlsym re (symbol_name name ''_binary_obj_data_start'') = Some a" "re_dlsym re (symbol_name name ''_binary_obj_data_end'') = Some (a + len)"
    using assms by (auto simp: has_resource_def)
  have "a + len < 2 ^ 64" using r(4,7) by blast
  then have "size_sub (a + len) a = len" by (simp add: size_sub_def size_max_def)
  then show ?thesis using binary_symbol_found [OF r(1-4) refl refl, of buffer] r(5-7) by simp
qed

lemma resource_loaded:
  assumes "has_resource re name a len text"
  shows "load_resource env re a len (re_pwd re @ name) L = luaL_loadbuffer env text (61 # name) L"
proof -
  from assms obtain data behind where d: "length data = len" "re_memory re a = data @ behind" "resource_text (re_inflate re) data behind text"
    unfolding has_resource_def by blast
  have "a + len < 2 ^ 64" using assms unfolding has_resource_def by blast
  then have r: "no_nul (re_pwd re)" "no_nul name" "length (re_pwd re @ name) < PATH_MAX - 1" "length data < 2 ^ 64" "length data = len"
    "re_memory re a = data @ behind" "resource_text (re_inflate re) data behind text"
    using assms d by (simp_all add: has_resource_def)
  have "strip_pwd (re_pwd re) (re_pwd re @ name) = length (re_pwd re)"
    using strncmp_prefix [OF r(1), of "re_pwd re @ name"] r(1,2) by (simp add: strip_pwd_def strlen_no_nul [OF r(1)] Let_def)
  then have chunk: "snprintf_s PATH_MAX (61 # drop (strip_pwd (re_pwd re) (re_pwd re @ name)) (re_pwd re @ name)) = 61 # name"
    using r(3) by (simp add: snprintf_s_def)
  have "slice (data @ behind) 0 len = Some data" unfolding r(5) [symmetric] by (simp add: slice_def)
  then have "load_decompressed_buffer (re_inflate re) (luaL_loadbuffer env) (re_pwd re) (re_memory re a) len (re_pwd re @ name) =
    Some (Some (luaL_loadbuffer env text (61 # name)))"
    using r(7) unfolding resource_text_def
  proof (elim disjE exE conjE)
    fix flags rest fname body
    assume h: "header_ok flags rest fname" and d: "data = gzip_header flags rest fname @ body" "re_inflate re (body @ behind) (length body) = Some text"
    from gzip_decompress_member [OF h r(4) [unfolded d(1)], of "re_inflate re" behind] is_gzipped_header [of flags rest fname "body @ behind"]
    show ?thesis using r(5) unfolding load_decompressed_buffer_def Let_def chunk r(6) d(1) by (simp add: d(2))
  qed (unfold load_decompressed_buffer_def Let_def chunk r(6), simp)
  then show ?thesis by (simp add: load_resource_def lua_option_def lua_simps)
qed

subsection \<open>Running scripts\<close>

text \<open>What a protected call leaves in the frame of the caller: the results or the error.\<close>

definition call_values :: "lua_value + lua_value list \<Rightarrow> lua_value list" where
  "call_values r = (case r of Inl e \<Rightarrow> [e] | Inr rs \<Rightarrow> rev rs)"

definition return_to :: "lua_value list \<Rightarrow> lua_value list \<Rightarrow> (lua_value + lua_value list) \<times> lua_state \<Rightarrow> (lua_value + lua_value list) \<times> lua_state" where
  "return_to xs ups = (\<lambda>(r, L). (r, L\<lparr> ls_stack := call_values r @ xs, ls_upvalues := ups \<rparr>))"

lemma pcall_run:
  assumes "ls_stack L = rev args @ f # xs" "n = int (length args)"
  shows "lua_pcall env n (- 1) 0 L = (case le_call env f args L of
      None \<Rightarrow> None
    | Some (r, L') \<Rightarrow> Some (Inr (case r of Inl _ \<Rightarrow> 2 | Inr _ \<Rightarrow> 0), L'\<lparr> ls_stack := call_values r @ xs, ls_upvalues := ls_upvalues L \<rparr>))"
  using assms
  by (simp add: lua_pcall_def caller_frame_def adjust_results_def call_values_def lua_run nth_append split: option.split sum.split)

lemma checkstring_run:
  assumes "ls_stack L = [VStr path]" "no_nul path"
  shows "luaL_checkstring env 1 L = Some (Inr path, L)"
  using assms
  by (simp add: luaL_checkstring_def luaL_checklstring_def lua_tolstring_def index2adr_def slot_value_def c_string_def lua_simps strlen_no_nul)

text \<open>The end of \<^verbatim>\<open>symbol_dofile_C\<close>: calling, and returning everything above the argument.\<close>

lemma call_and_return:
  assumes "ls_stack L = rev args @ f # [x]" "n = int (length args)" "ls_upvalues L = ups"
  shows "lbind (lbind (lua_pcall env n (- 1) 0) (\<lambda>status. if status \<noteq> 0 then lua_error else lbind lua_gettop (\<lambda>top. lret (top - 1))))
      (\<lambda>n L. lret (rev (take (nat n) (ls_stack L))) L) L
    = map_option (return_to [x] ups) (le_call env f args L)"
proof (cases "le_call env f args L")
  note p = pcall_run [OF assms(1) refl, of env, folded assms(2)]
  case None
  then show ?thesis by (simp add: lbind_run(1) p)
next
  note p = pcall_run [OF assms(1) refl, of env, folded assms(2)]
  case (Some rL)
  obtain r L' where rL: "rL = (r, L')" by (cases rL)
  have "lua_pcall env n (- 1) 0 L = Some (Inr (case r of Inl _ \<Rightarrow> 2 | Inr _ \<Rightarrow> 0), L'\<lparr> ls_stack := call_values r @ [x], ls_upvalues := ups \<rparr>)"
    using p assms(3) Some by (simp add: rL)
  then show ?thesis using Some unfolding rL
    by (cases r) (simp_all add: lbind_run(1) return_to_def call_values_def lua_run lua_error_def lua_at_run)
qed

lemma dofile_resource:
  assumes "has_resource re name a len text" "path = re_pwd re @ name" "\<not> re_exists re path"
    and "L1 = L\<lparr> ls_stack := [VStr path], ls_upvalues := ups \<rparr>" "le_load env text (61 # name) L1 = Some (Inr (status, v), L2)"
    "ls_stack L2 = [VStr path]" "ls_upvalues L2 = ups"
  shows "run_cfunction (symbol_dofile_C env re) ups [VStr path] L =
    (if status \<noteq> 0 then Some (Inl v, L2\<lparr> ls_stack := [v, VStr path] \<rparr>)
     else map_option (return_to [VStr path] ups) (le_call env v [] (L2\<lparr> ls_stack := [v, VStr path] \<rparr>)))"
proof -
  have nn: "no_nul path" using assms(1,2) by (simp add: has_resource_def no_nul_def)
  obtain out where get: "getBinarySymbol (re_dlsym re) (re_pwd re) path True (Some (PATH_MAX + 32)) = Some (Some a, len, out)"
    using resource_found [OF assms(1)] assms(2) by metis
  have L1: "ls_stack L1 = [VStr path]" using assms(4) by simp
  have load: "load_resource env re a len path L1 = Some (Inr status, L2\<lparr> ls_stack := [v, VStr path] \<rparr>)"
    using resource_loaded [OF assms(1)] assms(2,5,6) by (simp add: luaL_loadbuffer_def lua_simps)
  let ?L = "L2\<lparr> ls_stack := [v, VStr path] \<rparr>"
  have "symbol_dofile_C env re L1 = (if status \<noteq> 0 then lua_error ?L
      else lbind (lua_pcall env 0 (- 1) 0) (\<lambda>status. if status \<noteq> 0 then lua_error else lbind lua_gettop (\<lambda>top. lret (top - 1))) ?L)"
    using assms(3) by (simp add: symbol_dofile_C_def lbind_run(1) lua_run checkstring_run [OF L1 nn] L1 lua_option_def get load)
  moreover have "lbind (lbind (lua_pcall env 0 (- 1) 0) (\<lambda>status. if status \<noteq> 0 then lua_error else lbind lua_gettop (\<lambda>top. lret (top - 1))))
      (\<lambda>n L. lret (rev (take (nat n) (ls_stack L))) L) ?L = map_option (return_to [VStr path] ups) (le_call env v [] ?L)"
    by (rule call_and_return) (use assms(7) in simp_all)
  ultimately show ?thesis
    by (auto simp: run_cfunction_def assms(4) lbind_def lua_error_def lua_at_run lua_run split: option.split)
qed

lemma dofile_backup:
  assumes "getBinarySymbol (re_dlsym re) (re_pwd re) path True (Some (PATH_MAX + 32)) = Some (data, len, out)" "data = None \<or> re_exists re path" "no_nul path"
    and "raw_at L (ls_globals L)" "f = (case tab_of L (ls_globals L) (VStr (c_str ''dofile_backup'')) of None \<Rightarrow> VNil | Some f \<Rightarrow> f)"
  shows "run_cfunction (symbol_dofile_C env re) ups [VStr path] L =
    map_option (return_to [VStr path] ups) (le_call env f [VStr path] (L\<lparr> ls_stack := [VStr path, f, VStr path], ls_upvalues := ups \<rparr>))"
proof -
  let ?L1 = "L\<lparr> ls_stack := [VStr path], ls_upvalues := ups \<rparr>" and ?L = "L\<lparr> ls_stack := [VStr path, f, VStr path], ls_upvalues := ups \<rparr>"
  have chk: "luaL_checkstring env 1 ?L1 = Some (Inr path, ?L1)" by (rule checkstring_run) (simp_all add: assms(3))
  have raw: "raw_at ?L1 (ls_globals L)" "tab_of ?L1 (ls_globals L) = tab_of L (ls_globals L)" using assms(4) by (simp_all add: raw_at_def tab_of_def)
  have get: "lua_getglobal env (c_str ''dofile_backup'') ?L1 = Some (Inr (), ?L1\<lparr> ls_stack := [f, VStr path] \<rparr>)"
    using raw_get_run [OF raw(1), of env "VStr (c_str ''dofile_backup'')"] raw(2) by (simp add: lua_simps assms(5))
  have "symbol_dofile_C env re ?L1 = lbind (lua_pcall env 1 (- 1) 0) (\<lambda>status. if status \<noteq> 0 then lua_error else lbind lua_gettop (\<lambda>top. lret (top - 1))) ?L"
    using assms(2) by (simp add: symbol_dofile_C_def lbind_run lua_run chk lua_option_def assms(1) get lua_pushstring_def)
  moreover have "lbind (lbind (lua_pcall env 1 (- 1) 0) (\<lambda>status. if status \<noteq> 0 then lua_error else lbind lua_gettop (\<lambda>top. lret (top - 1))))
      (\<lambda>n L. lret (rev (take (nat n) (ls_stack L))) L) ?L = map_option (return_to [VStr path] ups) (le_call env f [VStr path] ?L)"
    by (rule call_and_return) simp_all
  ultimately show ?thesis by (simp add: run_cfunction_def lbind_def)
qed

text \<open>The status and the stack of the caller after a protected call.\<close>

definition status_to :: "lua_value list \<Rightarrow> lua_value list \<Rightarrow> (lua_value + lua_value list) \<times> lua_state \<Rightarrow> (lua_value + int) \<times> lua_state" where
  "status_to xs ups = (\<lambda>(r, L). (Inr (case r of Inl _ \<Rightarrow> 2 | Inr _ \<Rightarrow> 0), L\<lparr> ls_stack := call_values r @ xs, ls_upvalues := ups \<rparr>))"

lemma status_return: "status_to xs ups (return_to ys us r) = status_to xs ups r"
  by (simp add: status_to_def return_to_def split: prod.split)

lemma dofile_start:
  assumes "h = le_new env L" "L0 = L\<lparr> ls_stack := VStr (pwd @ name) # VFunc h # ls_stack L, ls_funcs := (ls_funcs L)(h \<mapsto> CClosure ''symbol_dofile_C'' []) \<rparr>"
  shows "luautils_dofile env (Some pwd) name False L = map_option (status_to (ls_stack L) (ls_upvalues L)) (le_call env (VFunc h) [VStr (pwd @ name)] L0)"
proof -
  have L0: "ls_stack L0 = rev [VStr (pwd @ name)] @ VFunc h # ls_stack L" "ls_upvalues L0 = ls_upvalues L" by (simp_all add: assms(2))
  have cat: "lua_concat env 2 M = Some (Inr (), M\<lparr> ls_stack := VStr (s1 @ s2) # ys \<rparr>)" if "ls_stack M = VStr s2 # VStr s1 # ys" for M s1 s2 ys
    using that by (simp add: lua_concat_def value_text_def lua_simps numeral_2_eq_2 Let_def)
  have skip: "lthen (lret ()) m = m" for m :: "int lua" by (simp add: fun_eq_iff lbind_run lua_run)
  have "luautils_dofile env (Some pwd) name False L = lbind (lua_pcall env 1 (- 1) 0) lret L0"
    by (simp add: luautils_dofile_def lbind_run lua_run lua_pushcclosure_def lua_pushstring_def Let_def cat assms skip)
  then show ?thesis
    by (simp add: lbind_run(1) pcall_run [OF L0(1)] L0(2) status_to_def lua_run split: option.split sum.split)
qed

text \<open>
  (C15) Running a script from C. The path is the directory of the library and the name. If that file exists, or no resource has its
  name, the original \<^verbatim>\<open>dofile\<close> is called with the path. Otherwise the chunk compiled from the text of the resource, unpacked if it is a
  gzip member, with the name without directory as chunk name, is called. In each case all its results stay on the stack with status 0,
  or the error alone with status 2, and so does the message of a chunk that does not compile; nothing else stays.
\<close>

theorem script_runs:
  assumes "h = le_new env L" "path = re_pwd re @ name" "no_nul path"
    and "L0 = L\<lparr> ls_stack := VStr path # VFunc h # ls_stack L, ls_funcs := (ls_funcs L)(h \<mapsto> CClosure ''symbol_dofile_C'' []) \<rparr>"
    and "le_call env (VFunc h) [VStr path] L0 = run_cfunction (symbol_dofile_C env re) [] [VStr path] L0"
    and "L1 = L0\<lparr> ls_stack := [VStr path], ls_upvalues := [] \<rparr>"
  shows "(\<forall>f out. getBinarySymbol (re_dlsym re) (re_pwd re) path True (Some (PATH_MAX + 32)) = Some out \<and> (fst out = None \<or> re_exists re path)
      \<and> raw_at L (ls_globals L) \<and> tab_of L (ls_globals L) (VStr (c_str ''dofile_backup'')) = Some f \<longrightarrow>
      luautils_dofile env (Some (re_pwd re)) name False L =
        map_option (status_to (ls_stack L) (ls_upvalues L)) (le_call env f [VStr path] (L1\<lparr> ls_stack := [VStr path, f, VStr path] \<rparr>)))
    \<and> (\<forall>a len text status v L2. has_resource re name a len text \<and> \<not> re_exists re path
      \<and> le_load env text (61 # name) L1 = Some (Inr (status, v), L2) \<and> ls_stack L2 = [VStr path] \<and> ls_upvalues L2 = [] \<longrightarrow>
      luautils_dofile env (Some (re_pwd re)) name False L =
        (if status \<noteq> 0 then Some (status_to (ls_stack L) (ls_upvalues L) (Inl v, L2))
         else map_option (status_to (ls_stack L) (ls_upvalues L)) (le_call env v [] (L2\<lparr> ls_stack := [v, VStr path] \<rparr>))))"
proof (intro conjI allI impI, elim conjE)
  have start: "luautils_dofile env (Some (re_pwd re)) name False L
    = map_option (status_to (ls_stack L) (ls_upvalues L)) (run_cfunction (symbol_dofile_C env re) [] [VStr path] L0)"
    using dofile_start [OF assms(1), of L0 "re_pwd re" name] assms(2,4,5) by simp
  have comp: "map_option (status_to xs ups) (map_option (return_to ys us) r) = map_option (status_to xs ups) r" for xs ups ys us r
    by (cases r) (simp_all add: status_return)
  {
    fix f out
    assume o: "getBinarySymbol (re_dlsym re) (re_pwd re) path True (Some (PATH_MAX + 32)) = Some out" "fst out = None \<or> re_exists re path"
      "raw_at L (ls_globals L)" "tab_of L (ls_globals L) (VStr (c_str ''dofile_backup'')) = Some f"
    obtain data len sn where out: "out = (data, len, sn)" by (cases out)
    have raw: "raw_at L0 (ls_globals L0)" "f = (case tab_of L0 (ls_globals L0) (VStr (c_str ''dofile_backup'')) of None \<Rightarrow> VNil | Some f \<Rightarrow> f)"
      using o(3,4) by (simp_all add: assms(4) raw_at_def tab_of_def)
    show "luautils_dofile env (Some (re_pwd re)) name False L =
        map_option (status_to (ls_stack L) (ls_upvalues L)) (le_call env f [VStr path] (L1\<lparr> ls_stack := [VStr path, f, VStr path] \<rparr>))"
      unfolding start using dofile_backup [OF o(1) [unfolded out] _ assms(3) raw, where env = env and ups = "[]"] o(2) comp by (simp add: out assms(6))
  next
    fix a len src status v L2
    assume o: "has_resource re name a len src \<and> \<not> re_exists re path
      \<and> le_load env src (61 # name) L1 = Some (Inr (status, v), L2) \<and> ls_stack L2 = [VStr path] \<and> ls_upvalues L2 = []"
    then have "run_cfunction (symbol_dofile_C env re) [] [VStr path] L0 =
      (if status \<noteq> 0 then Some (Inl v, L2\<lparr> ls_stack := [v, VStr path] \<rparr>)
       else map_option (return_to [VStr path] []) (le_call env v [] (L2\<lparr> ls_stack := [v, VStr path] \<rparr>)))"
      using dofile_resource [where env = env and re = re and L = L0 and ups = "[]"] assms(2,6) by blast
    then show "luautils_dofile env (Some (re_pwd re)) name False L =
        (if status \<noteq> 0 then Some (status_to (ls_stack L) (ls_upvalues L) (Inl v, L2))
         else map_option (status_to (ls_stack L) (ls_upvalues L)) (le_call env v [] (L2\<lparr> ls_stack := [v, VStr path] \<rparr>)))"
      unfolding start by (simp add: comp) (simp add: status_to_def)
  }
qed

text \<open>A library with one compiled-in script, and functions that return true.\<close>

definition sample_resources :: resource_env where
  "sample_resources = \<lparr> re_dlsym = (\<lambda>s. if s = symbol_name [97] ''_binary_obj_data_start'' then Some 100
       else if s = symbol_name [97] ''_binary_obj_data_end'' then Some 102 else None),
     re_memory = (\<lambda>_. [114, 115, 0]), re_inflate = (\<lambda>_ _. None), re_pwd = [47], re_exists = (\<lambda>_. False) \<rparr>"

definition script_lua :: lua_env where
  "script_lua = plain_lua\<lparr> le_load := (\<lambda>chunk name. lret (0, VFunc 9)),
     le_call := (\<lambda>f args L. if f = VFunc 9 then Some (Inr [VBool True], L)
       else Some (Inr [VBool True], L\<lparr> ls_stack := VBool True # rev args, ls_upvalues := [] \<rparr>)) \<rparr>"

lemma sample_has_resource: "has_resource sample_resources [97] 100 2 [114, 115]"
proof -
  have "symbol_name [97] ''_binary_obj_data_end'' \<noteq> symbol_name [97] ''_binary_obj_data_start''"
    by (simp add: symbol_name_eq c_str_def of_char_def)
  moreover have "\<exists>data behind. data \<noteq> [] \<and> length data = 2 \<and> [114, 115, 0] = data @ behind \<and> resource_text (\<lambda>_ _. None) data behind [114, 115]"
    by (intro exI [of _ "[114, 115]"] exI [of _ "[0]"]) (simp add: resource_text_def is_gzipped_def)
  ultimately show ?thesis by (simp add: has_resource_def sample_resources_def PATH_MAX_def)
qed

lemma script_runs_witness:
  "\<exists>L. luautils_dofile script_lua (Some [47]) [97] False (sample_state [] []) = Some (Inr 0, L) \<and> ls_stack L = [VBool True]"
proof -
  let ?L = "sample_state [] []"
  obtain h where h: "h = le_new script_lua ?L" by simp
  have "le_new script_lua ?L = le_new plain_lua ?L" by (simp add: script_lua_def)
  moreover have "ls_funcs ?L 9 \<noteq> None" by (simp add: sample_state_def)
  ultimately have ne: "h \<noteq> 9" using lua_env_okD(2) [OF plain_lua_ok sample_finite, of "[]" "[]"] h by auto
  obtain L0 where L0: "L0 = ?L\<lparr> ls_stack := VStr [47, 97] # VFunc h # ls_stack ?L, ls_funcs := (ls_funcs ?L)(h \<mapsto> CClosure ''symbol_dofile_C'' []) \<rparr>" by simp
  obtain L1 where L1: "L1 = L0\<lparr> ls_stack := [VStr [47, 97]], ls_upvalues := [] \<rparr>" by simp
  have r: "re_pwd sample_resources = [47]" "\<not> re_exists sample_resources [47, 97]" by (simp_all add: sample_resources_def)
  have load: "le_load script_lua [114, 115] [61, 97] L1 = Some (Inr (0, VFunc 9), L1)" by (simp add: script_lua_def lret_def)
  have st: "ls_stack L1 = [VStr [47, 97]]" "ls_upvalues L1 = []" by (simp_all add: L1)
  have "run_cfunction (symbol_dofile_C script_lua sample_resources) [] [VStr [47, 97]] L0
    = map_option (return_to [VStr [47, 97]] []) (le_call script_lua (VFunc 9) [] (L1\<lparr> ls_stack := [VFunc 9, VStr [47, 97]] \<rparr>))"
    using dofile_resource [OF sample_has_resource _ r(2) L1 load st] r(1) by simp
  then have run: "le_call script_lua (VFunc h) [VStr [47, 97]] L0 = run_cfunction (symbol_dofile_C script_lua sample_resources) [] [VStr [47, 97]] L0"
    using ne by (simp add: script_lua_def return_to_def call_values_def L1)
  have path: "[47, 97] = re_pwd sample_resources @ [97]" "no_nul [47 :: u8, 97]" by (simp_all add: r(1))
  have "luautils_dofile script_lua (Some (re_pwd sample_resources)) [97] False ?L
    = map_option (status_to (ls_stack ?L) (ls_upvalues ?L)) (le_call script_lua (VFunc 9) [] (L1\<lparr> ls_stack := [VFunc 9, VStr [47, 97]] \<rparr>))"
    using conjunct2 [OF script_runs [OF h path L0 run L1], rule_format, of 100 2 "[114, 115]" 0 "VFunc 9" L1] sample_has_resource r(2) load st by simp
  then show ?thesis by (simp add: r(1)) (simp add: script_lua_def status_to_def call_values_def sample_state_def)
qed

subsection \<open>Opening the library\<close>

lemma setglobal_run:
  assumes "lua_env_ok env" "raw_at L (ls_globals L)" "ls_stack L = v # xs" "v \<noteq> VNil"
  shows "\<exists>T. lua_setglobal env k L = Some (Inr (), L\<lparr> ls_stack := xs, ls_tables := T \<rparr>)
    \<and> (\<forall>L'. ls_tables L' = T \<longrightarrow> tab_of L' (ls_globals L) = (tab_of L (ls_globals L))(VStr k \<mapsto> v) \<and> raw_at L' (ls_globals L))
    \<and> (\<forall>c. c \<noteq> ls_globals L \<longrightarrow> T c = ls_tables L c)"
proof -
  let ?L = "L\<lparr> ls_stack := xs \<rparr>"
  have "raw_at ?L (ls_globals L)" using assms(2) by (simp add: raw_at_def)
  from raw_set_run [OF assms(1) this, of "VStr k" v] obtain T where
    T: "lj_meta_tset env (VTable (ls_globals L)) (VStr k) v ?L = Some (Inr (), ?L\<lparr> ls_tables := T \<rparr>)"
    "\<forall>L'. ls_tables L' = T \<longrightarrow> tab_of L' (ls_globals L) = (tab_of ?L (ls_globals L))(VStr k \<mapsto> v) \<and> raw_at L' (ls_globals L)"
    "\<forall>c. c \<noteq> ls_globals L \<longrightarrow> T c = ls_tables ?L c" using assms(4) by blast
  have "lua_setglobal env k L = Some (Inr (), L\<lparr> ls_stack := xs, ls_tables := T \<rparr>)" using T(1) assms(3) by (simp add: lua_simps)
  moreover have "tab_of ?L = tab_of L" by (simp add: tab_of_def fun_eq_iff)
  ultimately show ?thesis using T(2,3) by auto
qed

text \<open>The function \<^verbatim>\<open>table.insert\<close> and the table \<^verbatim>\<open>package.loaders\<close>.\<close>

definition has_loaders :: "lua_state \<Rightarrow> nat \<Rightarrow> lua_value \<Rightarrow> lua_value \<Rightarrow> bool" where
  "has_loaders L ins loaders d \<longleftrightarrow> raw_at L (ls_globals L) \<and> tab_of L (ls_globals L) (VStr (c_str ''dofile'')) = Some d
     \<and> (\<exists>t p. tab_of L (ls_globals L) (VStr (c_str ''table'')) = Some (VTable t) \<and> raw_at L t \<and> t \<noteq> ls_globals L
       \<and> tab_of L t (VStr (c_str ''insert'')) = Some (VFunc ins)
       \<and> tab_of L (ls_globals L) (VStr (c_str ''package'')) = Some (VTable p) \<and> raw_at L p \<and> p \<noteq> ls_globals L
       \<and> tab_of L p (VStr (c_str ''loaders'')) = Some loaders) \<and> loaders \<noteq> VNil"

lemma raw_get_stack:
  "raw_at L a \<Longrightarrow> lj_meta_tget env (VTable a) key (L\<lparr> ls_stack := xs \<rparr>) = Some (Inr (case tab_of L a key of None \<Rightarrow> VNil | Some v \<Rightarrow> v), L\<lparr> ls_stack := xs \<rparr>)"
  using raw_get_run [of "L\<lparr> ls_stack := xs \<rparr>" a env key] by (simp add: raw_at_def tab_of_def)

lemma register_run:
  assumes "has_loaders L ins loaders d" "ls_stack L = v # xs"
  shows "register_package_loader env 0 L = (case le_call env (VFunc ins) [loaders, v] (L\<lparr> ls_stack := v # loaders # VFunc ins # v # xs \<rparr>) of
      None \<Rightarrow> None
    | Some (Inl e, L2) \<Rightarrow> Some (Inl e, L2\<lparr> ls_stack := v # xs, ls_upvalues := ls_upvalues L \<rparr>)
    | Some (Inr rs, L2) \<Rightarrow> Some (Inr (), L2\<lparr> ls_stack := xs, ls_upvalues := ls_upvalues L \<rparr>))"
proof -
  from assms(1) obtain t p where g: "raw_at L (ls_globals L)" "tab_of L (ls_globals L) (VStr (c_str ''table'')) = Some (VTable t)" "raw_at L t"
      "tab_of L t (VStr (c_str ''insert'')) = Some (VFunc ins)" "tab_of L (ls_globals L) (VStr (c_str ''package'')) = Some (VTable p)" "raw_at L p"
      "tab_of L p (VStr (c_str ''loaders'')) = Some loaders" "loaders \<noteq> VNil" unfolding has_loaders_def by blast
  note get = raw_get_stack [OF g(1)] raw_get_stack [OF g(3)] raw_get_stack [OF g(6)] raw_get_run [OF g(1)]
  let ?K = "L\<lparr> ls_stack := VFunc ins # v # xs \<rparr>"
  have ins: "luautils_getfunction env (Some (c_str ''table'')) (c_str ''insert'') True L = Some (Inr True, ?K)"
    using assms(2) by (simp add: luautils_getfunction_def lua_simps get g(2,4))
  have call: "lua_call env 2 0 (L\<lparr> ls_stack := v # loaders # VFunc ins # v # xs \<rparr>) =
      (case le_call env (VFunc ins) [loaders, v] (L\<lparr> ls_stack := v # loaders # VFunc ins # v # xs \<rparr>) of
      None \<Rightarrow> None
    | Some (Inl e, L2) \<Rightarrow> Some (Inl e, L2\<lparr> ls_stack := v # xs, ls_upvalues := ls_upvalues L \<rparr>)
    | Some (Inr rs, L2) \<Rightarrow> Some (Inr (), L2\<lparr> ls_stack := v # xs, ls_upvalues := ls_upvalues L \<rparr>))"
    by (simp add: lua_call_def caller_frame_def adjust_results_def numeral_2_eq_2 lua_run Let_def split: option.split sum.split)
  show ?thesis
    using g(8) by (simp add: register_package_loader_def ins lua_simps get g(5,7) call lua_at_run split: option.split sum.split)
qed

lemma heap_finite_one:
  assumes "heap_finite L" "\<forall>c. c \<noteq> a \<longrightarrow> ls_tables L' c = ls_tables L c" "ls_funcs L' = (ls_funcs L)(b \<mapsto> f)"
  shows "heap_finite L'"
proof -
  have "dom (ls_tables L') \<subseteq> insert a (dom (ls_tables L))" using assms(2) by auto
  moreover have "finite (insert a (dom (ls_tables L)))" using assms(1) by (simp add: heap_finite_def)
  ultimately have "finite (dom (ls_tables L'))" using finite_subset by blast
  then show ?thesis using assms(1,3) by (simp add: heap_finite_def)
qed

text \<open>Registering a C function under a global name: one new closure, one global.\<close>

lemma register_function:
  assumes "lua_env_ok env" "heap_finite L" "raw_at L (ls_globals L)" "b = le_new env L"
  shows "\<exists>T. lthen (lua_pushcfunction env func) (lua_setglobal env k) L =
      Some (Inr (), L\<lparr> ls_funcs := (ls_funcs L)(b \<mapsto> CClosure func []), ls_tables := T \<rparr>)
    \<and> ls_funcs L b = None \<and> (\<forall>L'. ls_tables L' = T \<longrightarrow> tab_of L' (ls_globals L) = (tab_of L (ls_globals L))(VStr k \<mapsto> VFunc b) \<and> raw_at L' (ls_globals L))
    \<and> (\<forall>c. c \<noteq> ls_globals L \<longrightarrow> T c = ls_tables L c)"
proof -
  let ?A = "L\<lparr> ls_stack := VFunc b # ls_stack L, ls_funcs := (ls_funcs L)(b \<mapsto> CClosure func []) \<rparr>"
  have "raw_at ?A (ls_globals ?A)" "ls_stack ?A = VFunc b # ls_stack L" using assms(3) by (simp_all add: raw_at_def)
  from setglobal_run [OF assms(1) this, of k] obtain T where
    T: "lua_setglobal env k ?A = Some (Inr (), ?A\<lparr> ls_stack := ls_stack L, ls_tables := T \<rparr>)"
    "\<forall>L'. ls_tables L' = T \<longrightarrow> tab_of L' (ls_globals L) = (tab_of ?A (ls_globals L))(VStr k \<mapsto> VFunc b) \<and> raw_at L' (ls_globals L)"
    "\<forall>c. c \<noteq> ls_globals L \<longrightarrow> T c = ls_tables L c" by auto
  have "ls_funcs L b = None" using lua_env_okD(2) [OF assms(1,2)] assms(4) by simp
  moreover have "lthen (lua_pushcfunction env func) (lua_setglobal env k) L =
      Some (Inr (), L\<lparr> ls_funcs := (ls_funcs L)(b \<mapsto> CClosure func []), ls_tables := T \<rparr>)"
    using T(1) assms(4) stack_reset [OF refl, of L] by (simp add: lbind_run(2) lua_pushcclosure_def lua_run Let_def)
  moreover have "tab_of ?A = tab_of L" by (simp add: tab_of_def fun_eq_iff)
  ultimately show ?thesis using T(2,3) by auto
qed

lemma lthen_step: "m L = Some (Inr x, M) \<Longrightarrow> lthen m k L = k M"
  by (simp add: lbind_run)

lemma lthen_assoc: "lthen m (lthen n k) = lthen (lthen m n) k"
  by (simp add: fun_eq_iff lbind_run split: option.split sum.split)

text \<open>
  (C37) Opening the library in Lua. The old \<^verbatim>\<open>dofile\<close> is kept under the name \<^verbatim>\<open>dofile_backup\<close>,
  and \<^verbatim>\<open>dofile\<close> and \<^verbatim>\<open>dll_getBinarySymbol_C\<close> become new closures of their C functions; no other table and no other
  global changes. Then \<^verbatim>\<open>table.insert\<close> is called once, with the table of loaders and a new closure of the resource loader. The stack is
  as before in the end; if the call fails, its error is passed on.
\<close>

theorem open_symbols_correct:
  assumes "lua_env_ok env" "heap_finite L" "has_loaders L ins loaders d"
    and "g = ls_globals L"
  shows "\<exists>b c h L1. ls_stack L1 = VFunc h # loaders # VFunc ins # VFunc h # ls_stack L \<and> distinct [b, c, h] \<and> {b, c, h} \<inter> dom (ls_funcs L) = {}
    \<and> ls_funcs L1 = (ls_funcs L)(b \<mapsto> CClosure ''dll_getBinarySymbol_C'' [], c \<mapsto> CClosure ''symbol_dofile_C'' [], h \<mapsto> CClosure ''dll_symbolLoader_C'' [])
    \<and> tab_of L1 g = (tab_of L g)(VStr (c_str ''dll_getBinarySymbol_C'') \<mapsto> VFunc b, VStr (c_str ''dofile_backup'') \<mapsto> d, VStr (c_str ''dofile'') \<mapsto> VFunc c)
    \<and> (\<forall>a. a \<noteq> g \<longrightarrow> ls_tables L1 a = ls_tables L a)
    \<and> luaopen_symbols env L = (case le_call env (VFunc ins) [loaders, VFunc h] L1 of
        None \<Rightarrow> None
      | Some (Inl e, L2) \<Rightarrow> Some (Inl e, L2\<lparr> ls_stack := VFunc h # ls_stack L, ls_upvalues := ls_upvalues L \<rparr>)
      | Some (Inr rs, L2) \<Rightarrow> Some (Inr 0, L2\<lparr> ls_stack := ls_stack L, ls_upvalues := ls_upvalues L \<rparr>))"
proof -
  note ok = assms(1)
  have raw: "raw_at L (ls_globals L)" using assms(3) by (simp add: has_loaders_def)
  obtain b where b: "b = le_new env L" by simp
  from register_function [OF ok assms(2) raw b, of "''dll_getBinarySymbol_C''" "c_str ''dll_getBinarySymbol_C''"] obtain T1 where
    T1: "LREG env ''dll_getBinarySymbol_C'' L = Some (Inr (), L\<lparr> ls_funcs := (ls_funcs L)(b \<mapsto> CClosure ''dll_getBinarySymbol_C'' []), ls_tables := T1 \<rparr>)"
    "ls_funcs L b = None" "\<And>L'. ls_tables L' = T1 \<Longrightarrow> tab_of L' g = (tab_of L g)(VStr (c_str ''dll_getBinarySymbol_C'') \<mapsto> VFunc b) \<and> raw_at L' g"
    "\<forall>a. a \<noteq> g \<longrightarrow> T1 a = ls_tables L a" unfolding LREG_def LREG_NAME_def assms(4) by blast
  obtain A where A: "A = L\<lparr> ls_funcs := (ls_funcs L)(b \<mapsto> CClosure ''dll_getBinarySymbol_C'' []), ls_tables := T1 \<rparr>" by simp
  have tA: "tab_of A g = (tab_of L g)(VStr (c_str ''dll_getBinarySymbol_C'') \<mapsto> VFunc b)" "raw_at A (ls_globals A)" "ls_globals A = g"
    using T1(3) [of A] by (simp_all add: A assms(4))
  have d: "tab_of L g (VStr (c_str ''dofile'')) = Some d" using assms(3,4) by (simp add: has_loaders_def)
  have dA: "tab_of A g (VStr (c_str ''dofile'')) = Some d" unfolding tA(1) using d by (simp add: c_str_def)
  have nd: "d \<noteq> VNil" using d tab_map_VNil unfolding tab_of_def by metis
  let ?A1 = "A\<lparr> ls_stack := d # ls_stack L \<rparr>"
  have get: "lua_getglobal env (c_str ''dofile'') A = Some (Inr (), ?A1)"
    using raw_get_run [OF tA(2), of env "VStr (c_str ''dofile'')"] dA tA(3) by (simp add: lua_simps) (simp add: A)
  have "raw_at ?A1 (ls_globals ?A1)" "ls_stack ?A1 = d # ls_stack L" using tA(2) by (simp_all add: raw_at_def)
  from setglobal_run [OF ok this nd, of "c_str ''dofile_backup''"] obtain T2 where
    T2: "lua_setglobal env (c_str ''dofile_backup'') ?A1 = Some (Inr (), ?A1\<lparr> ls_stack := ls_stack L, ls_tables := T2 \<rparr>)"
    "\<And>L'. ls_tables L' = T2 \<Longrightarrow> tab_of L' g = (tab_of ?A1 g)(VStr (c_str ''dofile_backup'') \<mapsto> d) \<and> raw_at L' g"
    "\<forall>a. a \<noteq> g \<longrightarrow> T2 a = ls_tables A a" using tA(3) by auto
  obtain B where B: "B = ?A1\<lparr> ls_stack := ls_stack L, ls_tables := T2 \<rparr>" by simp
  have tB: "tab_of B g = (tab_of A g)(VStr (c_str ''dofile_backup'') \<mapsto> d)" "raw_at B (ls_globals B)" "ls_globals B = g"
    using T2(2) [of B] by (simp_all add: B tA(3) tab_of_def)
  have fB: "heap_finite B"
    by (rule heap_finite_one [OF assms(2), where a = g and b = b and f = "CClosure ''dll_getBinarySymbol_C'' []"])
      (use T1(4) T2(3) in \<open>simp_all add: A B\<close>)
  obtain c where c: "c = le_new env B" by simp
  from register_function [OF ok fB tB(2) c, of "''symbol_dofile_C''" "c_str ''dofile''"] obtain T3 where
    T3: "lthen (lua_pushcfunction env ''symbol_dofile_C'') (lua_setglobal env (c_str ''dofile'')) B =
        Some (Inr (), B\<lparr> ls_funcs := (ls_funcs B)(c \<mapsto> CClosure ''symbol_dofile_C'' []), ls_tables := T3 \<rparr>)"
    "ls_funcs B c = None" "\<And>L'. ls_tables L' = T3 \<Longrightarrow> tab_of L' g = (tab_of B g)(VStr (c_str ''dofile'') \<mapsto> VFunc c) \<and> raw_at L' g"
    "\<forall>a. a \<noteq> g \<longrightarrow> T3 a = ls_tables B a" unfolding tB(3) by blast
  obtain C where C: "C = B\<lparr> ls_funcs := (ls_funcs B)(c \<mapsto> CClosure ''symbol_dofile_C'' []), ls_tables := T3 \<rparr>" by simp
  have fC: "heap_finite C" by (rule heap_finite_one [OF fB, where a = g and b = c and f = "CClosure ''symbol_dofile_C'' []"]) (use T3(4) in \<open>simp_all add: C\<close>)
  obtain h where h: "h = le_new env C" by simp
  let ?F = "(ls_funcs L)(b \<mapsto> CClosure ''dll_getBinarySymbol_C'' [], c \<mapsto> CClosure ''symbol_dofile_C'' [], h \<mapsto> CClosure ''dll_symbolLoader_C'' [])"
  obtain D where D: "D = C\<lparr> ls_stack := VFunc h # ls_stack L, ls_funcs := ?F \<rparr>" by simp
  have push: "lua_pushcfunction env ''dll_symbolLoader_C'' C = Some (Inr (), D)"
    by (simp add: lua_pushcclosure_def lua_run Let_def h [symmetric] D) (simp add: A B C)
  have others: "\<forall>a. a \<noteq> g \<longrightarrow> ls_tables D a = ls_tables L a" using T1(4) T2(3) T3(4) by (simp add: A B C D)
  have tD: "tab_of D g = (tab_of L g)(VStr (c_str ''dll_getBinarySymbol_C'') \<mapsto> VFunc b, VStr (c_str ''dofile_backup'') \<mapsto> d, VStr (c_str ''dofile'') \<mapsto> VFunc c)"
    "raw_at D g" "ls_globals D = g" using T3(3) [of D] tB tA by (simp_all add: C D)
  have loD: "has_loaders D ins loaders (VFunc c)"
  proof -
    have keep: "tab_of D a = tab_of L a \<and> raw_at D a = raw_at L a" if "a \<noteq> g" for a using others that by (simp add: tab_of_def raw_at_def)
    have key: "tab_of D g (VStr (c_str k)) = tab_of L g (VStr (c_str k))" if "k = ''table'' \<or> k = ''package''" for k
      unfolding tD(1) using that by (auto simp: c_str_def)
    have "tab_of D g (VStr (c_str ''dofile'')) = Some (VFunc c)" unfolding tD(1) by simp
    with assms(3) keep key tD(2) show ?thesis unfolding has_loaders_def tD(3) assms(4) [symmetric] by metis
  qed
  have stD: "ls_stack D = VFunc h # ls_stack L" "ls_upvalues D = ls_upvalues L" by (simp_all add: A B C D)
  let ?L1 = "D\<lparr> ls_stack := VFunc h # loaders # VFunc ins # VFunc h # ls_stack L \<rparr>"
  have "luaopen_symbols env L = lthen (register_package_loader env 0) (lret 0) D"
  proof -
    have steps: "lthen (LREG env ''dll_getBinarySymbol_C'') k L = k A" "lthen (lua_getglobal env (c_str ''dofile'')) k A = k ?A1"
      "lthen (lua_setglobal env (c_str ''dofile_backup'')) k ?A1 = k B"
      "lthen (lthen (lua_pushcfunction env ''symbol_dofile_C'') (lua_setglobal env (c_str ''dofile''))) k B = k C"
      "lthen (lua_pushcfunction env ''dll_symbolLoader_C'') k C = k D" for k :: "int lua"
      by (rule lthen_step; simp only: T1(1) get T2(1) T3(1) push A [symmetric] B [symmetric] C [symmetric])+
    have seq: "lthen (lua_pushcfunction env ''symbol_dofile_C'') (lthen (lua_setglobal env (c_str ''dofile'')) k) B = k C" for k :: "int lua"
      unfolding lthen_assoc by (rule steps)
    show ?thesis unfolding luaopen_symbols_def by (simp only: steps seq)
  qed
  also have "\<dots> = (case le_call env (VFunc ins) [loaders, VFunc h] ?L1 of
        None \<Rightarrow> None
      | Some (Inl e, L2) \<Rightarrow> Some (Inl e, L2\<lparr> ls_stack := VFunc h # ls_stack L, ls_upvalues := ls_upvalues L \<rparr>)
      | Some (Inr rs, L2) \<Rightarrow> Some (Inr 0, L2\<lparr> ls_stack := ls_stack L, ls_upvalues := ls_upvalues L \<rparr>))"
    unfolding lbind_run(2) register_run [OF loD stD(1)] stD(2) by (simp add: lua_run split: option.split sum.split)
  finally have run: "luaopen_symbols env L = \<dots>" .
  have fresh: "ls_funcs L c = None" "c \<noteq> b" "ls_funcs L h = None" "h \<noteq> c" "h \<noteq> b"
  proof -
    show "ls_funcs L c = None" "c \<noteq> b" using T3(2) by (auto simp: A B split: if_splits)
    have "ls_funcs C h = None" using lua_env_okD(2) [OF ok fC] h by simp
    then show "ls_funcs L h = None" "h \<noteq> c" "h \<noteq> b" by (auto simp: A B C split: if_splits)
  qed
  show ?thesis
  proof (rule exI [of _ b], rule exI [of _ c], rule exI [of _ h], rule exI [of _ ?L1], intro conjI)
    show "{b, c, h} \<inter> dom (ls_funcs L) = {}" using T1(2) fresh(1,3) by auto
    show "tab_of ?L1 g = (tab_of L g)(VStr (c_str ''dll_getBinarySymbol_C'') \<mapsto> VFunc b, VStr (c_str ''dofile_backup'') \<mapsto> d, VStr (c_str ''dofile'') \<mapsto> VFunc c)"
      using tD(1) by (simp add: tab_of_def)
  qed (use fresh others run in \<open>auto simp: D\<close>)
qed

text \<open>A state with \<^verbatim>\<open>dofile\<close>, \<^verbatim>\<open>table.insert\<close> and \<^verbatim>\<open>package.loaders\<close>.\<close>

definition open_state :: lua_state where
  "open_state = (sample_state [] [])\<lparr> ls_tables := [
       1 \<mapsto> some_table [(VStr (c_str ''dofile''), VFunc 9), (VStr (c_str ''table''), VTable 2), (VStr (c_str ''package''), VTable 3)],
       2 \<mapsto> some_table [(VStr (c_str ''insert''), VFunc 8)], 3 \<mapsto> some_table [(VStr (c_str ''loaders''), VTable 4)], 4 \<mapsto> some_table []],
     ls_funcs := [8 \<mapsto> LuaClosure, 9 \<mapsto> LuaClosure] \<rparr>"

lemma open_symbols_correct_witness:
  "\<exists>L c. luaopen_symbols plain_lua open_state = Some (Inr 0, L) \<and> tab_of L 1 (VStr (c_str ''dofile_backup'')) = Some (VFunc 9)
    \<and> tab_of L 1 (VStr (c_str ''dofile'')) = Some (VFunc c) \<and> ls_funcs L c = Some (CClosure ''symbol_dofile_C'' [])"
proof -
  have g: "1 = ls_globals open_state" by (simp add: open_state_def sample_state_def)
  have s: "heap_finite open_state" "has_loaders open_state 8 (VTable 4) (VFunc 9)"
    by (simp_all add: heap_finite_def has_loaders_def raw_at_def tab_of_def open_state_def sample_state_def some_table_def tab_wf_def tab_map_def c_str_def)
  have call: "le_call plain_lua f args L = Some (Inr [VBool (list_ex (\<lambda>v. value_tag v = LUA_TSTRING) args)], L)" for f args L
    by (simp add: plain_lua_def lret_def)
  obtain b c h L1 where o: "distinct [b, c, h]"
      "ls_funcs L1 = (ls_funcs open_state)(b \<mapsto> CClosure ''dll_getBinarySymbol_C'' [], c \<mapsto> CClosure ''symbol_dofile_C'' [], h \<mapsto> CClosure ''dll_symbolLoader_C'' [])"
      "tab_of L1 1 = (tab_of open_state 1)(VStr (c_str ''dll_getBinarySymbol_C'') \<mapsto> VFunc b, VStr (c_str ''dofile_backup'') \<mapsto> VFunc 9, VStr (c_str ''dofile'') \<mapsto> VFunc c)"
      "luaopen_symbols plain_lua open_state = Some (Inr 0, L1\<lparr> ls_stack := ls_stack open_state, ls_upvalues := ls_upvalues open_state \<rparr>)"
    using open_symbols_correct [OF plain_lua_ok s g] unfolding call option.case prod.case sum.case by blast
  then have L1: "ls_funcs L1 c = Some (CClosure ''symbol_dofile_C'' [])" by simp
  let ?L = "L1\<lparr> ls_stack := ls_stack open_state, ls_upvalues := ls_upvalues open_state \<rparr>"
  have "tab_of ?L 1 = tab_of L1 1" by (simp add: tab_of_def)
  moreover have "c_str ''dofile_backup'' \<noteq> c_str ''dofile''" by (simp add: c_str_def)
  ultimately show ?thesis using L1 o(3,4) by (intro exI [of _ ?L] exI [of _ c]) simp
qed

end
