(* ===== verification/LuaDebug.thy ===== *)
theory LuaDebug
  imports LuaSymbols
begin

text \<open>
  The debug functions and the formatters of \<^verbatim>\<open>core/luautils.c\<close>. What \<^verbatim>\<open>lua_getstack\<close> and \<^verbatim>\<open>lua_getinfo\<close> tell about
  the running functions is a parameter: the list of frames of a state, the running function first. A
  formatted text is an argument, since the formatter has a theory of its own (\<open>StrFormat\<close>), and so are \<^verbatim>\<open>%g\<close> and \<^verbatim>\<open>strerror\<close>.
\<close>

subsection \<open>Frames\<close>

record lua_debug =
  ar_name :: "bytes option"
  ar_namewhat :: bytes
  ar_what :: bytes
  ar_source :: bytes
  ar_short_src :: bytes
  ar_currentline :: int
  ar_linedefined :: int
  ar_lastlinedefined :: int
  ar_nups :: int
  ar_func :: lua_value
  ar_locals :: "(bytes \<times> lua_value) list"
  ar_upvalues :: "(bytes \<times> lua_value) list"
  ar_activelines :: lua_value

type_synonym lua_frames = "lua_state \<Rightarrow> lua_debug list"

text \<open>The frame of a level, if there is one.\<close>

definition lua_getstack :: "lua_frames \<Rightarrow> int \<Rightarrow> lua_debug option lua" where
  "lua_getstack frames level = (\<lambda>L. lret (if 0 \<le> level \<and> nat level < length (frames L) then Some (frames L ! nat level) else None) L)"

text \<open>
  \<^verbatim>\<open>lua_getinfo\<close> fills in the frame, which the record holds already; \<^verbatim>\<open>f\<close> and \<^verbatim>\<open>L\<close> push the function and the table of its lines,
  and an option it does not know makes it fail before it pushes anything. (\<^verbatim>\<open>>\<close>, which takes a function from the stack, has no frame and is
  not used.)
\<close>

definition known_options :: "string \<Rightarrow> bool" where
  "known_options what \<longleftrightarrow> list_all (\<lambda>c. c \<in> set ''SlunfL'') what"

definition lua_getinfo :: "string \<Rightarrow> lua_debug \<Rightarrow> bool lua" where
  "lua_getinfo what ar =
     (if known_options what
      then lthen (if CHR ''f'' \<in> set what then lua_push (ar_func ar) else lret ()) (
           lthen (if CHR ''L'' \<in> set what then lua_push (ar_activelines ar) else lret ()) (
           lret True))
      else lret False)"

text \<open>\<^verbatim>\<open>%s\<close> of the C library on Linux for a pointer that may be null.\<close>

definition printf_string :: "bytes option \<Rightarrow> bytes" where
  "printf_string s = (case s of None \<Rightarrow> c_str ''(null)'' | Some s \<Rightarrow> s)"

subsection \<open>Traces and dumps\<close>

definition MAX_TRACE_DEPTH :: nat where "MAX_TRACE_DEPTH = 20"

definition trace_line :: "nat \<Rightarrow> lua_debug \<Rightarrow> bytes" where
  "trace_line depth ar = [64] @ decimal depth @ [32] @ ar_short_src ar @ [40] @ lj_str_bufint (ar_currentline ar) @ c_str ''): '' @ printf_string (ar_name ar)"

fun trace_frames :: "nat \<Rightarrow> lua_debug list \<Rightarrow> unit lua" where
  "trace_frames depth [] = lret ()"
| "trace_frames depth (ar # ars) =
     (if MAX_TRACE_DEPTH \<le> depth then lua_report (c_str ''maximum trace depth exceeded!'')
      else lthen (lua_report (trace_line depth ar)) (trace_frames (Suc depth) ars))"

definition luaStackTrace_C :: "lua_env \<Rightarrow> lua_frames \<Rightarrow> int lua" where
  "luaStackTrace_C env frames =
     lbind (lua_tostring env (lua_upvalueindex 1)) (\<lambda>label.
     lthen (case label of None \<Rightarrow> lret () | Some s \<Rightarrow> lua_report ([91] @ s @ [93])) (
     lbind lua_gettop (\<lambda>top.
     lbind (if 0 < top then lua_isstring top else lret False) (\<lambda>str.
     lthen (if str then lbind (lua_tostring env top) (\<lambda>s. lua_report (printf_string s)) else lret ()) (
     lthen (\<lambda>L. trace_frames 0 (frames L) L) (
     lret 0))))))"

definition dump_line :: "lua_env \<Rightarrow> (lua_number \<Rightarrow> bytes) \<Rightarrow> int \<Rightarrow> bytes lua" where
  "dump_line env printf_g i =
     lbind (lua_type i) (\<lambda>t.
     lbind (case t of
         LUA_TNIL \<Rightarrow> lret (c_str ''nil'')
       | LUA_TSTRING \<Rightarrow> lbind (lua_tostring env i) (\<lambda>s. lret (c_str ''string: '' @ quoted (printf_string s)))
       | LUA_TBOOLEAN \<Rightarrow> lbind (lua_toboolean i) (\<lambda>b. lret (c_str ''boolean: '' @ (if b then c_str ''true'' else c_str ''false'')))
       | LUA_TNUMBER \<Rightarrow> lbind (lua_tonumber env i) (\<lambda>n. lret (c_str ''number: '' @ printf_g n))
       | LUA_TFUNCTION \<Rightarrow> lbind (lua_topointer env i) (\<lambda>p. lret (c_str ''function ('' @ printf_pointer p @ [41]))
       | LUA_TTABLE \<Rightarrow> lbind (lua_topointer env i) (\<lambda>p. lret (c_str ''table ('' @ printf_pointer p @ [41]))
       | LUA_TUSERDATA \<Rightarrow> lbind (lua_topointer env i) (\<lambda>p. lret (c_str ''userdata @'' @ printf_pointer p))
       | LUA_TLIGHTUSERDATA \<Rightarrow> lbind (lua_topointer env i) (\<lambda>p. lret (c_str ''light userdata @'' @ printf_pointer p))
       | _ \<Rightarrow> lbind (lua_topointer env i) (\<lambda>p. lret (c_str (lua_typename t) @ c_str '' @'' @ printf_pointer p)))
     (\<lambda>value. lret ([35] @ lj_str_bufint i @ c_str '' = '' @ value)))"

fun dump_loop :: "lua_env \<Rightarrow> (lua_number \<Rightarrow> bytes) \<Rightarrow> nat \<Rightarrow> unit lua" where
  "dump_loop env printf_g 0 = lret ()"
| "dump_loop env printf_g (Suc i) =
     lbind (dump_line env printf_g (int (Suc i))) (\<lambda>line. lthen (lua_report line) (dump_loop env printf_g i))"

definition luaStackDump_C :: "lua_env \<Rightarrow> (lua_number \<Rightarrow> bytes) \<Rightarrow> int lua" where
  "luaStackDump_C env printf_g =
     lbind lua_gettop (\<lambda>i.
     lthen (lua_report (c_str ''Lua state '' @ printf_pointer (le_self env) @ c_str '', gettop (stack size) = '' @ lj_str_bufint i)) (
     lthen (dump_loop env printf_g (nat i)) (
     lret 0)))"

fun list_vars :: "bytes \<Rightarrow> nat \<Rightarrow> (bytes \<times> lua_value) list \<Rightarrow> unit lua" where
  "list_vars kind i [] = lret ()"
| "list_vars kind i ((name, v) # vars) =
     lthen (lua_push v) (
     lthen (lua_report (kind @ [32] @ decimal i @ [32] @ name)) (
     lthen (lua_pop 1) (
     list_vars kind (Suc i) vars)))"

definition luaListVars :: "lua_frames \<Rightarrow> int \<Rightarrow> bool lua" where
  "luaListVars frames level =
     lbind (lua_getstack frames level) (\<lambda>ar. case ar of
       None \<Rightarrow> lret False
     | Some ar \<Rightarrow>
         lthen (list_vars (c_str ''local'') 1 (ar_locals ar)) (
         lbind (lua_getinfo ''f'' ar) (\<lambda>ok.
         lthen (if ok then lthen (list_vars (c_str ''upvalue'') 1 (ar_upvalues ar)) (lua_pop 1) else lret ()) (
         lret True))))"

text \<open>The argument is checked to be a number, and taken to \<^verbatim>\<open>int\<close>.\<close>

definition luaL_checkint :: "lua_env \<Rightarrow> int \<Rightarrow> int lua" where
  "luaL_checkint env idx = lbind (lua_at idx) (\<lambda>v. case value_number env v of
     None \<Rightarrow> (\<lambda>L. lthrow (le_argerror env idx (lua_typename LUA_TNUMBER) L) L)
   | Some n \<Rightarrow> (case double_to_int 64 n of None \<Rightarrow> lundef | Some i \<Rightarrow> lret (int32 i)))"

definition luaListVars_C :: "lua_env \<Rightarrow> lua_frames \<Rightarrow> int lua" where
  "luaListVars_C env frames =
     lbind (luaL_checkint env 1) (\<lambda>level.
     lbind (luaListVars frames level) (\<lambda>b.
     lthen (lua_pushboolean b) (
     lret 1)))"

subsection \<open>Positions\<close>

definition unknown_caller :: bytes where
  "unknown_caller = c_str ''<unknown caller>''"

definition lua_callerPosition :: "lua_frames \<Rightarrow> int \<Rightarrow> bytes lua" where
  "lua_callerPosition frames level =
     lbind (lua_getstack frames level) (\<lambda>ar. lret (case ar of
       None \<Rightarrow> unknown_caller
     | Some ar \<Rightarrow> if ar_currentline ar < 0 then ar_short_src ar
         else ar_short_src ar @ c_str '', line '' @ lj_str_bufint (ar_currentline ar)))"

text \<open>\<^verbatim>\<open>strdup\<close> of a name that is null is undefined.\<close>

definition lua_callerName :: "lua_frames \<Rightarrow> int \<Rightarrow> bytes lua" where
  "lua_callerName frames level =
     lbind (lua_getstack frames level) (\<lambda>ar. case ar of
       None \<Rightarrow> lret unknown_caller
     | Some ar \<Rightarrow> (case ar_name ar of None \<Rightarrow> lundef | Some name \<Rightarrow> lret name))"

definition set_info :: "lua_env \<Rightarrow> bool \<Rightarrow> (string \<times> unit lua) list \<Rightarrow> unit lua" where
  "set_info env wanted fs =
     (if wanted then foldr (\<lambda>(k, push) m. lthen push (lthen (lua_setfield env (- 2) (c_str k)) m)) fs (lret ()) else lret ())"

definition luautils_pushinfo :: "lua_env \<Rightarrow> string \<Rightarrow> lua_debug \<Rightarrow> bool lua" where
  "luautils_pushinfo env what ar =
     lbind (lua_getinfo what ar) (\<lambda>result.
      lthen (lua_newtable env) (
      lthen (if result
             then lthen (set_info env (CHR ''n'' \<in> set what) [(''name'', lua_pushstring (ar_name ar)), (''namewhat'', lua_pushstring (Some (ar_namewhat ar)))]) (
               lthen (set_info env (CHR ''S'' \<in> set what)
                 [(''source'', lua_pushstring (Some (ar_source ar))), (''short_src'', lua_pushstring (Some (ar_short_src ar))),
                  (''linedefined'', lua_pushinteger env (ar_linedefined ar)), (''lastlinedefined'', lua_pushinteger env (ar_lastlinedefined ar)),
                  (''what'', lua_pushstring (Some (ar_what ar)))]) (
               lthen (set_info env (CHR ''l'' \<in> set what) [(''currentline'', lua_pushinteger env (ar_currentline ar))])
                 (set_info env (CHR ''u'' \<in> set what) [(''nups'', lua_pushinteger env (ar_nups ar))])))
             else lret ()) (
      lret result)))"

subsection \<open>Formatted messages\<close>

text \<open>A buffer of the auxiliary library is its content; \<open>msg\<close> is the formatted text.\<close>

definition luaL_addfmt :: "bytes \<Rightarrow> bytes \<Rightarrow> bytes" where
  "luaL_addfmt B msg = (if 0 < length msg then B @ msg else B)"

definition luautils_pushfstring :: "lua_env \<Rightarrow> bytes \<Rightarrow> bytes option lua" where
  "luautils_pushfstring env msg = lthen (lua_pushlstring msg) (lua_tostring env (- 1))"

definition luautils_push_syserrorno :: "(int \<Rightarrow> bytes) \<Rightarrow> int \<Rightarrow> bytes option \<Rightarrow> int lua" where
  "luautils_push_syserrorno strerror err pre =
     (let b = (case pre of None \<Rightarrow> [] | Some p \<Rightarrow> p @ c_str '': '')
      in lthen (lua_push (VStr (b @ strerror err))) (lret 1))"

text \<open>The message about a type is used as the format of the report.\<close>

definition luautils_checktype :: "lua_env \<Rightarrow> (lua_number \<Rightarrow> bytes) \<Rightarrow> int \<Rightarrow> lua_tag \<Rightarrow> bytes option \<Rightarrow> unit lua" where
  "luautils_checktype env printf_g index type place =
     lbind (lua_type index) (\<lambda>t.
     if t = type then lret ()
     else lbind lua_gettop (\<lambda>top.
       let msg = luaL_addfmt (case place of None \<Rightarrow> c_str ''<unknown>'' | Some w \<Rightarrow> w)
         ([40] @ printf_pointer (le_self env) @ c_str '',stack='' @ lj_str_bufint top @ c_str '') type check @ '' @ lj_str_bufint index @
          c_str '' FAILED: expected '' @ c_str (lua_typename type) @ c_str '', got '' @ c_str (lua_typename t)) in
       lthen (lua_push (VStr msg)) (
       lbind (lua_tostring env (- 1)) (\<lambda>s.
       lthen (lua_report_format (printf_string s)) (
       lthen (lua_pop 1) (
       lbind (luaStackDump_C env printf_g) (\<lambda>_. lret ())))))))"

subsection \<open>What the dumps show\<close>

text \<open>One line for the state and one for each value of the frame, whatever its type; nothing but the reports changes.\<close>

lemma dump_line_run:
  assumes "0 < i" "i \<le> int (length (ls_stack L))"
  shows "\<exists>line. dump_line env printf_g i L = Some (Inr line, L)"
proof -
  have "index2adr i L = Some (SStack (length (ls_stack L) - nat i))" using index_base [OF assms] .
  moreover have "slot_value L (SStack (length (ls_stack L) - nat i)) = from_base (ls_stack L) i" by (simp add: slot_value_def from_base_def)
  moreover note lua_at_run(5) [OF assms]
  ultimately show ?thesis
    by (cases "from_base (ls_stack L) i")
      (simp_all add: dump_line_def lua_type_def value_tag_def lua_tostring_def lua_tolstring_def lua_toboolean_def lua_tonumber_def
        lua_topointer_def value_number_def lbind_run lua_run)
qed

lemma dump_loop_run:
  "i \<le> length (ls_stack L) \<Longrightarrow> \<exists>rs. dump_loop env printf_g i L = Some (Inr (), L\<lparr> ls_reports := ls_reports L @ rs \<rparr>) \<and> length rs = i"
proof (induction i arbitrary: L)
  case 0
  show ?case by (intro exI [of _ "[]"]) (simp add: lua_run)
next
  case (Suc i)
  obtain line where line: "dump_line env printf_g (int (Suc i)) L = Some (Inr line, L)"
    using dump_line_run [of "int (Suc i)" L] Suc.prems by auto
  let ?L = "L\<lparr> ls_reports := ls_reports L @ [line] \<rparr>"
  obtain rs where "dump_loop env printf_g i ?L = Some (Inr (), ?L\<lparr> ls_reports := ls_reports ?L @ rs \<rparr>)" "length rs = i"
    using Suc.IH [of ?L] Suc.prems by auto
  then show ?case
    by (intro exI [of _ "line # rs"]) (simp only: dump_loop.simps lbind_run line option.case prod.case sum.case, simp add: lbind_run lua_run lua_report_def)
qed

lemma stack_dump_run:
  "\<exists>rs. luaStackDump_C env printf_g L = Some (Inr 0, L\<lparr> ls_reports := ls_reports L @ rs \<rparr>) \<and> length rs = Suc (length (ls_stack L))"
proof -
  let ?first = "c_str ''Lua state '' @ printf_pointer (le_self env) @ c_str '', gettop (stack size) = '' @ lj_str_bufint (int (length (ls_stack L)))"
  let ?L = "L\<lparr> ls_reports := ls_reports L @ [?first] \<rparr>"
  obtain rs where "dump_loop env printf_g (length (ls_stack L)) ?L = Some (Inr (), ?L\<lparr> ls_reports := ls_reports ?L @ rs \<rparr>)" "length rs = length (ls_stack L)"
    using dump_loop_run [of "length (ls_stack L)" ?L] by auto
  then show ?thesis
    by (intro exI [of _ "?first # rs"]) (simp add: luaStackDump_C_def lbind_run lua_run lua_report_def)
qed

text \<open>The variables are listed under their numbers and names, and the stack is left as it was.\<close>

lemma list_vars_run:
  "list_vars kind i vars L = Some (Inr (), L\<lparr> ls_reports := ls_reports L @ map (\<lambda>(j, name, _). kind @ [32] @ decimal j @ [32] @ name)
    (enumerate i vars) \<rparr>)"
proof (induction vars arbitrary: i L)
  case (Cons var vars)
  obtain name v where [simp]: "var = (name, v)" by (cases var)
  have pop: "lua_pop 1 M = Some (Inr (), M\<lparr> ls_stack := ls_stack L \<rparr>)" if "ls_stack M = v # ls_stack L" for M
    using that by (simp add: lua_simps)
  show ?case by (simp add: lbind_run lua_run lua_report_def pop Cons.IH)
qed (simp add: lua_run)

lemma luaListVars_run:
  assumes "0 \<le> level" "nat level < length (frames L)" "ar = frames L ! nat level"
  shows "luaListVars frames level L = Some (Inr True, L\<lparr> ls_reports := ls_reports L
    @ map (\<lambda>(j, name, _). c_str ''local'' @ [32] @ decimal j @ [32] @ name) (enumerate 1 (ar_locals ar))
    @ map (\<lambda>(j, name, _). c_str ''upvalue'' @ [32] @ decimal j @ [32] @ name) (enumerate 1 (ar_upvalues ar)) \<rparr>)"
proof -
  have pop: "lua_pop 1 M = Some (Inr (), M\<lparr> ls_stack := ls_stack L \<rparr>)" if "ls_stack M = v # ls_stack L" for M v
    using that by (simp add: lua_simps)
  show ?thesis using assms
    by (simp add: luaListVars_def lua_getstack_def lua_getinfo_def known_options_def lbind_run lua_run list_vars_run pop)
qed

subsection \<open>The trace as error handler\<close>

lemma trace_frames_run:
  "depth \<le> MAX_TRACE_DEPTH \<Longrightarrow>
    \<exists>rs. trace_frames depth ars L = Some (Inr (), L\<lparr> ls_reports := ls_reports L @ rs \<rparr>) \<and> length rs \<le> Suc MAX_TRACE_DEPTH - depth"
proof (induction ars arbitrary: depth L)
  case Nil
  show ?case by (intro exI [of _ "[]"]) (simp add: lua_run)
next
  case (Cons ar ars)
  show ?case
  proof (cases "MAX_TRACE_DEPTH \<le> depth")
    case True
    then show ?thesis using Cons.prems by (intro exI [of _ "[c_str ''maximum trace depth exceeded!'']"]) (simp add: lua_report_def lua_run)
  next
    case False
    let ?L = "L\<lparr> ls_reports := ls_reports L @ [trace_line depth ar] \<rparr>"
    obtain rs where "trace_frames (Suc depth) ars ?L = Some (Inr (), ?L\<lparr> ls_reports := ls_reports ?L @ rs \<rparr>)" "length rs \<le> Suc MAX_TRACE_DEPTH - Suc depth"
      using Cons.IH [of "Suc depth" ?L] False by auto
    then show ?thesis using False by (intro exI [of _ "trace_line depth ar # rs"]) (simp add: lbind_run lua_report_def lua_run)
  qed
qed

text \<open>As an error handler the trace changes, besides the reports, at most a number to its text, and returns nothing.\<close>

lemma trace_run:
  "\<exists>M. run_cfunction (luaStackTrace_C env frames) [] [v] L = Some (Inr [], M) \<and> ls_tables M = ls_tables L \<and> ls_funcs M = ls_funcs L
    \<and> (\<forall>msg. v = VStr msg \<longrightarrow> (\<exists>rs. ls_reports M = ls_reports L @ c_string msg # rs \<and> length rs \<le> Suc MAX_TRACE_DEPTH))"
proof -
  let ?L = "L\<lparr> ls_stack := [v], ls_upvalues := [] \<rparr>"
  have up: "lua_tostring env (lua_upvalueindex 1) ?L = Some (Inr None, ?L)"
    by (simp add: lua_tostring_def lua_tolstring_def index2adr_def lua_upvalueindex_def slot_value_def lbind_run lua_run)
  have at: "lua_at 1 ?L = Some (Inr v, ?L)" by (simp add: lua_at_run from_base_def)
  define K where "K = (case v of VStr s \<Rightarrow> ?L\<lparr> ls_reports := ls_reports L @ [c_string s] \<rparr>
    | VNum n \<Rightarrow> ?L\<lparr> ls_stack := [VStr (le_show env n)], ls_reports := ls_reports L @ [c_string (le_show env n)] \<rparr> | _ \<Rightarrow> ?L)"
  obtain rs where rs: "trace_frames 0 (frames K) K = Some (Inr (), K\<lparr> ls_reports := ls_reports K @ rs \<rparr>)" "length rs \<le> Suc MAX_TRACE_DEPTH"
    using trace_frames_run [of 0 "frames K" K] by auto
  have top: "lua_gettop ?L = Some (Inr 1, ?L)" by (simp add: lua_run)
  have str: "lua_isstring 1 ?L = Some (Inr (value_tag v = LUA_TSTRING \<or> value_tag v = LUA_TNUMBER), ?L)"
    by (simp add: lua_isstring_def lbind_run lua_run at)
  have ix: "index2adr 1 M = Some (SStack 0)" if "ls_stack M = [w]" for M w using that by (simp add: index2adr_def)
  have say: "(if value_tag v = LUA_TSTRING \<or> value_tag v = LUA_TNUMBER then lbind (lua_tostring env 1) (\<lambda>s. lua_report (printf_string s)) else lret ()) ?L
      = Some (Inr (), K)"
    by (cases v) (simp_all add: lua_tostring_def lua_tolstring_def lbind_run lua_run ix slot_value_def slot_store_def printf_string_def lua_report_def K_def)
  have "luaStackTrace_C env frames ?L = lthen (\<lambda>L. trace_frames 0 (frames L) L) (lret 0) K"
    by (simp only: luaStackTrace_C_def lbind_run up top str say lua_run(1) zero_less_one if_True option.case prod.case sum.case)
  then have "luaStackTrace_C env frames ?L = Some (Inr 0, K\<lparr> ls_reports := ls_reports K @ rs \<rparr>)" by (simp add: lbind_run rs(1) lua_run)
  moreover have "ls_tables K = ls_tables L" "ls_funcs K = ls_funcs L" "\<forall>msg. v = VStr msg \<longrightarrow> ls_reports K = ls_reports L @ [c_string msg]"
    by (cases v; simp add: K_def)+
  ultimately show ?thesis using rs(2) by (auto simp: run_cfunction_def lbind_run lua_run)
qed

text \<open>A Lua in which every call raises the same error, and the call of the handler with it runs the trace.\<close>

definition trace_lua :: lua_env where
  "trace_lua = plain_lua\<lparr> le_call := (\<lambda>f args. if args = [VStr [98]]
     then run_cfunction (luaStackTrace_C plain_lua (\<lambda>_. [])) [] args else lthrow (VStr [98])) \<rparr>"

text \<open>
  (C40) Running a script with a trace. When the chunk or the loading raises an error, the status is 2 as without the trace, but
  \<^verbatim>\<open>nil\<close> is left on the stack instead of the error: the handler prints the message and at most
  21 lines about the running functions to the log, and returns nothing.
\<close>

theorem script_error_lost:
  assumes "e = le_new env L" "E = L\<lparr> ls_stack := VFunc e # ls_stack L, ls_funcs := (ls_funcs L)(e \<mapsto> CClosure ''luaStackTrace_C'' []) \<rparr>"
    and "h = le_new env E"
    and "L0 = E\<lparr> ls_stack := VStr (pwd @ name) # VFunc h # VFunc e # ls_stack L, ls_funcs := (ls_funcs E)(h \<mapsto> CClosure ''symbol_dofile_C'' []) \<rparr>"
    and "le_call env (VFunc h) [VStr (pwd @ name)] L0 = Some (Inl v, L1)"
    and "le_call env (VFunc e) [v] L1 = run_cfunction (luaStackTrace_C env frames) [] [v] L1"
  shows "\<exists>L2. luautils_dofile env (Some pwd) name True L = Some (Inr 2, L2) \<and> ls_stack L2 = VNil # ls_stack L
    \<and> (\<forall>msg. v = VStr msg \<longrightarrow> (\<exists>rs. ls_reports L2 = ls_reports L1 @ c_string msg # rs \<and> length rs \<le> Suc MAX_TRACE_DEPTH))"
proof -
  let ?xs = "ls_stack L"
  have L0: "ls_stack L0 = VStr (pwd @ name) # VFunc h # VFunc e # ?xs" "ls_upvalues L0 = ls_upvalues L" by (simp_all add: assms(2,4))
  obtain M where M: "run_cfunction (luaStackTrace_C env frames) [] [v] L1 = Some (Inr [], M)"
    "\<forall>msg. v = VStr msg \<longrightarrow> (\<exists>rs. ls_reports M = ls_reports L1 @ c_string msg # rs \<and> length rs \<le> Suc MAX_TRACE_DEPTH)"
    using trace_run [of env frames v L1] by (elim exE conjE) (rule that)
  let ?i = "1 + int (length ?xs)"
  let ?L2 = "M\<lparr> ls_stack := VNil # VFunc e # ?xs, ls_upvalues := ls_upvalues L \<rparr>"
  have h: "stkindex2adr ?i L0 = Some (SStack 2)" using L0(1) by (simp add: stkindex2adr_def nat_add_distrib)
  have call: "lua_pcall env 1 (- 1) ?i L0 = Some (Inr 2, ?L2)"
    using assms(5,6) M(1) L0 h by (simp add: lua_pcall_def caller_frame_def adjust_results_def lua_run Let_def)
  have rem: "lua_remove ?i ?L2 = Some (Inr (), ?L2\<lparr> ls_stack := VNil # ?xs \<rparr>)"
    by (subst remove_frame [where ys = "[VNil]" and zs = ?xs]) simp_all
  have cat: "lua_concat env 2 M = Some (Inr (), M\<lparr> ls_stack := VStr (s1 @ s2) # ys \<rparr>)" if "ls_stack M = VStr s2 # VStr s1 # ys" for M s1 s2 ys
    using that by (simp add: lua_concat_def value_text_def lua_simps numeral_2_eq_2 Let_def)
  have push: "lua_pushcfunction env ''luaStackTrace_C'' L = Some (Inr (), E)" "lua_pushcfunction env ''symbol_dofile_C'' E =
      Some (Inr (), E\<lparr> ls_stack := VFunc h # ls_stack E, ls_funcs := (ls_funcs E)(h \<mapsto> CClosure ''symbol_dofile_C'' []) \<rparr>)"
    using assms(1,3) by (simp_all add: lua_pushcclosure_def lua_run Let_def assms(2))
  have len: "int (length (ls_stack E)) = 1 + int (length ?xs)" by (simp add: assms(2))
  have "luautils_dofile env (Some pwd) name True L = lbind (lua_pcall env 1 (- 1) ?i) (\<lambda>status. lthen (lua_remove ?i) (lret status)) L0"
    by (simp add: luautils_dofile_def lbind_run lua_run push len lua_pushstring_def cat) (simp add: assms(2,4))
  then have "luautils_dofile env (Some pwd) name True L = Some (Inr 2, ?L2\<lparr> ls_stack := VNil # ?xs \<rparr>)"
    by (simp add: lbind_run call rem lua_run)
  then show ?thesis using M(2) by simp
qed

lemma script_error_lost_witness:
  "\<exists>L2 rs. luautils_dofile trace_lua (Some [47]) [97] True (sample_state [] []) = Some (Inr 2, L2) \<and> ls_stack L2 = [VNil]
    \<and> ls_reports L2 = [98] # rs"
proof -
  let ?L = "sample_state [] []"
  have show_text: "le_show trace_lua = le_show plain_lua" by (simp add: trace_lua_def)
  obtain e E h L0 where "e = le_new trace_lua ?L"
    and E: "E = ?L\<lparr> ls_stack := VFunc e # ls_stack ?L, ls_funcs := (ls_funcs ?L)(e \<mapsto> CClosure ''luaStackTrace_C'' []) \<rparr>"
    and "h = le_new trace_lua E"
    and L0: "L0 = E\<lparr> ls_stack := VStr ([47] @ [97]) # VFunc h # VFunc e # ls_stack ?L, ls_funcs := (ls_funcs E)(h \<mapsto> CClosure ''symbol_dofile_C'' []) \<rparr>"
    by simp
  moreover have "le_call trace_lua (VFunc h) [VStr ([47] @ [97])] L0 = Some (Inl (VStr [98]), L0)"
    by (simp add: trace_lua_def lua_run)
  moreover have "luaStackTrace_C trace_lua (\<lambda>_. []) = luaStackTrace_C plain_lua (\<lambda>_. [])"
    by (simp only: luaStackTrace_C_def lua_tostring_def lua_tolstring_def show_text)
  then have "le_call trace_lua (VFunc e) [VStr [98]] L0 = run_cfunction (luaStackTrace_C trace_lua (\<lambda>_. [])) [] [VStr [98]] L0"
    by (simp add: trace_lua_def)
  ultimately obtain L2 where "luautils_dofile trace_lua (Some [47]) [97] True ?L = Some (Inr 2, L2)" "ls_stack L2 = VNil # ls_stack ?L"
    "\<exists>rs. ls_reports L2 = ls_reports L0 @ c_string [98] # rs"
    using script_error_lost [where env = trace_lua and L = ?L and pwd = "[47]" and name = "[97]" and v = "VStr [98]"] by blast
  then show ?thesis by (auto simp: L0 E sample_state_def c_string_def strlen_def)
qed

end
