(* ===== verification/Tinfl.thy ===== *)
theory Tinfl
  imports Utils
begin

unbundle bit_operations_syntax

text \<open>
  The decompressor \<^verbatim>\<open>core/tinfl.c\<close>. It is a coroutine: a call runs from the point in \<^verbatim>\<open>m_state\<close> until it
  returns a status, and the next call goes on there. The points are those of the source (the labels of \<^verbatim>\<open>TINFL_CR_RETURN\<close>)
  and the heads of its outer loops; \<open>tinfl_step\<close> runs from one point to the next. All callers clear
  \<^verbatim>\<open>TINFL_FLAG_HAS_MORE_INPUT\<close>, so that the labels that wait for input are not reached. The target has the 64-bit
  bit buffer and no unaligned loads.

  Pointers are offsets into the two blocks. Bytes of the tables are natural numbers, \<^verbatim>\<open>counter\<close> and \<^verbatim>\<open>m_type\<close> are
  integers where the source looks at them as \<^verbatim>\<open>int\<close>. An access outside an array gives \<open>None\<close>.
\<close>

subsection \<open>State\<close>

datatype tinfl_status = STATUS_BAD_PARAM | STATUS_ADLER32_MISMATCH | STATUS_FAILED | STATUS_DONE | STATUS_NEEDS_MORE_INPUT | STATUS_HAS_MORE_OUTPUT

datatype tinfl_point =
    Init \<comment> \<open>0\<close>
  | Block
  | Stored_bits \<comment> \<open>51\<close>
  | Stored_put \<comment> \<open>52\<close>
  | Stored_bytes \<comment> \<open>9\<close>
  | Tables
  | Codes
  | Literal \<comment> \<open>24\<close>
  | Symbol
  | Copy
  | Copy_put \<comment> \<open>53\<close>
  | Trailer
  | Finished \<comment> \<open>34\<close>
  | Failed nat \<comment> \<open>the label\<close>

record tinfl_huff_table =
  m_code_size :: "nat list"
  m_look_up :: "int list"
  m_tree :: "int list"

definition TINFL_FAST_LOOKUP_BITS :: nat where "TINFL_FAST_LOOKUP_BITS = 10"
definition TINFL_FAST_LOOKUP_SIZE :: nat where "TINFL_FAST_LOOKUP_SIZE = 1024"
definition TINFL_MAX_HUFF_SYMBOLS_0 :: nat where "TINFL_MAX_HUFF_SYMBOLS_0 = 288"

text \<open>The decompressor with the cursors of the running call and the block it writes to.\<close>

record tinfl_state =
  m_state :: tinfl_point
  m_num_bits :: nat
  m_bit_buf :: u64
  m_zhdr0 :: nat
  m_zhdr1 :: nat
  m_z_adler32 :: u32
  m_check_adler32 :: u32
  m_final :: nat
  m_type :: int
  m_dist :: nat
  m_counter :: int
  m_dist_from_out_buf_start :: nat
  m_table_sizes :: "nat list"
  m_tables :: "tinfl_huff_table list"
  m_len_codes :: "nat list"
  in_cur :: nat
  out_cur :: nat
  out_buf :: bytes

text \<open>What is fixed for a call: the input with its end, the end of the output, the mask, and the flags.\<close>

record tinfl_flags =
  FLAG_PARSE_ZLIB_HEADER :: bool
  FLAG_USING_NON_WRAPPING_OUTPUT_BUF :: bool
  FLAG_COMPUTE_ADLER32 :: bool

record tinfl_call =
  in_buf :: bytes
  in_end :: nat
  out_end :: nat
  out_buf_size_mask :: u64
  decomp_flags :: tinfl_flags

text \<open>A step goes on, or returns a status.\<close>

type_synonym tinfl_outcome = "(tinfl_status option \<times> tinfl_state) option"

definition goto :: "tinfl_point \<Rightarrow> tinfl_state \<Rightarrow> tinfl_outcome" where
  "goto p st = Some (None, st\<lparr> m_state := p \<rparr>)"

definition cr_return :: "tinfl_point \<Rightarrow> tinfl_status \<Rightarrow> tinfl_state \<Rightarrow> tinfl_outcome" where
  "cr_return p status st = Some (Some status, st\<lparr> m_state := p \<rparr>)"

text \<open>An array at an index that may be negative.\<close>

definition int_get :: "int list \<Rightarrow> int \<Rightarrow> int option" where
  "int_get xs i = (if i < 0 then None else array_get xs (nat i))"

definition int_set :: "int list \<Rightarrow> int \<Rightarrow> int \<Rightarrow> int list option" where
  "int_set xs i v = (if i < 0 then None else array_set xs (nat i) v)"

definition int16 :: "int \<Rightarrow> int" where
  "int16 i = sint (word_of_int i :: 16 word)"

definition u32_sub :: "nat \<Rightarrow> nat \<Rightarrow> nat" where
  "u32_sub a b = (if b \<le> a then a - b else a + 2 ^ 32 - b)"

subsection \<open>Bits\<close>

definition get_byte :: "tinfl_call \<Rightarrow> tinfl_state \<Rightarrow> (nat \<times> tinfl_state) option" where
  "get_byte env st =
     (if in_end env \<le> in_cur st then Some (0, st)
      else map_option (\<lambda>c. (unat c, st\<lparr> in_cur := in_cur st + 1 \<rparr>)) (array_get (in_buf env) (in_cur st)))"

definition add_byte :: "nat \<Rightarrow> tinfl_state \<Rightarrow> tinfl_state" where
  "add_byte c st = st\<lparr> m_bit_buf := m_bit_buf st OR push_bit (m_num_bits st) (word_of_nat c), m_num_bits := m_num_bits st + 8 \<rparr>"

partial_function (option) need_bits :: "tinfl_call \<Rightarrow> nat \<Rightarrow> tinfl_state \<Rightarrow> tinfl_state option" where
  "need_bits env n st = Option.bind (get_byte env st) (\<lambda>(c, st). let st = add_byte c st in
     if m_num_bits st < n then need_bits env n st else Some st)"

definition drop_bits :: "nat \<Rightarrow> tinfl_state \<Rightarrow> tinfl_state" where
  "drop_bits n st = st\<lparr> m_bit_buf := drop_bit n (m_bit_buf st), m_num_bits := u32_sub (m_num_bits st) n \<rparr>"

definition skip_bits :: "tinfl_call \<Rightarrow> nat \<Rightarrow> tinfl_state \<Rightarrow> tinfl_state option" where
  "skip_bits env n st = map_option (drop_bits n) (if m_num_bits st < n then need_bits env n st else Some st)"

definition get_bits :: "tinfl_call \<Rightarrow> nat \<Rightarrow> tinfl_state \<Rightarrow> (nat \<times> tinfl_state) option" where
  "get_bits env n st = map_option (\<lambda>st. (unat (m_bit_buf st AND mask n), drop_bits n st))
     (if m_num_bits st < n then need_bits env n st else Some st)"

subsection \<open>Huffman codes\<close>

definition look_up :: "tinfl_huff_table \<Rightarrow> u64 \<Rightarrow> int option" where
  "look_up tab buf = array_get (m_look_up tab) (unat (buf AND 1023))"

definition tree_next_entry :: "tinfl_huff_table \<Rightarrow> u64 \<Rightarrow> int \<Rightarrow> nat \<Rightarrow> int option" where
  "tree_next_entry tab buf temp code_len =
     (if 64 \<le> code_len then None else int_get (m_tree tab) (- temp - 1 + of_bool (bit buf code_len)))"

partial_function (option) tree_walk :: "tinfl_huff_table \<Rightarrow> u64 \<Rightarrow> int \<Rightarrow> nat \<Rightarrow> (int \<times> nat) option" where
  "tree_walk tab buf temp code_len = Option.bind (tree_next_entry tab buf temp code_len) (\<lambda>temp.
     if temp < 0 then tree_walk tab buf temp (code_len + 1) else Some (temp, code_len + 1))"

partial_function (option) fill_walk :: "tinfl_huff_table \<Rightarrow> u64 \<Rightarrow> nat \<Rightarrow> int \<Rightarrow> nat \<Rightarrow> int option" where
  "fill_walk tab buf num_bits temp code_len = Option.bind (tree_next_entry tab buf temp code_len) (\<lambda>temp.
     if temp < 0 \<and> code_len + 1 + 1 \<le> num_bits then fill_walk tab buf num_bits temp (code_len + 1) else Some temp)"

text \<open>Whether the bits at hand hold a code.\<close>

definition code_at_hand :: "tinfl_huff_table \<Rightarrow> tinfl_state \<Rightarrow> bool option" where
  "code_at_hand tab st = Option.bind (look_up tab (m_bit_buf st)) (\<lambda>temp.
     if 0 \<le> temp then let code_len = nat temp div 512 in Some (code_len \<noteq> 0 \<and> code_len \<le> m_num_bits st)
     else if TINFL_FAST_LOOKUP_BITS < m_num_bits st
          then map_option (\<lambda>temp. 0 \<le> temp) (fill_walk tab (m_bit_buf st) (m_num_bits st) temp TINFL_FAST_LOOKUP_BITS)
          else Some False)"

partial_function (option) huff_bitbuf_fill :: "tinfl_call \<Rightarrow> tinfl_huff_table \<Rightarrow> tinfl_state \<Rightarrow> tinfl_state option" where
  "huff_bitbuf_fill env tab st = Option.bind (code_at_hand tab st) (\<lambda>b.
     if b then Some st
     else Option.bind (get_byte env st) (\<lambda>(c, st). let st = add_byte c st in
          if m_num_bits st < 15 then huff_bitbuf_fill env tab st else Some st))"

definition read_ahead :: "tinfl_call \<Rightarrow> nat \<Rightarrow> tinfl_state \<Rightarrow> tinfl_state option" where
  "read_ahead env n st = iter_opt (\<lambda>st. map_option (\<lambda>c. add_byte (unat c) (st\<lparr> in_cur := in_cur st + 1 \<rparr>))
     (array_get (in_buf env) (in_cur st))) n st"

text \<open>The entry for the next code and its length.\<close>

definition huff_entry :: "tinfl_huff_table \<Rightarrow> u64 \<Rightarrow> (int \<times> nat) option" where
  "huff_entry tab buf = Option.bind (look_up tab buf) (\<lambda>temp.
     if 0 \<le> temp then Some (temp, nat temp div 512) else tree_walk tab buf temp TINFL_FAST_LOOKUP_BITS)"

text \<open>The next symbol and the length of its code; only an entry of the first table also holds the length.\<close>

definition huff_symbol :: "tinfl_huff_table \<Rightarrow> u64 \<Rightarrow> (nat \<times> nat) option" where
  "huff_symbol tab buf = Option.bind (look_up tab buf) (\<lambda>temp.
     if 0 \<le> temp then Some (nat temp mod 512, nat temp div 512)
     else map_option (\<lambda>(temp, code_len). (nat temp, code_len)) (tree_walk tab buf temp TINFL_FAST_LOOKUP_BITS))"

definition huff_decode :: "tinfl_call \<Rightarrow> tinfl_huff_table \<Rightarrow> tinfl_state \<Rightarrow> (nat \<times> tinfl_state) option" where
  "huff_decode env tab st =
     Option.bind (if m_num_bits st < 15
         then if in_end env - in_cur st < 2 then huff_bitbuf_fill env tab st else read_ahead env 2 st
         else Some st) (\<lambda>st.
     map_option (\<lambda>(sym, code_len). (sym, drop_bits code_len st)) (huff_symbol tab (m_bit_buf st)))"

subsection \<open>Building a table\<close>

definition count_sizes :: "nat list \<Rightarrow> nat list option" where
  "count_sizes sizes = fold_opt (\<lambda>total_syms size. Option.bind (array_get total_syms size) (\<lambda>n.
     array_set total_syms size (n + 1))) (replicate 16 0) sizes"

text \<open>\<open>used_syms\<close>, \<open>total\<close> and \<open>next_code\<close>.\<close>

definition next_codes :: "nat list \<Rightarrow> nat \<times> nat \<times> nat list" where
  "next_codes total_syms = fold (\<lambda>i (used_syms, total, next_code).
     let total = (total + total_syms ! i) * 2 in (used_syms + total_syms ! i, total, next_code[i + 1 := total]))
     [1..<16] (0, 0, replicate 17 0)"

fun reverse_code :: "nat \<Rightarrow> nat \<Rightarrow> nat \<Rightarrow> nat" where
  "reverse_code 0 cur_code rev_code = rev_code"
| "reverse_code (Suc l) cur_code rev_code = reverse_code l (cur_code div 2) (rev_code * 2 + cur_code mod 2)"

function fill_look_up :: "int \<Rightarrow> nat \<Rightarrow> nat \<Rightarrow> int list \<Rightarrow> int list option" where
  "fill_look_up k code_size rev_code xs =
     (if rev_code < TINFL_FAST_LOOKUP_SIZE
      then Option.bind (array_set xs rev_code k) (fill_look_up k code_size (rev_code + 2 ^ code_size))
      else Some xs)"
  by pat_completeness auto
termination by (relation "measure (\<lambda>(k, code_size, rev_code, xs). TINFL_FAST_LOOKUP_SIZE - rev_code)") (auto intro: diff_less_mono2)

text \<open>The nodes on the way to a code longer than 11 bits: \<open>j\<close> runs down to 12.\<close>

fun grow_tree :: "nat \<Rightarrow> nat \<Rightarrow> int \<Rightarrow> int \<Rightarrow> int list \<Rightarrow> (nat \<times> int \<times> int \<times> int list) option" where
  "grow_tree 0 rev_code tree_cur tree_next tree = Some (rev_code, tree_cur, tree_next, tree)"
| "grow_tree (Suc j) rev_code tree_cur tree_next tree =
     (let rev_code = rev_code div 2; tree_cur = tree_cur - int (rev_code mod 2); i = - tree_cur - 1
      in Option.bind (int_get tree i) (\<lambda>entry.
         if entry = 0
         then Option.bind (int_set tree i (int16 tree_next)) (grow_tree j rev_code tree_next (tree_next - 2))
         else grow_tree j rev_code entry tree_next tree))"

definition insert_long :: "nat \<Rightarrow> nat \<Rightarrow> nat \<Rightarrow> int \<Rightarrow> tinfl_huff_table \<Rightarrow> (int \<times> tinfl_huff_table) option" where
  "insert_long sym_index code_size rev_code tree_next tab =
     (let i = rev_code mod 1024 in
      Option.bind (array_get (m_look_up tab) i) (\<lambda>entry.
      let (look, tree_cur, tree_next) = (if entry = 0 then ((m_look_up tab)[i := int16 tree_next], tree_next, tree_next - 2)
            else (m_look_up tab, entry, tree_next)) in
      Option.bind (grow_tree (code_size - (TINFL_FAST_LOOKUP_BITS + 1)) (rev_code div 2 ^ (TINFL_FAST_LOOKUP_BITS - 1)) tree_cur tree_next (m_tree tab))
        (\<lambda>(rev_code, tree_cur, tree_next, tree).
      let rev_code = rev_code div 2; tree_cur = tree_cur - int (rev_code mod 2) in
      map_option (\<lambda>tree. (tree_next, tab\<lparr> m_look_up := look, m_tree := tree \<rparr>)) (int_set tree (- tree_cur - 1) (int16 (int sym_index))))))"

definition insert_symbol :: "int \<times> nat list \<times> tinfl_huff_table \<Rightarrow> nat \<Rightarrow> (int \<times> nat list \<times> tinfl_huff_table) option" where
  "insert_symbol s sym_index = (case s of (tree_next, next_code, tab) \<Rightarrow>
     Option.bind (array_get (m_code_size tab) sym_index) (\<lambda>code_size.
     if code_size = 0 then Some s
     else Option.bind (array_get next_code code_size) (\<lambda>cur_code.
       let next_code = next_code[code_size := cur_code + 1]; rev_code = reverse_code code_size cur_code 0
       in if code_size \<le> TINFL_FAST_LOOKUP_BITS
          then map_option (\<lambda>xs. (tree_next, next_code, tab\<lparr> m_look_up := xs \<rparr>))
            (fill_look_up (int16 (int (code_size * 512 + sym_index))) code_size rev_code (m_look_up tab))
          else map_option (\<lambda>(tree_next, tab). (tree_next, next_code, tab)) (insert_long sym_index code_size rev_code tree_next tab))))"

text \<open>\<open>Inl\<close> for a set of lengths that is not accepted.\<close>

definition build_table :: "nat \<Rightarrow> tinfl_huff_table \<Rightarrow> (unit + tinfl_huff_table) option" where
  "build_table table_size tab =
     (if length (m_code_size tab) < table_size then None
      else let tab = tab\<lparr> m_look_up := replicate TINFL_FAST_LOOKUP_SIZE 0, m_tree := replicate (TINFL_MAX_HUFF_SYMBOLS_0 * 2) 0 \<rparr> in
      Option.bind (count_sizes (take table_size (m_code_size tab))) (\<lambda>total_syms.
      let (used_syms, total, next_code) = next_codes total_syms in
      if total \<noteq> 65536 \<and> 1 < used_syms then Some (Inl ())
      else map_option (\<lambda>(_, _, tab). Inr tab) (fold_opt insert_symbol (- 1, next_code, tab) [0..<table_size])))"

subsection \<open>Blocks\<close>

definition s_length_base :: "int list" where
  "s_length_base = [3,4,5,6,7,8,9,10,11,13, 15,17,19,23,27,31,35,43,51,59, 67,83,99,115,131,163,195,227,258,0,0]"

definition s_length_extra :: "nat list" where
  "s_length_extra = [0,0,0,0,0,0,0,0,1,1,1,1,2,2,2,2,3,3,3,3,4,4,4,4,5,5,5,5,0,0,0]"

definition s_dist_base :: "nat list" where
  "s_dist_base = [1,2,3,4,5,7,9,13,17,25,33,49,65,97,129,193, 257,385,513,769,1025,1537,2049,3073,4097,6145,8193,12289,16385,24577,0,0]"

definition s_dist_extra :: "nat list" where
  "s_dist_extra = [0,0,0,0,1,1,2,2,3,3,4,4,5,5,6,6,7,7,8,8,9,9,10,10,11,11,12,12,13,13,0,0]"

definition s_length_dezigzag :: "nat list" where
  "s_length_dezigzag = [16,17,18,0,8,7,9,6,10,5,11,4,12,3,13,2,14,1,15]"

definition s_min_table_sizes :: "nat list" where
  "s_min_table_sizes = [257, 1, 4]"

definition bind2 :: "('a \<times> 'b) option \<Rightarrow> ('a \<Rightarrow> 'b \<Rightarrow> 'c option) \<Rightarrow> 'c option" where
  "bind2 m f = Option.bind m (\<lambda>(x, st). f x st)"

lemma bind2_mono [partial_function_mono]:
  assumes "mono_option B" "\<And>x st. mono_option (C x st)"
  shows "mono_option (\<lambda>f. bind2 (B f) (\<lambda>x st. C x st f))"
proof -
  have "mono_option (\<lambda>f. case r of (x, st) \<Rightarrow> C x st f)" for r
    by (cases r) (simp add: assms(2))
  then show ?thesis unfolding bind2_def by (intro bind_mono assms(1)) (simp add: case_prod_beta)
qed

definition set_table :: "nat \<Rightarrow> tinfl_huff_table \<Rightarrow> tinfl_state \<Rightarrow> tinfl_state" where
  "set_table i tab st = st\<lparr> m_tables := (m_tables st)[i := tab] \<rparr>"

definition table :: "nat \<Rightarrow> tinfl_state \<Rightarrow> tinfl_huff_table option" where
  "table i st = array_get (m_tables st) i"

text \<open>The first \<open>length xs\<close> lengths of a table.\<close>

definition set_sizes :: "nat \<Rightarrow> nat list \<Rightarrow> tinfl_state \<Rightarrow> tinfl_state option" where
  "set_sizes i xs st = Option.bind (table i st) (\<lambda>tab.
     map_option (\<lambda>sizes. set_table i (tab\<lparr> m_code_size := sizes \<rparr>) st) (block_write (m_code_size tab) 0 xs))"

definition fixed_tables :: "tinfl_state \<Rightarrow> tinfl_state option" where
  "fixed_tables st =
     Option.bind (set_sizes 1 (replicate 32 5) (st\<lparr> m_table_sizes := (m_table_sizes st)[0 := 288, 1 := 32] \<rparr>))
       (set_sizes 0 (replicate 144 8 @ replicate 112 9 @ replicate 24 7 @ replicate 8 8))"

definition read_table_size :: "tinfl_call \<Rightarrow> tinfl_state \<Rightarrow> nat \<Rightarrow> tinfl_state option" where
  "read_table_size env st counter = bind2 (get_bits env ([5, 5, 4] ! counter) st) (\<lambda>x st.
     Some (st\<lparr> m_table_sizes := (m_table_sizes st)[counter := x + s_min_table_sizes ! counter] \<rparr>))"

definition read_code_size :: "tinfl_call \<Rightarrow> tinfl_state \<Rightarrow> nat \<Rightarrow> tinfl_state option" where
  "read_code_size env st counter = bind2 (get_bits env 3 st) (\<lambda>s st.
     Option.bind (array_get s_length_dezigzag counter) (\<lambda>i.
     Option.bind (table 2 st) (\<lambda>tab.
     map_option (\<lambda>sizes. set_table 2 (tab\<lparr> m_code_size := sizes \<rparr>) st) (array_set (m_code_size tab) i s))))"

definition dynamic_tables :: "tinfl_call \<Rightarrow> tinfl_state \<Rightarrow> tinfl_state option" where
  "dynamic_tables env st =
     Option.bind (fold_opt (read_table_size env) st [0..<3]) (\<lambda>st.
     Option.bind (set_sizes 2 (replicate TINFL_MAX_HUFF_SYMBOLS_0 0) st) (\<lambda>st.
     map_option (\<lambda>st. st\<lparr> m_table_sizes := (m_table_sizes st)[2 := 19] \<rparr>)
       (fold_opt (read_code_size env) st [0..<m_table_sizes st ! 2])))"

text \<open>The lengths of the codes for literals and distances; \<open>Inl\<close> when the first one repeats its predecessor.\<close>

partial_function (option) read_len_codes :: "tinfl_call \<Rightarrow> nat \<Rightarrow> nat \<Rightarrow> tinfl_state \<Rightarrow> (unit + nat \<times> tinfl_state) option" where
  "read_len_codes env n counter st =
     (if n \<le> counter then Some (Inr (counter, st))
      else Option.bind (table 2 st) (\<lambda>tab. bind2 (huff_decode env tab st) (\<lambda>dist st.
        if dist < 16
        then Option.bind (array_set (m_len_codes st) counter dist) (\<lambda>xs. read_len_codes env n (counter + 1) (st\<lparr> m_len_codes := xs \<rparr>))
        else if dist = 16 \<and> counter = 0 then Some (Inl ())
        else Option.bind (array_get [2, 3, 7] (dist - 16)) (\<lambda>num_extra. bind2 (get_bits env num_extra st) (\<lambda>s st.
          let s = s + [3, 3, 11] ! (dist - 16) in
          Option.bind (if dist = 16 then array_get (m_len_codes st) (counter - 1) else Some 0) (\<lambda>c.
          Option.bind (block_write (m_len_codes st) counter (replicate s c)) (\<lambda>xs.
          read_len_codes env n (counter + s) (st\<lparr> m_len_codes := xs \<rparr>))))))))"

text \<open>A block begins: the kind of its data.\<close>

definition read_header_byte :: "tinfl_call \<Rightarrow> nat list \<times> tinfl_state \<Rightarrow> (nat list \<times> tinfl_state) option" where
  "read_header_byte env s = (case s of (raw, st) \<Rightarrow> bind2 (if m_num_bits st \<noteq> 0 then get_bits env 8 st else get_byte env st) (\<lambda>c st. Some (raw @ [c], st)))"

definition step_block :: "tinfl_call \<Rightarrow> tinfl_state \<Rightarrow> tinfl_outcome" where
  "step_block env st = bind2 (get_bits env 3 st) (\<lambda>final st.
     let typ = final div 2; st = st\<lparr> m_final := final, m_type := int typ \<rparr> in
     if typ = 0
     then Option.bind (skip_bits env (m_num_bits st mod 8) st) (\<lambda>st.
          bind2 (iter_opt (read_header_byte env) 4 ([], st)) (\<lambda>raw st.
          let counter = raw ! 0 + raw ! 1 * 256 in
          if counter \<noteq> 65535 - (raw ! 2 + raw ! 3 * 256) then cr_return (Failed 39) STATUS_FAILED st
          else goto Stored_bits (st\<lparr> m_counter := int counter \<rparr>)))
     else if typ = 3 then cr_return (Failed 10) STATUS_FAILED st
     else Option.bind (if typ = 1 then fixed_tables st else dynamic_tables env st) (goto Tables))"

definition step_stored_bits :: "tinfl_call \<Rightarrow> tinfl_state \<Rightarrow> tinfl_outcome" where
  "step_stored_bits env st =
     (if m_counter st \<noteq> 0 \<and> m_num_bits st \<noteq> 0
      then bind2 (get_bits env 8 st) (\<lambda>dist st. goto Stored_put (st\<lparr> m_dist := dist \<rparr>))
      else goto Stored_bytes st)"

text \<open>A byte at the end of the output, if there is room.\<close>

definition put_byte :: "u8 \<Rightarrow> tinfl_state \<Rightarrow> tinfl_state option" where
  "put_byte c st = map_option (\<lambda>out. st\<lparr> out_buf := out, out_cur := out_cur st + 1 \<rparr>) (array_set (out_buf st) (out_cur st) c)"

definition step_stored_put :: "tinfl_call \<Rightarrow> tinfl_state \<Rightarrow> tinfl_outcome" where
  "step_stored_put env st =
     (if out_end env \<le> out_cur st then cr_return Stored_put STATUS_HAS_MORE_OUTPUT st
      else Option.bind (put_byte (word_of_nat (m_dist st)) st) (\<lambda>st. goto Stored_bits (st\<lparr> m_counter := m_counter st - 1 \<rparr>)))"

definition end_of_block :: "tinfl_state \<Rightarrow> tinfl_outcome" where
  "end_of_block st = (if m_final st mod 2 = 0 then goto Block st else goto Trailer st)"

definition step_stored_bytes :: "tinfl_call \<Rightarrow> tinfl_state \<Rightarrow> tinfl_outcome" where
  "step_stored_bytes env st =
     (if m_counter st = 0 then end_of_block st
      else if out_end env \<le> out_cur st then cr_return Stored_bytes STATUS_HAS_MORE_OUTPUT st
      else if in_end env \<le> in_cur st then cr_return (Failed 40) STATUS_FAILED st
      else let n = min (min (out_end env - out_cur st) (in_end env - in_cur st)) (nat (m_counter st)) in
        Option.bind (slice (in_buf env) (in_cur st) n) (\<lambda>s.
        Option.bind (block_write (out_buf st) (out_cur st) s) (\<lambda>out.
        goto Stored_bytes (st\<lparr> out_buf := out, in_cur := in_cur st + n, out_cur := out_cur st + n, m_counter := m_counter st - int n \<rparr>))))"

text \<open>One table for each round, from \<open>m_type\<close> down to 0.\<close>

definition step_tables :: "tinfl_call \<Rightarrow> tinfl_state \<Rightarrow> tinfl_outcome" where
  "step_tables env st =
     (if m_type st < 0 then goto Codes st
      else let i = nat (m_type st) in
        Option.bind (table i st) (\<lambda>tab. Option.bind (array_get (m_table_sizes st) i) (\<lambda>n.
        Option.bind (build_table n tab) (\<lambda>r. case r of
          Inl _ \<Rightarrow> cr_return (Failed 35) STATUS_FAILED st
        | Inr tab \<Rightarrow>
            let st = set_table i tab st; n0 = m_table_sizes st ! 0; n1 = m_table_sizes st ! 1; next = (\<lambda>st. goto Tables (st\<lparr> m_type := m_type st - 1 \<rparr>)) in
            if i = 2
            then Option.bind (read_len_codes env (n0 + n1) 0 st) (\<lambda>r. case r of
                   Inl _ \<Rightarrow> cr_return (Failed 17) STATUS_FAILED st
                 | Inr (counter, st) \<Rightarrow>
                     if n0 + n1 \<noteq> counter then cr_return (Failed 21) STATUS_FAILED st
                     else Option.bind (set_sizes 0 (take n0 (m_len_codes st)) st) (\<lambda>st.
                          Option.bind (set_sizes 1 (take n1 (drop n0 (m_len_codes st))) st) next))
            else next st))))"

subsection \<open>Compressed data\<close>

text \<open>The loop over the codes goes fast while there is enough input and room for two literals.\<close>

definition step_codes :: "tinfl_call \<Rightarrow> tinfl_state \<Rightarrow> tinfl_outcome" where
  "step_codes env st = Option.bind (table 0 st) (\<lambda>tab.
     if in_end env - in_cur st < 4 \<or> out_end env - out_cur st < 2
     then bind2 (huff_decode env tab st) (\<lambda>counter st.
          let st = st\<lparr> m_counter := int counter \<rparr> in if 256 \<le> counter then goto Symbol st else goto Literal st)
     else Option.bind (if m_num_bits st < 30 then read_ahead env 4 st else Some st) (\<lambda>st.
          bind2 (huff_entry tab (m_bit_buf st)) (\<lambda>counter code_len.
          let st = (drop_bits code_len st)\<lparr> m_counter := counter \<rparr> in
          if bit counter 8 then goto Symbol st
          else bind2 (huff_entry tab (m_bit_buf st)) (\<lambda>sym2 code_len.
               let st = drop_bits code_len st in
               Option.bind (put_byte (word_of_int counter) st) (\<lambda>st.
               if bit sym2 8 then goto Symbol (st\<lparr> m_counter := sym2 \<rparr>)
               else Option.bind (put_byte (word_of_int sym2) st) (goto Codes))))))"

definition step_literal :: "tinfl_call \<Rightarrow> tinfl_state \<Rightarrow> tinfl_outcome" where
  "step_literal env st =
     (if out_end env \<le> out_cur st then cr_return Literal STATUS_HAS_MORE_OUTPUT st
      else Option.bind (put_byte (word_of_int (m_counter st)) st) (goto Codes))"

text \<open>Bytes one after the other, so that those just written may be read again.\<close>

fun copy_bytes :: "nat \<Rightarrow> nat \<Rightarrow> nat \<Rightarrow> bytes \<Rightarrow> bytes option" where
  "copy_bytes 0 dst src out = Some out"
| "copy_bytes (Suc n) dst src out = Option.bind (array_get out src) (\<lambda>c.
     Option.bind (array_set out dst c) (copy_bytes n (dst + 1) (src + 1)))"

partial_function (option) copy_match :: "nat \<Rightarrow> tinfl_state \<Rightarrow> tinfl_state option" where
  "copy_match src st = Option.bind (copy_bytes 3 (out_cur st) src (out_buf st)) (\<lambda>out.
     let st = st\<lparr> out_buf := out, out_cur := out_cur st + 3, m_counter := m_counter st - 3 \<rparr>; src = src + 3 in
     if 2 < m_counter st then copy_match src st
     else if 0 < m_counter st
     then map_option (\<lambda>out. st\<lparr> out_buf := out, out_cur := out_cur st + nat (m_counter st) \<rparr>)
            (copy_bytes (if 1 < m_counter st then 2 else 1) (out_cur st) src (out_buf st))
     else Some st)"

definition extra_bits :: "tinfl_call \<Rightarrow> nat \<Rightarrow> tinfl_state \<Rightarrow> (nat \<times> tinfl_state) option" where
  "extra_bits env num_extra st = (if num_extra \<noteq> 0 then get_bits env num_extra st else Some (0, st))"

text \<open>Where a match begins in the output.\<close>

definition match_source :: "tinfl_call \<Rightarrow> tinfl_state \<Rightarrow> nat" where
  "match_source env st = unat ((word_of_nat (m_dist_from_out_buf_start st) - word_of_nat (m_dist st)) AND out_buf_size_mask env)"

definition start_match :: "tinfl_call \<Rightarrow> tinfl_state \<Rightarrow> tinfl_outcome" where
  "start_match env st =
     (let st = st\<lparr> m_dist_from_out_buf_start := out_cur st \<rparr>; src = match_source env st in
      if m_dist_from_out_buf_start st < m_dist st \<and> FLAG_USING_NON_WRAPPING_OUTPUT_BUF (decomp_flags env)
      then cr_return (Failed 37) STATUS_FAILED st
      else if out_end env < max (out_cur st) src + nat (m_counter st) then goto Copy st
      else Option.bind (copy_match src st) (goto Codes))"

definition step_symbol :: "tinfl_call \<Rightarrow> tinfl_state \<Rightarrow> tinfl_outcome" where
  "step_symbol env st =
     (let sym = nat (m_counter st mod 512) in
      if sym = 256 then end_of_block (st\<lparr> m_counter := 256 \<rparr>)
      else Option.bind (array_get s_length_extra (sym - 257)) (\<lambda>num_extra.
           Option.bind (array_get s_length_base (sym - 257)) (\<lambda>base.
           bind2 (extra_bits env num_extra st) (\<lambda>x st.
           let st = st\<lparr> m_counter := base + int x \<rparr> in
           Option.bind (table 1 st) (\<lambda>tab.
           bind2 (huff_decode env tab st) (\<lambda>d st.
           Option.bind (array_get s_dist_extra d) (\<lambda>num_extra.
           Option.bind (array_get s_dist_base d) (\<lambda>base.
           bind2 (extra_bits env num_extra st) (\<lambda>x st.
           start_match env (st\<lparr> m_dist := base + x \<rparr>))))))))))"

definition step_copy :: "tinfl_state \<Rightarrow> tinfl_outcome" where
  "step_copy st = (let n = m_counter st; st = st\<lparr> m_counter := n - 1 \<rparr> in if n = 0 then goto Codes st else goto Copy_put st)"

definition step_copy_put :: "tinfl_call \<Rightarrow> tinfl_state \<Rightarrow> tinfl_outcome" where
  "step_copy_put env st =
     (if out_end env \<le> out_cur st then cr_return Copy_put STATUS_HAS_MORE_OUTPUT st
      else Option.bind (array_get (out_buf st) (match_source env st)) (\<lambda>c.
           Option.bind (put_byte c st) (\<lambda>st. goto Copy (st\<lparr> m_dist_from_out_buf_start := m_dist_from_out_buf_start st + 1 \<rparr>))))"

subsection \<open>The coroutine\<close>

definition bad_zlib_header :: "tinfl_call \<Rightarrow> nat \<Rightarrow> nat \<Rightarrow> bool" where
  "bad_zlib_header env zhdr0 zhdr1 \<longleftrightarrow>
     (zhdr0 * 256 + zhdr1) mod 31 \<noteq> 0 \<or> bit zhdr1 5 \<or> zhdr0 mod 16 \<noteq> 8 \<or>
     (\<not> FLAG_USING_NON_WRAPPING_OUTPUT_BUF (decomp_flags env) \<and>
      ((32768 :: nat) < 2 ^ (8 + zhdr0 div 16) \<or> out_buf_size_mask env + 1 < 2 ^ (8 + zhdr0 div 16)))"

definition step_init :: "tinfl_call \<Rightarrow> tinfl_state \<Rightarrow> tinfl_outcome" where
  "step_init env st =
     (let st = st\<lparr> m_bit_buf := 0, m_num_bits := 0, m_dist := 0, m_counter := 0, m_zhdr0 := 0, m_zhdr1 := 0, m_z_adler32 := 1, m_check_adler32 := 1 \<rparr> in
      if FLAG_PARSE_ZLIB_HEADER (decomp_flags env)
      then bind2 (get_byte env st) (\<lambda>zhdr0 st. bind2 (get_byte env st) (\<lambda>zhdr1 st.
           let st = st\<lparr> m_zhdr0 := zhdr0, m_zhdr1 := zhdr1 \<rparr> in
           if bad_zlib_header env zhdr0 zhdr1 then cr_return (Failed 36) STATUS_FAILED (st\<lparr> m_counter := 1 \<rparr>) else goto Block st))
      else goto Block st)"

definition read_adler_byte :: "tinfl_call \<Rightarrow> tinfl_state \<Rightarrow> tinfl_state option" where
  "read_adler_byte env st = bind2 (if m_num_bits st \<noteq> 0 then get_bits env 8 st else get_byte env st) (\<lambda>s st.
     Some (st\<lparr> m_z_adler32 := push_bit 8 (m_z_adler32 st) OR word_of_nat s \<rparr>))"

definition step_trailer :: "tinfl_call \<Rightarrow> tinfl_state \<Rightarrow> tinfl_outcome" where
  "step_trailer env st =
     (if FLAG_PARSE_ZLIB_HEADER (decomp_flags env)
      then Option.bind (skip_bits env (m_num_bits st mod 8) st) (\<lambda>st. Option.bind (iter_opt (read_adler_byte env) 4 st) (goto Finished))
      else goto Finished st)"

definition tinfl_step :: "tinfl_call \<Rightarrow> tinfl_state \<Rightarrow> tinfl_outcome" where
  "tinfl_step env st = (case m_state st of
     Init \<Rightarrow> step_init env st
   | Block \<Rightarrow> step_block env st
   | Stored_bits \<Rightarrow> step_stored_bits env st
   | Stored_put \<Rightarrow> step_stored_put env st
   | Stored_bytes \<Rightarrow> step_stored_bytes env st
   | Tables \<Rightarrow> step_tables env st
   | Codes \<Rightarrow> step_codes env st
   | Literal \<Rightarrow> step_literal env st
   | Symbol \<Rightarrow> step_symbol env st
   | Copy \<Rightarrow> step_copy st
   | Copy_put \<Rightarrow> step_copy_put env st
   | Trailer \<Rightarrow> step_trailer env st
   | Finished \<Rightarrow> cr_return Finished STATUS_DONE st
   | Failed n \<Rightarrow> cr_return (Failed n) STATUS_FAILED st)"

partial_function (option) tinfl_run :: "tinfl_call \<Rightarrow> tinfl_state \<Rightarrow> (tinfl_status \<times> tinfl_state) option" where
  "tinfl_run env st = Option.bind (tinfl_step env st) (\<lambda>(r, st). case r of
     None \<Rightarrow> tinfl_run env st
   | Some status \<Rightarrow> Some (status, st))"

subsection \<open>Checksums\<close>

definition adler_byte :: "u32 \<times> u32 \<Rightarrow> u8 \<Rightarrow> u32 \<times> u32" where
  "adler_byte s c = (case s of (s1, s2) \<Rightarrow> let s1 = s1 + ucast c in (s1, s2 + s1))"

text \<open>Eight bytes in each round, and what is left one by one.\<close>

function adler_block :: "u32 \<times> u32 \<Rightarrow> bytes \<Rightarrow> u32 \<times> u32" where
  "adler_block s xs =
     (if 8 \<le> length xs then adler_block (foldl adler_byte s (take 8 xs)) (drop 8 xs) else foldl adler_byte s xs)"
  by pat_completeness auto
termination by (relation "measure (\<lambda>(s, xs). length xs)") auto

function adler_blocks :: "nat \<Rightarrow> u32 \<times> u32 \<Rightarrow> bytes \<Rightarrow> u32 \<times> u32" where
  "adler_blocks block_len s xs =
     (if xs = [] then s
      else let (s1, s2) = adler_block s (take block_len xs)
        in adler_blocks 5552 (s1 mod 65521, s2 mod 65521) (drop block_len xs))"
  by pat_completeness auto
termination
proof (relation "measures [\<lambda>(n, s, xs). length xs, \<lambda>(n, s, xs). of_bool (n = 0)]", simp)
  fix n :: nat and s x :: "u32 \<times> u32" and xs :: bytes and s1 s2
  assume "xs \<noteq> []"
  then have "length xs - n < length xs \<or> n = 0" by (cases xs) auto
  then show "((5552, (s1 mod 65521, s2 mod 65521), drop n xs), n, s, xs) \<in> measures [\<lambda>(n, s, xs). length xs, \<lambda>(n, s, xs). of_bool (n = 0)]"
    by auto
qed

declare adler_block.simps [simp del] adler_blocks.simps [simp del] fill_look_up.simps [simp del]

definition update_adler32 :: "u32 \<Rightarrow> bytes \<Rightarrow> u32" where
  "update_adler32 check xs =
     (let (s1, s2) = adler_blocks (length xs mod 5552) (check AND 0xffff, drop_bit 16 check) xs in push_bit 16 s2 + s1)"

subsection \<open>Calls\<close>

definition negative_status :: "tinfl_status \<Rightarrow> bool" where
  "negative_status s \<longleftrightarrow> s \<in> {STATUS_BAD_PARAM, STATUS_ADLER32_MISMATCH, STATUS_FAILED}"

text \<open>The status, the sizes read and written, and the decompressor.\<close>

definition common_exit :: "tinfl_flags \<Rightarrow> nat \<Rightarrow> nat \<Rightarrow> tinfl_status \<times> tinfl_state \<Rightarrow> tinfl_status \<times> nat \<times> nat \<times> tinfl_state" where
  "common_exit flags in_next out_next r = (case r of (status, st) \<Rightarrow>
     let n = out_cur st - out_next in
     if (FLAG_PARSE_ZLIB_HEADER flags \<or> FLAG_COMPUTE_ADLER32 flags) \<and> \<not> negative_status status
     then let st = st\<lparr> m_check_adler32 := update_adler32 (m_check_adler32 st) (take n (drop out_next (out_buf st))) \<rparr> in
          (if status = STATUS_DONE \<and> FLAG_PARSE_ZLIB_HEADER flags \<and> m_check_adler32 st \<noteq> m_z_adler32 st then STATUS_ADLER32_MISMATCH else status,
           in_cur st - in_next, n, st)
     else (status, in_cur st - in_next, n, st))"

definition tinfl_decompress :: "tinfl_state \<Rightarrow> bytes \<Rightarrow> nat \<Rightarrow> nat \<Rightarrow> bytes \<Rightarrow> nat \<Rightarrow> nat \<Rightarrow> tinfl_flags
    \<Rightarrow> (tinfl_status \<times> nat \<times> nat \<times> tinfl_state) option" where
  "tinfl_decompress r src in_next in_size out out_next out_size flags =
     (let mask = (if FLAG_USING_NON_WRAPPING_OUTPUT_BUF flags then - 1 else word_of_nat (out_next + out_size) - 1);
          env = \<lparr> in_buf = src, in_end = in_next + in_size, out_end = out_next + out_size, out_buf_size_mask = mask, decomp_flags = flags \<rparr> in
      if (mask + 1) AND mask \<noteq> 0 then Some (STATUS_BAD_PARAM, 0, 0, r)
      else map_option (common_exit flags in_next out_next) (tinfl_run env (r\<lparr> in_cur := in_next, out_cur := out_next, out_buf := out \<rparr>)))"

definition tinfl_init :: "tinfl_state \<Rightarrow> tinfl_state" where
  "tinfl_init r = r\<lparr> m_state := Init \<rparr>"

text \<open>A null pointer is \<open>None\<close>; \<^verbatim>\<open>*pOut_len\<close> is the second result.\<close>

partial_function (option) mem_to_heap_loop :: "(bytes \<Rightarrow> nat \<Rightarrow> bytes option) \<Rightarrow> bytes \<Rightarrow> nat \<Rightarrow> tinfl_flags
    \<Rightarrow> tinfl_state \<Rightarrow> bytes option \<Rightarrow> nat \<Rightarrow> nat \<Rightarrow> nat \<Rightarrow> (bytes option \<times> nat) option" where
  "mem_to_heap_loop realloc src src_buf_len flags decomp pBuf src_buf_ofs out_buf_capacity out_len =
     Option.bind (tinfl_decompress decomp src src_buf_ofs (size_sub src_buf_len src_buf_ofs) (case pBuf of None \<Rightarrow> [] | Some b \<Rightarrow> b)
       (if pBuf = None then 0 else out_len) (size_sub out_buf_capacity out_len) (flags\<lparr> FLAG_USING_NON_WRAPPING_OUTPUT_BUF := True \<rparr>))
     (\<lambda>(status, n_in, n_out, decomp).
       if negative_status status \<or> status = STATUS_NEEDS_MORE_INPUT then Some (None, 0)
       else let pBuf = map_option (\<lambda>_. out_buf decomp) pBuf; src_buf_ofs = src_buf_ofs + n_in; out_len = out_len + n_out in
         if status = STATUS_DONE then Some (pBuf, out_len)
         else let new_out_buf_capacity = (let n = out_buf_capacity * 2 mod (size_max + 1) in if n < 128 then 128 else n) in
           case realloc (case pBuf of None \<Rightarrow> [] | Some b \<Rightarrow> b) new_out_buf_capacity of
             None \<Rightarrow> Some (None, 0)
           | Some b \<Rightarrow> mem_to_heap_loop realloc src src_buf_len flags decomp (Some b) src_buf_ofs new_out_buf_capacity out_len)"

definition tinfl_decompress_mem_to_heap :: "(bytes \<Rightarrow> nat \<Rightarrow> bytes option) \<Rightarrow> tinfl_state \<Rightarrow> bytes \<Rightarrow> nat \<Rightarrow> tinfl_flags \<Rightarrow> (bytes option \<times> nat) option" where
  "tinfl_decompress_mem_to_heap realloc decomp src src_buf_len flags = mem_to_heap_loop realloc src src_buf_len flags (tinfl_init decomp) None 0 0 0"

text \<open>\<open>None\<close> inside is \<^verbatim>\<open>TINFL_DECOMPRESS_MEM_TO_MEM_FAILED\<close>.\<close>

definition tinfl_decompress_mem_to_mem :: "tinfl_state \<Rightarrow> bytes \<Rightarrow> nat \<Rightarrow> bytes \<Rightarrow> nat \<Rightarrow> tinfl_flags \<Rightarrow> (nat option \<times> bytes) option" where
  "tinfl_decompress_mem_to_mem decomp src src_buf_len out out_buf_len flags =
     map_option (\<lambda>(status, _, n, st). (if status = STATUS_DONE then Some n else None, out_buf st))
       (tinfl_decompress (tinfl_init decomp) src 0 src_buf_len out 0 out_buf_len (flags\<lparr> FLAG_USING_NON_WRAPPING_OUTPUT_BUF := True \<rparr>))"

text \<open>
  With a dictionary of a fixed size that is written round and round. \<open>put_buf\<close> is given the bytes written and
  the state of the caller; it says whether to go on. The result is what is returned and what \<^verbatim>\<open>*pIn_buf_size\<close> is set to.
\<close>

definition TINFL_LZ_DICT_SIZE :: nat where "TINFL_LZ_DICT_SIZE = 32768"

partial_function (option) mem_to_callback_loop :: "(bytes \<Rightarrow> 'u \<Rightarrow> bool \<times> 'u) \<Rightarrow> bytes \<Rightarrow> nat \<Rightarrow> tinfl_flags
    \<Rightarrow> tinfl_state \<Rightarrow> bytes \<Rightarrow> nat \<Rightarrow> nat \<Rightarrow> 'u \<Rightarrow> (int \<times> nat \<times> 'u) option" where
  "mem_to_callback_loop put_buf src in_buf_size flags decomp pDict in_buf_ofs dict_ofs user =
     Option.bind (tinfl_decompress decomp src in_buf_ofs (size_sub in_buf_size in_buf_ofs) pDict dict_ofs (size_sub TINFL_LZ_DICT_SIZE dict_ofs)
       (flags\<lparr> FLAG_USING_NON_WRAPPING_OUTPUT_BUF := False \<rparr>))
     (\<lambda>(status, n_in, n_out, decomp).
       let in_buf_ofs = in_buf_ofs + n_in;
           put = (if n_out = 0 then (True, user) else put_buf (take n_out (drop dict_ofs (out_buf decomp))) user)
       in if \<not> fst put then Some (0, in_buf_ofs, snd put)
          else if status \<noteq> STATUS_HAS_MORE_OUTPUT then Some (of_bool (status = STATUS_DONE), in_buf_ofs, snd put)
          else mem_to_callback_loop put_buf src in_buf_size flags decomp (out_buf decomp) in_buf_ofs ((dict_ofs + n_out) mod TINFL_LZ_DICT_SIZE) (snd put))"

definition tinfl_decompress_mem_to_callback :: "(nat \<Rightarrow> bytes option) \<Rightarrow> tinfl_state \<Rightarrow> bytes \<Rightarrow> nat
    \<Rightarrow> (bytes \<Rightarrow> 'u \<Rightarrow> bool \<times> 'u) \<Rightarrow> 'u \<Rightarrow> tinfl_flags \<Rightarrow> (int \<times> nat \<times> 'u) option" where
  "tinfl_decompress_mem_to_callback malloc decomp src in_buf_size put_buf user flags = (case malloc TINFL_LZ_DICT_SIZE of
     None \<Rightarrow> Some (- 1, in_buf_size, user)
   | Some pDict \<Rightarrow> mem_to_callback_loop put_buf src in_buf_size flags (tinfl_init decomp) pDict 0 0 user)"

end
