(* ===== verification/Inflate.thy ===== *)
theory Inflate
  imports Prelude "HOL-Library.Sublist"
begin

unbundle bit_operations_syntax

text \<open>
  The data format that \<^verbatim>\<open>core/tinfl.c\<close> reads, as RFC 1951 describes it: a list of bits is consumed from the front, and
  \<open>None\<close> means that the data is not in the format (or that it ends too early). Nothing here follows the
  implementation; it is what the decompressor is measured against.
\<close>

subsection \<open>Bits\<close>

text \<open>A byte contributes its least significant bit first.\<close>

definition byte_bits :: "u8 \<Rightarrow> bool list" where
  "byte_bits c = map (bit c) [0..<8]"

definition bits_of_bytes :: "u8 list \<Rightarrow> bool list" where
  "bits_of_bytes xs = concat (map byte_bits xs)"

definition read_bits :: "nat \<Rightarrow> bool list \<Rightarrow> (nat \<times> bool list) option" where
  "read_bits n bs = (if length bs < n then None else Some (horner_sum of_bool 2 (take n bs), drop n bs))"

subsection \<open>Canonical Huffman codes (section 3.2.2)\<close>

definition bl_count :: "nat list \<Rightarrow> nat \<Rightarrow> nat" where
  "bl_count ls l = (if l = 0 then 0 else length (filter (\<lambda>k. k = l) ls))"

fun first_code :: "nat list \<Rightarrow> nat \<Rightarrow> nat" where
  "first_code ls 0 = 0"
| "first_code ls (Suc l) = (first_code ls l + bl_count ls l) * 2"

definition huff_code :: "nat list \<Rightarrow> nat \<Rightarrow> nat" where
  "huff_code ls s = first_code ls (ls ! s) + length (filter (\<lambda>t. ls ! t = ls ! s) [0..<s])"

text \<open>A code comes most significant bit first.\<close>

definition code_bits :: "nat list \<Rightarrow> nat \<Rightarrow> bool list" where
  "code_bits ls s = map (\<lambda>i. bit (huff_code ls s) (ls ! s - 1 - i)) [0..<ls ! s]"

text \<open>A set of lengths is accepted when its codes use up all sequences of bits, or when there is at most one code.\<close>

definition kraft :: "nat list \<Rightarrow> nat" where
  "kraft ls = (\<Sum>l\<leftarrow>ls. if l = 0 then 0 else 2 ^ (15 - l))"

definition valid_lengths :: "nat list \<Rightarrow> bool" where
  "valid_lengths ls \<longleftrightarrow> list_all (\<lambda>l. l \<le> 15) ls \<and> (kraft ls = 2 ^ 15 \<or> length (filter (\<lambda>l. l \<noteq> 0) ls) \<le> 1)"

definition decode_symbol :: "nat list \<Rightarrow> bool list \<Rightarrow> (nat \<times> bool list) option" where
  "decode_symbol ls bs = map_option (\<lambda>sym. (sym, drop (ls ! sym) bs))
     (find (\<lambda>sym. ls ! sym \<noteq> 0 \<and> prefix (code_bits ls sym) bs) [0..<length ls])"

subsection \<open>Compressed blocks (section 3.2.5)\<close>

text \<open>The extra bits and the smallest length of the symbols from 257, and of the distances from 0.\<close>

definition length_codes :: "(nat \<times> nat) list" where
  "length_codes = [(0,3),(0,4),(0,5),(0,6),(0,7),(0,8),(0,9),(0,10),(1,11),(1,13),(1,15),(1,17),(2,19),(2,23),(2,27),(2,31),
     (3,35),(3,43),(3,51),(3,59),(4,67),(4,83),(4,99),(4,115),(5,131),(5,163),(5,195),(5,227),(0,258)]"

definition dist_codes :: "(nat \<times> nat) list" where
  "dist_codes = [(0,1),(0,2),(0,3),(0,4),(1,5),(1,7),(2,9),(2,13),(3,17),(3,25),(4,33),(4,49),(5,65),(5,97),(6,129),(6,193),
     (7,257),(7,385),(8,513),(8,769),(9,1025),(9,1537),(10,2049),(10,3073),(11,4097),(11,6145),(12,8193),(12,12289),(13,16385),(13,24577)]"

definition read_value :: "(nat \<times> nat) list \<Rightarrow> nat \<Rightarrow> bool list \<Rightarrow> (nat \<times> bool list) option" where
  "read_value codes i bs = Option.bind (array_get codes i) (\<lambda>(extra, base).
     map_option (\<lambda>(x, bs). (base + x, bs)) (read_bits extra bs))"

fun repeat_match :: "nat \<Rightarrow> nat \<Rightarrow> u8 list \<Rightarrow> u8 list" where
  "repeat_match 0 dist out = out"
| "repeat_match (Suc len) dist out = repeat_match len dist (out @ [out ! (length out - dist)])"

partial_function (option) inflate_codes :: "nat list \<Rightarrow> nat list \<Rightarrow> bool list \<Rightarrow> u8 list \<Rightarrow> (bool list \<times> u8 list) option" where
  "inflate_codes lit dist bs out = Option.bind (decode_symbol lit bs) (\<lambda>(sym, bs).
     if sym < 256 then inflate_codes lit dist bs (out @ [word_of_nat sym])
     else if sym = 256 then Some (bs, out)
     else Option.bind (read_value length_codes (sym - 257) bs) (\<lambda>(len, bs).
          Option.bind (decode_symbol dist bs) (\<lambda>(d, bs).
          Option.bind (read_value dist_codes d bs) (\<lambda>(d, bs).
          if length out < d then None else inflate_codes lit dist bs (repeat_match len d out)))))"

subsection \<open>The code lengths of a block (sections 3.2.6 and 3.2.7)\<close>

definition fixed_lit_lengths :: "nat list" where
  "fixed_lit_lengths = replicate 144 8 @ replicate 112 9 @ replicate 24 7 @ replicate 8 8"

definition fixed_dist_lengths :: "nat list" where
  "fixed_dist_lengths = replicate 32 5"

definition length_order :: "nat list" where
  "length_order = [16,17,18,0,8,7,9,6,10,5,11,4,12,3,13,2,14,1,15]"

text \<open>The lengths for the code of the lengths, given in a fixed order.\<close>

fun read_cl_lengths :: "nat list \<Rightarrow> nat list \<Rightarrow> bool list \<Rightarrow> (nat list \<times> bool list) option" where
  "read_cl_lengths [] cl bs = Some (cl, bs)"
| "read_cl_lengths (i # order) cl bs = Option.bind (read_bits 3 bs) (\<lambda>(l, bs). read_cl_lengths order (cl[i := l]) bs)"

partial_function (option) read_lengths :: "nat list \<Rightarrow> nat \<Rightarrow> nat list \<Rightarrow> bool list \<Rightarrow> (nat list \<times> bool list) option" where
  "read_lengths cl n ls bs =
     (if n \<le> length ls then if length ls = n then Some (ls, bs) else None
      else Option.bind (decode_symbol cl bs) (\<lambda>(sym, bs).
        if sym < 16 then read_lengths cl n (ls @ [sym]) bs
        else if sym = 16
        then if ls = [] then None else Option.bind (read_bits 2 bs) (\<lambda>(x, bs). read_lengths cl n (ls @ replicate (x + 3) (last ls)) bs)
        else if sym = 17
        then Option.bind (read_bits 3 bs) (\<lambda>(x, bs). read_lengths cl n (ls @ replicate (x + 3) 0) bs)
        else Option.bind (read_bits 7 bs) (\<lambda>(x, bs). read_lengths cl n (ls @ replicate (x + 11) 0) bs)))"

definition read_dynamic :: "bool list \<Rightarrow> ((nat list \<times> nat list) \<times> bool list) option" where
  "read_dynamic bs = Option.bind (read_bits 5 bs) (\<lambda>(hlit, bs).
     Option.bind (read_bits 5 bs) (\<lambda>(hdist, bs).
     Option.bind (read_bits 4 bs) (\<lambda>(hclen, bs).
     Option.bind (read_cl_lengths (take (hclen + 4) length_order) (replicate 19 0) bs) (\<lambda>(cl, bs).
     if \<not> valid_lengths cl then None
     else Option.bind (read_lengths cl (hlit + 257 + (hdist + 1)) [] bs) (\<lambda>(ls, bs).
          let lit = take (hlit + 257) ls; dist = drop (hlit + 257) ls in
          if valid_lengths lit \<and> valid_lengths dist then Some ((lit, dist), bs) else None)))))"

subsection \<open>Blocks (section 3.2.3)\<close>

text \<open>The bytes of a stored block, after the bits up to the next byte boundary are skipped.\<close>

fun read_bytes :: "nat \<Rightarrow> bool list \<Rightarrow> (u8 list \<times> bool list) option" where
  "read_bytes 0 bs = Some ([], bs)"
| "read_bytes (Suc n) bs = Option.bind (read_bits 8 bs) (\<lambda>(c, bs). map_option (\<lambda>(cs, bs). (word_of_nat c # cs, bs)) (read_bytes n bs))"

definition inflate_stored :: "bool list \<Rightarrow> u8 list \<Rightarrow> (bool list \<times> u8 list) option" where
  "inflate_stored bs out = Option.bind (read_bits 16 (drop (length bs mod 8) bs)) (\<lambda>(len, bs).
     Option.bind (read_bits 16 bs) (\<lambda>(nlen, bs).
     if len + nlen \<noteq> 65535 then None else map_option (\<lambda>(cs, bs). (bs, out @ cs)) (read_bytes len bs)))"

definition inflate_block :: "nat \<Rightarrow> bool list \<Rightarrow> u8 list \<Rightarrow> (bool list \<times> u8 list) option" where
  "inflate_block btype bs out =
     (if btype = 0 then inflate_stored bs out
      else if btype = 1 then inflate_codes fixed_lit_lengths fixed_dist_lengths bs out
      else if btype = 2 then Option.bind (read_dynamic bs) (\<lambda>((lit, dist), bs). inflate_codes lit dist bs out)
      else None)"

partial_function (option) inflate_blocks :: "bool list \<Rightarrow> u8 list \<Rightarrow> (bool list \<times> u8 list) option" where
  "inflate_blocks bs out = Option.bind (read_bits 1 bs) (\<lambda>(final, bs). Option.bind (read_bits 2 bs) (\<lambda>(btype, bs).
     Option.bind (inflate_block btype bs out) (\<lambda>(bs, out). if final = 1 then Some (bs, out) else inflate_blocks bs out)))"

text \<open>The data that a compressed stream stands for.\<close>

definition inflate :: "u8 list \<Rightarrow> u8 list option" where
  "inflate xs = map_option snd (inflate_blocks (bits_of_bytes xs) [])"

end
