(* ===== verification/HuffmanCode.thy ===== *)
theory HuffmanCode
  imports Inflate
begin

text \<open>
  Facts on canonical Huffman codes. In the order of their lengths, and of the symbols for equal lengths, the codes
  take consecutive intervals of the sequences of 15 bits: each begins where the one before ends. So no code is
  a prefix of another, and the codes of an accepted set of lengths leave no gap.
\<close>

subsection \<open>Numbers from bits\<close>

text \<open>Most significant bit first.\<close>

definition bits_value :: "bool list \<Rightarrow> nat" where
  "bits_value bs = horner_sum of_bool 2 (rev bs)"

lemma horner_less: "horner_sum of_bool 2 bs < (2 :: nat) ^ length bs"
  by (induction bs) auto

lemma bit_inject: "(of_bool a + 2 * x :: nat) = of_bool b + 2 * y \<Longrightarrow> a = b \<and> x = y"
  by (cases a; cases b; simp; presburger)

lemma horner_inject: "length as = length bs \<Longrightarrow> horner_sum of_bool 2 as = (horner_sum of_bool 2 bs :: nat) \<Longrightarrow> as = bs"
proof (induction as bs rule: list_induct2)
  case (Cons a as b bs)
  have "of_bool a + 2 * horner_sum of_bool 2 as = (of_bool b + 2 * horner_sum of_bool 2 bs :: nat)" using Cons.prems by simp
  then show ?case using bit_inject Cons.IH by blast
qed simp

lemma bits_value_less: "bits_value bs < 2 ^ length bs"
  using horner_less [of "rev bs"] by (simp add: bits_value_def)

lemma bits_value_append: "bits_value (as @ bs) = bits_value as * 2 ^ length bs + bits_value bs"
  by (simp add: bits_value_def horner_sum_append)

lemma bits_value_inject: "length as = length bs \<Longrightarrow> bits_value as = bits_value bs \<Longrightarrow> as = bs"
  using horner_inject [of "rev as" "rev bs"] by (simp add: bits_value_def)

lemma prefix_bits_value:
  assumes "length bs = length as + k"
  shows "prefix as bs \<longleftrightarrow> bits_value bs div 2 ^ k = bits_value as"
proof -
  have bs: "bs = take (length as) bs @ drop (length as) bs" and len: "length (take (length as) bs) = length as" "length (drop (length as) bs) = k"
    using assms by simp_all
  have "bits_value bs = bits_value (take (length as) bs) * 2 ^ k + bits_value (drop (length as) bs)"
    by (subst bs, subst bits_value_append) (simp only: len)
  moreover have "bits_value (drop (length as) bs) < 2 ^ k" using bits_value_less [of "drop (length as) bs"] len by simp
  ultimately have "bits_value bs div 2 ^ k = bits_value (take (length as) bs)" by simp
  moreover have "prefix as bs \<longleftrightarrow> take (length as) bs = as"
    by (metis append_eq_conv_conj prefix_def take_is_prefix)
  ultimately show ?thesis using bits_value_inject [OF len(1)] by auto
qed

lemma div_interval: "0 < w \<Longrightarrow> x div w = h \<longleftrightarrow> h * w \<le> x \<and> x < h * w + w" for x w h :: nat
  using div_times_less_eq_dividend [of x w] dividend_less_div_times [of w x] div_nat_eqI [of w h x]
  by (auto simp: mult.commute)

subsection \<open>Intervals\<close>

definition used :: "nat list \<Rightarrow> nat \<Rightarrow> bool" where
  "used ls s \<longleftrightarrow> s < length ls \<and> ls ! s \<noteq> 0"

definition width :: "nat list \<Rightarrow> nat \<Rightarrow> nat" where
  "width ls s = 2 ^ (15 - ls ! s)"

definition before :: "nat list \<Rightarrow> nat \<Rightarrow> nat set" where
  "before ls s = {t. used ls t \<and> (ls ! t < ls ! s \<or> ls ! t = ls ! s \<and> t < s)}"

definition code_start :: "nat list \<Rightarrow> nat \<Rightarrow> nat" where
  "code_start ls s = sum (width ls) (before ls s)"

lemma finite_used: "finite {t. used ls t}"
  by (simp add: used_def)

lemma finite_before [simp]: "finite (before ls s)"
  by (rule finite_subset [OF _ finite_used [of ls]]) (auto simp: before_def)

lemma before_trichotomy: "used ls s \<Longrightarrow> used ls t \<Longrightarrow> s \<noteq> t \<Longrightarrow> s \<in> before ls t \<or> t \<in> before ls s"
  by (auto simp: before_def)

lemma before_insert: "t \<in> before ls s \<Longrightarrow> insert t (before ls t) \<subseteq> before ls s" "t \<notin> before ls t"
  by (auto simp: before_def)

lemma code_start_before: "t \<in> before ls s \<Longrightarrow> code_start ls t + width ls t \<le> code_start ls s"
proof -
  assume t: "t \<in> before ls s"
  have "sum (width ls) (insert t (before ls t)) \<le> code_start ls s"
    unfolding code_start_def using before_insert(1) [OF t] by (intro sum_mono2) auto
  then show ?thesis by (simp add: code_start_def before_insert(2))
qed

lemma kraft_sum: "kraft ls = sum (width ls) {t. used ls t}"
proof -
  have "kraft ls = (\<Sum>t = 0..<length ls. if ls ! t = 0 then 0 else 2 ^ (15 - ls ! t))"
    by (simp add: kraft_def sum_list_sum_nth)
  also have "\<dots> = (\<Sum>t\<in>{t. used ls t}. if ls ! t = 0 then 0 else 2 ^ (15 - ls ! t))"
    by (rule sum.mono_neutral_right) (auto simp: used_def)
  also have "\<dots> = sum (width ls) {t. used ls t}" by (rule sum.cong) (auto simp: used_def width_def)
  finally show ?thesis .
qed

lemma code_start_kraft: "used ls s \<Longrightarrow> code_start ls s + width ls s \<le> kraft ls"
proof -
  assume s: "used ls s"
  have "sum (width ls) (insert s (before ls s)) \<le> sum (width ls) {t. used ls t}"
    using s by (intro sum_mono2 finite_used) (auto simp: before_def)
  then show ?thesis by (simp add: code_start_def before_insert(2) kraft_sum)
qed

lemma first_code_sum:
  "l \<le> 15 \<Longrightarrow> first_code ls l * 2 ^ (15 - l) = sum (width ls) {t. used ls t \<and> ls ! t < l}"
proof (induction l)
  case (Suc l)
  have split: "{t. used ls t \<and> ls ! t < Suc l} = {t. used ls t \<and> ls ! t < l} \<union> {t. used ls t \<and> ls ! t = l}" by auto
  have "sum (width ls) {t. used ls t \<and> ls ! t < Suc l} = sum (width ls) {t. used ls t \<and> ls ! t < l} + sum (width ls) {t. used ls t \<and> ls ! t = l}"
    unfolding split by (rule sum.union_disjoint) (auto intro: finite_subset [OF _ finite_used [of ls]])
  moreover have "sum (width ls) {t. used ls t \<and> ls ! t = l} = bl_count ls l * 2 ^ (15 - l)"
  proof -
    have "bl_count ls l = card {t. used ls t \<and> ls ! t = l}"
      by (cases "l = 0") (auto simp: bl_count_def length_filter_conv_card used_def intro!: arg_cong [where f = card])
    then show ?thesis by (simp add: width_def)
  qed
  moreover have "first_code ls (Suc l) * 2 ^ (15 - Suc l) = (first_code ls l + bl_count ls l) * 2 ^ (15 - l)"
  proof -
    have "15 - l = Suc (15 - Suc l)" using Suc.prems by simp
    then have "(2 :: nat) ^ (15 - l) = 2 * 2 ^ (15 - Suc l)" by (metis power_Suc)
    then show ?thesis by (simp only: first_code.simps)
  qed
  ultimately show ?case using Suc by (simp add: distrib_right del: first_code.simps)
qed simp

lemma huff_code_start:
  assumes "used ls s" "ls ! s \<le> 15"
  shows "huff_code ls s * width ls s = code_start ls s"
proof -
  have split: "before ls s = {t. used ls t \<and> ls ! t < ls ! s} \<union> {t. t < s \<and> ls ! t = ls ! s}"
    using assms by (auto simp: before_def used_def)
  have "code_start ls s = sum (width ls) {t. used ls t \<and> ls ! t < ls ! s} + sum (width ls) {t. t < s \<and> ls ! t = ls ! s}"
    unfolding code_start_def split by (rule sum.union_disjoint) (auto intro: finite_subset [OF _ finite_used [of ls]])
  moreover have "sum (width ls) {t. t < s \<and> ls ! t = ls ! s} = length (filter (\<lambda>t. ls ! t = ls ! s) [0..<s]) * width ls s"
    by (simp add: width_def length_filter_conv_card cong: conj_cong)
  ultimately show ?thesis
    using first_code_sum [OF assms(2), of ls] by (simp add: huff_code_def width_def distrib_right)
qed

subsection \<open>Codes\<close>

lemma length_code_bits [simp]: "length (code_bits ls s) = ls ! s"
  by (simp add: code_bits_def)

lemma valid_le_15: "valid_lengths ls \<Longrightarrow> s < length ls \<Longrightarrow> ls ! s \<le> 15"
  by (auto simp: valid_lengths_def list_all_length)

lemma one_code:
  assumes "length (filter (\<lambda>l. l \<noteq> 0) ls) \<le> 1" "used ls s" "used ls t"
  shows "s = t"
proof -
  have "card {t. used ls t} \<le> 1" using assms(1) by (simp add: length_filter_conv_card used_def)
  then show ?thesis using assms(2,3) card_le_Suc0_iff_eq [OF finite_used [of ls]] by auto
qed

lemma kraft_le: "valid_lengths ls \<Longrightarrow> kraft ls \<le> 2 ^ 15"
proof (cases "kraft ls = 2 ^ 15")
  case False
  assume "valid_lengths ls"
  then have one: "length (filter (\<lambda>l. l \<noteq> 0) ls) \<le> 1" using False by (simp add: valid_lengths_def)
  show ?thesis
  proof (cases "\<exists>s. used ls s")
    case True
    then obtain s where "used ls s" ..
    then have "{t. used ls t} = {s}" using one_code [OF one] by auto
    then have "kraft ls = 2 ^ (15 - ls ! s)" by (simp add: kraft_sum width_def)
    then show ?thesis using power_increasing [of "15 - ls ! s" 15 "2 :: nat"] by simp
  qed (simp add: kraft_sum)
qed simp

lemma huff_code_less:
  assumes "valid_lengths ls" "used ls s"
  shows "huff_code ls s < 2 ^ (ls ! s)"
proof -
  have le: "ls ! s \<le> 15" using assms valid_le_15 by (simp add: used_def)
  have "huff_code ls s * width ls s + width ls s \<le> 2 ^ 15"
    using code_start_kraft [OF assms(2)] kraft_le [OF assms(1)] huff_code_start [OF assms(2) le] by simp
  moreover have "(2 :: nat) ^ 15 = 2 ^ (ls ! s) * width ls s" using le by (simp add: width_def flip: power_add)
  ultimately have "(huff_code ls s + 1) * width ls s \<le> 2 ^ (ls ! s) * width ls s" by simp
  then have "huff_code ls s + 1 \<le> 2 ^ (ls ! s)" by (simp only: mult_le_cancel2) (simp add: width_def)
  then show ?thesis by simp
qed

lemma code_value:
  assumes "valid_lengths ls" "used ls s"
  shows "bits_value (code_bits ls s) = huff_code ls s"
proof -
  have "rev (code_bits ls s) = map (bit (huff_code ls s)) [0..<ls ! s]"
    by (rule nth_equalityI) (auto simp: code_bits_def rev_nth)
  then have "bits_value (code_bits ls s) = take_bit (ls ! s) (huff_code ls s)"
    by (simp add: bits_value_def horner_sum_bit_eq_take_bit)
  then show ?thesis using huff_code_less [OF assms] by (simp add: take_bit_nat_eq_self)
qed

text \<open>A code begins a sequence of 15 bits just when their number is in its interval.\<close>

lemma prefix_interval:
  assumes "valid_lengths ls" "used ls s" "length bs = 15"
  shows "prefix (code_bits ls s) bs \<longleftrightarrow> code_start ls s \<le> bits_value bs \<and> bits_value bs < code_start ls s + width ls s"
proof -
  have le: "ls ! s \<le> 15" using assms valid_le_15 by (simp add: used_def)
  have "prefix (code_bits ls s) bs \<longleftrightarrow> bits_value bs div width ls s = huff_code ls s"
    using prefix_bits_value [of bs "code_bits ls s" "15 - ls ! s"] assms(3) le code_value [OF assms(1,2)] by (simp add: width_def)
  also have "\<dots> \<longleftrightarrow> huff_code ls s * width ls s \<le> bits_value bs \<and> bits_value bs < huff_code ls s * width ls s + width ls s"
    by (rule div_interval) (simp add: width_def)
  finally show ?thesis by (simp add: huff_code_start [OF assms(2) le])
qed

subsection \<open>No code is a prefix of another, and no sequence is left over\<close>

theorem prefix_free:
  assumes "valid_lengths ls" "used ls s" "used ls t" "prefix (code_bits ls s) (code_bits ls t)"
  shows "s = t"
proof (rule ccontr)
  assume ne: "s \<noteq> t"
  let ?bs = "code_bits ls t @ replicate (15 - ls ! t) False"
  have len: "length ?bs = 15" using valid_le_15 [OF assms(1)] assms(3) by (simp add: used_def)
  have "prefix (code_bits ls s) ?bs" "prefix (code_bits ls t) ?bs" using assms(4) by auto
  then have "code_start ls s \<le> bits_value ?bs \<and> bits_value ?bs < code_start ls s + width ls s"
    "code_start ls t \<le> bits_value ?bs \<and> bits_value ?bs < code_start ls t + width ls t"
    using prefix_interval [OF assms(1,2) len] prefix_interval [OF assms(1,3) len] by blast+
  moreover have "code_start ls s + width ls s \<le> code_start ls t \<or> code_start ls t + width ls t \<le> code_start ls s"
    using before_trichotomy [OF assms(2,3) ne] code_start_before by blast
  ultimately show False by linarith
qed

lemma prefix_two:
  assumes "valid_lengths ls" "used ls s" "used ls t" "prefix (code_bits ls s) bs" "prefix (code_bits ls t) bs"
  shows "s = t"
  using prefix_same_cases [OF assms(4,5)] prefix_free [OF assms(1-3)] prefix_free [OF assms(1,3,2)] by blast

theorem codes_complete:
  assumes "valid_lengths ls" "kraft ls = 2 ^ 15" "length bs = 15"
  shows "\<exists>s. used ls s \<and> prefix (code_bits ls s) bs"
proof -
  let ?I = "\<lambda>s. {code_start ls s..<code_start ls s + width ls s}"
  let ?U = "{s. used ls s}"
  have "?I s \<inter> ?I t = {}" if "s \<in> ?U" "t \<in> ?U" "s \<noteq> t" for s t
    using before_trichotomy [of ls s t] that code_start_before [of s ls t] code_start_before [of t ls s] by auto
  then have "card (\<Union> (?I ` ?U)) = (\<Sum>s\<in>?U. card (?I s))" by (intro card_UN_disjoint finite_used) auto
  also have "\<dots> = card {..<(2 :: nat) ^ 15}" using assms(2) by (simp add: kraft_sum)
  finally have "card (\<Union> (?I ` ?U)) = card {..<(2 :: nat) ^ 15}" .
  moreover have "\<Union> (?I ` ?U) \<subseteq> {..<2 ^ 15}" using code_start_kraft [of ls] assms(2) by fastforce
  ultimately have "\<Union> (?I ` ?U) = {..<2 ^ 15}" by (intro card_subset_eq) auto
  moreover have "bits_value bs \<in> {..<2 ^ 15}" using bits_value_less [of bs] assms(3) by simp
  ultimately obtain s where "used ls s" "bits_value bs \<in> ?I s" by blast
  then show ?thesis using prefix_interval [OF assms(1) _ assms(3)] by auto
qed

lemma decode_symbol_used:
  assumes "valid_lengths ls"
  shows "decode_symbol ls bs = Some (s, bs') \<longleftrightarrow> used ls s \<and> bs = code_bits ls s @ bs'"
proof -
  have "decode_symbol ls bs = Some (s, drop (ls ! s) bs)" if "used ls s" "prefix (code_bits ls s) bs"
  proof -
    have "find (\<lambda>t. ls ! t \<noteq> 0 \<and> prefix (code_bits ls t) bs) [0..<length ls] \<noteq> None"
      unfolding find_None_iff using that by (auto simp: used_def)
    then obtain t where "find (\<lambda>t. ls ! t \<noteq> 0 \<and> prefix (code_bits ls t) bs) [0..<length ls] = Some t" by blast
    moreover from this have "used ls t" "prefix (code_bits ls t) bs" by (auto simp: find_Some_iff used_def)
    ultimately show ?thesis using prefix_two [OF assms that(1) _ that(2)] by (auto simp: decode_symbol_def)
  qed
  moreover have "used ls s" "bs = code_bits ls s @ bs'" if "decode_symbol ls bs = Some (s, bs')"
    using that by (auto simp: decode_symbol_def find_Some_iff used_def prefix_def)
  ultimately show ?thesis by auto
qed

subsection \<open>The inner nodes of the tree\<close>

text \<open>The proper prefixes of codes, from a length on.\<close>

definition inner :: "nat list \<Rightarrow> nat \<Rightarrow> bool list set" where
  "inner ls d = {p. d \<le> length p \<and> (\<exists>s. used ls s \<and> strict_prefix p (code_bits ls s))}"

lemma inner_code: "valid_lengths ls \<Longrightarrow> used ls s \<Longrightarrow> p \<in> inner ls d \<Longrightarrow> \<not> prefix (code_bits ls s) p"
  unfolding inner_def by (auto simp: strict_prefix_def dest: prefix_order.trans prefix_free)

lemma strip_ones: "p @ False # replicate m True = q @ False # replicate n True \<Longrightarrow> p = q"
proof -
  have "dropWhile id (rev (p @ False # replicate m True)) = False # rev p" for p m
    by (simp add: dropWhile_append)
  moreover assume "p @ False # replicate m True = q @ False # replicate n True"
  ultimately have "False # rev p = False # rev q" by metis
  then show ?thesis by simp
qed

text \<open>There are no more of them than codes: each is followed by the code that goes on with 0, 1, 1, and so on.\<close>

lemma card_inner:
  assumes v: "valid_lengths ls" and len: "length ls \<le> 288"
  shows "finite (inner ls 10)" "card (inner ls 10) \<le> 288"
proof -
  have short: "length p < 15" if "p \<in> inner ls 10" for p
    using that valid_le_15 [OF v] by (fastforce simp: inner_def used_def dest: prefix_length_less)
  have "inner ls 10 \<subseteq> {p. set p \<subseteq> UNIV \<and> length p \<le> 15}" using short by fastforce
  moreover have "finite {p. set p \<subseteq> (UNIV :: bool set) \<and> length p \<le> 15}" by (rule finite_lists_length_le) simp
  ultimately show fin: "finite (inner ls 10)" by (rule finite_subset)
  show "card (inner ls 10) \<le> 288"
  proof (cases "kraft ls = 2 ^ 15")
    case True
    have "\<exists>s. used ls s \<and> (\<exists>m. code_bits ls s = p @ False # replicate m True)" if p: "p \<in> inner ls 10" for p
    proof -
      let ?bs = "p @ False # replicate (14 - length p) True"
      have "length ?bs = 15" using short [OF p] by simp
      then obtain s where s: "used ls s" "prefix (code_bits ls s) ?bs" using codes_complete [OF v True] by blast
      then have "\<not> prefix (code_bits ls s) p" using inner_code [OF v _ p] by blast
      then obtain us where us: "code_bits ls s = p @ us" "prefix us (False # replicate (14 - length p) True)" "us \<noteq> []"
        using s(2) by (auto simp: prefix_append)
      then obtain vs where "us = False # vs" "prefix vs (replicate (14 - length p) True)" by (cases us) auto
      then have "us = False # replicate (length vs) True"
        using replicate_eqI [of vs "length vs" True] set_mono_prefix [of vs "replicate (14 - length p) True"] by (auto simp: subset_iff)
      then show ?thesis using s(1) us(1) by blast
    qed
    then obtain f where f: "used ls (f p)" "\<exists>m. code_bits ls (f p) = p @ False # replicate m True" if "p \<in> inner ls 10" for p
      by metis
    have "inj_on f (inner ls 10)" by (rule inj_onI) (metis f(2) strip_ones)
    moreover have "f ` inner ls 10 \<subseteq> {..<length ls}" using f(1) by (auto simp: used_def)
    ultimately have "card (inner ls 10) \<le> card {..<length ls}" by (intro card_inj_on_le) auto
    then show ?thesis using len by simp
  next
    case False
    then have one: "length (filter (\<lambda>l. l \<noteq> 0) ls) \<le> 1" using v by (simp add: valid_lengths_def)
    have "inj_on length (inner ls 10)"
    proof (rule inj_onI)
      fix p q assume pq: "p \<in> inner ls 10" "q \<in> inner ls 10" "length p = length q"
      then obtain s t where "used ls s" "prefix p (code_bits ls s)" "used ls t" "prefix q (code_bits ls t)" by (auto simp: inner_def strict_prefix_def)
      moreover from this have "s = t" using one_code [OF one] by blast
      ultimately show "p = q" using pq(3) by (metis append_eq_append_conv prefix_def)
    qed
    moreover have "length ` inner ls 10 \<subseteq> {..<15}" using short by auto
    ultimately have "card (inner ls 10) \<le> card {..<15 :: nat}" by (intro card_inj_on_le) auto
    then show ?thesis by simp
  qed
qed

end
