(* ===== verification/TinflTables.thy ===== *)
theory TinflTables
  imports Tinfl HuffmanCode
begin

unbundle bit_operations_syntax

text \<open>
  The tables of the decompressor. \<open>build_table\<close> inserts the codes one by one: a code of up to 10 bits fills all places of the
  first table whose low bits it is, a longer one gets a path in a tree that hangs below a place. The ghost state is the map from
  the inner nodes, named by the bits that lead to them, to their numbers in the order of their creation.
\<close>

subsection \<open>Bits of a code in the order of the stream\<close>

abbreviation lsb :: "bool list \<Rightarrow> nat" where
  "lsb bs \<equiv> horner_sum of_bool 2 bs"

lemma lsb_append: "lsb (as @ bs) = lsb as + 2 ^ length as * lsb bs"
  by (simp add: horner_sum_append)

lemma lsb_mod: "m \<le> length bs \<Longrightarrow> lsb bs mod 2 ^ m = lsb (take m bs)"
  using lsb_append [of "take m bs" "drop m bs"] horner_less [of "take m bs"] by simp

lemma lsb_div: "m \<le> length bs \<Longrightarrow> lsb bs div 2 ^ m = lsb (drop m bs)"
  using lsb_append [of "take m bs" "drop m bs"] horner_less [of "take m bs"] by simp

lemma lsb_div_mod: "m < length bs \<Longrightarrow> lsb bs div 2 ^ m mod 2 = of_bool (bs ! m)"
  by (simp add: lsb_div flip: Cons_nth_drop_Suc)

lemma lsb_prefix: "length as \<le> length bs \<Longrightarrow> lsb bs mod 2 ^ length as = lsb as \<longleftrightarrow> prefix as bs"
  using horner_inject [of "take (length as) bs" as] by (auto simp: lsb_mod prefix_def) (metis append_take_drop_id)

lemma reverse_code_bits:
  "reverse_code l c r = r * 2 ^ l + lsb (map (\<lambda>i. bit c (l - 1 - i)) [0..<l])"
proof (induction l arbitrary: c r)
  case (Suc l)
  have "map (\<lambda>i. bit c (Suc l - 1 - i)) [0..<Suc l] = map (\<lambda>i. bit (c div 2) (l - 1 - i)) [0..<l] @ [bit c 0]"
    by (rule nth_equalityI) (auto simp: nth_append less_Suc_eq Suc_diff_Suc simp flip: bit_Suc)
  then have "lsb (map (\<lambda>i. bit c (Suc l - 1 - i)) [0..<Suc l]) = lsb (map (\<lambda>i. bit (c div 2) (l - 1 - i)) [0..<l]) + 2 ^ l * of_bool (bit c 0)"
    by (simp only: lsb_append length_map length_upt) simp
  moreover have "c mod 2 = of_bool (bit c 0)" by (simp add: bit_0 mod_2_eq_odd)
  ultimately show ?case using Suc.IH [of "c div 2" "r * 2 + c mod 2"] by (simp only: reverse_code.simps) (simp add: distrib_right)
qed simp

lemma reverse_code_lsb: "reverse_code (ls ! s) (huff_code ls s) 0 = lsb (code_bits ls s)"
  by (simp add: reverse_code_bits code_bits_def)

lemma int16_id: "- 32768 \<le> i \<Longrightarrow> i < 32768 \<Longrightarrow> int16 i = i"
  by (simp add: int16_def signed_of_int signed_take_bit_int_eq_self)

subsection \<open>Counting\<close>

lemma count_sizes_eq:
  assumes "list_all (\<lambda>l. l \<le> 15) ls"
  shows "count_sizes ls = Some (map (\<lambda>l. length (filter (\<lambda>k. k = l) ls)) [0..<16])"
proof -
  let ?f = "\<lambda>total_syms size. Option.bind (array_get total_syms size) (\<lambda>n. array_set total_syms size (n + 1))"
  have "fold_opt ?f ts ls = Some (map (\<lambda>l. ts ! l + length (filter (\<lambda>k. k = l) ls)) [0..<16])" if "length ts = 16" for ts
    using assms that
  proof (induction ls arbitrary: ts)
    case Nil
    then show ?case by (auto intro: nth_equalityI)
  next
    case (Cons l ls)
    then have "fold_opt ?f ts (l # ls) = Some (map (\<lambda>i. ts[l := ts ! l + 1] ! i + length (filter (\<lambda>k. k = i) ls)) [0..<16])" by simp
    also have "\<dots> = Some (map (\<lambda>i. ts ! i + length (filter (\<lambda>k. k = i) (l # ls))) [0..<16])"
      using Cons.prems by (auto simp: nth_list_update)
    finally show ?case .
  qed
  from this [of "replicate 16 0"] show ?thesis by (simp add: count_sizes_def cong: map_cong)
qed

lemma next_codes_eq:
  assumes "\<And>l. 1 \<le> l \<Longrightarrow> l < 16 \<Longrightarrow> ts ! l = bl_count ls l"
  shows "\<exists>nc. next_codes ts = (sum (bl_count ls) {1..<16}, first_code ls 16, nc) \<and> length nc = 17 \<and> (\<forall>l \<le> 16. nc ! l = first_code ls l)"
proof -
  let ?f = "\<lambda>i (u, t, nc). let t = (t + ts ! i) * 2 in (u + ts ! i, t, nc[i + 1 := t])"
  have "\<exists>nc. fold ?f [1..<Suc m] (0, 0, replicate 17 0) = (sum (bl_count ls) {1..<Suc m}, first_code ls (Suc m), nc)
    \<and> length nc = 17 \<and> (\<forall>l \<le> Suc m. nc ! l = first_code ls l)" if "m < 16" for m
    using that
  proof (induction m)
    case 0
    have "first_code ls l = 0" if "l \<le> Suc 0" for l using that by (cases l) (simp_all add: bl_count_def)
    then show ?case by (simp add: bl_count_def)
  next
    case (Suc m)
    then obtain nc where nc: "fold ?f [1..<Suc m] (0, 0, replicate 17 0) = (sum (bl_count ls) {1..<Suc m}, first_code ls (Suc m), nc)"
      "length nc = 17" "\<forall>l \<le> Suc m. nc ! l = first_code ls l" by auto
    let ?t = "(first_code ls (Suc m) + bl_count ls (Suc m)) * 2"
    have "fold ?f [1..<Suc (Suc m)] (0, 0, replicate 17 0) = ?f (Suc m) (fold ?f [1..<Suc m] (0, 0, replicate 17 0))"
      by (simp only: upt_Suc_append fold_append fold_simps comp_apply)
    also have "\<dots> = (sum (bl_count ls) {1..<Suc (Suc m)}, first_code ls (Suc (Suc m)), nc[Suc (Suc m) := ?t])"
      using assms [of "Suc m"] Suc.prems nc by (simp add: Let_def del: upt_Suc)
    finally have "fold ?f [1..<Suc (Suc m)] (0, 0, replicate 17 0)
      = (sum (bl_count ls) {1..<Suc (Suc m)}, first_code ls (Suc (Suc m)), nc[Suc (Suc m) := ?t])" .
    moreover have "nc[Suc (Suc m) := ?t] ! l = first_code ls l" if "l \<le> Suc (Suc m)" for l
      using that nc(2,3) Suc.prems by (cases "l = Suc (Suc m)") auto
    ultimately show ?case using nc(2) by auto
  qed
  from this [of 15] show ?thesis by (simp add: next_codes_def numeral_eq_Suc del: upt_Suc)
qed

lemma sum_bl_count: "list_all (\<lambda>l. l \<le> 15) ls \<Longrightarrow> sum (bl_count ls) {1..<16} = length (filter (\<lambda>l. l \<noteq> 0) ls)"
proof (induction ls)
  case (Cons l ls)
  have "bl_count (l # ls) = (\<lambda>k. (if k = l \<and> l \<noteq> 0 then 1 else 0) + bl_count ls k)"
    by (auto simp: bl_count_def fun_eq_iff)
  then have "sum (bl_count (l # ls)) {1..<16} = (\<Sum>k\<in>{1..<16}. if k = l \<and> l \<noteq> 0 then 1 else 0) + sum (bl_count ls) {1..<16}"
    by (simp add: sum.distrib)
  moreover have "(\<Sum>k\<in>{1..<16}. if k = l \<and> l \<noteq> 0 then 1 else 0 :: nat) = (if l \<noteq> 0 then 1 else 0)"
    using Cons.prems by (auto simp: sum.delta)
  ultimately show ?case using Cons by simp
qed (simp add: bl_count_def)

lemma total_kraft: "list_all (\<lambda>l. l \<le> 15) ls \<Longrightarrow> first_code ls 16 = 2 * kraft ls"
proof -
  assume le: "list_all (\<lambda>l. l \<le> 15) ls"
  have "ls ! t < 15 \<or> ls ! t = 15" if "used ls t" for t
    using le that le_neq_implies_less [of "ls ! t" 15] unfolding used_def list_all_length by blast
  then have "{t. used ls t} = {t. used ls t \<and> ls ! t < 15} \<union> {t. used ls t \<and> ls ! t = 15}"
    by blast
  then have "kraft ls = sum (width ls) ({t. used ls t \<and> ls ! t < 15} \<union> {t. used ls t \<and> ls ! t = 15})"
    unfolding kraft_sum by (rule arg_cong)
  also have "\<dots> = sum (width ls) {t. used ls t \<and> ls ! t < 15} + sum (width ls) {t. used ls t \<and> ls ! t = 15}"
    by (rule sum.union_disjoint) (auto intro: finite_subset [OF _ finite_used [of ls]])
  also have "sum (width ls) {t. used ls t \<and> ls ! t = 15} = bl_count ls 15"
    by (auto simp: width_def bl_count_def used_def length_filter_conv_card intro!: arg_cong [where f = card])
  finally show ?thesis using first_code_sum [of 15 ls] first_code.simps(2) [of ls 15] by (simp del: first_code.simps)
qed

subsection \<open>The state of the tables\<close>

type_synonym node_map = "bool list \<Rightarrow> nat option"

text \<open>Every node is an inner node of the code, is created after its parent, and has a number of its own.\<close>

definition nodes_ok :: "nat list \<Rightarrow> node_map \<Rightarrow> bool" where
  "nodes_ok ls nd \<longleftrightarrow> dom nd \<subseteq> inner ls 10 \<and> (\<forall>p d. nd p = Some d \<longrightarrow> d < card (dom nd))
    \<and> (\<forall>p q d. nd p = Some d \<longrightarrow> nd q = Some d \<longrightarrow> p = q)
    \<and> (\<forall>p b. nd (p @ [b]) \<noteq> None \<longrightarrow> 10 \<le> length p \<longrightarrow> nd p \<noteq> None)"

definition covers :: "nat list \<Rightarrow> nat \<Rightarrow> node_map \<Rightarrow> bool" where
  "covers ls k nd \<longleftrightarrow> (\<forall>s<k. used ls s \<longrightarrow> (\<forall>i. 10 \<le> i \<longrightarrow> i < ls ! s \<longrightarrow> nd (take i (code_bits ls s)) \<noteq> None))"

definition look_ok :: "nat list \<Rightarrow> nat \<Rightarrow> node_map \<Rightarrow> int list \<Rightarrow> bool" where
  "look_ok ls k nd look \<longleftrightarrow> length look = 1024
    \<and> (\<forall>s b. s < k \<longrightarrow> used ls s \<longrightarrow> length b = 10 \<longrightarrow> prefix (code_bits ls s) b \<longrightarrow> look ! lsb b = int (ls ! s * 512 + s))
    \<and> (\<forall>p d. nd p = Some d \<longrightarrow> length p = 10 \<longrightarrow> look ! lsb p = - 1 - 2 * int d)
    \<and> (\<forall>b. length b = 10 \<longrightarrow> nd b = None \<longrightarrow> (\<forall>s<k. used ls s \<longrightarrow> \<not> prefix (code_bits ls s) b) \<longrightarrow> look ! lsb b = 0)"

text \<open>The place of a child in the tree.\<close>

definition child :: "nat \<Rightarrow> bool \<Rightarrow> nat" where
  "child d b = 2 * d + of_bool b"

definition tree_ok :: "nat list \<Rightarrow> nat \<Rightarrow> node_map \<Rightarrow> int list \<Rightarrow> bool" where
  "tree_ok ls k nd tree \<longleftrightarrow> length tree = 576
    \<and> (\<forall>p b d d'. nd p = Some d \<longrightarrow> nd (p @ [b]) = Some d' \<longrightarrow> tree ! child d b = - 1 - 2 * int d')
    \<and> (\<forall>p b d s. nd p = Some d \<longrightarrow> s < k \<longrightarrow> used ls s \<longrightarrow> code_bits ls s = p @ [b] \<longrightarrow> tree ! child d b = int s)
    \<and> (\<forall>p b d. nd p = Some d \<longrightarrow> nd (p @ [b]) = None \<longrightarrow> (\<forall>s<k. used ls s \<longrightarrow> code_bits ls s \<noteq> p @ [b]) \<longrightarrow> tree ! child d b = 0)
    \<and> (\<forall>i. 2 * card (dom nd) \<le> i \<longrightarrow> i < 576 \<longrightarrow> tree ! i = 0)"

lemma child_inject [simp]: "child d b = child e c \<longleftrightarrow> d = e \<and> b = c"
  by (cases b; cases c; simp add: child_def; presburger)

lemma child_less: "child d b < 2 * n \<longleftrightarrow> d < n"
  by (cases b) (simp_all add: child_def, presburger+)

lemma child_ge: "2 * n \<le> child d b \<longleftrightarrow> n \<le> d"
  by (cases b) (simp_all add: child_def, presburger+)

lemma nodes_okD:
  assumes "nodes_ok ls nd"
  shows "nd p = Some d \<Longrightarrow> p \<in> inner ls 10" "nd p = Some d \<Longrightarrow> d < card (dom nd)" "nd p = Some d \<Longrightarrow> nd q = Some d \<Longrightarrow> p = q"
    "nd (p @ [b]) = Some d \<Longrightarrow> 10 \<le> length p \<Longrightarrow> \<exists>e. nd p = Some e"
  using assms unfolding nodes_ok_def by (blast, blast, blast, blast)

lemma tree_okD:
  assumes "tree_ok ls k nd tree"
  shows "length tree = 576" "nd p = Some d \<Longrightarrow> nd (p @ [b]) = Some d' \<Longrightarrow> tree ! child d b = - 1 - 2 * int d'"
    "nd p = Some d \<Longrightarrow> s < k \<Longrightarrow> used ls s \<Longrightarrow> code_bits ls s = p @ [b] \<Longrightarrow> tree ! child d b = int s"
    "nd p = Some d \<Longrightarrow> nd (p @ [b]) = None \<Longrightarrow> (\<And>s. s < k \<Longrightarrow> used ls s \<Longrightarrow> code_bits ls s \<noteq> p @ [b]) \<Longrightarrow> tree ! child d b = 0"
    "2 * card (dom nd) \<le> i \<Longrightarrow> i < 576 \<Longrightarrow> tree ! i = 0"
  using assms unfolding tree_ok_def by (blast, blast, blast, blast, blast)

lemma fill_look_up_run:
  "length xs = 1024 \<Longrightarrow> \<exists>ys. fill_look_up v l r xs = Some ys \<and> length ys = 1024
    \<and> (\<forall>i<1024. ys ! i = (if r \<le> i \<and> i mod 2 ^ l = r mod 2 ^ l then v else xs ! i))"
proof (induction v l r xs rule: fill_look_up.induct)
  case (1 v l r xs)
  show ?case
  proof (cases "r < 1024")
    case True
    then obtain ys where ys: "fill_look_up v l (r + 2 ^ l) (xs[r := v]) = Some ys" "length ys = 1024"
      "\<forall>i<1024. ys ! i = (if r + 2 ^ l \<le> i \<and> i mod 2 ^ l = (r + 2 ^ l) mod 2 ^ l then v else xs[r := v] ! i)"
      using "1.IH" [of "xs[r := v]"] "1.prems" by (auto simp: TINFL_FAST_LOOKUP_SIZE_def)
    have "r + 2 ^ l \<le> i" if "r < i" "i mod 2 ^ l = r mod 2 ^ l" for i
    proof -
      have "2 ^ l dvd i - r" using that by (simp add: mod_eq_dvd_iff_nat)
      then show ?thesis using that dvd_imp_le [of "2 ^ l" "i - r"] by simp
    qed
    then have "ys ! i = (if r \<le> i \<and> i mod 2 ^ l = r mod 2 ^ l then v else xs ! i)" if "i < 1024" for i
      using ys(3) that True "1.prems" by (cases "i = r") (auto simp: nth_list_update)
    moreover have "fill_look_up v l r xs = Some ys"
      using ys(1) True "1.prems" by (subst fill_look_up.simps) (simp add: TINFL_FAST_LOOKUP_SIZE_def)
    ultimately show ?thesis using ys(2) by blast
  next
    case False
    then show ?thesis using "1.prems" by (subst fill_look_up.simps) (auto simp: TINFL_FAST_LOOKUP_SIZE_def)
  qed
qed

subsection \<open>Inserting a code of up to 10 bits\<close>

lemma insert_short:
  assumes v: "valid_lengths ls" and len: "length ls \<le> 288" and s: "used ls s" "ls ! s \<le> 10"
    and ok: "nodes_ok ls nd" "look_ok ls s nd look" "tree_ok ls s nd tree"
  shows "\<exists>look'. fill_look_up (int16 (int (ls ! s * 512 + s))) (ls ! s) (lsb (code_bits ls s)) look = Some look'
    \<and> look_ok ls (Suc s) nd look'" "tree_ok ls (Suc s) nd tree"
proof -
  let ?c = "code_bits ls s" let ?v = "int (ls ! s * 512 + s)"
  have small: "s < 288" using s(1) len by (simp add: used_def)
  have v16: "int16 ?v = ?v" using s(2) small by (intro int16_id) simp_all
  obtain look' where look': "fill_look_up ?v (ls ! s) (lsb ?c) look = Some look'" "length look' = 1024"
    "\<forall>i<1024. look' ! i = (if lsb ?c \<le> i \<and> i mod 2 ^ (ls ! s) = lsb ?c mod 2 ^ (ls ! s) then ?v else look ! i)"
    using fill_look_up_run [of look] ok(2) unfolding look_ok_def by blast
  have entry: "look' ! lsb b = (if prefix ?c b then ?v else look ! lsb b)" if "length b = 10" for b
  proof -
    have "lsb b < 1024" using horner_less [of b] that by simp
    moreover have "lsb ?c mod 2 ^ (ls ! s) = lsb ?c" using horner_less [of ?c] by simp
    moreover have "lsb b mod 2 ^ (ls ! s) = lsb ?c \<longleftrightarrow> prefix ?c b" using lsb_prefix [of ?c b] s(2) that by simp
    moreover have "lsb b mod 2 ^ (ls ! s) \<le> lsb b" by (rule mod_less_eq_dividend)
    moreover from this have "lsb b mod 2 ^ (ls ! s) = lsb ?c \<Longrightarrow> lsb ?c \<le> lsb b" by metis
    ultimately show ?thesis using look'(3) by auto
  qed
  have node: "\<not> prefix ?c p" if "nd p = Some d" for p d using inner_code [OF v s(1)] nodes_okD(1) [OF ok(1) that] by blast
  have "look_ok ls (Suc s) nd look'"
    unfolding look_ok_def
  proof (intro conjI allI impI)
    fix t b assume t: "t < Suc s" "used ls t" "length b = 10" "prefix (code_bits ls t) b"
    show "look' ! lsb b = int (ls ! t * 512 + t)"
    proof (cases "t = s")
      case False
      then have "\<not> prefix ?c b" using prefix_two [OF v s(1) t(2) _ t(4)] by blast
      then show ?thesis using ok(2) t False by (simp add: entry) (simp add: look_ok_def)
    qed (use t entry in simp)
  next
    fix p d assume "nd p = Some d" "length p = 10"
    then show "look' ! lsb p = - 1 - 2 * int d" using node ok(2) by (simp add: entry) (simp add: look_ok_def)
  next
    fix b assume b: "length b = 10" "nd b = None" "\<forall>t<Suc s. used ls t \<longrightarrow> \<not> prefix (code_bits ls t) b"
    then have "look' ! lsb b = look ! lsb b" using s(1) by (simp add: entry)
    also have "\<dots> = 0" using b ok(2) unfolding look_ok_def by simp
    finally show "look' ! lsb b = 0" .
  qed (rule look'(2))
  then show "\<exists>look'. fill_look_up (int16 ?v) (ls ! s) (lsb ?c) look = Some look' \<and> look_ok ls (Suc s) nd look'"
    using look'(1) v16 by auto
  have "?c \<noteq> p @ [b]" if "nd p = Some d" for p b d
  proof -
    have "10 \<le> length p" using nodes_okD(1) [OF ok(1) that] by (simp add: inner_def)
    then have "length ?c \<noteq> length (p @ [b])" using s(2) by simp
    then show ?thesis by metis
  qed
  note not_last = this
  show "tree_ok ls (Suc s) nd tree"
    unfolding tree_ok_def
  proof (intro conjI allI impI)
    show "tree ! child d b = int t" if "nd p = Some d" "t < Suc s" "used ls t" "code_bits ls t = p @ [b]" for p b d t
      using tree_okD(3) [OF ok(3) that(1) _ that(3,4)] not_last [OF that(1)] that by (cases "t = s") auto
    show "tree ! child d b = 0" if "nd p = Some d" "nd (p @ [b]) = None" "\<forall>t<Suc s. used ls t \<longrightarrow> code_bits ls t \<noteq> p @ [b]" for p b d
      using tree_okD(4) [OF ok(3) that(1,2)] that(3) by auto
  qed (use tree_okD(1,2,5) [OF ok(3)] in blast)+
qed

subsection \<open>Inserting a longer code\<close>

lemma card_nodes:
  assumes "valid_lengths ls" "length ls \<le> 288" "nodes_ok ls nd"
  shows "finite (dom nd)" "card (dom nd) \<le> 288" "q \<in> inner ls 10 \<Longrightarrow> nd q = None \<Longrightarrow> card (dom nd) < 288"
proof -
  note fin = card_inner [OF assms(1,2)]
  have sub: "dom nd \<subseteq> inner ls 10" using assms(3) by (simp add: nodes_ok_def)
  show "finite (dom nd)" "card (dom nd) \<le> 288"
    using finite_subset [OF sub fin(1)] card_mono [OF fin(1) sub] fin(2) by simp_all
  assume "q \<in> inner ls 10" "nd q = None"
  then have "dom nd \<subset> inner ls 10" using sub by blast
  then have "card (dom nd) < card (inner ls 10)" by (rule psubset_card_mono [OF fin(1)])
  then show "card (dom nd) < 288" using fin(2) by simp
qed

lemma node_prefix:
  assumes "nodes_ok ls nd" "nd p \<noteq> None" "10 \<le> m" "m \<le> length p"
  shows "nd (take m p) \<noteq> None"
  using assms(2,4)
proof (induction p rule: rev_induct)
  case (snoc b p)
  show ?case
  proof (cases "m \<le> length p")
    case True
    then have "nd p \<noteq> None" using nodes_okD(4) [OF assms(1)] snoc.prems assms(3) by fastforce
    then show ?thesis using snoc.IH True by simp
  qed (use snoc.prems in simp)
qed simp

lemma add_node:
  assumes "valid_lengths ls" "length ls \<le> 288" "nodes_ok ls nd" "q \<in> inner ls 10" "nd q = None"
    and parent: "\<And>p b. q = p @ [b] \<Longrightarrow> 10 \<le> length p \<Longrightarrow> nd p \<noteq> None"
  shows "nodes_ok ls (nd(q \<mapsto> card (dom nd)))" "card (dom (nd(q \<mapsto> card (dom nd)))) = Suc (card (dom nd))"
proof -
  let ?nd = "nd(q \<mapsto> card (dom nd))"
  note c = card_nodes [OF assms(1-3)]
  show card: "card (dom ?nd) = Suc (card (dom nd))" using assms(5) c(1) by (simp add: domIff)
  have less: "d < card (dom nd)" if "nd p = Some d" for p d using nodes_okD(2) [OF assms(3) that] .
  show "nodes_ok ls ?nd"
    unfolding nodes_ok_def card
  proof (intro conjI allI impI)
    show "dom ?nd \<subseteq> inner ls 10" using assms(3,4) by (auto simp: nodes_ok_def)
    show "d < Suc (card (dom nd))" if "?nd p = Some d" for p d using that less by (auto split: if_splits intro: less_SucI)
    show "p = p'" if "?nd p = Some d" "?nd p' = Some d" for p p' d
      using that nodes_okD(3) [OF assms(3)] less [of p] less [of p'] by (auto split: if_splits)
    show "?nd p \<noteq> None" if "?nd (p @ [b]) \<noteq> None" "10 \<le> length p" for p b
      using that parent nodes_okD(4) [OF assms(3)] by (auto split: if_splits)
  qed
qed

lemma tree_add_node:
  assumes v: "valid_lengths ls" and len: "length ls \<le> 288" and ok: "nodes_ok ls nd" "covers ls s nd" "tree_ok ls s nd tree"
    and q: "q \<in> inner ls 10" "nd q = None"
    and tree': "length tree' = 576" "\<And>p b d. nd p = Some d \<Longrightarrow> q = p @ [b] \<Longrightarrow> tree' ! child d b = - 1 - 2 * int (card (dom nd))"
      "\<And>p b d. nd p = Some d \<Longrightarrow> q \<noteq> p @ [b] \<Longrightarrow> tree' ! child d b = tree ! child d b"
      "\<And>i. 2 * card (dom nd) \<le> i \<Longrightarrow> i < 576 \<Longrightarrow> tree' ! i = tree ! i"
    and card: "card (dom (nd(q \<mapsto> card (dom nd)))) = Suc (card (dom nd))"
  shows "tree_ok ls s (nd(q \<mapsto> card (dom nd))) tree'"
proof -
  let ?n = "card (dom nd)" and ?nd = "nd(q \<mapsto> card (dom nd))"
  have ten: "10 \<le> length q" using q(1) by (simp add: inner_def)
  have n: "?n < 288" using card_nodes(3) [OF v len ok(1) q] .
  have leaf: "nd (q @ [b]) = None" for b using nodes_okD(4) [OF ok(1) _ ten] q(2) by fastforce
  have self: "q \<noteq> q @ [b]" for b by simp
  have inner: "code_bits ls t \<noteq> q" if "used ls t" for t using inner_code [OF v that q(1)] by auto
  have below: "code_bits ls t \<noteq> q @ [b]" if "t < s" "used ls t" for t b
  proof
    assume c: "code_bits ls t = q @ [b]"
    then have "length q < ls ! t" "take (length q) (code_bits ls t) = q" by (simp_all flip: length_code_bits)
    then show False using ok(2) that ten q(2) unfolding covers_def by metis
  qed
  have zero: "tree' ! child ?n b = 0" for b
  proof -
    have "child ?n b < 2 * 288" using child_less n by blast
    then show ?thesis using tree'(4) [of "child ?n b"] ok(3) by (simp add: child_ge) (simp add: tree_ok_def child_ge)
  qed
  show ?thesis
    unfolding tree_ok_def card
  proof (intro conjI allI impI)
    fix p b d d' assume p: "?nd p = Some d" "?nd (p @ [b]) = Some d'"
    then have pq: "p \<noteq> q" using leaf self by (auto split: if_splits)
    then have "nd p = Some d" using p(1) by simp
    then show "tree' ! child d b = - 1 - 2 * int d'"
      using p(2) tree'(2,3) ok(3) by (cases "p @ [b] = q") (auto simp: tree_ok_def)
  next
    fix p b d t assume p: "?nd p = Some d" "t < s" "used ls t" "code_bits ls t = p @ [b]"
    then have "p \<noteq> q" "p @ [b] \<noteq> q" using below inner by metis+
    then show "tree' ! child d b = int t" using p tree'(3) [of p d b] tree_okD(3) [OF ok(3), of p d t b] by auto
  next
    fix p b d assume p: "?nd p = Some d" "?nd (p @ [b]) = None" "\<forall>t. t < s \<longrightarrow> used ls t \<longrightarrow> code_bits ls t \<noteq> p @ [b]"
    then have ne: "p @ [b] \<noteq> q" by (auto split: if_splits)
    show "tree' ! child d b = 0"
    proof (cases "p = q")
      case False
      then have "nd p = Some d" "nd (p @ [b]) = None" using p(1,2) ne by auto
      then show ?thesis using tree'(3) [of p d b] ne tree_okD(4) [OF ok(3), of p d b] p(3) by auto
    qed (use p(1) zero in simp)
  next
    fix i assume "2 * Suc ?n \<le> i" "i < 576"
    then show "tree' ! i = 0" using tree'(4) ok(3) by (simp add: tree_ok_def)
  qed (rule tree'(1))
qed

lemma tree_add_code:
  assumes v: "valid_lengths ls" and len: "length ls \<le> 288" and ok: "nodes_ok ls nd" "tree_ok ls s nd tree"
    and s: "used ls s" "nd p = Some d" "code_bits ls s = p @ [b]"
  shows "tree_ok ls (Suc s) nd (tree[child d b := int s])" "child d b < 576"
proof -
  let ?tree = "tree[child d b := int s]"
  have "d < 288" using nodes_okD(2) [OF ok(1) s(2)] card_nodes(2) [OF v len ok(1)] by simp
  then show small: "child d b < 576" using child_less [of d b 288] by simp
  have leaf: "nd (p @ [b]) = None" using nodes_okD(1) [OF ok(1)] inner_code [OF v s(1)] s(3) by (metis option.exhaust prefix_order.refl)
  have len576: "length tree = 576" using ok(2) by (simp add: tree_ok_def)
  have at: "?tree ! child d' b' = (if p' = p \<and> b' = b then int s else tree ! child d' b')" if "nd p' = Some d'" for p' d' b'
  proof (cases "d' = d \<and> b' = b")
    case True
    then have "p' = p" using nodes_okD(3) [OF ok(1) _ s(2)] that by blast
    then show ?thesis using True small len576 by simp
  next
    case False
    then have ne: "\<not> (p' = p \<and> b' = b)" "child d b \<noteq> child d' b'" using that s(2) by auto
    show ?thesis unfolding if_not_P [OF ne(1)] by (rule nth_list_update_neq [OF ne(2)])
  qed
  show "tree_ok ls (Suc s) nd ?tree"
    unfolding tree_ok_def
  proof (intro conjI allI impI)
    fix p' b' e e' assume "nd p' = Some e" "nd (p' @ [b']) = Some e'"
    moreover from this have "\<not> (p' = p \<and> b' = b)" using leaf by (intro notI) (elim conjE, hypsubst, simp)
    ultimately show "?tree ! child e b' = - 1 - 2 * int e'" using tree_okD(2) [OF ok(2)] by (subst at) auto
  next
    fix p' b' e t assume p': "nd p' = Some e" "t < Suc s" "used ls t" "code_bits ls t = p' @ [b']"
    show "?tree ! child e b' = int t"
    proof (cases "t = s")
      case True
      then show ?thesis using p' s(3) by (subst at) auto
    next
      case False
      then have "\<not> (p' = p \<and> b' = b)" using prefix_free [OF v p'(3) s(1)] p'(4) s(3) by auto
      then show ?thesis using p' False ok(2) by (subst at) (auto simp: tree_ok_def)
    qed
  next
    fix p' b' e assume p': "nd p' = Some e" "nd (p' @ [b']) = None" "\<forall>t<Suc s. used ls t \<longrightarrow> code_bits ls t \<noteq> p' @ [b']"
    then have "\<not> (p' = p \<and> b' = b)" using s(1,3) by auto
    then show "?tree ! child e b' = 0" using p' ok(2) by (subst at) (auto simp: tree_ok_def)
  next
    fix i assume i: "2 * card (dom nd) \<le> i" "i < 576"
    moreover have "child d b < 2 * card (dom nd)" using nodes_okD(2) [OF ok(1) s(2)] by (simp add: child_less)
    ultimately show "?tree ! i = 0" using ok(2) by (simp add: tree_ok_def)
  qed (simp add: len576)
qed

text \<open>The way down to the last inner node, making the nodes that are missing.\<close>

lemma inner_take: "used ls s \<Longrightarrow> 10 \<le> i \<Longrightarrow> i < ls ! s \<Longrightarrow> take i (code_bits ls s) \<in> inner ls 10"
  unfolding inner_def by (auto simp: strict_prefix_def take_is_prefix min_def dest: arg_cong [where f = length] intro!: exI [of _ s])

lemma look_ok_more: "look_ok ls k nd look \<Longrightarrow> length q \<noteq> 10 \<Longrightarrow> look_ok ls k (nd(q \<mapsto> d)) look"
  unfolding look_ok_def by (metis fun_upd_other)

lemma covers_more: "covers ls k nd \<Longrightarrow> covers ls k (nd(q \<mapsto> d))"
  by (auto simp: covers_def)

definition tables_ok :: "nat list \<Rightarrow> nat \<Rightarrow> node_map \<Rightarrow> int list \<Rightarrow> int list \<Rightarrow> bool" where
  "tables_ok ls k nd look tree \<longleftrightarrow> nodes_ok ls nd \<and> covers ls k nd \<and> look_ok ls k nd look \<and> tree_ok ls k nd tree"

abbreviation node_ref :: "nat \<Rightarrow> int" where
  "node_ref d \<equiv> - 1 - 2 * int d"

lemma grow_tree_run:
  assumes v: "valid_lengths ls" and len: "length ls \<le> 288" and s: "used ls s"
  shows "tables_ok ls s nd look tree \<Longrightarrow> 10 \<le> i \<Longrightarrow> i + j < ls ! s \<Longrightarrow> nd (take i (code_bits ls s)) = Some d \<Longrightarrow>
    \<exists>nd' d' tree'. grow_tree j (lsb (code_bits ls s) div 2 ^ (i - 1)) (node_ref d) (node_ref (card (dom nd))) tree
        = Some (lsb (code_bits ls s) div 2 ^ (i + j - 1), node_ref d', node_ref (card (dom nd')), tree')
      \<and> tables_ok ls s nd' look tree' \<and> nd' (take (i + j) (code_bits ls s)) = Some d'"
proof (induction j arbitrary: i nd d tree)
  case (Suc j)
  let ?c = "code_bits ls s" let ?n = "card (dom nd)"
  let ?p = "take i ?c" let ?b = "?c ! i" let ?q = "?p @ [?b]"
  have ok: "nodes_ok ls nd" "covers ls s nd" "look_ok ls s nd look" "tree_ok ls s nd tree" using Suc.prems(1) by (simp_all add: tables_ok_def)
  have q: "?q = take (Suc i) ?c" using Suc.prems(3) by (simp add: take_Suc_conv_app_nth)
  have div: "lsb ?c div 2 ^ (i - 1) div 2 = lsb ?c div 2 ^ i"
    using Suc.prems(2) by (cases i) (simp_all add: div_mult2_eq [symmetric] mult.commute)
  have bit: "lsb ?c div 2 ^ i mod 2 = of_bool ?b" using Suc.prems(3) by (intro lsb_div_mod) simp
  have at: "- (node_ref d - int (of_bool ?b)) - 1 = int (child d ?b)" by (simp add: child_def)
  have d: "d < 288" using nodes_okD(2) [OF ok(1) Suc.prems(4)] card_nodes(2) [OF v len ok(1)] by simp
  then have small: "child d ?b < 576" using child_less [of d ?b 288] by simp
  note len576 = tree_okD(1) [OF ok(4)]
  have inn: "?q \<in> inner ls 10" unfolding q using Suc.prems(2,3) by (intro inner_take [OF s]) auto
  show ?case
  proof (cases "nd ?q")
    case (Some e)
    have entry: "tree ! child d ?b = node_ref e" using tree_okD(2) [OF ok(4) Suc.prems(4) Some] .
    obtain nd' d' tree' where "grow_tree j (lsb ?c div 2 ^ i) (node_ref e) (node_ref ?n) tree
        = Some (lsb ?c div 2 ^ (i + Suc j - 1), node_ref d', node_ref (card (dom nd')), tree')"
      "tables_ok ls s nd' look tree'" "nd' (take (i + Suc j) ?c) = Some d'"
      using Suc.IH [OF Suc.prems(1), of "Suc i" e] Suc.prems(2,3) Some unfolding q by auto
    moreover have "grow_tree (Suc j) (lsb ?c div 2 ^ (i - 1)) (node_ref d) (node_ref ?n) tree = grow_tree j (lsb ?c div 2 ^ i) (node_ref e) (node_ref ?n) tree"
      unfolding grow_tree.simps Let_def div bit at using small len576 by (simp add: int_get_def entry)
    ultimately show ?thesis by metis
  next
    case None
    let ?nd = "nd(?q \<mapsto> ?n)" let ?tree = "tree[child d ?b := node_ref ?n]"
    have n: "?n < 288" using card_nodes(3) [OF v len ok(1) inn None] .
    have entry: "tree ! child d ?b = 0"
      using tree_okD(4) [OF ok(4) Suc.prems(4) None] inner_code [OF v _ inn] by (metis prefix_order.refl)
    have parent: "nd p \<noteq> None" if "?q = p @ [b]" "10 \<le> length p" for p b using that Suc.prems(4) by simp
    have add: "nodes_ok ls ?nd" "card (dom ?nd) = Suc ?n" by (rule add_node [OF v len ok(1) inn None], fact parent)+
    have "tree_ok ls s ?nd ?tree"
    proof (rule tree_add_node [OF v len ok(1,2,4) inn None])
      show "?tree ! child e b = node_ref ?n" if "nd p = Some e" "?q = p @ [b]" for p b e
        using that Suc.prems(4) small len576 by auto
      show "?tree ! child e b = tree ! child e b" if "nd p = Some e" "?q \<noteq> p @ [b]" for p b e
      proof -
        have "child d ?b \<noteq> child e b" using that nodes_okD(3) [OF ok(1) Suc.prems(4), of p] by auto
        then show ?thesis by (rule nth_list_update_neq)
      qed
      show "?tree ! m = tree ! m" if "2 * ?n \<le> m" for m
        using that child_less [of d ?b ?n] nodes_okD(2) [OF ok(1) Suc.prems(4)] by simp
      show "card (dom ?nd) = Suc ?n" by (rule add(2))
    qed (simp add: len576)
    then have ok': "tables_ok ls s ?nd look ?tree"
      using add(1) covers_more [OF ok(2)] look_ok_more [OF ok(3), of ?q] Suc.prems(2,3) by (simp add: tables_ok_def)
    have at_q: "?nd (take (Suc i) ?c) = Some ?n" unfolding q [symmetric] by simp
    have "\<exists>nd' d' tree'. grow_tree j (lsb ?c div 2 ^ (Suc i - 1)) (node_ref ?n) (node_ref (card (dom ?nd))) ?tree
        = Some (lsb ?c div 2 ^ (Suc i + j - 1), node_ref d', node_ref (card (dom nd')), tree')
      \<and> tables_ok ls s nd' look tree' \<and> nd' (take (Suc i + j) ?c) = Some d'"
      by (rule Suc.IH [OF ok' _ _ at_q]) (use Suc.prems(2,3) in simp_all)
    then obtain nd' d' tree' where "grow_tree j (lsb ?c div 2 ^ i) (node_ref ?n) (node_ref (Suc ?n)) ?tree
        = Some (lsb ?c div 2 ^ (i + Suc j - 1), node_ref d', node_ref (card (dom nd')), tree')"
      "tables_ok ls s nd' look tree'" "nd' (take (i + Suc j) ?c) = Some d'"
      unfolding add(2) add_Suc_shift diff_Suc_1 by blast
    moreover have "int16 (node_ref ?n) = node_ref ?n" using n by (intro int16_id) auto
    then have "grow_tree (Suc j) (lsb ?c div 2 ^ (i - 1)) (node_ref d) (node_ref ?n) tree = grow_tree j (lsb ?c div 2 ^ i) (node_ref ?n) (node_ref (Suc ?n)) ?tree"
      unfolding grow_tree.simps Let_def div bit at using small len576 by (simp add: int_get_def int_set_def entry)
    ultimately show ?thesis by metis
  qed
qed (auto simp: tables_ok_def)

lemma look_okD:
  assumes "look_ok ls k nd look"
  shows "length look = 1024" "s < k \<Longrightarrow> used ls s \<Longrightarrow> length b = 10 \<Longrightarrow> prefix (code_bits ls s) b \<Longrightarrow> look ! lsb b = int (ls ! s * 512 + s)"
    "nd p = Some d \<Longrightarrow> length p = 10 \<Longrightarrow> look ! lsb p = node_ref d"
    "length b = 10 \<Longrightarrow> nd b = None \<Longrightarrow> (\<And>s. s < k \<Longrightarrow> used ls s \<Longrightarrow> \<not> prefix (code_bits ls s) b) \<Longrightarrow> look ! lsb b = 0"
  using assms unfolding look_ok_def by (blast, blast, blast, blast)

lemma lsb_inject: "length as = length bs \<Longrightarrow> lsb as = lsb bs \<longleftrightarrow> as = bs"
  using horner_inject by blast

text \<open>The node below a place of the first table.\<close>

lemma add_root:
  assumes v: "valid_lengths ls" and len: "length ls \<le> 288" and ok: "tables_ok ls s nd look tree"
    and q: "q \<in> inner ls 10" "length q = 10" "nd q = None"
  shows "look ! lsb q = 0" "tables_ok ls s (nd(q \<mapsto> card (dom nd))) (look[lsb q := node_ref (card (dom nd))]) tree"
    "card (dom (nd(q \<mapsto> card (dom nd)))) = Suc (card (dom nd))"
proof -
  let ?n = "card (dom nd)" let ?nd = "nd(q \<mapsto> ?n)" let ?look = "look[lsb q := node_ref ?n]"
  have ok': "nodes_ok ls nd" "covers ls s nd" "look_ok ls s nd look" "tree_ok ls s nd tree" using ok by (simp_all add: tables_ok_def)
  have parent: "nd p \<noteq> None" if "q = p @ [b]" "10 \<le> length p" for p b using that q(2) by simp
  have add: "nodes_ok ls ?nd" "card (dom ?nd) = Suc ?n" by (rule add_node [OF v len ok'(1) q(1,3)], fact parent)+
  have "tree_ok ls s ?nd tree"
  proof (rule tree_add_node [OF v len ok'(1,2,4) q(1,3)])
    show "tree ! child d b = node_ref ?n" if "nd p = Some d" "q = p @ [b]" for p b d
      using nodes_okD(1) [OF ok'(1) that(1)] that(2) q(2) by (simp add: inner_def)
    show "card (dom ?nd) = Suc ?n" by (rule add(2))
  qed (simp_all add: tree_okD(1) [OF ok'(4)])
  moreover have "look_ok ls s ?nd ?look"
  proof -
    have at: "?look ! lsb b = (if b = q then node_ref ?n else look ! lsb b)" if "length b = 10" for b
      using that q(2) lsb_inject [of q b] horner_less [of q] look_okD(1) [OF ok'(3)] by (auto simp: nth_list_update)
    show ?thesis
      unfolding look_ok_def
    proof (intro conjI allI impI)
      fix t b assume t: "t < s" "used ls t" "length b = 10" "prefix (code_bits ls t) b"
      then have "b \<noteq> q" using inner_code [OF v _ q(1)] by blast
      then show "?look ! lsb b = int (ls ! t * 512 + t)" using look_okD(2) [OF ok'(3) t] t(3) by (simp add: at)
    next
      fix p d assume "?nd p = Some d" "length p = 10"
      then show "?look ! lsb p = node_ref d" using look_okD(3) [OF ok'(3), of p d] by (subst at) (auto split: if_splits)
    next
      fix b assume b: "length b = 10" "?nd b = None" "\<forall>t. t < s \<longrightarrow> used ls t \<longrightarrow> \<not> prefix (code_bits ls t) b"
      then show "?look ! lsb b = 0" using look_okD(4) [OF ok'(3), of b] by (subst at) (auto split: if_splits)
    qed (simp add: look_okD(1) [OF ok'(3)])
  qed
  ultimately show "tables_ok ls s ?nd ?look tree" using add(1) covers_more [OF ok'(2)] unfolding tables_ok_def by blast
  show "look ! lsb q = 0" using look_okD(4) [OF ok'(3) q(2,3)] inner_code [OF v _ q(1)] by blast
  show "card (dom ?nd) = Suc ?n" by (rule add(2))
qed

lemma add_last:
  assumes v: "valid_lengths ls" and len: "length ls \<le> 288" and s: "used ls s" "10 < ls ! s"
    and ok: "tables_ok ls s nd look tree" and d: "nd (take (ls ! s - 1) (code_bits ls s)) = Some d"
  shows "tables_ok ls (Suc s) nd look (tree[child d (code_bits ls s ! (ls ! s - 1)) := int s])" "child d (code_bits ls s ! (ls ! s - 1)) < 576"
proof -
  let ?c = "code_bits ls s" let ?m = "ls ! s - 1"
  have ok': "nodes_ok ls nd" "covers ls s nd" "look_ok ls s nd look" "tree_ok ls s nd tree" using ok by (simp_all add: tables_ok_def)
  have c: "?c = take ?m ?c @ [?c ! ?m]" using s(2) by (metis Suc_pred' length_code_bits lessI less_trans take_Suc_conv_app_nth take_all_iff order_refl zero_less_numeral)
  note add = tree_add_code [OF v len ok'(1,4) s(1) d c]
  have "covers ls (Suc s) nd"
    unfolding covers_def
  proof (intro allI impI)
    fix t i assume t: "t < Suc s" "used ls t" "10 \<le> i" "i < ls ! t"
    show "nd (take i (code_bits ls t)) \<noteq> None"
    proof (cases "t = s")
      case True
      have "nd (take i (take ?m ?c)) \<noteq> None" by (rule node_prefix [OF ok'(1)]) (use t True d in auto)
      moreover have "min i ?m = i" using t(4) True by simp
      ultimately show ?thesis using True by (simp only: take_take) simp
    qed (use t ok'(2) in \<open>simp add: covers_def\<close>)
  qed
  moreover have "look_ok ls (Suc s) nd look"
  proof -
    have "\<not> prefix ?c b" if "length b = 10" for b :: "bool list" using that s(2) prefix_length_le [of ?c b] by auto
    then show ?thesis unfolding look_ok_def using look_okD [OF ok'(3)] by (auto simp: less_Suc_eq)
  qed
  ultimately show "tables_ok ls (Suc s) nd look (tree[child d (?c ! ?m) := int s])" using add(1) ok'(1) unfolding tables_ok_def by blast
  show "child d (?c ! ?m) < 576" by (rule add(2))
qed

lemma insert_long_run:
  assumes v: "valid_lengths ls" and len: "length ls \<le> 288" and s: "used ls s" "10 < ls ! s"
    and ok: "tables_ok ls s nd (m_look_up tab) (m_tree tab)"
  shows "\<exists>nd' look' tree'. insert_long s (ls ! s) (lsb (code_bits ls s)) (node_ref (card (dom nd))) tab
      = Some (node_ref (card (dom nd')), tab\<lparr> m_look_up := look', m_tree := tree' \<rparr>) \<and> tables_ok ls (Suc s) nd' look' tree'"
proof -
  let ?c = "code_bits ls s" and ?n = "card (dom nd)" and ?m = "ls ! s - 1" and ?j = "ls ! s - 11"
  let ?q = "take 10 ?c"
  have q: "?q \<in> inner ls 10" "length ?q = 10" using s by (simp_all add: inner_take)
  have mod: "lsb ?c mod 1024 = lsb ?q" using lsb_mod [of 10 ?c] s(2) by simp
  have less: "lsb ?q < 1024" using horner_less [of ?q] q(2) by simp
  have len_look: "length (m_look_up tab) = 1024" using ok by (simp add: tables_ok_def look_ok_def)
  obtain nd1 look1 d where start: "(if m_look_up tab ! lsb ?q = 0 then ((m_look_up tab)[lsb ?q := int16 (node_ref ?n)], node_ref ?n, node_ref ?n - 2)
      else (m_look_up tab, m_look_up tab ! lsb ?q, node_ref ?n)) = (look1, node_ref d, node_ref (card (dom nd1)))"
    "tables_ok ls s nd1 look1 (m_tree tab)" "nd1 ?q = Some d"
  proof (cases "nd ?q")
    case None
    note add = add_root [OF v len ok q None]
    have "nodes_ok ls nd" using ok by (simp add: tables_ok_def)
    then have "?n < 288" using card_nodes(3) [OF v len] q(1) None by blast
    then have "int16 (node_ref ?n) = node_ref ?n" by (intro int16_id) auto
    then show ?thesis using that [of "(m_look_up tab)[lsb ?q := node_ref ?n]" ?n "nd(?q \<mapsto> ?n)"] add(1,2) unfolding add(3) by simp
  next
    case (Some d)
    have "m_look_up tab ! lsb ?q = node_ref d" using look_okD(3) [of ls s nd "m_look_up tab" ?q d] ok Some q(2) by (simp add: tables_ok_def)
    then show ?thesis using that [of "m_look_up tab" d nd] ok Some by simp
  qed
  obtain nd2 d2 tree2 where grow: "grow_tree ?j (lsb ?c div 2 ^ (10 - 1)) (node_ref d) (node_ref (card (dom nd1))) (m_tree tab)
      = Some (lsb ?c div 2 ^ (10 + ?j - 1), node_ref d2, node_ref (card (dom nd2)), tree2)"
    "tables_ok ls s nd2 look1 tree2" "nd2 (take (10 + ?j) ?c) = Some d2"
    using grow_tree_run [OF v len s(1) start(2) order_refl _ start(3), of ?j] s(2) by auto
  have m: "10 + ?j = ?m" "?m < ls ! s" "0 < ?m" using s(2) by auto
  have div: "lsb ?c div 2 ^ (?m - 1) div 2 = lsb ?c div 2 ^ ?m"
    using m(3) by (cases ?m) (simp_all add: div_mult2_eq [symmetric] mult.commute)
  have bit: "lsb ?c div 2 ^ ?m mod 2 = of_bool (?c ! ?m)" using m(2) by (intro lsb_div_mod) simp
  have at: "- (node_ref d2 - int (of_bool (?c ! ?m))) - 1 = int (child d2 (?c ! ?m))" by (simp add: child_def)
  note last = add_last [OF v len s grow(2) grow(3) [unfolded m(1)]]
  have "s < 288" using s(1) len by (simp add: used_def)
  then have s16: "int16 (int s) = int s" by (intro int16_id) auto
  have "length tree2 = 576" using grow(2) by (simp add: tables_ok_def tree_ok_def)
  then have set: "int_set tree2 (int (child d2 (?c ! ?m))) (int s) = Some (tree2[child d2 (?c ! ?m) := int s])"
    using last(2) by (simp add: int_set_def)
  have idx: "int (lsb ?c div 2 ^ (ls ! s - Suc (Suc 0)) div 2 mod 2) + 2 * int d2 = int (child d2 (?c ! ?m))"
    using div bit by (simp add: child_def)
  have "insert_long s (ls ! s) (lsb ?c) (node_ref ?n) tab
      = Some (node_ref (card (dom nd2)), tab\<lparr> m_look_up := look1, m_tree := tree2[child d2 (?c ! ?m) := int s] \<rparr>)"
    unfolding insert_long_def Let_def mod TINFL_FAST_LOOKUP_BITS_def
    using less len_look start(1) grow(1) set by (simp add: m(1) s16 idx)
  then show ?thesis using last(1) by blast
qed

subsection \<open>Building the tables\<close>

definition codes_ok :: "nat list \<Rightarrow> nat \<Rightarrow> nat list \<Rightarrow> bool" where
  "codes_ok ls k nc \<longleftrightarrow> length nc = 17 \<and> (\<forall>l \<le> 15. nc ! l = first_code ls l + length (filter (\<lambda>t. ls ! t = l \<and> l \<noteq> 0) [0..<k]))"

lemma tables_ok_skip: "tables_ok ls k nd look tree \<Longrightarrow> \<not> used ls k \<Longrightarrow> tables_ok ls (Suc k) nd look tree"
  unfolding tables_ok_def covers_def look_ok_def tree_ok_def less_Suc_eq by blast

lemma insert_symbol_run:
  assumes v: "valid_lengths ls" and len: "length ls \<le> 288" and k: "k < length ls"
    and sizes: "take (length ls) (m_code_size tab) = ls" and nc: "codes_ok ls k nc" and ok: "tables_ok ls k nd (m_look_up tab) (m_tree tab)"
  shows "\<exists>nd' nc' tab'. insert_symbol (node_ref (card (dom nd)), nc, tab) k = Some (node_ref (card (dom nd')), nc', tab')
    \<and> m_code_size tab' = m_code_size tab \<and> codes_ok ls (Suc k) nc' \<and> tables_ok ls (Suc k) nd' (m_look_up tab') (m_tree tab')"
proof -
  have le: "length ls \<le> length (m_code_size tab)" using arg_cong [OF sizes, of length] by simp
  have size: "m_code_size tab ! k = ls ! k" using arg_cong [OF sizes, of "\<lambda>xs. xs ! k"] k by simp
  show ?thesis
  proof (cases "ls ! k = 0")
    case True
    then have "codes_ok ls (Suc k) nc" using nc by (auto simp: codes_ok_def)
    moreover have "tables_ok ls (Suc k) nd (m_look_up tab) (m_tree tab)" using tables_ok_skip [OF ok] True by (simp add: used_def)
    moreover have "insert_symbol (node_ref (card (dom nd)), nc, tab) k = Some (node_ref (card (dom nd)), nc, tab)"
      using k le True by (simp add: insert_symbol_def size)
    ultimately show ?thesis by blast
  next
    case False
    then have s: "used ls k" using k by (simp add: used_def)
    have l15: "ls ! k \<le> 15" using valid_le_15 [OF v k] .
    have cur: "nc ! (ls ! k) = huff_code ls k" using nc l15 False by (simp add: codes_ok_def huff_code_def)
    let ?nc = "nc[ls ! k := huff_code ls k + 1]"
    have nc': "codes_ok ls (Suc k) ?nc" using nc l15 False cur [symmetric] by (auto simp: codes_ok_def nth_list_update)
    have in17: "ls ! k < length nc" using nc l15 by (simp add: codes_ok_def)
    show ?thesis
    proof (cases "ls ! k \<le> 10")
      case True
      note parts = ok [unfolded tables_ok_def]
      obtain look' where look': "fill_look_up (int16 (int (ls ! k * 512 + k))) (ls ! k) (lsb (code_bits ls k)) (m_look_up tab) = Some look'"
        "look_ok ls (Suc k) nd look'" "tree_ok ls (Suc k) nd (m_tree tab)"
        using insert_short [OF v len s True, of nd "m_look_up tab" "m_tree tab"] parts by blast
      have "covers ls (Suc k) nd" using parts True by (auto simp: covers_def less_Suc_eq)
      then have "tables_ok ls (Suc k) nd look' (m_tree tab)" using parts look' by (simp add: tables_ok_def)
      moreover have "insert_symbol (node_ref (card (dom nd)), nc, tab) k = Some (node_ref (card (dom nd)), ?nc, tab\<lparr> m_look_up := look' \<rparr>)"
        using k le False True in17 look'(1) by (simp add: insert_symbol_def size cur reverse_code_lsb Let_def TINFL_FAST_LOOKUP_BITS_def)
      ultimately show ?thesis using nc'
        by (intro exI [of _ nd], intro exI [of _ ?nc], intro exI [of _ "tab\<lparr> m_look_up := look' \<rparr>"]) simp
    next
      case long: False
      then have "10 < ls ! k" by simp
      from insert_long_run [OF v len s this ok] obtain nd' look' tree' where
        "insert_long k (ls ! k) (lsb (code_bits ls k)) (node_ref (card (dom nd))) tab = Some (node_ref (card (dom nd')), tab\<lparr> m_look_up := look', m_tree := tree' \<rparr>)"
        "tables_ok ls (Suc k) nd' look' tree'" by blast
      moreover from this have "insert_symbol (node_ref (card (dom nd)), nc, tab) k = Some (node_ref (card (dom nd')), ?nc, tab\<lparr> m_look_up := look', m_tree := tree' \<rparr>)"
        using k le False long in17 by (simp add: insert_symbol_def size cur reverse_code_lsb Let_def TINFL_FAST_LOOKUP_BITS_def)
      ultimately show ?thesis using nc'
        by (intro exI [of _ nd'], intro exI [of _ ?nc], intro exI [of _ "tab\<lparr> m_look_up := look', m_tree := tree' \<rparr>"]) simp
    qed
  qed
qed

lemma insert_symbols_run:
  assumes v: "valid_lengths ls" and len: "length ls \<le> 288"
    and sizes: "take (length ls) (m_code_size tab) = ls" and nc: "codes_ok ls 0 nc" and ok: "tables_ok ls 0 nd (m_look_up tab) (m_tree tab)"
  shows "k \<le> length ls \<Longrightarrow> \<exists>nd' nc' tab'. fold_opt insert_symbol (node_ref (card (dom nd)), nc, tab) [0..<k] = Some (node_ref (card (dom nd')), nc', tab')
    \<and> m_code_size tab' = m_code_size tab \<and> codes_ok ls k nc' \<and> tables_ok ls k nd' (m_look_up tab') (m_tree tab')"
proof (induction k)
  case 0
  then show ?case using nc ok by (intro exI conjI) simp_all
next
  case (Suc k)
  then obtain nd1 nc1 tab1 where 1: "fold_opt insert_symbol (node_ref (card (dom nd)), nc, tab) [0..<k] = Some (node_ref (card (dom nd1)), nc1, tab1)"
    "m_code_size tab1 = m_code_size tab" "codes_ok ls k nc1" "tables_ok ls k nd1 (m_look_up tab1) (m_tree tab1)" by auto
  obtain nd2 nc2 tab2 where "insert_symbol (node_ref (card (dom nd1)), nc1, tab1) k = Some (node_ref (card (dom nd2)), nc2, tab2)"
    "m_code_size tab2 = m_code_size tab1" "codes_ok ls (Suc k) nc2" "tables_ok ls (Suc k) nd2 (m_look_up tab2) (m_tree tab2)"
    using insert_symbol_run [OF v len _ _ 1(3,4)] Suc.prems sizes 1(2) by auto
  then show ?case using 1 by (intro exI conjI) (simp_all add: fold_opt_append)
qed

text \<open>A table that decodes the code with the given lengths.\<close>

definition decodes :: "nat list \<Rightarrow> tinfl_huff_table \<Rightarrow> bool" where
  "decodes ls tab \<longleftrightarrow> valid_lengths ls \<and> length ls \<le> 288 \<and> (\<exists>nd. tables_ok ls (length ls) nd (m_look_up tab) (m_tree tab))"

theorem build_table_run:
  assumes "valid_lengths ls" "length ls \<le> 288" "take (length ls) (m_code_size tab) = ls"
  shows "\<exists>tab'. build_table (length ls) tab = Some (Inr tab') \<and> m_code_size tab' = m_code_size tab \<and> decodes ls tab'"
proof -
  let ?tab = "tab\<lparr> m_look_up := replicate 1024 0, m_tree := replicate 576 0 \<rparr>"
  let ?ts = "map (\<lambda>l. length (filter (\<lambda>k. k = l) ls)) [0..<16]"
  have le: "length ls \<le> length (m_code_size tab)" using arg_cong [OF assms(3), of length] by simp
  have l15: "list_all (\<lambda>l. l \<le> 15) ls" using assms(1) by (simp add: valid_lengths_def)
  obtain nc where nc: "next_codes ?ts = (sum (bl_count ls) {1..<16}, first_code ls 16, nc)" "length nc = 17" "\<forall>l\<le>16. nc ! l = first_code ls l"
    using next_codes_eq [of ?ts ls] by (auto simp: bl_count_def)
  have accept: "\<not> (first_code ls 16 \<noteq> 65536 \<and> 1 < sum (bl_count ls) {1..<16})"
    unfolding total_kraft [OF l15] sum_bl_count [OF l15] using assms(1) by (auto simp: valid_lengths_def)
  have start: "tables_ok ls 0 Map.empty (m_look_up ?tab) (m_tree ?tab)"
  proof -
    have "lsb b < 1024" if "length b = 10" for b using horner_less [of b] that by simp
    then show ?thesis by (simp add: tables_ok_def nodes_ok_def covers_def look_ok_def tree_ok_def)
  qed
  have codes: "codes_ok ls 0 nc" using nc(2,3) by (simp add: codes_ok_def)
  obtain nd' nc' tab' where run: "fold_opt insert_symbol (- 1, nc, ?tab) [0..<length ls] = Some (node_ref (card (dom nd')), nc', tab')"
    "m_code_size tab' = m_code_size ?tab" "tables_ok ls (length ls) nd' (m_look_up tab') (m_tree tab')"
    using insert_symbols_run [OF assms(1,2) _ codes start order_refl] assms(3) by auto
  have "build_table (length ls) tab = Some (Inr tab')"
    using le accept run(1) by (simp add: build_table_def assms(3) count_sizes_eq [OF l15] nc(1) TINFL_FAST_LOOKUP_SIZE_def TINFL_MAX_HUFF_SYMBOLS_0_def)
  then show ?thesis using run(2,3) assms(1,2) by (auto simp: decodes_def)
qed

end
