(* ===== verification/TinflBits.thy ===== *)
theory TinflBits
  imports TinflTables
begin

unbundle bit_operations_syntax

text \<open>
  The bit buffer against the list of bits. What is still to be read are the bits of the buffer and those of the
  bytes behind the cursor; every operation on bits takes them from the front, as the reference does. A decoder
  reads ahead but never past what it needs at the end of the input, so no padding bit is ever looked at.
\<close>

subsection \<open>The bits to be read\<close>

definition low_bits :: "nat \<Rightarrow> u64 \<Rightarrow> bool list" where
  "low_bits n w = map (bit w) [0..<n]"

definition stream :: "tinfl_call \<Rightarrow> tinfl_state \<Rightarrow> bool list \<Rightarrow> bool" where
  "stream env st bs \<longleftrightarrow> m_num_bits st < 64 \<and> (\<forall>i \<ge> m_num_bits st. \<not> bit (m_bit_buf st) i)
    \<and> in_cur st \<le> in_end env \<and> in_end env \<le> length (in_buf env)
    \<and> bs = low_bits (m_num_bits st) (m_bit_buf st) @ bits_of_bytes (drop (in_cur st) (take (in_end env) (in_buf env)))"

text \<open>Reading bits changes the buffer and moves the cursor of the input on, and changes nothing else.\<close>

definition advance :: "tinfl_state \<Rightarrow> tinfl_state \<Rightarrow> bool" where
  "advance st st' \<longleftrightarrow> (\<exists>b n c. in_cur st \<le> c \<and> st' = st\<lparr> m_bit_buf := b, m_num_bits := n, in_cur := c \<rparr>)"

lemma advance_refl [simp]: "advance st st"
proof -
  have "st = st\<lparr> m_bit_buf := m_bit_buf st, m_num_bits := m_num_bits st, in_cur := in_cur st \<rparr>" by simp
  then show ?thesis unfolding advance_def using order_refl by blast
qed

lemma advance_trans [trans]: "advance a b \<Longrightarrow> advance b c \<Longrightarrow> advance a c"
proof -
  assume "advance a b" "advance b c"
  then obtain b1 n1 c1 b2 n2 c2 where "b = a\<lparr> m_bit_buf := b1, m_num_bits := n1, in_cur := c1 \<rparr>" "c = b\<lparr> m_bit_buf := b2, m_num_bits := n2, in_cur := c2 \<rparr>"
    "in_cur a \<le> c1" "in_cur b \<le> c2"
    unfolding advance_def by blast
  then have "in_cur a \<le> c2 \<and> c = a\<lparr> m_bit_buf := b2, m_num_bits := n2, in_cur := c2 \<rparr>" by simp
  then show ?thesis unfolding advance_def by blast
qed

lemma advance_fields:
  assumes "advance st st'"
  shows "m_state st' = m_state st" "m_final st' = m_final st" "m_type st' = m_type st" "m_dist st' = m_dist st" "m_counter st' = m_counter st"
    "m_table_sizes st' = m_table_sizes st" "m_tables st' = m_tables st" "m_len_codes st' = m_len_codes st" "out_cur st' = out_cur st" "out_buf st' = out_buf st" "in_cur st \<le> in_cur st'"
  using assms by (auto simp: advance_def)

lemma length_low_bits [simp]: "length (low_bits n w) = n"
  by (simp add: low_bits_def)

lemma length_byte_bits [simp]: "length (byte_bits c) = 8"
  by (simp add: byte_bits_def)

lemma bits_of_bytes_simps [simp]:
  "bits_of_bytes [] = []" "bits_of_bytes (x # xs) = byte_bits x @ bits_of_bytes xs" "bits_of_bytes (xs @ ys) = bits_of_bytes xs @ bits_of_bytes ys"
  by (simp_all add: bits_of_bytes_def)

lemma length_bits_of_bytes [simp]: "length (bits_of_bytes xs) = 8 * length xs"
  by (induction xs) simp_all

lemma low_bits_value: "n \<le> 64 \<Longrightarrow> lsb (low_bits n w) = unat (take_bit n w)"
proof -
  have "lsb (map (bit (unat w)) [0..<n]) = take_bit n (unat w)" by (rule horner_sum_bit_eq_take_bit)
  moreover have "map (bit (unat w)) [0..<n] = low_bits n w" if "n \<le> 64"
    using that by (auto simp: low_bits_def bit_unsigned_iff)
  ultimately show "n \<le> 64 \<Longrightarrow> lsb (low_bits n w) = unat (take_bit n w)" by (simp add: unsigned_take_bit_eq)
qed

lemma and_mask_value: "n \<le> 64 \<Longrightarrow> unat (w AND mask n) = lsb (low_bits n w)"
  by (simp add: low_bits_value take_bit_eq_mask)

text \<open>Putting a byte on top of the buffer, and dropping bits at its bottom.\<close>

lemma low_bits_add:
  assumes "n + 8 \<le> 64" "\<forall>i\<ge>n. \<not> bit w i"
  shows "low_bits (n + 8) (w OR push_bit n (word_of_nat (unat c))) = low_bits n w @ byte_bits c"
    and "i \<ge> n + 8 \<Longrightarrow> \<not> bit (w OR push_bit n (word_of_nat (unat (c :: u8)))) i"
proof -
  have c: "(word_of_nat (unat c) :: u64) = ucast c" by (simp add: of_nat_unat)
  have bit: "bit (w OR push_bit n (ucast c)) i \<longleftrightarrow> (if i < n then bit w i else i < 64 \<and> bit c (i - n))" for i
    using assms by (auto simp: bit_or_iff bit_push_bit_iff bit_unsigned_iff dest: bit_imp_le_length)
  show "low_bits (n + 8) (w OR push_bit n (word_of_nat (unat c))) = low_bits n w @ byte_bits c"
    unfolding c using assms(1) by (intro nth_equalityI) (auto simp: low_bits_def byte_bits_def nth_append bit)
  show "i \<ge> n + 8 \<Longrightarrow> \<not> bit (w OR push_bit n (word_of_nat (unat c))) i"
    unfolding c by (auto simp: bit dest: bit_imp_le_length)
qed

lemma low_bits_drop: "n \<le> m \<Longrightarrow> low_bits (m - n) (drop_bit n w) = drop n (low_bits m w)"
  by (rule nth_equalityI) (auto simp: low_bits_def bit_drop_bit_eq add.commute)

lemma take_low_bits: "n \<le> m \<Longrightarrow> take n (low_bits m w) = low_bits n w"
  by (simp add: low_bits_def take_map)

lemma stream_length: "stream env st bs \<Longrightarrow> length bs = m_num_bits st + 8 * (in_end env - in_cur st)"
  by (auto simp: stream_def)

lemma drop_bits_stream:
  assumes "stream env st bs" "n \<le> m_num_bits st"
  shows "stream env (drop_bits n st) (drop n bs)" "m_num_bits (drop_bits n st) = m_num_bits st - n" "advance st (drop_bits n st)"
    "in_cur (drop_bits n st) = in_cur st"
proof -
  show "advance st (drop_bits n st)" unfolding advance_def drop_bits_def
    by (rule exI [of _ "drop_bit n (m_bit_buf st)"], rule exI [of _ "u32_sub (m_num_bits st) n"], rule exI [of _ "in_cur st"]) simp
  show "stream env (drop_bits n st) (drop n bs)"
    using assms by (auto simp: stream_def drop_bits_def u32_sub_def low_bits_drop bit_drop_bit_eq)
qed (use assms(2) in \<open>simp_all add: drop_bits_def u32_sub_def\<close>)

lemma add_byte_stream:
  assumes "stream env st bs" "in_cur st < in_end env" "m_num_bits st < 56"
  defines "st' \<equiv> add_byte (unat (in_buf env ! in_cur st)) (st\<lparr> in_cur := in_cur st + 1 \<rparr>)"
  shows "stream env st' bs" "m_num_bits st' = m_num_bits st + 8" "advance st st'" "array_get (in_buf env) (in_cur st) = Some (in_buf env ! in_cur st)"
    "in_cur st' = in_cur st + 1"
proof -
  let ?c = "in_buf env ! in_cur st" and ?n = "m_num_bits st" and ?w = "m_bit_buf st"
  have clear: "\<forall>i\<ge>?n. \<not> bit ?w i" using assms(1) by (simp add: stream_def)
  have rest: "drop (in_cur st) (take (in_end env) (in_buf env)) = ?c # drop (in_cur st + 1) (take (in_end env) (in_buf env))"
    using assms(1,2) Cons_nth_drop_Suc [of "in_cur st" "take (in_end env) (in_buf env)"] by (simp add: stream_def)
  show "stream env st' bs"
    using assms(1-3) low_bits_add [OF _ clear, where c = ?c] by (simp add: stream_def st'_def add_byte_def rest)
  show "m_num_bits st' = ?n + 8" "in_cur st' = in_cur st + 1" by (simp_all add: st'_def add_byte_def)
  show "advance st st'" unfolding advance_def st'_def add_byte_def
    by (rule exI [of _ "?w OR push_bit ?n (word_of_nat (unat ?c))"], rule exI [of _ "?n + 8"], rule exI [of _ "in_cur st + 1"]) simp
  show "array_get (in_buf env) (in_cur st) = Some ?c" using assms(1,2) by (simp add: stream_def)
qed

subsection \<open>Reading\<close>

lemma need_bits_run:
  "stream env st bs \<Longrightarrow> n \<le> length bs \<Longrightarrow> m_num_bits st < n \<Longrightarrow> n \<le> 16 \<Longrightarrow>
    \<exists>st'. need_bits env n st = Some st' \<and> stream env st' bs \<and> advance st st' \<and> n \<le> m_num_bits st'"
proof (induction "n - m_num_bits st" arbitrary: st rule: less_induct)
  case less
  have more: "in_cur st < in_end env" using less.prems stream_length [OF less.prems(1)] by (cases "in_cur st < in_end env") auto
  let ?st = "add_byte (unat (in_buf env ! in_cur st)) (st\<lparr> in_cur := in_cur st + 1 \<rparr>)"
  have small: "m_num_bits st < 56" using less.prems by simp
  note add = add_byte_stream [OF less.prems(1) more small]
  have step: "need_bits env n st = (if m_num_bits ?st < n then need_bits env n ?st else Some ?st)"
    using more add(4) by (subst need_bits.simps) (simp add: get_byte_def Let_def)
  show ?case
  proof (cases "m_num_bits ?st < n")
    case True
    have "n - m_num_bits ?st < n - m_num_bits st" using add(2) less.prems(3) by simp
    then show ?thesis using less.hyps [of ?st] add(1,3) less.prems True by (simp add: step) (meson advance_trans)
  next
    case False
    then show ?thesis using add(1,3) by (simp add: step)
  qed
qed

lemma read_bits_Some: "read_bits n bs = Some (x, bs') \<longleftrightarrow> n \<le> length bs \<and> x = lsb (take n bs) \<and> bs' = drop n bs"
  by (auto simp: read_bits_def)

lemma ensure_bits:
  assumes "stream env st bs" "n \<le> length bs" "n \<le> 16"
  shows "\<exists>st'. (if m_num_bits st < n then need_bits env n st else Some st) = Some st' \<and> stream env st' bs \<and> advance st st' \<and> n \<le> m_num_bits st'"
  using need_bits_run [OF assms(1,2) _ assms(3)] assms(1) by (cases "m_num_bits st < n") auto

lemma get_bits_run:
  assumes "stream env st bs" "read_bits n bs = Some (x, bs')" "n \<le> 16"
  shows "\<exists>st'. get_bits env n st = Some (x, st') \<and> stream env st' bs' \<and> advance st st'"
proof -
  have n: "n \<le> length bs" and x: "x = lsb (take n bs)" "bs' = drop n bs" using assms(2) by (simp_all add: read_bits_Some)
  obtain st1 where st1: "(if m_num_bits st < n then need_bits env n st else Some st) = Some st1" "stream env st1 bs" "advance st st1" "n \<le> m_num_bits st1"
    using ensure_bits [OF assms(1) n assms(3)] by blast
  note drop = drop_bits_stream [OF st1(2,4)]
  have "take n bs = low_bits n (m_bit_buf st1)" using st1(2,4) by (simp add: stream_def take_low_bits)
  then have "unat (m_bit_buf st1 AND mask n) = x" using assms(3) by (simp add: and_mask_value x)
  then show ?thesis using st1 drop advance_trans [OF st1(3) drop(3)] by (simp add: get_bits_def x)
qed

text \<open>Skipping to the next byte boundary.\<close>

lemma skip_bits_run:
  assumes "stream env st bs"
  shows "\<exists>st'. skip_bits env (m_num_bits st mod 8) st = Some st' \<and> stream env st' (drop (length bs mod 8) bs) \<and> advance st st' \<and> m_num_bits st' mod 8 = 0"
proof -
  let ?n = "m_num_bits st mod 8"
  have "length bs mod 8 = ?n" using stream_length [OF assms] by simp
  moreover have le: "?n \<le> m_num_bits st" by simp
  note drop = drop_bits_stream [OF assms le]
  moreover have "(m_num_bits st - ?n) mod 8 = 0" by (simp add: minus_mod_eq_mult_div)
  moreover have "\<not> m_num_bits st < ?n" using le by linarith
  then have "skip_bits env ?n st = Some (drop_bits ?n st)" by (simp only: skip_bits_def if_False option.map)
  ultimately show ?thesis by simp
qed

lemma read_ahead_run:
  "stream env st bs \<Longrightarrow> in_cur st + k \<le> in_end env \<Longrightarrow> m_num_bits st + 8 * k < 64 \<Longrightarrow>
    \<exists>st'. read_ahead env k st = Some st' \<and> stream env st' bs \<and> advance st st' \<and> m_num_bits st' = m_num_bits st + 8 * k"
proof (induction k arbitrary: st)
  case (Suc k)
  let ?st = "add_byte (unat (in_buf env ! in_cur st)) (st\<lparr> in_cur := in_cur st + 1 \<rparr>)"
  have "in_cur st < in_end env" "m_num_bits st < 56" using Suc.prems by simp_all
  note add = add_byte_stream [OF Suc.prems(1) this]
  obtain st' where "read_ahead env k ?st = Some st'" "stream env st' bs" "advance ?st st'" "m_num_bits st' = m_num_bits ?st + 8 * k"
    using Suc.IH [OF add(1)] Suc.prems add(2,5) by auto
  moreover have "read_ahead env (Suc k) st = read_ahead env k ?st" using add(4) by (simp add: read_ahead_def)
  ultimately show ?case using add(2,3) by (metis advance_trans add.assoc add.commute mult_Suc_right)
qed (simp add: read_ahead_def)

subsection \<open>Decoding\<close>

lemma look_up_entry:
  assumes "tables_ok ls k nd (m_look_up tab) (m_tree tab)"
  shows "look_up tab w = Some (m_look_up tab ! lsb (low_bits 10 w))"
proof -
  have "(1023 :: u64) = mask 10" by (simp add: mask_eq_exp_minus_1)
  then have "unat (w AND 1023) = lsb (low_bits 10 w)" using and_mask_value [of 10 w] by simp
  moreover have "lsb (low_bits 10 w) < 1024" using horner_less [of "low_bits 10 w"] by simp
  moreover have "length (m_look_up tab) = 1024" using assms by (simp add: tables_ok_def look_ok_def)
  ultimately show ?thesis by (simp add: look_up_def)
qed

lemma tree_entry:
  assumes "valid_lengths ls" "length ls \<le> 288" "tables_ok ls k nd (m_look_up tab) (m_tree tab)" "nd p = Some d" "i < 64"
  shows "tree_next_entry tab w (node_ref d) i = Some (m_tree tab ! child d (bit w i))"
proof -
  have nodes: "nodes_ok ls nd" using assms(3) by (simp add: tables_ok_def)
  have "d < 288" using nodes_okD(2) [OF nodes assms(4)] card_nodes(2) [OF assms(1,2) nodes] by simp
  then have "child d (bit w i) < 576" using child_less [of d "bit w i" 288] by simp
  moreover have "length (m_tree tab) = 576" using assms(3) by (simp add: tables_ok_def tree_ok_def)
  ultimately have get: "int_get (m_tree tab) (int (child d (bit w i))) = Some (m_tree tab ! child d (bit w i))" by (simp add: int_get_def)
  have at: "- node_ref d - 1 + of_bool (bit w i) = int (child d (bit w i))" by (simp add: child_def)
  have "\<not> 64 \<le> i" using assms(5) by simp
  then show ?thesis unfolding tree_next_entry_def at get by (simp only: if_False)
qed

text \<open>The bits at the bottom of the buffer begin with a code, as far as there are bits.\<close>

definition begins_code :: "nat list \<Rightarrow> nat \<Rightarrow> u64 \<Rightarrow> nat \<Rightarrow> bool" where
  "begins_code ls s w n \<longleftrightarrow> used ls s \<and> take n (code_bits ls s) = low_bits (min n (ls ! s)) w"

lemma begins_code_bit: "begins_code ls s w n \<Longrightarrow> i < n \<Longrightarrow> i < ls ! s \<Longrightarrow> bit w i = code_bits ls s ! i"
proof -
  assume b: "begins_code ls s w n" "i < n" "i < ls ! s"
  then have "take n (code_bits ls s) ! i = low_bits (min n (ls ! s)) w ! i" by (simp add: begins_code_def)
  then show ?thesis using b by (simp add: low_bits_def)
qed

lemma begins_code_take: "begins_code ls s w n \<Longrightarrow> m \<le> n \<Longrightarrow> m \<le> ls ! s \<Longrightarrow> take m (code_bits ls s) = low_bits m w"
proof -
  assume b: "begins_code ls s w n" "m \<le> n" "m \<le> ls ! s"
  then have "take m (take n (code_bits ls s)) = take m (low_bits (min n (ls ! s)) w)" by (simp add: begins_code_def)
  then show ?thesis using b by (simp add: take_low_bits min_def)
qed

text \<open>The children of the nodes on the way to a code.\<close>

lemma tree_on_way:
  assumes "tables_ok ls (length ls) nd look tree" "used ls s" "10 \<le> i" "i < ls ! s" "nd (take i (code_bits ls s)) = Some d"
  shows "if Suc i = ls ! s then tree ! child d (code_bits ls s ! i) = int s
    else \<exists>e. nd (take (Suc i) (code_bits ls s)) = Some e \<and> tree ! child d (code_bits ls s ! i) = node_ref e"
proof -
  let ?c = "code_bits ls s"
  have ok: "tree_ok ls (length ls) nd tree" "covers ls (length ls) nd" using assms(1) by (simp_all add: tables_ok_def)
  have c: "take (Suc i) ?c = take i ?c @ [?c ! i]" using assms(4) by (simp add: take_Suc_conv_app_nth)
  have s: "s < length ls" using assms(2) by (simp add: used_def)
  show ?thesis
  proof (cases "Suc i = ls ! s")
    case True
    then have "?c = take i ?c @ [?c ! i]" using c by (metis length_code_bits order_refl take_all)
    then show ?thesis using tree_okD(3) [OF ok(1) assms(5) s assms(2)] True by simp
  next
    case False
    then have "Suc i < ls ! s" using assms(4) by simp
    then obtain e where "nd (take (Suc i) ?c) = Some e" using ok(2) s assms(2,3) unfolding covers_def by fastforce
    then show ?thesis using tree_okD(2) [OF ok(1) assms(5), of "?c ! i" e] False by (simp add: c)
  qed
qed

lemma tree_walk_run:
  assumes v: "valid_lengths ls" and len: "length ls \<le> 288" and ok: "tables_ok ls (length ls) nd (m_look_up tab) (m_tree tab)"
    and b: "begins_code ls s w (ls ! s)"
  shows "10 \<le> i \<Longrightarrow> i < ls ! s \<Longrightarrow> nd (take i (code_bits ls s)) = Some d \<Longrightarrow> tree_walk tab w (node_ref d) i = Some (int s, ls ! s)"
proof (induction "ls ! s - i" arbitrary: i d rule: less_induct)
  case less
  have s: "used ls s" "ls ! s \<le> 15" using b valid_le_15 [OF v] by (auto simp: begins_code_def used_def)
  have bit: "bit w i = code_bits ls s ! i" using begins_code_bit [OF b less.prems(2,2)] .
  have entry: "tree_next_entry tab w (node_ref d) i = Some (m_tree tab ! child d (code_bits ls s ! i))"
    using tree_entry [OF v len ok less.prems(3), of i w] less.prems(2) s(2) by (simp add: bit)
  show ?case
  proof (cases "Suc i = ls ! s")
    case True
    then have "m_tree tab ! child d (code_bits ls s ! i) = int s" using tree_on_way [OF ok s(1) less.prems] by simp
    then show ?thesis using True by (subst tree_walk.simps) (simp add: entry)
  next
    case False
    then obtain e where e: "nd (take (Suc i) (code_bits ls s)) = Some e" "m_tree tab ! child d (code_bits ls s ! i) = node_ref e"
      using tree_on_way [OF ok s(1) less.prems] by auto
    have "tree_walk tab w (node_ref e) (Suc i) = Some (int s, ls ! s)"
      using less.hyps [of "Suc i" e] less.prems e(1) False by simp
    then show ?thesis by (subst tree_walk.simps) (simp add: entry e(2))
  qed
qed

text \<open>The short walk ends at a node when bits are missing.\<close>

lemma fill_walk_run:
  assumes v: "valid_lengths ls" and len: "length ls \<le> 288" and ok: "tables_ok ls (length ls) nd (m_look_up tab) (m_tree tab)"
    and b: "begins_code ls s w n"
  shows "10 \<le> i \<Longrightarrow> i < ls ! s \<Longrightarrow> i < n \<Longrightarrow> nd (take i (code_bits ls s)) = Some d \<Longrightarrow>
    \<exists>t. fill_walk tab w n (node_ref d) i = Some t \<and> (0 \<le> t \<longleftrightarrow> ls ! s \<le> n)"
proof (induction "ls ! s - i" arbitrary: i d rule: less_induct)
  case less
  have s: "used ls s" "ls ! s \<le> 15" using b valid_le_15 [OF v] by (auto simp: begins_code_def used_def)
  have bit: "bit w i = code_bits ls s ! i" using begins_code_bit [OF b less.prems(3,2)] .
  have entry: "tree_next_entry tab w (node_ref d) i = Some (m_tree tab ! child d (code_bits ls s ! i))"
    using tree_entry [OF v len ok less.prems(4), of i w] less.prems(2) s(2) by (simp add: bit)
  show ?case
  proof (cases "Suc i = ls ! s")
    case True
    then have "m_tree tab ! child d (code_bits ls s ! i) = int s" using tree_on_way [OF ok s(1) less.prems(1,2,4)] by simp
    then show ?thesis using True less.prems(3) by (subst fill_walk.simps) (simp add: entry)
  next
    case False
    then obtain e where e: "nd (take (Suc i) (code_bits ls s)) = Some e" "m_tree tab ! child d (code_bits ls s ! i) = node_ref e"
      using tree_on_way [OF ok s(1) less.prems(1,2,4)] by auto
    show ?thesis
    proof (cases "Suc i < n")
      case True
      then obtain t where "fill_walk tab w n (node_ref e) (Suc i) = Some t" "0 \<le> t \<longleftrightarrow> ls ! s \<le> n"
        using less.hyps [of "Suc i" e] less.prems e(1) False diff_less_mono2 [of i "Suc i" "ls ! s"] by auto
      then show ?thesis using True by (subst fill_walk.simps) (simp add: entry e(2))
    next
      case stop: False
      then show ?thesis using less.prems(2,3) False by (subst fill_walk.simps) (simp add: entry e(2))
    qed
  qed
qed

lemma used_small: "length ls \<le> 288 \<Longrightarrow> used ls s \<Longrightarrow> s < 288"
  by (simp add: used_def)

lemma look_up_short:
  assumes ok: "tables_ok ls (length ls) nd (m_look_up tab) (m_tree tab)" and b: "begins_code ls s w (ls ! s)" and le: "ls ! s \<le> 10"
  shows "look_up tab w = Some (int (ls ! s * 512 + s))"
proof -
  have s: "used ls s" "s < length ls" using b by (auto simp: begins_code_def used_def)
  have "code_bits ls s = take (ls ! s) (low_bits 10 w)" using b le by (simp add: begins_code_def take_low_bits)
  then have "prefix (code_bits ls s) (low_bits 10 w)" by (metis take_is_prefix)
  then show ?thesis using look_okD(2) [of ls "length ls" nd "m_look_up tab" s] ok s by (simp add: look_up_entry [OF ok]) (simp add: tables_ok_def)
qed

lemma look_up_long:
  assumes ok: "tables_ok ls (length ls) nd (m_look_up tab) (m_tree tab)" and b: "begins_code ls s w n" and gt: "10 < ls ! s" "10 \<le> n"
  shows "\<exists>d. nd (take 10 (code_bits ls s)) = Some d \<and> look_up tab w = Some (node_ref d)"
proof -
  have s: "used ls s" "s < length ls" using b by (auto simp: begins_code_def used_def)
  obtain d where d: "nd (take 10 (code_bits ls s)) = Some d" using ok s gt(1) unfolding tables_ok_def covers_def by fastforce
  have "take 10 (code_bits ls s) = low_bits 10 w" using begins_code_take [OF b gt(2)] gt(1) by simp
  then show ?thesis using d look_okD(3) [of ls "length ls" nd "m_look_up tab" "low_bits 10 w" d] ok
    by (simp add: look_up_entry [OF ok]) (simp add: tables_ok_def)
qed

lemma decode_entry:
  assumes "decodes ls tab" and b: "begins_code ls s w (ls ! s)"
  shows "huff_symbol tab w = Some (s, ls ! s)" "huff_entry tab w = Some (int s, ls ! s) \<or> huff_entry tab w = Some (int (ls ! s * 512 + s), ls ! s)"
proof -
  obtain nd where d: "valid_lengths ls" "length ls \<le> 288" and ok: "tables_ok ls (length ls) nd (m_look_up tab) (m_tree tab)"
    using assms(1) by (auto simp: decodes_def)
  have s: "s < 512" "used ls s" using b used_small [OF d(2), of s] by (auto simp: begins_code_def)
  have "huff_symbol tab w = Some (s, ls ! s) \<and> (huff_entry tab w = Some (int s, ls ! s) \<or> huff_entry tab w = Some (int (ls ! s * 512 + s), ls ! s))"
  proof (cases "ls ! s \<le> 10")
    case True
    have n: "nat (int (ls ! s * 512 + s)) = ls ! s * 512 + s" by (rule nat_int)
    show ?thesis unfolding huff_symbol_def huff_entry_def look_up_short [OF ok b True] using s(1) by (simp add: n del: of_nat_add of_nat_mult)
  next
    case False
    then obtain e where e: "nd (take 10 (code_bits ls s)) = Some e" "look_up tab w = Some (node_ref e)" using look_up_long [OF ok b] by auto
    have "tree_walk tab w (node_ref e) 10 = Some (int s, ls ! s)" using tree_walk_run [OF d ok b order_refl _ e(1)] False by simp
    then show ?thesis using e(2) by (simp add: huff_symbol_def huff_entry_def TINFL_FAST_LOOKUP_BITS_def)
  qed
  then show "huff_symbol tab w = Some (s, ls ! s)" "huff_entry tab w = Some (int s, ls ! s) \<or> huff_entry tab w = Some (int (ls ! s * 512 + s), ls ! s)" by auto
qed

lemma code_at_hand_run:
  assumes "decodes ls tab" and b: "begins_code ls s (m_bit_buf st) (m_num_bits st)"
  shows "code_at_hand tab st = Some (ls ! s \<le> m_num_bits st)"
proof -
  obtain nd where d: "valid_lengths ls" "length ls \<le> 288" and ok: "tables_ok ls (length ls) nd (m_look_up tab) (m_tree tab)"
    using assms(1) by (auto simp: decodes_def)
  let ?w = "m_bit_buf st" and ?n = "m_num_bits st"
  have s: "used ls s" "s < 512" "ls ! s \<noteq> 0" using b used_small [OF d(2), of s] by (auto simp: begins_code_def used_def)
  consider (short) "ls ! s \<le> 10" "ls ! s \<le> ?n" | (long) "10 < ls ! s" "10 < ?n" | (missing) "?n < ls ! s" "?n \<le> 10" by linarith
  then show ?thesis
  proof cases
    case short
    then have "begins_code ls s ?w (ls ! s)" using b begins_code_take [OF b short(2) order_refl] by (simp add: begins_code_def)
    note entry = look_up_short [OF ok this short(1)]
    have n: "nat (int (ls ! s * 512 + s)) = ls ! s * 512 + s" by (rule nat_int)
    show ?thesis unfolding code_at_hand_def entry using s short by (simp add: n del: of_nat_add of_nat_mult)
  next
    case long
    then obtain e where e: "nd (take 10 (code_bits ls s)) = Some e" "look_up tab ?w = Some (node_ref e)" using look_up_long [OF ok b] by auto
    obtain t where "fill_walk tab ?w ?n (node_ref e) 10 = Some t" "0 \<le> t \<longleftrightarrow> ls ! s \<le> ?n"
      using fill_walk_run [OF d ok b order_refl long e(1)] by auto
    then show ?thesis using long(2) e(2) by (simp add: code_at_hand_def TINFL_FAST_LOOKUP_BITS_def)
  next
    case missing
    let ?b = "low_bits 10 ?w" let ?e = "m_look_up tab ! lsb ?b"
    have look: "look_ok ls (length ls) nd (m_look_up tab)" using ok by (simp add: tables_ok_def)
    consider (node) e where "?e = node_ref e" | (code) t where "used ls t" "prefix (code_bits ls t) ?b" "?e = int (ls ! t * 512 + t)" | (none) "?e = 0"
    proof (cases "nd ?b")
      case (Some e)
      then show ?thesis using look_okD(3) [OF look Some] that(1) by simp
    next
      case None
      then show ?thesis using look_okD(4) [OF look _ None] look_okD(2) [OF look, of _ ?b] that(2,3) by (metis length_low_bits used_def)
    qed
    then show ?thesis
    proof cases
      case node
      then show ?thesis using missing by (simp add: code_at_hand_def look_up_entry [OF ok] TINFL_FAST_LOOKUP_BITS_def)
    next
      case code
      have t: "t < 512" using used_small [OF d(2) code(1)] by simp
      have n: "nat (int (ls ! t * 512 + t)) = ls ! t * 512 + t" by (rule nat_int)
      have "\<not> ls ! t \<le> ?n"
      proof
        assume le: "ls ! t \<le> ?n"
        then have "code_bits ls t = low_bits (ls ! t) ?w" using code(2) missing(2) by (metis length_code_bits append_eq_conv_conj prefix_def take_low_bits le_trans)
        also have "\<dots> = take (ls ! t) (code_bits ls s)" using begins_code_take [OF b le] le missing(1) by simp
        finally have "t = s" using prefix_free [OF d(1) code(1) s(1)] by (metis take_is_prefix)
        then show False using le missing(1) by simp
      qed
      then show ?thesis using missing t unfolding code_at_hand_def look_up_entry [OF ok] code(3)
        by (simp add: n del: of_nat_add of_nat_mult)
    next
      case none
      then show ?thesis using missing by (simp add: code_at_hand_def look_up_entry [OF ok])
    qed
  qed
qed

lemma stream_begins:
  assumes "stream env st (code_bits ls s @ bs)" "used ls s"
  shows "begins_code ls s (m_bit_buf st) (m_num_bits st)"
proof -
  let ?n = "m_num_bits st" and ?w = "m_bit_buf st"
  obtain rest where rest: "code_bits ls s @ bs = low_bits ?n ?w @ rest" using assms(1) by (auto simp: stream_def)
  have "take (min ?n (ls ! s)) (code_bits ls s @ bs) = take (min ?n (ls ! s)) (low_bits ?n ?w @ rest)" by (simp only: rest)
  then show ?thesis using assms(2) by (simp add: begins_code_def take_low_bits min_def split: if_splits)
qed

lemma huff_bitbuf_fill_run:
  assumes "decodes ls tab" "used ls s"
  shows "stream env st (code_bits ls s @ bs) \<Longrightarrow>
    \<exists>st'. huff_bitbuf_fill env tab st = Some st' \<and> stream env st' (code_bits ls s @ bs) \<and> advance st st' \<and> ls ! s \<le> m_num_bits st'"
proof (induction "15 - m_num_bits st" arbitrary: st rule: less_induct)
  case less
  have hand: "code_at_hand tab st = Some (ls ! s \<le> m_num_bits st)" using code_at_hand_run [OF assms(1) stream_begins [OF less.prems assms(2)]] .
  have l15: "ls ! s \<le> 15" using assms valid_le_15 by (auto simp: decodes_def used_def)
  show ?case
  proof (cases "ls ! s \<le> m_num_bits st")
    case True
    then show ?thesis using less.prems hand by (subst huff_bitbuf_fill.simps) simp
  next
    case False
    then have more: "in_cur st < in_end env" "m_num_bits st < 56" using stream_length [OF less.prems] l15 by (cases "in_cur st < in_end env"; simp)+
    let ?st = "add_byte (unat (in_buf env ! in_cur st)) (st\<lparr> in_cur := in_cur st + 1 \<rparr>)"
    note add = add_byte_stream [OF less.prems more]
    have step: "huff_bitbuf_fill env tab st = (if m_num_bits ?st < 15 then huff_bitbuf_fill env tab ?st else Some ?st)"
      using more(1) add(4) hand False by (subst huff_bitbuf_fill.simps) (simp add: get_byte_def Let_def)
    show ?thesis
    proof (cases "m_num_bits ?st < 15")
      case True
      have "15 - m_num_bits ?st < 15 - m_num_bits st" using True add(2) by simp
      then obtain st' where "huff_bitbuf_fill env tab ?st = Some st'" "stream env st' (code_bits ls s @ bs)" "advance ?st st'" "ls ! s \<le> m_num_bits st'"
        using less.hyps [of ?st] add(1) by blast
      then show ?thesis using True advance_trans [OF add(3)] by (simp add: step)
    next
      case stop: False
      then show ?thesis using add(1,3) l15 by (simp add: step)
    qed
  qed
qed

theorem huff_decode_run:
  assumes "decodes ls tab" "decode_symbol ls bs = Some (s, bs')" "stream env st bs"
  shows "\<exists>st'. huff_decode env tab st = Some (s, st') \<and> stream env st' bs' \<and> advance st st'"
proof -
  have v: "valid_lengths ls" using assms(1) by (simp add: decodes_def)
  have s: "used ls s" "bs = code_bits ls s @ bs'" using assms(2) decode_symbol_used [OF v] by auto
  have l15: "ls ! s \<le> 15" using valid_le_15 [OF v] s(1) by (simp add: used_def)
  let ?ready = "if m_num_bits st < 15 then if in_end env - in_cur st < 2 then huff_bitbuf_fill env tab st else read_ahead env 2 st else Some st"
  obtain st1 where st1: "?ready = Some st1" "stream env st1 bs" "advance st st1" "ls ! s \<le> m_num_bits st1"
  proof (cases "m_num_bits st < 15")
    case True
    show ?thesis
    proof (cases "in_end env - in_cur st < 2")
      case few: True
      show ?thesis using huff_bitbuf_fill_run [OF assms(1) s(1)] assms(3) s(2) that True few by auto
    next
      case False
      then have room: "in_cur st + 2 \<le> in_end env" by linarith
      then obtain st1 where "read_ahead env 2 st = Some st1" "stream env st1 bs" "advance st st1" "m_num_bits st1 = m_num_bits st + 8 * 2"
        using read_ahead_run [OF assms(3) room] True by auto
      then show ?thesis using that True False l15 by simp
    qed
  next
    case False
    then show ?thesis using that [of st] assms(3) l15 by simp
  qed
  have b: "begins_code ls s (m_bit_buf st1) (m_num_bits st1)" using stream_begins [OF _ s(1)] st1(2) s(2) by simp
  then have "begins_code ls s (m_bit_buf st1) (ls ! s)" using begins_code_take [OF b st1(4) order_refl] s(1) by (simp add: begins_code_def)
  then have "huff_symbol tab (m_bit_buf st1) = Some (s, ls ! s)" using decode_entry(1) [OF assms(1)] by blast
  moreover note drop = drop_bits_stream [OF st1(2,4)]
  moreover have "drop (ls ! s) bs = bs'" using s(2) by simp
  ultimately show ?thesis using st1(1) advance_trans [OF st1(3) drop(3)] by (simp add: huff_decode_def)
qed

text \<open>The entry of the fast loop: enough bits are in the buffer.\<close>

lemma huff_entry_run:
  assumes "decodes ls tab" "decode_symbol ls bs = Some (s, bs')" "stream env st bs" "15 \<le> m_num_bits st"
  shows "\<exists>e. huff_entry tab (m_bit_buf st) = Some (e, ls ! s) \<and> (e = int s \<or> e = int (ls ! s * 512 + s)) \<and> s < 288 \<and> ls ! s \<le> 15
    \<and> stream env (drop_bits (ls ! s) st) bs' \<and> advance st (drop_bits (ls ! s) st) \<and> m_num_bits (drop_bits (ls ! s) st) = m_num_bits st - ls ! s
    \<and> in_cur (drop_bits (ls ! s) st) = in_cur st"
proof -
  have v: "valid_lengths ls" "length ls \<le> 288" using assms(1) by (simp_all add: decodes_def)
  have s: "used ls s" "bs = code_bits ls s @ bs'" using assms(2) decode_symbol_used [OF v(1)] by auto
  have l15: "ls ! s \<le> 15" using valid_le_15 [OF v(1)] s(1) by (simp add: used_def)
  then have le: "ls ! s \<le> m_num_bits st" using assms(4) by simp
  have b: "begins_code ls s (m_bit_buf st) (m_num_bits st)" using stream_begins [OF _ s(1)] assms(3) s(2) by simp
  then have "begins_code ls s (m_bit_buf st) (ls ! s)" using begins_code_take [OF b le order_refl] s(1) by (simp add: begins_code_def)
  from decode_entry(2) [OF assms(1) this] drop_bits_stream [OF assms(3) le] used_small [OF v(2) s(1)] l15 s(2) show ?thesis by auto
qed

end
