(* ===== verification/TinflRun.thy ===== *)
theory TinflRun
  imports TinflBits
begin

unbundle bit_operations_syntax

text \<open>
  A run of \<^verbatim>\<open>tinfl_decompress_mem_to_heap\<close>, step by step. Its loop calls the decompressor again each time the block is
  full, with a larger one, and the decompressor goes on where it stopped. So a run is a chain of steps of the
  decompressor and of growths of the block, all with the same final result (\<open>outcome\<close>); along the chain the bits still to be read
  and the bytes written so far are tracked.
\<close>

subsection \<open>Runs\<close>

definition no_flags :: tinfl_flags where
  "no_flags = \<lparr> FLAG_PARSE_ZLIB_HEADER = False, FLAG_USING_NON_WRAPPING_OUTPUT_BUF = False, FLAG_COMPUTE_ADLER32 = False \<rparr>"

definition call_env :: "bytes \<Rightarrow> nat \<Rightarrow> nat \<Rightarrow> tinfl_call" where
  "call_env src n cap = \<lparr> in_buf = src, in_end = n, out_end = cap, out_buf_size_mask = - 1,
     decomp_flags = no_flags\<lparr> FLAG_USING_NON_WRAPPING_OUTPUT_BUF := True \<rparr> \<rparr>"

lemma call_env_simps [simp]:
  "in_buf (call_env src n cap) = src" "in_end (call_env src n cap) = n" "out_end (call_env src n cap) = cap" "out_buf_size_mask (call_env src n cap) = - 1"
  "FLAG_PARSE_ZLIB_HEADER (decomp_flags (call_env src n cap)) = False" "FLAG_USING_NON_WRAPPING_OUTPUT_BUF (decomp_flags (call_env src n cap)) = True"
  by (simp_all add: call_env_def no_flags_def)

text \<open>A call that is running: where it began in the input and in the output, the size of the block, whether there is none, and
  the decompressor.\<close>

record heap_run =
  hr_in :: nat
  hr_out :: nat
  hr_cap :: nat
  hr_null :: bool
  hr_st :: tinfl_state

definition after_call :: "(bytes \<Rightarrow> nat \<Rightarrow> bytes option) \<Rightarrow> bytes \<Rightarrow> nat \<Rightarrow> bytes option \<Rightarrow> nat \<Rightarrow> nat \<Rightarrow> nat
    \<Rightarrow> tinfl_status \<times> nat \<times> nat \<times> tinfl_state \<Rightarrow> (bytes option \<times> nat) option" where
  "after_call realloc src n pBuf ofs cap out_len = (\<lambda>(status, n_in, n_out, decomp).
     if negative_status status \<or> status = STATUS_NEEDS_MORE_INPUT then Some (None, 0)
     else let pBuf = map_option (\<lambda>_. out_buf decomp) pBuf; ofs = ofs + n_in; out_len = out_len + n_out in
       if status = STATUS_DONE then Some (pBuf, out_len)
       else let new_cap = (let m = cap * 2 mod (size_max + 1) in if m < 128 then 128 else m) in
         case realloc (case pBuf of None \<Rightarrow> [] | Some b \<Rightarrow> b) new_cap of
           None \<Rightarrow> Some (None, 0)
         | Some b \<Rightarrow> mem_to_heap_loop realloc src n no_flags decomp (Some b) ofs new_cap out_len)"

definition outcome :: "(bytes \<Rightarrow> nat \<Rightarrow> bytes option) \<Rightarrow> bytes \<Rightarrow> nat \<Rightarrow> heap_run \<Rightarrow> (bytes option \<times> nat) option" where
  "outcome realloc src n C = Option.bind (tinfl_run (call_env src n (hr_cap C)) (hr_st C)) (\<lambda>r.
     after_call realloc src n (if hr_null C then None else Some []) (hr_in C) (hr_cap C) (hr_out C)
       (common_exit (no_flags\<lparr> FLAG_USING_NON_WRAPPING_OUTPUT_BUF := True \<rparr>) (hr_in C) (hr_out C) r))"

lemma loop_outcome:
  assumes "ofs \<le> n" "out_len \<le> cap" "pBuf = None \<Longrightarrow> out_len = 0"
  shows "mem_to_heap_loop realloc src n no_flags decomp pBuf ofs cap out_len
    = outcome realloc src n \<lparr> hr_in = ofs, hr_out = out_len, hr_cap = cap, hr_null = (pBuf = None),
        hr_st = decomp\<lparr> in_cur := ofs, out_cur := out_len, out_buf := case pBuf of None \<Rightarrow> [] | Some b \<Rightarrow> b \<rparr> \<rparr>"
proof -
  have next_out: "(if pBuf = None then 0 else out_len) = out_len" using assms(3) by simp
  have null: "after_call realloc src n pBuf = after_call realloc src n (if pBuf = None then None else Some [])"
    by (cases pBuf) (simp_all add: after_call_def fun_eq_iff)
  have env: "\<lparr> in_buf = src, in_end = ofs + (n - ofs), out_end = out_len + (cap - out_len), out_buf_size_mask = - 1,
     decomp_flags = no_flags\<lparr> FLAG_USING_NON_WRAPPING_OUTPUT_BUF := True \<rparr> \<rparr> = call_env src n cap"
    using assms(1,2) by (simp add: call_env_def)
  have "mem_to_heap_loop realloc src n no_flags decomp pBuf ofs cap out_len
    = Option.bind (tinfl_decompress decomp src ofs (size_sub n ofs) (case pBuf of None \<Rightarrow> [] | Some b \<Rightarrow> b)
        (if pBuf = None then 0 else out_len) (size_sub cap out_len) (no_flags\<lparr> FLAG_USING_NON_WRAPPING_OUTPUT_BUF := True \<rparr>))
      (after_call realloc src n pBuf ofs cap out_len)"
    by (subst mem_to_heap_loop.simps) (simp only: after_call_def)
  also have "tinfl_decompress decomp src ofs (size_sub n ofs) (case pBuf of None \<Rightarrow> [] | Some b \<Rightarrow> b)
        (if pBuf = None then 0 else out_len) (size_sub cap out_len) (no_flags\<lparr> FLAG_USING_NON_WRAPPING_OUTPUT_BUF := True \<rparr>)
      = map_option (common_exit (no_flags\<lparr> FLAG_USING_NON_WRAPPING_OUTPUT_BUF := True \<rparr>) ofs out_len)
          (tinfl_run (call_env src n cap) (decomp\<lparr> in_cur := ofs, out_cur := out_len, out_buf := case pBuf of None \<Rightarrow> [] | Some b \<Rightarrow> b \<rparr>))"
    unfolding tinfl_decompress_def next_out size_sub_le [OF assms(1)] size_sub_le [OF assms(2)] env [symmetric] by (simp add: Let_def)
  finally show ?thesis unfolding null outcome_def by (simp add: bind_map_option comp_def)
qed

lemma outcome_step:
  assumes "tinfl_step (call_env src n (hr_cap C)) (hr_st C) = Some (None, st)"
  shows "outcome realloc src n C = outcome realloc src n (C\<lparr> hr_st := st \<rparr>)"
  unfolding outcome_def by (subst tinfl_run.simps) (simp add: assms)

subsection \<open>What holds along a run\<close>

definition shape :: "tinfl_state \<Rightarrow> bool" where
  "shape st \<longleftrightarrow> length (m_tables st) = 3 \<and> (\<forall>i<3. length (m_code_size (m_tables st ! i)) = 288) \<and> length (m_table_sizes st) = 3 \<and> length (m_len_codes st) = 457"

definition holds :: "bytes \<Rightarrow> nat \<Rightarrow> heap_run \<Rightarrow> bool list \<Rightarrow> bytes \<Rightarrow> bool" where
  "holds src n C bs out \<longleftrightarrow> stream (call_env src n (hr_cap C)) (hr_st C) bs \<and> shape (hr_st C)
    \<and> length (out_buf (hr_st C)) = hr_cap C \<and> out_cur (hr_st C) = length out \<and> take (length out) (out_buf (hr_st C)) = out
    \<and> hr_in C \<le> in_cur (hr_st C) \<and> hr_out C \<le> length out \<and> length out \<le> hr_cap C \<and> (hr_null C \<longleftrightarrow> hr_cap C = 0) \<and> hr_cap C < 2 ^ 63"

text \<open>Memory can be had for data of a length; the block never gets twice as large.\<close>

definition allocates :: "(bytes \<Rightarrow> nat \<Rightarrow> bytes option) \<Rightarrow> nat \<Rightarrow> bool" where
  "allocates realloc limit \<longleftrightarrow> realloc_ok realloc \<and> (\<forall>old m. m \<le> max 128 (2 * limit) \<longrightarrow> realloc old m \<noteq> None)"

text \<open>A run goes on as another one.\<close>

definition leads :: "(bytes \<Rightarrow> nat \<Rightarrow> bytes option) \<Rightarrow> bytes \<Rightarrow> nat \<Rightarrow> heap_run \<Rightarrow> heap_run \<Rightarrow> bool" where
  "leads realloc src n C D \<longleftrightarrow> outcome realloc src n C = outcome realloc src n D"

lemma leads_refl [simp]: "leads realloc src n C C"
  by (simp add: leads_def)

lemma leads_trans [trans]: "leads realloc src n C D \<Longrightarrow> leads realloc src n D E \<Longrightarrow> leads realloc src n C E"
  by (simp add: leads_def)

lemma leads_step: "tinfl_step (call_env src n (hr_cap C)) (hr_st C) = Some (None, st) \<Longrightarrow> leads realloc src n C (C\<lparr> hr_st := st \<rparr>)"
  by (simp add: leads_def outcome_step)

lemma stream_more_room: "stream (call_env src n cap) st bs \<longleftrightarrow> stream (call_env src n cap') st bs"
  by (simp add: stream_def)

lemma stream_other: "stream env (st\<lparr> out_buf := b \<rparr>) bs \<longleftrightarrow> stream env st bs" "stream env (st\<lparr> m_state := p \<rparr>) bs \<longleftrightarrow> stream env st bs"
  by (simp_all add: stream_def)

text \<open>When the block is full, the run goes on in a larger one.\<close>

lemma leads_grow:
  assumes step: "tinfl_step (call_env src n (hr_cap C)) (hr_st C) = Some (Some STATUS_HAS_MORE_OUTPUT, hr_st C)"
    and ok: "holds src n C bs out" "hr_cap C = length out" "length out < limit" "allocates realloc limit"
  shows "\<exists>D b. leads realloc src n C D \<and> holds src n D bs out \<and> length out < hr_cap D \<and> hr_st D = (hr_st C)\<lparr> out_buf := b \<rparr>"
proof -
  let ?st = "hr_st C" let ?cap = "hr_cap C"
  let ?new = "if ?cap * 2 < 128 then 128 else ?cap * 2"
  have c: "?cap < 2 ^ 63" "out_cur ?st = ?cap" "length (out_buf ?st) = ?cap" "hr_out C \<le> ?cap" "hr_in C \<le> in_cur ?st" "hr_null C \<longleftrightarrow> ?cap = 0"
    using ok(1,2) by (auto simp: holds_def)
  obtain new where new: "(let m = ?cap * 2 mod (size_max + 1) in if m < 128 then 128 else m) = new" "new = ?new"
    using c(1) by (simp add: size_max_def Let_def)
  have buf: "(case (if hr_null C then None else Some (out_buf ?st)) of None \<Rightarrow> [] | Some b \<Rightarrow> b) = out_buf ?st" using c(3,6) by (cases "out_buf ?st") auto
  have "new \<le> max 128 (2 * limit)" using ok(2,3) by (auto simp: new(2))
  then obtain b where b: "realloc (out_buf ?st) new = Some b" using ok(4) by (fastforce simp: allocates_def)
  have ra: "realloc_ok realloc" using ok(4) by (simp add: allocates_def)
  have "?cap \<le> new" by (simp add: new(2))
  then have len: "length b = new" "new < 2 ^ 63" "take ?cap b = take ?cap (out_buf ?st)"
    using realloc_okD [OF ra b] c(3) by auto
  have in_n: "in_cur ?st \<le> n" using ok(1) by (simp add: holds_def stream_def)
  let ?D = "\<lparr> hr_in = in_cur ?st, hr_out = ?cap, hr_cap = new, hr_null = False, hr_st = ?st\<lparr> in_cur := in_cur ?st, out_cur := ?cap, out_buf := b \<rparr> \<rparr>"
  have st: "?st\<lparr> in_cur := in_cur ?st, out_cur := ?cap, out_buf := b \<rparr> = ?st\<lparr> out_buf := b \<rparr>" by (simp flip: c(2))
  have "outcome realloc src n C = after_call realloc src n (if hr_null C then None else Some []) (hr_in C) ?cap (hr_out C)
      (STATUS_HAS_MORE_OUTPUT, in_cur ?st - hr_in C, ?cap - hr_out C, ?st)"
    unfolding outcome_def by (subst tinfl_run.simps) (simp add: step common_exit_def no_flags_def c(2))
  also have "\<dots> = mem_to_heap_loop realloc src n no_flags ?st (Some b) (in_cur ?st) new ?cap"
  proof -
    have idx: "hr_in C + (in_cur ?st - hr_in C) = in_cur ?st" "hr_out C + (?cap - hr_out C) = ?cap" using c(4,5) by simp_all
    have r: "realloc [] new = Some b" if "hr_null C" using b c(3,6) that by simp
    show ?thesis unfolding after_call_def new(1) by (cases "hr_null C") (simp_all add: negative_status_def Let_def idx r b)
  qed
  also have "\<dots> = outcome realloc src n ?D" by (subst loop_outcome [OF in_n]) (auto simp: new(2))
  finally have "leads realloc src n C ?D" by (simp add: leads_def)
  moreover have "holds src n ?D bs out"
    using ok(1,2) len unfolding st by (simp add: holds_def stream_other shape_def new(2)) (auto simp: stream_def)
  moreover have "length out < hr_cap ?D" using ok(2) by (auto simp: new(2))
  ultimately show ?thesis using st by (intro exI [of _ ?D] exI [of _ b]) simp
qed

subsection \<open>Writing\<close>

lemma holds_upd [simp]:
  "holds src n (C\<lparr> hr_st := st\<lparr> m_state := p \<rparr> \<rparr>) bs out \<longleftrightarrow> holds src n (C\<lparr> hr_st := st \<rparr>) bs out"
  "holds src n (C\<lparr> hr_st := st\<lparr> m_counter := i \<rparr> \<rparr>) bs out \<longleftrightarrow> holds src n (C\<lparr> hr_st := st \<rparr>) bs out"
  "holds src n (C\<lparr> hr_st := st\<lparr> m_dist := k \<rparr> \<rparr>) bs out \<longleftrightarrow> holds src n (C\<lparr> hr_st := st \<rparr>) bs out"
  "holds src n (C\<lparr> hr_st := st\<lparr> m_dist_from_out_buf_start := k \<rparr> \<rparr>) bs out \<longleftrightarrow> holds src n (C\<lparr> hr_st := st \<rparr>) bs out"
  "holds src n (C\<lparr> hr_st := st\<lparr> m_final := k \<rparr> \<rparr>) bs out \<longleftrightarrow> holds src n (C\<lparr> hr_st := st \<rparr>) bs out"
  "holds src n (C\<lparr> hr_st := st\<lparr> m_type := i \<rparr> \<rparr>) bs out \<longleftrightarrow> holds src n (C\<lparr> hr_st := st \<rparr>) bs out"
  by (simp_all add: holds_def stream_def shape_def)

lemma holdsD:
  assumes "holds src n C bs out"
  shows "stream (call_env src n (hr_cap C)) (hr_st C) bs" "out_cur (hr_st C) = length out" "length (out_buf (hr_st C)) = hr_cap C"
    "take (length out) (out_buf (hr_st C)) = out" "length out \<le> hr_cap C" "hr_cap C < 2 ^ 63" "shape (hr_st C)"
  using assms by (simp_all add: holds_def)

lemma holds_advance:
  assumes "holds src n C bs out" "advance (hr_st C) st" "stream (call_env src n (hr_cap C)) st bs'"
  shows "holds src n (C\<lparr> hr_st := st \<rparr>) bs' out"
  using assms(1,3) advance_fields [OF assms(2)] by (simp add: holds_def shape_def)

text \<open>The tables and the mark of the last block stay as they are.\<close>

definition same_tables :: "tinfl_state \<Rightarrow> tinfl_state \<Rightarrow> bool" where
  "same_tables st st' \<longleftrightarrow> m_final st' = m_final st \<and> m_tables st' = m_tables st"

lemma same_tables_refl [simp]: "same_tables st st"
  by (simp add: same_tables_def)

lemma same_tables_trans [trans]: "same_tables a b \<Longrightarrow> same_tables b c \<Longrightarrow> same_tables a c"
  by (simp add: same_tables_def)

lemma same_tables_upd [simp]:
  "same_tables st (st'\<lparr> m_state := p \<rparr>) = same_tables st st'" "same_tables st (st'\<lparr> m_counter := i \<rparr>) = same_tables st st'" "same_tables st (st'\<lparr> m_dist := k \<rparr>) = same_tables st st'"
  "same_tables st (st'\<lparr> m_dist_from_out_buf_start := k \<rparr>) = same_tables st st'" "same_tables st (st'\<lparr> out_buf := b \<rparr>) = same_tables st st'" "same_tables st (st'\<lparr> out_cur := k \<rparr>) = same_tables st st'"
  by (simp_all add: same_tables_def)

lemma same_tables_advance: "advance st st' \<Longrightarrow> same_tables st st'"
  by (simp add: same_tables_def advance_fields)

lemma leads_room:
  assumes full: "\<And>env. out_end env \<le> out_cur (hr_st C) \<Longrightarrow> tinfl_step env (hr_st C) = Some (Some STATUS_HAS_MORE_OUTPUT, hr_st C)"
    and ok: "holds src n C bs out" "length out < limit" "allocates realloc limit"
  shows "\<exists>D b. leads realloc src n C D \<and> holds src n D bs out \<and> length out < hr_cap D \<and> hr_st D = (hr_st C)\<lparr> out_buf := b \<rparr>"
proof (cases "length out < hr_cap C")
  case True
  have "hr_st C = (hr_st C)\<lparr> out_buf := out_buf (hr_st C) \<rparr>" by simp
  then show ?thesis using True ok(1) leads_refl by blast
next
  case False
  then have "hr_cap C = length out" using holdsD(5) [OF ok(1)] by simp
  moreover from this have "tinfl_step (call_env src n (hr_cap C)) (hr_st C) = Some (Some STATUS_HAS_MORE_OUTPUT, hr_st C)"
    using full holdsD(2) [OF ok(1)] by simp
  ultimately show ?thesis using leads_grow ok by blast
qed

lemma put_byte_run:
  assumes "holds src n C bs out" "length out < hr_cap C"
  shows "\<exists>b. put_byte c (hr_st C) = Some ((hr_st C)\<lparr> out_buf := b, out_cur := length out + 1 \<rparr>)
    \<and> holds src n (C\<lparr> hr_st := (hr_st C)\<lparr> out_buf := b, out_cur := length out + 1 \<rparr> \<rparr>) bs (out @ [c])"
proof -
  have len: "length (out_buf (hr_st C)) = hr_cap C" and cur: "out_cur (hr_st C) = length out" using holdsD [OF assms(1)] by simp_all
  let ?b = "(out_buf (hr_st C))[length out := c]"
  have "take (Suc (length out)) ?b = out @ [c]"
    using holdsD(4) [OF assms(1)] assms(2) len by (simp add: take_Suc_conv_app_nth take_update_swap)
  then have "holds src n (C\<lparr> hr_st := (hr_st C)\<lparr> out_buf := ?b, out_cur := length out + 1 \<rparr> \<rparr>) bs (out @ [c])"
    using assms by (simp add: holds_def shape_def) (simp add: stream_def)
  moreover have "put_byte c (hr_st C) = Some ((hr_st C)\<lparr> out_buf := ?b, out_cur := length out + 1 \<rparr>)"
    using assms(2) len by (simp add: put_byte_def cur)
  ultimately show ?thesis by blast
qed

lemma step_full:
  "m_state st = Literal \<Longrightarrow> out_end env \<le> out_cur st \<Longrightarrow> tinfl_step env st = Some (Some STATUS_HAS_MORE_OUTPUT, st)"
  "m_state st = Copy_put \<Longrightarrow> out_end env \<le> out_cur st \<Longrightarrow> tinfl_step env st = Some (Some STATUS_HAS_MORE_OUTPUT, st)"
  "m_state st = Stored_put \<Longrightarrow> out_end env \<le> out_cur st \<Longrightarrow> tinfl_step env st = Some (Some STATUS_HAS_MORE_OUTPUT, st)"
  "m_state st = Stored_bytes \<Longrightarrow> m_counter st \<noteq> 0 \<Longrightarrow> out_end env \<le> out_cur st \<Longrightarrow> tinfl_step env st = Some (Some STATUS_HAS_MORE_OUTPUT, st)"
  by (simp_all add: tinfl_step_def step_literal_def step_copy_put_def step_stored_put_def step_stored_bytes_def cr_return_def)

text \<open>A literal.\<close>

lemma literal_run:
  assumes st: "m_state (hr_st C) = Literal" "m_counter (hr_st C) = int s" and ok: "holds src n C bs out" "length out < limit" "allocates realloc limit"
  shows "\<exists>D. leads realloc src n C D \<and> holds src n D bs (out @ [word_of_nat s]) \<and> m_state (hr_st D) = Codes \<and> same_tables (hr_st C) (hr_st D)"
proof -
  obtain D b where D: "leads realloc src n C D" "holds src n D bs out" "length out < hr_cap D" "hr_st D = (hr_st C)\<lparr> out_buf := b \<rparr>"
    using leads_room [OF step_full(1) [OF st(1)] ok] by blast
  let ?c = "word_of_nat s :: u8"
  obtain b' where b': "put_byte ?c (hr_st D) = Some ((hr_st D)\<lparr> out_buf := b', out_cur := length out + 1 \<rparr>)"
    "holds src n (D\<lparr> hr_st := (hr_st D)\<lparr> out_buf := b', out_cur := length out + 1 \<rparr> \<rparr>) bs (out @ [?c])"
    using put_byte_run [OF D(2,3)] by blast
  let ?E = "D\<lparr> hr_st := (hr_st D)\<lparr> out_buf := b', out_cur := length out + 1, m_state := Codes \<rparr> \<rparr>"
  have "tinfl_step (call_env src n (hr_cap D)) (hr_st D) = Some (None, hr_st ?E)"
    using st D(3) holdsD(2) [OF D(2)] b'(1) by (simp add: tinfl_step_def step_literal_def D(4) goto_def)
  then have "leads realloc src n D ?E" using leads_step by fastforce
  moreover have "holds src n ?E bs (out @ [?c])" using b'(2) by simp
  ultimately show ?thesis using leads_trans [OF D(1)] by (intro exI [of _ ?E]) (simp add: D(4))
qed

subsection \<open>Matches\<close>

lemma length_repeat_match [simp]: "length (repeat_match k d out) = length out + k"
  by (induction k arbitrary: out) simp_all

lemma match_source_run:
  assumes "m_dist_from_out_buf_start st = k" "m_dist st = d" "d \<le> k" "k < 2 ^ 64"
  shows "match_source (call_env src n cap) st = k - d"
proof -
  have "(word_of_nat k - word_of_nat d :: u64) = word_of_nat (k - d)" using assms(3) by (simp add: of_nat_diff)
  moreover have "take_bit 64 (k - d) = k - d" using assms(4) by (intro take_bit_nat_eq_self) simp
  ultimately show ?thesis using assms(1,2) by (simp add: match_source_def unsigned_of_nat)
qed

lemma copy_run:
  assumes "allocates realloc limit" "1 \<le> d"
  shows "m_state (hr_st C) = Copy \<Longrightarrow> m_counter (hr_st C) = int k \<Longrightarrow> m_dist (hr_st C) = d \<Longrightarrow> m_dist_from_out_buf_start (hr_st C) = length out \<Longrightarrow>
    holds src n C bs out \<Longrightarrow> d \<le> length out \<Longrightarrow> length out + k \<le> limit \<Longrightarrow>
    \<exists>D. leads realloc src n C D \<and> holds src n D bs (repeat_match k d out) \<and> m_state (hr_st D) = Codes \<and> same_tables (hr_st C) (hr_st D)"
proof (induction k arbitrary: C out)
  case 0
  let ?D = "C\<lparr> hr_st := (hr_st C)\<lparr> m_counter := - 1, m_state := Codes \<rparr> \<rparr>"
  have "tinfl_step (call_env src n (hr_cap C)) (hr_st C) = Some (None, hr_st ?D)"
    using 0 by (simp add: tinfl_step_def step_copy_def goto_def)
  then have "leads realloc src n C ?D" using leads_step by fastforce
  then show ?case using 0 by (intro exI [of _ ?D]) simp
next
  case (Suc k)
  let ?C1 = "C\<lparr> hr_st := (hr_st C)\<lparr> m_counter := int k, m_state := Copy_put \<rparr> \<rparr>"
  have "tinfl_step (call_env src n (hr_cap C)) (hr_st C) = Some (None, hr_st ?C1)"
    using Suc.prems by (simp add: tinfl_step_def step_copy_def goto_def Let_def)
  then have 1: "leads realloc src n C ?C1" using leads_step by fastforce
  have h1: "holds src n ?C1 bs out" "length out < limit" using Suc.prems by simp_all
  obtain D b where D: "leads realloc src n ?C1 D" "holds src n D bs out" "length out < hr_cap D" "hr_st D = (hr_st ?C1)\<lparr> out_buf := b \<rparr>"
    using leads_room [OF step_full(2) h1 assms(1)] by auto
  let ?c = "out ! (length out - d)"
  obtain b' where b': "put_byte ?c (hr_st D) = Some ((hr_st D)\<lparr> out_buf := b', out_cur := length out + 1 \<rparr>)"
    "holds src n (D\<lparr> hr_st := (hr_st D)\<lparr> out_buf := b', out_cur := length out + 1 \<rparr> \<rparr>) bs (out @ [?c])"
    using put_byte_run [OF D(2,3)] by blast
  let ?E = "D\<lparr> hr_st := (hr_st D)\<lparr> out_buf := b', out_cur := length out + 1, m_dist_from_out_buf_start := length out + 1, m_state := Copy \<rparr> \<rparr>"
  have src: "match_source (call_env src n (hr_cap D)) (hr_st D) = length out - d"
    using Suc.prems holdsD(5,6) [OF Suc.prems(5)] by (intro match_source_run) (simp_all add: D(4))
  have "take (length out) b = out" "length b = hr_cap D" using holdsD(3,4) [OF D(2)] by (simp_all add: D(4))
  then have get: "array_get b (length out - d) = Some ?c"
    using D(3) assms(2) Suc.prems(6) nth_take [of "length out - d" "length out" b] by simp
  have "tinfl_step (call_env src n (hr_cap D)) (hr_st D) = Some (None, hr_st ?E)"
    using Suc.prems D(3) holdsD(2) [OF D(2)] b'(1) src get by (simp add: tinfl_step_def step_copy_put_def D(4) goto_def)
  then have 2: "leads realloc src n D ?E" using leads_step by fastforce
  have hE: "holds src n ?E bs (out @ [?c])" using b'(2) by simp
  obtain F where F: "leads realloc src n ?E F" "holds src n F bs (repeat_match k d (out @ [?c]))" "m_state (hr_st F) = Codes" "same_tables (hr_st ?E) (hr_st F)"
    using Suc.IH [OF _ _ _ _ hE] Suc.prems by (auto simp: D(4))
  have "same_tables (hr_st C) (hr_st ?E)" by (simp add: D(4))
  then have "same_tables (hr_st C) (hr_st F)" using F(4) by (rule same_tables_trans)
  moreover have "leads realloc src n C F" using leads_trans [OF 1 leads_trans [OF D(1) leads_trans [OF 2 F(1)]]] .
  moreover have "repeat_match (Suc k) d out = repeat_match k d (out @ [?c])" by simp
  ultimately show ?case using F(2,3) by metis
qed

lemma copy_bytes_add: "copy_bytes (k + m) dst src buf = Option.bind (copy_bytes k dst src buf) (copy_bytes m (dst + k) (src + k))"
  by (induction k arbitrary: dst src buf) (simp_all add: bind_split split: option.split)

lemma copy_bytes_run:
  "1 \<le> d \<Longrightarrow> d \<le> length out \<Longrightarrow> take (length out) buf = out \<Longrightarrow> length out + k \<le> length buf \<Longrightarrow>
    \<exists>buf'. copy_bytes k (length out) (length out - d) buf = Some buf' \<and> length buf' = length buf \<and> take (length out + k) buf' = repeat_match k d out"
proof (induction k arbitrary: out buf)
  case (Suc k)
  let ?c = "out ! (length out - d)" let ?buf = "buf[length out := ?c]"
  have get: "array_get buf (length out - d) = Some ?c"
    using Suc.prems nth_take [of "length out - d" "length out" buf] by simp
  have "take (length (out @ [?c])) ?buf = out @ [?c]" using Suc.prems by (simp add: take_Suc_conv_app_nth take_update_swap)
  then obtain buf' where "copy_bytes k (length (out @ [?c])) (length (out @ [?c]) - d) ?buf = Some buf'" "length buf' = length ?buf"
    "take (length (out @ [?c]) + k) buf' = repeat_match k d (out @ [?c])"
    using Suc.IH [of "out @ [?c]" ?buf] Suc.prems by auto
  moreover have "length (out @ [?c]) - d = Suc (length out - d)" using Suc.prems by simp
  ultimately show ?case using Suc.prems get by simp
qed simp

text \<open>Three bytes in each round, then what is left: the same as one by one, if there are three at least.\<close>

lemma copy_match_run:
  "m_counter st = int k \<Longrightarrow> 3 \<le> k \<Longrightarrow> copy_bytes k (out_cur st) m (out_buf st) = Some buf \<Longrightarrow>
    \<exists>c. copy_match m st = Some (st\<lparr> out_buf := buf, out_cur := out_cur st + k, m_counter := c \<rparr>)"
proof (induction k arbitrary: st m rule: less_induct)
  case (less k)
  obtain r where r: "k = 3 + r" using less.prems(2) le_Suc_ex by blast
  obtain b1 where b1: "copy_bytes 3 (out_cur st) m (out_buf st) = Some b1" "copy_bytes r (out_cur st + 3) (m + 3) b1 = Some buf"
    using less.prems(3) unfolding r copy_bytes_add by (auto simp: bind_eq_Some_conv)
  let ?st = "st\<lparr> out_buf := b1, out_cur := out_cur st + 3, m_counter := int r \<rparr>"
  have step: "copy_match m st = (if 2 < int r then copy_match (m + 3) ?st
      else if 0 < int r then map_option (\<lambda>out. ?st\<lparr> out_buf := out, out_cur := out_cur ?st + nat (m_counter ?st) \<rparr>)
             (copy_bytes (if 1 < int r then 2 else 1) (out_cur ?st) (m + 3) b1)
      else Some ?st)"
    using less.prems(1) by (subst copy_match.simps) (simp add: b1(1) r Let_def)
  consider "3 \<le> r" | "r = 2" | "r = 1" | "r = 0" by linarith
  then show ?case
  proof cases
    case 1
    then obtain c where "copy_match (m + 3) ?st = Some (?st\<lparr> out_buf := buf, out_cur := out_cur ?st + r, m_counter := c \<rparr>)"
      using less.IH [of r ?st "m + 3"] b1(2) r by auto
    then show ?thesis using 1 by (intro exI [of _ c]) (simp add: step r add.assoc)
  qed (use b1(2) in \<open>auto simp: step r numeral_3_eq_3 numeral_2_eq_2 intro!: exI [of _ "int r"]\<close>)
qed

end
