(* ===== verification/TinflCodes.thy ===== *)
theory TinflCodes
  imports TinflRun
begin

unbundle bit_operations_syntax

text \<open>
  Compressed data: the loop over the codes with its fast path, matches, and the end of a block, against \<open>inflate_codes\<close>.
\<close>

subsection \<open>Symbols\<close>

definition ready :: "nat list \<Rightarrow> nat list \<Rightarrow> tinfl_state \<Rightarrow> bool" where
  "ready lit dist st \<longleftrightarrow> decodes lit (m_tables st ! 0) \<and> decodes dist (m_tables st ! 1)"

definition at_codes :: "bytes \<Rightarrow> nat \<Rightarrow> heap_run \<Rightarrow> bool list \<Rightarrow> bytes \<Rightarrow> bool" where
  "at_codes src n C bs out \<longleftrightarrow> m_state (hr_st C) = Codes \<and> holds src n C bs out"

definition at_symbol :: "bytes \<Rightarrow> nat \<Rightarrow> heap_run \<Rightarrow> nat \<Rightarrow> bool list \<Rightarrow> bytes \<Rightarrow> bool" where
  "at_symbol src n C s bs out \<longleftrightarrow> m_state (hr_st C) = Symbol \<and> m_counter (hr_st C) mod 512 = int s \<and> holds src n C bs out"

lemma same_tables_ready: "same_tables st st' \<Longrightarrow> ready lit dist st \<Longrightarrow> ready lit dist st'"
  by (simp add: same_tables_def ready_def)

text \<open>An entry of a table stands for its symbol, with or without the length above it.\<close>

lemma entry_symbol:
  assumes "e = int s \<or> e = int (l * 512 + s)" "s < 288"
  shows "bit e 8 \<longleftrightarrow> 256 \<le> s" "e mod 512 = int s" "(word_of_int e :: u8) = word_of_nat s"
proof -
  obtain k where k: "e = int (k * 512 + s)" using assms(1) by (metis add_0 mult_0)
  have "e div 256 = int ((k * 512 + s) div 256)" unfolding k by (simp only: zdiv_int of_nat_numeral)
  also have "(k * 512 + s) div 256 = 2 * k + s div 256" by (simp add: div_add1_eq [of "k * 512"])
  finally have "bit e 8 \<longleftrightarrow> odd (s div 256)" by (simp add: bit_iff_odd)
  moreover have "odd (s div 256) \<longleftrightarrow> 256 \<le> s" using assms(2) by (cases "256 \<le> s") (simp_all add: div_nat_eqI [of 256 1 s])
  ultimately show "bit e 8 \<longleftrightarrow> 256 \<le> s" by simp
  show "e mod 512 = int s" using assms(2) unfolding k by (simp flip: of_nat_mod zmod_int)
  have "e mod 256 = int s mod 256" unfolding k by (simp add: mod_add_left_eq [symmetric] mod_mult_right_eq [symmetric])
  then have "(word_of_int e :: u8) = word_of_int (int s)" by (simp only: word_of_int_eq_iff take_bit_eq_mod) simp
  then show "(word_of_int e :: u8) = word_of_nat s" by simp
qed

lemma codes_slow:
  assumes ok: "at_codes src n C bs out" "decodes lit (m_tables (hr_st C) ! 0)" "decode_symbol lit bs = Some (s, bs1)"
    and slow: "n - in_cur (hr_st C) < 4 \<or> hr_cap C - length out < 2"
    and room: "s < 256 \<Longrightarrow> length out < limit" "allocates realloc limit"
  shows "\<exists>D. leads realloc src n C D \<and> same_tables (hr_st C) (hr_st D)
    \<and> (if 256 \<le> s then at_symbol src n D s bs1 out else at_codes src n D bs1 (out @ [word_of_nat s]))"
proof -
  let ?st = "hr_st C" and ?env = "call_env src n (hr_cap C)"
  have h: "holds src n C bs out" "m_state ?st = Codes" using ok(1) by (simp_all add: at_codes_def)
  note hd = holdsD [OF h(1)]
  obtain st1 where st1: "huff_decode ?env (m_tables ?st ! 0) ?st = Some (s, st1)" "stream ?env st1 bs1" "advance ?st st1"
    using huff_decode_run [OF ok(2,3) hd(1)] by blast
  have small: "s < 288" using ok(2,3) decode_symbol_used [of lit bs s bs1] used_small [of lit s] by (auto simp: decodes_def)
  have tab: "table 0 ?st = Some (m_tables ?st ! 0)" using hd(7) by (simp add: table_def shape_def)
  let ?st2 = "st1\<lparr> m_counter := int s, m_state := if 256 \<le> s then Symbol else Literal \<rparr>"
  have "tinfl_step ?env ?st = Some (None, ?st2)"
    using slow hd(2) by (simp add: tinfl_step_def h(2) step_codes_def tab bind2_def st1(1) goto_def)
  then have 1: "leads realloc src n C (C\<lparr> hr_st := ?st2 \<rparr>)" by (rule leads_step)
  have h2: "holds src n (C\<lparr> hr_st := ?st2 \<rparr>) bs1 out" using holds_advance [OF h(1) st1(3,2)] by simp
  have k: "same_tables ?st ?st2" using same_tables_advance [OF st1(3)] by simp
  show ?thesis
  proof (cases "256 \<le> s")
    case True
    then have "at_symbol src n (C\<lparr> hr_st := ?st2 \<rparr>) s bs1 out" using h2 small by (simp add: at_symbol_def)
    then show ?thesis using 1 k True by (intro exI [of _ "C\<lparr> hr_st := ?st2 \<rparr>"]) simp
  next
    case False
    then have st2: "m_state (hr_st (C\<lparr> hr_st := ?st2 \<rparr>)) = Literal" "m_counter (hr_st (C\<lparr> hr_st := ?st2 \<rparr>)) = int s" by simp_all
    have "length out < limit" using room(1) False by simp
    from literal_run [OF st2 h2 this room(2)] obtain D where D: "leads realloc src n (C\<lparr> hr_st := ?st2 \<rparr>) D"
      "holds src n D bs1 (out @ [word_of_nat s])" "m_state (hr_st D) = Codes" "same_tables (hr_st (C\<lparr> hr_st := ?st2 \<rparr>)) (hr_st D)" by blast
    have "same_tables ?st (hr_st D)" using same_tables_trans [OF k] D(4) by simp
    then show ?thesis using leads_trans [OF 1 D(1)] D(2,3) False by (intro exI [of _ D]) (simp add: at_codes_def)
  qed
qed

text \<open>The fast path: one symbol, or two if the first is a literal.\<close>

lemma put_two:
  assumes "holds src n C bs out" "length out + 1 < hr_cap C"
  shows "\<exists>st1 st2. put_byte c (hr_st C) = Some st1 \<and> holds src n (C\<lparr> hr_st := st1 \<rparr>) bs (out @ [c]) \<and> same_tables (hr_st C) st1
    \<and> put_byte c' st1 = Some st2 \<and> holds src n (C\<lparr> hr_st := st2 \<rparr>) bs (out @ [c, c']) \<and> same_tables (hr_st C) st2"
proof -
  have room: "length out < hr_cap C" using assms(2) by simp
  obtain b where b: "put_byte c (hr_st C) = Some ((hr_st C)\<lparr> out_buf := b, out_cur := length out + 1 \<rparr>)"
    "holds src n (C\<lparr> hr_st := (hr_st C)\<lparr> out_buf := b, out_cur := length out + 1 \<rparr> \<rparr>) bs (out @ [c])"
    using put_byte_run [OF assms(1) room] by blast
  let ?st1 = "(hr_st C)\<lparr> out_buf := b, out_cur := length out + 1 \<rparr>"
  obtain b' where b': "put_byte c' ?st1 = Some (?st1\<lparr> out_buf := b', out_cur := length (out @ [c]) + 1 \<rparr>)"
    "holds src n (C\<lparr> hr_st := ?st1\<lparr> out_buf := b', out_cur := length (out @ [c]) + 1 \<rparr> \<rparr>) bs ((out @ [c]) @ [c'])"
    using put_byte_run [OF b(2), of c'] assms(2) by auto
  show ?thesis using b b' by (intro exI [of _ ?st1] exI [of _ "?st1\<lparr> out_buf := b', out_cur := length (out @ [c]) + 1 \<rparr>"]) (simp del: holds_upd)
qed

lemma codes_fast:
  assumes ok: "at_codes src n C bs out" "decodes lit (m_tables (hr_st C) ! 0)" "decode_symbol lit bs = Some (s, bs1)"
    and fast: "4 \<le> n - in_cur (hr_st C)" "2 \<le> hr_cap C - length out"
    and more: "s < 256 \<Longrightarrow> decode_symbol lit bs1 = Some (s2, bs2)"
  shows "\<exists>D. leads realloc src n C D \<and> same_tables (hr_st C) (hr_st D)
    \<and> (if 256 \<le> s then at_symbol src n D s bs1 out
      else if 256 \<le> s2 then at_symbol src n D s2 bs2 (out @ [word_of_nat s]) else at_codes src n D bs2 (out @ [word_of_nat s, word_of_nat s2]))"
proof -
  let ?st = "hr_st C" and ?env = "call_env src n (hr_cap C)" and ?tab = "m_tables (hr_st C) ! 0"
  have h: "holds src n C bs out" "m_state ?st = Codes" using ok(1) by (simp_all add: at_codes_def)
  note hd = holdsD [OF h(1)]
  have tab: "table 0 ?st = Some ?tab" using hd(7) by (simp add: table_def shape_def)
  have "in_cur ?st + 4 \<le> n" using fast(1) by linarith
  then obtain st1 where st1: "(if m_num_bits ?st < 30 then read_ahead ?env 4 ?st else Some ?st) = Some st1" "stream ?env st1 bs" "advance ?st st1" "30 \<le> m_num_bits st1"
    using read_ahead_run [OF hd(1), of 4] hd(1) by (cases "m_num_bits ?st < 30") auto
  obtain e where e: "huff_entry ?tab (m_bit_buf st1) = Some (e, lit ! s)" "e = int s \<or> e = int (lit ! s * 512 + s)" "s < 288" "lit ! s \<le> 15"
    "stream ?env (drop_bits (lit ! s) st1) bs1" "advance st1 (drop_bits (lit ! s) st1)" "m_num_bits (drop_bits (lit ! s) st1) = m_num_bits st1 - lit ! s"
    using huff_entry_run [OF ok(2,3) st1(2)] st1(4) by auto
  note es = entry_symbol [OF e(2,3)]
  let ?st2 = "(drop_bits (lit ! s) st1)\<lparr> m_counter := e \<rparr>"
  have adv2: "advance ?st (drop_bits (lit ! s) st1)" using advance_trans [OF st1(3) e(6)] .
  have first: "tinfl_step ?env ?st = (if 256 \<le> s then goto Symbol ?st2
      else bind2 (huff_entry ?tab (m_bit_buf ?st2)) (\<lambda>sym2 code_len.
        let st = drop_bits code_len ?st2 in
        Option.bind (put_byte (word_of_nat s) st) (\<lambda>st.
        if bit sym2 8 then goto Symbol (st\<lparr> m_counter := sym2 \<rparr>) else Option.bind (put_byte (word_of_int sym2) st) (goto Codes))))"
  proof -
    have "\<not> (n - in_cur ?st < 4 \<or> hr_cap C - out_cur ?st < 2)" using fast hd(2) by simp
    then have "step_codes ?env ?st = bind2 (huff_entry ?tab (m_bit_buf st1)) (\<lambda>counter code_len.
          let st = (drop_bits code_len st1)\<lparr> m_counter := counter \<rparr> in
          if bit counter 8 then goto Symbol st
          else bind2 (huff_entry ?tab (m_bit_buf st)) (\<lambda>sym2 code_len.
               let st = drop_bits code_len st in
               Option.bind (put_byte (word_of_int counter) st) (\<lambda>st.
               if bit sym2 8 then goto Symbol (st\<lparr> m_counter := sym2 \<rparr>)
               else Option.bind (put_byte (word_of_int sym2) st) (goto Codes))))"
      unfolding step_codes_def tab by (simp only: call_env_simps if_False bind.bind_lunit st1(1))
    then show ?thesis unfolding tinfl_step_def h(2) by (simp add: bind2_def [of "Some _"] e(1) es(1,3) Let_def)
  qed
  show ?thesis
  proof (cases "256 \<le> s")
    case True
    let ?D = "C\<lparr> hr_st := ?st2\<lparr> m_state := Symbol \<rparr> \<rparr>"
    have "leads realloc src n C ?D" using first True by (intro leads_step) (simp add: goto_def)
    moreover have "at_symbol src n ?D s bs1 out" using holds_advance [OF h(1) adv2 e(5)] es(2) by (simp add: at_symbol_def)
    ultimately show ?thesis using True same_tables_advance [OF adv2] by (intro exI [of _ ?D]) simp
  next
    case False
    have len: "15 \<le> m_num_bits (drop_bits (lit ! s) st1)" using e(4,7) st1(4) by simp
    obtain f where f: "huff_entry ?tab (m_bit_buf (drop_bits (lit ! s) st1)) = Some (f, lit ! s2)" "f = int s2 \<or> f = int (lit ! s2 * 512 + s2)" "s2 < 288"
      "stream ?env (drop_bits (lit ! s2) (drop_bits (lit ! s) st1)) bs2" "advance (drop_bits (lit ! s) st1) (drop_bits (lit ! s2) (drop_bits (lit ! s) st1))"
      using huff_entry_run [OF ok(2) more e(5) len] False by auto
    note fs = entry_symbol [OF f(2,3)]
    let ?st3 = "drop_bits (lit ! s2) ?st2"
    have st3: "?st3 = (drop_bits (lit ! s2) (drop_bits (lit ! s) st1))\<lparr> m_counter := e \<rparr>" by (simp add: drop_bits_def)
    have adv3: "advance ?st (drop_bits (lit ! s2) (drop_bits (lit ! s) st1))" using advance_trans [OF adv2 f(5)] .
    have h3: "holds src n (C\<lparr> hr_st := ?st3 \<rparr>) bs2 out" using holds_advance [OF h(1) adv3 f(4)] by (simp add: st3)
    have k3: "same_tables ?st ?st3" using same_tables_advance [OF adv3] by (simp add: st3)
    have "length out + 1 < hr_cap C" using fast(2) by linarith
    then have room: "length out + 1 < hr_cap (C\<lparr> hr_st := ?st3 \<rparr>)" by simp
    obtain st4 st5 where put: "put_byte (word_of_nat s) ?st3 = Some st4" "holds src n (C\<lparr> hr_st := st4 \<rparr>) bs2 (out @ [word_of_nat s])" "same_tables ?st3 st4"
      "put_byte (word_of_nat s2) st4 = Some st5" "holds src n (C\<lparr> hr_st := st5 \<rparr>) bs2 (out @ [word_of_nat s, word_of_nat s2])" "same_tables ?st3 st5"
      using put_two [OF h3 room, of "word_of_nat s" "word_of_nat s2"] by auto
    have step: "tinfl_step ?env ?st = (if 256 \<le> s2 then goto Symbol (st4\<lparr> m_counter := f \<rparr>) else goto Codes st5)"
      using first False f(1) fs(1,3) put(1,4) by (simp add: bind2_def Let_def)
    show ?thesis
    proof (cases "256 \<le> s2")
      case True
      let ?D = "C\<lparr> hr_st := st4\<lparr> m_counter := f, m_state := Symbol \<rparr> \<rparr>"
      have "leads realloc src n C ?D" using step True by (intro leads_step) (simp add: goto_def)
      moreover have "at_symbol src n ?D s2 bs2 (out @ [word_of_nat s])" using put(2) fs(2) by (simp add: at_symbol_def)
      ultimately show ?thesis using True False same_tables_trans [OF k3 put(3)] by (intro exI [of _ ?D]) simp
    next
      case lit: False
      let ?D = "C\<lparr> hr_st := st5\<lparr> m_state := Codes \<rparr> \<rparr>"
      have "leads realloc src n C ?D" using step lit by (intro leads_step) (simp add: goto_def)
      moreover have "at_codes src n ?D bs2 (out @ [word_of_nat s, word_of_nat s2])" using put(5) by (simp add: at_codes_def)
      ultimately show ?thesis using lit False same_tables_trans [OF k3 put(6)] by (intro exI [of _ ?D]) simp
    qed
  qed
qed

subsection \<open>Matches\<close>

lemma length_codes_table:
  assumes "array_get length_codes i = Some (extra, base)"
  shows "array_get s_length_extra i = Some extra" "array_get s_length_base i = Some (int base)" "extra \<le> 16" "3 \<le> base"
proof -
  have i: "i < 29" "length_codes ! i = (extra, base)" using assms by (auto simp: array_get_def length_codes_def split: if_splits)
  have eq: "length_codes = zip (take 29 s_length_extra) (map nat (take 29 s_length_base))"
    by (simp add: length_codes_def s_length_extra_def s_length_base_def)
  have len: "length s_length_base = 31" "length s_length_extra = 31" by (simp_all add: s_length_base_def s_length_extra_def)
  have "length_codes ! i = (s_length_extra ! i, nat (s_length_base ! i))" using i(1) unfolding eq by (simp add: len)
  then have nth: "s_length_extra ! i = extra" "nat (s_length_base ! i) = base" using i(2) by simp_all
  have all: "list_all (\<lambda>b. 3 \<le> b) (take 29 s_length_base)" "list_all (\<lambda>b. b \<le> 16) s_length_extra"
    by (simp_all add: s_length_base_def s_length_extra_def)
  have "3 \<le> s_length_base ! i" "s_length_extra ! i \<le> 16" using all i(1) len by (auto simp: list_all_length)
  then show "array_get s_length_extra i = Some extra" "array_get s_length_base i = Some (int base)" "extra \<le> 16" "3 \<le> base"
    using nth i(1) len by auto
qed

lemma dist_codes_table:
  assumes "array_get dist_codes i = Some (extra, base)"
  shows "array_get s_dist_extra i = Some extra" "array_get s_dist_base i = Some base" "extra \<le> 16" "1 \<le> base"
proof -
  have i: "i < 30" "dist_codes ! i = (extra, base)" using assms by (auto simp: array_get_def dist_codes_def split: if_splits)
  have eq: "dist_codes = zip (take 30 s_dist_extra) (take 30 s_dist_base)" by (simp add: dist_codes_def s_dist_extra_def s_dist_base_def)
  have len: "length s_dist_base = 32" "length s_dist_extra = 32" by (simp_all add: s_dist_base_def s_dist_extra_def)
  have "dist_codes ! i = (s_dist_extra ! i, s_dist_base ! i)" using i(1) unfolding eq by (simp add: len)
  then have nth: "s_dist_extra ! i = extra" "s_dist_base ! i = base" using i(2) by simp_all
  have all: "list_all (\<lambda>b. 1 \<le> b) (take 30 s_dist_base)" "list_all (\<lambda>b. b \<le> 16) s_dist_extra"
    by (simp_all add: s_dist_base_def s_dist_extra_def)
  have "1 \<le> s_dist_base ! i" "s_dist_extra ! i \<le> 16" using all i(1) len by (auto simp: list_all_length)
  then show "array_get s_dist_extra i = Some extra" "array_get s_dist_base i = Some base" "extra \<le> 16" "1 \<le> base"
    using nth i(1) len by auto
qed

lemma extra_bits_run:
  assumes "stream env st bs" "read_bits extra bs = Some (x, bs')" "extra \<le> 16"
  shows "\<exists>st'. extra_bits env extra st = Some (x, st') \<and> stream env st' bs' \<and> advance st st'"
proof (cases "extra = 0")
  case True
  then have "x = 0" "bs' = bs" using assms(2) by (auto simp: read_bits_Some)
  then show ?thesis using True assms(1) by (simp add: extra_bits_def)
next
  case False
  then show ?thesis using get_bits_run [OF assms] by (simp add: extra_bits_def)
qed

text \<open>A match, whether it is copied at once or byte by byte.\<close>

lemma start_match_run:
  assumes h: "holds src n (C\<lparr> hr_st := st \<rparr>) bs out" and st: "m_counter st = int k" "m_dist st = d" and d: "1 \<le> d" "d \<le> length out" "3 \<le> k"
    and room: "length out + k \<le> limit" "allocates realloc limit"
    and step: "tinfl_step (call_env src n (hr_cap C)) (hr_st C) = start_match (call_env src n (hr_cap C)) st"
  shows "\<exists>D. leads realloc src n C D \<and> same_tables st (hr_st D) \<and> at_codes src n D bs (repeat_match k d out)"
proof -
  let ?env = "call_env src n (hr_cap C)" and ?st = "st\<lparr> m_dist_from_out_buf_start := length out \<rparr>"
  have cur: "out_cur st = length out" "length (out_buf st) = hr_cap C" "take (length out) (out_buf st) = out" "length out < 2 ^ 64"
    using holdsD [OF h] by simp_all
  have ms: "match_source ?env ?st = length out - d" using st(2) d(2) cur(4) by (intro match_source_run) simp_all
  show ?thesis
  proof (cases "length out + k \<le> hr_cap C")
    case False
    let ?D = "C\<lparr> hr_st := ?st\<lparr> m_state := Copy \<rparr> \<rparr>"
    have "start_match ?env st = goto Copy ?st"
      using False st d cur(1) ms by (simp add: start_match_def Let_def)
    then have 1: "leads realloc src n C ?D" using step by (intro leads_step) (simp add: goto_def)
    have hD: "holds src n ?D bs out" using h by simp
    obtain E where E: "leads realloc src n ?D E" "holds src n E bs (repeat_match k d out)" "m_state (hr_st E) = Codes" "same_tables (hr_st ?D) (hr_st E)"
      using copy_run [OF room(2) d(1) _ _ _ _ hD d(2) room(1)] st by auto
    have "same_tables st (hr_st E)" using E(4) same_tables_trans [of st "hr_st ?D"] by simp
    then show ?thesis using leads_trans [OF 1 E(1)] E(2,3) by (intro exI [of _ E]) (simp add: at_codes_def)
  next
    case True
    obtain buf where buf: "copy_bytes k (length out) (length out - d) (out_buf st) = Some buf" "length buf = hr_cap C" "take (length out + k) buf = repeat_match k d out"
      using copy_bytes_run [OF d(1,2) cur(3)] True cur(2) by auto
    obtain c where c: "copy_match (length out - d) ?st = Some (?st\<lparr> out_buf := buf, out_cur := length out + k, m_counter := c \<rparr>)"
      using copy_match_run [of ?st k "length out - d" buf] st(1) d(3) buf(1) cur(1) by auto
    let ?D = "C\<lparr> hr_st := ?st\<lparr> out_buf := buf, out_cur := length out + k, m_counter := c, m_state := Codes \<rparr> \<rparr>"
    have "start_match ?env st = Some (None, hr_st ?D)"
      using True st d cur(1) ms c by (simp add: start_match_def Let_def goto_def max_def)
    then have "leads realloc src n C ?D" using step by (intro leads_step) simp
    moreover have "holds src n ?D bs (repeat_match k d out)"
      using h True buf(2,3) cur(1) by (simp add: holds_def shape_def) (simp add: stream_def)
    ultimately show ?thesis by (intro exI [of _ ?D]) (simp add: at_codes_def)
  qed
qed

end
