(* ===== verification/TinflLoop.thy ===== *)
theory TinflLoop
  imports TinflCodes
begin

unbundle bit_operations_syntax

text \<open>
  The loop over the codes of a block, against \<open>inflate_codes\<close>.
\<close>

subsection \<open>Matches in the data\<close>

lemma read_value_Some:
  assumes "read_value codes i bs = Some (v, bs')"
  obtains extra base x where "array_get codes i = Some (extra, base)" "read_bits extra bs = Some (x, bs')" "v = base + x"
  using assms by (auto simp: read_value_def bind_eq_Some_conv)

lemma symbol_run:
  assumes at: "at_symbol src n C s bs out" "257 \<le> s" "decodes dist (m_tables (hr_st C) ! 1)"
    and dec: "read_value length_codes (s - 257) bs = Some (len, bs1)" "decode_symbol dist bs1 = Some (i, bs2)" "read_value dist_codes i bs2 = Some (d, bs3)"
    and ok: "d \<le> length out" "length out + len \<le> limit" "allocates realloc limit"
  shows "\<exists>D. leads realloc src n C D \<and> same_tables (hr_st C) (hr_st D) \<and> at_codes src n D bs3 (repeat_match len d out)"
proof -
  let ?st = "hr_st C" and ?env = "call_env src n (hr_cap C)"
  have c: "m_state ?st = Symbol" "m_counter ?st mod 512 = int s" and h: "holds src n C bs out" using at(1) by (simp_all add: at_symbol_def)
  obtain e1 b1 x1 where l: "array_get length_codes (s - 257) = Some (e1, b1)" "read_bits e1 bs = Some (x1, bs1)" "len = b1 + x1"
    using dec(1) by (rule read_value_Some)
  note lt = length_codes_table [OF l(1)]
  obtain e2 b2 x2 where d: "array_get dist_codes i = Some (e2, b2)" "read_bits e2 bs2 = Some (x2, bs3)" "d = b2 + x2"
    using dec(3) by (rule read_value_Some)
  note dt = dist_codes_table [OF d(1)]
  obtain st1 where st1: "extra_bits ?env e1 ?st = Some (x1, st1)" "stream ?env st1 bs1" "advance ?st st1"
    using extra_bits_run [OF holdsD(1) [OF h] l(2) lt(3)] by blast
  let ?st1 = "st1\<lparr> m_counter := int b1 + int x1 \<rparr>"
  have h1: "holds src n (C\<lparr> hr_st := ?st1 \<rparr>) bs1 out" using holds_advance [OF h st1(3,2)] by simp
  have k1: "same_tables ?st ?st1" using same_tables_advance [OF st1(3)] by simp
  have tab: "table 1 ?st1 = Some (m_tables ?st1 ! 1)" using holdsD(7) [OF h1] by (simp add: table_def shape_def)
  have "m_tables ?st1 = m_tables ?st" using k1 by (simp add: same_tables_def)
  then have dd: "decodes dist (m_tables ?st1 ! 1)" using at(3) by simp
  have s1: "stream ?env ?st1 bs1" using holdsD(1) [OF h1] by simp
  obtain st2 where st2: "huff_decode ?env (m_tables ?st1 ! 1) ?st1 = Some (i, st2)" "stream ?env st2 bs2" "advance ?st1 st2"
    using huff_decode_run [OF dd dec(2) s1] by blast
  obtain st3 where st3: "extra_bits ?env e2 st2 = Some (x2, st3)" "stream ?env st3 bs3" "advance st2 st3"
    using extra_bits_run [OF st2(2) d(2) dt(3)] by blast
  have adv: "advance ?st1 st3" using advance_trans [OF st2(3) st3(3)] .
  let ?st3 = "st3\<lparr> m_dist := b2 + x2 \<rparr>"
  have "advance (hr_st (C\<lparr> hr_st := ?st1 \<rparr>)) st3" "stream (call_env src n (hr_cap (C\<lparr> hr_st := ?st1 \<rparr>))) st3 bs3" using adv st3(2) by simp_all
  from holds_advance [OF h1 this] have h3: "holds src n (C\<lparr> hr_st := ?st3 \<rparr>) bs3 out" by simp
  have k3: "same_tables ?st ?st3" using same_tables_trans [OF k1 same_tables_advance [OF adv]] by simp
  have sym: "nat (m_counter ?st mod 512) = s" using c(2) by simp
  have step: "tinfl_step ?env ?st = start_match ?env ?st3"
    using at(2) lt dt tab st1(1) st2(1) st3(1)
    by (simp add: tinfl_step_def c(1) step_symbol_def sym bind2_def)
  have cnt: "m_counter ?st3 = int len" "m_dist ?st3 = d" using advance_fields(5) [OF adv] l(3) d(3) by simp_all
  have "1 \<le> d" "3 \<le> len" using dt(4) lt(4) l(3) d(3) by simp_all
  then obtain D where "leads realloc src n C D" "same_tables ?st3 (hr_st D)" "at_codes src n D bs3 (repeat_match len d out)"
    using start_match_run [OF h3 cnt _ ok(1) _ ok(2,3) step] by auto
  then show ?thesis using same_tables_trans [OF k3] by blast
qed

subsection \<open>The loop\<close>

lemma decode_symbol_shorter: "decode_symbol ls bs = Some (s, bs') \<Longrightarrow> length bs' < length bs"
proof -
  assume "decode_symbol ls bs = Some (s, bs')"
  then have s: "ls ! s \<noteq> 0" "prefix (code_bits ls s) bs" "bs' = drop (ls ! s) bs"
    by (auto simp: decode_symbol_def find_Some_iff)
  then have "ls ! s \<le> length bs" using prefix_length_le [OF s(2)] by simp
  then show ?thesis using s by simp
qed

lemma read_value_shorter: "read_value codes i bs = Some (v, bs') \<Longrightarrow> length bs' \<le> length bs"
  by (auto elim!: read_value_Some simp: read_bits_Some)

text \<open>What the next code is.\<close>

lemma inflate_codes_cases:
  assumes "inflate_codes lit dist bs out = Some (bs', out')"
  obtains (literal) s bs1 where "decode_symbol lit bs = Some (s, bs1)" "length bs1 < length bs" "s < 256"
      "inflate_codes lit dist bs1 (out @ [word_of_nat s]) = Some (bs', out')"
    | (finish) "decode_symbol lit bs = Some (256, bs')" "out' = out"
    | (match) s bs1 len bs2 i bs3 d bs4 where "decode_symbol lit bs = Some (s, bs1)" "257 \<le> s" "read_value length_codes (s - 257) bs1 = Some (len, bs2)"
      "decode_symbol dist bs2 = Some (i, bs3)" "read_value dist_codes i bs3 = Some (d, bs4)" "d \<le> length out" "length bs4 < length bs"
      "inflate_codes lit dist bs4 (repeat_match len d out) = Some (bs', out')"
proof -
  note inflate_codes.simps [of lit dist bs out]
  with assms obtain s bs1 where s: "decode_symbol lit bs = Some (s, bs1)" and rest:
    "(if s < 256 then inflate_codes lit dist bs1 (out @ [word_of_nat s])
     else if s = 256 then Some (bs1, out)
     else Option.bind (read_value length_codes (s - 257) bs1) (\<lambda>(len, bs).
          Option.bind (decode_symbol dist bs) (\<lambda>(d, bs).
          Option.bind (read_value dist_codes d bs) (\<lambda>(d, bs).
          if length out < d then None else inflate_codes lit dist bs (repeat_match len d out))))) = Some (bs', out')"
    by (auto simp: bind_eq_Some_conv)
  note short = decode_symbol_shorter [OF s]
  consider "s < 256" | "s = 256" | "257 \<le> s" by linarith
  then show ?thesis
  proof cases
    case 1
    then show ?thesis using literal [OF s short] rest by simp
  next
    case 2
    then show ?thesis using finish s rest by simp
  next
    case 3
    then obtain len bs2 i bs3 d bs4 where m: "read_value length_codes (s - 257) bs1 = Some (len, bs2)" "decode_symbol dist bs2 = Some (i, bs3)"
      "read_value dist_codes i bs3 = Some (d, bs4)" "d \<le> length out" "inflate_codes lit dist bs4 (repeat_match len d out) = Some (bs', out')"
      using rest by (auto simp: bind_eq_Some_conv not_less split: if_splits)
    have "length bs4 < length bs"
      using short read_value_shorter [OF m(1)] decode_symbol_shorter [OF m(2)] read_value_shorter [OF m(3)] by linarith
    then show ?thesis using match s 3 m by blast
  qed
qed

lemma inflate_codes_length: "inflate_codes lit dist bs out = Some (bs', out') \<Longrightarrow> length out \<le> length out'"
proof (induction "length bs" arbitrary: bs out rule: less_induct)
  case less
  from less.prems show ?case
  proof (cases rule: inflate_codes_cases)
    case (literal s bs1)
    then show ?thesis using less.hyps by fastforce
  next
    case (match s bs1 len bs2 i bs3 d bs4)
    then show ?thesis using less.hyps by fastforce
  qed simp
qed

text \<open>The loop runs to the end of the block.\<close>

lemma codes_run:
  assumes dec: "decodes lit (m_tables (hr_st C) ! 0)" "decodes dist (m_tables (hr_st C) ! 1)"
    and ok: "length out' \<le> limit" "allocates realloc limit"
  shows "at_codes src n C bs out \<Longrightarrow> inflate_codes lit dist bs out = Some (bs', out') \<Longrightarrow>
    \<exists>D. leads realloc src n C D \<and> same_tables (hr_st C) (hr_st D) \<and> at_symbol src n D 256 bs' out'"
  using dec
proof (induction "length bs" arbitrary: C bs out rule: less_induct)
  case less
  define goal where "goal E \<longleftrightarrow> (\<exists>D. leads realloc src n E D \<and> same_tables (hr_st E) (hr_st D) \<and> at_symbol src n D 256 bs' out')" for E
  have via: "goal E \<Longrightarrow> leads realloc src n C E \<Longrightarrow> same_tables (hr_st C) (hr_st E) \<Longrightarrow> goal C" for E
    unfolding goal_def using leads_trans same_tables_trans by meson
  have again: "goal E" if "at_codes src n E bs1 out1" "same_tables (hr_st C) (hr_st E)" "length bs1 < length bs" "inflate_codes lit dist bs1 out1 = Some (bs', out')" for E bs1 out1
  proof -
    have "m_tables (hr_st E) = m_tables (hr_st C)" using that(2) by (simp add: same_tables_def)
    then show ?thesis unfolding goal_def using less.hyps [OF that(3,1,4)] less.prems(3,4) by simp
  qed
  have symbol: "goal E" if E: "at_symbol src n E s bs1 out1" "same_tables (hr_st C) (hr_st E)" "length bs1 \<le> length bs0" "length bs0 \<le> length bs"
      "decode_symbol lit bs0 = Some (s, bs1)" "256 \<le> s" "inflate_codes lit dist bs0 out1 = Some (bs', out')" for E s bs0 bs1 out1
    using E(7)
  proof (cases rule: inflate_codes_cases)
    case finish
    then show ?thesis unfolding goal_def using E(1,5) by (intro exI [of _ E]) simp
  next
    case (match s' bs1' len bs2 i bs3 d bs4)
    have "m_tables (hr_st E) = m_tables (hr_st C)" using E(2) by (simp add: same_tables_def)
    then have de: "decodes dist (m_tables (hr_st E) ! 1)" using less.prems(4) by simp
    have "length (repeat_match len d out1) \<le> length out'" using inflate_codes_length [OF match(8)] .
    then have "length out1 + len \<le> limit" using ok(1) by simp
    then obtain F where F: "leads realloc src n E F" "same_tables (hr_st E) (hr_st F)" "at_codes src n F bs4 (repeat_match len d out1)"
      using symbol_run [OF E(1) _ de _ match(4,5,6) _ ok(2)] match(1,2,3) E(5) by auto
    have "goal F" using again [OF F(3) same_tables_trans [OF E(2) F(2)] _ match(8)] match(7) E(4) by simp
    then show ?thesis unfolding goal_def using leads_trans [OF F(1)] same_tables_trans [OF F(2)] by blast
  qed (use E(5,6) in simp)
  have head: "decode_symbol lit bs \<noteq> None" using less.prems(2) by (cases rule: inflate_codes_cases) auto
  then obtain s bs1 where s: "decode_symbol lit bs = Some (s, bs1)" by auto
  have short: "length bs1 < length bs" using decode_symbol_shorter [OF s] .
  have next_literal: "inflate_codes lit dist bs1 (out @ [word_of_nat s]) = Some (bs', out')" if "s < 256"
    using less.prems(2) s that by (cases rule: inflate_codes_cases) auto
  have "goal C"
  proof (cases "n - in_cur (hr_st C) < 4 \<or> hr_cap C - length out < 2")
    case slow: True
    have "length out < limit" if "s < 256" using inflate_codes_length [OF next_literal [OF that]] ok(1) by simp
    then obtain E where E: "leads realloc src n C E" "same_tables (hr_st C) (hr_st E)"
      "if 256 \<le> s then at_symbol src n E s bs1 out else at_codes src n E bs1 (out @ [word_of_nat s])"
      using codes_slow [OF less.prems(1,3) s slow _ ok(2)] by blast
    show ?thesis
    proof (cases "256 \<le> s")
      case True
      then show ?thesis using via [OF symbol [OF _ E(2) _ order_refl s True less.prems(2)] E(1,2)] E(3) short by simp
    next
      case False
      then show ?thesis using via [OF again [OF _ E(2) short next_literal] E(1,2)] E(3) by simp
    qed
  next
    case fast: False
    have "\<exists>s2 bs2. s < 256 \<longrightarrow> decode_symbol lit bs1 = Some (s2, bs2)"
    proof (cases "s < 256")
      case True
      show ?thesis using next_literal [OF True] by (cases rule: inflate_codes_cases) auto
    qed simp
    then obtain s2 bs2 where s2: "s < 256 \<Longrightarrow> decode_symbol lit bs1 = Some (s2, bs2)" by blast
    have f: "4 \<le> n - in_cur (hr_st C)" "2 \<le> hr_cap C - length out" using fast by linarith+
    obtain E where E: "leads realloc src n C E" "same_tables (hr_st C) (hr_st E)"
      "if 256 \<le> s then at_symbol src n E s bs1 out
        else if 256 \<le> s2 then at_symbol src n E s2 bs2 (out @ [word_of_nat s]) else at_codes src n E bs2 (out @ [word_of_nat s, word_of_nat s2])"
      using codes_fast [OF less.prems(1,3) s f s2] by blast
    show ?thesis
    proof (cases "256 \<le> s")
      case True
      then show ?thesis using via [OF symbol [OF _ E(2) _ order_refl s True less.prems(2)] E(1,2)] E(3) short by simp
    next
      case False
      then have lit: "s < 256" by simp
      note s2 = s2 [OF lit] and nl = next_literal [OF lit]
      have short2: "length bs2 < length bs1" using decode_symbol_shorter [OF s2] .
      show ?thesis
      proof (cases "256 \<le> s2")
        case True
        then show ?thesis using via [OF symbol [OF _ E(2) _ _ s2 True nl] E(1,2)] E(3) False short short2 by simp
      next
        case lit2: False
        have "inflate_codes lit dist bs2 ((out @ [word_of_nat s]) @ [word_of_nat s2]) = Some (bs', out')"
          using nl s2 lit2 by (cases rule: inflate_codes_cases) auto
        then show ?thesis using via [OF again [OF _ E(2)] E(1,2)] E(3) False lit2 short short2 by simp
      qed
    qed
  qed
  then show ?case by (simp add: goal_def)
qed

end
