(* ===== verification/TinflStored.thy ===== *)
theory TinflStored
  imports TinflLoop
begin

unbundle bit_operations_syntax

text \<open>
  Stored blocks: the header of four bytes, the bytes still in the bit buffer, and the bytes copied from the input, against \<open>inflate_stored\<close>.
\<close>

subsection \<open>Bytes\<close>

lemma read_bits_split:
  "read_bits (a + b) bs = Some (v, bs') \<longleftrightarrow> (\<exists>x y bs1. read_bits a bs = Some (x, bs1) \<and> read_bits b bs1 = Some (y, bs') \<and> v = x + 2 ^ a * y)"
proof -
  have "take (a + b) bs = take a bs @ take b (drop a bs)" by (rule take_add)
  then have "a \<le> length bs \<Longrightarrow> lsb (take (a + b) bs) = lsb (take a bs) + 2 ^ a * lsb (take b (drop a bs))"
    by (simp add: horner_sum_append)
  then show ?thesis by (auto simp: read_bits_Some add.commute)
qed

lemma byte_value: "lsb (byte_bits c) = unat c"
proof -
  have "lsb (map (bit (unat c)) [0..<8]) = take_bit 8 (unat c)" by (rule horner_sum_bit_eq_take_bit)
  moreover have "take_bit 8 (unat c) = unat c" using unsigned_less [of c] by (intro take_bit_nat_eq_self) simp
  moreover have "map (bit (unat c)) [0..<8] = byte_bits c" by (auto simp: byte_bits_def bit_unsigned_iff)
  ultimately show ?thesis by simp
qed

lemma read_byte_bits: "read_bits 8 (byte_bits c @ bs) = Some (unat c, bs)"
  by (simp add: read_bits_Some byte_value)

lemma read_bytes_bits: "read_bytes k (bits_of_bytes xs) = Some (cs, bs') \<longleftrightarrow> k \<le> length xs \<and> cs = take k xs \<and> bs' = bits_of_bytes (drop k xs)"
proof (induction k arbitrary: xs cs)
  case (Suc k)
  show ?case
  proof (cases xs)
    case Nil
    then show ?thesis by (simp add: read_bits_def)
  next
    case (Cons c xs')
    have "read_bits 8 (bits_of_bytes xs) = Some (unat c, bits_of_bytes xs')" using Cons by (simp add: read_byte_bits)
    then show ?thesis using Suc.IH [of xs'] Cons by (auto simp: of_nat_unat)
  qed
qed auto

lemma read_bytes_behind:
  "read_bytes k (bits_of_bytes xs) = Some (cs, bs') \<Longrightarrow> m \<le> k \<Longrightarrow> read_bytes (k - m) (bits_of_bytes (drop m xs)) = Some (drop m cs, bs')"
  by (auto simp: read_bytes_bits drop_take)

lemma read_bytes_length: "read_bytes k bs = Some (cs, bs') \<Longrightarrow> length cs = k"
  by (induction k arbitrary: bs cs) (auto simp: bind_eq_Some_conv)

text \<open>At a byte boundary a byte comes from the bit buffer, or from the input if the buffer is empty.\<close>

definition bytewise :: "tinfl_state \<Rightarrow> bool" where
  "bytewise st \<longleftrightarrow> m_num_bits st mod 8 = 0"

lemma bytewise_get_bits:
  assumes "stream env st bs" "bytewise st" "m_num_bits st \<noteq> 0" "read_bits 8 bs = Some (x, bs')"
  shows "\<exists>st'. get_bits env 8 st = Some (x, st') \<and> stream env st' bs' \<and> advance st st' \<and> bytewise st'"
proof -
  have le: "8 \<le> m_num_bits st" using assms(2,3) by (auto simp: bytewise_def)
  have x: "x = lsb (take 8 bs)" "bs' = drop 8 bs" using assms(4) by (simp_all add: read_bits_Some)
  note drop = drop_bits_stream [OF assms(1) le]
  have "take 8 bs = low_bits 8 (m_bit_buf st)" using assms(1) le by (simp add: stream_def take_low_bits)
  then have "unat (m_bit_buf st AND mask 8) = x" by (simp add: and_mask_value x)
  moreover have "(m_num_bits st - 8) mod 8 = 0" using assms(2) le by (simp add: bytewise_def mod_eq_0_iff_dvd dvd_diff_nat)
  ultimately show ?thesis using drop le by (simp add: get_bits_def x bytewise_def)
qed

lemma stream_empty:
  assumes "stream env st bs" "m_num_bits st = 0"
  shows "bs = bits_of_bytes (drop (in_cur st) (take (in_end env) (in_buf env)))"
  using assms by (simp add: stream_def low_bits_def)

lemma stream_skip:
  assumes "stream env st bs" "m_num_bits st = 0" "in_cur st + k \<le> in_end env"
  shows "stream env (st\<lparr> in_cur := in_cur st + k \<rparr>) (bits_of_bytes (drop (in_cur st + k) (take (in_end env) (in_buf env))))"
    "advance st (st\<lparr> in_cur := in_cur st + k \<rparr>)"
proof -
  show "stream env (st\<lparr> in_cur := in_cur st + k \<rparr>) (bits_of_bytes (drop (in_cur st + k) (take (in_end env) (in_buf env))))"
    using assms by (simp add: stream_def low_bits_def)
  show "advance st (st\<lparr> in_cur := in_cur st + k \<rparr>)" unfolding advance_def
    by (rule exI [of _ "m_bit_buf st"], rule exI [of _ "m_num_bits st"], rule exI [of _ "in_cur st + k"]) simp
qed

lemma bytewise_get_byte:
  assumes "stream env st bs" "m_num_bits st = 0" "read_bits 8 bs = Some (x, bs')"
  shows "\<exists>st'. get_byte env st = Some (x, st') \<and> stream env st' bs' \<and> advance st st' \<and> bytewise st'"
proof -
  let ?xs = "drop (in_cur st) (take (in_end env) (in_buf env))"
  have bs: "bs = bits_of_bytes ?xs" using stream_empty [OF assms(1,2)] .
  have len: "in_cur st \<le> in_end env" "in_end env \<le> length (in_buf env)" using assms(1) by (simp_all add: stream_def)
  have "8 \<le> length bs" using assms(3) by (simp add: read_bits_Some)
  then have more: "in_cur st + 1 \<le> in_end env" using len by (simp add: bs)
  then have xs: "?xs = in_buf env ! in_cur st # drop (in_cur st + 1) (take (in_end env) (in_buf env))"
    using Cons_nth_drop_Suc [of "in_cur st" "take (in_end env) (in_buf env)"] len by simp
  have "x = unat (in_buf env ! in_cur st)" "bs' = bits_of_bytes (drop (in_cur st + 1) (take (in_end env) (in_buf env)))"
    using assms(3) unfolding bs xs by (simp_all add: read_byte_bits)
  then show ?thesis using stream_skip [OF assms(1,2) more] more len assms(2) by (simp add: get_byte_def bytewise_def)
qed

lemma header_byte_run:
  assumes "stream env st bs" "bytewise st" "read_bits 8 bs = Some (x, bs')"
  shows "\<exists>st'. read_header_byte env (raw, st) = Some (raw @ [x], st') \<and> stream env st' bs' \<and> advance st st' \<and> bytewise st'"
  using bytewise_get_bits [OF assms(1,2) _ assms(3)] bytewise_get_byte [OF assms(1) _ assms(3)]
  by (cases "m_num_bits st = 0") (auto simp: read_header_byte_def bind2_def)

lemma header_run:
  assumes st: "stream env st bs" "bytewise st" and "read_bits 16 bs = Some (len, bs1)" "read_bits 16 bs1 = Some (nlen, bs2)"
  shows "\<exists>a b c d st'. iter_opt (read_header_byte env) 4 ([], st) = Some ([a, b, c, d], st') \<and> len = a + b * 256 \<and> nlen = c + d * 256
    \<and> stream env st' bs2 \<and> advance st st' \<and> bytewise st'"
proof -
  have two: "(16 :: nat) = 8 + 8" by simp
  obtain a b bsa where ab: "read_bits 8 bs = Some (a, bsa)" "read_bits 8 bsa = Some (b, bs1)" "len = a + 2 ^ 8 * b"
    using assms(3) unfolding two read_bits_split by blast
  obtain c d bsc where cd: "read_bits 8 bs1 = Some (c, bsc)" "read_bits 8 bsc = Some (d, bs2)" "nlen = c + 2 ^ 8 * d"
    using assms(4) unfolding two read_bits_split by blast
  obtain st1 where 1: "read_header_byte env ([], st) = Some ([] @ [a], st1)" "stream env st1 bsa" "advance st st1" "bytewise st1"
    using header_byte_run [OF st ab(1)] by blast
  obtain st2 where 2: "read_header_byte env ([a], st1) = Some ([a] @ [b], st2)" "stream env st2 bs1" "advance st1 st2" "bytewise st2"
    using header_byte_run [OF 1(2,4) ab(2)] by blast
  obtain st3 where 3: "read_header_byte env ([a, b], st2) = Some ([a, b] @ [c], st3)" "stream env st3 bsc" "advance st2 st3" "bytewise st3"
    using header_byte_run [OF 2(2,4) cd(1)] by blast
  obtain st4 where 4: "read_header_byte env ([a, b, c], st3) = Some ([a, b, c] @ [d], st4)" "stream env st4 bs2" "advance st3 st4" "bytewise st4"
    using header_byte_run [OF 3(2,4) cd(2)] by blast
  have "iter_opt (read_header_byte env) 4 ([], st) = Some ([a, b, c, d], st4)"
    using 1(1) 2(1) 3(1) 4(1) by (simp add: eval_nat_numeral)
  moreover have "advance st st4" using advance_trans [OF advance_trans [OF advance_trans [OF 1(3) 2(3)] 3(3)] 4(3)] .
  ultimately show ?thesis using ab(3) cd(3) 4(2,4) by (intro exI conjI) (assumption | simp)+
qed

subsection \<open>The bytes of a stored block\<close>

definition stored_end :: "bytes \<Rightarrow> nat \<Rightarrow> heap_run \<Rightarrow> bool list \<Rightarrow> bytes \<Rightarrow> bool" where
  "stored_end src n C bs out \<longleftrightarrow> m_state (hr_st C) = Stored_bytes \<and> m_counter (hr_st C) = 0 \<and> holds src n C bs out"

lemma stored_bytes_step:
  assumes st: "m_state (hr_st C) = Stored_bytes" "m_counter (hr_st C) = int k" "m_num_bits (hr_st C) = 0" and h: "holds src n C bs out"
    and room: "length out < hr_cap C" and more: "0 < k" "read_bytes k bs = Some (cs, bs')"
  shows "\<exists>D m bs1. leads realloc src n C D \<and> same_tables (hr_st C) (hr_st D) \<and> 0 < m \<and> m \<le> k \<and> m_state (hr_st D) = Stored_bytes
    \<and> m_counter (hr_st D) = int (k - m) \<and> m_num_bits (hr_st D) = 0 \<and> holds src n D bs1 (out @ take m cs) \<and> read_bytes (k - m) bs1 = Some (drop m cs, bs')"
proof -
  let ?st = "hr_st C" and ?env = "call_env src n (hr_cap C)"
  let ?xs = "drop (in_cur ?st) (take n src)"
  have str: "stream ?env ?st bs" using holdsD(1) [OF h] .
  have bs: "bs = bits_of_bytes ?xs" using stream_empty [OF str st(3)] by simp
  have len: "in_cur ?st \<le> n" "n \<le> length src" using str by (simp_all add: stream_def)
  have cs: "k \<le> length ?xs" "cs = take k ?xs" "bs' = bits_of_bytes (drop k ?xs)" using more(2) unfolding bs read_bytes_bits by simp_all
  define m where "m = min (min (hr_cap C - length out) (n - in_cur ?st)) k"
  have m: "0 < m" "m \<le> k" "length out + m \<le> hr_cap C" "in_cur ?st + m \<le> n"
    using room more(1) cs(1) len by (auto simp: m_def)
  have sl: "slice src (in_cur ?st) m = Some (take m cs)"
  proof -
    have "take m cs = take m (drop (in_cur ?st) src)" using m(2,4) by (simp add: cs(2) take_drop min_def)
    then show ?thesis using m(4) len by (simp add: slice_def)
  qed
  have lm: "length (take m cs) = m" using m(2) cs(1,2) by simp
  have buf: "length (out_buf ?st) = hr_cap C" "out_cur ?st = length out" "take (length out) (out_buf ?st) = out" using holdsD [OF h] by simp_all
  obtain b where b: "block_write (out_buf ?st) (length out) (take m cs) = Some b" using m(3) lm buf(1) by (simp add: block_write_def)
  have b': "length b = hr_cap C" "take (length out + m) b = out @ take m cs" using block_write_take [OF b] buf lm by simp_all
  have nm: "nat (m_counter ?st) = k" "m_counter ?st \<noteq> 0" using st(2) more(1) by simp_all
  let ?in = "?st\<lparr> in_cur := in_cur ?st + m \<rparr>"
  let ?D = "C\<lparr> hr_st := ?st\<lparr> out_buf := b, in_cur := in_cur ?st + m, out_cur := length out + m, m_counter := int k - int m, m_state := Stored_bytes \<rparr> \<rparr>"
  have min: "min (min (out_end ?env - out_cur ?st) (in_end ?env - in_cur ?st)) (nat (m_counter ?st)) = m" by (simp add: buf(2) nm(1) m_def)
  have "tinfl_step ?env ?st = Some (None, hr_st ?D)"
    using room m(1,4) more(1) unfolding tinfl_step_def st(1) tinfl_point.case step_stored_bytes_def min Let_def
    by (simp add: nm(2) buf(2) sl b goto_def st(2))
  then have l: "leads realloc src n C ?D" using leads_step by fastforce
  have "stream ?env ?in (bits_of_bytes (drop m ?xs))" using stream_skip(1) [OF str st(3), of m] m(4) by (simp add: add.commute)
  then have "holds src n ?D (bits_of_bytes (drop m ?xs)) (out @ take m cs)"
    using h m(3) b' lm by (simp add: holds_def shape_def stream_def)
  moreover have "read_bytes (k - m) (bits_of_bytes (drop m ?xs)) = Some (drop m cs, bs')"
    using read_bytes_behind [OF _ m(2)] more(2) unfolding bs by blast
  moreover have "m_counter (hr_st ?D) = int (k - m)" using m(2) by simp
  moreover have "same_tables ?st (hr_st ?D)" by (simp add: same_tables_def)
  ultimately show ?thesis using l m(1,2) st(3) by (intro exI [of _ ?D] exI [of _ m] exI [of _ "bits_of_bytes (drop m ?xs)"]) simp
qed

lemma stored_bytes_run:
  assumes "allocates realloc limit"
  shows "m_state (hr_st C) = Stored_bytes \<Longrightarrow> m_counter (hr_st C) = int k \<Longrightarrow> k = 0 \<or> m_num_bits (hr_st C) = 0 \<Longrightarrow> holds src n C bs out \<Longrightarrow>
    read_bytes k bs = Some (cs, bs') \<Longrightarrow> length out + k \<le> limit \<Longrightarrow>
    \<exists>D. leads realloc src n C D \<and> same_tables (hr_st C) (hr_st D) \<and> stored_end src n D bs' (out @ cs)"
proof (induction k arbitrary: C bs out cs rule: less_induct)
  case (less k)
  show ?case
  proof (cases "k = 0")
    case True
    then show ?thesis using less.prems by (intro exI [of _ C]) (simp add: stored_end_def)
  next
    case False
    then have k: "m_counter (hr_st C) \<noteq> 0" "length out < limit" "0 < k" "m_num_bits (hr_st C) = 0" using less.prems(2,3,6) by simp_all
    obtain D b where D: "leads realloc src n C D" "holds src n D bs out" "length out < hr_cap D" "hr_st D = (hr_st C)\<lparr> out_buf := b \<rparr>"
      using leads_room [OF step_full(4) [OF less.prems(1) k(1)] less.prems(4) k(2) assms] by blast
    have d: "m_state (hr_st D) = Stored_bytes" "m_counter (hr_st D) = int k" "m_num_bits (hr_st D) = 0" "same_tables (hr_st C) (hr_st D)"
      using less.prems(1,2) k(4) by (simp_all add: D(4))
    obtain E m bs1 where E: "leads realloc src n D E" "same_tables (hr_st D) (hr_st E)" "0 < m" "m \<le> k" "m_state (hr_st E) = Stored_bytes"
      "m_counter (hr_st E) = int (k - m)" "m_num_bits (hr_st E) = 0" "holds src n E bs1 (out @ take m cs)" "read_bytes (k - m) bs1 = Some (drop m cs, bs')"
      using stored_bytes_step [OF d(1-3) D(2,3) k(3) less.prems(5)] by blast
    have "length cs = k" using read_bytes_length [OF less.prems(5)] .
    then have "length (out @ take m cs) + (k - m) \<le> limit" "k - m < k" using E(3,4) less.prems(6) by simp_all
    then obtain F where F: "leads realloc src n E F" "same_tables (hr_st E) (hr_st F)" "stored_end src n F bs' ((out @ take m cs) @ drop m cs)"
      using less.IH [OF _ E(5,6) disjI2 [OF E(7)] E(8,9)] by blast
    have "leads realloc src n C F" using leads_trans [OF D(1) leads_trans [OF E(1) F(1)]] .
    moreover have "same_tables (hr_st C) (hr_st F)" using same_tables_trans [OF d(4) same_tables_trans [OF E(2) F(2)]] .
    ultimately show ?thesis using F(3) by auto
  qed
qed

lemma bytewise_upd [simp]:
  "bytewise (st\<lparr> m_state := p \<rparr>) = bytewise st" "bytewise (st\<lparr> m_counter := i \<rparr>) = bytewise st" "bytewise (st\<lparr> m_dist := k \<rparr>) = bytewise st"
  "bytewise (st\<lparr> out_buf := b \<rparr>) = bytewise st" "bytewise (st\<lparr> out_cur := k \<rparr>) = bytewise st"
  by (simp_all add: bytewise_def)

lemma stored_bits_run:
  assumes "allocates realloc limit"
  shows "m_state (hr_st C) = Stored_bits \<Longrightarrow> m_counter (hr_st C) = int k \<Longrightarrow> bytewise (hr_st C) \<Longrightarrow> holds src n C bs out \<Longrightarrow>
    read_bytes k bs = Some (cs, bs') \<Longrightarrow> length out + k \<le> limit \<Longrightarrow>
    \<exists>D. leads realloc src n C D \<and> same_tables (hr_st C) (hr_st D) \<and> stored_end src n D bs' (out @ cs)"
proof (induction k arbitrary: C bs out cs)
  case step: (Suc k)
  show ?case
  proof (cases "m_num_bits (hr_st C) = 0")
    case True
    let ?D = "C\<lparr> hr_st := (hr_st C)\<lparr> m_state := Stored_bytes \<rparr> \<rparr>"
    have "leads realloc src n C ?D" using step.prems(1) True by (intro leads_step) (simp add: tinfl_step_def step_stored_bits_def goto_def)
    moreover obtain E where E: "leads realloc src n ?D E" "same_tables (hr_st ?D) (hr_st E)" "stored_end src n E bs' (out @ cs)"
      using stored_bytes_run [OF assms _ _ _ _ step.prems(5,6), of ?D src n] step.prems(2,4) True by auto
    ultimately have "leads realloc src n C E" "same_tables (hr_st C) (hr_st E)" using leads_trans same_tables_trans [of "hr_st C" "hr_st ?D"] by simp_all
    then show ?thesis using E(3) by blast
  next
    case False
    obtain x bs1 cs' where x: "read_bits 8 bs = Some (x, bs1)" "read_bytes k bs1 = Some (cs', bs')" "cs = word_of_nat x # cs'"
      using step.prems(5) by (auto simp: bind_eq_Some_conv)
    let ?env = "call_env src n (hr_cap C)"
    obtain st1 where st1: "get_bits ?env 8 (hr_st C) = Some (x, st1)" "stream ?env st1 bs1" "advance (hr_st C) st1" "bytewise st1"
      using bytewise_get_bits [OF holdsD(1) [OF step.prems(4)] step.prems(3) False x(1)] by blast
    let ?C1 = "C\<lparr> hr_st := st1\<lparr> m_dist := x, m_state := Stored_put \<rparr> \<rparr>"
    have "tinfl_step ?env (hr_st C) = Some (None, hr_st ?C1)"
      using step.prems(1,2) False st1(1) by (simp add: tinfl_step_def step_stored_bits_def bind2_def goto_def)
    then have 1: "leads realloc src n C ?C1" using leads_step by fastforce
    have h1: "holds src n ?C1 bs1 out" "length out < limit" using holds_advance [OF step.prems(4) st1(3,2)] step.prems(6) by simp_all
    have k1: "same_tables (hr_st C) (hr_st ?C1)" using same_tables_advance [OF st1(3)] by simp
    obtain D b where D: "leads realloc src n ?C1 D" "holds src n D bs1 out" "length out < hr_cap D" "hr_st D = (hr_st ?C1)\<lparr> out_buf := b \<rparr>"
      using leads_room [OF step_full(3) h1 assms] by auto
    let ?c = "word_of_nat x :: u8"
    obtain b' where b': "put_byte ?c (hr_st D) = Some ((hr_st D)\<lparr> out_buf := b', out_cur := length out + 1 \<rparr>)"
      "holds src n (D\<lparr> hr_st := (hr_st D)\<lparr> out_buf := b', out_cur := length out + 1 \<rparr> \<rparr>) bs1 (out @ [?c])"
      using put_byte_run [OF D(2,3)] by blast
    let ?E = "D\<lparr> hr_st := (hr_st D)\<lparr> out_buf := b', out_cur := length out + 1, m_counter := int k, m_state := Stored_bits \<rparr> \<rparr>"
    have "m_counter st1 = int (Suc k)" using advance_fields(5) [OF st1(3)] step.prems(2) by simp
    then have "tinfl_step (call_env src n (hr_cap D)) (hr_st D) = Some (None, hr_st ?E)"
      using D(3) holdsD(2) [OF D(2)] b'(1) by (simp add: tinfl_step_def step_stored_put_def D(4) goto_def)
    then have 2: "leads realloc src n D ?E" using leads_step by fastforce
    have hE: "holds src n ?E bs1 (out @ [?c])" using b'(2) by simp
    have bE: "bytewise (hr_st ?E)" using st1(4) by (simp add: D(4))
    obtain F where F: "leads realloc src n ?E F" "same_tables (hr_st ?E) (hr_st F)" "stored_end src n F bs' ((out @ [?c]) @ cs')"
      using step.IH [OF _ _ bE hE x(2)] step.prems(6) by auto
    have "same_tables (hr_st C) (hr_st ?E)" using k1 by (simp add: D(4))
    then have "same_tables (hr_st C) (hr_st F)" using F(2) by (rule same_tables_trans)
    moreover have "leads realloc src n C F" using leads_trans [OF 1 leads_trans [OF D(1) leads_trans [OF 2 F(1)]]] .
    ultimately show ?thesis using F(3) x(3) by auto
  qed
next
  case 0
  let ?D = "C\<lparr> hr_st := (hr_st C)\<lparr> m_state := Stored_bytes \<rparr> \<rparr>"
  have "leads realloc src n C ?D" using 0 by (intro leads_step) (simp add: tinfl_step_def step_stored_bits_def goto_def)
  then show ?case using 0 by (intro exI [of _ ?D]) (simp add: stored_end_def)
qed

end
