(* ===== verification/TinflBlocks.thy ===== *)
theory TinflBlocks
  imports TinflStored
begin

unbundle bit_operations_syntax

text \<open>
  The blocks of a stream: how one begins and ends, and how the tables of its codes are made.
\<close>

subsection \<open>Beginning and end\<close>

definition at_block :: "bytes \<Rightarrow> nat \<Rightarrow> heap_run \<Rightarrow> bool list \<Rightarrow> bytes \<Rightarrow> bool" where
  "at_block src n C bs out \<longleftrightarrow> m_state (hr_st C) = Block \<and> holds src n C bs out"

definition after_block :: "bytes \<Rightarrow> nat \<Rightarrow> heap_run \<Rightarrow> nat \<Rightarrow> bool list \<Rightarrow> bytes \<Rightarrow> bool" where
  "after_block src n C final bs out \<longleftrightarrow> m_state (hr_st C) = (if final = 1 then Trailer else Block) \<and> holds src n C bs out"

lemma end_of_block_run:
  assumes "stored_end src n C bs out \<or> at_symbol src n C 256 bs out" "m_final (hr_st C) mod 2 = final"
  shows "\<exists>D. leads realloc src n C D \<and> after_block src n D final bs out"
proof -
  let ?p = "if final = 1 then Trailer else Block"
  have final: "final = 0 \<or> final = 1" using assms(2) by auto
  consider (stored) "stored_end src n C bs out" | (codes) "at_symbol src n C 256 bs out" using assms(1) by blast
  then show ?thesis
  proof cases
    case stored
    let ?D = "C\<lparr> hr_st := (hr_st C)\<lparr> m_state := ?p \<rparr> \<rparr>"
    have "leads realloc src n C ?D"
      using stored assms(2) final by (intro leads_step) (auto simp: stored_end_def tinfl_step_def step_stored_bytes_def end_of_block_def goto_def)
    then show ?thesis using stored by (intro exI [of _ ?D]) (simp add: stored_end_def after_block_def)
  next
    case codes
    let ?D = "C\<lparr> hr_st := (hr_st C)\<lparr> m_counter := 256, m_state := ?p \<rparr> \<rparr>"
    have "leads realloc src n C ?D"
      using codes assms(2) final by (intro leads_step) (auto simp: at_symbol_def tinfl_step_def step_symbol_def end_of_block_def goto_def)
    then show ?thesis using codes by (intro exI [of _ ?D]) (simp add: at_symbol_def after_block_def)
  qed
qed

text \<open>The three bits in front of a block.\<close>

definition begun :: "bytes \<Rightarrow> nat \<Rightarrow> heap_run \<Rightarrow> nat \<Rightarrow> nat \<Rightarrow> tinfl_state \<Rightarrow> bool list \<Rightarrow> bytes \<Rightarrow> bool" where
  "begun src n C final btype st bs out \<longleftrightarrow> m_final st mod 2 = final \<and> m_type st = int btype \<and> holds src n (C\<lparr> hr_st := st \<rparr>) bs out"

lemma block_begins:
  assumes "at_block src n C bs out" "read_bits 1 bs = Some (final, bs1)" "read_bits 2 bs1 = Some (btype, bs2)"
  shows "\<exists>v st1. get_bits (call_env src n (hr_cap C)) 3 (hr_st C) = Some (v, st1) \<and> v div 2 = btype
    \<and> begun src n C final btype (st1\<lparr> m_final := v, m_type := int btype \<rparr>) bs2 out"
proof -
  have h: "holds src n C bs out" using assms(1) by (simp add: at_block_def)
  have three: "(3 :: nat) = 1 + 2" by simp
  have "read_bits 3 bs = Some (final + 2 ^ 1 * btype, bs2)" using assms(2,3) unfolding three read_bits_split by blast
  then obtain st1 where st1: "get_bits (call_env src n (hr_cap C)) 3 (hr_st C) = Some (final + 2 * btype, st1)"
    "stream (call_env src n (hr_cap C)) st1 bs2" "advance (hr_st C) st1"
    using get_bits_run [OF holdsD(1) [OF h]] by fastforce
  have "final < 2" using assms(2) horner_less [of "take 1 bs"] by (auto simp: read_bits_Some)
  moreover have "holds src n (C\<lparr> hr_st := st1 \<rparr>) bs2 out" using holds_advance [OF h st1(3,2)] .
  ultimately show ?thesis using st1(1) by (intro exI [of _ "final + 2 * btype"] exI [of _ st1]) (auto simp: begun_def)
qed

text \<open>A stored block.\<close>

lemma stored_run:
  assumes at: "at_block src n C bs out" "read_bits 1 bs = Some (final, bs1)" "read_bits 2 bs1 = Some (0, bs2)"
    and dec: "inflate_stored bs2 out = Some (bs', out')" and ok: "length out' \<le> limit" "allocates realloc limit"
  shows "\<exists>D. leads realloc src n C D \<and> after_block src n D final bs' out'"
proof -
  let ?env = "call_env src n (hr_cap C)"
  obtain v st1 where v: "get_bits ?env 3 (hr_st C) = Some (v, st1)" "v div 2 = 0" "begun src n C final 0 (st1\<lparr> m_final := v, m_type := 0 \<rparr>) bs2 out"
    using block_begins [OF at] by auto
  let ?st1 = "st1\<lparr> m_final := v, m_type := 0 \<rparr>"
  have h1: "holds src n (C\<lparr> hr_st := ?st1 \<rparr>) bs2 out" "m_final ?st1 mod 2 = final" using v(3) by (simp_all add: begun_def)
  obtain len bs3 nlen bs4 cs where d: "read_bits 16 (drop (length bs2 mod 8) bs2) = Some (len, bs3)" "read_bits 16 bs3 = Some (nlen, bs4)"
    "len + nlen = 65535" "read_bytes len bs4 = Some (cs, bs')" "out' = out @ cs"
    using dec by (auto simp: inflate_stored_def bind_eq_Some_conv split: if_splits)
  have s1: "stream ?env ?st1 bs2" using holdsD(1) [OF h1(1)] by simp
  obtain st2 where st2: "skip_bits ?env (m_num_bits ?st1 mod 8) ?st1 = Some st2" "stream ?env st2 (drop (length bs2 mod 8) bs2)" "advance ?st1 st2" "bytewise st2"
    using skip_bits_run [OF s1] by (auto simp: bytewise_def)
  obtain a b c e st3 where st3: "iter_opt (read_header_byte ?env) 4 ([], st2) = Some ([a, b, c, e], st3)" "len = a + b * 256" "nlen = c + e * 256"
    "stream ?env st3 bs4" "advance st2 st3" "bytewise st3"
    using header_run [OF st2(2,4) d(1,2)] by blast
  let ?D = "C\<lparr> hr_st := st3\<lparr> m_counter := int len, m_state := Stored_bits \<rparr> \<rparr>"
  have adv: "advance ?st1 st3" using advance_trans [OF st2(3) st3(5)] .
  have eq: "a + b * 256 = 65535 - (c + e * 256)" using d(3) st3(2,3) by linarith
  have "tinfl_step ?env (hr_st C) = Some (None, hr_st ?D)"
    using at(1) eq v(1,2) st2(1) st3(1,2) by (simp add: tinfl_step_def at_block_def step_block_def bind2_def Let_def goto_def)
  then have 1: "leads realloc src n C ?D" using leads_step by fastforce
  have "holds src n (C\<lparr> hr_st := ?st1, hr_st := st3 \<rparr>) bs4 out" using adv st3(4) by (intro holds_advance [OF h1(1)]) simp_all
  then have hD: "holds src n ?D bs4 out" by simp
  have lim: "length out + len \<le> limit" using ok(1) d(5) read_bytes_length [OF d(4)] by simp
  have bw: "bytewise (hr_st ?D)" using st3(6) by simp
  obtain E where E: "leads realloc src n ?D E" "same_tables (hr_st ?D) (hr_st E)" "stored_end src n E bs' (out @ cs)"
    using stored_bits_run [OF ok(2) _ _ bw hD d(4) lim] by auto
  have "m_final (hr_st E) mod 2 = final" using E(2) advance_fields(2) [OF adv] h1(2) by (simp add: same_tables_def)
  then obtain F where "leads realloc src n E F" "after_block src n F final bs' (out @ cs)" using end_of_block_run E(3) by blast
  then show ?thesis using leads_trans [OF 1 leads_trans [OF E(1)]] d(5) by blast
qed

subsection \<open>Tables\<close>

lemma holds_set_table:
  assumes "holds src n (C\<lparr> hr_st := st \<rparr>) bs out" "length (m_code_size tab) = 288"
  shows "holds src n (C\<lparr> hr_st := set_table i tab st \<rparr>) bs out"
proof -
  have "length (m_code_size ((m_tables st)[i := tab] ! j)) = 288" if "j < 3" for j
    using holdsD(7) [OF assms(1)] assms(2) that by (cases "i = j") (simp_all add: shape_def)
  then have "shape (set_table i tab st)" using holdsD(7) [OF assms(1)] by (simp add: shape_def set_table_def)
  then show ?thesis using assms(1) unfolding holds_def by (simp add: set_table_def stream_def)
qed

text \<open>The lengths of a code are at the front of its table.\<close>

definition sized :: "nat \<Rightarrow> nat list \<Rightarrow> tinfl_state \<Rightarrow> bool" where
  "sized i ls st \<longleftrightarrow> valid_lengths ls \<and> length ls \<le> 288 \<and> m_table_sizes st ! i = length ls \<and> take (length ls) (m_code_size (m_tables st ! i)) = ls"

lemma build_run:
  assumes "shape st" "i < 3" "sized i ls st"
  shows "\<exists>tab. table i st = Some (m_tables st ! i) \<and> array_get (m_table_sizes st) i = Some (length ls)
    \<and> build_table (length ls) (m_tables st ! i) = Some (Inr tab) \<and> m_code_size tab = m_code_size (m_tables st ! i) \<and> decodes ls tab"
proof -
  have s: "valid_lengths ls" "length ls \<le> 288" "m_table_sizes st ! i = length ls" "take (length ls) (m_code_size (m_tables st ! i)) = ls"
    using assms(3) by (simp_all add: sized_def)
  obtain tab where "build_table (length ls) (m_tables st ! i) = Some (Inr tab)" "m_code_size tab = m_code_size (m_tables st ! i)" "decodes ls tab"
    using build_table_run [OF s(1,2,4)] by blast
  then show ?thesis using assms(1,2) s(3) by (simp add: table_def shape_def)
qed

lemma set_table_simps [simp]:
  "m_table_sizes (set_table i tab st) = m_table_sizes st" "m_final (set_table i tab st) = m_final st" "m_type (set_table i tab st) = m_type st"
  "m_state (set_table i tab st) = m_state st" "m_tables (set_table i tab st) = (m_tables st)[i := tab]" "m_len_codes (set_table i tab st) = m_len_codes st"
  "m_counter (set_table i tab st) = m_counter st"
  by (simp_all add: set_table_def)

definition at_tables :: "bytes \<Rightarrow> nat \<Rightarrow> heap_run \<Rightarrow> int \<Rightarrow> bool list \<Rightarrow> bytes \<Rightarrow> bool" where
  "at_tables src n C i bs out \<longleftrightarrow> m_state (hr_st C) = Tables \<and> m_type (hr_st C) = i \<and> holds src n C bs out"

text \<open>One table of the two for the data.\<close>

lemma table_step:
  assumes at: "at_tables src n C (int i) bs out" "i < 2" "sized i ls (hr_st C)"
  shows "\<exists>D tab. leads realloc src n C D \<and> at_tables src n D (int i - 1) bs out \<and> decodes ls tab \<and> m_code_size tab = m_code_size (m_tables (hr_st C) ! i)
    \<and> m_tables (hr_st D) = (m_tables (hr_st C))[i := tab] \<and> m_table_sizes (hr_st D) = m_table_sizes (hr_st C) \<and> m_final (hr_st D) = m_final (hr_st C)"
proof -
  let ?st = "hr_st C"
  have c: "m_state ?st = Tables" "m_type ?st = int i" and h: "holds src n C bs out" using at(1) by (simp_all add: at_tables_def)
  have sh: "shape ?st" using holdsD(7) [OF h] .
  obtain tab where tab: "table i ?st = Some (m_tables ?st ! i)" "array_get (m_table_sizes ?st) i = Some (length ls)"
    "build_table (length ls) (m_tables ?st ! i) = Some (Inr tab)" "m_code_size tab = m_code_size (m_tables ?st ! i)" "decodes ls tab"
    using build_run [OF sh _ at(3)] at(2) by auto
  let ?D = "C\<lparr> hr_st := (set_table i tab ?st)\<lparr> m_type := int i - 1, m_state := Tables \<rparr> \<rparr>"
  have "tinfl_step (call_env src n (hr_cap C)) ?st = Some (None, hr_st ?D)"
    using at(2) by (simp add: tinfl_step_def c step_tables_def tab goto_def Let_def)
  then have "leads realloc src n C ?D" using leads_step by fastforce
  moreover have "length (m_code_size tab) = 288" using sh at(2) tab(4) by (simp add: shape_def)
  then have "holds src n (C\<lparr> hr_st := set_table i tab ?st \<rparr>) bs out" using h by (intro holds_set_table) simp_all
  then have "at_tables src n ?D (int i - 1) bs out" by (simp add: at_tables_def)
  ultimately show ?thesis using tab(4,5) by (intro exI [of _ ?D] exI [of _ tab]) simp
qed

lemma tables_run:
  assumes at: "at_tables src n C 1 bs out" and s: "sized 0 lit (hr_st C)" "sized 1 dist (hr_st C)"
  shows "\<exists>D. leads realloc src n C D \<and> at_codes src n D bs out \<and> ready lit dist (hr_st D) \<and> m_final (hr_st D) = m_final (hr_st C)"
proof -
  have len: "length (m_tables (hr_st C)) = 3" using at holdsD(7) [of src n C bs out] by (simp add: at_tables_def shape_def)
  obtain D tab where D: "leads realloc src n C D" "at_tables src n D 0 bs out" "decodes dist tab" "m_tables (hr_st D) = (m_tables (hr_st C))[1 := tab]"
    "m_table_sizes (hr_st D) = m_table_sizes (hr_st C)" "m_final (hr_st D) = m_final (hr_st C)"
    using table_step [of src n C 1 bs out dist realloc] at s(2) by auto
  have "sized 0 lit (hr_st D)" using s(1) by (simp add: sized_def D(4,5))
  then obtain E tab' where E: "leads realloc src n D E" "at_tables src n E (- 1) bs out" "decodes lit tab'" "m_tables (hr_st E) = (m_tables (hr_st D))[0 := tab']"
    "m_final (hr_st E) = m_final (hr_st D)"
    using table_step [of src n D 0 bs out lit realloc] D(2) by auto
  let ?F = "E\<lparr> hr_st := (hr_st E)\<lparr> m_state := Codes \<rparr> \<rparr>"
  have "leads realloc src n E ?F" using E(2) by (intro leads_step) (simp add: at_tables_def tinfl_step_def step_tables_def goto_def)
  then have "leads realloc src n C ?F" using leads_trans [OF D(1) leads_trans [OF E(1)]] by blast
  moreover have "at_codes src n ?F bs out" using E(2) by (simp add: at_tables_def at_codes_def)
  ultimately show ?thesis using D(3,4,6) E(3,4,5) len by (intro exI [of _ ?F]) (simp add: ready_def)
qed

text \<open>From the lengths to the end of the block.\<close>

lemma coded_run:
  assumes at: "at_tables src n C 1 bs out" and s: "sized 0 lit (hr_st C)" "sized 1 dist (hr_st C)" "m_final (hr_st C) mod 2 = final"
    and dec: "inflate_codes lit dist bs out = Some (bs', out')" and ok: "length out' \<le> limit" "allocates realloc limit"
  shows "\<exists>D. leads realloc src n C D \<and> after_block src n D final bs' out'"
proof -
  obtain D where D: "leads realloc src n C D" "at_codes src n D bs out" "ready lit dist (hr_st D)" "m_final (hr_st D) = m_final (hr_st C)"
    using tables_run [OF at s(1,2)] by blast
  obtain E where E: "leads realloc src n D E" "same_tables (hr_st D) (hr_st E)" "at_symbol src n E 256 bs' out'"
    using codes_run [OF _ _ ok D(2) dec] D(3) by (auto simp: ready_def)
  have "m_final (hr_st E) mod 2 = final" using E(2) D(4) s(3) by (simp add: same_tables_def)
  then obtain F where "leads realloc src n E F" "after_block src n F final bs' out'" using end_of_block_run E(3) by blast
  then show ?thesis using leads_trans [OF D(1) leads_trans [OF E(1)]] by blast
qed

end
