(* ===== verification/TinflLengths.thy ===== *)
theory TinflLengths
  imports TinflBlocks
begin

unbundle bit_operations_syntax

text \<open>
  The lengths of the codes of a block: the fixed ones, and those that the block itself holds, against \<open>read_dynamic\<close>.
\<close>

subsection \<open>Fixed codes\<close>

lemma block_write_front: "length xs \<le> length block \<Longrightarrow> block_write block 0 xs = Some (xs @ drop (length xs) block)"
  by (simp add: block_write_def)

lemma set_sizes_run:
  assumes "holds src n (C\<lparr> hr_st := st \<rparr>) bs out" "i < 3" "length xs \<le> 288"
  defines "tab \<equiv> (m_tables st ! i)\<lparr> m_code_size := xs @ drop (length xs) (m_code_size (m_tables st ! i)) \<rparr>"
  shows "set_sizes i xs st = Some (set_table i tab st)" "holds src n (C\<lparr> hr_st := set_table i tab st \<rparr>) bs out"
    "m_tables (set_table i tab st) ! i = tab"
proof -
  have sh: "length (m_tables st) = 3" "length (m_code_size (m_tables st ! i)) = 288" using holdsD(7) [OF assms(1)] assms(2) by (simp_all add: shape_def)
  show "set_sizes i xs st = Some (set_table i tab st)"
    using assms(2,3) sh by (simp add: set_sizes_def table_def block_write_front tab_def)
  show "holds src n (C\<lparr> hr_st := set_table i tab st \<rparr>) bs out" using assms(3) sh by (intro holds_set_table [OF assms(1)]) (simp add: tab_def)
  show "m_tables (set_table i tab st) ! i = tab" using assms(2) sh by simp
qed

lemma fixed_valid: "valid_lengths fixed_lit_lengths" "length fixed_lit_lengths = 288" "valid_lengths fixed_dist_lengths" "length fixed_dist_lengths = 32"
  by (simp_all add: valid_lengths_def kraft_def fixed_lit_lengths_def fixed_dist_lengths_def sum_list_replicate list_all_iff)

lemma holds_sizes:
  assumes "holds src n (C\<lparr> hr_st := st \<rparr>) bs out" "length ts = 3"
  shows "holds src n (C\<lparr> hr_st := st\<lparr> m_table_sizes := ts \<rparr> \<rparr>) bs out"
  using assms by (simp add: holds_def shape_def stream_def)

lemma fixed_run:
  assumes at: "at_block src n C bs out" "read_bits 1 bs = Some (final, bs1)" "read_bits 2 bs1 = Some (1, bs2)"
    and dec: "inflate_codes fixed_lit_lengths fixed_dist_lengths bs2 out = Some (bs', out')" and ok: "length out' \<le> limit" "allocates realloc limit"
  shows "\<exists>D. leads realloc src n C D \<and> after_block src n D final bs' out'"
proof -
  let ?env = "call_env src n (hr_cap C)"
  obtain v st1 where v: "get_bits ?env 3 (hr_st C) = Some (v, st1)" "v div 2 = 1" "begun src n C final 1 (st1\<lparr> m_final := v, m_type := 1 \<rparr>) bs2 out"
    using block_begins [OF at] by auto
  let ?st1 = "st1\<lparr> m_final := v, m_type := 1 \<rparr>"
  let ?st2 = "?st1\<lparr> m_table_sizes := (m_table_sizes ?st1)[0 := 288, 1 := 32] \<rparr>"
  have h1: "holds src n (C\<lparr> hr_st := ?st1 \<rparr>) bs2 out" "m_final ?st1 mod 2 = final" using v(3) by (simp_all add: begun_def)
  have sizes: "length (m_table_sizes ?st1) = 3" "length (m_tables ?st1) = 3" using holdsD(7) [OF h1(1)] by (simp_all add: shape_def)
  have h2: "holds src n (C\<lparr> hr_st := ?st2 \<rparr>) bs2 out" using holds_sizes [OF h1(1)] sizes(1) by simp
  let ?tab1 = "(m_tables ?st1 ! 1)\<lparr> m_code_size := replicate 32 5 @ drop 32 (m_code_size (m_tables ?st1 ! 1)) \<rparr>"
  let ?st3 = "set_table 1 ?tab1 ?st2"
  have s1: "set_sizes 1 (replicate 32 5) ?st2 = Some ?st3" "holds src n (C\<lparr> hr_st := ?st3 \<rparr>) bs2 out"
    using set_sizes_run [OF h2, of 1 "replicate 32 5"] by simp_all
  let ?tab0 = "(m_tables ?st1 ! 0)\<lparr> m_code_size := fixed_lit_lengths @ drop 288 (m_code_size (m_tables ?st1 ! 0)) \<rparr>"
  let ?st4 = "set_table 0 ?tab0 ?st3"
  have s0: "set_sizes 0 fixed_lit_lengths ?st3 = Some ?st4" "holds src n (C\<lparr> hr_st := ?st4 \<rparr>) bs2 out"
    using set_sizes_run [OF s1(2), of 0 fixed_lit_lengths] by (simp_all add: fixed_valid)
  let ?D = "C\<lparr> hr_st := ?st4\<lparr> m_state := Tables \<rparr> \<rparr>"
  have "fixed_tables ?st1 = Some ?st4" using s1(1) s0(1) by (simp add: fixed_tables_def fixed_lit_lengths_def)
  then have "tinfl_step ?env (hr_st C) = Some (None, hr_st ?D)"
    using at(1) v(1,2) by (simp add: tinfl_step_def at_block_def step_block_def bind2_def Let_def goto_def)
  then have 1: "leads realloc src n C ?D" using leads_step by fastforce
  have "at_tables src n ?D 1 bs2 out" using s0(2) by (simp add: at_tables_def)
  moreover have "sized 0 fixed_lit_lengths (hr_st ?D)" using sizes by (simp add: sized_def fixed_valid)
  moreover have "sized 1 fixed_dist_lengths (hr_st ?D)" using sizes fixed_valid(3) by (simp add: sized_def fixed_dist_lengths_def)
  moreover have "m_final (hr_st ?D) mod 2 = final" using h1(2) by simp
  ultimately obtain E where "leads realloc src n ?D E" "after_block src n E final bs' out'" using coded_run [OF _ _ _ _ dec ok] by blast
  then show ?thesis using leads_trans [OF 1] by blast
qed

subsection \<open>Codes in the block\<close>

text \<open>What stays the same while the lengths are read.\<close>

definition reading :: "tinfl_state \<Rightarrow> tinfl_state \<Rightarrow> bool" where
  "reading st st' \<longleftrightarrow> m_final st' = m_final st \<and> m_type st' = m_type st \<and> m_state st' = m_state st"

lemma reading_refl [simp]: "reading st st"
  by (simp add: reading_def)

lemma reading_trans [trans]: "reading a b \<Longrightarrow> reading b c \<Longrightarrow> reading a c"
  by (simp add: reading_def)

lemma reading_advance: "advance st st' \<Longrightarrow> reading st st'"
  by (simp add: reading_def advance_fields)

lemma bits_run:
  assumes "holds src n (C\<lparr> hr_st := st \<rparr>) bs out" "read_bits k bs = Some (x, bs')" "k \<le> 16"
  shows "\<exists>st'. get_bits (call_env src n (hr_cap C)) k st = Some (x, st') \<and> holds src n (C\<lparr> hr_st := st' \<rparr>) bs' out \<and> advance st st'"
proof -
  have "stream (call_env src n (hr_cap C)) st bs" using holdsD(1) [OF assms(1)] by simp
  then obtain st' where st': "get_bits (call_env src n (hr_cap C)) k st = Some (x, st')" "stream (call_env src n (hr_cap C)) st' bs'" "advance st st'"
    using get_bits_run assms(2,3) by blast
  then show ?thesis using holds_advance [OF assms(1), of st'] by simp
qed

lemma table_size_run:
  assumes h: "holds src n (C\<lparr> hr_st := st \<rparr>) bs out" and i: "i < 3" and r: "read_bits ([5, 5, 4] ! i) bs = Some (x, bs')"
  shows "\<exists>st'. read_table_size (call_env src n (hr_cap C)) st i = Some st' \<and> holds src n (C\<lparr> hr_st := st' \<rparr>) bs' out \<and> reading st st'
    \<and> m_table_sizes st' = (m_table_sizes st)[i := x + s_min_table_sizes ! i] \<and> m_tables st' = m_tables st"
proof -
  have "i = 0 \<or> i = 1 \<or> i = 2" using i by linarith
  then have "[5, 5, 4] ! i \<le> (16 :: nat)" by auto
  then obtain st1 where st1: "get_bits (call_env src n (hr_cap C)) ([5, 5, 4] ! i) st = Some (x, st1)" "holds src n (C\<lparr> hr_st := st1 \<rparr>) bs' out" "advance st st1"
    using bits_run [OF h r] by blast
  let ?st = "st1\<lparr> m_table_sizes := (m_table_sizes st1)[i := x + s_min_table_sizes ! i] \<rparr>"
  have "length (m_table_sizes st1) = 3" using holdsD(7) [OF st1(2)] by (simp add: shape_def)
  then have "holds src n (C\<lparr> hr_st := ?st \<rparr>) bs' out" using holds_sizes [OF st1(2)] by simp
  then show ?thesis using st1(1,3) advance_fields [OF st1(3)] by (intro exI [of _ ?st]) (simp add: read_table_size_def bind2_def reading_def)
qed

lemma table_sizes_run:
  assumes h: "holds src n (C\<lparr> hr_st := st \<rparr>) bs out"
    and r: "read_bits 5 bs = Some (hlit, bs1)" "read_bits 5 bs1 = Some (hdist, bs2)" "read_bits 4 bs2 = Some (hclen, bs3)"
  shows "\<exists>st'. fold_opt (read_table_size (call_env src n (hr_cap C))) st [0..<3] = Some st' \<and> holds src n (C\<lparr> hr_st := st' \<rparr>) bs3 out \<and> reading st st'
    \<and> m_table_sizes st' = [hlit + 257, hdist + 1, hclen + 4]"
proof -
  let ?read = "read_table_size (call_env src n (hr_cap C))"
  obtain st1 where st1: "?read st 0 = Some st1" "holds src n (C\<lparr> hr_st := st1 \<rparr>) bs1 out" "reading st st1" "m_table_sizes st1 = (m_table_sizes st)[0 := hlit + 257]"
    using table_size_run [OF h, of 0] r(1) by (auto simp: s_min_table_sizes_def)
  obtain st2 where st2: "?read st1 1 = Some st2" "holds src n (C\<lparr> hr_st := st2 \<rparr>) bs2 out" "reading st1 st2" "m_table_sizes st2 = (m_table_sizes st1)[1 := hdist + 1]"
    using table_size_run [OF st1(2), of 1] r(2) by (auto simp: s_min_table_sizes_def)
  obtain st3 where st3: "?read st2 2 = Some st3" "holds src n (C\<lparr> hr_st := st3 \<rparr>) bs3 out" "reading st2 st3" "m_table_sizes st3 = (m_table_sizes st2)[2 := hclen + 4]"
    using table_size_run [OF st2(2), of 2] r(3) by (auto simp: s_min_table_sizes_def)
  have "[0..<3] = [0, 1, 2 :: nat]" by (simp add: upt_rec)
  then have "fold_opt ?read st [0..<3] = Some st3" using st1(1) st2(1) st3(1) by simp
  moreover have "length (m_table_sizes st) = 3" using holdsD(7) [OF h] by (simp add: shape_def)
  then obtain a b c where "m_table_sizes st = [a, b, c]" by (auto simp: length_Suc_conv eval_nat_numeral)
  then have "m_table_sizes st3 = [hlit + 257, hdist + 1, hclen + 4]" using st1(4) st2(4) st3(4) by simp
  moreover have "reading st st3" using reading_trans [OF reading_trans [OF st1(3) st2(3)] st3(3)] .
  ultimately show ?thesis using st3(2) by blast
qed

text \<open>The lengths for the code of the lengths.\<close>

definition cl_sizes :: "nat list \<Rightarrow> tinfl_state \<Rightarrow> bool" where
  "cl_sizes cl st \<longleftrightarrow> length cl = 19 \<and> m_code_size (m_tables st ! 2) = cl @ replicate 269 0"

lemma code_size_run:
  assumes h: "holds src n (C\<lparr> hr_st := st \<rparr>) bs out" and cl: "cl_sizes cl st" and j: "j < 19" and r: "read_bits 3 bs = Some (l, bs')"
  shows "\<exists>st'. read_code_size (call_env src n (hr_cap C)) st j = Some st' \<and> holds src n (C\<lparr> hr_st := st' \<rparr>) bs' out \<and> reading st st'
    \<and> m_table_sizes st' = m_table_sizes st \<and> cl_sizes (cl[length_order ! j := l]) st'"
proof -
  obtain st1 where st1: "get_bits (call_env src n (hr_cap C)) 3 st = Some (l, st1)" "holds src n (C\<lparr> hr_st := st1 \<rparr>) bs' out" "advance st st1"
    using bits_run [OF h r] by auto
  let ?i = "length_order ! j" let ?tab = "m_tables st1 ! 2"
  have order: "s_length_dezigzag = length_order" "length length_order = 19" by (simp_all add: s_length_dezigzag_def length_order_def)
  have "list_all (\<lambda>i. i < 19) length_order" by (simp add: length_order_def)
  then have i: "?i < 19" using j order(2) by (simp add: list_all_length)
  have sh: "length (m_tables st1) = 3" "length (m_code_size ?tab) = 288" using holdsD(7) [OF st1(2)] by (simp_all add: shape_def)
  have code: "m_code_size ?tab = cl @ replicate 269 0" "length cl = 19" using cl advance_fields(7) [OF st1(3)] by (simp_all add: cl_sizes_def)
  let ?tab' = "?tab\<lparr> m_code_size := (m_code_size ?tab)[?i := l] \<rparr>"
  let ?st = "set_table 2 ?tab' st1"
  have "read_code_size (call_env src n (hr_cap C)) st j = Some ?st"
    using st1(1) sh i j order(2) by (simp add: read_code_size_def bind2_def table_def order(1))
  moreover have "holds src n (C\<lparr> hr_st := ?st \<rparr>) bs' out" using sh(2) by (intro holds_set_table [OF st1(2)]) simp
  moreover have "cl_sizes (cl[?i := l]) ?st" using code i sh(1) by (simp add: cl_sizes_def list_update_append)
  moreover have "reading st ?st" using reading_advance [OF st1(3)] by (simp add: reading_def)
  moreover have "m_table_sizes ?st = m_table_sizes st" using advance_fields(6) [OF st1(3)] by simp
  ultimately show ?thesis by blast
qed

lemma code_sizes_run:
  assumes m: "m \<le> 19"
  shows "holds src n (C\<lparr> hr_st := st \<rparr>) bs out \<Longrightarrow> cl_sizes cl st \<Longrightarrow> j \<le> m \<Longrightarrow> read_cl_lengths (drop j (take m length_order)) cl bs = Some (cl', bs') \<Longrightarrow>
    \<exists>st'. fold_opt (read_code_size (call_env src n (hr_cap C))) st [j..<m] = Some st' \<and> holds src n (C\<lparr> hr_st := st' \<rparr>) bs' out \<and> reading st st'
    \<and> m_table_sizes st' = m_table_sizes st \<and> cl_sizes cl' st'"
proof (induction "m - j" arbitrary: j st bs cl)
  case (Suc d)
  have len: "length length_order = 19" by (simp add: length_order_def)
  have j: "j < m" using Suc.hyps(2) by simp
  then have dr: "drop j (take m length_order) = length_order ! j # drop (Suc j) (take m length_order)"
    using m len Cons_nth_drop_Suc [of j "take m length_order"] by simp
  obtain l bs1 where l: "read_bits 3 bs = Some (l, bs1)" "read_cl_lengths (drop (Suc j) (take m length_order)) (cl[length_order ! j := l]) bs1 = Some (cl', bs')"
    using Suc.prems(4) unfolding dr by (auto simp: bind_eq_Some_conv)
  have j19: "j < 19" using j m by simp
  obtain st1 where st1: "read_code_size (call_env src n (hr_cap C)) st j = Some st1" "holds src n (C\<lparr> hr_st := st1 \<rparr>) bs1 out" "reading st st1"
    "m_table_sizes st1 = m_table_sizes st" "cl_sizes (cl[length_order ! j := l]) st1"
    using code_size_run [OF Suc.prems(1,2) j19 l(1)] by blast
  have "d = m - Suc j" "Suc j \<le> m" using Suc.hyps(2) by simp_all
  then obtain st2 where st2: "fold_opt (read_code_size (call_env src n (hr_cap C))) st1 [Suc j..<m] = Some st2" "holds src n (C\<lparr> hr_st := st2 \<rparr>) bs' out"
    "reading st1 st2" "m_table_sizes st2 = m_table_sizes st1" "cl_sizes cl' st2"
    using Suc.hyps(1) [OF _ st1(2,5) _ l(2)] by blast
  have "fold_opt (read_code_size (call_env src n (hr_cap C))) st [j..<m] = Some st2"
    using st1(1) st2(1) j by (simp add: upt_conv_Cons)
  then show ?case using st2(2-5) st1(4) reading_trans [OF st1(3) st2(3)] by auto
next
  case 0
  then have "j = m" by simp
  then show ?case using 0 by (intro exI [of _ st]) simp
qed

lemma dynamic_tables_run:
  assumes h: "holds src n (C\<lparr> hr_st := st \<rparr>) bs out"
    and r: "read_bits 5 bs = Some (hlit, bs1)" "read_bits 5 bs1 = Some (hdist, bs2)" "read_bits 4 bs2 = Some (hclen, bs3)"
      "read_cl_lengths (take (hclen + 4) length_order) (replicate 19 0) bs3 = Some (cl, bs4)"
  shows "\<exists>st'. dynamic_tables (call_env src n (hr_cap C)) st = Some st' \<and> holds src n (C\<lparr> hr_st := st' \<rparr>) bs4 out \<and> reading st st'
    \<and> m_table_sizes st' = [hlit + 257, hdist + 1, 19] \<and> cl_sizes cl st'"
proof -
  let ?env = "call_env src n (hr_cap C)"
  have hclen: "hclen + 4 \<le> 19" using r(3) horner_less [of "take 4 bs2"] by (auto simp: read_bits_Some)
  obtain st1 where st1: "fold_opt (read_table_size ?env) st [0..<3] = Some st1" "holds src n (C\<lparr> hr_st := st1 \<rparr>) bs3 out" "reading st st1"
    "m_table_sizes st1 = [hlit + 257, hdist + 1, hclen + 4]"
    using table_sizes_run [OF h r(1-3)] by blast
  have sh: "length (m_tables st1) = 3" "length (m_code_size (m_tables st1 ! 2)) = 288" using holdsD(7) [OF st1(2)] by (simp_all add: shape_def)
  let ?tab = "(m_tables st1 ! 2)\<lparr> m_code_size := replicate 288 0 @ drop 288 (m_code_size (m_tables st1 ! 2)) \<rparr>"
  let ?st2 = "set_table 2 ?tab st1"
  have st2: "set_sizes 2 (replicate TINFL_MAX_HUFF_SYMBOLS_0 0) st1 = Some ?st2" "holds src n (C\<lparr> hr_st := ?st2 \<rparr>) bs3 out" "m_tables ?st2 ! 2 = ?tab"
    using set_sizes_run [OF st1(2), of 2 "replicate 288 0"] by (simp_all add: TINFL_MAX_HUFF_SYMBOLS_0_def)
  have cl2: "cl_sizes (replicate 19 0) ?st2" using sh by (simp add: cl_sizes_def st2(3) replicate_add [symmetric])
  have r4: "read_cl_lengths (drop 0 (take (hclen + 4) length_order)) (replicate 19 0) bs3 = Some (cl, bs4)" using r(4) by simp
  obtain st3 where st3: "fold_opt (read_code_size ?env) ?st2 [0..<hclen + 4] = Some st3" "holds src n (C\<lparr> hr_st := st3 \<rparr>) bs4 out" "reading ?st2 st3"
    "m_table_sizes st3 = m_table_sizes ?st2" "cl_sizes cl st3"
    using code_sizes_run [OF hclen st2(2) cl2 _ r4] by auto
  let ?st4 = "st3\<lparr> m_table_sizes := (m_table_sizes st3)[2 := 19] \<rparr>"
  have "m_table_sizes ?st2 ! 2 = hclen + 4" using st1(4) by simp
  then have "dynamic_tables ?env st = Some ?st4" using st1(1) st2(1) st3(1) by (simp add: dynamic_tables_def)
  moreover have "holds src n (C\<lparr> hr_st := ?st4 \<rparr>) bs4 out" using holds_sizes [OF st3(2)] st3(4) st1(4) by simp
  moreover have "reading st ?st4" using st1(3) st3(3) by (simp add: reading_def)
  moreover have "m_table_sizes ?st4 = [hlit + 257, hdist + 1, 19]" using st3(4) st1(4) by simp
  moreover have "cl_sizes cl ?st4" using st3(5) by (simp add: cl_sizes_def)
  ultimately show ?thesis by blast
qed

text \<open>What the next code of the lengths is.\<close>

lemma read_lengths_cases:
  assumes "read_lengths cl n ls bs = Some (ls', bs')" "length cl = 19"
  obtains (finish) "length ls = n" "ls' = ls" "bs' = bs"
    | (one) s bs1 where "length ls < n" "decode_symbol cl bs = Some (s, bs1)" "s < 16" "read_lengths cl n (ls @ [s]) bs1 = Some (ls', bs')"
    | (more) s bs1 k x bs2 where "length ls < n" "decode_symbol cl bs = Some (s, bs1)" "16 \<le> s" "s \<le> 18" "s = 16 \<Longrightarrow> ls \<noteq> []"
      "[2, 3, 7] ! (s - 16) = k" "read_bits k bs1 = Some (x, bs2)"
      "read_lengths cl n (ls @ replicate (x + [3, 3, 11] ! (s - 16)) (if s = 16 then last ls else 0)) bs2 = Some (ls', bs')"
proof (cases "n \<le> length ls")
  case True
  then show ?thesis using finish assms(1) by (subst (asm) read_lengths.simps) (simp split: if_splits)
next
  case False
  note read_lengths.simps [of cl n ls bs]
  with assms(1) False obtain s bs1 where s: "decode_symbol cl bs = Some (s, bs1)" and rest:
    "(if s < 16 then read_lengths cl n (ls @ [s]) bs1
      else if s = 16
      then if ls = [] then None else Option.bind (read_bits 2 bs1) (\<lambda>(x, bs). read_lengths cl n (ls @ replicate (x + 3) (last ls)) bs)
      else if s = 17
      then Option.bind (read_bits 3 bs1) (\<lambda>(x, bs). read_lengths cl n (ls @ replicate (x + 3) 0) bs)
      else Option.bind (read_bits 7 bs1) (\<lambda>(x, bs). read_lengths cl n (ls @ replicate (x + 11) 0) bs)) = Some (ls', bs')"
    by (auto simp: bind_eq_Some_conv)
  have s18: "s \<le> 18" using s assms(2) by (auto simp: decode_symbol_def find_Some_iff)
  consider "s < 16" | "s = 16" | "s = 17" | "s = 18" using s18 by linarith
  then show ?thesis
  proof cases
    case 1
    then show ?thesis using one [OF _ s] False rest by simp
  next
    case 2
    then show ?thesis using more [OF _ s] False rest by (auto simp: bind_eq_Some_conv split: if_splits)
  next
    case 3
    then show ?thesis using more [OF _ s] False rest by (auto simp: bind_eq_Some_conv)
  next
    case 4
    then show ?thesis using more [OF _ s] False rest by (auto simp: bind_eq_Some_conv)
  qed
qed

definition lens_read :: "nat list \<Rightarrow> tinfl_state \<Rightarrow> bool" where
  "lens_read ls st \<longleftrightarrow> take (length ls) (m_len_codes st) = ls"

lemma holds_len_codes:
  assumes "holds src n (C\<lparr> hr_st := st \<rparr>) bs out" "length xs = 457"
  shows "holds src n (C\<lparr> hr_st := st\<lparr> m_len_codes := xs \<rparr> \<rparr>) bs out"
  using assms by (simp add: holds_def shape_def stream_def)

text \<open>Lengths added behind those that are there.\<close>

lemma lens_write:
  assumes "holds src n (C\<lparr> hr_st := st \<rparr>) bs out" "lens_read ls st" "length ls + length ys \<le> 457"
  obtains xs where "block_write (m_len_codes st) (length ls) ys = Some xs" "holds src n (C\<lparr> hr_st := st\<lparr> m_len_codes := xs \<rparr> \<rparr>) bs out"
    "lens_read (ls @ ys) (st\<lparr> m_len_codes := xs \<rparr>)"
proof -
  have len: "length (m_len_codes st) = 457" using holdsD(7) [OF assms(1)] by (simp add: shape_def)
  then obtain xs where xs: "block_write (m_len_codes st) (length ls) ys = Some xs" using assms(3) by (simp add: block_write_def)
  then show ?thesis using that holds_len_codes [OF assms(1)] block_write_take [OF xs] assms(2) len by (simp add: lens_read_def)
qed

lemma read_len_codes_run:
  assumes cl: "length cl = 19" and total: "n' \<le> 320"
  shows "holds src n (C\<lparr> hr_st := st \<rparr>) bs out \<Longrightarrow> decodes cl (m_tables st ! 2) \<Longrightarrow> lens_read ls st \<Longrightarrow> read_lengths cl n' ls bs = Some (ls', bs') \<Longrightarrow>
    \<exists>st'. read_len_codes (call_env src n (hr_cap C)) n' (length ls) st = Some (Inr (n', st')) \<and> holds src n (C\<lparr> hr_st := st' \<rparr>) bs' out
      \<and> reading st st' \<and> m_tables st' = m_tables st \<and> m_table_sizes st' = m_table_sizes st \<and> lens_read ls' st' \<and> length ls' = n'"
proof (induction "length bs" arbitrary: ls bs st rule: less_induct)
  case less
  let ?env = "call_env src n (hr_cap C)"
  note unfold = read_len_codes.simps [of ?env n' "length ls" st]
  have str: "stream ?env st bs" using holdsD(1) [OF less.prems(1)] by simp
  have tab: "table 2 st = Some (m_tables st ! 2)" using holdsD(7) [OF less.prems(1)] by (simp add: table_def shape_def)
  from less.prems(4) cl show ?case
  proof (cases rule: read_lengths_cases)
    case finish
    then show ?thesis using less.prems(1,3) by (intro exI [of _ st]) (auto simp: read_len_codes.simps)
  next
    case (one s bs1)
    obtain st1 where st1: "huff_decode ?env (m_tables st ! 2) st = Some (s, st1)" "stream ?env st1 bs1" "advance st st1"
      using huff_decode_run [OF less.prems(2) one(2) str] by blast
    have h1: "holds src n (C\<lparr> hr_st := st1 \<rparr>) bs1 out" using holds_advance [OF less.prems(1), of st1] st1(2,3) by simp
    have lr1: "lens_read ls st1" using less.prems(3) advance_fields(8) [OF st1(3)] by (simp add: lens_read_def)
    have room: "length ls + length [s] \<le> 457" using one(1) total by simp
    obtain xs where xs: "block_write (m_len_codes st1) (length ls) [s] = Some xs" "holds src n (C\<lparr> hr_st := st1\<lparr> m_len_codes := xs \<rparr> \<rparr>) bs1 out"
      "lens_read (ls @ [s]) (st1\<lparr> m_len_codes := xs \<rparr>)"
      using lens_write [OF h1 lr1 room] by blast
    have "length (m_len_codes st1) = 457" using holdsD(7) [OF h1] by (simp add: shape_def)
    then have "array_set (m_len_codes st1) (length ls) s = Some xs" using xs(1) room by (simp add: block_write_def upd_conv_take_nth_drop)
    then have step: "read_len_codes ?env n' (length ls) st = read_len_codes ?env n' (length (ls @ [s])) (st1\<lparr> m_len_codes := xs \<rparr>)"
      using one(1,3) by (simp add: unfold tab bind2_def st1(1))
    have "decodes cl (m_tables (st1\<lparr> m_len_codes := xs \<rparr>) ! 2)" using less.prems(2) advance_fields(7) [OF st1(3)] by simp
    with less.hyps [OF decode_symbol_shorter [OF one(2)] xs(2) _ xs(3) one(4)] show ?thesis
      unfolding step using advance_fields [OF st1(3)] by (auto simp: reading_def)
  next
    case (more s bs1 k x bs2)
    let ?c = "if s = 16 then last ls else 0" let ?m = "x + [3, 3, 11] ! (s - 16)"
    have s3: "s = 16 \<or> s = 17 \<or> s = 18" using more(3,4) by linarith
    obtain st1 where st1: "huff_decode ?env (m_tables st ! 2) st = Some (s, st1)" "stream ?env st1 bs1" "advance st st1"
      using huff_decode_run [OF less.prems(2) more(2) str] by blast
    have h1: "holds src n (C\<lparr> hr_st := st1 \<rparr>) bs1 out" using holds_advance [OF less.prems(1), of st1] st1(2,3) by simp
    have k: "k \<le> 16" using s3 more(6) by auto
    obtain st2 where st2: "get_bits ?env k st1 = Some (x, st2)" "holds src n (C\<lparr> hr_st := st2 \<rparr>) bs2 out" "advance st1 st2"
      using bits_run [OF h1 more(7) k] by blast
    have adv: "advance st st2" using advance_trans [OF st1(3) st2(3)] .
    have lr2: "lens_read ls st2" using less.prems(3) advance_fields(8) [OF adv] by (simp add: lens_read_def)
    have "x < 2 ^ k" using more(7) horner_less [of "take k bs1"] by (auto simp: read_bits_Some)
    then have "?m \<le> 138" using s3 more(6) by auto
    then have room: "length ls + length (replicate ?m ?c) \<le> 457" using more(1) total by simp
    obtain xs where xs: "block_write (m_len_codes st2) (length ls) (replicate ?m ?c) = Some xs" "holds src n (C\<lparr> hr_st := st2\<lparr> m_len_codes := xs \<rparr> \<rparr>) bs2 out"
      "lens_read (ls @ replicate ?m ?c) (st2\<lparr> m_len_codes := xs \<rparr>)"
      using lens_write [OF st2(2) lr2 room] by blast
    have len: "length (m_len_codes st2) = 457" using holdsD(7) [OF st2(2)] by (simp add: shape_def)
    have c: "(if s = 16 then array_get (m_len_codes st2) (length ls - 1) else Some 0) = Some ?c"
    proof (cases "s = 16")
      case True
      then have "ls \<noteq> []" using more(5) by simp
      then have "m_len_codes st2 ! (length ls - 1) = last ls"
        using lr2 nth_take [of "length ls - 1" "length ls" "m_len_codes st2"] by (simp add: lens_read_def last_conv_nth)
      then show ?thesis using True len more(1) total by simp
    qed simp
    have extra: "array_get [2, 3, 7] (s - 16) = Some k" using s3 more(6) by auto
    have step: "read_len_codes ?env n' (length ls) st = read_len_codes ?env n' (length (ls @ replicate ?m ?c)) (st2\<lparr> m_len_codes := xs \<rparr>)"
    proof -
      have no: "\<not> (s = 16 \<and> length ls = 0)" "\<not> s < 16" "\<not> n' \<le> length ls" using more(1,3,5) by auto
      show ?thesis unfolding unfold tab bind2_def bind.bind_lunit st1(1) prod.case Let_def extra st2(1) c xs(1) if_not_P [OF no(1)] if_not_P [OF no(2)] if_not_P [OF no(3)]
        by simp
    qed
    have "length bs2 < length bs" using decode_symbol_shorter [OF more(2)] more(7) by (auto simp: read_bits_Some)
    moreover have "decodes cl (m_tables (st2\<lparr> m_len_codes := xs \<rparr>) ! 2)" using less.prems(2) advance_fields(7) [OF adv] by simp
    ultimately show ?thesis
      using less.hyps [OF _ xs(2) _ xs(3) more(8)] unfolding step using advance_fields [OF adv] by (auto simp: reading_def)
  qed
qed

text \<open>A block with its own codes.\<close>

lemma sizes_of_data:
  assumes h: "holds src n (C\<lparr> hr_st := st \<rparr>) bs out" and ls: "lens_read ls st" "length ls = n0 + n1" "n0 \<le> 288" "n1 \<le> 288"
    and v: "valid_lengths (take n0 ls)" "valid_lengths (drop n0 ls)" and sz: "m_table_sizes st ! 0 = n0" "m_table_sizes st ! 1 = n1"
  shows "\<exists>st1 st2. set_sizes 0 (take n0 (m_len_codes st)) st = Some st1 \<and> set_sizes 1 (take n1 (drop n0 (m_len_codes st1))) st1 = Some st2
    \<and> holds src n (C\<lparr> hr_st := st2 \<rparr>) bs out \<and> sized 0 (take n0 ls) st2 \<and> sized 1 (drop n0 ls) st2 \<and> reading st st2"
proof -
  have t: "take (n0 + n1) (m_len_codes st) = ls" using ls(1,2) by (simp add: lens_read_def)
  have lit: "take n0 (m_len_codes st) = take n0 ls" by (simp flip: t add: min_def)
  have dist: "take n1 (drop n0 (m_len_codes st)) = drop n0 ls" by (simp flip: t add: take_drop add.commute)
  have len: "length (take n0 ls) = n0" "length (drop n0 ls) = n1" using ls(2) by simp_all
  have sh: "length (m_tables st) = 3" using holdsD(7) [OF h] by (simp add: shape_def)
  let ?tab0 = "(m_tables st ! 0)\<lparr> m_code_size := take n0 ls @ drop n0 (m_code_size (m_tables st ! 0)) \<rparr>"
  let ?st1 = "set_table 0 ?tab0 st"
  have s0: "set_sizes 0 (take n0 ls) st = Some ?st1" "holds src n (C\<lparr> hr_st := ?st1 \<rparr>) bs out"
    using set_sizes_run(1,2) [OF h, of 0 "take n0 ls", unfolded len] ls(3) by simp_all
  let ?tab1 = "(m_tables ?st1 ! 1)\<lparr> m_code_size := drop n0 ls @ drop n1 (m_code_size (m_tables ?st1 ! 1)) \<rparr>"
  let ?st2 = "set_table 1 ?tab1 ?st1"
  have s1: "set_sizes 1 (drop n0 ls) ?st1 = Some ?st2" "holds src n (C\<lparr> hr_st := ?st2 \<rparr>) bs out"
    using set_sizes_run(1,2) [OF s0(2), of 1 "drop n0 ls", unfolded len] ls(4) by simp_all
  have "sized 0 (take n0 ls) ?st2" "sized 1 (drop n0 ls) ?st2" using v ls(2-4) sz sh by (simp_all add: sized_def)
  moreover have "reading st ?st2" by (simp add: reading_def)
  moreover have "set_sizes 0 (take n0 (m_len_codes st)) st = Some ?st1" using s0(1) by (simp only: lit)
  moreover have "set_sizes 1 (take n1 (drop n0 (m_len_codes ?st1))) ?st1 = Some ?st2" using s1(1) by (simp only: set_table_simps dist)
  ultimately show ?thesis using s1(2) by blast
qed

lemma dynamic_run:
  assumes at: "at_block src n C bs out" "read_bits 1 bs = Some (final, bs1)" "read_bits 2 bs1 = Some (2, bs2)"
    and dyn: "read_dynamic bs2 = Some ((lit, dist), bs3)"
    and dec: "inflate_codes lit dist bs3 out = Some (bs', out')" and ok: "length out' \<le> limit" "allocates realloc limit"
  shows "\<exists>D. leads realloc src n C D \<and> after_block src n D final bs' out'"
proof -
  let ?env = "call_env src n (hr_cap C)"
  obtain v st1 where v: "get_bits ?env 3 (hr_st C) = Some (v, st1)" "v div 2 = 2" "begun src n C final 2 (st1\<lparr> m_final := v, m_type := 2 \<rparr>) bs2 out"
    using block_begins [OF at] by auto
  let ?st1 = "st1\<lparr> m_final := v, m_type := 2 \<rparr>"
  have h1: "holds src n (C\<lparr> hr_st := ?st1 \<rparr>) bs2 out" "m_final ?st1 mod 2 = final" using v(3) by (simp_all add: begun_def)
  obtain hlit b1 hdist b2 hclen b3 cl b4 ls where d: "read_bits 5 bs2 = Some (hlit, b1)" "read_bits 5 b1 = Some (hdist, b2)" "read_bits 4 b2 = Some (hclen, b3)"
    "read_cl_lengths (take (hclen + 4) length_order) (replicate 19 0) b3 = Some (cl, b4)" "valid_lengths cl"
    "read_lengths cl (hlit + 257 + (hdist + 1)) [] b4 = Some (ls, bs3)" "lit = take (hlit + 257) ls" "dist = drop (hlit + 257) ls"
    "valid_lengths lit" "valid_lengths dist"
    using dyn by (auto simp: read_dynamic_def bind_eq_Some_conv Let_def split: if_splits)
  obtain st2 where st2: "dynamic_tables ?env ?st1 = Some st2" "holds src n (C\<lparr> hr_st := st2 \<rparr>) b4 out" "reading ?st1 st2"
    "m_table_sizes st2 = [hlit + 257, hdist + 1, 19]" "cl_sizes cl st2"
    using dynamic_tables_run [OF h1(1) d(1-4)] by blast
  let ?D = "C\<lparr> hr_st := st2\<lparr> m_state := Tables \<rparr> \<rparr>"
  have "tinfl_step ?env (hr_st C) = Some (None, hr_st ?D)"
    using at(1) v(1,2) st2(1) by (simp add: tinfl_step_def at_block_def step_block_def bind2_def Let_def goto_def)
  then have 1: "leads realloc src n C ?D" using leads_step by fastforce
  have small: "hlit < 32" "hdist < 32" using d(1,2) horner_less [of "take 5 bs2"] horner_less [of "take 5 b1"] by (auto simp: read_bits_Some)
  have cl: "length cl = 19" "sized 2 cl (hr_st ?D)" using st2(4,5) d(5) by (simp_all add: cl_sizes_def sized_def)
  have hD: "holds src n ?D b4 out" using st2(2) by simp
  have kind: "m_state (hr_st ?D) = Tables" "m_type (hr_st ?D) = 2" using st2(3) by (simp_all add: reading_def)
  obtain tab where tab: "table 2 (hr_st ?D) = Some (m_tables (hr_st ?D) ! 2)" "array_get (m_table_sizes (hr_st ?D)) 2 = Some (length cl)"
    "build_table (length cl) (m_tables (hr_st ?D) ! 2) = Some (Inr tab)" "m_code_size tab = m_code_size (m_tables (hr_st ?D) ! 2)" "decodes cl tab"
    using build_run [OF holdsD(7) [OF hD] _ cl(2)] by auto
  let ?st3 = "set_table 2 tab (hr_st ?D)"
  have sh: "length (m_tables st2) = 3" "length (m_code_size (m_tables st2 ! 2)) = 288" using holdsD(7) [OF st2(2)] by (simp_all add: shape_def)
  have h3: "holds src n (?D\<lparr> hr_st := ?st3 \<rparr>) b4 out" using hD tab(4) sh(2) by (intro holds_set_table) simp_all
  have dec3: "decodes cl (m_tables ?st3 ! 2)" using tab(5) sh(1) by simp
  have total: "hlit + 257 + (hdist + 1) \<le> 320" using small by simp
  have nil: "lens_read [] ?st3" by (simp add: lens_read_def)
  obtain st4 where st4: "read_len_codes (call_env src n (hr_cap ?D)) (hlit + 257 + (hdist + 1)) (length ([] :: nat list)) ?st3 = Some (Inr (hlit + 257 + (hdist + 1), st4))"
    "holds src n (?D\<lparr> hr_st := st4 \<rparr>) bs3 out" "reading ?st3 st4" "m_table_sizes st4 = m_table_sizes ?st3" "lens_read ls st4" "length ls = hlit + 257 + (hdist + 1)"
    using read_len_codes_run [OF cl(1) total h3 dec3 nil d(6)] by blast
  have sz: "m_table_sizes st4 ! 0 = hlit + 257" "m_table_sizes st4 ! 1 = hdist + 1" "m_table_sizes ?st3 ! 0 = hlit + 257" "m_table_sizes ?st3 ! 1 = hdist + 1"
    using st4(4) st2(4) by simp_all
  have le: "hlit + 257 \<le> 288" "hdist + 1 \<le> 288" using small by simp_all
  obtain st5 st6 where st6: "set_sizes 0 (take (hlit + 257) (m_len_codes st4)) st4 = Some st5" "set_sizes 1 (take (hdist + 1) (drop (hlit + 257) (m_len_codes st5))) st5 = Some st6"
    "holds src n (?D\<lparr> hr_st := st6 \<rparr>) bs3 out" "sized 0 lit st6" "sized 1 dist st6" "reading st4 st6"
    using sizes_of_data [OF st4(2,5,6) le _ _ sz(1,2)] d(7-10) by blast
  let ?E = "?D\<lparr> hr_st := st6\<lparr> m_type := 1, m_state := Tables \<rparr> \<rparr>"
  have rd: "m_final st6 = m_final ?st1" "m_type st6 = 2" using st6(6) st4(3) st2(3) by (simp_all add: reading_def)
  have "tinfl_step (call_env src n (hr_cap ?D)) (hr_st ?D) = Some (None, hr_st ?E)"
    unfolding tinfl_step_def kind tinfl_point.case step_tables_def
    using tab(1-3) st4(1) st6(1,2) rd(2) sz by (simp add: goto_def Let_def)
  then have 2: "leads realloc src n ?D ?E" using leads_step by fastforce
  have "at_tables src n ?E 1 bs3 out" using st6(3) by (simp add: at_tables_def)
  moreover have "sized 0 lit (hr_st ?E)" "sized 1 dist (hr_st ?E)" "m_final (hr_st ?E) mod 2 = final" using st6(4,5) rd(1) h1(2) by (simp_all add: sized_def)
  ultimately obtain F where "leads realloc src n ?E F" "after_block src n F final bs' out'" using coded_run [OF _ _ _ _ dec ok] by blast
  then show ?thesis using leads_trans [OF 1 leads_trans [OF 2]] by blast
qed

end
