(* ===== verification/TinflInflate.thy ===== *)
theory TinflInflate
  imports TinflLengths
begin

unbundle bit_operations_syntax

text \<open>
  The whole stream: a run of \<^verbatim>\<open>tinfl_decompress_mem_to_heap\<close> from its first call to the block it returns.
\<close>

subsection \<open>Blocks\<close>

lemma inflate_block_length: "inflate_block btype bs out = Some (bs', out') \<Longrightarrow> length out \<le> length out'"
  by (auto simp: inflate_block_def inflate_stored_def bind_eq_Some_conv dest: inflate_codes_length split: if_splits)

lemma blocks_body:
  assumes "Option.bind (read_bits 1 bs) (\<lambda>(final, bs). Option.bind (read_bits 2 bs) (\<lambda>(btype, bs).
     Option.bind (inflate_block btype bs out) (\<lambda>(bs, out). if final = 1 then Some (bs, out) else f bs out))) = Some r"
  obtains final bs1 btype bs2 bs3 out3 where "read_bits 1 bs = Some (final, bs1)" "read_bits 2 bs1 = Some (btype, bs2)"
    "inflate_block btype bs2 out = Some (bs3, out3)" "final = 1 \<and> r = (bs3, out3) \<or> final \<noteq> 1 \<and> f bs3 out3 = Some r"
  using assms by (fastforce simp: bind_eq_Some_conv split: if_splits)

lemma inflate_blocks_length: "inflate_blocks bs out = Some r \<Longrightarrow> length out \<le> length (snd r)"
proof (rule inflate_blocks.raw_induct [where P = "\<lambda>bs out r. length out \<le> length (snd r)"])
  fix f bs out and r :: "bool list \<times> u8 list"
  assume IH: "\<And>bs out r. f bs out = Some r \<Longrightarrow> length out \<le> length (snd r)"
    and step: "Option.bind (read_bits 1 bs) (\<lambda>(final, bs). Option.bind (read_bits 2 bs) (\<lambda>(btype, bs).
     Option.bind (inflate_block btype bs out) (\<lambda>(bs, out). if final = 1 then Some (bs, out) else f bs out))) = Some r"
  from step obtain final bs1 btype bs2 bs3 out3 where "read_bits 1 bs = Some (final, bs1)" "read_bits 2 bs1 = Some (btype, bs2)"
    and b: "inflate_block btype bs2 out = Some (bs3, out3)" "final = 1 \<and> r = (bs3, out3) \<or> final \<noteq> 1 \<and> f bs3 out3 = Some r"
    by (rule blocks_body)
  have "length out \<le> length out3" using inflate_block_length [OF b(1)] .
  also have "length out3 \<le> length (snd r)" using b(2) IH [of bs3 out3 r] by auto
  finally show "length out \<le> length (snd r)" .
qed

lemma block_run:
  assumes at: "at_block src n C bs out" "read_bits 1 bs = Some (final, bs1)" "read_bits 2 bs1 = Some (btype, bs2)"
    and dec: "inflate_block btype bs2 out = Some (bs', out')" and ok: "length out' \<le> limit" "allocates realloc limit"
  shows "\<exists>D. leads realloc src n C D \<and> after_block src n D final bs' out'"
proof -
  consider "btype = 0" | "btype = 1" | "btype = 2" using dec by (auto simp: inflate_block_def split: if_splits)
  then show ?thesis
  proof cases
    case 1
    then show ?thesis using stored_run [OF at(1,2) _ _ ok] at(3) dec by (simp add: inflate_block_def)
  next
    case 2
    then show ?thesis using fixed_run [OF at(1,2) _ _ ok] at(3) dec by (simp add: inflate_block_def)
  next
    case 3
    then obtain lit dist bs3 where "read_dynamic bs2 = Some ((lit, dist), bs3)" "inflate_codes lit dist bs3 out = Some (bs', out')"
      using dec by (auto simp: inflate_block_def bind_eq_Some_conv)
    then show ?thesis using dynamic_run [OF at(1,2) _ _ _ ok] at(3) 3 by blast
  qed
qed

definition at_trailer :: "bytes \<Rightarrow> nat \<Rightarrow> heap_run \<Rightarrow> bool list \<Rightarrow> bytes \<Rightarrow> bool" where
  "at_trailer src n C bs out \<longleftrightarrow> m_state (hr_st C) = Trailer \<and> holds src n C bs out"

lemma blocks_run:
  assumes alloc: "allocates realloc limit"
  shows "inflate_blocks bs out = Some r \<Longrightarrow> at_block src n C bs out \<Longrightarrow> length (snd r) \<le> limit \<Longrightarrow>
    \<exists>D. leads realloc src n C D \<and> at_trailer src n D (fst r) (snd r)"
proof -
  let ?P = "\<lambda>bs out r. \<forall>C. at_block src n C bs out \<longrightarrow> inflate_blocks bs out = Some r \<longrightarrow> length (snd r) \<le> limit \<longrightarrow>
    (\<exists>D. leads realloc src n C D \<and> at_trailer src n D (fst r) (snd r))"
  have *: "?P bs out r" if "inflate_blocks bs out = Some r" for bs out r
  proof (rule inflate_blocks.raw_induct [where P = ?P, OF _ that])
    fix f bs out and r :: "bool list \<times> u8 list"
    assume IH: "\<And>bs out r. f bs out = Some r \<Longrightarrow> ?P bs out r"
      and step: "Option.bind (read_bits 1 bs) (\<lambda>(final, bs). Option.bind (read_bits 2 bs) (\<lambda>(btype, bs).
       Option.bind (inflate_block btype bs out) (\<lambda>(bs, out). if final = 1 then Some (bs, out) else f bs out))) = Some r"
    show "?P bs out r"
    proof (intro allI impI)
      fix C
      assume C: "at_block src n C bs out" "inflate_blocks bs out = Some r" "length (snd r) \<le> limit"
      from step obtain final bs1 btype bs2 bs3 out3 where b: "read_bits 1 bs = Some (final, bs1)" "read_bits 2 bs1 = Some (btype, bs2)"
        "inflate_block btype bs2 out = Some (bs3, out3)" and r: "final = 1 \<and> r = (bs3, out3) \<or> final \<noteq> 1 \<and> f bs3 out3 = Some r"
        by (rule blocks_body)
      have more: "inflate_blocks bs3 out3 = Some r" if "final \<noteq> 1"
        using C(2) b that by (subst (asm) inflate_blocks.simps) simp
      have len: "length out3 \<le> limit" using r more inflate_blocks_length [of bs3 out3 r] C(3) by auto
      obtain D where D: "leads realloc src n C D" "after_block src n D final bs3 out3" using block_run [OF C(1) b len alloc] by blast
      show "\<exists>D. leads realloc src n C D \<and> at_trailer src n D (fst r) (snd r)"
      proof (cases "final = 1")
        case True
        then show ?thesis using D r by (intro exI [of _ D]) (simp add: after_block_def at_trailer_def)
      next
        case False
        then have "at_block src n D bs3 out3" using D(2) by (simp add: after_block_def at_block_def)
        moreover have "f bs3 out3 = Some r" using r False by simp
        ultimately obtain E where "leads realloc src n D E" "at_trailer src n E (fst r) (snd r)" using IH more [OF False] C(3) by blast
        then show ?thesis using leads_trans [OF D(1)] by blast
      qed
    qed
  qed
  then show "inflate_blocks bs out = Some r \<Longrightarrow> at_block src n C bs out \<Longrightarrow> length (snd r) \<le> limit \<Longrightarrow> ?thesis" by blast
qed

subsection \<open>The whole run\<close>

lemma trailer_outcome:
  assumes "at_trailer src n C bs out"
  shows "outcome realloc src n C = Some (if hr_null C then None else Some (out_buf (hr_st C)), length out)"
proof -
  let ?D = "C\<lparr> hr_st := (hr_st C)\<lparr> m_state := Finished \<rparr> \<rparr>"
  have c: "m_state (hr_st C) = Trailer" and h: "holds src n C bs out" using assms by (simp_all add: at_trailer_def)
  have "tinfl_step (call_env src n (hr_cap C)) (hr_st C) = Some (None, hr_st ?D)" using c by (simp add: tinfl_step_def step_trailer_def goto_def)
  then have "outcome realloc src n C = outcome realloc src n ?D" using outcome_step by fastforce
  moreover have run: "tinfl_run (call_env src n (hr_cap C)) (hr_st ?D) = Some (STATUS_DONE, hr_st ?D)"
    by (subst tinfl_run.simps) (simp add: tinfl_step_def cr_return_def)
  moreover have "hr_out C \<le> length out" "out_cur (hr_st C) = length out" using h by (simp_all add: holds_def)
  ultimately show ?thesis
    by (simp add: outcome_def after_call_def common_exit_def no_flags_def negative_status_def Let_def)
qed

theorem mem_to_heap_run:
  assumes "inflate (take n src) = Some data" "n \<le> length src" "shape decomp" "allocates realloc (length data)"
  shows "\<exists>r. tinfl_decompress_mem_to_heap realloc decomp src n no_flags = Some (r, length data)
    \<and> take (length data) (case r of None \<Rightarrow> [] | Some b \<Rightarrow> b) = data"
proof -
  obtain bs' where dec: "inflate_blocks (bits_of_bytes (take n src)) [] = Some (bs', data)" using assms(1) by (auto simp: inflate_def)
  let ?C = "\<lparr> hr_in = 0, hr_out = 0, hr_cap = 0, hr_null = True, hr_st = (tinfl_init decomp)\<lparr> in_cur := 0, out_cur := 0, out_buf := [] \<rparr> \<rparr>"
  have start: "tinfl_decompress_mem_to_heap realloc decomp src n no_flags = outcome realloc src n ?C"
    unfolding tinfl_decompress_mem_to_heap_def by (subst loop_outcome) simp_all
  let ?st = "(hr_st ?C)\<lparr> m_bit_buf := 0, m_num_bits := 0, m_dist := 0, m_counter := 0, m_zhdr0 := 0, m_zhdr1 := 0, m_z_adler32 := 1, m_check_adler32 := 1, m_state := Block \<rparr>"
  have "tinfl_step (call_env src n (hr_cap ?C)) (hr_st ?C) = Some (None, ?st)"
    by (simp add: tinfl_step_def tinfl_init_def step_init_def goto_def)
  then have 1: "leads realloc src n ?C (?C\<lparr> hr_st := ?st \<rparr>)" by (rule leads_step)
  have at: "at_block src n (?C\<lparr> hr_st := ?st \<rparr>) (bits_of_bytes (take n src)) []"
    using assms(2,3) by (simp add: at_block_def holds_def stream_def low_bits_def tinfl_init_def shape_def)
  obtain D where D: "leads realloc src n (?C\<lparr> hr_st := ?st \<rparr>) D" "at_trailer src n D bs' data"
    using blocks_run [OF assms(4) dec at] by auto
  have "outcome realloc src n ?C = outcome realloc src n D" using leads_trans [OF 1 D(1)] by (simp add: leads_def)
  also have "\<dots> = Some (if hr_null D then None else Some (out_buf (hr_st D)), length data)" using trailer_outcome [OF D(2)] .
  finally have run: "tinfl_decompress_mem_to_heap realloc decomp src n no_flags = Some (if hr_null D then None else Some (out_buf (hr_st D)), length data)"
    unfolding start .
  have h: "holds src n D bs' data" using D(2) by (simp add: at_trailer_def)
  have "take (length data) (case (if hr_null D then None else Some (out_buf (hr_st D))) of None \<Rightarrow> [] | Some b \<Rightarrow> b) = data"
  proof (cases "hr_null D")
    case True
    then have "data = []" using h by (auto simp: holds_def)
    then show ?thesis by simp
  next
    case False
    then show ?thesis using holdsD(4) [OF h] by simp
  qed
  then show ?thesis using run by blast
qed

end
