(* ===== verification/TinflChecksum.thy ===== *)
theory TinflChecksum
  imports Tinfl
begin

text \<open>
  The checksum of \<^verbatim>\<open>tinfl_decompress\<close> against the definition of Adler-32 in RFC 1950: the two sums are reduced after each
  byte there, and here only after blocks of 5552 bytes, the most that cannot overflow 32 bits.
\<close>

subsection \<open>The reference\<close>

definition adler_ref :: "nat \<times> nat \<Rightarrow> u8 \<Rightarrow> nat \<times> nat" where
  "adler_ref s c = (let a = (fst s + unat c) mod 65521 in (a, (snd s + a) mod 65521))"

definition adler_word :: "nat \<times> nat \<Rightarrow> u32" where
  "adler_word s = word_of_nat (snd s * 65536 + fst s)"

definition adler32 :: "bytes \<Rightarrow> u32" where
  "adler32 xs = adler_word (foldl adler_ref (1, 0) xs)"

subsection \<open>Sums without overflow\<close>

definition sum_byte :: "nat \<times> nat \<Rightarrow> u8 \<Rightarrow> nat \<times> nat" where
  "sum_byte s c = (fst s + unat c, snd s + fst s + unat c)"

definition words_of :: "nat \<times> nat \<Rightarrow> u32 \<times> u32" where
  "words_of s = (word_of_nat (fst s), word_of_nat (snd s))"

lemma adler_byte_words: "adler_byte (words_of s) c = words_of (sum_byte s c)"
  by (simp add: adler_byte_def words_of_def sum_byte_def Let_def add.assoc of_nat_unat)

lemma foldl_words: "foldl adler_byte (words_of s) xs = words_of (foldl sum_byte s xs)"
  by (induction xs arbitrary: s) (simp_all add: adler_byte_words)

lemma foldl_ref: "foldl adler_ref (a mod 65521, b mod 65521) xs = map_prod (\<lambda>n. n mod 65521) (\<lambda>n. n mod 65521) (foldl sum_byte (a, b) xs)"
proof (induction xs arbitrary: a b)
  case (Cons c xs)
  have "adler_ref (a mod 65521, b mod 65521) c = ((a + unat c) mod 65521, (b + a + unat c) mod 65521)"
    by (simp add: adler_ref_def Let_def mod_simps add.assoc)
  then show ?case using Cons.IH [of "a + unat c" "b + a + unat c"] by (simp add: sum_byte_def)
qed simp

lemma foldl_sum_bound:
  "foldl sum_byte (a, b) xs = (c, d) \<Longrightarrow> c \<le> a + 255 * length xs \<and> 2 * d \<le> 2 * b + 2 * length xs * a + 255 * (length xs * (length xs + 1))"
proof (induction xs arbitrary: a b)
  case (Cons x xs)
  have x: "unat x \<le> 255" using unsigned_less [of x, where ?'a = nat] by simp
  let ?n = "length xs"
  have "c \<le> (a + unat x) + 255 * ?n \<and> 2 * d \<le> 2 * (b + a + unat x) + 2 * ?n * (a + unat x) + 255 * (?n * (?n + 1))"
    using Cons.IH [of "a + unat x" "b + a + unat x"] Cons.prems by (simp add: sum_byte_def)
  moreover have "?n * unat x \<le> ?n * 255" by (intro mult_le_mono2 x)
  ultimately show ?case using x unfolding list.size by (simp only: distrib_left distrib_right mult_1 mult_1_right add_0_right Suc_eq_plus1 mult.assoc) linarith
qed simp

lemma block_sums:
  assumes "foldl sum_byte (a, b) xs = (c, d)" "a < 65536" "b < 65536" "length xs \<le> 5552"
  shows "c < 2 ^ 32" "d < 2 ^ 32"
proof -
  have bound: "c \<le> a + 255 * length xs" "2 * d \<le> 2 * b + 2 * length xs * a + 255 * (length xs * (length xs + 1))"
    using foldl_sum_bound [OF assms(1)] by auto
  have "2 * length xs * a \<le> 2 * 5552 * 65535" using assms(2,4) by (intro mult_le_mono) auto
  moreover have "length xs * (length xs + 1) \<le> 5552 * 5553" using assms(4) by (intro mult_le_mono) auto
  ultimately have "c < 4294967296 \<and> d < 4294967296" using bound assms(2-4) by linarith
  then show "c < 2 ^ 32" "d < 2 ^ 32" by simp_all
qed

subsection \<open>Blocks\<close>

lemma adler_block_foldl: "adler_block s xs = foldl adler_byte s xs"
proof (induction s xs rule: adler_block.induct)
  case (1 s xs)
  show ?case
  proof (cases "8 \<le> length xs")
    case True
    then have "adler_block s xs = foldl adler_byte (foldl adler_byte s (take 8 xs)) (drop 8 xs)"
      using 1 by (subst adler_block.simps) simp
    also have "\<dots> = foldl adler_byte s (take 8 xs @ drop 8 xs)" by (simp only: foldl_append)
    finally show ?thesis by simp
  qed (simp add: adler_block.simps)
qed

lemma block_mod:
  assumes "length xs \<le> 5552" "a < 65521" "b < 65521" "adler_block (words_of (a, b)) xs = (s1, s2)"
  shows "(s1 mod 65521, s2 mod 65521) = words_of (foldl adler_ref (a, b) xs)" "fst (foldl adler_ref (a, b) xs) < 65521" "snd (foldl adler_ref (a, b) xs) < 65521"
proof -
  obtain c d where cd: "foldl sum_byte (a, b) xs = (c, d)" by fastforce
  have lt: "c < 2 ^ 32" "d < 2 ^ 32" using block_sums [OF cd] assms(1-3) by auto
  have s: "s1 = word_of_nat c" "s2 = word_of_nat d" using assms(4) by (simp_all add: adler_block_foldl foldl_words cd) (simp_all add: words_of_def)
  have ref: "foldl adler_ref (a, b) xs = (c mod 65521, d mod 65521)" using foldl_ref [of a b xs] assms(2,3) by (simp add: cd)
  have "(word_of_nat n :: u32) mod 65521 = word_of_nat (n mod 65521)" if "n < 2 ^ 32" for n
  proof -
    have "unat ((word_of_nat n :: u32) mod 65521) = n mod 65521" using that by (simp add: unat_mod unsigned_of_nat take_bit_nat_eq_self)
    then show ?thesis by (metis of_nat_unat ucast_id)
  qed
  then show "(s1 mod 65521, s2 mod 65521) = words_of (foldl adler_ref (a, b) xs)" using lt by (simp add: s ref words_of_def)
  show "fst (foldl adler_ref (a, b) xs) < 65521" "snd (foldl adler_ref (a, b) xs) < 65521" by (simp_all add: ref)
qed

lemma adler_blocks_ref:
  "n \<le> 5552 \<Longrightarrow> a < 65521 \<Longrightarrow> b < 65521 \<Longrightarrow>
    adler_blocks n (words_of (a, b)) xs = words_of (foldl adler_ref (a, b) xs) \<and> fst (foldl adler_ref (a, b) xs) < 65521 \<and> snd (foldl adler_ref (a, b) xs) < 65521"
proof (induction n "words_of (a, b)" xs arbitrary: a b rule: adler_blocks.induct)
  case (1 n xs)
  show ?case
  proof (cases "xs = []")
    case True
    then show ?thesis using 1 by (simp add: adler_blocks.simps)
  next
    case False
    obtain s1 s2 where s: "adler_block (words_of (a, b)) (take n xs) = (s1, s2)" by fastforce
    obtain c d where cd: "foldl adler_ref (a, b) (take n xs) = (c, d)" by fastforce
    have m: "(s1 mod 65521, s2 mod 65521) = words_of (c, d)" "c < 65521" "d < 65521"
      using block_mod [OF _ "1.prems"(2,3) s] "1.prems"(1) by (simp_all add: cd)
    have "foldl adler_ref (c, d) (drop n xs) = foldl adler_ref (a, b) (take n xs @ drop n xs)" by (simp only: foldl_append cd)
    then have "foldl adler_ref (c, d) (drop n xs) = foldl adler_ref (a, b) xs" by simp
    moreover have "adler_blocks n (words_of (a, b)) xs = adler_blocks 5552 (words_of (c, d)) (drop n xs)"
      using False m(1) by (subst adler_blocks.simps) (simp add: s)
    ultimately show ?thesis
      using "1.hyps" [OF False s [symmetric] refl m(1) _ m(2,3)] m(1) by simp
  qed
qed

lemma split_adler_word:
  assumes "a < 65536" "b < 65536"
  shows "(adler_word (a, b) AND 0xffff, drop_bit 16 (adler_word (a, b))) = words_of (a, b)"
    and "push_bit 16 (word_of_nat b) + word_of_nat a = adler_word (a, b)"
proof -
  have "b * 65536 + a < 2 ^ 32" using assms by simp
  then have w: "unat (adler_word (a, b)) = b * 65536 + a"
    by (simp only: adler_word_def fst_conv snd_conv unsigned_of_nat) (simp add: take_bit_nat_eq_self)
  have "unat (adler_word (a, b) AND 0xffff) = a"
  proof -
    have "(0xffff :: u32) = mask 16" by (simp add: mask_eq_exp_minus_1)
    then have "adler_word (a, b) AND 0xffff = take_bit 16 (adler_word (a, b))" by (simp only: take_bit_eq_mask)
    then have "unat (adler_word (a, b) AND 0xffff) = take_bit 16 (b * 65536 + a)" by (simp only: unsigned_take_bit_eq w)
    then show ?thesis using assms by (simp add: take_bit_eq_mod)
  qed
  moreover have "unat (drop_bit 16 (adler_word (a, b))) = drop_bit 16 (b * 65536 + a)" by (simp only: unat_drop_bit_eq w)
  then have "unat (drop_bit 16 (adler_word (a, b))) = b" using assms by (simp add: drop_bit_eq_div)
  ultimately show "(adler_word (a, b) AND 0xffff, drop_bit 16 (adler_word (a, b))) = words_of (a, b)"
    by (simp add: words_of_def) (metis of_nat_unat ucast_id)
  show "push_bit 16 (word_of_nat b) + word_of_nat a = adler_word (a, b)"
    by (simp add: adler_word_def push_bit_eq_mult)
qed

lemma update_adler32_ref:
  assumes "a < 65521" "b < 65521"
  shows "update_adler32 (adler_word (a, b)) xs = adler_word (foldl adler_ref (a, b) xs)"
    and "fst (foldl adler_ref (a, b) xs) < 65521 \<and> snd (foldl adler_ref (a, b) xs) < 65521"
proof -
  obtain c d where cd: "foldl adler_ref (a, b) xs = (c, d)" by fastforce
  have le: "length xs mod 5552 \<le> 5552" by simp
  note bl = adler_blocks_ref [OF le assms, of xs, unfolded cd]
  show "fst (foldl adler_ref (a, b) xs) < 65521 \<and> snd (foldl adler_ref (a, b) xs) < 65521" using bl by (simp add: cd)
  have "update_adler32 (adler_word (a, b)) xs = (case words_of (c, d) of (s1, s2) \<Rightarrow> push_bit 16 s2 + s1)"
    unfolding update_adler32_def using bl split_adler_word(1) [of a b] assms by simp
  then show "update_adler32 (adler_word (a, b)) xs = adler_word (foldl adler_ref (a, b) xs)"
    using bl split_adler_word(2) [of c d] by (simp add: cd words_of_def)
qed

subsection \<open>Property\<close>

text \<open>
  (C23) The checksum over the output of any sequence of calls, each updating it with the bytes it wrote, is the Adler-32
  checksum of the whole output.
\<close>

theorem adler32_correct: "foldl update_adler32 1 outs = adler32 (concat outs)"
proof -
  have "foldl update_adler32 (adler_word (a, b)) outs = adler_word (foldl adler_ref (a, b) (concat outs))" if "a < 65521" "b < 65521" for a b
    using that
  proof (induction outs arbitrary: a b)
    case (Cons out outs)
    obtain c d where cd: "foldl adler_ref (a, b) out = (c, d)" by fastforce
    then show ?case using update_adler32_ref [OF Cons.prems, of out] Cons.IH [of c d] by simp
  qed simp
  from this [of 1 0] show ?thesis by (simp add: adler32_def adler_word_def)
qed

end
