(* ===== verification/TinflGzip.thy ===== *)
theory TinflGzip
  imports TinflInflate TinflChecksum
begin

unbundle bit_operations_syntax

text \<open>
  What the decompressor promises to its callers: it returns the data of a compressed stream, and with it \<^verbatim>\<open>gzip_decompress\<close> of
  \<^verbatim>\<open>core/utils.c\<close> returns the data of a gzip member.
\<close>

subsection \<open>An example\<close>

text \<open>The stream \<open>4b 04 02 00\<close> holds the byte \<open>61\<close> and a match of three bytes at distance 1.\<close>

lemma fixed_lit_nth: "fixed_lit_lengths ! s = (if s < 144 then 8 else if s < 256 then 9 else if s < 280 then 7 else 8)" if "s < 288"
  using that by (auto simp: fixed_lit_lengths_def nth_append)

lemma fixed_lit_count: "length (filter (\<lambda>t. fixed_lit_lengths ! t = k) [0..<s]) = card {t. t < s \<and> fixed_lit_lengths ! t = k}"
  by (auto simp: length_filter_conv_card intro!: arg_cong [where f = card])

lemma fixed_codes:
  "code_bits fixed_lit_lengths 97 = [True, False, False, True, False, False, False, True]"
  "code_bits fixed_lit_lengths 257 = [False, False, False, False, False, False, True]"
  "code_bits fixed_lit_lengths 256 = [False, False, False, False, False, False, False]"
  "code_bits fixed_dist_lengths 0 = [False, False, False, False, False]"
proof -
  have l: "bl_count fixed_lit_lengths l = (if l = 7 then 24 else if l = 8 then 152 else if l = 9 then 112 else 0)"
    and d: "bl_count fixed_dist_lengths l = (if l = 5 then 32 else 0)" for l
    by (auto simp: bl_count_def fixed_lit_lengths_def fixed_dist_lengths_def)
  have steps: "5 = Suc (Suc (Suc (Suc (Suc 0))))" "7 = Suc (Suc (Suc (Suc (Suc (Suc (Suc 0))))))" by simp_all
  have "first_code fixed_lit_lengths 7 = 0" "first_code fixed_dist_lengths 5 = 0" unfolding steps by (simp_all add: l d)
  moreover have "first_code fixed_lit_lengths 8 = 48" using calculation(1) first_code.simps(2) [of fixed_lit_lengths 7] by (simp add: l)
  ultimately have first: "first_code fixed_lit_lengths 7 = 0" "first_code fixed_lit_lengths 8 = 48" "first_code fixed_dist_lengths 5 = 0" by simp_all
  have "{t. t < 97 \<and> fixed_lit_lengths ! t = 8} = {0..<97}" by (auto simp: fixed_lit_nth)
  then have "huff_code fixed_lit_lengths 97 = 145" using first(2) by (simp add: huff_code_def fixed_lit_nth fixed_lit_count)
  then show "code_bits fixed_lit_lengths 97 = [True, False, False, True, False, False, False, True]"
    by (simp add: code_bits_def fixed_lit_nth upt_rec bit_0)
  have "{t. t < 257 \<and> fixed_lit_lengths ! t = 7} = {256}" by (auto simp: fixed_lit_nth split: if_splits)
  then have "huff_code fixed_lit_lengths 257 = 1" using first(1) by (simp add: huff_code_def fixed_lit_nth fixed_lit_count)
  then show "code_bits fixed_lit_lengths 257 = [False, False, False, False, False, False, True]"
    by (simp add: code_bits_def fixed_lit_nth upt_rec bit_0)
  have "{t. t < 256 \<and> fixed_lit_lengths ! t = 7} = {}" by (auto simp: fixed_lit_nth split: if_splits)
  then have "huff_code fixed_lit_lengths 256 = 0" using first(1) by (simp add: huff_code_def fixed_lit_nth fixed_lit_count)
  then show "code_bits fixed_lit_lengths 256 = [False, False, False, False, False, False, False]"
    by (simp add: code_bits_def fixed_lit_nth upt_rec bit_0)
  have "huff_code fixed_dist_lengths 0 = 0" using first(3) by (simp add: huff_code_def fixed_dist_lengths_def)
  then show "code_bits fixed_dist_lengths 0 = [False, False, False, False, False]"
    by (simp add: code_bits_def fixed_dist_lengths_def upt_rec)
qed

lemma fixed_used: "used fixed_lit_lengths 97" "used fixed_lit_lengths 257" "used fixed_lit_lengths 256" "used fixed_dist_lengths 0"
  by (simp_all add: used_def fixed_valid fixed_lit_nth) (simp add: fixed_dist_lengths_def)

lemma decode_symbol_code: "valid_lengths ls \<Longrightarrow> used ls s \<Longrightarrow> decode_symbol ls (code_bits ls s @ bs) = Some (s, bs)"
  by (simp add: decode_symbol_used)

lemma inflate_example: "inflate [0x4b, 4, 2, 0] = Some [0x61, 0x61, 0x61, 0x61]"
proof -
  let ?rest = "code_bits fixed_lit_lengths 256 @ [False, False]"
  let ?match = "code_bits fixed_lit_lengths 257 @ code_bits fixed_dist_lengths 0 @ ?rest"
  have bits: "bits_of_bytes [0x4b, 4, 2, 0] = [True, True, False] @ code_bits fixed_lit_lengths 97 @ ?match"
    unfolding fixed_codes by code_simp
  note lit = decode_symbol_code [OF fixed_valid(1)] and dist = decode_symbol_code [OF fixed_valid(3)]
  have c1: "decode_symbol fixed_lit_lengths (code_bits fixed_lit_lengths 97 @ ?match) = Some (97, ?match)" using lit fixed_used(1) by blast
  have c2: "decode_symbol fixed_lit_lengths ?match = Some (257, code_bits fixed_dist_lengths 0 @ ?rest)" using lit fixed_used(2) by blast
  have c3: "decode_symbol fixed_dist_lengths (code_bits fixed_dist_lengths 0 @ ?rest) = Some (0, ?rest)" using dist fixed_used(4) by blast
  have c4: "decode_symbol fixed_lit_lengths ?rest = Some (256, [False, False])" using lit fixed_used(3) by blast
  have l: "read_value length_codes 0 bs = Some (3, bs)" "read_value dist_codes 0 bs = Some (1, bs)" for bs
    by (simp_all add: read_value_def length_codes_def dist_codes_def read_bits_def)
  have r: "repeat_match 3 (Suc 0) [0x61] = [0x61, 0x61, 0x61, 0x61]" by (simp add: numeral_3_eq_3)
  have 4: "inflate_codes fixed_lit_lengths fixed_dist_lengths ?rest out = Some ([False, False], out)" for out
    by (subst inflate_codes.simps) (simp add: c4)
  have 2: "inflate_codes fixed_lit_lengths fixed_dist_lengths ?match [0x61] = Some ([False, False], [0x61, 0x61, 0x61, 0x61])"
    by (subst inflate_codes.simps) (simp add: c2 c3 l 4 r del: repeat_match.simps)
  have "inflate_codes fixed_lit_lengths fixed_dist_lengths (code_bits fixed_lit_lengths 97 @ ?match) [] = Some ([False, False], [0x61, 0x61, 0x61, 0x61])"
    by (subst inflate_codes.simps) (simp add: c1 2)
  then have "inflate_block 1 (code_bits fixed_lit_lengths 97 @ ?match) [] = Some ([False, False], [0x61, 0x61, 0x61, 0x61])"
    by (simp add: inflate_block_def)
  then have "inflate_blocks (bits_of_bytes [0x4b, 4, 2, 0]) [] = Some ([False, False], [0x61, 0x61, 0x61, 0x61])"
    unfolding bits by (subst inflate_blocks.simps) (simp add: read_bits_def)
  then show ?thesis by (simp add: inflate_def)
qed

text \<open>A decompressor as it may be on the stack: every array has its size, nothing else is known.\<close>

definition stack_table :: tinfl_huff_table where
  "stack_table = \<lparr> m_code_size = replicate 288 7, m_look_up = [], m_tree = [] \<rparr>"

definition stack_decompressor :: tinfl_state where
  "stack_decompressor = \<lparr> m_state = Finished, m_num_bits = 3, m_bit_buf = 5, m_zhdr0 = 0, m_zhdr1 = 0, m_z_adler32 = 0, m_check_adler32 = 0,
     m_final = 0, m_type = 0, m_dist = 0, m_counter = 0, m_dist_from_out_buf_start = 0, m_table_sizes = [1, 2, 3],
     m_tables = replicate 3 stack_table, m_len_codes = replicate 457 9, in_cur = 0, out_cur = 0, out_buf = [] \<rparr>"

lemma stack_shape: "shape stack_decompressor"
  by (simp add: shape_def stack_decompressor_def stack_table_def)

lemma example_allocates: "allocates (realloc_zero 129) (Suc (Suc (Suc (Suc 0))))"
  by (auto simp: allocates_def realloc_zero_ok realloc_zero_def)

subsection \<open>Properties\<close>

text \<open>
  (C3) For every valid compressed stream (with stored blocks, fixed or dynamic codes, in any number), whatever follows it in the
  input and whatever the decompressor on the stack held before, \<^verbatim>\<open>tinfl_decompress_mem_to_heap\<close> returns, and returns the data that
  RFC 1951 assigns to the stream with its length, if memory for it can be had. The block is null at most for empty data.
\<close>

theorem decompress_correct:
  assumes "inflate (take n src) = Some data" "n \<le> length src" "shape decomp" "allocates realloc (length data)"
  shows "\<exists>r. tinfl_decompress_mem_to_heap realloc decomp src n no_flags = Some (r, length data)
    \<and> take (length data) (case r of None \<Rightarrow> [] | Some b \<Rightarrow> b) = data"
  using assms by (rule mem_to_heap_run)

theorem decompress_correct_witness:
  "\<exists>r. tinfl_decompress_mem_to_heap (realloc_zero 129) stack_decompressor [0x4b, 4, 2, 0, 99] 4 no_flags = Some (r, 4)
    \<and> take 4 (case r of None \<Rightarrow> [] | Some b \<Rightarrow> b) = [0x61, 0x61, 0x61, 0x61]"
proof -
  have four: "Suc (Suc (Suc (Suc 0))) = 4" by simp
  show ?thesis
    using decompress_correct [of 4 "[0x4b, 4, 2, 0, 99]" "[0x61, 0x61, 0x61, 0x61]" stack_decompressor "realloc_zero 129"] example_allocates
    by (simp add: inflate_example stack_shape four)
qed

text \<open>The decompressor as \<^verbatim>\<open>gzip_decompress\<close> uses it: no flags, and the first \<^verbatim>\<open>*decompressed_size\<close> bytes of the block.\<close>

definition tinfl_inflater :: "(bytes \<Rightarrow> nat \<Rightarrow> bytes option) \<Rightarrow> tinfl_state \<Rightarrow> inflater" where
  "tinfl_inflater realloc decomp data n = (case tinfl_decompress_mem_to_heap realloc decomp data n no_flags of
     Some (Some b, k) \<Rightarrow> Some (take k b)
   | _ \<Rightarrow> None)"

lemma tinfl_inflater_run:
  assumes "inflate (take n src) = Some data" "data \<noteq> []" "n \<le> length src" "shape decomp" "allocates realloc (length data)"
  shows "tinfl_inflater realloc decomp src n = Some data"
proof -
  obtain r where r: "tinfl_decompress_mem_to_heap realloc decomp src n no_flags = Some (r, length data)"
    "take (length data) (case r of None \<Rightarrow> [] | Some b \<Rightarrow> b) = data"
    using mem_to_heap_run [OF assms(1,3,4,5)] by blast
  then obtain b where "r = Some b" using assms(2) by (cases r) auto
  then show ?thesis using r by (simp add: tinfl_inflater_def)
qed

text \<open>
  (C16) \<^verbatim>\<open>gzip_decompress\<close> on a gzip member, with or without the name of the file in its header, gives exactly the data that was
  compressed, if there is any.
\<close>

theorem gzip_member_decompressed:
  assumes "header_ok flags rest name" "length (gzip_header flags rest name @ body) < 2 ^ 64"
    and "inflate body = Some data" "data \<noteq> []" "shape decomp" "allocates realloc (length data)"
  shows "gzip_decompress (tinfl_inflater realloc decomp) (Some (gzip_header flags rest name @ body @ behind))
      (length (gzip_header flags rest name @ body)) True = Some (Inr data)"
proof -
  have "tinfl_inflater realloc decomp (body @ behind) (length body) = Some data"
    using assms(3-6) by (intro tinfl_inflater_run) simp_all
  then show ?thesis using gzip_decompress_member [OF assms(1,2), of "tinfl_inflater realloc decomp" behind] by simp
qed

theorem gzip_member_decompressed_witness:
  "gzip_decompress (tinfl_inflater (realloc_zero 129) stack_decompressor)
     (Some (gzip_header 8 (replicate 6 0) (Some [102, 111, 111]) @ [0x4b, 4, 2, 0] @ [99])) (length (gzip_header 8 (replicate 6 0) (Some [102, 111, 111]) @ [0x4b, 4, 2, 0])) True
   = Some (Inr [0x61, 0x61, 0x61, 0x61])"
proof (rule gzip_member_decompressed)
  show "header_ok 8 (replicate 6 0) (Some [102, 111, 111])" by (simp add: header_ok_def no_nul_def)
qed (simp_all add: gzip_header_def inflate_example stack_shape example_allocates)

end
