(* ===== verification/Spec2Isabelle.thy ===== *)
theory Spec2Isabelle
  imports Ringbuffer DList StrUtils StrHash StrFormat MsgpackBuffer MsgpackStream MsgpackZone MsgpackSafety MsgpackResume MsgpackDelivery LogStdio Processes LuaTables LuaSymbols LuaDebug TinflGzip
begin

text \<open>
  Lucciefr is an agent that runs inside another process: a core library in C (\<^verbatim>\<open>src/core\<close>), an embedded
  LuaJIT, and MessagePack (\<^verbatim>\<open>src/msgpack-c\<close>) as the format of everything that is sent. This
  development models the part the program itself computes with: its containers, its string code, the
  MessagePack serializer and deserializer in C, and the logging system that is built from them.

  \<^bold>\<open>How the parts interact.\<close> A log call (\<^verbatim>\<open>core/log.c\<close>) formats its text (\<^verbatim>\<open>core/strutils.c\<close>),
  serializes a message into a growing buffer (\<^verbatim>\<open>pack_template.h\<close>, \<^verbatim>\<open>sbuffer.h\<close>), counts checkpoints in a
  hash table (\<^verbatim>\<open>core/uthash.h\<close>) and hands the buffer to a linked list of backends (\<^verbatim>\<open>core/list.h\<close>). The text
  backend (\<^verbatim>\<open>core/logstdio.c\<close>) deserializes it (\<^verbatim>\<open>unpack.c\<close>, \<^verbatim>\<open>unpack_template.h\<close>) and prints it with its
  time (\<^verbatim>\<open>core/timing.c\<close>) to a stream. Each step is a definition over the ones it calls, so that
  \<open>message_reaches_streams\<close> in \<open>LogStdio\<close> follows a message from the call to the text. Around this stand the ring
  buffer, the utilities and the process functions.

  \<^bold>\<open>The theories.\<close>
  \<^item> \<open>Prelude\<close>, \<open>CString\<close>: machine types, arrays with bounds, blocks of memory, C strings.
  \<^item> \<open>Ringbuffer\<close>: \<^verbatim>\<open>core/ringbuffer.c\<close>; refinement of a bounded queue (locale \<open>bounded_queue\<close>)
    under any sequence of pushes and pops.
  \<^item> \<open>DList\<close>: the macros of \<^verbatim>\<open>core/list.h\<close> on a heap of nodes; refinement of sequences under any
    sequence of operations (locale \<open>linked_list\<close>, interpretation \<open>dll\<close>).
  \<^item> \<open>StrUtils\<close>, \<open>StrHash\<close>, \<open>StrFormat\<close>: the three parts of \<^verbatim>\<open>core/strutils.c\<close>.
  \<^item> \<open>MsgpackPack\<close>, \<open>MsgpackObject\<close>, \<open>MsgpackSink\<close>, \<open>MsgpackBuffer\<close>: the packers, objects with comparison
    and printing, the contract of a packer's sink as a locale, and the simple buffer as its instance.
  \<^item> \<open>MsgpackUnpack\<close>, \<open>MsgpackRoundtrip\<close>, \<open>MsgpackStream\<close>: the state machine of the deserializer, the round trip
    with the serializer, and resumption when the data comes in parts.
  \<^item> \<open>Uthash\<close>: the hash table; refinement of a list of entries (locale \<open>keyed_table\<close>, interpretation \<open>uth\<close>).
  \<^item> \<open>Log\<close>, \<open>Timing\<close>, \<open>LogStdio\<close>: the logging system, time stamps and the text backend.
  \<^item> \<open>Utils\<close>, \<open>Processes\<close>: hex dumps, gzip headers, the library directory (\<^verbatim>\<open>core/utils.c\<close>), the lookup of
    compiled-in resources (\<^verbatim>\<open>core/symbols.c\<close>), and the process functions for Linux (\<^verbatim>\<open>core/linux/processes.c\<close>).
  \<^item> \<open>MsgpackZone\<close>: the memory zones (\<^verbatim>\<open>zone.c\<close>, \<^verbatim>\<open>zone.h\<close>) over a map of the allocated blocks, with an
    allocator as parameter; the chunks, the zone itself and the finalizer array are blocks of it. The invariant \<open>zone_ok\<close>
    carries two properties over any sequence of calls: the regions given out are disjoint, aligned and inside live
    chunks, and freeing the zone restores memory and has run every finalizer that was registered.
  \<^item> \<open>MsgpackSafety\<close>: type safety of the state machine on arbitrary data, by an invariant of its frames (\<open>frames_ok\<close>)
    that every step keeps, progress of every step, and frame rules (a run does not depend on what precedes
    its data, nor on the flag for references). Every read of the data is checked, so that progress means that none leaves it.
  \<^item> \<open>MsgpackResume\<close>: progress of runs that resume in the middle of a value, also behind a cut extension header.
  \<^item> \<open>MsgpackUnpacker\<close>, \<open>MsgpackDelivery\<close>: the streaming deserializer (\<^verbatim>\<open>unpack.c\<close>, \<^verbatim>\<open>unpack.h\<close>) with its buffers
    shared by reference counts. The invariant \<open>unp_ok\<close> (counts are numbers of owners), with the bytes that objects
    rely on as ghost state (\<open>needs\<close>), carries memory safety for any client; \<open>stream_ok\<close> ties the context to the data taken so far, so that every call
    is defined unless that data has an extension header of the largest length; delivery combines them with the
    round trip and resumption.
  \<^item> \<open>LuaState\<close>: the C interface of Lua (\<^verbatim>\<open>lj_api.c\<close>) as a monad of states and errors: values, the frame of the running C
    function, tables as slots in the order of traversal. A table is read as a map (\<open>tab_map\<close>), and every operation has a
    run rule in \<open>lua_simps\<close> for states whose stack is written out, so that a function of the program is run by \<open>simp\<close>.
  \<^item> \<open>LuaUtils\<close>, \<open>LuaFields\<close>, \<open>LuaTables\<close>: \<^verbatim>\<open>core/luautils.c\<close> and its macros: functions, calls, pointers and modules; setting fields;
    and the table functions, whose loops are shown to return and to compute what their names say.
  \<^item> \<open>LuaSymbols\<close>: the Lua side of \<^verbatim>\<open>core/symbols.c\<close>, and running a script from C down to the resource it falls back to.
  \<^item> \<open>LuaDebug\<close>: the traces, dumps and formatted messages of \<^verbatim>\<open>core/luautils.c\<close>, with the frames of the running
    functions as a parameter, and what a failing script leaves behind when it is run with the trace.
  \<^item> \<open>Tinfl\<close>, \<open>TinflChecksum\<close>: the decompressor \<^verbatim>\<open>core/tinfl.c\<close>, a coroutine, as steps between the points at which it may return
    (\<open>tinfl_step\<close>), with its helpers; its checksum is Adler-32. \<^verbatim>\<open>m_raw_header\<close> and \<^verbatim>\<open>m_num_extra\<close> live only within a step.
  \<^item> \<open>Inflate\<close>, \<open>HuffmanCode\<close>: the format as RFC 1951 gives it, over lists of bits, and the theory of its codes (no code begins another,
    and complete codes leave no gap), independent of the implementation.
  \<^item> \<open>TinflTables\<close>, \<open>TinflBits\<close>: the look-up table and the tree decode the code they were built for (\<open>build_table_run\<close>), and every
    operation on the bit buffer takes the bits the format says (\<open>stream\<close>, \<open>huff_decode_run\<close>).
  \<^item> \<open>TinflRun\<close>, \<open>TinflCodes\<close>, \<open>TinflLoop\<close>, \<open>TinflStored\<close>, \<open>TinflBlocks\<close>, \<open>TinflLengths\<close>, \<open>TinflInflate\<close>: a run through all calls of
    \<^verbatim>\<open>tinfl_decompress_mem_to_heap\<close>, while the block grows (\<open>leads\<close>, \<open>holds\<close>), for literals and matches on the slow and the fast path,
    stored blocks, fixed and dynamic codes.
  \<^item> \<open>TinflGzip\<close>: the promise to the callers, up to \<^verbatim>\<open>gzip_decompress\<close>.

  \<^bold>\<open>Conventions.\<close> Undefined behaviour of C (access outside a block or to freed memory, a null pointer that is
  followed, signed overflow, a loop that does not return, a union member that was not stored) is the
  result \<open>None\<close>; errors the code reports are values. Machine integers are words or have their wrap-around
  written out. The target is 64-bit, little-endian, with 32-bit \<^verbatim>\<open>int\<close>. Loops that may not end are partial
  functions in the option monad, so that termination is part of every property that gives a result;
  no fuel is used. What comes from the system (allocation, time, process id, \<^verbatim>\<open>vsnprintf\<close>, files) is an argument
  of the definitions, with what is assumed of it in the hypotheses of the properties, each of them
  with an instance in its witness.

  \<^bold>\<open>Not modelled.\<close> LuaJIT behind its C interface, the C++ part of msgpack-c with its generated headers, and
  LuaFileSystem are third-party code that the program only calls. Code for Windows, thread creation, injection and
  process start are calls of the operating system. The manifest lists each part.
\<close>

end
